(* ===== verification/Prelude.thy ===== *)
theory Prelude
  imports Main "HOL-Library.Word" "HOL-Library.Monad_Syntax"
begin

unbundle bit_operations_syntax

text \<open>
  Shared vocabulary of the development: the Go integer types as words, the panic
  and error conventions, slicing of byte slices, the big-endian accessors of
  Go's \<^verbatim>\<open>encoding/binary\<close>, and the generic list and word lemmas the component
  theories rest on.

  Conventions. A Go \<^verbatim>\<open>uintN\<close> is an \<open>N word\<close> (arithmetic wraps). A Go \<^verbatim>\<open>int32\<close>
  is an \<open>int\<close> whose results are folded back into range by \<open>i32\<close>; a Go \<^verbatim>\<open>int\<close>
  (64 bit, only used for lengths and counters here) is an \<open>int\<close> or a \<open>nat\<close>.
  A run-time panic (index or slice out of range, nil dereference, division by zero,
  explicit \<^verbatim>\<open>panic\<close>) is \<open>None\<close> in a function that has no other failure and
  \<open>Panic\<close> in a function that also returns errors.
\<close>

section \<open>Types\<close>

type_synonym byte = "8 word"
type_synonym u16 = "16 word"
type_synonym u32 = "32 word"
type_synonym bytes = "byte list"

datatype ('e, 'a) outcome = Panic | Fail (failure: 'e) | Ok (value_of: 'a)

fun outcome_bind :: "('e, 'a) outcome \<Rightarrow> ('a \<Rightarrow> ('e, 'b) outcome) \<Rightarrow> ('e, 'b) outcome" where
  "outcome_bind Panic f = Panic"
| "outcome_bind (Fail e) f = Fail e"
| "outcome_bind (Ok a) f = f a"

definition or_panic :: "'a option \<Rightarrow> ('e, 'a) outcome" where
  "or_panic r = (case r of None \<Rightarrow> Panic | Some a \<Rightarrow> Ok a)"

lemma or_panic_simps [simp]: "or_panic None = Panic" "or_panic (Some a) = Ok a"
  by (simp_all add: or_panic_def)

lemma outcome_bind_Ok_iff:
  "outcome_bind m f = Ok b \<longleftrightarrow> (\<exists>a. m = Ok a \<and> f a = Ok b)"
  by (cases m) auto

section \<open>Signed 32-bit arithmetic\<close>

definition i32 :: "int \<Rightarrow> int" where
  "i32 x = (x + 2 ^ 31) mod 2 ^ 32 - 2 ^ 31"

lemma i32_id: "- (2 ^ 31) \<le> x \<Longrightarrow> x < 2 ^ 31 \<Longrightarrow> i32 x = x"
  unfolding i32_def by (subst mod_pos_pos_trivial) simp_all

lemma i32_range: "- (2 ^ 31) \<le> i32 x" "i32 x < 2 ^ 31"
proof -
  have "0 \<le> (x + 2 ^ 31) mod 2 ^ 32" "(x + 2 ^ 31) mod 2 ^ 32 < 2 ^ 32"
    by simp_all
  then show "- (2 ^ 31) \<le> i32 x" "i32 x < 2 ^ 31"
    by (simp_all add: i32_def)
qed

section \<open>Slices\<close>

text \<open>\<open>slice_of xs lo hi\<close> is Go's \<^verbatim>\<open>xs[lo:hi]\<close> on a slice whose capacity is its length.\<close>

definition slice_of :: "'a list \<Rightarrow> int \<Rightarrow> int \<Rightarrow> 'a list option" where
  "slice_of xs lo hi =
     (if 0 \<le> lo \<and> lo \<le> hi \<and> hi \<le> int (length xs)
      then Some (take (nat (hi - lo)) (drop (nat lo) xs)) else None)"

lemma slice_of_Some_iff:
  "slice_of xs lo hi = Some ys \<longleftrightarrow>
     0 \<le> lo \<and> lo \<le> hi \<and> hi \<le> int (length xs) \<and> ys = take (nat (hi - lo)) (drop (nat lo) xs)"
  by (auto simp: slice_of_def)

lemma slice_of_length: "slice_of xs lo hi = Some ys \<Longrightarrow> int (length ys) = hi - lo"
  by (auto simp: slice_of_Some_iff)

text \<open>\<open>slice_from xs k\<close> is Go's \<^verbatim>\<open>xs[k:]\<close> and \<open>slice_to xs k\<close> is \<^verbatim>\<open>xs[:k]\<close>.\<close>

definition slice_from :: "'a list \<Rightarrow> nat \<Rightarrow> 'a list option" where
  "slice_from xs k = (if k \<le> length xs then Some (drop k xs) else None)"

definition slice_to :: "'a list \<Rightarrow> nat \<Rightarrow> 'a list option" where
  "slice_to xs k = (if k \<le> length xs then Some (take k xs) else None)"

lemma slice_from_append [simp]: "length xs = k \<Longrightarrow> slice_from (xs @ ys) k = Some ys"
  by (simp add: slice_from_def)

lemma slice_to_append [simp]: "length xs = k \<Longrightarrow> slice_to (xs @ ys) k = Some xs"
  by (simp add: slice_to_def)

lemma slice_from_eq: "k \<le> length xs \<Longrightarrow> slice_from xs k = Some (drop k xs)"
  by (simp add: slice_from_def)

lemma slice_to_eq: "k \<le> length xs \<Longrightarrow> slice_to xs k = Some (take k xs)"
  by (simp add: slice_to_def)

text \<open>\<open>index xs i\<close> is Go's \<^verbatim>\<open>xs[i]\<close>: a panic out of range.\<close>

definition index :: "'a list \<Rightarrow> int \<Rightarrow> 'a option" where
  "index xs i = (if 0 \<le> i \<and> i < int (length xs) then Some (xs ! nat i) else None)"

text \<open>\<open>overwrite xs k ys\<close> is \<^verbatim>\<open>copy(xs[k:], ys)\<close> where \<open>ys\<close> fits: the bytes of \<open>xs\<close>
  from position \<open>k\<close> on are replaced by \<open>ys\<close>.\<close>

definition overwrite :: "'a list \<Rightarrow> nat \<Rightarrow> 'a list \<Rightarrow> 'a list" where
  "overwrite xs k ys = take k xs @ ys @ drop (k + length ys) xs"

lemma length_overwrite [simp]:
  "k + length ys \<le> length xs \<Longrightarrow> length (overwrite xs k ys) = length xs"
  by (simp add: overwrite_def)

lemma take_overwrite: "k \<le> length xs \<Longrightarrow> take k (overwrite xs k ys) = take k xs"
  by (simp add: overwrite_def)

lemma take_drop_overwrite:
  "k \<le> length xs \<Longrightarrow> take (length ys) (drop k (overwrite xs k ys)) = ys"
  by (simp add: overwrite_def)

lemma overwrite_prefix:
  assumes "s \<le> k" "k \<le> length xs"
  shows "take (k + length ys - s) (drop s (overwrite xs k ys)) = take (k - s) (drop s xs) @ ys"
  using assms by (simp add: overwrite_def min_def take_drop add.commute)

section \<open>Big-endian accessors (encoding/binary)\<close>

fun be_Uint16 :: "bytes \<Rightarrow> u16 option" where
  "be_Uint16 (a # b # _) = Some (push_bit 8 (ucast a) OR ucast b)"
| "be_Uint16 _ = None"

fun be_Uint32 :: "bytes \<Rightarrow> u32 option" where
  "be_Uint32 (a # b # c # d # _) =
     Some (push_bit 24 (ucast a) OR push_bit 16 (ucast b) OR push_bit 8 (ucast c) OR ucast d)"
| "be_Uint32 _ = None"

definition be_PutUint16 :: "u16 \<Rightarrow> bytes" where
  "be_PutUint16 x = [ucast (drop_bit 8 x), ucast x]"

definition be_PutUint32 :: "u32 \<Rightarrow> bytes" where
  "be_PutUint32 x = [ucast (drop_bit 24 x), ucast (drop_bit 16 x), ucast (drop_bit 8 x), ucast x]"

lemma length_be_Put [simp]:
  "length (be_PutUint16 x) = 2" "length (be_PutUint32 y) = 4"
  by (simp_all add: be_PutUint16_def be_PutUint32_def)

lemma be_Uint16_Put [simp]: "be_Uint16 (be_PutUint16 x @ r) = Some x"
proof -
  have "push_bit 8 (ucast (ucast (drop_bit 8 x) :: byte)) OR ucast (ucast x :: byte) = x"
    by (rule bit_word_eqI) (auto simp: bit_simps)
  then show ?thesis by (simp add: be_PutUint16_def)
qed

lemma be_Uint32_Put [simp]: "be_Uint32 (be_PutUint32 x @ r) = Some x"
proof -
  have "push_bit 24 (ucast (ucast (drop_bit 24 x) :: byte)) OR
        push_bit 16 (ucast (ucast (drop_bit 16 x) :: byte)) OR
        push_bit 8 (ucast (ucast (drop_bit 8 x) :: byte)) OR ucast (ucast x :: byte) = x"
    (is "?w = x")
  proof (rule bit_word_eqI)
    fix n assume "n < LENGTH(32)"
    then consider "n < 8" | "8 \<le> n" "n < 16" | "16 \<le> n" "n < 24" | "24 \<le> n" "n < 32"
      by fastforce
    then show "bit ?w n \<longleftrightarrow> bit x n"
      by cases (auto simp: bit_simps)
  qed
  then show ?thesis by (simp add: be_PutUint32_def)
qed

lemma be_Uint16_Put_self [simp]: "be_Uint16 (be_PutUint16 x) = Some x"
  using be_Uint16_Put [of x "[]"] by simp

lemma be_Uint32_Put_self [simp]: "be_Uint32 (be_PutUint32 x) = Some x"
  using be_Uint32_Put [of x "[]"] by simp

lemma be_Uint16_defined: "2 \<le> length bs \<Longrightarrow> \<exists>x. be_Uint16 bs = Some x"
  by (cases bs rule: be_Uint16.cases) auto

lemma be_Uint32_defined: "4 \<le> length bs \<Longrightarrow> \<exists>x. be_Uint32 bs = Some x"
  by (cases bs rule: be_Uint32.cases) auto

lemma drop_be_Put [simp]:
  "drop 2 (be_PutUint16 x @ r) = r" "drop 4 (be_PutUint32 y @ r) = r"
  by simp_all

section \<open>Word comparisons\<close>

lemma word_of_nat_u16_u32 [simp]:
  "n < 65536 \<Longrightarrow> unat (word_of_nat n :: u16) = n"
  "n < 4294967296 \<Longrightarrow> unat (word_of_nat n :: u32) = n"
  "n < 256 \<Longrightarrow> unat (word_of_nat n :: byte) = n"
  by (simp_all add: unat_of_nat)

lemma u32_inc:
  fixes x :: u32
  assumes "x \<noteq> 0xFFFFFFFF"
  shows "unat (x + 1) = unat x + 1"
proof -
  have "unat x \<noteq> unat (0xFFFFFFFF :: u32)" using assms by (metis word_unat_eq_iff)
  moreover have "unat (0xFFFFFFFF :: u32) = 4294967295" by (simp add: unat_eq_nat_uint)
  ultimately have "unat x \<noteq> 4294967295" by metis
  moreover have "unat x < 4294967296" by (rule order_less_le_trans [OF unsigned_less]) simp
  ultimately show ?thesis by (simp add: unat_word_ariths)
qed

lemma u32_less_inc: "x \<noteq> 0xFFFFFFFF \<Longrightarrow> y \<le> x \<Longrightarrow> y < x + 1" for x y :: u32
  by (simp add: word_less_nat_alt word_le_nat_alt u32_inc)

section \<open>In-place compaction\<close>

text \<open>The idiom that keeps the elements satisfying \<open>P\<close> by moving them to the front of the same
  slice, counting them.\<close>

definition compact_step :: "('a \<Rightarrow> bool) \<Rightarrow> nat \<Rightarrow> 'a list \<times> nat \<Rightarrow> 'a list \<times> nat" where
  "compact_step P i = (\<lambda>(ys, c). if P (ys ! i) then (ys[c := ys ! i], Suc c) else (ys, c))"

lemma compaction:
  assumes "n \<le> length xs" and "fold (compact_step P) [0..<n] (xs, 0) = (ys, c)"
  shows "take c ys = filter P (take n xs) \<and> drop n ys = drop n xs \<and> c \<le> n \<and> length ys = length xs"
  using assms
proof (induction n arbitrary: ys c)
  case 0
  then show ?case by simp
next
  case (Suc n)
  obtain ys0 c0 where f: "fold (compact_step P) [0..<n] (xs, 0) = (ys0, c0)" by fastforce
  have IH: "take c0 ys0 = filter P (take n xs)" "drop n ys0 = drop n xs" "c0 \<le> n" "length ys0 = length xs"
    using Suc.IH [OF _ f] Suc.prems(1) by auto
  have nth: "ys0 ! n = xs ! n"
    using IH(2,4) Suc.prems(1) by (metis Cons_nth_drop_Suc Suc_le_eq list.inject)
  have tk: "take (Suc n) xs = take n xs @ [xs ! n]"
    using Suc.prems(1) by (simp add: take_Suc_conv_app_nth)
  have dr: "drop (Suc n) ys0 = drop (Suc n) xs" using IH(2) by (metis drop_Suc drop_tl)
  have step: "(ys, c) = compact_step P n (ys0, c0)" using Suc.prems(2) f by simp
  show ?case
  proof (cases "P (xs ! n)")
    case True
    then have eq: "ys = ys0[c0 := xs ! n]" "c = Suc c0" using step nth by (auto simp: compact_step_def)
    have "c0 < length ys0" using IH Suc.prems(1) by simp
    then have "take c ys = take c0 ys0 @ [xs ! n]"
      using eq by (simp add: take_Suc_conv_app_nth)
    moreover have "drop (Suc n) ys = drop (Suc n) ys0" using eq IH by simp
    ultimately show ?thesis using True IH tk dr eq by simp
  next
    case False
    then have "ys = ys0" "c = c0" using step nth by (auto simp: compact_step_def)
    then show ?thesis using False IH tk dr by simp
  qed
qed

end
