(* ===== verification/Buf.thy ===== *)
theory Buf
  imports Prelude
begin

text \<open>
  The buffer layer: \<^verbatim>\<open>common/bytespool/pool.go\<close>, \<^verbatim>\<open>common/buf/buffer.go\<close> and
  \<^verbatim>\<open>common/buf/multi_buffer.go\<close>.

  A \<open>Buffer\<close> owns an array and a window \<open>[start, end)\<close> of it. A slice handed out by
  \<^verbatim>\<open>Bytes\<close> and its variants is modelled by its contents at that moment; the slice
  handed out by \<^verbatim>\<open>Extend\<close>, which the caller fills in, is modelled by its bounds in
  the array together with \<open>Buffer_fill\<close>. A pointer that may be nil is an option.
  A nil array is the empty list. The array a \<^verbatim>\<open>sync.Pool\<close> returns is an argument
  (\<open>p\<close>, or \<open>alloc\<close> where several are taken), since it may carry stale bytes.
\<close>

section \<open>Byte pools\<close>

definition createAllocFunc :: "int \<Rightarrow> bytes" where
  "createAllocFunc sz = replicate (nat sz) 0"

definition numPools :: nat where "numPools = 4"
definition sizeMulti :: int where "sizeMulti = 4"

text \<open>The loop of \<^verbatim>\<open>init\<close>: the size is multiplied after each pool.\<close>

fun poolSize_from :: "nat \<Rightarrow> int \<Rightarrow> int list" where
  "poolSize_from 0 sz = []"
| "poolSize_from (Suc n) sz = sz # poolSize_from n (i32 (sz * sizeMulti))"

definition poolSize :: "int list" where
  "poolSize = poolSize_from numPools 2048"

fun GetPool_from :: "nat \<Rightarrow> int list \<Rightarrow> int \<Rightarrow> nat option" where
  "GetPool_from idx [] sz = None"
| "GetPool_from idx (ps # rest) sz = (if sz \<le> ps then Some idx else GetPool_from (Suc idx) rest sz)"

definition GetPool :: "int \<Rightarrow> nat option" where
  "GetPool sz = GetPool_from 0 poolSize sz"

text \<open>\<open>get i\<close> is the array the i-th \<^verbatim>\<open>sync.Pool\<close> returns.\<close>

definition Alloc :: "(nat \<Rightarrow> bytes) \<Rightarrow> int \<Rightarrow> bytes" where
  "Alloc get sz = (case GetPool sz of Some i \<Rightarrow> get i | None \<Rightarrow> replicate (nat sz) 0)"

text \<open>\<^verbatim>\<open>Free\<close> returns the index of the pool the array is put into, if any.\<close>

fun Free_from :: "nat \<Rightarrow> int \<Rightarrow> nat option" where
  "Free_from 0 sz = None"
| "Free_from (Suc i) sz = (if sz \<ge> poolSize ! i then Some i else Free_from i sz)"

definition Free :: "bytes \<Rightarrow> nat option" where
  "Free b = Free_from numPools (i32 (int (length b)))"

section \<open>Buffer\<close>

definition Size :: int where "Size = 2048"

datatype ownership = managed | unmanaged | bytespools

record Buffer =
  buf_v :: bytes
  buf_start :: int
  buf_end :: int
  buf_ownership :: ownership

definition Buffer_New :: "bytes \<Rightarrow> Buffer" where
  "Buffer_New p = \<lparr>buf_v = p, buf_start = 0, buf_end = 0, buf_ownership = managed\<rparr>"

definition Buffer_NewWithSize :: "(nat \<Rightarrow> bytes) \<Rightarrow> int \<Rightarrow> Buffer" where
  "Buffer_NewWithSize get sz =
     \<lparr>buf_v = Alloc get sz, buf_start = 0, buf_end = 0, buf_ownership = bytespools\<rparr>"

definition Buffer_FromBytes :: "bytes \<Rightarrow> Buffer" where
  "Buffer_FromBytes data =
     \<lparr>buf_v = data, buf_start = 0, buf_end = i32 (int (length data)), buf_ownership = unmanaged\<rparr>"

definition Buffer_StackNew :: "bytes \<Rightarrow> Buffer" where
  "Buffer_StackNew p = \<lparr>buf_v = p, buf_start = 0, buf_end = 0, buf_ownership = managed\<rparr>"

definition Buffer_Clear :: "Buffer \<Rightarrow> Buffer" where
  "Buffer_Clear b = b\<lparr>buf_start := 0, buf_end := 0\<rparr>"

text \<open>What \<^verbatim>\<open>Release\<close> gives back: nothing, an array for the 2K pool, or an array for
  the size-classed pools.\<close>

datatype released = NoRelease | PoolPut bytes | BytespoolFree bytes

definition Buffer_Release :: "Buffer option \<Rightarrow> Buffer option \<times> released" where
  "Buffer_Release bp =
     (case bp of
        None \<Rightarrow> (None, NoRelease)
      | Some b \<Rightarrow>
          if buf_v b = [] \<or> buf_ownership b = unmanaged then (Some b, NoRelease)
          else let p = buf_v b; b = Buffer_Clear (b\<lparr>buf_v := []\<rparr>) in
            (Some b, case buf_ownership b of
                managed \<Rightarrow> PoolPut p
              | bytespools \<Rightarrow> BytespoolFree p
              | unmanaged \<Rightarrow> NoRelease))"

definition Buffer_Byte :: "Buffer \<Rightarrow> int \<Rightarrow> byte option" where
  "Buffer_Byte b i = index (buf_v b) (i32 (buf_start b + i))"

definition Buffer_SetByte :: "Buffer \<Rightarrow> int \<Rightarrow> byte \<Rightarrow> Buffer option" where
  "Buffer_SetByte b i x =
     (let k = i32 (buf_start b + i) in
      if 0 \<le> k \<and> k < int (length (buf_v b)) then Some (b\<lparr>buf_v := (buf_v b)[nat k := x]\<rparr>) else None)"

definition Buffer_Bytes :: "Buffer \<Rightarrow> bytes option" where
  "Buffer_Bytes b = slice_of (buf_v b) (buf_start b) (buf_end b)"

text \<open>\<^verbatim>\<open>Extend\<close> returns the extended buffer and the bounds of the slice it hands out.\<close>

definition Buffer_Extend :: "Buffer \<Rightarrow> int \<Rightarrow> (Buffer \<times> int \<times> int) option" where
  "Buffer_Extend b n =
     (let e = i32 (buf_end b + n) in
      if e > i32 (int (length (buf_v b))) then None
      else case slice_of (buf_v b) (buf_end b) e of
             None \<Rightarrow> None
           | Some ext \<Rightarrow> Some (b\<lparr>buf_end := e\<rparr>, buf_end b, e))"

text \<open>Writing through a slice of the buffer's array: \<^verbatim>\<open>copy(ext, src)\<close>.\<close>

definition Buffer_fill :: "Buffer \<Rightarrow> int \<times> int \<Rightarrow> bytes \<Rightarrow> Buffer" where
  "Buffer_fill b w src =
     b\<lparr>buf_v := overwrite (buf_v b) (nat (fst w)) (take (nat (snd w - fst w)) src)\<rparr>"

definition Buffer_Len :: "Buffer option \<Rightarrow> int" where
  "Buffer_Len bp = (case bp of None \<Rightarrow> 0 | Some b \<Rightarrow> i32 (buf_end b - buf_start b))"

definition Buffer_Cap :: "Buffer option \<Rightarrow> int" where
  "Buffer_Cap bp = (case bp of None \<Rightarrow> 0 | Some b \<Rightarrow> i32 (int (length (buf_v b))))"

definition Buffer_IsEmpty :: "Buffer option \<Rightarrow> bool" where
  "Buffer_IsEmpty bp \<longleftrightarrow> Buffer_Len bp = 0"

definition Buffer_IsFull :: "Buffer option \<Rightarrow> bool" where
  "Buffer_IsFull bp \<longleftrightarrow>
     (case bp of None \<Rightarrow> False | Some b \<Rightarrow> buf_end b = i32 (int (length (buf_v b))))"

definition Buffer_BytesRange :: "Buffer \<Rightarrow> int \<Rightarrow> int \<Rightarrow> bytes option" where
  "Buffer_BytesRange b from to =
     (let from = (if from < 0 then i32 (from + Buffer_Len (Some b)) else from);
          to = (if to < 0 then i32 (to + Buffer_Len (Some b)) else to)
      in slice_of (buf_v b) (i32 (buf_start b + from)) (i32 (buf_start b + to)))"

definition Buffer_BytesFrom :: "Buffer \<Rightarrow> int \<Rightarrow> bytes option" where
  "Buffer_BytesFrom b from =
     (let from = (if from < 0 then i32 (from + Buffer_Len (Some b)) else from)
      in slice_of (buf_v b) (i32 (buf_start b + from)) (buf_end b))"

definition Buffer_BytesTo :: "Buffer \<Rightarrow> int \<Rightarrow> bytes option" where
  "Buffer_BytesTo b to =
     (let to = (if to < 0 then i32 (to + Buffer_Len (Some b)) else to)
      in slice_of (buf_v b) (buf_start b) (i32 (buf_start b + to)))"

definition Buffer_Resize :: "Buffer \<Rightarrow> int \<Rightarrow> int \<Rightarrow> Buffer option" where
  "Buffer_Resize b from to =
     (let from = (if from < 0 then i32 (from + Buffer_Len (Some b)) else from);
          to = (if to < 0 then i32 (to + Buffer_Len (Some b)) else to)
      in if to < from then None
         else let b = b\<lparr>buf_end := i32 (buf_start b + to)\<rparr>
              in Some (b\<lparr>buf_start := i32 (buf_start b + from)\<rparr>))"

definition Buffer_Advance :: "Buffer \<Rightarrow> int \<Rightarrow> Buffer" where
  "Buffer_Advance b from =
     (let from = (if from < 0 then i32 (from + Buffer_Len (Some b)) else from)
      in b\<lparr>buf_start := i32 (buf_start b + from)\<rparr>)"

text \<open>\<^verbatim>\<open>Write\<close> copies as much as fits behind \<open>end\<close>; it returns the count and no error.\<close>

definition Buffer_Write :: "Buffer \<Rightarrow> bytes \<Rightarrow> (Buffer \<times> int) option" where
  "Buffer_Write b data =
     (case slice_of (buf_v b) (buf_end b) (int (length (buf_v b))) of
        None \<Rightarrow> None
      | Some room \<Rightarrow>
          let src = take (length room) data; nBytes = int (length src) in
          Some (b\<lparr>buf_v := overwrite (buf_v b) (nat (buf_end b)) src,
                  buf_end := i32 (buf_end b + i32 nBytes)\<rparr>, nBytes))"

datatype buf_error = EOF | UnexpectedEOF | BufferFull | OutOfBound | ReadError string

definition Buffer_WriteByte :: "Buffer \<Rightarrow> byte \<Rightarrow> (buf_error, Buffer) outcome" where
  "Buffer_WriteByte b x =
     (if Buffer_IsFull (Some b) then Fail BufferFull
      else if 0 \<le> buf_end b \<and> buf_end b < int (length (buf_v b))
      then Ok (b\<lparr>buf_v := (buf_v b)[nat (buf_end b) := x], buf_end := i32 (buf_end b + 1)\<rparr>)
      else Panic)"

definition Buffer_WriteString :: "Buffer \<Rightarrow> bytes \<Rightarrow> (Buffer \<times> int) option" where
  "Buffer_WriteString b s = Buffer_Write b s"

definition Buffer_ReadByte :: "Buffer \<Rightarrow> (buf_error, Buffer \<times> byte) outcome" where
  "Buffer_ReadByte b =
     (if buf_start b = buf_end b then Fail EOF
      else case index (buf_v b) (buf_start b) of
             None \<Rightarrow> Panic
           | Some nb \<Rightarrow> Ok (b\<lparr>buf_start := i32 (buf_start b + 1)\<rparr>, nb))"

definition Buffer_ReadBytes :: "Buffer \<Rightarrow> int \<Rightarrow> (buf_error, Buffer \<times> bytes) outcome" where
  "Buffer_ReadBytes b n =
     (if i32 (buf_end b - buf_start b) < n then Fail EOF
      else case slice_of (buf_v b) (buf_start b) (i32 (buf_start b + n)) of
             None \<Rightarrow> Panic
           | Some nb \<Rightarrow> Ok (b\<lparr>buf_start := i32 (buf_start b + n)\<rparr>, nb))"

text \<open>\<^verbatim>\<open>Read(data)\<close> for a destination of \<open>n\<close> bytes: the buffer afterwards and the bytes
  copied into the destination.\<close>

definition Buffer_Read :: "Buffer \<Rightarrow> nat \<Rightarrow> (buf_error, Buffer \<times> bytes) outcome" where
  "Buffer_Read b n =
     (if Buffer_Len (Some b) = 0 then Fail EOF
      else case slice_of (buf_v b) (buf_start b) (buf_end b) of
             None \<Rightarrow> Panic
           | Some src \<Rightarrow>
               let data = take n src; nBytes = int (length data) in
               if i32 nBytes = Buffer_Len (Some b) then Ok (Buffer_Clear b, data)
               else Ok (b\<lparr>buf_start := i32 (buf_start b + i32 nBytes)\<rparr>, data))"

text \<open>One \<^verbatim>\<open>Read\<close> call of a source reader is a function from the size of the
  destination to the bytes delivered and the error, if any.\<close>

definition Buffer_ReadFrom ::
  "Buffer \<Rightarrow> (nat \<Rightarrow> bytes \<times> buf_error option) \<Rightarrow> (Buffer \<times> int \<times> buf_error option) option" where
  "Buffer_ReadFrom b rd =
     (case slice_of (buf_v b) (buf_end b) (int (length (buf_v b))) of
        None \<Rightarrow> None
      | Some room \<Rightarrow>
          let (data, err) = rd (length room); n = int (length data) in
          Some (b\<lparr>buf_v := overwrite (buf_v b) (nat (buf_end b)) data,
                  buf_end := i32 (buf_end b + i32 n)\<rparr>, n, err))"

text \<open>\<^verbatim>\<open>io.ReadFull\<close> on a source that holds the bytes \<open>src\<close> and then ends: the bytes
  delivered, the rest of the source and the error.\<close>

definition io_ReadFull :: "bytes \<Rightarrow> nat \<Rightarrow> bytes \<times> bytes \<times> buf_error option" where
  "io_ReadFull src n =
     (if n \<le> length src then (take n src, drop n src, None)
      else (src, [], Some (if src = [] then EOF else UnexpectedEOF)))"

definition Buffer_ReadFullFrom ::
  "Buffer \<Rightarrow> bytes \<Rightarrow> int \<Rightarrow> (Buffer \<times> bytes \<times> int \<times> buf_error option) option" where
  "Buffer_ReadFullFrom b src sz =
     (let e = i32 (buf_end b + sz) in
      if e > i32 (int (length (buf_v b))) then Some (b, src, 0, Some OutOfBound)
      else case slice_of (buf_v b) (buf_end b) e of
             None \<Rightarrow> None
           | Some room \<Rightarrow>
               let (data, rest, err) = io_ReadFull src (length room); n = int (length data) in
               Some (b\<lparr>buf_v := overwrite (buf_v b) (nat (buf_end b)) data,
                       buf_end := i32 (buf_end b + i32 n)\<rparr>, rest, n, err))"

definition Buffer_String :: "Buffer \<Rightarrow> bytes option" where
  "Buffer_String b = Buffer_Bytes b"

section \<open>Well-formed buffers and their contents\<close>

text \<open>A well-formed buffer has its window inside its array, and an array that an
  \<^verbatim>\<open>int32\<close> can measure.\<close>

definition wf_Buffer :: "Buffer \<Rightarrow> bool" where
  "wf_Buffer b \<longleftrightarrow>
     0 \<le> buf_start b \<and> buf_start b \<le> buf_end b \<and> buf_end b \<le> int (length (buf_v b)) \<and>
     int (length (buf_v b)) < 2 ^ 31"

definition content :: "Buffer \<Rightarrow> bytes" where
  "content b = take (nat (buf_end b - buf_start b)) (drop (nat (buf_start b)) (buf_v b))"

definition room :: "Buffer \<Rightarrow> nat" where
  "room b = nat (int (length (buf_v b)) - buf_end b)"

named_theorems buf_wf \<open>operations keep buffers well-formed\<close>
named_theorems buf_content \<open>what operations do to the contents of a buffer\<close>

lemma wf_i32:
  assumes "wf_Buffer b"
  shows "i32 (int (length (buf_v b))) = int (length (buf_v b))"
    and "i32 (buf_end b - buf_start b) = buf_end b - buf_start b"
    and "0 \<le> k \<Longrightarrow> k \<le> int (length (buf_v b)) \<Longrightarrow> i32 k = k"
  using assms unfolding wf_Buffer_def by (auto intro!: i32_id)

lemma length_content: "wf_Buffer b \<Longrightarrow> int (length (content b)) = buf_end b - buf_start b"
  by (auto simp: content_def wf_Buffer_def)

lemma Buffer_Len_content [buf_content]: "wf_Buffer b \<Longrightarrow> Buffer_Len (Some b) = int (length (content b))"
  by (simp add: Buffer_Len_def wf_i32 length_content)

lemma Buffer_IsEmpty_content [buf_content]: "wf_Buffer b \<Longrightarrow> Buffer_IsEmpty (Some b) \<longleftrightarrow> content b = []"
  by (simp add: Buffer_IsEmpty_def Buffer_Len_content)

lemma Buffer_IsFull_room [buf_content]: "wf_Buffer b \<Longrightarrow> Buffer_IsFull (Some b) \<longleftrightarrow> room b = 0"
  by (auto simp: Buffer_IsFull_def room_def wf_i32 wf_Buffer_def)

lemma Buffer_Bytes_content [buf_content]: "wf_Buffer b \<Longrightarrow> Buffer_Bytes b = Some (content b)"
  by (simp add: Buffer_Bytes_def slice_of_def content_def wf_Buffer_def)

lemma Buffer_New_spec [simp]:
  "int (length p) < 2 ^ 31 \<Longrightarrow> wf_Buffer (Buffer_New p)"
  "content (Buffer_New p) = []"
  "room (Buffer_New p) = length p"
  by (simp_all add: Buffer_New_def wf_Buffer_def content_def room_def)

lemma Buffer_Clear_spec [simp]:
  "wf_Buffer b \<Longrightarrow> wf_Buffer (Buffer_Clear b)" "content (Buffer_Clear b) = []"
  by (simp_all add: Buffer_Clear_def wf_Buffer_def content_def)

lemma overwrite_content:
  assumes "wf_Buffer b" "length ys \<le> room b"
  shows "wf_Buffer (b\<lparr>buf_v := overwrite (buf_v b) (nat (buf_end b)) ys,
                     buf_end := buf_end b + int (length ys)\<rparr>)"
    and "content (b\<lparr>buf_v := overwrite (buf_v b) (nat (buf_end b)) ys,
                     buf_end := buf_end b + int (length ys)\<rparr>) = content b @ ys"
proof -
  have len: "nat (buf_end b) + length ys \<le> length (buf_v b)"
    and s: "nat (buf_start b) \<le> nat (buf_end b)" and e: "nat (buf_end b) \<le> length (buf_v b)"
    using assms by (auto simp: room_def wf_Buffer_def)
  show "wf_Buffer (b\<lparr>buf_v := overwrite (buf_v b) (nat (buf_end b)) ys,
                     buf_end := buf_end b + int (length ys)\<rparr>)"
    using assms len by (auto simp: wf_Buffer_def)
  have n: "nat (buf_end b + int (length ys) - buf_start b) = nat (buf_end b) + length ys - nat (buf_start b)"
    and m: "nat (buf_end b - buf_start b) = nat (buf_end b) - nat (buf_start b)"
    using assms by (auto simp: wf_Buffer_def)
  show "content (b\<lparr>buf_v := overwrite (buf_v b) (nat (buf_end b)) ys,
                     buf_end := buf_end b + int (length ys)\<rparr>) = content b @ ys"
    unfolding content_def by (simp add: n m overwrite_prefix [OF s e])
qed

lemma room_slice:
  "wf_Buffer b \<Longrightarrow> \<exists>r. slice_of (buf_v b) (buf_end b) (int (length (buf_v b))) = Some r \<and> length r = room b"
  by (auto simp: slice_of_def wf_Buffer_def room_def)

text \<open>\<^verbatim>\<open>Write\<close> appends what fits and reports how much that was.\<close>

lemma Buffer_Write_spec:
  assumes "wf_Buffer b"
  obtains b' where "Buffer_Write b data = Some (b', int (min (room b) (length data)))"
    and "wf_Buffer b'" and "content b' = content b @ take (room b) data"
    and "room b' = room b - length data"
proof -
  let ?src = "take (room b) data"
  let ?b = "b\<lparr>buf_v := overwrite (buf_v b) (nat (buf_end b)) ?src,
              buf_end := buf_end b + int (length ?src)\<rparr>"
  have l: "length ?src \<le> room b" by simp
  note wfc = overwrite_content [OF assms l]
  obtain r where r: "slice_of (buf_v b) (buf_end b) (int (length (buf_v b))) = Some r" "length r = room b"
    using room_slice [OF assms] by blast
  have bnd: "buf_end b + int (length ?src) \<le> int (length (buf_v b))"
    using assms l by (auto simp: room_def wf_Buffer_def)
  then have "i32 (buf_end b + i32 (int (length ?src))) = buf_end b + int (length ?src)"
    using assms wf_i32(3) [OF assms, of "int (length ?src)"]
      wf_i32(3) [OF assms, of "buf_end b + int (length ?src)"]
    by (auto simp: wf_Buffer_def)
  with r have "Buffer_Write b data = Some (?b, int (min (room b) (length data)))"
    by (simp add: Buffer_Write_def Let_def min.commute)
  moreover have "room ?b = room b - length data"
    using assms l by (auto simp: room_def wf_Buffer_def min_def)
  ultimately show thesis using that wfc by blast
qed

lemma Write_ok:
  assumes "wf_Buffer b" and "length xs \<le> room b"
  obtains b' where "Buffer_Write b xs = Some (b', int (length xs))" "wf_Buffer b'" "content b' = content b @ xs" "room b' = room b - length xs"
  by (rule Buffer_Write_spec [OF assms(1), of xs]) (use assms(2) that in simp)

lemma WriteByte_ok:
  assumes "wf_Buffer b" and "0 < room b"
  obtains b' where "Buffer_WriteByte b x = Ok b'" "wf_Buffer b'" "content b' = content b @ [x]" "room b' = room b - 1"
    "buf_start b' = buf_start b"
proof -
  let ?b = "b\<lparr>buf_v := overwrite (buf_v b) (nat (buf_end b)) [x], buf_end := buf_end b + int (length [x])\<rparr>"
  have e: "0 \<le> buf_end b" "buf_end b < int (length (buf_v b))" using assms by (auto simp: wf_Buffer_def room_def)
  have "i32 (buf_end b + 1) = buf_end b + 1" using e by (intro wf_i32(3) [OF assms(1)]) auto
  moreover have "overwrite (buf_v b) (nat (buf_end b)) [x] = (buf_v b)[nat (buf_end b) := x]"
    using e by (simp add: overwrite_def upd_conv_take_nth_drop)
  ultimately have "Buffer_WriteByte b x = Ok ?b"
    using e assms by (simp add: Buffer_WriteByte_def Buffer_IsFull_room)
  moreover have "room ?b = room b - 1" using e by (simp add: room_def overwrite_def)
  ultimately show thesis using that [of ?b] overwrite_content [OF assms(1), of "[x]"] assms(2) by simp
qed

text \<open>\<^verbatim>\<open>Read\<close> takes a prefix of the contents; it reports \<^verbatim>\<open>EOF\<close> exactly on an empty buffer.\<close>

lemma Buffer_Read_EOF: "wf_Buffer b \<Longrightarrow> content b = [] \<Longrightarrow> Buffer_Read b n = Fail EOF"
  by (simp add: Buffer_Read_def Buffer_Len_content)

lemma Buffer_Read_spec:
  assumes wf: "wf_Buffer b" and ne: "content b \<noteq> []"
  obtains b' where "Buffer_Read b n = Ok (b', take n (content b))"
    and "wf_Buffer b'" and "content b' = drop n (content b)"
    and "buf_v b' = buf_v b" and "buf_ownership b' = buf_ownership b"
proof -
  let ?d = "take n (content b)"
  have sl: "slice_of (buf_v b) (buf_start b) (buf_end b) = Some (content b)"
    using Buffer_Bytes_content [OF wf] by (simp add: Buffer_Bytes_def)
  have li: "int (length (content b)) = buf_end b - buf_start b" by (rule length_content [OF wf])
  have i1: "i32 (int (length ?d)) = int (length ?d)"
    using wf li by (intro wf_i32(3)) (auto simp: wf_Buffer_def)
  show thesis
  proof (cases "length (content b) \<le> n")
    case True
    then have "Buffer_Read b n = Ok (Buffer_Clear b, ?d)"
      using ne sl i1 by (simp add: Buffer_Read_def Buffer_Len_content [OF wf])
    with True show thesis
      by (intro that [of "Buffer_Clear b"]) (use wf in \<open>auto simp: Buffer_Clear_def wf_Buffer_def content_def\<close>)
  next
    case False
    let ?b = "b\<lparr>buf_start := buf_start b + int n\<rparr>"
    have i2: "i32 (buf_start b + int n) = buf_start b + int n"
      using wf False li by (intro wf_i32(3)) (auto simp: wf_Buffer_def)
    have "Buffer_Read b n = Ok (?b, ?d)"
      using False ne sl i1 i2 by (simp add: Buffer_Read_def Buffer_Len_content [OF wf] min_def)
    moreover have "wf_Buffer ?b" using wf False li by (auto simp: wf_Buffer_def)
    moreover have "content ?b = drop n (content b)"
    proof -
      have e: "nat (buf_end b - (buf_start b + int n)) = nat (buf_end b - buf_start b) - n"
        "nat (buf_start b + int n) = n + nat (buf_start b)"
        using wf False li by (auto simp: wf_Buffer_def)
      show ?thesis unfolding content_def by (simp add: e drop_take)
    qed
    ultimately show thesis by (intro that [of ?b]) simp_all
  qed
qed

text \<open>\<^verbatim>\<open>Extend\<close> either panics or hands out exactly the next \<open>n\<close> bytes of the array, even
  where the \<^verbatim>\<open>int32\<close> sum wraps.\<close>

lemma Buffer_Extend_iff:
  assumes wf: "wf_Buffer b" and n: "- (2 ^ 31) \<le> n" "n < 2 ^ 31"
  shows "Buffer_Extend b n =
    (if 0 \<le> n \<and> n \<le> int (room b)
     then Some (b\<lparr>buf_end := buf_end b + n\<rparr>, buf_end b, buf_end b + n) else None)"
proof (cases "buf_end b + n < 2 ^ 31")
  case True
  then have "i32 (buf_end b + n) = buf_end b + n"
    using wf n by (intro i32_id) (auto simp: wf_Buffer_def)
  then show ?thesis
    using wf by (auto simp: Buffer_Extend_def Let_def wf_i32(1) [OF wf] slice_of_def room_def wf_Buffer_def)
next
  case False
  have "i32 (buf_end b + n) = buf_end b + n - 2 ^ 32"
  proof -
    have "(buf_end b + n + 2 ^ 31) mod 2 ^ 32 = buf_end b + n + 2 ^ 31 - 2 ^ 32"
      using False n wf by (subst minus_mod_self2 [symmetric]) (auto simp: wf_Buffer_def intro!: mod_pos_pos_trivial)
    then show ?thesis by (simp add: i32_def)
  qed
  then show ?thesis
    using False wf n
    by (auto simp: Buffer_Extend_def Let_def wf_i32(1) [OF wf] slice_of_def room_def wf_Buffer_def)
qed

lemma Buffer_Extend_fill_content:
  assumes wf: "wf_Buffer b" and len: "int (length src) < 2 ^ 31"
    and ext: "Buffer_Extend b (int (length src)) = Some (b', w)"
  shows "wf_Buffer (Buffer_fill b' w src) \<and> content (Buffer_fill b' w src) = content b @ src"
proof -
  from assms have l: "length src \<le> room b"
    and b': "b' = b\<lparr>buf_end := buf_end b + int (length src)\<rparr>"
    and w: "w = (buf_end b, buf_end b + int (length src))"
    by (auto simp: Buffer_Extend_iff split: if_splits)
  have eq: "Buffer_fill b' w src = b\<lparr>buf_v := overwrite (buf_v b) (nat (buf_end b)) src,
              buf_end := buf_end b + int (length src)\<rparr>"
    by (simp add: b' w Buffer_fill_def)
  show ?thesis unfolding eq using overwrite_content [OF wf l] by blast
qed

lemma Extend_fill_start:
  assumes "wf_Buffer b" and "length bs \<le> room b" and "length bs < 65536"
  obtains b' w where "Buffer_Extend b (int (length bs)) = Some (b', w)" "wf_Buffer (Buffer_fill b' w bs)"
    "content (Buffer_fill b' w bs) = content b @ bs" "room (Buffer_fill b' w bs) = room b - length bs"
    "buf_start (Buffer_fill b' w bs) = buf_start b"
proof -
  have e: "Buffer_Extend b (int (length bs)) = Some (b\<lparr>buf_end := buf_end b + int (length bs)\<rparr>, buf_end b, buf_end b + int (length bs))"
    using Buffer_Extend_iff [OF assms(1), of "int (length bs)"] assms(2,3) by simp
  moreover have "room (Buffer_fill (b\<lparr>buf_end := buf_end b + int (length bs)\<rparr>) (buf_end b, buf_end b + int (length bs)) bs) = room b - length bs"
    using assms(1,2) by (auto simp: room_def Buffer_fill_def wf_Buffer_def)
  moreover have "buf_start (Buffer_fill (b\<lparr>buf_end := buf_end b + int (length bs)\<rparr>) (buf_end b, buf_end b + int (length bs)) bs) = buf_start b"
    by (simp add: Buffer_fill_def)
  ultimately show thesis
    using that Buffer_Extend_fill_content [OF assms(1) _ e] assms(3) by simp
qed

text \<open>Looking at the end of the contents.\<close>

lemma BytesFrom_suffix:
  assumes wf: "wf_Buffer b" and c: "content b = xs @ ys" and ys: "ys \<noteq> []" "length ys = k"
  shows "Buffer_BytesFrom b (- int k) = Some ys"
proof -
  have len: "buf_end b - buf_start b = int (length xs) + int k"
    using length_content [OF wf] c ys by simp
  have bl: "Buffer_Len (Some b) = int (length xs) + int k" using Buffer_Len_content [OF wf] c ys by simp
  have i: "i32 (- int k + Buffer_Len (Some b)) = int (length xs)"
    "i32 (buf_start b + int (length xs)) = buf_start b + int (length xs)"
    using wf len unfolding bl by (auto intro!: i32_id simp: wf_Buffer_def)
  have e: "nat (buf_end b) = nat (buf_start b) + length xs + k" using wf len by (auto simp: wf_Buffer_def)
  have sl: "slice_of (buf_v b) (buf_start b + int (length xs)) (buf_end b) = Some (drop (length xs) (content b))"
    using wf len by (auto simp: slice_of_def content_def wf_Buffer_def drop_take nat_add_distrib
        nat_diff_distrib add.commute e)
  have "k \<noteq> 0" using ys by auto
  then show ?thesis using i sl c by (simp add: Buffer_BytesFrom_def Let_def)
qed

lemma Byte_last:
  assumes wf: "wf_Buffer b" and c: "content b = xs @ [x]"
  shows "Buffer_Byte b (i32 (Buffer_Len (Some b) - 1)) = Some x"
proof -
  have len: "buf_end b - buf_start b = int (length xs) + 1" using length_content [OF wf] c by simp
  have bl: "Buffer_Len (Some b) = int (length xs) + 1" using Buffer_Len_content [OF wf] c by simp
  have i: "i32 (Buffer_Len (Some b) - 1) = int (length xs)"
    "i32 (buf_start b + int (length xs)) = buf_start b + int (length xs)"
    using wf len unfolding bl by (auto intro!: i32_id simp: wf_Buffer_def)
  have "content b ! length xs = x" using c by simp
  moreover have "nat (buf_start b) \<le> length (buf_v b)" using wf by (auto simp: wf_Buffer_def)
  ultimately have "buf_v b ! nat (buf_start b + int (length xs)) = x"
    using wf len by (simp add: content_def wf_Buffer_def nat_add_distrib)
  then show ?thesis using i wf len by (auto simp: Buffer_Byte_def index_def wf_Buffer_def)
qed

section \<open>Arrays of the pools\<close>

text \<open>A pool hands out arrays of its size, whatever their contents.\<close>

definition pools_ok :: "(nat \<Rightarrow> bytes) \<Rightarrow> bool" where
  "pools_ok get \<longleftrightarrow> (\<forall>i < numPools. int (length (get i)) = poolSize ! i)"

lemma poolSize_list: "poolSize = [2048, 8192, 32768, 131072]"
  by code_simp

lemma Alloc_length:
  assumes "pools_ok get" and "0 \<le> sz" and "sz < 2 ^ 30"
  shows "sz \<le> int (length (Alloc get sz))" "int (length (Alloc get sz)) < 2 ^ 30"
proof -
  have p: "int (length (get 0)) = 2048" "int (length (get 1)) = 8192" "int (length (get 2)) = 32768" "int (length (get 3)) = 131072"
    using assms(1) by (auto simp: pools_ok_def numPools_def poolSize_list)
  have g: "GetPool sz = (if sz \<le> 2048 then Some 0 else if sz \<le> 8192 then Some 1 else if sz \<le> 32768 then Some 2 else if sz \<le> 131072 then Some 3 else None)"
    by (simp add: GetPool_def poolSize_list)
  show "sz \<le> int (length (Alloc get sz))" "int (length (Alloc get sz)) < 2 ^ 30"
    using p assms(2,3) by (auto simp: Alloc_def g)
qed

lemma NewWithSize_ok:
  assumes "pools_ok get" and "0 \<le> sz" and "sz < 2 ^ 30"
  shows "wf_Buffer (Buffer_NewWithSize get sz)" "content (Buffer_NewWithSize get sz) = []" "sz \<le> int (room (Buffer_NewWithSize get sz))"
  using Alloc_length [OF assms] assms(2) by (simp_all add: Buffer_NewWithSize_def wf_Buffer_def content_def room_def)

end
