(* ===== verification/MultiBuffer.thy ===== *)
theory MultiBuffer
  imports Buf
begin

text \<open>
  \<^verbatim>\<open>common/buf/multi_buffer.go\<close>: sequences of buffers. A \<^verbatim>\<open>MultiBuffer\<close> is the list
  of the buffers it points to; the slots that the code sets to nil before cutting them
  off a slice are the elements the model drops. Released arrays are returned as a list.
\<close>

type_synonym MultiBuffer = "Buffer list"

section \<open>Operations\<close>

definition MergeMulti :: "MultiBuffer \<Rightarrow> MultiBuffer \<Rightarrow> MultiBuffer \<times> MultiBuffer" where
  "MergeMulti dest src = (dest @ src, [])"

text \<open>The allocation loop of \<^verbatim>\<open>MergeBytes\<close>; \<open>alloc k\<close> is the k-th array the pool
  returns. A pool that returned empty arrays would keep the loop running, so the
  recursion is partial (\<open>None\<close> is a panic or no result).\<close>

partial_function (option) MergeBytes_loop ::
  "(nat \<Rightarrow> bytes) \<Rightarrow> nat \<Rightarrow> MultiBuffer \<Rightarrow> bytes \<Rightarrow> MultiBuffer option" where
  "MergeBytes_loop alloc k dest src =
     (if 0 < length src
      then Option.bind (Buffer_Write (Buffer_New (alloc k)) src)
             (\<lambda>(b, nBytes). MergeBytes_loop alloc (Suc k) (dest @ [b]) (drop (nat nBytes) src))
      else Some dest)"

definition MergeBytes :: "(nat \<Rightarrow> bytes) \<Rightarrow> MultiBuffer \<Rightarrow> bytes \<Rightarrow> MultiBuffer option" where
  "MergeBytes alloc dest src =
     (if dest \<noteq> [] \<and> \<not> Buffer_IsFull (Some (last dest))
      then Option.bind (Buffer_Write (last dest) src)
             (\<lambda>(b, nBytes). MergeBytes_loop alloc 0 (butlast dest @ [b]) (drop (nat nBytes) src))
      else MergeBytes_loop alloc 0 dest src)"

definition ReleaseMulti :: "MultiBuffer \<Rightarrow> MultiBuffer \<times> released list" where
  "ReleaseMulti mb = ([], map (\<lambda>b. snd (Buffer_Release (Some b))) mb)"

text \<open>\<^verbatim>\<open>Copy\<close> into a destination of \<open>n\<close> bytes: the bytes written there.\<close>

fun MultiBuffer_Copy :: "MultiBuffer \<Rightarrow> nat \<Rightarrow> bytes option" where
  "MultiBuffer_Copy [] n = Some []"
| "MultiBuffer_Copy (bb # mb) n =
     do {
       src \<leftarrow> Buffer_Bytes bb;
       let data = take n src;
       if i32 (int (length data)) < Buffer_Len (Some bb) then Some data
       else map_option ((@) data) (MultiBuffer_Copy mb (n - length data))
     }"

text \<open>\<^verbatim>\<open>ReadFrom\<close> on a source that holds \<open>src\<close> and then ends: end of input is no error.\<close>

partial_function (option) ReadFrom_loop ::
  "(nat \<Rightarrow> bytes) \<Rightarrow> nat \<Rightarrow> MultiBuffer \<Rightarrow> bytes \<Rightarrow> (MultiBuffer \<times> buf_error option) option" where
  "ReadFrom_loop alloc k mb src =
     Option.bind (Buffer_ReadFullFrom (Buffer_New (alloc k)) src Size)
       (\<lambda>(b, rest, n, err).
          let mb = (if Buffer_IsEmpty (Some b) then mb else mb @ [b]) in
          case err of
            Some e \<Rightarrow> if e = EOF \<or> e = UnexpectedEOF then Some (mb, None) else Some (mb, Some e)
          | None \<Rightarrow> ReadFrom_loop alloc (Suc k) mb rest)"

definition ReadFrom :: "(nat \<Rightarrow> bytes) \<Rightarrow> bytes \<Rightarrow> (MultiBuffer \<times> buf_error option) option" where
  "ReadFrom alloc src = ReadFrom_loop alloc 0 [] src"

text \<open>\<^verbatim>\<open>SplitBytes\<close> into a destination of \<open>n\<close> bytes: the leftover and the bytes written.\<close>

fun SplitBytes :: "MultiBuffer \<Rightarrow> nat \<Rightarrow> (MultiBuffer \<times> bytes) option" where
  "SplitBytes [] n = Some ([], [])"
| "SplitBytes (pBuffer # mb) n =
     (case Buffer_Read pBuffer n of
        Panic \<Rightarrow> None
      | Fail e \<Rightarrow>
          if \<not> Buffer_IsEmpty (Some pBuffer) then Some (pBuffer # mb, [])
          else SplitBytes mb n
      | Ok (pBuffer', data) \<Rightarrow>
          if \<not> Buffer_IsEmpty (Some pBuffer') then Some (pBuffer' # mb, data)
          else map_option (\<lambda>(rest, more). (rest, data @ more)) (SplitBytes mb (n - length data)))"

definition SplitFirst :: "MultiBuffer \<Rightarrow> MultiBuffer \<times> Buffer option" where
  "SplitFirst mb = (case mb of [] \<Rightarrow> ([], None) | b # rest \<Rightarrow> (rest, Some b))"

definition SplitFirstBytes :: "MultiBuffer \<Rightarrow> nat \<Rightarrow> (MultiBuffer \<times> bytes) option" where
  "SplitFirstBytes mb n =
     (case SplitFirst mb of
        (mb, None) \<Rightarrow> Some (mb, [])
      | (mb, Some b) \<Rightarrow> map_option (\<lambda>src. (mb, take n src)) (Buffer_Bytes b))"

text \<open>A buffer as the source of one \<^verbatim>\<open>Read\<close> call. Whether \<^verbatim>\<open>Read\<close> panics does not
  depend on the size of the destination; \<open>Compact_loop\<close> checks it before the call.\<close>

definition Buffer_as_reader :: "Buffer \<Rightarrow> nat \<Rightarrow> bytes \<times> buf_error option" where
  "Buffer_as_reader b n =
     (case Buffer_Read b n of Ok (_, data) \<Rightarrow> (data, None) | Fail e \<Rightarrow> ([], Some e) | Panic \<Rightarrow> ([], None))"

fun Compact_loop :: "MultiBuffer \<Rightarrow> Buffer \<Rightarrow> MultiBuffer \<Rightarrow> MultiBuffer option" where
  "Compact_loop mb2 lst [] = Some (mb2 @ [lst])"
| "Compact_loop mb2 lst (cur # mb) =
     (if i32 (Buffer_Len (Some lst) + Buffer_Len (Some cur)) > Size
      then Compact_loop (mb2 @ [lst]) cur mb
      else if Buffer_Read cur 0 = Panic then None
      else case Buffer_ReadFrom lst (Buffer_as_reader cur) of
             None \<Rightarrow> None
           | Some (_, _, Some e) \<Rightarrow> None
           | Some (lst', _, None) \<Rightarrow> Compact_loop mb2 lst' mb)"

definition Compact :: "MultiBuffer \<Rightarrow> MultiBuffer option" where
  "Compact mb = (case mb of [] \<Rightarrow> Some [] | lst # rest \<Rightarrow> Compact_loop [] lst rest)"

text \<open>The cutting loop of \<^verbatim>\<open>SplitSize\<close>: leftover and taken part.\<close>

fun SplitSize_loop :: "MultiBuffer \<Rightarrow> int \<Rightarrow> int \<Rightarrow> MultiBuffer \<Rightarrow> MultiBuffer \<times> MultiBuffer" where
  "SplitSize_loop [] sz totalBytes r = ([], r)"
| "SplitSize_loop (b # mb) sz totalBytes r =
     (if i32 (totalBytes + Buffer_Len (Some b)) > sz then (b # mb, r)
      else SplitSize_loop mb sz (i32 (totalBytes + Buffer_Len (Some b))) (r @ [b]))"

definition SplitSize :: "bytes \<Rightarrow> MultiBuffer \<Rightarrow> int \<Rightarrow> (MultiBuffer \<times> MultiBuffer) option" where
  "SplitSize p mb sz =
     (case mb of
        [] \<Rightarrow> Some ([], [])
      | b0 # rest \<Rightarrow>
          if Buffer_Len (Some b0) > sz
          then do {
            (b, w) \<leftarrow> Buffer_Extend (Buffer_New p) sz;
            src \<leftarrow> Buffer_BytesTo b0 sz;
            Some (Buffer_Advance b0 sz # rest, [Buffer_fill b w src])
          }
          else Some (SplitSize_loop mb sz 0 []))"

text \<open>\<^verbatim>\<open>WriteMultiBuffer\<close> to an \<^verbatim>\<open>io.Writer\<close> with state \<open>'w\<close>: the leftover and the error.\<close>

fun WriteMultiBuffer ::
  "('w \<Rightarrow> bytes \<Rightarrow> 'w \<times> 'e option) \<Rightarrow> 'w \<Rightarrow> MultiBuffer \<Rightarrow> ('w \<times> MultiBuffer \<times> 'e option) option" where
  "WriteMultiBuffer wr s [] = Some (s, [], None)"
| "WriteMultiBuffer wr s (b # mb) =
     do {
       bs \<leftarrow> Buffer_Bytes b;
       (case wr s bs of
          (s', Some e) \<Rightarrow> Some (s', mb, Some e)
        | (s', None) \<Rightarrow> WriteMultiBuffer wr s' mb)
     }"

definition MultiBuffer_Len :: "MultiBuffer \<Rightarrow> int" where
  "MultiBuffer_Len mb = foldl (\<lambda>sz b. i32 (sz + Buffer_Len (Some b))) 0 mb"

fun MultiBuffer_IsEmpty :: "MultiBuffer \<Rightarrow> bool" where
  "MultiBuffer_IsEmpty [] = True"
| "MultiBuffer_IsEmpty (b # mb) = (if \<not> Buffer_IsEmpty (Some b) then False else MultiBuffer_IsEmpty mb)"

fun MultiBuffer_String :: "MultiBuffer \<Rightarrow> bytes option" where
  "MultiBuffer_String [] = Some []"
| "MultiBuffer_String (b # mb) =
     do { s \<leftarrow> Buffer_String b; t \<leftarrow> MultiBuffer_String mb; Some (s @ t) }"

definition ReadAllToBytes :: "(nat \<Rightarrow> bytes) \<Rightarrow> bytes \<Rightarrow> (buf_error, bytes option) outcome" where
  "ReadAllToBytes alloc src =
     (case ReadFrom alloc src of
        None \<Rightarrow> Panic
      | Some (mb, Some e) \<Rightarrow> Fail e
      | Some (mb, None) \<Rightarrow>
          if MultiBuffer_Len mb = 0 then Ok None
          else case SplitBytes mb (nat (MultiBuffer_Len mb)) of
                 None \<Rightarrow> Panic
               | Some (_, b) \<Rightarrow>
                   Ok (Some (b @ replicate (nat (MultiBuffer_Len mb) - length b) 0)))"

section \<open>MultiBufferContainer\<close>

definition Container_Read :: "MultiBuffer \<Rightarrow> nat \<Rightarrow> (buf_error, MultiBuffer \<times> bytes) outcome" where
  "Container_Read c n =
     (if MultiBuffer_IsEmpty c then Fail EOF else or_panic (SplitBytes c n))"

definition Container_ReadMultiBuffer :: "MultiBuffer \<Rightarrow> MultiBuffer \<times> MultiBuffer" where
  "Container_ReadMultiBuffer c = ([], c)"

definition Container_Write :: "(nat \<Rightarrow> bytes) \<Rightarrow> MultiBuffer \<Rightarrow> bytes \<Rightarrow> (MultiBuffer \<times> int) option" where
  "Container_Write alloc c b = map_option (\<lambda>mb. (mb, int (length b))) (MergeBytes alloc c b)"

definition Container_WriteMultiBuffer :: "MultiBuffer \<Rightarrow> MultiBuffer \<Rightarrow> MultiBuffer" where
  "Container_WriteMultiBuffer c b = fst (MergeMulti c b)"

definition Container_Close :: "MultiBuffer \<Rightarrow> MultiBuffer \<times> released list" where
  "Container_Close c = ReleaseMulti c"

section \<open>Contents\<close>

definition wf_mb :: "MultiBuffer \<Rightarrow> bool" where
  "wf_mb mb \<longleftrightarrow> (\<forall>b \<in> set mb. wf_Buffer b)"

definition mb_content :: "MultiBuffer \<Rightarrow> bytes" where
  "mb_content mb = concat (map content mb)"

lemma wf_mb_simps [simp]:
  "wf_mb []" "wf_mb (b # mb) \<longleftrightarrow> wf_Buffer b \<and> wf_mb mb" "wf_mb (xs @ ys) \<longleftrightarrow> wf_mb xs \<and> wf_mb ys"
  by (auto simp: wf_mb_def)

lemma mb_content_simps [simp]:
  "mb_content [] = []" "mb_content (b # mb) = content b @ mb_content mb"
  "mb_content (xs @ ys) = mb_content xs @ mb_content ys"
  by (simp_all add: mb_content_def)

lemma MultiBuffer_IsEmpty_content: "wf_mb mb \<Longrightarrow> MultiBuffer_IsEmpty mb \<longleftrightarrow> mb_content mb = []"
  by (induction mb) (auto simp: Buffer_IsEmpty_content)

lemma MultiBuffer_Len_aux:
  "wf_mb mb \<Longrightarrow> 0 \<le> a \<Longrightarrow> a + int (length (mb_content mb)) < 2 ^ 31 \<Longrightarrow>
   foldl (\<lambda>sz b. i32 (sz + Buffer_Len (Some b))) a mb = a + int (length (mb_content mb))"
proof (induction mb arbitrary: a)
  case Nil
  then show ?case by simp
next
  case (Cons b mb)
  then have "i32 (a + Buffer_Len (Some b)) = a + int (length (content b))"
    by (auto simp: Buffer_Len_content intro!: i32_id)
  with Cons.IH [of "a + int (length (content b))"] Cons.prems show ?case by simp
qed

lemma MultiBuffer_Len_content:
  "wf_mb mb \<Longrightarrow> int (length (mb_content mb)) < 2 ^ 31 \<Longrightarrow> MultiBuffer_Len mb = int (length (mb_content mb))"
  using MultiBuffer_Len_aux [of mb 0] by (simp add: MultiBuffer_Len_def)

lemma SplitBytes_spec:
  "wf_mb mb \<Longrightarrow>
   \<exists>rest. SplitBytes mb n = Some (rest, take n (mb_content mb)) \<and> wf_mb rest \<and>
          mb_content rest = drop n (mb_content mb)"
proof (induction mb arbitrary: n)
  case Nil
  then show ?case by simp
next
  case (Cons b mb)
  then have wf: "wf_Buffer b" "wf_mb mb" by simp_all
  show ?case
  proof (cases "content b = []")
    case True
    with Cons wf show ?thesis by (simp add: Buffer_Read_EOF Buffer_IsEmpty_content)
  next
    case False
    obtain b' where b': "Buffer_Read b n = Ok (b', take n (content b))" "wf_Buffer b'"
        "content b' = drop n (content b)"
      using Buffer_Read_spec [OF wf(1) False] by metis
    obtain rest where rest: "SplitBytes mb (n - length (content b)) = Some (rest, take (n - length (content b)) (mb_content mb))"
        "wf_mb rest" "mb_content rest = drop (n - length (content b)) (mb_content mb)"
      using Cons.IH [OF wf(2)] by blast
    show ?thesis
    proof (cases "length (content b) \<le> n")
      case True
      then show ?thesis using b' rest wf by (simp add: Buffer_IsEmpty_content)
    next
      case False
      then show ?thesis using b' wf by (simp add: Buffer_IsEmpty_content)
    qed
  qed
qed

lemma MergeBytes_loop_spec:
  assumes pool: "\<And>k. 0 < length (alloc k) \<and> int (length (alloc k)) < 2 ^ 31"
  shows "wf_mb dest \<Longrightarrow>
   \<exists>mb. MergeBytes_loop alloc k dest src = Some mb \<and> wf_mb mb \<and> mb_content mb = mb_content dest @ src"
proof (induction "length src" arbitrary: k dest src rule: less_induct)
  case less
  show ?case
  proof (cases "src = []")
    case True
    with less.prems show ?thesis by (subst MergeBytes_loop.simps) simp
  next
    case False
    let ?r = "length (alloc k)"
    have "wf_Buffer (Buffer_New (alloc k))" using pool by simp
    then obtain b where b: "Buffer_Write (Buffer_New (alloc k)) src = Some (b, int (min ?r (length src)))"
        "wf_Buffer b" "content b = take ?r src"
      by (rule Buffer_Write_spec [where data = src]) simp
    have "length (drop (min ?r (length src)) src) < length src"
      using pool [of k] False by simp
    from less.hyps [OF this, of "dest @ [b]" "Suc k"] less.prems b
    obtain mb where mb: "MergeBytes_loop alloc (Suc k) (dest @ [b]) (drop (min ?r (length src)) src) = Some mb"
        "wf_mb mb" "mb_content mb = mb_content (dest @ [b]) @ drop (min ?r (length src)) src"
      by auto
    have "take ?r src @ drop (min ?r (length src)) src = src"
      by (simp add: min_def)
    with mb b False show ?thesis by (subst MergeBytes_loop.simps) simp
  qed
qed

lemma MergeBytes_spec:
  assumes pool: "\<And>k. 0 < length (alloc k) \<and> int (length (alloc k)) < 2 ^ 31" and wf: "wf_mb dest"
  shows "\<exists>mb. MergeBytes alloc dest src = Some mb \<and> wf_mb mb \<and> mb_content mb = mb_content dest @ src"
proof (cases "dest \<noteq> [] \<and> \<not> Buffer_IsFull (Some (last dest))")
  case True
  then have d: "dest = butlast dest @ [last dest]" by simp
  then have wfl: "wf_Buffer (last dest)" "wf_mb (butlast dest)"
    using wf by (metis wf_mb_simps(2,3))+
  let ?r = "room (last dest)"
  obtain b where b: "Buffer_Write (last dest) src = Some (b, int (min ?r (length src)))"
      "wf_Buffer b" "content b = content (last dest) @ take ?r src"
    using wfl(1) by (rule Buffer_Write_spec [where data = src])
  obtain mb where mb: "MergeBytes_loop alloc 0 (butlast dest @ [b]) (drop (min ?r (length src)) src) = Some mb"
      "wf_mb mb" "mb_content mb = mb_content (butlast dest @ [b]) @ drop (min ?r (length src)) src"
    using MergeBytes_loop_spec [OF pool, of "butlast dest @ [b]"] wfl b by force
  have "mb_content dest = mb_content (butlast dest) @ content (last dest)"
    by (subst d) simp
  moreover have "take ?r src @ drop (min ?r (length src)) src = src"
    by (simp add: min_def)
  ultimately show ?thesis using True b mb by (simp add: MergeBytes_def)
next
  case False
  then show ?thesis using MergeBytes_loop_spec [OF pool wf] unfolding MergeBytes_def by (simp only: if_False)
qed

lemma MultiBuffer_Copy_spec: "wf_mb mb \<Longrightarrow> MultiBuffer_Copy mb n = Some (take n (mb_content mb))"
proof (induction mb arbitrary: n)
  case Nil
  then show ?case by simp
next
  case (Cons b mb)
  have wf: "wf_Buffer b" using Cons.prems by simp
  have "i32 (int (length (take n (content b)))) = int (length (take n (content b)))"
    using wf length_content [OF wf] by (intro wf_i32(3) [OF wf]) (auto simp: wf_Buffer_def)
  with Cons show ?case by (auto simp: Buffer_Bytes_content Buffer_Len_content Let_def min_def)
qed

lemma Buffer_ReadFrom_spec:
  assumes wf: "wf_Buffer b" and len: "length (fst (rd (room b))) \<le> room b"
  obtains b' where "Buffer_ReadFrom b rd = Some (b', int (length (fst (rd (room b)))), snd (rd (room b)))"
    and "wf_Buffer b'" and "content b' = content b @ fst (rd (room b))"
    and "buf_start b' = buf_start b" and "length (buf_v b') = length (buf_v b)"
proof -
  let ?d = "fst (rd (room b))"
  let ?b = "b\<lparr>buf_v := overwrite (buf_v b) (nat (buf_end b)) ?d,
              buf_end := buf_end b + int (length ?d)\<rparr>"
  obtain r where r: "slice_of (buf_v b) (buf_end b) (int (length (buf_v b))) = Some r" "length r = room b"
    using room_slice [OF wf] by blast
  have bnd: "buf_end b + int (length ?d) \<le> int (length (buf_v b))" "0 \<le> buf_end b"
    using wf len by (auto simp: room_def wf_Buffer_def)
  then have "i32 (buf_end b + i32 (int (length ?d))) = buf_end b + int (length ?d)"
    using wf_i32(3) [OF wf, of "int (length ?d)"] wf_i32(3) [OF wf, of "buf_end b + int (length ?d)"]
    by auto
  with r have "Buffer_ReadFrom b rd = Some (?b, int (length ?d), snd (rd (room b)))"
    by (cases "rd (room b)") (simp add: Buffer_ReadFrom_def Let_def)
  moreover have "length (buf_v ?b) = length (buf_v b)"
    using bnd by simp
  ultimately show thesis
    using that overwrite_content [OF wf len] by simp
qed

section \<open>Compact\<close>

text \<open>A buffer that has never been advanced and offers at least \<open>Size\<close> bytes. Merging into
  such a buffer fits whenever the summed lengths do.\<close>

definition fresh :: "Buffer \<Rightarrow> bool" where
  "fresh b \<longleftrightarrow> wf_Buffer b \<and> buf_start b = 0 \<and> Size \<le> int (length (buf_v b))"

lemma fresh_room: "fresh b \<Longrightarrow> length (content b) + room b = length (buf_v b)"
  by (auto simp: fresh_def room_def content_def wf_Buffer_def)

lemma Buffer_as_reader_spec:
  "wf_Buffer b \<Longrightarrow> content b \<noteq> [] \<Longrightarrow> Buffer_as_reader b n = (take n (content b), None)"
  by (rule Buffer_Read_spec [where n = n]) (auto simp: Buffer_as_reader_def)

lemma Compact_loop_spec:
  "fresh lst \<Longrightarrow> \<forall>b \<in> set mb. fresh b \<and> content b \<noteq> [] \<Longrightarrow> wf_mb mb2 \<Longrightarrow>
   int (length (content lst)) < 2 ^ 30 \<Longrightarrow> \<forall>b \<in> set mb. int (length (content b)) < 2 ^ 30 \<Longrightarrow>
   \<exists>r. Compact_loop mb2 lst mb = Some r \<and> wf_mb r \<and>
       mb_content r = mb_content mb2 @ content lst @ mb_content mb"
proof (induction mb2 lst mb rule: Compact_loop.induct)
  case (1 mb2 lst)
  then show ?case by (simp add: fresh_def)
next
  case (2 mb2 lst cur mb)
  have wf: "wf_Buffer lst" "wf_Buffer cur" and ne: "content cur \<noteq> []"
    and lim: "int (length (content lst)) + int (length (content cur)) < 2 ^ 31"
    using "2.prems" by (auto simp: fresh_def)
  have i: "i32 (Buffer_Len (Some lst) + Buffer_Len (Some cur)) =
      int (length (content lst)) + int (length (content cur))"
    using wf lim by (auto simp: Buffer_Len_content intro!: i32_id)
  have np: "Buffer_Read cur 0 \<noteq> Panic"
    using Buffer_Read_spec [OF wf(2) ne, of 0] by force
  show ?case
  proof (cases "int (length (content lst)) + int (length (content cur)) > Size")
    case True
    with "2.IH"(1) i "2.prems" wf show ?thesis by auto
  next
    case False
    have fits: "length (content cur) \<le> room lst"
      using False fresh_room [OF "2.prems"(1)] "2.prems"(1) by (auto simp: fresh_def)
    have rd: "Buffer_as_reader cur (room lst) = (content cur, None)"
      using Buffer_as_reader_spec [OF wf(2) ne] fits by simp
    obtain lst' where l': "Buffer_ReadFrom lst (Buffer_as_reader cur) = Some (lst', int (length (content cur)), None)"
        "wf_Buffer lst'" "content lst' = content lst @ content cur"
        "buf_start lst' = buf_start lst" "length (buf_v lst') = length (buf_v lst)"
      by (rule Buffer_ReadFrom_spec [OF wf(1), of "Buffer_as_reader cur"]) (use rd fits in auto)
    have "fresh lst'" using l' "2.prems"(1) by (simp add: fresh_def)
    moreover have "int (length (content lst')) < 2 ^ 30"
      using False l'(3) by (simp add: Size_def)
    ultimately show ?thesis
      using "2.IH"(2) [of "(lst', int (length (content cur)), None)"] False i np l' "2.prems" by auto
  qed
qed

lemma Compact_content:
  assumes "\<forall>b \<in> set mb. fresh b \<and> content b \<noteq> [] \<and> int (length (content b)) < 2 ^ 30"
  shows "\<exists>r. Compact mb = Some r \<and> wf_mb r \<and> mb_content r = mb_content mb"
  using assms Compact_loop_spec [of "hd mb" "tl mb" "[]"] by (cases mb) (auto simp: Compact_def)

section \<open>SplitSize\<close>

lemma SplitSize_loop_spec:
  "wf_mb mb \<Longrightarrow> wf_mb r \<Longrightarrow> t = int (length (mb_content r)) \<Longrightarrow> t \<le> sz \<Longrightarrow> sz < 2 ^ 30 \<Longrightarrow>
   \<forall>b \<in> set mb. int (length (content b)) < 2 ^ 30 \<Longrightarrow>
   SplitSize_loop mb sz t r = (rest, taken) \<Longrightarrow>
   wf_mb rest \<and> wf_mb taken \<and> mb_content taken @ mb_content rest = mb_content r @ mb_content mb \<and>
   int (length (mb_content taken)) \<le> sz"
proof (induction mb sz t r rule: SplitSize_loop.induct)
  case (1 sz t r)
  then show ?case by simp
next
  case (2 b mb sz t r)
  have "i32 (t + Buffer_Len (Some b)) = t + int (length (content b))"
    using "2.prems" by (auto simp: Buffer_Len_content intro!: i32_id)
  then show ?case using "2.prems" "2.IH" by (auto split: if_splits)
qed

lemma Buffer_Advance_content:
  assumes "wf_Buffer b" "0 \<le> k" "k \<le> int (length (content b))"
  shows "wf_Buffer (Buffer_Advance b k)" "content (Buffer_Advance b k) = drop (nat k) (content b)"
proof -
  have "i32 (buf_start b + k) = buf_start b + k"
    using assms length_content [OF assms(1)] by (intro wf_i32(3)) (auto simp: wf_Buffer_def)
  then have eq: "Buffer_Advance b k = b\<lparr>buf_start := buf_start b + k\<rparr>"
    using assms by (simp add: Buffer_Advance_def)
  show "wf_Buffer (Buffer_Advance b k)"
    using assms length_content [OF assms(1)] by (auto simp: eq wf_Buffer_def)
  have "nat (buf_end b - (buf_start b + k)) = nat (buf_end b - buf_start b) - nat k"
    "nat (buf_start b + k) = nat k + nat (buf_start b)"
    using assms by (auto simp: wf_Buffer_def)
  then show "content (Buffer_Advance b k) = drop (nat k) (content b)"
    unfolding content_def by (simp add: eq drop_take)
qed

lemma Buffer_BytesTo_content:
  assumes "wf_Buffer b" "0 \<le> k" "k \<le> int (length (content b))"
  shows "Buffer_BytesTo b k = Some (take (nat k) (content b))"
proof -
  have "i32 (buf_start b + k) = buf_start b + k"
    using assms length_content [OF assms(1)] by (intro wf_i32(3)) (auto simp: wf_Buffer_def)
  with assms length_content [OF assms(1)] show ?thesis
    by (auto simp: Buffer_BytesTo_def slice_of_def content_def wf_Buffer_def min_def)
qed

lemma SplitSize_content:
  assumes wf: "wf_mb mb" and p: "int (length p) = Size" and sz: "0 \<le> sz" "sz < 2 ^ 30"
    and small: "\<forall>b \<in> set mb. int (length (content b)) < 2 ^ 30"
    and fits: "mb \<noteq> [] \<Longrightarrow> sz \<le> Size \<or> int (length (content (hd mb))) \<le> sz"
  shows "\<exists>rest taken. SplitSize p mb sz = Some (rest, taken) \<and> wf_mb rest \<and> wf_mb taken \<and>
     mb_content taken @ mb_content rest = mb_content mb \<and> int (length (mb_content taken)) \<le> sz"
proof (cases mb)
  case Nil
  with sz show ?thesis by (simp add: SplitSize_def)
next
  case (Cons b0 tl)
  have wf0: "wf_Buffer b0" "wf_mb tl" using wf Cons by simp_all
  show ?thesis
  proof (cases "int (length (content b0)) > sz")
    case True
    let ?src = "take (nat sz) (content b0)"
    have n: "int (length ?src) = sz" using True sz by simp
    have wfn: "wf_Buffer (Buffer_New p)" using p by (simp add: Size_def)
    have "0 \<le> sz \<and> sz \<le> int (room (Buffer_New p))" using True fits Cons p sz by auto
    then obtain b' w where ext: "Buffer_Extend (Buffer_New p) sz = Some (b', w)"
      using Buffer_Extend_iff [OF wfn, of sz] sz by auto
    have fill: "wf_Buffer (Buffer_fill b' w ?src)" "content (Buffer_fill b' w ?src) = ?src"
      using Buffer_Extend_fill_content [OF wfn, of ?src b' w] ext n sz by auto
    have "SplitSize p mb sz = Some (Buffer_Advance b0 sz # tl, [Buffer_fill b' w ?src])"
      using True Cons wf0 ext sz by (simp add: SplitSize_def Buffer_Len_content Buffer_BytesTo_content)
    then show ?thesis
      using fill Buffer_Advance_content [OF wf0(1), of sz] True sz wf0 n Cons by simp
  next
    case False
    obtain rest taken where l: "SplitSize_loop mb sz 0 [] = (rest, taken)" by fastforce
    have "SplitSize p mb sz = Some (rest, taken)"
      using False Cons wf0 l by (simp add: SplitSize_def Buffer_Len_content)
    with SplitSize_loop_spec [of mb "[]" 0 sz rest taken] l wf sz small show ?thesis by simp
  qed
qed

section \<open>Writing and reading whole sequences\<close>

lemma WriteMultiBuffer_ok:
  assumes "\<And>s bs. wr s bs = (s @ [bs], None)"
  shows "wf_mb mb \<Longrightarrow> WriteMultiBuffer wr s mb = Some (s @ map content mb, [], None)"
  by (induction mb arbitrary: s) (auto simp: Buffer_Bytes_content assms)

lemma Buffer_ReadFullFrom_spec:
  assumes wf: "wf_Buffer b" and sz: "0 \<le> sz" "sz \<le> int (room b)"
  obtains b' where "Buffer_ReadFullFrom b src sz =
      Some (b', drop (nat sz) src, int (min (nat sz) (length src)),
        if nat sz \<le> length src then None else Some (if src = [] then EOF else UnexpectedEOF))"
    and "wf_Buffer b'" and "content b' = content b @ take (nat sz) src"
    and "buf_start b' = buf_start b" and "room b' = room b - min (nat sz) (length src)"
proof -
  let ?d = "take (nat sz) src"
  let ?b = "b\<lparr>buf_v := overwrite (buf_v b) (nat (buf_end b)) ?d,
              buf_end := buf_end b + int (length ?d)\<rparr>"
  have len: "length ?d \<le> room b" using sz by simp
  have bnd: "buf_end b + sz \<le> int (length (buf_v b))" "0 \<le> buf_end b"
    using wf sz by (auto simp: room_def wf_Buffer_def)
  then have e: "i32 (buf_end b + sz) = buf_end b + sz"
    using sz by (intro wf_i32(3) [OF wf]) auto
  have n: "i32 (buf_end b + i32 (int (length ?d))) = buf_end b + int (length ?d)"
    using bnd sz wf_i32(3) [OF wf, of "int (length ?d)"] wf_i32(3) [OF wf, of "buf_end b + int (length ?d)"]
    by auto
  have sl: "slice_of (buf_v b) (buf_end b) (buf_end b + sz) =
      Some (take (nat sz) (drop (nat (buf_end b)) (buf_v b)))"
    and slen: "length (take (nat sz) (drop (nat (buf_end b)) (buf_v b))) = nat sz"
    using bnd sz by (auto simp: slice_of_def)
  have io: "io_ReadFull src (nat sz) = (?d, drop (nat sz) src,
      if nat sz \<le> length src then None else Some (if src = [] then EOF else UnexpectedEOF))"
    by (auto simp: io_ReadFull_def)
  have "Buffer_ReadFullFrom b src sz = Some (?b, drop (nat sz) src, int (length ?d),
        if nat sz \<le> length src then None else Some (if src = [] then EOF else UnexpectedEOF))"
    using bnd sl slen n e wf_i32(1) [OF wf]
    by (simp add: Buffer_ReadFullFrom_def Let_def io del: length_take)
  moreover have "int (length ?d) = int (min (nat sz) (length src))" by simp
  ultimately have "Buffer_ReadFullFrom b src sz = Some (?b, drop (nat sz) src, int (min (nat sz) (length src)),
        if nat sz \<le> length src then None else Some (if src = [] then EOF else UnexpectedEOF))"
    by (simp only:)
  moreover have "room ?b = room b - min (nat sz) (length src)"
    using bnd sz len by (auto simp: room_def min_def)
  ultimately show thesis using that overwrite_content [OF wf len] by simp
qed

lemma ReadFrom_loop_spec:
  assumes pool: "\<And>k. int (length (alloc k)) = Size"
  shows "wf_mb mb \<Longrightarrow> \<exists>r. ReadFrom_loop alloc k mb src = Some (r, None) \<and> wf_mb r \<and> mb_content r = mb_content mb @ src"
proof (induction "length src" arbitrary: k mb src rule: less_induct)
  case less
  have wf: "wf_Buffer (Buffer_New (alloc k))" and rm: "Size \<le> int (room (Buffer_New (alloc k)))"
    using pool [of k] by (simp_all add: Size_def)
  obtain b where b: "Buffer_ReadFullFrom (Buffer_New (alloc k)) src Size =
      Some (b, drop 2048 src, int (min 2048 (length src)),
        if 2048 \<le> length src then None else Some (if src = [] then EOF else UnexpectedEOF))"
      "wf_Buffer b" "content b = take 2048 src"
    by (rule Buffer_ReadFullFrom_spec [OF wf _ rm, of src]) (simp_all add: Size_def)
  let ?mb = "if Buffer_IsEmpty (Some b) then mb else mb @ [b]"
  have mb: "wf_mb ?mb" "mb_content ?mb = mb_content mb @ take 2048 src"
    using b less.prems by (auto simp: Buffer_IsEmpty_content)
  show ?case
  proof (cases "2048 \<le> length src")
    case True
    then have "length (drop 2048 src) < length src" by simp
    from less.hyps [OF this mb(1), of "Suc k"] obtain r where
      r: "ReadFrom_loop alloc (Suc k) ?mb (drop 2048 src) = Some (r, None)" "wf_mb r"
        "mb_content r = mb_content ?mb @ drop 2048 src" by blast
    with mb have "mb_content r = mb_content mb @ src" by simp
    with True b r show ?thesis by (subst ReadFrom_loop.simps) (simp add: Let_def)
  next
    case False
    with b mb show ?thesis by (subst ReadFrom_loop.simps) (auto simp: Let_def)
  qed
qed

lemma ReadFrom_spec:
  assumes "\<And>k. int (length (alloc k)) = Size"
  shows "\<exists>r. ReadFrom alloc src = Some (r, None) \<and> wf_mb r \<and> mb_content r = src"
  using ReadFrom_loop_spec [OF assms, of "[]"] by (simp add: ReadFrom_def)

end
