(* ===== verification/Byte_Queue.thy ===== *)
theory Byte_Queue
  imports MultiBuffer
begin

text \<open>
  The contract that \<^verbatim>\<open>io.Writer\<close> and \<^verbatim>\<open>io.Reader\<close> clients of the buffer layer rely on,
  as a locale, its interpretation on \<open>Buffer\<close> and on \<open>MultiBufferContainer\<close>, and the
  properties of the buffer layer.
\<close>

section \<open>The interface\<close>

datatype queue_op = QWrite bytes | QRead nat

text \<open>Running a sequence of writes and reads: the final queue, the bytes accepted, the
  bytes handed out.\<close>

fun run_queue ::
  "('q \<Rightarrow> bytes \<Rightarrow> ('q \<times> nat) option) \<Rightarrow> ('q \<Rightarrow> nat \<Rightarrow> ('q \<times> bytes) option) \<Rightarrow>
   queue_op list \<Rightarrow> 'q \<Rightarrow> ('q \<times> bytes \<times> bytes) option" where
  "run_queue wr rd [] q = Some (q, [], [])"
| "run_queue wr rd (QWrite data # ops) q =
     do { (q', k) \<leftarrow> wr q data; (q'', ins, outs) \<leftarrow> run_queue wr rd ops q'; Some (q'', take k data @ ins, outs) }"
| "run_queue wr rd (QRead n # ops) q =
     do { (q', data) \<leftarrow> rd q n; (q'', ins, outs) \<leftarrow> run_queue wr rd ops q'; Some (q'', ins, data @ outs) }"

locale byte_queue =
  fixes wf :: "'q \<Rightarrow> bool" and cont :: "'q \<Rightarrow> bytes"
    and wr :: "'q \<Rightarrow> bytes \<Rightarrow> ('q \<times> nat) option"
    and rd :: "'q \<Rightarrow> nat \<Rightarrow> ('q \<times> bytes) option"
  assumes write_law: "wf q \<Longrightarrow>
      \<exists>q' k. wr q data = Some (q', k) \<and> wf q' \<and> k \<le> length data \<and> cont q' = cont q @ take k data"
    and read_law: "wf q \<Longrightarrow>
      \<exists>q'. rd q n = Some (q', take n (cont q)) \<and> wf q' \<and> cont q' = drop n (cont q)"
begin

lemma fifo:
  "wf q \<Longrightarrow> \<exists>q' ins outs. run_queue wr rd ops q = Some (q', ins, outs) \<and> wf q' \<and>
     cont q @ ins = outs @ cont q'"
proof (induction ops arbitrary: q)
  case Nil
  then show ?case by simp
next
  case (Cons op ops)
  show ?case
  proof (cases op)
    case (QWrite data)
    obtain q1 k where q1: "wr q data = Some (q1, k)" "wf q1" "cont q1 = cont q @ take k data"
      using write_law [OF Cons.prems] by blast
    obtain q' ins outs where r: "run_queue wr rd ops q1 = Some (q', ins, outs)" "wf q'"
        "cont q1 @ ins = outs @ cont q'"
      using Cons.IH [OF q1(2)] by blast
    then show ?thesis using QWrite q1 by simp
  next
    case (QRead n)
    obtain q1 where q1: "rd q n = Some (q1, take n (cont q))" "wf q1" "cont q1 = drop n (cont q)"
      using read_law [OF Cons.prems] by blast
    obtain q' ins outs where r: "run_queue wr rd ops q1 = Some (q', ins, outs)" "wf q'"
        "cont q1 @ ins = outs @ cont q'"
      using Cons.IH [OF q1(2)] by blast
    have "cont q @ ins = take n (cont q) @ (cont q1 @ ins)"
      by (simp add: q1)
    also have "\<dots> = (take n (cont q) @ outs) @ cont q'" by (simp add: r)
    finally have "cont q @ ins = (take n (cont q) @ outs) @ cont q'" .
    then show ?thesis using QRead q1 r by simp
  qed
qed

end

section \<open>The providers\<close>

definition Buffer_wr :: "Buffer \<Rightarrow> bytes \<Rightarrow> (Buffer \<times> nat) option" where
  "Buffer_wr b data = map_option (\<lambda>(b', n). (b', nat n)) (Buffer_Write b data)"

text \<open>A reader that meets \<^verbatim>\<open>EOF\<close> has read no bytes.\<close>

definition Buffer_rd :: "Buffer \<Rightarrow> nat \<Rightarrow> (Buffer \<times> bytes) option" where
  "Buffer_rd b n = (case Buffer_Read b n of Ok r \<Rightarrow> Some r | Fail _ \<Rightarrow> Some (b, []) | Panic \<Rightarrow> None)"

definition Container_wr :: "(nat \<Rightarrow> bytes) \<Rightarrow> MultiBuffer \<Rightarrow> bytes \<Rightarrow> (MultiBuffer \<times> nat) option" where
  "Container_wr alloc c data = map_option (\<lambda>(c', n). (c', nat n)) (Container_Write alloc c data)"

definition Container_rd :: "MultiBuffer \<Rightarrow> nat \<Rightarrow> (MultiBuffer \<times> bytes) option" where
  "Container_rd c n = (case Container_Read c n of Ok r \<Rightarrow> Some r | Fail _ \<Rightarrow> Some (c, []) | Panic \<Rightarrow> None)"

interpretation bufq: byte_queue wf_Buffer content Buffer_wr Buffer_rd
proof unfold_locales
  fix q :: Buffer and data
  assume "wf_Buffer q"
  then obtain b' where "Buffer_Write q data = Some (b', int (min (room q) (length data)))"
      "wf_Buffer b'" "content b' = content q @ take (room q) data"
    by (rule Buffer_Write_spec)
  then show "\<exists>q' k. Buffer_wr q data = Some (q', k) \<and> wf_Buffer q' \<and> k \<le> length data \<and>
      content q' = content q @ take k data"
    by (intro exI [of _ b'] exI [of _ "min (room q) (length data)"]) (simp add: Buffer_wr_def min_def)
next
  fix q :: Buffer and n
  assume wf: "wf_Buffer q"
  show "\<exists>q'. Buffer_rd q n = Some (q', take n (content q)) \<and> wf_Buffer q' \<and> content q' = drop n (content q)"
  proof (cases "content q = []")
    case True
    then show ?thesis using wf by (simp add: Buffer_rd_def Buffer_Read_EOF)
  next
    case False
    obtain b' where "Buffer_Read q n = Ok (b', take n (content q))" "wf_Buffer b'"
        "content b' = drop n (content q)"
      using Buffer_Read_spec [OF wf False, of n] by blast
    then show ?thesis by (simp add: Buffer_rd_def)
  qed
qed

text \<open>The 2K pool: every array it hands out has the size the pool was made for.\<close>

locale byte_pool =
  fixes alloc :: "nat \<Rightarrow> bytes"
  assumes pool_size: "int (length (alloc k)) = Size"
begin

lemma pool_bounds: "0 < length (alloc k) \<and> int (length (alloc k)) < 2 ^ 31"
  using pool_size [of k] by (auto simp: Size_def)

end

sublocale byte_pool \<subseteq> contq: byte_queue wf_mb mb_content "Container_wr alloc" Container_rd
proof unfold_locales
  fix q :: MultiBuffer and data
  assume "wf_mb q"
  then obtain mb where "MergeBytes alloc q data = Some mb" "wf_mb mb" "mb_content mb = mb_content q @ data"
    using MergeBytes_spec [of alloc q data] pool_bounds by auto
  then show "\<exists>q' k. Container_wr alloc q data = Some (q', k) \<and> wf_mb q' \<and> k \<le> length data \<and>
      mb_content q' = mb_content q @ take k data"
    by (simp add: Container_wr_def Container_Write_def)
next
  fix q :: MultiBuffer and n
  assume wf: "wf_mb q"
  show "\<exists>q'. Container_rd q n = Some (q', take n (mb_content q)) \<and> wf_mb q' \<and> mb_content q' = drop n (mb_content q)"
    using SplitBytes_spec [OF wf, of n] wf
    by (auto simp: Container_rd_def Container_Read_def MultiBuffer_IsEmpty_content)
qed

context byte_pool
begin

lemma container_fifo:
  "wf_mb c \<Longrightarrow> \<exists>c' ins outs. run_queue (Container_wr alloc) Container_rd ops c = Some (c', ins, outs) \<and>
     wf_mb c' \<and> mb_content c @ ins = outs @ mb_content c'"
  by (rule contq.fifo)

end

text \<open>A pool that has never been given an array back serves fresh ones.\<close>

definition fresh_pool :: "nat \<Rightarrow> bytes" where
  "fresh_pool k = createAllocFunc (poolSize ! 0)"

lemma length_fresh_pool [simp]: "length (fresh_pool k) = 2048"
  by (simp add: fresh_pool_def createAllocFunc_def poolSize_def numPools_def eval_nat_numeral)

interpretation fresh2k: byte_pool fresh_pool
  by unfold_locales (simp add: Size_def)

section \<open>Properties of the buffer layer\<close>

text \<open>Any sequence of \<^verbatim>\<open>Write\<close> and \<^verbatim>\<open>Read\<close> calls on a well-formed \<^verbatim>\<open>Buffer\<close> runs
  without panic and delivers the bytes first in, first out: what was in the buffer
  followed by what the writes accepted is what the reads returned followed by what is
  left.\<close>

theorem Buffer_fifo:
  assumes "wf_Buffer b"
  shows "\<exists>b' ins outs. run_queue Buffer_wr Buffer_rd ops b = Some (b', ins, outs) \<and> wf_Buffer b' \<and>
     content b @ ins = outs @ content b'"
  using assms by (rule bufq.fifo)

theorem Buffer_fifo_witness:
  "\<exists>b' ins outs. run_queue Buffer_wr Buffer_rd [QWrite [1, 2, 3], QRead 2, QWrite [4], QRead 9]
     (Buffer_New (fresh_pool 0)) = Some (b', ins, outs) \<and> wf_Buffer b' \<and> ins = outs @ content b'"
  using Buffer_fifo [of "Buffer_New (fresh_pool 0)" "[QWrite [1, 2, 3], QRead 2, QWrite [4], QRead 9]"]
  by simp

text \<open>A \<^verbatim>\<open>MultiBufferContainer\<close> over a pool that hands out 2K arrays, whatever stale
  bytes they carry, is a first-in-first-out byte queue too.\<close>

theorem Container_fifo:
  assumes "\<And>k. int (length (alloc k)) = Size" and "wf_mb c"
  shows "\<exists>c' ins outs. run_queue (Container_wr alloc) Container_rd ops c = Some (c', ins, outs) \<and> wf_mb c' \<and>
     mb_content c @ ins = outs @ mb_content c'"
  by (rule byte_pool.container_fifo [OF byte_pool.intro]) (use assms in auto)

theorem Container_fifo_witness:
  "\<exists>c' ins outs. run_queue (Container_wr (\<lambda>_. replicate 2048 7)) Container_rd
     [QWrite (replicate 3000 1), QRead 5] [] = Some (c', ins, outs) \<and> wf_mb c' \<and> ins = outs @ mb_content c'"
  using Container_fifo [of "\<lambda>_. replicate 2048 7" "[]" "[QWrite (replicate 3000 1), QRead 5]"]
  by (simp add: Size_def)

text \<open>\<^verbatim>\<open>SplitSize\<close> cuts a \<^verbatim>\<open>MultiBuffer\<close> in two without losing, duplicating or reordering
  bytes, and the part it takes has at most the requested size, provided the size fits a
  pool array or the first buffer is not longer than the size.\<close>

theorem SplitSize_splits:
  assumes "wf_mb mb" and "int (length p) = Size" and "0 \<le> sz" and "sz < 2 ^ 30"
    and "\<forall>b \<in> set mb. int (length (content b)) < 2 ^ 30"
    and "mb \<noteq> [] \<Longrightarrow> sz \<le> Size \<or> int (length (content (hd mb))) \<le> sz"
  shows "\<exists>rest taken. SplitSize p mb sz = Some (rest, taken) \<and> wf_mb rest \<and> wf_mb taken \<and>
     mb_content taken @ mb_content rest = mb_content mb \<and> int (length (mb_content taken)) \<le> sz"
  using assms by (rule SplitSize_content)

theorem SplitSize_splits_witness:
  "\<exists>rest taken. SplitSize (fresh_pool 0) [Buffer_FromBytes [1, 2, 3], Buffer_FromBytes [4]] 2 = Some (rest, taken) \<and>
     wf_mb rest \<and> wf_mb taken \<and> mb_content taken @ mb_content rest = [1, 2, 3, 4] \<and>
     int (length (mb_content taken)) \<le> 2"
  using SplitSize_splits [of "[Buffer_FromBytes [1, 2, 3], Buffer_FromBytes [4]]" "fresh_pool 0" 2]
  by (simp add: Buffer_FromBytes_def wf_Buffer_def content_def Size_def i32_id)

text \<open>\<^verbatim>\<open>SplitSize\<close> panics when the first buffer is longer than the requested size and the
  size exceeds a pool array: the copy target is a 2K buffer. \<^verbatim>\<open>common/mux\<close> and
  \<^verbatim>\<open>common/crypto\<close> call it with 8192, and \<^verbatim>\<open>NewWithSize\<close> makes buffers longer than that.\<close>

theorem SplitSize_panics:
  assumes "wf_Buffer b" and "int (length p) = Size" and "Size < sz" and "sz < int (length (content b))"
  shows "SplitSize p (b # mb) sz = None"
proof -
  have "wf_Buffer (Buffer_New p)" using assms(2) by (simp add: Size_def)
  moreover have "sz < 2 ^ 31"
    using assms(1,4) length_content [OF assms(1)] by (auto simp: wf_Buffer_def)
  ultimately have "Buffer_Extend (Buffer_New p) sz = None"
    using assms(2,3) Buffer_Extend_iff [of "Buffer_New p" sz] by (auto simp: Size_def)
  then show ?thesis using assms by (simp add: SplitSize_def Buffer_Len_content)
qed

theorem SplitSize_panics_witness:
  "SplitSize (fresh_pool 0) [Buffer_FromBytes (replicate 9000 0)] 8192 = None"
  by (rule SplitSize_panics) (simp_all add: Buffer_FromBytes_def wf_Buffer_def content_def Size_def i32_id)

text \<open>\<^verbatim>\<open>Compact\<close> keeps the byte sequence when every buffer is non-empty, has not been
  advanced and has the pool's capacity.\<close>

theorem Compact_keeps_bytes:
  assumes "\<forall>b \<in> set mb. fresh b \<and> content b \<noteq> [] \<and> int (length (content b)) < 2 ^ 30"
  shows "\<exists>r. Compact mb = Some r \<and> wf_mb r \<and> mb_content r = mb_content mb"
  using assms by (rule Compact_content)

definition filled :: "nat \<Rightarrow> nat \<Rightarrow> Buffer" where
  "filled s e = \<lparr>buf_v = replicate 2048 1, buf_start = int s, buf_end = int e, buf_ownership = managed\<rparr>"

lemma filled_facts:
  "s \<le> e \<Longrightarrow> e \<le> 2048 \<Longrightarrow> wf_Buffer (filled s e)"
  "s \<le> e \<Longrightarrow> e \<le> 2048 \<Longrightarrow> content (filled s e) = replicate (e - s) 1"
  "room (filled s e) = 2048 - e"
  by (auto simp: filled_def wf_Buffer_def content_def room_def nat_diff_distrib' min_def)

theorem Compact_keeps_bytes_witness:
  "\<exists>r. Compact [filled 0 5, filled 0 2000, filled 0 100] = Some r \<and> wf_mb r \<and>
     mb_content r = replicate 2105 1"
  using Compact_keeps_bytes [of "[filled 0 5, filled 0 2000, filled 0 100]"]
  by (simp add: fresh_def filled_facts replicate_add [symmetric])
    (simp add: filled_def Size_def)

text \<open>\<^verbatim>\<open>Compact\<close> drops a whole buffer when the one before it ends at its capacity but has
  been advanced: the lengths still fit \<^verbatim>\<open>Size\<close>, \<^verbatim>\<open>ReadFrom\<close> finds no room, reads nothing,
  and the buffer is released.\<close>

theorem Compact_loses_bytes:
  assumes "wf_Buffer a" and "wf_Buffer b" and "content b \<noteq> []" and "room a = 0"
    and "int (length (content a)) + int (length (content b)) \<le> Size"
  shows "\<exists>r. Compact [a, b] = Some r \<and> mb_content r = content a"
proof -
  have i: "i32 (Buffer_Len (Some a) + Buffer_Len (Some b)) =
      int (length (content a)) + int (length (content b))"
    using assms by (auto simp: Buffer_Len_content Size_def intro!: i32_id)
  have np: "Buffer_Read b 0 \<noteq> Panic"
    using Buffer_Read_spec [OF assms(2,3), of 0] by force
  have rd: "Buffer_as_reader b (room a) = ([], None)"
    using Buffer_as_reader_spec [OF assms(2,3)] assms(4) by simp
  obtain a' where "Buffer_ReadFrom a (Buffer_as_reader b) = Some (a', 0, None)" "content a' = content a"
    by (rule Buffer_ReadFrom_spec [OF assms(1), of "Buffer_as_reader b"]) (use rd in auto)
  with i np assms(5) show ?thesis by (simp add: Compact_def)
qed

theorem Compact_loses_bytes_witness:
  "\<exists>r. Compact [filled 1000 2048, filled 0 10] = Some r \<and> mb_content r = replicate 1048 1"
  using Compact_loses_bytes [of "filled 1000 2048" "filled 0 10"] by (simp add: filled_facts Size_def)

end
