(* ===== verification/Kcp_Segment.thy ===== *)
theory Kcp_Segment
  imports Prelude Buf
begin

text \<open>
  \<^verbatim>\<open>transport/internet/kcp/segment.go\<close>: the three kinds of mKCP segments, their
  serialisation and \<^verbatim>\<open>ReadSegment\<close>.

  The payload of a data segment is a pointer to a 2K \<^verbatim>\<open>buf.Buffer\<close>; it is modelled by
  the buffer's contents (\<open>None\<close> is nil), so \<^verbatim>\<open>Clear\<close> followed by \<^verbatim>\<open>Write\<close> keeps at
  most \<open>Size\<close> bytes. \<^verbatim>\<open>Serialize\<close> fills a slice of exactly \<^verbatim>\<open>ByteSize\<close> bytes, as its
  only caller (\<^verbatim>\<open>SimpleSegmentWriter.Write\<close>) does; the model returns those bytes.
\<close>

type_synonym Command = byte
type_synonym SegmentOption = byte

definition CommandACK :: Command where "CommandACK = 0"
definition CommandData :: Command where "CommandData = 1"
definition CommandTerminate :: Command where "CommandTerminate = 2"
definition CommandPing :: Command where "CommandPing = 3"

definition SegmentOptionClose :: SegmentOption where "SegmentOptionClose = 1"

definition DataSegmentOverhead :: u32 where "DataSegmentOverhead = 18"

lemmas command_defs = CommandACK_def CommandData_def CommandTerminate_def CommandPing_def

section \<open>Data segments\<close>

record DataSegment =
  ds_Conv :: u16
  ds_Option :: SegmentOption
  ds_Timestamp :: u32
  ds_Number :: u32
  ds_SendingNext :: u32
  ds_payload :: "bytes option"
  ds_timeout :: u32
  ds_transmit :: u32

definition NewDataSegment :: DataSegment where
  "NewDataSegment = \<lparr>ds_Conv = 0, ds_Option = 0, ds_Timestamp = 0, ds_Number = 0, ds_SendingNext = 0,
     ds_payload = None, ds_timeout = 0, ds_transmit = 0\<rparr>"

text \<open>\<^verbatim>\<open>Data\<close> allocates the payload buffer on first use.\<close>

definition DataSegment_Data :: "DataSegment \<Rightarrow> DataSegment \<times> bytes" where
  "DataSegment_Data s =
     (case ds_payload s of
        None \<Rightarrow> (s\<lparr>ds_payload := Some []\<rparr>, [])
      | Some b \<Rightarrow> (s, b))"

definition DataSegment_Detach :: "DataSegment \<Rightarrow> DataSegment \<times> bytes option" where
  "DataSegment_Detach s = (s\<lparr>ds_payload := None\<rparr>, ds_payload s)"

definition DataSegment_Release :: "DataSegment \<Rightarrow> DataSegment" where
  "DataSegment_Release s = s\<lparr>ds_payload := None\<rparr>"

definition DataSegment_parse ::
  "DataSegment \<Rightarrow> u16 \<Rightarrow> Command \<Rightarrow> SegmentOption \<Rightarrow> bytes \<Rightarrow> (DataSegment \<times> bool \<times> bytes) option" where
  "DataSegment_parse s conv cmd opt buf =
     (let s = s\<lparr>ds_Conv := conv, ds_Option := opt\<rparr> in
      if length buf < 15 then Some (s, False, [])
      else do {
        timestamp \<leftarrow> be_Uint32 buf;
        buf \<leftarrow> slice_from buf 4;
        number \<leftarrow> be_Uint32 buf;
        buf \<leftarrow> slice_from buf 4;
        sendingNext \<leftarrow> be_Uint32 buf;
        buf \<leftarrow> slice_from buf 4;
        dataLen16 \<leftarrow> be_Uint16 buf;
        buf \<leftarrow> slice_from buf 2;
        let dataLen = unat dataLen16;
        let s = s\<lparr>ds_Timestamp := timestamp, ds_Number := number, ds_SendingNext := sendingNext\<rparr>;
        if length buf < dataLen then Some (s, False, [])
        else do {
          let (s, _) = DataSegment_Data s;
          payload \<leftarrow> slice_to buf dataLen;
          let s = s\<lparr>ds_payload := Some (take (nat Size) payload)\<rparr>;
          buf \<leftarrow> slice_from buf dataLen;
          Some (s, True, buf)
        }
      })"

definition payload_len :: "bytes option \<Rightarrow> nat" where
  "payload_len p = (case p of None \<Rightarrow> 0 | Some b \<Rightarrow> length b)"

definition DataSegment_ByteSize :: "DataSegment \<Rightarrow> int" where
  "DataSegment_ByteSize s = i32 (2 + 1 + 1 + 4 + 4 + 4 + 2 + int (payload_len (ds_payload s)))"

text \<open>A nil payload makes \<^verbatim>\<open>payload.Bytes()\<close> dereference nil.\<close>

definition DataSegment_Serialize :: "DataSegment \<Rightarrow> bytes option" where
  "DataSegment_Serialize s =
     (case ds_payload s of
        None \<Rightarrow> None
      | Some b \<Rightarrow> Some (be_PutUint16 (ds_Conv s) @ [CommandData, ds_Option s] @
          be_PutUint32 (ds_Timestamp s) @ be_PutUint32 (ds_Number s) @ be_PutUint32 (ds_SendingNext s) @
          be_PutUint16 (word_of_nat (length b)) @ b))"

section \<open>Acknowledgement segments\<close>

record AckSegment =
  as_Conv :: u16
  as_Option :: SegmentOption
  as_ReceivingWindow :: u32
  as_ReceivingNext :: u32
  as_Timestamp :: u32
  as_NumberList :: "u32 list"

definition ackNumberLimit :: nat where "ackNumberLimit = 128"

definition NewAckSegment :: AckSegment where
  "NewAckSegment = \<lparr>as_Conv = 0, as_Option = 0, as_ReceivingWindow = 0, as_ReceivingNext = 0,
     as_Timestamp = 0, as_NumberList = []\<rparr>"

definition AckSegment_PutTimestamp :: "AckSegment \<Rightarrow> u32 \<Rightarrow> AckSegment" where
  "AckSegment_PutTimestamp s timestamp =
     (if timestamp - as_Timestamp s < 0x7FFFFFFF then s\<lparr>as_Timestamp := timestamp\<rparr> else s)"

definition AckSegment_PutNumber :: "AckSegment \<Rightarrow> u32 \<Rightarrow> AckSegment" where
  "AckSegment_PutNumber s number = s\<lparr>as_NumberList := as_NumberList s @ [number]\<rparr>"

definition AckSegment_IsFull :: "AckSegment \<Rightarrow> bool" where
  "AckSegment_IsFull s \<longleftrightarrow> length (as_NumberList s) = ackNumberLimit"

definition AckSegment_IsEmpty :: "AckSegment \<Rightarrow> bool" where
  "AckSegment_IsEmpty s \<longleftrightarrow> length (as_NumberList s) = 0"

fun AckSegment_parse_numbers :: "nat \<Rightarrow> AckSegment \<Rightarrow> bytes \<Rightarrow> (AckSegment \<times> bytes) option" where
  "AckSegment_parse_numbers 0 s buf = Some (s, buf)"
| "AckSegment_parse_numbers (Suc n) s buf =
     do {
       number \<leftarrow> be_Uint32 buf;
       let s = AckSegment_PutNumber s number;
       buf \<leftarrow> slice_from buf 4;
       AckSegment_parse_numbers n s buf
     }"

definition AckSegment_parse ::
  "AckSegment \<Rightarrow> u16 \<Rightarrow> Command \<Rightarrow> SegmentOption \<Rightarrow> bytes \<Rightarrow> (AckSegment \<times> bool \<times> bytes) option" where
  "AckSegment_parse s conv cmd opt buf =
     (let s = s\<lparr>as_Conv := conv, as_Option := opt\<rparr> in
      if length buf < 13 then Some (s, False, [])
      else do {
        receivingWindow \<leftarrow> be_Uint32 buf;
        buf \<leftarrow> slice_from buf 4;
        receivingNext \<leftarrow> be_Uint32 buf;
        buf \<leftarrow> slice_from buf 4;
        timestamp \<leftarrow> be_Uint32 buf;
        buf \<leftarrow> slice_from buf 4;
        count8 \<leftarrow> index buf 0;
        let count = unat count8;
        buf \<leftarrow> slice_from buf 1;
        let s = s\<lparr>as_ReceivingWindow := receivingWindow, as_ReceivingNext := receivingNext,
                  as_Timestamp := timestamp\<rparr>;
        if length buf < count * 4 then Some (s, False, [])
        else do {
          (s, buf) \<leftarrow> AckSegment_parse_numbers count s buf;
          Some (s, True, buf)
        }
      })"

definition AckSegment_ByteSize :: "AckSegment \<Rightarrow> int" where
  "AckSegment_ByteSize s = i32 (2 + 1 + 1 + 4 + 4 + 4 + 1 + i32 (int (length (as_NumberList s) * 4)))"

definition AckSegment_Serialize :: "AckSegment \<Rightarrow> bytes" where
  "AckSegment_Serialize s =
     be_PutUint16 (as_Conv s) @ [CommandACK, as_Option s] @
     be_PutUint32 (as_ReceivingWindow s) @ be_PutUint32 (as_ReceivingNext s) @
     be_PutUint32 (as_Timestamp s) @ [word_of_nat (length (as_NumberList s))] @
     concat (map be_PutUint32 (as_NumberList s))"

section \<open>Command segments\<close>

record CmdOnlySegment =
  cs_Conv :: u16
  cs_Cmd :: Command
  cs_Option :: SegmentOption
  cs_SendingNext :: u32
  cs_ReceivingNext :: u32
  cs_PeerRTO :: u32

definition NewCmdOnlySegment :: CmdOnlySegment where
  "NewCmdOnlySegment = \<lparr>cs_Conv = 0, cs_Cmd = 0, cs_Option = 0, cs_SendingNext = 0,
     cs_ReceivingNext = 0, cs_PeerRTO = 0\<rparr>"

definition CmdOnlySegment_parse ::
  "CmdOnlySegment \<Rightarrow> u16 \<Rightarrow> Command \<Rightarrow> SegmentOption \<Rightarrow> bytes \<Rightarrow> (CmdOnlySegment \<times> bool \<times> bytes) option" where
  "CmdOnlySegment_parse s conv cmd opt buf =
     (let s = s\<lparr>cs_Conv := conv, cs_Cmd := cmd, cs_Option := opt\<rparr> in
      if length buf < 12 then Some (s, False, [])
      else do {
        sendingNext \<leftarrow> be_Uint32 buf;
        buf \<leftarrow> slice_from buf 4;
        receivingNext \<leftarrow> be_Uint32 buf;
        buf \<leftarrow> slice_from buf 4;
        peerRTO \<leftarrow> be_Uint32 buf;
        buf \<leftarrow> slice_from buf 4;
        Some (s\<lparr>cs_SendingNext := sendingNext, cs_ReceivingNext := receivingNext, cs_PeerRTO := peerRTO\<rparr>,
              True, buf)
      })"

definition CmdOnlySegment_ByteSize :: "CmdOnlySegment \<Rightarrow> int" where
  "CmdOnlySegment_ByteSize s = 2 + 1 + 1 + 4 + 4 + 4"

definition CmdOnlySegment_Serialize :: "CmdOnlySegment \<Rightarrow> bytes" where
  "CmdOnlySegment_Serialize s =
     be_PutUint16 (cs_Conv s) @ [cs_Cmd s, cs_Option s] @
     be_PutUint32 (cs_SendingNext s) @ be_PutUint32 (cs_ReceivingNext s) @ be_PutUint32 (cs_PeerRTO s)"

section \<open>The Segment interface\<close>

datatype Segment = Data DataSegment | Ack AckSegment | CmdOnly CmdOnlySegment

fun Segment_Conversation :: "Segment \<Rightarrow> u16" where
  "Segment_Conversation (Data s) = ds_Conv s"
| "Segment_Conversation (Ack s) = as_Conv s"
| "Segment_Conversation (CmdOnly s) = cs_Conv s"

fun Segment_Command :: "Segment \<Rightarrow> Command" where
  "Segment_Command (Data s) = CommandData"
| "Segment_Command (Ack s) = CommandACK"
| "Segment_Command (CmdOnly s) = cs_Cmd s"

fun Segment_ByteSize :: "Segment \<Rightarrow> int" where
  "Segment_ByteSize (Data s) = DataSegment_ByteSize s"
| "Segment_ByteSize (Ack s) = AckSegment_ByteSize s"
| "Segment_ByteSize (CmdOnly s) = CmdOnlySegment_ByteSize s"

fun Segment_Serialize :: "Segment \<Rightarrow> bytes option" where
  "Segment_Serialize (Data s) = DataSegment_Serialize s"
| "Segment_Serialize (Ack s) = Some (AckSegment_Serialize s)"
| "Segment_Serialize (CmdOnly s) = Some (CmdOnlySegment_Serialize s)"

text \<open>\<^verbatim>\<open>ReadSegment\<close>: outer \<open>None\<close> is a panic; \<open>Some (None, [])\<close> is the result \<^verbatim>\<open>nil, nil\<close>.\<close>

definition ReadSegment :: "bytes \<Rightarrow> (Segment option \<times> bytes) option" where
  "ReadSegment buf =
     (if length buf < 4 then Some (None, [])
      else do {
        conv \<leftarrow> be_Uint16 buf;
        buf \<leftarrow> slice_from buf 2;
        cmd \<leftarrow> index buf 0;
        opt \<leftarrow> index buf 1;
        buf \<leftarrow> slice_from buf 2;
        (seg, valid, extra) \<leftarrow>
          (if cmd = CommandData
           then map_option (\<lambda>(s, v, x). (Data s, v, x)) (DataSegment_parse NewDataSegment conv cmd opt buf)
           else if cmd = CommandACK
           then map_option (\<lambda>(s, v, x). (Ack s, v, x)) (AckSegment_parse NewAckSegment conv cmd opt buf)
           else map_option (\<lambda>(s, v, x). (CmdOnly s, v, x)) (CmdOnlySegment_parse NewCmdOnlySegment conv cmd opt buf));
        if \<not> valid then Some (None, []) else Some (Some seg, extra)
      })"

section \<open>Parsing is total\<close>

lemmas segment_parse_defs = DataSegment_parse_def AckSegment_parse_def CmdOnlySegment_parse_def

lemma AckSegment_parse_numbers_total:
  "n * 4 \<le> length buf \<Longrightarrow>
   \<exists>ns. AckSegment_parse_numbers n s buf = Some (s\<lparr>as_NumberList := as_NumberList s @ ns\<rparr>, drop (n * 4) buf) \<and>
        length ns = n"
proof (induction n arbitrary: s buf)
  case 0
  then show ?case by simp
next
  case (Suc n)
  obtain x where x: "be_Uint32 buf = Some x" using be_Uint32_defined [of buf] Suc.prems by auto
  have "n * 4 \<le> length (drop 4 buf)" using Suc.prems by simp
  from Suc.IH [OF this, of "AckSegment_PutNumber s x"]
  obtain ns where "AckSegment_parse_numbers n (AckSegment_PutNumber s x) (drop 4 buf) =
      Some ((AckSegment_PutNumber s x)\<lparr>as_NumberList := as_NumberList (AckSegment_PutNumber s x) @ ns\<rparr>,
        drop (n * 4) (drop 4 buf))" "length ns = n"
    by blast
  with x Suc.prems show ?case
    by (intro exI [of _ "x # ns"]) (simp add: slice_from_eq AckSegment_PutNumber_def add.commute)
qed

text \<open>Each parser either rejects the input or consumes a prefix of it of at least a given
  length.\<close>

definition consumes :: "nat \<Rightarrow> bytes \<Rightarrow> ('s \<times> bool \<times> bytes) option \<Rightarrow> bool" where
  "consumes k buf r \<longleftrightarrow> (\<exists>s. r = Some (s, False, [])) \<or>
     (\<exists>s j. r = Some (s, True, drop j buf) \<and> k \<le> j \<and> j \<le> length buf)"

lemma consumes_reject: "r = Some (s, False, []) \<Longrightarrow> consumes k buf r"
  by (simp add: consumes_def)

lemma consumes_accept: "r = Some (s, True, drop j buf) \<Longrightarrow> k \<le> j \<Longrightarrow> j \<le> length buf \<Longrightarrow> consumes k buf r"
  unfolding consumes_def by blast

lemma consumes_map:
  "consumes k buf r \<Longrightarrow> j \<le> k \<Longrightarrow> consumes j buf (map_option (\<lambda>(s, y). (f s, y)) r)"
  unfolding consumes_def using order_trans by fastforce

lemma DataSegment_parse_total:
  "consumes 14 buf (DataSegment_parse s conv cmd opt buf)"
proof (cases "length buf < 15")
  case True
  then show ?thesis by (intro consumes_reject) (simp add: DataSegment_parse_def)
next
  case False
  obtain t n sn l where
    p: "be_Uint32 buf = Some t" "be_Uint32 (drop 4 buf) = Some n" "be_Uint32 (drop 8 buf) = Some sn"
      "be_Uint16 (drop 12 buf) = Some l"
    using False be_Uint32_defined [of buf] be_Uint32_defined [of "drop 4 buf"]
      be_Uint32_defined [of "drop 8 buf"] be_Uint16_defined [of "drop 12 buf"] by force
  have drops: "slice_from buf 4 = Some (drop 4 buf)" "slice_from (drop 4 buf) 4 = Some (drop 8 buf)"
    "slice_from (drop 8 buf) 4 = Some (drop 12 buf)" "slice_from (drop 12 buf) 2 = Some (drop 14 buf)"
    using False by (simp_all add: slice_from_eq)
  show ?thesis
  proof (cases "length (drop 14 buf) < unat l")
    case True
    with False p drops show ?thesis by (intro consumes_reject) (simp add: DataSegment_parse_def Let_def)
  next
    case nl: False
    then have "slice_to (drop 14 buf) (unat l) = Some (take (unat l) (drop 14 buf))"
      "slice_from (drop 14 buf) (unat l) = Some (drop (14 + unat l) buf)"
      by (simp_all add: slice_to_eq slice_from_eq add.commute)
    with False nl p drops show ?thesis
      by (intro consumes_accept [where j = "14 + unat l"])
        (auto simp: DataSegment_parse_def DataSegment_Data_def Let_def split: option.splits)
  qed
qed

lemma AckSegment_parse_total:
  "consumes 13 buf (AckSegment_parse s conv cmd opt buf)"
proof (cases "length buf < 13")
  case True
  then show ?thesis by (intro consumes_reject) (simp add: AckSegment_parse_def)
next
  case False
  obtain w n t where
    p: "be_Uint32 buf = Some w" "be_Uint32 (drop 4 buf) = Some n" "be_Uint32 (drop 8 buf) = Some t"
    using False be_Uint32_defined [of buf] be_Uint32_defined [of "drop 4 buf"]
      be_Uint32_defined [of "drop 8 buf"] by force
  have drops: "slice_from buf 4 = Some (drop 4 buf)" "slice_from (drop 4 buf) 4 = Some (drop 8 buf)"
    "slice_from (drop 8 buf) 4 = Some (drop 12 buf)" "slice_from (drop 12 buf) 1 = Some (drop 13 buf)"
    "index (drop 12 buf) 0 = Some (buf ! 12)"
    using False by (simp_all add: slice_from_eq index_def)
  let ?c = "unat (buf ! 12)"
  show ?thesis
  proof (cases "length (drop 13 buf) < ?c * 4")
    case True
    with False p drops show ?thesis by (intro consumes_reject) (simp add: AckSegment_parse_def Let_def)
  next
    case nl: False
    let ?s = "s\<lparr>as_Conv := conv, as_Option := opt, as_ReceivingWindow := w, as_ReceivingNext := n, as_Timestamp := t\<rparr>"
    obtain ns where "AckSegment_parse_numbers ?c ?s (drop 13 buf) =
        Some (?s\<lparr>as_NumberList := as_NumberList ?s @ ns\<rparr>, drop (?c * 4) (drop 13 buf))"
      using AckSegment_parse_numbers_total [of ?c "drop 13 buf" ?s] nl by auto
    with False nl p drops show ?thesis
      by (intro consumes_accept [where j = "13 + ?c * 4"]) (simp_all add: AckSegment_parse_def Let_def add.commute)
  qed
qed

lemma CmdOnlySegment_parse_total:
  "consumes 12 buf (CmdOnlySegment_parse s conv cmd opt buf)"
proof (cases "length buf < 12")
  case True
  then show ?thesis by (intro consumes_reject) (simp add: CmdOnlySegment_parse_def)
next
  case False
  obtain a b c where
    p: "be_Uint32 buf = Some a" "be_Uint32 (drop 4 buf) = Some b" "be_Uint32 (drop 8 buf) = Some c"
    using False be_Uint32_defined [of buf] be_Uint32_defined [of "drop 4 buf"]
      be_Uint32_defined [of "drop 8 buf"] by force
  have "slice_from buf 4 = Some (drop 4 buf)" "slice_from (drop 4 buf) 4 = Some (drop 8 buf)"
    "slice_from (drop 8 buf) 4 = Some (drop 12 buf)"
    using False by (simp_all add: slice_from_eq)
  with False p show ?thesis 
    by (intro consumes_accept [where j = 12]) (simp_all add: CmdOnlySegment_parse_def Let_def)
qed

lemma ReadSegment_cases:
  obtains (reject) "ReadSegment buf = Some (None, [])"
  | (accept) seg k where "ReadSegment buf = Some (Some seg, drop k buf)" "16 \<le> k" "k \<le> length buf"
proof (cases "length buf < 4")
  case True
  then show ?thesis by (intro reject) (simp add: ReadSegment_def)
next
  case False
  obtain conv where c: "be_Uint16 buf = Some conv" using be_Uint16_defined [of buf] False by auto
  let ?cmd = "buf ! 2" and ?opt = "buf ! 3" and ?b = "drop 4 buf"
  have pre: "slice_from buf 2 = Some (drop 2 buf)" "index (drop 2 buf) 0 = Some ?cmd"
    "index (drop 2 buf) 1 = Some ?opt" "slice_from (drop 2 buf) 2 = Some ?b"
    using False by (auto simp: slice_from_eq index_def)
  let ?r = "if ?cmd = CommandData
           then map_option (\<lambda>(s, v, x). (Data s, v, x)) (DataSegment_parse NewDataSegment conv ?cmd ?opt ?b)
           else if ?cmd = CommandACK
           then map_option (\<lambda>(s, v, x). (Ack s, v, x)) (AckSegment_parse NewAckSegment conv ?cmd ?opt ?b)
           else map_option (\<lambda>(s, v, x). (CmdOnly s, v, x)) (CmdOnlySegment_parse NewCmdOnlySegment conv ?cmd ?opt ?b)"
  have "consumes 12 ?b ?r"
    by (simp add: consumes_map [OF DataSegment_parse_total] consumes_map [OF AckSegment_parse_total]
        consumes_map [OF CmdOnlySegment_parse_total])
  then consider seg where "?r = Some (seg, False, [])"
    | seg k where "?r = Some (seg, True, drop k ?b)" "12 \<le> k" "k \<le> length ?b"
    unfolding consumes_def by blast
  then show ?thesis
  proof cases
    case 1
    then show ?thesis
      using False c pre by (intro reject) (simp add: ReadSegment_def)
  next
    case (2 seg k)
    show ?thesis
    proof (rule accept)
      show "ReadSegment buf = Some (Some seg, drop (4 + k) buf)"
        using False c pre 2 by (simp add: ReadSegment_def add.commute)
    qed (use 2 False in auto)
  qed
qed

text \<open>C21. \<^verbatim>\<open>ReadSegment\<close> never panics, whatever bytes arrive from the network; it either
  rejects the input or returns a segment and a proper suffix of the input, so a loop over
  a packet makes progress.\<close>

theorem ReadSegment_total:
  "ReadSegment buf = Some (None, []) \<or>
   (\<exists>seg k. ReadSegment buf = Some (Some seg, drop k buf) \<and> 16 \<le> k \<and> k \<le> length buf)"
  by (cases buf rule: ReadSegment_cases) auto

section \<open>Round trips\<close>

lemma DataSegment_parse_Serialize:
  assumes "ds_payload s = Some b" and "length b \<le> 2048" and "0 < length b + length rest"
  shows "DataSegment_parse s0 (ds_Conv s) cmd (ds_Option s)
     (be_PutUint32 (ds_Timestamp s) @ be_PutUint32 (ds_Number s) @ be_PutUint32 (ds_SendingNext s) @
      be_PutUint16 (word_of_nat (length b)) @ b @ rest) =
     Some (s\<lparr>ds_timeout := ds_timeout s0, ds_transmit := ds_transmit s0\<rparr>, True, rest)"
proof -
  have "\<not> length (be_PutUint32 (ds_Timestamp s) @ be_PutUint32 (ds_Number s) @ be_PutUint32 (ds_SendingNext s) @
      be_PutUint16 (word_of_nat (length b)) @ b @ rest) < 15"
    using assms(3) by simp
  with assms show ?thesis
    by (simp add: DataSegment_parse_def DataSegment_Data_def Let_def Size_def split: option.splits)
qed

lemma AckSegment_parse_numbers_concat:
  "AckSegment_parse_numbers (length ns) s (concat (map be_PutUint32 ns) @ rest) =
     Some (s\<lparr>as_NumberList := as_NumberList s @ ns\<rparr>, rest)"
  by (induction ns arbitrary: s) (simp_all add: AckSegment_PutNumber_def)

lemma length_concat_be_PutUint32 [simp]: "length (concat (map be_PutUint32 ns)) = 4 * length ns"
  by (induction ns) simp_all

lemma AckSegment_parse_Serialize:
  assumes "length (as_NumberList s) \<le> 255" and "as_NumberList s0 = []"
  shows "AckSegment_parse s0 (as_Conv s) cmd (as_Option s)
     (be_PutUint32 (as_ReceivingWindow s) @ be_PutUint32 (as_ReceivingNext s) @
      be_PutUint32 (as_Timestamp s) @ word_of_nat (length (as_NumberList s)) #
      concat (map be_PutUint32 (as_NumberList s)) @ rest) = Some (s, True, rest)"
proof -
  have idx: "index (x # xs) 0 = Some x" "slice_from (x # xs) (Suc 0) = Some xs" for x :: byte and xs
    by (simp_all add: index_def slice_from_def)
  show ?thesis
    using assms
    by (simp add: AckSegment_parse_def Let_def AckSegment_parse_numbers_concat idx)
qed

lemma CmdOnlySegment_parse_Serialize:
  "CmdOnlySegment_parse s0 (cs_Conv s) (cs_Cmd s) (cs_Option s)
     (be_PutUint32 (cs_SendingNext s) @ be_PutUint32 (cs_ReceivingNext s) @ be_PutUint32 (cs_PeerRTO s) @ rest) =
     Some (s, True, rest)"
  by (simp add: CmdOnlySegment_parse_def Let_def)

text \<open>What a segment looks like to the peer: the local retransmission bookkeeping of a data
  segment is not transmitted.\<close>

fun on_wire :: "Segment \<Rightarrow> Segment" where
  "on_wire (Data s) = Data (s\<lparr>ds_timeout := 0, ds_transmit := 0\<rparr>)"
| "on_wire seg = seg"

text \<open>Segments the serialisers are meant for: a payload that fits a buffer, a count that fits
  a byte, a command that is not taken by the other two kinds.\<close>

fun sendable :: "Segment \<Rightarrow> bool" where
  "sendable (Data s) = (case ds_payload s of None \<Rightarrow> False | Some b \<Rightarrow> 0 < length b \<and> length b \<le> 2048)"
| "sendable (Ack s) = (length (as_NumberList s) \<le> 255)"
| "sendable (CmdOnly s) = (cs_Cmd s \<noteq> CommandData \<and> cs_Cmd s \<noteq> CommandACK)"

lemma ReadSegment_header:
  "ReadSegment (be_PutUint16 conv @ cmd # opt # buf) =
     Option.bind
       (if cmd = CommandData
        then map_option (\<lambda>(s, v, x). (Data s, v, x)) (DataSegment_parse NewDataSegment conv cmd opt buf)
        else if cmd = CommandACK
        then map_option (\<lambda>(s, v, x). (Ack s, v, x)) (AckSegment_parse NewAckSegment conv cmd opt buf)
        else map_option (\<lambda>(s, v, x). (CmdOnly s, v, x)) (CmdOnlySegment_parse NewCmdOnlySegment conv cmd opt buf))
       (\<lambda>(seg, valid, extra). if \<not> valid then Some (None, []) else Some (Some seg, extra))"
proof -
  have "index (cmd # opt # buf) 0 = Some cmd" "index (cmd # opt # buf) 1 = Some opt"
    "slice_from (cmd # opt # buf) 2 = Some buf"
    by (simp_all add: index_def slice_from_def)
  then show ?thesis by (simp add: ReadSegment_def)
qed

lemma sendable_reads_back:
  assumes "sendable seg"
  shows "\<exists>bs. Segment_Serialize seg = Some bs \<and> ReadSegment (bs @ rest) = Some (Some (on_wire seg), rest)"
proof (cases seg)
  case (Data s)
  then obtain b where b: "ds_payload s = Some b" "0 < length b" "length b \<le> 2048"
    using assms by (auto split: option.splits)
  then show ?thesis
    using Data DataSegment_parse_Serialize [of s b rest NewDataSegment CommandData]
    by (simp add: DataSegment_Serialize_def ReadSegment_header NewDataSegment_def)
next
  case (Ack s)
  then show ?thesis
    using assms AckSegment_parse_Serialize [of s NewAckSegment CommandACK rest]
    by (simp add: AckSegment_Serialize_def ReadSegment_header command_defs NewAckSegment_def)
next
  case (CmdOnly s)
  then show ?thesis
    using assms CmdOnlySegment_parse_Serialize [of NewCmdOnlySegment s rest]
    by (simp add: CmdOnlySegment_Serialize_def ReadSegment_header)
qed

text \<open>C20. Reading back a serialised segment, whatever follows it in the packet, gives the same
  segment and exactly the bytes that followed.\<close>

theorem ReadSegment_Serialize:
  assumes "sendable seg"
  shows "\<exists>bs. Segment_Serialize seg = Some bs \<and> ReadSegment (bs @ rest) = Some (Some (on_wire seg), rest)"
  by (rule sendable_reads_back [OF assms])

definition example_ack :: AckSegment where
  "example_ack = NewAckSegment\<lparr>as_Conv := 7, as_ReceivingNext := 3, as_NumberList := [4, 9]\<rparr>"

theorem ReadSegment_Serialize_witness:
  "\<exists>bs. Segment_Serialize (Ack example_ack) = Some bs \<and>
     ReadSegment (bs @ [1, 2]) = Some (Some (Ack example_ack), [1, 2])"
  using ReadSegment_Serialize [of "Ack example_ack" "[1, 2]"] by (simp add: example_ack_def)

lemma Serialize_length:
  assumes "sendable seg" and "Segment_Serialize seg = Some bs"
  shows "int (length bs) = Segment_ByteSize seg"
  using assms
  by (cases seg) (auto simp: DataSegment_Serialize_def AckSegment_Serialize_def CmdOnlySegment_Serialize_def
      DataSegment_ByteSize_def AckSegment_ByteSize_def CmdOnlySegment_ByteSize_def payload_len_def i32_id
      split: option.splits)

lemma sendable_Serialize: "sendable seg \<Longrightarrow> \<exists>bs. Segment_Serialize seg = Some bs"
  by (cases seg) (auto simp: DataSegment_Serialize_def split: option.splits)

text \<open>\<^verbatim>\<open>ByteSize\<close> is the number of bytes \<^verbatim>\<open>Serialize\<close> writes, so the slice the segment
  writer extends its buffer by is filled completely.\<close>

theorem Serialize_ByteSize:
  assumes "sendable seg" and "Segment_Serialize seg = Some bs"
  shows "int (length bs) = Segment_ByteSize seg"
  by (rule Serialize_length [OF assms])

theorem Serialize_ByteSize_witness: "Segment_ByteSize (Ack example_ack) = 25"
  using Serialize_ByteSize [of "Ack example_ack" "AckSegment_Serialize example_ack"]
  by (simp add: example_ack_def AckSegment_Serialize_def NewAckSegment_def)

text \<open>The fixed part of a data segment after the common header is 14 bytes, but
  \<^verbatim>\<open>parse\<close> insists on 15: a data segment with an empty payload at the end of a packet is
  rejected by the reader although the serialiser produces it.\<close>

theorem empty_data_segment_rejected:
  assumes "ds_payload s = Some []"
  shows "\<exists>bs. DataSegment_Serialize s = Some bs \<and> ReadSegment bs = Some (None, [])"
  using assms by (simp add: DataSegment_Serialize_def ReadSegment_header DataSegment_parse_def Let_def)

theorem empty_data_segment_rejected_witness:
  "\<exists>bs. DataSegment_Serialize (NewDataSegment\<lparr>ds_payload := Some []\<rparr>) = Some bs \<and>
     ReadSegment bs = Some (None, [])"
  by (rule empty_data_segment_rejected) simp

end
