(* ===== verification/Kcp_Config.thy ===== *)
theory Kcp_Config
  imports Prelude
begin

text \<open>
  The settings and the round-trip estimator of mKCP: \<^verbatim>\<open>transport/internet/kcp/config.go\<close>
  and the types \<^verbatim>\<open>State\<close> and \<^verbatim>\<open>RoundTripInfo\<close> of \<^verbatim>\<open>connection.go\<close>.

  A nil \<^verbatim>\<open>*Config\<close> is \<open>None\<close>, as is a nil wrapper message of a field. Integer division by
  zero panics in Go, so the sizes computed by division are options.
\<close>

section \<open>Config\<close>

record Config =
  Mtu :: "u32 option"
  Tti :: "u32 option"
  UplinkCapacity :: "u32 option"
  DownlinkCapacity :: "u32 option"
  WriteBuffer :: "u32 option"
  ReadBuffer :: "u32 option"
  Congestion :: bool

definition default_Config :: Config where
  "default_Config = \<lparr>Mtu = None, Tti = None, UplinkCapacity = None, DownlinkCapacity = None,
     WriteBuffer = None, ReadBuffer = None, Congestion = False\<rparr>"

definition setting :: "(Config \<Rightarrow> u32 option) \<Rightarrow> u32 \<Rightarrow> Config option \<Rightarrow> u32" where
  "setting f dflt c = (case c of None \<Rightarrow> dflt | Some c \<Rightarrow> (case f c of None \<Rightarrow> dflt | Some x \<Rightarrow> x))"

definition GetMTUValue :: "Config option \<Rightarrow> u32" where
  "GetMTUValue c = setting Mtu 1350 c"

definition GetTTIValue :: "Config option \<Rightarrow> u32" where
  "GetTTIValue c = setting Tti 50 c"

definition GetUplinkCapacityValue :: "Config option \<Rightarrow> u32" where
  "GetUplinkCapacityValue c = setting UplinkCapacity 5 c"

definition GetDownlinkCapacityValue :: "Config option \<Rightarrow> u32" where
  "GetDownlinkCapacityValue c = setting DownlinkCapacity 20 c"

definition GetWriteBufferSize :: "Config option \<Rightarrow> u32" where
  "GetWriteBufferSize c = setting WriteBuffer (2 * 1024 * 1024) c"

definition GetReadBufferSize :: "Config option \<Rightarrow> u32" where
  "GetReadBufferSize c = setting ReadBuffer (2 * 1024 * 1024) c"

text \<open>Go's unsigned division: a panic on a zero divisor.\<close>

definition udiv :: "u32 \<Rightarrow> u32 \<Rightarrow> u32 option" where
  "udiv a b = (if b = 0 then None else Some (a div b))"

definition GetSendingInFlightSize :: "Config option \<Rightarrow> u32 option" where
  "GetSendingInFlightSize c =
     do {
       perMtu \<leftarrow> udiv (GetUplinkCapacityValue c * 1024 * 1024) (GetMTUValue c);
       perSec \<leftarrow> udiv 1000 (GetTTIValue c);
       sz \<leftarrow> udiv perMtu perSec;
       Some (if sz < 8 then 8 else sz)
     }"

definition GetSendingBufferSize :: "Config option \<Rightarrow> u32 option" where
  "GetSendingBufferSize c = udiv (GetWriteBufferSize c) (GetMTUValue c)"

definition GetReceivingInFlightSize :: "Config option \<Rightarrow> u32 option" where
  "GetReceivingInFlightSize c =
     do {
       perMtu \<leftarrow> udiv (GetDownlinkCapacityValue c * 1024 * 1024) (GetMTUValue c);
       perSec \<leftarrow> udiv 1000 (GetTTIValue c);
       sz \<leftarrow> udiv perMtu perSec;
       Some (if sz < 8 then 8 else sz)
     }"

definition GetReceivingBufferSize :: "Config option \<Rightarrow> u32 option" where
  "GetReceivingBufferSize c = udiv (GetReadBufferSize c) (GetMTUValue c)"

lemma udiv_Some_iff: "udiv a b = Some c \<longleftrightarrow> b \<noteq> 0 \<and> c = a div b"
  by (auto simp: udiv_def)

lemma GetSendingInFlightSize_ge: "GetSendingInFlightSize c = Some f \<Longrightarrow> 8 \<le> f"
  by (auto simp: GetSendingInFlightSize_def bind_eq_Some_conv split: if_splits)

lemma GetReceivingInFlightSize_ge: "GetReceivingInFlightSize c = Some f \<Longrightarrow> 8 \<le> f"
  by (auto simp: GetReceivingInFlightSize_def bind_eq_Some_conv split: if_splits)

lemma div_1000: "t \<noteq> 0 \<Longrightarrow> 1000 div t \<noteq> 0 \<longleftrightarrow> t \<le> (1000 :: u32)"
proof -
  assume t: "t \<noteq> 0"
  have "1000 div t = 0 \<longleftrightarrow> unat (1000 div t) = 0" by (simp add: unat_eq_0)
  also have "\<dots> \<longleftrightarrow> 1000 < unat t" using t by (auto simp: unat_div div_eq_0_iff unat_eq_0)
  finally show ?thesis by (auto simp: word_le_nat_alt)
qed

text \<open>The in-flight sizes are computed without panic exactly when the MTU is not zero and
  the TTI is between 1 and 1000 milliseconds, and then they are at least 8.\<close>

theorem in_flight_sizes_defined:
  "(\<exists>f g. GetSendingInFlightSize c = Some f \<and> GetReceivingInFlightSize c = Some g \<and> 8 \<le> f \<and> 8 \<le> g) \<longleftrightarrow>
   GetMTUValue c \<noteq> 0 \<and> GetTTIValue c \<noteq> 0 \<and> GetTTIValue c \<le> 1000"
  (is "?L \<longleftrightarrow> ?R")
proof
  assume ?L
  then obtain f where f: "GetSendingInFlightSize c = Some f" by blast
  then have nz: "GetMTUValue c \<noteq> 0" "GetTTIValue c \<noteq> 0" "1000 div GetTTIValue c \<noteq> 0"
    by (auto simp: GetSendingInFlightSize_def bind_eq_Some_conv udiv_Some_iff)
  then show ?R using div_1000 by blast
next
  assume R: ?R
  then have "1000 div GetTTIValue c \<noteq> 0" using div_1000 by blast
  then show ?L
    using R by (auto simp: GetSendingInFlightSize_def GetReceivingInFlightSize_def udiv_def)
qed

text \<open>The capacity in bytes is computed in 32 bits: an uplink capacity of 4096 (the
  smallest that overflows) is taken for none, and the in-flight size falls to its minimum.\<close>

theorem sending_in_flight_overflow:
  assumes "GetMTUValue c \<noteq> 0" and "GetTTIValue c \<noteq> 0" and "GetTTIValue c \<le> 1000"
    and "GetUplinkCapacityValue c = 4096"
  shows "GetSendingInFlightSize c = Some 8"
proof -
  have "1000 div GetTTIValue c \<noteq> 0" using assms div_1000 by blast
  moreover have "GetUplinkCapacityValue c * 1024 * 1024 = 0" by (simp add: assms(4))
  ultimately show ?thesis using assms(1-3) by (simp add: GetSendingInFlightSize_def udiv_def)
qed

theorem sending_in_flight_overflow_witness:
  "GetSendingInFlightSize (Some (default_Config\<lparr>UplinkCapacity := Some 4096\<rparr>)) = Some 8"
  by (rule sending_in_flight_overflow)
    (simp_all add: GetMTUValue_def GetTTIValue_def GetUplinkCapacityValue_def setting_def default_Config_def)

section \<open>Connection states\<close>

datatype State =
    StateActive
  | StateReadyToClose
  | StatePeerClosed
  | StateTerminating
  | StatePeerTerminating
  | StateTerminated

fun State_Is :: "State \<Rightarrow> State list \<Rightarrow> bool" where
  "State_Is s [] = False"
| "State_Is s (st # states) = (if s = st then True else State_Is s states)"

lemma State_Is_set [simp]: "State_Is s states \<longleftrightarrow> s \<in> set states"
  by (induction states) auto

section \<open>Round-trip estimation\<close>

record RoundTripInfo =
  rt_variation :: u32
  rt_srtt :: u32
  rt_rto :: u32
  rt_minRtt :: u32
  rt_updatedTimestamp :: u32

definition RoundTripInfo_UpdatePeerRTO :: "RoundTripInfo \<Rightarrow> u32 \<Rightarrow> u32 \<Rightarrow> RoundTripInfo" where
  "RoundTripInfo_UpdatePeerRTO info rto current =
     (if current - rt_updatedTimestamp info < 3000 then info
      else info\<lparr>rt_updatedTimestamp := current, rt_rto := rto\<rparr>)"

definition RoundTripInfo_Update :: "RoundTripInfo \<Rightarrow> u32 \<Rightarrow> u32 \<Rightarrow> RoundTripInfo" where
  "RoundTripInfo_Update info rtt current =
     (if rtt > 0x7FFFFFFF then info
      else
        let info =
          (if rt_srtt info = 0
           then info\<lparr>rt_srtt := rtt, rt_variation := rtt div 2\<rparr>
           else
             let delta = (if rt_srtt info > rtt then rt_srtt info - rtt else rtt - rt_srtt info);
                 info = info\<lparr>rt_variation := (3 * rt_variation info + delta) div 4\<rparr>;
                 info = info\<lparr>rt_srtt := (7 * rt_srtt info + rtt) div 8\<rparr>
             in if rt_srtt info < rt_minRtt info then info\<lparr>rt_srtt := rt_minRtt info\<rparr> else info);
            rto =
              (if rt_minRtt info < 4 * rt_variation info
               then rt_srtt info + 4 * rt_variation info
               else rt_srtt info + rt_variation info);
            rto = (if rto > 10000 then 10000 else rto)
        in info\<lparr>rt_rto := rto * 5 div 4, rt_updatedTimestamp := current\<rparr>)"

definition RoundTripInfo_Timeout :: "RoundTripInfo \<Rightarrow> u32" where
  "RoundTripInfo_Timeout info = rt_rto info"

definition RoundTripInfo_SmoothedTime :: "RoundTripInfo \<Rightarrow> u32" where
  "RoundTripInfo_SmoothedTime info = rt_srtt info"

text \<open>The estimator computes without wrap-around while its fields stay in the range that
  round trips of less than ten seconds keep them in.\<close>

definition rt_ok :: "RoundTripInfo \<Rightarrow> bool" where
  "rt_ok info \<longleftrightarrow> rt_srtt info \<le> 10000 \<and> rt_variation info \<le> 10000 \<and> rt_minRtt info \<le> 10000"

lemma unat_le_10000: "(x :: u32) \<le> 10000 \<longleftrightarrow> unat x \<le> 10000"
  by (simp add: word_le_nat_alt)

lemma unat_mult_small: "unat (a :: u32) * unat b < 2 ^ 32 \<Longrightarrow> unat (a * b) = unat a * unat b"
  by (simp add: unat_word_ariths)

lemma unat_add_small: "unat (a :: u32) + unat b < 2 ^ 32 \<Longrightarrow> unat (a + b) = unat a + unat b"
  by (simp add: unat_word_ariths)

lemma unat_sub_small: "(b :: u32) \<le> a \<Longrightarrow> unat (a - b) = unat a - unat b"
  by (simp add: unat_sub)

lemma srtt_step:
  fixes s r :: u32
  assumes "s \<le> 10000" "r < 10000"
  shows "unat ((7 * s + r) div 8) = (7 * unat s + unat r) div 8"
proof -
  have "unat s \<le> 10000" "unat r < 10000" using assms by (auto simp: word_le_nat_alt word_less_nat_alt)
  then show ?thesis by (simp add: unat_div unat_add_small unat_mult_small)
qed

lemma variation_step:
  fixes v d :: u32
  assumes "v \<le> 10000" "d \<le> 10000"
  shows "unat ((3 * v + d) div 4) = (3 * unat v + unat d) div 4"
proof -
  have "unat v \<le> 10000" "unat d \<le> 10000" using assms by (auto simp: word_le_nat_alt)
  then show ?thesis by (simp add: unat_div unat_add_small unat_mult_small)
qed

lemma rto_step:
  fixes rto :: u32
  shows "(if rto > 10000 then 10000 else rto) * 5 div 4 \<le> 12500"
proof -
  let ?r = "if rto > 10000 then 10000 else rto"
  have "unat ?r \<le> 10000" by (auto simp: word_less_nat_alt)
  then have "unat (?r * 5 div 4) = unat ?r * 5 div 4" "unat ?r * 5 div 4 \<le> 12500"
    by (simp_all only: unat_div) (simp_all add: unat_mult_small)
  then show ?thesis by (simp add: word_le_nat_alt)
qed

lemma RoundTripInfo_Update_rto: "rtt \<le> 0x7FFFFFFF \<Longrightarrow> rt_rto (RoundTripInfo_Update info rtt current) \<le> 12500"
  using rto_step by (auto simp: RoundTripInfo_Update_def Let_def not_le [symmetric] simp del: not_le)

text \<open>A sample below ten seconds keeps the estimator in range: the smoothed round trip is
  the exact weighted mean (not below the configured minimum), nothing wraps, and the
  retransmission timeout is at most 12.5 seconds.\<close>

theorem RoundTripInfo_Update_exact:
  assumes ok: "rt_ok info" and rtt: "rtt < 10000" and srtt: "rt_srtt info \<noteq> 0"
  shows "let info' = RoundTripInfo_Update info rtt current in
     rt_ok info' \<and> rt_rto info' \<le> 12500 \<and>
     unat (rt_srtt info') = max (unat (rt_minRtt info)) ((7 * unat (rt_srtt info) + unat rtt) div 8)"
proof -
  define info' where "info' = RoundTripInfo_Update info rtt current"
  let ?d = "if rt_srtt info > rtt then rt_srtt info - rtt else rtt - rt_srtt info"
  let ?v = "(3 * rt_variation info + ?d) div 4"
  let ?s = "(7 * rt_srtt info + rtt) div 8"
  have le: "rtt \<le> 0x7FFFFFFF"
    using rtt by (simp add: word_le_nat_alt word_less_nat_alt)
  have d: "?d \<le> 10000"
    using ok rtt by (auto simp: rt_ok_def word_le_nat_alt word_less_nat_alt unat_sub not_less)
  have v: "?v \<le> 10000"
    using variation_step [OF _ d, of "rt_variation info"] ok d by (auto simp: rt_ok_def word_le_nat_alt)
  have s: "unat ?s = (7 * unat (rt_srtt info) + unat rtt) div 8"
    using ok rtt by (intro srtt_step) (auto simp: rt_ok_def)
  have s_le: "?s \<le> 10000"
    using s ok rtt by (auto simp: rt_ok_def word_le_nat_alt word_less_nat_alt)
  have f: "rt_srtt info' = (if ?s < rt_minRtt info then rt_minRtt info else ?s)"
    "rt_variation info' = ?v" "rt_minRtt info' = rt_minRtt info"
    using le srtt by (auto simp: info'_def RoundTripInfo_Update_def Let_def not_less [symmetric] simp del: not_less)
  have "rt_ok info'" using f v s_le ok by (auto simp: rt_ok_def)
  moreover have "rt_rto info' \<le> 12500" unfolding info'_def by (rule RoundTripInfo_Update_rto [OF le])
  moreover have "unat (rt_srtt info') = max (unat (rt_minRtt info)) ((7 * unat (rt_srtt info) + unat rtt) div 8)"
    using s by (auto simp: f(1) word_less_nat_alt max_def)
  ultimately show ?thesis by (simp add: info'_def Let_def)
qed

theorem RoundTripInfo_Update_exact_witness:
  "rt_ok (RoundTripInfo_Update \<lparr>rt_variation = 20, rt_srtt = 80, rt_rto = 100, rt_minRtt = 50, rt_updatedTimestamp = 0\<rparr> 120 7) \<and>
   unat (rt_srtt (RoundTripInfo_Update \<lparr>rt_variation = 20, rt_srtt = 80, rt_rto = 100, rt_minRtt = 50, rt_updatedTimestamp = 0\<rparr> 120 7)) = 85"
  using RoundTripInfo_Update_exact
    [of "\<lparr>rt_variation = 20, rt_srtt = 80, rt_rto = 100, rt_minRtt = 50, rt_updatedTimestamp = 0\<rparr>" 120 7]
  by (simp add: rt_ok_def Let_def)

end
