(* ===== verification/Kcp_Sending.thy ===== *)
theory Kcp_Sending
  imports Kcp_Segment Kcp_Config
begin

text \<open>
  \<^verbatim>\<open>transport/internet/kcp/sending.go\<close>: the sending window and the sending worker.

  The worker and its connection point at each other; an operation that reads the
  connection takes what it reads as an argument (conversation, state, settings,
  round-trip estimate), and an operation that calls back into the connection returns
  what it asked for. The segment writer of the window is the worker itself: \<open>wr\<close> is the
  change \<^verbatim>\<open>SendingWorker.Write\<close> makes to the segment, and the segments handed to the
  connection's output are returned in order. Each operation holds the worker's lock, so
  it is one step.
\<close>

section \<open>Sending window\<close>

record SendingWindow =
  sw_cache :: "DataSegment list"
  sw_totalInFlightSize :: u32

definition NewSendingWindow :: SendingWindow where
  "NewSendingWindow = \<lparr>sw_cache = [], sw_totalInFlightSize = 0\<rparr>"

definition SendingWindow_Release :: "SendingWindow \<Rightarrow> SendingWindow" where
  "SendingWindow_Release sw = sw\<lparr>sw_cache := []\<rparr>"

definition SendingWindow_Len :: "SendingWindow \<Rightarrow> u32" where
  "SendingWindow_Len sw = word_of_nat (length (sw_cache sw))"

definition SendingWindow_IsEmpty :: "SendingWindow \<Rightarrow> bool" where
  "SendingWindow_IsEmpty sw \<longleftrightarrow> length (sw_cache sw) = 0"

definition SendingWindow_Push :: "SendingWindow \<Rightarrow> u32 \<Rightarrow> bytes \<Rightarrow> SendingWindow" where
  "SendingWindow_Push sw number b =
     sw\<lparr>sw_cache := sw_cache sw @ [NewDataSegment\<lparr>ds_Number := number, ds_payload := Some b\<rparr>]\<rparr>"

definition SendingWindow_FirstNumber :: "SendingWindow \<Rightarrow> u32 option" where
  "SendingWindow_FirstNumber sw = (case sw_cache sw of [] \<Rightarrow> None | seg # _ \<Rightarrow> Some (ds_Number seg))"

fun Clear_loop :: "u32 \<Rightarrow> DataSegment list \<Rightarrow> DataSegment list" where
  "Clear_loop una [] = []"
| "Clear_loop una (seg # rest) = (if ds_Number seg \<ge> una then seg # rest else Clear_loop una rest)"

definition SendingWindow_Clear :: "SendingWindow \<Rightarrow> u32 \<Rightarrow> SendingWindow" where
  "SendingWindow_Clear sw una = sw\<lparr>sw_cache := Clear_loop una (sw_cache sw)\<rparr>"

text \<open>\<^verbatim>\<open>Visit\<close> with a visitor that captures variables \<open>st\<close>, may change the segment and says
  whether to go on.\<close>

fun Visit :: "('s \<Rightarrow> DataSegment \<Rightarrow> 's \<times> DataSegment \<times> bool) \<Rightarrow> 's \<Rightarrow> DataSegment list \<Rightarrow> 's \<times> DataSegment list" where
  "Visit visitor st [] = (st, [])"
| "Visit visitor st (seg # rest) =
     (case visitor st seg of
        (st', seg', go_on) \<Rightarrow>
          if \<not> go_on then (st', seg' # rest)
          else let (st'', rest') = Visit visitor st' rest in (st'', seg' # rest'))"

definition fastack_visitor :: "u32 \<Rightarrow> u32 \<Rightarrow> unit \<Rightarrow> DataSegment \<Rightarrow> unit \<times> DataSegment \<times> bool" where
  "fastack_visitor number rto st seg =
     (if number = ds_Number seg \<or> number - ds_Number seg > 0x7FFFFFFF then (st, seg, False)
      else (st, if ds_transmit seg > 0 \<and> ds_timeout seg > rto div 3
                then seg\<lparr>ds_timeout := ds_timeout seg - rto div 3\<rparr> else seg, True))"

definition SendingWindow_HandleFastAck :: "SendingWindow \<Rightarrow> u32 \<Rightarrow> u32 \<Rightarrow> SendingWindow" where
  "SendingWindow_HandleFastAck sw number rto =
     (if SendingWindow_IsEmpty sw then sw
      else sw\<lparr>sw_cache := snd (Visit (fastack_visitor number rto) () (sw_cache sw))\<rparr>)"

record flush_vars =
  fv_total :: u32
  fv_lost :: u32
  fv_inFlight :: u32
  fv_out :: "DataSegment list"

definition flush_visitor ::
  "(DataSegment \<Rightarrow> DataSegment) \<Rightarrow> u32 \<Rightarrow> u32 \<Rightarrow> u32 \<Rightarrow> flush_vars \<Rightarrow> DataSegment \<Rightarrow> flush_vars \<times> DataSegment \<times> bool" where
  "flush_visitor wr current rto maxInFlightSize st segment =
     (if current - ds_timeout segment \<ge> 0x7FFFFFFF then (st, segment, True)
      else
        let st = (if ds_transmit segment = 0 then st\<lparr>fv_total := fv_total st + 1\<rparr>
                  else st\<lparr>fv_lost := fv_lost st + 1\<rparr>);
            segment = segment\<lparr>ds_timeout := current + rto, ds_Timestamp := current,
                              ds_transmit := ds_transmit segment + 1\<rparr>;
            segment = wr segment;
            st = st\<lparr>fv_out := fv_out st @ [segment], fv_inFlight := fv_inFlight st + 1\<rparr>
        in (st, segment, fv_inFlight st < maxInFlightSize))"

text \<open>The result of \<^verbatim>\<open>Flush\<close>: the window, the segments written, and the loss rate passed to
  \<^verbatim>\<open>onPacketLoss\<close>, if it is called.\<close>

definition SendingWindow_Flush ::
  "(DataSegment \<Rightarrow> DataSegment) \<Rightarrow> SendingWindow \<Rightarrow> u32 \<Rightarrow> u32 \<Rightarrow> u32 \<Rightarrow>
   SendingWindow \<times> DataSegment list \<times> u32 option" where
  "SendingWindow_Flush wr sw current rto maxInFlightSize =
     (if SendingWindow_IsEmpty sw then (sw, [], None)
      else
        let (st, cache) = Visit (flush_visitor wr current rto maxInFlightSize)
              \<lparr>fv_total = sw_totalInFlightSize sw, fv_lost = 0, fv_inFlight = 0, fv_out = []\<rparr> (sw_cache sw);
            sw = sw\<lparr>sw_cache := cache, sw_totalInFlightSize := fv_total st\<rparr>
        in (sw, fv_out st,
            if fv_inFlight st > 0 \<and> sw_totalInFlightSize sw \<noteq> 0
            then Some (fv_lost st * 100 div sw_totalInFlightSize sw) else None))"

fun Remove_loop :: "u32 \<Rightarrow> DataSegment list \<Rightarrow> DataSegment list option" where
  "Remove_loop number [] = None"
| "Remove_loop number (seg # rest) =
     (if ds_Number seg > number then None
      else if ds_Number seg = number then Some rest
      else map_option ((#) seg) (Remove_loop number rest))"

definition SendingWindow_Remove :: "SendingWindow \<Rightarrow> u32 \<Rightarrow> SendingWindow \<times> bool" where
  "SendingWindow_Remove sw number =
     (if SendingWindow_IsEmpty sw then (sw, False)
      else case Remove_loop number (sw_cache sw) of
             None \<Rightarrow> (sw, False)
           | Some cache \<Rightarrow>
               (sw\<lparr>sw_cache := cache,
                   sw_totalInFlightSize :=
                     (if sw_totalInFlightSize sw > 0 then sw_totalInFlightSize sw - 1 else sw_totalInFlightSize sw)\<rparr>,
                True))"

section \<open>Sending worker\<close>

record SendingWorker =
  swk_window :: SendingWindow
  swk_firstUnacknowledged :: u32
  swk_nextNumber :: u32
  swk_remoteNextNumber :: u32
  swk_controlWindow :: u32
  swk_fastResend :: u32
  swk_windowSize :: u32
  swk_firstUnacknowledgedUpdated :: bool
  swk_closed :: bool

definition NewSendingWorker :: "Config \<Rightarrow> SendingWorker option" where
  "NewSendingWorker cfg =
     do {
       controlWindow \<leftarrow> GetSendingInFlightSize (Some cfg);
       windowSize \<leftarrow> GetSendingBufferSize (Some cfg);
       Some \<lparr>swk_window = NewSendingWindow, swk_firstUnacknowledged = 0, swk_nextNumber = 0,
             swk_remoteNextNumber = 32, swk_controlWindow = controlWindow, swk_fastResend = 2,
             swk_windowSize = windowSize, swk_firstUnacknowledgedUpdated = False, swk_closed = False\<rparr>
     }"

definition SendingWorker_Release :: "SendingWorker \<Rightarrow> SendingWorker" where
  "SendingWorker_Release w = w\<lparr>swk_window := SendingWindow_Release (swk_window w), swk_closed := True\<rparr>"

definition SendingWorker_FindFirstUnacknowledged :: "SendingWorker \<Rightarrow> SendingWorker" where
  "SendingWorker_FindFirstUnacknowledged w =
     (let first = swk_firstUnacknowledged w;
          w = w\<lparr>swk_firstUnacknowledged :=
                  (case SendingWindow_FirstNumber (swk_window w) of
                     Some n \<Rightarrow> n | None \<Rightarrow> swk_nextNumber w)\<rparr>
      in if first \<noteq> swk_firstUnacknowledged w then w\<lparr>swk_firstUnacknowledgedUpdated := True\<rparr> else w)"

definition SendingWorker_ProcessReceivingNextWithoutLock :: "SendingWorker \<Rightarrow> u32 \<Rightarrow> SendingWorker" where
  "SendingWorker_ProcessReceivingNextWithoutLock w nextNumber =
     SendingWorker_FindFirstUnacknowledged (w\<lparr>swk_window := SendingWindow_Clear (swk_window w) nextNumber\<rparr>)"

definition SendingWorker_ProcessReceivingNext :: "SendingWorker \<Rightarrow> u32 \<Rightarrow> SendingWorker" where
  "SendingWorker_ProcessReceivingNext w nextNumber = SendingWorker_ProcessReceivingNextWithoutLock w nextNumber"

definition SendingWorker_processAck :: "SendingWorker \<Rightarrow> u32 \<Rightarrow> SendingWorker \<times> bool" where
  "SendingWorker_processAck w number =
     (if number - swk_firstUnacknowledged w > 0x7FFFFFFF \<or> number - swk_nextNumber w < 0x7FFFFFFF
      then (w, False)
      else
        let (window, removed) = SendingWindow_Remove (swk_window w) number;
            w = w\<lparr>swk_window := window\<rparr>
        in (if removed then SendingWorker_FindFirstUnacknowledged w else w, removed))"

fun ack_loop :: "u32 list \<Rightarrow> SendingWorker \<Rightarrow> u32 \<Rightarrow> bool \<Rightarrow> SendingWorker \<times> u32 \<times> bool" where
  "ack_loop [] w maxack maxackRemoved = (w, maxack, maxackRemoved)"
| "ack_loop (number # numbers) w maxack maxackRemoved =
     (let (w, removed) = SendingWorker_processAck w number
      in if maxack < number then ack_loop numbers w number removed
         else ack_loop numbers w maxack maxackRemoved)"

definition SendingWorker_ProcessSegment ::
  "SendingWorker \<Rightarrow> RoundTripInfo \<Rightarrow> u32 \<Rightarrow> AckSegment \<Rightarrow> u32 \<Rightarrow> SendingWorker \<times> RoundTripInfo" where
  "SendingWorker_ProcessSegment w roundTrip current seg rto =
     (if swk_closed w then (w, roundTrip)
      else
        let w = (if swk_remoteNextNumber w < as_ReceivingWindow seg
                 then w\<lparr>swk_remoteNextNumber := as_ReceivingWindow seg\<rparr> else w);
            w = SendingWorker_ProcessReceivingNextWithoutLock w (as_ReceivingNext seg)
        in if AckSegment_IsEmpty seg then (w, roundTrip)
           else
             let (w, maxack, maxackRemoved) = ack_loop (as_NumberList seg) w 0 False
             in if maxackRemoved
                then (w\<lparr>swk_window := SendingWindow_HandleFastAck (swk_window w) maxack rto\<rparr>,
                      if current - as_Timestamp seg < 10000
                      then RoundTripInfo_Update roundTrip (current - as_Timestamp seg) current
                      else roundTrip)
                else (w, roundTrip))"

definition SendingWorker_Push :: "SendingWorker \<Rightarrow> bytes \<Rightarrow> SendingWorker \<times> bool" where
  "SendingWorker_Push w b =
     (if swk_closed w then (w, False)
      else if SendingWindow_Len (swk_window w) > swk_windowSize w then (w, False)
      else (w\<lparr>swk_window := SendingWindow_Push (swk_window w) (swk_nextNumber w) b,
              swk_nextNumber := swk_nextNumber w + 1\<rparr>, True))"

definition SendingWorker_Write :: "u16 \<Rightarrow> State \<Rightarrow> SendingWorker \<Rightarrow> DataSegment \<Rightarrow> DataSegment" where
  "SendingWorker_Write conversation state w dataSeg =
     (let dataSeg = dataSeg\<lparr>ds_Conv := conversation, ds_SendingNext := swk_firstUnacknowledged w, ds_Option := 0\<rparr>
      in if state = StateReadyToClose then dataSeg\<lparr>ds_Option := SegmentOptionClose\<rparr> else dataSeg)"

definition SendingWorker_OnPacketLoss ::
  "Config \<Rightarrow> RoundTripInfo \<Rightarrow> SendingWorker \<Rightarrow> u32 \<Rightarrow> SendingWorker option" where
  "SendingWorker_OnPacketLoss cfg roundTrip w lossRate =
     (if \<not> Congestion cfg \<or> RoundTripInfo_Timeout roundTrip = 0 then Some w
      else do {
        let cw = (if lossRate \<ge> 15 then 3 * swk_controlWindow w div 4
                  else if lossRate \<le> 5 then swk_controlWindow w + swk_controlWindow w div 4
                  else swk_controlWindow w);
        let cw = (if cw < 16 then 16 else cw);
        inFlight \<leftarrow> GetSendingInFlightSize (Some cfg);
        let cw = (if cw > 2 * inFlight then 2 * inFlight else cw);
        Some (w\<lparr>swk_controlWindow := cw\<rparr>)
      })"

text \<open>The window \<^verbatim>\<open>Flush\<close> sends within.\<close>

definition SendingWorker_cwnd :: "Config \<Rightarrow> SendingWorker \<Rightarrow> u32 \<Rightarrow> u32" where
  "SendingWorker_cwnd cfg w inFlight =
     (let cwnd = inFlight;
          cwnd = (if cwnd > swk_remoteNextNumber w - swk_firstUnacknowledged w
                  then swk_remoteNextNumber w - swk_firstUnacknowledged w else cwnd);
          cwnd = (if Congestion cfg \<and> cwnd > swk_controlWindow w then swk_controlWindow w else cwnd)
      in cwnd * 20)"

text \<open>The result: the worker, the segments written to the output, and whether the connection
  is to send a ping afterwards.\<close>

definition SendingWorker_Flush ::
  "u16 \<Rightarrow> State \<Rightarrow> Config \<Rightarrow> RoundTripInfo \<Rightarrow> SendingWorker \<Rightarrow> u32 \<Rightarrow>
   (SendingWorker \<times> DataSegment list \<times> bool) option" where
  "SendingWorker_Flush conversation state cfg roundTrip w current =
     (if swk_closed w then Some (w, [], False)
      else do {
        inFlight \<leftarrow> GetSendingInFlightSize (Some cfg);
        let cwnd = SendingWorker_cwnd cfg w inFlight;
        (w, out) \<leftarrow>
          (if \<not> SendingWindow_IsEmpty (swk_window w)
           then do {
             let (window, out, loss) =
               SendingWindow_Flush (SendingWorker_Write conversation state w) (swk_window w) current
                 (RoundTripInfo_Timeout roundTrip) cwnd;
             let w = w\<lparr>swk_window := window\<rparr>;
             w \<leftarrow> (case loss of None \<Rightarrow> Some w
                    | Some rate \<Rightarrow> SendingWorker_OnPacketLoss cfg roundTrip w rate);
             Some (w\<lparr>swk_firstUnacknowledgedUpdated := False\<rparr>, out)
           }
           else Some (w, []));
        let updated = swk_firstUnacknowledgedUpdated w;
        Some (w\<lparr>swk_firstUnacknowledgedUpdated := False\<rparr>, out, updated)
      })"

definition SendingWorker_CloseWrite :: "SendingWorker \<Rightarrow> SendingWorker" where
  "SendingWorker_CloseWrite w = w\<lparr>swk_window := SendingWindow_Clear (swk_window w) 0xFFFFFFFF\<rparr>"

definition SendingWorker_IsEmpty :: "SendingWorker \<Rightarrow> bool" where
  "SendingWorker_IsEmpty w = SendingWindow_IsEmpty (swk_window w)"

definition SendingWorker_UpdateNecessary :: "SendingWorker \<Rightarrow> bool" where
  "SendingWorker_UpdateNecessary w \<longleftrightarrow> \<not> SendingWorker_IsEmpty w"

definition SendingWorker_FirstUnacknowledged :: "SendingWorker \<Rightarrow> u32" where
  "SendingWorker_FirstUnacknowledged w = swk_firstUnacknowledged w"

section \<open>What the window operations keep\<close>

text \<open>A window entry as the peer will see it: its number and its payload.\<close>

abbreviation seg_key :: "DataSegment \<Rightarrow> u32 \<times> bytes option" where
  "seg_key seg \<equiv> (ds_Number seg, ds_payload seg)"

definition pending :: "SendingWorker \<Rightarrow> (u32 \<times> bytes option) list" where
  "pending w = map seg_key (sw_cache (swk_window w))"

lemma Visit_map:
  assumes "\<And>st seg st' seg' g. visitor st seg = (st', seg', g) \<Longrightarrow> f seg' = f seg"
  shows "map f (snd (Visit visitor st segs)) = map f segs"
proof (induction segs arbitrary: st)
  case Nil
  then show ?case by simp
next
  case (Cons seg segs)
  obtain st' seg' g where v: "visitor st seg = (st', seg', g)" by (metis prod_cases3)
  then show ?case using Cons.IH [of st'] assms [OF v] by (auto simp: Let_def split_beta)
qed

lemma fastack_key: "fastack_visitor number rto st seg = (st', seg', g) \<Longrightarrow> seg_key seg' = seg_key seg"
  by (auto simp: fastack_visitor_def split: if_splits)

lemma flush_key:
  assumes "\<And>seg. seg_key (wr seg) = seg_key seg"
  shows "flush_visitor wr current rto m st seg = (st', seg', g) \<Longrightarrow> seg_key seg' = seg_key seg"
  using assms by (auto simp: flush_visitor_def Let_def split: if_splits)

lemma SendingWorker_Write_key: "seg_key (SendingWorker_Write conv state w seg) = seg_key seg"
  by (simp add: SendingWorker_Write_def Let_def)

lemma HandleFastAck_keys:
  "map seg_key (sw_cache (SendingWindow_HandleFastAck sw number rto)) = map seg_key (sw_cache sw)"
  using Visit_map [of "fastack_visitor number rto" seg_key, OF fastack_key]
  by (simp add: SendingWindow_HandleFastAck_def)

lemma Flush_keys:
  assumes "\<And>seg. seg_key (wr seg) = seg_key seg"
  shows "map seg_key (sw_cache (fst (SendingWindow_Flush wr sw current rto m))) = map seg_key (sw_cache sw)"
  using Visit_map [of "flush_visitor wr current rto m" seg_key, OF flush_key [OF assms]]
  by (simp add: SendingWindow_Flush_def Let_def split_beta)

lemma Clear_loop_dropWhile: "Clear_loop una segs = dropWhile (\<lambda>s. ds_Number s < una) segs"
  by (induction segs) auto

lemma Clear_loop_keys:
  "map seg_key (Clear_loop una segs) = dropWhile (\<lambda>k. fst k < una) (map seg_key segs)"
  by (induction segs) auto

lemma Remove_loop_keys:
  "sorted_wrt (<) (map ds_Number segs) \<Longrightarrow>
   map_option (map seg_key) (Remove_loop number segs) =
     (if number \<in> ds_Number ` set segs
      then Some (filter (\<lambda>k. fst k \<noteq> number) (map seg_key segs)) else None)"
proof (induction segs)
  case Nil
  then show ?case by simp
next
  case (Cons seg segs)
  have gt: "ds_Number seg < ds_Number s" if "s \<in> set segs" for s
    using Cons.prems that by auto
  show ?case
  proof (cases "ds_Number seg" number rule: linorder_cases)
    case less
    then have "map_option (map seg_key) (Remove_loop number (seg # segs)) =
        map_option ((#) (seg_key seg)) (map_option (map seg_key) (Remove_loop number segs))"
      by (auto simp: option.map_comp comp_def)
    with Cons less show ?thesis by auto
  next
    case equal
    have "filter (\<lambda>k. fst k \<noteq> number) (map seg_key segs) = map seg_key segs"
      using gt equal by (force simp: filter_id_conv)
    with equal show ?thesis by simp
  next
    case greater
    with gt show ?thesis by fastforce
  qed
qed

section \<open>The worker's invariant\<close>

text \<open>Before the 32-bit sequence space is used up, the window holds strictly increasing
  numbers between the first unacknowledged and the next number, all with a payload.\<close>

definition swk_inv :: "SendingWorker \<Rightarrow> bool" where
  "swk_inv w \<longleftrightarrow>
     sorted_wrt (<) (map fst (pending w)) \<and>
     (\<forall>(n, p) \<in> set (pending w). swk_firstUnacknowledged w \<le> n \<and> n < swk_nextNumber w \<and> p \<noteq> None) \<and>
     swk_firstUnacknowledged w \<le> swk_nextNumber w"

named_theorems swk_pending \<open>what the worker's operations do to the pending entries\<close>

lemma fst_pending: "map fst (pending w) = map ds_Number (sw_cache (swk_window w))"
  by (simp add: pending_def comp_def)

lemma FirstNumber_pending:
  "SendingWindow_FirstNumber (swk_window w) = (case pending w of [] \<Rightarrow> None | k # _ \<Rightarrow> Some (fst k))"
  by (cases "sw_cache (swk_window w)") (simp_all add: SendingWindow_FirstNumber_def pending_def)

lemma FindFirst_fields [simp]:
  "pending (SendingWorker_FindFirstUnacknowledged w) = pending w"
  "swk_window (SendingWorker_FindFirstUnacknowledged w) = swk_window w"
  "swk_nextNumber (SendingWorker_FindFirstUnacknowledged w) = swk_nextNumber w"
  "swk_firstUnacknowledged (SendingWorker_FindFirstUnacknowledged w) =
     (case pending w of [] \<Rightarrow> swk_nextNumber w | k # _ \<Rightarrow> fst k)"
  by (cases "sw_cache (swk_window w)";
      simp add: SendingWorker_FindFirstUnacknowledged_def SendingWindow_FirstNumber_def pending_def Let_def)+

text \<open>Dropping entries keeps the invariant once the first unacknowledged number is recomputed.\<close>

lemma FindFirst_inv:
  assumes "sorted_wrt (<) (map fst (pending w))"
    and "\<forall>(n, p) \<in> set (pending w). n < swk_nextNumber w \<and> p \<noteq> None"
  shows "swk_inv (SendingWorker_FindFirstUnacknowledged w)"
  using assms by (fastforce simp: swk_inv_def split: list.splits)

lemma pending_Clear [swk_pending]:
  "pending (w\<lparr>swk_window := SendingWindow_Clear (swk_window w) una\<rparr>) = dropWhile (\<lambda>k. fst k < una) (pending w)"
  by (simp add: pending_def SendingWindow_Clear_def Clear_loop_keys)

lemma dropWhile_sorted_filter:
  "sorted_wrt (<) (map fst ks) \<Longrightarrow> dropWhile (\<lambda>k. fst k < una) ks = filter (\<lambda>k. una \<le> fst k) ks"
  for una :: "'a :: linorder"
proof (induction ks)
  case Nil
  then show ?case by simp
next
  case (Cons k ks)
  then show ?case by (auto simp: filter_id_conv intro!: filter_True [symmetric])
qed

lemma sorted_wrt_filter_fst: "sorted_wrt r (map fst ks) \<Longrightarrow> sorted_wrt r (map fst (filter P ks))"
  by (induction ks) auto

lemma ProcessReceivingNext_pending [swk_pending]:
  "swk_inv w \<Longrightarrow>
   pending (SendingWorker_ProcessReceivingNextWithoutLock w una) = filter (\<lambda>k. una \<le> fst k) (pending w)"
  by (simp add: SendingWorker_ProcessReceivingNextWithoutLock_def pending_Clear dropWhile_sorted_filter swk_inv_def)

lemma ProcessReceivingNext_inv:
  assumes "swk_inv w"
  shows "swk_inv (SendingWorker_ProcessReceivingNextWithoutLock w una)"
proof -
  have "pending (w\<lparr>swk_window := SendingWindow_Clear (swk_window w) una\<rparr>) = filter (\<lambda>k. una \<le> fst k) (pending w)"
    using assms by (simp add: pending_Clear dropWhile_sorted_filter swk_inv_def)
  then show ?thesis
    using assms unfolding SendingWorker_ProcessReceivingNextWithoutLock_def
    by (intro FindFirst_inv) (auto simp: sorted_wrt_filter_fst swk_inv_def)
qed

lemma pending_Remove:
  assumes "swk_inv w" and "SendingWindow_Remove (swk_window w) n = (sw', removed)"
  shows "pending (w\<lparr>swk_window := sw'\<rparr>) = filter (\<lambda>k. fst k \<noteq> n) (pending w) \<and>
         (removed \<longleftrightarrow> n \<in> fst ` set (pending w))"
proof -
  let ?segs = "sw_cache (swk_window w)"
  have mem: "fst ` set (pending w) = ds_Number ` set ?segs" by (simp add: pending_def image_image)
  have "map_option (map seg_key) (Remove_loop n ?segs) =
     (if n \<in> ds_Number ` set ?segs then Some (filter (\<lambda>k. fst k \<noteq> n) (pending w)) else None)"
  proof -
    have "sorted_wrt (<) (map ds_Number ?segs)" using assms(1) by (simp only: swk_inv_def fst_pending)
    from Remove_loop_keys [OF this, of n] show ?thesis by (simp only: pending_def)
  qed
  moreover have "filter (\<lambda>k. fst k \<noteq> n) (pending w) = pending w" if "n \<notin> ds_Number ` set ?segs"
    using that mem by (force simp: filter_id_conv)
  ultimately show ?thesis
    using assms(2) unfolding mem
    by (auto simp: SendingWindow_Remove_def SendingWindow_IsEmpty_def pending_def split: option.splits if_splits)
qed

text \<open>Within half the sequence space, \<^verbatim>\<open>processAck\<close> takes exactly the acknowledged number out
  of the window.\<close>

lemma serial_window:
  fixes f n x :: u32
  assumes "f \<le> x" "x < n" "n - f \<le> 0x7FFFFFFF"
  shows "\<not> (x - f > 0x7FFFFFFF \<or> x - n < 0x7FFFFFFF)"
proof -
  have le: "f \<le> n" using assms(1,2) by auto
  have nf: "unat (n - f) = unat n - unat f" using le by (simp add: unat_sub)
  have xf: "unat (x - f) = unat x - unat f" using assms(1) by (simp add: unat_sub)
  have xn: "unat (x - n) = unat x + 2 ^ 32 - unat n"
    using assms(2) by (simp add: unat_sub_if' word_less_nat_alt)
  show ?thesis
    using assms nf xf xn by (auto simp: word_less_nat_alt word_le_nat_alt)
qed

definition span_ok :: "SendingWorker \<Rightarrow> bool" where
  "span_ok w \<longleftrightarrow> swk_nextNumber w - swk_firstUnacknowledged w \<le> 0x7FFFFFFF"

lemma processAck_spec:
  assumes inv: "swk_inv w" and span: "span_ok w"
    and pa: "SendingWorker_processAck w n = (w', removed)"
  shows "swk_inv w' \<and> span_ok w' \<and> swk_nextNumber w' = swk_nextNumber w \<and>
     pending w' = filter (\<lambda>k. fst k \<noteq> n) (pending w) \<and> (removed \<longleftrightarrow> n \<in> fst ` set (pending w))"
proof (cases "n - swk_firstUnacknowledged w > 0x7FFFFFFF \<or> n - swk_nextNumber w < 0x7FFFFFFF")
  case True
  then have "n \<notin> fst ` set (pending w)"
    using serial_window [of "swk_firstUnacknowledged w" n "swk_nextNumber w"] inv span
    by (fastforce simp: swk_inv_def span_ok_def)
  moreover from this have "filter (\<lambda>k. fst k \<noteq> n) (pending w) = pending w"
    by (force simp: filter_id_conv)
  ultimately show ?thesis using True pa inv span by (simp add: SendingWorker_processAck_def)
next
  case False
  obtain sw' r where rm: "SendingWindow_Remove (swk_window w) n = (sw', r)" by fastforce
  let ?w = "w\<lparr>swk_window := sw'\<rparr>"
  have p: "pending ?w = filter (\<lambda>k. fst k \<noteq> n) (pending w)" "r \<longleftrightarrow> n \<in> fst ` set (pending w)"
    using pending_Remove [OF inv rm] by auto
  have res: "w' = (if r then SendingWorker_FindFirstUnacknowledged ?w else ?w)" "removed = r"
    using pa rm False by (auto simp: SendingWorker_processAck_def Let_def)
  have i: "swk_inv (SendingWorker_FindFirstUnacknowledged ?w)"
    using inv p by (intro FindFirst_inv) (auto simp: sorted_wrt_filter_fst swk_inv_def)
  have i': "swk_inv ?w" using inv p by (auto simp: swk_inv_def sorted_wrt_filter_fst)
  have "swk_firstUnacknowledged w \<le> swk_firstUnacknowledged w'"
  proof -
    have "swk_firstUnacknowledged w \<le> fst k" if "k \<in> set (pending ?w)" for k
      using that p(1) inv by (auto simp: swk_inv_def)
    then show ?thesis
      using res inv by (auto simp: swk_inv_def split: list.splits)
  qed
  moreover have "swk_nextNumber w' = swk_nextNumber w" using res by simp
  moreover have "swk_inv w'" using res i i' by simp
  ultimately have "span_ok w'"
    using span by (auto simp: span_ok_def swk_inv_def word_le_nat_alt unat_sub)
  then show ?thesis using res p i i' by auto
qed

lemma ack_loop_spec:
  "swk_inv w \<Longrightarrow> span_ok w \<Longrightarrow> ack_loop numbers w m r = (w', m', r') \<Longrightarrow>
   swk_inv w' \<and> swk_nextNumber w' = swk_nextNumber w \<and>
   pending w' = filter (\<lambda>k. fst k \<notin> set numbers) (pending w)"
proof (induction numbers arbitrary: w m r)
  case Nil
  then show ?case by simp
next
  case (Cons n numbers)
  obtain w1 r1 where pa: "SendingWorker_processAck w n = (w1, r1)" by fastforce
  note sp = processAck_spec [OF Cons.prems(1,2) pa]
  obtain m2 r2 where "ack_loop numbers w1 m2 r2 = (w', m', r')"
    using Cons.prems(3) pa by (auto split: if_splits)
  with Cons.IH [of w1 m2 r2] sp show ?case by (auto simp: conj_commute)
qed

text \<open>The other operations and the pending entries.\<close>

lemma Push_pending [swk_pending]:
  "SendingWorker_Push w b = (w', ok) \<Longrightarrow>
   pending w' = (if ok then pending w @ [(swk_nextNumber w, Some b)] else pending w)"
  by (auto simp: SendingWorker_Push_def SendingWindow_Push_def pending_def split: if_splits)

lemma Push_inv:
  assumes "swk_inv w" "swk_nextNumber w \<noteq> 0xFFFFFFFF" "SendingWorker_Push w b = (w', ok)"
  shows "swk_inv w'"
proof -
  note lt = u32_less_inc [OF assms(2)]
  show ?thesis
    using assms(1,3) lt
    by (fastforce simp: SendingWorker_Push_def SendingWindow_Push_def swk_inv_def pending_def
        sorted_wrt_append split: if_splits)
qed

lemma CloseWrite_inv: "swk_inv w \<Longrightarrow> swk_inv (SendingWorker_CloseWrite w)"
proof -
  assume inv: "swk_inv w"
  have "pending (SendingWorker_CloseWrite w) = filter (\<lambda>k. 0xFFFFFFFF \<le> fst k) (pending w)"
    using inv by (simp add: SendingWorker_CloseWrite_def pending_Clear dropWhile_sorted_filter swk_inv_def)
  then show ?thesis using inv by (auto simp: swk_inv_def sorted_wrt_filter_fst SendingWorker_CloseWrite_def)
qed

lemma Release_inv: "swk_inv w \<Longrightarrow> swk_inv (SendingWorker_Release w)"
  by (simp add: swk_inv_def SendingWorker_Release_def SendingWindow_Release_def pending_def)

section \<open>Flushing\<close>

text \<open>A segment is due when its timeout has passed (in serial arithmetic); sending it stamps
  it.\<close>

definition due :: "u32 \<Rightarrow> DataSegment \<Rightarrow> bool" where
  "due current seg \<longleftrightarrow> current - ds_timeout seg < 0x7FFFFFFF"

definition stamp :: "(DataSegment \<Rightarrow> DataSegment) \<Rightarrow> u32 \<Rightarrow> u32 \<Rightarrow> DataSegment \<Rightarrow> DataSegment" where
  "stamp wr current rto seg =
     wr (seg\<lparr>ds_timeout := current + rto, ds_Timestamp := current, ds_transmit := ds_transmit seg + 1\<rparr>)"

lemma flush_visitor_cases:
  "flush_visitor wr current rto m st seg =
     (if \<not> due current seg then (st, seg, True)
      else let st' = st\<lparr>fv_total := (if ds_transmit seg = 0 then fv_total st + 1 else fv_total st),
                       fv_lost := (if ds_transmit seg = 0 then fv_lost st else fv_lost st + 1),
                       fv_inFlight := fv_inFlight st + 1,
                       fv_out := fv_out st @ [stamp wr current rto seg]\<rparr>
           in (st', stamp wr current rto seg, fv_inFlight st + 1 < m))"
  by (auto simp: flush_visitor_def due_def stamp_def Let_def)

lemma flush_visit_out:
  "Visit (flush_visitor wr current rto m) st segs = (st', segs') \<Longrightarrow>
   unat (fv_inFlight st) + length segs < 2 ^ 32 \<Longrightarrow>
   fv_out st' = fv_out st @ map (stamp wr current rto)
     (take (max 1 (unat m - unat (fv_inFlight st))) (filter (due current) segs))"
proof (induction segs arbitrary: st st' segs')
  case Nil
  then show ?case by simp
next
  case (Cons seg segs)
  show ?case
  proof (cases "due current seg")
    case False
    then show ?thesis
      using Cons.IH [of st] Cons.prems by (auto simp: flush_visitor_cases [of wr current rto m st seg] split: prod.splits)
  next
    case True
    let ?st = "st\<lparr>fv_total := (if ds_transmit seg = 0 then fv_total st + 1 else fv_total st),
                  fv_lost := (if ds_transmit seg = 0 then fv_lost st else fv_lost st + 1),
                  fv_inFlight := fv_inFlight st + 1,
                  fv_out := fv_out st @ [stamp wr current rto seg]\<rparr>"
    have inc: "unat (fv_inFlight st + 1) = unat (fv_inFlight st) + 1"
      using Cons.prems(2) unat_add_small [of "fv_inFlight st" 1] by simp
    show ?thesis
    proof (cases "fv_inFlight st + 1 < m")
      case less: True
      obtain s2 r2 where v: "Visit (flush_visitor wr current rto m) ?st segs = (s2, r2)" by fastforce
      have "st' = s2" using Cons.prems(1) True less v by (simp add: flush_visitor_cases [of wr current rto m st seg] Let_def)
      moreover have "max 1 (unat m - unat (fv_inFlight st)) = Suc (max 1 (unat m - (unat (fv_inFlight st) + 1)))"
        using less inc by (simp add: word_less_nat_alt)
      ultimately show ?thesis using Cons.IH [OF v] Cons.prems(2) True inc by simp
    next
      case nless: False
      have "st' = ?st" using Cons.prems(1) True nless by (simp add: flush_visitor_cases [of wr current rto m st seg] Let_def)
      moreover have "max 1 (unat m - unat (fv_inFlight st)) = 1"
        using nless inc by (simp add: word_less_nat_alt)
      ultimately show ?thesis using True by simp
    qed
  qed
qed

lemma SendingWindow_Flush_out:
  assumes "length (sw_cache sw) < 2 ^ 32" and "SendingWindow_Flush wr sw current rto m = (sw', out, loss)"
  shows "out = map (stamp wr current rto) (take (max 1 (unat m)) (filter (due current) (sw_cache sw)))"
proof (cases "sw_cache sw")
  case Nil
  then show ?thesis using assms by (simp add: SendingWindow_Flush_def SendingWindow_IsEmpty_def)
next
  case (Cons seg segs)
  obtain st' segs' where
    "Visit (flush_visitor wr current rto m)
       \<lparr>fv_total = sw_totalInFlightSize sw, fv_lost = 0, fv_inFlight = 0, fv_out = []\<rparr> (sw_cache sw) = (st', segs')"
    by fastforce
  with flush_visit_out [OF this] assms Cons show ?thesis
    by (simp add: SendingWindow_Flush_def SendingWindow_IsEmpty_def Let_def)
qed

lemma OnPacketLoss_keeps:
  "SendingWorker_OnPacketLoss cfg rt w rate = Some w' \<Longrightarrow>
   swk_window w' = swk_window w \<and> swk_nextNumber w' = swk_nextNumber w \<and>
   swk_firstUnacknowledged w' = swk_firstUnacknowledged w \<and> swk_closed w' = swk_closed w"
  by (auto simp: SendingWorker_OnPacketLoss_def bind_eq_Some_conv Let_def split: if_splits)

lemma OnPacketLoss_total:
  "GetSendingInFlightSize (Some cfg) = Some f \<Longrightarrow> \<exists>w'. SendingWorker_OnPacketLoss cfg rt w rate = Some w'"
  by (simp add: SendingWorker_OnPacketLoss_def Let_def)

lemma SendingWorker_Flush_total:
  assumes "GetSendingInFlightSize (Some cfg) = Some f"
  shows "\<exists>w' out upd. SendingWorker_Flush conv state cfg rt w current = Some (w', out, upd)"
proof -
  obtain sw' o' loss where fw:
    "SendingWindow_Flush (SendingWorker_Write conv state w) (swk_window w) current (RoundTripInfo_Timeout rt)
       (SendingWorker_cwnd cfg w f) = (sw', o', loss)"
    by (metis prod_cases3)
  show ?thesis
    using OnPacketLoss_total [OF assms, of rt "w\<lparr>swk_window := sw'\<rparr>" "the loss"]
    by (cases loss) (auto simp: SendingWorker_Flush_def assms fw Let_def)
qed

lemma SendingWorker_Flush_spec:
  assumes len: "length (sw_cache (swk_window w)) < 2 ^ 32"
    and fl: "SendingWorker_Flush conv state cfg rt w current = Some (w', out, upd)"
  shows "pending w' = pending w \<and> swk_nextNumber w' = swk_nextNumber w \<and>
     swk_firstUnacknowledged w' = swk_firstUnacknowledged w \<and> swk_closed w' = swk_closed w \<and>
     (swk_closed w \<longrightarrow> out = []) \<and>
     (\<not> swk_closed w \<longrightarrow> (\<exists>inFlight. GetSendingInFlightSize (Some cfg) = Some inFlight \<and>
        out = map (stamp (SendingWorker_Write conv state w) current (RoundTripInfo_Timeout rt))
          (take (max 1 (unat (SendingWorker_cwnd cfg w inFlight))) (filter (due current) (sw_cache (swk_window w))))))"
proof (cases "swk_closed w")
  case True
  then show ?thesis using fl by (simp add: SendingWorker_Flush_def)
next
  case False
  then obtain inFlight where inf: "GetSendingInFlightSize (Some cfg) = Some inFlight"
    using fl by (auto simp: SendingWorker_Flush_def bind_eq_Some_conv)
  let ?wr = "SendingWorker_Write conv state w" and ?cw = "SendingWorker_cwnd cfg w inFlight"
  obtain sw' o' loss where fw:
    "SendingWindow_Flush ?wr (swk_window w) current (RoundTripInfo_Timeout rt) ?cw = (sw', o', loss)"
    by (metis prod_cases3)
  have keys: "map seg_key (sw_cache sw') = pending w"
    using Flush_keys [of ?wr "swk_window w" current "RoundTripInfo_Timeout rt" ?cw] fw SendingWorker_Write_key
    by (simp add: pending_def)
  note o' = SendingWindow_Flush_out [OF len fw]
  show ?thesis
  proof (cases "SendingWindow_IsEmpty (swk_window w)")
    case True
    then show ?thesis
      using False fl inf by (auto simp: SendingWorker_Flush_def Let_def SendingWindow_IsEmpty_def pending_def)
  next
    case nemp: False
    then obtain w1 where
      w1: "(case loss of None \<Rightarrow> Some (w\<lparr>swk_window := sw'\<rparr>)
            | Some rate \<Rightarrow> SendingWorker_OnPacketLoss cfg rt (w\<lparr>swk_window := sw'\<rparr>) rate) = Some w1"
      and res: "w' = w1\<lparr>swk_firstUnacknowledgedUpdated := False\<rparr>" "out = o'"
      using False fl inf fw by (auto simp: SendingWorker_Flush_def Let_def bind_eq_Some_conv)
    have "swk_window w1 = sw' \<and> swk_nextNumber w1 = swk_nextNumber w \<and>
        swk_firstUnacknowledged w1 = swk_firstUnacknowledged w \<and> swk_closed w1 = swk_closed w"
      using w1 OnPacketLoss_keeps by (fastforce split: option.splits)
    then show ?thesis using res o' inf keys False by (auto simp: pending_def)
  qed
qed

lemma Flush_inv:
  assumes "swk_inv w" "length (sw_cache (swk_window w)) < 2 ^ 32"
    "SendingWorker_Flush conv state cfg rt w current = Some (w', out, upd)"
  shows "swk_inv w'"
  using SendingWorker_Flush_spec [OF assms(2,3)] assms(1) by (simp add: swk_inv_def)

section \<open>Properties of the sending side\<close>

text \<open>C10. Processing an acknowledgement removes exactly the acknowledged segments: those the
  peer's \<^verbatim>\<open>ReceivingNext\<close> covers and those whose numbers it lists. Nothing else leaves
  the window, the payloads of what stays are untouched, and the window stays ordered
  within its bounds.\<close>

theorem ProcessSegment_removes_exactly_acked:
  assumes inv: "swk_inv w" and span: "span_ok w" and "\<not> swk_closed w"
    and ps: "SendingWorker_ProcessSegment w rt current seg rto = (w', rt')"
  shows "swk_inv w' \<and> swk_nextNumber w' = swk_nextNumber w \<and>
     pending w' = filter (\<lambda>k. as_ReceivingNext seg \<le> fst k \<and> fst k \<notin> set (as_NumberList seg)) (pending w)"
proof -
  define w0 where "w0 = (if swk_remoteNextNumber w < as_ReceivingWindow seg
      then w\<lparr>swk_remoteNextNumber := as_ReceivingWindow seg\<rparr> else w)"
  define w1 where "w1 = SendingWorker_ProcessReceivingNextWithoutLock w0 (as_ReceivingNext seg)"
  have p0: "pending w0 = pending w" "swk_nextNumber w0 = swk_nextNumber w"
    "swk_firstUnacknowledged w0 = swk_firstUnacknowledged w"
    by (simp_all add: w0_def pending_def)
  then have inv0: "swk_inv w0" using inv by (simp add: swk_inv_def)
  have inv1: "swk_inv w1" unfolding w1_def by (rule ProcessReceivingNext_inv [OF inv0])
  have p1: "pending w1 = filter (\<lambda>k. as_ReceivingNext seg \<le> fst k) (pending w)"
    unfolding w1_def using ProcessReceivingNext_pending [OF inv0] p0 by simp
  have n1: "swk_nextNumber w1 = swk_nextNumber w"
    by (simp add: w1_def SendingWorker_ProcessReceivingNextWithoutLock_def p0)
  have span1: "span_ok w1"
  proof -
    have "swk_firstUnacknowledged w \<le> swk_firstUnacknowledged w1"
    proof (cases "pending w1")
      case Nil
      then show ?thesis
        using inv n1 by (simp add: w1_def SendingWorker_ProcessReceivingNextWithoutLock_def swk_inv_def)
    next
      case (Cons k ks)
      then have "k \<in> set (pending w)" using p1 by (metis filter_is_subset list.set_intros(1) subsetD)
      moreover have "swk_firstUnacknowledged w1 = fst k"
        using Cons by (simp add: w1_def SendingWorker_ProcessReceivingNextWithoutLock_def)
      ultimately show ?thesis using inv by (auto simp: swk_inv_def)
    qed
    with inv1 span n1 show ?thesis by (auto simp: span_ok_def swk_inv_def word_le_nat_alt unat_sub)
  qed
  obtain w2 m r where al: "ack_loop (as_NumberList seg) w1 0 False = (w2, m, r)" by (metis prod_cases3)
  note a = ack_loop_spec [OF inv1 span1 al]
  have ps': "w' = (if AckSegment_IsEmpty seg then w1
      else if r then w2\<lparr>swk_window := SendingWindow_HandleFastAck (swk_window w2) m rto\<rparr> else w2)"
    using ps assms(3) al
    by (auto simp: SendingWorker_ProcessSegment_def Let_def w0_def [symmetric] w1_def [symmetric] split: if_splits)
  have fa: "pending (w2\<lparr>swk_window := SendingWindow_HandleFastAck (swk_window w2) m rto\<rparr>) = pending w2"
    by (simp add: pending_def HandleFastAck_keys)
  moreover have "swk_inv w2" using a by blast
  ultimately have "swk_inv (w2\<lparr>swk_window := SendingWindow_HandleFastAck (swk_window w2) m rto\<rparr>)"
    by (simp add: swk_inv_def)
  then show ?thesis
    using ps' a inv1 p1 n1 fa by (auto simp: AckSegment_IsEmpty_def conj_commute)
qed

definition example_worker :: SendingWorker where
  "example_worker = \<lparr>swk_window = \<lparr>sw_cache =
       [NewDataSegment\<lparr>ds_Number := 3, ds_payload := Some [1]\<rparr>, NewDataSegment\<lparr>ds_Number := 4, ds_payload := Some [2]\<rparr>,
        NewDataSegment\<lparr>ds_Number := 6, ds_payload := Some [3]\<rparr>], sw_totalInFlightSize = 0\<rparr>,
     swk_firstUnacknowledged = 3, swk_nextNumber = 7, swk_remoteNextNumber = 32, swk_controlWindow = 16,
     swk_fastResend = 2, swk_windowSize = 100, swk_firstUnacknowledgedUpdated = False, swk_closed = False\<rparr>"

lemma example_worker_facts:
  "swk_inv example_worker" "span_ok example_worker" "\<not> swk_closed example_worker"
  "pending example_worker = [(3, Some [1]), (4, Some [2]), (6, Some [3])]"
  by (simp_all add: example_worker_def swk_inv_def span_ok_def pending_def)

theorem ProcessSegment_removes_exactly_acked_witness:
  "\<exists>w' rt'. SendingWorker_ProcessSegment example_worker
       \<lparr>rt_variation = 0, rt_srtt = 0, rt_rto = 100, rt_minRtt = 50, rt_updatedTimestamp = 0\<rparr> 50
       (NewAckSegment\<lparr>as_ReceivingNext := 4, as_NumberList := [6]\<rparr>) 100 = (w', rt') \<and>
     pending w' = [(4, Some [2])]"
proof -
  obtain w' rt' where r: "SendingWorker_ProcessSegment example_worker
       \<lparr>rt_variation = 0, rt_srtt = 0, rt_rto = 100, rt_minRtt = 50, rt_updatedTimestamp = 0\<rparr> 50
       (NewAckSegment\<lparr>as_ReceivingNext := 4, as_NumberList := [6]\<rparr>) 100 = (w', rt')" by fastforce
  from ProcessSegment_removes_exactly_acked [OF example_worker_facts(1,2,3) r]
  have "pending w' = [(4, Some [2])]" by (simp add: example_worker_facts)
  with r show ?thesis by blast
qed


definition example_rt :: RoundTripInfo where
  "example_rt = \<lparr>rt_variation = 0, rt_srtt = 0, rt_rto = 100, rt_minRtt = 50, rt_updatedTimestamp = 0\<rparr>"

lemma default_in_flight: "GetSendingInFlightSize (Some default_Config) = Some 194"
  by (simp add: GetSendingInFlightSize_def GetUplinkCapacityValue_def GetMTUValue_def GetTTIValue_def
      setting_def default_Config_def udiv_def)


text \<open>With congestion control on, every loss report leaves the control window between 16
  and twice the in-flight size, whatever it was before.\<close>

theorem OnPacketLoss_bounds:
  assumes "Congestion cfg" and "RoundTripInfo_Timeout rt \<noteq> 0"
    and "GetSendingInFlightSize (Some cfg) = Some f" and "f < 0x80000000"
  shows "\<exists>w'. SendingWorker_OnPacketLoss cfg rt w lossRate = Some w' \<and>
     16 \<le> swk_controlWindow w' \<and> swk_controlWindow w' \<le> 2 * f"
proof -
  have "8 \<le> f" by (rule GetSendingInFlightSize_ge [OF assms(3)])
  then have "8 \<le> unat f" "unat f < 2147483648"
    using assms(4) by (simp_all add: word_le_nat_alt word_less_nat_alt)
  then have "16 \<le> 2 * f" by (simp add: word_le_nat_alt unat_mult_small)
  with assms show ?thesis
    by (auto simp: SendingWorker_OnPacketLoss_def Let_def)
qed

theorem OnPacketLoss_bounds_witness:
  "\<exists>w'. SendingWorker_OnPacketLoss (default_Config\<lparr>Congestion := True\<rparr>) example_rt example_worker 40 = Some w' \<and>
     16 \<le> swk_controlWindow w' \<and> swk_controlWindow w' \<le> 388"
  using OnPacketLoss_bounds [of "default_Config\<lparr>Congestion := True\<rparr>" example_rt 194 example_worker 40]
  by (simp add: GetSendingInFlightSize_def GetUplinkCapacityValue_def GetMTUValue_def GetTTIValue_def
      setting_def default_Config_def udiv_def example_rt_def RoundTripInfo_Timeout_def)

end
