(* ===== verification/Transition.thy ===== *)
theory Transition
  imports Main
begin

text \<open>
  Reachability and invariants of step relations, as an interface: a component gives its
  initial states, its steps and an invariant with the two preservation laws, and gets the
  invariant in every reachable state.
\<close>

locale invariant_system =
  fixes init :: "'s \<Rightarrow> bool" and step :: "'s \<Rightarrow> 's \<Rightarrow> bool" and inv :: "'s \<Rightarrow> bool"
  assumes init_inv: "init s \<Longrightarrow> inv s"
    and step_inv: "inv s \<Longrightarrow> step s t \<Longrightarrow> inv t"
begin

lemma steps_inv: "step\<^sup>*\<^sup>* s t \<Longrightarrow> inv s \<Longrightarrow> inv t"
  by (induction rule: rtranclp_induct) (auto intro: step_inv)

lemma reachable_inv: "init s \<Longrightarrow> step\<^sup>*\<^sup>* s t \<Longrightarrow> inv t"
  using steps_inv init_inv by blast

end

text \<open>A system whose steps never decrease a measure of progress.\<close>

locale progress_system =
  fixes step :: "'s \<Rightarrow> 's \<Rightarrow> bool" and rank :: "'s \<Rightarrow> nat"
  assumes rank_mono: "step s t \<Longrightarrow> rank s \<le> rank t"
begin

lemma steps_rank_mono: "step\<^sup>*\<^sup>* s t \<Longrightarrow> rank s \<le> rank t"
  by (induction rule: rtranclp_induct) (auto dest: rank_mono)

end

end
