(* ===== verification/Kcp_Receiving.thy ===== *)
theory Kcp_Receiving
  imports Kcp_Segment Kcp_Config MultiBuffer Transition "HOL-Library.Finite_Map"
begin

text \<open>
  \<^verbatim>\<open>transport/internet/kcp/receiving.go\<close>: the receiving window, the list of pending
  acknowledgements and the receiving worker.

  As on the sending side, what an operation reads of the connection is an argument, the
  acknowledgement writer of the list is the worker (\<open>wr\<close> is the change
  \<^verbatim>\<open>ReceivingWorker.Write\<close> makes), and the segments handed to the output are returned in
  order. Payload buffers are represented by their contents; a \<^verbatim>\<open>MultiBuffer\<close> of them is a
  list of contents, nil pointers included.
\<close>

section \<open>Receiving window\<close>

type_synonym ReceivingWindow = "(u32, DataSegment) fmap"

definition NewReceivingWindow :: ReceivingWindow where
  "NewReceivingWindow = fmempty"

definition ReceivingWindow_Set :: "ReceivingWindow \<Rightarrow> u32 \<Rightarrow> DataSegment \<Rightarrow> ReceivingWindow \<times> bool" where
  "ReceivingWindow_Set w key value =
     (case fmlookup w key of Some _ \<Rightarrow> (w, False) | None \<Rightarrow> (fmupd key value w, True))"

definition ReceivingWindow_Has :: "ReceivingWindow \<Rightarrow> u32 \<Rightarrow> bool" where
  "ReceivingWindow_Has w key \<longleftrightarrow> fmlookup w key \<noteq> None"

definition ReceivingWindow_Remove :: "ReceivingWindow \<Rightarrow> u32 \<Rightarrow> ReceivingWindow \<times> DataSegment option" where
  "ReceivingWindow_Remove w key =
     (case fmlookup w key of None \<Rightarrow> (w, None) | Some v \<Rightarrow> (fmdrop key w, Some v))"

section \<open>Acknowledgement list\<close>

record AckList =
  al_timestamps :: "u32 list"
  al_numbers :: "u32 list"
  al_nextFlush :: "u32 list"
  al_flushCandidates :: "u32 list"
  al_dirty :: bool

text \<open>The capacity the candidate slice is made with; appending stays below it.\<close>

definition flushCandidates_cap :: nat where "flushCandidates_cap = 128"

definition NewAckList :: AckList where
  "NewAckList = \<lparr>al_timestamps = [], al_numbers = [], al_nextFlush = [], al_flushCandidates = [], al_dirty = False\<rparr>"

definition AckList_Add :: "AckList \<Rightarrow> u32 \<Rightarrow> u32 \<Rightarrow> AckList" where
  "AckList_Add l number timestamp =
     l\<lparr>al_timestamps := al_timestamps l @ [timestamp], al_numbers := al_numbers l @ [number],
       al_nextFlush := al_nextFlush l @ [0], al_dirty := True\<rparr>"

text \<open>One round of the compaction loop of \<^verbatim>\<open>Clear\<close>.\<close>

definition AckList_Clear_step :: "u32 \<Rightarrow> nat \<Rightarrow> AckList \<times> nat \<Rightarrow> AckList \<times> nat" where
  "AckList_Clear_step una i = (\<lambda>(l, count).
     if al_numbers l ! i < una then (l, count)
     else (if i \<noteq> count
           then l\<lparr>al_numbers := (al_numbers l)[count := al_numbers l ! i],
                  al_timestamps := (al_timestamps l)[count := al_timestamps l ! i],
                  al_nextFlush := (al_nextFlush l)[count := al_nextFlush l ! i]\<rparr>
           else l, Suc count))"

definition AckList_Clear :: "AckList \<Rightarrow> u32 \<Rightarrow> AckList" where
  "AckList_Clear l una =
     (let (l, count) = fold (AckList_Clear_step una) [0..<length (al_numbers l)] (l, 0)
      in if count < length (al_numbers l)
         then l\<lparr>al_numbers := take count (al_numbers l), al_timestamps := take count (al_timestamps l),
                al_nextFlush := take count (al_nextFlush l), al_dirty := True\<rparr>
         else l)"

record ack_flush_vars =
  fl_list :: AckList
  fl_seg :: AckSegment
  fl_out :: "AckSegment list"

definition AckList_Flush_step ::
  "(AckSegment \<Rightarrow> AckSegment) \<Rightarrow> u32 \<Rightarrow> u32 \<Rightarrow> nat \<Rightarrow> ack_flush_vars \<Rightarrow> ack_flush_vars" where
  "AckList_Flush_step wr current rto i st =
     (let l = fl_list st in
      if al_nextFlush l ! i > current
      then (if length (al_flushCandidates l) < flushCandidates_cap
            then st\<lparr>fl_list := l\<lparr>al_flushCandidates := al_flushCandidates l @ [al_numbers l ! i]\<rparr>\<rparr>
            else st)
      else
        let seg = AckSegment_PutNumber (fl_seg st) (al_numbers l ! i);
            seg = AckSegment_PutTimestamp seg (al_timestamps l ! i);
            timeout = rto div 2;
            timeout = (if timeout < 20 then 20 else timeout);
            l = l\<lparr>al_nextFlush := (al_nextFlush l)[i := current + timeout]\<rparr>
        in if AckSegment_IsFull seg
           then st\<lparr>fl_list := l\<lparr>al_dirty := False\<rparr>, fl_seg := NewAckSegment, fl_out := fl_out st @ [wr seg]\<rparr>
           else st\<lparr>fl_list := l, fl_seg := seg\<rparr>)"

fun put_candidates :: "AckSegment \<Rightarrow> u32 list \<Rightarrow> AckSegment" where
  "put_candidates seg [] = seg"
| "put_candidates seg (number # rest) =
     (if AckSegment_IsFull seg then seg else put_candidates (AckSegment_PutNumber seg number) rest)"

definition AckList_Flush ::
  "(AckSegment \<Rightarrow> AckSegment) \<Rightarrow> AckList \<Rightarrow> u32 \<Rightarrow> u32 \<Rightarrow> AckList \<times> AckSegment list" where
  "AckList_Flush wr l current rto =
     (let l = l\<lparr>al_flushCandidates := []\<rparr>;
          st = fold (AckList_Flush_step wr current rto) [0..<length (al_numbers l)]
                 \<lparr>fl_list = l, fl_seg = NewAckSegment, fl_out = []\<rparr>;
          l = fl_list st
      in if al_dirty l \<or> \<not> AckSegment_IsEmpty (fl_seg st)
         then (l\<lparr>al_dirty := False\<rparr>, fl_out st @ [wr (put_candidates (fl_seg st) (al_flushCandidates l))])
         else (l, fl_out st))"

section \<open>Receiving worker\<close>

record ReceivingWorker =
  rwk_leftOver :: "bytes option list option"
  rwk_window :: ReceivingWindow
  rwk_acklist :: AckList
  rwk_nextNumber :: u32
  rwk_windowSize :: u32

definition NewReceivingWorker :: "Config \<Rightarrow> ReceivingWorker option" where
  "NewReceivingWorker cfg =
     do {
       windowSize \<leftarrow> GetReceivingInFlightSize (Some cfg);
       Some \<lparr>rwk_leftOver = None, rwk_window = NewReceivingWindow, rwk_acklist = NewAckList,
             rwk_nextNumber = 0, rwk_windowSize = windowSize\<rparr>
     }"

definition ReceivingWorker_Release :: "ReceivingWorker \<Rightarrow> ReceivingWorker" where
  "ReceivingWorker_Release w = w\<lparr>rwk_leftOver := None\<rparr>"

definition ReceivingWorker_ProcessSendingNext :: "ReceivingWorker \<Rightarrow> u32 \<Rightarrow> ReceivingWorker" where
  "ReceivingWorker_ProcessSendingNext w number = w\<lparr>rwk_acklist := AckList_Clear (rwk_acklist w) number\<rparr>"

definition ReceivingWorker_ProcessSegment :: "ReceivingWorker \<Rightarrow> DataSegment \<Rightarrow> ReceivingWorker" where
  "ReceivingWorker_ProcessSegment w seg =
     (let number = ds_Number seg; idx = number - rwk_nextNumber w in
      if idx \<ge> rwk_windowSize w then w
      else
        let acklist = AckList_Clear (rwk_acklist w) (ds_SendingNext seg);
            acklist = AckList_Add acklist number (ds_Timestamp seg);
            (window, fresh) = ReceivingWindow_Set (rwk_window w) (ds_Number seg) seg
        in w\<lparr>rwk_acklist := acklist, rwk_window := window\<rparr>)"

text \<open>The loop of \<^verbatim>\<open>ReadMultiBuffer\<close> takes consecutive segments out of the window. It stops
  because each round removes an entry.\<close>

function drain :: "ReceivingWindow \<Rightarrow> u32 \<Rightarrow> bytes option list \<Rightarrow> ReceivingWindow \<times> u32 \<times> bytes option list" where
  "drain window nextNumber mb =
     (case ReceivingWindow_Remove window nextNumber of
        (window', None) \<Rightarrow> (window', nextNumber, mb)
      | (window', Some seg) \<Rightarrow> drain window' (nextNumber + 1) (mb @ [snd (DataSegment_Detach seg)]))"
  by pat_completeness auto
termination
proof (relation "measure (\<lambda>(m, _, _). card (fset (fmdom m)))", goal_cases)
  case 1
  then show ?case by simp
next
  case (2 window nextNumber mb window' o' seg)
  then have "fmlookup window nextNumber = Some seg" "window' = fmdrop nextNumber window"
    by (auto simp: ReceivingWindow_Remove_def split: option.splits)
  then have "fset (fmdom window') \<subset> fset (fmdom window)"
    by (auto intro: fmdomI)
  then show ?case by (simp add: psubset_card_mono)
qed

declare drain.simps [simp del]

lemma drain_miss: "fmlookup window n = None \<Longrightarrow> drain window n mb = (window, n, mb)"
  by (simp add: drain.simps [of window] ReceivingWindow_Remove_def)

lemma drain_hit:
  "fmlookup window n = Some seg \<Longrightarrow>
   drain window n mb = drain (fmdrop n window) (n + 1) (mb @ [ds_payload seg])"
  by (simp add: drain.simps [of window] ReceivingWindow_Remove_def DataSegment_Detach_def)

definition ReceivingWorker_ReadMultiBuffer :: "ReceivingWorker \<Rightarrow> ReceivingWorker \<times> bytes option list" where
  "ReceivingWorker_ReadMultiBuffer w =
     (case rwk_leftOver w of
        Some mb \<Rightarrow> (w\<lparr>rwk_leftOver := None\<rparr>, mb)
      | None \<Rightarrow>
          let (window, nextNumber, mb) = drain (rwk_window w) (rwk_nextNumber w) []
          in (w\<lparr>rwk_window := window, rwk_nextNumber := nextNumber\<rparr>, mb))"

text \<open>\<^verbatim>\<open>MultiBuffer.IsEmpty\<close> and \<^verbatim>\<open>SplitBytes\<close> on contents.\<close>

definition payload_bytes :: "bytes option \<Rightarrow> bytes" where
  "payload_bytes p = (case p of None \<Rightarrow> [] | Some b \<Rightarrow> b)"

definition payloads_IsEmpty :: "bytes option list \<Rightarrow> bool" where
  "payloads_IsEmpty mb \<longleftrightarrow> (\<forall>p \<in> set mb. payload_bytes p = [])"

fun payloads_SplitBytes :: "bytes option list \<Rightarrow> nat \<Rightarrow> bytes option list \<times> bytes" where
  "payloads_SplitBytes [] n = ([], [])"
| "payloads_SplitBytes (p # mb) n =
     (let data = take n (payload_bytes p); left = drop n (payload_bytes p) in
      if left \<noteq> [] then (Some left # mb, data)
      else let (rest, more) = payloads_SplitBytes mb (n - length data) in (rest, data @ more))"

definition ReceivingWorker_Read :: "ReceivingWorker \<Rightarrow> nat \<Rightarrow> ReceivingWorker \<times> bytes" where
  "ReceivingWorker_Read w n =
     (let (w, mb) = ReceivingWorker_ReadMultiBuffer w in
      if payloads_IsEmpty mb then (w, [])
      else
        let (mb, data) = payloads_SplitBytes mb n
        in (if \<not> payloads_IsEmpty mb then w\<lparr>rwk_leftOver := Some mb\<rparr> else w, data))"

definition ReceivingWorker_IsDataAvailable :: "ReceivingWorker \<Rightarrow> bool" where
  "ReceivingWorker_IsDataAvailable w = ReceivingWindow_Has (rwk_window w) (rwk_nextNumber w)"

definition ReceivingWorker_NextNumber :: "ReceivingWorker \<Rightarrow> u32" where
  "ReceivingWorker_NextNumber w = rwk_nextNumber w"

definition ReceivingWorker_Write :: "u16 \<Rightarrow> State \<Rightarrow> ReceivingWorker \<Rightarrow> AckSegment \<Rightarrow> AckSegment" where
  "ReceivingWorker_Write conversation state w ackSeg =
     (let ackSeg = ackSeg\<lparr>as_Conv := conversation, as_ReceivingNext := rwk_nextNumber w,
                         as_ReceivingWindow := rwk_nextNumber w + rwk_windowSize w, as_Option := 0\<rparr>
      in if state = StateReadyToClose then ackSeg\<lparr>as_Option := SegmentOptionClose\<rparr> else ackSeg)"

definition ReceivingWorker_Flush ::
  "u16 \<Rightarrow> State \<Rightarrow> RoundTripInfo \<Rightarrow> ReceivingWorker \<Rightarrow> u32 \<Rightarrow> ReceivingWorker \<times> AckSegment list" where
  "ReceivingWorker_Flush conversation state roundTrip w current =
     (let (acklist, out) = AckList_Flush (ReceivingWorker_Write conversation state w) (rwk_acklist w) current
            (RoundTripInfo_Timeout roundTrip)
      in (w\<lparr>rwk_acklist := acklist\<rparr>, out))"

definition ReceivingWorker_CloseRead :: "ReceivingWorker \<Rightarrow> ReceivingWorker" where
  "ReceivingWorker_CloseRead w = w"

definition ReceivingWorker_UpdateNecessary :: "ReceivingWorker \<Rightarrow> bool" where
  "ReceivingWorker_UpdateNecessary w \<longleftrightarrow> length (al_numbers (rwk_acklist w)) > 0"

section \<open>The acknowledgement list keeps what it should\<close>

text \<open>The three parallel slices as one list of entries.\<close>

definition al_wf :: "AckList \<Rightarrow> bool" where
  "al_wf l \<longleftrightarrow> length (al_timestamps l) = length (al_numbers l) \<and> length (al_nextFlush l) = length (al_numbers l)"

definition al_entries :: "AckList \<Rightarrow> (u32 \<times> u32 \<times> u32) list" where
  "al_entries l = zip (al_numbers l) (zip (al_timestamps l) (al_nextFlush l))"

lemma length_al_entries: "al_wf l \<Longrightarrow> length (al_entries l) = length (al_numbers l)"
  by (simp add: al_wf_def al_entries_def)

lemma al_numbers_entries: "al_wf l \<Longrightarrow> al_numbers l = map fst (al_entries l)"
  by (simp add: al_wf_def al_entries_def)

lemma Clear_step_entries:
  assumes "al_wf l" "i < length (al_numbers l)" "c \<le> i" "AckList_Clear_step una i (l, c) = (l', c')"
  shows "al_wf l' \<and> length (al_numbers l') = length (al_numbers l) \<and> al_dirty l' = al_dirty l \<and>
     al_flushCandidates l' = al_flushCandidates l \<and>
     (al_entries l', c') = compact_step (\<lambda>e. \<not> fst e < una) i (al_entries l, c)"
proof -
  have nth: "al_entries l ! i = (al_numbers l ! i, al_timestamps l ! i, al_nextFlush l ! i)"
    using assms by (simp add: al_entries_def al_wf_def)
  have same: "(al_entries l)[i := al_entries l ! i] = al_entries l" by (rule list_update_id)
  show ?thesis
  proof (cases "al_numbers l ! i < una")
    case True
    then show ?thesis using assms nth by (simp add: AckList_Clear_step_def compact_step_def)
  next
    case False
    then show ?thesis
      using assms nth same
      by (cases "i = c") (auto simp: AckList_Clear_step_def compact_step_def al_wf_def al_entries_def update_zip)
  qed
qed

lemma Clear_fold_entries:
  assumes "al_wf l" "n \<le> length (al_numbers l)" "fold (AckList_Clear_step una) [0..<n] (l, 0) = (l', c)"
  shows "al_wf l' \<and> length (al_numbers l') = length (al_numbers l) \<and> al_dirty l' = al_dirty l \<and>
     al_flushCandidates l' = al_flushCandidates l \<and>
     fold (compact_step (\<lambda>e. \<not> fst e < una)) [0..<n] (al_entries l, 0) = (al_entries l', c)"
  using assms
proof (induction n arbitrary: l' c)
  case 0
  then show ?case by simp
next
  case (Suc n)
  obtain l0 c0 where f: "fold (AckList_Clear_step una) [0..<n] (l, 0) = (l0, c0)" by fastforce
  note IH = Suc.IH [OF Suc.prems(1) Suc_leD [OF Suc.prems(2)] f]
  have "c0 \<le> n"
    using compaction [of n "al_entries l" "\<lambda>e. \<not> fst e < una"] IH Suc.prems(1,2) by (auto simp: length_al_entries)
  then show ?case
    using Clear_step_entries [of l0 n c0 una l' c] IH f Suc.prems by auto
qed

lemma AckList_Clear_entries:
  assumes "al_wf l"
  shows "al_wf (AckList_Clear l una) \<and> al_entries (AckList_Clear l una) = filter (\<lambda>e. una \<le> fst e) (al_entries l) \<and>
     (al_dirty (AckList_Clear l una) \<longleftrightarrow> al_dirty l \<or> (\<exists>n \<in> set (al_numbers l). n < una))"
proof -
  let ?n = "length (al_numbers l)"
  obtain l' c where f: "fold (AckList_Clear_step una) [0..<?n] (l, 0) = (l', c)" by fastforce
  note cf = Clear_fold_entries [OF assms order_refl f]
  have len: "length (al_entries l) = ?n" by (rule length_al_entries [OF assms])
  have flt: "filter (\<lambda>e. \<not> fst e < una) (al_entries l) = filter (\<lambda>e. una \<le> fst e) (al_entries l)"
    by (simp add: not_less)
  have cp: "take c (al_entries l') = filter (\<lambda>e. una \<le> fst e) (al_entries l)" "c \<le> ?n"
    using compaction [of ?n "al_entries l" "\<lambda>e. \<not> fst e < una"] cf len flt by auto
  have all: "(\<exists>n \<in> set (al_numbers l). n < una) \<longleftrightarrow> c < ?n"
  proof -
    have "length (filter (\<lambda>e. una \<le> fst e) (al_entries l)) = c"
      using cp cf len by (metis length_al_entries length_take min.absorb2)
    then have "c < ?n \<longleftrightarrow> (\<exists>e \<in> set (al_entries l). \<not> una \<le> fst e)"
      using len by (metis length_filter_less filter_True less_irrefl)
    then show ?thesis using al_numbers_entries [OF assms] by (auto simp: not_le)
  qed
  show ?thesis
  proof (cases "c < ?n")
    case True
    let ?l = "l'\<lparr>al_numbers := take c (al_numbers l'), al_timestamps := take c (al_timestamps l'),
                al_nextFlush := take c (al_nextFlush l'), al_dirty := True\<rparr>"
    have "AckList_Clear l una = ?l" using True f cf by (simp add: AckList_Clear_def)
    moreover have "al_entries ?l = take c (al_entries l')"
      by (simp add: al_entries_def take_zip)
    moreover have "al_wf ?l" using cf by (auto simp: al_wf_def)
    ultimately show ?thesis using cp all True by simp
  next
    case False
    then have "AckList_Clear l una = l'" using f cf by (simp add: AckList_Clear_def)
    moreover have "take c (al_entries l') = al_entries l'"
      by (intro take_all) (use False cf in \<open>auto simp: length_al_entries\<close>)
    ultimately show ?thesis using cp cf all False by simp
  qed
qed

section \<open>Flushing acknowledgements\<close>

definition ack_due :: "u32 \<Rightarrow> u32 \<times> u32 \<times> u32 \<Rightarrow> bool" where
  "ack_due current e \<longleftrightarrow> \<not> snd (snd e) > current"

definition acked_numbers :: "AckSegment list \<Rightarrow> u32 list" where
  "acked_numbers segs = concat (map as_NumberList segs)"

text \<open>What holds after the first \<open>n\<close> rounds of the loop.\<close>

definition flush_ok :: "AckList \<Rightarrow> u32 \<Rightarrow> nat \<Rightarrow> ack_flush_vars \<Rightarrow> bool" where
  "flush_ok l current n st \<longleftrightarrow>
     al_numbers (fl_list st) = al_numbers l \<and> al_timestamps (fl_list st) = al_timestamps l \<and>
     length (al_nextFlush (fl_list st)) = length (al_nextFlush l) \<and>
     drop n (al_nextFlush (fl_list st)) = drop n (al_nextFlush l) \<and>
     al_flushCandidates (fl_list st) =
       take flushCandidates_cap (map fst (filter (Not \<circ> ack_due current) (take n (al_entries l)))) \<and>
     acked_numbers (fl_out st) @ as_NumberList (fl_seg st) = map fst (filter (ack_due current) (take n (al_entries l))) \<and>
     length (as_NumberList (fl_seg st)) < ackNumberLimit \<and>
     (\<forall>seg \<in> set (fl_out st). length (as_NumberList seg) = ackNumberLimit)"

lemma PutTimestamp_NumberList [simp]: "as_NumberList (AckSegment_PutTimestamp seg t) = as_NumberList seg"
  by (simp add: AckSegment_PutTimestamp_def)

lemma PutNumber_NumberList [simp]: "as_NumberList (AckSegment_PutNumber seg n) = as_NumberList seg @ [n]"
  by (simp add: AckSegment_PutNumber_def)

lemma NewAckSegment_NumberList [simp]: "as_NumberList NewAckSegment = []"
  by (simp add: NewAckSegment_def)

lemma acked_numbers_snoc [simp]: "acked_numbers (segs @ [seg]) = acked_numbers segs @ as_NumberList seg"
  by (simp add: acked_numbers_def)

lemma Flush_step_ok:
  assumes wr: "\<And>seg. as_NumberList (wr seg) = as_NumberList seg"
    and wf: "al_wf l" and n: "n < length (al_numbers l)" and ok: "flush_ok l current n st"
  shows "flush_ok l current (Suc n) (AckList_Flush_step wr current rto n st)"
proof -
  let ?l = "fl_list st"
  have nf: "al_nextFlush ?l ! n = al_nextFlush l ! n"
    using ok n wf unfolding flush_ok_def al_wf_def by (metis Cons_nth_drop_Suc list.inject)
  have ent: "take (Suc n) (al_entries l) =
      take n (al_entries l) @ [(al_numbers l ! n, al_timestamps l ! n, al_nextFlush l ! n)]"
  proof -
    have "n < length (al_entries l)" using n wf by (simp add: length_al_entries)
    moreover have "al_entries l ! n = (al_numbers l ! n, al_timestamps l ! n, al_nextFlush l ! n)"
      using n wf by (simp add: al_entries_def al_wf_def)
    ultimately show ?thesis by (simp add: take_Suc_conv_app_nth)
  qed
  have dr: "drop (Suc n) (al_nextFlush ?l) = drop (Suc n) (al_nextFlush l)"
    using ok unfolding flush_ok_def by (metis drop_Suc drop_tl)
  show ?thesis
  proof (cases "al_nextFlush l ! n > current")
    case True
    then show ?thesis
      using ok nf ent dr by (auto simp: flush_ok_def AckList_Flush_step_def Let_def ack_due_def)
  next
    case False
    then show ?thesis
      using ok nf ent dr wr
      by (auto simp: flush_ok_def AckList_Flush_step_def Let_def ack_due_def AckSegment_IsFull_def ackNumberLimit_def)
  qed
qed

lemma Flush_fold_ok:
  assumes wr: "\<And>seg. as_NumberList (wr seg) = as_NumberList seg" and wf: "al_wf l" and "al_flushCandidates l = []"
  shows "n \<le> length (al_numbers l) \<Longrightarrow>
    flush_ok l current n (fold (AckList_Flush_step wr current rto) [0..<n]
      \<lparr>fl_list = l, fl_seg = NewAckSegment, fl_out = []\<rparr>)"
proof (induction n)
  case 0
  then show ?case using assms by (simp add: flush_ok_def acked_numbers_def ackNumberLimit_def)
next
  case (Suc n)
  then show ?case using Flush_step_ok [OF wr wf] by simp
qed

lemma put_candidates_numbers:
  "length (as_NumberList seg) \<le> ackNumberLimit \<Longrightarrow>
   as_NumberList (put_candidates seg cs) = as_NumberList seg @ take (ackNumberLimit - length (as_NumberList seg)) cs"
proof (induction cs arbitrary: seg)
  case Nil
  then show ?case by simp
next
  case (Cons c cs)
  show ?case
  proof (cases "length (as_NumberList seg) = ackNumberLimit")
    case True
    then show ?thesis by (simp add: AckSegment_IsFull_def)
  next
    case False
    then have k: "ackNumberLimit - length (as_NumberList seg) = Suc (ackNumberLimit - Suc (length (as_NumberList seg)))"
      using Cons.prems by (simp add: Suc_diff_Suc)
    with False Cons show ?thesis by (simp add: AckSegment_IsFull_def)
  qed
qed

text \<open>Flushing the acknowledgement list sends every acknowledgement that is due, exactly once
  and in order; the segments carry at most 128 numbers each, so the count fits its byte;
  what is added to the last segment are acknowledgements that are not due yet.\<close>

theorem AckList_Flush_sends_due:
  assumes wr: "\<And>seg. as_NumberList (wr seg) = as_NumberList seg" and wf: "al_wf l"
    and fl: "AckList_Flush wr l current rto = (l', out)"
  shows "al_wf l' \<and> al_numbers l' = al_numbers l \<and>
     (\<forall>seg \<in> set out. length (as_NumberList seg) \<le> ackNumberLimit) \<and>
     (\<exists>k. acked_numbers out = map fst (filter (ack_due current) (al_entries l)) @
           take k (map fst (filter (Not \<circ> ack_due current) (al_entries l))))"
proof -
  let ?l = "l\<lparr>al_flushCandidates := []\<rparr>"
  let ?st = "fold (AckList_Flush_step wr current rto) [0..<length (al_numbers l)]
      \<lparr>fl_list = ?l, fl_seg = NewAckSegment, fl_out = []\<rparr>"
  let ?late = "map fst (filter (Not \<circ> ack_due current) (al_entries l))"
  have e: "al_entries ?l = al_entries l" "al_wf ?l" using wf by (simp_all add: al_entries_def al_wf_def)
  have ok: "flush_ok ?l current (length (al_numbers l)) ?st"
    using Flush_fold_ok [OF wr e(2), of "length (al_numbers l)"] by simp
  then have nums: "acked_numbers (fl_out ?st) @ as_NumberList (fl_seg ?st) = map fst (filter (ack_due current) (al_entries l))"
    and cand: "al_flushCandidates (fl_list ?st) = take flushCandidates_cap ?late"
    and small: "length (as_NumberList (fl_seg ?st)) < ackNumberLimit"
      "\<forall>seg \<in> set (fl_out ?st). length (as_NumberList seg) = ackNumberLimit"
    and keep: "al_wf (fl_list ?st)" "al_numbers (fl_list ?st) = al_numbers l"
    using wf e by (auto simp: flush_ok_def length_al_entries al_wf_def)
  show ?thesis
  proof (cases "al_dirty (fl_list ?st) \<or> \<not> AckSegment_IsEmpty (fl_seg ?st)")
    case True
    let ?last = "put_candidates (fl_seg ?st) (al_flushCandidates (fl_list ?st))"
    let ?k = "min (ackNumberLimit - length (as_NumberList (fl_seg ?st))) flushCandidates_cap"
    have res: "l' = (fl_list ?st)\<lparr>al_dirty := False\<rparr>" "out = fl_out ?st @ [wr ?last]"
      using fl True by (simp_all add: AckList_Flush_def Let_def)
    have last: "as_NumberList ?last = as_NumberList (fl_seg ?st) @ take ?k ?late"
      using put_candidates_numbers [of "fl_seg ?st"] small cand by (simp add: min.commute)
    have "acked_numbers out = map fst (filter (ack_due current) (al_entries l)) @ take ?k ?late"
      using res wr last nums by (simp add: append_assoc [symmetric] del: append_assoc)
    moreover have "length (as_NumberList ?last) \<le> ackNumberLimit" using last small by simp
    ultimately show ?thesis using res keep small wr by (auto simp: al_wf_def)
  next
    case False
    then have "l' = fl_list ?st" "out = fl_out ?st" "as_NumberList (fl_seg ?st) = []"
      using fl by (simp_all add: AckList_Flush_def Let_def AckSegment_IsEmpty_def)
    then show ?thesis using nums keep small by (auto intro!: exI [of _ 0])
  qed
qed

theorem AckList_Flush_sends_due_witness:
  "\<exists>l' out. AckList_Flush (\<lambda>s. s) (AckList_Add (AckList_Add NewAckList 5 10) 9 11) 100 40 = (l', out) \<and>
     al_numbers l' = [5, 9] \<and> acked_numbers out = [5, 9]"
proof -
  let ?l = "AckList_Add (AckList_Add NewAckList 5 10) 9 11"
  obtain l' out where r: "AckList_Flush (\<lambda>s. s) ?l 100 40 = (l', out)" by fastforce
  have "al_wf ?l" by (simp add: al_wf_def AckList_Add_def NewAckList_def)
  from AckList_Flush_sends_due [OF _ this r]
  have "al_numbers l' = [5, 9] \<and> acked_numbers out = [5, 9]"
    by (auto simp: AckList_Add_def NewAckList_def al_entries_def ack_due_def)
  with r show ?thesis by simp
qed

text \<open>Clearing the list by the peer's \<^verbatim>\<open>SendingNext\<close> with the in-place loop over three
  parallel slices is filtering one list of entries; the slices stay parallel, and the
  list is marked dirty exactly when an entry was dropped.\<close>

theorem AckList_Clear_is_filter:
  assumes "al_wf l"
  shows "al_wf (AckList_Clear l una) \<and> al_entries (AckList_Clear l una) = filter (\<lambda>e. una \<le> fst e) (al_entries l) \<and>
     (al_dirty (AckList_Clear l una) \<longleftrightarrow> al_dirty l \<or> (\<exists>n \<in> set (al_numbers l). n < una))"
  by (rule AckList_Clear_entries [OF assms])

theorem AckList_Clear_is_filter_witness:
  "al_entries (AckList_Clear (AckList_Add (AckList_Add NewAckList 5 10) 9 11) 6) = [(9, 11, 0)]"
  using AckList_Clear_is_filter [of "AckList_Add (AckList_Add NewAckList 5 10) 9 11" 6]
  by (simp add: AckList_Add_def NewAckList_def al_wf_def al_entries_def)

section \<open>In-order delivery\<close>

text \<open>The receiving worker against the payloads \<open>sent\<close> by the peer, in order of their numbers:
  the worker has moved past the first \<open>k\<close> of them, and its window holds some of the
  following ones, at most a window ahead.\<close>

definition window_ok :: "bytes list \<Rightarrow> u32 \<Rightarrow> u32 \<Rightarrow> ReceivingWindow \<Rightarrow> bool" where
  "window_ok sent ws next window \<longleftrightarrow>
     (\<forall>n seg. fmlookup window n = Some seg \<longrightarrow>
        ds_Number seg = n \<and> unat n < length sent \<and> ds_payload seg = Some (sent ! unat n) \<and> n - next < ws)"

definition rwk_ok :: "bytes list \<Rightarrow> nat \<Rightarrow> ReceivingWorker \<Rightarrow> bool" where
  "rwk_ok sent k w \<longleftrightarrow>
     length sent < 2 ^ 32 \<and> k \<le> length sent \<and> rwk_nextNumber w = word_of_nat k \<and> al_wf (rwk_acklist w) \<and>
     window_ok sent (rwk_windowSize w) (rwk_nextNumber w) (rwk_window w)"

lemma rwk_ok_leftOver [simp]: "rwk_ok sent k (w\<lparr>rwk_leftOver := x\<rparr>) = rwk_ok sent k w"
  by (simp add: rwk_ok_def)

lemma serial_advance:
  fixes n :: u32
  assumes "n \<noteq> next" "n - next < ws"
  shows "n - (next + 1) < ws"
proof -
  have "n - next \<noteq> 0" using assms(1) by simp
  then have "unat (n - next - 1) < unat (n - next)"
    by (metis less_not_refl3 measure_unat word_unat_eq_iff unat_0)
  then have "unat (n - next - 1) < unat ws" using assms(2) by (simp add: word_less_nat_alt)
  moreover have "n - (next + 1) = n - next - 1" by (simp add: algebra_simps)
  ultimately show ?thesis by (simp only: word_less_nat_alt)
qed

lemma window_ok_advance: "window_ok sent ws next window \<Longrightarrow> window_ok sent ws (next + 1) (fmdrop next window)"
  using serial_advance [of _ "next" ws] by (auto simp: window_ok_def)

lemma drain_spec:
  assumes "length sent < 2 ^ 32"
  shows "drain window next mb = (window', next', mb') \<Longrightarrow> window_ok sent ws next window \<Longrightarrow>
   k \<le> length sent \<Longrightarrow> next = word_of_nat k \<Longrightarrow>
   \<exists>j. k + j \<le> length sent \<and> next' = word_of_nat (k + j) \<and> mb' = mb @ map Some (take j (drop k sent)) \<and>
       window_ok sent ws next' window' \<and> fmlookup window' next' = None"
proof (induction window "next" mb arbitrary: k rule: drain.induct)
  case (1 window "next" mb)
  show ?case
  proof (cases "fmlookup window next")
    case None
    then have "window' = window" "next' = next" "mb' = mb"
      using "1.prems"(1) by (simp_all add: drain_miss)
    with None "1.prems" show ?thesis by (intro exI [of _ 0]) simp
  next
    case (Some seg)
    have k: "unat next = k" using "1.prems" assms by simp
    then have lt: "k < length sent" and pl: "ds_payload seg = Some (sent ! k)"
      using Some "1.prems"(2) by (auto simp: window_ok_def)
    have step: "drain (fmdrop next window) (next + 1) (mb @ [ds_payload seg]) = (window', next', mb')"
      using "1.prems"(1) Some by (simp add: drain_hit)
    have rm: "(fmdrop next window, Some seg) = ReceivingWindow_Remove window next"
      using Some by (simp add: ReceivingWindow_Remove_def)
    have det: "snd (DataSegment_Detach seg) = ds_payload seg" by (simp add: DataSegment_Detach_def)
    have nx: "next + 1 = word_of_nat (Suc k)" using "1.prems"(4) by (simp add: add.commute)
    from "1.IH" [OF rm refl, of "Suc k", unfolded det, OF step window_ok_advance [OF "1.prems"(2)] Suc_leI [OF lt] nx]
    obtain j where j: "Suc k + j \<le> length sent" "next' = word_of_nat (Suc k + j)"
        "mb' = (mb @ [ds_payload seg]) @ map Some (take j (drop (Suc k) sent))"
        "window_ok sent ws next' window'" "fmlookup window' next' = None" by blast
    have "take (Suc j) (drop k sent) = sent ! k # take j (drop (Suc k) sent)"
      using lt by (simp add: Cons_nth_drop_Suc [symmetric])
    with j pl show ?thesis by (intro exI [of _ "Suc j"]) simp
  qed
qed

lemma rwk_ok_ProcessSegment:
  assumes ok: "rwk_ok sent k w" and seg: "unat (ds_Number seg) < length sent"
    "ds_payload seg = Some (sent ! unat (ds_Number seg))"
  shows "rwk_ok sent k (ReceivingWorker_ProcessSegment w seg)"
proof -
  have "al_wf (AckList_Add (AckList_Clear (rwk_acklist w) (ds_SendingNext seg)) (ds_Number seg) (ds_Timestamp seg))"
    using AckList_Clear_entries [of "rwk_acklist w"] ok by (auto simp: rwk_ok_def al_wf_def AckList_Add_def)
  with ok seg show ?thesis
    by (auto simp: rwk_ok_def window_ok_def ReceivingWorker_ProcessSegment_def ReceivingWindow_Set_def Let_def
        split: option.splits if_splits)
qed

lemma rwk_ok_ProcessSendingNext: "rwk_ok sent k w \<Longrightarrow> rwk_ok sent k (ReceivingWorker_ProcessSendingNext w n)"
  using AckList_Clear_entries [of "rwk_acklist w"]
  by (auto simp: rwk_ok_def ReceivingWorker_ProcessSendingNext_def)

lemma ReceivingWorker_Write_NumberList [simp]:
  "as_NumberList (ReceivingWorker_Write conv state w seg) = as_NumberList seg"
  by (simp add: ReceivingWorker_Write_def Let_def)

lemma AckList_Flush_wf:
  assumes "\<And>seg. as_NumberList (wr seg) = as_NumberList seg" "al_wf l" "AckList_Flush wr l current rto = (l', out)"
  shows "al_wf l'"
proof -
  let ?l = "l\<lparr>al_flushCandidates := []\<rparr>"
  have "al_wf ?l" using assms(2) by (simp add: al_wf_def)
  from Flush_fold_ok [OF assms(1) this, of "length (al_numbers l)" current rto] assms(2,3) show ?thesis
    by (auto simp: AckList_Flush_def Let_def flush_ok_def al_wf_def split: if_splits)
qed

lemma rwk_ok_Flush:
  assumes "rwk_ok sent k w" "ReceivingWorker_Flush conv state rt w current = (w', out)"
  shows "rwk_ok sent k w'"
  using assms AckList_Flush_wf [OF ReceivingWorker_Write_NumberList, of "rwk_acklist w"]
  by (auto simp: rwk_ok_def ReceivingWorker_Flush_def split: prod.splits)

text \<open>The bytes the worker still holds back from an earlier partial read.\<close>

definition leftover_bytes :: "ReceivingWorker \<Rightarrow> bytes" where
  "leftover_bytes w = (case rwk_leftOver w of None \<Rightarrow> [] | Some mb \<Rightarrow> concat (map payload_bytes mb))"

lemma concat_payload_Some: "concat (map payload_bytes (map Some bss)) = concat bss"
  by (simp add: payload_bytes_def comp_def)

lemma ReadMultiBuffer_delivers:
  assumes "rwk_ok sent k w" and "ReceivingWorker_ReadMultiBuffer w = (w', mb)"
  shows "\<exists>j. rwk_ok sent (k + j) w' \<and> rwk_leftOver w' = None \<and>
     concat (map payload_bytes mb) = leftover_bytes w @ concat (take j (drop k sent))"
proof (cases "rwk_leftOver w")
  case None
  obtain wd nn ml where d: "drain (rwk_window w) (rwk_nextNumber w) [] = (wd, nn, ml)" by (metis prod_cases3)
  from drain_spec [OF _ d, of sent "rwk_windowSize w" k] assms(1)
  obtain j where "k + j \<le> length sent" "nn = word_of_nat (k + j)" "ml = map Some (take j (drop k sent))"
      "window_ok sent (rwk_windowSize w) nn wd"
    by (auto simp: rwk_ok_def)
  with None assms d show ?thesis
    by (intro exI [of _ j])
      (auto simp: ReceivingWorker_ReadMultiBuffer_def rwk_ok_def leftover_bytes_def concat_payload_Some simp del: map_map)
next
  case (Some left)
  with assms show ?thesis
    by (intro exI [of _ 0]) (auto simp: ReceivingWorker_ReadMultiBuffer_def rwk_ok_def leftover_bytes_def)
qed

lemma payloads_SplitBytes_spec:
  "payloads_SplitBytes mb n = (rest, data) \<Longrightarrow>
   data = take n (concat (map payload_bytes mb)) \<and> concat (map payload_bytes rest) = drop n (concat (map payload_bytes mb))"
proof (induction mb arbitrary: n rest data)
  case Nil
  then show ?case by simp
next
  case (Cons p mb)
  obtain r m where rm: "payloads_SplitBytes mb (n - length (take n (payload_bytes p))) = (r, m)" by fastforce
  note IH = Cons.IH [OF rm]
  show ?case
  proof (cases "drop n (payload_bytes p) = []")
    case True
    then have "length (payload_bytes p) \<le> n" by simp
    with True Cons.prems rm IH show ?thesis by (auto simp: Let_def)
  next
    case False
    with Cons.prems show ?thesis by (auto simp: Let_def payload_bytes_def)
  qed
qed

lemma Read_delivers:
  assumes "rwk_ok sent k w" and "ReceivingWorker_Read w n = (w', data)"
  shows "\<exists>j. rwk_ok sent (k + j) w' \<and> data @ leftover_bytes w' = leftover_bytes w @ concat (take j (drop k sent))"
proof -
  obtain w1 mb where r: "ReceivingWorker_ReadMultiBuffer w = (w1, mb)" by fastforce
  from ReadMultiBuffer_delivers [OF assms(1) r] obtain j where
    j: "rwk_ok sent (k + j) w1" "rwk_leftOver w1 = None"
      "concat (map payload_bytes mb) = leftover_bytes w @ concat (take j (drop k sent))" by blast
  obtain mb2 d where sp: "payloads_SplitBytes mb n = (mb2, d)" by fastforce
  have emp: "payloads_IsEmpty x \<longleftrightarrow> concat (map payload_bytes x) = []" for x
    by (auto simp: payloads_IsEmpty_def)
  have ok': "rwk_ok sent (k + j) (w1\<lparr>rwk_leftOver := x\<rparr>)" for x
    using j(1) by simp
  note spl = payloads_SplitBytes_spec [OF sp]
  have "rwk_ok sent (k + j) w' \<and> data @ leftover_bytes w' = concat (map payload_bytes mb)"
  proof (cases "payloads_IsEmpty mb")
    case True
    then have "w' = w1" "data = []" "concat (map payload_bytes mb) = []"
      using assms(2) r emp by (auto simp: ReceivingWorker_Read_def)
    then show ?thesis using j by (simp add: leftover_bytes_def)
  next
    case False
    then have res: "data = d" "w' = (if payloads_IsEmpty mb2 then w1 else w1\<lparr>rwk_leftOver := Some mb2\<rparr>)"
      using assms(2) r sp by (auto simp: ReceivingWorker_Read_def split: if_splits)
    moreover have "leftover_bytes w' = concat (map payload_bytes mb2)"
      using res j(2) emp [of mb2] by (auto simp: leftover_bytes_def)
    ultimately show ?thesis using spl ok' j(1) by simp
  qed
  with j(3) show ?thesis by auto
qed

section \<open>Bounded memory\<close>

text \<open>The steps of a receiving worker under arbitrary, possibly hostile, segments.\<close>

inductive rwk_step :: "ReceivingWorker \<Rightarrow> ReceivingWorker \<Rightarrow> bool" where
  rwk_segment: "rwk_step w (ReceivingWorker_ProcessSegment w seg)"
| rwk_sending_next: "rwk_step w (ReceivingWorker_ProcessSendingNext w n)"
| rwk_flush: "rwk_step w (fst (ReceivingWorker_Flush conv state rt w now))"
| rwk_read: "rwk_step w (fst (ReceivingWorker_Read w n))"
| rwk_read_multi: "rwk_step w (fst (ReceivingWorker_ReadMultiBuffer w))"
| rwk_release: "rwk_step w (ReceivingWorker_Release w)"

definition near :: "u32 \<Rightarrow> u32 \<Rightarrow> ReceivingWindow \<Rightarrow> bool" where
  "near ws next window \<longleftrightarrow> (\<forall>n seg. fmlookup window n = Some seg \<longrightarrow> n - next < ws)"

abbreviation rwk_near :: "ReceivingWorker \<Rightarrow> bool" where
  "rwk_near w \<equiv> near (rwk_windowSize w) (rwk_nextNumber w) (rwk_window w)"

lemma near_advance: "near ws next window \<Longrightarrow> near ws (next + 1) (fmdrop next window)"
  using serial_advance [of _ "next" ws] by (auto simp: near_def)

lemma drain_near: "drain window next mb = (window', next', mb') \<Longrightarrow> near ws next window \<Longrightarrow> near ws next' window'"
proof (induction window "next" mb rule: drain.induct)
  case (1 window "next" mb)
  show ?case
  proof (cases "fmlookup window next")
    case None
    with "1.prems" show ?thesis by (simp add: drain_miss)
  next
    case (Some seg)
    have rm: "(fmdrop next window, Some seg) = ReceivingWindow_Remove window next"
      using Some by (simp add: ReceivingWindow_Remove_def)
    from "1.IH" [OF rm refl] near_advance "1.prems" Some show ?thesis
      by (simp add: drain_hit DataSegment_Detach_def)
  qed
qed

lemma near_ReadMultiBuffer: "rwk_near w \<Longrightarrow> rwk_near (fst (ReceivingWorker_ReadMultiBuffer w))"
  using drain_near
  by (auto simp: ReceivingWorker_ReadMultiBuffer_def split: option.splits prod.splits)

lemma near_Read: "rwk_near w \<Longrightarrow> rwk_near (fst (ReceivingWorker_Read w n))"
  using near_ReadMultiBuffer [of w]
  by (auto simp: ReceivingWorker_Read_def Let_def split: prod.splits)

lemma near_ProcessSegment: "rwk_near w \<Longrightarrow> rwk_near (ReceivingWorker_ProcessSegment w seg)"
  by (auto simp: near_def ReceivingWorker_ProcessSegment_def ReceivingWindow_Set_def Let_def
      split: option.splits if_splits)

lemma rwk_windowSize_keeps:
  "rwk_windowSize (ReceivingWorker_ProcessSegment w seg) = rwk_windowSize w"
  "rwk_windowSize (fst (ReceivingWorker_ReadMultiBuffer w)) = rwk_windowSize w"
  "rwk_windowSize (fst (ReceivingWorker_Read w n)) = rwk_windowSize w"
proof -
  show multi: "rwk_windowSize (fst (ReceivingWorker_ReadMultiBuffer w)) = rwk_windowSize w"
    by (simp add: ReceivingWorker_ReadMultiBuffer_def split: option.splits prod.splits)
  then show "rwk_windowSize (fst (ReceivingWorker_Read w n)) = rwk_windowSize w"
    by (auto simp: ReceivingWorker_Read_def Let_def split: prod.splits)
qed (simp add: ReceivingWorker_ProcessSegment_def Let_def split: prod.splits)

lemma rwk_step_near:
  assumes "rwk_step w w'" and "rwk_near w"
  shows "rwk_near w' \<and> rwk_windowSize w' = rwk_windowSize w"
  using assms(1)
proof (cases rule: rwk_step.cases)
  case (rwk_segment seg)
  then show ?thesis using near_ProcessSegment [OF assms(2)] by (simp add: rwk_windowSize_keeps)
next
  case (rwk_read n)
  then show ?thesis using near_Read [OF assms(2)] by (simp add: rwk_windowSize_keeps)
next
  case rwk_read_multi
  then show ?thesis using near_ReadMultiBuffer [OF assms(2)] by (simp add: rwk_windowSize_keeps)
qed (use assms(2) in \<open>auto simp: ReceivingWorker_ProcessSendingNext_def ReceivingWorker_Flush_def ReceivingWorker_Release_def
    split: prod.splits\<close>)

lemma NewReceivingWorker_near:
  "NewReceivingWorker cfg = Some w \<Longrightarrow> rwk_near w \<and> GetReceivingInFlightSize (Some cfg) = Some (rwk_windowSize w)"
  by (auto simp: NewReceivingWorker_def near_def NewReceivingWindow_def bind_eq_Some_conv)

interpretation rwk: invariant_system "\<lambda>w. NewReceivingWorker cfg = Some w" rwk_step
  "\<lambda>w. rwk_near w \<and> GetReceivingInFlightSize (Some cfg) = Some (rwk_windowSize w)" for cfg
  using rwk_step_near NewReceivingWorker_near by unfold_locales (blast, metis)

lemma near_card:
  assumes "near ws next window"
  shows "card (fset (fmdom window)) \<le> unat ws"
proof -
  have "inj_on (\<lambda>n. unat (n - next)) (fset (fmdom window))"
    by (rule inj_onI) (metis diff_add_cancel word_unat_eq_iff)
  moreover have "(\<lambda>n. unat (n - next)) ` fset (fmdom window) \<subseteq> {..<unat ws}"
    using assms by (fastforce simp: near_def word_less_nat_alt fmlookup_dom_iff)
  ultimately show ?thesis by (metis card_inj_on_le card_lessThan finite_lessThan)
qed

text \<open>C23. Whatever segments a peer sends and however the reader behaves, the receiving window
  never holds more segments than the configured in-flight size: a peer cannot make the
  endpoint keep more.\<close>

theorem receiving_window_bounded:
  assumes "NewReceivingWorker cfg = Some w" and "rwk_step\<^sup>*\<^sup>* w w'"
  shows "\<exists>ws. GetReceivingInFlightSize (Some cfg) = Some ws \<and> card (fset (fmdom (rwk_window w'))) \<le> unat ws"
  using rwk.reachable_inv [OF assms] near_card by blast

theorem receiving_window_bounded_witness:
  "\<exists>w w' ws. NewReceivingWorker default_Config = Some w \<and> rwk_step\<^sup>*\<^sup>* w w' \<and>
     fmdom (rwk_window w') = {|5|} \<and> card (fset (fmdom (rwk_window w'))) \<le> unat (ws :: u32) \<and>
     GetReceivingInFlightSize (Some default_Config) = Some ws"
proof -
  note cfg = GetReceivingInFlightSize_def GetDownlinkCapacityValue_def GetMTUValue_def GetTTIValue_def setting_def
    default_Config_def udiv_def
  obtain w where w: "NewReceivingWorker default_Config = Some w" "rwk_window w = fmempty"
      "rwk_nextNumber w = 0" "rwk_windowSize w = 776"
    by (simp add: NewReceivingWorker_def cfg NewReceivingWindow_def)
  let ?w = "ReceivingWorker_ProcessSegment w (NewDataSegment\<lparr>ds_Number := 5\<rparr>)"
  have st: "rwk_step\<^sup>*\<^sup>* w ?w" using rwk_segment by (rule r_into_rtranclp)
  have "fmdom (rwk_window ?w) = {|5|}"
    using w by (simp add: ReceivingWorker_ProcessSegment_def ReceivingWindow_Set_def Let_def)
  with receiving_window_bounded [OF w(1) st] w(1) st show ?thesis by blast
qed

end
