(* ===== verification/Kcp_Network.thy ===== *)
theory Kcp_Network
  imports Kcp_Sending Kcp_Receiving Transition
begin

text \<open>
  The sending worker of one endpoint and the receiving worker of the other, joined by a
  network that may lose, duplicate, reorder and delay data segments, and by
  acknowledgements that are arbitrary. The ghost fields record the payloads pushed, the
  data segments ever written to the output, and the bytes handed to the reader.
\<close>

record net_state =
  ns_sender :: SendingWorker
  ns_receiver :: ReceivingWorker
  ns_sent :: "bytes list"
  ns_wire :: "DataSegment set"
  ns_delivered :: bytes

definition net_init :: "Config \<Rightarrow> Config \<Rightarrow> net_state \<Rightarrow> bool" where
  "net_init scfg rcfg s \<longleftrightarrow>
     NewSendingWorker scfg = Some (ns_sender s) \<and> NewReceivingWorker rcfg = Some (ns_receiver s) \<and>
     ns_sent s = [] \<and> ns_wire s = {} \<and> ns_delivered s = []"

inductive net_step :: "net_state \<Rightarrow> net_state \<Rightarrow> bool" where
  push: "SendingWorker_Push (ns_sender s) b = (w, True) \<Longrightarrow> length (ns_sent s) + 1 < 2 ^ 32 \<Longrightarrow>
    net_step s (s\<lparr>ns_sender := w, ns_sent := ns_sent s @ [b]\<rparr>)"
| flush: "SendingWorker_Flush conv state cfg rt (ns_sender s) now = Some (w, out, upd) \<Longrightarrow>
    net_step s (s\<lparr>ns_sender := w, ns_wire := ns_wire s \<union> set out\<rparr>)"
| ack: "SendingWorker_ProcessSegment (ns_sender s) rt now seg rto = (w, rt') \<Longrightarrow>
    net_step s (s\<lparr>ns_sender := w\<rparr>)"
| receiving_next: "net_step s (s\<lparr>ns_sender := SendingWorker_ProcessReceivingNext (ns_sender s) n\<rparr>)"
| close_write: "net_step s (s\<lparr>ns_sender := SendingWorker_CloseWrite (ns_sender s)\<rparr>)"
| release: "net_step s (s\<lparr>ns_sender := SendingWorker_Release (ns_sender s)\<rparr>)"
| arrive: "seg \<in> ns_wire s \<Longrightarrow>
    net_step s (s\<lparr>ns_receiver := ReceivingWorker_ProcessSegment (ns_receiver s) (seg\<lparr>ds_timeout := 0, ds_transmit := 0\<rparr>)\<rparr>)"
| sending_next: "net_step s (s\<lparr>ns_receiver := ReceivingWorker_ProcessSendingNext (ns_receiver s) n\<rparr>)"
| ack_flush: "ReceivingWorker_Flush conv state rt (ns_receiver s) now = (r, acks) \<Longrightarrow>
    net_step s (s\<lparr>ns_receiver := r\<rparr>)"
| read: "ReceivingWorker_Read (ns_receiver s) n = (r, data) \<Longrightarrow>
    net_step s (s\<lparr>ns_receiver := r, ns_delivered := ns_delivered s @ data\<rparr>)"
| read_multi: "ReceivingWorker_ReadMultiBuffer (ns_receiver s) = (r, mb) \<Longrightarrow>
    net_step s (s\<lparr>ns_receiver := r, ns_delivered := ns_delivered s @ concat (map payload_bytes mb)\<rparr>)"

definition genuine :: "bytes list \<Rightarrow> u32 \<times> bytes option \<Rightarrow> bool" where
  "genuine sent k \<longleftrightarrow> unat (fst k) < length sent \<and> snd k = Some (sent ! unat (fst k))"

definition net_inv :: "net_state \<Rightarrow> bool" where
  "net_inv s \<longleftrightarrow>
     length (ns_sent s) < 2 ^ 32 \<and> swk_inv (ns_sender s) \<and>
     swk_nextNumber (ns_sender s) = word_of_nat (length (ns_sent s)) \<and>
     (\<forall>k \<in> set (pending (ns_sender s)). genuine (ns_sent s) k) \<and>
     (\<forall>seg \<in> ns_wire s. genuine (ns_sent s) (seg_key seg)) \<and>
     (\<exists>k. rwk_ok (ns_sent s) k (ns_receiver s) \<and>
          ns_delivered s @ leftover_bytes (ns_receiver s) = concat (take k (ns_sent s)))"

lemma genuine_append: "genuine sent k \<Longrightarrow> genuine (sent @ [b]) k"
  by (auto simp: genuine_def nth_append)

lemma rwk_ok_append: "rwk_ok sent k w \<Longrightarrow> length sent + 1 < 2 ^ 32 \<Longrightarrow> rwk_ok (sent @ [b]) k w"
  by (fastforce simp: rwk_ok_def window_ok_def nth_append)

text \<open>Without any bound on the span, an acknowledgement can only take entries out.\<close>

lemma processAck_subset:
  assumes inv: "swk_inv w" and pa: "SendingWorker_processAck w n = (w', removed)"
  shows "swk_inv w' \<and> set (pending w') \<subseteq> set (pending w) \<and> swk_nextNumber w' = swk_nextNumber w"
proof -
  obtain sw' r where rm: "SendingWindow_Remove (swk_window w) n = (sw', r)" by fastforce
  let ?w = "w\<lparr>swk_window := sw'\<rparr>"
  have p: "pending ?w = filter (\<lambda>k. fst k \<noteq> n) (pending w)"
    using pending_Remove [OF inv rm] by blast
  have "swk_inv ?w" using inv p by (auto simp: swk_inv_def sorted_wrt_filter_fst)
  moreover have "swk_inv (SendingWorker_FindFirstUnacknowledged ?w)"
    using inv p by (intro FindFirst_inv) (auto simp: sorted_wrt_filter_fst swk_inv_def)
  ultimately show ?thesis
    using pa rm inv p by (auto simp: SendingWorker_processAck_def Let_def split: if_splits)
qed

lemma ack_loop_subset:
  "swk_inv w \<Longrightarrow> ack_loop numbers w m r = (w', m', r') \<Longrightarrow>
   swk_inv w' \<and> set (pending w') \<subseteq> set (pending w) \<and> swk_nextNumber w' = swk_nextNumber w"
proof (induction numbers arbitrary: w m r)
  case Nil
  then show ?case by simp
next
  case (Cons n numbers)
  obtain w1 r1 where pa: "SendingWorker_processAck w n = (w1, r1)" by fastforce
  note sp = processAck_subset [OF Cons.prems(1) pa]
  obtain m2 r2 where "ack_loop numbers w1 m2 r2 = (w', m', r')"
    using Cons.prems(2) pa by (auto split: if_splits)
  with Cons.IH [of w1 m2 r2] sp show ?case by auto
qed

lemma swk_inv_cong:
  "pending w' = pending w \<Longrightarrow> swk_nextNumber w' = swk_nextNumber w \<Longrightarrow>
   swk_firstUnacknowledged w' = swk_firstUnacknowledged w \<Longrightarrow> swk_inv w' = swk_inv w"
  by (simp add: swk_inv_def)

lemma ProcessSegment_subset:
  assumes inv: "swk_inv w" and ps: "SendingWorker_ProcessSegment w rt now seg rto = (w', rt')"
  shows "swk_inv w' \<and> set (pending w') \<subseteq> set (pending w) \<and> swk_nextNumber w' = swk_nextNumber w"
proof (cases "swk_closed w")
  case True
  then show ?thesis using assms by (simp add: SendingWorker_ProcessSegment_def)
next
  case False
  define w0 where "w0 = (if swk_remoteNextNumber w < as_ReceivingWindow seg
      then w\<lparr>swk_remoteNextNumber := as_ReceivingWindow seg\<rparr> else w)"
  define w1 where "w1 = SendingWorker_ProcessReceivingNextWithoutLock w0 (as_ReceivingNext seg)"
  have p0: "pending w0 = pending w" "swk_nextNumber w0 = swk_nextNumber w" "swk_inv w0"
    using inv by (auto simp: w0_def pending_def swk_inv_def)
  have w1: "swk_inv w1" "set (pending w1) \<subseteq> set (pending w)" "swk_nextNumber w1 = swk_nextNumber w"
    using ProcessReceivingNext_inv [OF p0(3)] ProcessReceivingNext_pending [OF p0(3)] p0
    by (auto simp: w1_def SendingWorker_ProcessReceivingNextWithoutLock_def)
  obtain w2 m r where al: "ack_loop (as_NumberList seg) w1 0 False = (w2, m, r)" by (metis prod_cases3)
  note a = ack_loop_subset [OF w1(1) al]
  let ?w3 = "w2\<lparr>swk_window := SendingWindow_HandleFastAck (swk_window w2) m rto\<rparr>"
  have w3: "pending ?w3 = pending w2" by (simp add: pending_def HandleFastAck_keys)
  then have "swk_inv ?w3" using swk_inv_cong [of ?w3 w2] a by simp
  moreover have "w' = (if AckSegment_IsEmpty seg then w1 else if r then ?w3 else w2)"
    using ps False al
    by (auto simp: SendingWorker_ProcessSegment_def Let_def w0_def [symmetric] w1_def [symmetric] split: if_splits)
  ultimately show ?thesis using a w1 w3 by auto
qed

lemma pending_length:
  assumes "swk_inv w"
  shows "length (sw_cache (swk_window w)) < 2 ^ 32"
proof -
  have "sorted_wrt (<) (map unat (map fst (pending w)))"
    using assms by (simp add: swk_inv_def sorted_wrt_map word_less_nat_alt)
  then have "distinct (map unat (map fst (pending w)))"
    by (metis strict_sorted_iff)
  moreover have "set (map unat (map fst (pending w))) \<subseteq> {..<unat (swk_nextNumber w)}"
    using assms by (auto simp: swk_inv_def word_less_nat_alt)
  ultimately have "length (pending w) \<le> unat (swk_nextNumber w)"
    by (metis card_lessThan card_mono distinct_card finite_lessThan length_map)
  moreover have "unat (swk_nextNumber w) < 2 ^ 32"
    by (rule order_less_le_trans [OF unsigned_less]) simp
  ultimately show ?thesis by (simp add: pending_def)
qed

section \<open>The invariant is kept\<close>

lemma NewSendingWorker_inv:
  "NewSendingWorker cfg = Some w \<Longrightarrow> swk_inv w \<and> pending w = [] \<and> swk_nextNumber w = 0"
  by (auto simp: NewSendingWorker_def bind_eq_Some_conv swk_inv_def pending_def NewSendingWindow_def)

lemma NewReceivingWorker_ok:
  "NewReceivingWorker cfg = Some w \<Longrightarrow> rwk_ok [] 0 w \<and> leftover_bytes w = []"
  by (auto simp: NewReceivingWorker_def bind_eq_Some_conv rwk_ok_def window_ok_def NewReceivingWindow_def
      al_wf_def NewAckList_def leftover_bytes_def)

lemma net_init_inv:
  assumes "net_init scfg rcfg s"
  shows "net_inv s"
  using assms NewSendingWorker_inv [of scfg "ns_sender s"] NewReceivingWorker_ok [of rcfg "ns_receiver s"]
  by (auto simp: net_inv_def net_init_def)

text \<open>Steps of the sender that only take entries out of its window.\<close>

lemma net_inv_shrink:
  assumes "net_inv s" "swk_inv w" "set (pending w) \<subseteq> set (pending (ns_sender s))"
    "swk_nextNumber w = swk_nextNumber (ns_sender s)"
  shows "net_inv (s\<lparr>ns_sender := w\<rparr>)"
  using assms by (auto simp: net_inv_def)

lemma net_inv_push:
  assumes inv: "net_inv s" and push: "SendingWorker_Push (ns_sender s) b = (w, True)"
    and len: "length (ns_sent s) + 1 < 2 ^ 32"
  shows "net_inv (s\<lparr>ns_sender := w, ns_sent := ns_sent s @ [b]\<rparr>)"
proof -
  let ?n = "swk_nextNumber (ns_sender s)"
  have n: "?n = word_of_nat (length (ns_sent s))" "unat ?n = length (ns_sent s)"
    using inv len by (auto simp: net_inv_def)
  moreover have "unat (0xFFFFFFFF :: u32) = 4294967295" by (simp add: unat_eq_nat_uint)
  ultimately have "?n \<noteq> 0xFFFFFFFF" using len by force
  then have "swk_inv w" using Push_inv [of "ns_sender s" b] inv push by (auto simp: net_inv_def)
  moreover have "pending w = pending (ns_sender s) @ [(?n, Some b)]" "swk_nextNumber w = ?n + 1"
    using Push_pending push by (auto simp: SendingWorker_Push_def split: if_splits)
  moreover have "genuine (ns_sent s @ [b]) (?n, Some b)" using n by (simp add: genuine_def)
  moreover obtain k where "rwk_ok (ns_sent s) k (ns_receiver s)"
      "ns_delivered s @ leftover_bytes (ns_receiver s) = concat (take k (ns_sent s))"
    using inv by (auto simp: net_inv_def)
  moreover from this have "take k (ns_sent s @ [b]) = take k (ns_sent s)" by (simp add: rwk_ok_def)
  ultimately show ?thesis
    using inv n len rwk_ok_append [of "ns_sent s" k "ns_receiver s" b] genuine_append
    by (auto simp: net_inv_def intro!: exI [of _ k])
qed

lemma net_inv_flush:
  assumes inv: "net_inv s" and fl: "SendingWorker_Flush conv state cfg rt (ns_sender s) now = Some (w, out, upd)"
  shows "net_inv (s\<lparr>ns_sender := w, ns_wire := ns_wire s \<union> set out\<rparr>)"
proof -
  have swk: "swk_inv (ns_sender s)" using inv by (simp add: net_inv_def)
  note sp = SendingWorker_Flush_spec [OF pending_length [OF swk] fl]
  have "seg_key ` set out \<subseteq> set (pending (ns_sender s))"
    using sp SendingWorker_Write_key
    by (cases "swk_closed (ns_sender s)") (auto simp: stamp_def pending_def dest!: in_set_takeD)
  then have "\<forall>seg \<in> set out. genuine (ns_sent s) (seg_key seg)" using inv by (auto simp: net_inv_def)
  moreover have "swk_inv w" using sp swk by (simp add: swk_inv_def)
  ultimately show ?thesis using sp inv by (auto simp: net_inv_def)
qed

text \<open>Steps of the receiver, each given by how far it moves and what it hands over.\<close>

lemma net_inv_receive:
  assumes inv: "net_inv s"
    and step: "\<And>k. rwk_ok (ns_sent s) k (ns_receiver s) \<Longrightarrow>
      \<exists>j. rwk_ok (ns_sent s) (k + j) r \<and>
        data @ leftover_bytes r = leftover_bytes (ns_receiver s) @ concat (take j (drop k (ns_sent s)))"
  shows "net_inv (s\<lparr>ns_receiver := r, ns_delivered := ns_delivered s @ data\<rparr>)"
proof -
  from inv obtain k where k: "rwk_ok (ns_sent s) k (ns_receiver s)"
      "ns_delivered s @ leftover_bytes (ns_receiver s) = concat (take k (ns_sent s))"
    by (auto simp: net_inv_def)
  from step [OF k(1)] obtain j where j: "rwk_ok (ns_sent s) (k + j) r"
      "data @ leftover_bytes r = leftover_bytes (ns_receiver s) @ concat (take j (drop k (ns_sent s)))" by blast
  have "ns_delivered s @ data @ leftover_bytes r = concat (take (k + j) (ns_sent s))"
    using j(2) k(2) by (simp add: take_add)
  with inv j(1) show ?thesis by (auto simp: net_inv_def)
qed

lemma net_inv_quiet:
  assumes "net_inv s" "\<And>k. rwk_ok (ns_sent s) k (ns_receiver s) \<Longrightarrow> rwk_ok (ns_sent s) k r"
    "rwk_leftOver r = rwk_leftOver (ns_receiver s)"
  shows "net_inv (s\<lparr>ns_receiver := r\<rparr>)"
  using assms by (auto simp: net_inv_def leftover_bytes_def)

lemma ProcessSegment_leftOver: "rwk_leftOver (ReceivingWorker_ProcessSegment w seg) = rwk_leftOver w"
  by (simp add: ReceivingWorker_ProcessSegment_def Let_def split: prod.splits)

lemma net_step_inv:
  assumes "net_step s t" "net_inv s"
  shows "net_inv t"
  using assms
proof (cases rule: net_step.cases)
  case (push b w)
  then show ?thesis using net_inv_push assms by blast
next
  case (flush conv state cfg rt now w out upd)
  then show ?thesis using net_inv_flush assms by blast
next
  case (ack rt now seg rto w rt')
  then show ?thesis using net_inv_shrink ProcessSegment_subset assms by (metis net_inv_def)
next
  case (receiving_next n)
  have "swk_inv (ns_sender s)" using assms by (simp add: net_inv_def)
  then show ?thesis
    using receiving_next ProcessReceivingNext_inv ProcessReceivingNext_pending
    by (auto simp: SendingWorker_ProcessReceivingNext_def SendingWorker_ProcessReceivingNextWithoutLock_def
        intro!: net_inv_shrink assms)
next
  case close_write
  then show ?thesis
    using CloseWrite_inv assms
    by (auto simp: net_inv_def SendingWorker_CloseWrite_def pending_Clear dest!: set_dropWhileD intro!: net_inv_shrink)
next
  case release
  then show ?thesis
    using Release_inv assms
    by (auto simp: net_inv_def SendingWorker_Release_def pending_def SendingWindow_Release_def)
next
  case (arrive seg)
  then have "genuine (ns_sent s) (seg_key seg)" using assms by (auto simp: net_inv_def)
  then show ?thesis
    unfolding arrive using rwk_ok_ProcessSegment [of "ns_sent s" _ "ns_receiver s"]
    by (intro net_inv_quiet assms) (auto simp: genuine_def ProcessSegment_leftOver)
next
  case (sending_next n)
  then show ?thesis
    using rwk_ok_ProcessSendingNext
    by (auto intro!: net_inv_quiet assms simp: ReceivingWorker_ProcessSendingNext_def)
next
  case (ack_flush conv state rt now r acks)
  have "rwk_leftOver r = rwk_leftOver (ns_receiver s)"
    using ack_flush(2) by (auto simp: ReceivingWorker_Flush_def split: prod.splits)
  then show ?thesis
    unfolding ack_flush(1) using rwk_ok_Flush [OF _ ack_flush(2)] by (intro net_inv_quiet assms) auto
next
  case (read n r data)
  then show ?thesis using net_inv_receive [OF assms(2)] Read_delivers by blast
next
  case (read_multi r mb)
  have "\<exists>j. rwk_ok (ns_sent s) (k + j) r \<and> concat (map payload_bytes mb) @ leftover_bytes r =
      leftover_bytes (ns_receiver s) @ concat (take j (drop k (ns_sent s)))"
    if "rwk_ok (ns_sent s) k (ns_receiver s)" for k
    using ReadMultiBuffer_delivers [OF that read_multi(2)] by (auto simp: leftover_bytes_def)
  then show ?thesis using net_inv_receive [OF assms(2)] read_multi by blast
qed

interpretation kcp_net: invariant_system "net_init scfg rcfg" net_step net_inv for scfg rcfg
  by unfold_locales (auto intro: net_init_inv net_step_inv)

section \<open>In-order delivery over an unreliable network\<close>

text \<open>C1. Whatever the network loses, repeats, reorders or delays, and whatever
  acknowledgements arrive, the bytes handed to the reader of one endpoint are a prefix of
  the bytes pushed at the other: nothing is lost, repeated or swapped in what is read.
  (The number of segments pushed stays below the 32-bit sequence space.)\<close>

theorem kcp_delivers_prefix:
  assumes "net_init scfg rcfg s" and "net_step\<^sup>*\<^sup>* s t"
  shows "\<exists>rest. concat (ns_sent t) = ns_delivered t @ rest"
proof -
  have "net_inv t" by (rule kcp_net.reachable_inv [OF assms])
  then obtain k where "ns_delivered t @ leftover_bytes (ns_receiver t) = concat (take k (ns_sent t))"
    by (auto simp: net_inv_def)
  then have "concat (ns_sent t) = ns_delivered t @ leftover_bytes (ns_receiver t) @ concat (drop k (ns_sent t))"
    by (metis append_assoc append_take_drop_id concat_append)
  then show ?thesis by blast
qed

text \<open>A run: one payload is pushed, flushed, received and read.\<close>

theorem kcp_delivers_prefix_witness:
  "\<exists>s t rest. net_init default_Config default_Config s \<and> net_step\<^sup>*\<^sup>* s t \<and> ns_delivered t = [7, 8] \<and>
     concat (ns_sent t) = ns_delivered t @ rest"
proof -
  define w0 :: SendingWorker where "w0 = the (NewSendingWorker default_Config)"
  define r0 :: ReceivingWorker where "r0 = the (NewReceivingWorker default_Config)"
  define s where "s = \<lparr>ns_sender = w0, ns_receiver = r0, ns_sent = [], ns_wire = {}, ns_delivered = []\<rparr>"
  note cfg = GetSendingInFlightSize_def GetSendingBufferSize_def GetReceivingInFlightSize_def GetUplinkCapacityValue_def
    GetDownlinkCapacityValue_def GetWriteBufferSize_def GetMTUValue_def GetTTIValue_def setting_def default_Config_def udiv_def
  have init: "net_init default_Config default_Config s"
    by (simp add: net_init_def s_def w0_def r0_def NewSendingWorker_def NewReceivingWorker_def cfg)
  obtain w1 where p: "SendingWorker_Push w0 [7, 8] = (w1, True)"
    and w1: "sw_cache (swk_window w1) = [NewDataSegment\<lparr>ds_Number := 0, ds_payload := Some [7, 8]\<rparr>]" "\<not> swk_closed w1"
    by (simp add: w0_def NewSendingWorker_def cfg SendingWorker_Push_def SendingWindow_Push_def NewSendingWindow_def
        SendingWindow_Len_def)
  define s1 where "s1 = s\<lparr>ns_sender := w1, ns_sent := [[7, 8]]\<rparr>"
  have st1: "net_step s s1" using net_step.push [of s "[7, 8]" w1] p by (simp add: s_def s1_def)
  obtain w2 out upd where f:
    "SendingWorker_Flush 9 StateActive default_Config example_rt w1 100 = Some (w2, out, upd)"
    using SendingWorker_Flush_total [OF default_in_flight] by blast
  have "\<exists>seg \<in> set out. ds_Number seg = 0 \<and> ds_payload seg = Some [7, 8]"
    using SendingWorker_Flush_spec [OF _ f] w1
    by (auto simp: due_def NewDataSegment_def stamp_def SendingWorker_Write_def Let_def max_def split: if_splits)
  then obtain seg where seg: "seg \<in> set out" "ds_Number seg = 0" "ds_payload seg = Some [7, 8]" by blast
  define s2 where "s2 = s1\<lparr>ns_sender := w2, ns_wire := set out\<rparr>"
  have st2: "net_step s1 s2" using net_step.flush [of 9 StateActive default_Config example_rt s1 100 w2 out upd] f
    by (simp add: s_def s1_def s2_def)
  define r1 where "r1 = ReceivingWorker_ProcessSegment r0 (seg\<lparr>ds_timeout := 0, ds_transmit := 0\<rparr>)"
  define s3 where "s3 = s2\<lparr>ns_receiver := r1\<rparr>"
  have st3: "net_step s2 s3" using net_step.arrive [of seg s2] seg(1) by (simp add: s3_def s2_def s1_def s_def r1_def)
  obtain r2 where rd: "ReceivingWorker_Read r1 16 = (r2, [7, 8])"
    by (simp add: r1_def r0_def NewReceivingWorker_def cfg ReceivingWorker_ProcessSegment_def ReceivingWindow_Set_def
        NewReceivingWindow_def Let_def seg ReceivingWorker_Read_def ReceivingWorker_ReadMultiBuffer_def drain_hit
        drain_miss payloads_IsEmpty_def payload_bytes_def)
  define t where "t = s3\<lparr>ns_receiver := r2, ns_delivered := [7, 8]\<rparr>"
  have st4: "net_step s3 t" using net_step.read [of s3 16 r2 "[7, 8]"] rd by (simp add: t_def s3_def s2_def s1_def s_def)
  have "net_step\<^sup>*\<^sup>* s t"
    using st1 st2 st3 st4 by (blast intro: converse_rtranclp_into_rtranclp)
  moreover have "ns_delivered t = [7, 8]" by (simp add: t_def)
  ultimately show ?thesis using kcp_delivers_prefix [OF init] init by blast
qed

end
