(* ===== verification/Kcp_Output.thy ===== *)
theory Kcp_Output
  imports Kcp_Segment Buf
begin

text \<open>
  \<^verbatim>\<open>transport/internet/kcp/output.go\<close> and \<^verbatim>\<open>common/retry/retry.go\<close>: the segment writer over a
  packet writer, and its retrying wrapper.

  The packet writer is an argument: \<open>pw\<close> takes its state and a packet and returns the new
  state and the error message, if any. \<open>None\<close> of a write is a panic.
\<close>

section \<open>SimpleSegmentWriter\<close>

record SimpleSegmentWriter =
  sg_buffer :: Buffer
  sg_closed :: bool

definition io_ErrClosedPipe :: string where
  "io_ErrClosedPipe = ''io: read/write on closed pipe''"

definition NewSegmentWriter :: "bytes \<Rightarrow> SimpleSegmentWriter" where
  "NewSegmentWriter p = \<lparr>sg_buffer = Buffer_New p, sg_closed = False\<rparr>"

definition SimpleSegmentWriter_Write ::
  "('w \<Rightarrow> bytes \<Rightarrow> 'w \<times> string option) \<Rightarrow> Segment \<Rightarrow> SimpleSegmentWriter \<times> 'w \<Rightarrow>
   ((SimpleSegmentWriter \<times> 'w) \<times> string option) option" where
  "SimpleSegmentWriter_Write pw seg = (\<lambda>(w, under).
     if sg_closed w then Some ((w, under), Some io_ErrClosedPipe)
     else do {
       let b = Buffer_Clear (sg_buffer w);
       (b, rawBytes) \<leftarrow> Buffer_Extend b (Segment_ByteSize seg);
       src \<leftarrow> Segment_Serialize seg;
       let b = Buffer_fill b rawBytes src;
       packet \<leftarrow> Buffer_Bytes b;
       let (under, err) = pw under packet;
       Some ((w\<lparr>sg_buffer := b\<rparr>, under), err)
     })"

definition SimpleSegmentWriter_Release :: "SimpleSegmentWriter \<Rightarrow> SimpleSegmentWriter" where
  "SimpleSegmentWriter_Release w =
     w\<lparr>sg_buffer := the (fst (Buffer_Release (Some (sg_buffer w)))), sg_closed := True\<rparr>"

section \<open>Retrying\<close>

text \<open>\<^verbatim>\<open>retryer.On\<close>. The method works on a state \<open>st\<close> and may panic; \<open>nextDelay\<close> is the closure over
  its own state \<open>d\<close>. The result carries the delays slept and, on failure, the accumulated
  error messages, a message that repeats its predecessor left out.\<close>

fun retryer_On ::
  "('d \<Rightarrow> u32 \<times> 'd) \<Rightarrow> ('s \<Rightarrow> ('s \<times> string option) option) \<Rightarrow> nat \<Rightarrow> string list \<Rightarrow> 'd \<Rightarrow> 's \<Rightarrow>
   ('s \<times> u32 list \<times> string list option) option" where
  "retryer_On nextDelay method 0 accumulatedError d st = Some (st, [], Some accumulatedError)"
| "retryer_On nextDelay method (Suc left) accumulatedError d st =
     (case method st of
        None \<Rightarrow> None
      | Some (st, None) \<Rightarrow> Some (st, [], None)
      | Some (st, Some err) \<Rightarrow>
          let accumulatedError =
                (if accumulatedError = [] \<or> err \<noteq> last accumulatedError then accumulatedError @ [err]
                 else accumulatedError);
              (delay, d) = nextDelay d
          in map_option (\<lambda>(st, slept, r). (st, delay # slept, r))
               (retryer_On nextDelay method left accumulatedError d st))"

definition Timed_On :: "nat \<Rightarrow> u32 \<Rightarrow> ('s \<Rightarrow> ('s \<times> string option) option) \<Rightarrow> 's \<Rightarrow>
    ('s \<times> u32 list \<times> string list option) option" where
  "Timed_On attempts delay method st = retryer_On (\<lambda>d. (delay, d)) method attempts [] () st"

definition ExponentialBackoff_On :: "nat \<Rightarrow> u32 \<Rightarrow> ('s \<Rightarrow> ('s \<times> string option) option) \<Rightarrow> 's \<Rightarrow>
    ('s \<times> u32 list \<times> string list option) option" where
  "ExponentialBackoff_On attempts delay method st =
     retryer_On (\<lambda>nextDelay. (nextDelay, nextDelay + delay)) method attempts [] 0 st"

definition RetryableWriter_Write ::
  "('w \<Rightarrow> bytes \<Rightarrow> 'w \<times> string option) \<Rightarrow> Segment \<Rightarrow> SimpleSegmentWriter \<times> 'w \<Rightarrow>
   ((SimpleSegmentWriter \<times> 'w) \<times> u32 list \<times> string list option) option" where
  "RetryableWriter_Write pw seg st = Timed_On 5 100 (SimpleSegmentWriter_Write pw seg) st"

section \<open>Properties\<close>

text \<open>A writer that owns a buffer of the pool's size.\<close>

definition sg_ok :: "SimpleSegmentWriter \<Rightarrow> bool" where
  "sg_ok w \<longleftrightarrow> wf_Buffer (sg_buffer w) \<and> length (buf_v (sg_buffer w)) = 2048"

lemma SimpleSegmentWriter_Write_packet:
  assumes ok: "sg_ok w" "\<not> sg_closed w" and seg: "sendable seg" "Segment_ByteSize seg \<le> 2048"
    and ser: "Segment_Serialize seg = Some bs"
  obtains w' where "SimpleSegmentWriter_Write pw seg (w, u) = Some ((w', fst (pw u bs)), snd (pw u bs))"
    "sg_ok w'" "\<not> sg_closed w'"
proof -
  let ?b = "Buffer_Clear (sg_buffer w)"
  have len: "int (length bs) = Segment_ByteSize seg" by (rule Serialize_length [OF seg(1) ser])
  have b: "wf_Buffer ?b" "content ?b = []" "room ?b = 2048"
    using ok by (simp_all add: sg_ok_def room_def Buffer_Clear_def wf_Buffer_def content_def)
  have ext: "Buffer_Extend ?b (int (length bs)) = Some (?b\<lparr>buf_end := int (length bs)\<rparr>, 0, int (length bs))"
    using b len seg(2) by (subst Buffer_Extend_iff) (auto simp: Buffer_Clear_def)
  let ?f = "Buffer_fill (?b\<lparr>buf_end := int (length bs)\<rparr>) (0, int (length bs)) bs"
  have f: "wf_Buffer ?f" "content ?f = bs"
    using Buffer_Extend_fill_content [OF b(1) _ ext] b(2) len seg(2) by simp_all
  have v: "length (buf_v ?f) = 2048"
    using ok len seg(2) by (simp add: Buffer_fill_def Buffer_Clear_def sg_ok_def)
  show ?thesis
    using that [of "w\<lparr>sg_buffer := ?f\<rparr>"] ok f v len ext ser
    by (simp add: SimpleSegmentWriter_Write_def Let_def sg_ok_def Buffer_Bytes_content split_beta)
qed

text \<open>A segment handed to an open segment writer reaches the packet writer as one packet,
  which a peer reads back as that segment with nothing left over; the error of the packet
  writer is the result, and the writer stays usable.\<close>

theorem SegmentWriter_roundtrip:
  assumes ok: "sg_ok w" "\<not> sg_closed w" and seg: "sendable seg" "Segment_ByteSize seg \<le> 2048"
  shows "\<exists>packet w'. ReadSegment packet = Some (Some (on_wire seg), []) \<and> sg_ok w' \<and> \<not> sg_closed w' \<and>
     SimpleSegmentWriter_Write pw seg (w, u) = Some ((w', fst (pw u packet)), snd (pw u packet))"
proof -
  from sendable_reads_back [OF seg(1), of "[]"] obtain bs where
    bs: "Segment_Serialize seg = Some bs" "ReadSegment bs = Some (Some (on_wire seg), [])" by auto
  from SimpleSegmentWriter_Write_packet [OF ok seg bs(1), of pw u] bs(2) show ?thesis by metis
qed

theorem SegmentWriter_roundtrip_witness:
  "\<exists>packet w'. ReadSegment packet = Some (Some (Ack example_ack), []) \<and> sg_ok w' \<and>
     SimpleSegmentWriter_Write (\<lambda>log p. (log @ [p], None)) (Ack example_ack) (NewSegmentWriter (replicate 2048 9), []) =
       Some ((w', [packet]), None)"
  using SegmentWriter_roundtrip [of "NewSegmentWriter (replicate 2048 9)" "Ack example_ack" "\<lambda>log p. (log @ [p], None)" "[]"]
  by (auto simp: sg_ok_def NewSegmentWriter_def example_ack_def NewAckSegment_def AckSegment_ByteSize_def i32_def
      Buffer_New_def wf_Buffer_def)

text \<open>The states and results of successive calls of a method that does not panic.\<close>

fun attempt :: "('s \<Rightarrow> 's \<times> string option) \<Rightarrow> nat \<Rightarrow> 's \<Rightarrow> 's \<times> string option" where
  "attempt m 0 st = m st"
| "attempt m (Suc i) st = attempt m i (fst (m st))"

lemma retryer_On_spec:
  fixes m :: "'s \<Rightarrow> 's \<times> string option"
  shows
  "(\<exists>i<n. snd (attempt m i st) = None \<and> (\<forall>j<i. snd (attempt m j st) \<noteq> None) \<and>
      (\<exists>slept. length slept = i \<and> retryer_On nd (\<lambda>s. Some (m s)) n acc d st = Some (fst (attempt m i st), slept, None))) \<or>
   (\<forall>i<n. snd (attempt m i st) \<noteq> None) \<and>
      (\<exists>st' slept errs. length slept = n \<and> retryer_On nd (\<lambda>s. Some (m s)) n acc d st = Some (st', slept, Some errs))"
proof (induction n arbitrary: acc d st)
  case 0
  then show ?case by simp
next
  case (Suc n)
  obtain st1 r where m: "m st = (st1, r)" by fastforce
  show ?case
  proof (cases r)
    case None
    then show ?thesis using m by (intro disjI1 exI [of _ 0]) simp
  next
    case (Some err)
    define acc' where "acc' = (if acc = [] \<or> err \<noteq> last acc then acc @ [err] else acc)"
    obtain dl d' where nd: "nd d = (dl, d')" by fastforce
    have eq: "retryer_On nd (\<lambda>s. Some (m s)) (Suc n) acc d st =
        map_option (\<lambda>(st, slept, r). (st, dl # slept, r)) (retryer_On nd (\<lambda>s. Some (m s)) n acc' d' st1)"
      using m Some nd by (simp add: Let_def acc'_def)
    from Suc.IH [of st1 acc' d'] show ?thesis
    proof (elim disjE exE conjE)
      fix i slept
      assume i: "i < n" "snd (attempt m i st1) = None" "\<forall>j<i. snd (attempt m j st1) \<noteq> None" "length slept = i"
        "retryer_On nd (\<lambda>s. Some (m s)) n acc' d' st1 = Some (fst (attempt m i st1), slept, None)"
      have "snd (attempt m j st) \<noteq> None" if "j < Suc i" for j
        using that i(3) m Some by (cases j) auto
      with i eq m show ?thesis by (intro disjI1 exI [of _ "Suc i"]) (auto intro!: exI [of _ "dl # slept"])
    next
      fix st' slept errs
      assume f: "\<forall>i<n. snd (attempt m i st1) \<noteq> None" "length slept = n"
        "retryer_On nd (\<lambda>s. Some (m s)) n acc' d' st1 = Some (st', slept, Some errs)"
      have "snd (attempt m j st) \<noteq> None" if "j < Suc n" for j
        using that f(1) m Some by (cases j) auto
      with f eq show ?thesis by (intro disjI2) auto
    qed
  qed
qed

text \<open>The fixed-interval retry strategy stops at the first attempt that succeeds, after as many pauses
  as there were failures, and gives up, reporting the errors, exactly when all
  attempts fail. (The segment writer retries five times, 100 ms apart.)\<close>

theorem RetryableWriter_stops_at_first_success:
  fixes m :: "'s \<Rightarrow> 's \<times> string option"
  shows
  "(\<exists>i<n. snd (attempt m i st) = None \<and> (\<forall>j<i. snd (attempt m j st) \<noteq> None) \<and>
      (\<exists>slept. length slept = i \<and> Timed_On n delay (\<lambda>s. Some (m s)) st = Some (fst (attempt m i st), slept, None))) \<or>
   (\<forall>i<n. snd (attempt m i st) \<noteq> None) \<and>
      (\<exists>st' slept errs. length slept = n \<and> Timed_On n delay (\<lambda>s. Some (m s)) st = Some (st', slept, Some errs))"
  unfolding Timed_On_def by (rule retryer_On_spec)

definition flaky :: "nat \<Rightarrow> nat \<times> string option" where
  "flaky k = (if k = 0 then (0, None) else (k - 1, Some ''busy''))"

theorem RetryableWriter_stops_at_first_success_witness:
  "\<exists>slept. length slept = 2 \<and> Timed_On 5 100 (\<lambda>s. Some (flaky s)) 2 = Some (0, slept, None)"
proof -
  have a: "snd (attempt flaky 0 2) \<noteq> None" "snd (attempt flaky 1 2) \<noteq> None" "attempt flaky 2 2 = (0, None)"
    by (simp_all add: flaky_def numeral_2_eq_2)
  then have "i = 2" if "snd (attempt flaky i 2) = None" "\<forall>j<i. snd (attempt flaky j 2) \<noteq> None" for i
    using that by (metis One_nat_def less_2_cases linorder_neqE_nat snd_conv)
  moreover have "\<not> (\<forall>i<5. snd (attempt flaky i 2) \<noteq> None)" using a(3) by (auto intro!: exI [of _ 2])
  ultimately show ?thesis
    using RetryableWriter_stops_at_first_success [of 5 flaky 2 100] a(3) by fastforce
qed

end
