(* ===== verification/Signal.thy ===== *)
theory Signal
  imports Prelude
begin

text \<open>
  \<^verbatim>\<open>common/signal\<close>: the one-slot notifier, the semaphore and the done flag the transports
  are built on. A buffered channel of empty structs is the number of elements in it; a
  receive from an empty channel, or a send to a full one, blocks, which is \<open>None\<close>.
\<close>

section \<open>Notifier\<close>

record Notifier =
  nt_c :: bool

definition NewNotifier :: Notifier where
  "NewNotifier = \<lparr>nt_c = False\<rparr>"

definition Notifier_Signal :: "Notifier \<Rightarrow> Notifier" where
  "Notifier_Signal n = (if \<not> nt_c n then n\<lparr>nt_c := True\<rparr> else n)"

text \<open>Receiving from the channel \<^verbatim>\<open>Wait\<close> returns.\<close>

definition Notifier_Wait :: "Notifier \<Rightarrow> Notifier option" where
  "Notifier_Wait n = (if nt_c n then Some (n\<lparr>nt_c := False\<rparr>) else None)"

lemma Notifier_Signal_c [simp]: "nt_c (Notifier_Signal n)"
  by (simp add: Notifier_Signal_def)

lemma NewNotifier_c [simp]: "\<not> nt_c NewNotifier"
  by (simp add: NewNotifier_def)

lemma Notifier_Wait_Some [simp]: "Notifier_Wait n = Some n' \<longleftrightarrow> nt_c n \<and> n' = n\<lparr>nt_c := False\<rparr>"
  by (auto simp: Notifier_Wait_def)

section \<open>Semaphore\<close>

record Semaphore =
  sm_cap :: nat
  sm_token :: nat

definition Semaphore_New :: "nat \<Rightarrow> Semaphore" where
  "Semaphore_New n = \<lparr>sm_cap = n, sm_token = n\<rparr>"

definition Semaphore_Wait :: "Semaphore \<Rightarrow> Semaphore option" where
  "Semaphore_Wait s = (if sm_token s > 0 then Some (s\<lparr>sm_token := sm_token s - 1\<rparr>) else None)"

definition Semaphore_Signal :: "Semaphore \<Rightarrow> Semaphore option" where
  "Semaphore_Signal s = (if sm_token s < sm_cap s then Some (s\<lparr>sm_token := sm_token s + 1\<rparr>) else None)"

lemma Semaphore_Wait_Some [simp]:
  "Semaphore_Wait s = Some s' \<longleftrightarrow> sm_token s > 0 \<and> s' = s\<lparr>sm_token := sm_token s - 1\<rparr>"
  by (auto simp: Semaphore_Wait_def)

section \<open>Done\<close>

record Done =
  dn_closed :: bool

definition Done_New :: Done where
  "Done_New = \<lparr>dn_closed = False\<rparr>"

definition Done_Close :: "Done \<Rightarrow> Done" where
  "Done_Close d = (if dn_closed d then d else d\<lparr>dn_closed := True\<rparr>)"

text \<open>\<^verbatim>\<open>Done\<close>: whether a receive from the channel would go through.\<close>

definition Done_Done :: "Done \<Rightarrow> bool" where
  "Done_Done d = dn_closed d"

lemma Done_simps [simp]: "dn_closed (Done_Close d)" "\<not> dn_closed Done_New"
  by (simp_all add: Done_Close_def Done_New_def)

end
