(* ===== verification/Kcp_Connection.thy ===== *)
theory Kcp_Connection
  imports Kcp_Sending Kcp_Receiving Signal Transition
begin

text \<open>
  \<^verbatim>\<open>transport/internet/kcp/connection.go\<close>: the updaters and the connection, composed of the
  sending and the receiving worker.

  A handler runs as one step. The clock is an argument: \<open>clock i\<close> is the \<open>i\<close>-th reading of
  \<^verbatim>\<open>nowMillisec\<close>, and the connection counts its readings, so two readings within one
  handler may differ. The segments handed to the output are logged in order until the
  output is released. Goroutines started with \<^verbatim>\<open>go\<close> (the updaters' loops and
  \<^verbatim>\<open>Terminate\<close>) are kept as pending work and run as steps of their own.
\<close>

section \<open>Updater\<close>

text \<open>A goroutine in \<^verbatim>\<open>Updater.run\<close>: started, or waiting for its ticker of the given period.\<close>

datatype runner = Started | Ticking int

record Updater =
  up_interval :: int
  up_notifier :: Semaphore
  up_runs :: "runner list"

text \<open>Durations are in milliseconds.\<close>

definition NewUpdater :: "u32 \<Rightarrow> Updater" where
  "NewUpdater interval = \<lparr>up_interval = uint interval, up_notifier = Semaphore_New 1, up_runs = []\<rparr>"

definition Updater_WakeUp :: "Updater \<Rightarrow> Updater" where
  "Updater_WakeUp u =
     (case Semaphore_Wait (up_notifier u) of
        Some s \<Rightarrow> u\<lparr>up_notifier := s, up_runs := up_runs u @ [Started]\<rparr>
      | None \<Rightarrow> u)"

definition Updater_Interval :: "Updater \<Rightarrow> int" where
  "Updater_Interval u = up_interval u"

definition Updater_SetInterval :: "Updater \<Rightarrow> int \<Rightarrow> Updater" where
  "Updater_SetInterval u d = u\<lparr>up_interval := d\<rparr>"

section \<open>Connection\<close>

record Connection =
  c_Conversation :: u16
  c_Config :: Config
  c_rd :: "int option"
  c_wd :: "int option"
  c_since :: int
  c_dataInput :: Notifier
  c_dataOutput :: Notifier
  c_state :: State
  c_stateBeginTime :: u32
  c_lastIncomingTime :: u32
  c_lastPingTime :: u32
  c_mss :: u32
  c_roundTrip :: RoundTripInfo
  c_receivingWorker :: ReceivingWorker
  c_sendingWorker :: SendingWorker
  c_output :: "Segment list"
  c_outputClosed :: bool
  c_dataUpdater :: Updater
  c_pingUpdater :: Updater
  c_readings :: nat
  c_terminates :: nat
  c_closerClosed :: bool

text \<open>\<^verbatim>\<open>NewConnection\<close>; \<open>overhead\<close> is the packet writer's. \<open>None\<close>: a division by zero in a size.\<close>

definition NewConnection :: "(nat \<Rightarrow> int) \<Rightarrow> u16 \<Rightarrow> int \<Rightarrow> Config \<Rightarrow> Connection option" where
  "NewConnection clock conversation overhead config =
     do {
       receivingWorker \<leftarrow> NewReceivingWorker config;
       sendingWorker \<leftarrow> NewSendingWorker config;
       Some \<lparr>c_Conversation = conversation, c_Config = config, c_rd = None, c_wd = None, c_since = clock 0,
             c_dataInput = NewNotifier, c_dataOutput = NewNotifier,
             c_state = StateActive, c_stateBeginTime = 0, c_lastIncomingTime = 0, c_lastPingTime = 0,
             c_mss = GetMTUValue (Some config) - word_of_int overhead - DataSegmentOverhead,
             c_roundTrip = \<lparr>rt_variation = 0, rt_srtt = 0, rt_rto = 100, rt_minRtt = GetTTIValue (Some config),
                            rt_updatedTimestamp = 0\<rparr>,
             c_receivingWorker = receivingWorker, c_sendingWorker = sendingWorker,
             c_output = [], c_outputClosed = False,
             c_dataUpdater = NewUpdater (GetTTIValue (Some config)),
             c_pingUpdater = Updater_WakeUp (NewUpdater 5000),
             c_readings = 1, c_terminates = 0, c_closerClosed = False\<rparr>
     }"

definition Connection_Elapsed :: "(nat \<Rightarrow> int) \<Rightarrow> Connection \<Rightarrow> u32 \<times> Connection" where
  "Connection_Elapsed clock c =
     (word_of_int (clock (c_readings c) - c_since c), c\<lparr>c_readings := Suc (c_readings c)\<rparr>)"

text \<open>\<^verbatim>\<open>isTerminating\<close> and \<^verbatim>\<open>isTerminated\<close>, and the conditions of the two updaters.\<close>

definition isTerminating :: "Connection \<Rightarrow> bool" where
  "isTerminating c = State_Is (c_state c) [StateTerminating, StateTerminated]"

definition isTerminated :: "Connection \<Rightarrow> bool" where
  "isTerminated c \<longleftrightarrow> c_state c = StateTerminated"

definition data_shouldContinue :: "Connection \<Rightarrow> bool" where
  "data_shouldContinue c \<longleftrightarrow> \<not> isTerminating c \<and>
     (SendingWorker_UpdateNecessary (c_sendingWorker c) \<or> ReceivingWorker_UpdateNecessary (c_receivingWorker c))"

definition output_Write :: "Connection \<Rightarrow> Segment list \<Rightarrow> Connection" where
  "output_Write c segs = (if c_outputClosed c then c else c\<lparr>c_output := c_output c @ segs\<rparr>)"

definition Connection_SetState :: "(nat \<Rightarrow> int) \<Rightarrow> Connection \<Rightarrow> State \<Rightarrow> Connection" where
  "Connection_SetState clock c state =
     (let (current, c) = Connection_Elapsed clock c;
          c = c\<lparr>c_state := state, c_stateBeginTime := current\<rparr>;
          close_read = (\<lambda>c. c\<lparr>c_receivingWorker := ReceivingWorker_CloseRead (c_receivingWorker c)\<rparr>);
          close_write = (\<lambda>c. c\<lparr>c_sendingWorker := SendingWorker_CloseWrite (c_sendingWorker c)\<rparr>);
          slow_ping = (\<lambda>c. c\<lparr>c_pingUpdater := Updater_SetInterval (c_pingUpdater c) 1000\<rparr>)
      in case state of
           StateActive \<Rightarrow> c
         | StateReadyToClose \<Rightarrow> close_read c
         | StatePeerClosed \<Rightarrow> close_write c
         | StateTerminating \<Rightarrow> slow_ping (close_write (close_read c))
         | StatePeerTerminating \<Rightarrow> slow_ping (close_write c)
         | StateTerminated \<Rightarrow>
             let c = slow_ping (close_write (close_read c));
                 c = c\<lparr>c_dataUpdater := Updater_WakeUp (c_dataUpdater c)\<rparr>;
                 c = c\<lparr>c_pingUpdater := Updater_WakeUp (c_pingUpdater c)\<rparr>
             in c\<lparr>c_terminates := Suc (c_terminates c)\<rparr>)"

datatype kcp_error = ErrIOTimeout | ErrClosedConnection | ErrClosedPipe | ErrEOF

definition signal_both :: "Connection \<Rightarrow> Connection" where
  "signal_both c =
     c\<lparr>c_dataInput := Notifier_Signal (c_dataInput c), c_dataOutput := Notifier_Signal (c_dataOutput c)\<rparr>"

definition Connection_Close :: "(nat \<Rightarrow> int) \<Rightarrow> Connection \<Rightarrow> Connection \<times> kcp_error option" where
  "Connection_Close clock c =
     (let c = signal_both c in
      case c_state c of
        StateReadyToClose \<Rightarrow> (c, Some ErrClosedConnection)
      | StateTerminating \<Rightarrow> (c, Some ErrClosedConnection)
      | StateTerminated \<Rightarrow> (c, Some ErrClosedConnection)
      | StateActive \<Rightarrow> (Connection_SetState clock c StateReadyToClose, None)
      | StatePeerClosed \<Rightarrow> (Connection_SetState clock c StateTerminating, None)
      | StatePeerTerminating \<Rightarrow> (Connection_SetState clock c StateTerminated, None))"

definition Connection_SetReadDeadline :: "Connection \<Rightarrow> int option \<Rightarrow> Connection \<times> kcp_error option" where
  "Connection_SetReadDeadline c t =
     (if c_state c \<noteq> StateActive then (c, Some ErrClosedConnection) else (c\<lparr>c_rd := t\<rparr>, None))"

definition Connection_SetWriteDeadline :: "Connection \<Rightarrow> int option \<Rightarrow> Connection \<times> kcp_error option" where
  "Connection_SetWriteDeadline c t =
     (if c_state c \<noteq> StateActive then (c, Some ErrClosedConnection) else (c\<lparr>c_wd := t\<rparr>, None))"

definition Connection_SetDeadline :: "Connection \<Rightarrow> int option \<Rightarrow> Connection \<times> kcp_error option" where
  "Connection_SetDeadline c t =
     (let (c, err) = Connection_SetReadDeadline c t in
      if err \<noteq> None then (c, err) else Connection_SetWriteDeadline c t)"

text \<open>The goroutine \<^verbatim>\<open>Terminate\<close>.\<close>

definition Connection_Terminate :: "Connection \<Rightarrow> Connection" where
  "Connection_Terminate c =
     (let c = signal_both c in
      c\<lparr>c_closerClosed := True,
        c_sendingWorker := SendingWorker_Release (c_sendingWorker c),
        c_receivingWorker := ReceivingWorker_Release (c_receivingWorker c),
        c_outputClosed := True\<rparr>)"

definition Connection_OnPeerClosed :: "(nat \<Rightarrow> int) \<Rightarrow> Connection \<Rightarrow> Connection" where
  "Connection_OnPeerClosed clock c =
     (case c_state c of
        StateReadyToClose \<Rightarrow> Connection_SetState clock c StateTerminating
      | StateActive \<Rightarrow> Connection_SetState clock c StatePeerClosed
      | _ \<Rightarrow> c)"

definition Connection_HandleOption :: "(nat \<Rightarrow> int) \<Rightarrow> Connection \<Rightarrow> SegmentOption \<Rightarrow> Connection" where
  "Connection_HandleOption clock c opt =
     (if opt AND SegmentOptionClose = SegmentOptionClose then Connection_OnPeerClosed clock c else c)"

definition wake_data :: "Connection \<Rightarrow> Connection" where
  "wake_data c = c\<lparr>c_dataUpdater := Updater_WakeUp (c_dataUpdater c)\<rparr>"

section \<open>Incoming segments\<close>

text \<open>The body of the loop of \<^verbatim>\<open>Input\<close>, one definition per kind of segment.\<close>

definition Input_data :: "(nat \<Rightarrow> int) \<Rightarrow> DataSegment \<Rightarrow> Connection \<Rightarrow> Connection" where
  "Input_data clock seg c =
     (let c = Connection_HandleOption clock c (ds_Option seg);
          c = c\<lparr>c_receivingWorker := ReceivingWorker_ProcessSegment (c_receivingWorker c) seg\<rparr>;
          c = (if ReceivingWorker_IsDataAvailable (c_receivingWorker c)
               then c\<lparr>c_dataInput := Notifier_Signal (c_dataInput c)\<rparr> else c)
      in wake_data c)"

definition Input_ack :: "(nat \<Rightarrow> int) \<Rightarrow> u32 \<Rightarrow> AckSegment \<Rightarrow> Connection \<Rightarrow> Connection" where
  "Input_ack clock current seg c =
     (let c = Connection_HandleOption clock c (as_Option seg);
          (sendingWorker, roundTrip) = SendingWorker_ProcessSegment (c_sendingWorker c) (c_roundTrip c) current seg
             (RoundTripInfo_Timeout (c_roundTrip c));
          c = c\<lparr>c_sendingWorker := sendingWorker, c_roundTrip := roundTrip\<rparr>;
          c = c\<lparr>c_dataOutput := Notifier_Signal (c_dataOutput c)\<rparr>
      in wake_data c)"

definition terminate_command :: "(nat \<Rightarrow> int) \<Rightarrow> Connection \<Rightarrow> Connection" where
  "terminate_command clock c =
     (case c_state c of
        StateActive \<Rightarrow> Connection_SetState clock c StatePeerTerminating
      | StatePeerClosed \<Rightarrow> Connection_SetState clock c StatePeerTerminating
      | StateReadyToClose \<Rightarrow> Connection_SetState clock c StateTerminating
      | StateTerminating \<Rightarrow> Connection_SetState clock c StateTerminated
      | _ \<Rightarrow> c)"

definition Input_cmd :: "(nat \<Rightarrow> int) \<Rightarrow> u32 \<Rightarrow> CmdOnlySegment \<Rightarrow> Connection \<Rightarrow> Connection" where
  "Input_cmd clock current seg c =
     (let c = Connection_HandleOption clock c (cs_Option seg);
          c = (if cs_Cmd seg = CommandTerminate then terminate_command clock c else c);
          c = (if cs_Option seg = SegmentOptionClose \<or> cs_Cmd seg = CommandTerminate then signal_both c else c)
      in c\<lparr>c_sendingWorker := SendingWorker_ProcessReceivingNext (c_sendingWorker c) (cs_ReceivingNext seg),
           c_receivingWorker := ReceivingWorker_ProcessSendingNext (c_receivingWorker c) (cs_SendingNext seg),
           c_roundTrip := RoundTripInfo_UpdatePeerRTO (c_roundTrip c) (cs_PeerRTO seg) current\<rparr>)"

fun Input_segment :: "(nat \<Rightarrow> int) \<Rightarrow> u32 \<Rightarrow> Segment \<Rightarrow> Connection \<Rightarrow> Connection" where
  "Input_segment clock current (Data seg) c = Input_data clock seg c"
| "Input_segment clock current (Ack seg) c = Input_ack clock current seg c"
| "Input_segment clock current (CmdOnly seg) c = Input_cmd clock current seg c"

fun Input_loop :: "(nat \<Rightarrow> int) \<Rightarrow> u32 \<Rightarrow> Segment list \<Rightarrow> Connection \<Rightarrow> Connection" where
  "Input_loop clock current [] c = c"
| "Input_loop clock current (seg # segments) c =
     (if Segment_Conversation seg \<noteq> c_Conversation c then c
      else Input_loop clock current segments (Input_segment clock current seg c))"

definition Connection_Input :: "(nat \<Rightarrow> int) \<Rightarrow> Connection \<Rightarrow> Segment list \<Rightarrow> Connection" where
  "Connection_Input clock c segments =
     (let (current, c) = Connection_Elapsed clock c;
          c = c\<lparr>c_lastIncomingTime := current\<rparr>
      in Input_loop clock current segments c)"

section \<open>Flushing\<close>

definition Connection_Ping :: "Connection \<Rightarrow> u32 \<Rightarrow> Command \<Rightarrow> Connection" where
  "Connection_Ping c current cmd =
     (let seg = NewCmdOnlySegment\<lparr>cs_Conv := c_Conversation c, cs_Cmd := cmd,
                  cs_ReceivingNext := ReceivingWorker_NextNumber (c_receivingWorker c),
                  cs_SendingNext := SendingWorker_FirstUnacknowledged (c_sendingWorker c),
                  cs_PeerRTO := RoundTripInfo_Timeout (c_roundTrip c)\<rparr>;
          seg = (if c_state c = StateReadyToClose then seg\<lparr>cs_Option := SegmentOptionClose\<rparr> else seg);
          c = output_Write c [CmdOnly seg]
      in c\<lparr>c_lastPingTime := current\<rparr>)"

text \<open>The flush of each worker with what it writes to the output, and the end of \<^verbatim>\<open>flush\<close>.\<close>

definition flush_receiving :: "Connection \<Rightarrow> u32 \<Rightarrow> Connection" where
  "flush_receiving c current =
     (let (receivingWorker, acks) =
            ReceivingWorker_Flush (c_Conversation c) (c_state c) (c_roundTrip c) (c_receivingWorker c) current
      in output_Write (c\<lparr>c_receivingWorker := receivingWorker\<rparr>) (map Ack acks))"

definition flush_sending :: "Connection \<Rightarrow> u32 \<Rightarrow> Connection option" where
  "flush_sending c current =
     (case SendingWorker_Flush (c_Conversation c) (c_state c) (c_Config c) (c_roundTrip c) (c_sendingWorker c) current of
        None \<Rightarrow> None
      | Some (sendingWorker, segs, updated) \<Rightarrow>
          let c = output_Write (c\<lparr>c_sendingWorker := sendingWorker\<rparr>) (map Data segs)
          in Some (if updated then Connection_Ping c current CommandPing else c))"

definition flush_workers :: "Connection \<Rightarrow> u32 \<Rightarrow> Connection option" where
  "flush_workers c current =
     (case flush_sending (flush_receiving c current) current of
        None \<Rightarrow> None
      | Some c \<Rightarrow> Some (if current - c_lastPingTime c \<ge> 3000 then Connection_Ping c current CommandPing else c))"

text \<open>The conditions \<^verbatim>\<open>flush\<close> checks before and after its terminating branch.\<close>

definition flush_idle :: "(nat \<Rightarrow> int) \<Rightarrow> u32 \<Rightarrow> Connection \<Rightarrow> Connection" where
  "flush_idle clock current c =
     (let c = (if c_state c = StateActive \<and> current - c_lastIncomingTime c \<ge> 30000
               then fst (Connection_Close clock c) else c)
      in if c_state c = StateReadyToClose \<and> SendingWorker_IsEmpty (c_sendingWorker c)
         then Connection_SetState clock c StateTerminating else c)"

definition flush_expire :: "(nat \<Rightarrow> int) \<Rightarrow> u32 \<Rightarrow> Connection \<Rightarrow> Connection" where
  "flush_expire clock current c =
     (let c = (if c_state c = StatePeerTerminating \<and> current - c_stateBeginTime c > 4000
               then Connection_SetState clock c StateTerminating else c)
      in if c_state c = StateReadyToClose \<and> current - c_stateBeginTime c > 15000
         then Connection_SetState clock c StateTerminating else c)"

definition Connection_flush :: "(nat \<Rightarrow> int) \<Rightarrow> Connection \<Rightarrow> Connection option" where
  "Connection_flush clock c =
     (let (current, c) = Connection_Elapsed clock c in
      if c_state c = StateTerminated then Some c
      else
        let c = flush_idle clock current c in
        if c_state c = StateTerminating
        then let c = Connection_Ping c current CommandTerminate
             in Some (if current - c_stateBeginTime c > 8000
                      then Connection_SetState clock c StateTerminated else c)
        else flush_workers (flush_expire clock current c) current)"

definition Connection_updateTask :: "(nat \<Rightarrow> int) \<Rightarrow> Connection \<Rightarrow> Connection option" where
  "Connection_updateTask clock c = Connection_flush clock c"

section \<open>The updaters' goroutines\<close>

text \<open>Returning from \<^verbatim>\<open>run\<close>: the deferred \<^verbatim>\<open>Signal\<close> puts the permit back.\<close>

definition Updater_finish :: "Updater \<Rightarrow> nat \<Rightarrow> Updater option" where
  "Updater_finish u i =
     map_option (\<lambda>s. u\<lparr>up_notifier := s, up_runs := take i (up_runs u) @ drop (Suc i) (up_runs u)\<rparr>)
       (Semaphore_Signal (up_notifier u))"

definition dataUpdater_round :: "(nat \<Rightarrow> int) \<Rightarrow> int \<Rightarrow> nat \<Rightarrow> Connection \<Rightarrow> Connection option" where
  "dataUpdater_round clock period i c =
     (if data_shouldContinue c
      then map_option (\<lambda>c. c\<lparr>c_dataUpdater := (c_dataUpdater c)
             \<lparr>up_runs := (up_runs (c_dataUpdater c))[i := Ticking period]\<rparr>\<rparr>) (Connection_updateTask clock c)
      else map_option (\<lambda>u. c\<lparr>c_dataUpdater := u\<rparr>) (Updater_finish (c_dataUpdater c) i))"

text \<open>One turn of goroutine \<open>i\<close> of an updater: from its start, or from a tick, to its next wait
  or its end. The ticker keeps the period it was made with.\<close>

definition dataUpdater_run :: "(nat \<Rightarrow> int) \<Rightarrow> nat \<Rightarrow> Connection \<Rightarrow> Connection option" where
  "dataUpdater_run clock i c =
     (case up_runs (c_dataUpdater c) ! i of
        Started \<Rightarrow>
          if isTerminating c then map_option (\<lambda>u. c\<lparr>c_dataUpdater := u\<rparr>) (Updater_finish (c_dataUpdater c) i)
          else dataUpdater_round clock (Updater_Interval (c_dataUpdater c)) i c
      | Ticking period \<Rightarrow> dataUpdater_round clock period i c)"

definition pingUpdater_round :: "(nat \<Rightarrow> int) \<Rightarrow> int \<Rightarrow> nat \<Rightarrow> Connection \<Rightarrow> Connection option" where
  "pingUpdater_round clock period i c =
     (if \<not> isTerminated c
      then map_option (\<lambda>c. c\<lparr>c_pingUpdater := (c_pingUpdater c)
             \<lparr>up_runs := (up_runs (c_pingUpdater c))[i := Ticking period]\<rparr>\<rparr>) (Connection_updateTask clock c)
      else map_option (\<lambda>u. c\<lparr>c_pingUpdater := u\<rparr>) (Updater_finish (c_pingUpdater c) i))"

definition pingUpdater_run :: "(nat \<Rightarrow> int) \<Rightarrow> nat \<Rightarrow> Connection \<Rightarrow> Connection option" where
  "pingUpdater_run clock i c =
     (case up_runs (c_pingUpdater c) ! i of
        Started \<Rightarrow>
          if isTerminated c then map_option (\<lambda>u. c\<lparr>c_pingUpdater := u\<rparr>) (Updater_finish (c_pingUpdater c) i)
          else pingUpdater_round clock (Updater_Interval (c_pingUpdater c)) i c
      | Ticking period \<Rightarrow> pingUpdater_round clock period i c)"

section \<open>Reading and writing\<close>

text \<open>One round of the loop of a blocking read: an error, data, or \<open>None\<close> for going on to
  \<^verbatim>\<open>waitForDataInput\<close>.\<close>

definition Connection_ReadMultiBuffer :: "Connection \<Rightarrow> Connection \<times> (kcp_error + bytes option list) option" where
  "Connection_ReadMultiBuffer c =
     (if State_Is (c_state c) [StateReadyToClose, StateTerminating, StateTerminated] then (c, Some (Inl ErrEOF))
      else
        let (receivingWorker, mb) = ReceivingWorker_ReadMultiBuffer (c_receivingWorker c);
            c = c\<lparr>c_receivingWorker := receivingWorker\<rparr>
        in if \<not> payloads_IsEmpty mb then (wake_data c, Some (Inr mb))
           else if c_state c = StatePeerTerminating then (c, Some (Inl ErrEOF))
           else (c, None))"

definition Connection_Read :: "Connection \<Rightarrow> nat \<Rightarrow> Connection \<times> (kcp_error + bytes) option" where
  "Connection_Read c n =
     (if State_Is (c_state c) [StateReadyToClose, StateTerminating, StateTerminated] then (c, Some (Inl ErrEOF))
      else
        let (receivingWorker, data) = ReceivingWorker_Read (c_receivingWorker c) n;
            c = c\<lparr>c_receivingWorker := receivingWorker\<rparr>
        in if length data > 0 then (wake_data c, Some (Inr data)) else (c, None))"

text \<open>Waiting: \<open>now\<close> is the time when the deadline is compared, \<open>fired\<close> the time the timer
  goes off, if it does before a notification. \<open>None\<close>: still waiting.\<close>

definition waitForDataInput :: "Connection \<Rightarrow> int \<Rightarrow> int option \<Rightarrow> (Connection \<times> kcp_error option) option" where
  "waitForDataInput c now fired =
     (case Notifier_Wait (c_dataInput c) of
        Some n \<Rightarrow> Some (c\<lparr>c_dataInput := n\<rparr>, None)
      | None \<Rightarrow>
          (case c_rd c of
             Some rd \<Rightarrow>
               if rd - now < 0 then Some (c, Some ErrIOTimeout)
               else map_option (\<lambda>t. (c, if rd < t then Some ErrIOTimeout else None)) fired
           | None \<Rightarrow> map_option (\<lambda>t. (c, None)) fired))"

definition waitForDataOutput :: "Connection \<Rightarrow> int \<Rightarrow> int option \<Rightarrow> (Connection \<times> kcp_error option) option" where
  "waitForDataOutput c now fired =
     (case Notifier_Wait (c_dataOutput c) of
        Some n \<Rightarrow> Some (c\<lparr>c_dataOutput := n\<rparr>, None)
      | None \<Rightarrow>
          (case c_wd c of
             Some wd \<Rightarrow>
               if wd - now < 0 then Some (c, Some ErrIOTimeout)
               else map_option (\<lambda>t. (c, if wd < t then Some ErrIOTimeout else None)) fired
           | None \<Rightarrow> map_option (\<lambda>t. (c, None)) fired))"

text \<open>\<^verbatim>\<open>writeMultiBufferInternal\<close>. Both readers it is called with (a \<^verbatim>\<open>bytes.Reader\<close> and a
  \<^verbatim>\<open>MultiBufferContainer\<close>) return the next bytes up to the length asked for and EOF when
  none are left, so the reader is the bytes still to come; a 2K buffer filled through a
  \<^verbatim>\<open>LimitReader\<close> takes at most \<^verbatim>\<open>mss\<close> of them. The inner loop ends with an error, with the
  reader exhausted, or with a buffer \<^verbatim>\<open>Push\<close> refuses.\<close>

datatype write_end = WriteClosed | WriteDone | WriteFull bytes bytes

definition limited_read :: "u32 \<Rightarrow> bytes \<Rightarrow> (bytes \<times> bytes) option" where
  "limited_read mss rest =
     (let n = min 2048 (unat mss) in
      if n = 0 \<or> rest = [] then None else Some (take n rest, drop n rest))"

function write_inner :: "Connection \<Rightarrow> bytes option \<Rightarrow> bytes \<Rightarrow> bool \<Rightarrow> Connection \<times> write_end \<times> bool" where
  "write_inner c b rest updatePending =
     (if c_state c \<noteq> StateActive then (c, WriteClosed, updatePending)
      else case (case b of Some b \<Rightarrow> Some (b, rest) | None \<Rightarrow> limited_read (c_mss c) rest) of
        None \<Rightarrow> (c, WriteDone, updatePending)
      | Some (b, rest) \<Rightarrow>
          (case SendingWorker_Push (c_sendingWorker c) b of
             (w, False) \<Rightarrow> (c\<lparr>c_sendingWorker := w\<rparr>, WriteFull b rest, updatePending)
           | (w, True) \<Rightarrow> write_inner (c\<lparr>c_sendingWorker := w\<rparr>) None rest True))"
  by pat_completeness auto
termination
  by (relation "measure (\<lambda>(c, b, rest, p). 2 * length rest + (if b = None then 0 else 1))")
    (auto simp: limited_read_def Let_def split: option.splits if_splits)

declare write_inner.simps [simp del]

text \<open>One round of the outer loop: the result, or \<open>None\<close> with the buffer and the bytes to go on
  with after \<^verbatim>\<open>waitForDataOutput\<close>. The updater is woken when anything was pushed, be it
  before waiting or by the deferred call.\<close>

definition writeMultiBufferInternal ::
  "Connection \<Rightarrow> bytes option \<Rightarrow> bytes \<Rightarrow> Connection \<times> (kcp_error option + bytes \<times> bytes)" where
  "writeMultiBufferInternal c b rest =
     (let (c, r, updatePending) = write_inner c b rest False;
          c = (if updatePending then wake_data c else c)
      in (c, case r of WriteClosed \<Rightarrow> Inl (Some ErrClosedPipe) | WriteDone \<Rightarrow> Inl None
                     | WriteFull b rest \<Rightarrow> Inr (b, rest)))"

definition Connection_Write :: "Connection \<Rightarrow> bytes \<Rightarrow> Connection \<times> (kcp_error option + bytes \<times> bytes)" where
  "Connection_Write c b = writeMultiBufferInternal c None b"

definition Connection_WriteMultiBuffer ::
  "Connection \<Rightarrow> bytes option list \<Rightarrow> Connection \<times> (kcp_error option + bytes \<times> bytes)" where
  "Connection_WriteMultiBuffer c mb = writeMultiBufferInternal c None (concat (map payload_bytes mb))"

section \<open>Runs of a connection\<close>

text \<open>The steps the goroutines around a connection can take.\<close>

inductive conn_step :: "(nat \<Rightarrow> int) \<Rightarrow> Connection \<Rightarrow> Connection \<Rightarrow> bool" for clock where
  close: "conn_step clock c (fst (Connection_Close clock c))"
| input: "conn_step clock c (Connection_Input clock c segments)"
| read: "conn_step clock c (fst (Connection_Read c n))"
| read_multi: "conn_step clock c (fst (Connection_ReadMultiBuffer c))"
| write_multi: "conn_step clock c (fst (writeMultiBufferInternal c b rest))"
| wait_input: "waitForDataInput c now fired = Some (c', err) \<Longrightarrow> conn_step clock c c'"
| wait_output: "waitForDataOutput c now fired = Some (c', err) \<Longrightarrow> conn_step clock c c'"
| deadline: "conn_step clock c (fst (Connection_SetDeadline c t))"
| data_run: "i < length (up_runs (c_dataUpdater c)) \<Longrightarrow> dataUpdater_run clock i c = Some c' \<Longrightarrow> conn_step clock c c'"
| ping_run: "i < length (up_runs (c_pingUpdater c)) \<Longrightarrow> pingUpdater_run clock i c = Some c' \<Longrightarrow> conn_step clock c c'"
| terminate: "c_terminates c > 0 \<Longrightarrow>
    conn_step clock c (Connection_Terminate (c\<lparr>c_terminates := c_terminates c - 1\<rparr>))"

section \<open>How a connection may evolve\<close>

text \<open>The life cycle: the transitions \<^verbatim>\<open>SetState\<close> is called for.\<close>

inductive state_edge :: "State \<Rightarrow> State \<Rightarrow> bool" where
  "state_edge StateActive StateReadyToClose"
| "state_edge StateActive StatePeerClosed"
| "state_edge StateActive StatePeerTerminating"
| "state_edge StateReadyToClose StateTerminating"
| "state_edge StatePeerClosed StateTerminating"
| "state_edge StatePeerClosed StatePeerTerminating"
| "state_edge StatePeerTerminating StateTerminating"
| "state_edge StatePeerTerminating StateTerminated"
| "state_edge StateTerminating StateTerminated"

inductive_simps state_edge_from [simp]:
  "state_edge StateActive s" "state_edge StateReadyToClose s" "state_edge StatePeerClosed s"
  "state_edge StatePeerTerminating s" "state_edge StateTerminating s" "state_edge StateTerminated s"

fun state_rank :: "State \<Rightarrow> nat" where
  "state_rank StateActive = 0"
| "state_rank StateReadyToClose = 1"
| "state_rank StatePeerClosed = 1"
| "state_rank StatePeerTerminating = 2"
| "state_rank StateTerminating = 3"
| "state_rank StateTerminated = 4"

lemma state_edge_rank: "state_edge s t \<Longrightarrow> state_rank s < state_rank t"
  by (induction rule: state_edge.induct) simp_all

text \<open>An updater has one permit: either it is free or one goroutine runs with it.\<close>

definition upd_ok :: "Updater \<Rightarrow> bool" where
  "upd_ok u \<longleftrightarrow> sm_cap (up_notifier u) = 1 \<and> sm_token (up_notifier u) + length (up_runs u) = 1"

lemma upd_ok_WakeUp [simp]: "upd_ok u \<Longrightarrow> upd_ok (Updater_WakeUp u)"
  by (cases "up_runs u") (auto simp: upd_ok_def Updater_WakeUp_def Semaphore_Wait_def)

lemma upd_ok_SetInterval [simp]: "upd_ok (Updater_SetInterval u d) = upd_ok u"
  by (simp add: upd_ok_def Updater_SetInterval_def)

lemma up_runs_SetInterval [simp]: "up_runs (Updater_SetInterval u d) = up_runs u"
  by (simp add: Updater_SetInterval_def)

lemma upd_ok_New [simp]: "upd_ok (NewUpdater n)"
  by (simp add: upd_ok_def NewUpdater_def Semaphore_New_def)

lemma upd_ok_finish: "upd_ok u \<Longrightarrow> i < length (up_runs u) \<Longrightarrow> Updater_finish u i = Some u' \<Longrightarrow> upd_ok u'"
  by (auto simp: upd_ok_def Updater_finish_def Semaphore_Signal_def split: if_splits)

lemma upd_ok_Ticking [simp]: "upd_ok (u\<lparr>up_runs := (up_runs u)[i := r]\<rparr>) = upd_ok u"
  by (simp add: upd_ok_def)

lemma Updater_finish_possible:
  "upd_ok u \<Longrightarrow> i < length (up_runs u) \<Longrightarrow> \<exists>u'. Updater_finish u i = Some u'"
  by (auto simp: upd_ok_def Updater_finish_def Semaphore_Signal_def)

text \<open>What every handler keeps, as a preorder, so that the pieces of a handler compose.\<close>

definition closed_down :: "Connection \<Rightarrow> bool" where
  "closed_down c \<longleftrightarrow> c_closerClosed c \<and> c_outputClosed c"

definition evolves :: "Connection \<Rightarrow> Connection \<Rightarrow> bool" where
  "evolves c c' \<longleftrightarrow>
     state_edge\<^sup>*\<^sup>* (c_state c) (c_state c') \<and> rwk_step\<^sup>*\<^sup>* (c_receivingWorker c) (c_receivingWorker c') \<and>
     c_Conversation c' = c_Conversation c \<and> c_Config c' = c_Config c \<and> c_mss c' = c_mss c \<and>
     (upd_ok (c_dataUpdater c) \<longrightarrow> upd_ok (c_dataUpdater c')) \<and>
     (upd_ok (c_pingUpdater c) \<longrightarrow> upd_ok (c_pingUpdater c')) \<and>
     (c_state c' \<noteq> StateTerminated \<longrightarrow> up_runs (c_pingUpdater c') = up_runs (c_pingUpdater c)) \<and>
     c_terminates c \<le> c_terminates c' \<and> (closed_down c \<longrightarrow> closed_down c') \<and>
     (c_state c \<noteq> StateTerminated \<and> c_state c' = StateTerminated \<longrightarrow> c_terminates c' > 0)"

named_theorems evolving \<open>the pieces of the handlers, as evolutions\<close>

lemma state_edge_Terminated: "state_edge\<^sup>*\<^sup>* StateTerminated s \<longleftrightarrow> s = StateTerminated"
  by (auto elim: converse_rtranclpE)

lemma evolves_refl [evolving]: "evolves c c"
  by (simp add: evolves_def)

lemma evolves_trans [trans]:
  assumes "evolves c d" "evolves d e"
  shows "evolves c e"
proof -
  have "c_state e \<noteq> StateTerminated \<Longrightarrow> c_state d \<noteq> StateTerminated"
    using assms(2) by (auto simp: evolves_def state_edge_Terminated)
  moreover have "c_state c \<noteq> StateTerminated \<and> c_state e = StateTerminated \<longrightarrow> c_terminates e > 0"
    using assms unfolding evolves_def by (cases "c_state d = StateTerminated") linarith+
  moreover have "state_edge\<^sup>*\<^sup>* (c_state c) (c_state e)"
    using assms rtranclp_trans [of state_edge "c_state c" "c_state d" "c_state e"] by (simp add: evolves_def)
  moreover have "rwk_step\<^sup>*\<^sup>* (c_receivingWorker c) (c_receivingWorker e)"
    using assms rtranclp_trans [of rwk_step "c_receivingWorker c" "c_receivingWorker d" "c_receivingWorker e"]
    by (simp add: evolves_def)
  moreover have "c_terminates c \<le> c_terminates e" using assms by (simp add: evolves_def)
  ultimately show ?thesis using assms by (simp add: evolves_def)
qed

text \<open>A change of the fields \<open>evolves\<close> does not look at.\<close>

lemma evolves_cong [evolving]:
  assumes "c_state c' = c_state c" "c_receivingWorker c' = c_receivingWorker c"
    "c_Conversation c' = c_Conversation c" "c_Config c' = c_Config c" "c_mss c' = c_mss c"
    "c_dataUpdater c' = c_dataUpdater c" "c_pingUpdater c' = c_pingUpdater c"
    "c_terminates c' = c_terminates c" "c_closerClosed c' = c_closerClosed c" "c_outputClosed c' = c_outputClosed c"
  shows "evolves c c'"
  using assms by (simp add: evolves_def closed_down_def)

lemma evolves_receiving:
  "rwk_step (c_receivingWorker c) w \<Longrightarrow> evolves c (c\<lparr>c_receivingWorker := w\<rparr>)"
  by (simp add: evolves_def r_into_rtranclp closed_down_def)

lemma evolves_sending: "evolves c (c\<lparr>c_sendingWorker := w\<rparr>)"
  by (rule evolves_cong) simp_all

lemma evolves_wake_data: "evolves c (wake_data c)"
  by (simp add: evolves_def wake_data_def closed_down_def)

lemma evolves_signal_both: "evolves c (signal_both c)"
  by (rule evolves_cong) (simp_all add: signal_both_def)

lemma signal_both_state [simp]: "c_state (signal_both c) = c_state c"
  by (simp add: signal_both_def)

lemma evolves_output_Write: "evolves c (output_Write c segs)"
  by (rule evolves_cong) (simp_all add: output_Write_def)

lemma evolves_Elapsed: "evolves c (snd (Connection_Elapsed clock c))"
  by (rule evolves_cong) (simp_all add: Connection_Elapsed_def)

lemma evolves_Ping: "evolves c (Connection_Ping c current cmd)"
  by (rule evolves_cong) (simp_all add: Connection_Ping_def output_Write_def Let_def)

lemma SetState_state [simp]: "c_state (Connection_SetState clock c s) = s"
  by (cases s) (simp_all add: Connection_SetState_def Connection_Elapsed_def Let_def)

lemma evolves_SetState:
  assumes "state_edge (c_state c) s"
  shows "evolves c (Connection_SetState clock c s)"
  using r_into_rtranclp [of state_edge, OF assms]
  by (cases s) (simp_all add: Connection_SetState_def Connection_Elapsed_def evolves_def Let_def
      ReceivingWorker_CloseRead_def closed_down_def)

lemma evolves_Close: "evolves c (fst (Connection_Close clock c))"
proof -
  have "evolves (signal_both c) (fst (Connection_Close clock c))"
    by (cases "c_state c") (simp_all add: Connection_Close_def Let_def evolves_SetState evolves_refl)
  then show ?thesis by (rule evolves_trans [OF evolves_signal_both])
qed

lemma evolves_HandleOption: "evolves c (Connection_HandleOption clock c opt)"
  by (cases "c_state c")
    (simp_all add: Connection_HandleOption_def Connection_OnPeerClosed_def evolves_SetState evolves_refl)

lemma evolves_terminate_command: "evolves c (terminate_command clock c)"
  by (cases "c_state c") (simp_all add: terminate_command_def evolves_SetState evolves_refl)

lemma evolves_Input_data: "evolves c (Input_data clock seg c)"
proof -
  define c1 where "c1 = Connection_HandleOption clock c (ds_Option seg)"
  define c2 where "c2 = c1\<lparr>c_receivingWorker := ReceivingWorker_ProcessSegment (c_receivingWorker c1) seg\<rparr>"
  define c3 where "c3 = (if ReceivingWorker_IsDataAvailable (c_receivingWorker c2)
      then c2\<lparr>c_dataInput := Notifier_Signal (c_dataInput c2)\<rparr> else c2)"
  have "evolves c c1" unfolding c1_def by (rule evolves_HandleOption)
  also have "evolves c1 c2" unfolding c2_def by (rule evolves_receiving, rule rwk_segment)
  also have "evolves c2 c3" unfolding c3_def by (rule evolves_cong) simp_all
  also have "evolves c3 (wake_data c3)" by (rule evolves_wake_data)
  finally show ?thesis unfolding Input_data_def Let_def c3_def c2_def c1_def .
qed

lemma evolves_Input_ack: "evolves c (Input_ack clock current seg c)"
proof -
  define c1 where "c1 = Connection_HandleOption clock c (as_Option seg)"
  define r where "r = SendingWorker_ProcessSegment (c_sendingWorker c1) (c_roundTrip c1) current seg
      (RoundTripInfo_Timeout (c_roundTrip c1))"
  define c2 where "c2 = c1\<lparr>c_sendingWorker := fst r, c_roundTrip := snd r,
      c_dataOutput := Notifier_Signal (c_dataOutput c1)\<rparr>"
  have "evolves c c1" unfolding c1_def by (rule evolves_HandleOption)
  also have "evolves c1 c2" unfolding c2_def by (rule evolves_cong) simp_all
  also have "evolves c2 (wake_data c2)" by (rule evolves_wake_data)
  finally show ?thesis by (simp add: Input_ack_def c1_def c2_def r_def Let_def split_beta)
qed

lemma evolves_Input_cmd: "evolves c (Input_cmd clock current seg c)"
proof -
  define c1 where "c1 = Connection_HandleOption clock c (cs_Option seg)"
  define c2 where "c2 = (if cs_Cmd seg = CommandTerminate then terminate_command clock c1 else c1)"
  define c3 where "c3 = (if cs_Option seg = SegmentOptionClose \<or> cs_Cmd seg = CommandTerminate then signal_both c2 else c2)"
  define c4 where "c4 = c3\<lparr>c_receivingWorker := ReceivingWorker_ProcessSendingNext (c_receivingWorker c3) (cs_SendingNext seg)\<rparr>"
  have "evolves c c1" unfolding c1_def by (rule evolves_HandleOption)
  also have "evolves c1 c2" unfolding c2_def by (simp add: evolves_terminate_command evolves_refl)
  also have "evolves c2 c3" unfolding c3_def by (simp add: evolves_signal_both evolves_refl)
  also have "evolves c3 c4" unfolding c4_def by (rule evolves_receiving, rule rwk_sending_next)
  also have "evolves c4 (Input_cmd clock current seg c)"
    by (rule evolves_cong) (simp_all add: Input_cmd_def c1_def c2_def c3_def c4_def Let_def)
  finally show ?thesis .
qed

lemma evolves_Input_loop: "evolves c (Input_loop clock current segments c)"
proof (induction segments arbitrary: c)
  case (Cons seg segments)
  have "evolves c (Input_segment clock current seg c)"
    by (cases seg) (simp_all add: evolves_Input_data evolves_Input_ack evolves_Input_cmd)
  with Cons show ?case by (auto intro: evolves_trans evolves_refl)
qed (simp add: evolves_refl)

lemma evolves_Input: "evolves c (Connection_Input clock c segments)"
proof -
  let ?c = "(snd (Connection_Elapsed clock c))\<lparr>c_lastIncomingTime := fst (Connection_Elapsed clock c)\<rparr>"
  have "evolves c ?c" by (rule evolves_cong) (simp_all add: Connection_Elapsed_def)
  also have "evolves ?c (Connection_Input clock c segments)"
    using evolves_Input_loop by (simp add: Connection_Input_def Let_def split_beta)
  finally show ?thesis .
qed

lemma evolves_flush_receiving: "evolves c (flush_receiving c current)"
proof -
  define rf where "rf = ReceivingWorker_Flush (c_Conversation c) (c_state c) (c_roundTrip c) (c_receivingWorker c) current"
  have "evolves c (c\<lparr>c_receivingWorker := fst rf\<rparr>)"
    unfolding rf_def by (rule evolves_receiving, rule rwk_flush)
  also have "evolves (c\<lparr>c_receivingWorker := fst rf\<rparr>) (flush_receiving c current)"
    by (simp add: flush_receiving_def rf_def [symmetric] split_beta evolves_output_Write)
  finally show ?thesis .
qed

lemma evolves_flush_sending:
  assumes "flush_sending c current = Some c'"
  shows "evolves c c'"
proof -
  from assms obtain w segs updated where
    c': "c' = (let c = output_Write (c\<lparr>c_sendingWorker := w\<rparr>) (map Data segs)
          in if updated then Connection_Ping c current CommandPing else c)"
    unfolding flush_sending_def Let_def by (force split: option.splits)
  note evolves_sending [of c w]
  also note evolves_output_Write [of _ "map Data segs"]
  also have "evolves (output_Write (c\<lparr>c_sendingWorker := w\<rparr>) (map Data segs)) c'"
    unfolding c' Let_def by (simp add: evolves_Ping evolves_refl)
  finally show ?thesis .
qed

lemma evolves_flush_workers:
  assumes "flush_workers c current = Some c'"
  shows "evolves c c'"
proof -
  from assms obtain c1 where c1: "flush_sending (flush_receiving c current) current = Some c1"
    and c': "c' = (if current - c_lastPingTime c1 \<ge> 3000 then Connection_Ping c1 current CommandPing else c1)"
    by (auto simp: flush_workers_def split: option.splits)
  note evolves_flush_receiving
  also note evolves_flush_sending [OF c1]
  also have "evolves c1 c'" unfolding c' by (simp add: evolves_Ping evolves_refl)
  finally show ?thesis .
qed

lemma evolves_flush_idle: "evolves c (flush_idle clock current c)"
proof -
  let ?c = "if c_state c = StateActive \<and> current - c_lastIncomingTime c \<ge> 30000
      then fst (Connection_Close clock c) else c"
  have "evolves c ?c" by (simp add: evolves_Close evolves_refl)
  also have "evolves ?c (flush_idle clock current c)"
    unfolding flush_idle_def Let_def by (auto intro: evolves_SetState evolves_refl)
  finally show ?thesis .
qed

lemma evolves_flush_expire: "evolves c (flush_expire clock current c)"
  by (auto simp: flush_expire_def Let_def intro: evolves_SetState evolves_refl)

lemma Ping_fields [simp]:
  "c_state (Connection_Ping c current cmd) = c_state c"
  "c_stateBeginTime (Connection_Ping c current cmd) = c_stateBeginTime c"
  by (simp_all add: Connection_Ping_def output_Write_def Let_def)

lemma Elapsed_fields [simp]:
  "c_state (snd (Connection_Elapsed clock c)) = c_state c"
  "c_stateBeginTime (snd (Connection_Elapsed clock c)) = c_stateBeginTime c"
  "c_lastIncomingTime (snd (Connection_Elapsed clock c)) = c_lastIncomingTime c"
  "c_sendingWorker (snd (Connection_Elapsed clock c)) = c_sendingWorker c"
  by (simp_all add: Connection_Elapsed_def)

lemma Connection_flush_eq:
  assumes "current = fst (Connection_Elapsed clock c)" "c0 = snd (Connection_Elapsed clock c)"
    "c1 = flush_idle clock current c0"
  shows "Connection_flush clock c =
       (if c_state c = StateTerminated then Some c0
        else if c_state c1 = StateTerminating
        then Some (if current - c_stateBeginTime c1 > 8000
            then Connection_SetState clock (Connection_Ping c1 current CommandTerminate) StateTerminated
            else Connection_Ping c1 current CommandTerminate)
        else flush_workers (flush_expire clock current c1) current)"
  unfolding assms by (simp add: Connection_flush_def Let_def split_beta)

lemma evolves_flush:
  assumes "Connection_flush clock c = Some c'"
  shows "evolves c c'"
proof -
  define current where "current = fst (Connection_Elapsed clock c)"
  define c0 where "c0 = snd (Connection_Elapsed clock c)"
  define c1 where "c1 = flush_idle clock current c0"
  note fl = Connection_flush_eq [OF current_def c0_def c1_def]
  have c0: "evolves c c0" unfolding c0_def by (rule evolves_Elapsed)
  also have "evolves c0 c1" unfolding c1_def by (rule evolves_flush_idle)
  finally have e1: "evolves c c1" .
  show ?thesis
  proof (cases "c_state c = StateTerminated")
    case True
    then show ?thesis using assms c0 unfolding fl by simp
  next
    case nt: False
    show ?thesis
    proof (cases "c_state c1 = StateTerminating")
      case True
      let ?p = "Connection_Ping c1 current CommandTerminate"
      have p: "evolves c ?p" by (rule evolves_trans [OF e1 evolves_Ping])
      have "evolves ?p (Connection_SetState clock ?p StateTerminated)"
        using True by (intro evolves_SetState) simp
      then have "evolves c (Connection_SetState clock ?p StateTerminated)" by (rule evolves_trans [OF p])
      moreover have "c' = (if current - c_stateBeginTime c1 > 8000 then Connection_SetState clock ?p StateTerminated else ?p)"
        using assms nt True unfolding fl by simp
      ultimately show ?thesis using p by simp
    next
      case False
      then have "flush_workers (flush_expire clock current c1) current = Some c'"
        using assms nt unfolding fl by simp
      from evolves_trans [OF e1 evolves_trans [OF evolves_flush_expire evolves_flush_workers [OF this]]]
      show ?thesis .
    qed
  qed
qed

lemma evolves_Read: "evolves c (fst (Connection_Read c n))"
proof -
  let ?w = "ReceivingWorker_Read (c_receivingWorker c) n"
  have e: "evolves c (c\<lparr>c_receivingWorker := fst ?w\<rparr>)" by (rule evolves_receiving, rule rwk_read)
  then have "evolves c (wake_data (c\<lparr>c_receivingWorker := fst ?w\<rparr>))" by (rule evolves_trans [OF _ evolves_wake_data])
  with e show ?thesis by (simp add: Connection_Read_def Let_def split_beta evolves_refl del: State_Is.simps)
qed

lemma evolves_ReadMultiBuffer: "evolves c (fst (Connection_ReadMultiBuffer c))"
proof -
  let ?w = "ReceivingWorker_ReadMultiBuffer (c_receivingWorker c)"
  have e: "evolves c (c\<lparr>c_receivingWorker := fst ?w\<rparr>)" by (rule evolves_receiving, rule rwk_read_multi)
  then have "evolves c (wake_data (c\<lparr>c_receivingWorker := fst ?w\<rparr>))" by (rule evolves_trans [OF _ evolves_wake_data])
  with e show ?thesis by (simp add: Connection_ReadMultiBuffer_def Let_def split_beta evolves_refl)
qed

lemma evolves_write_inner: "evolves c (fst (write_inner c b rest p))"
proof (induction c b rest p rule: write_inner.induct)
  case (1 c b rest p)
  let ?in = "case b of Some b \<Rightarrow> Some (b, rest) | None \<Rightarrow> limited_read (c_mss c) rest"
  show ?case
  proof (cases "c_state c \<noteq> StateActive \<or> ?in = None")
    case True
    then show ?thesis by (auto simp: write_inner.simps [of c] evolves_refl)
  next
    case False
    then obtain b' rest' where i: "?in = Some (b', rest')" by auto
    obtain w ok where ps: "SendingWorker_Push (c_sendingWorker c) b' = (w, ok)" by fastforce
    have e: "evolves c (c\<lparr>c_sendingWorker := w\<rparr>)" by (rule evolves_cong) simp_all
    show ?thesis
    proof (cases ok)
      case True
      have "evolves (c\<lparr>c_sendingWorker := w\<rparr>) (fst (write_inner (c\<lparr>c_sendingWorker := w\<rparr>) None rest' True))"
        using "1.IH" False i ps True by fastforce
      with e have "evolves c (fst (write_inner (c\<lparr>c_sendingWorker := w\<rparr>) None rest' True))" by (rule evolves_trans)
      then show ?thesis using False i ps True by (simp add: write_inner.simps [of c b])
    next
      case nok: False
      then show ?thesis using e False i ps by (simp add: write_inner.simps [of c b])
    qed
  qed
qed

lemma evolves_write: "evolves c (fst (writeMultiBufferInternal c b rest))"
proof -
  have "evolves c (wake_data (fst (write_inner c b rest False)))"
    by (rule evolves_trans [OF evolves_write_inner evolves_wake_data])
  then show ?thesis using evolves_write_inner
    by (simp add: writeMultiBufferInternal_def Let_def split_beta)
qed

lemma evolves_waits:
  "waitForDataInput c now fired = Some (c', err) \<Longrightarrow> evolves c c'"
  "waitForDataOutput c now fired = Some (c', err) \<Longrightarrow> evolves c c'"
  by (rule evolves_cong; auto simp: waitForDataInput_def waitForDataOutput_def split: option.splits if_splits)+

lemma evolves_SetDeadline: "evolves c (fst (Connection_SetDeadline c t))"
  by (rule evolves_cong)
    (simp_all add: Connection_SetDeadline_def Connection_SetReadDeadline_def Connection_SetWriteDeadline_def)

lemma evolves_data_set:
  "(upd_ok (c_dataUpdater c) \<Longrightarrow> upd_ok u) \<Longrightarrow> evolves c (c\<lparr>c_dataUpdater := u\<rparr>)"
  by (simp add: evolves_def closed_down_def)

lemma evolves_data_run:
  assumes "i < length (up_runs (c_dataUpdater c))" "dataUpdater_run clock i c = Some c'"
  shows "evolves c c'"
proof -
  consider u where "Updater_finish (c_dataUpdater c) i = Some u" "c' = c\<lparr>c_dataUpdater := u\<rparr>"
    | d p where "Connection_flush clock c = Some d"
        "c' = d\<lparr>c_dataUpdater := (c_dataUpdater d)\<lparr>up_runs := (up_runs (c_dataUpdater d))[i := Ticking p]\<rparr>\<rparr>"
    using assms(2)
    by (auto simp: dataUpdater_run_def dataUpdater_round_def Connection_updateTask_def split: runner.splits if_splits)
  then show ?thesis
  proof cases
    case 1
    then show ?thesis using upd_ok_finish [OF _ assms(1)] by (auto intro: evolves_data_set)
  next
    case 2
    note evolves_flush [OF 2(1)]
    also have "evolves d c'" unfolding 2(2) by (rule evolves_data_set) simp
    finally show ?thesis .
  qed
qed

lemma ping_run_cases:
  assumes "pingUpdater_run clock i c = Some c'"
  obtains (finished) u where "Updater_finish (c_pingUpdater c) i = Some u" "c' = c\<lparr>c_pingUpdater := u\<rparr>" "isTerminated c"
    | (flushed) d p where "Connection_flush clock c = Some d"
        "c' = d\<lparr>c_pingUpdater := (c_pingUpdater d)\<lparr>up_runs := (up_runs (c_pingUpdater d))[i := Ticking p]\<rparr>\<rparr>"
        "up_runs (c_pingUpdater c) ! i \<in> {Started, Ticking p}"
  using assms
  by (auto simp: pingUpdater_run_def pingUpdater_round_def Connection_updateTask_def split: runner.splits if_splits)

text \<open>What every step keeps, those of the ping updater's goroutine and of \<^verbatim>\<open>Terminate\<close> included.\<close>

definition shut_down :: "Connection \<Rightarrow> bool" where
  "shut_down c \<longleftrightarrow> (c_state c = StateTerminated \<longrightarrow> c_terminates c > 0 \<or> closed_down c)"

definition evolves' :: "Connection \<Rightarrow> Connection \<Rightarrow> bool" where
  "evolves' c c' \<longleftrightarrow>
     state_edge\<^sup>*\<^sup>* (c_state c) (c_state c') \<and> rwk_step\<^sup>*\<^sup>* (c_receivingWorker c) (c_receivingWorker c') \<and>
     (upd_ok (c_dataUpdater c) \<and> upd_ok (c_pingUpdater c) \<longrightarrow> upd_ok (c_dataUpdater c') \<and> upd_ok (c_pingUpdater c')) \<and>
     (shut_down c \<longrightarrow> shut_down c')"

lemma evolves_weak: "evolves c c' \<Longrightarrow> evolves' c c'"
  by (auto simp: evolves_def evolves'_def shut_down_def)

lemma Terminate_evolves: "evolves' c (Connection_Terminate (c\<lparr>c_terminates := n\<rparr>))"
  using r_into_rtranclp [of rwk_step, OF rwk_release [of "c_receivingWorker c"]]
  by (simp add: evolves'_def Connection_Terminate_def signal_both_def shut_down_def closed_down_def Let_def)

lemma ping_run_evolves:
  assumes "i < length (up_runs (c_pingUpdater c))" "pingUpdater_run clock i c = Some c'"
  shows "evolves' c c'"
  using assms(2)
proof (cases rule: ping_run_cases)
  case (finished u)
  then show ?thesis using upd_ok_finish [OF _ assms(1)] by (auto simp: evolves'_def shut_down_def closed_down_def)
next
  case (flushed d p)
  then show ?thesis
    using evolves_weak [OF evolves_flush [OF flushed(1)]] by (simp add: evolves'_def shut_down_def closed_down_def)
qed

lemmas evolves_handlers = evolves_Close evolves_Input evolves_Read evolves_ReadMultiBuffer evolves_write
  evolves_waits evolves_SetDeadline evolves_data_run

lemma conn_step_cases:
  assumes "conn_step clock c c'"
  obtains (handler) "evolves c c'"
    | (ping) i where "i < length (up_runs (c_pingUpdater c))" "pingUpdater_run clock i c = Some c'"
    | (terminating) n where "c' = Connection_Terminate (c\<lparr>c_terminates := n\<rparr>)"
  using assms by (cases rule: conn_step.cases) (auto intro: evolves_handlers)

lemma conn_step_evolves: "conn_step clock c c' \<Longrightarrow> evolves' c c'"
  by (erule conn_step_cases) (auto intro: evolves_weak ping_run_evolves Terminate_evolves)

section \<open>Reachable connections\<close>

definition conn_inv :: "Config \<Rightarrow> Connection \<Rightarrow> bool" where
  "conn_inv cfg c \<longleftrightarrow>
     upd_ok (c_dataUpdater c) \<and> upd_ok (c_pingUpdater c) \<and> shut_down c \<and>
     rwk_near (c_receivingWorker c) \<and> GetReceivingInFlightSize (Some cfg) = Some (rwk_windowSize (c_receivingWorker c))"

lemma NewConnection_inv:
  assumes "NewConnection clock conv overhead cfg = Some c"
  shows "conn_inv cfg c"
proof -
  have "NewReceivingWorker cfg = Some (c_receivingWorker c)"
    using assms by (auto simp: NewConnection_def bind_eq_Some_conv)
  moreover have "upd_ok (c_dataUpdater c)" "upd_ok (c_pingUpdater c)" "shut_down c"
    using assms by (auto simp: NewConnection_def bind_eq_Some_conv shut_down_def)
  ultimately show ?thesis by (simp add: conn_inv_def rwk.init_inv)
qed

lemma conn_step_inv: "conn_inv cfg c \<Longrightarrow> conn_step clock c c' \<Longrightarrow> conn_inv cfg c'"
  using conn_step_evolves [of clock c c']
    rwk.steps_inv [of "c_receivingWorker c" "c_receivingWorker c'" cfg]
  by (simp add: conn_inv_def evolves'_def)

interpretation conn: invariant_system
  "\<lambda>c. \<exists>conv overhead. NewConnection clock conv overhead cfg = Some c" "conn_step clock" "conn_inv cfg" for clock cfg
  by unfold_locales (auto intro: NewConnection_inv conn_step_inv)

lemma state_edge_rtrancl_rank: "state_edge\<^sup>*\<^sup>* s t \<Longrightarrow> state_rank s \<le> state_rank t"
  by (induction rule: rtranclp_induct) (auto dest: state_edge_rank)

interpretation life: progress_system "conn_step clock" "\<lambda>c. state_rank (c_state c)" for clock
  by unfold_locales (auto dest!: conn_step_evolves simp: evolves'_def state_edge_rtrancl_rank)

lemma conn_steps_edges: "(conn_step clock)\<^sup>*\<^sup>* c c' \<Longrightarrow> state_edge\<^sup>*\<^sup>* (c_state c) (c_state c')"
  by (induction rule: rtranclp_induct)
    (auto dest!: conn_step_evolves simp: evolves'_def intro: rtranclp_trans)


definition example_conn :: Connection where
  "example_conn = the (NewConnection (\<lambda>_. 0) 7 0 default_Config)"

lemmas example_config = GetSendingInFlightSize_def GetSendingBufferSize_def GetReceivingInFlightSize_def
  GetUplinkCapacityValue_def GetDownlinkCapacityValue_def GetWriteBufferSize_def GetMTUValue_def GetTTIValue_def
  setting_def default_Config_def udiv_def

lemma example_conn_New: "NewConnection (\<lambda>_. 0) 7 0 default_Config = Some example_conn"
  by (simp add: example_conn_def NewConnection_def NewReceivingWorker_def NewSendingWorker_def example_config)

lemma example_conn_state [simp]: "c_state example_conn = StateActive"
  by (simp add: example_conn_def NewConnection_def NewReceivingWorker_def NewSendingWorker_def example_config)


text \<open>In every reachable state each updater has exactly one permit: it is free, or exactly
  one goroutine runs with it, so there are never two flush loops of one updater, and
  putting the permit back never blocks.\<close>

theorem updaters_single_flight:
  assumes "NewConnection clock conv overhead cfg = Some c" and "(conn_step clock)\<^sup>*\<^sup>* c c'"
  shows "sm_token (up_notifier (c_dataUpdater c')) + length (up_runs (c_dataUpdater c')) = 1 \<and>
     sm_token (up_notifier (c_pingUpdater c')) + length (up_runs (c_pingUpdater c')) = 1 \<and>
     (\<forall>i < length (up_runs (c_dataUpdater c')). Updater_finish (c_dataUpdater c') i \<noteq> None) \<and>
     (\<forall>i < length (up_runs (c_pingUpdater c')). Updater_finish (c_pingUpdater c') i \<noteq> None)"
proof -
  have "conn_inv cfg c'" by (rule conn.reachable_inv [OF _ assms(2)]) (use assms(1) in blast)
  then have "upd_ok (c_dataUpdater c')" "upd_ok (c_pingUpdater c')" by (simp_all add: conn_inv_def)
  then show ?thesis using Updater_finish_possible by (fastforce simp: upd_ok_def)
qed

theorem updaters_single_flight_witness:
  "length (up_runs (c_pingUpdater example_conn)) = 1 \<and> sm_token (up_notifier (c_pingUpdater example_conn)) = 0"
  using updaters_single_flight [OF example_conn_New rtranclp.rtrancl_refl]
  by (simp add: example_conn_def NewConnection_def NewReceivingWorker_def NewSendingWorker_def example_config
      Updater_WakeUp_def NewUpdater_def Semaphore_New_def Semaphore_Wait_def)

text \<open>A terminated connection lets go of its resources: in every reachable state in which it
  is terminated, the goroutine that closes it is pending, or the underlying closer and
  the output are closed already.\<close>

theorem terminated_is_released:
  assumes "NewConnection clock conv overhead cfg = Some c" and "(conn_step clock)\<^sup>*\<^sup>* c c'"
    and "c_state c' = StateTerminated"
  shows "c_terminates c' > 0 \<or> c_closerClosed c' \<and> c_outputClosed c'"
proof -
  have "conn_inv cfg c'" by (rule conn.reachable_inv [OF _ assms(2)]) (use assms(1) in blast)
  with assms(3) show ?thesis by (simp add: conn_inv_def shut_down_def closed_down_def)
qed

theorem terminated_is_released_witness:
  "\<exists>c'. (conn_step (\<lambda>_. 0))\<^sup>*\<^sup>* example_conn c' \<and> c_state c' = StateTerminated \<and>
     (c_terminates c' > 0 \<or> c_closerClosed c' \<and> c_outputClosed c')"
proof -
  let ?cmd = "CmdOnly (NewCmdOnlySegment\<lparr>cs_Conv := 7, cs_Cmd := CommandTerminate\<rparr>)"
  let ?c1 = "Connection_Input (\<lambda>_. 0) example_conn [?cmd]"
  let ?c2 = "fst (Connection_Close (\<lambda>_. 0) ?c1)"
  have "c_Conversation example_conn = 7"
    by (simp add: example_conn_def NewConnection_def NewReceivingWorker_def NewSendingWorker_def example_config)
  then have s1: "c_state ?c1 = StatePeerTerminating"
    by (simp add: Connection_Input_def Connection_Elapsed_def Input_cmd_def NewCmdOnlySegment_def command_defs
        Connection_HandleOption_def SegmentOptionClose_def terminate_command_def Let_def)
  have steps: "(conn_step (\<lambda>_. 0))\<^sup>*\<^sup>* example_conn ?c2"
    by (rule rtranclp.rtrancl_into_rtrancl [of _ _ ?c1, OF r_into_rtranclp [of "conn_step (\<lambda>_. 0)"]])
      (rule conn_step.input, rule conn_step.close)
  have s2: "c_state ?c2 = StateTerminated" using s1 by (simp add: Connection_Close_def Let_def)
  show ?thesis using terminated_is_released [OF example_conn_New steps s2] steps s2 by blast
qed

section \<open>Timers\<close>

lemma flush_workers_total:
  assumes "GetSendingInFlightSize (Some (c_Config c)) = Some f"
  shows "\<exists>c'. flush_workers c current = Some c'"
proof -
  let ?c = "flush_receiving c current"
  have "c_Config ?c = c_Config c"
    by (simp add: flush_receiving_def output_Write_def split_beta)
  then have g: "GetSendingInFlightSize (Some (c_Config ?c)) = Some f" using assms by simp
  obtain w o' u where "SendingWorker_Flush (c_Conversation ?c) (c_state ?c) (c_Config ?c) (c_roundTrip ?c)
      (c_sendingWorker ?c) current = Some (w, o', u)"
    using SendingWorker_Flush_total [OF g] by blast
  then show ?thesis by (simp add: flush_workers_def flush_sending_def Let_def)
qed

lemma flush_workers_state: "flush_workers c current = Some c' \<Longrightarrow> c_state c' = c_state c"
  by (auto simp: flush_workers_def flush_sending_def flush_receiving_def output_Write_def Let_def
      split: option.splits prod.splits)

lemma flush_expire_Config [simp]: "c_Config (flush_expire clock current c) = c_Config c"
  using evolves_flush_expire [of c clock current] by (simp add: evolves_def)

lemma flush_idle_Config [simp]: "c_Config (flush_idle clock current c) = c_Config c"
  using evolves_flush_idle [of c clock current] by (simp add: evolves_def)

lemma Connection_flush_total:
  assumes "GetSendingInFlightSize (Some (c_Config c)) = Some f"
  shows "\<exists>c'. Connection_flush clock c = Some c'"
proof -
  let ?t = "fst (Connection_Elapsed clock c)" and ?c0 = "snd (Connection_Elapsed clock c)"
  have "c_Config (flush_expire clock ?t (flush_idle clock ?t ?c0)) = c_Config c"
    by (simp add: Connection_Elapsed_def)
  then have "\<exists>c'. flush_workers (flush_expire clock ?t (flush_idle clock ?t ?c0)) ?t = Some c'"
    using flush_workers_total assms by metis
  then show ?thesis by (simp add: Connection_flush_eq [OF refl refl refl])
qed

lemma state_rank_ge3: "3 \<le> state_rank s \<longleftrightarrow> s = StateTerminating \<or> s = StateTerminated"
  by (cases s) auto

lemma flush_idle_state:
  "c_state c \<noteq> StateActive \<Longrightarrow> c_state c \<noteq> StateReadyToClose \<Longrightarrow> flush_idle clock current c = c"
  by (simp add: flush_idle_def)

lemma flush_state:
  assumes "Connection_flush clock c = Some c'" "c_state c \<noteq> StateTerminated"
    and "c1 = flush_idle clock (fst (Connection_Elapsed clock c)) (snd (Connection_Elapsed clock c))"
  shows "c_state c' = (if c_state c1 = StateTerminating
      then (if fst (Connection_Elapsed clock c) - c_stateBeginTime c1 > 8000 then StateTerminated else StateTerminating)
      else c_state (flush_expire clock (fst (Connection_Elapsed clock c)) c1))"
  using assms flush_workers_state unfolding Connection_flush_eq [OF refl refl assms(3)]
  by (cases "c_state c1 = StateTerminating") auto

text \<open>The timers of the life cycle. With a configuration whose sizes are defined, a flush
  always returns, and then: an active connection that has heard nothing for 30 s leaves the
  active state; a locally closed one is terminating at the latest 15 s after it was
  closed; one whose peer is terminating follows after 4 s; and a terminating one is
  terminated after 8 s.\<close>

theorem flush_timers:
  assumes "GetSendingInFlightSize (Some (c_Config c)) = Some f"
    and now: "now = fst (Connection_Elapsed clock c)"
  shows "\<exists>c'. Connection_flush clock c = Some c' \<and>
     (c_state c = StateActive \<and> now - c_lastIncomingTime c \<ge> 30000 \<longrightarrow> c_state c' \<noteq> StateActive) \<and>
     (c_state c = StateReadyToClose \<and> now - c_stateBeginTime c > 15000 \<longrightarrow>
        c_state c' \<in> {StateTerminating, StateTerminated}) \<and>
     (c_state c = StatePeerTerminating \<and> now - c_stateBeginTime c > 4000 \<longrightarrow> c_state c' = StateTerminating) \<and>
     (c_state c = StateTerminating \<and> now - c_stateBeginTime c > 8000 \<longrightarrow> c_state c' = StateTerminated)"
proof -
  obtain c' where c': "Connection_flush clock c = Some c'" using Connection_flush_total [OF assms(1)] by blast
  let ?c0 = "snd (Connection_Elapsed clock c)"
  note st = flush_state [OF c' _ refl, folded now]
  have idle: "c_state (flush_idle clock now ?c0) \<noteq> StateActive"
    if "c_state c = StateActive" "now - c_lastIncomingTime c \<ge> 30000"
    using that by (simp add: flush_idle_def Connection_Close_def Let_def)
  have expire: "c_state (flush_expire clock now d) \<noteq> StateActive" if "c_state d \<noteq> StateActive" for d
    using that by (simp add: flush_expire_def Let_def)
  have "c_state c' \<noteq> StateActive" if "c_state c = StateActive" "now - c_lastIncomingTime c \<ge> 30000"
    using st that idle expire by simp
  moreover have "c_state c' \<in> {StateTerminating, StateTerminated}"
    if "c_state c = StateReadyToClose" "now - c_stateBeginTime c > 15000"
    using st that by (auto simp: flush_idle_def flush_expire_def Let_def)
  moreover have "c_state c' = StateTerminating"
    if "c_state c = StatePeerTerminating" "now - c_stateBeginTime c > 4000"
    using st that by (simp add: flush_idle_state flush_expire_def Let_def)
  moreover have "c_state c' = StateTerminated" if "c_state c = StateTerminating" "now - c_stateBeginTime c > 8000"
    using st that by (simp add: flush_idle_state)
  ultimately show ?thesis using c' by blast
qed

theorem flush_timers_witness:
  "\<exists>c'. Connection_flush (\<lambda>_. 40000) example_conn = Some c' \<and> c_state c' \<noteq> StateActive"
proof -
  have cfg: "c_Config example_conn = default_Config" "c_lastIncomingTime example_conn = 0"
      "fst (Connection_Elapsed (\<lambda>_. 40000) example_conn) = 40000"
    by (simp_all add: example_conn_def NewConnection_def NewReceivingWorker_def NewSendingWorker_def example_config
        Connection_Elapsed_def)
  show ?thesis
    using flush_timers [OF _ refl, of example_conn 194 "\<lambda>_. 40000"] cfg default_in_flight by auto
qed

lemma SetState_Terminating_begin:
  "c_stateBeginTime (Connection_SetState clock c StateTerminating) = fst (Connection_Elapsed clock c)"
  by (simp add: Connection_SetState_def Connection_Elapsed_def Let_def)

text \<open>The age of the terminating state is the difference of two clock readings in 32 bits,
  the later one taken first: when a flush moves a closed connection with nothing left to
  send to terminating and the clock ticks over in between, the difference wraps and the
  connection is terminated in the same flush, without its 8 s of termination messages. With
  equal readings it is not.\<close>

theorem flush_skips_terminating:
  assumes "c_state c = StateReadyToClose" and "SendingWorker_IsEmpty (c_sendingWorker c)"
    and "clock (Suc (c_readings c)) - clock (c_readings c) \<in> {0, 1}"
  shows "\<exists>c'. Connection_flush clock c = Some c' \<and>
     c_state c' = (if clock (Suc (c_readings c)) = clock (c_readings c) then StateTerminating else StateTerminated)"
proof -
  let ?t = "fst (Connection_Elapsed clock c)" and ?c0 = "snd (Connection_Elapsed clock c)"
  have idle: "flush_idle clock ?t ?c0 = Connection_SetState clock ?c0 StateTerminating"
    using assms(1,2) by (simp add: flush_idle_def)
  have since: "c_stateBeginTime (Connection_SetState clock ?c0 StateTerminating) =
      word_of_int (clock (Suc (c_readings c)) - c_since c)"
    by (simp add: SetState_Terminating_begin Connection_Elapsed_def)
  have t: "?t = word_of_int (clock (c_readings c) - c_since c)" by (simp add: Connection_Elapsed_def)
  have "?t - c_stateBeginTime (Connection_SetState clock ?c0 StateTerminating) =
      word_of_int (clock (c_readings c) - clock (Suc (c_readings c)))"
    unfolding since t wi_hom_sub by simp
  also have "\<dots> = (if clock (Suc (c_readings c)) = clock (c_readings c) then 0 else - 1)"
  proof (cases "clock (Suc (c_readings c)) = clock (c_readings c)")
    case False
    then have "clock (c_readings c) - clock (Suc (c_readings c)) = - 1" using assms(3) by auto
    with False show ?thesis by simp
  qed simp
  finally have age: "?t - c_stateBeginTime (Connection_SetState clock ?c0 StateTerminating) =
      (if clock (Suc (c_readings c)) = clock (c_readings c) then 0 else - 1)" .
  show ?thesis
    using assms(1) age by (simp add: Connection_flush_eq [OF refl refl refl] idle)
qed

theorem flush_skips_terminating_witness:
  "\<exists>c'. Connection_flush (\<lambda>i. 5000 + int i) (fst (Connection_Close (\<lambda>i. 5000 + int i) example_conn)) = Some c' \<and>
     c_state c' = StateTerminated"
proof -
  let ?c = "fst (Connection_Close (\<lambda>i. 5000 + int i) example_conn)"
  have "c_state ?c = StateReadyToClose" by (simp add: Connection_Close_def Let_def)
  moreover have "SendingWorker_IsEmpty (c_sendingWorker ?c)"
    by (simp add: Connection_Close_def Let_def Connection_SetState_def Connection_Elapsed_def signal_both_def
        example_conn_def NewConnection_def NewReceivingWorker_def NewSendingWorker_def example_config
        SendingWorker_IsEmpty_def SendingWindow_IsEmpty_def NewSendingWindow_def)
  ultimately show ?thesis using flush_skips_terminating [of ?c "\<lambda>i. 5000 + int i"] by simp
qed

lemma ping_period_step:
  assumes step: "conn_step clock c c'" and runs: "up_runs (c_pingUpdater c) = [Ticking p]"
    and nt: "c_state c' \<noteq> StateTerminated"
  shows "up_runs (c_pingUpdater c') = [Ticking p]"
  using step
proof (cases rule: conn_step_cases)
  case handler
  then show ?thesis using runs nt by (simp add: evolves_def)
next
  case (ping i)
  from ping(2) show ?thesis
  proof (cases rule: ping_run_cases)
    case (finished u)
    then show ?thesis using nt by (simp add: isTerminated_def)
  next
    case (flushed d q)
    moreover have "i = 0" using ping(1) runs by simp
    ultimately show ?thesis using evolves_flush [OF flushed(1)] runs nt by (simp add: evolves_def)
  qed
next
  case (terminating n)
  then show ?thesis using runs by (simp add: Connection_Terminate_def signal_both_def Let_def)
qed

text \<open>Setting the interval of the ping updater does not reach the goroutine that is running:
  its ticker keeps the period it was made with (5 s) until the connection is terminated, in
  particular in the terminating states, for which the code asks for one second.\<close>

theorem ping_ticker_keeps_period:
  assumes "(conn_step clock)\<^sup>*\<^sup>* c c'" and "up_runs (c_pingUpdater c) = [Ticking 5000]"
    and "c_state c' \<noteq> StateTerminated"
  shows "up_runs (c_pingUpdater c') = [Ticking 5000]"
  using assms(1,3)
proof (induction rule: rtranclp_induct)
  case (step d e)
  have "c_state d \<noteq> StateTerminated"
    using conn_step_evolves [OF step.hyps(2)] step.prems by (auto simp: evolves'_def state_edge_Terminated)
  then show ?case using ping_period_step [OF step.hyps(2)] step by simp
qed (rule assms(2))

theorem ping_ticker_keeps_period_witness:
  "let c = example_conn\<lparr>c_pingUpdater := \<lparr>up_interval = 5000, up_notifier = \<lparr>sm_cap = 1, sm_token = 0\<rparr>, up_runs = [Ticking 5000]\<rparr>,
             c_state := StatePeerClosed\<rparr>;
       c' = fst (Connection_Close (\<lambda>_. 9) c) in
   c_state c' = StateTerminating \<and> up_interval (c_pingUpdater c') = 1000 \<and> up_runs (c_pingUpdater c') = [Ticking 5000]"
proof -
  let ?c = "example_conn\<lparr>c_pingUpdater := \<lparr>up_interval = 5000, up_notifier = \<lparr>sm_cap = 1, sm_token = 0\<rparr>, up_runs = [Ticking 5000]\<rparr>,
             c_state := StatePeerClosed\<rparr>"
  let ?c' = "fst (Connection_Close (\<lambda>_. 9) ?c)"
  have "(conn_step (\<lambda>_. 9))\<^sup>*\<^sup>* ?c ?c'" by (rule r_into_rtranclp) (rule conn_step.close)
  moreover have "c_state ?c' = StateTerminating" by (simp add: Connection_Close_def Let_def)
  moreover have "up_interval (c_pingUpdater ?c') = 1000"
    by (simp add: Connection_Close_def Let_def Connection_SetState_def Connection_Elapsed_def signal_both_def
        Updater_SetInterval_def)
  ultimately show ?thesis using ping_ticker_keeps_period [of "\<lambda>_. 9" ?c ?c'] by (simp add: Let_def)
qed

section \<open>Bytes in, segments out\<close>

text \<open>What a write leaves to be written.\<close>

fun unwritten :: "write_end \<Rightarrow> bytes \<Rightarrow> bytes" where
  "unwritten WriteClosed rest = rest"
| "unwritten WriteDone rest = []"
| "unwritten (WriteFull b rest') rest = b @ rest'"

lemma write_inner_pushes:
  assumes "write_inner c b rest p = (c', r, p')" "c_state c = StateActive" "c_mss c \<noteq> 0"
  shows "\<exists>chunks. map snd (pending (c_sendingWorker c')) = map snd (pending (c_sendingWorker c)) @ map Some chunks \<and>
     (case b of None \<Rightarrow> rest | Some x \<Rightarrow> x @ rest) = concat chunks @ unwritten r rest \<and> r \<noteq> WriteClosed \<and>
     (\<forall>x \<in> set chunks. (case b of None \<Rightarrow> False | Some y \<Rightarrow> x = y) \<or> (x \<noteq> [] \<and> length x \<le> min 2048 (unat (c_mss c))))"
  using assms
proof (induction c b rest p rule: write_inner.induct)
  case (1 c b rest p)
  let ?in = "case b of Some b \<Rightarrow> Some (b, rest) | None \<Rightarrow> limited_read (c_mss c) rest"
  have mss: "unat (c_mss c) \<noteq> 0" using "1.prems"(3) by (simp add: unat_eq_0)
  show ?case
  proof (cases ?in)
    case None
    then have "b = None" "rest = []" using mss by (auto simp: limited_read_def Let_def split: option.splits if_splits)
    with None "1.prems" have "c' = c" "r = WriteDone" by (simp_all add: write_inner.simps [of c None])
    with \<open>b = None\<close> \<open>rest = []\<close> show ?thesis by (intro exI [of _ "[]"]) simp
  next
    case (Some x)
    obtain b' rest' where x: "x = (b', rest')" by fastforce
    have split: "(case b of None \<Rightarrow> rest | Some y \<Rightarrow> y @ rest) = b' @ rest'"
      and b': "(case b of None \<Rightarrow> False | Some y \<Rightarrow> b' = y) \<or> (b' \<noteq> [] \<and> length b' \<le> min 2048 (unat (c_mss c)))"
      using Some x mss by (auto simp: limited_read_def Let_def split: option.splits if_splits)
    obtain w ok where ps: "SendingWorker_Push (c_sendingWorker c) b' = (w, ok)" by fastforce
    note pp = Push_pending [OF ps]
    show ?thesis
    proof (cases ok)
      case False
      then have "c' = c\<lparr>c_sendingWorker := w\<rparr>" "r = WriteFull b' rest'"
        using "1.prems" Some x ps by (auto simp: write_inner.simps [of c b])
      then show ?thesis using pp False split by (intro exI [of _ "[]"]) simp
    next
      case True
      let ?c = "c\<lparr>c_sendingWorker := w\<rparr>"
      have next': "write_inner ?c None rest' True = (c', r, p')"
        using "1.prems" Some x ps True by (simp add: write_inner.simps [of c b])
      from "1.IH" "1.prems" Some x ps True next'
      obtain chunks where ch:
        "map snd (pending (c_sendingWorker c')) = map snd (pending w) @ map Some chunks"
        "rest' = concat chunks @ unwritten r rest'" "r \<noteq> WriteClosed"
        "\<forall>x \<in> set chunks. x \<noteq> [] \<and> length x \<le> min 2048 (unat (c_mss c))" by fastforce
      have "unwritten r rest' = unwritten r rest" using ch(3) by (cases r) simp_all
      then show ?thesis using ch pp True split b' by (intro exI [of _ "b' # chunks"]) auto
    qed
  qed
qed

text \<open>C16. Writing cuts the bytes into segments in order: the payloads pushed to the sending
  window are non-empty, at most one maximum segment (and one buffer) long, and together
  with what is still unwritten when the window is full they are exactly the bytes given;
  the write is not reported as done before all of them are pushed.\<close>

theorem Write_segments_bytes:
  assumes "Connection_Write c b = (c', r)" and "c_state c = StateActive" and "c_mss c \<noteq> 0"
  shows "\<exists>chunks left. map snd (pending (c_sendingWorker c')) = map snd (pending (c_sendingWorker c)) @ map Some chunks \<and>
     b = concat chunks @ left \<and> (\<forall>x \<in> set chunks. x \<noteq> [] \<and> length x \<le> min 2048 (unat (c_mss c))) \<and>
     (r = Inl None \<and> left = [] \<or> (\<exists>x rest. r = Inr (x, rest) \<and> left = x @ rest))"
proof -
  obtain c1 e p where wi: "write_inner c None b False = (c1, e, p)" by (metis prod_cases3)
  from write_inner_pushes [OF wi assms(2,3)] obtain chunks where ch:
    "map snd (pending (c_sendingWorker c1)) = map snd (pending (c_sendingWorker c)) @ map Some chunks"
    "b = concat chunks @ unwritten e b" "e \<noteq> WriteClosed"
    "\<forall>x \<in> set chunks. x \<noteq> [] \<and> length x \<le> min 2048 (unat (c_mss c))" by auto
  have "c_sendingWorker c' = c_sendingWorker c1"
    using assms(1) wi by (auto simp: Connection_Write_def writeMultiBufferInternal_def wake_data_def)
  moreover have "r = (case e of WriteClosed \<Rightarrow> Inl (Some ErrClosedPipe) | WriteDone \<Rightarrow> Inl None | WriteFull b rest \<Rightarrow> Inr (b, rest))"
    using assms(1) wi by (auto simp: Connection_Write_def writeMultiBufferInternal_def)
  ultimately show ?thesis using ch by (intro exI [of _ chunks] exI [of _ "unwritten e b"]) (cases e; auto)
qed

theorem Write_segments_bytes_witness:
  "\<exists>c' chunks left. Connection_Write example_conn [1, 2, 3] = (c', Inl None) \<and>
     map snd (pending (c_sendingWorker c')) = map Some chunks \<and> concat chunks = [1, 2, 3] \<and> left = ([] :: bytes)"
proof -
  have f: "c_mss example_conn = 1332" "c_sendingWorker example_conn = the (NewSendingWorker default_Config)"
    by (simp_all add: example_conn_def NewConnection_def NewReceivingWorker_def NewSendingWorker_def example_config
        DataSegmentOverhead_def)
  have p: "pending (c_sendingWorker example_conn) = []"
    unfolding f by (simp add: NewSendingWorker_def example_config pending_def NewSendingWindow_def)
  have "snd (Connection_Write example_conn [1, 2, 3]) = Inl None"
    by (simp add: Connection_Write_def writeMultiBufferInternal_def write_inner.simps limited_read_def f
        NewSendingWorker_def example_config SendingWorker_Push_def SendingWindow_Len_def NewSendingWindow_def Let_def)
  then obtain c' where w: "Connection_Write example_conn [1, 2, 3] = (c', Inl None)" by (metis prod.collapse)
  from Write_segments_bytes [OF w] f(1) p show ?thesis using w by auto
qed

text \<open>A closed connection refuses: writes fail without pushing anything once the state is
  not active, and reads report the end of the stream once the connection is closed
  locally, whatever has been received.\<close>

theorem closed_connection_refuses:
  "(c_state c \<noteq> StateActive \<longrightarrow> Connection_Write c b = (c, Inl (Some ErrClosedPipe))) \<and>
   (c_state c \<in> {StateReadyToClose, StateTerminating, StateTerminated} \<longrightarrow>
      Connection_Read c n = (c, Some (Inl ErrEOF)) \<and> Connection_ReadMultiBuffer c = (c, Some (Inl ErrEOF)))"
  by (auto simp: Connection_Write_def writeMultiBufferInternal_def write_inner.simps [of c] Connection_Read_def
      Connection_ReadMultiBuffer_def)

theorem closed_connection_refuses_witness:
  "let c = fst (Connection_Close (\<lambda>_. 5) example_conn) in
   Connection_Write c [1] = (c, Inl (Some ErrClosedPipe)) \<and> Connection_Read c 10 = (c, Some (Inl ErrEOF))"
proof -
  let ?c = "fst (Connection_Close (\<lambda>_. 5) example_conn)"
  have "c_state ?c = StateReadyToClose" by (simp add: Connection_Close_def Let_def)
  with closed_connection_refuses [of ?c "[1]" 10] show ?thesis by (simp add: Let_def)
qed

end
