(* ===== verification/Pipe.thy ===== *)
theory Pipe
  imports MultiBuffer Signal Transition
begin

text \<open>
  \<^verbatim>\<open>transport/pipe\<close>: the in-memory pipe that joins an inbound connection to an outbound one.

  The critical sections (under the pipe's mutex), the signals and the receives of the
  blocking calls are the atomic steps; \<open>pstep\<close> is the step of one goroutine, and \<open>sys_step\<close>
  interleaves any number of readers and writers with \<^verbatim>\<open>Close\<close> and \<^verbatim>\<open>Interrupt\<close>.
\<close>

section \<open>Pipe\<close>

datatype pipe_state = Popen | Pclosed | Perrord

datatype pipe_error = errBufferFull | errSlowDown | io_ErrClosed | io_EOF | ErrReadTimeout

record pipeOption =
  po_limit :: int
  po_discardOverflow :: bool

definition isFull :: "pipeOption \<Rightarrow> int \<Rightarrow> bool" where
  "isFull opt curSize \<longleftrightarrow> po_limit opt \<ge> 0 \<and> curSize > po_limit opt"

text \<open>A nil \<^verbatim>\<open>MultiBuffer\<close> is \<open>None\<close>.\<close>

record pipe =
  pp_data :: "MultiBuffer option"
  pp_readSignal :: Notifier
  pp_writeSignal :: Notifier
  pp_done :: Done
  pp_option :: pipeOption
  pp_state :: pipe_state

definition mb_of :: "MultiBuffer option \<Rightarrow> MultiBuffer" where
  "mb_of d = (case d of None \<Rightarrow> [] | Some mb \<Rightarrow> mb)"

definition getState :: "pipe \<Rightarrow> bool \<Rightarrow> pipe_error option" where
  "getState p forRead =
     (case pp_state p of
        Popen \<Rightarrow> if \<not> forRead \<and> isFull (pp_option p) (MultiBuffer_Len (mb_of (pp_data p))) then Some errBufferFull else None
      | Pclosed \<Rightarrow>
          if \<not> forRead then Some io_ErrClosed
          else if \<not> MultiBuffer_IsEmpty (mb_of (pp_data p)) then None
          else Some io_EOF
      | Perrord \<Rightarrow> Some io_ErrClosed)"

definition readMultiBufferInternal :: "pipe \<Rightarrow> pipe \<times> MultiBuffer option \<times> pipe_error option" where
  "readMultiBufferInternal p =
     (case getState p True of
        Some err \<Rightarrow> (p, None, Some err)
      | None \<Rightarrow> (p\<lparr>pp_data := None\<rparr>, pp_data p, None))"

definition pipe_writeInternal :: "pipe \<Rightarrow> MultiBuffer \<Rightarrow> pipe \<times> pipe_error option" where
  "pipe_writeInternal p mb =
     (case getState p False of
        Some err \<Rightarrow> (p, Some err)
      | None \<Rightarrow>
          (case pp_data p of
             None \<Rightarrow> (p\<lparr>pp_data := Some mb\<rparr>, None)
           | Some d \<Rightarrow> (p\<lparr>pp_data := Some (fst (MergeMulti d mb))\<rparr>, Some errSlowDown)))"

definition pipe_Close :: "pipe \<Rightarrow> pipe" where
  "pipe_Close p =
     (if pp_state p = Pclosed \<or> pp_state p = Perrord then p
      else p\<lparr>pp_state := Pclosed, pp_done := Done_Close (pp_done p)\<rparr>)"

definition pipe_Interrupt :: "pipe \<Rightarrow> pipe" where
  "pipe_Interrupt p =
     (if pp_state p = Pclosed \<or> pp_state p = Perrord then p
      else
        let p = p\<lparr>pp_state := Perrord\<rparr>;
            p = (if \<not> MultiBuffer_IsEmpty (mb_of (pp_data p)) then p\<lparr>pp_data := None\<rparr> else p)
        in p\<lparr>pp_done := Done_Close (pp_done p)\<rparr>)"

section \<open>Options\<close>

type_synonym Option = "pipeOption \<Rightarrow> pipeOption"

definition WithoutSizeLimit :: Option where
  "WithoutSizeLimit opt = opt\<lparr>po_limit := - 1\<rparr>"

definition WithSizeLimit :: "int \<Rightarrow> Option" where
  "WithSizeLimit limit opt = opt\<lparr>po_limit := limit\<rparr>"

definition DiscardOverflow :: Option where
  "DiscardOverflow opt = opt\<lparr>po_discardOverflow := True\<rparr>"

text \<open>\<open>perConnection\<close> is the buffer policy found in the context.\<close>

definition OptionsFromContext :: "int \<Rightarrow> Option list" where
  "OptionsFromContext perConnection =
     (if perConnection \<ge> 0 then [WithSizeLimit perConnection] else [WithoutSizeLimit])"

definition pipe_New :: "Option list \<Rightarrow> pipe" where
  "pipe_New opts =
     \<lparr>pp_data = None, pp_readSignal = NewNotifier, pp_writeSignal = NewNotifier, pp_done = Done_New,
      pp_option = fold (\<lambda>opt o'. opt o') opts \<lparr>po_limit = - 1, po_discardOverflow = False\<rparr>,
      pp_state = Popen\<rparr>"

section \<open>Goroutines\<close>

text \<open>Where a goroutine is in \<^verbatim>\<open>ReadMultiBuffer\<close> or \<^verbatim>\<open>ReadMultiBufferTimeout\<close> (the flag) and in
  \<^verbatim>\<open>WriteMultiBuffer\<close>: about to enter the critical section, about to signal and return,
  waiting in the select, or returned.\<close>

datatype thread =
    RCall bool
  | RSignal "MultiBuffer option" "pipe_error option"
  | RWait bool
  | RRet "MultiBuffer option" "pipe_error option"
  | WCall MultiBuffer
  | WSignal "pipe_error option"
  | WWait MultiBuffer
  | WRet "pipe_error option"

definition pipe_Read :: "bool \<Rightarrow> pipe \<Rightarrow> pipe \<times> thread" where
  "pipe_Read timed p =
     (let (p, data, err) = readMultiBufferInternal p in
      if data \<noteq> None \<or> err \<noteq> None then (p, RSignal data err) else (p, RWait timed))"

definition pipe_Write_start :: "MultiBuffer \<Rightarrow> thread" where
  "pipe_Write_start mb = (if MultiBuffer_IsEmpty mb then WRet None else WCall mb)"

definition pipe_Write :: "MultiBuffer \<Rightarrow> pipe \<Rightarrow> pipe \<times> thread" where
  "pipe_Write mb p =
     (let (p, err) = pipe_writeInternal p mb in
      case err of
        None \<Rightarrow> (p, WSignal None)
      | Some e \<Rightarrow>
          if e = errSlowDown then (p, WSignal None)
          else if e = errBufferFull \<and> po_discardOverflow (pp_option p) then (p, WRet None)
          else if e \<noteq> errBufferFull then (p, WSignal (Some e))
          else (p, WWait mb))"

inductive pstep :: "pipe \<Rightarrow> thread \<Rightarrow> pipe \<Rightarrow> thread \<Rightarrow> bool" where
  r_call: "pipe_Read timed p = (p', t) \<Longrightarrow> pstep p (RCall timed) p' t"
| r_signal: "pstep p (RSignal data err) (p\<lparr>pp_writeSignal := Notifier_Signal (pp_writeSignal p)\<rparr>) (RRet data err)"
| r_wake: "Notifier_Wait (pp_readSignal p) = Some n \<Longrightarrow> pstep p (RWait timed) (p\<lparr>pp_readSignal := n\<rparr>) (RCall timed)"
| r_done: "Done_Done (pp_done p) \<Longrightarrow> pstep p (RWait timed) p (RCall timed)"
| r_timeout: "pstep p (RWait True) p (RRet None (Some ErrReadTimeout))"
| w_call: "pipe_Write mb p = (p', t) \<Longrightarrow> pstep p (WCall mb) p' t"
| w_signal: "pstep p (WSignal err) (p\<lparr>pp_readSignal := Notifier_Signal (pp_readSignal p)\<rparr>) (WRet err)"
| w_wake: "Notifier_Wait (pp_writeSignal p) = Some n \<Longrightarrow> pstep p (WWait mb) (p\<lparr>pp_writeSignal := n\<rparr>) (WCall mb)"
| w_done: "Done_Done (pp_done p) \<Longrightarrow> pstep p (WWait mb) p (WRet (Some io_ErrClosed))"

inductive_cases pstepE: "pstep p t p' t'"

text \<open>The bytes a step adds to what has been accepted, and to what has been delivered.\<close>

definition accepts :: "thread \<Rightarrow> thread \<Rightarrow> bytes" where
  "accepts t t' = (case (t, t') of (WCall mb, WSignal None) \<Rightarrow> mb_content mb | _ \<Rightarrow> [])"

definition delivers :: "thread \<Rightarrow> thread \<Rightarrow> bytes" where
  "delivers t t' = (case (t, t') of (RCall _, RSignal (Some mb) None) \<Rightarrow> mb_content mb | _ \<Rightarrow> [])"

record psys =
  ps_pipe :: pipe
  ps_threads :: "thread list"
  ps_accepted :: bytes
  ps_delivered :: bytes

definition sys_init :: "Option list \<Rightarrow> psys \<Rightarrow> bool" where
  "sys_init opts s \<longleftrightarrow> s = \<lparr>ps_pipe = pipe_New opts, ps_threads = [], ps_accepted = [], ps_delivered = []\<rparr>"

inductive sys_step :: "psys \<Rightarrow> psys \<Rightarrow> bool" where
  run: "i < length (ps_threads s) \<Longrightarrow> pstep (ps_pipe s) (ps_threads s ! i) p' t' \<Longrightarrow>
    sys_step s (s\<lparr>ps_pipe := p', ps_threads := (ps_threads s)[i := t'],
      ps_accepted := ps_accepted s @ accepts (ps_threads s ! i) t',
      ps_delivered := ps_delivered s @ delivers (ps_threads s ! i) t'\<rparr>)"
| new_reader: "sys_step s (s\<lparr>ps_threads := ps_threads s @ [RCall timed]\<rparr>)"
| new_writer: "wf_mb mb \<Longrightarrow> sys_step s (s\<lparr>ps_threads := ps_threads s @ [pipe_Write_start mb]\<rparr>)"
| close: "sys_step s (s\<lparr>ps_pipe := pipe_Close (ps_pipe s)\<rparr>)"
| interrupt: "sys_step s (s\<lparr>ps_pipe := pipe_Interrupt (ps_pipe s)\<rparr>)"

section \<open>Invariant\<close>

abbreviation data_bytes :: "pipe \<Rightarrow> bytes" where
  "data_bytes p \<equiv> mb_content (mb_of (pp_data p))"

definition fifo_inv :: "psys \<Rightarrow> bool" where
  "fifo_inv s \<longleftrightarrow> (\<exists>rest. ps_accepted s = ps_delivered s @ rest \<and>
     (pp_state (ps_pipe s) \<noteq> Perrord \<longrightarrow> rest = data_bytes (ps_pipe s)))"

text \<open>A goroutine that is about to look at the data or to raise the read signal; one that is
  about to write or to raise the write signal; a waiting writer.\<close>

fun looking :: "thread \<Rightarrow> bool" where
  "looking (RCall _) = True"
| "looking (WSignal _) = True"
| "looking _ = False"

fun making_room :: "thread \<Rightarrow> bool" where
  "making_room (WCall _) = True"
| "making_room (RSignal _ _) = True"
| "making_room _ = False"

fun writer_waits :: "thread \<Rightarrow> bool" where
  "writer_waits (WWait _) = True"
| "writer_waits _ = False"

definition wake_inv :: "psys \<Rightarrow> bool" where
  "wake_inv s \<longleftrightarrow>
     (pp_state (ps_pipe s) = Popen \<and> pp_data (ps_pipe s) \<noteq> None \<longrightarrow>
        nt_c (pp_readSignal (ps_pipe s)) \<or> list_ex looking (ps_threads s)) \<and>
     (pp_state (ps_pipe s) = Popen \<and> pp_data (ps_pipe s) = None \<and> list_ex writer_waits (ps_threads s) \<longrightarrow>
        nt_c (pp_writeSignal (ps_pipe s)) \<or> list_ex making_room (ps_threads s)) \<and>
     (dn_closed (pp_done (ps_pipe s)) \<longleftrightarrow> pp_state (ps_pipe s) \<noteq> Popen)"

lemma list_ex_update:
  assumes "i < length xs"
  shows "list_ex P (xs[i := y]) \<longleftrightarrow> P y \<or> list_ex P (take i xs @ drop (Suc i) xs)"
    and "list_ex P xs \<longleftrightarrow> P (xs ! i) \<or> list_ex P (take i xs @ drop (Suc i) xs)"
proof -
  show "list_ex P (xs[i := y]) \<longleftrightarrow> P y \<or> list_ex P (take i xs @ drop (Suc i) xs)"
    using assms by (auto simp: upd_conv_take_nth_drop)
  have "list_ex P xs = list_ex P (take i xs @ xs ! i # drop (Suc i) xs)"
    using assms by (simp only: id_take_nth_drop [symmetric])
  then show "list_ex P xs \<longleftrightarrow> P (xs ! i) \<or> list_ex P (take i xs @ drop (Suc i) xs)" by auto
qed

lemma mb_of_simps [simp]: "mb_of None = []" "mb_of (Some mb) = mb"
  by (simp_all add: mb_of_def)

lemma MultiBuffer_Len_Nil [simp]: "MultiBuffer_Len [] = 0"
  by (simp add: MultiBuffer_Len_def)

text \<open>The critical sections, case by case.\<close>

lemma pipe_Read_cases:
  assumes "pipe_Read timed p = (p', t)"
  obtains (data) mb where "pp_data p = Some mb" "p' = p\<lparr>pp_data := None\<rparr>" "t = RSignal (Some mb) None"
      "pp_state p \<noteq> Perrord"
    | (empty) "pp_state p = Popen" "pp_data p = None" "p' = p\<lparr>pp_data := None\<rparr>" "t = RWait timed"
    | (failed) err where "pp_state p \<noteq> Popen" "p' = p" "t = RSignal None (Some err)"
  using assms
  by (cases "pp_state p"; cases "pp_data p")
    (auto simp: pipe_Read_def readMultiBufferInternal_def getState_def split: if_splits)

lemma pipe_Write_cases:
  assumes "pipe_Write mb p = (p', t)"
  obtains (accepted) "pp_state p = Popen" "\<not> isFull (pp_option p) (MultiBuffer_Len (mb_of (pp_data p)))"
      "p' = p\<lparr>pp_data := Some (mb_of (pp_data p) @ mb)\<rparr>" "t = WSignal None"
    | (full) "pp_state p = Popen" "isFull (pp_option p) (MultiBuffer_Len (mb_of (pp_data p)))" "p' = p"
        "t = (if po_discardOverflow (pp_option p) then WRet None else WWait mb)"
    | (refused) "pp_state p \<noteq> Popen" "p' = p" "t = WSignal (Some io_ErrClosed)"
  using assms
  by (cases "pp_state p"; cases "pp_data p")
    (auto simp: pipe_Write_def pipe_writeInternal_def getState_def MergeMulti_def split: if_splits)

lemma full_has_data: "isFull (pp_option p) (MultiBuffer_Len (mb_of (pp_data p))) \<Longrightarrow> pp_data p \<noteq> None"
  by (cases "pp_data p") (auto simp: isFull_def)

text \<open>FIFO order: one step of a goroutine.\<close>

lemma fifo_pstep:
  assumes "pstep p t p' t'" "acc = del @ rest" "pp_state p \<noteq> Perrord \<longrightarrow> rest = data_bytes p"
  shows "pp_state p' = pp_state p \<and>
    (\<exists>rest'. acc @ accepts t t' = (del @ delivers t t') @ rest' \<and> (pp_state p' \<noteq> Perrord \<longrightarrow> rest' = data_bytes p'))"
  using assms(1)
proof (cases rule: pstep.cases)
  case (r_call timed)
  from r_call(2) show ?thesis
    by (cases rule: pipe_Read_cases) (use assms r_call(1) in \<open>auto simp: accepts_def delivers_def\<close>)
next
  case (w_call mb)
  from w_call(2) show ?thesis
    by (cases rule: pipe_Write_cases) (use assms w_call(1) in \<open>auto simp: accepts_def delivers_def\<close>)
qed (use assms in \<open>auto simp: accepts_def delivers_def\<close>)

lemma fifo_step:
  assumes "sys_step s s'" "fifo_inv s"
  shows "fifo_inv s'"
  using assms(1)
proof (cases rule: sys_step.cases)
  case (run i p' t')
  obtain rest where "ps_accepted s = ps_delivered s @ rest"
      "pp_state (ps_pipe s) \<noteq> Perrord \<longrightarrow> rest = data_bytes (ps_pipe s)"
    using assms(2) by (auto simp: fifo_inv_def)
  from fifo_pstep [OF run(3) this] show ?thesis by (auto simp: run(1) fifo_inv_def)
next
  case close
  with assms(2) show ?thesis by (auto simp: fifo_inv_def pipe_Close_def)
next
  case interrupt
  with assms(2) show ?thesis by (auto simp: fifo_inv_def pipe_Interrupt_def Let_def)
qed (use assms(2) in \<open>auto simp: fifo_inv_def\<close>)

text \<open>No lost wake-up: one step of a goroutine.\<close>

lemma wake_run:
  assumes i: "i < length (ps_threads s)" and st: "pstep (ps_pipe s) (ps_threads s ! i) p' t'"
    and inv: "wake_inv s"
  shows "wake_inv (s\<lparr>ps_pipe := p', ps_threads := (ps_threads s)[i := t'], ps_accepted := a, ps_delivered := d\<rparr>)"
proof -
  define others where "others = take i (ps_threads s) @ drop (Suc i) (ps_threads s)"
  note upd = list_ex_update(1) [OF i, folded others_def] and old = list_ex_update(2) [OF i, folded others_def]
  from st show ?thesis
  proof (cases rule: pstep.cases)
    case (r_call timed)
    from r_call(2) show ?thesis
      by (cases rule: pipe_Read_cases) (use inv r_call(1) in \<open>simp_all add: wake_inv_def upd old\<close>)
  next
    case (w_call mb)
    from w_call(2) show ?thesis
    proof (cases rule: pipe_Write_cases)
      case full
      with full_has_data [OF full(2)] inv w_call(1) show ?thesis by (auto simp: wake_inv_def upd old)
    qed (use inv w_call(1) in \<open>simp_all add: wake_inv_def upd old\<close>)
  qed (use inv in \<open>auto simp: wake_inv_def upd old Done_Done_def\<close>)
qed

lemma wake_step:
  assumes "sys_step s s'" "wake_inv s"
  shows "wake_inv s'"
  using assms(1)
proof (cases rule: sys_step.cases)
  case (run i p' t')
  then show ?thesis using wake_run [OF run(2,3) assms(2)] by simp
next
  case (new_reader timed)
  with assms(2) show ?thesis by (auto simp: wake_inv_def list_ex_append)
next
  case (new_writer mb)
  with assms(2) show ?thesis by (auto simp: wake_inv_def list_ex_append pipe_Write_start_def)
next
  case close
  with assms(2) show ?thesis by (auto simp: wake_inv_def pipe_Close_def list_ex_append)
next
  case interrupt
  with assms(2) show ?thesis
    by (auto simp: wake_inv_def pipe_Interrupt_def Let_def list_ex_append)
qed

interpretation pipe_sys: invariant_system "sys_init opts" sys_step "\<lambda>s. fifo_inv s \<and> wake_inv s" for opts
proof
  fix s assume "sys_init opts s"
  then show "fifo_inv s \<and> wake_inv s"
    by (simp add: sys_init_def fifo_inv_def wake_inv_def pipe_New_def)
qed (auto intro: fifo_step wake_step)

section \<open>Properties\<close>

text \<open>C6. With any number of concurrent readers and writers, the bytes the readers get are, in
  order, a prefix of the bytes the pipe accepted from the writers; until the pipe is
  interrupted, what is missing is exactly what is in the pipe.\<close>

theorem pipe_fifo:
  assumes "sys_init opts s" and "sys_step\<^sup>*\<^sup>* s s'"
  shows "\<exists>rest. ps_accepted s' = ps_delivered s' @ rest \<and>
     (pp_state (ps_pipe s') \<noteq> Perrord \<longrightarrow> rest = mb_content (mb_of (pp_data (ps_pipe s'))))"
  using pipe_sys.reachable_inv [OF assms] by (simp add: fifo_inv_def)

text \<open>C2. No wake-up is lost. While the pipe is open and holds data, a waiting reader can be woken
  by the read signal unless a goroutine that will look at the data or raise the signal is
  still on its way; while it is open and empty, the same holds for waiting writers and the
  write signal; and once it is closed or interrupted, no goroutine waits for ever, since
  the done channel is closed.\<close>

theorem pipe_no_lost_wakeup:
  assumes "sys_init opts s" and "sys_step\<^sup>*\<^sup>* s s'"
  shows "(pp_state (ps_pipe s') = Popen \<and> pp_data (ps_pipe s') \<noteq> None \<longrightarrow>
       nt_c (pp_readSignal (ps_pipe s')) \<or> list_ex looking (ps_threads s')) \<and>
     (pp_state (ps_pipe s') = Popen \<and> pp_data (ps_pipe s') = None \<and> list_ex writer_waits (ps_threads s') \<longrightarrow>
       nt_c (pp_writeSignal (ps_pipe s')) \<or> list_ex making_room (ps_threads s')) \<and>
     (pp_state (ps_pipe s') \<noteq> Popen \<longrightarrow> Done_Done (pp_done (ps_pipe s')))"
  using pipe_sys.reachable_inv [OF assms]
  by (simp add: wake_inv_def list_ex_append Done_Done_def)

text \<open>A run: a writer puts two bytes into the pipe.\<close>

definition two_bytes :: MultiBuffer where
  "two_bytes = [\<lparr>buf_v = [65, 66], buf_start = 0, buf_end = 2, buf_ownership = unmanaged\<rparr>]"

definition pipe_run :: psys where
  "pipe_run = \<lparr>ps_pipe = (pipe_New [])\<lparr>pp_data := Some two_bytes\<rparr>, ps_threads = [WSignal None],
     ps_accepted = [65, 66], ps_delivered = []\<rparr>"

lemma two_bytes_facts: "wf_mb two_bytes" "\<not> MultiBuffer_IsEmpty two_bytes" "mb_content two_bytes = [65, 66]"
  by (simp_all add: two_bytes_def wf_Buffer_def Buffer_IsEmpty_def Buffer_Len_def i32_def content_def)

lemma pipe_run_reachable: "\<exists>s. sys_init [] s \<and> sys_step\<^sup>*\<^sup>* s pipe_run"
proof -
  let ?s = "\<lparr>ps_pipe = pipe_New [], ps_threads = [], ps_accepted = [], ps_delivered = []\<rparr>"
  let ?s1 = "?s\<lparr>ps_threads := [WCall two_bytes]\<rparr>"
  have 1: "sys_step ?s ?s1"
    using new_writer [OF two_bytes_facts(1), of ?s] by (simp add: pipe_Write_start_def two_bytes_facts)
  have "pipe_Write two_bytes (pipe_New []) = ((pipe_New [])\<lparr>pp_data := Some two_bytes\<rparr>, WSignal None)"
    by (simp add: pipe_Write_def pipe_writeInternal_def getState_def pipe_New_def isFull_def)
  then have "pstep (ps_pipe ?s1) (ps_threads ?s1 ! 0) ((pipe_New [])\<lparr>pp_data := Some two_bytes\<rparr>) (WSignal None)"
    by (simp add: w_call)
  from run [OF _ this] have 2: "sys_step ?s1 pipe_run"
    by (simp add: pipe_run_def accepts_def delivers_def two_bytes_facts)
  show ?thesis using 1 2 by (intro exI [of _ ?s]) (auto simp: sys_init_def intro: converse_rtranclp_into_rtranclp)
qed

theorem pipe_fifo_witness:
  "\<exists>rest. ps_accepted pipe_run = ps_delivered pipe_run @ rest \<and> rest = [65, 66]"
proof -
  obtain s where "sys_init [] s" "sys_step\<^sup>*\<^sup>* s pipe_run" using pipe_run_reachable by blast
  from pipe_fifo [OF this] show ?thesis by (auto simp: pipe_run_def pipe_New_def two_bytes_facts)
qed

theorem pipe_no_lost_wakeup_witness:
  "pp_data (ps_pipe pipe_run) = Some two_bytes \<and>
   (nt_c (pp_readSignal (ps_pipe pipe_run)) \<or> list_ex looking (ps_threads pipe_run))"
proof -
  obtain s where "sys_init [] s" "sys_step\<^sup>*\<^sup>* s pipe_run" using pipe_run_reachable by blast
  from pipe_no_lost_wakeup [OF this] show ?thesis by (simp add: pipe_run_def pipe_New_def)
qed

text \<open>The size limit: a write of a non-empty buffer is accepted exactly when the pipe is open
  and holds no more than the limit (or has none); otherwise the pipe is unchanged, and the
  writer waits, drops the data if the pipe discards overflow, or gets an error if the pipe
  is closed.\<close>

theorem pipe_write_limit:
  "case pipe_Write mb p of (p', t) \<Rightarrow>
     (if pp_state p \<noteq> Popen then p' = p \<and> t = WSignal (Some io_ErrClosed)
      else if po_limit (pp_option p) < 0 \<or> MultiBuffer_Len (mb_of (pp_data p)) \<le> po_limit (pp_option p)
      then t = WSignal None \<and> mb_of (pp_data p') = mb_of (pp_data p) @ mb
      else p' = p \<and> t = (if po_discardOverflow (pp_option p) then WRet None else WWait mb))"
proof -
  obtain p' t where w: "pipe_Write mb p = (p', t)" by fastforce
  show ?thesis unfolding w prod.case using w by (cases rule: pipe_Write_cases) (auto simp: isFull_def)
qed

end
