(* ===== verification/Packet_Header.thy ===== *)
theory Packet_Header
  imports Prelude
begin

text \<open>
  \<^verbatim>\<open>transport/internet/headers\<close>: the headers that disguise mKCP packets. \<^verbatim>\<open>Serialize\<close> fills a
  slice of \<^verbatim>\<open>Size\<close> bytes; the model returns the bytes it fills it with and the header with
  its counters moved on. The random start values are arguments of the constructors.
\<close>

section \<open>Interface\<close>

text \<open>What the packet writer and reader rely on.\<close>

locale packet_header =
  fixes hdr_Size :: int and hdr_Serialize :: "'h \<Rightarrow> 'h \<times> bytes"
  assumes size_nonneg: "0 \<le> hdr_Size" and size_small: "hdr_Size \<le> 64"
    and serialize_fills: "length (snd (hdr_Serialize h)) = nat hdr_Size"
begin

text \<open>A packet after the header is what the reader finds by dropping \<^verbatim>\<open>Size\<close> bytes, however
  many packets were sent before.\<close>

fun send_all :: "'h \<Rightarrow> bytes list \<Rightarrow> bytes list" where
  "send_all h [] = []"
| "send_all h (b # bs) = (snd (hdr_Serialize h) @ b) # send_all (fst (hdr_Serialize h)) bs"

lemma strip_all: "map (drop (nat hdr_Size)) (send_all h bs) = bs"
  by (induction bs arbitrary: h) (auto simp: serialize_fills)

end

section \<open>The headers\<close>

definition noop_Size :: int where "noop_Size = 0"

definition noop_Serialize :: "unit \<Rightarrow> unit \<times> bytes" where
  "noop_Serialize h = (h, [])"

record SRTP =
  srtp_header :: u16
  srtp_number :: u16

definition SRTP_Size :: int where "SRTP_Size = 4"

definition SRTP_New :: "u16 \<Rightarrow> SRTP" where
  "SRTP_New roll = \<lparr>srtp_header = 0xB5E8, srtp_number = roll\<rparr>"

definition SRTP_Serialize :: "SRTP \<Rightarrow> SRTP \<times> bytes" where
  "SRTP_Serialize s =
     (let s = s\<lparr>srtp_number := srtp_number s + 1\<rparr>
      in (s, be_PutUint16 (srtp_header s) @ be_PutUint16 (srtp_number s)))"

record DTLS =
  dtls_epoch :: u16
  dtls_length :: u16
  dtls_sequence :: u32

definition DTLS_Size :: int where "DTLS_Size = 1 + 2 + 2 + 6 + 2"

definition DTLS_New :: "u16 \<Rightarrow> DTLS" where
  "DTLS_New roll = \<lparr>dtls_epoch = roll, dtls_length = 17, dtls_sequence = 0\<rparr>"

definition DTLS_Serialize :: "DTLS \<Rightarrow> DTLS \<times> bytes" where
  "DTLS_Serialize d =
     (let b = [23, 254, 253, ucast (drop_bit 8 (dtls_epoch d)), ucast (dtls_epoch d), 0, 0,
               ucast (drop_bit 24 (dtls_sequence d)), ucast (drop_bit 16 (dtls_sequence d)),
               ucast (drop_bit 8 (dtls_sequence d)), ucast (dtls_sequence d),
               ucast (drop_bit 8 (dtls_length d)), ucast (dtls_length d)];
          d = d\<lparr>dtls_sequence := dtls_sequence d + 1\<rparr>;
          d = d\<lparr>dtls_length := dtls_length d + 17\<rparr>;
          d = (if dtls_length d > 100 then d\<lparr>dtls_length := dtls_length d - 50\<rparr> else d)
      in (d, b))"

record UTP =
  utp_header :: byte
  utp_extension :: byte
  utp_connectionID :: u16

definition UTP_Size :: int where "UTP_Size = 4"

definition UTP_New :: "u16 \<Rightarrow> UTP" where
  "UTP_New roll = \<lparr>utp_header = 1, utp_extension = 0, utp_connectionID = roll\<rparr>"

definition UTP_Serialize :: "UTP \<Rightarrow> UTP \<times> bytes" where
  "UTP_Serialize u = (u, be_PutUint16 (utp_connectionID u) @ [utp_header u, utp_extension u])"

record VideoChat =
  vc_sn :: u32

definition VideoChat_Size :: int where "VideoChat_Size = 13"

definition NewVideoChat :: "u16 \<Rightarrow> VideoChat" where
  "NewVideoChat roll = \<lparr>vc_sn = ucast roll\<rparr>"

definition VideoChat_Serialize :: "VideoChat \<Rightarrow> VideoChat \<times> bytes" where
  "VideoChat_Serialize vc =
     (let vc = vc\<lparr>vc_sn := vc_sn vc + 1\<rparr>
      in (vc, [0xa1, 0x08] @ be_PutUint32 (vc_sn vc) @ [0x00, 0x10, 0x11, 0x18, 0x30, 0x22, 0x30]))"

definition Wireguard_Size :: int where "Wireguard_Size = 4"

definition Wireguard_Serialize :: "unit \<Rightarrow> unit \<times> bytes" where
  "Wireguard_Serialize h = (h, [0x04, 0x00, 0x00, 0x00])"

lemmas header_defs = noop_Size_def noop_Serialize_def SRTP_Size_def SRTP_Serialize_def DTLS_Size_def
  DTLS_Serialize_def UTP_Size_def UTP_Serialize_def VideoChat_Size_def VideoChat_Serialize_def
  Wireguard_Size_def Wireguard_Serialize_def

interpretation noop: packet_header noop_Size noop_Serialize
  by unfold_locales (simp_all add: header_defs)

interpretation srtp: packet_header SRTP_Size SRTP_Serialize
  by unfold_locales (simp_all add: header_defs Let_def)

interpretation dtls: packet_header DTLS_Size DTLS_Serialize
  by unfold_locales (simp_all add: header_defs Let_def)

interpretation utp: packet_header UTP_Size UTP_Serialize
  by unfold_locales (simp_all add: header_defs)

interpretation wechat: packet_header VideoChat_Size VideoChat_Serialize
  by unfold_locales (simp_all add: header_defs Let_def)

interpretation wireguard: packet_header Wireguard_Size Wireguard_Serialize
  by unfold_locales (simp_all add: header_defs)

text \<open>The DTLS record lengths cycle within a small range.\<close>

lemma u16_plus_17: "l \<le> 100 \<Longrightarrow> unat (l + 17 :: u16) = unat l + 17"
  by (simp add: unat_word_ariths word_le_nat_alt)

text \<open>The length field of the DTLS disguise stays between 17 and 100: it starts at 17, and
  each packet keeps it there while the sequence number goes up by one, so that it never
  wraps.\<close>

theorem DTLS_length_range:
  assumes "17 \<le> dtls_length d" and "dtls_length d \<le> 100"
  shows "17 \<le> dtls_length (fst (DTLS_Serialize d)) \<and> dtls_length (fst (DTLS_Serialize d)) \<le> 100 \<and>
     dtls_sequence (fst (DTLS_Serialize d)) = dtls_sequence d + 1"
proof -
  have l: "unat (dtls_length d + 17) = unat (dtls_length d) + 17" using assms(2) by (rule u16_plus_17)
  have b: "17 \<le> unat (dtls_length d)" "unat (dtls_length d) \<le> 100" using assms by (simp_all add: word_le_nat_alt)
  show ?thesis
  proof (cases "dtls_length d + 17 > 100")
    case True
    then have "unat (dtls_length d + 17 - 50) = unat (dtls_length d + 17) - 50"
      by (subst unat_sub) (auto simp: word_le_nat_alt word_less_nat_alt)
    moreover have "100 < unat (dtls_length d) + 17" using True l by (simp add: word_less_nat_alt)
    ultimately have "17 \<le> unat (dtls_length d + 17 - 50)" "unat (dtls_length d + 17 - 50) \<le> 100"
      using l b by simp_all
    then show ?thesis using True by (simp add: DTLS_Serialize_def Let_def word_le_nat_alt)
  next
    case False
    then show ?thesis using l b by (simp add: DTLS_Serialize_def Let_def word_le_nat_alt word_less_nat_alt)
  qed
qed

theorem DTLS_length_range_witness:
  "17 \<le> dtls_length (fst (DTLS_Serialize (DTLS_New 5))) \<and> dtls_length (fst (DTLS_Serialize (DTLS_New 5))) \<le> 100"
  using DTLS_length_range [of "DTLS_New 5"] by (simp add: DTLS_New_def)

end
