(* ===== verification/Go_Std.thy ===== *)
theory Go_Std
  imports Prelude
begin

text \<open>
  The parts of Go's standard library the address code uses: \<^verbatim>\<open>strings.TrimSpace\<close>,
  \<^verbatim>\<open>net.ParseIP\<close> (through \<^verbatim>\<open>netip.ParseAddr\<close>), \<^verbatim>\<open>strconv.ParseUint\<close> and \<^verbatim>\<open>strconv.Itoa\<close>. A Go
  string is its bytes.
\<close>

definition str :: "string \<Rightarrow> bytes" where
  "str s = map of_char s"

section \<open>strings.TrimSpace\<close>

text \<open>The UTF-8 encodings of the runes that are white space.\<close>

definition space_runes :: "bytes list" where
  "space_runes = map (\<lambda>b. [b]) [9, 10, 11, 12, 13, 32] @ [[0xC2, 0x85], [0xC2, 0xA0], [0xE1, 0x9A, 0x80]] @
     map (\<lambda>b. [0xE2, 0x80, b]) [0x80, 0x81, 0x82, 0x83, 0x84, 0x85, 0x86, 0x87, 0x88, 0x89, 0x8A, 0xA8, 0xA9, 0xAF] @
     [[0xE2, 0x81, 0x9F], [0xE3, 0x80, 0x80]]"

definition starts_with :: "bytes \<Rightarrow> bytes \<Rightarrow> bool" where
  "starts_with s p \<longleftrightarrow> take (length p) s = p"

lemma space_runes_nonempty: "r \<in> set space_runes \<Longrightarrow> r \<noteq> []"
  by (auto simp: space_runes_def)

lemma starts_with_shorter: "r \<noteq> [] \<Longrightarrow> starts_with s r \<Longrightarrow> length (drop (length r) s) < length s"
  by (cases s) (auto simp: starts_with_def)

function trim_with :: "bytes list \<Rightarrow> bytes \<Rightarrow> bytes" where
  "trim_with runes s =
     (case find (\<lambda>r. r \<noteq> [] \<and> starts_with s r) runes of
        None \<Rightarrow> s
      | Some r \<Rightarrow> trim_with runes (drop (length r) s))"
  by pat_completeness auto
termination
  by (relation "measure (\<lambda>(_, s). length s)")
    (auto simp: find_Some_iff dest!: starts_with_shorter simp del: length_drop)

declare trim_with.simps [simp del]

definition TrimSpace :: "bytes \<Rightarrow> bytes" where
  "TrimSpace s = rev (trim_with (map rev space_runes) (rev (trim_with space_runes s)))"

section \<open>net.ParseIP\<close>

definition digit :: "byte \<Rightarrow> nat option" where
  "digit c = (if 48 \<le> c \<and> c \<le> 57 then Some (unat c - 48) else None)"

definition hexval :: "byte \<Rightarrow> nat option" where
  "hexval c =
     (if 48 \<le> c \<and> c \<le> 57 then Some (unat c - 48)
      else if 97 \<le> c \<and> c \<le> 102 then Some (unat c - 97 + 10)
      else if 65 \<le> c \<and> c \<le> 70 then Some (unat c - 65 + 10)
      else None)"

fun parseIPv4Fields :: "bytes \<Rightarrow> nat \<Rightarrow> nat \<Rightarrow> bytes \<Rightarrow> bytes option" where
  "parseIPv4Fields [] val digLen fields = (if length fields < 3 then None else Some (fields @ [word_of_nat val]))"
| "parseIPv4Fields (c # s) val digLen fields =
     (case digit c of
        Some d \<Rightarrow>
          if digLen = 1 \<and> val = 0 then None
          else if val * 10 + d > 255 then None
          else parseIPv4Fields s (val * 10 + d) (Suc digLen) fields
      | None \<Rightarrow>
          if c \<noteq> 46 then None
          else if digLen = 0 \<or> s = [] then None
          else if length fields = 3 then None
          else parseIPv4Fields s 0 0 (fields @ [word_of_nat val]))"

fun hex_group :: "bytes \<Rightarrow> nat \<Rightarrow> nat \<Rightarrow> (nat \<times> nat \<times> bytes) option" where
  "hex_group [] off acc = Some (off, acc, [])"
| "hex_group (c # s) off acc =
     (case hexval c of
        None \<Rightarrow> Some (off, acc, c # s)
      | Some d \<Rightarrow>
          if off > 3 then None
          else if acc * 16 + d > 65535 then None
          else hex_group s (Suc off) (acc * 16 + d))"

text \<open>The loop over the groups; \<open>ip\<close> are the bytes parsed so far. It ends after at most eight
  groups.\<close>

function parseIPv6_loop :: "bytes \<Rightarrow> nat option \<Rightarrow> bytes \<Rightarrow> (bytes \<times> nat option \<times> bytes) option" where
  "parseIPv6_loop ip ellipsis s =
     (if length ip \<ge> 16 then Some (ip, ellipsis, s)
      else case hex_group s 0 0 of
        None \<Rightarrow> None
      | Some (off, acc, r) \<Rightarrow>
          if off = 0 then None
          else if r \<noteq> [] \<and> hd r = 46 then
            (if ellipsis = None \<and> length ip \<noteq> 12 then None
             else if length ip + 4 > 16 then None
             else map_option (\<lambda>v4. (ip @ v4, ellipsis, [])) (parseIPv4Fields s 0 0 []))
          else
            let ip = ip @ [word_of_nat (acc div 256), word_of_nat acc] in
            if r = [] then Some (ip, ellipsis, [])
            else if hd r \<noteq> 58 then None
            else if length r = 1 then None
            else
              let s = tl r in
              if hd s = 58 then
                (if ellipsis \<noteq> None then None
                 else if tl s = [] then Some (ip, Some (length ip), [])
                 else parseIPv6_loop ip (Some (length ip)) (tl s))
              else parseIPv6_loop ip ellipsis s)"
  by pat_completeness auto
termination
  by (relation "measure (\<lambda>(ip, _, _). 16 - length ip)") auto

declare parseIPv6_loop.simps [simp del]

definition parseIPv6_finish :: "bytes \<times> nat option \<times> bytes \<Rightarrow> bytes option" where
  "parseIPv6_finish = (\<lambda>(ip, ellipsis, rest).
     if rest \<noteq> [] then None
     else if length ip < 16 then
       (case ellipsis of
          None \<Rightarrow> None
        | Some e \<Rightarrow> Some (take e ip @ replicate (16 - length ip) 0 @ drop e ip))
     else if ellipsis \<noteq> None then None
     else Some ip)"

definition parseIPv6 :: "bytes \<Rightarrow> bytes option" where
  "parseIPv6 s =
     (if 37 \<in> set s then None
      else if s = [58, 58] then Some (replicate 16 0)
      else if starts_with s [58, 58] then Option.bind (parseIPv6_loop [] (Some 0) (drop 2 s)) parseIPv6_finish
      else Option.bind (parseIPv6_loop [] None s) parseIPv6_finish)"

definition ParseIP :: "bytes \<Rightarrow> bytes option" where
  "ParseIP s =
     (case find (\<lambda>c. c = 46 \<or> c = 58 \<or> c = 37) s of
        None \<Rightarrow> None
      | Some c \<Rightarrow>
          if c = 46 then map_option (\<lambda>v4. replicate 10 0 @ [0xff, 0xff] @ v4) (parseIPv4Fields s 0 0 [])
          else if c = 58 then parseIPv6 s
          else None)"

lemma parseIPv4Fields_length:
  "parseIPv4Fields s val digLen fields = Some v4 \<Longrightarrow> length fields \<le> 3 \<Longrightarrow> length v4 = 4"
  by (induction s val digLen fields rule: parseIPv4Fields.induct) (auto split: option.splits if_splits)

lemma parseIPv6_loop_length:
  "parseIPv6_loop ip ellipsis s = Some (ip', ellipsis', rest) \<Longrightarrow> even (length ip) \<Longrightarrow> length ip \<le> 16 \<Longrightarrow>
   (\<forall>e. ellipsis = Some e \<longrightarrow> e \<le> length ip) \<Longrightarrow> length ip' \<le> 16 \<and> (\<forall>e. ellipsis' = Some e \<longrightarrow> e \<le> length ip')"
proof (induction ip ellipsis s rule: parseIPv6_loop.induct)
  case (1 ip ellipsis s)
  show ?case
  proof (cases "length ip \<ge> 16")
    case True
    then show ?thesis using "1.prems" by (simp add: parseIPv6_loop.simps [of ip])
  next
    case False
    then have room: "length ip + 2 \<le> 16" using "1.prems"(2,3) by (cases "length ip = 15") auto
    obtain off acc r where hg: "hex_group s 0 0 = Some (off, acc, r)"
      using "1.prems"(1) False by (cases "hex_group s 0 0") (auto simp: parseIPv6_loop.simps [of ip])
    let ?ip = "ip @ [word_of_nat (acc div 256), word_of_nat acc]"
    have off: "off \<noteq> 0" using "1.prems"(1) False hg by (cases off) (simp_all add: parseIPv6_loop.simps [of ip])
    show ?thesis
    proof (cases "r \<noteq> [] \<and> hd r = 46")
      case True
      with "1.prems" False hg off show ?thesis
        by (auto simp: parseIPv6_loop.simps [of ip] dest: parseIPv4Fields_length split: if_splits)
    next
      case nd: False
      note IH = "1.IH" [OF False hg refl refl off nd refl]
      have "even (length ?ip)" "length ?ip \<le> 16" "\<forall>e. ellipsis = Some e \<longrightarrow> e \<le> length ?ip"
        using "1.prems" room by auto
      moreover have step: "(if r = [] then Some (?ip, ellipsis, [])
            else if hd r \<noteq> 58 then None else if length r = 1 then None
            else if hd (tl r) = 58 then
              (if ellipsis \<noteq> None then None
               else if tl (tl r) = [] then Some (?ip, Some (length ?ip), [])
               else parseIPv6_loop ?ip (Some (length ?ip)) (tl (tl r)))
            else parseIPv6_loop ?ip ellipsis (tl r)) = Some (ip', ellipsis', rest)"
        using "1.prems"(1) False hg off nd by (simp only: parseIPv6_loop.simps [of ip] Let_def) simp
      ultimately show ?thesis
        using IH(1) [OF _ _ _ refl] IH(2) [OF _ _ _ refl] by (auto split: if_splits)
    qed
  qed
qed

lemma parseIPv6_finish_length:
  "parseIPv6_finish (ip, ellipsis, rest) = Some x \<Longrightarrow> length ip \<le> 16 \<Longrightarrow>
   (\<forall>e. ellipsis = Some e \<longrightarrow> e \<le> length ip) \<Longrightarrow> length x = 16"
  by (auto simp: parseIPv6_finish_def split: if_splits option.splits)

lemma parseIPv6_length:
  assumes "parseIPv6 s = Some x"
  shows "length x = 16"
proof -
  have "length x = 16"
    if b: "Option.bind (parseIPv6_loop [] ell t) parseIPv6_finish = Some x" and e: "ell = None \<or> ell = Some 0" for ell t
  proof -
    obtain ip ellipsis rest where l: "parseIPv6_loop [] ell t = Some (ip, ellipsis, rest)"
      and f: "parseIPv6_finish (ip, ellipsis, rest) = Some x"
      using b by (cases "parseIPv6_loop [] ell t") auto
    show ?thesis using parseIPv6_finish_length [OF f] parseIPv6_loop_length [OF l] e by auto
  qed
  then show ?thesis using assms by (auto simp: parseIPv6_def split: if_splits)
qed

lemma ParseIP_length: "ParseIP s = Some ip \<Longrightarrow> length ip = 16"
  using parseIPv4Fields_length [of s 0 0 "[]"] parseIPv6_length [of s]
  by (auto simp: ParseIP_def split: option.splits if_splits)

section \<open>strconv\<close>

fun parse_digits :: "bytes \<Rightarrow> nat \<Rightarrow> nat option" where
  "parse_digits [] n = Some n"
| "parse_digits (c # s) n =
     (case digit c of None \<Rightarrow> None | Some d \<Rightarrow> parse_digits s (n * 10 + d))"

text \<open>\<^verbatim>\<open>ParseUint(s, 10, 32)\<close>\<close>

definition ParseUint32 :: "bytes \<Rightarrow> u32 option" where
  "ParseUint32 s =
     (if s = [] then None
      else case parse_digits s 0 of
        None \<Rightarrow> None
      | Some n \<Rightarrow> if n < 2 ^ 32 then Some (word_of_nat n) else None)"

fun Itoa :: "nat \<Rightarrow> bytes" where
  "Itoa n = (if n < 10 then [word_of_nat (48 + n)] else Itoa (n div 10) @ [word_of_nat (48 + n mod 10)])"

declare Itoa.simps [simp del]

lemma digit_of: "d < 10 \<Longrightarrow> digit (word_of_nat (48 + d)) = Some d"
  by (auto simp: digit_def word_le_nat_alt unat_word_ariths unat_of_nat)

lemma parse_digits_append:
  "parse_digits (xs @ ys) n = Option.bind (parse_digits xs n) (parse_digits ys)"
  by (induction xs n rule: parse_digits.induct) (auto split: option.splits)

lemma parse_digits_Itoa: "parse_digits (Itoa n) 0 = Some n"
proof (induction n rule: Itoa.induct)
  case (1 n)
  show ?case
  proof (cases "n < 10")
    case True
    then show ?thesis using digit_of [of n] by (simp add: Itoa.simps [of n])
  next
    case False
    then show ?thesis using 1 digit_of [of "n mod 10"] by (simp add: Itoa.simps [of n] parse_digits_append)
  qed
qed

lemma Itoa_nonempty: "Itoa n \<noteq> []"
  by (simp add: Itoa.simps [of n])

lemma ParseUint32_Itoa: "n < 2 ^ 32 \<Longrightarrow> ParseUint32 (Itoa n) = Some (word_of_nat n)"
  by (simp add: ParseUint32_def parse_digits_Itoa Itoa_nonempty)

section \<open>FNV-1a (hash/fnv)\<close>

definition fnv32a :: "bytes \<Rightarrow> u32" where
  "fnv32a bs = fold (\<lambda>c hash. (hash XOR ucast c) * 16777619) bs 2166136261"

end
