(* ===== verification/Kcp_Packet.thy ===== *)
theory Kcp_Packet
  imports Kcp_Segment MultiBuffer Packet_Header Go_Std
begin

text \<open>
  \<^verbatim>\<open>transport/internet/kcp/crypt.go\<close>, \<^verbatim>\<open>xor.go\<close> and \<^verbatim>\<open>io.go\<close>: the legacy authenticator of mKCP and
  the packet reader and writer.

  A \<^verbatim>\<open>cipher.AEAD\<close> is a record of functions. \<open>SealInto cap nonce plain\<close> is what the memory at
  the start of \<^verbatim>\<open>dst\<close> holds after \<^verbatim>\<open>Seal(dst[:0], nonce, plain, nil)\<close> when \<^verbatim>\<open>dst\<close> has room for
  \<open>cap\<close> bytes: the packet writer does not use the slice \<^verbatim>\<open>Seal\<close> returns.
\<close>

section \<open>XOR chains\<close>

definition xorfwd :: "bytes \<Rightarrow> bytes" where
  "xorfwd x = fold (\<lambda>i x. x[i := x ! i XOR x ! (i - 4)]) [4..<length x] x"

definition xorbkd :: "bytes \<Rightarrow> bytes" where
  "xorbkd x = fold (\<lambda>i x. x[i := x ! i XOR x ! (i - 4)]) (rev [4..<length x]) x"

section \<open>SimpleAuthenticator\<close>

definition SimpleAuthenticator_NonceSize :: nat where "SimpleAuthenticator_NonceSize = 0"

definition SimpleAuthenticator_Overhead :: nat where "SimpleAuthenticator_Overhead = 6"

text \<open>The hash, the length and the plain text, before the XOR chain.\<close>

definition seal_plain :: "bytes \<Rightarrow> bytes" where
  "seal_plain plain =
     (let body = be_PutUint16 (word_of_nat (length plain)) @ plain
      in be_PutUint32 (fnv32a body) @ body)"

text \<open>\<open>4 - n mod 4\<close>; no padding when it is 4.\<close>

definition padding :: "nat \<Rightarrow> nat" where
  "padding n = (let xtra = 4 - n mod 4 in if xtra \<noteq> 4 then xtra else 0)"

definition SimpleAuthenticator_Seal :: "bytes \<Rightarrow> bytes" where
  "SimpleAuthenticator_Seal plain =
     (let dst = seal_plain plain; dstLen = length dst
      in take dstLen (xorfwd (dst @ replicate (padding dstLen) 0)))"

text \<open>In memory: the six bytes and the plain text are appended in place when there is room for
  them; if the padding does not fit as well, that append moves the data to a new array, and
  the XOR chain does not reach the memory of the caller.\<close>

definition SimpleAuthenticator_SealInto :: "nat \<Rightarrow> bytes \<Rightarrow> bytes \<Rightarrow> bytes" where
  "SimpleAuthenticator_SealInto cap nonce plain =
     (let dst = seal_plain plain
      in if length dst + padding (length dst) \<le> cap then SimpleAuthenticator_Seal plain else dst)"

definition SimpleAuthenticator_Open :: "bytes \<Rightarrow> bytes \<Rightarrow> (unit, bytes) outcome" where
  "SimpleAuthenticator_Open nonce cipherText =
     (let dstLen = length cipherText;
          dst = take dstLen (xorbkd (cipherText @ replicate (padding dstLen) 0))
      in outcome_bind (or_panic (slice_from dst 4)) (\<lambda>body.
         outcome_bind (or_panic (be_Uint32 dst)) (\<lambda>hash.
         if hash \<noteq> fnv32a body then Fail ()
         else outcome_bind (or_panic (be_Uint16 body)) (\<lambda>length'.
           if int (length dst) - 6 \<noteq> uint length' then Fail ()
           else or_panic (slice_from dst 6)))))"

section \<open>Packets\<close>

record AEAD =
  ae_NonceSize :: nat
  ae_Overhead :: nat
  ae_SealInto :: "nat \<Rightarrow> bytes \<Rightarrow> bytes \<Rightarrow> bytes"
  ae_Open :: "bytes \<Rightarrow> bytes \<Rightarrow> (unit, bytes) outcome"

definition NewSimpleAuthenticator :: AEAD where
  "NewSimpleAuthenticator =
     \<lparr>ae_NonceSize = SimpleAuthenticator_NonceSize, ae_Overhead = SimpleAuthenticator_Overhead,
      ae_SealInto = SimpleAuthenticator_SealInto, ae_Open = SimpleAuthenticator_Open\<rparr>"

text \<open>The loop over the segments of a packet. \<^verbatim>\<open>ReadSegment\<close> leaves fewer bytes each time.\<close>

function read_segments :: "bytes \<Rightarrow> Segment list option" where
  "read_segments b =
     (if b = [] then Some []
      else case ReadSegment b of
        None \<Rightarrow> None
      | Some (None, x) \<Rightarrow> Some []
      | Some (Some seg, x) \<Rightarrow> map_option ((#) seg) (read_segments x))"
  by pat_completeness auto
termination
proof (relation "measure length", goal_cases)
  case (2 b r o' x seg)
  then show ?case by (cases b rule: ReadSegment_cases) auto
qed simp

declare read_segments.simps [simp del]

text \<open>\<^verbatim>\<open>KCPPacketReader.Read\<close>: the outer \<open>None\<close> is a panic. The header only has its size used.\<close>

definition KCPPacketReader_Read :: "AEAD option \<Rightarrow> int option \<Rightarrow> bytes \<Rightarrow> Segment list option" where
  "KCPPacketReader_Read security header b =
     (case (case header of
              None \<Rightarrow> Some b
            | Some sz \<Rightarrow> if i32 (int (length b)) \<le> sz then None else Some (drop (nat sz) b)) of
        None \<Rightarrow> Some []
      | Some b \<Rightarrow>
          (case security of
             None \<Rightarrow> read_segments b
           | Some s \<Rightarrow>
               if length b \<le> ae_NonceSize s + ae_Overhead s then Some []
               else (case ae_Open s (take (ae_NonceSize s) b) (drop (ae_NonceSize s) b) of
                       Panic \<Rightarrow> None
                     | Fail _ \<Rightarrow> Some []
                     | Ok out \<Rightarrow> read_segments out)))"

definition KCPPacketWriter_Overhead :: "AEAD option \<Rightarrow> int option \<Rightarrow> int" where
  "KCPPacketWriter_Overhead security header =
     (case header of None \<Rightarrow> 0 | Some sz \<Rightarrow> sz) + (case security of None \<Rightarrow> 0 | Some s \<Rightarrow> int (ae_Overhead s))"

text \<open>\<^verbatim>\<open>KCPPacketWriter.Write\<close>: the packet handed to the underlying writer, or a panic. The array
  of the buffer is \<open>p\<close>, \<open>rnd\<close> what the random source returns; the header is its size and the
  bytes it serializes to.\<close>

definition KCPPacketWriter_Write ::
  "AEAD option \<Rightarrow> (int \<times> bytes) option \<Rightarrow> bytes \<Rightarrow> bytes \<Rightarrow> bytes \<Rightarrow> bytes option" where
  "KCPPacketWriter_Write security header rnd p b =
     do {
       let bb = Buffer_StackNew p;
       bb \<leftarrow> (case header of
                None \<Rightarrow> Some bb
              | Some (sz, hdr) \<Rightarrow> map_option (\<lambda>(bb, ext). Buffer_fill bb ext hdr) (Buffer_Extend bb sz));
       bb \<leftarrow> (case security of
                Some s \<Rightarrow> do {
                  (bb, rest, n, err) \<leftarrow> Buffer_ReadFullFrom bb rnd (int (ae_NonceSize s));
                  nonce \<leftarrow> if err \<noteq> None then None else Buffer_BytesFrom bb (- int (ae_NonceSize s));
                  (bb, encrypted) \<leftarrow> Buffer_Extend bb (int (ae_Overhead s + length b));
                  let cap = length (buf_v bb) - nat (fst encrypted);
                  Some (Buffer_fill bb encrypted (ae_SealInto s cap nonce b))
                }
              | None \<Rightarrow> map_option fst (Buffer_Write bb b));
       Buffer_Bytes bb
     }"

section \<open>The XOR chains are inverse\<close>

abbreviation xor_at :: "nat \<Rightarrow> bytes \<Rightarrow> bytes" where
  "xor_at \<equiv> \<lambda>i x. x[i := x ! i XOR x ! (i - 4)]"

lemma xorfwd_loop:
  assumes "n \<le> length x" "y = fold xor_at [4..<n] x"
  shows "length y = length x \<and> (\<forall>i<length x. y ! i = (if 4 \<le> i \<and> i < n then x ! i XOR y ! (i - 4) else x ! i))"
  using assms
proof (induction n arbitrary: y)
  case 0
  then show ?case by simp
next
  case (Suc n)
  show ?case
  proof (cases "4 \<le> n")
    case False
    then show ?thesis using Suc.prems by auto
  next
    case True
    define z where "z = fold xor_at [4..<n] x"
    have y: "y = z[n := z ! n XOR z ! (n - 4)]" using Suc.prems(2) True by (simp add: z_def)
    have IH: "length z = length x" "\<forall>i<length x. z ! i = (if 4 \<le> i \<and> i < n then x ! i XOR z ! (i - 4) else x ! i)"
      using Suc.IH [OF _ z_def] Suc.prems(1) by simp_all
    have same: "y ! j = z ! j" if "j \<noteq> n" for j using that by (simp add: y)
    have "y ! i = (if 4 \<le> i \<and> i < Suc n then x ! i XOR y ! (i - 4) else x ! i)" if i: "i < length x" for i
    proof (cases "i = n")
      case True
      have "z ! n = x ! n" using IH(2) i True by auto
      then show ?thesis using True \<open>4 \<le> n\<close> i IH(1) same [of "n - 4"] by (simp add: y)
    next
      case False
      have "z ! i = (if 4 \<le> i \<and> i < n then x ! i XOR z ! (i - 4) else x ! i)" using IH(2) i by blast
      then show ?thesis using False same [of i] same [of "i - 4"] by (cases "i < n") auto
    qed
    then show ?thesis using IH(1) y by simp
  qed
qed

lemma xorfwd_nth:
  "length (xorfwd x) = length x"
  "i < length x \<Longrightarrow> xorfwd x ! i = (if 4 \<le> i then x ! i XOR xorfwd x ! (i - 4) else x ! i)"
  using xorfwd_loop [OF order_refl, of "xorfwd x" x] by (simp_all add: xorfwd_def)

lemma xorbkd_loop:
  assumes "n \<le> length x" "y = fold xor_at (rev [n..<length x]) x" "4 \<le> n"
  shows "length y = length x \<and> (\<forall>i<length x. y ! i = (if n \<le> i then x ! i XOR x ! (i - 4) else x ! i))"
  using assms
proof (induction "length x - n" arbitrary: n y)
  case 0
  then show ?case by simp
next
  case (Suc k)
  define z where "z = fold xor_at (rev [Suc n..<length x]) x"
  have n: "n < length x" using Suc.hyps(2) by simp
  then have up: "[n..<length x] = n # [Suc n..<length x]" by (simp add: upt_rec)
  have y: "y = z[n := z ! n XOR z ! (n - 4)]" using Suc.prems(2) up by (simp add: z_def)
  have IH: "length z = length x" "\<forall>i<length x. z ! i = (if Suc n \<le> i then x ! i XOR x ! (i - 4) else x ! i)"
    using Suc.hyps(1) [OF _ _ z_def] Suc.hyps(2) Suc.prems(3) n by simp_all
  have "y ! i = (if n \<le> i then x ! i XOR x ! (i - 4) else x ! i)" if "i < length x" for i
  proof (cases "i = n")
    case True
    have "z ! n = x ! n" "z ! (n - 4) = x ! (n - 4)" using IH(2) n Suc.prems(3) by auto
    then show ?thesis using True n IH(1) by (simp add: y)
  next
    case False
    then have "y ! i = z ! i" by (simp add: y)
    also have "z ! i = (if Suc n \<le> i then x ! i XOR x ! (i - 4) else x ! i)" using IH(2) that by blast
    finally show ?thesis using False by (auto simp: Suc_le_eq)
  qed
  then show ?case using IH(1) y by simp
qed

lemma xorbkd_nth:
  "length (xorbkd x) = length x"
  "i < length x \<Longrightarrow> xorbkd x ! i = (if 4 \<le> i then x ! i XOR x ! (i - 4) else x ! i)"
proof -
  have "length (xorbkd x) = length x \<and>
      (\<forall>i<length x. xorbkd x ! i = (if 4 \<le> i then x ! i XOR x ! (i - 4) else x ! i))"
  proof (cases "4 \<le> length x")
    case True
    then show ?thesis using xorbkd_loop [of 4 x "xorbkd x"] by (simp add: xorbkd_def)
  qed (simp add: xorbkd_def)
  then show "length (xorbkd x) = length x"
    "i < length x \<Longrightarrow> xorbkd x ! i = (if 4 \<le> i then x ! i XOR x ! (i - 4) else x ! i)" by auto
qed

text \<open>Both only look back, so padding and cutting it off again changes nothing.\<close>

lemma take_xorbkd: "take (length x) (xorbkd (x @ z)) = xorbkd x"
  by (rule nth_equalityI) (auto simp: xorbkd_nth nth_append)

lemma xorfwd_prefix: "i < length x \<Longrightarrow> xorfwd (x @ z) ! i = xorfwd x ! i"
proof (induction i rule: less_induct)
  case (less i)
  then show ?case by (auto simp: xorfwd_nth(2) [of i "x @ z"] xorfwd_nth(2) [of i x] nth_append)
qed

lemma take_xorfwd: "take (length x) (xorfwd (x @ z)) = xorfwd x"
  by (rule nth_equalityI) (auto simp: xorfwd_nth(1) xorfwd_prefix)

lemma xor_chain_inverse: "xorbkd (xorfwd x) = x"
proof (rule nth_equalityI)
  show "length (xorbkd (xorfwd x)) = length x" by (simp add: xorbkd_nth xorfwd_nth)
  show "xorbkd (xorfwd x) ! i = x ! i" if "i < length (xorbkd (xorfwd x))" for i
    using that by (auto simp: xorbkd_nth xorfwd_nth(1) xorfwd_nth(2) [of i x] xor.assoc)
qed

section \<open>Sealing and opening\<close>

lemma Seal_eq: "SimpleAuthenticator_Seal plain = xorfwd (seal_plain plain)"
  by (simp add: SimpleAuthenticator_Seal_def Let_def take_xorfwd)

lemma length_seal_plain [simp]: "length (seal_plain plain) = 6 + length plain"
  by (simp add: seal_plain_def Let_def)

lemma Open_eq:
  "SimpleAuthenticator_Open nonce cipherText =
     (let dst = xorbkd cipherText
      in outcome_bind (or_panic (slice_from dst 4)) (\<lambda>body.
         outcome_bind (or_panic (be_Uint32 dst)) (\<lambda>hash.
         if hash \<noteq> fnv32a body then Fail ()
         else outcome_bind (or_panic (be_Uint16 body)) (\<lambda>length'.
           if int (length dst) - 6 \<noteq> uint length' then Fail ()
           else or_panic (slice_from dst 6)))))"
  by (simp only: SimpleAuthenticator_Open_def Let_def take_xorbkd)

lemma Open_Seal:
  assumes "length plain < 65536"
  shows "SimpleAuthenticator_Open nonce (SimpleAuthenticator_Seal plain) = Ok plain"
proof -
  let ?body = "be_PutUint16 (word_of_nat (length plain)) @ plain"
  have sp: "seal_plain plain = be_PutUint32 (fnv32a ?body) @ ?body" by (simp add: seal_plain_def Let_def)
  have "slice_from (seal_plain plain) 4 = Some ?body" unfolding sp by (rule slice_from_append) simp
  moreover have "slice_from (seal_plain plain) 6 = Some plain"
    unfolding sp append_assoc [symmetric] by (rule slice_from_append) simp
  moreover have "be_Uint32 (seal_plain plain) = Some (fnv32a ?body)" unfolding sp by simp
  moreover have "uint (word_of_nat (length plain) :: u16) = int (length plain)"
    using assms by (simp add: uint_nat)
  ultimately show ?thesis by (simp add: Open_eq Seal_eq xor_chain_inverse Let_def)
qed

lemma padding_le: "padding n \<le> 3"
  by (auto simp: padding_def Let_def)

lemma read_segments_total: "\<exists>segs. read_segments b = Some segs"
proof (induction b rule: read_segments.induct)
  case (1 b)
  show ?case
  proof (cases b rule: ReadSegment_cases)
    case reject
    then show ?thesis by (simp add: read_segments.simps [of b])
  next
    case (accept seg k)
    then have "b \<noteq> []" by auto
    with "1.IH" accept show ?thesis by (fastforce simp: read_segments.simps [of b])
  qed
qed

text \<open>Several segments in one packet.\<close>

lemma read_segments_Serialize:
  "list_all sendable segs \<Longrightarrow> list_all2 (\<lambda>seg bs. Segment_Serialize seg = Some bs) segs bss \<Longrightarrow>
   read_segments (concat bss) = Some (map on_wire segs)"
proof (induction segs arbitrary: bss)
  case Nil
  then show ?case by (simp add: read_segments.simps)
next
  case (Cons seg segs)
  then obtain bs bss' where bss: "bss = bs # bss'" "Segment_Serialize seg = Some bs"
      "list_all2 (\<lambda>seg bs. Segment_Serialize seg = Some bs) segs bss'"
    by (auto simp: list_all2_Cons1)
  have r: "ReadSegment (bs @ concat bss') = Some (Some (on_wire seg), concat bss')"
    using sendable_reads_back [of seg "concat bss'"] Cons.prems(1) bss(2) by auto
  have "bs @ concat bss' \<noteq> []"
  proof
    assume e: "bs @ concat bss' = []"
    show False using r unfolding e by (simp add: ReadSegment_def)
  qed
  with r Cons bss show ?case by (simp add: read_segments.simps [of "bs @ concat bss'"])
qed

text \<open>What the packet code needs of an AEAD; \<open>max_plain\<close> bounds the plain texts it can seal.\<close>

locale aead =
  fixes s :: AEAD and max_plain :: nat
  assumes seal_length: "length plain \<le> max_plain \<Longrightarrow> length nonce = ae_NonceSize s \<or> ae_NonceSize s = 0 \<Longrightarrow>
      ae_Overhead s + length plain + 3 \<le> cap \<Longrightarrow> length (ae_SealInto s cap nonce plain) = ae_Overhead s + length plain"
    and open_seal: "length plain \<le> max_plain \<Longrightarrow> length nonce = ae_NonceSize s \<or> ae_NonceSize s = 0 \<Longrightarrow>
      ae_Overhead s + length plain + 3 \<le> cap \<Longrightarrow>
      ae_Open s (take (ae_NonceSize s) nonce) (ae_SealInto s cap nonce plain) = Ok plain"
begin

lemma seal_Extend:
  assumes wf: "wf_Buffer bb" and rm: "ae_Overhead s + length b + 3 \<le> room bb" and b: "length b \<le> max_plain"
    and nonce: "length nonce = ae_NonceSize s \<or> ae_NonceSize s = 0"
  obtains bb' where "Buffer_Extend bb (int (ae_Overhead s + length b)) = Some (bb', buf_end bb, buf_end bb + int (ae_Overhead s + length b))"
    "length (buf_v bb') - nat (buf_end bb) = room bb"
    "Buffer_Bytes (Buffer_fill bb' (buf_end bb, buf_end bb + int (ae_Overhead s + length b)) (ae_SealInto s (room bb) nonce b)) =
       Some (content bb @ ae_SealInto s (room bb) nonce b)"
proof -
  let ?c = "ae_SealInto s (room bb) nonce b" and ?n = "ae_Overhead s + length b"
  let ?bb = "bb\<lparr>buf_end := buf_end bb + int ?n\<rparr>"
  have len: "length ?c = ?n" by (rule seal_length [OF b nonce rm])
  have small: "room bb < 2 ^ 31" using wf by (auto simp: room_def wf_Buffer_def)
  have ext: "Buffer_Extend bb (int ?n) = Some (?bb, buf_end bb, buf_end bb + int ?n)"
    using rm small by (subst Buffer_Extend_iff [OF wf]) auto
  have "wf_Buffer (Buffer_fill ?bb (buf_end bb, buf_end bb + int ?n) ?c) \<and>
      content (Buffer_fill ?bb (buf_end bb, buf_end bb + int ?n) ?c) = content bb @ ?c"
    by (rule Buffer_Extend_fill_content [OF wf]) (use len ext rm small in simp_all)
  moreover have "length (buf_v ?bb) - nat (buf_end bb) = room bb"
    using wf by (auto simp: room_def wf_Buffer_def)
  ultimately show thesis using that [of ?bb] ext by (simp add: Buffer_Bytes_content)
qed

text \<open>The writer with a header and this AEAD, and the reader on its packets.\<close>

lemma writer_packet:
  assumes hdr: "0 \<le> sz" "length hdr = nat sz" and p: "length p = 2048"
    and rnd: "ae_NonceSize s \<le> length rnd" and b: "length b \<le> max_plain"
    and fits: "nat sz + ae_NonceSize s + ae_Overhead s + length b + 3 \<le> 2048"
  obtains c where "KCPPacketWriter_Write (Some s) (Some (sz, hdr)) rnd p b = Some (hdr @ take (ae_NonceSize s) rnd @ c)"
    "length c = ae_Overhead s + length b" "ae_Open s (take (ae_NonceSize s) rnd) c = Ok b"
proof -
  let ?b0 = "Buffer_StackNew p" and ?k = "ae_NonceSize s"
  have b0: "wf_Buffer ?b0" "content ?b0 = []" "room ?b0 = 2048"
    using p by (simp_all add: Buffer_StackNew_def wf_Buffer_def content_def room_def)
  let ?b1 = "Buffer_fill (?b0\<lparr>buf_end := sz\<rparr>) (0, sz) hdr"
  have ext: "Buffer_Extend ?b0 (int (length hdr)) = Some (?b0\<lparr>buf_end := sz\<rparr>, 0, sz)"
    using hdr fits b0(3) by (subst Buffer_Extend_iff [OF b0(1)]) (auto simp: Buffer_StackNew_def)
  have b1: "wf_Buffer ?b1" "content ?b1 = hdr"
    using Buffer_Extend_fill_content [OF b0(1) _ ext] b0(2) hdr fits by simp_all
  have r1: "room ?b1 = 2048 - nat sz"
    using hdr fits p by (simp add: room_def Buffer_fill_def Buffer_StackNew_def nat_diff_distrib)
  obtain b2 where b2: "Buffer_ReadFullFrom ?b1 rnd (int ?k) = Some (b2, drop ?k rnd, int ?k, None)"
    "wf_Buffer b2" "content b2 = hdr @ take ?k rnd" "room b2 = 2048 - nat sz - ?k"
  proof -
    obtain b2 where "Buffer_ReadFullFrom ?b1 rnd (int ?k) = Some (b2, drop (nat (int ?k)) rnd,
          int (min (nat (int ?k)) (length rnd)), if nat (int ?k) \<le> length rnd then None
          else Some (if rnd = [] then EOF else UnexpectedEOF))"
      "wf_Buffer b2" "content b2 = content ?b1 @ take (nat (int ?k)) rnd"
      "room b2 = room ?b1 - min (nat (int ?k)) (length rnd)"
      by (rule Buffer_ReadFullFrom_spec [OF b1(1), of "int ?k" rnd]) (use fits r1 in auto)
    then show thesis using that b1(2) r1 rnd by (simp add: min_def)
  qed
  obtain nonce where nonce: "Buffer_BytesFrom b2 (- int ?k) = Some nonce" "length nonce = ?k \<or> ?k = 0"
    "take ?k nonce = take ?k rnd"
  proof (cases "?k = 0")
    case True
    then have "\<exists>nonce. Buffer_BytesFrom b2 (- int ?k) = Some nonce"
      using b2(2) by (simp add: Buffer_BytesFrom_def wf_i32(3) [OF b2(2)] wf_Buffer_def slice_of_def)
    then show thesis using True that by auto
  next
    case False
    have "Buffer_BytesFrom b2 (- int ?k) = Some (take ?k rnd)"
      by (rule BytesFrom_suffix [OF b2(2,3)]) (use rnd False in auto)
    then show thesis using that rnd by auto
  qed
  have rm: "ae_Overhead s + length b + 3 \<le> room b2" using b2(4) fits by simp
  from seal_Extend [OF b2(2) rm b nonce(2)] obtain b3 where b3:
    "Buffer_Extend b2 (int (ae_Overhead s + length b)) = Some (b3, buf_end b2, buf_end b2 + int (ae_Overhead s + length b))"
    "length (buf_v b3) - nat (buf_end b2) = room b2"
    "Buffer_Bytes (Buffer_fill b3 (buf_end b2, buf_end b2 + int (ae_Overhead s + length b)) (ae_SealInto s (room b2) nonce b)) =
       Some (content b2 @ ae_SealInto s (room b2) nonce b)" .
  have ext': "Buffer_Extend ?b0 sz = Some (?b0\<lparr>buf_end := sz\<rparr>, 0, sz)" using ext hdr by simp
  have "KCPPacketWriter_Write (Some s) (Some (sz, hdr)) rnd p b =
      Some (hdr @ take ?k rnd @ ae_SealInto s (room b2) nonce b)"
    using ext' b2(1,3) nonce(1) b3 by (simp add: KCPPacketWriter_Write_def Let_def)
  then show thesis
    using that seal_length [OF b nonce(2) rm] open_seal [OF b nonce(2) rm] nonce(3) by simp
qed

lemma reader_opens:
  assumes hdr: "0 \<le> sz" "length hdr = nat sz" and nonce: "length nonce = ae_NonceSize s"
    and c: "length c = ae_Overhead s + length b" "ae_Open s nonce c = Ok b" and "b \<noteq> []"
    and "length (hdr @ nonce @ c) < 2 ^ 31"
  shows "KCPPacketReader_Read (Some s) (Some sz) (hdr @ nonce @ c) = read_segments b"
proof -
  have "i32 (int (length (hdr @ nonce @ c))) = int (length (hdr @ nonce @ c))"
    using assms(7) by (intro i32_id) auto
  moreover have "\<not> int (ae_NonceSize s) + (int (ae_Overhead s) + int (length b)) \<le> 0"
    using \<open>b \<noteq> []\<close> by (cases b) auto
  ultimately show ?thesis using hdr nonce c \<open>b \<noteq> []\<close> by (simp add: KCPPacketReader_Read_def)
qed

end

interpretation simple: aead NewSimpleAuthenticator 65535
proof
  show "length (ae_SealInto NewSimpleAuthenticator cap nonce plain) = ae_Overhead NewSimpleAuthenticator + length plain"
    for cap nonce plain
    by (simp add: NewSimpleAuthenticator_def SimpleAuthenticator_SealInto_def SimpleAuthenticator_Overhead_def
        Seal_eq xorfwd_nth Let_def)
  show "ae_Open NewSimpleAuthenticator (take (ae_NonceSize NewSimpleAuthenticator) nonce)
      (ae_SealInto NewSimpleAuthenticator cap nonce plain) = Ok plain"
    if "length plain \<le> 65535" "ae_Overhead NewSimpleAuthenticator + length plain + 3 \<le> cap" for cap nonce plain
    using that padding_le [of "6 + length plain"] Open_Seal [of plain]
    by (simp add: NewSimpleAuthenticator_def SimpleAuthenticator_SealInto_def SimpleAuthenticator_Overhead_def Let_def)
qed

section \<open>Properties\<close>

text \<open>The legacy authenticator opens what it sealed: any plain text of less than 64K comes
  back, and the sealed text is six bytes longer.\<close>

theorem SimpleAuthenticator_roundtrip:
  assumes "length plain < 65536"
  shows "SimpleAuthenticator_Open nonce (SimpleAuthenticator_Seal plain) = Ok plain \<and>
     length (SimpleAuthenticator_Seal plain) = length plain + SimpleAuthenticator_Overhead"
  using Open_Seal [OF assms] by (simp add: Seal_eq xorfwd_nth SimpleAuthenticator_Overhead_def)

theorem SimpleAuthenticator_roundtrip_witness:
  "SimpleAuthenticator_Open [] (SimpleAuthenticator_Seal [104, 105]) = Ok [104, 105]"
  using SimpleAuthenticator_roundtrip [of "[104, 105]"] by simp

text \<open>C9. A packet of segments written with a header and the legacy authenticator is read back
  as these segments, in order, by a reader with the same header and authenticator, whatever
  the header's bytes and the stale contents of the buffer are, as long as header,
  overhead, segments and three bytes of padding fit the 2K buffer.\<close>

theorem packet_roundtrip:
  assumes hdr: "0 \<le> sz" "length hdr = nat sz" and p: "length p = 2048"
    and segs: "segs \<noteq> []" "list_all sendable segs" "list_all2 (\<lambda>seg bs. Segment_Serialize seg = Some bs) segs bss"
    and fits: "nat sz + 6 + length (concat bss) + 3 \<le> 2048"
  shows "\<exists>packet. KCPPacketWriter_Write (Some NewSimpleAuthenticator) (Some (sz, hdr)) rnd p (concat bss) = Some packet \<and>
     int (length packet) = KCPPacketWriter_Overhead (Some NewSimpleAuthenticator) (Some sz) + int (length (concat bss)) \<and>
     KCPPacketReader_Read (Some NewSimpleAuthenticator) (Some sz) packet = Some (map on_wire segs)"
proof -
  let ?a = NewSimpleAuthenticator
  have a: "ae_NonceSize ?a = 0" "ae_Overhead ?a = 6"
    by (simp_all add: NewSimpleAuthenticator_def SimpleAuthenticator_NonceSize_def SimpleAuthenticator_Overhead_def)
  obtain c where c: "KCPPacketWriter_Write (Some ?a) (Some (sz, hdr)) rnd p (concat bss) = Some (hdr @ c)"
    "length c = 6 + length (concat bss)" "ae_Open ?a [] c = Ok (concat bss)"
    using simple.writer_packet [OF hdr p, of rnd "concat bss"] fits a by auto
  have ser: "read_segments (concat bss) = Some (map on_wire segs)" by (rule read_segments_Serialize [OF segs(2,3)])
  have "concat bss \<noteq> []"
  proof
    assume e: "concat bss = []"
    show False using ser segs(1) unfolding e by (simp add: read_segments.simps)
  qed
  then have "KCPPacketReader_Read (Some ?a) (Some sz) (hdr @ [] @ c) = read_segments (concat bss)"
    using hdr c fits a by (intro simple.reader_opens) auto
  then show ?thesis using c ser hdr a by (auto simp: KCPPacketWriter_Overhead_def)
qed

theorem packet_roundtrip_witness:
  "\<exists>packet. KCPPacketWriter_Write (Some NewSimpleAuthenticator)
       (Some (Wireguard_Size, snd (Wireguard_Serialize ()))) [] (replicate 2048 7) (AckSegment_Serialize example_ack) = Some packet \<and>
     KCPPacketReader_Read (Some NewSimpleAuthenticator) (Some Wireguard_Size) packet = Some [Ack example_ack]"
proof -
  have "length (AckSegment_Serialize example_ack) = 25"
    by (simp add: AckSegment_Serialize_def example_ack_def NewAckSegment_def)
  moreover have "sendable (Ack example_ack)" by (simp add: example_ack_def)
  ultimately show ?thesis
    using packet_roundtrip [of Wireguard_Size "snd (Wireguard_Serialize ())" "replicate 2048 7" "[Ack example_ack]"
        "[AckSegment_Serialize example_ack]" "[]"]
    by (auto simp: Wireguard_Size_def Wireguard_Serialize_def)
qed

text \<open>The overhead the packet writer reports leaves out the nonce: with an AEAD that has one
  (and whose sealing keeps its laws), every packet is longer than the reported overhead and
  the payload by exactly the nonce, so the maximum segment size computed from it makes
  packets that exceed the MTU.\<close>

theorem overhead_omits_nonce:
  assumes "aead s max_plain" and hdr: "0 \<le> sz" "length hdr = nat sz" and "length p = 2048"
    and "ae_NonceSize s \<le> length rnd" and "length b \<le> max_plain"
    and "nat sz + ae_NonceSize s + ae_Overhead s + length b + 3 \<le> 2048"
  shows "\<exists>packet. KCPPacketWriter_Write (Some s) (Some (sz, hdr)) rnd p b = Some packet \<and>
     int (length packet) = KCPPacketWriter_Overhead (Some s) (Some sz) + int (length b) + int (ae_NonceSize s)"
proof -
  obtain c where "KCPPacketWriter_Write (Some s) (Some (sz, hdr)) rnd p b = Some (hdr @ take (ae_NonceSize s) rnd @ c)"
    "length c = ae_Overhead s + length b"
    using aead.writer_packet [OF assms] by blast
  then show ?thesis using hdr assms(5) by (simp add: KCPPacketWriter_Overhead_def)
qed

text \<open>An AEAD with a nonce of two bytes: the sealed text is the nonce and the plain text.\<close>

definition toy_aead :: AEAD where
  "toy_aead = \<lparr>ae_NonceSize = 2, ae_Overhead = 2, ae_SealInto = (\<lambda>cap nonce plain. nonce @ plain),
     ae_Open = (\<lambda>nonce c. if take 2 c = nonce then Ok (drop 2 c) else Fail ())\<rparr>"

theorem overhead_omits_nonce_witness:
  "\<exists>packet. KCPPacketWriter_Write (Some toy_aead) (Some (0, [])) [8, 9] (replicate 2048 0) [1, 2, 3] = Some packet \<and>
     int (length packet) = KCPPacketWriter_Overhead (Some toy_aead) (Some 0) + 3 + 2"
proof -
  have "aead toy_aead 100" by unfold_locales (auto simp: toy_aead_def)
  from overhead_omits_nonce [OF this, of 0 "[]" "replicate 2048 0" "[8, 9]" "[1, 2, 3]"]
  show ?thesis by (simp add: toy_aead_def)
qed

text \<open>Reading a packet never panics and never loops, whatever arrives: with or without a
  header and the legacy authenticator, some list of segments comes out.\<close>

theorem packet_read_total:
  assumes "security = None \<or> security = Some NewSimpleAuthenticator"
  shows "\<exists>segs. KCPPacketReader_Read security header b = Some segs"
proof -
  have "SimpleAuthenticator_Open nonce c \<noteq> Panic" if "6 < length c" for nonce c
  proof -
    have "4 \<le> length (xorbkd c)" "2 \<le> length (drop 4 (xorbkd c))" "6 \<le> length (xorbkd c)"
      using that by (simp_all add: xorbkd_nth)
    with be_Uint32_defined [of "xorbkd c"] be_Uint16_defined [of "drop 4 (xorbkd c)"] show ?thesis
      by (auto simp: Open_eq Let_def slice_from_eq split: if_splits)
  qed
  then have opens: "ae_Open NewSimpleAuthenticator nonce c \<noteq> Panic" if "6 < length c" for nonce c
    using that by (simp add: NewSimpleAuthenticator_def)
  have a: "ae_NonceSize NewSimpleAuthenticator = 0" "ae_Overhead NewSimpleAuthenticator = 6"
    by (simp_all add: NewSimpleAuthenticator_def SimpleAuthenticator_NonceSize_def SimpleAuthenticator_Overhead_def)
  let ?body = "case header of None \<Rightarrow> Some b
      | Some sz \<Rightarrow> if i32 (int (length b)) \<le> sz then None else Some (drop (nat sz) b)"
  show ?thesis
  proof (cases ?body)
    case None
    then show ?thesis by (simp add: KCPPacketReader_Read_def)
  next
    case (Some body)
    show ?thesis
    proof (cases "security = None \<or> length body \<le> 6")
      case True
      then show ?thesis using Some assms read_segments_total [of body] a by (auto simp: KCPPacketReader_Read_def)
    next
      case False
      with assms opens [of body "[]"] Some a read_segments_total show ?thesis
        by (cases "ae_Open NewSimpleAuthenticator [] body") (auto simp: KCPPacketReader_Read_def)
    qed
  qed
qed

theorem packet_read_total_witness:
  "\<exists>segs. KCPPacketReader_Read (Some NewSimpleAuthenticator) (Some 4) [1, 2, 3, 4, 5, 6, 7, 8, 9, 10, 11, 12] = Some segs"
  using packet_read_total [of "Some NewSimpleAuthenticator"] by blast

end
