(* ===== verification/Lru.thy ===== *)
theory Lru
  imports Prelude
begin

text \<open>
  \<^verbatim>\<open>common/cache/lru.go\<close>: the two-way LRU cache (used by the fake DNS). The elements of the
  doubly linked list are cells with an address, since the two indexes point at them: \<open>lr_list\<close>
  is the list of addresses from front to back and \<open>lr_cell\<close> their contents. Each operation
  holds the mutex. A removed element keeps its cell, as an index may still point at it.
\<close>

record ('k, 'v) lru =
  lr_capacity :: int
  lr_list :: "nat list"
  lr_cell :: "nat \<Rightarrow> ('k \<times> 'v) option"
  lr_next :: nat
  lr_keyToElement :: "'k \<Rightarrow> nat option"
  lr_valueToElement :: "'v \<Rightarrow> nat option"

definition NewLru :: "int \<Rightarrow> ('k, 'v) lru" where
  "NewLru cap = \<lparr>lr_capacity = cap, lr_list = [], lr_cell = (\<lambda>_. None), lr_next = 0,
     lr_keyToElement = (\<lambda>_. None), lr_valueToElement = (\<lambda>_. None)\<rparr>"

text \<open>\<^verbatim>\<open>container/list\<close>: \<^verbatim>\<open>MoveToFront\<close> does nothing to an element that is not in the list.\<close>

definition MoveToFront :: "nat list \<Rightarrow> nat \<Rightarrow> nat list" where
  "MoveToFront l e = (if e \<in> set l then e # remove1 e l else l)"

definition lru_Get :: "('k, 'v) lru \<Rightarrow> 'k \<Rightarrow> ('k, 'v) lru \<times> 'v option" where
  "lru_Get l key =
     (case lr_keyToElement l key of
        Some element \<Rightarrow> (l\<lparr>lr_list := MoveToFront (lr_list l) element\<rparr>, map_option snd (lr_cell l element))
      | None \<Rightarrow> (l, None))"

definition lru_GetKeyFromValue :: "('k, 'v) lru \<Rightarrow> 'v \<Rightarrow> ('k, 'v) lru \<times> 'k option" where
  "lru_GetKeyFromValue l value =
     (case lr_valueToElement l value of
        Some element \<Rightarrow> (l\<lparr>lr_list := MoveToFront (lr_list l) element\<rparr>, map_option fst (lr_cell l element))
      | None \<Rightarrow> (l, None))"

text \<open>The removal of the element at the back when the list is longer than the capacity.\<close>

definition lru_evict :: "('k, 'v) lru \<Rightarrow> ('k, 'v) lru" where
  "lru_evict l =
     (if int (length (lr_list l)) > lr_capacity l
      then let toBeRemove = last (lr_list l);
               l = l\<lparr>lr_list := butlast (lr_list l)\<rparr>
           in case lr_cell l toBeRemove of
                None \<Rightarrow> l
              | Some (k, v) \<Rightarrow>
                  l\<lparr>lr_keyToElement := (lr_keyToElement l)(k := None),
                    lr_valueToElement := (lr_valueToElement l)(v := None)\<rparr>
      else l)"

definition lru_Put :: "('k, 'v) lru \<Rightarrow> 'k \<Rightarrow> 'v \<Rightarrow> ('k, 'v) lru" where
  "lru_Put l key value =
     (case lr_keyToElement l key of
        Some element \<Rightarrow>
          l\<lparr>lr_cell := (lr_cell l)(element \<mapsto> (key, value)),
            lr_list := MoveToFront (lr_list l) element\<rparr>
      | None \<Rightarrow>
          let element = lr_next l;
              l = l\<lparr>lr_list := element # lr_list l, lr_cell := (lr_cell l)(element \<mapsto> (key, value)),
                    lr_next := Suc element\<rparr>;
              l = l\<lparr>lr_keyToElement := (lr_keyToElement l)(key \<mapsto> element)\<rparr>;
              l = l\<lparr>lr_valueToElement := (lr_valueToElement l)(value \<mapsto> element)\<rparr>
          in lru_evict l)"

section \<open>The cache as a list of pairs\<close>

text \<open>The specification: the pairs, most recently used first.\<close>

definition entries :: "('k, 'v) lru \<Rightarrow> ('k \<times> 'v) list" where
  "entries l = map (\<lambda>e. the (lr_cell l e)) (lr_list l)"

definition lru_inv :: "('k, 'v) lru \<Rightarrow> bool" where
  "lru_inv l \<longleftrightarrow>
     distinct (lr_list l) \<and> distinct (map fst (entries l)) \<and>
     (\<forall>e \<in> set (lr_list l). e < lr_next l \<and> lr_cell l e \<noteq> None) \<and>
     (\<forall>k e. lr_keyToElement l k = Some e \<longleftrightarrow> e \<in> set (lr_list l) \<and> fst (the (lr_cell l e)) = k) \<and>
     1 \<le> lr_capacity l \<and> int (length (lr_list l)) \<le> lr_capacity l"

definition spec_put :: "nat \<Rightarrow> 'k \<Rightarrow> 'v \<Rightarrow> ('k \<times> 'v) list \<Rightarrow> ('k \<times> 'v) list" where
  "spec_put n k v es = take n ((k, v) # filter (\<lambda>e. fst e \<noteq> k) es)"

definition spec_touch :: "'k \<Rightarrow> ('k \<times> 'v) list \<Rightarrow> ('k \<times> 'v) list" where
  "spec_touch k es = filter (\<lambda>e. fst e = k) es @ filter (\<lambda>e. fst e \<noteq> k) es"

lemma map_fst_entries: "map fst (entries l) = map (\<lambda>e. fst (the (lr_cell l e))) (lr_list l)"
  by (simp add: entries_def comp_def)

lemma MoveToFront_set [simp]: "set (MoveToFront l e) = set l"
proof -
  have "x \<in> set (remove1 e l) \<or> x = e" if "x \<in> set l" for x using that by (cases "x = e") auto
  then show ?thesis using set_remove1_subset [of e l] by (auto simp: MoveToFront_def)
qed

lemma MoveToFront_distinct: "distinct l \<Longrightarrow> distinct (MoveToFront l e)"
  by (simp add: MoveToFront_def)

lemma MoveToFront_length [simp]: "length (MoveToFront l e) = length l"
  by (auto simp: MoveToFront_def length_remove1 dest: length_pos_if_in_set)

text \<open>Moving the element of a key to the front, seen on the pairs.\<close>

lemma remove1_distinct: "distinct l \<Longrightarrow> remove1 e l = filter (\<lambda>x. x \<noteq> e) l"
  by (auto simp: distinct_remove1_removeAll removeAll_filter_not_eq intro: filter_cong)

lemma filter_the_key:
  assumes "distinct (map f xs)" "e \<in> set xs"
  shows "filter (\<lambda>x. f x = f e) xs = [e]" "filter (\<lambda>x. f x \<noteq> f e) xs = filter (\<lambda>x. x \<noteq> e) xs"
proof -
  have inj: "f x = f e \<longleftrightarrow> x = e" if "x \<in> set xs" for x
    using assms that by (auto simp: distinct_map inj_on_def)
  have "distinct xs" using assms(1) by (simp add: distinct_map)
  then have "filter (\<lambda>x. x = e) xs = [e]" using assms(2) by (induction xs) (auto simp: filter_empty_conv)
  moreover have "filter (\<lambda>x. f x = f e) xs = filter (\<lambda>x. x = e) xs" using inj by (rule filter_cong [OF refl])
  ultimately show "filter (\<lambda>x. f x = f e) xs = [e]" by simp
  show "filter (\<lambda>x. f x \<noteq> f e) xs = filter (\<lambda>x. x \<noteq> e) xs" using inj by (intro filter_cong) auto
qed

lemma inv_filter:
  assumes "lru_inv l" "lr_keyToElement l k = Some e"
  shows "filter (\<lambda>x. fst (the (lr_cell l x)) = k) (lr_list l) = [e]"
    "filter (\<lambda>x. fst (the (lr_cell l x)) \<noteq> k) (lr_list l) = filter (\<lambda>x. x \<noteq> e) (lr_list l)"
    "e \<in> set (lr_list l)" "fst (the (lr_cell l e)) = k"
proof -
  have e: "e \<in> set (lr_list l)" "fst (the (lr_cell l e)) = k" using assms by (auto simp: lru_inv_def)
  have d: "distinct (map (\<lambda>x. fst (the (lr_cell l x))) (lr_list l))"
    using assms(1) by (simp add: lru_inv_def map_fst_entries)
  show "e \<in> set (lr_list l)" "fst (the (lr_cell l e)) = k" by (fact e)+
  show "filter (\<lambda>x. fst (the (lr_cell l x)) = k) (lr_list l) = [e]"
    "filter (\<lambda>x. fst (the (lr_cell l x)) \<noteq> k) (lr_list l) = filter (\<lambda>x. x \<noteq> e) (lr_list l)"
    using filter_the_key [OF d e(1)] by (simp_all add: e(2))
qed

lemma entries_MoveToFront:
  assumes "lru_inv l" "lr_keyToElement l k = Some e"
  shows "map (\<lambda>x. the (lr_cell l x)) (MoveToFront (lr_list l) e) = spec_touch k (entries l)"
proof -
  note f = inv_filter [OF assms]
  have "distinct (lr_list l)" using assms(1) by (simp add: lru_inv_def)
  then have "MoveToFront (lr_list l) e = e # filter (\<lambda>x. x \<noteq> e) (lr_list l)"
    using f(3) by (simp add: MoveToFront_def remove1_distinct)
  then show ?thesis using f by (simp add: spec_touch_def entries_def filter_map comp_def)
qed

lemma lookup_entries:
  assumes "lru_inv l"
  shows "map_of (entries l) k = (case lr_keyToElement l k of None \<Rightarrow> None | Some e \<Rightarrow> map_option snd (lr_cell l e))"
proof (cases "lr_keyToElement l k")
  case None
  then have "fst (the (lr_cell l e)) \<noteq> k" if "e \<in> set (lr_list l)" for e
    using assms that unfolding lru_inv_def by (metis option.distinct(1))
  then have "k \<notin> set (map fst (entries l))" unfolding map_fst_entries by auto
  then show ?thesis using None by (simp add: map_of_eq_None_iff)
next
  case (Some e)
  from inv_filter(3,4) [OF assms Some] obtain v where v: "lr_cell l e = Some (k, v)"
    using assms by (cases "lr_cell l e") (auto simp: lru_inv_def)
  then have "(k, v) \<in> set (entries l)" using inv_filter(3) [OF assms Some] by (force simp: entries_def)
  then have "map_of (entries l) k = Some v" using assms by (simp add: lru_inv_def map_of_is_SomeI)
  then show ?thesis using Some v by simp
qed

lemma distinct_fst_filter: "distinct (map fst es) \<Longrightarrow> distinct (map fst (filter P es))"
  by (induction es) auto

lemma distinct_spec_touch: "distinct (map fst es) \<Longrightarrow> distinct (map fst (spec_touch k es))"
  by (auto simp: spec_touch_def distinct_fst_filter)

lemma lru_inv_touch:
  assumes "lru_inv l" "lr_keyToElement l k = Some e"
  shows "lru_inv (l\<lparr>lr_list := MoveToFront (lr_list l) e\<rparr>)"
proof -
  have "entries (l\<lparr>lr_list := MoveToFront (lr_list l) e\<rparr>) = spec_touch k (entries l)"
    using entries_MoveToFront [OF assms] by (simp add: entries_def)
  moreover have "distinct (map fst (spec_touch k (entries l)))"
    using assms(1) by (intro distinct_spec_touch) (simp add: lru_inv_def)
  ultimately show ?thesis using assms(1) by (simp add: lru_inv_def MoveToFront_distinct)
qed

text \<open>Putting a key that is there.\<close>

lemma Put_present:
  assumes inv: "lru_inv l" and k: "lr_keyToElement l k = Some e"
  shows "lru_inv (lru_Put l k v) \<and> entries (lru_Put l k v) = (k, v) # filter (\<lambda>x. fst x \<noteq> k) (entries l)"
proof -
  let ?l = "lru_Put l k v" and ?c = "(lr_cell l)(e \<mapsto> (k, v))"
  note f = inv_filter [OF inv k]
  have d: "distinct (lr_list l)" using inv by (simp add: lru_inv_def)
  have l: "lr_list ?l = e # filter (\<lambda>x. x \<noteq> e) (lr_list l)" "lr_cell ?l = ?c"
    "lr_keyToElement ?l = lr_keyToElement l" "lr_capacity ?l = lr_capacity l" "lr_next ?l = lr_next l"
    using f(3) d k by (simp_all add: lru_Put_def MoveToFront_def remove1_distinct)
  have ent: "entries ?l = (k, v) # filter (\<lambda>x. fst x \<noteq> k) (entries l)"
    using f(2) unfolding entries_def l by (simp add: filter_map comp_def)
  have keys: "fst (the (?c x)) = fst (the (lr_cell l x))" for x using f(4) by simp
  have len: "length (lr_list ?l) = length (lr_list l)"
    using d f(3) unfolding l by (simp add: remove1_distinct [symmetric] length_remove1) (metis Suc_pred length_pos_if_in_set)
  have "distinct (map fst (entries l))" using inv by (simp add: lru_inv_def)
  then have "distinct (map fst (entries ?l))" unfolding ent by (auto simp: distinct_fst_filter)
  moreover have "lr_keyToElement ?l k' = Some e' \<longleftrightarrow> e' \<in> set (lr_list ?l) \<and> fst (the (lr_cell ?l e')) = k'" for k' e'
    using inv f(3) unfolding l keys by (auto simp: lru_inv_def)
  ultimately show ?thesis using inv d f(3) len ent by (auto simp: lru_inv_def l)
qed

text \<open>Putting a key that is not there.\<close>

lemma Put_absent:
  assumes inv: "lru_inv l" and k: "lr_keyToElement l k = None"
  shows "lru_inv (lru_Put l k v) \<and> entries (lru_Put l k v) = take (nat (lr_capacity l)) ((k, v) # entries l)"
proof -
  let ?e = "lr_next l"
  define l1 where "l1 = l\<lparr>lr_list := ?e # lr_list l, lr_cell := (lr_cell l)(?e \<mapsto> (k, v)), lr_next := Suc ?e,
      lr_keyToElement := (lr_keyToElement l)(k \<mapsto> ?e), lr_valueToElement := (lr_valueToElement l)(v \<mapsto> ?e)\<rparr>"
  have put: "lru_Put l k v = lru_evict l1" using k by (simp add: lru_Put_def l1_def Let_def)
  have old: "e < ?e \<and> lr_cell l e \<noteq> None" if "e \<in> set (lr_list l)" for e using inv that by (auto simp: lru_inv_def)
  then have fresh: "?e \<notin> set (lr_list l)" by blast
  have cells: "lr_cell l1 e = lr_cell l e" if "e \<in> set (lr_list l)" for e using old [OF that] by (simp add: l1_def)
  have no_key: "fst (the (lr_cell l e)) \<noteq> k" if "e \<in> set (lr_list l)" for e
    using inv k that unfolding lru_inv_def by (metis option.distinct(1))
  have keys: "lr_keyToElement l1 k' = Some e \<longleftrightarrow> e \<in> set (lr_list l1) \<and> fst (the (lr_cell l1 e)) = k'" for k' e
  proof -
    have "lr_keyToElement l k' = Some e \<longleftrightarrow> e \<in> set (lr_list l) \<and> fst (the (lr_cell l e)) = k'" for k'
      using inv by (simp add: lru_inv_def)
    then show ?thesis using fresh k old no_key by (cases "e = ?e") (auto simp: l1_def)
  qed
  have ent1: "entries l1 = (k, v) # entries l"
    using cells by (simp add: entries_def l1_def fresh)
  have kn: "k \<notin> fst ` set (entries l)"
    using lookup_entries [OF inv, of k] k by (simp add: map_of_eq_None_iff)
  then have d1: "distinct (lr_list l1)" "distinct (map fst (entries l1))"
    using inv fresh ent1 by (simp_all add: l1_def lru_inv_def)
  have in1: "e < lr_next l1 \<and> lr_cell l1 e \<noteq> None" if "e \<in> set (lr_list l1)" for e
    using that old [of e] by (cases "e = ?e") (auto simp: l1_def)
  have len1: "length (lr_list l1) = Suc (length (lr_list l))" "lr_capacity l1 = lr_capacity l" by (simp_all add: l1_def)
  show ?thesis
  proof (cases "int (length (lr_list l1)) > lr_capacity l")
    case False
    then have "lru_Put l k v = l1" using put by (simp add: lru_evict_def l1_def)
    moreover have "take (nat (lr_capacity l)) (entries l1) = entries l1" using False len1 by (simp add: entries_def)
    ultimately show ?thesis using d1 in1 keys inv False len1 ent1 by (auto simp: lru_inv_def)
  next
    case True
    moreover have "int (length (lr_list l)) \<le> lr_capacity l" using inv by (simp add: lru_inv_def)
    ultimately have cap: "nat (lr_capacity l) = length (lr_list l)" using len1(1) by linarith
    let ?z = "last (lr_list l1)"
    have ne: "lr_list l1 \<noteq> []" by (simp add: l1_def)
    then have z: "?z \<in> set (lr_list l1)" by simp
    obtain kz vz where c: "lr_cell l1 ?z = Some (kz, vz)" using in1 [OF z] by auto
    define l2 where "l2 = l1\<lparr>lr_list := butlast (lr_list l1), lr_keyToElement := (lr_keyToElement l1)(kz := None),
        lr_valueToElement := (lr_valueToElement l1)(vz := None)\<rparr>"
    have put2: "lru_Put l k v = l2" using put True c len1 by (simp add: lru_evict_def l2_def Let_def)
    have split: "lr_list l1 = butlast (lr_list l1) @ [?z]" using ne by simp
    have zb: "?z \<notin> set (butlast (lr_list l1))" using d1(1) by (subst (asm) split) simp
    have mem: "e \<in> set (lr_list l1) \<longleftrightarrow> e \<in> set (butlast (lr_list l1)) \<or> e = ?z" for e by (subst split) auto
    have ent2: "entries l2 = butlast (entries l1)" by (simp add: entries_def l2_def map_butlast)
    have "length (entries l1) = Suc (length (lr_list l))" using len1 by (simp add: entries_def)
    then have tk: "butlast (entries l1) = take (nat (lr_capacity l)) (entries l1)" by (simp add: butlast_conv_take cap)
    have "distinct (map fst (entries l2))" using d1(2) by (simp add: ent2 map_butlast distinct_butlast)
    moreover have "lr_keyToElement l2 k' = Some e \<longleftrightarrow> e \<in> set (lr_list l2) \<and> fst (the (lr_cell l2 e)) = k'" for k' e
    proof (cases "k' = kz")
      case True
      have "lr_keyToElement l1 kz = Some ?z" using keys z c by simp
      then have "e = ?z" if "e \<in> set (butlast (lr_list l1))" "fst (the (lr_cell l1 e)) = kz"
        using keys [of kz e] that mem by auto
      then show ?thesis using True zb by (auto simp: l2_def)
    next
      case False
      then show ?thesis using keys [of k' e] c by (auto simp: l2_def mem)
    qed
    ultimately show ?thesis
      using put2 ent2 tk ent1 d1(1) in1 mem inv cap by (auto simp: lru_inv_def l2_def distinct_butlast len1)
  qed
qed

lemma lru_Put_spec:
  assumes "lru_inv l"
  shows "lru_inv (lru_Put l k v) \<and> entries (lru_Put l k v) = spec_put (nat (lr_capacity l)) k v (entries l)"
proof (cases "lr_keyToElement l k")
  case None
  then have "k \<notin> fst ` set (entries l)" using lookup_entries [OF assms, of k] by (simp add: map_of_eq_None_iff)
  then have "filter (\<lambda>e. fst e \<noteq> k) (entries l) = entries l" by (force simp: filter_id_conv)
  then show ?thesis using Put_absent [OF assms None] by (simp add: spec_put_def)
next
  case (Some e)
  note p = Put_present [OF assms Some, of v]
  have "length (entries (lru_Put l k v)) = length (lr_list (lru_Put l k v))" by (simp add: entries_def)
  then have "length (entries (lru_Put l k v)) \<le> nat (lr_capacity (lru_Put l k v))"
    using p unfolding lru_inv_def by linarith
  moreover have "lr_capacity (lru_Put l k v) = lr_capacity l" using Some by (simp add: lru_Put_def)
  ultimately show ?thesis using p by (simp add: spec_put_def)
qed

lemma NewLru_inv: "1 \<le> cap \<Longrightarrow> lru_inv (NewLru cap) \<and> entries (NewLru cap) = []"
  by (simp add: NewLru_def lru_inv_def entries_def)



text \<open>The reverse index is not kept when the value of a key is replaced: after putting two
  values under one key, the new value has no key, although the key has the new value, and
  the old value is still found under the key.\<close>

theorem lru_reverse_index_stale:
  assumes "1 \<le> cap" and "v1 \<noteq> v2"
  shows "let l = lru_Put (lru_Put (NewLru cap) k v1) k v2 in
     snd (lru_Get l k) = Some v2 \<and> snd (lru_GetKeyFromValue l v2) = None \<and> snd (lru_GetKeyFromValue l v1) = Some k"
  using assms
  by (auto simp: lru_Put_def NewLru_def lru_evict_def lru_Get_def lru_GetKeyFromValue_def Let_def)

theorem lru_reverse_index_stale_witness:
  "let l = lru_Put (lru_Put (NewLru 10) (1 :: nat) (5 :: nat)) 1 6 in
     snd (lru_Get l 1) = Some 6 \<and> snd (lru_GetKeyFromValue l 6) = None \<and> snd (lru_GetKeyFromValue l 5) = Some 1"
  using lru_reverse_index_stale [of 10 "5 :: nat" 6 "1 :: nat"] by simp

end
