(* ===== verification/Buf_Reader.thy ===== *)
theory Buf_Reader
  imports Byte_Queue
begin

text \<open>
  \<^verbatim>\<open>common/buf/reader.go\<close> and \<^verbatim>\<open>common/buf/copy.go\<close>: readers of multi-buffers over readers of bytes, the
  buffered reader, and the copy loop.

  A reader (\<^verbatim>\<open>buf.Reader\<close>) with states \<open>'r\<close> is a function that returns the next state, a
  multi-buffer and an error; a byte reader (\<^verbatim>\<open>io.Reader\<close>) also takes the length of the
  destination. \<open>None\<close> is a panic (or, in a loop, no result). A nil buffer in a multi-buffer has
  no bytes and is left out.
\<close>

type_synonym 'r mb_reader = "'r \<Rightarrow> ('r \<times> MultiBuffer \<times> buf_error option) option"
type_synonym 's io_reader = "'s \<Rightarrow> nat \<Rightarrow> ('s \<times> bytes \<times> buf_error option) option"
type_synonym 'w mb_writer = "'w \<Rightarrow> MultiBuffer \<Rightarrow> 'w \<times> buf_error option"

section \<open>Readers over byte readers\<close>

text \<open>\<^verbatim>\<open>b.ReadFrom(r)\<close>: the byte reader is asked once, for the room of the buffer.\<close>

definition read_into :: "'s io_reader \<Rightarrow> 's \<Rightarrow> Buffer \<Rightarrow> ('s \<times> Buffer \<times> int \<times> buf_error option) option" where
  "read_into rd s b =
     do {
       (s', data, err) \<leftarrow> rd s (room b);
       (b', n, err') \<leftarrow> Buffer_ReadFrom b (\<lambda>_. (data, err));
       Some (s', b', n, err')
     }"

definition ReadBuffer :: "bytes \<Rightarrow> 's io_reader \<Rightarrow> 's \<Rightarrow> ('s \<times> Buffer option \<times> buf_error option) option" where
  "ReadBuffer p rd s =
     do {
       (s', b, n, err) \<leftarrow> read_into rd s (Buffer_New p);
       Some (s', if n > 0 then Some b else None, err)
     }"

text \<open>\<^verbatim>\<open>readOneUDP\<close>: at most 64 attempts into one buffer.\<close>

fun readOneUDP_loop :: "nat \<Rightarrow> 's io_reader \<Rightarrow> 's \<Rightarrow> Buffer \<Rightarrow> ('s \<times> Buffer option \<times> buf_error option) option" where
  "readOneUDP_loop 0 rd s b = Some (s, None, Some (ReadError ''Reader returns too many empty payloads.''))"
| "readOneUDP_loop (Suc i) rd s b =
     do {
       (s, b, n, err) \<leftarrow> read_into rd s b;
       if \<not> Buffer_IsEmpty (Some b) then Some (s, Some b, None)
       else case err of Some e \<Rightarrow> Some (s, None, Some e) | None \<Rightarrow> readOneUDP_loop i rd s b
     }"

definition readOneUDP :: "bytes \<Rightarrow> 's io_reader \<Rightarrow> 's \<Rightarrow> ('s \<times> Buffer option \<times> buf_error option) option" where
  "readOneUDP p rd s = readOneUDP_loop 64 rd s (Buffer_New p)"

definition some_buffer :: "Buffer option \<Rightarrow> MultiBuffer" where
  "some_buffer b = (case b of None \<Rightarrow> [] | Some b \<Rightarrow> [b])"

definition SingleReader_ReadMultiBuffer :: "bytes \<Rightarrow> 's io_reader \<Rightarrow> 's mb_reader" where
  "SingleReader_ReadMultiBuffer p rd s =
     do { (s', b, err) \<leftarrow> ReadBuffer p rd s; Some (s', some_buffer b, err) }"

definition PacketReader_ReadMultiBuffer :: "bytes \<Rightarrow> 's io_reader \<Rightarrow> 's mb_reader" where
  "PacketReader_ReadMultiBuffer p rd s =
     do {
       (s', b, err) \<leftarrow> readOneUDP p rd s;
       case err of Some e \<Rightarrow> Some (s', [], Some e) | None \<Rightarrow> Some (s', some_buffer b, None)
     }"

section \<open>BufferedReader\<close>

record 'r BufferedReader =
  br_Reader :: 'r
  br_Buffer :: MultiBuffer
  br_Spliter :: "(MultiBuffer \<Rightarrow> nat \<Rightarrow> (MultiBuffer \<times> bytes) option) option"

definition BufferedReader_BufferedBytes :: "'r BufferedReader \<Rightarrow> int" where
  "BufferedReader_BufferedBytes r = MultiBuffer_Len (br_Buffer r)"

definition BufferedReader_Read :: "'r mb_reader \<Rightarrow> 'r BufferedReader io_reader" where
  "BufferedReader_Read rd r n =
     (let spliter = (case br_Spliter r of None \<Rightarrow> SplitBytes | Some f \<Rightarrow> f) in
      if \<not> MultiBuffer_IsEmpty (br_Buffer r)
      then do {
        (buffer, data) \<leftarrow> spliter (br_Buffer r) n;
        Some (r\<lparr>br_Buffer := if MultiBuffer_IsEmpty buffer then [] else buffer\<rparr>, data, None)
      }
      else do {
        (reader, mb, err) \<leftarrow> rd (br_Reader r);
        let r = r\<lparr>br_Reader := reader\<rparr>;
        case err of
          Some e \<Rightarrow> Some (r, [], Some e)
        | None \<Rightarrow> do {
            (mb, data) \<leftarrow> spliter mb n;
            Some (if \<not> MultiBuffer_IsEmpty mb then r\<lparr>br_Buffer := mb\<rparr> else r, data, None)
          }
      })"

definition BufferedReader_ReadByte :: "'r mb_reader \<Rightarrow> 'r BufferedReader \<Rightarrow> ('r BufferedReader \<times> byte \<times> buf_error option) option" where
  "BufferedReader_ReadByte rd r =
     do {
       (r, data, err) \<leftarrow> BufferedReader_Read rd r 1;
       Some (r, case data of [] \<Rightarrow> 0 | b # _ \<Rightarrow> b, err)
     }"

definition BufferedReader_ReadMultiBuffer :: "'r mb_reader \<Rightarrow> 'r BufferedReader mb_reader" where
  "BufferedReader_ReadMultiBuffer rd r =
     (if \<not> MultiBuffer_IsEmpty (br_Buffer r) then Some (r\<lparr>br_Buffer := []\<rparr>, br_Buffer r, None)
      else do { (reader, mb, err) \<leftarrow> rd (br_Reader r); Some (r\<lparr>br_Reader := reader\<rparr>, mb, err) })"

text \<open>\<^verbatim>\<open>ReadAtMost\<close>; \<open>p\<close> is the array of the buffer \<^verbatim>\<open>SplitSize\<close> may make.\<close>

definition take_at_most :: "bytes \<Rightarrow> 'r BufferedReader \<Rightarrow> int \<Rightarrow> ('r BufferedReader \<times> MultiBuffer \<times> buf_error option) option" where
  "take_at_most p r sz =
     do {
       (rb, mb) \<leftarrow> SplitSize p (br_Buffer r) sz;
       Some (r\<lparr>br_Buffer := if MultiBuffer_IsEmpty rb then [] else rb\<rparr>, mb, None)
     }"

definition BufferedReader_ReadAtMost ::
  "bytes \<Rightarrow> 'r mb_reader \<Rightarrow> 'r BufferedReader \<Rightarrow> int \<Rightarrow> ('r BufferedReader \<times> MultiBuffer \<times> buf_error option) option" where
  "BufferedReader_ReadAtMost p rd r sz =
     (if MultiBuffer_IsEmpty (br_Buffer r)
      then do {
        (reader, mb, err) \<leftarrow> rd (br_Reader r);
        let r = r\<lparr>br_Reader := reader\<rparr>;
        if MultiBuffer_IsEmpty mb \<and> err \<noteq> None then Some (r, [], err)
        else take_at_most p (r\<lparr>br_Buffer := mb\<rparr>) sz
      }
      else take_at_most p r sz)"

text \<open>\<^verbatim>\<open>io.ReadFull\<close> on a byte reader.\<close>

partial_function (option) io_ReadFull_from ::
  "'s io_reader \<Rightarrow> 's \<Rightarrow> nat \<Rightarrow> bytes \<Rightarrow> ('s \<times> bytes \<times> buf_error option) option" where
  "io_ReadFull_from rd s n acc =
     (if n \<le> length acc then Some (s, acc, None)
      else Option.bind (rd s (n - length acc)) (\<lambda>(s, data, err).
        case err of
          None \<Rightarrow> io_ReadFull_from rd s n (acc @ data)
        | Some e \<Rightarrow>
            Some (s, acc @ data,
              if n \<le> length (acc @ data) then None
              else if acc @ data \<noteq> [] \<and> e = EOF then Some UnexpectedEOF else Some e)))"

section \<open>Copy\<close>

datatype copy_error = readError buf_error | writeError buf_error

definition IsReadError :: "copy_error option \<Rightarrow> bool" where
  "IsReadError err \<longleftrightarrow> (\<exists>e. err = Some (readError e))"

definition IsWriteError :: "copy_error option \<Rightarrow> bool" where
  "IsWriteError err \<longleftrightarrow> (\<exists>e. err = Some (writeError e))"

text \<open>The handlers of a copy update one state \<open>'h\<close>; \<^verbatim>\<open>CountSize\<close> is the handler that counts.\<close>

definition CountSize :: "int \<Rightarrow> MultiBuffer \<Rightarrow> int" where
  "CountSize sc b = sc + MultiBuffer_Len b"

partial_function (option) copyInternal ::
  "'r mb_reader \<Rightarrow> 'w mb_writer \<Rightarrow> ('h \<Rightarrow> MultiBuffer \<Rightarrow> 'h) list \<Rightarrow> 'r \<Rightarrow> 'w \<Rightarrow> 'h \<Rightarrow> ('r \<times> 'w \<times> 'h \<times> copy_error) option" where
  "copyInternal rd wr onData r w h =
     Option.bind (rd r) (\<lambda>(r, buffer, err).
       let h = (if MultiBuffer_IsEmpty buffer then h else fold (\<lambda>f h. f h buffer) onData h);
           (w, werr) = (if MultiBuffer_IsEmpty buffer then (w, None) else wr w buffer)
       in case werr of
            Some e \<Rightarrow> Some (r, w, h, writeError e)
          | None \<Rightarrow> (case err of Some e \<Rightarrow> Some (r, w, h, readError e) | None \<Rightarrow> copyInternal rd wr onData r w h))"

fun errors_Cause :: "copy_error \<Rightarrow> buf_error" where
  "errors_Cause (readError e) = e"
| "errors_Cause (writeError e) = e"

definition Copy :: "'r mb_reader \<Rightarrow> 'w mb_writer \<Rightarrow> ('h \<Rightarrow> MultiBuffer \<Rightarrow> 'h) list \<Rightarrow> 'r \<Rightarrow> 'w \<Rightarrow> 'h \<Rightarrow>
  ('r \<times> 'w \<times> 'h \<times> copy_error option) option" where
  "Copy rd wr onData r w h =
     map_option (\<lambda>(r, w, h, err). (r, w, h, if errors_Cause err = EOF then None else Some err))
       (copyInternal rd wr onData r w h)"

section \<open>The contracts\<close>

text \<open>Multi-buffers whose buffers are non-empty and at most one pool array long.\<close>

definition pooled :: "MultiBuffer \<Rightarrow> bool" where
  "pooled mb \<longleftrightarrow> wf_mb mb \<and> (\<forall>b \<in> set mb. content b \<noteq> [] \<and> length (content b) \<le> 2048)"

lemma pooled_simps [simp]:
  "pooled []" "pooled (b # mb) \<longleftrightarrow> wf_Buffer b \<and> content b \<noteq> [] \<and> length (content b) \<le> 2048 \<and> pooled mb"
  "pooled (xs @ ys) \<longleftrightarrow> pooled xs \<and> pooled ys"
  by (auto simp: pooled_def)

lemma pooled_wf: "pooled mb \<Longrightarrow> wf_mb mb"
  by (simp add: pooled_def)

lemma pooled_IsEmpty: "pooled mb \<Longrightarrow> MultiBuffer_IsEmpty mb \<longleftrightarrow> mb_content mb = []"
  by (simp add: pooled_wf MultiBuffer_IsEmpty_content)

text \<open>\<open>rep s bs\<close>: the source in state \<open>s\<close> will deliver exactly \<open>bs\<close> and then report the end. What a
  byte reader promises, and what a reader of multi-buffers promises.\<close>

locale io_source =
  fixes rd :: "'s io_reader" and rep :: "'s \<Rightarrow> bytes \<Rightarrow> bool"
  assumes io_end: "rep s [] \<Longrightarrow> 0 < n \<Longrightarrow> \<exists>s'. rd s n = Some (s', [], Some EOF)"
    and io_more: "rep s bs \<Longrightarrow> bs \<noteq> [] \<Longrightarrow> 0 < n \<Longrightarrow>
      \<exists>s' k. rd s n = Some (s', take k bs, None) \<and> 0 < k \<and> k \<le> n \<and> rep s' (drop k bs)"
begin

lemma io_ReadFull_ok:
  "rep s (xs @ rest) \<Longrightarrow> \<exists>s'. io_ReadFull_from rd s (length acc + length xs) acc = Some (s', acc @ xs, None) \<and> rep s' rest"
proof (induction "length xs" arbitrary: s xs acc rule: less_induct)
  case less
  show ?case
  proof (cases "xs = []")
    case True
    then show ?thesis using less.prems by (subst io_ReadFull_from.simps) simp
  next
    case False
    then obtain s' k where k: "rd s (length xs) = Some (s', take k (xs @ rest), None)" "0 < k" "k \<le> length xs"
        "rep s' (drop k (xs @ rest))"
      using io_more [OF less.prems, of "length xs"] by auto
    have "length (drop k xs) < length xs" using k False by simp
    moreover have "rep s' (drop k xs @ rest)" using k by simp
    ultimately obtain s2 where "io_ReadFull_from rd s' (length (acc @ take k xs) + length (drop k xs)) (acc @ take k xs) =
        Some (s2, (acc @ take k xs) @ drop k xs, None)" "rep s2 rest"
      using less.hyps by blast
    then show ?thesis using k False by (subst io_ReadFull_from.simps) auto
  qed
qed

end

locale mb_source =
  fixes rd :: "'r mb_reader" and rep :: "'r \<Rightarrow> bytes \<Rightarrow> bool"
  assumes mb_end: "rep r [] \<Longrightarrow> \<exists>r'. rd r = Some (r', [], Some EOF)"
    and mb_more: "rep r bs \<Longrightarrow> bs \<noteq> [] \<Longrightarrow>
      \<exists>r' mb bs'. rd r = Some (r', mb, None) \<and> pooled mb \<and> mb_content mb \<noteq> [] \<and> bs = mb_content mb @ bs' \<and> rep r' bs'"
begin

text \<open>Copying delivers every byte, in order, to a writer that accepts them, and ends without error.\<close>

lemma copy_all_final:
  assumes wr: "\<And>w xs mb. J w xs \<Longrightarrow> pooled mb \<Longrightarrow> \<exists>w'. wr w mb = (w', None) \<and> J w' (xs @ mb_content mb)"
    and hd: "\<And>h n mb. pooled mb \<Longrightarrow> length (mb_content mb) < 2 ^ 31 \<Longrightarrow> H h n \<Longrightarrow> H (fold (\<lambda>f h. f h mb) onData h) (n + length (mb_content mb))"
    and "length bs < 2 ^ 31"
  shows "rep r bs \<Longrightarrow> H h n \<Longrightarrow> J w xs \<Longrightarrow> \<exists>r' w' h'. Copy rd wr onData r w h = Some (r', w', h', None) \<and> J w' (xs @ bs) \<and> H h' (n + length bs) \<and>
     (\<exists>r0. rep r0 [] \<and> rd r0 = Some (r', [], Some EOF))"
  using assms(3)
proof (induction "length bs" arbitrary: r w h n bs xs rule: less_induct)
  case less
  show ?case
  proof (cases "bs = []")
    case True
    then obtain r' where "rd r = Some (r', [], Some EOF)" using mb_end less.prems by blast
    then show ?thesis using True less.prems unfolding Copy_def by (subst copyInternal.simps) auto
  next
    case False
    obtain r1 mb bs' where r1: "rd r = Some (r1, mb, None)" "pooled mb" "mb_content mb \<noteq> []" "bs = mb_content mb @ bs'" "rep r1 bs'"
      using mb_more [OF less.prems(1) False] by blast
    obtain w1 where w1: "wr w mb = (w1, None)" "J w1 (xs @ mb_content mb)" using wr [OF less.prems(3) r1(2)] by blast
    let ?h = "fold (\<lambda>f h. f h mb) onData h"
    have len: "length bs' < length bs" "length bs' < 2 ^ 31" using r1(3,4) less.prems(4) by auto
    have h: "H ?h (n + length (mb_content mb))" using hd [OF r1(2) _ less.prems(2)] less.prems(4) r1(4) by simp
    obtain r' w' h' where "Copy rd wr onData r1 w1 ?h = Some (r', w', h', None)" "J w' ((xs @ mb_content mb) @ bs')"
        "H h' (n + length (mb_content mb) + length bs')" "\<exists>r0. rep r0 [] \<and> rd r0 = Some (r', [], Some EOF)"
      using less.hyps [OF len(1) r1(5) h w1(2) len(2)] by blast
    moreover have "Copy rd wr onData r w h = Copy rd wr onData r1 w1 ?h"
      using r1 w1 pooled_IsEmpty [OF r1(2)] unfolding Copy_def by (subst copyInternal.simps) simp
    ultimately show ?thesis using r1(4) by (auto simp: add.assoc)
  qed
qed

lemma copy_all:
  assumes "\<And>w mb. pooled mb \<Longrightarrow> \<exists>w'. wr w mb = (w', None) \<and> out w' = out w @ mb_content mb"
    and "length bs < 2 ^ 31" and "rep r bs"
  shows "\<exists>r' w'. Copy rd wr [CountSize] r w sc = Some (r', w', sc + int (length bs), None) \<and> out w' = out w @ bs"
proof -
  have wr: "\<exists>w'. wr v mb = (w', None) \<and> out w' = out w @ xs @ mb_content mb" if "out v = out w @ xs" "pooled mb" for v xs mb
    using assms(1) [OF that(2), of v] that(1) by auto
  show ?thesis
    using copy_all_final [of "\<lambda>v xs. out v = out w @ xs" wr "\<lambda>h n. h = sc + int n" "[CountSize]" bs r sc 0 w "[]"] wr assms(2,3) pooled_wf
    by (auto simp: CountSize_def MultiBuffer_Len_content)
qed

end

section \<open>The providers\<close>

text \<open>The buffer and the container as byte readers.\<close>

definition outcome_read :: "'s \<Rightarrow> (buf_error, 's \<times> bytes) outcome \<Rightarrow> ('s \<times> bytes \<times> buf_error option) option" where
  "outcome_read s r = (case r of Panic \<Rightarrow> None | Fail e \<Rightarrow> Some (s, [], Some e) | Ok (s', data) \<Rightarrow> Some (s', data, None))"

definition Container_reader :: "MultiBuffer io_reader" where
  "Container_reader c n = outcome_read c (Container_Read c n)"

definition Buffer_reader :: "Buffer io_reader" where
  "Buffer_reader b n = outcome_read b (Buffer_Read b n)"

interpretation contr: io_source Container_reader "\<lambda>c bs. wf_mb c \<and> mb_content c = bs"
proof unfold_locales
  fix s :: MultiBuffer and n :: nat
  assume "wf_mb s \<and> mb_content s = []"
  then show "\<exists>s'. Container_reader s n = Some (s', [], Some EOF)"
    by (simp add: Container_reader_def outcome_read_def Container_Read_def MultiBuffer_IsEmpty_content)
next
  fix s :: MultiBuffer and bs n
  assume a: "wf_mb s \<and> mb_content s = bs" "bs \<noteq> []" "0 < (n :: nat)"
  obtain rest where "SplitBytes s n = Some (rest, take n bs)" "wf_mb rest" "mb_content rest = drop n bs"
    using SplitBytes_spec [of s n] a by blast
  then show "\<exists>s' k. Container_reader s n = Some (s', take k bs, None) \<and> 0 < k \<and> k \<le> n \<and> wf_mb s' \<and> mb_content s' = drop k bs"
    using a by (intro exI [of _ rest] exI [of _ n])
      (simp add: Container_reader_def outcome_read_def Container_Read_def MultiBuffer_IsEmpty_content)
qed

interpretation bufr: io_source Buffer_reader "\<lambda>b bs. wf_Buffer b \<and> content b = bs"
proof unfold_locales
  fix s :: Buffer and n :: nat
  assume "wf_Buffer s \<and> content s = []"
  then show "\<exists>s'. Buffer_reader s n = Some (s', [], Some EOF)"
    by (simp add: Buffer_reader_def outcome_read_def Buffer_Read_EOF)
next
  fix s :: Buffer and bs n
  assume a: "wf_Buffer s \<and> content s = bs" "bs \<noteq> []" "0 < (n :: nat)"
  then obtain b' where "Buffer_Read s n = Ok (b', take n bs)" "wf_Buffer b'" "content b' = drop n bs"
    using Buffer_Read_spec [of s n] by blast
  then show "\<exists>s' k. Buffer_reader s n = Some (s', take k bs, None) \<and> 0 < k \<and> k \<le> n \<and> wf_Buffer s' \<and> content s' = drop k bs"
    using a by (intro exI [of _ b'] exI [of _ n]) (simp add: Buffer_reader_def outcome_read_def)
qed

text \<open>A \<^verbatim>\<open>SingleReader\<close> over a byte reader that keeps its contract keeps the contract of readers.\<close>

locale single_source = io_source rd rep for rd :: "'s io_reader" and rep +
  fixes p :: bytes
  assumes array: "length p = 2048"

sublocale single_source \<subseteq> single: mb_source "SingleReader_ReadMultiBuffer p rd" rep
proof unfold_locales
  have wf: "wf_Buffer (Buffer_New p)" and rm: "room (Buffer_New p) = 2048" using array by simp_all
  fix r
  show "\<exists>r'. SingleReader_ReadMultiBuffer p rd r = Some (r', [], Some EOF)" if rep: "rep r []"
  proof -
    obtain s' where s': "rd r 2048 = Some (s', [], Some EOF)" using io_end [OF rep, of 2048] by auto
    obtain b where "Buffer_ReadFrom (Buffer_New p) (\<lambda>_. ([], Some EOF)) = Some (b, 0, Some EOF)"
      using Buffer_ReadFrom_spec [OF wf, of "\<lambda>_. ([], Some EOF)"] by auto
    then show ?thesis using s' rm by (simp add: SingleReader_ReadMultiBuffer_def ReadBuffer_def read_into_def some_buffer_def)
  qed
  fix bs
  show "\<exists>r' mb bs'. SingleReader_ReadMultiBuffer p rd r = Some (r', mb, None) \<and> pooled mb \<and> mb_content mb \<noteq> [] \<and>
      bs = mb_content mb @ bs' \<and> rep r' bs'" if rep: "rep r bs" "bs \<noteq> []"
  proof -
    obtain s' k where s': "rd r 2048 = Some (s', take k bs, None)" "0 < k" "k \<le> 2048" "rep s' (drop k bs)"
      using io_more [OF rep, of 2048] by auto
    obtain b where b: "Buffer_ReadFrom (Buffer_New p) (\<lambda>_. (take k bs, None)) = Some (b, int (length (take k bs)), None)"
        "wf_Buffer b" "content b = take k bs"
      by (rule Buffer_ReadFrom_spec [OF wf, of "\<lambda>_. (take k bs, None)"]) (use s'(3) rm in auto)
    have "int (length (take k bs)) > 0" using s'(2) rep(2) by simp
    then show ?thesis
      using s' rm b rep(2) by (intro exI [of _ s'] exI [of _ "[b]"] exI [of _ "drop k bs"])
        (auto simp: SingleReader_ReadMultiBuffer_def ReadBuffer_def read_into_def some_buffer_def)
  qed
qed

section \<open>The buffered reader\<close>

lemma pooled_content_Nil: "pooled mb \<Longrightarrow> mb_content mb = [] \<longleftrightarrow> mb = []"
  by (cases mb) auto

lemma pooled_split_bytes:
  "pooled mb \<Longrightarrow> \<exists>rest. SplitBytes mb n = Some (rest, take n (mb_content mb)) \<and> pooled rest \<and> mb_content rest = drop n (mb_content mb)"
proof (induction mb arbitrary: n)
  case Nil
  then show ?case by simp
next
  case (Cons b mb)
  then have wf: "wf_Buffer b" "pooled mb" "content b \<noteq> []" "length (content b) \<le> 2048" by simp_all
  obtain b' where b': "Buffer_Read b n = Ok (b', take n (content b))" "wf_Buffer b'" "content b' = drop n (content b)"
    using Buffer_Read_spec [OF wf(1,3)] by metis
  show ?case
  proof (cases "length (content b) \<le> n")
    case True
    then show ?thesis
      using Cons.IH [OF wf(2), of "n - length (content b)"] b' wf by (auto simp: Buffer_IsEmpty_content)
  next
    case False
    then show ?thesis using b' wf by (auto simp: Buffer_IsEmpty_content)
  qed
qed

lemma SplitSize_loop_pooled:
  "pooled mb \<Longrightarrow> pooled r \<Longrightarrow> SplitSize_loop mb sz t r = (rest, taken) \<Longrightarrow>
   pooled rest \<and> pooled taken \<and> (\<exists>more. taken = r @ more)"
  by (induction mb sz t r rule: SplitSize_loop.induct) (auto split: if_splits)

lemma pooled_split_size:
  assumes mb: "pooled mb" "mb \<noteq> []" and p: "length p = 2048" and sz: "0 < sz" "sz < 2 ^ 30"
  shows "\<exists>rest taken. SplitSize p mb sz = Some (rest, taken) \<and> pooled rest \<and> pooled taken \<and> taken \<noteq> [] \<and>
     mb_content taken @ mb_content rest = mb_content mb \<and> int (length (mb_content taken)) \<le> sz"
proof -
  have small: "\<forall>b \<in> set mb. int (length (content b)) < 2 ^ 30" using mb(1) by (auto simp: pooled_def)
  have len: "length (content (hd mb)) \<le> 2048" using mb by (auto simp: pooled_def)
  obtain rest taken where s: "SplitSize p mb sz = Some (rest, taken)" "mb_content taken @ mb_content rest = mb_content mb"
      "int (length (mb_content taken)) \<le> sz" "wf_mb rest" "wf_mb taken"
    using SplitSize_content [OF pooled_wf [OF mb(1)] _ less_imp_le [OF sz(1)] sz(2) small, of p] p len
    by (fastforce simp: Size_def)
  have "pooled rest \<and> pooled taken \<and> taken \<noteq> []"
  proof (cases "int (length (content (hd mb))) > sz")
    case True
    obtain b0 bs where b0: "mb = b0 # bs" using mb(2) by (cases mb) auto
    have b0': "wf_Buffer b0" "length (content b0) \<le> 2048" "pooled bs" using mb(1) b0 by auto
    have sh: "rest = Buffer_Advance b0 sz # bs" "\<exists>b. taken = [b]"
      using s(1) True b0 b0' by (auto simp: SplitSize_def Buffer_Len_content split: option.splits Option.bind_splits)
    have adv: "wf_Buffer (Buffer_Advance b0 sz)" "content (Buffer_Advance b0 sz) = drop (nat sz) (content b0)"
      using Buffer_Advance_content [OF b0'(1), of sz] True sz b0 by auto
    obtain b where b: "taken = [b]" using sh(2) by blast
    have "content b @ drop (nat sz) (content b0) = content b0" using s(2) b sh(1) adv(2) b0 by simp
    then have cb: "content b = take (nat sz) (content b0)" by (metis append_take_drop_id append_same_eq)
    show ?thesis using sh b adv cb True b0 b0' s(5) sz by auto
  next
    case False
    obtain b0 bs where b0: "mb = b0 # bs" using mb(2) by (cases mb) auto
    have b0': "wf_Buffer b0" using mb(1) b0 by auto
    have "SplitSize_loop mb sz 0 [] = (rest, taken)"
      using s(1) False b0 b0' by (auto simp: SplitSize_def Buffer_Len_content)
    moreover have "i32 (int (length (content b0))) = int (length (content b0))"
      using len b0 by (intro i32_id) auto
    ultimately have l: "SplitSize_loop bs sz (int (length (content b0))) [b0] = (rest, taken)"
      using b0 b0' False by (simp add: Buffer_Len_content)
    have "pooled bs" "pooled [b0]" using mb(1) unfolding b0 by simp_all
    from SplitSize_loop_pooled [OF this l] show ?thesis by auto
  qed
  then show ?thesis using s by blast
qed

context single_source
begin

lemma single_mb_source: "mb_source (SingleReader_ReadMultiBuffer p rd) rep"
  by (rule single.mb_source_axioms)

end

definition br_rep :: "('r \<Rightarrow> bytes \<Rightarrow> bool) \<Rightarrow> 'r BufferedReader \<Rightarrow> bytes \<Rightarrow> bool" where
  "br_rep rep r bs \<longleftrightarrow> pooled (br_Buffer r) \<and> br_Spliter r = None \<and> (\<exists>bs'. rep (br_Reader r) bs' \<and> bs = mb_content (br_Buffer r) @ bs')"

lemma br_repI:
  "pooled mb \<Longrightarrow> rep s bs \<Longrightarrow> br_rep rep \<lparr>br_Reader = s, br_Buffer = mb, br_Spliter = None\<rparr> (mb_content mb @ bs)"
  by (auto simp: br_rep_def)

text \<open>A buffered reader over a source is again a source, of multi-buffers and of bytes.\<close>

locale buffered_source = mb_source rd rep for rd :: "'r mb_reader" and rep

sublocale buffered_source \<subseteq> buffered: mb_source "BufferedReader_ReadMultiBuffer rd" "br_rep rep"
proof unfold_locales
  fix r :: "'r BufferedReader" and bs
  show "\<exists>r'. BufferedReader_ReadMultiBuffer rd r = Some (r', [], Some EOF)" if "br_rep rep r []"
    using that mb_end [of "br_Reader r"] by (auto simp: br_rep_def BufferedReader_ReadMultiBuffer_def pooled_IsEmpty)
  show "\<exists>r' mb bs'. BufferedReader_ReadMultiBuffer rd r = Some (r', mb, None) \<and> pooled mb \<and> mb_content mb \<noteq> [] \<and>
      bs = mb_content mb @ bs' \<and> br_rep rep r' bs'" if "br_rep rep r bs" "bs \<noteq> []"
  proof -
    obtain bs' where r: "pooled (br_Buffer r)" "br_Spliter r = None" "rep (br_Reader r) bs'" "bs = mb_content (br_Buffer r) @ bs'"
      using \<open>br_rep rep r bs\<close> by (auto simp: br_rep_def)
    show ?thesis
    proof (cases "mb_content (br_Buffer r) = []")
      case True
      then have "bs' \<noteq> []" using r that by simp
      then obtain r' mb bs'' where "rd (br_Reader r) = Some (r', mb, None)" "pooled mb" "mb_content mb \<noteq> []"
          "bs' = mb_content mb @ bs''" "rep r' bs''"
        using mb_more [OF r(3)] by blast
      then show ?thesis
        using r True by (auto simp: BufferedReader_ReadMultiBuffer_def pooled_IsEmpty br_rep_def pooled_content_Nil)
    next
      case False
      then show ?thesis
        using r by (auto simp: BufferedReader_ReadMultiBuffer_def pooled_IsEmpty br_rep_def)
    qed
  qed
qed

sublocale buffered_source \<subseteq> bufbytes: io_source "BufferedReader_Read rd" "br_rep rep"
proof unfold_locales
  fix r :: "'r BufferedReader" and bs and n :: nat
  show "\<exists>r'. BufferedReader_Read rd r n = Some (r', [], Some EOF)" if "br_rep rep r []"
    using that mb_end [of "br_Reader r"] by (auto simp: br_rep_def BufferedReader_Read_def pooled_IsEmpty)
  show "\<exists>r' k. BufferedReader_Read rd r n = Some (r', take k bs, None) \<and> 0 < k \<and> k \<le> n \<and> br_rep rep r' (drop k bs)"
    if "br_rep rep r bs" "bs \<noteq> []" "0 < n"
  proof -
    obtain bs' where r: "pooled (br_Buffer r)" "br_Spliter r = None" "rep (br_Reader r) bs'" "bs = mb_content (br_Buffer r) @ bs'"
      using \<open>br_rep rep r bs\<close> by (auto simp: br_rep_def)
    show ?thesis
    proof (cases "mb_content (br_Buffer r) = []")
      case True
      then have "bs' \<noteq> []" using r that by simp
      then obtain r' mb bs'' where m: "rd (br_Reader r) = Some (r', mb, None)" "pooled mb" "mb_content mb \<noteq> []"
          "bs' = mb_content mb @ bs''" "rep r' bs''"
        using mb_more [OF r(3)] by blast
      obtain rest where s: "SplitBytes mb n = Some (rest, take n (mb_content mb))" "pooled rest" "mb_content rest = drop n (mb_content mb)"
        using pooled_split_bytes [OF m(2)] by blast
      let ?k = "min n (length (mb_content mb))"
      show ?thesis
        using r m s True that(3)
        by (intro exI [of _ "r\<lparr>br_Reader := r', br_Buffer := if MultiBuffer_IsEmpty rest then br_Buffer r else rest\<rparr>"] exI [of _ ?k])
          (auto simp: BufferedReader_Read_def pooled_IsEmpty br_rep_def pooled_content_Nil min_def)
    next
      case False
      obtain rest where s: "SplitBytes (br_Buffer r) n = Some (rest, take n (mb_content (br_Buffer r)))" "pooled rest"
          "mb_content rest = drop n (mb_content (br_Buffer r))"
        using pooled_split_bytes [OF r(1)] by blast
      let ?k = "min n (length (mb_content (br_Buffer r)))"
      show ?thesis
        using r s False that(3)
        by (intro exI [of _ "r\<lparr>br_Buffer := if MultiBuffer_IsEmpty rest then [] else rest\<rparr>"] exI [of _ ?k])
          (auto simp: BufferedReader_Read_def pooled_IsEmpty br_rep_def pooled_content_Nil min_def)
    qed
  qed
qed

context buffered_source
begin

lemma buffered_mb_source: "mb_source (BufferedReader_ReadMultiBuffer rd) (br_rep rep)"
  by (rule buffered.mb_source_axioms)

lemma bufbytes_io_source: "io_source (BufferedReader_Read rd) (br_rep rep)"
  by (rule bufbytes.io_source_axioms)

lemma read_at_most:
  assumes "br_rep rep r bs" "bs \<noteq> []" and p: "length p = 2048" and sz: "0 < sz" "sz < 2 ^ 30"
  shows "\<exists>r' mb bs'. BufferedReader_ReadAtMost p rd r sz = Some (r', mb, None) \<and> pooled mb \<and> mb_content mb \<noteq> [] \<and>
     int (length (mb_content mb)) \<le> sz \<and> bs = mb_content mb @ bs' \<and> br_rep rep r' bs'"
proof -
  have tk: "\<exists>r' mb bs'. take_at_most p r sz = Some (r', mb, None) \<and> pooled mb \<and> mb_content mb \<noteq> [] \<and>
     int (length (mb_content mb)) \<le> sz \<and> bs = mb_content mb @ bs' \<and> br_rep rep r' bs'"
    if rp: "br_rep rep r bs" and ne: "br_Buffer r \<noteq> []" for r
  proof -
    obtain bs' where r: "pooled (br_Buffer r)" "br_Spliter r = None" "rep (br_Reader r) bs'" "bs = mb_content (br_Buffer r) @ bs'"
      using rp by (auto simp: br_rep_def)
    obtain rest taken where s: "SplitSize p (br_Buffer r) sz = Some (rest, taken)" "pooled rest" "pooled taken" "taken \<noteq> []"
      "mb_content taken @ mb_content rest = mb_content (br_Buffer r)" "int (length (mb_content taken)) \<le> sz"
      using pooled_split_size [OF r(1) ne p sz] by blast
    have bs: "bs = mb_content taken @ mb_content rest @ bs'" using s(5) r(4) by (metis append.assoc)
    have tk: "take_at_most p r sz = Some (r\<lparr>br_Buffer := rest\<rparr>, taken, None)"
      using s by (auto simp: take_at_most_def pooled_IsEmpty pooled_content_Nil)
    have "br_rep rep (r\<lparr>br_Buffer := rest\<rparr>) (mb_content rest @ bs')" using r s by (auto simp: br_rep_def)
    with tk bs s show ?thesis by (auto simp: pooled_content_Nil)
  qed
  show ?thesis
  proof (cases "br_Buffer r = []")
    case True
    obtain bs' where r: "br_Spliter r = None" "rep (br_Reader r) bs'" "bs = bs'"
      using assms(1) True by (auto simp: br_rep_def)
    obtain r' mb bs'' where m: "rd (br_Reader r) = Some (r', mb, None)" "pooled mb" "mb_content mb \<noteq> []"
        "bs = mb_content mb @ bs''" "rep r' bs''"
      using mb_more [OF r(2)] r(3) assms(2) by blast
    have rp: "br_rep rep (r\<lparr>br_Reader := r', br_Buffer := mb\<rparr>) bs" using m r by (auto simp: br_rep_def)
    have ne: "br_Buffer (r\<lparr>br_Reader := r', br_Buffer := mb\<rparr>) \<noteq> []" using m(3) by auto
    have "BufferedReader_ReadAtMost p rd r sz = take_at_most p (r\<lparr>br_Reader := r', br_Buffer := mb\<rparr>) sz"
      using m True by (simp add: BufferedReader_ReadAtMost_def)
    then show ?thesis using tk [OF rp ne] by simp
  next
    case False
    then show ?thesis using tk [OF assms(1) False] assms(1)
      by (auto simp: BufferedReader_ReadAtMost_def br_rep_def pooled_IsEmpty pooled_content_Nil)
  qed
qed

end

interpretation cont_single: single_source Container_reader "\<lambda>c bs. wf_mb c \<and> mb_content c = bs" "fresh_pool 0"
  by unfold_locales simp

interpretation cont_buffered: buffered_source "SingleReader_ReadMultiBuffer (fresh_pool 0) Container_reader"
    "\<lambda>c bs. wf_mb c \<and> mb_content c = bs"
  by unfold_locales

section \<open>Properties\<close>

text \<open>A writer that takes every multi-buffer and appends its bytes.\<close>

definition accepts_all :: "'w mb_writer \<Rightarrow> ('w \<Rightarrow> bytes) \<Rightarrow> bool" where
  "accepts_all wr out \<longleftrightarrow> (\<forall>w mb. pooled mb \<longrightarrow> (\<exists>w'. wr w mb = (w', None) \<and> out w' = out w @ mb_content mb))"


text \<open>A writer that collects the bytes.\<close>

definition collect :: "bytes mb_writer" where
  "collect w mb = (w @ mb_content mb, None)"

lemma collect_accepts: "accepts_all collect (\<lambda>w. w)"
  by (simp add: accepts_all_def collect_def)


text \<open>A byte reader may return its last bytes together with the end of the stream. Then \<^verbatim>\<open>Read\<close> of a
  buffered reader reports the end and drops these bytes, while \<^verbatim>\<open>ReadAtMost\<close> delivers them.\<close>

theorem BufferedReader_Read_drops_last:
  assumes "rd s 2048 = Some (s', data, Some EOF)" and "data \<noteq> []" and "length data \<le> 2048" and "length p = 2048"
  shows "let r = \<lparr>br_Reader = s, br_Buffer = [], br_Spliter = None\<rparr>; single = SingleReader_ReadMultiBuffer p rd in
     BufferedReader_Read single r n = Some (r\<lparr>br_Reader := s'\<rparr>, [], Some EOF) \<and>
     (\<exists>r' mb. BufferedReader_ReadAtMost p single r 2048 = Some (r', mb, None) \<and> mb_content mb = data)"
proof -
  have wf: "wf_Buffer (Buffer_New p)" and rm: "room (Buffer_New p) = 2048" using assms(4) by simp_all
  obtain b where b: "Buffer_ReadFrom (Buffer_New p) (\<lambda>_. (data, Some EOF)) = Some (b, int (length data), Some EOF)"
      "wf_Buffer b" "content b = data"
    by (rule Buffer_ReadFrom_spec [OF wf, of "\<lambda>_. (data, Some EOF)"]) (use assms(3) rm in auto)
  have single: "SingleReader_ReadMultiBuffer p rd s = Some (s', [b], Some EOF)"
    using assms(1,2) b rm by (simp add: SingleReader_ReadMultiBuffer_def ReadBuffer_def read_into_def some_buffer_def)
  have ne: "\<not> MultiBuffer_IsEmpty [b]" using b assms(2) by (simp add: Buffer_IsEmpty_content)
  have "i32 (int (length data)) = int (length data)" using assms(3) by (intro i32_id) auto
  then have "SplitSize p [b] 2048 = Some ([], [b])"
    using b assms(3) by (simp add: SplitSize_def Buffer_Len_content)
  then show ?thesis
    using single ne b by (simp add: Let_def BufferedReader_Read_def BufferedReader_ReadAtMost_def take_at_most_def)
qed

definition last_read :: "bytes io_reader" where
  "last_read s n = Some (drop n s, take n s, if length s \<le> n then Some EOF else None)"

theorem BufferedReader_Read_drops_last_witness:
  "let r = \<lparr>br_Reader = [1, 2, 3], br_Buffer = [], br_Spliter = None\<rparr>; single = SingleReader_ReadMultiBuffer (fresh_pool 0) last_read in
     BufferedReader_Read single r 16 = Some (r\<lparr>br_Reader := []\<rparr>, [], Some EOF) \<and>
     (\<exists>r' mb. BufferedReader_ReadAtMost (fresh_pool 0) single r 2048 = Some (r', mb, None) \<and> mb_content mb = [1, 2, 3])"
  by (rule BufferedReader_Read_drops_last) (simp_all add: last_read_def)

end
