(* ===== verification/Crypto_Auth.thy ===== *)
theory Crypto_Auth
  imports Buf_Reader
begin

text \<open>
  The first half of \<^verbatim>\<open>common/crypto/auth.go\<close>: nonce generators and the authenticator that seals and opens
  with an AEAD and a fresh nonce each time.

  A \<^verbatim>\<open>BytesGenerator\<close> is a closure over its state; here it is a function from the state to the next state
  and the bytes (\<open>None\<close> is a panic). A \<^verbatim>\<open>cipher.AEAD\<close> is a parameter: a record of its functions, with
  its documented laws as the locale \<open>cipher_aead\<close>.
\<close>

section \<open>Nonce generators\<close>

type_synonym 'g BytesGenerator = "'g \<Rightarrow> 'g \<times> bytes option"

definition GenerateEmptyBytes :: "'g BytesGenerator" where
  "GenerateEmptyBytes g = (g, Some [])"

definition GenerateStaticBytes :: "bytes \<Rightarrow> 'g BytesGenerator" where
  "GenerateStaticBytes bs g = (g, Some bs)"

text \<open>The loop of \<^verbatim>\<open>GenerateIncreasingNonce\<close> over the bytes, the least significant first.\<close>

fun increment :: "bytes \<Rightarrow> bytes" where
  "increment [] = []"
| "increment (x # xs) = (if x + 1 \<noteq> 0 then (x + 1) # xs else (x + 1) # increment xs)"

definition GenerateIncreasingNonce :: "bytes BytesGenerator" where
  "GenerateIncreasingNonce c = (let c = increment c in (c, Some c))"

definition GenerateInitialAEADNonce :: bytes where
  "GenerateInitialAEADNonce = replicate 12 0xFF"

section \<open>AEADAuthenticator\<close>

record cipher_AEAD =
  ca_NonceSize :: nat
  ca_Overhead :: nat
  ca_Seal :: "bytes \<Rightarrow> bytes \<Rightarrow> bytes \<Rightarrow> bytes"
  ca_Open :: "bytes \<Rightarrow> bytes \<Rightarrow> bytes \<Rightarrow> (buf_error, bytes) outcome"

record ('g, 'h) AEADAuthenticator =
  au_AEAD :: cipher_AEAD
  au_NonceGenerator :: "'g BytesGenerator"
  au_nonce :: 'g
  au_AdditionalDataGenerator :: "'h BytesGenerator option"
  au_ad :: 'h

text \<open>The nonce and the additional data of one call.\<close>

definition next_inputs :: "('g, 'h) AEADAuthenticator \<Rightarrow> ('g, 'h) AEADAuthenticator \<times> (buf_error, bytes \<times> bytes) outcome" where
  "next_inputs v =
     (case au_NonceGenerator v (au_nonce v) of
        (g, None) \<Rightarrow> (v\<lparr>au_nonce := g\<rparr>, Panic)
      | (g, Some iv) \<Rightarrow>
          let v = v\<lparr>au_nonce := g\<rparr> in
          if length iv \<noteq> ca_NonceSize (au_AEAD v) then (v, Fail (ReadError ''invalid AEAD nonce size''))
          else (case au_AdditionalDataGenerator v of
                  None \<Rightarrow> (v, Ok (iv, []))
                | Some gen \<Rightarrow>
                    (case gen (au_ad v) of
                       (h, None) \<Rightarrow> (v\<lparr>au_ad := h\<rparr>, Panic)
                     | (h, Some ad) \<Rightarrow> (v\<lparr>au_ad := h\<rparr>, Ok (iv, ad)))))"

definition AEADAuthenticator_Open ::
  "('g, 'h) AEADAuthenticator \<Rightarrow> bytes \<Rightarrow> ('g, 'h) AEADAuthenticator \<times> (buf_error, bytes) outcome" where
  "AEADAuthenticator_Open v cipherText =
     (let (v, r) = next_inputs v in (v, outcome_bind r (\<lambda>(iv, ad). ca_Open (au_AEAD v) iv cipherText ad)))"

definition AEADAuthenticator_Seal ::
  "('g, 'h) AEADAuthenticator \<Rightarrow> bytes \<Rightarrow> ('g, 'h) AEADAuthenticator \<times> (buf_error, bytes) outcome" where
  "AEADAuthenticator_Seal v plainText =
     (let (v, r) = next_inputs v in (v, outcome_bind r (\<lambda>(iv, ad). Ok (ca_Seal (au_AEAD v) iv plainText ad))))"

section \<open>The law of an AEAD\<close>

locale cipher_aead =
  fixes c :: cipher_AEAD
  assumes seal_length: "length iv = ca_NonceSize c \<Longrightarrow> length (ca_Seal c iv plain ad) = length plain + ca_Overhead c"
    and open_seal: "length iv = ca_NonceSize c \<Longrightarrow> ca_Open c iv (ca_Seal c iv plain ad) ad = Ok plain"

text \<open>An authenticator whose generators go on delivering nonces of the right size for ever.\<close>

definition good_auth :: "cipher_AEAD \<Rightarrow> ('g \<Rightarrow> bool) \<Rightarrow> ('g, 'h) AEADAuthenticator \<Rightarrow> bool" where
  "good_auth c ok v \<longleftrightarrow> au_AEAD v = c \<and> ok (au_nonce v) \<and> au_AdditionalDataGenerator v = Some GenerateEmptyBytes \<and>
     (\<forall>g. ok g \<longrightarrow> (\<exists>g' iv. au_NonceGenerator v g = (g', Some iv) \<and> length iv = ca_NonceSize c \<and> ok g'))"

lemma good_auth_next:
  assumes "good_auth c ok v"
  obtains iv v' where "next_inputs v = (v', Ok (iv, []))" "length iv = ca_NonceSize c" "good_auth c ok v'"
proof -
  obtain g' iv where "au_NonceGenerator v (au_nonce v) = (g', Some iv)" "length iv = ca_NonceSize c" "ok g'"
    using assms by (auto simp: good_auth_def)
  then show thesis
    using assms that [of "v\<lparr>au_nonce := g', au_ad := au_ad v\<rparr>" iv]
    by (auto simp: next_inputs_def good_auth_def GenerateEmptyBytes_def Let_def)
qed

context cipher_aead
begin

text \<open>Two authenticators in the same state: one opens what the other sealed, and they stay in step.\<close>

lemma auth_step:
  assumes "good_auth c ok v"
  obtains v' sealed where "AEADAuthenticator_Seal v plain = (v', Ok sealed)" "AEADAuthenticator_Open v sealed = (v', Ok plain)"
    "length sealed = length plain + ca_Overhead c" "good_auth c ok v'"
proof -
  obtain iv v' where n: "next_inputs v = (v', Ok (iv, []))" "length iv = ca_NonceSize c" "good_auth c ok v'"
    using good_auth_next [OF assms] .
  then have "au_AEAD v' = c" by (simp add: good_auth_def)
  then show thesis
    using that [of v' "ca_Seal c iv plain []"] n seal_length open_seal
    by (simp add: AEADAuthenticator_Seal_def AEADAuthenticator_Open_def)
qed

end

section \<open>Increasing nonces do not repeat\<close>

fun le_value :: "bytes \<Rightarrow> nat" where
  "le_value [] = 0"
| "le_value (x # xs) = unat x + 256 * le_value xs"

lemma le_value_less: "le_value xs < 256 ^ length xs"
proof (induction xs)
  case Nil
  then show ?case by simp
next
  case (Cons x xs)
  have "unat x < 256" using unsigned_less [of x] by simp
  moreover have "256 * (le_value xs + 1) \<le> 256 * 256 ^ length xs" using Cons by (intro mult_le_mono2) simp
  ultimately show ?case by simp
qed

lemma digits_unique: "a < 256 \<Longrightarrow> b < 256 \<Longrightarrow> a + 256 * m = b + 256 * n \<Longrightarrow> a = b \<and> m = (n :: nat)"
  by (cases m n rule: linorder_cases) linarith+

lemma le_value_inject: "length xs = length ys \<Longrightarrow> le_value xs = le_value ys \<Longrightarrow> xs = ys"
proof (induction xs ys rule: list_induct2)
  case Nil
  then show ?case by simp
next
  case (Cons x xs y ys)
  have "unat x < 256" "unat y < 256" using unsigned_less [of x] unsigned_less [of y] by simp_all
  moreover have "unat x + 256 * le_value xs = unat y + 256 * le_value ys" using Cons.prems by simp
  ultimately have "unat x = unat y \<and> le_value xs = le_value ys" by (rule digits_unique)
  then show ?case using Cons.IH by (simp add: word_unat_eq_iff)
qed

lemma length_increment [simp]: "length (increment xs) = length xs"
  by (induction xs) auto

lemma byte_inc: "(x :: byte) + 1 \<noteq> 0 \<Longrightarrow> unat (x + 1) = unat x + 1" "(x :: byte) + 1 = 0 \<Longrightarrow> unat x = 255"
proof -
  have x: "unat (x + 1) = (unat x + 1) mod 256" by (simp add: unat_word_ariths)
  have lt: "unat x < 256" using unsigned_less [of x] by simp
  show "unat (x + 1) = unat x + 1" if "x + 1 \<noteq> 0"
  proof (cases "unat x = 255")
    case True
    then have "unat (x + 1) = 0" using x by simp
    then show ?thesis using that by (metis unsigned_eq_0_iff)
  qed (use x lt in simp)
  show "unat x = 255" if "x + 1 = 0"
  proof -
    have "(unat x + 1) mod 256 = 0" using x that by simp
    then show ?thesis using lt by presburger
  qed
qed

lemma le_value_increment: "le_value (increment xs) = (le_value xs + 1) mod 256 ^ length xs"
proof (induction xs)
  case Nil
  then show ?case by simp
next
  case (Cons x xs)
  show ?case
  proof (cases "x + 1 = 0")
    case True
    have "(256 * (le_value xs + 1)) mod (256 * 256 ^ length xs) = 256 * ((le_value xs + 1) mod 256 ^ length xs)"
      by (rule mult_mod_right [symmetric])
    then show ?thesis using True Cons byte_inc(2) [OF True] by simp
  next
    case False
    have "increment (x # xs) = (x + 1) # xs" using False by simp
    moreover have "le_value (x # xs) + 1 = le_value ((x + 1) # xs)" using byte_inc(1) [OF False] by simp
    moreover have "le_value ((x + 1) # xs) < 256 ^ length (x # xs)" using le_value_less [of "(x + 1) # xs"] by simp
    ultimately show ?thesis by (metis mod_less)
  qed
qed

text \<open>The nonces a generator returns, one after the other.\<close>

fun generated :: "'g BytesGenerator \<Rightarrow> 'g \<Rightarrow> nat \<Rightarrow> bytes option" where
  "generated gen g 0 = snd (gen g)"
| "generated gen g (Suc k) = generated gen (fst (gen g)) k"

lemma generated_increasing:
  "\<exists>c'. generated GenerateIncreasingNonce c k = Some c' \<and> length c' = length c \<and>
     le_value c' = (le_value c + k + 1) mod 256 ^ length c"
proof (induction k arbitrary: c)
  case 0
  then show ?case by (simp add: GenerateIncreasingNonce_def Let_def le_value_increment)
next
  case (Suc k)
  show ?case using Suc [of "increment c"]
    by (simp add: GenerateIncreasingNonce_def Let_def le_value_increment) (metis (no_types, lifting) add_Suc_right mod_Suc_eq mod_add_left_eq plus_nat.simps(2))
qed

text \<open>The increasing nonce generator never returns the same nonce twice before all values of its
  length have been used: two calls fewer than 256 to the power of the length apart return
  different nonces.\<close>

theorem increasing_nonce_fresh:
  assumes "i < j" and "j - i < 256 ^ length c"
  shows "generated GenerateIncreasingNonce c i \<noteq> generated GenerateIncreasingNonce c j"
proof
  assume eq: "generated GenerateIncreasingNonce c i = generated GenerateIncreasingNonce c j"
  let ?m = "256 ^ length c :: nat"
  have "(le_value c + i + 1) mod ?m = (le_value c + j + 1) mod ?m"
    using eq generated_increasing [of c i] generated_increasing [of c j] by auto
  then have "?m dvd (le_value c + j + 1) - (le_value c + i + 1)"
    using assms(1) by (metis mod_eq_dvd_iff_nat add_le_mono1 nat_add_left_cancel_le less_imp_le)
  then have "?m dvd j - i" by simp
  then show False using assms nat_dvd_not_less [of "j - i" ?m] by simp
qed

theorem increasing_nonce_fresh_witness:
  "generated GenerateIncreasingNonce GenerateInitialAEADNonce 0 \<noteq> generated GenerateIncreasingNonce GenerateInitialAEADNonce 70000"
  by (rule increasing_nonce_fresh) (simp_all add: GenerateInitialAEADNonce_def)

end
