(* ===== verification/Chunk.thy ===== *)
theory Chunk
  imports Crypto_Auth
begin

text \<open>
  \<^verbatim>\<open>common/crypto/chunk.go\<close>: streams cut into chunks with a size in front of each.

  A size encoder and decoder is a record of functions on a state \<open>'d\<close> (the position in a mask
  stream or the nonce of an authenticator). \<open>sc_offset\<close> is the \<^verbatim>\<open>HasConstantOffset\<close> of a decoder,
  0 where it has none.
\<close>

section \<open>Size parsers\<close>

record 'd size_codec =
  sc_SizeBytes :: int
  sc_offset :: u16
  sc_Encode :: "'d \<Rightarrow> u16 \<Rightarrow> 'd \<times> bytes option"
  sc_Decode :: "'d \<Rightarrow> bytes \<Rightarrow> 'd \<times> (buf_error, u16) outcome"

definition PlainChunkSizeParser_SizeBytes :: int where "PlainChunkSizeParser_SizeBytes = 2"

definition PlainChunkSizeParser_Encode :: "u16 \<Rightarrow> bytes" where
  "PlainChunkSizeParser_Encode size' = be_PutUint16 size'"

definition PlainChunkSizeParser_Decode :: "bytes \<Rightarrow> (buf_error, u16) outcome" where
  "PlainChunkSizeParser_Decode b = or_panic (be_Uint16 b)"

definition PlainChunkSizeParser :: "'d size_codec" where
  "PlainChunkSizeParser = \<lparr>sc_SizeBytes = PlainChunkSizeParser_SizeBytes, sc_offset = 0,
     sc_Encode = (\<lambda>d n. (d, Some (PlainChunkSizeParser_Encode n))), sc_Decode = (\<lambda>d b. (d, PlainChunkSizeParser_Decode b))\<rparr>"

definition AEADChunkSizeParser_SizeBytes :: "cipher_AEAD \<Rightarrow> int" where
  "AEADChunkSizeParser_SizeBytes c = 2 + int (ca_Overhead c)"

definition AEADChunkSizeParser_Encode :: "('g, 'h) AEADAuthenticator \<Rightarrow> u16 \<Rightarrow> ('g, 'h) AEADAuthenticator \<times> bytes option" where
  "AEADChunkSizeParser_Encode auth size' =
     (case AEADAuthenticator_Seal auth (be_PutUint16 (size' - word_of_nat (ca_Overhead (au_AEAD auth)))) of
        (auth, Ok b) \<Rightarrow> (auth, Some b) | (auth, _) \<Rightarrow> (auth, None))"

definition AEADChunkSizeParser_Decode ::
  "('g, 'h) AEADAuthenticator \<Rightarrow> bytes \<Rightarrow> ('g, 'h) AEADAuthenticator \<times> (buf_error, u16) outcome" where
  "AEADChunkSizeParser_Decode auth b =
     (case AEADAuthenticator_Open auth b of
        (auth, r) \<Rightarrow> (auth, outcome_bind r (\<lambda>b. outcome_bind (or_panic (be_Uint16 b))
          (\<lambda>n. Ok (n + word_of_nat (ca_Overhead (au_AEAD auth)))))))"

definition AEADChunkSizeParser :: "cipher_AEAD \<Rightarrow> ('g, 'h) AEADAuthenticator size_codec" where
  "AEADChunkSizeParser c = \<lparr>sc_SizeBytes = AEADChunkSizeParser_SizeBytes c, sc_offset = 0,
     sc_Encode = AEADChunkSizeParser_Encode, sc_Decode = AEADChunkSizeParser_Decode\<rparr>"

section \<open>Reading\<close>

record ('r, 'd) ChunkStreamReader =
  csr_reader :: "'r BufferedReader"
  csr_decoder :: 'd
  csr_leftOverSize :: int
  csr_maxNumChunk :: u32
  csr_numChunk :: u32

definition NewChunkStreamReaderWithChunkCount :: "'d \<Rightarrow> 'r BufferedReader \<Rightarrow> u32 \<Rightarrow> ('r, 'd) ChunkStreamReader" where
  "NewChunkStreamReaderWithChunkCount d reader maxNumChunk =
     \<lparr>csr_reader = reader, csr_decoder = d, csr_leftOverSize = 0, csr_maxNumChunk = maxNumChunk, csr_numChunk = 0\<rparr>"

definition NewChunkStreamReader :: "'d \<Rightarrow> 'r BufferedReader \<Rightarrow> ('r, 'd) ChunkStreamReader" where
  "NewChunkStreamReader d reader = NewChunkStreamReaderWithChunkCount d reader 0"

definition ChunkStreamReader_readSize ::
  "'d size_codec \<Rightarrow> 'r mb_reader \<Rightarrow> ('r, 'd) ChunkStreamReader \<Rightarrow> (('r, 'd) ChunkStreamReader \<times> (buf_error + u16)) option" where
  "ChunkStreamReader_readSize D rd r =
     do {
       (reader, data, err) \<leftarrow> io_ReadFull_from (BufferedReader_Read rd) (csr_reader r) (nat (sc_SizeBytes D)) [];
       let r = r\<lparr>csr_reader := reader\<rparr>;
       case err of
         Some e \<Rightarrow> Some (r, Inl e)
       | None \<Rightarrow>
           (case sc_Decode D (csr_decoder r) data of
              (d, Panic) \<Rightarrow> None
            | (d, Fail e) \<Rightarrow> Some (r\<lparr>csr_decoder := d\<rparr>, Inl e)
            | (d, Ok n) \<Rightarrow> Some (r\<lparr>csr_decoder := d\<rparr>, Inr n))
     }"

text \<open>The part of \<^verbatim>\<open>ReadMultiBuffer\<close> once the size is known.\<close>

definition ChunkStreamReader_body :: "bytes \<Rightarrow> 'r mb_reader \<Rightarrow> int \<Rightarrow> ('r, 'd) ChunkStreamReader mb_reader" where
  "ChunkStreamReader_body p rd sz r =
     do {
       let r = r\<lparr>csr_leftOverSize := sz\<rparr>;
       (reader, mb, err) \<leftarrow> BufferedReader_ReadAtMost p rd (csr_reader r) sz;
       let r = r\<lparr>csr_reader := reader\<rparr>;
       if \<not> MultiBuffer_IsEmpty mb
       then Some (r\<lparr>csr_leftOverSize := i32 (csr_leftOverSize r - MultiBuffer_Len mb)\<rparr>, mb, None)
       else Some (r, [], err)
     }"

definition ChunkStreamReader_ReadMultiBuffer :: "bytes \<Rightarrow> 'd size_codec \<Rightarrow> 'r mb_reader \<Rightarrow> ('r, 'd) ChunkStreamReader mb_reader" where
  "ChunkStreamReader_ReadMultiBuffer p D rd r =
     (if csr_leftOverSize r = 0
      then let r = r\<lparr>csr_numChunk := csr_numChunk r + 1\<rparr> in
           if csr_maxNumChunk r > 0 \<and> csr_numChunk r > csr_maxNumChunk r then Some (r, [], Some EOF)
           else do {
             (r, res) \<leftarrow> ChunkStreamReader_readSize D rd r;
             case res of
               Inl e \<Rightarrow> Some (r, [], Some e)
             | Inr nextSize \<Rightarrow> if nextSize = 0 then Some (r, [], Some EOF) else ChunkStreamReader_body p rd (uint nextSize) r
           }
      else ChunkStreamReader_body p rd (csr_leftOverSize r) r)"

section \<open>Writing\<close>

text \<open>The loop of \<^verbatim>\<open>WriteMultiBuffer\<close>; every buffer the loop makes has an array \<open>p\<close> of the pool.\<close>

partial_function (option) ChunkStreamWriter_loop ::
  "bytes \<Rightarrow> 'd size_codec \<Rightarrow> 'd \<Rightarrow> MultiBuffer \<Rightarrow> MultiBuffer \<Rightarrow> ('d \<times> MultiBuffer) option" where
  "ChunkStreamWriter_loop p D d mb mb2Write =
     Option.bind (SplitSize p mb 8192) (\<lambda>(mb2, slice).
     Option.bind (Buffer_Extend (Buffer_New p) (sc_SizeBytes D)) (\<lambda>(b, w).
     case sc_Encode D d (word_of_int (MultiBuffer_Len slice)) of
       (d, None) \<Rightarrow> None
     | (d, Some bs) \<Rightarrow>
         let mb2Write = mb2Write @ [Buffer_fill b w bs] @ slice in
         if MultiBuffer_IsEmpty mb2 then Some (d, mb2Write) else ChunkStreamWriter_loop p D d mb2 mb2Write))"

definition ChunkStreamWriter_WriteMultiBuffer ::
  "bytes \<Rightarrow> 'd size_codec \<Rightarrow> 'w mb_writer \<Rightarrow> 'd \<times> 'w \<Rightarrow> MultiBuffer \<Rightarrow> (('d \<times> 'w) \<times> buf_error option) option" where
  "ChunkStreamWriter_WriteMultiBuffer p D wr s mb =
     do {
       (d, mb2Write) \<leftarrow> ChunkStreamWriter_loop p D (fst s) mb [];
       let (w, err) = wr (snd s) mb2Write;
       Some ((d, w), err)
     }"

section \<open>The contract of size parsers\<close>

text \<open>An encoder and a decoder in the same state agree and stay in step.\<close>

locale size_parser =
  fixes D :: "'d size_codec" and ok :: "'d \<Rightarrow> bool"
  assumes enc_dec: "ok d \<Longrightarrow> \<exists>d' bs. sc_Encode D d n = (d', Some bs) \<and> int (length bs) = sc_SizeBytes D \<and>
      sc_Decode D d bs = (d', Ok (n - sc_offset D)) \<and> ok d'"
    and size_bytes: "0 < sc_SizeBytes D" "sc_SizeBytes D \<le> 1024"

interpretation plain: size_parser PlainChunkSizeParser "\<lambda>_. True"
  by unfold_locales
    (simp_all add: PlainChunkSizeParser_def PlainChunkSizeParser_SizeBytes_def PlainChunkSizeParser_Encode_def PlainChunkSizeParser_Decode_def)

text \<open>\<^verbatim>\<open>Encode\<close> subtracts the overhead and \<^verbatim>\<open>Decode\<close> adds it again, both in 16 bits.\<close>

locale small_aead = cipher_aead c for c +
  assumes small: "ca_Overhead c \<le> 1000"

sublocale small_aead \<subseteq> aead_size: size_parser "AEADChunkSizeParser c" "good_auth c ok" for ok
proof unfold_locales
  fix d :: "('a, 'b) AEADAuthenticator" and n
  assume ok: "good_auth c ok d"
  let ?n = "be_PutUint16 (n - word_of_nat (ca_Overhead c))"
  obtain v' sealed where s: "AEADAuthenticator_Seal d ?n = (v', Ok sealed)" "AEADAuthenticator_Open d sealed = (v', Ok ?n)"
      "length sealed = length ?n + ca_Overhead c" "good_auth c ok v'"
    using auth_step [OF ok] .
  moreover have "au_AEAD d = c" "au_AEAD v' = c" using ok s(4) by (simp_all add: good_auth_def)
  ultimately show "\<exists>d' bs. sc_Encode (AEADChunkSizeParser c) d n = (d', Some bs) \<and>
      int (length bs) = sc_SizeBytes (AEADChunkSizeParser c) \<and>
      sc_Decode (AEADChunkSizeParser c) d bs = (d', Ok (n - sc_offset (AEADChunkSizeParser c))) \<and> good_auth c ok d'"
    by (simp add: AEADChunkSizeParser_def AEADChunkSizeParser_SizeBytes_def AEADChunkSizeParser_Encode_def AEADChunkSizeParser_Decode_def)
qed (use small in \<open>simp_all add: AEADChunkSizeParser_def AEADChunkSizeParser_SizeBytes_def\<close>)

section \<open>Chunked streams\<close>

text \<open>\<open>chunked D d stream payload\<close>: with the size parser in state \<open>d\<close>, the stream is the payload in
  non-empty chunks, then an empty chunk, then anything.\<close>

inductive chunked :: "'d size_codec \<Rightarrow> 'd \<Rightarrow> bytes \<Rightarrow> bytes \<Rightarrow> bool" for D where
  chunk_end: "sc_Encode D d 0 = (d', Some bs) \<Longrightarrow> chunked D d (bs @ rest) []"
| chunk_more: "c \<noteq> [] \<Longrightarrow> length c < 65536 \<Longrightarrow> sc_Encode D d (word_of_nat (length c)) = (d', Some bs) \<Longrightarrow>
    chunked D d' stream payload \<Longrightarrow> chunked D d (bs @ c @ stream) (c @ payload)"

inductive_cases chunked_NilE: "chunked D d stream []"

lemma append_prefix: "xs @ ys = us @ vs \<Longrightarrow> length us \<le> length xs \<Longrightarrow> \<exists>ws. xs = us @ ws \<and> vs = ws @ ys"
  by (auto simp: append_eq_append_conv2)

definition csr_rep :: "'d size_codec \<Rightarrow> ('d \<Rightarrow> bool) \<Rightarrow> ('r \<Rightarrow> bytes \<Rightarrow> bool) \<Rightarrow> ('r, 'd) ChunkStreamReader \<Rightarrow> bytes \<Rightarrow> bool" where
  "csr_rep D ok rep r payload \<longleftrightarrow> csr_maxNumChunk r = 0 \<and> ok (csr_decoder r) \<and>
     (\<exists>left rest more. csr_leftOverSize r = int (length left) \<and> length left < 65536 \<and> br_rep rep (csr_reader r) (left @ rest) \<and>
        chunked D (csr_decoder r) rest more \<and> payload = left @ more)"

lemma chunk_split:
  assumes "chunked D d rest pay" and "pay \<noteq> []"
  shows "\<exists>c d' hdr stream pl. c \<noteq> [] \<and> length c < 65536 \<and> sc_Encode D d (word_of_nat (length c)) = (d', Some hdr) \<and>
    chunked D d' stream pl \<and> rest = hdr @ c @ stream \<and> pay = c @ pl"
  using assms by (cases rule: chunked.cases) blast+

lemma csr_repI:
  "csr_maxNumChunk r = 0 \<Longrightarrow> ok (csr_decoder r) \<Longrightarrow> csr_leftOverSize r = int (length left) \<Longrightarrow> length left < 65536 \<Longrightarrow>
   br_rep rep (csr_reader r) (left @ rest) \<Longrightarrow> chunked D (csr_decoder r) rest pay \<Longrightarrow> csr_rep D ok rep r (left @ pay)"
  by (auto simp: csr_rep_def)

locale chunk_reader = buffered_source rd rep + size_parser D ok
  for rd :: "'r mb_reader" and rep and D :: "'d size_codec" and ok +
  fixes p :: bytes
  assumes array: "length p = 2048" and no_offset: "sc_offset D = 0"
begin

lemma bufbytes_readFull:
  "br_rep rep r (xs @ rest) \<Longrightarrow> \<exists>r'. io_ReadFull_from (BufferedReader_Read rd) r (length xs) [] = Some (r', xs, None) \<and> br_rep rep r' rest"
  using bufbytes.io_ReadFull_ok [of r xs rest "[]"] by simp

lemma readSize_ok:
  assumes "ok (csr_decoder r)" and "sc_Encode D (csr_decoder r) n = (d', Some bs)" and "br_rep rep (csr_reader r) (bs @ rest)"
  obtains reader where "ChunkStreamReader_readSize D rd r = Some (r\<lparr>csr_reader := reader, csr_decoder := d'\<rparr>, Inr n)"
    "br_rep rep reader rest" "ok d'"
proof -
  from enc_dec [OF assms(1), of n] assms(2) no_offset
  have dec: "int (length bs) = sc_SizeBytes D" "sc_Decode D (csr_decoder r) bs = (d', Ok n)" "ok d'" by auto
  obtain reader where rdr: "io_ReadFull_from (BufferedReader_Read rd) (csr_reader r) (length bs) [] = Some (reader, bs, None)"
      "br_rep rep reader rest"
    using bufbytes_readFull [OF assms(3)] by blast
  have "nat (sc_SizeBytes D) = length bs" using dec(1) by simp
  then have "ChunkStreamReader_readSize D rd r = Some (r\<lparr>csr_reader := reader, csr_decoder := d'\<rparr>, Inr n)"
    using rdr(1) dec(2) by (simp add: ChunkStreamReader_readSize_def)
  then show thesis using that rdr(2) dec(3) by blast
qed

lemma body_ok:
  assumes "csr_maxNumChunk r = 0" and "ok (csr_decoder r)" and "br_rep rep (csr_reader r) (c @ stream)"
    and "c \<noteq> []" and "length c < 65536" and "chunked D (csr_decoder r) stream payload"
  shows "\<exists>r' mb bs'. ChunkStreamReader_body p rd (int (length c)) r = Some (r', mb, None) \<and> pooled mb \<and> mb_content mb \<noteq> [] \<and>
     c @ payload = mb_content mb @ bs' \<and> csr_rep D ok rep r' bs'"
proof -
  obtain reader mb bs' where rm: "BufferedReader_ReadAtMost p rd (csr_reader r) (int (length c)) = Some (reader, mb, None)"
      "pooled mb" "mb_content mb \<noteq> []" "int (length (mb_content mb)) \<le> int (length c)" "c @ stream = mb_content mb @ bs'"
      "br_rep rep reader bs'"
    using read_at_most [OF assms(3) _ array, of "int (length c)"] assms(4,5) by auto
  obtain c' where c': "c = mb_content mb @ c'" "bs' = c' @ stream"
    using append_prefix [OF rm(5)] rm(4) by auto
  have ml: "MultiBuffer_Len mb = int (length (mb_content mb))"
    using rm(2,4) assms(5) by (intro MultiBuffer_Len_content) (auto simp: pooled_wf)
  have i: "i32 (int (length c) - MultiBuffer_Len mb) = int (length c')"
    using c' assms(5) ml by (auto intro!: i32_id)
  have "csr_rep D ok rep (r\<lparr>csr_reader := reader, csr_leftOverSize := int (length c')\<rparr>) (c' @ payload)"
    by (rule csr_repI [where rest = stream]) (use assms rm(6) c' in auto)
  then show ?thesis
    using rm(1,2,3) c' i pooled_IsEmpty [OF rm(2)] by (auto simp: ChunkStreamReader_body_def)
qed

end

sublocale chunk_reader \<subseteq> chunks: mb_source "ChunkStreamReader_ReadMultiBuffer p D rd" "csr_rep D ok rep"
proof unfold_locales
  fix r :: "('r, 'd) ChunkStreamReader" and bs
  let ?r = "r\<lparr>csr_numChunk := csr_numChunk r + 1\<rparr>"
  show "\<exists>r'. ChunkStreamReader_ReadMultiBuffer p D rd r = Some (r', [], Some EOF)" if a: "csr_rep D ok rep r []"
  proof -
    obtain rest where r: "csr_maxNumChunk r = 0" "ok (csr_decoder r)" "csr_leftOverSize r = 0" "br_rep rep (csr_reader r) rest"
        "chunked D (csr_decoder r) rest []"
      using a by (auto simp: csr_rep_def)
    obtain d' hdr tl where h: "sc_Encode D (csr_decoder r) 0 = (d', Some hdr)" "rest = hdr @ tl"
      using r(5) by (auto elim: chunked_NilE)
    have "br_rep rep (csr_reader ?r) (hdr @ tl)" using r(4) h(2) by simp
    then obtain reader where "ChunkStreamReader_readSize D rd ?r = Some (?r\<lparr>csr_reader := reader, csr_decoder := d'\<rparr>, Inr 0)"
      using readSize_ok [of ?r 0 d' hdr tl] r(2) h(1) by auto
    then show ?thesis using r by (simp add: ChunkStreamReader_ReadMultiBuffer_def Let_def)
  qed
  show "\<exists>r' mb bs'. ChunkStreamReader_ReadMultiBuffer p D rd r = Some (r', mb, None) \<and> pooled mb \<and> mb_content mb \<noteq> [] \<and>
      bs = mb_content mb @ bs' \<and> csr_rep D ok rep r' bs'" if a: "csr_rep D ok rep r bs" and ne: "bs \<noteq> []"
  proof -
    obtain left rest more where r: "csr_maxNumChunk r = 0" "ok (csr_decoder r)" "csr_leftOverSize r = int (length left)"
        "length left < 65536" "br_rep rep (csr_reader r) (left @ rest)" "chunked D (csr_decoder r) rest more" "bs = left @ more"
      using a by (auto simp: csr_rep_def)
    show ?thesis
    proof (cases "left = []")
      case False
      then show ?thesis
        using body_ok [OF r(1,2,5) False r(4,6)] r(3,7) by (simp add: ChunkStreamReader_ReadMultiBuffer_def)
    next
      case True
      then have "more \<noteq> []" using r(7) ne by simp
      then obtain c d' hdr stream pl where h: "c \<noteq> []" "length c < 65536" "sc_Encode D (csr_decoder r) (word_of_nat (length c)) = (d', Some hdr)"
          "chunked D d' stream pl" "rest = hdr @ c @ stream" "more = c @ pl"
        using chunk_split [OF r(6)] by blast
      have "br_rep rep (csr_reader ?r) (hdr @ c @ stream)" using r(5) h(5) True by simp
      then obtain reader where rs: "ChunkStreamReader_readSize D rd ?r = Some (?r\<lparr>csr_reader := reader, csr_decoder := d'\<rparr>, Inr (word_of_nat (length c)))"
          "br_rep rep reader (c @ stream)" "ok d'"
        using readSize_ok [of ?r "word_of_nat (length c)" d' hdr "c @ stream"] r(2) h(3) by auto
      have un: "unat (word_of_nat (length c) :: u16) = length c" using h(2) by simp
      have n: "(word_of_nat (length c) :: u16) \<noteq> 0"
      proof
        assume "(word_of_nat (length c) :: u16) = 0"
        then show False using un h(1) by (metis unsigned_0 length_0_conv)
      qed
      have u: "uint (word_of_nat (length c) :: u16) = int (length c)" using un by (metis uint_nat)
      let ?r1 = "?r\<lparr>csr_reader := reader, csr_decoder := d'\<rparr>"
      have "ChunkStreamReader_ReadMultiBuffer p D rd r = ChunkStreamReader_body p rd (int (length c)) ?r1"
        using r(1,3) True rs(1) n u by (simp add: ChunkStreamReader_ReadMultiBuffer_def Let_def)
      moreover have "csr_maxNumChunk ?r1 = 0" "ok (csr_decoder ?r1)" "br_rep rep (csr_reader ?r1) (c @ stream)"
          "chunked D (csr_decoder ?r1) stream pl"
        using r rs h by simp_all
      ultimately show ?thesis using body_ok [of ?r1 c stream pl] h(1,2,6) r(7) True by simp
    qed
  qed
qed

context chunk_reader
begin

lemma chunks_source: "mb_source (ChunkStreamReader_ReadMultiBuffer p D rd) (csr_rep D ok rep)"
  by (rule chunks.mb_source_axioms)

end

interpretation cont_chunks: chunk_reader "SingleReader_ReadMultiBuffer (fresh_pool 0) Container_reader"
    "\<lambda>c bs. wf_mb c \<and> mb_content c = bs" PlainChunkSizeParser "\<lambda>_. True" "fresh_pool 0"
  by unfold_locales (simp_all add: PlainChunkSizeParser_def)

section \<open>What the writer sends\<close>

context size_parser
begin

lemma size_header:
  assumes "ok d" and "length p = 2048"
  obtains b w d' bs where "Buffer_Extend (Buffer_New p) (sc_SizeBytes D) = Some (b, w)" "sc_Encode D d n = (d', Some bs)" "ok d'"
    "wf_Buffer (Buffer_fill b w bs)" "content (Buffer_fill b w bs) = bs" "bs \<noteq> []" "int (length bs) = sc_SizeBytes D"
proof -
  obtain d' bs where e: "sc_Encode D d n = (d', Some bs)" "int (length bs) = sc_SizeBytes D" "ok d'"
    using enc_dec [OF assms(1), of n] by blast
  have wf: "wf_Buffer (Buffer_New p)" using assms(2) by simp
  have "\<exists>b w. Buffer_Extend (Buffer_New p) (sc_SizeBytes D) = Some (b, w)"
    using Buffer_Extend_iff [OF wf, of "sc_SizeBytes D"] size_bytes assms(2) by auto
  then obtain b w where x: "Buffer_Extend (Buffer_New p) (sc_SizeBytes D) = Some (b, w)" by blast
  have "wf_Buffer (Buffer_fill b w bs) \<and> content (Buffer_fill b w bs) = [] @ bs"
    using Buffer_Extend_fill_content [OF wf, of bs b w] x e(2) size_bytes by simp
  moreover have "bs \<noteq> []" using e(2) size_bytes by auto
  ultimately show thesis using that x e by simp
qed

text \<open>The writer's loop puts the payload into non-empty chunks.\<close>

lemma writer_loop_ok:
  assumes p: "length p = 2048"
  shows "ok d \<Longrightarrow> pooled mb \<Longrightarrow> mb \<noteq> [] \<Longrightarrow> pooled acc \<Longrightarrow>
    \<exists>d' out. ChunkStreamWriter_loop p D d mb acc = Some (d', out) \<and> ok d' \<and> pooled out \<and>
      (\<exists>s. mb_content out = mb_content acc @ s \<and>
        (\<forall>stream payload. chunked D d' stream payload \<longrightarrow> chunked D d (s @ stream) (mb_content mb @ payload)))"
proof (induction "length (mb_content mb)" arbitrary: d mb acc rule: less_induct)
  case less
  obtain rest slice where sp: "SplitSize p mb 8192 = Some (rest, slice)" "pooled rest" "pooled slice" "slice \<noteq> []"
      "mb_content slice @ mb_content rest = mb_content mb" "int (length (mb_content slice)) \<le> 8192"
    using pooled_split_size [OF less.prems(2,3) p, of 8192] by auto
  have ml: "MultiBuffer_Len slice = int (length (mb_content slice))"
    using sp(3,6) by (intro MultiBuffer_Len_content) (auto simp: pooled_wf)
  let ?n = "word_of_nat (length (mb_content slice)) :: u16"
  obtain b w d1 bs where h: "Buffer_Extend (Buffer_New p) (sc_SizeBytes D) = Some (b, w)" "sc_Encode D d ?n = (d1, Some bs)"
      "ok d1" "wf_Buffer (Buffer_fill b w bs)" "content (Buffer_fill b w bs) = bs" "bs \<noteq> []" "int (length bs) = sc_SizeBytes D"
    using size_header [OF less.prems(1) p, of ?n] .
  let ?acc = "acc @ [Buffer_fill b w bs] @ slice"
  have acc: "pooled ?acc" using less.prems(4) h sp(3) size_bytes by auto
  have slc: "mb_content slice \<noteq> []" using sp(3,4) by (simp add: pooled_content_Nil)
  have step: "ChunkStreamWriter_loop p D d mb acc =
      (if MultiBuffer_IsEmpty rest then Some (d1, ?acc) else ChunkStreamWriter_loop p D d1 rest ?acc)"
    using sp(1) h(1,2) ml by (subst ChunkStreamWriter_loop.simps) simp
  have chunk: "chunked D d (bs @ mb_content slice @ stream) (mb_content slice @ payload)" if "chunked D d1 stream payload" for stream payload
    by (rule chunk_more [OF slc _ h(2) that]) (use sp(6) in simp)
  show ?case
  proof (cases "rest = []")
    case True
    then show ?thesis using step acc h(3,5) chunk sp(5) by auto
  next
    case False
    have len: "length (mb_content rest) < length (mb_content mb)" using sp(5) slc by (metis add_less_cancel_right add_0 length_append length_greater_0_conv)
    obtain d' out s where IH: "ChunkStreamWriter_loop p D d1 rest ?acc = Some (d', out)" "ok d'" "pooled out"
        "mb_content out = mb_content ?acc @ s"
        "\<And>stream payload. chunked D d' stream payload \<Longrightarrow> chunked D d1 (s @ stream) (mb_content rest @ payload)"
      using less.hyps [OF len h(3) sp(2) False acc] by blast
    have ne: "\<not> MultiBuffer_IsEmpty rest" using False sp(2) by (simp add: pooled_IsEmpty pooled_content_Nil)
    have "chunked D d ((bs @ mb_content slice @ s) @ stream) (mb_content mb @ payload)" if "chunked D d' stream payload" for stream payload
      using chunk [OF IH(5) [OF that]] sp(5) by (metis append.assoc)
    moreover have "mb_content out = mb_content acc @ bs @ mb_content slice @ s" using IH(4) h(5) by simp
    ultimately show ?thesis using step ne IH(1,2,3) by auto
  qed
qed

text \<open>Writing an empty multi-buffer sends the empty chunk that ends the stream.\<close>

lemma writer_end:
  assumes p: "length p = 2048" and "ok d"
  shows "\<exists>d' out. ChunkStreamWriter_loop p D d [] [] = Some (d', out) \<and> ok d' \<and> pooled out \<and> (\<forall>rest. chunked D d (mb_content out @ rest) [])"
proof -
  obtain b w d1 bs where h: "Buffer_Extend (Buffer_New p) (sc_SizeBytes D) = Some (b, w)" "sc_Encode D d 0 = (d1, Some bs)"
      "ok d1" "wf_Buffer (Buffer_fill b w bs)" "content (Buffer_fill b w bs) = bs" "bs \<noteq> []" "int (length bs) = sc_SizeBytes D"
    using size_header [OF assms(2) p, of 0] .
  have "ChunkStreamWriter_loop p D d [] [] = Some (d1, [Buffer_fill b w bs])"
    using h(1,2) by (subst ChunkStreamWriter_loop.simps) (simp add: SplitSize_def MultiBuffer_Len_def)
  then show ?thesis using h size_bytes by (auto intro: chunk_end)
qed

end

section \<open>Properties\<close>

text \<open>C12. Chunked streams: the chunk writer puts a multi-buffer into chunks without panic, and a chunk
  reader whose size parser is in the same state gives exactly these bytes back, however the byte
  reader below it cuts the stream into reads, and ends when the writer's empty chunk arrives.\<close>

theorem chunk_stream_roundtrip:
  assumes "io_source rd rep" and "size_parser D ok" and "sc_offset D = 0" and "length p = 2048"
    and "ok d" and "pooled mb" and "mb \<noteq> []" and "length (mb_content mb) < 2 ^ 31"
  shows "\<exists>d1 d2 sent. ChunkStreamWriter_WriteMultiBuffer p D collect (d, []) mb = Some ((d1, sent), None) \<and>
     (\<exists>sent'. ChunkStreamWriter_WriteMultiBuffer p D collect (d1, sent) [] = Some ((d2, sent'), None) \<and>
     (\<forall>s rest. rep s (sent' @ rest) \<longrightarrow>
        (\<exists>r'. Copy (ChunkStreamReader_ReadMultiBuffer p D (SingleReader_ReadMultiBuffer p rd)) collect [CountSize]
          (NewChunkStreamReader d \<lparr>br_Reader = s, br_Buffer = [], br_Spliter = None\<rparr>) [] 0 =
          Some (r', mb_content mb, int (length (mb_content mb)), None))))"
proof -
  obtain d1 out s where w1: "ChunkStreamWriter_loop p D d mb [] = Some (d1, out)" "ok d1" "pooled out" "mb_content out = s"
      "\<And>stream payload. chunked D d1 stream payload \<Longrightarrow> chunked D d (s @ stream) (mb_content mb @ payload)"
    using size_parser.writer_loop_ok [OF assms(2,4,5,6,7), of "[]"] by auto
  obtain d2 out2 where w2: "ChunkStreamWriter_loop p D d1 [] [] = Some (d2, out2)" "\<And>rest. chunked D d1 (mb_content out2 @ rest) []"
    using size_parser.writer_end [OF assms(2,4) w1(2)] by blast
  have src: "mb_source (SingleReader_ReadMultiBuffer p rd) rep"
    using assms(1,4) by (intro single_source.single_mb_source single_source.intro single_source_axioms.intro)
  have cr: "chunk_reader (SingleReader_ReadMultiBuffer p rd) rep D ok p"
    using src assms(2,3,4) by (intro chunk_reader.intro buffered_source.intro chunk_reader_axioms.intro)
  have copy: "\<exists>r'. Copy (ChunkStreamReader_ReadMultiBuffer p D (SingleReader_ReadMultiBuffer p rd)) collect [CountSize]
          (NewChunkStreamReader d \<lparr>br_Reader = st, br_Buffer = [], br_Spliter = None\<rparr>) [] 0 =
          Some (r', mb_content mb, int (length (mb_content mb)), None)"
    if "rep st ((s @ mb_content out2) @ rest)" for st rest
  proof -
    let ?r = "NewChunkStreamReader d \<lparr>br_Reader = st, br_Buffer = [], br_Spliter = None\<rparr>"
    have "br_rep rep \<lparr>br_Reader = st, br_Buffer = [], br_Spliter = None\<rparr> ((s @ mb_content out2) @ rest)"
      using that by (simp add: br_rep_def)
    moreover have "chunked D d ((s @ mb_content out2) @ rest) (mb_content mb)" using w1(5) [OF w2(2), of rest] by simp
    ultimately have "csr_rep D ok rep ?r ([] @ mb_content mb)"
      using assms(5) by (intro csr_repI [where rest = "(s @ mb_content out2) @ rest"])
        (simp_all add: NewChunkStreamReader_def NewChunkStreamReaderWithChunkCount_def)
    then show ?thesis
      using mb_source.copy_all [OF chunk_reader.chunks_source [OF cr], of collect "\<lambda>w. w" "mb_content mb" ?r "[]" 0] assms(8)
      by (auto simp: collect_def)
  qed
  show ?thesis
    by (rule exI [of _ d1], rule exI [of _ d2], rule exI [of _ s])
      (use w1 w2 copy in \<open>auto simp: ChunkStreamWriter_WriteMultiBuffer_def collect_def\<close>)
qed

theorem chunk_stream_roundtrip_witness:
  "\<exists>d1 d2 sent. ChunkStreamWriter_WriteMultiBuffer (fresh_pool 0) PlainChunkSizeParser collect ((), []) [filled 0 5] = Some ((d1, sent), None) \<and>
     (\<exists>sent'. ChunkStreamWriter_WriteMultiBuffer (fresh_pool 0) PlainChunkSizeParser collect (d1, sent) [] = Some ((d2, sent'), None) \<and>
     (\<forall>s rest. wf_mb s \<and> mb_content s = sent' @ rest \<longrightarrow>
        (\<exists>r'. Copy (ChunkStreamReader_ReadMultiBuffer (fresh_pool 0) PlainChunkSizeParser (SingleReader_ReadMultiBuffer (fresh_pool 0) Container_reader))
          collect [CountSize] (NewChunkStreamReader () \<lparr>br_Reader = s, br_Buffer = [], br_Spliter = None\<rparr>) [] 0 =
          Some (r', mb_content [filled 0 5], int (length (mb_content [filled 0 5])), None))))"
  by (rule chunk_stream_roundtrip [OF contr.io_source_axioms plain.size_parser_axioms])
    (simp_all add: PlainChunkSizeParser_def filled_facts)

end
