(* ===== verification/Auth_Stream.thy ===== *)
theory Auth_Stream
  imports Chunk
begin

text \<open>
  The second half of \<^verbatim>\<open>common/crypto/auth.go\<close>: the reader and the writer of authenticated streams, which
  carry the bodies of VMess and Shadowsocks.

  The authenticator, the size parser and the padding generator of a stream may share state (the mask
  stream that hides sizes also gives the padding lengths; sizes and payloads may draw from one nonce
  generator), so a \<open>Codec\<close> is the three of them over one state \<open>'d\<close>.
\<close>

record 'd Codec =
  cd_size :: "'d size_codec"
  cd_NextPaddingLen :: "('d \<Rightarrow> 'd \<times> u16) option"
  cd_MaxPaddingLen :: u16
  cd_Overhead :: nat
  cd_Open :: "'d \<Rightarrow> bytes \<Rightarrow> 'd \<times> (buf_error, bytes) outcome"
  cd_Seal :: "'d \<Rightarrow> bytes \<Rightarrow> 'd \<times> (buf_error, bytes) outcome"

definition next_padding :: "'d Codec \<Rightarrow> 'd \<Rightarrow> 'd \<times> u16" where
  "next_padding C d = (case cd_NextPaddingLen C of None \<Rightarrow> (d, 0) | Some f \<Rightarrow> f d)"

section \<open>Reading\<close>

record ('r, 'd) AuthenticationReader =
  ar_reader :: "'r BufferedReader"
  ar_codec :: 'd
  ar_size :: u16
  ar_paddingLen :: u16
  ar_hasSize :: bool
  ar_done :: bool

definition NewAuthenticationReader :: "'d \<Rightarrow> 'r BufferedReader \<Rightarrow> ('r, 'd) AuthenticationReader" where
  "NewAuthenticationReader d reader =
     \<lparr>ar_reader = reader, ar_codec = d, ar_size = 0, ar_paddingLen = 0, ar_hasSize = False, ar_done = False\<rparr>"

definition AuthenticationReader_readSize ::
  "'d Codec \<Rightarrow> 'r mb_reader \<Rightarrow> ('r, 'd) AuthenticationReader \<Rightarrow> (('r, 'd) AuthenticationReader \<times> (buf_error + u16 \<times> u16)) option" where
  "AuthenticationReader_readSize C rd r =
     (if ar_hasSize r then Some (r\<lparr>ar_hasSize := False\<rparr>, Inr (ar_size r, ar_paddingLen r))
      else do {
        (reader, sizeBytes, err) \<leftarrow> io_ReadFull_from (BufferedReader_Read rd) (ar_reader r) (nat (sc_SizeBytes (cd_size C))) [];
        let r = r\<lparr>ar_reader := reader\<rparr>;
        case err of
          Some e \<Rightarrow> Some (r, Inl e)
        | None \<Rightarrow>
            (let (d, padding) = next_padding C (ar_codec r) in
             case sc_Decode (cd_size C) d sizeBytes of
               (d, Panic) \<Rightarrow> None
             | (d, Fail e) \<Rightarrow> Some (r\<lparr>ar_codec := d\<rparr>, Inl e)
             | (d, Ok n) \<Rightarrow> Some (r\<lparr>ar_codec := d\<rparr>, Inr (n, padding)))
      })"

definition errSoft :: buf_error where "errSoft = ReadError ''waiting for more data''"

text \<open>\<^verbatim>\<open>b.ReadFullFrom(reader, sz)\<close> on a byte reader with state.\<close>

definition buffer_read_full :: "'s io_reader \<Rightarrow> 's \<Rightarrow> Buffer \<Rightarrow> int \<Rightarrow> ('s \<times> Buffer \<times> buf_error option) option" where
  "buffer_read_full rd s b sz =
     (let e = i32 (buf_end b + sz) in
      if e > i32 (int (length (buf_v b))) then Some (s, b, Some OutOfBound)
      else do {
        free \<leftarrow> slice_of (buf_v b) (buf_end b) e;
        (s, data, err) \<leftarrow> io_ReadFull_from rd s (length free) [];
        Some (s, b\<lparr>buf_v := overwrite (buf_v b) (nat (buf_end b)) data, buf_end := i32 (buf_end b + i32 (int (length data)))\<rparr>, err)
      })"

text \<open>\<^verbatim>\<open>readBuffer\<close>: the chunk is opened in place.\<close>

definition AuthenticationReader_readBuffer ::
  "bytes \<Rightarrow> 'd Codec \<Rightarrow> 'r mb_reader \<Rightarrow> ('r, 'd) AuthenticationReader \<Rightarrow> int \<Rightarrow> int \<Rightarrow>
   (('r, 'd) AuthenticationReader \<times> (buf_error + Buffer)) option" where
  "AuthenticationReader_readBuffer p C rd r sz padding =
     do {
       (reader, b, err) \<leftarrow> buffer_read_full (BufferedReader_Read rd) (ar_reader r) (Buffer_New p) sz;
       let r = r\<lparr>ar_reader := reader\<rparr>;
       case err of
         Some e \<Rightarrow> Some (r, Inl e)
       | None \<Rightarrow> do {
           cipherText \<leftarrow> Buffer_BytesTo b (i32 (sz - padding));
           case cd_Open C (ar_codec r) cipherText of
             (d, Panic) \<Rightarrow> None
           | (d, Fail e) \<Rightarrow> Some (r\<lparr>ar_codec := d\<rparr>, Inl e)
           | (d, Ok rb) \<Rightarrow>
               map_option (\<lambda>b. (r\<lparr>ar_codec := d\<rparr>, Inr b))
                 (Buffer_Resize (b\<lparr>buf_v := overwrite (buf_v b) (nat (buf_start b)) rb\<rparr>) 0 (i32 (int (length rb))))
         }
     }"

text \<open>The branch of \<^verbatim>\<open>readInternal\<close> for chunks longer than one buffer.\<close>

definition AuthenticationReader_readLarge ::
  "bytes \<Rightarrow> 'd Codec \<Rightarrow> 'r mb_reader \<Rightarrow> ('r, 'd) AuthenticationReader \<Rightarrow> int \<Rightarrow> int \<Rightarrow> MultiBuffer \<Rightarrow>
   (('r, 'd) AuthenticationReader \<times> MultiBuffer \<times> buf_error option) option" where
  "AuthenticationReader_readLarge p C rd r effectiveSize padding mb =
     do {
       (reader, payload, err) \<leftarrow> io_ReadFull_from (BufferedReader_Read rd) (ar_reader r) (nat effectiveSize) [];
       let r = r\<lparr>ar_reader := reader\<rparr>;
       case err of
         Some e \<Rightarrow> Some (r, mb, Some e)
       | None \<Rightarrow> do {
           cipherText \<leftarrow> slice_of payload 0 (effectiveSize - padding);
           case cd_Open C (ar_codec r) cipherText of
             (d, Panic) \<Rightarrow> None
           | (d, Fail e) \<Rightarrow> Some (r\<lparr>ar_codec := d\<rparr>, mb, Some e)
           | (d, Ok rb) \<Rightarrow> map_option (\<lambda>mb. (r\<lparr>ar_codec := d\<rparr>, mb, None)) (MergeBytes (\<lambda>_. p) mb rb)
         }
     }"

text \<open>\<^verbatim>\<open>readInternal\<close> from the point where the size and the padding of the chunk are known.\<close>

definition AuthenticationReader_readChunk ::
  "bytes \<Rightarrow> 'd Codec \<Rightarrow> 'r mb_reader \<Rightarrow> bool \<Rightarrow> ('r, 'd) AuthenticationReader \<Rightarrow> MultiBuffer \<Rightarrow> u16 \<Rightarrow> u16 \<Rightarrow>
   (('r, 'd) AuthenticationReader \<times> MultiBuffer \<times> buf_error option) option" where
  "AuthenticationReader_readChunk p C rd soft r mb sz padding =
     (if sz + sc_offset (cd_size C) = word_of_nat (cd_Overhead C) + padding then Some (r\<lparr>ar_done := True\<rparr>, mb, Some EOF)
      else
        let effectiveSize = uint sz + uint (sc_offset (cd_size C)) in
        if soft \<and> effectiveSize > BufferedReader_BufferedBytes (ar_reader r)
        then Some (r\<lparr>ar_size := sz, ar_paddingLen := padding, ar_hasSize := True\<rparr>, mb, Some errSoft)
        else if effectiveSize \<le> Size
        then do {
          (r, res) \<leftarrow> AuthenticationReader_readBuffer p C rd r effectiveSize (uint padding);
          case res of Inl e \<Rightarrow> Some (r, mb, Some e) | Inr b \<Rightarrow> Some (r, mb @ [b], None)
        }
        else AuthenticationReader_readLarge p C rd r effectiveSize (uint padding) mb)"

definition AuthenticationReader_readInternal ::
  "bytes \<Rightarrow> 'd Codec \<Rightarrow> 'r mb_reader \<Rightarrow> bool \<Rightarrow> ('r, 'd) AuthenticationReader \<Rightarrow> MultiBuffer \<Rightarrow>
   (('r, 'd) AuthenticationReader \<times> MultiBuffer \<times> buf_error option) option" where
  "AuthenticationReader_readInternal p C rd soft r mb =
     (if soft \<and> BufferedReader_BufferedBytes (ar_reader r) < sc_SizeBytes (cd_size C) then Some (r, mb, Some errSoft)
      else if ar_done r then Some (r, mb, Some EOF)
      else do {
        (r, res) \<leftarrow> AuthenticationReader_readSize C rd r;
        case res of
          Inl e \<Rightarrow> Some (r, mb, Some e)
        | Inr (sz, padding) \<Rightarrow> AuthenticationReader_readChunk p C rd soft r mb sz padding
      })"

fun AuthenticationReader_softReads ::
  "nat \<Rightarrow> bytes \<Rightarrow> 'd Codec \<Rightarrow> 'r mb_reader \<Rightarrow> ('r, 'd) AuthenticationReader \<Rightarrow> MultiBuffer \<Rightarrow>
   (('r, 'd) AuthenticationReader \<times> MultiBuffer \<times> buf_error option) option" where
  "AuthenticationReader_softReads 0 p C rd r mb = Some (r, mb, None)"
| "AuthenticationReader_softReads (Suc n) p C rd r mb =
     do {
       (r, mb, err) \<leftarrow> AuthenticationReader_readInternal p C rd True r mb;
       case err of
         None \<Rightarrow> AuthenticationReader_softReads n p C rd r mb
       | Some e \<Rightarrow> if e = errSoft \<or> e = EOF then Some (r, mb, None) else Some (r, [], Some e)
     }"

definition AuthenticationReader_ReadMultiBuffer :: "bytes \<Rightarrow> 'd Codec \<Rightarrow> 'r mb_reader \<Rightarrow> ('r, 'd) AuthenticationReader mb_reader" where
  "AuthenticationReader_ReadMultiBuffer p C rd r =
     do {
       (r, mb, err) \<leftarrow> AuthenticationReader_readInternal p C rd False r [];
       case err of
         Some e \<Rightarrow> Some (r, [], Some e)
       | None \<Rightarrow> AuthenticationReader_softReads 15 p C rd r mb
     }"

section \<open>Writing\<close>

definition sealError :: buf_error where "sealError = ReadError ''size too large''"

text \<open>\<^verbatim>\<open>seal\<close>: the array \<open>p\<close> of the new buffer and the bytes of the random source are parameters.\<close>

definition AuthenticationWriter_seal :: "bytes \<Rightarrow> bytes \<Rightarrow> 'd Codec \<Rightarrow> 'd \<Rightarrow> bytes \<Rightarrow> ('d \<times> (buf_error + Buffer)) option" where
  "AuthenticationWriter_seal p rnd C d b =
     (let encryptedSize = i32 (int (length b + cd_Overhead C));
          (d, padding) = next_padding C d;
          paddingSize = uint padding;
          sizeBytes = sc_SizeBytes (cd_size C);
          totalSize = i32 (sizeBytes + encryptedSize + paddingSize)
      in if totalSize > Size then Some (d, Inl sealError)
         else do {
           (eb, w) \<leftarrow> Buffer_Extend (Buffer_New p) sizeBytes;
           (case sc_Encode (cd_size C) d (word_of_int (encryptedSize + paddingSize)) of
              (d, None) \<Rightarrow> None
            | (d, Some bs) \<Rightarrow> do {
                let eb = Buffer_fill eb w bs;
                (eb, w) \<leftarrow> Buffer_Extend eb encryptedSize;
                case cd_Seal C d b of
                  (d, Panic) \<Rightarrow> None
                | (d, Fail e) \<Rightarrow> Some (d, Inl e)
                | (d, Ok x) \<Rightarrow> do {
                    let eb = Buffer_fill eb w x;
                    if paddingSize > 0
                    then do { (eb, w) \<leftarrow> Buffer_Extend eb paddingSize; Some (d, Inr (Buffer_fill eb w (take (nat paddingSize) rnd))) }
                    else Some (d, Inr eb)
                  }
              })
         })"

text \<open>The loop of \<^verbatim>\<open>writeStream\<close>; \<open>rnd k\<close> is what the random source returns for the k-th chunk.\<close>

partial_function (option) AuthenticationWriter_streamLoop ::
  "bytes \<Rightarrow> (nat \<Rightarrow> bytes) \<Rightarrow> 'd Codec \<Rightarrow> nat \<Rightarrow> nat \<Rightarrow> 'd \<Rightarrow> MultiBuffer \<Rightarrow> MultiBuffer \<Rightarrow> ('d \<times> (buf_error + MultiBuffer)) option" where
  "AuthenticationWriter_streamLoop p rnd C payloadSize k d mb mb2Write =
     Option.bind (SplitBytes mb payloadSize) (\<lambda>(mb, raw).
     Option.bind (AuthenticationWriter_seal p (rnd k) C d raw) (\<lambda>(d, res).
     case res of
       Inl e \<Rightarrow> Some (d, Inl e)
     | Inr eb \<Rightarrow>
         if MultiBuffer_IsEmpty mb then Some (d, Inr (mb2Write @ [eb]))
         else AuthenticationWriter_streamLoop p rnd C payloadSize (Suc k) d mb (mb2Write @ [eb])))"

definition AuthenticationWriter_payloadSize :: "'d Codec \<Rightarrow> int" where
  "AuthenticationWriter_payloadSize C =
     (let maxPadding = (case cd_NextPaddingLen C of None \<Rightarrow> 0 | Some _ \<Rightarrow> uint (cd_MaxPaddingLen C))
      in i32 (Size - int (cd_Overhead C) - sc_SizeBytes (cd_size C) - maxPadding))"

definition tooLarge :: buf_error where "tooLarge = ReadError ''value too large''"

definition AuthenticationWriter_writeStream ::
  "bytes \<Rightarrow> (nat \<Rightarrow> bytes) \<Rightarrow> 'd Codec \<Rightarrow> 'w mb_writer \<Rightarrow> 'd \<times> 'w \<Rightarrow> MultiBuffer \<Rightarrow> (('d \<times> 'w) \<times> buf_error option) option" where
  "AuthenticationWriter_writeStream p rnd C wr s mb =
     (if length mb + 10 > 64 * 1024 * 1024 then Some (s, Some tooLarge)
      else do {
       _ \<leftarrow> Buffer_Extend (Buffer_New p) (AuthenticationWriter_payloadSize C);
       (d, res) \<leftarrow> AuthenticationWriter_streamLoop p rnd C (nat (AuthenticationWriter_payloadSize C)) 0 (fst s) mb [];
       case res of
         Inl e \<Rightarrow> Some ((d, snd s), Some e)
       | Inr mb2Write \<Rightarrow> (let (w, err) = wr (snd s) mb2Write in Some ((d, w), err))
     })"

text \<open>The loop of \<^verbatim>\<open>writePacket\<close>: a packet that cannot be sealed is left out.\<close>

fun AuthenticationWriter_packetLoop ::
  "bytes \<Rightarrow> (nat \<Rightarrow> bytes) \<Rightarrow> 'd Codec \<Rightarrow> nat \<Rightarrow> 'd \<Rightarrow> MultiBuffer \<Rightarrow> MultiBuffer \<Rightarrow> ('d \<times> MultiBuffer) option" where
  "AuthenticationWriter_packetLoop p rnd C k d [] mb2Write = Some (d, mb2Write)"
| "AuthenticationWriter_packetLoop p rnd C k d (b # mb) mb2Write =
     (if Buffer_IsEmpty (Some b) then AuthenticationWriter_packetLoop p rnd C (Suc k) d mb mb2Write
      else do {
        bs \<leftarrow> Buffer_Bytes b;
        (d, res) \<leftarrow> AuthenticationWriter_seal p (rnd k) C d bs;
        case res of
          Inl e \<Rightarrow> AuthenticationWriter_packetLoop p rnd C (Suc k) d mb mb2Write
        | Inr eb \<Rightarrow> AuthenticationWriter_packetLoop p rnd C (Suc k) d mb (mb2Write @ [eb])
      })"

definition AuthenticationWriter_writePacket ::
  "bytes \<Rightarrow> (nat \<Rightarrow> bytes) \<Rightarrow> 'd Codec \<Rightarrow> 'w mb_writer \<Rightarrow> 'd \<times> 'w \<Rightarrow> MultiBuffer \<Rightarrow> (('d \<times> 'w) \<times> buf_error option) option" where
  "AuthenticationWriter_writePacket p rnd C wr s mb =
     (if length mb + 1 > 64 * 1024 * 1024 then Some (s, Some tooLarge)
      else do {
       (d, mb2Write) \<leftarrow> AuthenticationWriter_packetLoop p rnd C 0 (fst s) mb [];
       if MultiBuffer_IsEmpty mb2Write then Some ((d, snd s), None)
       else (let (w, err) = wr (snd s) mb2Write in Some ((d, w), err))
     })"

datatype TransferType = TransferTypeStream | TransferTypePacket

definition AuthenticationWriter_WriteMultiBuffer ::
  "bytes \<Rightarrow> (nat \<Rightarrow> bytes) \<Rightarrow> 'd Codec \<Rightarrow> TransferType \<Rightarrow> 'w mb_writer \<Rightarrow> 'd \<times> 'w \<Rightarrow> MultiBuffer \<Rightarrow>
   (('d \<times> 'w) \<times> buf_error option) option" where
  "AuthenticationWriter_WriteMultiBuffer p rnd C transferType wr s mb =
     (if MultiBuffer_IsEmpty mb
      then do {
        (d, res) \<leftarrow> AuthenticationWriter_seal p (rnd 0) C (fst s) [];
        case res of
          Inl e \<Rightarrow> None
        | Inr eb \<Rightarrow> (let (w, err) = wr (snd s) [eb] in Some ((d, w), err))
      }
      else if transferType = TransferTypeStream then AuthenticationWriter_writeStream p rnd C wr s mb
      else AuthenticationWriter_writePacket p rnd C wr s mb)"

section \<open>The contract of a codec\<close>

locale codec = size_parser "cd_size C" ok for C :: "'d Codec" and ok +
  assumes padding_ok: "ok d \<Longrightarrow> next_padding C d = (d', n) \<Longrightarrow> ok d' \<and> n \<le> cd_MaxPaddingLen C"
    and seal_open: "ok d \<Longrightarrow> length plain \<le> 2048 \<Longrightarrow> \<exists>d' x. cd_Seal C d plain = (d', Ok x) \<and> cd_Open C d x = (d', Ok plain) \<and>
      length x = length plain + cd_Overhead C \<and> ok d'"
    and offset_le: "unat (sc_offset (cd_size C)) \<le> cd_Overhead C"
    and fits: "int (cd_Overhead C) + sc_SizeBytes (cd_size C) + uint (cd_MaxPaddingLen C) < 2048"

text \<open>\<open>sealed C d stream cs\<close>: with the codec in state \<open>d\<close>, the stream carries the chunks \<open>cs\<close>, then an empty
  chunk. Every chunk with its overhead and padding fits a buffer.\<close>

inductive sealed :: "'d Codec \<Rightarrow> 'd \<Rightarrow> bytes \<Rightarrow> bytes list \<Rightarrow> bool" for C where
  sealed_end: "next_padding C d = (d1, n) \<Longrightarrow>
    sc_Encode (cd_size C) d1 (word_of_nat (cd_Overhead C + unat n)) = (d2, Some hdr) \<Longrightarrow> sealed C d (hdr @ rest) []"
| sealed_more: "c \<noteq> [] \<Longrightarrow> next_padding C d = (d1, n) \<Longrightarrow>
    sc_Encode (cd_size C) d1 (word_of_nat (length c + cd_Overhead C + unat n)) = (d2, Some hdr) \<Longrightarrow>
    cd_Seal C d2 c = (d3, Ok x) \<Longrightarrow> length pad = unat n \<Longrightarrow> length c + cd_Overhead C + unat n \<le> 2048 \<Longrightarrow>
    sealed C d3 stream cs \<Longrightarrow> sealed C d (hdr @ x @ pad @ stream) (c # cs)"

inductive_cases sealed_NilE: "sealed C d stream []"
inductive_cases sealed_ConsE: "sealed C d stream (c # cs)"

text \<open>The reader before a chunk, and after the size of a chunk.\<close>

definition at_body :: "'d Codec \<Rightarrow> ('r \<Rightarrow> bytes \<Rightarrow> bool) \<Rightarrow> 'r BufferedReader \<Rightarrow> 'd \<Rightarrow> u16 \<Rightarrow> u16 \<Rightarrow> bytes \<Rightarrow> bytes list \<Rightarrow> bool" where
  "at_body C rep reader d sz n c cs \<longleftrightarrow> c \<noteq> [] \<and> sz = word_of_nat (length c + cd_Overhead C + unat n) - sc_offset (cd_size C) \<and>
     length c + cd_Overhead C + unat n \<le> 2048 \<and>
     (\<exists>d' x pad stream. cd_Seal C d c = (d', Ok x) \<and> length pad = unat n \<and> br_rep rep reader (x @ pad @ stream) \<and> sealed C d' stream cs)"

definition ar_rep :: "'d Codec \<Rightarrow> ('d \<Rightarrow> bool) \<Rightarrow> ('r \<Rightarrow> bytes \<Rightarrow> bool) \<Rightarrow> ('r, 'd) AuthenticationReader \<Rightarrow> bytes list \<Rightarrow> bool" where
  "ar_rep C ok rep r cs \<longleftrightarrow>
     (ar_done r \<and> cs = []) \<or>
     (\<not> ar_done r \<and> \<not> ar_hasSize r \<and> ok (ar_codec r) \<and> (\<exists>stream. br_rep rep (ar_reader r) stream \<and> sealed C (ar_codec r) stream cs)) \<or>
     (\<not> ar_done r \<and> ar_hasSize r \<and> ok (ar_codec r) \<and>
        (\<exists>c cs'. cs = c # cs' \<and> at_body C rep (ar_reader r) (ar_codec r) (ar_size r) (ar_paddingLen r) c cs'))"

locale auth_reader = buffered_source rd rep + codec C ok
  for rd :: "'r mb_reader" and rep and C :: "'d Codec" and ok +
  fixes p :: bytes
  assumes array: "length p = 2048"
begin

lemma bufbytes_readFull:
  "br_rep rep r (xs @ rest) \<Longrightarrow> \<exists>r'. io_ReadFull_from (BufferedReader_Read rd) r (length xs) [] = Some (r', xs, None) \<and> br_rep rep r' rest"
  using bufbytes.io_ReadFull_ok [of r xs rest "[]"] by simp

lemma header_ok:
  assumes "ok (ar_codec r)" and "\<not> ar_hasSize r" and "next_padding C (ar_codec r) = (d1, n)"
    and "sc_Encode (cd_size C) d1 m = (d2, Some hdr)" and "br_rep rep (ar_reader r) (hdr @ rest)"
  obtains reader where "AuthenticationReader_readSize C rd r =
      Some (r\<lparr>ar_reader := reader, ar_codec := d2\<rparr>, Inr (m - sc_offset (cd_size C), n))" "br_rep rep reader rest" "ok d2"
proof -
  have "ok d1" using padding_ok assms(1,3) by blast
  from enc_dec [OF this, of m] assms(4)
  have dec: "int (length hdr) = sc_SizeBytes (cd_size C)" "sc_Decode (cd_size C) d1 hdr = (d2, Ok (m - sc_offset (cd_size C)))" "ok d2"
    by auto
  obtain reader where "io_ReadFull_from (BufferedReader_Read rd) (ar_reader r) (length hdr) [] = Some (reader, hdr, None)"
      "br_rep rep reader rest"
    using bufbytes_readFull [OF assms(5)] by blast
  moreover have "nat (sc_SizeBytes (cd_size C)) = length hdr" using dec(1) by simp
  ultimately show thesis
    using that [of reader] assms(2,3) dec(2,3) by (simp add: AuthenticationReader_readSize_def)
qed

end

text \<open>Opening a chunk in place.\<close>

lemma resize_in_place:
  assumes "wf_Buffer b" and "buf_start b = 0" and "length rb \<le> length (content b)"
  shows "\<exists>b'. Buffer_Resize (b\<lparr>buf_v := overwrite (buf_v b) (nat (buf_start b)) rb\<rparr>) 0 (i32 (int (length rb))) = Some b' \<and>
     wf_Buffer b' \<and> content b' = rb"
proof -
  have l: "length rb \<le> length (buf_v b)" "int (length rb) < 2 ^ 31" "int (length (buf_v b)) < 2 ^ 31"
    using assms length_content [OF assms(1)] by (auto simp: wf_Buffer_def)
  then have "i32 (int (length rb)) = int (length rb)" "i32 0 = 0" by (auto intro: i32_id)
  then show ?thesis
    using assms l by (auto simp: Buffer_Resize_def wf_Buffer_def content_def overwrite_def Let_def)
qed

context io_source
begin

lemma buffer_read_full_ok:
  assumes "wf_Buffer b" and "length xs \<le> room b" and "rep s (xs @ rest)"
  obtains s' b' where "buffer_read_full rd s b (int (length xs)) = Some (s', b', None)" "rep s' rest" "wf_Buffer b'"
    "content b' = content b @ xs" "buf_start b' = buf_start b"
proof -
  have bnd: "buf_end b + int (length xs) \<le> int (length (buf_v b))" "0 \<le> buf_end b" "int (length (buf_v b)) < 2 ^ 31"
    using assms(1,2) by (auto simp: room_def wf_Buffer_def)
  then have i: "i32 (buf_end b + int (length xs)) = buf_end b + int (length xs)" "i32 (int (length (buf_v b))) = int (length (buf_v b))"
      "i32 (int (length xs)) = int (length xs)"
    by (auto intro!: i32_id)
  obtain s' where "io_ReadFull_from rd s (length xs) [] = Some (s', xs, None)" "rep s' rest"
    using io_ReadFull_ok [of s xs rest "[]"] assms(3) by auto
  moreover have "slice_of (buf_v b) (buf_end b) (buf_end b + int (length xs)) = Some (take (length xs) (drop (nat (buf_end b)) (buf_v b)))"
    "length (take (length xs) (drop (nat (buf_end b)) (buf_v b))) = length xs"
    using bnd by (auto simp: slice_of_def)
  ultimately have "buffer_read_full rd s b (int (length xs)) =
      Some (s', b\<lparr>buf_v := overwrite (buf_v b) (nat (buf_end b)) xs, buf_end := buf_end b + int (length xs)\<rparr>, None)"
    using bnd i by (simp add: buffer_read_full_def Let_def del: length_take)
  then show thesis using that \<open>rep s' rest\<close> overwrite_content [OF assms(1,2)] by simp
qed

end

context auth_reader
begin

lemma readBuffer_ok:
  assumes "ok (ar_codec r)" and "cd_Seal C (ar_codec r) c = (d', Ok x)" and "length pad = n"
    and "length c + cd_Overhead C + n \<le> 2048" and "br_rep rep (ar_reader r) (x @ pad @ stream)"
  obtains reader b where "AuthenticationReader_readBuffer p C rd r (int (length c + cd_Overhead C + n)) (int n) =
      Some (r\<lparr>ar_reader := reader, ar_codec := d'\<rparr>, Inr b)" "br_rep rep reader stream" "ok d'" "wf_Buffer b" "content b = c"
proof -
  have so: "cd_Open C (ar_codec r) x = (d', Ok c)" "length x = length c + cd_Overhead C" "ok d'"
    using seal_open [OF assms(1), of c] assms(2,4) by auto
  have wf: "wf_Buffer (Buffer_New p)" and rm: "room (Buffer_New p) = 2048" using array by simp_all
  have l: "length (x @ pad) \<le> room (Buffer_New p)" using rm so(2) assms(3,4) by simp
  have rep': "br_rep rep (ar_reader r) ((x @ pad) @ stream)" using assms(5) by simp
  obtain reader b where b: "buffer_read_full (BufferedReader_Read rd) (ar_reader r) (Buffer_New p) (int (length (x @ pad))) = Some (reader, b, None)"
      "br_rep rep reader stream" "wf_Buffer b" "content b = content (Buffer_New p) @ x @ pad" "buf_start b = buf_start (Buffer_New p)"
    by (rule bufbytes.buffer_read_full_ok [OF wf l rep'])
  have len: "int (length (x @ pad)) = int (length c + cd_Overhead C + n)" using so(2) assms(3) by simp
  have i: "i32 (int (length c + cd_Overhead C + n) - int n) = int (length x)" using so(2) assms(4) by (auto intro!: i32_id)
  have ct: "Buffer_BytesTo b (int (length x)) = Some x" using Buffer_BytesTo_content [OF b(3), of "int (length x)"] b(4) by simp
  have "buf_start b = 0" using b(5) by (simp add: Buffer_New_def)
  then obtain b' where "Buffer_Resize (b\<lparr>buf_v := overwrite (buf_v b) (nat (buf_start b)) c\<rparr>) 0 (i32 (int (length c))) = Some b'"
      "wf_Buffer b'" "content b' = c"
    using resize_in_place [OF b(3), of c] b(4) so(2) by auto
  with b(1,2) len i ct so(1,3) show thesis
    using that [of reader b'] by (simp add: AuthenticationReader_readBuffer_def del: of_nat_add)
qed

lemma chunk_size:
  assumes "sz = word_of_nat m - sc_offset (cd_size C)" and "cd_Overhead C \<le> m" and "m < 65536"
  shows "uint sz + uint (sc_offset (cd_size C)) = int m" and "sz + sc_offset (cd_size C) = word_of_nat m"
proof -
  have m: "unat (word_of_nat m :: u16) = m" using assms(3) by simp
  have "sc_offset (cd_size C) \<le> word_of_nat m" using offset_le assms(2) m by (simp add: word_le_nat_alt)
  then have "unat sz = m - unat (sc_offset (cd_size C))" using assms(1) m by (simp add: unat_sub)
  then have "unat sz + unat (sc_offset (cd_size C)) = m" using offset_le assms(2) by simp
  then show "uint sz + uint (sc_offset (cd_size C)) = int m" by (metis of_nat_add uint_nat)
  show "sz + sc_offset (cd_size C) = word_of_nat m" using assms(1) by simp
qed

lemma readChunk_body:
  assumes "ok (ar_codec r)" and "\<not> ar_done r" and "\<not> ar_hasSize r" and "at_body C rep (ar_reader r) (ar_codec r) sz n c cs"
  shows "\<exists>r'. (\<exists>b. AuthenticationReader_readChunk p C rd soft r mb sz n = Some (r', mb @ [b], None) \<and> wf_Buffer b \<and> content b = c \<and> ar_rep C ok rep r' cs)
    \<or> soft \<and> AuthenticationReader_readChunk p C rd soft r mb sz n = Some (r', mb, Some errSoft) \<and> ar_rep C ok rep r' (c # cs)"
proof -
  let ?m = "length c + cd_Overhead C + unat n"
  obtain d' x pad stream where a: "c \<noteq> []" "sz = word_of_nat ?m - sc_offset (cd_size C)" "?m \<le> 2048" "cd_Seal C (ar_codec r) c = (d', Ok x)"
      "length pad = unat n" "br_rep rep (ar_reader r) (x @ pad @ stream)" "sealed C d' stream cs"
    using assms(4) by (auto simp: at_body_def)
  have sz: "uint sz + uint (sc_offset (cd_size C)) = int ?m" "sz + sc_offset (cd_size C) = word_of_nat ?m"
    by (rule chunk_size [OF a(2)]; use a(3) in simp)+
  have "unat (word_of_nat ?m :: u16) = ?m" "unat (word_of_nat (cd_Overhead C) + n :: u16) = cd_Overhead C + unat n"
    using a(3) by (simp_all add: unat_word_ariths)
  moreover have "?m \<noteq> cd_Overhead C + unat n" using a(1) by simp
  ultimately have ne: "sz + sc_offset (cd_size C) \<noteq> word_of_nat (cd_Overhead C) + n" using sz(2) by metis
  obtain reader b where rb: "AuthenticationReader_readBuffer p C rd r (int ?m) (int (unat n)) = Some (r\<lparr>ar_reader := reader, ar_codec := d'\<rparr>, Inr b)"
      "br_rep rep reader stream" "ok d'" "wf_Buffer b" "content b = c"
    by (rule readBuffer_ok [OF assms(1) a(4,5,3,6)])
  have "int ?m \<le> Size" using a(3) by (simp only: Size_def of_nat_le_numeral_iff)
  moreover have "uint n = int (unat n)" by (rule uint_nat)
  ultimately have eq: "AuthenticationReader_readChunk p C rd soft r mb sz n =
      (if soft \<and> int ?m > BufferedReader_BufferedBytes (ar_reader r)
       then Some (r\<lparr>ar_size := sz, ar_paddingLen := n, ar_hasSize := True\<rparr>, mb, Some errSoft)
       else Some (r\<lparr>ar_reader := reader, ar_codec := d'\<rparr>, mb @ [b], None))"
    using ne sz(1) rb(1) by (simp add: AuthenticationReader_readChunk_def Let_def del: of_nat_add)
  have "ar_rep C ok rep (r\<lparr>ar_size := sz, ar_paddingLen := n, ar_hasSize := True\<rparr>) (c # cs)"
    using assms by (simp add: ar_rep_def)
  moreover have "ar_rep C ok rep (r\<lparr>ar_reader := reader, ar_codec := d'\<rparr>) cs"
    using assms(2,3) rb(2,3) a(7) by (auto simp: ar_rep_def)
  ultimately show ?thesis using eq rb(4,5) by auto
qed

text \<open>What one call of \<^verbatim>\<open>readInternal\<close> does when a chunk is next, and at the end.\<close>

lemma readInternal_chunk:
  assumes "ar_rep C ok rep r (c # cs)"
  shows "\<exists>r'. (\<exists>b. AuthenticationReader_readInternal p C rd soft r mb = Some (r', mb @ [b], None) \<and> wf_Buffer b \<and> content b = c \<and> ar_rep C ok rep r' cs)
    \<or> soft \<and> AuthenticationReader_readInternal p C rd soft r mb = Some (r', mb, Some errSoft) \<and> ar_rep C ok rep r' (c # cs)"
proof (cases "soft \<and> BufferedReader_BufferedBytes (ar_reader r) < sc_SizeBytes (cd_size C)")
  case True
  then show ?thesis using assms by (simp add: AuthenticationReader_readInternal_def)
next
  case False
  have nd: "\<not> ar_done r" "ok (ar_codec r)" using assms by (auto simp: ar_rep_def)
  obtain r1 sz n where h: "AuthenticationReader_readSize C rd r = Some (r1, Inr (sz, n))" "\<not> ar_done r1" "\<not> ar_hasSize r1" "ok (ar_codec r1)"
      "at_body C rep (ar_reader r1) (ar_codec r1) sz n c cs"
  proof (cases "ar_hasSize r")
    case True
    then show thesis
      using assms nd that [of "r\<lparr>ar_hasSize := False\<rparr>" "ar_size r" "ar_paddingLen r"]
      by (auto simp: ar_rep_def AuthenticationReader_readSize_def)
  next
    case nh: False
    then obtain stream where s: "br_rep rep (ar_reader r) stream" "sealed C (ar_codec r) stream (c # cs)"
      using assms nd by (auto simp: ar_rep_def)
    obtain d1 n d2 hdr d3 x pad stream' where 1: "stream = hdr @ x @ pad @ stream'" "c \<noteq> []" "next_padding C (ar_codec r) = (d1, n)"
        "sc_Encode (cd_size C) d1 (word_of_nat (length c + cd_Overhead C + unat n)) = (d2, Some hdr)" "cd_Seal C d2 c = (d3, Ok x)"
        "length pad = unat n" "length c + cd_Overhead C + unat n \<le> 2048" "sealed C d3 stream' cs"
      using s(2) by (rule sealed_ConsE) fastforce
    show thesis
    proof -
      obtain reader where "AuthenticationReader_readSize C rd r = Some (r\<lparr>ar_reader := reader, ar_codec := d2\<rparr>,
          Inr (word_of_nat (length c + cd_Overhead C + unat n) - sc_offset (cd_size C), n))" "br_rep rep reader (x @ pad @ stream')" "ok d2"
        by (rule header_ok [OF nd(2) nh 1(3,4)]) (use s(1) 1(1) in auto)
      then show thesis
        using nd nh 1 that [of "r\<lparr>ar_reader := reader, ar_codec := d2\<rparr>"] by (auto simp: at_body_def)
    qed
  qed
  have "AuthenticationReader_readInternal p C rd soft r mb = AuthenticationReader_readChunk p C rd soft r1 mb sz n"
    unfolding AuthenticationReader_readInternal_def using False nd h(1) by auto
  then show ?thesis using readChunk_body [OF h(4,2,3,5)] by simp
qed

lemma readInternal_end:
  assumes "ar_rep C ok rep r []"
  shows "\<exists>r'. AuthenticationReader_readInternal p C rd soft r mb = Some (r', mb, Some EOF) \<and> ar_rep C ok rep r' []
    \<or> soft \<and> AuthenticationReader_readInternal p C rd soft r mb = Some (r', mb, Some errSoft) \<and> ar_rep C ok rep r' []"
proof (cases "(soft \<and> BufferedReader_BufferedBytes (ar_reader r) < sc_SizeBytes (cd_size C)) \<or> ar_done r")
  case True
  then show ?thesis using assms by (auto simp: AuthenticationReader_readInternal_def)
next
  case False
  then obtain stream where s: "\<not> ar_hasSize r" "ok (ar_codec r)" "br_rep rep (ar_reader r) stream" "sealed C (ar_codec r) stream []"
    using assms by (auto simp: ar_rep_def)
  obtain d1 n d2 hdr rest where 1: "stream = hdr @ rest" "next_padding C (ar_codec r) = (d1, n)"
      "sc_Encode (cd_size C) d1 (word_of_nat (cd_Overhead C + unat n)) = (d2, Some hdr)"
    using s(4) by (rule sealed_NilE) fastforce
  show ?thesis
  proof -
    let ?m = "cd_Overhead C + unat n"
    obtain reader where h: "AuthenticationReader_readSize C rd r = Some (r\<lparr>ar_reader := reader, ar_codec := d2\<rparr>, Inr (word_of_nat ?m - sc_offset (cd_size C), n))"
      by (rule header_ok [OF s(2,1) 1(2,3)]) (use s(3) 1(1) in auto)
    have "word_of_nat ?m - sc_offset (cd_size C) + sc_offset (cd_size C) = word_of_nat (cd_Overhead C) + n" by simp
    then show ?thesis
      unfolding AuthenticationReader_readInternal_def AuthenticationReader_readChunk_def using False h by (auto simp: ar_rep_def)
  qed
qed

lemma softReads_ok:
  assumes "\<forall>c \<in> set cs. length c \<le> 2048 \<and> c \<noteq> []"
  shows "ar_rep C ok rep r cs \<Longrightarrow> \<exists>r' bs cs'. AuthenticationReader_softReads k p C rd r mb = Some (r', mb @ bs, None) \<and>
     pooled bs \<and> cs = map content bs @ cs' \<and> ar_rep C ok rep r' cs'"
  using assms
proof (induction k arbitrary: r mb cs)
  case 0
  then show ?case by (intro exI [of _ r] exI [of _ "[]"] exI [of _ cs]) simp
next
  case (Suc k)
  show ?case
  proof (cases cs)
    case Nil
    then show ?thesis using readInternal_end [of r True mb] Suc.prems(1) by (auto simp: errSoft_def)
  next
    case (Cons c cs1)
    from readInternal_chunk [of r c cs1 True mb] Suc.prems(1) Cons consider
      (got) r1 b where "AuthenticationReader_readInternal p C rd True r mb = Some (r1, mb @ [b], None)" "wf_Buffer b" "content b = c" "ar_rep C ok rep r1 cs1"
    | (soft) r1 where "AuthenticationReader_readInternal p C rd True r mb = Some (r1, mb, Some errSoft)" "ar_rep C ok rep r1 cs" by auto
    then show ?thesis
    proof cases
      case got
      obtain r' bs cs' where "AuthenticationReader_softReads k p C rd r1 (mb @ [b]) = Some (r', (mb @ [b]) @ bs, None)" "pooled bs"
          "cs1 = map content bs @ cs'" "ar_rep C ok rep r' cs'"
        using Suc.IH [OF got(4), of "mb @ [b]"] Suc.prems(2) Cons by auto
      then show ?thesis using got Cons Suc.prems(2) by (intro exI [of _ r'] exI [of _ "b # bs"]) auto
    next
      case soft
      then show ?thesis by (intro exI [of _ r1] exI [of _ "[]"] exI [of _ cs]) simp
    qed
  qed
qed

end

lemma sealed_chunks: "sealed C d stream cs \<Longrightarrow> \<forall>c \<in> set cs. length c \<le> 2048 \<and> c \<noteq> []"
  by (induction rule: sealed.induct) auto

lemma ar_rep_chunks: "ar_rep C ok rep r cs \<Longrightarrow> \<forall>c \<in> set cs. length c \<le> 2048 \<and> c \<noteq> []"
  unfolding ar_rep_def at_body_def using sealed_chunks by fastforce

text \<open>A reader of an authenticated stream is a source of its payload.\<close>

sublocale auth_reader \<subseteq> authr: mb_source "AuthenticationReader_ReadMultiBuffer p C rd" "\<lambda>r bs. \<exists>cs. ar_rep C ok rep r cs \<and> bs = concat cs"
proof unfold_locales
  fix r :: "('r, 'd) AuthenticationReader" and bs
  show "\<exists>r'. AuthenticationReader_ReadMultiBuffer p C rd r = Some (r', [], Some EOF)" if cs0: "\<exists>cs. ar_rep C ok rep r cs \<and> [] = concat cs"
  proof -
    obtain cs where cs: "ar_rep C ok rep r cs" "concat cs = []" using cs0 by metis
    then have "cs = []" using ar_rep_chunks [OF cs(1)] by (cases cs) auto
    then show ?thesis using readInternal_end [of r False "[]"] cs(1) by (auto simp: AuthenticationReader_ReadMultiBuffer_def)
  qed
  show "\<exists>r' mb bs'. AuthenticationReader_ReadMultiBuffer p C rd r = Some (r', mb, None) \<and> pooled mb \<and> mb_content mb \<noteq> [] \<and>
      bs = mb_content mb @ bs' \<and> (\<exists>cs. ar_rep C ok rep r' cs \<and> bs' = concat cs)"
    if cs0: "\<exists>cs. ar_rep C ok rep r cs \<and> bs = concat cs" and ne: "bs \<noteq> []"
  proof -
    obtain c cs where cs: "ar_rep C ok rep r (c # cs)" "bs = concat (c # cs)"
      using cs0 ne by (metis concat.simps(1) list.exhaust)
    note chunks = ar_rep_chunks [OF cs(1)]
    obtain r1 b where r1: "AuthenticationReader_readInternal p C rd False r [] = Some (r1, [] @ [b], None)" "wf_Buffer b" "content b = c"
        "ar_rep C ok rep r1 cs"
      using readInternal_chunk [OF cs(1), of False "[]"] by auto
    obtain r' more cs' where r': "AuthenticationReader_softReads 15 p C rd r1 [b] = Some (r', [b] @ more, None)" "pooled more"
        "cs = map content more @ cs'" "ar_rep C ok rep r' cs'"
      using softReads_ok [OF _ r1(4), of 15 "[b]"] chunks by auto
    have "AuthenticationReader_ReadMultiBuffer p C rd r = Some (r', b # more, None)"
      using r1(1) r'(1) by (simp add: AuthenticationReader_ReadMultiBuffer_def)
    moreover have "pooled (b # more)" using r1(2,3) r'(2) chunks by simp
    moreover have "mb_content (b # more) \<noteq> []" using r1(3) chunks by simp
    moreover have "bs = mb_content (b # more) @ concat cs'" using cs(2) r1(3) r'(3) by (simp add: mb_content_def)
    ultimately show ?thesis using r'(4) by blast
  qed
qed

context auth_reader
begin

lemma auth_source: "mb_source (AuthenticationReader_ReadMultiBuffer p C rd) (\<lambda>r bs. \<exists>cs. ar_rep C ok rep r cs \<and> bs = concat cs)"
  by (rule authr.mb_source_axioms)

end

section \<open>What the writer sends\<close>

context codec
begin

lemma pad_le:
  assumes "ok d" and "next_padding C d = (d1, n)"
  shows "uint n \<le> (case cd_NextPaddingLen C of None \<Rightarrow> 0 | Some _ \<Rightarrow> uint (cd_MaxPaddingLen C))"
  using padding_ok [OF assms] assms(2) by (auto simp: next_padding_def word_le_def split: option.splits)

lemma Extend_fill:
  assumes "wf_Buffer b" and "length bs \<le> room b" and "length bs < 65536"
  obtains b' w where "Buffer_Extend b (int (length bs)) = Some (b', w)" "wf_Buffer (Buffer_fill b' w bs)"
    "content (Buffer_fill b' w bs) = content b @ bs" "room (Buffer_fill b' w bs) = room b - length bs"
  using Extend_fill_start [OF assms] by blast

lemma seal_ok:
  assumes p: "length p = 2048" and d: "ok d" and np: "next_padding C d = (d1, n)" and rnd: "65535 \<le> length rnd"
    and len: "sc_SizeBytes (cd_size C) + int (length c + cd_Overhead C) + uint n \<le> 2048"
  obtains d2 d3 hdr x eb where "AuthenticationWriter_seal p rnd C d c = Some (d3, Inr eb)" "ok d3" "wf_Buffer eb"
    "sc_Encode (cd_size C) d1 (word_of_nat (length c + cd_Overhead C + unat n)) = (d2, Some hdr)" "cd_Seal C d2 c = (d3, Ok x)"
    "content eb = hdr @ x @ take (unat n) rnd" "length (content eb) \<le> 2048" "hdr \<noteq> []" "length (take (unat n) rnd) = unat n"
proof -
  let ?m = "length c + cd_Overhead C + unat n"
  have un: "uint n = int (unat n)" "nat (uint n) = unat n" by simp_all
  have "ok d1" using padding_ok [OF d np] by simp
  then obtain d2 hdr where e: "sc_Encode (cd_size C) d1 (word_of_nat ?m) = (d2, Some hdr)" "int (length hdr) = sc_SizeBytes (cd_size C)" "ok d2"
    using enc_dec [of d1 "word_of_nat ?m"] by blast
  have lc: "length c \<le> 2048" using len size_bytes uint_nonnegative [of n] by linarith
  obtain d3 x where x: "cd_Seal C d2 c = (d3, Ok x)" "length x = length c + cd_Overhead C" "ok d3"
    using seal_open [OF e(3) lc] by blast
  let ?pad = "take (unat n) rnd"
  have lp: "length ?pad = unat n"
  proof -
    have "unat n < 65536" using unsigned_less [of n] by simp
    then show ?thesis using rnd by simp
  qed
  have tot: "length hdr + length x + length ?pad \<le> 2048" using len e(2) x(2) lp un(1) by linarith
  have wf: "wf_Buffer (Buffer_New p)" "room (Buffer_New p) = 2048" using p by simp_all
  obtain b1 w1 where b1: "Buffer_Extend (Buffer_New p) (int (length hdr)) = Some (b1, w1)" "wf_Buffer (Buffer_fill b1 w1 hdr)"
      "content (Buffer_fill b1 w1 hdr) = content (Buffer_New p) @ hdr" "room (Buffer_fill b1 w1 hdr) = room (Buffer_New p) - length hdr"
    by (rule Extend_fill [OF wf(1), of hdr]) (use tot wf(2) in auto)
  obtain b2 w2 where b2: "Buffer_Extend (Buffer_fill b1 w1 hdr) (int (length x)) = Some (b2, w2)" "wf_Buffer (Buffer_fill b2 w2 x)"
      "content (Buffer_fill b2 w2 x) = content (Buffer_fill b1 w1 hdr) @ x" "room (Buffer_fill b2 w2 x) = room (Buffer_fill b1 w1 hdr) - length x"
    by (rule Extend_fill [OF b1(2), of x]) (use tot wf(2) b1(4) in auto)
  obtain b3 w3 where b3: "Buffer_Extend (Buffer_fill b2 w2 x) (int (length ?pad)) = Some (b3, w3)" "wf_Buffer (Buffer_fill b3 w3 ?pad)"
      "content (Buffer_fill b3 w3 ?pad) = content (Buffer_fill b2 w2 x) @ ?pad"
    by (rule Extend_fill [OF b2(2), of ?pad]) (use tot wf(2) b1(4) b2(4) in auto)
  have bnd: "- (2 ^ 31) \<le> int (length x)" "int (length x) < 2 ^ 31"
      "- (2 ^ 31) \<le> sc_SizeBytes (cd_size C) + int (length x) + uint n" "sc_SizeBytes (cd_size C) + int (length x) + uint n < 2 ^ 31"
  proof -
    have "0 \<le> int (length x)" "int (length x) \<le> 2048" "0 \<le> sc_SizeBytes (cd_size C) + int (length x) + uint n"
        "sc_SizeBytes (cd_size C) + int (length x) + uint n \<le> 2048"
      using len x(2) size_bytes uint_nonnegative [of n] by - linarith+
    then show "- (2 ^ 31) \<le> int (length x)" "int (length x) < 2 ^ 31"
      "- (2 ^ 31) \<le> sc_SizeBytes (cd_size C) + int (length x) + uint n" "sc_SizeBytes (cd_size C) + int (length x) + uint n < 2 ^ 31"
      by simp_all
  qed
  have i: "i32 (int (length c + cd_Overhead C)) = int (length x)"
      "i32 (sc_SizeBytes (cd_size C) + int (length x) + uint n) = sc_SizeBytes (cd_size C) + int (length x) + uint n"
    using i32_id [OF bnd(1,2)] i32_id [OF bnd(3,4)] x(2) by (simp_all del: of_nat_add)
  have small: "\<not> Size < sc_SizeBytes (cd_size C) + int (length x) + uint n" using len x(2) by (simp add: Size_def)
  have wi: "word_of_int (int (length x) + uint n) = (word_of_nat ?m :: u16)" using x(2) un(1) by (simp add: of_nat_add)
  let ?eb = "if n = 0 then Buffer_fill b2 w2 x else Buffer_fill b3 w3 ?pad"
  have pos: "0 < uint n \<longleftrightarrow> n \<noteq> 0" using uint_nonnegative [of n] by (metis less_le uint_0_iff)
  have "AuthenticationWriter_seal p rnd C d c = Some (d3, Inr ?eb)"
  proof -
    have b1': "Buffer_Extend (Buffer_New p) (sc_SizeBytes (cd_size C)) = Some (b1, w1)" using b1(1) e(2) by simp
    have b3': "Buffer_Extend (Buffer_fill b2 w2 x) (uint n) = Some (b3, w3)" using b3(1) unfolding lp un(1) .
    show ?thesis
      unfolding AuthenticationWriter_seal_def np Let_def prod.case i wi un(2)
      using small b1' e(1) b2(1) x(1) b3' pos by simp
  qed
  moreover have "content ?eb = hdr @ x @ ?pad" "wf_Buffer ?eb" using b1 b2 b3 by simp_all
  moreover have "hdr \<noteq> []" using e(2) size_bytes by auto
  ultimately show thesis using that [of d3 ?eb d2 hdr x] x e tot lp by simp
qed

end

context codec
begin

text \<open>A sealed chunk in front of a sealed stream.\<close>

lemma seal_step:
  assumes "length p = 2048" and "ok d" and "65535 \<le> length rnd" and "c \<noteq> []"
    and "sc_SizeBytes (cd_size C) + int (length c + cd_Overhead C) + (case cd_NextPaddingLen C of None \<Rightarrow> 0 | Some _ \<Rightarrow> uint (cd_MaxPaddingLen C)) \<le> 2048"
  shows "\<exists>d' eb. AuthenticationWriter_seal p rnd C d c = Some (d', Inr eb) \<and> ok d' \<and> pooled [eb] \<and>
     (\<forall>stream cs. sealed C d' stream cs \<longrightarrow> sealed C d (content eb @ stream) (c # cs))"
proof -
  obtain d1 n where np: "next_padding C d = (d1, n)" by fastforce
  have len: "sc_SizeBytes (cd_size C) + int (length c + cd_Overhead C) + uint n \<le> 2048"
    using assms(5) pad_le [OF assms(2) np] by linarith
  obtain d2 d3 hdr x eb where s: "AuthenticationWriter_seal p rnd C d c = Some (d3, Inr eb)" "ok d3" "wf_Buffer eb"
    "sc_Encode (cd_size C) d1 (word_of_nat (length c + cd_Overhead C + unat n)) = (d2, Some hdr)" "cd_Seal C d2 c = (d3, Ok x)"
    "content eb = hdr @ x @ take (unat n) rnd" "length (content eb) \<le> 2048" "hdr \<noteq> []" "length (take (unat n) rnd) = unat n"
    by (rule seal_ok [OF assms(1,2) np assms(3) len])
  have "length c + cd_Overhead C + unat n \<le> 2048"
  proof -
    have "int (length c + cd_Overhead C) + int (unat n) \<le> 2048" using len size_bytes unfolding uint_nat by linarith
    then show ?thesis by linarith
  qed
  then have "sealed C d (content eb @ stream) (c # cs)" if "sealed C d3 stream cs" for stream cs
    using sealed_more [OF assms(4) np s(4,5,9) _ that] s(6) by simp
  then show ?thesis using s by auto
qed

lemma seal_end:
  assumes "length p = 2048" and "ok d" and "65535 \<le> length rnd"
  shows "\<exists>d' eb. AuthenticationWriter_seal p rnd C d [] = Some (d', Inr eb) \<and> ok d' \<and> pooled [eb] \<and> (\<forall>rest. sealed C d (content eb @ rest) [])"
proof -
  obtain d1 n where np: "next_padding C d = (d1, n)" by fastforce
  have "uint n \<le> uint (cd_MaxPaddingLen C)" using padding_ok [OF assms(2) np] by (simp add: word_le_def)
  then have len: "sc_SizeBytes (cd_size C) + int (length ([] :: bytes) + cd_Overhead C) + uint n \<le> 2048" using fits by simp
  obtain d2 d3 hdr x eb where s: "AuthenticationWriter_seal p rnd C d [] = Some (d3, Inr eb)" "ok d3" "wf_Buffer eb"
    "sc_Encode (cd_size C) d1 (word_of_nat (length ([] :: bytes) + cd_Overhead C + unat n)) = (d2, Some hdr)" "cd_Seal C d2 [] = (d3, Ok x)"
    "content eb = hdr @ x @ take (unat n) rnd" "length (content eb) \<le> 2048" "hdr \<noteq> []" "length (take (unat n) rnd) = unat n"
    by (rule seal_ok [OF assms(1,2) np assms(3) len])
  have "sealed C d (hdr @ (x @ take (unat n) rnd) @ rest) []" for rest
    using sealed_end [OF np] s(4) by simp
  then show ?thesis using s by auto
qed

lemma payloadSize:
  shows "0 < AuthenticationWriter_payloadSize C" and "AuthenticationWriter_payloadSize C \<le> 2048"
    and "sc_SizeBytes (cd_size C) + (AuthenticationWriter_payloadSize C + int (cd_Overhead C)) +
      (case cd_NextPaddingLen C of None \<Rightarrow> 0 | Some _ \<Rightarrow> uint (cd_MaxPaddingLen C)) = 2048"
proof -
  let ?pad = "case cd_NextPaddingLen C of None \<Rightarrow> 0 | Some _ \<Rightarrow> uint (cd_MaxPaddingLen C)"
  have pad: "0 \<le> ?pad" "?pad \<le> uint (cd_MaxPaddingLen C)" by (auto split: option.split)
  have "0 < Size - int (cd_Overhead C) - sc_SizeBytes (cd_size C) - ?pad" "Size - int (cd_Overhead C) - sc_SizeBytes (cd_size C) - ?pad \<le> 2048"
    using pad fits size_bytes unfolding Size_def by - linarith+
  moreover from this have "AuthenticationWriter_payloadSize C = Size - int (cd_Overhead C) - sc_SizeBytes (cd_size C) - ?pad"
    unfolding AuthenticationWriter_payloadSize_def Let_def by (intro i32_id) simp_all
  ultimately show "0 < AuthenticationWriter_payloadSize C" "AuthenticationWriter_payloadSize C \<le> 2048"
    "sc_SizeBytes (cd_size C) + (AuthenticationWriter_payloadSize C + int (cd_Overhead C)) + ?pad = 2048"
    by (simp_all add: Size_def)
qed

abbreviation payload_max :: nat where
  "payload_max \<equiv> nat (AuthenticationWriter_payloadSize C)"

lemma stream_loop_ok:
  assumes p: "length p = 2048" and rnd: "\<And>k. 65535 \<le> length (rnd k)"
  shows "ok d \<Longrightarrow> wf_mb mb \<Longrightarrow> mb_content mb \<noteq> [] \<Longrightarrow> pooled acc \<Longrightarrow>
    \<exists>d' out cs. AuthenticationWriter_streamLoop p rnd C payload_max k d mb acc = Some (d', Inr out) \<and> ok d' \<and> pooled out \<and>
      concat cs = mb_content mb \<and> (\<exists>s. mb_content out = mb_content acc @ s \<and>
        (\<forall>stream cs'. sealed C d' stream cs' \<longrightarrow> sealed C d (s @ stream) (cs @ cs')))"
proof (induction "length (mb_content mb)" arbitrary: d mb acc k rule: less_induct)
  case less
  let ?c = "take payload_max (mb_content mb)"
  obtain rest where sp: "SplitBytes mb payload_max = Some (rest, ?c)" "wf_mb rest" "mb_content rest = drop payload_max (mb_content mb)"
    using SplitBytes_spec [OF less.prems(2)] by blast
  have c: "?c \<noteq> []" using less.prems(3) payloadSize(1) by simp
  have "int (length ?c) \<le> AuthenticationWriter_payloadSize C" using payloadSize(1) by simp
  then have "sc_SizeBytes (cd_size C) + int (length ?c + cd_Overhead C) +
      (case cd_NextPaddingLen C of None \<Rightarrow> 0 | Some _ \<Rightarrow> uint (cd_MaxPaddingLen C)) \<le> 2048"
    using payloadSize(3) unfolding of_nat_add by linarith
  then obtain d1 eb where s: "AuthenticationWriter_seal p (rnd k) C d ?c = Some (d1, Inr eb)" "ok d1" "pooled [eb]"
      "\<And>stream cs. sealed C d1 stream cs \<Longrightarrow> sealed C d (content eb @ stream) (?c # cs)"
    using seal_step [OF p less.prems(1) rnd c] by blast
  have acc: "pooled (acc @ [eb])" using less.prems(4) s(3) by simp
  have step: "AuthenticationWriter_streamLoop p rnd C payload_max k d mb acc =
      (if mb_content rest = [] then Some (d1, Inr (acc @ [eb])) else AuthenticationWriter_streamLoop p rnd C payload_max (Suc k) d1 rest (acc @ [eb]))"
    using sp(1,2) s(1) by (subst AuthenticationWriter_streamLoop.simps) (simp add: MultiBuffer_IsEmpty_content)
  show ?case
  proof (cases "mb_content rest = []")
    case True
    then have "concat [?c] = mb_content mb" using sp(3) by simp
    moreover have "\<forall>stream cs'. sealed C d1 stream cs' \<longrightarrow> sealed C d (content eb @ stream) ([?c] @ cs')" using s(4) by simp
    moreover have "mb_content (acc @ [eb]) = mb_content acc @ content eb" by simp
    ultimately show ?thesis using step True s(2) acc by (intro exI [of _ d1] exI [of _ "acc @ [eb]"] exI [of _ "[?c]"]) auto
  next
    case False
    have "length (mb_content rest) < length (mb_content mb)" using sp(3) payloadSize(1) less.prems(3) by simp
    from less.hyps [OF this s(2) sp(2) False acc, of "Suc k"] obtain d' out cs t where IH:
      "AuthenticationWriter_streamLoop p rnd C payload_max (Suc k) d1 rest (acc @ [eb]) = Some (d', Inr out)" "ok d'" "pooled out"
      "concat cs = mb_content rest" "mb_content out = mb_content (acc @ [eb]) @ t"
      "\<And>stream cs'. sealed C d' stream cs' \<Longrightarrow> sealed C d1 (t @ stream) (cs @ cs')" by blast
    have "\<forall>stream cs'. sealed C d' stream cs' \<longrightarrow> sealed C d ((content eb @ t) @ stream) ((?c # cs) @ cs')"
      using s(4) IH(6) by auto
    moreover have "concat (?c # cs) = mb_content mb" using IH(4) sp(3) by simp
    moreover have "mb_content out = mb_content acc @ content eb @ t" using IH(5) by simp
    ultimately show ?thesis using step False IH(1,2,3) by (intro exI [of _ d'] exI [of _ out] exI [of _ "?c # cs"]) auto
  qed
qed

lemma writeStream_ok:
  assumes p: "length p = 2048" and rnd: "\<And>k. 65535 \<le> length (rnd k)" and d: "ok d" and mb: "wf_mb mb" "mb_content mb \<noteq> []"
    and few: "length mb + 10 \<le> 64 * 1024 * 1024"
  shows "\<exists>d' sent cs. AuthenticationWriter_WriteMultiBuffer p rnd C TransferTypeStream collect (d, w) mb = Some ((d', w @ sent), None) \<and>
    ok d' \<and> concat cs = mb_content mb \<and> (\<forall>stream cs'. sealed C d' stream cs' \<longrightarrow> sealed C d (sent @ stream) (cs @ cs'))"
proof -
  obtain d' out cs s where l: "AuthenticationWriter_streamLoop p rnd C payload_max 0 d mb [] = Some (d', Inr out)" "ok d'" "concat cs = mb_content mb"
      "mb_content out = s" "\<And>stream cs'. sealed C d' stream cs' \<Longrightarrow> sealed C d (s @ stream) (cs @ cs')"
    using stream_loop_ok [where rnd = rnd and acc = "[]" and k = 0, OF p rnd d mb] by auto
  have "wf_Buffer (Buffer_New p)" using p by simp
  then have "\<exists>x. Buffer_Extend (Buffer_New p) (AuthenticationWriter_payloadSize C) = Some x"
    using Buffer_Extend_iff [of "Buffer_New p" "AuthenticationWriter_payloadSize C"] payloadSize(1,2) p by auto
  then have "AuthenticationWriter_writeStream p rnd C collect (d, w) mb = Some ((d', w @ s), None)"
    using l(1,4) few by (auto simp: AuthenticationWriter_writeStream_def collect_def)
  then show ?thesis
    using l(2,3,5) mb by (auto simp: AuthenticationWriter_WriteMultiBuffer_def MultiBuffer_IsEmpty_content)
qed

lemma write_end_ok:
  assumes p: "length p = 2048" and rnd: "\<And>k. 65535 \<le> length (rnd k)" and d: "ok d"
  shows "\<exists>d' sent. AuthenticationWriter_WriteMultiBuffer p rnd C t collect (d, w) [] = Some ((d', w @ sent), None) \<and>
    ok d' \<and> (\<forall>rest. sealed C d (sent @ rest) [])"
proof -
  obtain d' eb where "AuthenticationWriter_seal p (rnd 0) C d [] = Some (d', Inr eb)" "ok d'" "\<And>rest. sealed C d (content eb @ rest) []"
    using seal_end [OF p d rnd] by blast
  then show ?thesis by (auto simp: AuthenticationWriter_WriteMultiBuffer_def collect_def)
qed

end

end
