(* ===== verification/Vmess_Auth.thy ===== *)
theory Vmess_Auth
  imports Auth_Stream Go_Std
begin

text \<open>
  \<^verbatim>\<open>proxy/vmess/encoding/auth.go\<close>, the nonce generator of \<^verbatim>\<open>proxy/vmess/encoding/client.go\<close> and the size parser
  of \<^verbatim>\<open>proxy/shadowsocks2022/encoding.go\<close>: the codecs with which the proxies run the authenticated streams
  of \<open>Auth_Stream\<close>.

  The SHAKE128 stream of a \<^verbatim>\<open>ShakeSizeParser\<close> is a parameter \<open>shake\<close>: its k-th byte is \<open>shake k\<close>; the
  state of the parser is the number of bytes read.
\<close>

section \<open>The AEADs of VMess that are not ciphers\<close>

definition Authenticate :: "bytes \<Rightarrow> u32" where "Authenticate b = fnv32a b"

definition NoOpAuthenticator :: cipher_AEAD where
  "NoOpAuthenticator = \<lparr>ca_NonceSize = 0, ca_Overhead = 0, ca_Seal = (\<lambda>nonce plaintext ad. plaintext),
     ca_Open = (\<lambda>nonce ciphertext ad. Ok ciphertext)\<rparr>"

definition FnvAuthenticator_Seal :: "bytes \<Rightarrow> bytes" where
  "FnvAuthenticator_Seal plaintext = be_PutUint32 (Authenticate plaintext) @ plaintext"

text \<open>\<^verbatim>\<open>Open\<close> slices off the first four bytes: a panic when there are fewer.\<close>

definition FnvAuthenticator_Open :: "bytes \<Rightarrow> (buf_error, bytes) outcome" where
  "FnvAuthenticator_Open ciphertext =
     outcome_bind (or_panic (slice_from ciphertext 4)) (\<lambda>body.
     outcome_bind (or_panic (be_Uint32 ciphertext)) (\<lambda>h.
     if h \<noteq> Authenticate body then Fail (ReadError ''invalid authentication'') else Ok body))"

definition FnvAuthenticator :: cipher_AEAD where
  "FnvAuthenticator = \<lparr>ca_NonceSize = 0, ca_Overhead = 4, ca_Seal = (\<lambda>nonce plaintext ad. FnvAuthenticator_Seal plaintext),
     ca_Open = (\<lambda>nonce ciphertext ad. FnvAuthenticator_Open ciphertext)\<rparr>"

text \<open>\<^verbatim>\<open>md5\<close> is a parameter; its sums have sixteen bytes.\<close>

definition GenerateChacha20Poly1305Key :: "(bytes \<Rightarrow> bytes) \<Rightarrow> bytes \<Rightarrow> bytes" where
  "GenerateChacha20Poly1305Key md5 b =
     (let key = overwrite (replicate 32 0) 0 (md5 b) in overwrite key 16 (md5 (take 16 key)))"

section \<open>Size parsers\<close>

definition ShakeSizeParser_next :: "(nat \<Rightarrow> byte) \<Rightarrow> nat \<Rightarrow> nat \<times> u16" where
  "ShakeSizeParser_next shake s = (s + 2, push_bit 8 (ucast (shake s)) OR ucast (shake (s + 1)))"

definition ShakeSizeParser_Decode :: "(nat \<Rightarrow> byte) \<Rightarrow> nat \<Rightarrow> bytes \<Rightarrow> nat \<times> (buf_error, u16) outcome" where
  "ShakeSizeParser_Decode shake s b =
     (let (s, mask) = ShakeSizeParser_next shake s in (s, outcome_bind (or_panic (be_Uint16 b)) (\<lambda>n. Ok (mask XOR n))))"

definition ShakeSizeParser_Encode :: "(nat \<Rightarrow> byte) \<Rightarrow> nat \<Rightarrow> u16 \<Rightarrow> nat \<times> bytes" where
  "ShakeSizeParser_Encode shake s n = (let (s, mask) = ShakeSizeParser_next shake s in (s, be_PutUint16 (mask XOR n)))"

definition ShakeSizeParser_NextPaddingLen :: "(nat \<Rightarrow> byte) \<Rightarrow> nat \<Rightarrow> nat \<times> u16" where
  "ShakeSizeParser_NextPaddingLen shake s = (let (s, x) = ShakeSizeParser_next shake s in (s, x mod 64))"

definition ShakeSizeParser_MaxPaddingLen :: u16 where "ShakeSizeParser_MaxPaddingLen = 64"

text \<open>The size parser of Shadowsocks 2022 shares the authenticator with the payload and leaves the
  overhead to the reader.\<close>

definition ss2022_Encode :: "('g, 'h) AEADAuthenticator \<Rightarrow> u16 \<Rightarrow> ('g, 'h) AEADAuthenticator \<times> bytes option" where
  "ss2022_Encode auth n =
     (case AEADAuthenticator_Seal auth (be_PutUint16 (n - word_of_nat (ca_Overhead (au_AEAD auth)))) of
        (auth, Ok b) \<Rightarrow> (auth, Some b) | (auth, _) \<Rightarrow> (auth, None))"

definition ss2022_Decode :: "('g, 'h) AEADAuthenticator \<Rightarrow> bytes \<Rightarrow> ('g, 'h) AEADAuthenticator \<times> (buf_error, u16) outcome" where
  "ss2022_Decode auth b =
     (case AEADAuthenticator_Open auth b of (auth, r) \<Rightarrow> (auth, outcome_bind r (\<lambda>b. or_panic (be_Uint16 b))))"

definition ss2022_HasConstantOffset :: "cipher_AEAD \<Rightarrow> u16" where
  "ss2022_HasConstantOffset c = word_of_nat (ca_Overhead c)"

section \<open>The nonces of VMess\<close>

text \<open>\<^verbatim>\<open>GenerateChunkNonce\<close>: the state is the copy of the nonce and the counter.\<close>

definition GenerateChunkNonce :: "nat \<Rightarrow> (bytes \<times> u16) BytesGenerator" where
  "GenerateChunkNonce sz g =
     (let (c, count) = g in
      if length c < 2 then (g, None)
      else let c = be_PutUint16 count @ drop 2 c in ((c, count + 1), slice_to c sz))"

section \<open>Codecs\<close>

text \<open>VMess with masked sizes, with or without padding: the authenticator of the payload and the mask
  stream of sizes and padding.\<close>

definition vmess_codec :: "cipher_AEAD \<Rightarrow> (nat \<Rightarrow> byte) \<Rightarrow> bool \<Rightarrow> (('g, 'h) AEADAuthenticator \<times> nat) Codec" where
  "vmess_codec c shake padding =
     \<lparr>cd_size = \<lparr>sc_SizeBytes = 2, sc_offset = 0,
        sc_Encode = (\<lambda>(v, s) n. let (s, b) = ShakeSizeParser_Encode shake s n in ((v, s), Some b)),
        sc_Decode = (\<lambda>(v, s) b. let (s, r) = ShakeSizeParser_Decode shake s b in ((v, s), r))\<rparr>,
      cd_NextPaddingLen = (if padding then Some (\<lambda>(v, s). let (s, n) = ShakeSizeParser_NextPaddingLen shake s in ((v, s), n)) else None),
      cd_MaxPaddingLen = ShakeSizeParser_MaxPaddingLen,
      cd_Overhead = ca_Overhead c,
      cd_Open = (\<lambda>(v, s) x. let (v, r) = AEADAuthenticator_Open v x in ((v, s), r)),
      cd_Seal = (\<lambda>(v, s) x. let (v, r) = AEADAuthenticator_Seal v x in ((v, s), r))\<rparr>"

text \<open>VMess with plain sizes.\<close>

definition vmess_plain_codec :: "cipher_AEAD \<Rightarrow> ('g, 'h) AEADAuthenticator Codec" where
  "vmess_plain_codec c =
     \<lparr>cd_size = PlainChunkSizeParser, cd_NextPaddingLen = None, cd_MaxPaddingLen = 0, cd_Overhead = ca_Overhead c,
      cd_Open = AEADAuthenticator_Open, cd_Seal = AEADAuthenticator_Seal\<rparr>"

text \<open>VMess with authenticated sizes (two authenticators), and Shadowsocks 2022 (one for both).\<close>

definition vmess_authlen_codec :: "cipher_AEAD \<Rightarrow> (('g, 'h) AEADAuthenticator \<times> ('g, 'h) AEADAuthenticator) Codec" where
  "vmess_authlen_codec c =
     \<lparr>cd_size = \<lparr>sc_SizeBytes = AEADChunkSizeParser_SizeBytes c, sc_offset = 0,
        sc_Encode = (\<lambda>(v, l) n. let (l, b) = AEADChunkSizeParser_Encode l n in ((v, l), b)),
        sc_Decode = (\<lambda>(v, l) b. let (l, r) = AEADChunkSizeParser_Decode l b in ((v, l), r))\<rparr>,
      cd_NextPaddingLen = None, cd_MaxPaddingLen = 0, cd_Overhead = ca_Overhead c,
      cd_Open = (\<lambda>(v, l) x. let (v, r) = AEADAuthenticator_Open v x in ((v, l), r)),
      cd_Seal = (\<lambda>(v, l) x. let (v, r) = AEADAuthenticator_Seal v x in ((v, l), r))\<rparr>"

definition ss2022_codec :: "cipher_AEAD \<Rightarrow> ('g, 'h) AEADAuthenticator Codec" where
  "ss2022_codec c =
     \<lparr>cd_size = \<lparr>sc_SizeBytes = 2 + int (ca_Overhead c), sc_offset = ss2022_HasConstantOffset c,
        sc_Encode = ss2022_Encode, sc_Decode = ss2022_Decode\<rparr>,
      cd_NextPaddingLen = None, cd_MaxPaddingLen = 0, cd_Overhead = ca_Overhead c,
      cd_Open = AEADAuthenticator_Open, cd_Seal = AEADAuthenticator_Seal\<rparr>"

section \<open>The codecs keep their contract\<close>

interpretation noop_aead: small_aead NoOpAuthenticator
  by unfold_locales (simp_all add: NoOpAuthenticator_def)

interpretation fnv_aead: small_aead FnvAuthenticator
  by unfold_locales (simp_all add: FnvAuthenticator_def FnvAuthenticator_Seal_def FnvAuthenticator_Open_def)

context cipher_aead
begin

lemma auth_step_ex:
  assumes "good_auth c ok v"
  shows "\<exists>v' sealed. AEADAuthenticator_Seal v plain = (v', Ok sealed) \<and> AEADAuthenticator_Open v sealed = (v', Ok plain) \<and>
    length sealed = length plain + ca_Overhead c \<and> good_auth c ok v'"
  by (rule auth_step [OF assms, of plain]) blast

end

lemma mod_64_le: "(x :: u16) mod 64 \<le> 64"
proof -
  have "unat (x mod 64) = unat x mod 64" by (simp add: unat_mod)
  then show ?thesis by (simp add: word_le_nat_alt)
qed

sublocale small_aead \<subseteq> vmess: codec "vmess_codec c shake padding" "\<lambda>(v, s). good_auth c ok v" for shake padding ok
proof unfold_locales
  fix d :: "('a, 'b) AEADAuthenticator \<times> nat" and d' n m plain
  show "\<exists>d' bs. sc_Encode (cd_size (vmess_codec c shake padding)) d m = (d', Some bs) \<and>
      int (length bs) = sc_SizeBytes (cd_size (vmess_codec c shake padding)) \<and>
      sc_Decode (cd_size (vmess_codec c shake padding)) d bs = (d', Ok (m - sc_offset (cd_size (vmess_codec c shake padding)))) \<and>
      (case d' of (v, s) \<Rightarrow> good_auth c ok v)" if "case d of (v, s) \<Rightarrow> good_auth c ok v"
    using that by (auto simp: vmess_codec_def ShakeSizeParser_Encode_def ShakeSizeParser_Decode_def ShakeSizeParser_next_def
        xor.assoc [symmetric])
  show "(case d' of (v, s) \<Rightarrow> good_auth c ok v) \<and> n \<le> cd_MaxPaddingLen (vmess_codec c shake padding)"
    if "case d of (v, s) \<Rightarrow> good_auth c ok v" "next_padding (vmess_codec c shake padding) d = (d', n)"
    using that mod_64_le by (auto simp: vmess_codec_def next_padding_def ShakeSizeParser_NextPaddingLen_def ShakeSizeParser_next_def
        ShakeSizeParser_MaxPaddingLen_def split: if_splits)
  show "\<exists>d' x. cd_Seal (vmess_codec c shake padding) d plain = (d', Ok x) \<and> cd_Open (vmess_codec c shake padding) d x = (d', Ok plain) \<and>
      length x = length plain + cd_Overhead (vmess_codec c shake padding) \<and> (case d' of (v, s) \<Rightarrow> good_auth c ok v)"
    if g: "case d of (v, s) \<Rightarrow> good_auth c ok v"
  proof -
    obtain v s where d: "d = (v, s)" "good_auth c ok v" using g by (cases d) auto
    then show ?thesis using auth_step_ex [OF d(2), of plain] by (auto simp: vmess_codec_def)
  qed
qed (use small in \<open>simp_all add: vmess_codec_def ShakeSizeParser_MaxPaddingLen_def\<close>)

sublocale small_aead \<subseteq> plain_vmess: codec "vmess_plain_codec c" "good_auth c ok" for ok
proof unfold_locales
  fix d :: "('a, 'b) AEADAuthenticator" and plain
  show "\<exists>d' x. cd_Seal (vmess_plain_codec c) d plain = (d', Ok x) \<and> cd_Open (vmess_plain_codec c) d x = (d', Ok plain) \<and>
      length x = length plain + cd_Overhead (vmess_plain_codec c) \<and> good_auth c ok d'" if "good_auth c ok d"
    using auth_step_ex [OF that, of plain] by (auto simp: vmess_plain_codec_def)
qed (use small in \<open>auto simp: vmess_plain_codec_def PlainChunkSizeParser_def PlainChunkSizeParser_SizeBytes_def
    PlainChunkSizeParser_Encode_def PlainChunkSizeParser_Decode_def next_padding_def\<close>)

sublocale small_aead \<subseteq> ss2022: codec "ss2022_codec c" "good_auth c ok" for ok
proof unfold_locales
  fix d :: "('a, 'b) AEADAuthenticator" and n plain
  assume ok: "good_auth c ok d"
  have d: "au_AEAD d = c" using ok by (simp add: good_auth_def)
  show "\<exists>d' bs. sc_Encode (cd_size (ss2022_codec c)) d n = (d', Some bs) \<and> int (length bs) = sc_SizeBytes (cd_size (ss2022_codec c)) \<and>
      sc_Decode (cd_size (ss2022_codec c)) d bs = (d', Ok (n - sc_offset (cd_size (ss2022_codec c)))) \<and> good_auth c ok d'"
    using auth_step_ex [OF ok, of "be_PutUint16 (n - word_of_nat (ca_Overhead c))"] d
    by (auto simp: ss2022_codec_def ss2022_Encode_def ss2022_Decode_def ss2022_HasConstantOffset_def)
  show "\<exists>d' x. cd_Seal (ss2022_codec c) d plain = (d', Ok x) \<and> cd_Open (ss2022_codec c) d x = (d', Ok plain) \<and>
      length x = length plain + cd_Overhead (ss2022_codec c) \<and> good_auth c ok d'"
    using auth_step_ex [OF ok, of plain] by (auto simp: ss2022_codec_def)
qed (use small in \<open>auto simp: ss2022_codec_def ss2022_HasConstantOffset_def next_padding_def\<close>)

sublocale small_aead \<subseteq> authlen: codec "vmess_authlen_codec c" "\<lambda>(v, l). good_auth c ok v \<and> good_auth c ok l" for ok
proof unfold_locales
  fix d :: "('a, 'b) AEADAuthenticator \<times> ('a, 'b) AEADAuthenticator" and n plain
  assume "case d of (v, l) \<Rightarrow> good_auth c ok v \<and> good_auth c ok l"
  then obtain v l where d: "d = (v, l)" "good_auth c ok v" "good_auth c ok l" by (cases d) auto
  show "\<exists>d' bs. sc_Encode (cd_size (vmess_authlen_codec c)) d n = (d', Some bs) \<and> int (length bs) = sc_SizeBytes (cd_size (vmess_authlen_codec c)) \<and>
      sc_Decode (cd_size (vmess_authlen_codec c)) d bs = (d', Ok (n - sc_offset (cd_size (vmess_authlen_codec c)))) \<and>
      (case d' of (v, l) \<Rightarrow> good_auth c ok v \<and> good_auth c ok l)"
    using aead_size.enc_dec [OF d(3), of n] d by (auto simp: vmess_authlen_codec_def AEADChunkSizeParser_def)
  show "\<exists>d' x. cd_Seal (vmess_authlen_codec c) d plain = (d', Ok x) \<and> cd_Open (vmess_authlen_codec c) d x = (d', Ok plain) \<and>
      length x = length plain + cd_Overhead (vmess_authlen_codec c) \<and> (case d' of (v, l) \<Rightarrow> good_auth c ok v \<and> good_auth c ok l)"
    using auth_step_ex [OF d(2), of plain] d by (auto simp: vmess_authlen_codec_def)
qed (use small in \<open>auto simp: vmess_authlen_codec_def AEADChunkSizeParser_SizeBytes_def next_padding_def\<close>)

section \<open>Properties\<close>

text \<open>C5. Authenticated streams: what the writer sends for a multi-buffer and the end of the stream, a
  reader whose codec is in the same state turns back into exactly these bytes and the end, however
  the byte reader below cuts the stream; none of it panics. The codec may mask sizes, pad chunks and
  share its nonces between sizes and payloads.\<close>

theorem auth_stream_roundtrip:
  assumes "io_source rd rep" and "codec C ok" and "length p = 2048" and "\<And>k. 65535 \<le> length (rnd k)"
    and "ok d" and "wf_mb mb" and "mb_content mb \<noteq> []" and "length (mb_content mb) < 2 ^ 31"
    and "length mb + 10 \<le> 64 * 1024 * 1024"
  shows "\<exists>d1 d2 sent sent'. AuthenticationWriter_WriteMultiBuffer p rnd C TransferTypeStream collect (d, []) mb = Some ((d1, sent), None) \<and>
     AuthenticationWriter_WriteMultiBuffer p rnd C TransferTypeStream collect (d1, sent) [] = Some ((d2, sent'), None) \<and>
     (\<forall>s rest. rep s (sent' @ rest) \<longrightarrow>
        (\<exists>r'. Copy (AuthenticationReader_ReadMultiBuffer p C (SingleReader_ReadMultiBuffer p rd)) collect [CountSize]
          (NewAuthenticationReader d \<lparr>br_Reader = s, br_Buffer = [], br_Spliter = None\<rparr>) [] 0 =
          Some (r', mb_content mb, int (length (mb_content mb)), None)))"
proof -
  obtain d1 s1 cs where w1: "AuthenticationWriter_WriteMultiBuffer p rnd C TransferTypeStream collect (d, []) mb = Some ((d1, s1), None)"
      "ok d1" "concat cs = mb_content mb" "\<And>stream cs'. sealed C d1 stream cs' \<Longrightarrow> sealed C d (s1 @ stream) (cs @ cs')"
    using codec.writeStream_ok [where rnd = rnd and w = "[]", OF assms(2,3,4,5,6,7,9)] by auto
  obtain d2 s2 where w2: "AuthenticationWriter_WriteMultiBuffer p rnd C TransferTypeStream collect (d1, s1) [] = Some ((d2, s1 @ s2), None)"
      "\<And>rest. sealed C d1 (s2 @ rest) []"
    using codec.write_end_ok [where rnd = rnd and w = s1 and t = TransferTypeStream, OF assms(2,3,4) w1(2)] by blast
  have src: "mb_source (SingleReader_ReadMultiBuffer p rd) rep"
    using assms(1,3) by (intro single_source.single_mb_source single_source.intro single_source_axioms.intro)
  have ar: "auth_reader (SingleReader_ReadMultiBuffer p rd) rep C ok p"
    using src assms(2,3) by (intro auth_reader.intro buffered_source.intro auth_reader_axioms.intro)
  have copy: "\<exists>r'. Copy (AuthenticationReader_ReadMultiBuffer p C (SingleReader_ReadMultiBuffer p rd)) collect [CountSize]
          (NewAuthenticationReader d \<lparr>br_Reader = s, br_Buffer = [], br_Spliter = None\<rparr>) [] 0 =
          Some (r', mb_content mb, int (length (mb_content mb)), None)" if rp: "rep s ((s1 @ s2) @ rest)" for s rest
  proof -
    let ?r = "NewAuthenticationReader d \<lparr>br_Reader = s, br_Buffer = [], br_Spliter = None\<rparr>"
    have "br_rep rep \<lparr>br_Reader = s, br_Buffer = [], br_Spliter = None\<rparr> ((s1 @ s2) @ rest)" using rp by (simp add: br_rep_def)
    moreover have "sealed C d ((s1 @ s2) @ rest) cs" using w1(4) [OF w2(2), of rest] by simp
    ultimately have "ar_rep C ok rep ?r cs" using assms(5) by (auto simp: ar_rep_def NewAuthenticationReader_def)
    then have "\<exists>cs. ar_rep C ok rep ?r cs \<and> mb_content mb = concat cs" using w1(3) by metis
    then show ?thesis
      using mb_source.copy_all [OF auth_reader.auth_source [OF ar], of collect "\<lambda>w. w" "mb_content mb" ?r "[]" 0] assms(8) w1(3)
      by (auto simp: collect_def)
  qed
  show ?thesis using w1(1) w2(1) copy by blast
qed

text \<open>An authenticator that needs no nonce, and the mask stream of zeros.\<close>

definition fnv_auth :: "(unit, unit) AEADAuthenticator" where
  "fnv_auth = \<lparr>au_AEAD = FnvAuthenticator, au_NonceGenerator = GenerateEmptyBytes, au_nonce = (),
     au_AdditionalDataGenerator = Some GenerateEmptyBytes, au_ad = ()\<rparr>"

lemma fnv_auth_good: "good_auth FnvAuthenticator (\<lambda>_. True) fnv_auth"
  by (simp add: good_auth_def fnv_auth_def GenerateEmptyBytes_def FnvAuthenticator_def)

theorem auth_stream_roundtrip_witness:
  "\<exists>d1 d2 sent sent'. AuthenticationWriter_WriteMultiBuffer (fresh_pool 0) (\<lambda>_. replicate 65535 0) (vmess_codec FnvAuthenticator word_of_nat True) TransferTypeStream
      collect ((fnv_auth, 0), []) [filled 0 5] = Some ((d1, sent), None) \<and>
     AuthenticationWriter_WriteMultiBuffer (fresh_pool 0) (\<lambda>_. replicate 65535 0) (vmess_codec FnvAuthenticator word_of_nat True) TransferTypeStream
      collect (d1, sent) [] = Some ((d2, sent'), None) \<and>
     (\<forall>s rest. wf_mb s \<and> mb_content s = sent' @ rest \<longrightarrow>
        (\<exists>r'. Copy (AuthenticationReader_ReadMultiBuffer (fresh_pool 0) (vmess_codec FnvAuthenticator word_of_nat True)
            (SingleReader_ReadMultiBuffer (fresh_pool 0) Container_reader)) collect [CountSize]
          (NewAuthenticationReader (fnv_auth, 0) \<lparr>br_Reader = s, br_Buffer = [], br_Spliter = None\<rparr>) [] 0 =
          Some (r', mb_content [filled 0 5], int (length (mb_content [filled 0 5])), None)))"
  by (rule auth_stream_roundtrip [OF contr.io_source_axioms fnv_aead.vmess.codec_axioms [where ok = "\<lambda>_. True"]])
    (simp_all add: filled_facts fnv_auth_good)

lemma uint_pos: "(n :: u16) \<noteq> 0 \<Longrightarrow> 0 < uint n"
  by (simp add: word_neq_0_conv word_less_def)

text \<open>A chunk whose masked size field decodes to zero while the padding generator says a positive
  length makes the reader slice its buffer up to a negative index: the reader panics, before any
  authentication, whatever the cipher and the rest of the stream.\<close>

theorem zero_size_panics:
  fixes v :: "('g, 'h) AEADAuthenticator"
  assumes "io_source rd rep" and "length p = 2048"
    and "rep s (be_PutUint16 (snd (ShakeSizeParser_next shake (k + 2))) @ rest)"
    and "snd (ShakeSizeParser_NextPaddingLen shake k) \<noteq> 0" and "ca_Overhead c \<le> 1000"
  shows "AuthenticationReader_ReadMultiBuffer p (vmess_codec c shake True) (SingleReader_ReadMultiBuffer p rd)
     (NewAuthenticationReader (v, k) \<lparr>br_Reader = s, br_Buffer = [], br_Spliter = None\<rparr>) = None"
proof -
  let ?rd = "SingleReader_ReadMultiBuffer p rd" and ?C = "vmess_codec c shake True :: (('g, 'h) AEADAuthenticator \<times> nat) Codec"
  let ?br = "\<lparr>br_Reader = s, br_Buffer = [], br_Spliter = None\<rparr>"
  let ?mask = "snd (ShakeSizeParser_next shake (k + 2))" and ?n = "snd (ShakeSizeParser_NextPaddingLen shake k)"
  have "mb_source ?rd rep"
    using assms(1,2) by (intro single_source.single_mb_source single_source.intro single_source_axioms.intro)
  then have src: "io_source (BufferedReader_Read ?rd) (br_rep rep)"
    by (intro buffered_source.bufbytes_io_source buffered_source.intro)
  have "br_rep rep ?br (be_PutUint16 ?mask @ rest)" using assms(3) by (simp add: br_rep_def)
  from io_source.io_ReadFull_ok [OF src this, of "[]"]
  obtain reader where rf: "io_ReadFull_from (BufferedReader_Read ?rd) ?br 2 [] = Some (reader, be_PutUint16 ?mask, None)"
      "br_rep rep reader ([] @ rest)"
    by (auto simp: numeral_2_eq_2)
  have n: "0 < uint ?n" "uint ?n < 64"
  proof -
    show "0 < uint ?n" using assms(4) by (rule uint_pos)
    show "uint ?n < 64" by (simp add: ShakeSizeParser_NextPaddingLen_def ShakeSizeParser_next_def uint_mod)
  qed
  have "uint (word_of_nat (ca_Overhead c) :: u16) = int (ca_Overhead c)"
    using assms(5) by (simp add: unsigned_of_nat take_bit_nat_eq_self)
  then have "uint (word_of_nat (ca_Overhead c) + ?n) = int (ca_Overhead c) + uint ?n"
    using assms(5) n by (simp only: uint_word_ariths(1)) simp
  then have ne: "0 \<noteq> word_of_nat (ca_Overhead c) + ?n" using n by (metis add_nonneg_pos less_irrefl of_nat_0_le_iff unsigned_0)
  have i: "i32 (- uint ?n) = - uint ?n" using n by (intro i32_id) auto
  have sz: "AuthenticationReader_readSize ?C ?rd (NewAuthenticationReader (v, k) ?br) =
      Some ((NewAuthenticationReader (v, k) ?br)\<lparr>ar_reader := reader, ar_codec := (v, k + 4)\<rparr>, Inr (0, ?n))"
    using rf(1) by (simp add: AuthenticationReader_readSize_def NewAuthenticationReader_def vmess_codec_def next_padding_def
        ShakeSizeParser_NextPaddingLen_def ShakeSizeParser_Decode_def ShakeSizeParser_next_def split_beta)
  obtain reader' b where b: "buffer_read_full (BufferedReader_Read ?rd) reader (Buffer_New p) 0 = Some (reader', b, None)"
      "wf_Buffer b" "content b = []" "buf_start b = 0"
    by (rule io_source.buffer_read_full_ok [OF src _ _ rf(2), of "Buffer_New p"]) (use assms(2) in \<open>simp_all add: Buffer_New_def wf_Buffer_def content_def\<close>)
  have "Buffer_BytesTo b (- uint ?n) = None"
    using n i b(2-4) length_content [OF b(2)] by (simp add: Buffer_BytesTo_def Buffer_Len_content slice_of_def Let_def)
  then have "AuthenticationReader_readBuffer p ?C ?rd ((NewAuthenticationReader (v, k) ?br)\<lparr>ar_reader := reader, ar_codec := (v, k + 4)\<rparr>) 0 (uint ?n) = None"
    using i b(1) by (simp add: AuthenticationReader_readBuffer_def)
  moreover have "sc_offset (cd_size ?C) = 0" "cd_Overhead ?C = ca_Overhead c" by (simp_all add: vmess_codec_def)
  ultimately show ?thesis using sz ne
    by (simp add: AuthenticationReader_ReadMultiBuffer_def AuthenticationReader_readInternal_def AuthenticationReader_readChunk_def
        NewAuthenticationReader_def Size_def)
qed

text \<open>A mask stream of ones.\<close>

lemma five_ones: "replicate 5 (1 :: byte) = [1, 1, 1, 1, 1]"
  by (simp add: numeral_eq_Suc)

lemma ones_mask: "be_PutUint16 (snd (ShakeSizeParser_next (\<lambda>_. 1) k)) = [1, 1]"
  by (simp add: ShakeSizeParser_next_def be_PutUint16_def)

lemma ones_padding: "snd (ShakeSizeParser_NextPaddingLen (\<lambda>_. 1) k) = 1"
  by (simp add: ShakeSizeParser_NextPaddingLen_def ShakeSizeParser_next_def)

theorem zero_size_panics_witness:
  "AuthenticationReader_ReadMultiBuffer (fresh_pool 0) (vmess_codec FnvAuthenticator (\<lambda>_. 1) True)
     (SingleReader_ReadMultiBuffer (fresh_pool 0) Container_reader)
     (NewAuthenticationReader (fnv_auth, 0) \<lparr>br_Reader = [filled 0 5], br_Buffer = [], br_Spliter = None\<rparr>) = None"
  by (rule zero_size_panics [OF contr.io_source_axioms, where rest = "[1, 1, 1]"])
    (simp_all add: filled_facts five_ones ones_mask ones_padding FnvAuthenticator_def)

lemma be_PutUint16_inject: "be_PutUint16 x = be_PutUint16 y \<longleftrightarrow> x = y"
  by (metis be_Uint16_Put_self option.inject)

lemma word_of_nat_16_eq: "(word_of_nat i :: u16) = word_of_nat j \<longleftrightarrow> i mod 65536 = j mod 65536"
  by (simp add: word_of_nat_eq_iff take_bit_eq_mod)

lemma generated_chunk_nonce:
  "2 \<le> sz \<Longrightarrow> sz \<le> length nonce \<Longrightarrow>
   generated (GenerateChunkNonce sz) (nonce, n) k = Some (be_PutUint16 (n + word_of_nat k) @ take (sz - 2) (drop 2 nonce))"
  by (induction k arbitrary: nonce n) (simp_all add: GenerateChunkNonce_def slice_to_def Let_def add.assoc)

text \<open>The nonces of VMess chunks: the k-th nonce is the request nonce with its first two bytes replaced
  by the counter, so two chunks of one direction have the same nonce exactly if their numbers agree
  modulo 65536; after 65536 chunks the nonces repeat under the same key.\<close>

theorem chunk_nonce_period:
  assumes "2 \<le> sz" and "sz \<le> length nonce"
  shows "generated (GenerateChunkNonce sz) (nonce, 0) i = generated (GenerateChunkNonce sz) (nonce, 0) j \<longleftrightarrow> i mod 65536 = j mod 65536"
proof -
  have "generated (GenerateChunkNonce sz) (nonce, 0) k = Some (be_PutUint16 (word_of_nat k) @ take (sz - 2) (drop 2 nonce))" for k
    using generated_chunk_nonce [of sz nonce 0 k] assms by simp
  moreover have "be_PutUint16 (word_of_nat i) = be_PutUint16 (word_of_nat j) \<longleftrightarrow> i mod 65536 = j mod 65536"
    by (metis be_PutUint16_inject word_of_nat_16_eq)
  ultimately show ?thesis by simp
qed

theorem chunk_nonce_period_witness:
  "generated (GenerateChunkNonce 12) (replicate 16 7, 0) 3 = generated (GenerateChunkNonce 12) (replicate 16 7, 0) 65539 \<longleftrightarrow>
     3 mod 65536 = (65539 :: nat) mod 65536"
  by (rule chunk_nonce_period) simp_all

text \<open>A packet too large for one buffer is left out of the stream by the packet writer, but its padding
  length has been drawn from the mask stream that also hides the sizes: nothing is sent and the
  state of the writer's codec moves on by two bytes, while the reader's does not.\<close>

theorem oversize_packet_desynchronises:
  fixes v :: "('g, 'h) AEADAuthenticator"
  assumes "wf_Buffer b" and "2046 < length (content b) + ca_Overhead c" and "length (content b) + ca_Overhead c < 65536" and "content b \<noteq> []"
  shows "AuthenticationWriter_WriteMultiBuffer p rnd (vmess_codec c shake True) TransferTypePacket collect ((v, k), w) [b] =
     Some (((v, k + 2), w), None)"
proof -
  have b: "Buffer_Bytes b = Some (content b)" "\<not> Buffer_IsEmpty (Some b)"
    using assms by (simp_all add: Buffer_Bytes_content Buffer_IsEmpty_content)
  let ?n = "snd (ShakeSizeParser_NextPaddingLen shake k)" and ?C = "vmess_codec c shake True :: (('g, 'h) AEADAuthenticator \<times> nat) Codec"
  have n: "uint ?n < 65536" "0 \<le> uint ?n" using unsigned_less [of ?n] by simp_all
  have "i32 (int (length (content b) + ca_Overhead c)) = int (length (content b) + ca_Overhead c)"
    using assms(3) by (intro i32_id) auto
  moreover have "i32 (2 + int (length (content b) + ca_Overhead c) + uint ?n) = 2 + int (length (content b) + ca_Overhead c) + uint ?n"
    using assms(3) n by (intro i32_id) auto
  moreover have "next_padding ?C (v, k) = ((v, k + 2), ?n)" "cd_Overhead ?C = ca_Overhead c"
    "sc_SizeBytes (cd_size ?C) = 2"
    by (simp_all add: vmess_codec_def next_padding_def ShakeSizeParser_NextPaddingLen_def ShakeSizeParser_next_def)
  moreover have "2048 < 2 + int (length (content b) + ca_Overhead c) + uint ?n" using assms(2) n by linarith
  ultimately have "AuthenticationWriter_seal p (rnd 0) ?C (v, k) (content b) = Some ((v, k + 2), Inl sealError)"
    by (simp add: AuthenticationWriter_seal_def Let_def Size_def)
  then show ?thesis using b assms
    by (simp add: AuthenticationWriter_WriteMultiBuffer_def AuthenticationWriter_writePacket_def MultiBuffer_IsEmpty_content)
qed

theorem oversize_packet_desynchronises_witness:
  "AuthenticationWriter_WriteMultiBuffer (fresh_pool 0) (\<lambda>_. []) (vmess_codec FnvAuthenticator word_of_nat True) TransferTypePacket collect ((fnv_auth, 0), []) [filled 0 2045] =
     Some (((fnv_auth, 0 + 2), []), None)"
  by (rule oversize_packet_desynchronises) (simp_all add: filled_facts FnvAuthenticator_def)

text \<open>The checksum authenticator panics on every chunk shorter than its checksum.\<close>

theorem fnv_open_total: "FnvAuthenticator_Open x = Panic \<longleftrightarrow> length x < 4"
  using be_Uint32_defined [of x] by (cases "length x < 4") (auto simp: FnvAuthenticator_Open_def slice_from_def split: if_splits)

end
