(* ===== verification/Net.thy ===== *)
theory Net
  imports Go_Std
begin

text \<open>
  \<^verbatim>\<open>common/net\<close>: addresses (\<^verbatim>\<open>address.go\<close>), ports (\<^verbatim>\<open>port.go\<close>), networks (\<^verbatim>\<open>network.go\<close>) and destinations
  (\<^verbatim>\<open>destination.go\<close>). An \<^verbatim>\<open>Address\<close> that may be nil is an option.
\<close>

section \<open>Addresses\<close>

type_synonym AddressFamily = byte

definition AddressFamilyIPv4 :: AddressFamily where "AddressFamilyIPv4 = 0"
definition AddressFamilyIPv6 :: AddressFamily where "AddressFamilyIPv6 = 1"
definition AddressFamilyDomain :: AddressFamily where "AddressFamilyDomain = 2"

lemmas family_defs = AddressFamilyIPv4_def AddressFamilyIPv6_def AddressFamilyDomain_def

definition IsIPv4 :: "AddressFamily \<Rightarrow> bool" where "IsIPv4 af \<longleftrightarrow> af = AddressFamilyIPv4"

definition IsIPv6 :: "AddressFamily \<Rightarrow> bool" where "IsIPv6 af \<longleftrightarrow> af = AddressFamilyIPv6"

definition IsIP :: "AddressFamily \<Rightarrow> bool" where
  "IsIP af \<longleftrightarrow> af = AddressFamilyIPv4 \<or> af = AddressFamilyIPv6"

definition IsDomain :: "AddressFamily \<Rightarrow> bool" where "IsDomain af \<longleftrightarrow> af = AddressFamilyDomain"

datatype Address = ipv4Address bytes | ipv6Address bytes | domainAddress bytes

fun Address_Family :: "Address \<Rightarrow> AddressFamily" where
  "Address_Family (ipv4Address _) = AddressFamilyIPv4"
| "Address_Family (ipv6Address _) = AddressFamilyIPv6"
| "Address_Family (domainAddress _) = AddressFamilyDomain"

text \<open>\<open>None\<close>: the explicit panics.\<close>

fun Address_IP :: "Address \<Rightarrow> bytes option" where
  "Address_IP (ipv4Address ip) = Some ip"
| "Address_IP (ipv6Address ip) = Some ip"
| "Address_IP (domainAddress _) = None"

fun Address_Domain :: "Address \<Rightarrow> bytes option" where
  "Address_Domain (domainAddress d) = Some d"
| "Address_Domain _ = None"

definition isAlphaNum :: "byte \<Rightarrow> bool" where
  "isAlphaNum c \<longleftrightarrow> (48 \<le> c \<and> c \<le> 57) \<or> (97 \<le> c \<and> c \<le> 122) \<or> (65 \<le> c \<and> c \<le> 90)"

definition bytes0 :: bytes where "bytes0 = replicate 10 0"

definition IPAddress :: "bytes \<Rightarrow> Address option" where
  "IPAddress ip =
     (if length ip = 4 then Some (ipv4Address ip)
      else if length ip = 16 then
        (if take 10 ip = bytes0 \<and> ip ! 10 = 0xff \<and> ip ! 11 = 0xff then Some (ipv4Address (take 4 (drop 12 ip)))
         else Some (ipv6Address ip))
      else None)"

definition DomainAddress :: "bytes \<Rightarrow> Address" where
  "DomainAddress domain = domainAddress domain"

definition AnyIP :: Address where "AnyIP = ipv4Address [0, 0, 0, 0]"

definition ParseAddress :: "bytes \<Rightarrow> Address option" where
  "ParseAddress addr =
     (let lenAddr = length addr;
          bracketed = (lenAddr > 0 \<and> addr ! 0 = 91 \<and> addr ! (lenAddr - 1) = 93);
          addr' = (if bracketed then slice_of addr 1 (int lenAddr - 1) else Some addr);
          lenAddr = (if bracketed then int lenAddr - 2 else int lenAddr)
      in case addr' of
           None \<Rightarrow> None
         | Some addr \<Rightarrow>
             let addr = (if lenAddr > 0 \<and> (\<not> isAlphaNum (addr ! 0) \<or> \<not> isAlphaNum (addr ! (length addr - 1)))
                         then TrimSpace addr else addr)
             in case ParseIP addr of
                  Some ip \<Rightarrow> IPAddress ip
                | None \<Rightarrow> Some (DomainAddress addr))"

datatype IPOrDomain = IPOrDomain_Ip bytes | IPOrDomain_Domain bytes

fun AsAddress :: "IPOrDomain \<Rightarrow> Address option" where
  "AsAddress (IPOrDomain_Ip ip) = IPAddress ip"
| "AsAddress (IPOrDomain_Domain d) = Some (DomainAddress d)"

definition NewIPOrDomain :: "Address \<Rightarrow> IPOrDomain option" where
  "NewIPOrDomain addr =
     (if Address_Family addr = AddressFamilyDomain then map_option IPOrDomain_Domain (Address_Domain addr)
      else if Address_Family addr = AddressFamilyIPv4 \<or> Address_Family addr = AddressFamilyIPv6
      then map_option IPOrDomain_Ip (Address_IP addr)
      else None)"

section \<open>Ports\<close>

type_synonym Port = u16

definition PortFromBytes :: "bytes \<Rightarrow> Port option" where
  "PortFromBytes port = be_Uint16 port"

definition PortFromInt :: "u32 \<Rightarrow> Port option" where
  "PortFromInt val = (if val > 65535 then None else Some (ucast val))"

definition PortFromString :: "bytes \<Rightarrow> Port option" where
  "PortFromString s = (case ParseUint32 s of None \<Rightarrow> None | Some val \<Rightarrow> PortFromInt val)"

definition Port_Value :: "Port \<Rightarrow> u16" where "Port_Value p = p"

definition Port_String :: "Port \<Rightarrow> bytes" where "Port_String p = Itoa (unat p)"

record PortRange =
  pr_From :: u32
  pr_To :: u32

definition FromPort :: "PortRange \<Rightarrow> Port" where "FromPort p = ucast (pr_From p)"

definition ToPort :: "PortRange \<Rightarrow> Port" where "ToPort p = ucast (pr_To p)"

definition PortRange_Contains :: "PortRange \<Rightarrow> Port \<Rightarrow> bool" where
  "PortRange_Contains p port \<longleftrightarrow> FromPort p \<le> port \<and> port \<le> ToPort p"

definition SinglePortRange :: "Port \<Rightarrow> PortRange" where
  "SinglePortRange p = \<lparr>pr_From = ucast p, pr_To = ucast p\<rparr>"

record MemoryPortRange =
  mpr_From :: Port
  mpr_To :: Port

definition MemoryPortRange_Contains :: "MemoryPortRange \<Rightarrow> Port \<Rightarrow> bool" where
  "MemoryPortRange_Contains r port \<longleftrightarrow> mpr_From r \<le> port \<and> port \<le> mpr_To r"

definition PortListFromProto :: "PortRange list \<Rightarrow> MemoryPortRange list" where
  "PortListFromProto l = map (\<lambda>r. \<lparr>mpr_From = ucast (pr_From r), mpr_To = ucast (pr_To r)\<rparr>) l"

fun MemoryPortList_Contains :: "MemoryPortRange list \<Rightarrow> Port \<Rightarrow> bool" where
  "MemoryPortList_Contains [] port = False"
| "MemoryPortList_Contains (pr # mpl) port =
     (if MemoryPortRange_Contains pr port then True else MemoryPortList_Contains mpl port)"

section \<open>Networks and destinations\<close>

datatype Network = Network_Unknown | Network_TCP | Network_UDP | Network_UNIX

fun HasNetwork :: "Network list \<Rightarrow> Network \<Rightarrow> bool" where
  "HasNetwork [] network = False"
| "HasNetwork (value # list) network = (if value = network then True else HasNetwork list network)"

fun SystemString :: "Network \<Rightarrow> bytes" where
  "SystemString Network_TCP = str ''tcp''"
| "SystemString Network_UDP = str ''udp''"
| "SystemString Network_UNIX = str ''unix''"
| "SystemString Network_Unknown = str ''unknown''"

record Destination =
  dest_Address :: "Address option"
  dest_Port :: Port
  dest_Network :: Network

definition TCPDestination :: "Address option \<Rightarrow> Port \<Rightarrow> Destination" where
  "TCPDestination address port = \<lparr>dest_Address = address, dest_Port = port, dest_Network = Network_TCP\<rparr>"

definition UDPDestination :: "Address option \<Rightarrow> Port \<Rightarrow> Destination" where
  "UDPDestination address port = \<lparr>dest_Address = address, dest_Port = port, dest_Network = Network_UDP\<rparr>"

definition UnixDestination :: "Address option \<Rightarrow> Destination" where
  "UnixDestination address = \<lparr>dest_Address = address, dest_Port = 0, dest_Network = Network_UNIX\<rparr>"

datatype net_Addr = TCPAddr bytes int | UDPAddr bytes int | UnixAddr bytes

fun DestinationFromAddr :: "net_Addr \<Rightarrow> Destination" where
  "DestinationFromAddr (TCPAddr ip port) = TCPDestination (IPAddress ip) (word_of_int port)"
| "DestinationFromAddr (UDPAddr ip port) = UDPDestination (IPAddress ip) (word_of_int port)"
| "DestinationFromAddr (UnixAddr name) = UnixDestination (Some (DomainAddress name))"

definition Destination_IsValid :: "Destination \<Rightarrow> bool" where
  "Destination_IsValid d \<longleftrightarrow> dest_Network d \<noteq> Network_Unknown"

section \<open>Canonical addresses\<close>

text \<open>The addresses the constructors build: an IPv4-mapped IPv6 address is an IPv4 address.\<close>

fun canonical :: "Address \<Rightarrow> bool" where
  "canonical (ipv4Address ip) = (length ip = 4)"
| "canonical (ipv6Address ip) = (length ip = 16 \<and> \<not> (take 10 ip = bytes0 \<and> ip ! 10 = 0xff \<and> ip ! 11 = 0xff))"
| "canonical (domainAddress d) = True"

lemma IPAddress_canonical: "IPAddress ip = Some a \<Longrightarrow> canonical a \<and> IsIP (Address_Family a)"
  by (auto simp: IPAddress_def IsIP_def split: if_splits)

lemma IPAddress_16: "length ip = 16 \<Longrightarrow> \<exists>a. IPAddress ip = Some a"
  by (simp add: IPAddress_def)

lemma IPAddress_IP: "canonical a \<Longrightarrow> Address_IP a = Some ip \<Longrightarrow> IPAddress ip = Some a"
  by (cases a) (auto simp: IPAddress_def)

lemma ParseAddress_finish:
  "\<exists>a. (case ParseIP s of Some ip \<Rightarrow> IPAddress ip | None \<Rightarrow> Some (DomainAddress s)) = Some a \<and> canonical a"
  using ParseIP_length [of s] IPAddress_16 IPAddress_canonical
  by (cases "ParseIP s") (fastforce simp: DomainAddress_def)+

lemma ParseAddress_canonical: "\<exists>a. ParseAddress addr = Some a \<and> canonical a"
proof -
  have "slice_of addr 1 (int (length addr) - 1) \<noteq> None" if "length addr > 0" "addr ! 0 = 91" "addr ! (length addr - 1) = 93"
  proof -
    have "length addr \<noteq> 1" using that by (cases addr) auto
    then have "2 \<le> length addr" using that(1) by linarith
    then show ?thesis by (simp add: slice_of_def)
  qed
  then show ?thesis
    using ParseAddress_finish unfolding ParseAddress_def Let_def by (auto split: option.splits)
qed

text \<open>Parsing an address never panics and never yields a nil address: brackets and spaces are
  handled without leaving the string, and the result is a domain or a canonical IP address
  (an IPv4-mapped IPv6 address becomes IPv4).\<close>

theorem ParseAddress_total: "\<exists>a. ParseAddress addr = Some a \<and> canonical a"
  by (rule ParseAddress_canonical)

lemma NewIPOrDomain_AsAddress: "canonical a \<Longrightarrow> \<exists>d. NewIPOrDomain a = Some d \<and> AsAddress d = Some a"
  by (cases a) (auto simp: NewIPOrDomain_def family_defs IPAddress_def DomainAddress_def)

text \<open>Ports survive printing and parsing, an integer is accepted as a port exactly when it is
  at most 65535, and membership in a port list is membership in one of its ranges.\<close>

theorem port_roundtrip:
  "PortFromString (Port_String p) = Some p \<and> (PortFromInt v \<noteq> None \<longleftrightarrow> unat v \<le> 65535) \<and>
   (MemoryPortList_Contains (PortListFromProto l) p \<longleftrightarrow> (\<exists>r \<in> set l. PortRange_Contains r p))"
proof -
  have p: "unat p < 65536" by (rule order_less_le_trans [OF unsigned_less]) simp
  have u: "unat (word_of_nat (unat p) :: u32) = unat p"
    by (rule word_of_nat_u16_u32(2)) (use p in simp)
  have "ParseUint32 (Itoa (unat p)) = Some (word_of_nat (unat p))" using p by (intro ParseUint32_Itoa) simp
  moreover have "\<not> (word_of_nat (unat p) :: u32) > 65535" using u p by (simp only: word_less_nat_alt) simp
  moreover have "(ucast (word_of_nat (unat p) :: u32) :: u16) = p"
    by (rule bit_word_eqI) (auto simp: bit_simps)
  ultimately have "PortFromString (Port_String p) = Some p"
    by (simp add: PortFromString_def Port_String_def PortFromInt_def)
  moreover have "PortFromInt v \<noteq> None \<longleftrightarrow> unat v \<le> 65535"
    by (simp add: PortFromInt_def word_less_nat_alt not_less)
  moreover have "MemoryPortList_Contains (PortListFromProto l) p \<longleftrightarrow> (\<exists>r \<in> set l. PortRange_Contains r p)"
    by (induction l) (auto simp: PortListFromProto_def MemoryPortRange_Contains_def PortRange_Contains_def FromPort_def ToPort_def)
  ultimately show ?thesis by blast
qed

end
