(* ===== verification/Address_Parser.thy ===== *)
theory Address_Parser
  imports Net MultiBuffer
begin

text \<open>
  \<^verbatim>\<open>common/protocol/address.go\<close> and \<^verbatim>\<open>common/serial/serial.go\<close>: the configurable serialiser of addresses
  and ports that the proxy protocols and the multiplexer share.

  The reader is the bytes it will deliver; a read returns the buffer and the bytes left. A
  write returns the bytes given to the writer and the error, if any.
\<close>

section \<open>serial\<close>

definition serial_ReadUint16 :: "bytes \<Rightarrow> (buf_error, u16 \<times> bytes) outcome" where
  "serial_ReadUint16 src =
     (case io_ReadFull src 2 of
        (data, rest, Some err) \<Rightarrow> Fail err
      | (data, rest, None) \<Rightarrow> outcome_bind (or_panic (be_Uint16 data)) (\<lambda>x. Ok (x, rest)))"

definition serial_WriteUint16 :: "u16 \<Rightarrow> bytes" where
  "serial_WriteUint16 value = be_PutUint16 value"

section \<open>Options\<close>

definition afInvalid :: byte where "afInvalid = 255"

record option_ =
  op_addrTypeMap :: "AddressFamily list"
  op_addrByteMap :: "byte list"
  op_portFirst :: bool
  op_typeParser :: "(byte \<Rightarrow> byte) option"

type_synonym AddressOption = "option_ \<Rightarrow> option_"

definition PortThenAddress :: AddressOption where
  "PortThenAddress p = p\<lparr>op_portFirst := True\<rparr>"

text \<open>\<open>None\<close>: the panic on a byte that is too big.\<close>

definition AddressFamilyByte :: "byte \<Rightarrow> AddressFamily \<Rightarrow> AddressOption option" where
  "AddressFamilyByte b f =
     (if b \<ge> 16 then None
      else Some (\<lambda>p. p\<lparr>op_addrTypeMap := (op_addrTypeMap p)[unat b := f], op_addrByteMap := (op_addrByteMap p)[unat f := b]\<rparr>))"

definition WithAddressTypeParser :: "(byte \<Rightarrow> byte) \<Rightarrow> AddressOption" where
  "WithAddressTypeParser atp p = p\<lparr>op_typeParser := Some atp\<rparr>"

record addressParser =
  ap_addrTypeMap :: "AddressFamily list"
  ap_addrByteMap :: "byte list"
  ap_typeParser :: "(byte \<Rightarrow> byte) option"
  ap_portFirst :: bool

definition NewAddressParser :: "AddressOption list \<Rightarrow> addressParser" where
  "NewAddressParser options =
     (let o' = \<lparr>op_addrTypeMap = replicate 16 afInvalid, op_addrByteMap = replicate 16 afInvalid,
                op_portFirst = False, op_typeParser = None\<rparr>;
          o' = fold (\<lambda>opt o'. opt o') options o'
      in \<lparr>ap_addrTypeMap = op_addrTypeMap o', ap_addrByteMap = op_addrByteMap o',
          ap_typeParser = op_typeParser o', ap_portFirst = op_portFirst o'\<rparr>)"

section \<open>Reading\<close>

datatype addr_error = ReadFailed buf_error | UnknownAddressType | InvalidDomain | UnknownFamily | DomainTooLong

type_synonym 'a parse = "(addr_error, 'a \<times> Buffer \<times> bytes) outcome"

text \<open>\<^verbatim>\<open>b.ReadFullFrom(reader, n)\<close> followed by the check of the error.\<close>

definition read_full :: "Buffer \<Rightarrow> bytes \<Rightarrow> int \<Rightarrow> (addr_error, Buffer \<times> bytes) outcome" where
  "read_full b src n =
     (case Buffer_ReadFullFrom b src n of
        None \<Rightarrow> Panic
      | Some (b, rest, cnt, Some err) \<Rightarrow> Fail (ReadFailed err)
      | Some (b, rest, cnt, None) \<Rightarrow> Ok (b, rest))"

definition readPort :: "Buffer \<Rightarrow> bytes \<Rightarrow> Port parse" where
  "readPort b src =
     outcome_bind (read_full b src 2) (\<lambda>(b, rest).
     outcome_bind (or_panic (Buffer_BytesFrom b (- 2))) (\<lambda>bs.
     outcome_bind (or_panic (PortFromBytes bs)) (\<lambda>port. Ok (port, b, rest))))"

definition maybeIPPrefix :: "byte \<Rightarrow> bool" where
  "maybeIPPrefix b \<longleftrightarrow> b = 91 \<or> (48 \<le> b \<and> b \<le> 57)"

definition domain_char :: "byte \<Rightarrow> bool" where
  "domain_char c \<longleftrightarrow> (48 \<le> c \<and> c \<le> 57) \<or> (97 \<le> c \<and> c \<le> 122) \<or> (65 \<le> c \<and> c \<le> 90) \<or> c = 45 \<or> c = 46 \<or> c = 95"

text \<open>The loop runs over runes; those outside ASCII are encoded with bytes from 128 on, which are
  not allowed either, so it is a check of the bytes.\<close>

fun isValidDomain :: "bytes \<Rightarrow> bool" where
  "isValidDomain [] = True"
| "isValidDomain (c # d) = (if \<not> domain_char c then False else isValidDomain d)"

definition domain_address :: "bytes \<Rightarrow> (addr_error, Address) outcome" where
  "domain_address domain =
     outcome_bind (or_panic (index domain 0)) (\<lambda>c.
     outcome_bind (if maybeIPPrefix c
                   then outcome_bind (or_panic (ParseAddress domain)) (\<lambda>a. Ok (if IsIP (Address_Family a) then Some a else None))
                   else Ok None) (\<lambda>r.
     case r of
       Some a \<Rightarrow> Ok a
     | None \<Rightarrow> if \<not> isValidDomain domain then Fail InvalidDomain else Ok (DomainAddress domain)))"

definition readAddress :: "addressParser \<Rightarrow> Buffer \<Rightarrow> bytes \<Rightarrow> Address option parse" where
  "readAddress p b src =
     outcome_bind (read_full b src 1) (\<lambda>(b, src).
     outcome_bind (or_panic (Buffer_Byte b (i32 (Buffer_Len (Some b) - 1)))) (\<lambda>addrType.
     let addrType = (case ap_typeParser p of None \<Rightarrow> addrType | Some f \<Rightarrow> f addrType) in
     if addrType \<ge> 16 then Fail UnknownAddressType
     else
       let addrFamily = ap_addrTypeMap p ! unat addrType in
       if addrFamily = afInvalid then Fail UnknownAddressType
       else if addrFamily = AddressFamilyIPv4 then
         outcome_bind (read_full b src 4) (\<lambda>(b, src).
         outcome_bind (or_panic (Buffer_BytesFrom b (- 4))) (\<lambda>ip. Ok (IPAddress ip, b, src)))
       else if addrFamily = AddressFamilyIPv6 then
         outcome_bind (read_full b src 16) (\<lambda>(b, src).
         outcome_bind (or_panic (Buffer_BytesFrom b (- 16))) (\<lambda>ip. Ok (IPAddress ip, b, src)))
       else if addrFamily = AddressFamilyDomain then
         outcome_bind (read_full b src 1) (\<lambda>(b, src).
         outcome_bind (or_panic (Buffer_Byte b (i32 (Buffer_Len (Some b) - 1)))) (\<lambda>len.
         let domainLength = uint len in
         outcome_bind (read_full b src domainLength) (\<lambda>(b, src).
         outcome_bind (or_panic (Buffer_BytesFrom b (- domainLength))) (\<lambda>domain.
         outcome_bind (domain_address domain) (\<lambda>a. Ok (Some a, b, src))))))
       else Panic))"

text \<open>\<^verbatim>\<open>ReadAddressPort\<close> of the two parsers, on the buffer given.\<close>

definition ReadAddressPort :: "addressParser \<Rightarrow> Buffer \<Rightarrow> bytes \<Rightarrow> (Address option \<times> Port) parse" where
  "ReadAddressPort p b src =
     (if ap_portFirst p
      then outcome_bind (readPort b src) (\<lambda>(port, b, src).
           outcome_bind (readAddress p b src) (\<lambda>(addr, b, src). Ok ((addr, port), b, src)))
      else outcome_bind (readAddress p b src) (\<lambda>(addr, b, src).
           outcome_bind (readPort b src) (\<lambda>(port, b, src). Ok ((addr, port), b, src))))"

section \<open>Writing\<close>

definition IsDomainTooLong :: "bytes \<Rightarrow> bool" where
  "IsDomainTooLong domain \<longleftrightarrow> length domain > 255"

definition writePort :: "Port \<Rightarrow> bytes" where
  "writePort port = serial_WriteUint16 (Port_Value port)"

definition writeAddress :: "addressParser \<Rightarrow> Address \<Rightarrow> bytes \<times> addr_error option" where
  "writeAddress p address =
     (let tb = ap_addrByteMap p ! unat (Address_Family address) in
      if tb = afInvalid then ([], Some UnknownFamily)
      else case address of
        ipv4Address ip \<Rightarrow> ([tb] @ ip, None)
      | ipv6Address ip \<Rightarrow> ([tb] @ ip, None)
      | domainAddress domain \<Rightarrow>
          if IsDomainTooLong domain then ([], Some DomainTooLong)
          else ([tb, word_of_nat (length domain)] @ domain, None))"

definition WriteAddressPort :: "addressParser \<Rightarrow> Address \<Rightarrow> Port \<Rightarrow> bytes \<times> addr_error option" where
  "WriteAddressPort p addr port =
     (if ap_portFirst p
      then let (bs, err) = writeAddress p addr in (writePort port @ bs, err)
      else let (bs, err) = writeAddress p addr in (if err = None then bs @ writePort port else bs, err))"

section \<open>Reading from a buffer\<close>

lemma read_full_ok:
  assumes wf: "wf_Buffer b" and n: "length xs = n" "n \<le> room b"
  obtains b' where "read_full b (xs @ rest) (int n) = Ok (b', rest)" "wf_Buffer b'" "content b' = content b @ xs"
    "room b' = room b - n"
proof -
  obtain b' where "Buffer_ReadFullFrom b (xs @ rest) (int n) = Some (b', drop (nat (int n)) (xs @ rest),
      int (min (nat (int n)) (length (xs @ rest))),
      if nat (int n) \<le> length (xs @ rest) then None else Some (if xs @ rest = [] then EOF else UnexpectedEOF))"
    "wf_Buffer b'" "content b' = content b @ take (nat (int n)) (xs @ rest)"
    "room b' = room b - min (nat (int n)) (length (xs @ rest))"
    by (rule Buffer_ReadFullFrom_spec [OF wf, of "int n" "xs @ rest"]) (use n in auto)
  then show thesis using that [of b'] n by (simp add: read_full_def)
qed

lemma readPort_ok:
  assumes "wf_Buffer b" "2 \<le> room b"
  obtains b' where "readPort b (writePort port @ rest) = Ok (port, b', rest)" "wf_Buffer b'" "room b' = room b - 2"
proof -
  obtain b' where b': "read_full b (be_PutUint16 port @ rest) (int 2) = Ok (b', rest)" "wf_Buffer b'"
    "content b' = content b @ be_PutUint16 port" "room b' = room b - 2"
    by (rule read_full_ok [OF assms(1), of "be_PutUint16 port" 2 rest]) (use assms(2) in simp_all)
  have "Buffer_BytesFrom b' (- int 2) = Some (be_PutUint16 port)"
    by (rule BytesFrom_suffix [OF b'(2,3)]) (simp_all add: be_PutUint16_def)
  then show thesis
    using that b' by (simp add: readPort_def writePort_def serial_WriteUint16_def Port_Value_def PortFromBytes_def)
qed

text \<open>A parser that knows the family of an address, and an address it can carry.\<close>

definition knows :: "addressParser \<Rightarrow> Address \<Rightarrow> bool" where
  "knows p a \<longleftrightarrow>
     (let tb = ap_addrByteMap p ! unat (Address_Family a) in
      tb < 16 \<and> ap_addrTypeMap p ! unat tb = Address_Family a \<and> ap_typeParser p = None)"

fun carried :: "Address \<Rightarrow> bool" where
  "carried (domainAddress d) =
     (d \<noteq> [] \<and> length d \<le> 255 \<and> isValidDomain d \<and> domain_address d = Ok (domainAddress d))"
| "carried a = canonical a"

lemma type_byte:
  assumes "wf_Buffer b" "1 \<le> room b"
  obtains b' where "read_full b (tb # rest) 1 = Ok (b', rest)" "wf_Buffer b'" "room b' = room b - 1"
    "Buffer_Byte b' (i32 (Buffer_Len (Some b') - 1)) = Some tb"
proof -
  obtain b' where b': "read_full b ([tb] @ rest) (int 1) = Ok (b', rest)" "wf_Buffer b'" "content b' = content b @ [tb]"
    "room b' = room b - 1"
    by (rule read_full_ok [OF assms(1), of "[tb]" 1 rest]) (use assms(2) in simp_all)
  then show thesis using that Byte_last [OF b'(2,3)] by simp
qed

lemma suffix_bytes:
  assumes "wf_Buffer b" "length xs = n" "n \<le> room b" "0 < n"
  obtains b' where "read_full b (xs @ rest) (int n) = Ok (b', rest)" "wf_Buffer b'" "room b' = room b - n"
    "Buffer_BytesFrom b' (- int n) = Some xs"
proof -
  obtain b' where b': "read_full b (xs @ rest) (int n) = Ok (b', rest)" "wf_Buffer b'" "content b' = content b @ xs"
    "room b' = room b - n"
    by (rule read_full_ok [OF assms(1,2,3), of rest])
  have "Buffer_BytesFrom b' (- int n) = Some xs" by (rule BytesFrom_suffix [OF b'(2,3)]) (use assms in auto)
  then show thesis using that b' by blast
qed

lemma readAddress_ok:
  assumes wf: "wf_Buffer b" and rm: "257 \<le> room b" and k: "knows p a" and c: "carried a"
    and w: "writeAddress p a = (bs, err)"
  obtains b' where "err = None" "readAddress p b (bs @ rest) = Ok (Some a, b', rest)" "wf_Buffer b'"
    "room b \<le> room b' + 257"
proof -
  note result = that
  let ?tb = "ap_addrByteMap p ! unat (Address_Family a)"
  have tb: "?tb < 16" "ap_addrTypeMap p ! unat ?tb = Address_Family a" "ap_typeParser p = None"
    using k by (simp_all add: knows_def Let_def)
  have inv: "?tb \<noteq> afInvalid" using tb(1) by (auto simp: afInvalid_def)
  have fam: "Address_Family a \<noteq> afInvalid" by (cases a) (simp_all add: family_defs afInvalid_def)
  have ip: thesis if a: "a = mk ip" "Address_Family a = f" "length ip = n" "IPAddress ip = Some a" "bs = ?tb # ip" "err = None"
    and f: "f = AddressFamilyIPv4 \<and> n = 4 \<or> f = AddressFamilyIPv6 \<and> n = 16" for mk ip f n
  proof -
    obtain b1 where b1: "read_full b (?tb # ip @ rest) 1 = Ok (b1, ip @ rest)" "wf_Buffer b1" "room b1 = room b - 1"
      "Buffer_Byte b1 (i32 (Buffer_Len (Some b1) - 1)) = Some ?tb"
      by (rule type_byte [OF wf, of ?tb "ip @ rest"]) (use rm in auto)
    obtain b2 where b2: "read_full b1 (ip @ rest) (int n) = Ok (b2, rest)" "wf_Buffer b2" "room b2 = room b1 - n"
      "Buffer_BytesFrom b2 (- int n) = Some ip"
      by (rule suffix_bytes [OF b1(2), of ip n rest]) (use a f b1(3) rm in auto)
    show thesis
      by (rule result [of b2]) (use a b1 b2 tb fam f rm in \<open>auto simp: readAddress_def family_defs not_le\<close>)
  qed
  show thesis
  proof (cases a)
    case (ipv4Address x)
    with c w inv show thesis
      by (intro ip [of ipv4Address x AddressFamilyIPv4 4]) (auto simp: writeAddress_def IPAddress_def)
  next
    case (ipv6Address x)
    with c w inv show thesis
      by (intro ip [of ipv6Address x AddressFamilyIPv6 16]) (auto simp: writeAddress_def IPAddress_def)
  next
    case (domainAddress d)
    let ?n = "length d"
    have d: "d \<noteq> []" "?n \<le> 255" "domain_address d = Ok (domainAddress d)" using c domainAddress by auto
    have bs: "bs = ?tb # word_of_nat ?n # d" "err = None"
      using w inv d(2) domainAddress by (auto simp: writeAddress_def IsDomainTooLong_def)
    obtain b1 where b1: "read_full b (?tb # word_of_nat ?n # d @ rest) 1 = Ok (b1, word_of_nat ?n # d @ rest)" "wf_Buffer b1"
      "room b1 = room b - 1" "Buffer_Byte b1 (i32 (Buffer_Len (Some b1) - 1)) = Some ?tb"
      by (rule type_byte [OF wf, of ?tb "word_of_nat ?n # d @ rest"]) (use rm in auto)
    obtain b2 where b2: "read_full b1 (word_of_nat ?n # d @ rest) 1 = Ok (b2, d @ rest)" "wf_Buffer b2"
      "room b2 = room b1 - 1" "Buffer_Byte b2 (i32 (Buffer_Len (Some b2) - 1)) = Some (word_of_nat ?n)"
      by (rule type_byte [OF b1(2), of "word_of_nat ?n" "d @ rest"]) (use rm b1 in auto)
    obtain b3 where b3: "read_full b2 (d @ rest) (int ?n) = Ok (b3, rest)" "wf_Buffer b3" "room b3 = room b2 - ?n"
      "Buffer_BytesFrom b3 (- int ?n) = Some d"
      by (rule suffix_bytes [OF b2(2), of d ?n rest]) (use d b1 b2 rm in auto)
    have u: "uint (word_of_nat ?n :: byte) = int ?n" using d(2) by (simp add: uint_nat)
    have fd: "ap_addrTypeMap p ! unat ?tb = AddressFamilyDomain" using tb(2) domainAddress by simp
    have "readAddress p b (bs @ rest) = Ok (Some a, b3, rest)"
      unfolding bs using b1 b2 b3 tb fd d(3) u domainAddress
      by (simp add: readAddress_def Let_def family_defs afInvalid_def not_le)
    then show thesis using result bs b1(3) b2(3) b3 d(2) rm by auto
  qed
qed

section \<open>Hostile input\<close>

text \<open>Buffers far from the 32-bit limit, as all are that come from the pool.\<close>

definition small_buf :: "Buffer \<Rightarrow> bool" where
  "small_buf b \<longleftrightarrow> wf_Buffer b \<and> length (buf_v b) < 2 ^ 30"

lemma read_full_total:
  assumes b: "small_buf b" and n: "n \<le> 255"
  shows "(\<exists>e. read_full b src (int n) = Fail e) \<or>
     (\<exists>b' rest xs. read_full b src (int n) = Ok (b', rest) \<and> small_buf b' \<and> content b' = content b @ xs \<and> length xs = n)"
proof (cases "n \<le> room b")
  case True
  have wf: "wf_Buffer b" using b by (simp add: small_buf_def)
  obtain b' where b': "Buffer_ReadFullFrom b src (int n) = Some (b', drop (nat (int n)) src,
      int (min (nat (int n)) (length src)),
      if nat (int n) \<le> length src then None else Some (if src = [] then EOF else UnexpectedEOF))"
    "wf_Buffer b'" "content b' = content b @ take (nat (int n)) src" "buf_start b' = buf_start b"
    "room b' = room b - min (nat (int n)) (length src)"
    by (rule Buffer_ReadFullFrom_spec [OF wf, of "int n" src]) (use True in auto)
  have "int (length (buf_v b')) = buf_start b' + int (length (content b')) + int (room b')"
    using length_content [OF b'(2)] b'(2) by (auto simp: room_def wf_Buffer_def)
  also have "\<dots> = int (length (buf_v b))"
    using length_content [OF wf] wf b'(3,4,5) True by (auto simp: room_def wf_Buffer_def min_def)
  finally have "small_buf b'" using b b'(2) by (simp add: small_buf_def)
  then show ?thesis using b' by (cases "n \<le> length src") (auto simp: read_full_def)
next
  case False
  have len: "buf_end b + int n > int (length (buf_v b))" "buf_end b + int n < 2 ^ 31" "int (length (buf_v b)) < 2 ^ 31"
    "0 \<le> buf_end b"
    using False b n by (auto simp: room_def small_buf_def wf_Buffer_def)
  then have "i32 (buf_end b + int n) = buf_end b + int n" "i32 (int (length (buf_v b))) = int (length (buf_v b))"
    by (auto intro!: i32_id)
  then show ?thesis using len by (simp add: read_full_def Buffer_ReadFullFrom_def Let_def)
qed

lemma read_full_cases:
  assumes "small_buf b" "n \<le> 255"
  obtains (failed) e where "read_full b src (int n) = Fail e"
    | (read) b' rest xs where "read_full b src (int n) = Ok (b', rest)" "small_buf b'" "content b' = content b @ xs" "length xs = n"
  using read_full_total [OF assms, of src] by blast

lemma domain_address_total: "d \<noteq> [] \<Longrightarrow> domain_address d \<noteq> Panic"
  using ParseAddress_canonical [of d]
  by (cases d) (auto simp: domain_address_def index_def split: option.splits if_splits)

definition parser_ok :: "addressParser \<Rightarrow> bool" where
  "parser_ok p \<longleftrightarrow> length (ap_addrTypeMap p) = 16 \<and>
     set (ap_addrTypeMap p) \<subseteq> {AddressFamilyIPv4, AddressFamilyIPv6, AddressFamilyDomain, afInvalid}"

lemma BytesFrom_whole:
  assumes "small_buf b"
  shows "Buffer_BytesFrom b 0 = Some (content b)"
  using assms Buffer_Bytes_content [of b] wf_i32(3) [of b "buf_start b"]
  by (auto simp: Buffer_BytesFrom_def Buffer_Bytes_def small_buf_def wf_Buffer_def)

lemma BytesFrom_read:
  assumes "small_buf b" "content b = xs @ ys" "length ys = n" "xs \<noteq> []"
  shows "\<exists>zs. Buffer_BytesFrom b (- int n) = Some zs \<and> zs \<noteq> [] \<and> (n \<noteq> 0 \<longrightarrow> zs = ys)"
proof (cases "n = 0")
  case True
  then show ?thesis using BytesFrom_whole [OF assms(1)] assms(2,4) by simp
next
  case False
  then have "ys \<noteq> []" using assms(3) by auto
  then show ?thesis using BytesFrom_suffix [of b xs ys n] assms(1-3) by (simp add: small_buf_def)
qed

lemma small_counts: "(1 :: nat) \<le> 255" "(2 :: nat) \<le> 255" "n = 4 \<or> n = 16 \<Longrightarrow> n \<le> (255 :: nat)"
  by auto

lemma readPort_total:
  assumes "small_buf b"
  shows "(\<exists>e. readPort b src = Fail e) \<or> (\<exists>port b' rest. readPort b src = Ok (port, b', rest) \<and> small_buf b')"
proof (cases rule: read_full_cases [OF assms small_counts(2), of src])
  case (1 e)
  then show ?thesis by (simp add: readPort_def)
next
  case (2 b' rest xs)
  note r = 2
  have "Buffer_BytesFrom b' (- int 2) = Some xs"
    by (rule BytesFrom_suffix [OF _ r(3)]) (use r in \<open>auto simp: small_buf_def\<close>)
  with r be_Uint16_defined [of xs] show ?thesis by (auto simp: readPort_def PortFromBytes_def)
qed

lemma last_byte:
  assumes "small_buf b" "content b = xs @ ys" "length ys = 1"
  shows "\<exists>x. Buffer_Byte b (i32 (Buffer_Len (Some b) - 1)) = Some x"
proof -
  obtain y where "ys = [y]" using assms(3) by (cases ys) auto
  then show ?thesis using Byte_last [of b xs y] assms by (simp add: small_buf_def)
qed

lemma read_ip_total:
  assumes "small_buf b" "n = 4 \<or> n = 16"
  obtains (failed) e where "outcome_bind (read_full b src (int n)) (\<lambda>(b, src).
        outcome_bind (or_panic (Buffer_BytesFrom b (- int n))) (\<lambda>ip. Ok (IPAddress ip, b, src))) = Fail e"
    | (read) a b' rest where "outcome_bind (read_full b src (int n)) (\<lambda>(b, src).
        outcome_bind (or_panic (Buffer_BytesFrom b (- int n))) (\<lambda>ip. Ok (IPAddress ip, b, src))) = Ok (Some a, b', rest)"
        "small_buf b'"
proof (cases rule: read_full_cases [OF assms(1) small_counts(3) [OF assms(2)], of src])
  case (1 e)
  then show ?thesis using failed by simp
next
  case (2 b' rest xs)
  note r = 2
  have "Buffer_BytesFrom b' (- int n) = Some xs"
    by (rule BytesFrom_suffix [OF _ r(3)]) (use r assms(2) in \<open>auto simp: small_buf_def\<close>)
  moreover have "IPAddress xs \<noteq> None" using r(4) assms(2) by (auto simp: IPAddress_def)
  ultimately show ?thesis using read r by auto
qed

lemma word_unat_less_le_255: "unat (x :: byte) \<le> 255"
proof -
  have "unat x < 2 ^ LENGTH(8)" by (rule unsigned_less)
  then show ?thesis by simp
qed

lemma read_domain_total:
  assumes "small_buf b"
  obtains (failed) e where "outcome_bind (read_full b src 1) (\<lambda>(b, src).
         outcome_bind (or_panic (Buffer_Byte b (i32 (Buffer_Len (Some b) - 1)))) (\<lambda>len.
         let domainLength = uint len in
         outcome_bind (read_full b src domainLength) (\<lambda>(b, src).
         outcome_bind (or_panic (Buffer_BytesFrom b (- domainLength))) (\<lambda>domain.
         outcome_bind (domain_address domain) (\<lambda>a. Ok (Some a, b, src)))))) = Fail e"
    | (read) a b' rest where "outcome_bind (read_full b src 1) (\<lambda>(b, src).
         outcome_bind (or_panic (Buffer_Byte b (i32 (Buffer_Len (Some b) - 1)))) (\<lambda>len.
         let domainLength = uint len in
         outcome_bind (read_full b src domainLength) (\<lambda>(b, src).
         outcome_bind (or_panic (Buffer_BytesFrom b (- domainLength))) (\<lambda>domain.
         outcome_bind (domain_address domain) (\<lambda>a. Ok (Some a, b, src)))))) = Ok (Some a, b', rest)" "small_buf b'"
proof (cases rule: read_full_cases [OF assms(1) small_counts(1), of src])
  case (1 e)
  then show ?thesis using failed by simp
next
  case (2 b1 src1 xs)
  note r = 2
  obtain len where len: "Buffer_Byte b1 (i32 (Buffer_Len (Some b1) - 1)) = Some len"
    using last_byte [OF r(2,3,4)] by blast
  have n: "int (unat len) = uint len" "unat len \<le> 255"
    using word_unat_less_le_255 [of len] by simp_all
  show ?thesis
  proof (cases rule: read_full_cases [OF r(2) n(2), of src1])
    case (1 e)
    then show ?thesis using failed r len n by simp
  next
    case (2 b2 src2 ys)
    have "content b1 \<noteq> []" using r(3,4) by auto
    then obtain d where d: "Buffer_BytesFrom b2 (- uint len) = Some d" "d \<noteq> []"
      using BytesFrom_read [OF 2(2,3,4)] n(1) by auto
    then show ?thesis
      using failed read r len n 2 domain_address_total [OF d(2)] by (cases "domain_address d") auto
  qed
qed

lemma readAddress_total:
  assumes b: "small_buf b" and p: "parser_ok p"
  shows "(\<exists>e. readAddress p b src = Fail e) \<or> (\<exists>a b' rest. readAddress p b src = Ok (Some a, b', rest) \<and> small_buf b')"
proof (cases rule: read_full_cases [OF b small_counts(1), of src])
  case (1 e)
  then show ?thesis by (simp add: readAddress_def)
next
  case (2 b1 src1 xs)
  note r = 2
  obtain t where t: "Buffer_Byte b1 (i32 (Buffer_Len (Some b1) - 1)) = Some t" using last_byte [OF r(2,3,4)] by blast
  define ty where "ty = (case ap_typeParser p of None \<Rightarrow> t | Some f \<Rightarrow> f t)"
  show ?thesis
  proof (cases "ty \<ge> 16 \<or> ap_addrTypeMap p ! unat ty = afInvalid")
    case True
    then show ?thesis using r t by (auto simp: readAddress_def Let_def ty_def [symmetric])
  next
    case False
    then have "unat ty < 16" by (simp add: word_less_nat_alt not_le)
    then have fam: "ap_addrTypeMap p ! unat ty \<in> {AddressFamilyIPv4, AddressFamilyIPv6, AddressFamilyDomain}"
      using p False nth_mem [of "unat ty" "ap_addrTypeMap p"] unfolding parser_ok_def by force
    have ne: "AddressFamilyIPv4 \<noteq> afInvalid" "AddressFamilyIPv6 \<noteq> afInvalid" "AddressFamilyDomain \<noteq> afInvalid"
      "AddressFamilyIPv6 \<noteq> AddressFamilyIPv4" "AddressFamilyDomain \<noteq> AddressFamilyIPv4" "AddressFamilyDomain \<noteq> AddressFamilyIPv6"
      by (simp_all add: family_defs afInvalid_def)
    note eq = readAddress_def Let_def ty_def [symmetric]
    from fam consider (v4) "ap_addrTypeMap p ! unat ty = AddressFamilyIPv4" | (v6) "ap_addrTypeMap p ! unat ty = AddressFamilyIPv6"
      | (dom) "ap_addrTypeMap p ! unat ty = AddressFamilyDomain" by auto
    then show ?thesis
    proof cases
      case v4
      show ?thesis
        by (cases rule: read_ip_total [OF r(2), of 4 src1]) (use r t False v4 ne in \<open>auto simp: eq\<close>)
    next
      case v6
      show ?thesis
        by (cases rule: read_ip_total [OF r(2), of 16 src1]) (use r t False v6 ne in \<open>auto simp: eq\<close>)
    next
      case dom
      show ?thesis
        by (cases rule: read_domain_total [OF r(2), of src1]) (use r t False dom ne in \<open>auto simp: eq\<close>)
    qed
  qed
qed

section \<open>Properties\<close>

lemma address_write_read:
  assumes "wf_Buffer b" and "259 \<le> room b" and "knows p a" and "carried a"
  shows "\<exists>bs b'. WriteAddressPort p a port = (bs, None) \<and> ReadAddressPort p b (bs @ rest) = Ok ((Some a, port), b', rest)"
proof -
  obtain ba err where w: "writeAddress p a = (ba, err)" by fastforce
  show ?thesis
  proof (cases "ap_portFirst p")
    case True
    obtain b1 where b1: "readPort b (writePort port @ ba @ rest) = Ok (port, b1, ba @ rest)" "wf_Buffer b1" "room b1 = room b - 2"
      by (rule readPort_ok [OF assms(1), of port "ba @ rest"]) (use assms(2) in auto)
    have "257 \<le> room b1" using b1(3) assms(2) by simp
    then obtain b2 where "err = None" "readAddress p b1 (ba @ rest) = Ok (Some a, b2, rest)"
      using readAddress_ok [OF b1(2) _ assms(3,4) w, of rest] by blast
    then show ?thesis using w b1 True by (simp add: WriteAddressPort_def ReadAddressPort_def)
  next
    case False
    have "257 \<le> room b" using assms(2) by simp
    then obtain b1 where b1: "err = None" "readAddress p b (ba @ writePort port @ rest) = Ok (Some a, b1, writePort port @ rest)"
        "wf_Buffer b1" "room b \<le> room b1 + 257"
      using readAddress_ok [OF assms(1) _ assms(3,4) w, of "writePort port @ rest"] by blast
    have "2 \<le> room b1" using b1(4) assms(2) by simp
    then obtain b2 where "readPort b1 (writePort port @ rest) = Ok (port, b2, rest)"
      using readPort_ok [OF b1(3), of port rest] by blast
    then show ?thesis using w b1 False by (simp add: WriteAddressPort_def ReadAddressPort_def)
  qed
qed


text \<open>The parser of the multiplexer: types 1, 2 and 3, the port first.\<close>

definition mux_options :: "AddressOption list option" where
  "mux_options =
     do {
       v4 \<leftarrow> AddressFamilyByte 1 AddressFamilyIPv4;
       dom \<leftarrow> AddressFamilyByte 2 AddressFamilyDomain;
       v6 \<leftarrow> AddressFamilyByte 3 AddressFamilyIPv6;
       Some [v4, dom, v6, PortThenAddress]
     }"

definition addrParser :: addressParser where
  "addrParser = NewAddressParser (case mux_options of None \<Rightarrow> [] | Some opts \<Rightarrow> opts)"

lemma addrParser_fields:
  "ap_addrTypeMap addrParser = [afInvalid, AddressFamilyIPv4, AddressFamilyDomain, AddressFamilyIPv6] @ replicate 12 afInvalid"
  "ap_addrByteMap addrParser = [1, 3, 2] @ replicate 13 afInvalid"
  "ap_typeParser addrParser = None" "ap_portFirst addrParser"
  by code_simp+

lemma addrParser_knows: "knows addrParser a"
  by (cases a) (simp_all add: knows_def addrParser_fields family_defs)

lemma addrParser_ok: "parser_ok addrParser"
  by (simp add: parser_ok_def addrParser_fields)


lemma ReadAddressPort_safe:
  assumes "small_buf b" and "parser_ok p"
  shows "(\<exists>e. ReadAddressPort p b src = Fail e) \<or>
     (\<exists>a port b' rest. ReadAddressPort p b src = Ok ((Some a, port), b', rest))"
proof (cases "ap_portFirst p")
  case True
  from readPort_total [OF assms(1), of src] show ?thesis
  proof (elim disjE exE conjE)
    fix port b' rest assume "readPort b src = Ok (port, b', rest)" "small_buf b'"
    with readAddress_total [OF _ assms(2), of b' rest] True show ?thesis by (auto simp: ReadAddressPort_def)
  qed (use True in \<open>auto simp: ReadAddressPort_def\<close>)
next
  case False
  from readAddress_total [OF assms, of src] show ?thesis
  proof (elim disjE exE conjE)
    fix a b' rest assume "readAddress p b src = Ok (Some a, b', rest)" "small_buf b'"
    with readPort_total [of b' rest] False show ?thesis by (auto simp: ReadAddressPort_def)
  qed (use False in \<open>auto simp: ReadAddressPort_def\<close>)
qed

text \<open>Reading an address and a port never panics, whatever the reader delivers (truncated
  data, unknown types, empty or malformed domains), and a successful read never yields a
  nil address.\<close>

theorem ReadAddressPort_total:
  assumes "small_buf b" and "parser_ok p"
  shows "(\<exists>e. ReadAddressPort p b src = Fail e) \<or>
     (\<exists>a port b' rest. ReadAddressPort p b src = Ok ((Some a, port), b', rest))"
  using assms by (rule ReadAddressPort_safe)

theorem ReadAddressPort_total_witness:
  "(\<exists>e. ReadAddressPort addrParser (Buffer_New (replicate 2048 0)) [0, 80, 2, 0] = Fail e) \<or>
     (\<exists>a port b' rest. ReadAddressPort addrParser (Buffer_New (replicate 2048 0)) [0, 80, 2, 0] = Ok ((Some a, port), b', rest))"
  by (rule ReadAddressPort_total) (simp_all add: addrParser_ok small_buf_def Buffer_New_def wf_Buffer_def)

end
