(* ===== verification/Mux_Frame.thy ===== *)
theory Mux_Frame
  imports Auth_Stream Address_Parser
begin

text \<open>
  \<^verbatim>\<open>common/bitmask/byte.go\<close> and \<^verbatim>\<open>common/mux/frame.go\<close>: the metadata at the head of every frame of a
  multiplexed connection.

  \<^verbatim>\<open>Unmarshal\<close> fills the record it is called on, so the record is an argument and part of the result. The
  arrays \<open>p\<close> and \<open>q\<close> are those of the buffers the code takes from the pool.
\<close>

section \<open>Bit masks\<close>

definition Byte_Has :: "byte \<Rightarrow> byte \<Rightarrow> bool" where "Byte_Has b bb \<longleftrightarrow> b AND bb \<noteq> 0"
definition Byte_Set :: "byte \<Rightarrow> byte \<Rightarrow> byte" where "Byte_Set b bb = b OR bb"
definition Byte_Clear :: "byte \<Rightarrow> byte \<Rightarrow> byte" where "Byte_Clear b bb = b AND NOT bb"
definition Byte_Toggle :: "byte \<Rightarrow> byte \<Rightarrow> byte" where "Byte_Toggle b bb = b XOR bb"

lemma bitmask_laws:
  "bb \<noteq> 0 \<Longrightarrow> Byte_Has (Byte_Set b bb) bb" "\<not> Byte_Has (Byte_Clear b bb) bb"
  "Byte_Toggle (Byte_Toggle b bb) bb = b" "Byte_Clear (Byte_Set b bb) bb = Byte_Clear b bb"
proof -
  show "Byte_Has (Byte_Set b bb) bb" if "bb \<noteq> 0"
    using that by (simp add: Byte_Has_def Byte_Set_def and.commute)
  show "\<not> Byte_Has (Byte_Clear b bb) bb" by (simp add: Byte_Has_def Byte_Clear_def and.assoc)
  show "Byte_Toggle (Byte_Toggle b bb) bb = b" by (simp add: Byte_Toggle_def xor.assoc)
  show "Byte_Clear (Byte_Set b bb) bb = Byte_Clear b bb"
    by (rule bit_word_eqI) (auto simp: Byte_Clear_def Byte_Set_def bit_simps)
qed

section \<open>Frames\<close>

definition SessionStatusNew :: byte where "SessionStatusNew = 1"
definition SessionStatusKeep :: byte where "SessionStatusKeep = 2"
definition SessionStatusEnd :: byte where "SessionStatusEnd = 3"
definition SessionStatusKeepAlive :: byte where "SessionStatusKeepAlive = 4"

lemmas status_defs = SessionStatusNew_def SessionStatusKeep_def SessionStatusEnd_def SessionStatusKeepAlive_def

definition OptionData :: byte where "OptionData = 1"
definition OptionError :: byte where "OptionError = 2"
definition TargetNetworkTCP :: byte where "TargetNetworkTCP = 1"
definition TargetNetworkUDP :: byte where "TargetNetworkUDP = 2"

record FrameMetadata =
  fm_Target :: Destination
  fm_SessionID :: u16
  fm_Option :: byte
  fm_SessionStatus :: byte

definition no_target :: Destination where
  "no_target = \<lparr>dest_Address = None, dest_Port = 0, dest_Network = Network_Unknown\<rparr>"

text \<open>\<^verbatim>\<open>common.Must\<close>: an error is a panic.\<close>

definition Must :: "('e, 'a) outcome \<Rightarrow> 'a option" where
  "Must r = (case r of Ok a \<Rightarrow> Some a | _ \<Rightarrow> None)"

definition network_byte :: "Network \<Rightarrow> Buffer \<Rightarrow> Buffer option" where
  "network_byte n b =
     (case n of
        Network_TCP \<Rightarrow> Must (Buffer_WriteByte b TargetNetworkTCP)
      | Network_UDP \<Rightarrow> Must (Buffer_WriteByte b TargetNetworkUDP)
      | _ \<Rightarrow> Some b)"

text \<open>A nil address is a panic in \<^verbatim>\<open>WriteAddressPort\<close>.\<close>

definition FrameMetadata_WriteTo :: "FrameMetadata \<Rightarrow> Buffer \<Rightarrow> (Buffer \<times> addr_error option) option" where
  "FrameMetadata_WriteTo f b =
     do {
       (b, lenBytes) \<leftarrow> Buffer_Extend b 2;
       let len0 = Buffer_Len (Some b);
       (b, sessionBytes) \<leftarrow> Buffer_Extend b 2;
       let b = Buffer_fill b sessionBytes (be_PutUint16 (fm_SessionID f));
       b \<leftarrow> Must (Buffer_WriteByte b (fm_SessionStatus f));
       b \<leftarrow> Must (Buffer_WriteByte b (fm_Option f));
       (b, err) \<leftarrow>
         (if fm_SessionStatus f = SessionStatusNew
          then do {
            b \<leftarrow> network_byte (dest_Network (fm_Target f)) b;
            address \<leftarrow> dest_Address (fm_Target f);
            let (bs, err) = WriteAddressPort addrParser address (dest_Port (fm_Target f));
            (b, _) \<leftarrow> Buffer_Write b bs;
            Some (b, err)
          }
          else Some (b, None));
       if err \<noteq> None then Some (b, err)
       else let len1 = Buffer_Len (Some b)
            in Some (Buffer_fill b lenBytes (be_PutUint16 (word_of_int (i32 (len1 - len0)))), None)
     }"

datatype frame_error = FrameRead buf_error | InvalidMetaLen u16 | InsufficientBuffer int | BadAddress addr_error | UnknownNetworkType byte

definition UnmarshalFromBuffer :: "bytes \<Rightarrow> FrameMetadata \<Rightarrow> Buffer \<Rightarrow> (FrameMetadata \<times> frame_error option) option" where
  "UnmarshalFromBuffer q f b =
     (if Buffer_Len (Some b) < 4 then Some (f, Some (InsufficientBuffer (Buffer_Len (Some b))))
      else do {
        idBytes \<leftarrow> Buffer_BytesTo b 2;
        sessionID \<leftarrow> be_Uint16 idBytes;
        status \<leftarrow> Buffer_Byte b 2;
        opt \<leftarrow> Buffer_Byte b 3;
        let f = f\<lparr>fm_SessionID := sessionID, fm_SessionStatus := status, fm_Option := opt,
                  fm_Target := (fm_Target f)\<lparr>dest_Network := Network_Unknown\<rparr>\<rparr>;
        if status \<noteq> SessionStatusNew then Some (f, None)
        else if Buffer_Len (Some b) < 8 then Some (f, Some (InsufficientBuffer (Buffer_Len (Some b))))
        else do {
          network \<leftarrow> Buffer_Byte b 4;
          src \<leftarrow> Buffer_Bytes (Buffer_Advance b 5);
          case ReadAddressPort addrParser (Buffer_New q) src of
            Panic \<Rightarrow> None
          | Fail e \<Rightarrow> Some (f, Some (BadAddress e))
          | Ok ((addr, port), _, _) \<Rightarrow>
              if network = TargetNetworkTCP then Some (f\<lparr>fm_Target := TCPDestination addr port\<rparr>, None)
              else if network = TargetNetworkUDP then Some (f\<lparr>fm_Target := UDPDestination addr port\<rparr>, None)
              else Some (f, Some (UnknownNetworkType network))
        }
      })"

text \<open>\<^verbatim>\<open>serial.ReadUint16\<close> on a byte reader with state.\<close>

definition serial_ReadUint16_from :: "'s io_reader \<Rightarrow> 's \<Rightarrow> ('s \<times> (buf_error + u16)) option" where
  "serial_ReadUint16_from rd s =
     do {
       (s, data, err) \<leftarrow> io_ReadFull_from rd s 2 [];
       case err of Some e \<Rightarrow> Some (s, Inl e) | None \<Rightarrow> map_option (\<lambda>x. (s, Inr x)) (be_Uint16 data)
     }"

definition FrameMetadata_Unmarshal ::
  "bytes \<Rightarrow> bytes \<Rightarrow> 's io_reader \<Rightarrow> FrameMetadata \<Rightarrow> 's \<Rightarrow> ('s \<times> FrameMetadata \<times> frame_error option) option" where
  "FrameMetadata_Unmarshal p q rd f s =
     do {
       (s, res) \<leftarrow> serial_ReadUint16_from rd s;
       case res of
         Inl e \<Rightarrow> Some (s, f, Some (FrameRead e))
       | Inr metaLen \<Rightarrow>
           if metaLen > 512 then Some (s, f, Some (InvalidMetaLen metaLen))
           else do {
             (s, b, err) \<leftarrow> buffer_read_full rd s (Buffer_New p) (uint metaLen);
             case err of
               Some e \<Rightarrow> Some (s, f, Some (FrameRead e))
             | None \<Rightarrow> map_option (\<lambda>(f, err). (s, f, err)) (UnmarshalFromBuffer q f b)
           }
     }"

section \<open>Writing a frame\<close>

text \<open>The bytes of a frame as the format has them.\<close>

definition frame_body :: "FrameMetadata \<Rightarrow> bytes" where
  "frame_body f =
     be_PutUint16 (fm_SessionID f) @ [fm_SessionStatus f, fm_Option f] @
     (if fm_SessionStatus f = SessionStatusNew
      then (case dest_Network (fm_Target f) of Network_TCP \<Rightarrow> [TargetNetworkTCP] | Network_UDP \<Rightarrow> [TargetNetworkUDP] | _ \<Rightarrow> []) @
           fst (WriteAddressPort addrParser (the (dest_Address (fm_Target f))) (dest_Port (fm_Target f)))
      else [])"

definition frame_bytes :: "FrameMetadata \<Rightarrow> bytes" where
  "frame_bytes f = be_PutUint16 (word_of_nat (length (frame_body f))) @ frame_body f"

text \<open>Metadata that can be sent: a new session names a TCP or UDP target with an address the serialiser
  carries.\<close>

definition frame_ok :: "FrameMetadata \<Rightarrow> bool" where
  "frame_ok f \<longleftrightarrow> (fm_SessionStatus f = SessionStatusNew \<longrightarrow>
     dest_Network (fm_Target f) \<in> {Network_TCP, Network_UDP} \<and> (\<exists>a. dest_Address (fm_Target f) = Some a \<and> carried a))"

lemma fill_at:
  assumes "wf_Buffer b" and "content b = xs @ ys @ zs" and "length bs = length ys"
    and "w = (buf_start b + int (length xs), buf_start b + int (length xs) + int (length ys))"
  shows "wf_Buffer (Buffer_fill b w bs) \<and> content (Buffer_fill b w bs) = xs @ bs @ zs \<and> room (Buffer_fill b w bs) = room b"
proof -
  let ?s = "nat (buf_start b)"
  have len: "buf_end b - buf_start b = int (length xs + length ys + length zs)" using length_content [OF assms(1)] assms(2) by simp
  have nlen: "nat (buf_end b - buf_start b) = length xs + length ys + length zs" using len by (simp only: nat_int)
  have n: "nat (fst w) = ?s + length xs" "nat (snd w - fst w) = length bs" "0 \<le> buf_start b"
    using assms(1,3,4) by (auto simp: wf_Buffer_def nat_add_distrib)
  have fits: "?s + length xs + length ys + length zs \<le> length (buf_v b)" using assms(1) len by (auto simp: wf_Buffer_def)
  have c: "take (length xs + length ys + length zs) (drop ?s (buf_v b)) = xs @ ys @ zs"
    using assms(2) nlen by (simp add: content_def)
  have dv: "drop ?s (buf_v b) = (xs @ ys @ zs) @ drop (?s + length xs + length ys + length zs) (buf_v b)"
    using append_take_drop_id [of "length xs + length ys + length zs" "drop ?s (buf_v b)"] unfolding c
    by (simp add: add.commute add.left_commute)
  have eq: "overwrite (buf_v b) (?s + length xs) bs = take ?s (buf_v b) @ xs @ bs @ zs @ drop (?s + length xs + length ys + length zs) (buf_v b)"
  proof -
    have "take (?s + length xs) (buf_v b) = take ?s (buf_v b) @ xs" by (simp add: take_add dv)
    moreover have "drop (?s + length xs + length bs) (buf_v b) = zs @ drop (?s + length xs + length ys + length zs) (buf_v b)"
    proof -
      have "drop (?s + length xs + length bs) (buf_v b) = drop (length xs + length bs) (drop ?s (buf_v b))"
        by (simp add: add.commute add.left_commute)
      then show ?thesis unfolding dv using assms(3) by simp
    qed
    ultimately show ?thesis by (simp add: overwrite_def)
  qed
  have l: "length (overwrite (buf_v b) (?s + length xs) bs) = length (buf_v b)" using fits assms(3) by simp
  have "content (Buffer_fill b w bs) = xs @ bs @ zs"
    using n nlen fits assms(3) by (simp add: content_def Buffer_fill_def eq)
  then show ?thesis using assms(1) l n by (simp add: Buffer_fill_def wf_Buffer_def room_def)
qed

lemma WriteAddressPort_ok:
  assumes "carried a"
  obtains bs where "WriteAddressPort addrParser a port = (bs, None)" "4 \<le> length bs" "length bs \<le> 259"
proof -
  have wf: "wf_Buffer (Buffer_New (replicate 2048 0))" "259 \<le> room (Buffer_New (replicate 2048 0))" by simp_all
  obtain bs where bs: "WriteAddressPort addrParser a port = (bs, None)"
    using address_write_read [OF wf addrParser_knows assms, of port] by blast
  have "4 \<le> length bs \<and> length bs \<le> 259"
    using assms bs by (cases a) (auto simp: WriteAddressPort_def writeAddress_def addrParser_fields family_defs afInvalid_def
        IsDomainTooLong_def writePort_def serial_WriteUint16_def Suc_le_eq)
  then show thesis using that bs by blast
qed

lemma network_byte_ok:
  assumes "n \<in> {Network_TCP, Network_UDP}" and "wf_Buffer b" and "0 < room b"
  obtains b' x where "network_byte n b = Some b'" "wf_Buffer b'" "content b' = content b @ [x]" "room b' = room b - 1"
    "buf_start b' = buf_start b" "[x] = (case n of Network_TCP \<Rightarrow> [TargetNetworkTCP] | Network_UDP \<Rightarrow> [TargetNetworkUDP] | _ \<Rightarrow> [])"
proof -
  define x where "x = (if n = Network_TCP then TargetNetworkTCP else TargetNetworkUDP)"
  obtain b' where "Buffer_WriteByte b x = Ok b'" "wf_Buffer b'" "content b' = content b @ [x]" "room b' = room b - 1"
    "buf_start b' = buf_start b"
    by (rule WriteByte_ok [OF assms(2,3)])
  then show thesis using that [of b' x] assms(1) by (auto simp: network_byte_def x_def Must_def)
qed

lemma WriteAddressPort_length:
  "carried a \<Longrightarrow> length (fst (WriteAddressPort addrParser a port)) \<le> 259"
  "carried a \<Longrightarrow> 4 \<le> length (fst (WriteAddressPort addrParser a port))"
  by (rule WriteAddressPort_ok [of a port]; simp)+

lemma frame_body_length: "frame_ok f \<Longrightarrow> 4 \<le> length (frame_body f) \<and> length (frame_body f) \<le> 264"
  using WriteAddressPort_length by (auto simp: frame_ok_def frame_body_def)

text \<open>The part of the frame after the session, the status and the options.\<close>

lemma write_target:
  assumes "frame_ok f" and "wf_Buffer b" and "260 \<le> room b"
  obtains b' where "(if fm_SessionStatus f = SessionStatusNew
          then do {
            b \<leftarrow> network_byte (dest_Network (fm_Target f)) b;
            address \<leftarrow> dest_Address (fm_Target f);
            let (bs, err) = WriteAddressPort addrParser address (dest_Port (fm_Target f));
            (b, _) \<leftarrow> Buffer_Write b bs;
            Some (b, err)
          }
          else Some (b, None)) = Some (b', None)" "wf_Buffer b'"
    "content b @ drop 4 (frame_body f) = content b'" "buf_start b' = buf_start b" "room b' + (length (frame_body f) - 4) = room b"
proof (cases "fm_SessionStatus f = SessionStatusNew")
  case False
  then show thesis using that [of b] assms by (simp add: frame_body_def)
next
  case True
  obtain a where a: "dest_Network (fm_Target f) \<in> {Network_TCP, Network_UDP}" "dest_Address (fm_Target f) = Some a" "carried a"
    using assms(1) True by (auto simp: frame_ok_def)
  obtain b1 x where b1: "network_byte (dest_Network (fm_Target f)) b = Some b1" "wf_Buffer b1" "content b1 = content b @ [x]"
    "room b1 = room b - 1" "buf_start b1 = buf_start b"
    "[x] = (case dest_Network (fm_Target f) of Network_TCP \<Rightarrow> [TargetNetworkTCP] | Network_UDP \<Rightarrow> [TargetNetworkUDP] | _ \<Rightarrow> [])"
    by (rule network_byte_ok [OF a(1) assms(2)]) (use assms(3) in auto)
  obtain bs where bs: "WriteAddressPort addrParser a (dest_Port (fm_Target f)) = (bs, None)" "length bs \<le> 259"
    by (rule WriteAddressPort_ok [OF a(3)])
  obtain b2 where b2: "Buffer_Write b1 bs = Some (b2, int (min (room b1) (length bs)))" "wf_Buffer b2"
    "content b2 = content b1 @ take (room b1) bs" "room b2 = room b1 - length bs"
    by (rule Buffer_Write_spec [OF b1(2)])
  have r: "length bs \<le> room b1" using bs(2) b1(4) assms(3) by simp
  have st: "buf_start b2 = buf_start b1" using b2(1) by (auto simp: Buffer_Write_def Let_def split: option.splits)
  have fb: "drop 4 (frame_body f) = x # bs" using True a bs b1(6) by (auto simp: frame_body_def)
  then have "length (frame_body f) - 4 = Suc (length bs)" by (metis length_Cons length_drop)
  then show thesis using that [of b2] True a b1 b2 bs r st fb assms(3) by simp
qed

lemma WriteTo_ok:
  assumes "frame_ok f" and "wf_Buffer b" and "266 \<le> room b"
  obtains b' where "FrameMetadata_WriteTo f b = Some (b', None)" "wf_Buffer b'" "content b' = content b @ frame_bytes f"
    "room b' + length (frame_bytes f) = room b"
proof -
  let ?id = "be_PutUint16 (fm_SessionID f)"
  have rm: "2 \<le> room b" using assms(3) by simp
  define b1 where "b1 = b\<lparr>buf_end := buf_end b + 2\<rparr>"
  have e1: "Buffer_Extend b 2 = Some (b1, buf_end b, buf_end b + 2)"
    using Buffer_Extend_iff [OF assms(2), of 2] rm by (simp add: b1_def)
  obtain g where g: "content b1 = content b @ g" "length g = 2" "wf_Buffer b1" "room b1 = room b - 2" "buf_start b1 = buf_start b"
  proof -
    have wf: "wf_Buffer b1" "room b1 = room b - 2" using assms(2,3) by (auto simp: b1_def wf_Buffer_def room_def)
    have pre: "content b = take (length (content b)) (content b1)"
      using assms(2) by (auto simp: content_def b1_def wf_Buffer_def take_drop min_def)
    have len: "length (content b1) = length (content b) + 2"
      using length_content [OF wf(1)] length_content [OF assms(2)] by (simp add: b1_def)
    have "content b1 = content b @ drop (length (content b)) (content b1)" by (metis pre append_take_drop_id)
    then show thesis using that [of "drop (length (content b)) (content b1)"] wf len by (simp add: b1_def)
  qed
  have "length ?id \<le> room b1" using g(4) assms(3) by simp
  then obtain b2 w where b2: "Buffer_Extend b1 (int (length ?id)) = Some (b2, w)" "wf_Buffer (Buffer_fill b2 w ?id)"
      "content (Buffer_fill b2 w ?id) = content b1 @ ?id" "room (Buffer_fill b2 w ?id) = room b1 - 2" "buf_start (Buffer_fill b2 w ?id) = buf_start b1"
    using Extend_fill_start [OF g(3), of ?id] unfolding length_be_Put by simp blast
  obtain b3 where b3: "Buffer_WriteByte (Buffer_fill b2 w ?id) (fm_SessionStatus f) = Ok b3" "wf_Buffer b3"
      "content b3 = content (Buffer_fill b2 w ?id) @ [fm_SessionStatus f]" "room b3 = room (Buffer_fill b2 w ?id) - 1" "buf_start b3 = buf_start (Buffer_fill b2 w ?id)"
    by (rule WriteByte_ok [OF b2(2)]) (use b2(4) g(4) assms(3) in auto)
  obtain b4 where b4: "Buffer_WriteByte b3 (fm_Option f) = Ok b4" "wf_Buffer b4"
      "content b4 = content b3 @ [fm_Option f]" "room b4 = room b3 - 1" "buf_start b4 = buf_start b3"
    by (rule WriteByte_ok [OF b3(2)]) (use b3(4) b2(4) g(4) assms(3) in auto)
  have r4: "260 \<le> room b4" "room b4 + 6 = room b" using b4(4) b3(4) b2(4) g(4) assms(3) by auto
  obtain b5 where b5: "(if fm_SessionStatus f = SessionStatusNew
          then do {
            b \<leftarrow> network_byte (dest_Network (fm_Target f)) b4;
            address \<leftarrow> dest_Address (fm_Target f);
            let (bs, err) = WriteAddressPort addrParser address (dest_Port (fm_Target f));
            (b, _) \<leftarrow> Buffer_Write b bs;
            Some (b, err)
          }
          else Some (b4, None)) = Some (b5, None)" "wf_Buffer b5"
    "content b4 @ drop 4 (frame_body f) = content b5" "buf_start b5 = buf_start b4" "room b5 + (length (frame_body f) - 4) = room b4"
    by (rule write_target [OF assms(1) b4(2) r4(1)])
  have fb: "frame_body f = (?id @ [fm_SessionStatus f, fm_Option f]) @ drop 4 (frame_body f)" by (simp add: frame_body_def)
  have c5: "content b5 = content b @ g @ frame_body f"
    using b5(3) b4(3) b3(3) b2(3) g(1) fb by simp
  have len: "Buffer_Len (Some b5) - Buffer_Len (Some b1) = int (length (frame_body f))"
    using Buffer_Len_content [OF b5(2)] Buffer_Len_content [OF g(3)] c5 g(1,2) by simp
  have fbl: "4 \<le> length (frame_body f)" "length (frame_body f) \<le> 264" using frame_body_length [OF assms(1)] by auto
  then have i: "i32 (int (length (frame_body f))) = int (length (frame_body f))" by (intro i32_id) auto
  have "buf_end b = buf_start b5 + int (length (content b))"
    using length_content [OF assms(2)] b5(4) b4(5) b3(5) b2(5) g(5) by simp
  then have f: "wf_Buffer (Buffer_fill b5 (buf_end b, buf_end b + 2) (be_PutUint16 (word_of_nat (length (frame_body f)))))"
      "content (Buffer_fill b5 (buf_end b, buf_end b + 2) (be_PutUint16 (word_of_nat (length (frame_body f))))) = content b @ frame_bytes f"
      "room (Buffer_fill b5 (buf_end b, buf_end b + 2) (be_PutUint16 (word_of_nat (length (frame_body f))))) = room b5"
    using fill_at [OF b5(2) c5, of "be_PutUint16 (word_of_nat (length (frame_body f)))"] g(2) by (simp_all add: frame_bytes_def)
  show thesis
  proof (rule that [OF _ f(1,2)])
    show "FrameMetadata_WriteTo f b = Some (Buffer_fill b5 (buf_end b, buf_end b + 2) (be_PutUint16 (word_of_nat (length (frame_body f)))), None)"
      using e1 b2(1) b3(1) b4(1) b5(1) len i by (simp add: FrameMetadata_WriteTo_def Must_def)
    show "room (Buffer_fill b5 (buf_end b, buf_end b + 2) (be_PutUint16 (word_of_nat (length (frame_body f))))) + length (frame_bytes f) = room b"
      using f(3) b5(5) r4(2) fbl by (simp add: frame_bytes_def)
  qed
qed

section \<open>Reading a frame\<close>

lemma Buffer_Byte_content:
  assumes "wf_Buffer b" and "i < length (content b)"
  shows "Buffer_Byte b (int i) = Some (content b ! i)"
proof -
  have len: "int i < buf_end b - buf_start b" using length_content [OF assms(1)] assms(2) by simp
  have k: "0 \<le> buf_start b + int i" "buf_start b + int i < int (length (buf_v b))" using assms(1) len by (auto simp: wf_Buffer_def)
  have "nat (buf_start b + int i) = nat (buf_start b) + i" using assms(1) by (auto simp: wf_Buffer_def nat_add_distrib)
  then have "buf_v b ! nat (buf_start b + int i) = content b ! i"
    using assms(1) len k by (auto simp: content_def wf_Buffer_def)
  then show ?thesis using k wf_i32(3) [OF assms(1), of "buf_start b + int i"] by (simp add: Buffer_Byte_def index_def)
qed

lemma unmarshal_head:
  assumes "wf_Buffer b" and "4 \<le> length (content b)"
  shows "\<exists>id. Buffer_BytesTo b 2 = Some (take 2 (content b)) \<and> be_Uint16 (take 2 (content b)) = Some id"
    and "Buffer_Byte b 2 = Some (content b ! 2)" and "Buffer_Byte b 3 = Some (content b ! 3)"
    and "\<not> Buffer_Len (Some b) < 4"
  using assms Buffer_BytesTo_content [OF assms(1), of 2] be_Uint16_defined [of "take 2 (content b)"]
    Buffer_Byte_content [OF assms(1), of 2] Buffer_Byte_content [OF assms(1), of 3] Buffer_Len_content [OF assms(1)] by auto

text \<open>No bytes make it panic, and the metadata of a new session has an address.\<close>

lemma UnmarshalFromBuffer_safe:
  assumes "wf_Buffer b" and "length q = 2048"
  shows "\<exists>f' err. UnmarshalFromBuffer q f b = Some (f', err) \<and>
    (err = None \<longrightarrow> fm_SessionStatus f' = SessionStatusNew \<longrightarrow>
       dest_Network (fm_Target f') \<in> {Network_TCP, Network_UDP} \<and> (\<exists>a. dest_Address (fm_Target f') = Some a))"
proof (cases "Buffer_Len (Some b) < 4")
  case True
  then show ?thesis by (simp add: UnmarshalFromBuffer_def)
next
  case False
  then have l4: "4 \<le> length (content b)" using Buffer_Len_content [OF assms(1)] by simp
  note h = unmarshal_head [OF assms(1) l4]
  from h(1) obtain id where id: "Buffer_BytesTo b 2 = Some (take 2 (content b))" "be_Uint16 (take 2 (content b)) = Some id" by blast
  show ?thesis
  proof (cases "content b ! 2 = SessionStatusNew \<and> 8 \<le> length (content b)")
    case False
    then show ?thesis using id h(2-4) Buffer_Len_content [OF assms(1)] by (auto simp: UnmarshalFromBuffer_def Let_def)
  next
    case True
    have adv: "wf_Buffer (Buffer_Advance b 5)" using Buffer_Advance_content [OF assms(1), of 5] True by simp
    have b4: "Buffer_Byte b 4 = Some (content b ! 4)" using Buffer_Byte_content [OF assms(1), of 4] True by simp
    have sm: "small_buf (Buffer_New q)" using assms(2) by (simp add: small_buf_def Buffer_New_def wf_Buffer_def)
    consider e where "ReadAddressPort addrParser (Buffer_New q) (content (Buffer_Advance b 5)) = Fail e"
      | a port b' rest where "ReadAddressPort addrParser (Buffer_New q) (content (Buffer_Advance b 5)) = Ok ((Some a, port), b', rest)"
      using ReadAddressPort_safe [OF sm addrParser_ok] by blast
    then show ?thesis
      using True id h(2-4) b4 Buffer_Bytes_content [OF adv] Buffer_Len_content [OF assms(1)]
      by cases (auto simp: UnmarshalFromBuffer_def Let_def TCPDestination_def UDPDestination_def)
  qed
qed

text \<open>The metadata read from the bytes of a frame: of the target of a session that is not new only the
  network is touched.\<close>

definition unmarshalled :: "FrameMetadata \<Rightarrow> FrameMetadata \<Rightarrow> FrameMetadata" where
  "unmarshalled f0 f =
     (if fm_SessionStatus f = SessionStatusNew then f else f\<lparr>fm_Target := (fm_Target f0)\<lparr>dest_Network := Network_Unknown\<rparr>\<rparr>)"

lemma Destination_eq: "dest_Network d = Network_TCP \<Longrightarrow> TCPDestination (dest_Address d) (dest_Port d) = d"
  "dest_Network d = Network_UDP \<Longrightarrow> UDPDestination (dest_Address d) (dest_Port d) = d"
  by (simp_all add: TCPDestination_def UDPDestination_def)

lemma UnmarshalFromBuffer_ok:
  assumes "frame_ok f" and "wf_Buffer b" and "content b = frame_body f" and "length q = 2048"
  shows "UnmarshalFromBuffer q f0 b = Some (unmarshalled f0 f, None)"
proof -
  have l4: "4 \<le> length (content b)" using frame_body_length [OF assms(1)] assms(3) by simp
  note h = unmarshal_head [OF assms(2) l4]
  have c: "take 2 (content b) = be_PutUint16 (fm_SessionID f)" "content b ! 2 = fm_SessionStatus f" "content b ! 3 = fm_Option f"
    using assms(3) by (simp_all add: frame_body_def be_PutUint16_def)
  show ?thesis
  proof (cases "fm_SessionStatus f = SessionStatusNew")
    case False
    then show ?thesis using h c by (simp add: UnmarshalFromBuffer_def unmarshalled_def)
  next
    case True
    obtain a where a: "dest_Network (fm_Target f) \<in> {Network_TCP, Network_UDP}" "dest_Address (fm_Target f) = Some a" "carried a"
      using assms(1) True by (auto simp: frame_ok_def)
    let ?x = "if dest_Network (fm_Target f) = Network_TCP then TargetNetworkTCP else TargetNetworkUDP"
    obtain bs where bs: "WriteAddressPort addrParser a (dest_Port (fm_Target f)) = (bs, None)" "4 \<le> length bs"
      by (rule WriteAddressPort_ok [OF a(3)])
    have cc: "content b = be_PutUint16 (fm_SessionID f) @ [fm_SessionStatus f, fm_Option f, ?x] @ bs"
      using assms(3) True a bs by (auto simp: frame_body_def)
    have adv: "wf_Buffer (Buffer_Advance b 5)" "content (Buffer_Advance b 5) = bs"
      using Buffer_Advance_content [OF assms(2), of 5] cc bs(2) by (simp_all add: be_PutUint16_def)
    have b4: "Buffer_Byte b 4 = Some ?x" using Buffer_Byte_content [OF assms(2), of 4] cc by (simp add: be_PutUint16_def)
    have wf: "wf_Buffer (Buffer_New q)" "259 \<le> room (Buffer_New q)" using assms(4) by simp_all
    obtain b' where rd: "ReadAddressPort addrParser (Buffer_New q) (bs @ []) = Ok ((Some a, dest_Port (fm_Target f)), b', [])"
      using address_write_read [OF wf addrParser_knows a(3), of "dest_Port (fm_Target f)" "[]"] bs by auto
    have l8: "\<not> Buffer_Len (Some b) < 8" using Buffer_Len_content [OF assms(2)] cc bs(2) by simp
    show ?thesis
      using True a h(1-4) c b4 adv rd l8 Buffer_Bytes_content [OF adv(1)] Destination_eq [of "fm_Target f"]
      by (auto simp: UnmarshalFromBuffer_def unmarshalled_def TargetNetworkTCP_def TargetNetworkUDP_def)
  qed
qed

context io_source
begin

lemma ReadUint16_ok:
  assumes "rep s (be_PutUint16 x @ rest)"
  obtains s' where "serial_ReadUint16_from rd s = Some (s', Inr x)" "rep s' rest"
  using io_ReadFull_ok [OF assms, of "[]"] by (auto simp: serial_ReadUint16_from_def numeral_2_eq_2)

lemma Unmarshal_ok:
  assumes "frame_ok f" and "length p = 2048" and "length q = 2048" and "rep s (frame_bytes f @ rest)"
  obtains s' where "FrameMetadata_Unmarshal p q rd f0 s = Some (s', unmarshalled f0 f, None)" "rep s' rest"
proof -
  have fbl: "length (frame_body f) \<le> 264" using frame_body_length [OF assms(1)] by simp
  have "rep s (be_PutUint16 (word_of_nat (length (frame_body f))) @ frame_body f @ rest)" using assms(4) by (simp add: frame_bytes_def)
  from ReadUint16_ok [OF this] obtain s1 where s1: "serial_ReadUint16_from rd s = Some (s1, Inr (word_of_nat (length (frame_body f))))"
    "rep s1 (frame_body f @ rest)" .
  have wf: "wf_Buffer (Buffer_New p)" "length (frame_body f) \<le> room (Buffer_New p)" using assms(2) fbl by simp_all
  obtain s2 b where b: "buffer_read_full rd s1 (Buffer_New p) (int (length (frame_body f))) = Some (s2, b, None)" "rep s2 rest"
    "wf_Buffer b" "content b = content (Buffer_New p) @ frame_body f"
    by (rule buffer_read_full_ok [OF wf s1(2)])
  have u: "unat (word_of_nat (length (frame_body f)) :: u16) = length (frame_body f)" using fbl by simp
  have m: "uint (word_of_nat (length (frame_body f)) :: u16) = int (length (frame_body f))" using u by (metis uint_nat)
  have n: "\<not> (word_of_nat (length (frame_body f)) :: u16) > 512" using u fbl by (simp add: word_less_nat_alt)
  have "UnmarshalFromBuffer q f0 b = Some (unmarshalled f0 f, None)"
    using b(3,4) by (intro UnmarshalFromBuffer_ok [OF assms(1) _ _ assms(3)]) simp_all
  then show thesis using that [of s2] s1(1) b(1,2) m n by (simp add: FrameMetadata_Unmarshal_def)
qed

end

text \<open>Readers that go on reporting the end once they have reported it. \<open>rep s bs\<close> then bounds all that is still
  to come.\<close>

locale sticky_io = io_source rd rep for rd :: "'s io_reader" and rep +
  assumes io_stays: "rep s [] \<Longrightarrow> rd s n = Some (s', [], Some EOF) \<Longrightarrow> rep s' []"
begin

lemma io_ReadFull_total:
  "rep s bs \<Longrightarrow> \<exists>s' data err bs'. io_ReadFull_from rd s (length acc + n) acc = Some (s', acc @ data, err) \<and> length data \<le> n \<and>
     bs = data @ bs' \<and> rep s' bs' \<and> (err = None \<longrightarrow> length data = n)"
proof (induction n arbitrary: s bs acc rule: less_induct)
  case (less n)
  show ?case
  proof (cases "n = 0")
    case True
    then show ?thesis using less.prems by (subst io_ReadFull_from.simps) auto
  next
    case n: False
    show ?thesis
    proof (cases "bs = []")
      case True
      then obtain s' where "rd s n = Some (s', [], Some EOF)" using io_end [of s n] less.prems n by auto
      moreover have "rep s' []" using io_stays less.prems True calculation by blast
      ultimately show ?thesis using n True by (subst io_ReadFull_from.simps) auto
    next
      case False
      obtain s1 k where k: "rd s n = Some (s1, take k bs, None)" "0 < k" "k \<le> n" "rep s1 (drop k bs)"
        using io_more [OF less.prems False, of n] n by auto
      let ?d = "take k bs"
      have l: "length ?d \<le> n" "n - length ?d < n" using k(2,3) False n by auto
      obtain s' data err bs' where IH: "io_ReadFull_from rd s1 (length (acc @ ?d) + (n - length ?d)) (acc @ ?d) = Some (s', (acc @ ?d) @ data, err)"
          "length data \<le> n - length ?d" "drop k bs = data @ bs'" "rep s' bs'" "err = None \<longrightarrow> length data = n - length ?d"
        using less.IH [OF l(2) k(4), of "acc @ ?d"] by blast
      have step: "io_ReadFull_from rd s (length acc + n) acc = io_ReadFull_from rd s1 (length acc + n) (acc @ ?d)"
        using n k(1) by (subst io_ReadFull_from.simps) simp
      have e: "length (acc @ ?d) + (n - length ?d) = length acc + n" using l(1) by simp
      have eq: "io_ReadFull_from rd s (length acc + n) acc = Some (s', acc @ (?d @ data), err)" using step IH(1) [unfolded e] by simp
      have "bs = (?d @ data) @ bs'" using IH(3) by (metis append.assoc append_take_drop_id)
      then show ?thesis using eq IH(2,4,5) l(1) by (intro exI conjI) auto
    qed
  qed
qed

lemma buffer_read_full_total:
  assumes "wf_Buffer b" and "n \<le> room b" and "rep s bs"
  shows "\<exists>s' b' err bs'. buffer_read_full rd s b (int n) = Some (s', b', err) \<and> rep s' bs' \<and> length bs' \<le> length bs \<and>
    (err = None \<longrightarrow> wf_Buffer b' \<and> length (content b') = length (content b) + n)"
proof -
  have bnd: "buf_end b + int n \<le> int (length (buf_v b))" "0 \<le> buf_end b" "int (length (buf_v b)) < 2 ^ 31"
    using assms(1,2) by (auto simp: room_def wf_Buffer_def)
  then have i: "i32 (buf_end b + int n) = buf_end b + int n" "i32 (int (length (buf_v b))) = int (length (buf_v b))"
    by (auto intro!: i32_id)
  obtain s' data err bs' where rf: "io_ReadFull_from rd s n [] = Some (s', data, err)" "bs = data @ bs'" "rep s' bs'" "err = None \<longrightarrow> length data = n"
    using io_ReadFull_total [OF assms(3), of "[]" n] by auto
  have sl: "slice_of (buf_v b) (buf_end b) (buf_end b + int n) = Some (take n (drop (nat (buf_end b)) (buf_v b)))"
    "length (take n (drop (nat (buf_end b)) (buf_v b))) = n"
    using bnd by (auto simp: slice_of_def)
  show ?thesis
  proof (cases err)
    case (Some e)
    then show ?thesis using i sl rf bnd by (auto simp: buffer_read_full_def Let_def simp del: length_take)
  next
    case None
    then have d: "length data = n" using rf(4) by blast
    have rp: "rep s (data @ bs')" and rm: "length data \<le> room b" using assms d rf(2) by simp_all
    obtain s2 b2 where "buffer_read_full rd s b (int (length data)) = Some (s2, b2, None)" "rep s2 bs'" "wf_Buffer b2"
        "content b2 = content b @ data"
      by (rule buffer_read_full_ok [OF assms(1) rm rp])
    then show ?thesis using d rf(2) by auto
  qed
qed

text \<open>No stream of bytes makes the reader of the metadata panic or hang, and every frame takes bytes off it.\<close>

lemma Unmarshal_safe:
  assumes "length p = 2048" and "length q = 2048" and "rep s bs"
  shows "\<exists>s' f' err bs'. FrameMetadata_Unmarshal p q rd f s = Some (s', f', err) \<and> rep s' bs' \<and> length bs' \<le> length bs \<and>
    (err = None \<longrightarrow> length bs' < length bs \<and> (fm_SessionStatus f' = SessionStatusNew \<longrightarrow>
       dest_Network (fm_Target f') \<in> {Network_TCP, Network_UDP} \<and> (\<exists>a. dest_Address (fm_Target f') = Some a)))"
proof -
  obtain s1 data err bs1 where rf: "io_ReadFull_from rd s 2 [] = Some (s1, data, err)" "bs = data @ bs1" "rep s1 bs1"
      "err = None \<longrightarrow> length data = 2"
    using io_ReadFull_total [OF assms(3), of "[]" 2] by (simp add: numeral_2_eq_2) blast
  show ?thesis
  proof (cases err)
    case (Some e)
    then show ?thesis using rf by (auto simp: FrameMetadata_Unmarshal_def serial_ReadUint16_from_def)
  next
    case None
    then obtain x where d: "length data = 2" "be_Uint16 data = Some x" using rf(4) be_Uint16_defined [of data] by auto
    show ?thesis
    proof (cases "x > 512")
      case True
      then show ?thesis using rf None d by (auto simp: FrameMetadata_Unmarshal_def serial_ReadUint16_from_def)
    next
      case False
      have x: "unat x \<le> 512" "int (unat x) = uint x" using False by (simp_all add: word_less_nat_alt not_less)
      have "wf_Buffer (Buffer_New p)" "unat x \<le> room (Buffer_New p)" using assms(1) x(1) by simp_all
      from buffer_read_full_total [OF this rf(3)] x(2)
      obtain s2 b err2 bs2 where b: "buffer_read_full rd s1 (Buffer_New p) (uint x) = Some (s2, b, err2)"
          "rep s2 bs2" "length bs2 \<le> length bs1" "err2 = None \<longrightarrow> wf_Buffer b" by auto
      have len: "length bs2 < length bs" using b(3) rf(2) d(1) by simp
      show ?thesis
      proof (cases err2)
        case (Some e)
        then show ?thesis using rf(1) None d False b len by (auto simp: FrameMetadata_Unmarshal_def serial_ReadUint16_from_def)
      next
        case err2: None
        obtain f' err3 where "UnmarshalFromBuffer q f b = Some (f', err3)" "err3 = None \<longrightarrow> fm_SessionStatus f' = SessionStatusNew \<longrightarrow>
           dest_Network (fm_Target f') \<in> {Network_TCP, Network_UDP} \<and> (\<exists>a. dest_Address (fm_Target f') = Some a)"
          using UnmarshalFromBuffer_safe [of b q f] b(4) err2 assms(2) by blast
        then show ?thesis
          using rf(1) None d False b(1,2) len err2 by (auto simp: FrameMetadata_Unmarshal_def serial_ReadUint16_from_def)
      qed
    qed
  qed
qed

end

interpretation conts: sticky_io Container_reader "\<lambda>c bs. wf_mb c \<and> mb_content c = bs"
proof unfold_locales
  fix c c' n assume c: "wf_mb c \<and> mb_content c = []" "Container_reader c n = Some (c', [], Some EOF)"
  then show "wf_mb c' \<and> mb_content c' = []"
    by (auto simp: Container_reader_def outcome_read_def split: outcome.splits)
qed

section \<open>Properties\<close>

text \<open>C15. Frame metadata survives the wire: what \<^verbatim>\<open>WriteTo\<close> puts into a fresh buffer, \<^verbatim>\<open>Unmarshal\<close> reads back from any
  byte reader, however it cuts the stream, leaving the bytes that follow: the session, the status,
  the options and, for a new session, the target.\<close>

theorem frame_roundtrip:
  assumes "io_source rd rep" and "frame_ok f" and "length p = 2048" and "length q = 2048"
  shows "\<exists>b. FrameMetadata_WriteTo f (Buffer_New p) = Some (b, None) \<and> wf_Buffer b \<and>
     (\<forall>s rest f0. rep s (content b @ rest) \<longrightarrow>
        (\<exists>s'. FrameMetadata_Unmarshal p q rd f0 s = Some (s', unmarshalled f0 f, None) \<and> rep s' rest))"
proof -
  have "wf_Buffer (Buffer_New p)" "266 \<le> room (Buffer_New p)" using assms(3) by simp_all
  from WriteTo_ok [OF assms(2) this] obtain b where b: "FrameMetadata_WriteTo f (Buffer_New p) = Some (b, None)" "wf_Buffer b"
    "content b = frame_bytes f" by (metis Buffer_New_spec(2) append_Nil)
  have "\<exists>s'. FrameMetadata_Unmarshal p q rd f0 s = Some (s', unmarshalled f0 f, None) \<and> rep s' rest" if "rep s (content b @ rest)" for s rest f0
    using io_source.Unmarshal_ok [OF assms(1,2,3,4), of s rest f0] that b(3) by auto
  then show ?thesis using b(1,2) by blast
qed

definition example_meta :: FrameMetadata where
  "example_meta = \<lparr>fm_Target = TCPDestination (Some (ipv4Address [10, 0, 0, 1])) 443, fm_SessionID = 7,
     fm_Option = OptionData, fm_SessionStatus = SessionStatusNew\<rparr>"

theorem frame_roundtrip_witness:
  "\<exists>b. FrameMetadata_WriteTo example_meta (Buffer_New (fresh_pool 0)) = Some (b, None) \<and> wf_Buffer b \<and>
     (\<forall>s rest f0. wf_mb s \<and> mb_content s = content b @ rest \<longrightarrow>
        (\<exists>s'. FrameMetadata_Unmarshal (fresh_pool 0) (fresh_pool 0) Container_reader f0 s = Some (s', unmarshalled f0 example_meta, None) \<and>
           wf_mb s' \<and> mb_content s' = rest))"
  by (rule frame_roundtrip [OF contr.io_source_axioms])
    (simp_all add: frame_ok_def example_meta_def TCPDestination_def)

text \<open>C17. Whatever bytes a peer sends, reading the metadata of a frame returns: no panic, no endless loop;
  and the metadata of a new session always has a TCP or UDP target with an address.\<close>

theorem Unmarshal_total:
  assumes "sticky_io rd rep" and "length p = 2048" and "length q = 2048" and "rep s bs"
  shows "\<exists>s' f' err. FrameMetadata_Unmarshal p q rd f s = Some (s', f', err) \<and>
    (err = None \<longrightarrow> fm_SessionStatus f' = SessionStatusNew \<longrightarrow>
       dest_Network (fm_Target f') \<in> {Network_TCP, Network_UDP} \<and> (\<exists>a. dest_Address (fm_Target f') = Some a))"
  using sticky_io.Unmarshal_safe [OF assms, of f] by blast

theorem Unmarshal_total_witness:
  "\<exists>s' f' err. FrameMetadata_Unmarshal (fresh_pool 0) (fresh_pool 0) Container_reader example_meta [filled 0 100] = Some (s', f', err) \<and>
    (err = None \<longrightarrow> fm_SessionStatus f' = SessionStatusNew \<longrightarrow>
       dest_Network (fm_Target f') \<in> {Network_TCP, Network_UDP} \<and> (\<exists>a. dest_Address (fm_Target f') = Some a))"
  by (rule Unmarshal_total [OF conts.sticky_io_axioms, where bs = "replicate 100 1"]) (simp_all add: filled_facts)

end
