(* ===== verification/Mux_Stream.thy ===== *)
theory Mux_Stream
  imports Mux_Frame
begin

text \<open>
  \<^verbatim>\<open>common/mux/writer.go\<close> and \<^verbatim>\<open>common/mux/reader.go\<close>: one session's writer, which cuts its data into frames on the
  shared connection, and the readers of the payload of one frame.

  The shared connection is a \<^verbatim>\<open>buf.Writer\<close> with state \<open>'w\<close>, threaded through. The reader of a stream session
  is a chunk reader that stops after one chunk.
\<close>

section \<open>Writer\<close>

record Writer =
  mw_dest :: Destination
  mw_id :: u16
  mw_followup :: bool
  mw_hasError :: bool
  mw_transferType :: TransferType

definition NewWriter :: "u16 \<Rightarrow> Destination \<Rightarrow> TransferType \<Rightarrow> Writer" where
  "NewWriter sid dest transferType =
     \<lparr>mw_dest = dest, mw_id = sid, mw_followup = False, mw_hasError = False, mw_transferType = transferType\<rparr>"

definition NewResponseWriter :: "u16 \<Rightarrow> TransferType \<Rightarrow> Writer" where
  "NewResponseWriter sid transferType =
     \<lparr>mw_dest = no_target, mw_id = sid, mw_followup = True, mw_hasError = False, mw_transferType = transferType\<rparr>"

definition Writer_getNextFrameMeta :: "Writer \<Rightarrow> Writer \<times> FrameMetadata" where
  "Writer_getNextFrameMeta w =
     (let meta = \<lparr>fm_Target = mw_dest w, fm_SessionID = mw_id w, fm_Option = 0, fm_SessionStatus = 0\<rparr> in
      if mw_followup w then (w, meta\<lparr>fm_SessionStatus := SessionStatusKeep\<rparr>)
      else (w\<lparr>mw_followup := True\<rparr>, meta\<lparr>fm_SessionStatus := SessionStatusNew\<rparr>))"

text \<open>An error of the address serialiser as the error of a \<^verbatim>\<open>buf.Writer\<close>.\<close>

fun meta_error :: "addr_error \<Rightarrow> buf_error" where
  "meta_error (ReadFailed e) = e"
| "meta_error UnknownAddressType = ReadError ''unknown address type''"
| "meta_error InvalidDomain = ReadError ''invalid domain name''"
| "meta_error UnknownFamily = ReadError ''unknown address family''"
| "meta_error DomainTooLong = ReadError ''domain is too long''"

definition Writer_writeMetaOnly :: "bytes \<Rightarrow> 'w mb_writer \<Rightarrow> Writer \<Rightarrow> 'w \<Rightarrow> (Writer \<times> 'w \<times> buf_error option) option" where
  "Writer_writeMetaOnly p wr w s =
     (let (w, meta) = Writer_getNextFrameMeta w in
      do {
        (b, err) \<leftarrow> FrameMetadata_WriteTo meta (Buffer_New p);
        case err of
          Some e \<Rightarrow> Some (w, s, Some (meta_error e))
        | None \<Rightarrow> (let (s, err) = wr s [b] in Some (w, s, err))
      })"

definition writeMetaWithFrame :: "bytes \<Rightarrow> 'w mb_writer \<Rightarrow> 'w \<Rightarrow> FrameMetadata \<Rightarrow> MultiBuffer \<Rightarrow> ('w \<times> buf_error option) option" where
  "writeMetaWithFrame p wr s meta data =
     do {
       (frame, err) \<leftarrow> FrameMetadata_WriteTo meta (Buffer_New p);
       case err of
         Some e \<Rightarrow> Some (s, Some (meta_error e))
       | None \<Rightarrow> do {
           (frame, _) \<leftarrow> Buffer_Write frame (serial_WriteUint16 (word_of_int (MultiBuffer_Len data)));
           if length data + 1 > 64 * 1024 * 1024 then Some (s, Some tooLarge)
           else Some (wr s ([frame] @ data))
         }
     }"

definition Writer_writeData :: "bytes \<Rightarrow> 'w mb_writer \<Rightarrow> Writer \<Rightarrow> 'w \<Rightarrow> MultiBuffer \<Rightarrow> (Writer \<times> 'w \<times> buf_error option) option" where
  "Writer_writeData p wr w s mb =
     (let (w, meta) = Writer_getNextFrameMeta w; meta = meta\<lparr>fm_Option := Byte_Set (fm_Option meta) OptionData\<rparr>
      in map_option (\<lambda>(s, err). (w, s, err)) (writeMetaWithFrame p wr s meta mb))"

definition next_chunk :: "bytes \<Rightarrow> TransferType \<Rightarrow> MultiBuffer \<Rightarrow> (MultiBuffer \<times> MultiBuffer) option" where
  "next_chunk p t mb =
     (if t = TransferTypeStream then SplitSize p mb (8 * 1024)
      else let (mb2, b) = SplitFirst mb in Some (mb2, case b of None \<Rightarrow> [] | Some b \<Rightarrow> [b]))"

partial_function (option) Writer_loop :: "bytes \<Rightarrow> 'w mb_writer \<Rightarrow> Writer \<Rightarrow> 'w \<Rightarrow> MultiBuffer \<Rightarrow> (Writer \<times> 'w \<times> buf_error option) option" where
  "Writer_loop p wr w s mb =
     (if MultiBuffer_IsEmpty mb then Some (w, s, None)
      else Option.bind (next_chunk p (mw_transferType w) mb) (\<lambda>(mb, chunk).
           Option.bind (Writer_writeData p wr w s chunk) (\<lambda>(w, s, err).
           if err \<noteq> None then Some (w, s, err) else Writer_loop p wr w s mb)))"

definition Writer_WriteMultiBuffer :: "bytes \<Rightarrow> 'w mb_writer \<Rightarrow> Writer \<Rightarrow> 'w \<Rightarrow> MultiBuffer \<Rightarrow> (Writer \<times> 'w \<times> buf_error option) option" where
  "Writer_WriteMultiBuffer p wr w s mb =
     (if MultiBuffer_IsEmpty mb then Writer_writeMetaOnly p wr w s else Writer_loop p wr w s mb)"

definition Writer_Close :: "bytes \<Rightarrow> 'w mb_writer \<Rightarrow> Writer \<Rightarrow> 'w \<Rightarrow> 'w option" where
  "Writer_Close p wr w s =
     (let meta = \<lparr>fm_Target = no_target, fm_SessionID = mw_id w, fm_Option = 0, fm_SessionStatus = SessionStatusEnd\<rparr>;
          meta = (if mw_hasError w then meta\<lparr>fm_Option := Byte_Set (fm_Option meta) OptionError\<rparr> else meta)
      in do {
        (frame, err) \<leftarrow> FrameMetadata_WriteTo meta (Buffer_New p);
        if err \<noteq> None then None else Some (fst (wr s [frame]))
      })"

section \<open>Readers\<close>

text \<open>\<^verbatim>\<open>PacketReader\<close> of the multiplexer, over the buffered reader of the connection.\<close>

record 'r mux_PacketReader =
  mp_reader :: "'r BufferedReader"
  mp_eof :: bool

definition NewPacketReader :: "'r BufferedReader \<Rightarrow> 'r mux_PacketReader" where
  "NewPacketReader reader = \<lparr>mp_reader = reader, mp_eof = False\<rparr>"

definition packetTooLarge :: buf_error where "packetTooLarge = ReadError ''packet size too large''"

definition mux_PacketReader_ReadMultiBuffer :: "bytes \<Rightarrow> 'r mb_reader \<Rightarrow> 'r mux_PacketReader mb_reader" where
  "mux_PacketReader_ReadMultiBuffer p rd r =
     (if mp_eof r then Some (r, [], Some EOF)
      else do {
        (reader, res) \<leftarrow> serial_ReadUint16_from (BufferedReader_Read rd) (mp_reader r);
        let r = r\<lparr>mp_reader := reader\<rparr>;
        case res of
          Inl e \<Rightarrow> Some (r, [], Some e)
        | Inr size' \<Rightarrow>
            if uint size' > Size then Some (r, [], Some packetTooLarge)
            else do {
              (reader, b, err) \<leftarrow> buffer_read_full (BufferedReader_Read rd) (mp_reader r) (Buffer_New p) (uint size');
              let r = r\<lparr>mp_reader := reader\<rparr>;
              case err of
                Some e \<Rightarrow> Some (r, [], Some e)
              | None \<Rightarrow> Some (r\<lparr>mp_eof := True\<rparr>, [b], None)
            }
      })"

definition NewStreamReader :: "'r BufferedReader \<Rightarrow> ('r, unit) ChunkStreamReader" where
  "NewStreamReader reader = NewChunkStreamReaderWithChunkCount () reader 1"

text \<open>The reader a session makes for a frame, and the connection's reader inside it.\<close>

datatype 'r session_reader = StreamR "('r, unit) ChunkStreamReader" | PacketR "'r mux_PacketReader"

definition Session_NewReader :: "TransferType \<Rightarrow> 'r BufferedReader \<Rightarrow> 'r session_reader" where
  "Session_NewReader transferType reader =
     (if transferType = TransferTypeStream then StreamR (NewStreamReader reader) else PacketR (NewPacketReader reader))"

fun session_read :: "bytes \<Rightarrow> 'r mb_reader \<Rightarrow> 'r session_reader mb_reader" where
  "session_read p rd (StreamR r) =
     map_option (\<lambda>(r, mb, err). (StreamR r, mb, err)) (ChunkStreamReader_ReadMultiBuffer p PlainChunkSizeParser rd r)"
| "session_read p rd (PacketR r) =
     map_option (\<lambda>(r, mb, err). (PacketR r, mb, err)) (mux_PacketReader_ReadMultiBuffer p rd r)"

fun connection_reader :: "'r session_reader \<Rightarrow> 'r BufferedReader" where
  "connection_reader (StreamR r) = csr_reader r"
| "connection_reader (PacketR r) = mp_reader r"

section \<open>Every read of a payload takes bytes off the connection\<close>

text \<open>\<open>left r n\<close>: at most \<open>n\<close> bytes are still to come. A copy from such a reader ends, whatever the writer does.\<close>

locale finite_reader =
  fixes rd :: "'r mb_reader" and left :: "'r \<Rightarrow> nat \<Rightarrow> bool"
  assumes step: "left r n \<Longrightarrow> \<exists>r' mb err n'. rd r = Some (r', mb, err) \<and> left r' n' \<and> n' \<le> n \<and> (err = None \<longrightarrow> n' < n)"
begin

lemma copyInternal_ends:
  "left r n \<Longrightarrow> \<exists>r' w' h' err n'. copyInternal rd wr onData r w h = Some (r', w', h', err) \<and> left r' n' \<and> n' \<le> n"
proof (induction n arbitrary: r w h rule: less_induct)
  case (less n)
  obtain r1 mb err n1 where r1: "rd r = Some (r1, mb, err)" "left r1 n1" "n1 \<le> n" "err = None \<longrightarrow> n1 < n"
    using step [OF less.prems] by blast
  define h1 where "h1 = (if MultiBuffer_IsEmpty mb then h else fold (\<lambda>f h. f h mb) onData h)"
  obtain w1 werr where w1: "(if MultiBuffer_IsEmpty mb then (w, None) else wr w mb) = (w1, werr)" by fastforce
  show ?case
  proof (cases "werr = None \<and> err = None")
    case True
    then have "n1 < n" using r1(4) by simp
    from less.IH [OF this r1(2), of w1 h1] obtain r' w' h' e n' where c: "copyInternal rd wr onData r1 w1 h1 = Some (r', w', h', e)"
        "left r' n'" "n' \<le> n1" by blast
    have "copyInternal rd wr onData r w h = copyInternal rd wr onData r1 w1 h1"
      using r1(1) w1 True by (subst copyInternal.simps) (simp add: h1_def [symmetric] Let_def)
    moreover have "n' \<le> n" using c(3) r1(3) by simp
    ultimately show ?thesis using c(1,2) by auto
  next
    case False
    then show ?thesis using r1 w1 by (subst copyInternal.simps) (auto simp: Let_def split: option.splits)
  qed
qed

lemma copy_ends:
  assumes "left r n"
  shows "\<exists>r' w' h' err n'. Copy rd wr onData r w h = Some (r', w', h', err) \<and> left r' n' \<and> n' \<le> n"
  using copyInternal_ends [OF assms, of wr onData w h] by (fastforce simp: Copy_def)

end

text \<open>The connection: a source that goes on reporting the end, and the arrays of the pool.\<close>

locale mux_link = buffered_source rd rep for rd :: "'r mb_reader" and rep +
  fixes p :: bytes
  assumes array: "length p = 2048"
    and stays: "rep r [] \<Longrightarrow> rd r = Some (r', [], Some EOF) \<Longrightarrow> rep r' []"

sublocale mux_link \<subseteq> conn: sticky_io "BufferedReader_Read rd" "br_rep rep"
proof unfold_locales
  fix r r' :: "'r BufferedReader" and n
  assume "br_rep rep r []" "BufferedReader_Read rd r n = Some (r', [], Some EOF)"
  then show "br_rep rep r' []"
    using stays [of "br_Reader r"] mb_end [of "br_Reader r"] by (auto simp: br_rep_def BufferedReader_Read_def pooled_IsEmpty)
qed

fun session_left :: "('r \<Rightarrow> bytes \<Rightarrow> bool) \<Rightarrow> 'r session_reader \<Rightarrow> nat \<Rightarrow> bool" where
  "session_left rep (StreamR r) n \<longleftrightarrow> 0 \<le> csr_leftOverSize r \<and> csr_leftOverSize r < 65536 \<and> (\<exists>bs. br_rep rep (csr_reader r) bs \<and> n = length bs)"
| "session_left rep (PacketR r) n \<longleftrightarrow> (\<exists>bs. br_rep rep (mp_reader r) bs \<and> n = length bs)"

context mux_link
begin

lemma read_at_most_end:
  "br_rep rep r [] \<Longrightarrow> \<exists>r'. BufferedReader_ReadAtMost p rd r sz = Some (r', [], Some EOF) \<and> br_rep rep r' []"
  using stays [of "br_Reader r"] mb_end [of "br_Reader r"] by (auto simp: br_rep_def BufferedReader_ReadAtMost_def pooled_IsEmpty)

lemma chunk_body_total:
  assumes "br_rep rep (csr_reader r) bs" and "0 < sz" and "sz < 65536"
  shows "\<exists>r' mb err bs'. ChunkStreamReader_body p rd sz r = Some (r', mb, err) \<and> br_rep rep (csr_reader r') bs' \<and> length bs' \<le> length bs \<and>
     0 \<le> csr_leftOverSize r' \<and> csr_leftOverSize r' < 65536 \<and> (err = None \<longrightarrow> length bs' < length bs)"
proof (cases "bs = []")
  case True
  then obtain r' where "BufferedReader_ReadAtMost p rd (csr_reader r) sz = Some (r', [], Some EOF)" "br_rep rep r' []"
    using read_at_most_end assms(1) by blast
  then show ?thesis using assms(2,3) True by (simp add: ChunkStreamReader_body_def)
next
  case False
  have "sz < 2 ^ 30" using assms(3) by simp
  then obtain r' mb bs' where r': "BufferedReader_ReadAtMost p rd (csr_reader r) sz = Some (r', mb, None)" "pooled mb" "mb_content mb \<noteq> []"
      "int (length (mb_content mb)) \<le> sz" "bs = mb_content mb @ bs'" "br_rep rep r' bs'"
    using read_at_most [OF assms(1) False array assms(2)] by blast
  have ml: "MultiBuffer_Len mb = int (length (mb_content mb))"
    using r'(2,4) assms(3) by (intro MultiBuffer_Len_content) (auto simp: pooled_wf)
  have "i32 (sz - MultiBuffer_Len mb) = sz - int (length (mb_content mb))"
    using ml r'(4) assms(3) by (auto intro!: i32_id)
  moreover have "int (length (mb_content mb)) > 0" using r'(3) by simp
  ultimately show ?thesis
    using r' assms(3) pooled_IsEmpty [OF r'(2)] by (auto simp: ChunkStreamReader_body_def)
qed

lemma chunk_read_total:
  assumes "br_rep rep (csr_reader r) bs" and "0 \<le> csr_leftOverSize r" and "csr_leftOverSize r < 65536"
  shows "\<exists>r' mb err bs'. ChunkStreamReader_ReadMultiBuffer p PlainChunkSizeParser rd r = Some (r', mb, err) \<and>
     br_rep rep (csr_reader r') bs' \<and> length bs' \<le> length bs \<and> 0 \<le> csr_leftOverSize r' \<and> csr_leftOverSize r' < 65536 \<and>
     (err = None \<longrightarrow> length bs' < length bs)"
proof (cases "csr_leftOverSize r = 0")
  case False
  then show ?thesis using chunk_body_total [OF assms(1)] assms(2,3) by (simp add: ChunkStreamReader_ReadMultiBuffer_def)
next
  case True
  let ?r = "r\<lparr>csr_numChunk := csr_numChunk r + 1\<rparr>"
  obtain r1 data err bs1 where rf: "io_ReadFull_from (BufferedReader_Read rd) (csr_reader r) 2 [] = Some (r1, data, err)"
      "bs = data @ bs1" "br_rep rep r1 bs1" "err = None \<longrightarrow> length data = 2"
    using conn.io_ReadFull_total [OF assms(1), of "[]" 2] by (simp add: numeral_2_eq_2) blast
  consider (limit) "csr_maxNumChunk r > 0 \<and> csr_numChunk r + 1 > csr_maxNumChunk r"
    | (short) e where "\<not> (csr_maxNumChunk r > 0 \<and> csr_numChunk r + 1 > csr_maxNumChunk r)" "err = Some e"
    | (size) x where "\<not> (csr_maxNumChunk r > 0 \<and> csr_numChunk r + 1 > csr_maxNumChunk r)" "err = None" "be_Uint16 data = Some x"
    using rf(4) be_Uint16_defined [of data] by (cases err) auto
  then show ?thesis
  proof cases
    case limit
    then show ?thesis using True assms(1) by (auto simp: ChunkStreamReader_ReadMultiBuffer_def)
  next
    case short
    then have "ChunkStreamReader_ReadMultiBuffer p PlainChunkSizeParser rd r = Some (?r\<lparr>csr_reader := r1\<rparr>, [], Some e)"
      using True rf(1) by (auto simp: ChunkStreamReader_ReadMultiBuffer_def ChunkStreamReader_readSize_def PlainChunkSizeParser_def
          PlainChunkSizeParser_SizeBytes_def)
    then show ?thesis using rf(2,3) True by auto
  next
    case size
    have sz: "ChunkStreamReader_readSize PlainChunkSizeParser rd ?r = Some (?r\<lparr>csr_reader := r1\<rparr>, Inr x)"
      using rf(1) size by (simp add: ChunkStreamReader_readSize_def PlainChunkSizeParser_def PlainChunkSizeParser_SizeBytes_def
          PlainChunkSizeParser_Decode_def)
    show ?thesis
    proof (cases "x = 0")
      case x: True
      have "ChunkStreamReader_ReadMultiBuffer p PlainChunkSizeParser rd r = Some (?r\<lparr>csr_reader := r1\<rparr>, [], Some EOF)"
        using True size(1) sz x by (auto simp: ChunkStreamReader_ReadMultiBuffer_def)
      then show ?thesis using rf(2,3) True by auto
    next
      case False
      have x: "0 < uint x" "uint x < 65536" using False unsigned_less [of x] by (simp_all add: word_neq_0_conv word_less_def)
      have "ChunkStreamReader_ReadMultiBuffer p PlainChunkSizeParser rd r = ChunkStreamReader_body p rd (uint x) (?r\<lparr>csr_reader := r1\<rparr>)"
        using True size(1) sz False by (auto simp: ChunkStreamReader_ReadMultiBuffer_def)
      moreover have "br_rep rep (csr_reader (?r\<lparr>csr_reader := r1\<rparr>)) bs1" using rf(3) by simp
      ultimately show ?thesis using chunk_body_total [OF _ x, of "?r\<lparr>csr_reader := r1\<rparr>" bs1] rf(2) by force
    qed
  qed
qed

lemma mux_packet_total:
  assumes "br_rep rep (mp_reader r) bs"
  shows "\<exists>r' mb err bs'. mux_PacketReader_ReadMultiBuffer p rd r = Some (r', mb, err) \<and>
     br_rep rep (mp_reader r') bs' \<and> length bs' \<le> length bs \<and> (err = None \<longrightarrow> length bs' < length bs)"
proof (cases "mp_eof r")
  case True
  then show ?thesis using assms by (auto simp: mux_PacketReader_ReadMultiBuffer_def)
next
  case False
  obtain r1 data err bs1 where rf: "io_ReadFull_from (BufferedReader_Read rd) (mp_reader r) 2 [] = Some (r1, data, err)"
      "bs = data @ bs1" "br_rep rep r1 bs1" "err = None \<longrightarrow> length data = 2"
    using conn.io_ReadFull_total [OF assms(1), of "[]" 2] by (simp add: numeral_2_eq_2) blast
  show ?thesis
  proof (cases err)
    case (Some e)
    then show ?thesis using False rf by (auto simp: mux_PacketReader_ReadMultiBuffer_def serial_ReadUint16_from_def)
  next
    case None
    then obtain x where d: "length data = 2" "be_Uint16 data = Some x" using rf(4) be_Uint16_defined [of data] by auto
    show ?thesis
    proof (cases "uint x > Size")
      case True
      then show ?thesis using False rf None d by (auto simp: mux_PacketReader_ReadMultiBuffer_def serial_ReadUint16_from_def)
    next
      case x: False
      have n: "int (unat x) = uint x" "unat x \<le> room (Buffer_New p)"
      proof -
        show eq: "int (unat x) = uint x" by simp
        have "int (unat x) \<le> 2048" unfolding eq using x by (simp add: Size_def)
        then have "unat x \<le> 2048" by (metis of_nat_le_iff of_nat_numeral)
        then show "unat x \<le> room (Buffer_New p)" using array by simp
      qed
      have "wf_Buffer (Buffer_New p)" using array by simp
      from conn.buffer_read_full_total [OF this n(2) rf(3)] n(1)
      obtain r2 b err2 bs2 where b: "buffer_read_full (BufferedReader_Read rd) r1 (Buffer_New p) (uint x) = Some (r2, b, err2)"
          "br_rep rep r2 bs2" "length bs2 \<le> length bs1" by auto
      then show ?thesis using False rf None d x
        by (cases err2) (auto simp: mux_PacketReader_ReadMultiBuffer_def serial_ReadUint16_from_def)
    qed
  qed
qed

end

sublocale mux_link \<subseteq> payload: finite_reader "session_read p rd" "session_left rep"
proof unfold_locales
  fix rr :: "'r session_reader" and n
  assume "session_left rep rr n"
  then show "\<exists>r' mb err n'. session_read p rd rr = Some (r', mb, err) \<and> session_left rep r' n' \<and> n' \<le> n \<and> (err = None \<longrightarrow> n' < n)"
  proof (cases rr)
    case (StreamR r)
    then obtain bs where bs: "br_rep rep (csr_reader r) bs" "n = length bs" "0 \<le> csr_leftOverSize r" "csr_leftOverSize r < 65536"
      using \<open>session_left rep rr n\<close> by auto
    then show ?thesis using chunk_read_total [OF bs(1,3,4)] StreamR by force
  next
    case (PacketR r)
    then obtain bs where bs: "br_rep rep (mp_reader r) bs" "n = length bs" using \<open>session_left rep rr n\<close> by auto
    then show ?thesis using mux_packet_total [OF bs(1)] PacketR by force
  qed
qed

section \<open>The payload of one frame\<close>

text \<open>\<open>sess_rep rep rest rr bs\<close>: the session reader will deliver \<open>bs\<close> and stop, with \<open>rest\<close> left on the connection.\<close>

fun sess_rep :: "('r \<Rightarrow> bytes \<Rightarrow> bool) \<Rightarrow> bytes \<Rightarrow> 'r session_reader \<Rightarrow> bytes \<Rightarrow> bool" where
  "sess_rep rep rest (StreamR r) bs \<longleftrightarrow> csr_maxNumChunk r = 1 \<and> length bs < 65536 \<and>
     (csr_numChunk r = 0 \<and> csr_leftOverSize r = 0 \<and> bs \<noteq> [] \<and> br_rep rep (csr_reader r) (be_PutUint16 (word_of_nat (length bs)) @ bs @ rest) \<or>
      csr_numChunk r = 1 \<and> csr_leftOverSize r = int (length bs) \<and> br_rep rep (csr_reader r) (bs @ rest))"
| "sess_rep rep rest (PacketR r) bs \<longleftrightarrow> length bs \<le> 2048 \<and>
     (\<not> mp_eof r \<and> bs \<noteq> [] \<and> br_rep rep (mp_reader r) (be_PutUint16 (word_of_nat (length bs)) @ bs @ rest) \<or>
      mp_eof r \<and> bs = [] \<and> br_rep rep (mp_reader r) rest)"

context mux_link
begin

lemma chunk_body_ok:
  assumes "br_rep rep (csr_reader r) (bs @ rest)" and "bs \<noteq> []" and "length bs < 65536" and "csr_maxNumChunk r = 1" and "csr_numChunk r = 1"
  shows "\<exists>r' mb bs'. ChunkStreamReader_body p rd (int (length bs)) r = Some (r', mb, None) \<and> pooled mb \<and> mb_content mb \<noteq> [] \<and>
     bs = mb_content mb @ bs' \<and> sess_rep rep rest (StreamR r') bs'"
proof -
  have "0 < int (length bs)" "int (length bs) < 2 ^ 30" "bs @ rest \<noteq> []" using assms(2,3) by auto
  then obtain r' mb tl where r': "BufferedReader_ReadAtMost p rd (csr_reader r) (int (length bs)) = Some (r', mb, None)" "pooled mb"
      "mb_content mb \<noteq> []" "int (length (mb_content mb)) \<le> int (length bs)" "bs @ rest = mb_content mb @ tl" "br_rep rep r' tl"
    using read_at_most [OF assms(1) _ array] by blast
  obtain bs' where bs': "bs = mb_content mb @ bs'" "tl = bs' @ rest" using append_prefix [OF r'(5)] r'(4) by auto
  have "MultiBuffer_Len mb = int (length (mb_content mb))"
    using r'(2,4) assms(3) by (intro MultiBuffer_Len_content) (auto simp: pooled_wf)
  then have "i32 (int (length bs) - MultiBuffer_Len mb) = int (length bs')" using bs' assms(3) by (auto intro!: i32_id)
  then show ?thesis
    using r' bs' assms(3,4,5) pooled_IsEmpty [OF r'(2)] by (auto simp: ChunkStreamReader_body_def)
qed

lemma u16_length: "length bs < 65536 \<Longrightarrow> uint (word_of_nat (length bs) :: u16) = int (length bs)"
  by (metis uint_nat word_of_nat_u16_u32(1))

lemma decoder_unit: "r\<lparr>csr_numChunk := n, csr_reader := x, csr_decoder := ()\<rparr> = r\<lparr>csr_numChunk := n, csr_reader := x\<rparr>"
  for r :: "('r, unit) ChunkStreamReader"
  by (cases r) simp

lemma chunk_first:
  assumes "sess_rep rep rest (StreamR r) bs" and "csr_numChunk r = 0"
  shows "\<exists>r' mb bs'. ChunkStreamReader_ReadMultiBuffer p PlainChunkSizeParser rd r = Some (r', mb, None) \<and> pooled mb \<and> mb_content mb \<noteq> [] \<and>
     bs = mb_content mb @ bs' \<and> sess_rep rep rest (StreamR r') bs'"
proof -
  let ?n = "word_of_nat (length bs) :: u16"
  have r: "csr_maxNumChunk r = 1" "length bs < 65536" "csr_leftOverSize r = 0" "bs \<noteq> []" "br_rep rep (csr_reader r) (be_PutUint16 ?n @ bs @ rest)"
    using assms by auto
  obtain r1 where r1: "io_ReadFull_from (BufferedReader_Read rd) (csr_reader r) 2 [] = Some (r1, be_PutUint16 ?n, None)" "br_rep rep r1 (bs @ rest)"
    using bufbytes.io_ReadFull_ok [OF r(5), of "[]"] by (auto simp: numeral_2_eq_2)
  let ?r = "r\<lparr>csr_numChunk := 1, csr_reader := r1\<rparr>"
  have n: "uint ?n = int (length bs)" by (rule u16_length [OF r(2)])
  then have "?n \<noteq> 0" using r(4) by (metis length_0_conv of_nat_0_eq_iff unsigned_0)
  then have "ChunkStreamReader_ReadMultiBuffer p PlainChunkSizeParser rd r = ChunkStreamReader_body p rd (int (length bs)) ?r"
    using r(1,3) assms(2) r1(1) n
    by (simp add: ChunkStreamReader_ReadMultiBuffer_def ChunkStreamReader_readSize_def PlainChunkSizeParser_def
        PlainChunkSizeParser_SizeBytes_def PlainChunkSizeParser_Decode_def decoder_unit)
  moreover have "br_rep rep (csr_reader ?r) (bs @ rest)" "csr_maxNumChunk ?r = 1" "csr_numChunk ?r = 1" using r1(2) r(1) by simp_all
  ultimately show ?thesis using chunk_body_ok [OF _ r(4,2), of ?r rest] by simp
qed

lemma packet_first:
  assumes "sess_rep rep rest (PacketR r) bs" and "bs \<noteq> []"
  shows "\<exists>r' mb. mux_PacketReader_ReadMultiBuffer p rd r = Some (r', mb, None) \<and> pooled mb \<and> mb_content mb = bs \<and>
     sess_rep rep rest (PacketR r') []"
proof -
  let ?n = "word_of_nat (length bs) :: u16"
  have r: "length bs \<le> 2048" "\<not> mp_eof r" and rp: "br_rep rep (mp_reader r) (be_PutUint16 ?n @ bs @ rest)" using assms by auto
  obtain r1 where r1: "serial_ReadUint16_from (BufferedReader_Read rd) (mp_reader r) = Some (r1, Inr ?n)" "br_rep rep r1 (bs @ rest)"
    by (rule bufbytes.ReadUint16_ok [OF rp])
  have n: "uint ?n = int (length bs)" using r(1) by (intro u16_length) simp
  have wf: "wf_Buffer (Buffer_New p)" and rm: "length bs \<le> room (Buffer_New p)" using array r(1) by simp_all
  obtain r2 b where b: "buffer_read_full (BufferedReader_Read rd) r1 (Buffer_New p) (int (length bs)) = Some (r2, b, None)" "br_rep rep r2 rest"
    "wf_Buffer b" "content b = content (Buffer_New p) @ bs"
    by (rule bufbytes.buffer_read_full_ok [OF wf rm r1(2)])
  have "mux_PacketReader_ReadMultiBuffer p rd r = Some (r\<lparr>mp_reader := r2, mp_eof := True\<rparr>, [b], None)"
    using r r1(1) n b(1) by (simp add: mux_PacketReader_ReadMultiBuffer_def Size_def)
  then show ?thesis using b r(1) assms(2) by auto
qed

end

sublocale mux_link \<subseteq> frame_data: mb_source "session_read p rd" "sess_rep rep rest" for rest
proof unfold_locales
  fix rr :: "'r session_reader" and bs
  show "\<exists>r'. session_read p rd rr = Some (r', [], Some EOF)" if "sess_rep rep rest rr []"
    using that by (cases rr) (auto simp: ChunkStreamReader_ReadMultiBuffer_def mux_PacketReader_ReadMultiBuffer_def)
  show "\<exists>r' mb bs'. session_read p rd rr = Some (r', mb, None) \<and> pooled mb \<and> mb_content mb \<noteq> [] \<and> bs = mb_content mb @ bs' \<and>
      sess_rep rep rest r' bs'" if a: "sess_rep rep rest rr bs" "bs \<noteq> []"
  proof (cases rr)
    case (StreamR r)
    show ?thesis
    proof (cases "csr_numChunk r = 0")
      case True
      then show ?thesis using chunk_first [of rest r bs] a(1) StreamR by fastforce
    next
      case False
      then have "csr_maxNumChunk r = 1" "csr_numChunk r = 1" "csr_leftOverSize r = int (length bs)" "br_rep rep (csr_reader r) (bs @ rest)" "length bs < 65536"
        using a(1) StreamR by auto
      moreover from this have "session_read p rd rr = map_option (\<lambda>(r, mb, err). (StreamR r, mb, err)) (ChunkStreamReader_body p rd (int (length bs)) r)"
        using a(2) StreamR by (simp add: ChunkStreamReader_ReadMultiBuffer_def)
      ultimately show ?thesis using chunk_body_ok [of r bs rest] a(2) by (fastforce simp del: sess_rep.simps)
    qed
  next
    case (PacketR r)
    then show ?thesis using packet_first [of rest r bs] a by fastforce
  qed
qed

context mux_link
begin

text \<open>Copying the payload of a frame delivers exactly the payload and leaves the connection behind it.\<close>

lemma copy_payload:
  assumes wr: "\<And>w xs mb. J w xs \<Longrightarrow> pooled mb \<Longrightarrow> \<exists>w'. wr w mb = (w', None) \<and> J w' (xs @ mb_content mb)"
    and "br_rep rep reader (be_PutUint16 (word_of_nat (length bs)) @ bs @ rest)" and "bs \<noteq> []"
    and len: "length bs \<le> (if t = TransferTypeStream then 65535 else 2048)" and "J w []"
  shows "\<exists>rr w'. Copy (session_read p rd) wr [] (Session_NewReader t reader) w () = Some (rr, w', (), None) \<and> J w' bs \<and>
     br_rep rep (connection_reader rr) rest"
proof -
  have rep0: "sess_rep rep rest (Session_NewReader t reader) bs"
    using assms(2-4) by (auto simp: Session_NewReader_def NewStreamReader_def NewChunkStreamReaderWithChunkCount_def NewPacketReader_def)
  have "length bs < 2 ^ 31" using len by (simp split: if_splits)
  from frame_data.copy_all_final [of J wr "\<lambda>_ _. True" "[]" bs rest, OF wr _ this rep0 TrueI assms(5), of "()"]
  obtain rr w' r0 where c: "Copy (session_read p rd) wr [] (Session_NewReader t reader) w () = Some (rr, w', (), None)" "J w' bs"
      "sess_rep rep rest r0 []" "session_read p rd r0 = Some (rr, [], Some EOF)"
    by auto
  have "br_rep rep (connection_reader rr) rest"
    using c(3,4) by (cases r0) (auto simp: ChunkStreamReader_ReadMultiBuffer_def mux_PacketReader_ReadMultiBuffer_def)
  then show ?thesis using c(1,2) by blast
qed

end

section \<open>What a writer sends\<close>

definition next_meta :: "Writer \<Rightarrow> FrameMetadata" where
  "next_meta w = snd (Writer_getNextFrameMeta w)"

definition data_frame :: "Writer \<Rightarrow> bytes \<Rightarrow> bytes" where
  "data_frame w c = frame_bytes (next_meta w\<lparr>fm_Option := OptionData\<rparr>) @ be_PutUint16 (word_of_nat (length c)) @ c"

fun frames :: "Writer \<Rightarrow> bytes list \<Rightarrow> bytes" where
  "frames w [] = []"
| "frames w (c # cs) = data_frame w c @ frames (w\<lparr>mw_followup := True\<rparr>) cs"

text \<open>A writer whose next frame can be sent: of a response, or to a target that can be named.\<close>

definition writable :: "Writer \<Rightarrow> bool" where
  "writable w \<longleftrightarrow> frame_ok (next_meta w)"

lemma next_meta_eq:
  "Writer_getNextFrameMeta w = (w\<lparr>mw_followup := True\<rparr>, next_meta w)"
  "fm_Option (next_meta w) = 0" "fm_SessionID (next_meta w) = mw_id w" "fm_Target (next_meta w) = mw_dest w"
  "fm_SessionStatus (next_meta w) = (if mw_followup w then SessionStatusKeep else SessionStatusNew)"
proof -
  show "Writer_getNextFrameMeta w = (w\<lparr>mw_followup := True\<rparr>, next_meta w)"
    by (cases w) (simp add: Writer_getNextFrameMeta_def next_meta_def Let_def)
qed (simp_all add: Writer_getNextFrameMeta_def next_meta_def Let_def)

lemma writable_followup: "writable (w\<lparr>mw_followup := True\<rparr>)"
  by (simp add: writable_def frame_ok_def next_meta_eq status_defs)

lemma frame_ok_option [simp]: "frame_ok (f\<lparr>fm_Option := x\<rparr>) = frame_ok f"
  by (simp add: frame_ok_def)

lemma pooled_length_le: "pooled mb \<Longrightarrow> length mb \<le> length (mb_content mb)"
proof (induction mb)
  case (Cons b mb)
  then have "1 \<le> length (content b)" "length mb \<le> length (mb_content mb)" by (simp_all add: Suc_le_eq)
  then have "1 + length mb \<le> length (content b) + length (mb_content mb)" by (rule add_mono)
  then show ?case by simp
qed simp

text \<open>A \<^verbatim>\<open>buf.Writer\<close> that takes every multi-buffer.\<close>

locale accepting =
  fixes wr :: "'w mb_writer" and out :: "'w \<Rightarrow> bytes" and p :: bytes
  assumes accept: "pooled mb \<Longrightarrow> \<exists>s'. wr s mb = (s', None) \<and> out s' = out s @ mb_content mb"
    and array: "length p = 2048"
begin

lemma fresh_frame:
  assumes "frame_ok f"
  obtains b where "FrameMetadata_WriteTo f (Buffer_New p) = Some (b, None)" "wf_Buffer b" "content b = frame_bytes f" "2 \<le> room b"
    "length (frame_bytes f) \<le> 266"
proof -
  have "wf_Buffer (Buffer_New p)" "266 \<le> room (Buffer_New p)" using array by simp_all
  then obtain b where b: "FrameMetadata_WriteTo f (Buffer_New p) = Some (b, None)" "wf_Buffer b" "content b = content (Buffer_New p) @ frame_bytes f"
    "room b + length (frame_bytes f) = room (Buffer_New p)" by (rule WriteTo_ok [OF assms])
  have "length (frame_bytes f) \<le> 266" using frame_body_length [OF assms] by (simp add: frame_bytes_def)
  then show thesis using that b array by auto
qed

lemma writeData_ok:
  assumes "writable w" and "pooled chunk" and "length (mb_content chunk) \<le> 65535"
  shows "\<exists>s'. Writer_writeData p wr w s chunk = Some (w\<lparr>mw_followup := True\<rparr>, s', None) \<and> out s' = out s @ data_frame w (mb_content chunk)"
proof -
  let ?f = "next_meta w\<lparr>fm_Option := OptionData\<rparr>" and ?n = "word_of_nat (length (mb_content chunk)) :: u16"
  have "frame_ok ?f" using assms(1) by (simp add: writable_def)
  then obtain b where b: "FrameMetadata_WriteTo ?f (Buffer_New p) = Some (b, None)" "wf_Buffer b" "content b = frame_bytes ?f" "2 \<le> room b"
    "length (frame_bytes ?f) \<le> 266" by (rule fresh_frame)
  obtain b' where b': "Buffer_Write b (be_PutUint16 ?n) = Some (b', int (min (room b) 2))" "wf_Buffer b'"
    "content b' = content b @ take (room b) (be_PutUint16 ?n)"
    using Buffer_Write_spec [OF b(2), of "be_PutUint16 ?n"] by auto
  have c: "content b' = frame_bytes ?f @ be_PutUint16 ?n" using b'(3) b(3,4) by simp
  have pl: "pooled ([b'] @ chunk)" using b'(2) c b(5) assms(2) by (auto simp: be_PutUint16_def)
  obtain s' where s': "wr s ([b'] @ chunk) = (s', None)" "out s' = out s @ mb_content ([b'] @ chunk)" using accept [OF pl] by blast
  have few: "length chunk + 1 \<le> 64 * 1024 * 1024" using pooled_length_le [OF assms(2)] assms(3) by simp
  have "MultiBuffer_Len chunk = int (length (mb_content chunk))"
    using assms(3) by (intro MultiBuffer_Len_content pooled_wf [OF assms(2)]) simp
  then show ?thesis
    using b(1) b'(1) s' c few by (simp add: Writer_writeData_def next_meta_eq writeMetaWithFrame_def serial_WriteUint16_def data_frame_def Byte_Set_def)
qed

lemma next_chunk_ok:
  assumes "pooled mb" and "mb \<noteq> []"
  obtains rest chunk where "next_chunk p t mb = Some (rest, chunk)" "pooled rest" "pooled chunk" "chunk \<noteq> []"
    "mb_content mb = mb_content chunk @ mb_content rest" "length (mb_content chunk) \<le> (if t = TransferTypeStream then 8192 else 2048)"
proof (cases "t = TransferTypeStream")
  case True
  obtain rest chunk where "SplitSize p mb 8192 = Some (rest, chunk)" "pooled rest" "pooled chunk" "chunk \<noteq> []"
      "mb_content chunk @ mb_content rest = mb_content mb" "int (length (mb_content chunk)) \<le> 8192"
    using pooled_split_size [OF assms array, of 8192] by auto
  then show thesis using that [of rest chunk] True by (simp add: next_chunk_def)
next
  case False
  obtain b bs where mb: "mb = b # bs" using assms(2) by (cases mb) auto
  show thesis by (rule that [of bs "[b]"]) (use False assms(1) mb in \<open>simp_all add: next_chunk_def SplitFirst_def\<close>)
qed

lemma loop_ok:
  "pooled mb \<Longrightarrow> writable w \<Longrightarrow>
   \<exists>w' s' cs. Writer_loop p wr w s mb = Some (w', s', None) \<and> concat cs = mb_content mb \<and> out s' = out s @ frames w cs \<and>
     (\<forall>c \<in> set cs. c \<noteq> [] \<and> length c \<le> (if mw_transferType w = TransferTypeStream then 8192 else 2048)) \<and>
     w' = (if cs = [] then w else w\<lparr>mw_followup := True\<rparr>)"
proof (induction "length (mb_content mb)" arbitrary: mb w s rule: less_induct)
  case less
  show ?case
  proof (cases "mb = []")
    case True
    then show ?thesis by (subst Writer_loop.simps) (auto intro: exI [of _ "[]"])
  next
    case False
    obtain rest chunk where c: "next_chunk p (mw_transferType w) mb = Some (rest, chunk)" "pooled rest" "pooled chunk" "chunk \<noteq> []"
      "mb_content mb = mb_content chunk @ mb_content rest" "length (mb_content chunk) \<le> (if mw_transferType w = TransferTypeStream then 8192 else 2048)"
      by (rule next_chunk_ok [OF less.prems(1) False])
    have ne: "mb_content chunk \<noteq> []" using c(3,4) pooled_content_Nil by blast
    then have lt: "length (mb_content rest) < length (mb_content mb)" using c(5) by simp
    obtain s1 where s1: "Writer_writeData p wr w s chunk = Some (w\<lparr>mw_followup := True\<rparr>, s1, None)" "out s1 = out s @ data_frame w (mb_content chunk)"
      using writeData_ok [OF less.prems(2) c(3), of s] c(6) by (auto split: if_splits)
    obtain w' s' cs where IH: "Writer_loop p wr (w\<lparr>mw_followup := True\<rparr>) s1 rest = Some (w', s', None)" "concat cs = mb_content rest"
        "out s' = out s1 @ frames (w\<lparr>mw_followup := True\<rparr>) cs"
        "\<forall>c \<in> set cs. c \<noteq> [] \<and> length c \<le> (if mw_transferType w = TransferTypeStream then 8192 else 2048)"
        "w' = (if cs = [] then w\<lparr>mw_followup := True\<rparr> else w\<lparr>mw_followup := True, mw_followup := True\<rparr>)"
      using less.hyps [OF lt c(2) writable_followup, of w s1] by auto
    have "Writer_loop p wr w s mb = Some (w', s', None)"
      using False less.prems(1) c(1) s1(1) IH(1) by (subst Writer_loop.simps) (simp add: pooled_IsEmpty pooled_content_Nil)
    then show ?thesis using IH(2-5) s1(2) c(5,6) ne by (intro exI [of _ w'] exI [of _ s'] exI [of _ "mb_content chunk # cs"]) auto
  qed
qed

lemma writeMetaOnly_ok:
  assumes "writable w"
  shows "\<exists>s'. Writer_writeMetaOnly p wr w s = Some (w\<lparr>mw_followup := True\<rparr>, s', None) \<and> out s' = out s @ frame_bytes (next_meta w)"
proof -
  have "frame_ok (next_meta w)" using assms by (simp add: writable_def)
  then obtain b where b: "FrameMetadata_WriteTo (next_meta w) (Buffer_New p) = Some (b, None)" "wf_Buffer b" "content b = frame_bytes (next_meta w)"
      "length (frame_bytes (next_meta w)) \<le> 266" by (rule fresh_frame)
  have "pooled [b]" using b by (auto simp: frame_bytes_def be_PutUint16_def)
  then show ?thesis using accept [of "[b]" s] b by (auto simp: Writer_writeMetaOnly_def next_meta_eq)
qed

end

interpretation collecting: accepting collect "\<lambda>w. w" "fresh_pool 0"
  by unfold_locales (simp_all add: collect_def)

end
