(* ===== verification/Mux_Session.thy ===== *)
theory Mux_Session
  imports Prelude "HOL-Library.AList"
begin

text \<open>
  \<^verbatim>\<open>SessionManager\<close> of \<^verbatim>\<open>common/mux/session.go\<close>. Every operation holds the lock for its whole body, so each is
  one step. The map of sessions is an association list without duplicate keys; its values \<open>'s\<close> are the
  sessions.
\<close>

record 's SessionManager =
  sm_sessions :: "(u16 \<times> 's) list"
  sm_count :: u16
  sm_closed :: bool

definition NewSessionManager :: "'s SessionManager" where
  "NewSessionManager = \<lparr>sm_sessions = [], sm_count = 0, sm_closed = False\<rparr>"

definition SessionManager_Closed :: "'s SessionManager \<Rightarrow> bool" where
  "SessionManager_Closed m = sm_closed m"

definition SessionManager_Size :: "'s SessionManager \<Rightarrow> nat" where
  "SessionManager_Size m = length (sm_sessions m)"

definition SessionManager_Count :: "'s SessionManager \<Rightarrow> nat" where
  "SessionManager_Count m = unat (sm_count m)"

text \<open>\<open>mk i\<close> is the session that the code allocates with this number.\<close>

definition SessionManager_Allocate :: "(u16 \<Rightarrow> 's) \<Rightarrow> 's SessionManager \<Rightarrow> 's SessionManager \<times> (u16 \<times> 's) option" where
  "SessionManager_Allocate mk m =
     (if sm_closed m then (m, None)
      else let m = m\<lparr>sm_count := sm_count m + 1\<rparr>; s = mk (sm_count m)
           in (m\<lparr>sm_sessions := AList.update (sm_count m) s (sm_sessions m)\<rparr>, Some (sm_count m, s)))"

definition SessionManager_Add :: "u16 \<Rightarrow> 's \<Rightarrow> 's SessionManager \<Rightarrow> 's SessionManager" where
  "SessionManager_Add sid s m =
     (if sm_closed m then m
      else m\<lparr>sm_count := sm_count m + 1, sm_sessions := AList.update sid s (sm_sessions m)\<rparr>)"

definition SessionManager_Remove :: "u16 \<Rightarrow> 's SessionManager \<Rightarrow> 's SessionManager" where
  "SessionManager_Remove sid m =
     (if sm_closed m then m
      else let m = m\<lparr>sm_sessions := AList.delete sid (sm_sessions m)\<rparr>
           in if length (sm_sessions m) = 0 then m\<lparr>sm_sessions := []\<rparr> else m)"

definition SessionManager_Get :: "u16 \<Rightarrow> 's SessionManager \<Rightarrow> 's option" where
  "SessionManager_Get sid m = (if sm_closed m then None else map_of (sm_sessions m) sid)"

definition SessionManager_CloseIfNoSession :: "'s SessionManager \<Rightarrow> 's SessionManager \<times> bool" where
  "SessionManager_CloseIfNoSession m =
     (if sm_closed m then (m, True)
      else if length (sm_sessions m) \<noteq> 0 then (m, False)
      else (m\<lparr>sm_closed := True\<rparr>, True))"

text \<open>\<^verbatim>\<open>Close\<close> returns the sessions whose two ends it closes.\<close>

definition SessionManager_Close :: "'s SessionManager \<Rightarrow> 's SessionManager \<times> 's list" where
  "SessionManager_Close m =
     (if sm_closed m then (m, [])
      else (m\<lparr>sm_closed := True, sm_sessions := []\<rparr>, map snd (sm_sessions m)))"

section \<open>The interface the workers rely on\<close>

definition sm_ok :: "'s SessionManager \<Rightarrow> bool" where
  "sm_ok m \<longleftrightarrow> distinct (map fst (sm_sessions m))"

inductive sm_step :: "(u16 \<Rightarrow> 's) \<Rightarrow> 's SessionManager \<Rightarrow> 's SessionManager \<Rightarrow> bool" for mk where
  allocate: "SessionManager_Allocate mk m = (m', r) \<Longrightarrow> sm_step mk m m'"
| add: "sm_step mk m (SessionManager_Add sid s m)"
| remove: "sm_step mk m (SessionManager_Remove sid m)"
| close_idle: "SessionManager_CloseIfNoSession m = (m', r) \<Longrightarrow> sm_step mk m m'"
| close: "SessionManager_Close m = (m', r) \<Longrightarrow> sm_step mk m m'"

lemma sm_ok_new [simp]: "sm_ok NewSessionManager"
  by (simp add: sm_ok_def NewSessionManager_def)

lemma sm_ok_step: "sm_step mk m m' \<Longrightarrow> sm_ok m \<Longrightarrow> sm_ok m'"
  by (induction rule: sm_step.induct)
    (auto simp: sm_ok_def SessionManager_Allocate_def SessionManager_Add_def SessionManager_Remove_def
      SessionManager_CloseIfNoSession_def SessionManager_Close_def Let_def distinct_update distinct_delete split: if_splits)

lemma closed_stays: "sm_step mk m m' \<Longrightarrow> sm_closed m \<Longrightarrow> m' = m"
  by (induction rule: sm_step.induct)
    (auto simp: SessionManager_Allocate_def SessionManager_Add_def SessionManager_Remove_def
      SessionManager_CloseIfNoSession_def SessionManager_Close_def)

text \<open>What a table of sessions promises: the laws of lookup.\<close>

locale session_table =
  fixes get :: "u16 \<Rightarrow> 'm \<Rightarrow> 's option" and add :: "u16 \<Rightarrow> 's \<Rightarrow> 'm \<Rightarrow> 'm" and remove :: "u16 \<Rightarrow> 'm \<Rightarrow> 'm" and live :: "'m \<Rightarrow> bool"
  assumes get_add: "live m \<Longrightarrow> get i (add j s m) = (if i = j then Some s else get i m)"
    and get_remove: "live m \<Longrightarrow> get i (remove j m) = (if i = j then None else get i m)"
    and live_add: "live m \<Longrightarrow> live (add j s m)"
    and live_remove: "live m \<Longrightarrow> live (remove j m)"
begin

text \<open>A session that is closed after another was added under its number takes the other's entry with it.\<close>

lemma stale_remove: "live m \<Longrightarrow> get i (remove i (add i s' (add i s m))) = None"
  by (simp add: get_add get_remove live_add)

lemma others_kept: "live m \<Longrightarrow> i \<noteq> j \<Longrightarrow> get i (remove j (add j s m)) = get i m"
  by (simp add: get_add get_remove live_add)

end

text \<open>The new map that \<^verbatim>\<open>Remove\<close> makes when the last session goes is the one it has.\<close>

lemma Remove_eq:
  "SessionManager_Remove i m = (if sm_closed m then m else m\<lparr>sm_sessions := AList.delete i (sm_sessions m)\<rparr>)"
  by (simp add: SessionManager_Remove_def Let_def)

lemma Get_laws:
  "\<not> sm_closed m \<Longrightarrow> SessionManager_Get i (SessionManager_Add j s m) = (if i = j then Some s else SessionManager_Get i m)"
  "\<not> sm_closed m \<Longrightarrow> SessionManager_Get i (SessionManager_Remove j m) = (if i = j then None else SessionManager_Get i m)"
  "\<not> sm_closed m \<Longrightarrow> \<not> sm_closed (SessionManager_Add j s m)" "\<not> sm_closed m \<Longrightarrow> \<not> sm_closed (SessionManager_Remove j m)"
  by (auto simp: SessionManager_Get_def SessionManager_Add_def Remove_eq update_conv' delete_conv')

interpretation mgr: session_table SessionManager_Get SessionManager_Add SessionManager_Remove "\<lambda>m. \<not> sm_closed m"
  by unfold_locales (simp_all add: Get_laws)

section \<open>Numbers of sessions\<close>

lemma Allocate_Some:
  assumes "SessionManager_Allocate mk m = (m', Some (i, s))"
  shows "i = sm_count m + 1" "s = mk i" "\<not> sm_closed m" "\<not> sm_closed m'" "SessionManager_Get i m' = Some s"
    "\<And>j. j \<noteq> i \<Longrightarrow> SessionManager_Get j m' = SessionManager_Get j m" "sm_count m' = i"
  using assms by (auto simp: SessionManager_Allocate_def SessionManager_Get_def Let_def update_conv' split: if_splits)

text \<open>The clients: allocations and removals only.\<close>

inductive client_steps :: "(u16 \<Rightarrow> 's) \<Rightarrow> nat \<Rightarrow> 's SessionManager \<Rightarrow> bool" for mk where
  fresh: "client_steps mk 0 NewSessionManager"
| allocated: "client_steps mk n m \<Longrightarrow> SessionManager_Allocate mk m = (m', Some x) \<Longrightarrow> client_steps mk (Suc n) m'"
| removed: "client_steps mk n m \<Longrightarrow> client_steps mk n (SessionManager_Remove i m)"

lemma Remove_keys:
  "set (map fst (sm_sessions (SessionManager_Remove i m))) \<subseteq> set (map fst (sm_sessions m))"
  "sm_count (SessionManager_Remove i m) = sm_count m"
  by (auto simp: Remove_eq AList.delete_eq)

text \<open>While fewer than 65536 sessions have been allocated, the numbers in use are those from 1 to the
  count, which is exact.\<close>

lemma client_numbers:
  "client_steps mk n m \<Longrightarrow> n < 65536 \<Longrightarrow>
   unat (sm_count m) = n \<and> (\<forall>i \<in> set (map fst (sm_sessions m)). 1 \<le> unat i \<and> unat i \<le> n)"
proof (induction rule: client_steps.induct)
  case fresh
  then show ?case by (simp add: NewSessionManager_def)
next
  case (allocated n m m' x)
  have c: "unat (sm_count m) = n" using allocated by simp
  have "unat (sm_count m + 1) = Suc n" using c allocated.prems by (simp add: unat_word_ariths)
  moreover have "sm_count m' = sm_count m + 1" "sm_sessions m' = AList.update (sm_count m + 1) (mk (sm_count m + 1)) (sm_sessions m)"
    using allocated.hyps by (auto simp: SessionManager_Allocate_def Let_def split: if_splits)
  ultimately show ?case using allocated.IH allocated.prems by (auto simp: dom_update)
next
  case (removed n m i)
  then show ?case using Remove_keys [of i m] by (auto simp del: set_map)
qed

section \<open>Properties\<close>

text \<open>A client never gives a new session the number of a session that is still open, as long as fewer
  than 65535 sessions have been allocated before: every open session keeps its entry.\<close>

theorem Allocate_fresh:
  assumes "client_steps mk n m" and "n < 65535" and "SessionManager_Allocate mk m = (m', Some (i, s))"
  shows "SessionManager_Get i m = None \<and> (\<forall>j t. SessionManager_Get j m = Some t \<longrightarrow> SessionManager_Get j m' = Some t)"
proof -
  note a = Allocate_Some [OF assms(3)]
  have c: "unat (sm_count m) = n" "\<forall>i \<in> set (map fst (sm_sessions m)). unat i \<le> n"
    using client_numbers [OF assms(1)] assms(2) by auto
  have "unat i = Suc n" using a(1) c(1) assms(2) by (simp add: unat_word_ariths)
  then have "i \<notin> set (map fst (sm_sessions m))" using c(2) by fastforce
  then have "SessionManager_Get i m = None" by (simp add: SessionManager_Get_def map_of_eq_None_iff)
  then show ?thesis using a(6) by (metis option.distinct(1))
qed

theorem Allocate_fresh_witness:
  "let m = fst (SessionManager_Allocate (\<lambda>_. 5 :: nat) NewSessionManager);
       m' = \<lparr>sm_sessions = [(1, 5), (2, 5)], sm_count = 2, sm_closed = False\<rparr> in
   SessionManager_Allocate (\<lambda>_. 5) m = (m', Some (2, 5)) \<and> SessionManager_Get 2 m = None \<and> SessionManager_Get 1 m' = Some 5"
proof -
  let ?m = "fst (SessionManager_Allocate (\<lambda>_. 5 :: nat) NewSessionManager)"
  let ?m' = "\<lparr>sm_sessions = [(1, 5), (2, 5 :: nat)], sm_count = 2, sm_closed = False\<rparr>"
  have m: "SessionManager_Allocate (\<lambda>_. 5 :: nat) NewSessionManager = (?m, Some (1, 5))"
    and m': "SessionManager_Allocate (\<lambda>_. 5) ?m = (?m', Some (2, 5))" and g: "SessionManager_Get 1 ?m = Some 5"
    by (simp_all add: SessionManager_Allocate_def NewSessionManager_def SessionManager_Get_def)
  have "client_steps (\<lambda>_. 5) (Suc 0) ?m" by (rule client_steps.allocated [OF client_steps.fresh m])
  from Allocate_fresh [OF this _ m'] have "SessionManager_Get 2 ?m = None" "SessionManager_Get 1 ?m' = Some 5"
    using g by auto
  then show ?thesis using m' by simp
qed

text \<open>A server files a session under the number its peer chose. When the peer opens a second session
  under a number still in use, the first loses its entry; and when the first then ends, the entry of
  the second is deleted although that session is still open.\<close>

theorem duplicate_number_orphans:
  assumes "\<not> sm_closed m" and "SessionManager_Get i m = Some s"
  shows "SessionManager_Get i (SessionManager_Add i s' m) = Some s' \<and>
     SessionManager_Get i (SessionManager_Remove i (SessionManager_Add i s' m)) = None"
  using assms mgr.stale_remove [of m i s' s] by (simp add: mgr.get_add mgr.get_remove mgr.live_add)

theorem duplicate_number_orphans_witness:
  "SessionManager_Get 3 (SessionManager_Add 3 20 \<lparr>sm_sessions = [(3, 10 :: nat)], sm_count = 1, sm_closed = False\<rparr>) = Some 20 \<and>
   SessionManager_Get 3 (SessionManager_Remove 3 (SessionManager_Add 3 20 \<lparr>sm_sessions = [(3, 10 :: nat)], sm_count = 1, sm_closed = False\<rparr>)) = None"
  by (rule duplicate_number_orphans [where s = 10]) (simp_all add: SessionManager_Get_def)

end
