(* ===== verification/Mux_Worker.thy ===== *)
theory Mux_Worker
  imports Mux_Stream Mux_Session
begin

text \<open>
  \<^verbatim>\<open>common/mux/server.go\<close>: the worker that serves one multiplexed connection: it reads frames, opens sessions
  through the dispatcher, and copies the payload of frames to the sessions.

  What the worker does not own is an environment with state \<open>'e\<close> and the operations of the record \<open>Env\<close>:
  writing to, closing and interrupting the ends of sessions (\<open>nat\<close> handles), the dispatcher, the
  writer of the connection, and the start of a goroutine. A handler is one step of the worker.
\<close>

section \<open>Sessions and their environment\<close>

record Session =
  se_input :: "nat option"
  se_output :: "nat option"
  se_ID :: u16
  se_transferType :: TransferType

record 'e Env =
  en_write :: "'e \<Rightarrow> nat \<Rightarrow> MultiBuffer \<Rightarrow> 'e \<times> buf_error option"
  en_Close :: "'e \<Rightarrow> nat \<Rightarrow> 'e"
  en_Interrupt :: "'e \<Rightarrow> nat \<Rightarrow> 'e"
  en_Dispatch :: "'e \<Rightarrow> Destination \<Rightarrow> 'e \<times> (buf_error + nat \<times> nat)"
  en_link :: "'e \<Rightarrow> MultiBuffer \<Rightarrow> 'e \<times> buf_error option"
  en_go :: "'e \<Rightarrow> Session \<Rightarrow> 'e"

record 'e Worker =
  wk_sessions :: "Session SessionManager"
  wk_env :: 'e

text \<open>\<^verbatim>\<open>common.Close\<close> and \<^verbatim>\<open>common.Interrupt\<close> do nothing on nil.\<close>

definition close_end :: "'e Env \<Rightarrow> nat option \<Rightarrow> 'e \<Rightarrow> 'e" where
  "close_end E h e = (case h of None \<Rightarrow> e | Some h \<Rightarrow> en_Close E e h)"

definition interrupt_end :: "'e Env \<Rightarrow> nat option \<Rightarrow> 'e \<Rightarrow> 'e" where
  "interrupt_end E h e = (case h of None \<Rightarrow> e | Some h \<Rightarrow> en_Interrupt E e h)"

definition Session_Close :: "'e Env \<Rightarrow> Session \<Rightarrow> 'e Worker \<Rightarrow> 'e Worker" where
  "Session_Close E s w =
     w\<lparr>wk_env := close_end E (se_input s) (close_end E (se_output s) (wk_env w)),
       wk_sessions := SessionManager_Remove (se_ID s) (wk_sessions w)\<rparr>"

section \<open>Payloads\<close>

definition Discard :: "unit mb_writer" where "Discard w mb = (w, None)"

text \<open>\<^verbatim>\<open>buf.Copy(NewStreamReader(reader), buf.Discard)\<close>, and \<^verbatim>\<open>buf.Copy(rr, s.output)\<close>.\<close>

definition discard_chunk :: "bytes \<Rightarrow> 'r mb_reader \<Rightarrow> 'r BufferedReader \<Rightarrow> ('r BufferedReader \<times> copy_error option) option" where
  "discard_chunk p rd reader =
     map_option (\<lambda>(r, _, _, err). (csr_reader r, err))
       (Copy (ChunkStreamReader_ReadMultiBuffer p PlainChunkSizeParser rd) Discard [] (NewStreamReader reader) () ())"

definition drain :: "bytes \<Rightarrow> 'r mb_reader \<Rightarrow> 'r session_reader \<Rightarrow> ('r session_reader \<times> copy_error option) option" where
  "drain p rd rr = map_option (\<lambda>(rr, _, _, err). (rr, err)) (Copy (session_read p rd) Discard [] rr () ())"

definition copy_to_output ::
  "bytes \<Rightarrow> 'r mb_reader \<Rightarrow> 'e Env \<Rightarrow> nat \<Rightarrow> 'r session_reader \<Rightarrow> 'e \<Rightarrow> ('r session_reader \<times> 'e \<times> copy_error option) option" where
  "copy_to_output p rd E out rr e =
     map_option (\<lambda>(rr, e, _, err). (rr, e, err)) (Copy (session_read p rd) (\<lambda>e mb. en_write E e out mb) [] rr e ())"

datatype mux_error = MetaFailed frame_error | UnknownStatus byte | CopyFailed copy_error | DispatchFailed buf_error

type_synonym ('e, 'r) handled = "('e Worker \<times> 'r BufferedReader \<times> mux_error option) option"

section \<open>Handlers\<close>

definition ServerWorker_handleStatusKeepAlive ::
  "bytes \<Rightarrow> 'r mb_reader \<Rightarrow> FrameMetadata \<Rightarrow> 'r BufferedReader \<Rightarrow> 'e Worker \<Rightarrow> ('e, 'r) handled" where
  "ServerWorker_handleStatusKeepAlive p rd meta reader w =
     (if Byte_Has (fm_Option meta) OptionData
      then map_option (\<lambda>(reader, err). (w, reader, map_option CopyFailed err)) (discard_chunk p rd reader)
      else Some (w, reader, None))"

definition ServerWorker_handleStatusNew ::
  "bytes \<Rightarrow> 'r mb_reader \<Rightarrow> 'e Env \<Rightarrow> FrameMetadata \<Rightarrow> 'r BufferedReader \<Rightarrow> 'e Worker \<Rightarrow> ('e, 'r) handled" where
  "ServerWorker_handleStatusNew p rd E meta reader w =
     (case en_Dispatch E (wk_env w) (fm_Target meta) of
        (e, Inl err) \<Rightarrow>
          (let w = w\<lparr>wk_env := e\<rparr> in
           if Byte_Has (fm_Option meta) OptionData
           then map_option (\<lambda>(reader, _). (w, reader, Some (DispatchFailed err))) (discard_chunk p rd reader)
           else Some (w, reader, Some (DispatchFailed err)))
      | (e, Inr (input, output)) \<Rightarrow>
          let s = \<lparr>se_input = Some input, se_output = Some output, se_ID = fm_SessionID meta, se_transferType = TransferTypeStream\<rparr>;
              s = (if dest_Network (fm_Target meta) = Network_UDP then s\<lparr>se_transferType := TransferTypePacket\<rparr> else s);
              w = w\<lparr>wk_sessions := SessionManager_Add (se_ID s) s (wk_sessions w), wk_env := en_go E e s\<rparr>
          in if \<not> Byte_Has (fm_Option meta) OptionData then Some (w, reader, None)
             else do {
               (rr, e, err) \<leftarrow> copy_to_output p rd E output (Session_NewReader (se_transferType s) reader) (wk_env w);
               let w = w\<lparr>wk_env := e\<rparr>;
               if err \<noteq> None
               then do {
                 (rr, _) \<leftarrow> drain p rd rr;
                 let w = w\<lparr>wk_env := interrupt_end E (se_input s) (wk_env w)\<rparr>;
                 Some (Session_Close E s w, connection_reader rr, None)
               }
               else Some (w, connection_reader rr, None)
             })"

text \<open>\<^verbatim>\<open>closingWriter.Close()\<close>: the peer is told that the session is closed.\<close>

definition notify_closed :: "bytes \<Rightarrow> 'e Env \<Rightarrow> u16 \<Rightarrow> 'e Worker \<Rightarrow> 'e Worker option" where
  "notify_closed p E sid w =
     map_option (\<lambda>e. w\<lparr>wk_env := e\<rparr>) (Writer_Close p (en_link E) (NewResponseWriter sid TransferTypeStream) (wk_env w))"

definition ServerWorker_handleStatusKeep ::
  "bytes \<Rightarrow> 'r mb_reader \<Rightarrow> 'e Env \<Rightarrow> FrameMetadata \<Rightarrow> 'r BufferedReader \<Rightarrow> 'e Worker \<Rightarrow> ('e, 'r) handled" where
  "ServerWorker_handleStatusKeep p rd E meta reader w =
     (if \<not> Byte_Has (fm_Option meta) OptionData then Some (w, reader, None)
      else case SessionManager_Get (fm_SessionID meta) (wk_sessions w) of
        None \<Rightarrow> do {
          w \<leftarrow> notify_closed p E (fm_SessionID meta) w;
          (reader, err) \<leftarrow> discard_chunk p rd reader;
          Some (w, reader, map_option CopyFailed err)
        }
      | Some s \<Rightarrow> do {
          output \<leftarrow> se_output s;
          (rr, e, err) \<leftarrow> copy_to_output p rd E output (Session_NewReader (se_transferType s) reader) (wk_env w);
          let w = w\<lparr>wk_env := e\<rparr>;
          if IsWriteError err
          then do {
            w \<leftarrow> notify_closed p E (fm_SessionID meta) w;
            (rr, drainErr) \<leftarrow> drain p rd rr;
            let w = w\<lparr>wk_env := interrupt_end E (se_input s) (wk_env w)\<rparr>;
            Some (Session_Close E s w, connection_reader rr, map_option CopyFailed drainErr)
          }
          else Some (w, connection_reader rr, map_option CopyFailed err)
        })"

definition ServerWorker_handleStatusEnd ::
  "bytes \<Rightarrow> 'r mb_reader \<Rightarrow> 'e Env \<Rightarrow> FrameMetadata \<Rightarrow> 'r BufferedReader \<Rightarrow> 'e Worker \<Rightarrow> ('e, 'r) handled" where
  "ServerWorker_handleStatusEnd p rd E meta reader w =
     (let w = (case SessionManager_Get (fm_SessionID meta) (wk_sessions w) of
                 None \<Rightarrow> w
               | Some s \<Rightarrow>
                   let w = (if Byte_Has (fm_Option meta) OptionError
                            then w\<lparr>wk_env := interrupt_end E (se_output s) (interrupt_end E (se_input s) (wk_env w))\<rparr> else w)
                   in Session_Close E s w)
      in if Byte_Has (fm_Option meta) OptionData
         then map_option (\<lambda>(reader, err). (w, reader, map_option CopyFailed err)) (discard_chunk p rd reader)
         else Some (w, reader, None))"

definition no_meta :: FrameMetadata where
  "no_meta = \<lparr>fm_Target = no_target, fm_SessionID = 0, fm_Option = 0, fm_SessionStatus = 0\<rparr>"

definition ServerWorker_handleFrame :: "bytes \<Rightarrow> 'r mb_reader \<Rightarrow> 'e Env \<Rightarrow> 'r BufferedReader \<Rightarrow> 'e Worker \<Rightarrow> ('e, 'r) handled" where
  "ServerWorker_handleFrame p rd E reader w =
     do {
       (reader, meta, err) \<leftarrow> FrameMetadata_Unmarshal p p (BufferedReader_Read rd) no_meta reader;
       case err of
         Some e \<Rightarrow> Some (w, reader, Some (MetaFailed e))
       | None \<Rightarrow>
           if fm_SessionStatus meta = SessionStatusKeepAlive then ServerWorker_handleStatusKeepAlive p rd meta reader w
           else if fm_SessionStatus meta = SessionStatusEnd then ServerWorker_handleStatusEnd p rd E meta reader w
           else if fm_SessionStatus meta = SessionStatusNew then ServerWorker_handleStatusNew p rd E meta reader w
           else if fm_SessionStatus meta = SessionStatusKeep then ServerWorker_handleStatusKeep p rd E meta reader w
           else Some (w, reader, Some (UnknownStatus (fm_SessionStatus meta)))
     }"

fun mux_Cause :: "mux_error \<Rightarrow> buf_error option" where
  "mux_Cause (MetaFailed (FrameRead e)) = Some e"
| "mux_Cause (CopyFailed e) = Some (errors_Cause e)"
| "mux_Cause (DispatchFailed e) = Some e"
| "mux_Cause _ = None"

text \<open>\<^verbatim>\<open>sessionManager.Close()\<close> closes both ends of every session.\<close>

definition Worker_close_sessions :: "'e Env \<Rightarrow> 'e Worker \<Rightarrow> 'e Worker" where
  "Worker_close_sessions E w =
     (let (m, ss) = SessionManager_Close (wk_sessions w)
      in \<lparr>wk_sessions = m, wk_env = fold (\<lambda>s e. close_end E (se_output s) (close_end E (se_input s) e)) ss (wk_env w)\<rparr>)"

text \<open>\<^verbatim>\<open>run\<close>: \<open>cancelled k\<close> says whether the context is done before the k-th frame; \<open>input\<close> is the handle of the
  connection's reader. The result is the worker at the end and the error that ended it, if any.\<close>

partial_function (option) ServerWorker_loop ::
  "bytes \<Rightarrow> 'r mb_reader \<Rightarrow> 'e Env \<Rightarrow> nat \<Rightarrow> (nat \<Rightarrow> bool) \<Rightarrow> nat \<Rightarrow> 'r BufferedReader \<Rightarrow> 'e Worker \<Rightarrow> ('e Worker \<times> mux_error option) option" where
  "ServerWorker_loop p rd E input cancelled k reader w =
     (if cancelled k then Some (w, None)
      else Option.bind (ServerWorker_handleFrame p rd E reader w) (\<lambda>(w, reader, err).
        case err of
          None \<Rightarrow> ServerWorker_loop p rd E input cancelled (Suc k) reader w
        | Some e \<Rightarrow> Some (if mux_Cause e \<noteq> Some EOF then w\<lparr>wk_env := en_Interrupt E (wk_env w) input\<rparr> else w, Some e)))"

definition ServerWorker_run ::
  "bytes \<Rightarrow> 'r mb_reader \<Rightarrow> 'e Env \<Rightarrow> nat \<Rightarrow> (nat \<Rightarrow> bool) \<Rightarrow> 'r \<Rightarrow> 'e Worker \<Rightarrow> ('e Worker \<times> mux_error option) option" where
  "ServerWorker_run p rd E input cancelled r w =
     map_option (\<lambda>(w, err). (Worker_close_sessions E w, err))
       (ServerWorker_loop p rd E input cancelled 0 \<lparr>br_Reader = r, br_Buffer = [], br_Spliter = None\<rparr> w)"

definition NewServerWorker :: "'e \<Rightarrow> 'e Worker" where
  "NewServerWorker e = \<lparr>wk_sessions = NewSessionManager, wk_env = e\<rparr>"

definition ServerWorker_ActiveConnections :: "'e Worker \<Rightarrow> u32" where
  "ServerWorker_ActiveConnections w = word_of_nat (SessionManager_Size (wk_sessions w))"

definition ServerWorker_Closed :: "'e Worker \<Rightarrow> bool" where
  "ServerWorker_Closed w = SessionManager_Closed (wk_sessions w)"

text \<open>\<^verbatim>\<open>handle\<close>, the goroutine of a session: it copies what the session's input delivers to the connection, then
  sends the end of the session. A panic of the writer ends the copy and is a panic of the goroutine.\<close>

definition writer_of :: "('s \<Rightarrow> MultiBuffer \<Rightarrow> ('s \<times> buf_error option) option) \<Rightarrow> 's option mb_writer" where
  "writer_of f s mb =
     (case s of
        None \<Rightarrow> (None, Some OutOfBound)
      | Some s \<Rightarrow> (case f s mb of None \<Rightarrow> (None, Some OutOfBound) | Some (s, err) \<Rightarrow> (Some s, err)))"

definition session_writer :: "bytes \<Rightarrow> 'w mb_writer \<Rightarrow> (Writer \<times> 'w) option mb_writer" where
  "session_writer p wr = writer_of (\<lambda>(w, s) mb. map_option (\<lambda>(w, s, err). ((w, s), err)) (Writer_WriteMultiBuffer p wr w s mb))"

definition handle :: "bytes \<Rightarrow> 'i mb_reader \<Rightarrow> 'e Env \<Rightarrow> Session \<Rightarrow> 'i \<Rightarrow> 'e Worker \<Rightarrow> 'e Worker option" where
  "handle p input E s i w =
     do {
       let writer = NewResponseWriter (se_ID s) (se_transferType s);
       (_, ws, _, err) \<leftarrow> Copy input (session_writer p (en_link E)) [] i (Some (writer, wk_env w)) ();
       (writer, e) \<leftarrow> ws;
       e \<leftarrow> Writer_Close p (en_link E) (if err \<noteq> None then writer\<lparr>mw_hasError := True\<rparr> else writer) e;
       Some (Session_Close E s (w\<lparr>wk_env := e\<rparr>))
     }"

section \<open>Every frame is handled\<close>

lemma Writer_Close_ok:
  assumes "length p = 2048"
  shows "\<exists>frame. Writer_Close p wr w s = Some (fst (wr s [frame])) \<and> wf_Buffer frame \<and>
    content frame = frame_bytes \<lparr>fm_Target = no_target, fm_SessionID = mw_id w, fm_Option = if mw_hasError w then OptionError else 0,
      fm_SessionStatus = SessionStatusEnd\<rparr>"
proof -
  let ?f = "\<lparr>fm_Target = no_target, fm_SessionID = mw_id w, fm_Option = if mw_hasError w then OptionError else 0, fm_SessionStatus = SessionStatusEnd\<rparr>"
  have "frame_ok ?f" by (simp add: frame_ok_def status_defs)
  moreover have "wf_Buffer (Buffer_New p)" "266 \<le> room (Buffer_New p)" using assms by simp_all
  ultimately obtain b where b: "FrameMetadata_WriteTo ?f (Buffer_New p) = Some (b, None)" "wf_Buffer b" "content b = frame_bytes ?f"
    using WriteTo_ok by (metis Buffer_New_spec(2) append_Nil)
  then show ?thesis by (cases "mw_hasError w") (auto simp: Writer_Close_def Byte_Set_def OptionError_def)
qed

sublocale mux_link \<subseteq> chunk_payload: finite_reader "ChunkStreamReader_ReadMultiBuffer p PlainChunkSizeParser rd"
    "\<lambda>r n. session_left rep (StreamR r) n"
proof unfold_locales
  fix r :: "('r, unit) ChunkStreamReader" and n
  assume "session_left rep (StreamR r) n"
  then show "\<exists>r' mb err n'. ChunkStreamReader_ReadMultiBuffer p PlainChunkSizeParser rd r = Some (r', mb, err) \<and>
      session_left rep (StreamR r') n' \<and> n' \<le> n \<and> (err = None \<longrightarrow> n' < n)"
    using payload.step [of "StreamR r" n] by (auto simp del: session_left.simps)
qed

text \<open>The sessions of a server have both ends.\<close>

definition outputs_set :: "'e Worker \<Rightarrow> bool" where
  "outputs_set w \<longleftrightarrow> (\<forall>s \<in> snd ` set (sm_sessions (wk_sessions w)). se_output s \<noteq> None)"

lemma outputs_set_env [simp]: "outputs_set (w\<lparr>wk_env := e\<rparr>) = outputs_set w"
  by (simp add: outputs_set_def)

lemma outputs_set_close: "outputs_set w \<Longrightarrow> outputs_set (Session_Close E s w)"
  by (auto simp: outputs_set_def Session_Close_def Remove_eq AList.delete_eq)

lemma outputs_set_add:
  assumes "outputs_set w" and "se_output s \<noteq> None"
  shows "outputs_set (w\<lparr>wk_sessions := SessionManager_Add i s (wk_sessions w), wk_env := e\<rparr>)"
proof -
  have "snd ` set (AList.update i s al) \<subseteq> insert s (snd ` set al)" for al :: "(u16 \<times> Session) list"
    by (induction al) auto
  then have "\<forall>t \<in> snd ` set (AList.update i s (sm_sessions (wk_sessions w))). se_output t \<noteq> None"
    using assms unfolding outputs_set_def by blast
  then show ?thesis using assms(1) by (simp add: outputs_set_def SessionManager_Add_def)
qed

lemma outputs_set_get: "outputs_set w \<Longrightarrow> SessionManager_Get i (wk_sessions w) = Some s \<Longrightarrow> se_output s \<noteq> None"
  by (force simp: outputs_set_def SessionManager_Get_def split: if_splits dest: map_of_SomeD)

text \<open>\<open>progress r bs res\<close>: the handler returned, and of the bytes \<open>bs\<close> some suffix at most is left.\<close>

definition handled_ok :: "('r \<Rightarrow> bytes \<Rightarrow> bool) \<Rightarrow> nat \<Rightarrow> ('e, 'r) handled \<Rightarrow> bool" where
  "handled_ok rep n res \<longleftrightarrow> (\<exists>w reader err bs. res = Some (w, reader, err) \<and> outputs_set w \<and> br_rep rep reader bs \<and> length bs \<le> n)"

lemma handled_okI: "outputs_set w \<Longrightarrow> br_rep rep reader bs \<Longrightarrow> length bs \<le> n \<Longrightarrow> handled_ok rep n (Some (w, reader, err))"
  by (auto simp: handled_ok_def)

context mux_link
begin

lemma discard_total:
  assumes "br_rep rep reader bs"
  obtains reader' err bs' where "discard_chunk p rd reader = Some (reader', err)" "br_rep rep reader' bs'" "length bs' \<le> length bs"
proof -
  have "session_left rep (StreamR (NewStreamReader reader)) (length bs)"
    using assms by (auto simp: NewStreamReader_def NewChunkStreamReaderWithChunkCount_def)
  from chunk_payload.copy_ends [OF this, of Discard "[]" "()" "()"] show thesis
    using that by (auto simp: discard_chunk_def)
qed

lemma new_reader_left: "br_rep rep reader bs \<Longrightarrow> session_left rep (Session_NewReader t reader) (length bs)"
  by (auto simp: Session_NewReader_def NewStreamReader_def NewChunkStreamReaderWithChunkCount_def NewPacketReader_def)

lemma session_left_reader: "session_left rep rr n \<Longrightarrow> \<exists>bs. br_rep rep (connection_reader rr) bs \<and> length bs = n"
  by (cases rr) auto

lemma drain_total:
  assumes "session_left rep rr n"
  obtains rr' err bs' where "drain p rd rr = Some (rr', err)" "br_rep rep (connection_reader rr') bs'" "length bs' \<le> n"
proof -
  obtain r' w' h' err n' where "Copy (session_read p rd) Discard [] rr () () = Some (r', w', h', err)" "session_left rep r' n'" "n' \<le> n"
    using payload.copy_ends [OF assms, of Discard "[]" "()" "()"] by blast
  then show thesis using that session_left_reader [of r' n'] by (auto simp: drain_def)
qed

lemma copy_to_output_total:
  assumes "br_rep rep reader bs"
  obtains rr' e' err n where "copy_to_output p rd E out (Session_NewReader t reader) e = Some (rr', e', err)"
    "session_left rep rr' n" "n \<le> length bs"
proof -
  obtain r' w' h' err n' where "Copy (session_read p rd) (\<lambda>e mb. en_write E e out mb) [] (Session_NewReader t reader) e () = Some (r', w', h', err)"
      "session_left rep r' n'" "n' \<le> length bs"
    using payload.copy_ends [OF new_reader_left [OF assms], of "\<lambda>e mb. en_write E e out mb" "[]" t e "()"] by blast
  then show thesis using that by (auto simp: copy_to_output_def)
qed

lemma notify_closed_total: "\<exists>e. notify_closed p E i w = Some (w\<lparr>wk_env := e\<rparr>)"
  using Writer_Close_ok [OF array, of "en_link E" "NewResponseWriter i TransferTypeStream" "wk_env w"] by (auto simp: notify_closed_def)

lemma handleStatusKeepAlive_total:
  assumes "br_rep rep reader bs" and "outputs_set w"
  shows "handled_ok rep (length bs) (ServerWorker_handleStatusKeepAlive p rd meta reader w)"
  using discard_total [OF assms(1)] assms by (auto simp: ServerWorker_handleStatusKeepAlive_def handled_ok_def) blast+

lemma handleStatusNew_total:
  assumes "br_rep rep reader bs" and "outputs_set w"
  shows "handled_ok rep (length bs) (ServerWorker_handleStatusNew p rd E meta reader w)"
proof -
  obtain e d where d: "en_Dispatch E (wk_env w) (fm_Target meta) = (e, d)" by fastforce
  obtain reader' derr bs' where ds: "discard_chunk p rd reader = Some (reader', derr)" "br_rep rep reader' bs'" "length bs' \<le> length bs"
    by (rule discard_total [OF assms(1)])
  show ?thesis
  proof (cases d)
    case (Inl err)
    then show ?thesis using d ds assms by (auto simp: ServerWorker_handleStatusNew_def Let_def intro: handled_okI)
  next
    case (Inr io)
    obtain i out where io: "io = (i, out)" by fastforce
    define s where "s = \<lparr>se_input = Some i, se_output = Some out, se_ID = fm_SessionID meta,
       se_transferType = if dest_Network (fm_Target meta) = Network_UDP then TransferTypePacket else TransferTypeStream\<rparr>"
    define w1 where "w1 = w\<lparr>wk_sessions := SessionManager_Add (se_ID s) s (wk_sessions w), wk_env := en_go E e s\<rparr>"
    have w1: "outputs_set w1" unfolding w1_def using assms(2) by (intro outputs_set_add) (simp_all add: s_def)
    obtain rr e' err n where c: "copy_to_output p rd E out (Session_NewReader (se_transferType s) reader) (wk_env w1) = Some (rr, e', err)"
      "session_left rep rr n" "n \<le> length bs"
      by (rule copy_to_output_total [OF assms(1)])
    obtain rr' derr' bs2 where dr: "drain p rd rr = Some (rr', derr')" "br_rep rep (connection_reader rr') bs2" "length bs2 \<le> n"
      by (rule drain_total [OF c(2)])
    obtain bs3 where r3: "br_rep rep (connection_reader rr) bs3" "length bs3 = n" using session_left_reader [OF c(2)] by blast
    have eq: "ServerWorker_handleStatusNew p rd E meta reader w =
        (if \<not> Byte_Has (fm_Option meta) OptionData then Some (w1, reader, None)
         else if err \<noteq> None
         then Some (Session_Close E s (w1\<lparr>wk_env := interrupt_end E (se_input s) e'\<rparr>), connection_reader rr', None)
         else Some (w1\<lparr>wk_env := e'\<rparr>, connection_reader rr, None))"
      using d Inr io c(1) dr(1)
      by (cases "dest_Network (fm_Target meta) = Network_UDP") (simp_all add: ServerWorker_handleStatusNew_def s_def w1_def Let_def)
    show ?thesis
      unfolding eq using assms(1) w1 r3 dr(2,3) c(3)
      by (auto intro!: handled_okI outputs_set_close)
  qed
qed

lemma handleStatusKeep_total:
  assumes "br_rep rep reader bs" and "outputs_set w"
  shows "handled_ok rep (length bs) (ServerWorker_handleStatusKeep p rd E meta reader w)"
proof (cases "Byte_Has (fm_Option meta) OptionData")
  case False
  then show ?thesis using assms by (auto simp: ServerWorker_handleStatusKeep_def intro: handled_okI)
next
  case data: True
  obtain reader' derr bs' where ds: "discard_chunk p rd reader = Some (reader', derr)" "br_rep rep reader' bs'" "length bs' \<le> length bs"
    by (rule discard_total [OF assms(1)])
  show ?thesis
  proof (cases "SessionManager_Get (fm_SessionID meta) (wk_sessions w)")
    case None
    then show ?thesis
      using data ds assms notify_closed_total [of E "fm_SessionID meta" w]
      by (auto simp: ServerWorker_handleStatusKeep_def intro!: handled_okI [OF _ ds(2,3)])
  next
    case (Some s)
    obtain out where out: "se_output s = Some out" using outputs_set_get [OF assms(2) Some] by blast
    obtain rr e' err n where c: "copy_to_output p rd E out (Session_NewReader (se_transferType s) reader) (wk_env w) = Some (rr, e', err)"
      "session_left rep rr n" "n \<le> length bs"
      by (rule copy_to_output_total [OF assms(1)])
    obtain rr' derr' bs2 where dr: "drain p rd rr = Some (rr', derr')" "br_rep rep (connection_reader rr') bs2" "length bs2 \<le> n"
      by (rule drain_total [OF c(2)])
    obtain bs3 where r3: "br_rep rep (connection_reader rr) bs3" "length bs3 = n" using session_left_reader [OF c(2)] by blast
    show ?thesis
      using data Some out c dr r3 assms notify_closed_total [of E "fm_SessionID meta" "w\<lparr>wk_env := e'\<rparr>"]
      by (auto simp: ServerWorker_handleStatusKeep_def Let_def intro!: handled_okI outputs_set_close)
  qed
qed

lemma handleStatusEnd_total:
  assumes "br_rep rep reader bs" and "outputs_set w"
  shows "handled_ok rep (length bs) (ServerWorker_handleStatusEnd p rd E meta reader w)"
proof -
  obtain reader' derr bs' where ds: "discard_chunk p rd reader = Some (reader', derr)" "br_rep rep reader' bs'" "length bs' \<le> length bs"
    by (rule discard_total [OF assms(1)])
  then show ?thesis using assms
    by (cases "SessionManager_Get (fm_SessionID meta) (wk_sessions w)")
      (auto simp: ServerWorker_handleStatusEnd_def Let_def intro!: handled_okI outputs_set_close)
qed

lemma handleFrame_total:
  assumes "br_rep rep reader bs" and "outputs_set w"
  obtains w' reader' err bs' where "ServerWorker_handleFrame p rd E reader w = Some (w', reader', err)" "outputs_set w'"
    "br_rep rep reader' bs'" "err = None \<Longrightarrow> length bs' < length bs"
proof -
  obtain r1 meta err bs1 where u: "FrameMetadata_Unmarshal p p (BufferedReader_Read rd) no_meta reader = Some (r1, meta, err)"
      "br_rep rep r1 bs1" "length bs1 \<le> length bs" "err = None \<longrightarrow> length bs1 < length bs"
    using conn.Unmarshal_safe [OF array array assms(1), of no_meta] by blast
  show thesis
  proof (cases err)
    case (Some e)
    then show ?thesis using that u assms(2) by (simp add: ServerWorker_handleFrame_def)
  next
    case None
    define res where "res = (if fm_SessionStatus meta = SessionStatusKeepAlive then ServerWorker_handleStatusKeepAlive p rd meta r1 w
           else if fm_SessionStatus meta = SessionStatusEnd then ServerWorker_handleStatusEnd p rd E meta r1 w
           else if fm_SessionStatus meta = SessionStatusNew then ServerWorker_handleStatusNew p rd E meta r1 w
           else if fm_SessionStatus meta = SessionStatusKeep then ServerWorker_handleStatusKeep p rd E meta r1 w
           else Some (w, r1, Some (UnknownStatus (fm_SessionStatus meta))))"
    have "handled_ok rep (length bs1) res"
      using handleStatusKeepAlive_total handleStatusEnd_total handleStatusNew_total handleStatusKeep_total u(2) assms(2)
      by (auto simp: res_def intro: handled_okI)
    moreover have "ServerWorker_handleFrame p rd E reader w = res" using u(1) None by (simp add: ServerWorker_handleFrame_def res_def)
    ultimately show ?thesis using that u(4) None by (auto simp: handled_ok_def)
  qed
qed

lemma loop_total:
  "br_rep rep reader bs \<Longrightarrow> outputs_set w \<Longrightarrow> \<exists>w' err. ServerWorker_loop p rd E input cancelled k reader w = Some (w', err)"
proof (induction "length bs" arbitrary: reader bs w k rule: less_induct)
  case less
  obtain w' reader' err bs' where h: "ServerWorker_handleFrame p rd E reader w = Some (w', reader', err)" "outputs_set w'"
    "br_rep rep reader' bs'" "err = None \<Longrightarrow> length bs' < length bs"
    using handleFrame_total [OF less.prems, of E thesis] by blast
  show ?case
  proof (cases "\<not> cancelled k \<and> err = None")
    case True
    then have "\<exists>w'' err. ServerWorker_loop p rd E input cancelled (Suc k) reader' w' = Some (w'', err)"
      using less.hyps [OF h(4) h(3,2)] by simp
    then show ?thesis using True h(1) by (subst ServerWorker_loop.simps) simp
  next
    case False
    then show ?thesis using h(1) by (subst ServerWorker_loop.simps) auto
  qed
qed

end

end
