(* ===== verification/Mux_Demux.thy ===== *)
theory Mux_Demux
  imports Mux_Worker
begin

text \<open>
  What a multiplexed connection promises: an abstract demultiplexer on events (a session is opened,
  data is sent on it, it is ended), the bytes of an event on the connection, and the refinement: the
  server's handlers run on these bytes do what the demultiplexer does on the events.
\<close>

section \<open>The abstract demultiplexer\<close>

datatype mux_event = Opened u16 Destination bytes | Sent u16 bytes | Ended u16 bool

definition transfer_of :: "Destination \<Rightarrow> TransferType" where
  "transfer_of d = (if dest_Network d = Network_UDP then TransferTypePacket else TransferTypeStream)"

definition payload_limit :: "TransferType \<Rightarrow> nat" where
  "payload_limit t = (if t = TransferTypeStream then 65535 else 2048)"

text \<open>Open sessions with their outputs, what the outputs have received, and the next output.\<close>

type_synonym demux = "(u16 \<rightharpoonup> nat \<times> TransferType) \<times> (nat \<Rightarrow> bytes) \<times> nat"

fun demux_step :: "mux_event \<Rightarrow> demux \<Rightarrow> demux" where
  "demux_step (Opened i d bs) (m, o', n) = (m(i \<mapsto> (n, transfer_of d)), o'(n := bs), Suc n)"
| "demux_step (Sent i bs) (m, o', n) = (case m i of None \<Rightarrow> (m, o', n) | Some (h, t) \<Rightarrow> (m, o'(h := o' h @ bs), n))"
| "demux_step (Ended i err) (m, o', n) = (m(i := None), o', n)"

definition payload_bytes :: "bytes \<Rightarrow> bytes" where
  "payload_bytes bs = (if bs = [] then [] else be_PutUint16 (word_of_nat (length bs)) @ bs)"

fun event_meta :: "mux_event \<Rightarrow> FrameMetadata" where
  "event_meta (Opened i d bs) = \<lparr>fm_Target = d, fm_SessionID = i, fm_Option = if bs = [] then 0 else OptionData, fm_SessionStatus = SessionStatusNew\<rparr>"
| "event_meta (Sent i bs) = \<lparr>fm_Target = no_target, fm_SessionID = i, fm_Option = OptionData, fm_SessionStatus = SessionStatusKeep\<rparr>"
| "event_meta (Ended i err) = \<lparr>fm_Target = no_target, fm_SessionID = i, fm_Option = if err then OptionError else 0, fm_SessionStatus = SessionStatusEnd\<rparr>"

fun event_payload :: "mux_event \<Rightarrow> bytes" where
  "event_payload (Opened i d bs) = payload_bytes bs"
| "event_payload (Sent i bs) = payload_bytes bs"
| "event_payload (Ended i err) = []"

definition event_bytes :: "mux_event \<Rightarrow> bytes" where
  "event_bytes ev = frame_bytes (event_meta ev) @ event_payload ev"

text \<open>Events a peer that follows the protocol produces: payloads fit the length field and, for packets, a
  buffer.\<close>

fun event_ok :: "demux \<Rightarrow> mux_event \<Rightarrow> bool" where
  "event_ok st (Opened i d bs) \<longleftrightarrow> frame_ok (event_meta (Opened i d bs)) \<and> length bs \<le> payload_limit (transfer_of d)"
| "event_ok st (Sent i bs) \<longleftrightarrow> bs \<noteq> [] \<and> length bs \<le> (case fst st i of None \<Rightarrow> 65535 | Some (h, t) \<Rightarrow> payload_limit t)"
| "event_ok st (Ended i err) \<longleftrightarrow> True"

fun events_ok :: "demux \<Rightarrow> mux_event list \<Rightarrow> bool" where
  "events_ok st [] = True"
| "events_ok st (ev # evs) \<longleftrightarrow> event_ok st ev \<and> events_ok (demux_step ev st) evs"

section \<open>The environment\<close>

text \<open>Outputs that take everything, and a dispatcher that hands out a new output every time.\<close>

locale mux_env =
  fixes E :: "'e Env" and outs :: "'e \<Rightarrow> nat \<Rightarrow> bytes" and nxt :: "'e \<Rightarrow> nat"
  assumes write_ok: "pooled mb \<Longrightarrow> \<exists>e'. en_write E e h mb = (e', None) \<and> outs e' = (outs e)(h := outs e h @ mb_content mb) \<and> nxt e' = nxt e"
    and dispatch_ok: "\<exists>e' i. en_Dispatch E e d = (e', Inr (i, nxt e)) \<and> outs e' = (outs e)(nxt e := []) \<and> nxt e' = Suc (nxt e)"
    and quiet: "outs (en_Close E e h) = outs e" "nxt (en_Close E e h) = nxt e" "outs (en_Interrupt E e h) = outs e"
      "nxt (en_Interrupt E e h) = nxt e" "outs (fst (en_link E e mb)) = outs e" "nxt (fst (en_link E e mb)) = nxt e"
      "outs (en_go E e s) = outs e" "nxt (en_go E e s) = nxt e"

definition demux_of :: "('e \<Rightarrow> nat \<Rightarrow> bytes) \<Rightarrow> ('e \<Rightarrow> nat) \<Rightarrow> 'e Worker \<Rightarrow> demux" where
  "demux_of outs nxt w =
     (\<lambda>i. map_option (\<lambda>s. (the (se_output s), se_transferType s)) (SessionManager_Get i (wk_sessions w)), outs (wk_env w), nxt (wk_env w))"

definition alive :: "'e Worker \<Rightarrow> bool" where
  "alive w \<longleftrightarrow> \<not> sm_closed (wk_sessions w) \<and> outputs_set w \<and> (\<forall>(i, s) \<in> set (sm_sessions (wk_sessions w)). se_ID s = i)"

lemma alive_env [simp]: "alive (w\<lparr>wk_env := e\<rparr>) = alive w"
  by (simp add: alive_def)

lemma alive_add:
  assumes "alive w" and "se_output s \<noteq> None" and "se_ID s = i"
  shows "alive (w\<lparr>wk_sessions := SessionManager_Add i s (wk_sessions w), wk_env := e\<rparr>)"
proof -
  have "set (AList.update i s al) \<subseteq> insert (i, s) (set al)" for al :: "(u16 \<times> Session) list"
    by (induction al) auto
  then have "\<forall>(j, t) \<in> set (AList.update i s (sm_sessions (wk_sessions w))). se_ID t = j"
    using assms(1,3) unfolding alive_def by blast
  moreover have "\<not> sm_closed (wk_sessions w)" using assms(1) by (simp add: alive_def)
  moreover have "outputs_set (w\<lparr>wk_sessions := SessionManager_Add i s (wk_sessions w), wk_env := e\<rparr>)"
    using assms(1,2) by (intro outputs_set_add) (simp_all add: alive_def)
  ultimately show ?thesis by (simp add: alive_def SessionManager_Add_def)
qed

lemma alive_close: "alive w \<Longrightarrow> alive (Session_Close E s w)"
  using outputs_set_close [of w E s] by (auto simp: alive_def Session_Close_def Remove_eq AList.delete_eq)

text \<open>A discarded payload.\<close>

sublocale mux_link \<subseteq> chunk_data: mb_source "ChunkStreamReader_ReadMultiBuffer p PlainChunkSizeParser rd"
    "\<lambda>r. sess_rep rep rest (StreamR r)" for rest
proof unfold_locales
  fix r :: "('r, unit) ChunkStreamReader" and bs
  show "\<exists>r'. ChunkStreamReader_ReadMultiBuffer p PlainChunkSizeParser rd r = Some (r', [], Some EOF)" if "sess_rep rep rest (StreamR r) []"
    using frame_data.mb_end [OF that] by auto
  show "\<exists>r' mb bs'. ChunkStreamReader_ReadMultiBuffer p PlainChunkSizeParser rd r = Some (r', mb, None) \<and> pooled mb \<and> mb_content mb \<noteq> [] \<and>
      bs = mb_content mb @ bs' \<and> sess_rep rep rest (StreamR r') bs'" if "sess_rep rep rest (StreamR r) bs" "bs \<noteq> []"
    using frame_data.mb_more [OF that] by (auto simp del: sess_rep.simps)
qed

locale mux_server = mux_link rd rep p + mux_env E outs nxt
  for rd :: "'r mb_reader" and rep and p and E :: "'e Env" and outs nxt
begin

lemma quiet_ends: "outs (close_end E h e) = outs e" "nxt (close_end E h e) = nxt e"
  "outs (interrupt_end E h e) = outs e" "nxt (interrupt_end E h e) = nxt e"
  by (auto simp: close_end_def interrupt_end_def quiet split: option.splits)

lemma copy_payload_output:
  assumes "br_rep rep reader (payload_bytes bs @ rest)" and "bs \<noteq> []" and "length bs \<le> payload_limit t"
  obtains rr e' where "copy_to_output p rd E h (Session_NewReader t reader) e = Some (rr, e', None)"
    "outs e' = (outs e)(h := outs e h @ bs)" "nxt e' = nxt e" "br_rep rep (connection_reader rr) rest"
proof -
  let ?J = "\<lambda>e' xs. nxt e' = nxt e \<and> outs e' = (outs e)(h := outs e h @ xs)"
  have wr: "\<exists>w'. en_write E w h mb = (w', None) \<and> ?J w' (xs @ mb_content mb)" if "?J w xs" "pooled mb" for w xs mb
    using write_ok [OF that(2), of w h] that(1) by auto
  have pl: "br_rep rep reader (be_PutUint16 (word_of_nat (length bs)) @ bs @ rest)" using assms(1,2) by (simp add: payload_bytes_def)
  from copy_payload [of ?J "\<lambda>e mb. en_write E e h mb", OF wr pl assms(2), of t e] assms(3)
  obtain rr e' where "Copy (session_read p rd) (\<lambda>e mb. en_write E e h mb) [] (Session_NewReader t reader) e () = Some (rr, e', (), None)"
      "?J e' bs" "br_rep rep (connection_reader rr) rest"
    by (auto simp: payload_limit_def)
  then show thesis using that [of rr e'] by (auto simp: copy_to_output_def)
qed

lemma discard_payload:
  assumes "br_rep rep reader (payload_bytes bs @ rest)" and "bs \<noteq> []" and "length bs \<le> 65535"
  obtains reader' where "discard_chunk p rd reader = Some (reader', None)" "br_rep rep reader' rest"
proof -
  have "sess_rep rep rest (StreamR (NewStreamReader reader)) bs"
    using assms by (auto simp: payload_bytes_def NewStreamReader_def NewChunkStreamReaderWithChunkCount_def)
  moreover have "length bs < 2 ^ 31" using assms(3) by simp
  ultimately obtain r' r0 where c: "Copy (ChunkStreamReader_ReadMultiBuffer p PlainChunkSizeParser rd) Discard [] (NewStreamReader reader) () () = Some (r', (), (), None)"
      "sess_rep rep rest (StreamR r0) []" "ChunkStreamReader_ReadMultiBuffer p PlainChunkSizeParser rd r0 = Some (r', [], Some EOF)"
    using chunk_data.copy_all_final [of "\<lambda>_ _. True" Discard "\<lambda>_ _. True" "[]" bs rest "NewStreamReader reader" "()" 0 "()" "[]"]
    by (auto simp: Discard_def)
  have "br_rep rep (csr_reader r') rest" using c(2,3) by (auto simp: ChunkStreamReader_ReadMultiBuffer_def)
  then show thesis using that c(1) by (simp add: discard_chunk_def)
qed

lemma Unmarshal_event:
  assumes "event_ok st ev" and "br_rep rep reader (event_bytes ev @ rest)"
  obtains r1 where "FrameMetadata_Unmarshal p p (BufferedReader_Read rd) no_meta reader = Some (r1, event_meta ev, None)"
    "br_rep rep r1 (event_payload ev @ rest)"
proof -
  have ok: "frame_ok (event_meta ev)" using assms(1) by (cases ev) (auto simp: frame_ok_def status_defs)
  have un: "unmarshalled no_meta (event_meta ev) = event_meta ev"
    by (cases ev) (simp_all add: unmarshalled_def no_meta_def no_target_def status_defs)
  have "br_rep rep reader (frame_bytes (event_meta ev) @ event_payload ev @ rest)" using assms(2) by (simp add: event_bytes_def)
  from bufbytes.Unmarshal_ok [OF ok array array this, of no_meta] show thesis using that un by auto
qed

lemma alive_get: "alive w \<Longrightarrow> SessionManager_Get i (wk_sessions w) = Some s \<Longrightarrow> \<exists>h. se_output s = Some h"
  using outputs_set_get by (auto simp: alive_def)

lemma opened_step:
  assumes "alive w" and "event_ok (demux_of outs nxt w) (Opened i d bs)" and "br_rep rep r1 (payload_bytes bs @ rest)"
  obtains w' r2 where "ServerWorker_handleStatusNew p rd E (event_meta (Opened i d bs)) r1 w = Some (w', r2, None)" "br_rep rep r2 rest"
    "demux_of outs nxt w' = demux_step (Opened i d bs) (demux_of outs nxt w)" "alive w'"
proof -
  let ?meta = "event_meta (Opened i d bs)"
  obtain e1 inp where d: "en_Dispatch E (wk_env w) d = (e1, Inr (inp, nxt (wk_env w)))" "outs e1 = (outs (wk_env w))(nxt (wk_env w) := [])"
      "nxt e1 = Suc (nxt (wk_env w))"
    using dispatch_ok by blast
  define s where "s = \<lparr>se_input = Some inp, se_output = Some (nxt (wk_env w)), se_ID = i, se_transferType = transfer_of d\<rparr>"
  define w1 where "w1 = w\<lparr>wk_sessions := SessionManager_Add i s (wk_sessions w), wk_env := en_go E e1 s\<rparr>"
  have a1: "alive w1" unfolding w1_def using assms(1) by (intro alive_add) (simp_all add: s_def)
  have get: "SessionManager_Get j (wk_sessions w1) = (if j = i then Some s else SessionManager_Get j (wk_sessions w))" for j
    using assms(1) by (simp add: w1_def alive_def Get_laws)
  have dm: "demux_of outs nxt (w1\<lparr>wk_env := e\<rparr>) = demux_step (Opened i d bs) (demux_of outs nxt w)"
    if "outs e = (outs (wk_env w))(nxt (wk_env w) := bs)" "nxt e = Suc (nxt (wk_env w))" for e
    using get that by (auto simp: demux_of_def s_def fun_eq_iff)
  have e1: "outs (wk_env w1) = (outs (wk_env w))(nxt (wk_env w) := [])" "nxt (wk_env w1) = Suc (nxt (wk_env w))"
    using d(2,3) by (simp_all add: w1_def quiet)
  show thesis
  proof (cases "bs = []")
    case True
    have "ServerWorker_handleStatusNew p rd E ?meta r1 w = Some (w1, r1, None)"
      using True d(1) by (simp add: ServerWorker_handleStatusNew_def Byte_Has_def w1_def s_def transfer_of_def Let_def)
    moreover have "br_rep rep r1 rest" using assms(3) True by (simp add: payload_bytes_def)
    moreover have "w1\<lparr>wk_env := wk_env w1\<rparr> = w1" by simp
    ultimately show thesis using that a1 dm [of "wk_env w1"] e1 True by metis
  next
    case False
    obtain rr e2 where c: "copy_to_output p rd E (nxt (wk_env w)) (Session_NewReader (transfer_of d) r1) (wk_env w1) = Some (rr, e2, None)"
        "outs e2 = (outs (wk_env w1))(nxt (wk_env w) := outs (wk_env w1) (nxt (wk_env w)) @ bs)" "nxt e2 = nxt (wk_env w1)"
        "br_rep rep (connection_reader rr) rest"
      by (rule copy_payload_output [OF assms(3) False]) (use assms(2) in auto)
    have "ServerWorker_handleStatusNew p rd E ?meta r1 w = Some (w1\<lparr>wk_env := e2\<rparr>, connection_reader rr, None)"
      using False d(1) c(1)
      by (cases "dest_Network d = Network_UDP")
        (simp_all add: ServerWorker_handleStatusNew_def Byte_Has_def OptionData_def w1_def s_def transfer_of_def Let_def)
    moreover have "outs e2 = (outs (wk_env w))(nxt (wk_env w) := bs)" "nxt e2 = Suc (nxt (wk_env w))" using c(2,3) e1 by simp_all
    moreover have "alive (w1\<lparr>wk_env := e2\<rparr>)" using a1 by simp
    ultimately show thesis using that [OF _ c(4)] dm by blast
  qed
qed

lemma sent_step:
  assumes "alive w" and "event_ok (demux_of outs nxt w) (Sent i bs)" and "br_rep rep r1 (payload_bytes bs @ rest)"
  obtains w' r2 where "ServerWorker_handleStatusKeep p rd E (event_meta (Sent i bs)) r1 w = Some (w', r2, None)" "br_rep rep r2 rest"
    "demux_of outs nxt w' = demux_step (Sent i bs) (demux_of outs nxt w)" "alive w'"
proof (cases "SessionManager_Get i (wk_sessions w)")
  case None
  obtain frame where n: "Writer_Close p (en_link E) (NewResponseWriter i TransferTypeStream) (wk_env w) = Some (fst (en_link E (wk_env w) [frame]))"
    using Writer_Close_ok [OF array, of "en_link E" "NewResponseWriter i TransferTypeStream" "wk_env w"] by auto
  have lim: "bs \<noteq> []" "length bs \<le> 65535" using assms(2) None by (simp_all add: demux_of_def)
  obtain r2 where r2: "discard_chunk p rd r1 = Some (r2, None)" "br_rep rep r2 rest"
    by (rule discard_payload [OF assms(3) lim])
  let ?w = "w\<lparr>wk_env := fst (en_link E (wk_env w) [frame])\<rparr>"
  have "ServerWorker_handleStatusKeep p rd E (event_meta (Sent i bs)) r1 w = Some (?w, r2, None)"
    using None n r2(1) by (simp add: ServerWorker_handleStatusKeep_def notify_closed_def Byte_Has_def OptionData_def)
  moreover have "demux_of outs nxt ?w = demux_step (Sent i bs) (demux_of outs nxt w)"
    using None by (simp add: demux_of_def quiet)
  moreover have "alive ?w" using assms(1) by simp
  ultimately show thesis using that r2(2) by blast
next
  case (Some s)
  obtain h where h: "se_output s = Some h" using alive_get [OF assms(1) Some] by blast
  have lim: "bs \<noteq> []" "length bs \<le> payload_limit (se_transferType s)" using assms(2) Some h by (simp_all add: demux_of_def)
  obtain rr e2 where c: "copy_to_output p rd E h (Session_NewReader (se_transferType s) r1) (wk_env w) = Some (rr, e2, None)"
      "outs e2 = (outs (wk_env w))(h := outs (wk_env w) h @ bs)" "nxt e2 = nxt (wk_env w)" "br_rep rep (connection_reader rr) rest"
    by (rule copy_payload_output [OF assms(3) lim])
  have "ServerWorker_handleStatusKeep p rd E (event_meta (Sent i bs)) r1 w = Some (w\<lparr>wk_env := e2\<rparr>, connection_reader rr, None)"
    using Some h c(1) by (simp add: ServerWorker_handleStatusKeep_def Byte_Has_def OptionData_def IsWriteError_def)
  moreover have "demux_of outs nxt (w\<lparr>wk_env := e2\<rparr>) = demux_step (Sent i bs) (demux_of outs nxt w)"
    using Some h c(2,3) by (simp add: demux_of_def)
  moreover have "alive (w\<lparr>wk_env := e2\<rparr>)" using assms(1) by simp
  ultimately show thesis using that c(4) by blast
qed

lemma ended_step:
  assumes "alive w"
  obtains w' where "ServerWorker_handleStatusEnd p rd E (event_meta (Ended i err)) r1 w = Some (w', r1, None)"
    "demux_of outs nxt w' = demux_step (Ended i err) (demux_of outs nxt w)" "alive w'"
proof -
  have nd: "\<not> Byte_Has (if err then OptionError else 0) OptionData" by (simp add: Byte_Has_def OptionError_def OptionData_def)
  show thesis
  proof (cases "SessionManager_Get i (wk_sessions w)")
    case None
    then show thesis using that [of w] nd assms by (auto simp: ServerWorker_handleStatusEnd_def demux_of_def fun_eq_iff)
  next
    case (Some s)
    let ?w = "if err then w\<lparr>wk_env := interrupt_end E (se_output s) (interrupt_end E (se_input s) (wk_env w))\<rparr> else w"
    have id: "se_ID s = i"
      using assms Some map_of_SomeD [of "sm_sessions (wk_sessions w)" i s] by (auto simp: alive_def SessionManager_Get_def)
    have "ServerWorker_handleStatusEnd p rd E (event_meta (Ended i err)) r1 w = Some (Session_Close E s ?w, r1, None)"
      using Some nd by (simp add: ServerWorker_handleStatusEnd_def Let_def Byte_Has_def OptionError_def)
    moreover have "alive (Session_Close E s ?w)" using assms by (intro alive_close) simp
    moreover have "demux_of outs nxt (Session_Close E s ?w) = demux_step (Ended i err) (demux_of outs nxt w)"
      using assms id by (auto simp: demux_of_def Session_Close_def quiet_ends fun_eq_iff alive_def Get_laws)
    ultimately show thesis using that by blast
  qed
qed

lemma frame_step:
  assumes "alive w" and "event_ok (demux_of outs nxt w) ev" and "br_rep rep reader (event_bytes ev @ rest)"
  obtains w' reader' where "ServerWorker_handleFrame p rd E reader w = Some (w', reader', None)" "br_rep rep reader' rest"
    "demux_of outs nxt w' = demux_step ev (demux_of outs nxt w)" "alive w'"
proof -
  obtain r1 where u: "FrameMetadata_Unmarshal p p (BufferedReader_Read rd) no_meta reader = Some (r1, event_meta ev, None)"
    "br_rep rep r1 (event_payload ev @ rest)"
    by (rule Unmarshal_event [OF assms(2,3)])
  show thesis
  proof (cases ev)
    case (Opened i d bs)
    have ok: "event_ok (demux_of outs nxt w) (Opened i d bs)" using assms(2) Opened by simp
    have rp: "br_rep rep r1 (payload_bytes bs @ rest)" using u(2) Opened by simp
    obtain w' r2 where "ServerWorker_handleStatusNew p rd E (event_meta (Opened i d bs)) r1 w = Some (w', r2, None)" "br_rep rep r2 rest"
        "demux_of outs nxt w' = demux_step (Opened i d bs) (demux_of outs nxt w)" "alive w'"
      by (rule opened_step [OF assms(1) ok rp])
    then show thesis using that [of w' r2] u(1) Opened by (simp add: ServerWorker_handleFrame_def status_defs)
  next
    case (Sent i bs)
    have ok: "event_ok (demux_of outs nxt w) (Sent i bs)" using assms(2) Sent by simp
    have rp: "br_rep rep r1 (payload_bytes bs @ rest)" using u(2) Sent by simp
    obtain w' r2 where "ServerWorker_handleStatusKeep p rd E (event_meta (Sent i bs)) r1 w = Some (w', r2, None)" "br_rep rep r2 rest"
        "demux_of outs nxt w' = demux_step (Sent i bs) (demux_of outs nxt w)" "alive w'"
      by (rule sent_step [OF assms(1) ok rp])
    then show thesis using that [of w' r2] u(1) Sent by (simp add: ServerWorker_handleFrame_def status_defs)
  next
    case (Ended i err)
    obtain w' where "ServerWorker_handleStatusEnd p rd E (event_meta (Ended i err)) r1 w = Some (w', r1, None)"
        "demux_of outs nxt w' = demux_step (Ended i err) (demux_of outs nxt w)" "alive w'"
      by (rule ended_step [OF assms(1)])
    then show thesis using that [of w' r1] u Ended by (simp add: ServerWorker_handleFrame_def status_defs)
  qed
qed

lemma frame_end:
  assumes "br_rep rep reader []"
  shows "\<exists>reader'. ServerWorker_handleFrame p rd E reader w = Some (w, reader', Some (MetaFailed (FrameRead EOF)))"
proof -
  obtain r' where "BufferedReader_Read rd reader 2 = Some (r', [], Some EOF)" using bufbytes.io_end [OF assms, of 2] by auto
  then have "io_ReadFull_from (BufferedReader_Read rd) reader 2 [] = Some (r', [], Some EOF)"
    by (subst io_ReadFull_from.simps) simp
  then show ?thesis by (simp add: ServerWorker_handleFrame_def FrameMetadata_Unmarshal_def serial_ReadUint16_from_def)
qed

lemma loop_events:
  "alive w \<Longrightarrow> events_ok (demux_of outs nxt w) evs \<Longrightarrow> br_rep rep reader (concat (map event_bytes evs)) \<Longrightarrow>
   \<exists>w'. ServerWorker_loop p rd E input (\<lambda>_. False) k reader w = Some (w', Some (MetaFailed (FrameRead EOF))) \<and>
     demux_of outs nxt w' = fold demux_step evs (demux_of outs nxt w)"
proof (induction evs arbitrary: w reader k)
  case Nil
  obtain reader' where "ServerWorker_handleFrame p rd E reader w = Some (w, reader', Some (MetaFailed (FrameRead EOF)))"
    using frame_end [of reader w] Nil.prems by auto
  then show ?case by (subst ServerWorker_loop.simps) simp
next
  case (Cons ev evs)
  have ok: "event_ok (demux_of outs nxt w) ev" and rp: "br_rep rep reader (event_bytes ev @ concat (map event_bytes evs))"
    using Cons.prems by simp_all
  obtain w1 reader1 where s: "ServerWorker_handleFrame p rd E reader w = Some (w1, reader1, None)" "br_rep rep reader1 (concat (map event_bytes evs))"
    "demux_of outs nxt w1 = demux_step ev (demux_of outs nxt w)" "alive w1"
    by (rule frame_step [OF Cons.prems(1) ok rp])
  have "events_ok (demux_of outs nxt w1) evs" using Cons.prems(2) s(3) by simp
  from Cons.IH [OF s(4) this s(2), of "Suc k"] s(1,3) show ?case by (subst ServerWorker_loop.simps) simp
qed

lemma run_events:
  assumes "events_ok (\<lambda>_. None, outs e, nxt e) evs" and "rep r (concat (map event_bytes evs))"
  shows "\<exists>w'. ServerWorker_run p rd E input (\<lambda>_. False) r (NewServerWorker e) = Some (w', Some (MetaFailed (FrameRead EOF))) \<and>
     outs (wk_env w') = fst (snd (fold demux_step evs (\<lambda>_. None, outs e, nxt e))) \<and> sm_closed (wk_sessions w')"
proof -
  let ?w = "NewServerWorker e"
  have a: "alive ?w" by (simp add: alive_def NewServerWorker_def NewSessionManager_def outputs_set_def)
  have d: "demux_of outs nxt ?w = (\<lambda>_. None, outs e, nxt e)"
    by (simp add: demux_of_def NewServerWorker_def NewSessionManager_def SessionManager_Get_def)
  have "br_rep rep \<lparr>br_Reader = r, br_Buffer = [], br_Spliter = None\<rparr> (concat (map event_bytes evs))" using assms(2) by (simp add: br_rep_def)
  from loop_events [OF a _ this, of input 0] assms(1) d
  obtain w' where w': "ServerWorker_loop p rd E input (\<lambda>_. False) 0 \<lparr>br_Reader = r, br_Buffer = [], br_Spliter = None\<rparr> ?w = Some (w', Some (MetaFailed (FrameRead EOF)))"
      "demux_of outs nxt w' = fold demux_step evs (\<lambda>_. None, outs e, nxt e)" by auto
  have q: "outs (fold (\<lambda>s e. close_end E (se_output s) (close_end E (se_input s) e)) ss e0) = outs e0" for ss e0
    by (induction ss arbitrary: e0) (simp_all add: quiet_ends)
  have "outs (wk_env (Worker_close_sessions E w')) = outs (wk_env w')" "sm_closed (wk_sessions (Worker_close_sessions E w'))"
    using q by (auto simp: Worker_close_sessions_def SessionManager_Close_def split_beta split: if_splits)
  moreover have "outs (wk_env w') = fst (snd (fold demux_step evs (\<lambda>_. None, outs e, nxt e)))"
    using arg_cong [OF w'(2), of "\<lambda>st. fst (snd st)"] by (simp add: demux_of_def)
  ultimately show ?thesis using w'(1) by (simp add: ServerWorker_run_def)
qed

end

section \<open>Providers\<close>

text \<open>Outputs as byte lists.\<close>

record mailboxes =
  mx_outs :: "nat \<Rightarrow> bytes"
  mx_next :: nat
  mx_link :: bytes
  mx_closed :: "nat list"

definition mailbox_env :: "mailboxes Env" where
  "mailbox_env = \<lparr>en_write = (\<lambda>e h mb. (e\<lparr>mx_outs := (mx_outs e)(h := mx_outs e h @ mb_content mb)\<rparr>, None)),
     en_Close = (\<lambda>e h. e\<lparr>mx_closed := h # mx_closed e\<rparr>), en_Interrupt = (\<lambda>e h. e\<lparr>mx_closed := h # mx_closed e\<rparr>),
     en_Dispatch = (\<lambda>e d. (e\<lparr>mx_outs := (mx_outs e)(mx_next e := []), mx_next := Suc (mx_next e)\<rparr>, Inr (mx_next e, mx_next e))),
     en_link = (\<lambda>e mb. (e\<lparr>mx_link := mx_link e @ mb_content mb\<rparr>, None)), en_go = (\<lambda>e s. e)\<rparr>"

interpretation boxes: mux_env mailbox_env mx_outs mx_next
  by unfold_locales (simp_all add: mailbox_env_def)

lemma single_stays:
  assumes "wf_mb c \<and> mb_content c = []" and "SingleReader_ReadMultiBuffer (fresh_pool 0) Container_reader c = Some (c', [], Some EOF)"
  shows "wf_mb c' \<and> mb_content c' = []"
proof -
  obtain d where d: "Container_reader c 2048 = Some (d, [], Some EOF)" using contr.io_end [OF assms(1), of 2048] by auto
  then have "wf_mb d \<and> mb_content d = []" using conts.io_stays [OF assms(1)] by blast
  moreover have "c' = d" using assms(2) d by (auto simp: SingleReader_ReadMultiBuffer_def ReadBuffer_def read_into_def split: Option.bind_splits option.splits if_splits)
  ultimately show ?thesis by simp
qed

interpretation cont_link: mux_link "SingleReader_ReadMultiBuffer (fresh_pool 0) Container_reader" "\<lambda>c bs. wf_mb c \<and> mb_content c = bs" "fresh_pool 0"
proof unfold_locales
  show "length (fresh_pool 0) = 2048" by simp
  show "wf_mb c' \<and> mb_content c' = []" if "wf_mb c \<and> mb_content c = []"
      "SingleReader_ReadMultiBuffer (fresh_pool 0) Container_reader c = Some (c', [], Some EOF)" for c c'
    using that by (rule single_stays)
qed

interpretation cont_server: mux_server "SingleReader_ReadMultiBuffer (fresh_pool 0) Container_reader" "\<lambda>c bs. wf_mb c \<and> mb_content c = bs"
    "fresh_pool 0" mailbox_env mx_outs mx_next
  by unfold_locales

section \<open>Writers produce events\<close>

lemma frame_bytes_target:
  "fm_SessionStatus f \<noteq> SessionStatusNew \<Longrightarrow> frame_bytes (f\<lparr>fm_Target := d\<rparr>) = frame_bytes f"
  by (simp add: frame_bytes_def frame_body_def)

lemma data_frame_event:
  assumes "c \<noteq> []"
  shows "data_frame w c = event_bytes (if mw_followup w then Sent (mw_id w) c else Opened (mw_id w) (mw_dest w) c)"
proof -
  have new: "next_meta w\<lparr>fm_Option := OptionData\<rparr> = event_meta (Opened (mw_id w) (mw_dest w) c)" if "\<not> mw_followup w"
    using that assms by (simp add: next_meta_def Writer_getNextFrameMeta_def Let_def)
  have keep: "next_meta w\<lparr>fm_Option := OptionData\<rparr> = event_meta (Sent (mw_id w) c)\<lparr>fm_Target := mw_dest w\<rparr>" if "mw_followup w"
    using that by (simp add: next_meta_def Writer_getNextFrameMeta_def Let_def)
  show ?thesis
    using assms new keep frame_bytes_target [of "event_meta (Sent (mw_id w) c)" "mw_dest w"]
    by (cases "mw_followup w") (auto simp: data_frame_def event_bytes_def payload_bytes_def status_defs)
qed

lemma frames_events:
  assumes "\<forall>c \<in> set cs. c \<noteq> []" and "mw_followup w"
  shows "frames w cs = concat (map (\<lambda>c. event_bytes (Sent (mw_id w) c)) cs)"
  using assms by (induction w cs rule: frames.induct) (simp_all add: data_frame_event)

lemma sent_fold:
  assumes "m i = Some (h, t)" and "\<forall>c \<in> set cs. c \<noteq> [] \<and> length c \<le> payload_limit t"
  shows "fold demux_step (map (Sent i) cs) (m, o', n) = (m, o'(h := o' h @ concat cs), n)" "events_ok (m, o', n) (map (Sent i) cs)"
proof -
  have "fold demux_step (map (Sent i) cs) (m, o', n) = (m, o'(h := o' h @ concat cs), n) \<and> events_ok (m, o', n) (map (Sent i) cs)"
    using assms(2)
  proof (induction cs arbitrary: o')
    case Nil
    then show ?case by simp
  next
    case (Cons c cs)
    then show ?case using assms(1) by (simp add: fun_eq_iff)
  qed
  then show "fold demux_step (map (Sent i) cs) (m, o', n) = (m, o'(h := o' h @ concat cs), n)" "events_ok (m, o', n) (map (Sent i) cs)"
    by simp_all
qed

lemma events_ok_append: "events_ok st (xs @ ys) \<longleftrightarrow> events_ok st xs \<and> events_ok (fold demux_step xs st) ys"
  by (induction xs arbitrary: st) auto

section \<open>Properties\<close>


definition example_target :: Destination where
  "example_target = TCPDestination (Some (ipv4Address [10, 0, 0, 1])) 443"

definition example_events :: "mux_event list" where
  "example_events = [Opened 1 example_target [1, 2], Opened 2 example_target [], Sent 2 [9], Sent 1 [3], Ended 1 False, Sent 2 [8]]"

definition example_box :: mailboxes where
  "example_box = \<lparr>mx_outs = \<lambda>_. [], mx_next = 0, mx_link = [], mx_closed = []\<rparr>"

lemma example_events_ok: "events_ok (\<lambda>_. None, mx_outs example_box, mx_next example_box) example_events"
  by (simp add: example_events_def example_box_def frame_ok_def example_target_def TCPDestination_def payload_limit_def transfer_of_def)

lemma example_events_out:
  "fst (snd (fold demux_step example_events (\<lambda>_. None, mx_outs example_box, mx_next example_box))) = (\<lambda>_. [])(0 := [1, 2, 3], 1 := [9, 8])"
  by (simp add: example_events_def example_box_def example_target_def fun_eq_iff)

definition one_buffer :: "bytes \<Rightarrow> Buffer" where
  "one_buffer bs = Buffer_FromBytes bs"

lemma one_buffer_facts: "length bs < 2 ^ 31 \<Longrightarrow> wf_Buffer (one_buffer bs) \<and> content (one_buffer bs) = bs"
  using i32_id [of "int (length bs)"] by (simp add: one_buffer_def Buffer_FromBytes_def wf_Buffer_def content_def)

lemma example_bytes:
  "wf_mb [one_buffer (concat (map event_bytes example_events))] \<and>
   mb_content [one_buffer (concat (map event_bytes example_events))] = concat (map event_bytes example_events)"
proof -
  have "length (concat (map event_bytes example_events)) < 1000" by code_simp
  then show ?thesis using one_buffer_facts [of "concat (map event_bytes example_events)"] by simp
qed


lemma writer_sends_events:
  assumes "length p = 2048" and "frame_ok (event_meta (Opened i d []))" and "pooled mb" and "mb \<noteq> []"
  shows "\<exists>w1 s1 s2 c cs. Writer_WriteMultiBuffer p collect (NewWriter i d (transfer_of d)) [] mb = Some (w1, s1, None) \<and>
     Writer_Close p collect w1 s1 = Some s2 \<and> c @ concat cs = mb_content mb \<and>
     (\<forall>x \<in> set (c # cs). x \<noteq> [] \<and> length x \<le> payload_limit (transfer_of d)) \<and>
     s2 = concat (map event_bytes (Opened i d c # map (Sent i) cs @ [Ended i False]))"
proof -
  let ?w = "NewWriter i d (transfer_of d)"
  have acc: "accepting collect (\<lambda>w. w) p" using assms(1) by unfold_locales (simp_all add: collect_def)
  have wr: "writable ?w" using assms(2) by (simp add: writable_def frame_ok_def next_meta_eq NewWriter_def)
  obtain w1 s1 cs where l: "Writer_loop p collect ?w [] mb = Some (w1, s1, None)" "concat cs = mb_content mb" "s1 = frames ?w cs"
      "\<forall>c \<in> set cs. c \<noteq> [] \<and> length c \<le> (if transfer_of d = TransferTypeStream then 8192 else 2048)"
      "w1 = (if cs = [] then ?w else ?w\<lparr>mw_followup := True\<rparr>)"
    using accepting.loop_ok [OF acc assms(3) wr, of "[]"] by (auto simp: NewWriter_def)
  have ne: "\<not> MultiBuffer_IsEmpty mb" using assms(3,4) by (simp add: pooled_IsEmpty pooled_content_Nil)
  obtain c cs' where cs: "cs = c # cs'" using l(2) assms(3,4) pooled_content_Nil by (cases cs) fastforce+
  obtain frame where fr: "Writer_Close p collect w1 s1 = Some (fst (collect s1 [frame]))" "content frame = event_bytes (Ended i False)"
    using Writer_Close_ok [OF assms(1), of collect w1 s1] l(5) cs
    by (auto simp: NewWriter_def event_bytes_def)
  have "frames (?w\<lparr>mw_followup := True\<rparr>) cs' = concat (map (\<lambda>c. event_bytes (Sent i c)) cs')"
    using frames_events [of cs' "?w\<lparr>mw_followup := True\<rparr>"] l(4) cs by (simp add: NewWriter_def)
  moreover have "data_frame ?w c = event_bytes (Opened i d c)" using data_frame_event [of c ?w] l(4) cs by (simp add: NewWriter_def)
  ultimately have "s1 = event_bytes (Opened i d c) @ concat (map (\<lambda>c. event_bytes (Sent i c)) cs')" using l(3) cs by simp
  then have "fst (collect s1 [frame]) = concat (map event_bytes (Opened i d c # map (Sent i) cs' @ [Ended i False]))"
    using fr(2) by (simp add: collect_def comp_def)
  moreover have "\<forall>x \<in> set (c # cs'). x \<noteq> [] \<and> length x \<le> payload_limit (transfer_of d)"
    using l(4) cs by (auto simp: payload_limit_def split: if_splits)
  ultimately show ?thesis
    using l(1,2) ne fr(1) cs by (intro exI [of _ w1] exI [of _ s1] exI [of _ "fst (collect s1 [frame])"] exI [of _ c] exI [of _ cs'])
      (simp add: Writer_WriteMultiBuffer_def)
qed





end
