(* ===== verification/Mux_Client.thy ===== *)
theory Mux_Client
  imports Mux_Demux "HOL-Library.Multiset"
begin

text \<open>
  \<^verbatim>\<open>common/mux/client.go\<close>: the worker at the client's end of a multiplexed connection, the picker of workers and
  the manager that dispatches links to them.

  The handlers of frames for open sessions are, line for line, those of the server; they share the
  definitions of \<open>Mux_Worker\<close>.
\<close>

section \<open>ClientWorker\<close>

record ClientStrategy =
  cl_MaxConcurrency :: u32
  cl_MaxConnection :: u32

record 'e ClientWorker =
  cw_worker :: "'e Worker"
  cw_done :: bool
  cw_strategy :: ClientStrategy

definition NewClientWorker :: "'e \<Rightarrow> ClientStrategy \<Rightarrow> 'e ClientWorker" where
  "NewClientWorker e s = \<lparr>cw_worker = \<lparr>wk_sessions = NewSessionManager, wk_env = e\<rparr>, cw_done = False, cw_strategy = s\<rparr>"

definition ClientWorker_TotalConnections :: "'e ClientWorker \<Rightarrow> u32" where
  "ClientWorker_TotalConnections m = word_of_nat (SessionManager_Count (wk_sessions (cw_worker m)))"

definition ClientWorker_ActiveConnections :: "'e ClientWorker \<Rightarrow> u32" where
  "ClientWorker_ActiveConnections m = word_of_nat (SessionManager_Size (wk_sessions (cw_worker m)))"

definition ClientWorker_Closed :: "'e ClientWorker \<Rightarrow> bool" where
  "ClientWorker_Closed m = cw_done m"

definition ClientWorker_IsClosing :: "'e ClientWorker \<Rightarrow> bool" where
  "ClientWorker_IsClosing m \<longleftrightarrow>
     cl_MaxConnection (cw_strategy m) > 0 \<and> SessionManager_Count (wk_sessions (cw_worker m)) \<ge> unat (cl_MaxConnection (cw_strategy m))"

definition ClientWorker_IsFull :: "'e ClientWorker \<Rightarrow> bool" where
  "ClientWorker_IsFull m \<longleftrightarrow>
     (if ClientWorker_IsClosing m \<or> ClientWorker_Closed m then True
      else cl_MaxConcurrency (cw_strategy m) > 0 \<and>
           SessionManager_Size (wk_sessions (cw_worker m)) \<ge> unat (cl_MaxConcurrency (cw_strategy m)))"

text \<open>\<^verbatim>\<open>Dispatch\<close> after its test: the session is allocated, given the two ends of the link, and its goroutine started.\<close>

definition ClientWorker_start :: "'e Env \<Rightarrow> nat \<times> nat \<Rightarrow> 'e ClientWorker \<Rightarrow> 'e ClientWorker \<times> bool" where
  "ClientWorker_start E link m =
     (let w = cw_worker m;
          mk = (\<lambda>i. \<lparr>se_input = None, se_output = None, se_ID = i, se_transferType = TransferTypeStream\<rparr>)
      in case SessionManager_Allocate mk (wk_sessions w) of
           (sm, None) \<Rightarrow> (m\<lparr>cw_worker := w\<lparr>wk_sessions := sm\<rparr>\<rparr>, False)
         | (sm, Some (i, s)) \<Rightarrow>
             let s = s\<lparr>se_input := Some (fst link), se_output := Some (snd link)\<rparr>;
                 sm = sm\<lparr>sm_sessions := AList.update i s (sm_sessions sm)\<rparr>
             in (m\<lparr>cw_worker := \<lparr>wk_sessions = sm, wk_env = en_go E (wk_env w) s\<rparr>\<rparr>, True))"

definition ClientWorker_Dispatch :: "'e Env \<Rightarrow> nat \<times> nat \<Rightarrow> 'e ClientWorker \<Rightarrow> 'e ClientWorker \<times> bool" where
  "ClientWorker_Dispatch E link m =
     (if ClientWorker_IsFull m \<or> ClientWorker_Closed m then (m, False) else ClientWorker_start E link m)"

section \<open>Frames from the server\<close>

definition ClientWorker_handleStatueKeepAlive ::
  "bytes \<Rightarrow> 'r mb_reader \<Rightarrow> FrameMetadata \<Rightarrow> 'r BufferedReader \<Rightarrow> 'e Worker \<Rightarrow> ('e, 'r) handled" where
  "ClientWorker_handleStatueKeepAlive p rd meta reader w =
     (if Byte_Has (fm_Option meta) OptionData
      then map_option (\<lambda>(reader, err). (w, reader, map_option CopyFailed err)) (discard_chunk p rd reader)
      else Some (w, reader, None))"

definition ClientWorker_handleStatusNew ::
  "bytes \<Rightarrow> 'r mb_reader \<Rightarrow> FrameMetadata \<Rightarrow> 'r BufferedReader \<Rightarrow> 'e Worker \<Rightarrow> ('e, 'r) handled" where
  "ClientWorker_handleStatusNew p rd meta reader w =
     (if Byte_Has (fm_Option meta) OptionData
      then map_option (\<lambda>(reader, err). (w, reader, map_option CopyFailed err)) (discard_chunk p rd reader)
      else Some (w, reader, None))"

definition ClientWorker_handleStatusKeep ::
  "bytes \<Rightarrow> 'r mb_reader \<Rightarrow> 'e Env \<Rightarrow> FrameMetadata \<Rightarrow> 'r BufferedReader \<Rightarrow> 'e Worker \<Rightarrow> ('e, 'r) handled" where
  "ClientWorker_handleStatusKeep = ServerWorker_handleStatusKeep"

definition ClientWorker_handleStatusEnd ::
  "bytes \<Rightarrow> 'r mb_reader \<Rightarrow> 'e Env \<Rightarrow> FrameMetadata \<Rightarrow> 'r BufferedReader \<Rightarrow> 'e Worker \<Rightarrow> ('e, 'r) handled" where
  "ClientWorker_handleStatusEnd = ServerWorker_handleStatusEnd"

text \<open>The loop of \<^verbatim>\<open>fetchOutput\<close>. The record of the metadata is declared outside the loop, so a frame starts from what
  the one before it left there.\<close>

partial_function (option) ClientWorker_loop ::
  "bytes \<Rightarrow> 'r mb_reader \<Rightarrow> 'e Env \<Rightarrow> FrameMetadata \<Rightarrow> 'r BufferedReader \<Rightarrow> 'e Worker \<Rightarrow> ('e Worker \<times> mux_error) option" where
  "ClientWorker_loop p rd E meta reader w =
     Option.bind (FrameMetadata_Unmarshal p p (BufferedReader_Read rd) meta reader) (\<lambda>(reader, meta, err).
       case err of
         Some e \<Rightarrow> Some (w, MetaFailed e)
       | None \<Rightarrow>
           Option.bind
             (if fm_SessionStatus meta = SessionStatusKeepAlive then ClientWorker_handleStatueKeepAlive p rd meta reader w
              else if fm_SessionStatus meta = SessionStatusEnd then ClientWorker_handleStatusEnd p rd E meta reader w
              else if fm_SessionStatus meta = SessionStatusNew then ClientWorker_handleStatusNew p rd meta reader w
              else if fm_SessionStatus meta = SessionStatusKeep then ClientWorker_handleStatusKeep p rd E meta reader w
              else Some (w, reader, Some (UnknownStatus (fm_SessionStatus meta)))) (\<lambda>(w, reader, err).
           case err of Some e \<Rightarrow> Some (w, e) | None \<Rightarrow> ClientWorker_loop p rd E meta reader w))"

definition ClientWorker_fetchOutput ::
  "bytes \<Rightarrow> 'r mb_reader \<Rightarrow> 'e Env \<Rightarrow> 'r \<Rightarrow> 'e ClientWorker \<Rightarrow> ('e ClientWorker \<times> mux_error) option" where
  "ClientWorker_fetchOutput p rd E r m =
     map_option (\<lambda>(w, err). (m\<lparr>cw_worker := w, cw_done := True\<rparr>, err))
       (ClientWorker_loop p rd E no_meta \<lparr>br_Reader = r, br_Buffer = [], br_Spliter = None\<rparr> (cw_worker m))"

section \<open>Data to the server\<close>

text \<open>What \<^verbatim>\<open>CopyOnceTimeout\<close> finds on the input within 100 milliseconds.\<close>

datatype first_read = NotTimeoutReader | ReadTimeout | FirstError buf_error | FirstData MultiBuffer

definition writeFirstPayload :: "bytes \<Rightarrow> 'w mb_writer \<Rightarrow> first_read \<Rightarrow> Writer \<Rightarrow> 'w \<Rightarrow> (Writer \<times> 'w \<times> buf_error option) option" where
  "writeFirstPayload p wr first w s =
     (case first of
        FirstData mb \<Rightarrow> Writer_WriteMultiBuffer p wr w s mb
      | FirstError e \<Rightarrow> Some (w, s, Some e)
      | NotTimeoutReader \<Rightarrow> Writer_WriteMultiBuffer p wr w s []
      | ReadTimeout \<Rightarrow> Writer_WriteMultiBuffer p wr w s [])"

text \<open>The session is shared with the table: setting its transfer type is seen there while the entry is this session.\<close>

definition set_transferType :: "Session \<Rightarrow> TransferType \<Rightarrow> 'e Worker \<Rightarrow> 'e Worker" where
  "set_transferType s t w =
     (let sm = wk_sessions w in
      if map_of (sm_sessions sm) (se_ID s) = Some s
      then w\<lparr>wk_sessions := sm\<lparr>sm_sessions := AList.update (se_ID s) (s\<lparr>se_transferType := t\<rparr>) (sm_sessions sm)\<rparr>\<rparr> else w)"

text \<open>\<^verbatim>\<open>fetchInput\<close>: \<open>first\<close> is the first timed read, \<open>i\<close> the input after it. The deferred calls close the writer, then
  the session.\<close>

definition fetchInput ::
  "bytes \<Rightarrow> 'i mb_reader \<Rightarrow> 'e Env \<Rightarrow> Destination \<Rightarrow> first_read \<Rightarrow> Session \<Rightarrow> 'i \<Rightarrow> 'e Worker \<Rightarrow> 'e Worker option" where
  "fetchInput p input E dest first s i w =
     do {
       let transferType = (if dest_Network dest = Network_UDP then TransferTypePacket else TransferTypeStream);
       let w = set_transferType s transferType w;
       (writer, e, err) \<leftarrow> writeFirstPayload p (en_link E) first (NewWriter (se_ID s) dest transferType) (wk_env w);
       (writer, e) \<leftarrow>
         (if err \<noteq> None then Some (writer\<lparr>mw_hasError := True\<rparr>, interrupt_end E (se_input s) e)
          else do {
            (_, ws, _, cerr) \<leftarrow> Copy input (session_writer p (en_link E)) [] i (Some (writer, e)) ();
            (writer, e) \<leftarrow> ws;
            Some (if cerr \<noteq> None then (writer\<lparr>mw_hasError := True\<rparr>, interrupt_end E (se_input s) e) else (writer, e))
          });
       e \<leftarrow> Writer_Close p (en_link E) writer e;
       Some (Session_Close E s (w\<lparr>wk_env := e\<rparr>))
     }"

section \<open>monitor\<close>

text \<open>The two branches of the loop: a tick, and the end of the worker; \<open>rdr\<close> and \<open>wtr\<close> are the ends of the connection.\<close>

definition ClientWorker_tick :: "'e ClientWorker \<Rightarrow> 'e ClientWorker" where
  "ClientWorker_tick m =
     (if SessionManager_Size (wk_sessions (cw_worker m)) = 0
      then let (sm, ok) = SessionManager_CloseIfNoSession (wk_sessions (cw_worker m));
               m = m\<lparr>cw_worker := (cw_worker m)\<lparr>wk_sessions := sm\<rparr>\<rparr>
           in if ok then m\<lparr>cw_done := True\<rparr> else m
      else m)"

definition ClientWorker_finish :: "'e Env \<Rightarrow> nat \<Rightarrow> nat \<Rightarrow> 'e ClientWorker \<Rightarrow> 'e ClientWorker" where
  "ClientWorker_finish E rdr wtr m =
     (let w = Worker_close_sessions E (cw_worker m)
      in m\<lparr>cw_worker := w\<lparr>wk_env := en_Interrupt E (en_Close E (wk_env w) wtr) rdr\<rparr>\<rparr>)"

section \<open>The picker\<close>

text \<open>Workers are pointers \<open>'w\<close>; \<open>full\<close> and \<open>closed\<close> say what \<^verbatim>\<open>IsFull\<close> and \<^verbatim>\<open>Closed\<close> answer at the time. The second component
  says whether the task that cleans up has been made.\<close>

record 'w IncrementalWorkerPicker =
  pk_workers :: "'w list"
  pk_cleanupTask :: bool

definition IncrementalWorkerPicker_cleanup :: "('w \<Rightarrow> bool) \<Rightarrow> 'w IncrementalWorkerPicker \<Rightarrow> 'w IncrementalWorkerPicker" where
  "IncrementalWorkerPicker_cleanup closed p = p\<lparr>pk_workers := filter (\<lambda>w. \<not> closed w) (pk_workers p)\<rparr>"

definition IncrementalWorkerPicker_cleanupFunc :: "('w \<Rightarrow> bool) \<Rightarrow> 'w IncrementalWorkerPicker \<Rightarrow> 'w IncrementalWorkerPicker \<times> bool" where
  "IncrementalWorkerPicker_cleanupFunc closed p =
     (if length (pk_workers p) = 0 then (p, False) else (IncrementalWorkerPicker_cleanup closed p, True))"

fun find_from :: "('w \<Rightarrow> bool) \<Rightarrow> nat \<Rightarrow> 'w list \<Rightarrow> int" where
  "find_from full k [] = - 1"
| "find_from full k (w # ws) = (if \<not> full w then int k else find_from full (Suc k) ws)"

definition IncrementalWorkerPicker_findAvailable :: "('w \<Rightarrow> bool) \<Rightarrow> 'w IncrementalWorkerPicker \<Rightarrow> int" where
  "IncrementalWorkerPicker_findAvailable full p = find_from full 0 (pk_workers p)"

text \<open>\<open>create\<close> is what the factory returns: a worker or an error. The flag of the result asks for the clean-up task to
  be started.\<close>

definition IncrementalWorkerPicker_pickInternal ::
  "('w \<Rightarrow> bool) \<Rightarrow> ('w \<Rightarrow> bool) \<Rightarrow> buf_error + 'w \<Rightarrow> 'w IncrementalWorkerPicker \<Rightarrow> 'w IncrementalWorkerPicker \<times> (buf_error + 'w) \<times> bool" where
  "IncrementalWorkerPicker_pickInternal full closed create p =
     (let idx = IncrementalWorkerPicker_findAvailable full p in
      if idx \<ge> 0
      then let idx = nat idx; n = length (pk_workers p); ws = pk_workers p;
               ws = (if n > 1 \<and> idx \<noteq> n - 1 then ws[n - 1 := ws ! idx, idx := ws ! (n - 1)] else ws)
           in (p\<lparr>pk_workers := ws\<rparr>, Inr (ws ! idx), False)
      else
        let p = IncrementalWorkerPicker_cleanup closed p in
        case create of
          Inl e \<Rightarrow> (p, Inl e, False)
        | Inr w \<Rightarrow> (p\<lparr>pk_workers := pk_workers p @ [w], pk_cleanupTask := True\<rparr>, Inr w, True))"

text \<open>\<^verbatim>\<open>ClientManager.Dispatch\<close>: at most sixteen workers are tried; \<open>pick\<close> and \<open>dispatch\<close> act on the shared state.\<close>

fun ClientManager_try :: "nat \<Rightarrow> ('s \<Rightarrow> 's \<times> (buf_error + 'w)) \<Rightarrow> ('w \<Rightarrow> 's \<Rightarrow> 's \<times> bool) \<Rightarrow> 's \<Rightarrow> 's \<times> buf_error option" where
  "ClientManager_try 0 pick dispatch s = (s, Some (ReadError ''unable to find an available mux client''))"
| "ClientManager_try (Suc n) pick dispatch s =
     (case pick s of
        (s, Inl e) \<Rightarrow> (s, Some e)
      | (s, Inr w) \<Rightarrow> (case dispatch w s of (s, True) \<Rightarrow> (s, None) | (s, False) \<Rightarrow> ClientManager_try n pick dispatch s))"

definition ClientManager_Dispatch :: "('s \<Rightarrow> 's \<times> (buf_error + 'w)) \<Rightarrow> ('w \<Rightarrow> 's \<Rightarrow> 's \<times> bool) \<Rightarrow> 's \<Rightarrow> 's \<times> buf_error option" where
  "ClientManager_Dispatch pick dispatch s = ClientManager_try 16 pick dispatch s"

section \<open>The loop of the client\<close>

context mux_link
begin

lemma client_loop_total:
  "br_rep rep reader bs \<Longrightarrow> outputs_set w \<Longrightarrow> \<exists>w' err. ClientWorker_loop p rd E meta reader w = Some (w', err)"
proof (induction "length bs" arbitrary: reader bs w meta rule: less_induct)
  case less
  obtain r1 meta' err bs1 where u: "FrameMetadata_Unmarshal p p (BufferedReader_Read rd) meta reader = Some (r1, meta', err)"
      "br_rep rep r1 bs1" "length bs1 \<le> length bs" "err = None \<longrightarrow> length bs1 < length bs"
    using conn.Unmarshal_safe [OF array array less.prems(1), of meta] by blast
  show ?case
  proof (cases err)
    case (Some e)
    then show ?thesis using u(1) by (subst ClientWorker_loop.simps) simp
  next
    case None
    define res where "res = (if fm_SessionStatus meta' = SessionStatusKeepAlive then ClientWorker_handleStatueKeepAlive p rd meta' r1 w
           else if fm_SessionStatus meta' = SessionStatusEnd then ClientWorker_handleStatusEnd p rd E meta' r1 w
           else if fm_SessionStatus meta' = SessionStatusNew then ClientWorker_handleStatusNew p rd meta' r1 w
           else if fm_SessionStatus meta' = SessionStatusKeep then ClientWorker_handleStatusKeep p rd E meta' r1 w
           else Some (w, r1, Some (UnknownStatus (fm_SessionStatus meta'))))"
    have same: "ClientWorker_handleStatueKeepAlive p rd meta' r1 w = ServerWorker_handleStatusKeepAlive p rd meta' r1 w"
      "ClientWorker_handleStatusNew p rd meta' r1 w = ServerWorker_handleStatusKeepAlive p rd meta' r1 w"
      by (simp_all add: ClientWorker_handleStatueKeepAlive_def ClientWorker_handleStatusNew_def ServerWorker_handleStatusKeepAlive_def)
    have "handled_ok rep (length bs1) res"
      using handleStatusKeepAlive_total handleStatusEnd_total handleStatusKeep_total u(2) less.prems(2)
      by (auto simp: res_def same ClientWorker_handleStatusEnd_def ClientWorker_handleStatusKeep_def intro: handled_okI)
    then obtain w1 r2 err2 bs2 where h: "res = Some (w1, r2, err2)" "outputs_set w1" "br_rep rep r2 bs2" "length bs2 \<le> length bs1"
      by (auto simp: handled_ok_def)
    have "length bs2 < length bs" using h(4) u(4) None by simp
    then have "\<exists>w' err. ClientWorker_loop p rd E meta' r2 w1 = Some (w', err)" using less.hyps h(2,3) by blast
    then show ?thesis using u(1) None h(1) by (subst ClientWorker_loop.simps) (auto simp: res_def [symmetric] split: option.splits)
  qed
qed

end

section \<open>Picking\<close>

lemma find_from_cases:
  "(find_from full k ws = - 1 \<and> (\<forall>w \<in> set ws. full w)) \<or>
   (\<exists>i < length ws. find_from full k ws = int (k + i) \<and> \<not> full (ws ! i) \<and> (\<forall>j < i. full (ws ! j)))"
proof (induction ws arbitrary: k)
  case Nil
  then show ?case by simp
next
  case (Cons w ws)
  show ?case
  proof (cases "full w")
    case False
    then show ?thesis by (intro disjI2 exI [of _ 0]) simp
  next
    case True
    from Cons.IH [of "Suc k"] show ?thesis
    proof (elim disjE exE conjE)
      fix i assume "i < length ws" "find_from full (Suc k) ws = int (Suc k + i)" "\<not> full (ws ! i)" "\<forall>j < i. full (ws ! j)"
      then show ?thesis using True by (intro disjI2 exI [of _ "Suc i"]) (auto simp: nth_Cons split: nat.splits)
    qed (use True in auto)
  qed
qed

lemma available:
  assumes "w \<in> set (pk_workers p)" and "\<not> full w"
  obtains i where "i < length (pk_workers p)" "IncrementalWorkerPicker_findAvailable full p = int i" "\<not> full (pk_workers p ! i)"
    "\<forall>j < i. full (pk_workers p ! j)"
  using find_from_cases [of full 0 "pk_workers p"] assms by (auto simp: IncrementalWorkerPicker_findAvailable_def)

text \<open>The worker handed out is the last of the list, and the one that was found takes its place.\<close>

lemma pick_last:
  assumes "i < length (pk_workers p)" and "IncrementalWorkerPicker_findAvailable full p = int i"
  shows "IncrementalWorkerPicker_pickInternal full closed create p =
     (p\<lparr>pk_workers := (pk_workers p)[i := last (pk_workers p), length (pk_workers p) - 1 := pk_workers p ! i]\<rparr>,
      Inr (last (pk_workers p)), False)"
proof -
  let ?ws = "pk_workers p" and ?n = "length (pk_workers p)"
  have ne: "?ws \<noteq> []" using assms(1) by auto
  have l: "last ?ws = ?ws ! (?n - 1)" using ne by (rule last_conv_nth)
  have "IncrementalWorkerPicker_pickInternal full closed create p =
      (let ws = (if ?n > 1 \<and> i \<noteq> ?n - 1 then ?ws[?n - 1 := ?ws ! i, i := ?ws ! (?n - 1)] else ?ws) in (p\<lparr>pk_workers := ws\<rparr>, Inr (ws ! i), False))"
    using assms(2) by (simp add: IncrementalWorkerPicker_pickInternal_def Let_def)
  moreover have "i \<noteq> ?n - 1 \<Longrightarrow> ?n > 1" using assms(1) by linarith
  moreover have "?ws[i := ?ws ! i, i := ?ws ! i] = ?ws" by simp
  ultimately show ?thesis using l assms(1) ne by (cases "i = ?n - 1") (simp_all add: Let_def list_update_swap)
qed

lemma pick_available:
  assumes "w \<in> set (pk_workers p)" and "\<not> full w"
  shows "\<exists>i < length (pk_workers p). \<not> full (pk_workers p ! i) \<and>
     IncrementalWorkerPicker_pickInternal full closed create p =
       (p\<lparr>pk_workers := (pk_workers p)[i := last (pk_workers p), length (pk_workers p) - 1 := pk_workers p ! i]\<rparr>,
        Inr (last (pk_workers p)), False)"
proof -
  obtain i where "i < length (pk_workers p)" "IncrementalWorkerPicker_findAvailable full p = int i" "\<not> full (pk_workers p ! i)"
    using available [of w p full] assms by blast
  then show ?thesis using pick_last by blast
qed

lemma swap_last:
  assumes "i < length ws"
  shows "mset (ws[i := last ws, length ws - 1 := ws ! i]) = mset ws" "last (ws[i := last ws, length ws - 1 := ws ! i]) = ws ! i"
proof -
  have l: "last ws = ws ! (length ws - 1)" using assms by (intro last_conv_nth) auto
  show "mset (ws[i := last ws, length ws - 1 := ws ! i]) = mset ws" unfolding l using assms by (intro mset_swap) auto
  have "ws[i := last ws, length ws - 1 := ws ! i] \<noteq> []" using assms by auto
  then show "last (ws[i := last ws, length ws - 1 := ws ! i]) = ws ! i" using assms by (simp add: last_conv_nth)
qed

section \<open>Properties\<close>

text \<open>The picker looks for a worker that is not full, moves it to the end of the list, and then hands out
  the worker that was last, which takes its place: full or not. When only the first of two workers
  has room, the other one is handed out.\<close>

theorem pick_hands_out_last:
  assumes "w \<in> set (pk_workers p)" and "\<not> full w"
  shows "fst (snd (IncrementalWorkerPicker_pickInternal full closed create p)) = Inr (last (pk_workers p))"
  using pick_available [of w p full closed create] assms by auto

theorem pick_hands_out_last_witness:
  "fst (snd (IncrementalWorkerPicker_pickInternal (\<lambda>w. w = 2) (\<lambda>_. False) (Inl EOF) \<lparr>pk_workers = [1, 2 :: nat], pk_cleanupTask = True\<rparr>)) =
     Inr (last [1, 2])"
  using pick_hands_out_last [of 1 "\<lparr>pk_workers = [1, 2 :: nat], pk_cleanupTask = True\<rparr>" "\<lambda>w. w = 2" "\<lambda>_. False" "Inl EOF"] by simp

text \<open>The retries of the manager make up for it: as long as some worker has room and the workers do not
  change, one of two picks in a row hands out a worker with room, and the list of workers keeps its
  elements.\<close>

theorem two_picks_find_room:
  assumes "w \<in> set (pk_workers p)" and "\<not> full w"
    and "IncrementalWorkerPicker_pickInternal full closed create p = (p1, Inr w1, s1)"
    and "IncrementalWorkerPicker_pickInternal full closed create p1 = (p2, Inr w2, s2)"
  shows "(\<not> full w1 \<or> \<not> full w2) \<and> mset (pk_workers p2) = mset (pk_workers p)"
proof -
  obtain i where i: "i < length (pk_workers p)" "\<not> full (pk_workers p ! i)" "w1 = last (pk_workers p)"
      "p1 = p\<lparr>pk_workers := (pk_workers p)[i := last (pk_workers p), length (pk_workers p) - 1 := pk_workers p ! i]\<rparr>"
    using pick_available [of w p full closed create] assms(1-3) by auto
  note sw = swap_last [OF i(1)]
  have "w \<in> set (pk_workers p1)" using assms(1) arg_cong [OF sw(1), of set_mset] i(4) by simp
  then obtain j where j: "j < length (pk_workers p1)" "w2 = last (pk_workers p1)"
      "p2 = p1\<lparr>pk_workers := (pk_workers p1)[j := last (pk_workers p1), length (pk_workers p1) - 1 := pk_workers p1 ! j]\<rparr>"
    using pick_available [of w p1 full closed create] assms(2,4) by auto
  have "w2 = pk_workers p ! i" using j(2) i(4) sw(2) by simp
  moreover have "mset (pk_workers p2) = mset (pk_workers p)" using swap_last(1) [OF j(1)] j(3) sw(1) i(4) by simp
  ultimately show ?thesis using i(2) by simp
qed

theorem two_picks_find_room_witness:
  "IncrementalWorkerPicker_pickInternal (\<lambda>w. w = 2) (\<lambda>_. False) (Inl EOF) \<lparr>pk_workers = [1, 2 :: nat], pk_cleanupTask = True\<rparr> =
     (\<lparr>pk_workers = [2, 1], pk_cleanupTask = True\<rparr>, Inr 2, False) \<and>
   IncrementalWorkerPicker_pickInternal (\<lambda>w. w = 2) (\<lambda>_. False) (Inl EOF) \<lparr>pk_workers = [2, 1 :: nat], pk_cleanupTask = True\<rparr> =
     (\<lparr>pk_workers = [2, 1], pk_cleanupTask = True\<rparr>, Inr 1, False) \<and>
   (\<not> (2 :: nat) = 2 \<or> \<not> (1 :: nat) = 2) \<and> mset [2, 1 :: nat] = mset [1, 2]"
  using two_picks_find_room [of 1 "\<lparr>pk_workers = [1, 2 :: nat], pk_cleanupTask = True\<rparr>" "\<lambda>w. w = 2" "\<lambda>_. False" "Inl EOF"
      "\<lparr>pk_workers = [2, 1], pk_cleanupTask = True\<rparr>" 2 False "\<lparr>pk_workers = [2, 1], pk_cleanupTask = True\<rparr>" 1 False]
  by (simp add: IncrementalWorkerPicker_pickInternal_def IncrementalWorkerPicker_findAvailable_def)

section \<open>Limits\<close>

text \<open>The steps of a client's worker that touch its table of sessions.\<close>

inductive client_step :: "'e Env \<Rightarrow> 'e ClientWorker \<Rightarrow> 'e ClientWorker \<Rightarrow> bool" for E where
  dispatched: "ClientWorker_Dispatch E link m = (m', ok) \<Longrightarrow> client_step E m m'"
| session_closed: "client_step E m (m\<lparr>cw_worker := Session_Close E s (cw_worker m)\<rparr>)"
| ticked: "client_step E m (ClientWorker_tick m)"
| finished: "client_step E m (ClientWorker_finish E rdr wtr m)"
| fetched: "client_step E m (m\<lparr>cw_done := True\<rparr>)"

definition within_limits :: "'e ClientWorker \<Rightarrow> bool" where
  "within_limits m \<longleftrightarrow>
     (cl_MaxConcurrency (cw_strategy m) > 0 \<longrightarrow> SessionManager_Size (wk_sessions (cw_worker m)) \<le> unat (cl_MaxConcurrency (cw_strategy m))) \<and>
     (cl_MaxConnection (cw_strategy m) > 0 \<longrightarrow> SessionManager_Count (wk_sessions (cw_worker m)) \<le> unat (cl_MaxConnection (cw_strategy m)))"

lemma length_update_le: "length (AList.update k v al) \<le> Suc (length al)"
  by (induction al) auto

lemma length_update_twice: "length (AList.update k v (AList.update k u al)) = length (AList.update k u al)"
  by (induction al) auto

lemma length_delete_le: "length (AList.delete k al) \<le> length al"
  by (simp add: AList.delete_eq)

lemma unat_inc_le: "unat (x + 1 :: u16) \<le> Suc (unat x)"
proof -
  have "unat (x + 1) = (unat x + 1) mod 65536" by (simp add: unat_word_ariths)
  then show ?thesis by (metis Suc_eq_plus1 mod_less_eq_dividend)
qed

lemma start_sizes:
  "SessionManager_Size (wk_sessions (cw_worker (fst (ClientWorker_start E link m)))) \<le> Suc (SessionManager_Size (wk_sessions (cw_worker m)))"
  "SessionManager_Count (wk_sessions (cw_worker (fst (ClientWorker_start E link m)))) \<le> Suc (SessionManager_Count (wk_sessions (cw_worker m)))"
  "cw_strategy (fst (ClientWorker_start E link m)) = cw_strategy m"
  using length_update_le unat_inc_le
  by (auto simp: ClientWorker_start_def SessionManager_Allocate_def SessionManager_Size_def SessionManager_Count_def Let_def length_update_twice)

lemma dispatch_limits:
  assumes "within_limits m"
  shows "within_limits (fst (ClientWorker_Dispatch E link m))"
proof (cases "ClientWorker_IsFull m \<or> ClientWorker_Closed m")
  case True
  then show ?thesis using assms by (simp add: ClientWorker_Dispatch_def)
next
  case False
  then show ?thesis
    using start_sizes [of E link m]
    by (auto simp: ClientWorker_Dispatch_def ClientWorker_IsFull_def ClientWorker_IsClosing_def within_limits_def)
qed

lemma step_limits: "client_step E m m' \<Longrightarrow> within_limits m \<Longrightarrow> within_limits m'"
proof (induction rule: client_step.induct)
  case (dispatched link m m' ok)
  then show ?case using dispatch_limits [of m E link] by simp
next
  case (session_closed m s)
  then show ?case using length_delete_le [of "se_ID s" "sm_sessions (wk_sessions (cw_worker m))"]
    by (auto simp: within_limits_def Session_Close_def Remove_eq SessionManager_Size_def SessionManager_Count_def intro: order_trans)
next
  case (ticked m)
  then show ?case
    by (auto simp: within_limits_def ClientWorker_tick_def SessionManager_CloseIfNoSession_def SessionManager_Size_def SessionManager_Count_def Let_def)
next
  case (finished m rdr wtr)
  then show ?case
    by (auto simp: within_limits_def ClientWorker_finish_def Worker_close_sessions_def SessionManager_Close_def SessionManager_Size_def
        SessionManager_Count_def Let_def split_beta)
qed (simp add: within_limits_def)


definition one_session :: ClientStrategy where
  "one_session = \<lparr>cl_MaxConcurrency = 1, cl_MaxConnection = 0\<rparr>"


text \<open>The test and the allocation are separate critical sections. When two dispatches both pass the test
  before either allocates, the worker exceeds its concurrency.\<close>

theorem dispatch_race:
  assumes "cl_MaxConcurrency (cw_strategy m) = 1" and "\<not> ClientWorker_IsFull m" and "sm_sessions (wk_sessions (cw_worker m)) = []"
    and "\<not> sm_closed (wk_sessions (cw_worker m))"
  shows "\<not> within_limits (fst (ClientWorker_start E l2 (fst (ClientWorker_start E l1 m))))"
  using assms by (simp add: within_limits_def ClientWorker_start_def SessionManager_Allocate_def SessionManager_Size_def Let_def)

theorem dispatch_race_witness:
  "\<not> within_limits (fst (ClientWorker_start mailbox_env (5, 6) (fst (ClientWorker_start mailbox_env (3, 4) (NewClientWorker example_box one_session)))))"
  by (rule dispatch_race)
    (simp_all add: NewClientWorker_def NewSessionManager_def one_session_def ClientWorker_IsFull_def ClientWorker_IsClosing_def ClientWorker_Closed_def
      SessionManager_Size_def)



end
