(* ===== verification/Route_Context.thy ===== *)
theory Route_Context
  imports Net "HOL-Library.AList"
begin

text \<open>
  Routing, first part: what the router sees of a connection. \<^verbatim>\<open>features/routing/session/context.go\<close> reads it from the
  metadata of the session (\<^verbatim>\<open>common/session/session.go\<close>); \<^verbatim>\<open>features/routing/dns/context.go\<close> adds the addresses of the target domain.
  The Go interface \<^verbatim>\<open>routing.Context\<close> is the record \<open>RoutingContext\<close> of what its getters return. A
  getter that would call a method of a nil address returns \<open>None\<close> (a panic). A nil map of
  attributes is \<open>None\<close>.
\<close>

section \<open>Session metadata\<close>

record Inbound =
  in_Source :: Destination
  in_Gateway :: Destination
  in_Tag :: bytes
  in_User :: "bytes option"

record Outbound =
  out_Target :: Destination
  out_Gateway :: "Address option"

type_synonym attributes = "(bytes \<times> bytes) list"

record Content =
  ct_Protocol :: bytes
  ct_Attributes :: "attributes option"
  ct_SkipDNSResolve :: bool

definition Content_SetAttribute :: "bytes \<Rightarrow> bytes \<Rightarrow> Content \<Rightarrow> Content" where
  "Content_SetAttribute name v c =
     (let attrs = (case ct_Attributes c of None \<Rightarrow> [] | Some a \<Rightarrow> a) in c\<lparr>ct_Attributes := Some (AList.update name v attrs)\<rparr>)"

definition Content_Attribute :: "bytes \<Rightarrow> Content \<Rightarrow> bytes" where
  "Content_Attribute name c =
     (case ct_Attributes c of None \<Rightarrow> [] | Some a \<Rightarrow> (case map_of a name of None \<Rightarrow> [] | Some v \<Rightarrow> v))"

section \<open>The session context\<close>

record Context =
  cx_Inbound :: "Inbound option"
  cx_Outbound :: "Outbound option"
  cx_Content :: "Content option"

definition GetInboundTag :: "Context \<Rightarrow> bytes" where
  "GetInboundTag ctx = (case cx_Inbound ctx of None \<Rightarrow> [] | Some i \<Rightarrow> in_Tag i)"

definition GetSourceIPs :: "Context \<Rightarrow> bytes list option" where
  "GetSourceIPs ctx =
     (case cx_Inbound ctx of
        None \<Rightarrow> Some []
      | Some i \<Rightarrow>
          if \<not> Destination_IsValid (in_Source i) then Some []
          else Option.bind (dest_Address (in_Source i)) (\<lambda>a.
            if IsDomain (Address_Family a) then Some [] else map_option (\<lambda>ip. [ip]) (Address_IP a)))"

definition GetSourcePort :: "Context \<Rightarrow> Port" where
  "GetSourcePort ctx =
     (case cx_Inbound ctx of
        None \<Rightarrow> 0
      | Some i \<Rightarrow> if \<not> Destination_IsValid (in_Source i) then 0 else dest_Port (in_Source i))"

definition GetTargetIPs :: "Context \<Rightarrow> bytes list option" where
  "GetTargetIPs ctx =
     (case cx_Outbound ctx of
        None \<Rightarrow> Some []
      | Some ob \<Rightarrow>
          if \<not> Destination_IsValid (out_Target ob) then Some []
          else Option.bind (dest_Address (out_Target ob)) (\<lambda>a.
            if IsIP (Address_Family a) then map_option (\<lambda>ip. [ip]) (Address_IP a) else Some []))"

definition GetTargetPort :: "Context \<Rightarrow> Port" where
  "GetTargetPort ctx =
     (case cx_Outbound ctx of
        None \<Rightarrow> 0
      | Some ob \<Rightarrow> if \<not> Destination_IsValid (out_Target ob) then 0 else dest_Port (out_Target ob))"

definition GetTargetDomain :: "Context \<Rightarrow> bytes option" where
  "GetTargetDomain ctx =
     (case cx_Outbound ctx of
        None \<Rightarrow> Some []
      | Some ob \<Rightarrow>
          if \<not> Destination_IsValid (out_Target ob) then Some []
          else Option.bind (dest_Address (out_Target ob)) (\<lambda>a.
            if \<not> IsDomain (Address_Family a) then Some [] else Address_Domain a))"

definition GetNetwork :: "Context \<Rightarrow> Network" where
  "GetNetwork ctx = (case cx_Outbound ctx of None \<Rightarrow> Network_Unknown | Some ob \<Rightarrow> dest_Network (out_Target ob))"

definition GetProtocol :: "Context \<Rightarrow> bytes" where
  "GetProtocol ctx = (case cx_Content ctx of None \<Rightarrow> [] | Some c \<Rightarrow> ct_Protocol c)"

definition GetUser :: "Context \<Rightarrow> bytes" where
  "GetUser ctx =
     (case cx_Inbound ctx of
        None \<Rightarrow> []
      | Some i \<Rightarrow> (case in_User i of None \<Rightarrow> [] | Some email \<Rightarrow> email))"

definition GetAttributes :: "Context \<Rightarrow> attributes option" where
  "GetAttributes ctx = (case cx_Content ctx of None \<Rightarrow> None | Some c \<Rightarrow> ct_Attributes c)"

definition GetSkipDNSResolve :: "Context \<Rightarrow> bool" where
  "GetSkipDNSResolve ctx = (case cx_Content ctx of None \<Rightarrow> False | Some c \<Rightarrow> ct_SkipDNSResolve c)"

section \<open>The interface the router uses\<close>

record RoutingContext =
  rc_InboundTag :: bytes
  rc_SourceIPs :: "bytes list"
  rc_SourcePort :: Port
  rc_TargetIPs :: "bytes list"
  rc_TargetPort :: Port
  rc_TargetDomain :: bytes
  rc_Network :: Network
  rc_Protocol :: bytes
  rc_User :: bytes
  rc_Attributes :: "attributes option"
  rc_SkipDNSResolve :: bool

definition AsRoutingContext :: "Context \<Rightarrow> RoutingContext option" where
  "AsRoutingContext ctx =
     Option.bind (GetSourceIPs ctx) (\<lambda>src. Option.bind (GetTargetIPs ctx) (\<lambda>ips. Option.bind (GetTargetDomain ctx) (\<lambda>domain.
       Some \<lparr>rc_InboundTag = GetInboundTag ctx, rc_SourceIPs = src, rc_SourcePort = GetSourcePort ctx, rc_TargetIPs = ips,
         rc_TargetPort = GetTargetPort ctx, rc_TargetDomain = domain, rc_Network = GetNetwork ctx, rc_Protocol = GetProtocol ctx,
         rc_User = GetUser ctx, rc_Attributes = GetAttributes ctx, rc_SkipDNSResolve = GetSkipDNSResolve ctx\<rparr>)))"

text \<open>A context with a DNS client keeps the addresses it resolved. The client answers its \<open>n\<close>-th query for
  a domain with \<open>lookup n domain\<close> (\<open>None\<close> is an error); the number of queries so far is passed along.\<close>

type_synonym dns_client = "nat \<Rightarrow> bytes \<Rightarrow> bytes list option"

datatype route_ctx = Session RoutingContext | Resolvable RoutingContext "bytes list"

fun base_ctx :: "route_ctx \<Rightarrow> RoutingContext" where
  "base_ctx (Session c) = c"
| "base_ctx (Resolvable c _) = c"

definition ContextWithDNSClient :: "route_ctx \<Rightarrow> route_ctx" where
  "ContextWithDNSClient ctx = Resolvable (base_ctx ctx) []"

fun target_IPs :: "dns_client \<Rightarrow> nat \<times> route_ctx \<Rightarrow> bytes list \<times> nat \<times> route_ctx" where
  "target_IPs lookup (n, Session c) = (rc_TargetIPs c, n, Session c)"
| "target_IPs lookup (n, Resolvable c resolvedIPs) =
     (if length (rc_TargetIPs c) \<noteq> 0 then (rc_TargetIPs c, n, Resolvable c resolvedIPs)
      else if length resolvedIPs > 0 then (resolvedIPs, n, Resolvable c resolvedIPs)
      else if length (rc_TargetDomain c) \<noteq> 0 then
        (case lookup n (rc_TargetDomain c) of
           Some ips \<Rightarrow> (ips, n + 1, Resolvable c ips)
         | None \<Rightarrow> ([], n + 1, Resolvable c resolvedIPs))
      else ([], n, Resolvable c resolvedIPs))"

section \<open>What a session context is\<close>

text \<open>A destination that is valid has an address; then no getter panics, and a connection has a target
  address or a target domain but not both.\<close>

definition dest_ok :: "Destination \<Rightarrow> bool" where
  "dest_ok d \<longleftrightarrow> (Destination_IsValid d \<longrightarrow> dest_Address d \<noteq> None)"

definition context_ok :: "Context \<Rightarrow> bool" where
  "context_ok ctx \<longleftrightarrow> (case cx_Inbound ctx of None \<Rightarrow> True | Some i \<Rightarrow> dest_ok (in_Source i)) \<and>
     (case cx_Outbound ctx of None \<Rightarrow> True | Some ob \<Rightarrow> dest_ok (out_Target ob))"

lemma Address_IP_defined: "\<not> IsDomain (Address_Family a) \<Longrightarrow> \<exists>ip. Address_IP a = Some ip"
  by (cases a) (simp_all add: IsDomain_def)

lemma Address_cases: "IsIP (Address_Family a) \<longleftrightarrow> \<not> IsDomain (Address_Family a)"
  by (cases a) (simp_all add: IsDomain_def IsIP_def family_defs)

lemma GetSourceIPs_defined: "context_ok ctx \<Longrightarrow> \<exists>ips. GetSourceIPs ctx = Some ips"
  by (auto simp: GetSourceIPs_def context_ok_def dest_ok_def dest: Address_IP_defined split: option.splits)

lemma GetTarget_defined:
  assumes "context_ok ctx"
  shows "\<exists>ips d. GetTargetIPs ctx = Some ips \<and> GetTargetDomain ctx = Some d \<and> (d \<noteq> [] \<longrightarrow> ips = []) \<and> length ips \<le> 1"
proof (cases "cx_Outbound ctx")
  case None
  then show ?thesis by (simp add: GetTargetIPs_def GetTargetDomain_def)
next
  case (Some ob)
  show ?thesis
  proof (cases "Destination_IsValid (out_Target ob)")
    case True
    then obtain a where "dest_Address (out_Target ob) = Some a" using assms Some by (auto simp: context_ok_def dest_ok_def)
    then show ?thesis using Some True by (cases a) (simp_all add: GetTargetIPs_def GetTargetDomain_def IsDomain_def IsIP_def family_defs)
  qed (use Some in \<open>simp add: GetTargetIPs_def GetTargetDomain_def\<close>)
qed

end
