(* ===== verification/Strmatcher.thy ===== *)
theory Strmatcher
  imports Go_Std "HOL-Library.Sublist"
begin

text \<open>
  String matching, first part: the four kinds of matcher of \<^verbatim>\<open>common/strmatcher/matchers.go\<close>, the
  conversion of a pattern to a domain, and the two functions that flatten a list of matches. A
  string is its bytes. The matching function of a compiled regular expression is carried by its
  matcher; the punycode conversion of \<^verbatim>\<open>golang.org/x/net/idna\<close> is a parameter of the functions that use
  it. The locale \<open>matcher_group\<close> is the contract of the groups of the following theories.
\<close>

section \<open>The strings package\<close>

definition dot :: byte where
  "dot = 46"

definition occurs_at :: "bytes \<Rightarrow> bytes \<Rightarrow> nat \<Rightarrow> bool" where
  "occurs_at s p i \<longleftrightarrow> i + length p \<le> length s \<and> take (length p) (drop i s) = p"

definition HasSuffix :: "bytes \<Rightarrow> bytes \<Rightarrow> bool" where
  "HasSuffix s p \<longleftrightarrow> length p \<le> length s \<and> drop (length s - length p) s = p"

definition Contains :: "bytes \<Rightarrow> bytes \<Rightarrow> bool" where
  "Contains s p \<longleftrightarrow> list_ex (occurs_at s p) [0..<Suc (length s)]"

text \<open>\<open>None\<close> is Go's -1.\<close>

definition LastIndex :: "bytes \<Rightarrow> bytes \<Rightarrow> nat option" where
  "LastIndex s p = find (occurs_at s p) (rev [0..<Suc (length s)])"

definition lower_byte :: "byte \<Rightarrow> byte" where
  "lower_byte c = (if 65 \<le> c \<and> c \<le> 90 then c + 32 else c)"

text \<open>\<^verbatim>\<open>strings.ToLower\<close> on a string of ASCII characters.\<close>

definition ToLower :: "bytes \<Rightarrow> bytes" where
  "ToLower s = map lower_byte s"

section \<open>Matchers\<close>

definition Full :: byte where "Full = 0"
definition Domain :: byte where "Domain = 1"
definition Substr :: byte where "Substr = 2"
definition Regex :: byte where "Regex = 3"

datatype Matcher = FullMatcher bytes | DomainMatcher bytes | SubstrMatcher bytes
  | RegexMatcher bytes "bytes \<Rightarrow> bool"

fun Matcher_Type :: "Matcher \<Rightarrow> byte" where
  "Matcher_Type (FullMatcher _) = Full"
| "Matcher_Type (DomainMatcher _) = Domain"
| "Matcher_Type (SubstrMatcher _) = Substr"
| "Matcher_Type (RegexMatcher _ _) = Regex"

fun Matcher_Pattern :: "Matcher \<Rightarrow> bytes" where
  "Matcher_Pattern (FullMatcher m) = m"
| "Matcher_Pattern (DomainMatcher m) = m"
| "Matcher_Pattern (SubstrMatcher m) = m"
| "Matcher_Pattern (RegexMatcher m _) = m"

fun Matcher_String :: "Matcher \<Rightarrow> bytes" where
  "Matcher_String (FullMatcher m) = str ''full:'' @ m"
| "Matcher_String (DomainMatcher m) = str ''domain:'' @ m"
| "Matcher_String (SubstrMatcher m) = str ''keyword:'' @ m"
| "Matcher_String (RegexMatcher m _) = str ''regexp:'' @ m"

definition FullMatcher_Match :: "bytes \<Rightarrow> bytes \<Rightarrow> bool" where
  "FullMatcher_Match m s \<longleftrightarrow> m = s"

definition DomainMatcher_Match :: "bytes \<Rightarrow> bytes \<Rightarrow> bool" where
  "DomainMatcher_Match m s \<longleftrightarrow>
     (if \<not> HasSuffix s m then False
      else length s = length m \<or> s ! (length s - length m - 1) = dot)"

definition SubstrMatcher_Match :: "bytes \<Rightarrow> bytes \<Rightarrow> bool" where
  "SubstrMatcher_Match m s \<longleftrightarrow> Contains s m"

fun Matcher_Match :: "Matcher \<Rightarrow> bytes \<Rightarrow> bool" where
  "Matcher_Match (FullMatcher m) s = FullMatcher_Match m s"
| "Matcher_Match (DomainMatcher m) s = DomainMatcher_Match m s"
| "Matcher_Match (SubstrMatcher m) s = SubstrMatcher_Match m s"
| "Matcher_Match (RegexMatcher _ f) s = f s"

section \<open>Domain patterns\<close>

datatype pattern_error = NotLDH | BadPunycode | BadRegexp | UnknownMatcherType

definition is_upper :: "byte \<Rightarrow> bool" where
  "is_upper c \<longleftrightarrow> 65 \<le> c \<and> c \<le> 90"

definition is_ldh :: "byte \<Rightarrow> bool" where
  "is_ldh c \<longleftrightarrow> is_upper c \<or> 97 \<le> c \<and> c \<le> 122 \<or> 48 \<le> c \<and> c \<le> 57 \<or> c = 45 \<or> c = dot"

text \<open>The scan over the characters: the error, or whether the pattern is ASCII and whether a capital
  letter was seen.\<close>

fun ToDomain_scan :: "bytes \<Rightarrow> bool \<Rightarrow> (bool \<times> bool) option" where
  "ToDomain_scan [] hasUpper = Some (True, hasUpper)"
| "ToDomain_scan (c # cs) hasUpper =
     (if 0x80 \<le> c then Some (False, hasUpper)
      else if is_upper c then ToDomain_scan cs True
      else if is_ldh c then ToDomain_scan cs hasUpper
      else None)"

text \<open>The outer loop runs again on the converted pattern. The conversion \<open>toASCII\<close> returns \<open>None\<close> on an
  error. \<open>None\<close> as a result is a loop that never ends.\<close>

partial_function (option) ToDomain :: "(bytes \<Rightarrow> bytes option) \<Rightarrow> bytes \<Rightarrow> (pattern_error + bytes) option" where
  "ToDomain toASCII pattern =
     (case ToDomain_scan pattern False of
        None \<Rightarrow> Some (Inl NotLDH)
      | Some (isASCII, hasUpper) \<Rightarrow>
          if \<not> isASCII
          then (case toASCII pattern of
                  None \<Rightarrow> Some (Inl BadPunycode)
                | Some pattern' \<Rightarrow> ToDomain toASCII pattern')
          else Some (Inr (if hasUpper then ToLower pattern else pattern)))"

definition Type_New ::
  "(bytes \<Rightarrow> bytes option) \<Rightarrow> (bytes \<Rightarrow> (bytes \<Rightarrow> bool) option) \<Rightarrow> byte \<Rightarrow> bytes \<Rightarrow> (pattern_error + Matcher) option" where
  "Type_New toASCII compile t pattern =
     (if t = Full then Some (Inr (FullMatcher pattern))
      else if t = Substr then Some (Inr (SubstrMatcher pattern))
      else if t = Domain then map_option (map_sum (\<lambda>e. e) DomainMatcher) (ToDomain toASCII pattern)
      else if t = Regex then
        (case compile pattern of None \<Rightarrow> Some (Inl BadRegexp) | Some f \<Rightarrow> Some (Inr (RegexMatcher pattern f)))
      else Some (Inl UnknownMatcherType))"

definition Type_NewDomainPattern ::
  "(bytes \<Rightarrow> bytes option) \<Rightarrow> (bytes \<Rightarrow> (bytes \<Rightarrow> bool) option) \<Rightarrow> byte \<Rightarrow> bytes \<Rightarrow> (pattern_error + Matcher) option" where
  "Type_NewDomainPattern toASCII compile t pattern =
     (if t = Full then map_option (map_sum (\<lambda>e. e) FullMatcher) (ToDomain toASCII pattern)
      else if t = Substr then map_option (map_sum (\<lambda>e. e) SubstrMatcher) (ToDomain toASCII pattern)
      else if t = Domain then map_option (map_sum (\<lambda>e. e) DomainMatcher) (ToDomain toASCII pattern)
      else if t = Regex then
        (case compile pattern of None \<Rightarrow> Some (Inl BadRegexp) | Some f \<Rightarrow> Some (Inr (RegexMatcher pattern f)))
      else Some (Inl UnknownMatcherType))"

section \<open>Flattening matches\<close>

definition CompositeMatches :: "u32 list list \<Rightarrow> u32 list" where
  "CompositeMatches matches =
     (case matches of [] \<Rightarrow> [] | [m] \<Rightarrow> m | _ \<Rightarrow> fold (\<lambda>m result. result @ m) matches [])"

definition CompositeMatchesReverse :: "u32 list list \<Rightarrow> u32 list" where
  "CompositeMatchesReverse matches =
     (case matches of [] \<Rightarrow> [] | [m] \<Rightarrow> m | _ \<Rightarrow> fold (\<lambda>m result. result @ m) (rev matches) [])"

lemma fold_append: "fold (\<lambda>m r. r @ m) ms acc = acc @ concat ms"
  by (induction ms arbitrary: acc) simp_all

lemma CompositeMatches_concat [simp]: "CompositeMatches ms = concat ms"
  by (auto simp: CompositeMatches_def fold_append split: list.split)

lemma CompositeMatchesReverse_concat [simp]: "CompositeMatchesReverse ms = concat (rev ms)"
  by (auto simp: CompositeMatchesReverse_def fold_append split: list.split)

section \<open>Lemmas on strings\<close>

lemma set_values: "set (map snd (filter (\<lambda>(p, v). P p) ms)) = {v. \<exists>p. (p, v) \<in> set ms \<and> P p}"
  by force

lemma list_all_fst: "list_all P (map fst ms) \<longleftrightarrow> (\<forall>(p, v) \<in> set ms. P p)"
  by (auto simp: list_all_iff)

lemma HasSuffix_suffix: "HasSuffix s p \<longleftrightarrow> suffix p s"
  by (auto simp: HasSuffix_def suffix_def) (metis append_take_drop_id)

lemma DomainMatcher_Match_iff: "DomainMatcher_Match p s \<longleftrightarrow> s = p \<or> (\<exists>x. s = x @ dot # p)"
proof
  assume m: "DomainMatcher_Match p s"
  then have "suffix p s" by (simp add: DomainMatcher_Match_def HasSuffix_suffix split: if_splits)
  then obtain x where x: "s = x @ p" by (auto simp: suffix_def)
  show "s = p \<or> (\<exists>x. s = x @ dot # p)"
  proof (cases x rule: rev_cases)
    case Nil
    then show ?thesis using x by simp
  next
    case (snoc y c)
    then have "c = dot" using m x by (simp add: DomainMatcher_Match_def nth_append split: if_splits)
    then show ?thesis using x snoc by simp
  qed
qed (auto simp: DomainMatcher_Match_def HasSuffix_suffix suffix_def nth_append)

lemma Contains_iff: "Contains s p \<longleftrightarrow> (\<exists>x y. s = x @ p @ y)"
proof
  assume "Contains s p"
  then obtain i where "occurs_at s p i" by (auto simp: Contains_def list_ex_iff)
  then have "s = take i s @ p @ drop (length p) (drop i s)"
    by (metis append_take_drop_id occurs_at_def)
  then show "\<exists>x y. s = x @ p @ y" by blast
next
  assume "\<exists>x y. s = x @ p @ y"
  then obtain x y where s: "s = x @ p @ y" by blast
  then have "occurs_at s p (length x)" by (simp add: occurs_at_def)
  moreover have "length x \<in> set [0..<Suc (length s)]" using s by simp
  ultimately show "Contains s p" unfolding Contains_def list_ex_iff by blast
qed

text \<open>Values registered at places (paths, strings) for types, and one more.\<close>

definition register :: "'p \<Rightarrow> byte \<Rightarrow> u32 \<Rightarrow> ('p \<Rightarrow> byte \<Rightarrow> u32 list) \<Rightarrow> 'p \<Rightarrow> byte \<Rightarrow> u32 list" where
  "register p t v R = R(p := (R p)(t := R p t @ [v]))"

lemma set_register: "set (register p t v R q u) = set (R q u) \<union> (if q = p \<and> u = t then {v} else {})"
  by (auto simp: register_def)

section \<open>The result of the domain conversion\<close>

lemma ToDomain_scan_ascii:
  "ToDomain_scan cs u = Some (True, h) \<Longrightarrow> list_all is_ldh cs \<and> h = (u \<or> list_ex is_upper cs)"
proof (induction cs arbitrary: u)
  case (Cons c cs)
  then show ?case by (cases "is_upper c") (auto simp: is_ldh_def split: if_splits)
qed simp

lemma ToDomain_scan_not_ascii:
  "ToDomain_scan cs u = Some (False, h) \<Longrightarrow> \<not> list_all (\<lambda>c. c < 0x80) cs"
  by (induction cs arbitrary: u) (auto split: if_splits simp: linorder_not_le)

lemma lower_byte_ldh:
  assumes "is_ldh c"
  shows "is_ldh (lower_byte c) \<and> \<not> is_upper (lower_byte c)"
proof (cases "is_upper c")
  case True
  then have c: "65 \<le> unat c" "unat c \<le> 90" by (simp_all add: is_upper_def word_le_nat_alt)
  then have "unat (c + 32) = unat c + 32" by (simp add: unat_word_ariths)
  then have "97 \<le> c + 32" "c + 32 \<le> 122" "\<not> is_upper (c + 32)"
    using c by (simp_all add: is_upper_def word_le_nat_alt)
  then show ?thesis using True by (simp add: lower_byte_def is_upper_def is_ldh_def)
next
  case False
  then show ?thesis using assms by (auto simp: lower_byte_def is_upper_def)
qed

lemma ToDomain_ascii:
  assumes "list_all (\<lambda>c. c < 0x80) p"
  shows "ToDomain conv p = Some (if list_all is_ldh p then Inr (ToLower p) else Inl NotLDH)"
proof -
  have scan: "ToDomain_scan p u = (if list_all is_ldh p then Some (True, u \<or> list_ex is_upper p) else None)" for u
    using assms
  proof (induction p arbitrary: u)
    case (Cons c p)
    have "is_upper c \<Longrightarrow> is_ldh c" by (simp add: is_ldh_def)
    then show ?case using Cons by (auto simp: linorder_not_le)
  qed simp
  have low: "ToLower p = p" if "\<not> list_ex is_upper p"
    using that by (auto simp: ToLower_def lower_byte_def is_upper_def list_ex_iff intro: map_idI)
  show ?thesis by (subst ToDomain.simps) (simp add: scan low)
qed

section \<open>Matcher groups\<close>

text \<open>A group collects patterns with their values. Its contract: after any sequence of additions of
  patterns it accepts, \<^verbatim>\<open>Match\<close> returns, for an input it accepts, exactly the values of the patterns that
  hit the input, and \<^verbatim>\<open>MatchAny\<close> tells whether there is one. \<open>hits\<close> is what a single matcher says.\<close>

locale matcher_group =
  fixes fresh :: 'g
    and add :: "'p \<Rightarrow> u32 \<Rightarrow> 'g \<Rightarrow> 'g"
    and matches :: "'g \<Rightarrow> bytes \<Rightarrow> u32 list option"
    and any :: "'g \<Rightarrow> bytes \<Rightarrow> bool"
    and hits :: "'p \<Rightarrow> bytes \<Rightarrow> bool"
    and fits :: "'p list \<Rightarrow> bytes \<Rightarrow> bool"
  assumes matches_adds: "fits (map fst ms) s \<Longrightarrow>
      \<exists>r. matches (fold (\<lambda>(p, v). add p v) ms fresh) s = Some r \<and> set r = {v. \<exists>p. (p, v) \<in> set ms \<and> hits p s}"
    and any_adds: "fits (map fst ms) s \<Longrightarrow>
      any (fold (\<lambda>(p, v). add p v) ms fresh) s \<longleftrightarrow> (\<exists>p v. (p, v) \<in> set ms \<and> hits p s)"
begin

definition "built ms = fold (\<lambda>(p, v). add p v) ms fresh"

lemma any_iff_matches:
  assumes "fits (map fst ms) s"
  shows "any (built ms) s \<longleftrightarrow> matches (built ms) s \<noteq> Some []"
proof -
  obtain r where r: "matches (built ms) s = Some r" "set r = {v. \<exists>p. (p, v) \<in> set ms \<and> hits p s}"
    using matches_adds [OF assms] unfolding built_def by blast
  have "r \<noteq> [] \<longleftrightarrow> set r \<noteq> {}" by simp
  then show ?thesis using r any_adds [OF assms] unfolding built_def by auto
qed

text \<open>Two groups of any kind with the same additions agree on every input both accept; stated for
  permuted additions to one group.\<close>

lemma order_irrelevant:
  assumes "fits (map fst ms) s" and "fits (map fst ns) s" and "set ms = set ns"
  shows "any (built ms) s = any (built ns) s"
    and "map_option set (matches (built ms) s) = map_option set (matches (built ns) s)"
  using matches_adds [OF assms(1)] matches_adds [OF assms(2)] any_adds [OF assms(1)] any_adds [OF assms(2)] assms(3)
  unfolding built_def by auto

end

end
