(* ===== verification/Domain_Trie.thy ===== *)
theory Domain_Trie
  imports Strmatcher "HOL-Library.AList"
begin

text \<open>
  String matching, second part: \<^verbatim>\<open>FullMatcherGroup\<close>, \<^verbatim>\<open>SimpleMatcherGroup\<close> and the label trie of
  \<^verbatim>\<open>DomainMatcherGroup\<close> (\<^verbatim>\<open>common/strmatcher/matchergroup_{full,simple,domain}.go\<close>). The trie is shown to
  return the values of exactly the domain matchers that match the input, the longest pattern
  first and equal patterns in the order of their addition. A Go map is an association list.
\<close>

section \<open>Full and simple groups\<close>

type_synonym FullMatcherGroup = "(bytes \<times> u32 list) list"

definition NewFullMatcherGroup :: FullMatcherGroup where
  "NewFullMatcherGroup = []"

definition map_get :: "(bytes \<times> u32 list) list \<Rightarrow> bytes \<Rightarrow> u32 list" where
  "map_get m k = (case map_of m k of None \<Rightarrow> [] | Some vs \<Rightarrow> vs)"

definition AddFullMatcher :: "bytes \<Rightarrow> u32 \<Rightarrow> FullMatcherGroup \<Rightarrow> FullMatcherGroup" where
  "AddFullMatcher m v g = AList.update m (map_get g m @ [v]) g"

definition FullMatcherGroup_Match :: "FullMatcherGroup \<Rightarrow> bytes \<Rightarrow> u32 list" where
  "FullMatcherGroup_Match g input = map_get g input"

definition FullMatcherGroup_MatchAny :: "FullMatcherGroup \<Rightarrow> bytes \<Rightarrow> bool" where
  "FullMatcherGroup_MatchAny g input \<longleftrightarrow> map_of g input \<noteq> None"

type_synonym SimpleMatcherGroup = "(Matcher \<times> u32) list"

definition SimpleMatcherGroup_AddMatcher :: "Matcher \<Rightarrow> u32 \<Rightarrow> SimpleMatcherGroup \<Rightarrow> SimpleMatcherGroup" where
  "SimpleMatcherGroup_AddMatcher m v g = g @ [(m, v)]"

definition SimpleMatcherGroup_Match :: "SimpleMatcherGroup \<Rightarrow> bytes \<Rightarrow> u32 list" where
  "SimpleMatcherGroup_Match g input =
     fold (\<lambda>(m, v) result. if Matcher_Match m input then result @ [v] else result) g []"

fun SimpleMatcherGroup_MatchAny :: "SimpleMatcherGroup \<Rightarrow> bytes \<Rightarrow> bool" where
  "SimpleMatcherGroup_MatchAny [] input = False"
| "SimpleMatcherGroup_MatchAny ((m, v) # g) input =
     (if Matcher_Match m input then True else SimpleMatcherGroup_MatchAny g input)"

section \<open>The label trie\<close>

text \<open>A node with no children stands for one whose map is nil: the code creates the map together with
  its first entry.\<close>

datatype trieNode = TrieNode (tn_values: "u32 list") (tn_children: "(bytes \<times> trieNode) list")

definition NewDomainMatcherGroup :: trieNode where
  "NewDomainMatcherGroup = TrieNode [] []"

text \<open>The inner loop, shared by the three operations: from position \<open>j\<close> down to the next dot, or to the
  beginning. Its result is the label in front of position \<open>i\<close> and the new position.\<close>

fun next_label :: "bytes \<Rightarrow> nat \<Rightarrow> nat \<Rightarrow> bytes \<times> nat" where
  "next_label s i 0 = (if s ! 0 = dot then (take (i - 1) (drop 1 s), 0) else (take i s, 0))"
| "next_label s i (Suc j) =
     (if s ! Suc j = dot then (take (i - Suc (Suc j)) (drop (Suc (Suc j)) s), Suc j) else next_label s i j)"

lemma next_label_le: "snd (next_label s i j) \<le> j"
  by (induction s i j rule: next_label.induct) auto

lemma next_label_less: "(part, i') = next_label s i (i - Suc 0) \<Longrightarrow> 0 < i \<Longrightarrow> i' < i"
  using next_label_le [of s i "i - 1"] by (cases i) (auto dest: arg_cong [of _ _ snd] intro: le_imp_less_Suc)

function AddDomainMatcher_loop :: "bytes \<Rightarrow> nat \<Rightarrow> u32 \<Rightarrow> trieNode \<Rightarrow> trieNode" where
  "AddDomainMatcher_loop pattern i v node =
     (if i = 0 then TrieNode (tn_values node @ [v]) (tn_children node)
      else let (part, i') = next_label pattern i (i - 1);
               nxt = (case map_of (tn_children node) part of None \<Rightarrow> TrieNode [] [] | Some n \<Rightarrow> n)
           in TrieNode (tn_values node) (AList.update part (AddDomainMatcher_loop pattern i' v nxt) (tn_children node)))"
  by pat_completeness auto
termination
  by (relation "measure (\<lambda>(_, i, _, _). i)") (auto intro: next_label_less)

definition AddDomainMatcher :: "bytes \<Rightarrow> u32 \<Rightarrow> trieNode \<Rightarrow> trieNode" where
  "AddDomainMatcher m v g = AddDomainMatcher_loop m (length m) v g"

function DomainMatcherGroup_loop :: "bytes \<Rightarrow> nat \<Rightarrow> trieNode \<Rightarrow> u32 list list \<Rightarrow> u32 list list" where
  "DomainMatcherGroup_loop input i node matches =
     (if i = 0 then matches
      else let (part, i') = next_label input i (i - 1) in
        (case map_of (tn_children node) part of
           None \<Rightarrow> matches
         | Some node \<Rightarrow>
             let matches = (if 0 < length (tn_values node) then matches @ [tn_values node] else matches)
             in if tn_children node = [] then matches else DomainMatcherGroup_loop input i' node matches))"
  by pat_completeness auto
termination
  by (relation "measure (\<lambda>(_, i, _, _). i)") (auto intro: next_label_less)

definition DomainMatcherGroup_Match :: "trieNode \<Rightarrow> bytes \<Rightarrow> u32 list" where
  "DomainMatcherGroup_Match g input = CompositeMatchesReverse (DomainMatcherGroup_loop input (length input) g [])"

function DomainMatcherGroup_any :: "bytes \<Rightarrow> nat \<Rightarrow> trieNode \<Rightarrow> bool" where
  "DomainMatcherGroup_any input i node =
     (if i = 0 then False
      else let (part, i') = next_label input i (i - 1) in
        (case map_of (tn_children node) part of
           None \<Rightarrow> False
         | Some node \<Rightarrow>
             if 0 < length (tn_values node) then True
             else if tn_children node = [] then False else DomainMatcherGroup_any input i' node))"
  by pat_completeness auto
termination
  by (relation "measure (\<lambda>(_, i, _). i)") (auto intro: next_label_less)

definition DomainMatcherGroup_MatchAny :: "trieNode \<Rightarrow> bytes \<Rightarrow> bool" where
  "DomainMatcherGroup_MatchAny g input = DomainMatcherGroup_any input (length input) g"

declare AddDomainMatcher_loop.simps [simp del] DomainMatcherGroup_loop.simps [simp del] DomainMatcherGroup_any.simps [simp del]

section \<open>Labels\<close>

text \<open>The labels of a string from the right; the argument is the reversed string. A dot in front of the
  first label is not seen by the loops, so it adds no label.\<close>

function rlabels :: "bytes \<Rightarrow> bytes list" where
  "rlabels r = (if r = [] then [] else rev (takeWhile (\<lambda>c. c \<noteq> dot) r) # rlabels (drop 1 (dropWhile (\<lambda>c. c \<noteq> dot) r)))"
  by pat_completeness auto
termination
  by (relation "measure length") (auto intro: le_less_trans [OF diff_le_mono [OF length_dropWhile_le]])

declare rlabels.simps [simp del]

lemma next_label_spec:
  assumes "j < i" and "i \<le> length s"
  shows "next_label s i j =
    (rev (takeWhile (\<lambda>c. c \<noteq> dot) (rev (take (Suc j) s))) @ take (i - Suc j) (drop (Suc j) s),
     length (drop 1 (dropWhile (\<lambda>c. c \<noteq> dot) (rev (take (Suc j) s)))))"
  using assms
proof (induction s i j rule: next_label.induct)
  case (1 s i)
  then obtain c cs where s: "s = c # cs" by (cases s) auto
  from 1 obtain k where "i = Suc k" by (cases i) auto
  then show ?case using s by auto
next
  case (2 s i j)
  then have j: "take (Suc (Suc j)) s = take (Suc j) s @ [s ! Suc j]"
    by (simp add: take_Suc_conv_app_nth)
  show ?case
  proof (cases "s ! Suc j = dot")
    case True
    then show ?thesis using 2 by (simp add: j)
  next
    case False
    have "take (i - Suc j) (drop (Suc j) s) = s ! Suc j # take (i - Suc (Suc j)) (drop (Suc (Suc j)) s)"
      using 2 by (simp add: take_Suc_Cons flip: Cons_nth_drop_Suc Suc_diff_Suc)
    then show ?thesis using False 2 by (simp add: j)
  qed
qed

lemma next_label_rlabels:
  assumes "0 < i" and "i \<le> length s" and "next_label s i (i - 1) = (part, i')"
  shows "i' < i" and "rlabels (rev (take i s)) = part # rlabels (rev (take i' s))"
proof -
  let ?r = "rev (take i s)"
  have p: "part = rev (takeWhile (\<lambda>c. c \<noteq> dot) ?r)" and i': "i' = length (drop 1 (dropWhile (\<lambda>c. c \<noteq> dot) ?r))"
    using next_label_spec [of "i - 1" i s] assms by simp_all
  show "i' < i" using next_label_less [of part i' s i] assms by simp
  let ?d = "drop 1 (dropWhile (\<lambda>c. c \<noteq> dot) ?r)"
  have "suffix ?d ?r" by (rule suffix_order.order_trans [OF suffix_drop suffix_dropWhile])
  then obtain z where z: "?r = z @ ?d" unfolding suffix_def by blast
  have "drop (length ?r - i') ?r = drop (length z) (z @ ?d)" using z i' by (metis add_diff_cancel_right' length_append)
  then have "?d = drop (length ?r - i') ?r" by simp
  also have "\<dots> = rev (take i' s)" using assms(2) \<open>i' < i\<close> by (simp add: drop_rev min_def)
  finally show "rlabels ?r = part # rlabels (rev (take i' s))"
    using assms(1,2) p by (subst rlabels.simps) auto
qed

text \<open>A domain pattern that neither is empty nor starts with a dot.\<close>

definition plain_domain :: "bytes \<Rightarrow> bool" where
  "plain_domain p \<longleftrightarrow> p \<noteq> [] \<and> hd p \<noteq> dot"

lemma rlabels_Nil [simp]: "rlabels [] = []"
  by (simp add: rlabels.simps)

lemma rlabels_eq_Nil [simp]: "rlabels r = [] \<longleftrightarrow> r = []"
  by (subst rlabels.simps) simp

lemma no_dot:
  assumes "dot \<notin> set t"
  shows "takeWhile (\<lambda>c. c \<noteq> dot) t = t" and "dropWhile (\<lambda>c. c \<noteq> dot) t = []"
    and "takeWhile (\<lambda>c. c \<noteq> dot) (t @ dot # r) = t" and "dropWhile (\<lambda>c. c \<noteq> dot) (t @ dot # r) = dot # r"
proof -
  have t: "\<forall>c \<in> set t. c \<noteq> dot" using assms by blast
  then show "takeWhile (\<lambda>c. c \<noteq> dot) t = t" by (simp add: takeWhile_eq_all_conv)
  show "dropWhile (\<lambda>c. c \<noteq> dot) t = []" using t by (simp add: dropWhile_eq_Nil_conv)
  show "takeWhile (\<lambda>c. c \<noteq> dot) (t @ dot # r) = t" "dropWhile (\<lambda>c. c \<noteq> dot) (t @ dot # r) = dot # r"
    using t by (simp_all add: takeWhile_append2 dropWhile_append2)
qed

lemma rlabels_nodot: "dot \<notin> set q \<Longrightarrow> q \<noteq> [] \<Longrightarrow> rlabels q = [rev q]"
  by (subst rlabels.simps) (simp add: no_dot)

lemma rlabels_dot: "dot \<notin> set t \<Longrightarrow> rlabels (t @ dot # r) = rev t # rlabels r"
  by (subst rlabels.simps) (simp add: no_dot)

lemma split_at_dot:
  obtains "dot \<notin> set q" | t r where "q = t @ dot # r" "dot \<notin> set t"
  by (metis split_list_first)

lemma rlabels_append:
  assumes "q \<noteq> []" and "last q \<noteq> dot"
  shows "rlabels (q @ dot # y) = rlabels q @ rlabels y"
  using assms
proof (induction "length q" arbitrary: q rule: less_induct)
  case less
  show ?case
  proof (cases q rule: split_at_dot)
    case 1
    then show ?thesis using less.prems by (simp add: rlabels_dot rlabels_nodot)
  next
    case (2 t r)
    then have "r \<noteq> []" "last r \<noteq> dot" using less.prems by (auto split: if_splits)
    then show ?thesis using less.hyps [of r] 2 by (simp add: rlabels_dot)
  qed
qed

lemma rlabels_prefix:
  assumes "q \<noteq> []" and "last q \<noteq> dot" and "prefix (rlabels q) (rlabels r)"
  shows "r = q \<or> (\<exists>y. r = q @ dot # y)"
  using assms
proof (induction "length q" arbitrary: q r rule: less_induct)
  case less
  show ?case
  proof (cases q rule: split_at_dot)
    case 1
    then have "hd (rlabels r) = rev q" "r \<noteq> []" using less.prems by (auto simp: rlabels_nodot prefix_def)
    then show ?thesis by (cases r rule: split_at_dot) (auto simp: rlabels_nodot rlabels_dot)
  next
    case (2 t q')
    then have q': "q' \<noteq> []" "last q' \<noteq> dot" using less.prems by (auto split: if_splits)
    show ?thesis
    proof (cases r rule: split_at_dot)
      case 1
      then show ?thesis using less.prems 2 q' by (cases "r = []") (auto simp: rlabels_nodot rlabels_dot prefix_def)
    next
      case (2 u r')
      then have "u = t" "prefix (rlabels q') (rlabels r')"
        using less.prems \<open>q = t @ dot # q'\<close> \<open>dot \<notin> set t\<close> by (auto simp: rlabels_dot)
      then show ?thesis using less.hyps [of q' r'] q' 2 \<open>q = t @ dot # q'\<close> by auto
    qed
  qed
qed

lemma labels_match:
  assumes "plain_domain p"
  shows "prefix (rlabels (rev p)) (rlabels (rev s)) \<longleftrightarrow> DomainMatcher_Match p s"
proof -
  have p: "rev p \<noteq> []" "last (rev p) \<noteq> dot" using assms by (auto simp: plain_domain_def last_rev)
  have "s = x @ dot # p \<longleftrightarrow> rev s = rev p @ dot # rev x" for x by (simp add: rev_swap)
  then have "DomainMatcher_Match p s \<longleftrightarrow> rev s = rev p \<or> (\<exists>x. rev s = rev p @ dot # rev x)"
    by (simp add: DomainMatcher_Match_iff)
  moreover have "\<dots> \<longleftrightarrow> prefix (rlabels (rev p)) (rlabels (rev s))"
  proof
    assume "prefix (rlabels (rev p)) (rlabels (rev s))"
    then consider "rev s = rev p" | y where "rev s = rev p @ dot # rev (rev y)"
      using rlabels_prefix [OF p] by fastforce
    then show "rev s = rev p \<or> (\<exists>x. rev s = rev p @ dot # rev x)" by cases blast+
  qed (auto simp: rlabels_append [OF p])
  ultimately show ?thesis by simp
qed

section \<open>The trie as a function from labels to values\<close>

fun look :: "trieNode \<Rightarrow> bytes list \<Rightarrow> u32 list" where
  "look n [] = tn_values n"
| "look n (l # ls) = (case map_of (tn_children n) l of None \<Rightarrow> [] | Some m \<Rightarrow> look m ls)"

lemma look_no_children: "tn_children n = [] \<Longrightarrow> ls \<noteq> [] \<Longrightarrow> look n ls = []"
  by (cases ls) auto

lemma look_AddDomainMatcher_loop:
  "i \<le> length p \<Longrightarrow> look (AddDomainMatcher_loop p i v n) ls =
     look n ls @ (if ls = rlabels (rev (take i p)) then [v] else [])"
proof (induction p i v n arbitrary: ls rule: AddDomainMatcher_loop.induct)
  case (1 p i v n)
  show ?case
  proof (cases "i = 0")
    case True
    then show ?thesis by (cases ls) (simp_all add: AddDomainMatcher_loop.simps)
  next
    case False
    obtain part i' where n: "next_label p i (i - 1) = (part, i')" by fastforce
    note l = next_label_rlabels [OF _ 1(2) n]
    let ?nxt = "case map_of (tn_children n) part of None \<Rightarrow> TrieNode [] [] | Some m \<Rightarrow> m"
    have ih: "look (AddDomainMatcher_loop p i' v ?nxt) ls = look ?nxt ls @ (if ls = rlabels (rev (take i' p)) then [v] else [])" for ls
      using 1(1) [OF False n [symmetric] refl refl] l(1) False 1(2) by auto
    have nxt: "look ?nxt ks = look n (part # ks)" for ks
      by (auto simp: look_no_children split: option.split) (cases ks; simp)
    have "AddDomainMatcher_loop p i v n =
        TrieNode (tn_values n) (AList.update part (AddDomainMatcher_loop p i' v ?nxt) (tn_children n))"
      using False n by (subst AddDomainMatcher_loop.simps) simp
    then show ?thesis using l(2) False ih nxt
      by (cases ls) (auto simp: update_conv' simp del: next_label.simps)
  qed
qed

lemma look_built:
  "look (fold (\<lambda>(p, v). AddDomainMatcher p v) ms n) ls = look n ls @ map snd (filter (\<lambda>x. rlabels (rev (fst x)) = ls) ms)"
  by (induction ms arbitrary: n) (auto simp: AddDomainMatcher_def look_AddDomainMatcher_loop)

lemma prefixes_hd: "prefixes xs = [] # tl (prefixes xs)"
  by (cases xs) simp_all

lemma DomainMatcherGroup_loop_look:
  "i \<le> length s \<Longrightarrow> DomainMatcherGroup_loop s i n ms =
     ms @ filter (\<lambda>vs. vs \<noteq> []) (map (look n) (tl (prefixes (rlabels (rev (take i s))))))"
proof (induction s i n ms rule: DomainMatcherGroup_loop.induct)
  case (1 s i n ms)
  show ?case
  proof (cases "i = 0")
    case True
    then show ?thesis by (simp add: DomainMatcherGroup_loop.simps)
  next
    case False
    obtain part i' where n: "next_label s i (i - 1) = (part, i')" by fastforce
    note l = next_label_rlabels [OF _ 1(2) n]
    let ?ls = "rlabels (rev (take i' s))"
    have r: "tl (prefixes (rlabels (rev (take i s)))) = map ((#) part) ([] # tl (prefixes ?ls))"
      using l(2) False prefixes_hd [of ?ls] by simp
    show ?thesis
    proof (cases "map_of (tn_children n) part")
      case None
      then show ?thesis using False n r by (subst DomainMatcherGroup_loop.simps) (simp add: filter_empty_conv)
    next
      case (Some m)
      let ?ms = "if 0 < length (tn_values m) then ms @ [tn_values m] else ms"
      have eq: "DomainMatcherGroup_loop s i n ms = (if tn_children m = [] then ?ms else DomainMatcherGroup_loop s i' m ?ms)"
        using False n Some by (subst DomainMatcherGroup_loop.simps) simp
      have "look m ks = []" if "tn_children m = []" "ks \<in> set (tl (prefixes ?ls))" for ks
        using that look_no_children [of m ks] by (cases ?ls) auto
      then have none: "tn_children m = [] \<Longrightarrow> filter (\<lambda>vs. vs \<noteq> []) (map (look m) (tl (prefixes ?ls))) = []"
        by (auto simp: filter_empty_conv)
      show ?thesis using eq none 1(1) [OF False n [symmetric] refl Some refl] l(1) False 1(2) r Some
        by (auto simp: comp_def)
    qed
  qed
qed

lemma DomainMatcherGroup_any_look:
  "i \<le> length s \<Longrightarrow> DomainMatcherGroup_any s i n \<longleftrightarrow> (\<exists>ls \<in> set (tl (prefixes (rlabels (rev (take i s))))). look n ls \<noteq> [])"
proof (induction s i n rule: DomainMatcherGroup_any.induct)
  case (1 s i n)
  show ?case
  proof (cases "i = 0")
    case True
    then show ?thesis by (simp add: DomainMatcherGroup_any.simps)
  next
    case False
    obtain part i' where n: "next_label s i (i - 1) = (part, i')" by fastforce
    note l = next_label_rlabels [OF _ 1(2) n]
    let ?ls = "rlabels (rev (take i' s))"
    have r: "tl (prefixes (rlabels (rev (take i s)))) = map ((#) part) ([] # tl (prefixes ?ls))"
      using l(2) False prefixes_hd [of ?ls] by simp
    show ?thesis
    proof (cases "map_of (tn_children n) part")
      case None
      then show ?thesis using False n r by (subst DomainMatcherGroup_any.simps) simp
    next
      case (Some m)
      have eq: "DomainMatcherGroup_any s i n =
          (if 0 < length (tn_values m) then True else if tn_children m = [] then False else DomainMatcherGroup_any s i' m)"
        using False n Some by (subst DomainMatcherGroup_any.simps) simp
      have "look m ks = []" if "tn_children m = []" "ks \<in> set (tl (prefixes ?ls))" for ks
        using that look_no_children [of m ks] by (cases ?ls) auto
      then show ?thesis using eq 1(1) [OF False n [symmetric] refl Some] l(1) False 1(2) r Some by auto
    qed
  qed
qed

section \<open>Sorting by groups\<close>

lemma insort_key_append: "\<forall>y \<in> set ys. f y < f x \<Longrightarrow> insort_key f x (ys @ zs) = ys @ insort_key f x zs"
  by (induction ys) auto

text \<open>A stable sort puts the elements with the least key in front, in their order.\<close>

lemma sort_key_least_first:
  assumes "\<forall>x \<in> set xs. P x \<longrightarrow> f x = c" and "\<forall>x \<in> set xs. \<not> P x \<longrightarrow> c < f x"
  shows "sort_key f xs = filter P xs @ sort_key f (filter (\<lambda>x. \<not> P x) xs)"
  using assms
proof (induction xs)
  case (Cons x xs)
  then have ih: "sort_key f xs = filter P xs @ sort_key f (filter (\<lambda>x. \<not> P x) xs)" by simp
  show ?case
  proof (cases "P x")
    case True
    then have "\<forall>y \<in> set (sort_key f xs). f x \<le> f y" using Cons.prems by fastforce
    then have "insort_key f x (sort_key f xs) = x # sort_key f xs" by (rule insort_is_Cons)
    then show ?thesis using True ih by simp
  next
    case False
    then show ?thesis using ih Cons.prems insort_key_append [of "filter P xs" f x] by simp
  qed
qed simp

lemma sort_key_groups:
  fixes f :: "'a \<Rightarrow> nat"
  assumes "\<forall>x \<in> set xs. lab x \<in> set ks" and "\<forall>x \<in> set xs. \<forall>y \<in> set xs. lab x = lab y \<longrightarrow> f x = f y"
    and "sorted_wrt (\<lambda>a b. \<forall>x \<in> set xs. \<forall>y \<in> set xs. lab x = a \<longrightarrow> lab y = b \<longrightarrow> f x < f y) ks"
  shows "concat (map (\<lambda>k. filter (\<lambda>x. lab x = k) xs) ks) = sort_key f xs"
  using assms
proof (induction ks arbitrary: xs)
  case (Cons k ks)
  let ?rest = "filter (\<lambda>x. lab x \<noteq> k) xs"
  have k: "filter (\<lambda>x. lab x = a) xs = filter (\<lambda>x. lab x = a) ?rest" if a: "a \<in> set ks" for a
  proof -
    have "filter (\<lambda>x. lab x = a) xs = []" if "a = k"
      using Cons.prems(3) a that by (fastforce simp: filter_empty_conv)
    then show ?thesis by (cases "a = k") (auto intro: filter_cong)
  qed
  have "concat (map (\<lambda>k. filter (\<lambda>x. lab x = k) xs) ks) = concat (map (\<lambda>k. filter (\<lambda>x. lab x = k) ?rest) ks)"
    by (intro arg_cong [of _ _ concat] map_cong refl) (rule k)
  also have "\<dots> = sort_key f ?rest"
  proof (rule Cons.IH)
    have "sorted_wrt (\<lambda>a b. \<forall>x \<in> set xs. \<forall>y \<in> set xs. lab x = a \<longrightarrow> lab y = b \<longrightarrow> f x < f y) ks"
      using Cons.prems(3) by simp
    then show "sorted_wrt (\<lambda>a b. \<forall>x \<in> set ?rest. \<forall>y \<in> set ?rest. lab x = a \<longrightarrow> lab y = b \<longrightarrow> f x < f y) ks"
      by (rule sorted_wrt_mono_rel [rotated]) simp
  qed (use Cons.prems(1,2) in auto)
  finally have rest: "concat (map (\<lambda>k. filter (\<lambda>x. lab x = k) xs) ks) = sort_key f ?rest" .
  show ?case
  proof (cases "\<exists>z \<in> set xs. lab z = k")
    case True
    then obtain z where z: "z \<in> set xs" "lab z = k" by blast
    have "\<forall>x \<in> set xs. lab x = k \<longrightarrow> f x = f z" using Cons.prems(2) z by metis
    moreover have "\<forall>x \<in> set xs. lab x \<noteq> k \<longrightarrow> f z < f x" using Cons.prems(1,3) z by fastforce
    ultimately show ?thesis using rest sort_key_least_first [of xs "\<lambda>x. lab x = k" f "f z"] by simp
  next
    case False
    then have "filter (\<lambda>x. lab x = k) xs = []" "?rest = xs" by (auto simp: filter_empty_conv filter_id_conv)
    then show ?thesis using rest by simp
  qed
qed simp

lemma sorted_prefixes: "sorted_wrt strict_prefix (prefixes xs)"
  by (induction xs) (auto simp: sorted_wrt_map strict_prefix_def)

section \<open>Properties\<close>

text \<open>What the loop of \<^verbatim>\<open>Match\<close> computes, in terms of labels.\<close>

lemma Match_labels:
  "DomainMatcherGroup_Match (fold (\<lambda>(p, v). AddDomainMatcher p v) ms NewDomainMatcherGroup) s =
     map snd (concat (map (\<lambda>ls. filter (\<lambda>x. rlabels (rev (fst x)) = ls) ms) (rev (tl (prefixes (rlabels (rev s)))))))"
proof -
  have drop: "concat (rev (filter (\<lambda>vs. vs \<noteq> []) xss)) = concat (rev xss)" for xss :: "u32 list list"
    by (induction xss) auto
  have "look NewDomainMatcherGroup ls = []" for ls
    by (cases ls) (simp_all add: NewDomainMatcherGroup_def)
  then show ?thesis
    by (simp add: DomainMatcherGroup_Match_def DomainMatcherGroup_loop_look drop look_built [abs_def] rev_map map_concat comp_def)
qed

lemma domain_group_sorted:
  assumes "\<forall>(p, v) \<in> set ms. plain_domain p"
  shows "DomainMatcherGroup_Match (fold (\<lambda>(p, v). AddDomainMatcher p v) ms NewDomainMatcherGroup) s =
     map snd (sort_key (\<lambda>(p, v). length s - length p) (filter (\<lambda>(p, v). DomainMatcher_Match p s) ms))"
proof -
  let ?F = "filter (\<lambda>(p, v). DomainMatcher_Match p s) ms" and ?lab = "\<lambda>x. rlabels (rev (fst x))"
  let ?f = "\<lambda>(p :: bytes, v :: u32). length s - length p"
  let ?ks = "rev (tl (prefixes (rlabels (rev s))))"
  have ks: "ls \<in> set ?ks \<longleftrightarrow> ls \<noteq> [] \<and> prefix ls (rlabels (rev s))" for ls
    by (cases "rlabels (rev s)") (auto simp: prefix_Cons)
  have hit: "?lab x \<in> set ?ks \<longleftrightarrow> x \<in> set ?F" if "x \<in> set ms" for x
    using that assms labels_match [of "fst x" s] unfolding ks by (auto simp: plain_domain_def)
  have suf: "suffix (fst x) s" "plain_domain (fst x)" if "x \<in> set ?F" for x
    using that assms by (auto simp: DomainMatcher_Match_iff suffix_def)
  have less: "?f x < ?f y" if "x \<in> set ?F" "y \<in> set ?F" "strict_prefix (?lab y) (?lab x)" for x y
  proof -
    have "DomainMatcher_Match (fst y) (fst x)" "fst x \<noteq> fst y"
      using that labels_match [of "fst y" "fst x"] suf(2) [OF that(2)] by (auto simp: strict_prefix_def split: prod.splits)
    then have "length (fst y) < length (fst x)" by (auto simp: DomainMatcher_Match_iff)
    then show ?thesis using suffix_length_le [OF suf(1) [OF that(1)]] by (auto split: prod.split)
  qed
  have same: "\<forall>x \<in> set ?F. \<forall>y \<in> set ?F. ?lab x = ?lab y \<longrightarrow> ?f x = ?f y"
  proof (intro ballI impI)
    fix x y assume x: "x \<in> set ?F" and y: "y \<in> set ?F" and l: "?lab x = ?lab y"
    have "DomainMatcher_Match (fst y) (fst x)" "DomainMatcher_Match (fst x) (fst y)"
      using labels_match suf(2) [OF x] suf(2) [OF y] l by (metis (mono_tags, lifting) case_prod_beta prefix_order.refl)+
    then have "fst x = fst y" by (auto simp: DomainMatcher_Match_iff)
    then show "?f x = ?f y" by (simp add: case_prod_beta)
  qed
  have "sorted_wrt strict_prefix ([] # tl (prefixes (rlabels (rev s))))"
    using sorted_prefixes [of "rlabels (rev s)"] by (simp flip: prefixes_hd)
  then have "sorted_wrt (\<lambda>a b. strict_prefix b a) ?ks" by (simp add: sorted_wrt_rev)
  then have sorted: "sorted_wrt (\<lambda>a b. \<forall>x \<in> set ?F. \<forall>y \<in> set ?F. ?lab x = a \<longrightarrow> ?lab y = b \<longrightarrow> ?f x < ?f y) ?ks"
    using less by (elim sorted_wrt_mono_rel [rotated]) blast
  have "filter (\<lambda>x. ?lab x = ls) ms = filter (\<lambda>x. ?lab x = ls) ?F" if "ls \<in> set ?ks" for ls
    using hit that by (auto intro!: filter_cong)
  then have "concat (map (\<lambda>ls. filter (\<lambda>x. ?lab x = ls) ms) ?ks) = concat (map (\<lambda>ls. filter (\<lambda>x. ?lab x = ls) ?F) ?ks)"
    by (intro arg_cong [of _ _ concat] map_cong refl)
  also have "\<dots> = sort_key ?f ?F" using hit by (intro sort_key_groups same sorted) auto
  finally show ?thesis unfolding Match_labels by (simp add: case_prod_beta)
qed

lemma domain_group_any:
  assumes "\<forall>(p, v) \<in> set ms. plain_domain p"
  shows "DomainMatcherGroup_MatchAny (fold (\<lambda>(p, v). AddDomainMatcher p v) ms NewDomainMatcherGroup) s \<longleftrightarrow>
     (\<exists>p v. (p, v) \<in> set ms \<and> DomainMatcher_Match p s)"
proof -
  have "look NewDomainMatcherGroup ls = []" for ls
    by (cases ls) (simp_all add: NewDomainMatcherGroup_def)
  moreover have "ls \<in> set (tl (prefixes (rlabels (rev s)))) \<longleftrightarrow> ls \<noteq> [] \<and> prefix ls (rlabels (rev s))" for ls
    by (cases "rlabels (rev s)") (auto simp: prefix_Cons)
  ultimately have "DomainMatcherGroup_MatchAny (fold (\<lambda>(p, v). AddDomainMatcher p v) ms NewDomainMatcherGroup) s \<longleftrightarrow>
      (\<exists>x \<in> set ms. rev (fst x) \<noteq> [] \<and> prefix (rlabels (rev (fst x))) (rlabels (rev s)))"
    by (force simp: DomainMatcherGroup_MatchAny_def DomainMatcherGroup_any_look look_built filter_empty_conv)
  also have "\<dots> \<longleftrightarrow> (\<exists>x \<in> set ms. DomainMatcher_Match (fst x) s)"
  proof (rule bex_cong [OF refl])
    fix x assume "x \<in> set ms"
    then have "plain_domain (fst x)" using assms by auto
    then show "rev (fst x) \<noteq> [] \<and> prefix (rlabels (rev (fst x))) (rlabels (rev s)) \<longleftrightarrow> DomainMatcher_Match (fst x) s"
      using labels_match [of "fst x" s] by (simp add: plain_domain_def)
  qed
  also have "\<dots> \<longleftrightarrow> (\<exists>p v. (p, v) \<in> set ms \<and> DomainMatcher_Match p s)" by force
  finally show ?thesis .
qed

lemma full_group:
  "FullMatcherGroup_Match (fold (\<lambda>(p, v). AddFullMatcher p v) ms NewFullMatcherGroup) s =
     map snd (filter (\<lambda>(p, v). FullMatcher_Match p s) ms)"
  "FullMatcherGroup_MatchAny (fold (\<lambda>(p, v). AddFullMatcher p v) ms NewFullMatcherGroup) s \<longleftrightarrow>
     (\<exists>p v. (p, v) \<in> set ms \<and> FullMatcher_Match p s)"
proof -
  have get: "map_get (fold (\<lambda>(p, v). AddFullMatcher p v) ms g) s = map_get g s @ map snd (filter (\<lambda>(p, v). p = s) ms)" for g
    by (induction ms arbitrary: g) (auto simp: AddFullMatcher_def map_get_def update_conv')
  have dom: "map_of (fold (\<lambda>(p, v). AddFullMatcher p v) ms g) s \<noteq> None \<longleftrightarrow> map_of g s \<noteq> None \<or> s \<in> fst ` set ms" for g
    by (induction ms arbitrary: g) (auto simp: AddFullMatcher_def update_conv')
  show "FullMatcherGroup_Match (fold (\<lambda>(p, v). AddFullMatcher p v) ms NewFullMatcherGroup) s =
     map snd (filter (\<lambda>(p, v). FullMatcher_Match p s) ms)"
    using get [of "[]"] by (simp add: FullMatcherGroup_Match_def NewFullMatcherGroup_def map_get_def FullMatcher_Match_def)
  show "FullMatcherGroup_MatchAny (fold (\<lambda>(p, v). AddFullMatcher p v) ms NewFullMatcherGroup) s \<longleftrightarrow>
     (\<exists>p v. (p, v) \<in> set ms \<and> FullMatcher_Match p s)"
    using dom [of "[]"] by (force simp: FullMatcherGroup_MatchAny_def NewFullMatcherGroup_def FullMatcher_Match_def)
qed

lemma simple_group:
  "SimpleMatcherGroup_Match (fold (\<lambda>(p, v). SimpleMatcherGroup_AddMatcher p v) ms []) s =
     map snd (filter (\<lambda>(p, v). Matcher_Match p s) ms)"
  "SimpleMatcherGroup_MatchAny (fold (\<lambda>(p, v). SimpleMatcherGroup_AddMatcher p v) ms []) s \<longleftrightarrow>
     (\<exists>p v. (p, v) \<in> set ms \<and> Matcher_Match p s)"
proof -
  have g: "fold (\<lambda>(p, v). SimpleMatcherGroup_AddMatcher p v) ms g = g @ ms" for g
    by (induction ms arbitrary: g) (auto simp: SimpleMatcherGroup_AddMatcher_def)
  have "fold (\<lambda>(m, v) result. if Matcher_Match m s then result @ [v] else result) ms r =
      r @ map snd (filter (\<lambda>(p, v). Matcher_Match p s) ms)" for r
    by (induction ms arbitrary: r) auto
  then show "SimpleMatcherGroup_Match (fold (\<lambda>(p, v). SimpleMatcherGroup_AddMatcher p v) ms []) s =
     map snd (filter (\<lambda>(p, v). Matcher_Match p s) ms)" by (simp add: SimpleMatcherGroup_Match_def g)
  have "SimpleMatcherGroup_MatchAny ms s \<longleftrightarrow> (\<exists>p v. (p, v) \<in> set ms \<and> Matcher_Match p s)"
    by (induction ms s rule: SimpleMatcherGroup_MatchAny.induct) auto
  then show "SimpleMatcherGroup_MatchAny (fold (\<lambda>(p, v). SimpleMatcherGroup_AddMatcher p v) ms []) s \<longleftrightarrow>
     (\<exists>p v. (p, v) \<in> set ms \<and> Matcher_Match p s)" by (simp add: g)
qed

interpretation full_g: matcher_group NewFullMatcherGroup AddFullMatcher "\<lambda>g s. Some (FullMatcherGroup_Match g s)"
    FullMatcherGroup_MatchAny FullMatcher_Match "\<lambda>_ _. True"
  proof unfold_locales
  fix ms s
  show "\<exists>r. Some (FullMatcherGroup_Match (fold (\<lambda>(p, v). AddFullMatcher p v) ms NewFullMatcherGroup) s) = Some r \<and> set r = {v. \<exists>p. (p, v) \<in> set ms \<and> FullMatcher_Match p s}"
    unfolding full_group(1) set_values [of "\<lambda>p. FullMatcher_Match p s", symmetric] by blast
qed (rule full_group(2))

interpretation simple_g: matcher_group "[]" SimpleMatcherGroup_AddMatcher "\<lambda>g s. Some (SimpleMatcherGroup_Match g s)"
    SimpleMatcherGroup_MatchAny Matcher_Match "\<lambda>_ _. True"
  proof unfold_locales
  fix ms s
  show "\<exists>r. Some (SimpleMatcherGroup_Match (fold (\<lambda>(p, v). SimpleMatcherGroup_AddMatcher p v) ms []) s) = Some r \<and> set r = {v. \<exists>p. (p, v) \<in> set ms \<and> Matcher_Match p s}"
    unfolding simple_group(1) set_values [of "\<lambda>p. Matcher_Match p s", symmetric] by blast
qed (rule simple_group(2))

interpretation domain_g: matcher_group NewDomainMatcherGroup AddDomainMatcher "\<lambda>g s. Some (DomainMatcherGroup_Match g s)"
    DomainMatcherGroup_MatchAny DomainMatcher_Match "\<lambda>ps _. list_all plain_domain ps"
proof unfold_locales
  fix ms :: "(bytes \<times> u32) list" and s
  assume "list_all plain_domain (map fst ms)"
  then have p: "\<forall>(p, v) \<in> set ms. plain_domain p" by (simp only: list_all_fst)
  show "\<exists>r. Some (DomainMatcherGroup_Match (fold (\<lambda>(p, v). AddDomainMatcher p v) ms NewDomainMatcherGroup) s) = Some r \<and>
      set r = {v. \<exists>p. (p, v) \<in> set ms \<and> DomainMatcher_Match p s}"
    using set_values [of "\<lambda>p. DomainMatcher_Match p s" ms] by (simp add: domain_group_sorted [OF p])
qed (simp only: list_all_fst domain_group_any)



text \<open>A pattern with a leading dot has the labels of the pattern without it: the trie reports it for
  that domain itself, which its own matcher does not match. An empty pattern is never reported.\<close>

theorem leading_dot_diverges:
  assumes "plain_domain p"
  shows "DomainMatcherGroup_Match (AddDomainMatcher (dot # p) v NewDomainMatcherGroup) p = [v] \<and>
     \<not> Matcher_Match (DomainMatcher (dot # p)) p \<and>
     DomainMatcherGroup_Match (AddDomainMatcher [] v NewDomainMatcherGroup) s = []"
proof -
  let ?L = "rlabels (rev p)"
  have L: "rlabels (rev p @ [dot]) = ?L" "?L \<noteq> []"
    using rlabels_append [of "rev p" "[]"] assms by (auto simp: plain_domain_def last_rev)
  then obtain ls l where ls: "?L = ls @ [l]" by (metis rev_exhaust)
  then have "rev (tl (prefixes ?L)) = ?L # rev (tl (prefixes ls))" by (simp add: prefixes_snoc tl_append split: list.split)
  moreover have "?L \<notin> set (rev (tl (prefixes ls)))"
    using ls prefixes_hd [of ls] by (metis in_set_prefixes list.set_intros(2) not_Cons_self2 prefix_append set_rev append_self_conv prefix_order.eq_iff)
  ultimately have "DomainMatcherGroup_Match (AddDomainMatcher (dot # p) v NewDomainMatcherGroup) p = [v]"
    using Match_labels [of "[(dot # p, v)]" p] L(1) by (auto simp: concat_eq_Nil_conv)
  moreover have "DomainMatcherGroup_Match (AddDomainMatcher [] v NewDomainMatcherGroup) s = []"
    using Match_labels [of "[([], v)]" s] by (cases "rlabels (rev s)") (auto simp: concat_eq_Nil_conv)
  moreover have "\<not> Matcher_Match (DomainMatcher (dot # p)) p" by (auto simp: DomainMatcher_Match_iff)
  ultimately show ?thesis by blast
qed

theorem leading_dot_diverges_witness:
  "DomainMatcherGroup_Match (AddDomainMatcher (dot # str ''b.c'') 7 NewDomainMatcherGroup) (str ''b.c'') = [7] \<and>
   \<not> Matcher_Match (DomainMatcher (dot # str ''b.c'')) (str ''b.c'') \<and>
   DomainMatcherGroup_Match (AddDomainMatcher [] 7 NewDomainMatcherGroup) (str ''c.'') = []"
  by (rule leading_dot_diverges) (simp add: plain_domain_def str_def dot_def)

end
