(* ===== verification/Substr_Group.thy ===== *)
theory Substr_Group
  imports Strmatcher "HOL-Library.Multiset"
begin

text \<open>
  String matching, third part: \<^verbatim>\<open>SubstrMatcherGroup\<close> (\<^verbatim>\<open>common/strmatcher/matchergroup_substr.go\<close>). \<^verbatim>\<open>Match\<close>
  packs the position and the index of every occurrence into 32 bits, sorts, and unpacks. The inner
  loop does not end for an empty pattern, so it is a partial function; it is shown to end for every
  other.
\<close>

record SubstrMatcherGroup =
  sg_patterns :: "bytes list"
  sg_values :: "u32 list"

definition NewSubstrMatcherGroup :: SubstrMatcherGroup where
  "NewSubstrMatcherGroup = \<lparr>sg_patterns = [], sg_values = []\<rparr>"

definition AddSubstrMatcher :: "bytes \<Rightarrow> u32 \<Rightarrow> SubstrMatcherGroup \<Rightarrow> SubstrMatcherGroup" where
  "AddSubstrMatcher m v g = \<lparr>sg_patterns = sg_patterns g @ [m], sg_values = sg_values g @ [v]\<rparr>"

definition pack :: "nat \<Rightarrow> nat \<Rightarrow> u32" where
  "pack j i = push_bit 16 (word_of_nat j) OR (word_of_nat i AND 0xffff)"

partial_function (option) substr_positions :: "bytes \<Rightarrow> bytes \<Rightarrow> nat \<Rightarrow> nat option \<Rightarrow> u32 list \<Rightarrow> u32 list option" where
  "substr_positions input pattern i pos result =
     (case pos of
        None \<Rightarrow> Some result
      | Some j \<Rightarrow> substr_positions input pattern i (LastIndex (take j input) pattern) (result @ [pack j i]))"

fun substr_patterns :: "bytes \<Rightarrow> nat \<Rightarrow> bytes list \<Rightarrow> u32 list \<Rightarrow> u32 list option" where
  "substr_patterns input i [] result = Some result"
| "substr_patterns input i (p # ps) result =
     Option.bind (substr_positions input p i (LastIndex input p) result) (substr_patterns input (Suc i) ps)"

definition sort_entries :: "u32 list \<Rightarrow> u32 list" where
  "sort_entries result =
     (case result of
        [] \<Rightarrow> []
      | [a] \<Rightarrow> [a]
      | [a, b] \<Rightarrow> if a > b then [b, a] else [a, b]
      | _ \<Rightarrow> sort result)"

text \<open>The index of an entry is below the number of values, so the lookup does not panic.\<close>

definition SubstrMatcherGroup_Match :: "SubstrMatcherGroup \<Rightarrow> bytes \<Rightarrow> u32 list option" where
  "SubstrMatcherGroup_Match g input =
     map_option (\<lambda>result. map (\<lambda>e. sg_values g ! unat (e AND 0xffff)) (sort_entries result))
       (substr_patterns input 0 (sg_patterns g) [])"

fun substr_any :: "bytes \<Rightarrow> bytes list \<Rightarrow> bool" where
  "substr_any input [] = False"
| "substr_any input (p # ps) = (if Contains input p then True else substr_any input ps)"

definition SubstrMatcherGroup_MatchAny :: "SubstrMatcherGroup \<Rightarrow> bytes \<Rightarrow> bool" where
  "SubstrMatcherGroup_MatchAny g input = substr_any input (sg_patterns g)"

section \<open>Occurrences\<close>

lemma LastIndex_Some: "LastIndex s p = Some j \<Longrightarrow> occurs_at s p j"
  unfolding LastIndex_def by (metis find_Some_iff)

lemma LastIndex_None: "LastIndex s p = None \<longleftrightarrow> \<not> Contains s p"
  by (auto simp: LastIndex_def find_None_iff Contains_def list_ex_iff)

lemma LastIndex_less: "LastIndex s p = Some j \<Longrightarrow> p \<noteq> [] \<Longrightarrow> j < length s"
  by (cases p) (auto dest!: LastIndex_Some simp: occurs_at_def)

text \<open>The occurrences of a pattern that do not overlap, found from the right.\<close>

function occurrences :: "bytes \<Rightarrow> bytes \<Rightarrow> nat list" where
  "occurrences p s =
     (if p = [] then [] else case LastIndex s p of None \<Rightarrow> [] | Some j \<Rightarrow> j # occurrences p (take j s))"
  by pat_completeness auto
termination
  by (relation "measure (\<lambda>(p, s). length s)") (auto dest: LastIndex_less)

declare occurrences.simps [simp del]

lemma occurrences_eqs:
  "occurrences [] s = []"
  "LastIndex s p = None \<Longrightarrow> occurrences p s = []"
  "p \<noteq> [] \<Longrightarrow> LastIndex s p = Some j \<Longrightarrow> occurrences p s = j # occurrences p (take j s)"
  by (subst occurrences.simps, simp)+

lemma occurrences_less: "j \<in> set (occurrences p s) \<Longrightarrow> j < length s"
proof (induction p s rule: occurrences.induct)
  case (1 p s)
  then have p: "p \<noteq> []" by (auto simp: occurrences_eqs)
  obtain k where k: "LastIndex s p = Some k" using 1(2) by (cases "LastIndex s p") (auto simp: occurrences_eqs)
  then show ?case using 1 LastIndex_less [OF k p] p by (auto simp: occurrences_eqs(3) [OF p k])
qed

lemma occurrences_Nil: "p \<noteq> [] \<Longrightarrow> occurrences p s = [] \<longleftrightarrow> \<not> Contains s p"
  by (subst occurrences.simps) (auto simp flip: LastIndex_None split: option.split)

lemma substr_positions_occurrences:
  assumes "\<exists>k. t = take k s" and "p \<noteq> []"
  shows "substr_positions s p i (LastIndex t p) r = Some (r @ map (\<lambda>j. pack j i) (occurrences p t))"
  using assms
proof (induction "length t" arbitrary: t r rule: less_induct)
  case less
  show ?case
  proof (cases "LastIndex t p")
    case None
    then show ?thesis by (simp add: substr_positions.simps occurrences_eqs)
  next
    case (Some j)
    then have j: "j < length t" using LastIndex_less less.prems(2) by blast
    then have "take j s = take j t" using less.prems(1) by auto
    moreover have "\<exists>k. take j s = take k s" by blast
    ultimately show ?thesis using less.hyps [of "take j t" "r @ [pack j i]"] less.prems Some j
      by (subst substr_positions.simps) (auto simp: occurrences_eqs(3))
  qed
qed

definition entries :: "bytes \<Rightarrow> nat \<Rightarrow> bytes list \<Rightarrow> (nat \<times> nat) list" where
  "entries s n ps = concat (map (\<lambda>(i, p). map (\<lambda>j. (j, i)) (occurrences p s)) (enumerate n ps))"

lemma substr_patterns_entries:
  "list_all (\<lambda>p. p \<noteq> []) ps \<Longrightarrow> substr_patterns s n ps r = Some (r @ map (\<lambda>(j, i). pack j i) (entries s n ps))"
proof (induction ps arbitrary: n r)
  case Nil
  then show ?case by (simp add: entries_def)
next
  case (Cons p ps)
  have "\<exists>k. s = take k s" by (rule exI [of _ "length s"]) simp
  then show ?case using Cons substr_positions_occurrences [of s s p n r]
    by (simp add: entries_def comp_def)
qed

section \<open>Packing and sorting\<close>

lemma u32_low16: "unat (w AND 0xffff :: u32) = unat w mod 65536"
proof -
  have "w AND 0xffff = take_bit 16 w" by (simp add: take_bit_eq_mask mask_eq_exp_minus_1)
  then have "unat (w AND 0xffff) = take_bit 16 (unat w)" by (simp only: unsigned_take_bit_eq)
  then show ?thesis by (simp add: take_bit_eq_mod)
qed

lemma pack_value:
  assumes "j < 65536" and "i < 65536"
  shows "unat (pack j i) = j * 65536 + i" and "unat (pack j i AND 0xffff) = i"
proof -
  have "push_bit 16 j AND i = 0"
  proof (rule bit_eqI)
    fix n
    have "\<not> bit i n" if "16 \<le> n" using assms(2) that bit_take_bit_iff [of 16 i n] by (simp add: take_bit_nat_eq_self)
    then show "bit (push_bit 16 j AND i) n = bit 0 n" by (auto simp: bit_and_iff bit_push_bit_iff)
  qed
  then have "push_bit 16 j OR i = push_bit 16 j + i" by (simp add: disjunctive_add_eq_or)
  then have o: "push_bit 16 j OR i = j * 65536 + i" by (simp add: push_bit_eq_mult)
  have i: "unat (word_of_nat i AND 0xffff :: u32) = i"
    using assms(2) by (simp add: u32_low16 unsigned_of_nat take_bit_eq_mod)
  have j: "unat (push_bit 16 (word_of_nat j) :: u32) = push_bit 16 j"
    using assms(1) by (simp add: push_bit_eq_mult unat_word_ariths unsigned_of_nat take_bit_eq_mod)
  show p: "unat (pack j i) = j * 65536 + i" unfolding pack_def by (simp only: unsigned_or_eq i j o)
  show "unat (pack j i AND 0xffff) = i" using p assms(2) by (simp add: u32_low16)
qed

lemma sort_entries_sort: "sort_entries xs = sort xs"
  by (auto simp: sort_entries_def split: list.split)

lemma sort_map: "sort (map f xs) = map f (sort_key f xs)"
proof -
  have "insort (f x) (map f ys) = map f (insort_key f x ys)" for x ys by (induction ys) auto
  then show ?thesis by (induction xs) simp_all
qed

lemma sort_key_map: "sort_key f (map g xs) = map g (sort_key (\<lambda>x. f (g x)) xs)"
proof -
  have "insort_key f (g x) (map g ys) = map g (insort_key (\<lambda>x. f (g x)) x ys)" for x ys by (induction ys) auto
  then show ?thesis by (induction xs) simp_all
qed

text \<open>A stable sort by the first component of a list whose second components ascend is sorted in
  dictionary order.\<close>

lemma stable_dictionary:
  fixes key :: "'a :: linorder \<times> 'b :: linorder \<Rightarrow> 'k :: linorder"
  assumes "sorted (map snd xs)"
    and "\<And>x y. x \<in> set xs \<Longrightarrow> y \<in> set xs \<Longrightarrow> fst x < fst y \<or> fst x = fst y \<and> snd x \<le> snd y \<Longrightarrow> key x \<le> key y"
  shows "sorted (map key (sort_key fst xs))"
  using assms
proof (induction xs)
  case (Cons x xs)
  have less: "snd x \<le> snd y" if "y \<in> set xs" for y using Cons.prems(1) that by auto
  note mono = Cons.prems(2)
  have ins: "sorted (map key (insort_key fst x ys))" if "sorted (map key ys)" "set ys \<subseteq> set xs" for ys
    using that
  proof (induction ys)
    case (Cons y ys)
    then have y: "y \<in> set xs" by simp
    show ?case
    proof (cases "fst x \<le> fst y")
      case True
      then have "key x \<le> key y" using y less [OF y] by (intro mono) auto
      then show ?thesis using True Cons by auto
    next
      case False
      then have "key y \<le> key x" using y by (intro mono) auto
      then show ?thesis using False Cons by (auto simp: set_insort_key)
    qed
  qed simp
  show ?case using Cons ins [of "sort_key fst xs"] by auto
qed simp

lemma entries_bounds: "(j, i) \<in> set (entries s n ps) \<Longrightarrow> j < length s \<and> n \<le> i \<and> i < n + length ps"
  by (auto simp: entries_def in_set_enumerate_eq dest: occurrences_less)

lemma entries_sorted: "sorted (map snd (entries s n ps))"
proof (induction ps arbitrary: n)
  case (Cons p ps)
  have "entries s n (p # ps) = map (\<lambda>j. (j, n)) (occurrences p s) @ entries s (Suc n) ps" by (simp add: entries_def)
  moreover have "\<forall>x \<in> set (entries s (Suc n) ps). n \<le> snd x" using entries_bounds [of _ _ s "Suc n" ps] by force
  ultimately show ?case using Cons [of "Suc n"] by (auto simp: sorted_append comp_def map_replicate_const)
qed (simp add: entries_def)

text \<open>The occurrences of the patterns with their values, in the order of the patterns.\<close>

definition occurring :: "bytes \<Rightarrow> (bytes \<times> u32) list \<Rightarrow> (nat \<times> u32) list" where
  "occurring s ms = concat (map (\<lambda>(p, v). map (\<lambda>j. (j, v)) (occurrences p s)) ms)"

lemma entries_occurring:
  "map (\<lambda>(j, i). (j, vs ! i)) (entries s 0 (map fst ms)) = occurring s ms" if "vs = map snd ms"
proof -
  have "map (\<lambda>(j, i). (j, map snd xs ! i)) (entries s n (map fst ms)) = occurring s ms"
    if "drop n xs = ms" for n xs
    using that
  proof (induction ms arbitrary: n)
    case (Cons m ms)
    then have n: "xs ! n = m" "drop (Suc n) xs = ms" "n < length xs"
      by (metis nth_via_drop) (metis Cons.prems drop_Suc list.sel(3) tl_drop, metis Cons.prems drop_all leI list.distinct(1))
    show ?case using Cons.IH [OF n(2)] n(1,3) by (auto simp: entries_def occurring_def case_prod_beta comp_def)
  qed (simp add: entries_def occurring_def)
  then show ?thesis using that by simp
qed

lemma built_substr:
  "fold (\<lambda>(p, v). AddSubstrMatcher p v) ms g = \<lparr>sg_patterns = sg_patterns g @ map fst ms, sg_values = sg_values g @ map snd ms\<rparr>"
  by (induction ms arbitrary: g) (auto simp: AddSubstrMatcher_def)

lemma substr_group_sorted:
  assumes "list_all (\<lambda>p. p \<noteq> []) (map fst ms)" and "length ms \<le> 65536" and "length s \<le> 65536"
  shows "SubstrMatcherGroup_Match (fold (\<lambda>(p, v). AddSubstrMatcher p v) ms NewSubstrMatcherGroup) s =
     Some (map snd (sort_key fst (occurring s ms)))"
proof -
  let ?es = "entries s 0 (map fst ms)" and ?pk = "\<lambda>(j, i). pack j i"
  have b: "fst x < 65536" "snd x < 65536" if "x \<in> set ?es" for x
    using entries_bounds [of "fst x" "snd x" s 0 "map fst ms"] that assms(2,3) by auto
  have pk: "unat (?pk x) = fst x * 65536 + snd x" "unat (?pk x AND 0xffff) = snd x" if "x \<in> set ?es" for x
    using pack_value [OF b [OF that]] by (simp_all add: case_prod_beta)
  have mono: "?pk x \<le> ?pk y" if "x \<in> set ?es" "y \<in> set ?es" "fst x < fst y \<or> fst x = fst y \<and> snd x \<le> snd y" for x y
    using that b [OF that(1)] b [OF that(2)] by (auto simp: word_le_nat_alt pk simp del: split_paired_All)
  have inj: "inj_on ?pk (set ?es)"
  proof (rule inj_onI)
    fix x y assume x: "x \<in> set ?es" and y: "y \<in> set ?es" and e: "?pk x = ?pk y"
    then have e: "fst x * 65536 + snd x = fst y * 65536 + snd y" by (metis pk(1))
    then have "(fst x * 65536 + snd x) mod 65536 = (fst y * 65536 + snd y) mod 65536" by simp
    then have "snd x = snd y" using b [OF x] b [OF y] by simp
    then show "x = y" using e by (simp add: prod_eq_iff)
  qed
  have "sort_key ?pk ?es = sort_key fst ?es"
    by (rule sort_key_inj_key_eq) (use inj stable_dictionary [OF entries_sorted mono] in simp_all)
  then have "sort (map ?pk ?es) = map ?pk (sort_key fst ?es)" by (simp add: sort_map)
  then have "SubstrMatcherGroup_Match (fold (\<lambda>(p, v). AddSubstrMatcher p v) ms NewSubstrMatcherGroup) s =
      Some (map (\<lambda>x. map snd ms ! unat (?pk x AND 0xffff)) (sort_key fst ?es))"
    using substr_patterns_entries [OF assms(1), of s 0 "[]"]
    by (simp add: SubstrMatcherGroup_Match_def built_substr NewSubstrMatcherGroup_def sort_entries_sort)
  also have "map (\<lambda>x. map snd ms ! unat (?pk x AND 0xffff)) (sort_key fst ?es) =
      map snd (map (\<lambda>(j, i). (j, map snd ms ! i)) (sort_key fst ?es))"
    using pk(2) by (auto simp: case_prod_beta)
  also have "map (\<lambda>(j, i). (j, map snd ms ! i)) (sort_key fst ?es) = sort_key fst (occurring s ms)"
    using sort_key_map [of fst "\<lambda>(j, i). (j, map snd ms ! i)" ?es] entries_occurring [of "map snd ms" ms s]
    by (simp add: case_prod_beta)
  finally show ?thesis .
qed

lemma substr_any_iff: "substr_any s ps \<longleftrightarrow> (\<exists>p \<in> set ps. Contains s p)"
  by (induction ps) auto

lemma occurring_values:
  "list_all (\<lambda>p. p \<noteq> []) (map fst ms) \<Longrightarrow> snd ` set (occurring s ms) = {v. \<exists>p. (p, v) \<in> set ms \<and> SubstrMatcher_Match p s}"
proof -
  assume "list_all (\<lambda>p. p \<noteq> []) (map fst ms)"
  then have "SubstrMatcher_Match p s \<longleftrightarrow> (\<exists>j. j \<in> set (occurrences p s))" if "(p, v) \<in> set ms" for p v
    using that occurrences_Nil [of p s] by (auto simp: list_all_iff SubstrMatcher_Match_def ex_in_conv)
  then show ?thesis by (force simp: occurring_def image_iff)
qed

interpretation substr_g: matcher_group NewSubstrMatcherGroup AddSubstrMatcher SubstrMatcherGroup_Match
    SubstrMatcherGroup_MatchAny SubstrMatcher_Match
    "\<lambda>ps s. list_all (\<lambda>p. p \<noteq> []) ps \<and> length ps \<le> 65536 \<and> length s \<le> 65536"
proof unfold_locales
  fix ms :: "(bytes \<times> u32) list" and s :: bytes
  assume f: "list_all (\<lambda>p. p \<noteq> []) (map fst ms) \<and> length (map fst ms) \<le> 65536 \<and> length s \<le> 65536"
  then show "\<exists>r. SubstrMatcherGroup_Match (fold (\<lambda>(p, v). AddSubstrMatcher p v) ms NewSubstrMatcherGroup) s = Some r \<and>
      set r = {v. \<exists>p. (p, v) \<in> set ms \<and> SubstrMatcher_Match p s}"
    using substr_group_sorted [of ms s] occurring_values [of ms s] by simp
  show "SubstrMatcherGroup_MatchAny (fold (\<lambda>(p, v). AddSubstrMatcher p v) ms NewSubstrMatcherGroup) s \<longleftrightarrow>
      (\<exists>p v. (p, v) \<in> set ms \<and> SubstrMatcher_Match p s)"
    by (force simp: SubstrMatcherGroup_MatchAny_def built_substr NewSubstrMatcherGroup_def substr_any_iff SubstrMatcher_Match_def)
qed

section \<open>Properties\<close>

text \<open>Packing, sorting and unpacking implement the priorities of the keyword matchers: for non-empty
  patterns and as long as positions and indices fit into 16 bits, \<^verbatim>\<open>Match\<close> returns the value of every
  occurrence of every pattern (those that do not overlap, counted from the right), ordered by
  position, and at one position by the order of addition.\<close>

theorem substr_group_priority:
  assumes "list_all (\<lambda>p. p \<noteq> []) (map fst ms)" and "length ms \<le> 65536" and "length s \<le> 65536"
  defines "g \<equiv> fold (\<lambda>(p, v). AddSubstrMatcher p v) ms NewSubstrMatcherGroup"
  shows "SubstrMatcherGroup_Match g s = Some (map snd (sort_key fst (occurring s ms))) \<and>
     snd ` set (occurring s ms) = {v. \<exists>p. (p, v) \<in> set ms \<and> Matcher_Match (SubstrMatcher p) s}"
  unfolding g_def using substr_group_sorted [OF assms(1-3)] occurring_values [OF assms(1), of s] by simp

theorem substr_group_priority_witness:
  "SubstrMatcherGroup_Match (fold (\<lambda>(p, v). AddSubstrMatcher p v) [(str ''ab'', 1), (str ''a'', 2)] NewSubstrMatcherGroup) (str ''xabya'') =
     Some [1, 2, 2]"
proof -
  have o: "LastIndex (str ''xabya'') (str ''ab'') = Some 1" "LastIndex (str ''x'') (str ''ab'') = None"
    "LastIndex (str ''xabya'') (str ''a'') = Some 4" "LastIndex (str ''xaby'') (str ''a'') = Some 1" "LastIndex (str ''x'') (str ''a'') = None"
    by (simp_all add: LastIndex_def occurs_at_def str_def upt_rec)
  have "take 1 (str ''xabya'') = str ''x''" "take 4 (str ''xabya'') = str ''xaby''" "take 1 (str ''xaby'') = str ''x''"
    "str ''ab'' \<noteq> []" "str ''a'' \<noteq> []" by (simp_all add: str_def)
  then have "occurring (str ''xabya'') [(str ''ab'', 1), (str ''a'', 2)] = [(1, 1), (4, 2), (1, 2)]"
    using o by (simp add: occurring_def occurrences_eqs)
  then show ?thesis using substr_group_priority [of "[(str ''ab'', 1), (str ''a'', 2)]" "str ''xabya''"]
    by (simp add: str_def)
qed

lemma substr_positions_empty: "substr_positions s [] i (Some j) r = Some x \<Longrightarrow> False"
proof -
  have last: "LastIndex t [] = Some (length t)" for t by (simp add: LastIndex_def occurs_at_def)
  have "p = [] \<longrightarrow> pos = None" if "substr_positions s p i pos r = Some x" for s p i pos r x
    using _ that
  proof (rule substr_positions.raw_induct [where P = "\<lambda>s p i pos r x. p = [] \<longrightarrow> pos = None"])
    fix f s p i pos r x
    assume ih: "\<And>s p i pos r x. f s p i pos r = Some x \<Longrightarrow> p = [] \<longrightarrow> pos = None"
      and eq: "(case pos of None \<Rightarrow> Some r | Some j \<Rightarrow> f s p i (LastIndex (take j s) p) (r @ [pack j i])) = Some x"
    show "p = [] \<longrightarrow> pos = None"
      using ih [of s p i "LastIndex (take (the pos) s) p" "r @ [pack (the pos) i]" x] eq by (cases pos) (auto simp: last)
  qed
  then show "substr_positions s [] i (Some j) r = Some x \<Longrightarrow> False" by blast
qed

text \<open>An empty keyword makes \<^verbatim>\<open>Match\<close> run for ever on every input (appending to its result), while
  \<^verbatim>\<open>MatchAny\<close> answers at once.\<close>

theorem empty_keyword_hangs:
  assumes "[] \<in> set (sg_patterns g)"
  shows "SubstrMatcherGroup_Match g s = None \<and> SubstrMatcherGroup_MatchAny g s"
proof -
  have "LastIndex s [] = Some (length s)" by (simp add: LastIndex_def occurs_at_def)
  then have e: "substr_positions s [] i (LastIndex s []) r = None" for i r
    using substr_positions_empty [of s i "length s" r] by fastforce
  have "[] \<in> set ps \<Longrightarrow> substr_patterns s i ps r = None" for ps i r
  proof (induction ps arbitrary: i r)
    case (Cons p ps)
    then show ?case by (cases "p = []") (auto simp: e bind_eq_None_conv)
  qed simp
  moreover have "Contains s []" unfolding Contains_iff by (rule exI [of _ s]) simp
  ultimately show ?thesis using assms
    by (auto simp: SubstrMatcherGroup_Match_def SubstrMatcherGroup_MatchAny_def substr_any_iff)
qed

theorem empty_keyword_hangs_witness:
  "SubstrMatcherGroup_Match \<lparr>sg_patterns = [str ''a'', []], sg_values = [1, 2]\<rparr> (str ''b'') = None \<and>
   SubstrMatcherGroup_MatchAny \<lparr>sg_patterns = [str ''a'', []], sg_values = [1, 2]\<rparr> (str ''b'')"
  by (rule empty_keyword_hangs) simp

end
