(* ===== verification/Ac_Automaton.thy ===== *)
theory Ac_Automaton
  imports Strmatcher
begin

text \<open>
  String matching, fourth part: the automaton of \<^verbatim>\<open>common/strmatcher/matchergroup_ac_automation.go\<close>, which reads
  its input from the right. Node and match indices are natural numbers: \<open>2 ^ 32\<close> nodes of 208 bytes
  do not fit into memory. Building walks the trie with a queue, and matching follows fail links; both
  loops are partial functions, shown to return in \<open>Ac_Correct\<close>.
\<close>

section \<open>Characters\<close>

definition acValidCharCount :: nat where "acValidCharCount = 39"

definition acCharset :: "byte \<Rightarrow> nat" where
  "acCharset c =
     (if 65 \<le> c \<and> c \<le> 90 then unat c - 64
      else if 97 \<le> c \<and> c \<le> 122 then unat c - 96
      else if c = 45 then 27
      else if c = dot then 28
      else if 48 \<le> c \<and> c \<le> 57 then unat c - 19
      else 0)"

section \<open>Nodes and values\<close>

record acNode =
  ac_next :: "nat list"
  ac_edge :: "nat list"
  ac_fail :: nat
  ac_match :: nat

record ACAutomatonMatcherGroup =
  ac_nodes :: "acNode list"
  ac_values :: "u32 list list list"

definition acTrieEdge :: nat where "acTrieEdge = 1"
definition acFailEdge :: nat where "acFailEdge = 0"

definition new_acNode :: acNode where
  "new_acNode = \<lparr>ac_next = replicate acValidCharCount 0, ac_edge = replicate acValidCharCount acFailEdge, ac_fail = 0, ac_match = 0\<rparr>"

definition addNode :: "ACAutomatonMatcherGroup \<Rightarrow> ACAutomatonMatcherGroup \<times> nat" where
  "addNode ac = (let nodes = ac_nodes ac @ [new_acNode] in (ac\<lparr>ac_nodes := nodes\<rparr>, length nodes - 1))"

text \<open>A match entry has a list of values for each of the types Full, Domain and Substr.\<close>

definition addMatchEntry :: "ACAutomatonMatcherGroup \<Rightarrow> ACAutomatonMatcherGroup \<times> nat" where
  "addMatchEntry ac = (let values = ac_values ac @ [[[], [], []]] in (ac\<lparr>ac_values := values\<rparr>, length values - 1))"

definition NewACAutomatonMatcherGroup :: ACAutomatonMatcherGroup where
  "NewACAutomatonMatcherGroup = fst (addMatchEntry (fst (addNode \<lparr>ac_nodes = [], ac_values = []\<rparr>)))"

section \<open>Adding patterns\<close>

text \<open>The loop over the pattern from its end; \<open>cs\<close> is what is left of it, reversed.\<close>

fun addPattern_loop :: "ACAutomatonMatcherGroup \<Rightarrow> nat \<Rightarrow> bytes \<Rightarrow> ACAutomatonMatcherGroup \<times> nat" where
  "addPattern_loop ac nodeIdx [] = (ac, nodeIdx)"
| "addPattern_loop ac nodeIdx (c # cs) =
     (let edgeIdx = acCharset c; nextIdx = ac_next (ac_nodes ac ! nodeIdx) ! edgeIdx in
      if nextIdx = 0
      then let (ac, nextIdx) = addNode ac;
               node = ac_nodes ac ! nodeIdx;
               node = node\<lparr>ac_next := (ac_next node)[edgeIdx := nextIdx], ac_edge := (ac_edge node)[edgeIdx := acTrieEdge]\<rparr>
           in addPattern_loop (ac\<lparr>ac_nodes := (ac_nodes ac)[nodeIdx := node]\<rparr>) nextIdx cs
      else addPattern_loop ac nextIdx cs)"

definition addPattern :: "nat \<Rightarrow> bytes \<Rightarrow> byte \<Rightarrow> u32 \<Rightarrow> ACAutomatonMatcherGroup \<Rightarrow> ACAutomatonMatcherGroup \<times> nat" where
  "addPattern nodeIdx pattern matcherType v ac =
     (let (ac, nodeIdx) = addPattern_loop ac nodeIdx (rev pattern);
          ac = (if ac_match (ac_nodes ac ! nodeIdx) = 0
                then let (ac, m) = addMatchEntry ac
                     in ac\<lparr>ac_nodes := (ac_nodes ac)[nodeIdx := (ac_nodes ac ! nodeIdx)\<lparr>ac_match := m\<rparr>]\<rparr>
                else ac);
          m = ac_match (ac_nodes ac ! nodeIdx);
          t = unat matcherType;
          entry = ac_values ac ! m
      in (ac\<lparr>ac_values := (ac_values ac)[m := entry[t := entry ! t @ [v]]]\<rparr>, nodeIdx))"

definition ac_AddFullMatcher :: "bytes \<Rightarrow> u32 \<Rightarrow> ACAutomatonMatcherGroup \<Rightarrow> ACAutomatonMatcherGroup" where
  "ac_AddFullMatcher m v ac = fst (addPattern 0 m Full v ac)"

definition ac_AddDomainMatcher :: "bytes \<Rightarrow> u32 \<Rightarrow> ACAutomatonMatcherGroup \<Rightarrow> ACAutomatonMatcherGroup" where
  "ac_AddDomainMatcher m v ac = (let (ac, node) = addPattern 0 m Domain v ac in fst (addPattern node [dot] Domain v ac))"

definition ac_AddSubstrMatcher :: "bytes \<Rightarrow> u32 \<Rightarrow> ACAutomatonMatcherGroup \<Rightarrow> ACAutomatonMatcherGroup" where
  "ac_AddSubstrMatcher m v ac = fst (addPattern 0 m Substr v ac)"

section \<open>Building\<close>

text \<open>\<open>len(ac.values[match][t]) > 0\<close> and the list itself.\<close>

definition vals :: "ACAutomatonMatcherGroup \<Rightarrow> nat \<Rightarrow> byte \<Rightarrow> u32 list" where
  "vals ac m t = ac_values ac ! m ! unat t"

text \<open>One edge of the node taken from the queue; \<open>f\<close> is its fail node.\<close>

definition build_edge ::
  "nat \<Rightarrow> nat \<Rightarrow> nat \<Rightarrow> ACAutomatonMatcherGroup \<times> nat list \<times> nat list \<Rightarrow> ACAutomatonMatcherGroup \<times> nat list \<times> nat list" where
  "build_edge k f edgeIdx = (\<lambda>(ac, fail, queue).
     let nodes = ac_nodes ac; nodeIdx = ac_next (nodes ! k) ! edgeIdx; failIdx = ac_next (nodes ! f) ! edgeIdx in
     if nodeIdx \<noteq> 0
     then let m = ac_match (nodes ! failIdx);
              link = (if m \<noteq> 0 \<and> vals ac m Substr \<noteq> [] then failIdx else ac_fail (nodes ! failIdx))
          in (ac\<lparr>ac_nodes := nodes[nodeIdx := (nodes ! nodeIdx)\<lparr>ac_fail := link\<rparr>]\<rparr>, fail[nodeIdx := failIdx], queue @ [nodeIdx])
     else let node = nodes ! k;
              node = node\<lparr>ac_next := (ac_next node)[edgeIdx := failIdx], ac_edge := (ac_edge node)[edgeIdx := acFailEdge]\<rparr>
          in (ac\<lparr>ac_nodes := nodes[k := node]\<rparr>, fail, queue))"

definition build_node ::
  "nat \<Rightarrow> ACAutomatonMatcherGroup \<times> nat list \<times> nat list \<Rightarrow> ACAutomatonMatcherGroup \<times> nat list \<times> nat list" where
  "build_node k = (\<lambda>(ac, fail, queue). fold (build_edge k (fail ! k)) [0..<acValidCharCount] (ac, fail, queue))"

partial_function (option) Build_loop ::
  "ACAutomatonMatcherGroup \<times> nat list \<times> nat list \<Rightarrow> ACAutomatonMatcherGroup option" where
  "Build_loop st =
     (case st of (ac, fail, queue) \<Rightarrow>
        case queue of
          [] \<Rightarrow> Some ac
        | k # rest \<Rightarrow> Build_loop (build_node k (ac, fail, rest)))"

definition ac_Build :: "ACAutomatonMatcherGroup \<Rightarrow> ACAutomatonMatcherGroup option" where
  "ac_Build ac =
     (let fail = replicate (length (ac_nodes ac)) 0;
          queue = filter (\<lambda>k. k \<noteq> 0) (map (\<lambda>e. ac_next (ac_nodes ac ! 0) ! e) [0..<acValidCharCount])
      in Build_loop (ac, fail, queue))"

section \<open>Matching\<close>

text \<open>The loop over the fail path. The assignment at its end takes the index of the node from before:
  \<^verbatim>\<open>failIdx, failNode = failNode.fail, &ac.nodes[failIdx]\<close>.\<close>

partial_function (option) fail_path :: "ACAutomatonMatcherGroup \<Rightarrow> nat \<Rightarrow> nat \<Rightarrow> u32 list list \<Rightarrow> u32 list list option" where
  "fail_path ac failIdx failNode substrMatches =
     (if failIdx = 0 then Some substrMatches
      else fail_path ac (ac_fail (ac_nodes ac ! failNode)) failIdx
             (substrMatches @ [vals ac (ac_match (ac_nodes ac ! failNode)) Substr]))"

text \<open>One character of the input: the node, whether only trie edges were taken, and the matches so far.\<close>

definition Match_step ::
  "ACAutomatonMatcherGroup \<Rightarrow> byte \<Rightarrow> nat \<times> bool \<times> u32 list list \<times> u32 list list \<Rightarrow> (nat \<times> bool \<times> u32 list list \<times> u32 list list) option" where
  "Match_step ac c = (\<lambda>(k, fullMatch, suffixMatches, substrMatches).
     let edge = acCharset c;
         fullMatch = (fullMatch \<and> ac_edge (ac_nodes ac ! k) ! edge = acTrieEdge);
         k = ac_next (ac_nodes ac ! k) ! edge;
         node = ac_nodes ac ! k
     in do {
       substrMatches \<leftarrow> (if ac_fail node \<noteq> 0 then fail_path ac (ac_fail node) (ac_fail node) substrMatches else Some substrMatches);
       let m = ac_match node;
       let substrMatches = (if m \<noteq> 0 \<and> vals ac m Substr \<noteq> [] then substrMatches @ [vals ac m Substr] else substrMatches);
       let suffixMatches = (if m \<noteq> 0 \<and> fullMatch \<and> c = dot \<and> vals ac m Domain \<noteq> [] then suffixMatches @ [vals ac m Domain] else suffixMatches);
       Some (k, fullMatch, suffixMatches, substrMatches)
     })"

fun Match_loop ::
  "ACAutomatonMatcherGroup \<Rightarrow> bytes \<Rightarrow> nat \<times> bool \<times> u32 list list \<times> u32 list list \<Rightarrow> (nat \<times> bool \<times> u32 list list \<times> u32 list list) option" where
  "Match_loop ac [] st = Some st"
| "Match_loop ac (c # cs) st = Option.bind (Match_step ac c st) (Match_loop ac cs)"

definition ac_Match :: "ACAutomatonMatcherGroup \<Rightarrow> bytes \<Rightarrow> u32 list option" where
  "ac_Match ac input =
     do {
       (k, fullMatch, suffixMatches, substrMatches) \<leftarrow> Match_loop ac (rev input) (0, True, [], []);
       let m = ac_match (ac_nodes ac ! k);
       let suffixMatches = (if fullMatch \<and> m \<noteq> 0 \<and> vals ac m Domain \<noteq> [] then suffixMatches @ [vals ac m Domain] else suffixMatches);
       let suffixMatches = (if fullMatch \<and> m \<noteq> 0 \<and> vals ac m Full \<noteq> [] then suffixMatches @ [vals ac m Full] else suffixMatches);
       Some (if substrMatches = [] then CompositeMatchesReverse suffixMatches
             else CompositeMatchesReverse (substrMatches @ suffixMatches))
     }"

fun MatchAny_loop :: "ACAutomatonMatcherGroup \<Rightarrow> bytes \<Rightarrow> nat \<Rightarrow> bool \<Rightarrow> bool" where
  "MatchAny_loop ac [] k fullMatch = (fullMatch \<and> ac_match (ac_nodes ac ! k) \<noteq> 0)"
| "MatchAny_loop ac (c # cs) k fullMatch =
     (let edge = acCharset c;
          fullMatch = (fullMatch \<and> ac_edge (ac_nodes ac ! k) ! edge = acTrieEdge);
          k = ac_next (ac_nodes ac ! k) ! edge;
          m = ac_match (ac_nodes ac ! k)
      in if ac_fail (ac_nodes ac ! k) \<noteq> 0 then True
         else if m \<noteq> 0 \<and> vals ac m Substr \<noteq> [] then True
         else if m \<noteq> 0 \<and> fullMatch \<and> c = dot \<and> vals ac m Domain \<noteq> [] then True
         else MatchAny_loop ac cs k fullMatch)"

definition ac_MatchAny :: "ACAutomatonMatcherGroup \<Rightarrow> bytes \<Rightarrow> bool" where
  "ac_MatchAny ac input = MatchAny_loop ac (rev input) 0 True"

end
