(* ===== verification/Longest_Suffix.thy ===== *)
theory Longest_Suffix
  imports Main "HOL-Library.Sublist"
begin

text \<open>
  The abstract side of the keyword automaton: for a set of words closed under prefixes, the state after
  reading a word is its longest suffix in the set. Also the proper suffixes with a given property, the
  longest first, which are the stations of a compressed fail path.
\<close>

section \<open>The longest suffix in a set\<close>

fun lsuf :: "'a list set \<Rightarrow> 'a list \<Rightarrow> 'a list" where
  "lsuf S [] = []"
| "lsuf S (x # t) = (if x # t \<in> S then x # t else lsuf S t)"

lemma lsuf_suffix: "suffix (lsuf S w) w"
  by (induction w) (auto simp: suffix_Cons)

lemma lsuf_in: "[] \<in> S \<Longrightarrow> lsuf S w \<in> S"
  by (induction w) auto

lemma lsuf_self: "w \<in> S \<Longrightarrow> lsuf S w = w"
  by (cases w) auto

lemma lsuf_longest: "q \<in> S \<Longrightarrow> suffix q w \<Longrightarrow> suffix q (lsuf S w)"
  by (induction w) (auto simp: suffix_Cons)

lemma lsuf_eqI:
  assumes "[] \<in> S" and "q \<in> S" and "suffix q w" and "\<And>r. r \<in> S \<Longrightarrow> suffix r w \<Longrightarrow> suffix r q"
  shows "lsuf S w = q"
  using assms(4) [OF lsuf_in [OF assms(1)] lsuf_suffix] lsuf_longest [OF assms(2,3)] by (rule suffix_order.antisym)

definition prefix_closed :: "'a list set \<Rightarrow> bool" where
  "prefix_closed S \<longleftrightarrow> [] \<in> S \<and> (\<forall>p e. p @ [e] \<in> S \<longrightarrow> p \<in> S)"

lemma prefix_closed_Nil [simp]: "prefix_closed S \<Longrightarrow> [] \<in> S"
  by (simp add: prefix_closed_def)

text \<open>The next state depends only on the state and the letter read.\<close>

lemma lsuf_snoc:
  assumes S: "prefix_closed S"
  shows "lsuf S (w @ [e]) = lsuf S (lsuf S w @ [e])"
proof (rule lsuf_eqI [OF prefix_closed_Nil [OF S]])
  let ?q = "lsuf S (lsuf S w @ [e])"
  show "?q \<in> S" using S by (simp add: lsuf_in)
  obtain z where z: "w = z @ lsuf S w" using lsuf_suffix [of S w] by (auto simp: suffix_def)
  have "suffix (lsuf S w @ [e]) (w @ [e])" by (subst z) (simp add: suffix_def)
  then show "suffix ?q (w @ [e])" using lsuf_suffix suffix_order.order_trans by blast
  fix r assume r: "r \<in> S" "suffix r (w @ [e])"
  show "suffix r ?q"
  proof (cases r rule: rev_cases)
    case (snoc r' x)
    then have "x = e" "suffix r' w" "r' \<in> S" using r S by (auto simp: prefix_closed_def)
    then have "suffix r' (lsuf S w)" by (simp add: lsuf_longest)
    then have "suffix r (lsuf S w @ [e])" using snoc \<open>x = e\<close> by simp
    then show ?thesis using r(1) by (rule lsuf_longest [rotated])
  qed simp
qed

text \<open>What a missing edge and the fail link of a child have in common.\<close>

lemma lsuf_via_fail:
  assumes "prefix_closed S" and "p \<noteq> []"
  shows "lsuf S (tl (p @ [e])) = lsuf S (lsuf S (tl p) @ [e])"
    and "p @ [e] \<notin> S \<Longrightarrow> lsuf S (p @ [e]) = lsuf S (lsuf S (tl p) @ [e])"
  using assms(2) lsuf_snoc [OF assms(1)] by (cases p; simp)+

lemma length_lsuf_le: "length (lsuf S w) \<le> length w"
  using lsuf_suffix by (rule suffix_length_le)

section \<open>Proper suffixes\<close>

fun tsuf :: "'a list \<Rightarrow> 'a list list" where
  "tsuf [] = []"
| "tsuf (x # t) = (if t = [] then [] else t # tsuf t)"

lemma set_tsuf: "q \<in> set (tsuf w) \<longleftrightarrow> suffix q w \<and> q \<noteq> w \<and> q \<noteq> []"
proof (induction w)
  case (Cons x t)
  have "suffix q t \<Longrightarrow> q \<noteq> x # t" using suffix_length_le by fastforce
  then show ?case using Cons by (cases "t = []") (auto simp: suffix_Cons)
qed simp

text \<open>The proper suffixes with a property, seen from the longest proper suffix in the set.\<close>

lemma filter_tsuf:
  assumes "\<And>q. sub q \<Longrightarrow> q \<in> S" and "[] \<in> S" and "w \<noteq> []"
  defines "f \<equiv> lsuf S (tl w)"
  shows "filter sub (tsuf w) = (if f \<noteq> [] \<and> sub f then f # filter sub (tsuf f) else filter sub (tsuf f))"
proof -
  have "filter sub (if t = [] then [] else t # tsuf t) =
      (let f = lsuf S t in if f \<noteq> [] \<and> sub f then f # filter sub (tsuf f) else filter sub (tsuf f))" for t
  proof (induction t)
    case (Cons y t)
    show ?case
    proof (cases "y # t \<in> S")
      case False
      then have "\<not> sub (y # t)" using assms(1) by blast
      then show ?thesis using Cons False by (simp add: Let_def)
    qed (simp add: Let_def)
  qed (simp add: Let_def)
  then show ?thesis using assms(3) unfolding f_def by (cases w) (auto simp: Let_def)
qed

end
