(* ===== verification/Ac_Correct.thy ===== *)
theory Ac_Correct
  imports Ac_Automaton Longest_Suffix
begin

text \<open>
  Correctness of the keyword automaton. Every node has a path, the word of edges that leads to it from
  the root; the paths form a set closed under prefixes. Adding patterns keeps the trie, building
  gives every node the edges to the longest suffix that is a path and the link to the next
  keyword on its fail path, and matching follows the longest suffix of what has been read.
\<close>

section \<open>Paths\<close>

definition enc :: "bytes \<Rightarrow> nat list" where
  "enc s = map acCharset (rev s)"

lemma acCharset_less: "acCharset c < acValidCharCount"
  by (auto simp: acCharset_def acValidCharCount_def word_le_nat_alt)

definition idx :: "'a list \<Rightarrow> 'a \<Rightarrow> nat" where
  "idx P p = length (takeWhile (\<lambda>q. q \<noteq> p) P)"

lemma idx_in: "p \<in> set P \<Longrightarrow> idx P p < length P \<and> P ! idx P p = p"
  by (induction P) (auto simp: idx_def)

lemma idx_nth: "distinct P \<Longrightarrow> k < length P \<Longrightarrow> idx P (P ! k) = k"
  using idx_in [of "P ! k" P] by (auto simp: nth_eq_iff_index_eq)

lemma idx_append: "p \<in> set P \<Longrightarrow> idx (P @ Q) p = idx P p"
  by (auto simp: idx_def)

section \<open>The invariant of the trie\<close>

text \<open>\<open>P\<close> lists the paths of the nodes.\<close>

definition paths_ok :: "nat list list \<Rightarrow> bool" where
  "paths_ok P \<longleftrightarrow> P \<noteq> [] \<and> P ! 0 = [] \<and> distinct P \<and> prefix_closed (set P) \<and> (\<forall>p \<in> set P. \<forall>e \<in> set p. e < acValidCharCount)"

definition raw_node :: "nat list list \<Rightarrow> nat list \<Rightarrow> acNode \<Rightarrow> bool" where
  "raw_node P p nd \<longleftrightarrow> length (ac_next nd) = acValidCharCount \<and> length (ac_edge nd) = acValidCharCount \<and>
     (\<forall>e < acValidCharCount. if p @ [e] \<in> set P then ac_next nd ! e = idx P (p @ [e]) \<and> ac_edge nd ! e = acTrieEdge
        else ac_next nd ! e = 0 \<and> ac_edge nd ! e = acFailEdge)"

lemma raw_node_update [simp]:
  "raw_node P p (nd\<lparr>ac_match := m\<rparr>) = raw_node P p nd" "raw_node P p (nd\<lparr>ac_fail := f\<rparr>) = raw_node P p nd"
  by (simp_all add: raw_node_def)

text \<open>\<open>R p t\<close> are the values registered at the path \<open>p\<close> for the type \<open>t\<close>.\<close>

definition regs_ok :: "nat list list \<Rightarrow> (nat list \<Rightarrow> byte \<Rightarrow> u32 list) \<Rightarrow> ACAutomatonMatcherGroup \<Rightarrow> bool" where
  "regs_ok P R ac \<longleftrightarrow> length (ac_nodes ac) = length P \<and> ac_values ac \<noteq> [] \<and> (\<forall>m < length (ac_values ac). length (ac_values ac ! m) = 3) \<and>
     (\<forall>k < length P. let m = ac_match (ac_nodes ac ! k) in m < length (ac_values ac) \<and>
        (if m = 0 then \<forall>t. R (P ! k) t = []
         else (\<forall>t \<in> {Full, Domain, Substr}. vals ac m t = R (P ! k) t) \<and> (\<exists>t \<in> {Full, Domain, Substr}. R (P ! k) t \<noteq> []) \<and>
           (\<forall>j < length P. ac_match (ac_nodes ac ! j) = m \<longrightarrow> j = k))) \<and>
     (\<forall>p t. p \<notin> set P \<longrightarrow> R p t = [])"

definition trie_ok :: "nat list list \<Rightarrow> (nat list \<Rightarrow> byte \<Rightarrow> u32 list) \<Rightarrow> ACAutomatonMatcherGroup \<Rightarrow> bool" where
  "trie_ok P R ac \<longleftrightarrow> paths_ok P \<and> regs_ok P R ac \<and>
     (\<forall>k < length P. raw_node P (P ! k) (ac_nodes ac ! k) \<and> ac_fail (ac_nodes ac ! k) = 0)"

lemma trie_ok_new: "trie_ok [[]] (\<lambda>_ _. []) NewACAutomatonMatcherGroup"
  by (auto simp: trie_ok_def paths_ok_def regs_ok_def raw_node_def prefix_closed_def NewACAutomatonMatcherGroup_def
      addMatchEntry_def addNode_def new_acNode_def)

lemma paths_ok_idx0: "paths_ok P \<Longrightarrow> idx P [] = 0"
  using idx_nth [of P 0] by (simp add: paths_ok_def)

lemma idx_eq_0: "paths_ok P \<Longrightarrow> p \<in> set P \<Longrightarrow> idx P p = 0 \<longleftrightarrow> p = []"
  using idx_in [of p P] paths_ok_idx0 [of P] by (auto simp: paths_ok_def)

section \<open>Adding\<close>

text \<open>A new path extends the trie by one node.\<close>

lemma add_edge:
  assumes ok: "trie_ok P R ac" and k: "k < length P" and e: "e < acValidCharCount" and new: "P ! k @ [e] \<notin> set P"
  defines "nodes \<equiv> ac_nodes ac @ [new_acNode]"
  defines "node \<equiv> nodes ! k"
  shows "trie_ok (P @ [P ! k @ [e]]) R
     (ac\<lparr>ac_nodes := nodes[k := node\<lparr>ac_next := (ac_next node)[e := length P], ac_edge := (ac_edge node)[e := acTrieEdge]\<rparr>]\<rparr>)"
    (is "trie_ok ?P R ?ac")
proof -
  have n: "length (ac_nodes ac) = length P" and P: "paths_ok P" and R: "regs_ok P R ac"
    and raw: "\<And>j. j < length P \<Longrightarrow> raw_node P (P ! j) (ac_nodes ac ! j) \<and> ac_fail (ac_nodes ac ! j) = 0"
    using ok by (auto simp: trie_ok_def regs_ok_def)
  have P': "paths_ok ?P" using P k e new
    by (auto simp: paths_ok_def prefix_closed_def nth_append)
  have nd: "ac_nodes ?ac ! j = (if j = length P then new_acNode else if j = k
      then (ac_nodes ac ! k)\<lparr>ac_next := (ac_next (ac_nodes ac ! k))[e := length P], ac_edge := (ac_edge (ac_nodes ac ! k))[e := acTrieEdge]\<rparr>
      else ac_nodes ac ! j)" if "j < Suc (length P)" for j
    using that n k by (auto simp: nodes_def node_def nth_append nth_list_update)
  have newp: "R (P ! k @ [e]) t = []" for t using R new by (auto simp: regs_ok_def)
  have R': "regs_ok ?P R ?ac"
    using R n newp nd unfolding regs_ok_def by (auto simp: vals_def nth_append new_acNode_def less_Suc_eq nodes_def Let_def)
  have i: "idx ?P (P ! k @ [e]) = length P" using new unfolding idx_def by (subst takeWhile_append2) auto
  have leaf: "q @ [x] \<in> set ?P \<longleftrightarrow> False" if "q = P ! k @ [e]" for q x
    using that P new unfolding paths_ok_def prefix_closed_def by (auto dest: spec [of _ q])
  have same: "q @ [x] \<in> set ?P \<longleftrightarrow> q @ [x] \<in> set P \<or> (q = P ! k \<and> x = e)" for q x by auto
  have "raw_node ?P (?P ! j) (ac_nodes ?ac ! j) \<and> ac_fail (ac_nodes ?ac ! j) = 0" if "j < length ?P" for j
  proof -
    consider "j = length P" | "j = k" "j < length P" | "j \<noteq> k" "j < length P" using \<open>j < length ?P\<close> by (auto simp: less_Suc_eq)
    then show ?thesis
    proof cases
      case 1
      then show ?thesis using nd [of j] leaf by (auto simp: raw_node_def new_acNode_def nth_append)
    next
      case 2
      then show ?thesis using nd [of j] raw [of k] same i new k e
        by (auto simp: raw_node_def nth_append nth_list_update idx_append)
    next
      case 3
      then have "P ! j \<noteq> P ! k" using P k by (auto simp: paths_ok_def nth_eq_iff_index_eq)
      then show ?thesis using nd [of j] raw [of j] same 3
        by (auto simp: raw_node_def nth_append idx_append)
    qed
  qed
  then show ?thesis using P' R' by (simp add: trie_ok_def)
qed

lemma addPattern_loop_ok:
  assumes "trie_ok P R ac" and "k < length P"
  shows "\<exists>ac' k' Q. addPattern_loop ac k cs = (ac', k') \<and> trie_ok (P @ Q) R ac' \<and> k' < length (P @ Q) \<and>
     (P @ Q) ! k' = P ! k @ map acCharset cs"
  using assms
proof (induction cs arbitrary: P ac k)
  case Nil
  then show ?case by (auto intro!: exI [of _ "[]"])
next
  case (Cons c cs)
  let ?e = "acCharset c" and ?nd = "ac_nodes ac ! k"
  have raw: "raw_node P (P ! k) ?nd" and P: "paths_ok P" and n: "length (ac_nodes ac) = length P"
    using Cons.prems by (auto simp: trie_ok_def regs_ok_def)
  show ?case
  proof (cases "P ! k @ [?e] \<in> set P")
    case True
    then have j: "ac_next ?nd ! ?e = idx P (P ! k @ [?e])" "idx P (P ! k @ [?e]) \<noteq> 0"
      using raw acCharset_less [of c] idx_eq_0 [OF P True] by (auto simp: raw_node_def)
    show ?thesis using Cons.IH [OF Cons.prems(1), of "idx P (P ! k @ [?e])"] idx_in [OF True] j by auto
  next
    case False
    then have j: "ac_next ?nd ! ?e = 0" using raw acCharset_less [of c] by (auto simp: raw_node_def)
    let ?P = "P @ [P ! k @ [?e]]"
    obtain ac' k' Q where "addPattern_loop ac k (c # cs) = (ac', k')" "trie_ok (?P @ Q) R ac'" "k' < length (?P @ Q)"
      "(?P @ Q) ! k' = ?P ! length P @ map acCharset cs"
      using Cons.IH [OF add_edge [OF Cons.prems acCharset_less False], of "length P"] j n
      by (auto simp: addNode_def Let_def)
    then show ?thesis by (intro exI [of _ ac'] exI [of _ k'] exI [of _ "(P ! k @ [?e]) # Q"]) simp
  qed
qed

lemma type_cases: "t \<in> {Full, Domain, Substr} \<Longrightarrow> unat t < 3" "Full \<noteq> Domain" "Full \<noteq> Substr" "Domain \<noteq> Substr"
  by (auto simp: Full_def Domain_def Substr_def)

lemma regs_entry:
  assumes R: "regs_ok P R ac" and P: "distinct P" and k: "k < length P" and t: "t \<in> {Full, Domain, Substr}"
    and nodes: "length nodes = length P" "\<And>j. j < length P \<Longrightarrow> ac_match (nodes ! j) = (if j = k then m else ac_match (ac_nodes ac ! j))"
    and m: "m \<noteq> 0" "m < length values" "m = ac_match (ac_nodes ac ! k) \<or> m = length (ac_values ac) \<and> ac_match (ac_nodes ac ! k) = 0"
    and tab: "\<And>i. i < length values \<Longrightarrow> i \<noteq> m \<Longrightarrow> i < length (ac_values ac) \<and> values ! i = ac_values ac ! i" "length (ac_values ac) \<le> length values"
    and entry: "length (values ! m) = 3" "\<And>u. u \<in> {Full, Domain, Substr} \<Longrightarrow> values ! m ! unat u = R (P ! k) u @ (if u = t then [v] else [])"
  shows "regs_ok P (register (P ! k) t v R) \<lparr>ac_nodes = nodes, ac_values = values\<rparr>"
proof -
  let ?ac = "\<lparr>ac_nodes = nodes, ac_values = values\<rparr>" and ?R = "register (P ! k) t v R"
  have other: "P ! j \<noteq> P ! k" if "j < length P" "j \<noteq> k" for j using P k that by (simp add: nth_eq_iff_index_eq)
  have free: "ac_match (ac_nodes ac ! j) \<noteq> m" if "j < length P" "j \<noteq> k" for j
    using m R k that unfolding regs_ok_def Let_def by (metis less_irrefl)
  have one: "let i = ac_match (nodes ! j) in i < length values \<and>
      (if i = 0 then \<forall>u. ?R (P ! j) u = []
       else (\<forall>u \<in> {Full, Domain, Substr}. vals ?ac i u = ?R (P ! j) u) \<and> (\<exists>u \<in> {Full, Domain, Substr}. ?R (P ! j) u \<noteq> []) \<and>
         (\<forall>l < length P. ac_match (nodes ! l) = i \<longrightarrow> l = j))" if j: "j < length P" for j
  proof (cases "j = k")
    case True
    have "?R (P ! k) t \<noteq> []" by (simp add: register_def)
    then show ?thesis using True m k t nodes(2) free entry by (auto simp: vals_def register_def)
  next
    case False
    let ?i = "ac_match (ac_nodes ac ! j)"
    have i: "?i < length (ac_values ac)" "?i \<noteq> m" using R j free [OF j False] by (auto simp: regs_ok_def Let_def)
    have "values ! ?i = ac_values ac ! ?i" using tab i by auto
    then have "vals ?ac ?i u = vals ac ?i u" for u by (simp add: vals_def)
    then show ?thesis using R j False other [OF j False] nodes(2) tab(2) i m(1)
      unfolding regs_ok_def by (auto simp: register_def Let_def)
  qed
  have three: "length (values ! i) = 3" if "i < length values" for i
    using that tab(1) [OF that] entry(1) R by (cases "i = m") (auto simp: regs_ok_def)
  have none: "p \<notin> set P \<Longrightarrow> ?R p u = []" for p u using R k by (auto simp: register_def regs_ok_def)
  have "values \<noteq> []" using m(2) by auto
  then show ?thesis using nodes(1) one three none
    unfolding regs_ok_def ACAutomatonMatcherGroup.select_convs by blast
qed

lemma addPattern_ok:
  assumes "trie_ok P R ac" and "k < length P" and t: "t \<in> {Full, Domain, Substr}"
  shows "\<exists>ac' k' Q. addPattern k s t v ac = (ac', k') \<and> trie_ok (P @ Q) (register (P ! k @ enc s) t v R) ac' \<and>
     k' < length (P @ Q) \<and> (P @ Q) ! k' = P ! k @ enc s"
proof -
  obtain ac1 k' Q where l: "addPattern_loop ac k (rev s) = (ac1, k')" and ok: "trie_ok (P @ Q) R ac1"
    and k': "k' < length (P @ Q)" "(P @ Q) ! k' = P ! k @ enc s"
    using addPattern_loop_ok [OF assms(1,2), of "rev s"] unfolding enc_def by blast
  let ?P = "P @ Q" and ?nd = "ac_nodes ac1 ! k'" and ?u = "unat t"
  have R: "regs_ok ?P R ac1" and d: "distinct ?P" and n: "length (ac_nodes ac1) = length ?P" and vs: "ac_values ac1 \<noteq> []"
    using ok by (auto simp: trie_ok_def paths_ok_def regs_ok_def)
  show ?thesis
  proof (cases "ac_match ?nd = 0")
    case True
    let ?m = "length (ac_values ac1)" let ?nodes = "(ac_nodes ac1)[k' := ?nd\<lparr>ac_match := ?m\<rparr>]"
    let ?vals = "ac_values ac1 @ [[[], [], []][?u := [v]]]"
    have r: "R (?P ! k') u = []" for u using R k'(1) True by (auto simp: regs_ok_def Let_def)
    have "addPattern k s t v ac = (\<lparr>ac_nodes = ?nodes, ac_values = ?vals\<rparr>, k')"
      using True l k'(1) n t by (auto simp: addPattern_def addMatchEntry_def Let_def Full_def Domain_def Substr_def)
    moreover have "regs_ok ?P (register (?P ! k') t v R) \<lparr>ac_nodes = ?nodes, ac_values = ?vals\<rparr>"
    proof (rule regs_entry [OF R d k'(1) t, where m = ?m])
      fix u assume "u \<in> {Full, Domain, Substr}"
      then show "?vals ! ?m ! unat u = R (?P ! k') u @ (if u = t then [v] else [])"
        using t by (auto simp: r Full_def Domain_def Substr_def)
    next
      show "length (?vals ! ?m) = 3" by (simp del: list_update.simps)
    qed (use n True vs in \<open>auto simp: nth_append nth_list_update\<close>)
    moreover have "trie_ok ?P (register (?P ! k') t v R) \<lparr>ac_nodes = ?nodes, ac_values = ?vals\<rparr>"
      using ok calculation(2) n k'(1) by (auto simp: trie_ok_def nth_list_update)
    ultimately show ?thesis using k' by auto
  next
    case False
    let ?m = "ac_match ?nd"
    let ?entry = "ac_values ac1 ! ?m" let ?vals = "(ac_values ac1)[?m := ?entry[?u := ?entry ! ?u @ [v]]]"
    have m: "?m < length (ac_values ac1)" "length ?entry = 3" "\<And>u. u \<in> {Full, Domain, Substr} \<Longrightarrow> ?entry ! unat u = R (?P ! k') u"
      using R k'(1) False by (auto simp: regs_ok_def Let_def vals_def)
    have "addPattern k s t v ac = (\<lparr>ac_nodes = ac_nodes ac1, ac_values = ?vals\<rparr>, k')"
      using False l by (simp add: addPattern_def Let_def)
    moreover have "regs_ok ?P (register (?P ! k') t v R) \<lparr>ac_nodes = ac_nodes ac1, ac_values = ?vals\<rparr>"
    proof (rule regs_entry [OF R d k'(1) t, where m = ?m])
      fix u assume u: "u \<in> {Full, Domain, Substr}"
      then have "unat u = unat t \<longleftrightarrow> u = t" by (simp add: word_unat_eq_iff)
      then show "?vals ! ?m ! unat u = R (?P ! k') u @ (if u = t then [v] else [])"
        using m u t type_cases(1) [OF t] by (auto simp: nth_list_update)
    qed (use n False m in \<open>auto simp: nth_list_update\<close>)
    moreover have "trie_ok ?P (register (?P ! k') t v R) \<lparr>ac_nodes = ac_nodes ac1, ac_values = ?vals\<rparr>"
      using ok calculation(2) by (auto simp: trie_ok_def)
    ultimately show ?thesis using k' by auto
  qed
qed

section \<open>Building\<close>

definition sub :: "(nat list \<Rightarrow> byte \<Rightarrow> u32 list) \<Rightarrow> nat list \<Rightarrow> bool" where
  "sub R q \<longleftrightarrow> R q Substr \<noteq> []"

text \<open>The next keyword on the fail path, or the root.\<close>

definition link :: "(nat list \<Rightarrow> byte \<Rightarrow> u32 list) \<Rightarrow> nat list \<Rightarrow> nat list" where
  "link R p = (case filter (sub R) (tsuf p) of [] \<Rightarrow> [] | q # _ \<Rightarrow> q)"

definition built_node :: "nat list list \<Rightarrow> nat list \<Rightarrow> acNode \<Rightarrow> bool" where
  "built_node P p nd \<longleftrightarrow> length (ac_next nd) = acValidCharCount \<and> length (ac_edge nd) = acValidCharCount \<and>
     (\<forall>e < acValidCharCount. ac_next nd ! e = idx P (lsuf (set P) (p @ [e])) \<and>
        ac_edge nd ! e = (if p @ [e] \<in> set P then acTrieEdge else acFailEdge))"

definition linked :: "nat list list \<Rightarrow> (nat list \<Rightarrow> byte \<Rightarrow> u32 list) \<Rightarrow> ACAutomatonMatcherGroup \<Rightarrow> nat list \<Rightarrow> nat \<Rightarrow> bool" where
  "linked P R ac fail k \<longleftrightarrow> fail ! k = idx P (lsuf (set P) (tl (P ! k))) \<and> ac_fail (ac_nodes ac ! k) = idx P (link R (P ! k))"

text \<open>The state of the walk: \<open>D\<close> are the nodes taken from the queue.\<close>

definition build_inv ::
  "nat list list \<Rightarrow> (nat list \<Rightarrow> byte \<Rightarrow> u32 list) \<Rightarrow> nat set \<Rightarrow> ACAutomatonMatcherGroup \<times> nat list \<times> nat list \<Rightarrow> bool" where
  "build_inv P R D = (\<lambda>(ac, fail, queue). regs_ok P R ac \<and> length fail = length P \<and>
     D \<subseteq> {..<length P} \<and> 0 \<in> D \<and> set queue \<subseteq> {..<length P} \<and> distinct queue \<and> set queue \<inter> D = {} \<and>
     (\<forall>k < length P. if k \<in> D then built_node P (P ! k) (ac_nodes ac ! k) else raw_node P (P ! k) (ac_nodes ac ! k)) \<and>
     (\<forall>k \<in> D \<union> set queue. linked P R ac fail k) \<and>
     (\<forall>k < length P. k \<noteq> 0 \<longrightarrow> (k \<in> D \<union> set queue \<longleftrightarrow> idx P (butlast (P ! k)) \<in> D)) \<and>
     sorted (map (\<lambda>k. length (P ! k)) queue) \<and>
     (\<forall>k \<in> set queue. length (P ! k) \<le> length (P ! hd queue) + 1))"

lemma path_cases:
  assumes "paths_ok P" and "k < length P" and "k \<noteq> 0"
  obtains p e where "P ! k = p @ [e]" "p \<in> set P" "e < acValidCharCount" "idx P (butlast (P ! k)) = idx P p"
proof -
  have "P ! k \<noteq> []" using assms by (metis gr0I length_pos_if_in_set nth_eq_iff_index_eq nth_mem paths_ok_def)
  then obtain p e where pe: "P ! k = p @ [e]" by (metis rev_exhaust)
  moreover have "P ! k \<in> set P" using assms(2) by simp
  ultimately have "p \<in> set P" "e < acValidCharCount" using assms(1) unfolding paths_ok_def prefix_closed_def
    by (metis, metis in_set_conv_decomp)
  then show ?thesis using that pe by simp
qed

lemma waiting_depth:
  assumes P: "paths_ok P" and inv: "build_inv P R D (ac, fail, queue)" and j: "j < length P" "j \<notin> D"
  shows "queue \<noteq> [] \<and> length (P ! hd queue) \<le> length (P ! j)"
  using j
proof (induction "length (P ! j)" arbitrary: j rule: less_induct)
  case less
  have "j \<noteq> 0" using less.prems(2) inv by (auto simp: build_inv_def)
  then obtain p e where p: "P ! j = p @ [e]" "p \<in> set P" "idx P (butlast (P ! j)) = idx P p"
    using path_cases [OF P less.prems(1)] by metis
  show ?case
  proof (cases "idx P p \<in> D")
    case True
    then have "j \<in> set queue" using inv less.prems \<open>j \<noteq> 0\<close> p(3) by (auto simp: build_inv_def)
    then show ?thesis using inv by (cases queue) (auto simp: build_inv_def)
  next
    case False
    then show ?thesis using less.hyps [of "idx P p"] idx_in [OF p(2)] p(1) by auto
  qed
qed

lemma regs_cong:
  assumes "regs_ok P R ac" and "length (ac_nodes ac') = length (ac_nodes ac)" and "ac_values ac' = ac_values ac"
    and "\<And>k. k < length (ac_nodes ac) \<Longrightarrow> ac_match (ac_nodes ac' ! k) = ac_match (ac_nodes ac ! k)"
  shows "regs_ok P R ac'"
proof -
  have "vals ac' m t = vals ac m t" for m t using assms(3) by (simp add: vals_def)
  then show ?thesis using assms unfolding regs_ok_def Let_def by auto
qed

lemma regs_match:
  assumes "regs_ok P R ac" and "k < length P"
  defines "m \<equiv> ac_match (ac_nodes ac ! k)"
  shows "t \<in> {Full, Domain, Substr} \<Longrightarrow> m \<noteq> 0 \<and> vals ac m t \<noteq> [] \<longleftrightarrow> R (P ! k) t \<noteq> []"
    and "m \<noteq> 0 \<Longrightarrow> t \<in> {Full, Domain, Substr} \<Longrightarrow> vals ac m t = R (P ! k) t"
    and "m \<noteq> 0 \<longleftrightarrow> (\<exists>t \<in> {Full, Domain, Substr}. R (P ! k) t \<noteq> [])"
proof -
  have "if m = 0 then \<forall>t. R (P ! k) t = []
      else (\<forall>t \<in> {Full, Domain, Substr}. vals ac m t = R (P ! k) t) \<and> (\<exists>t \<in> {Full, Domain, Substr}. R (P ! k) t \<noteq> [])"
    using assms(1,2) unfolding m_def regs_ok_def Let_def by (auto split: if_splits)
  then show "t \<in> {Full, Domain, Substr} \<Longrightarrow> m \<noteq> 0 \<and> vals ac m t \<noteq> [] \<longleftrightarrow> R (P ! k) t \<noteq> []"
    and "m \<noteq> 0 \<Longrightarrow> t \<in> {Full, Domain, Substr} \<Longrightarrow> vals ac m t = R (P ! k) t"
    and "m \<noteq> 0 \<longleftrightarrow> (\<exists>t \<in> {Full, Domain, Substr}. R (P ! k) t \<noteq> [])"
    by (auto split: if_splits)
qed

end
