(* ===== verification/Ac_Build.thy ===== *)
theory Ac_Build
  imports Ac_Correct
begin

text \<open>
  Building the keyword automaton: the walk over the queue ends, and gives every node the edges to the
  longest suffix that is a path and the link to the next keyword on its fail path.
\<close>

section \<open>The edges of one node\<close>

definition children :: "nat list list \<Rightarrow> nat list \<Rightarrow> nat \<Rightarrow> nat list" where
  "children P p m = map (\<lambda>e. idx P (p @ [e])) (filter (\<lambda>e. p @ [e] \<in> set P) [0..<m])"

text \<open>The state after \<open>m\<close> edges of the node \<open>k\<close>, whose path is \<open>p\<close>, compared with the state before.\<close>

definition edge_inv ::
  "nat list list \<Rightarrow> (nat list \<Rightarrow> byte \<Rightarrow> u32 list) \<Rightarrow> ACAutomatonMatcherGroup \<times> nat list \<times> nat list \<Rightarrow> nat \<Rightarrow> nat \<Rightarrow>
   ACAutomatonMatcherGroup \<times> nat list \<times> nat list \<Rightarrow> bool" where
  "edge_inv P R = (\<lambda>(ac, fail, rest) k m (ac', fail', queue'). let p = P ! k; C = children P p m; nd = ac_nodes ac' ! k in
     regs_ok P R ac' \<and> length fail' = length P \<and> queue' = rest @ C \<and>
     (\<forall>j < length P. j \<noteq> k \<longrightarrow> ac_next (ac_nodes ac' ! j) = ac_next (ac_nodes ac ! j) \<and> ac_edge (ac_nodes ac' ! j) = ac_edge (ac_nodes ac ! j)) \<and>
     length (ac_next nd) = acValidCharCount \<and> length (ac_edge nd) = acValidCharCount \<and>
     (\<forall>e < acValidCharCount. ac_next nd ! e = (if e < m \<or> p @ [e] \<in> set P then idx P (lsuf (set P) (p @ [e])) else 0) \<and>
        ac_edge nd ! e = (if p @ [e] \<in> set P then acTrieEdge else acFailEdge)) \<and>
     (\<forall>j < length P. if j \<in> set C then linked P R ac' fail' j
        else fail' ! j = fail ! j \<and> ac_fail (ac_nodes ac' ! j) = ac_fail (ac_nodes ac ! j)))"

lemma children_Suc: "children P p (Suc m) = children P p m @ (if p @ [m] \<in> set P then [idx P (p @ [m])] else [])"
  by (simp add: children_def)

lemma children_depth: "j \<in> set (children P p m) \<Longrightarrow> j < length P \<and> (\<exists>e < m. P ! j = p @ [e] \<and> p @ [e] \<in> set P)"
  using idx_in by (fastforce simp: children_def)

lemma link_step:
  assumes "prefix_closed (set P)" and "\<And>q. q \<notin> set P \<Longrightarrow> R q Substr = []" and "R [] Substr = []" and "w \<noteq> []"
  defines "g \<equiv> lsuf (set P) (tl w)"
  shows "link R w = (if sub R g then g else link R g)"
proof -
  have "filter (sub R) (tsuf w) = (if g \<noteq> [] \<and> sub R g then g # filter (sub R) (tsuf g) else filter (sub R) (tsuf g))"
    unfolding g_def using assms by (intro filter_tsuf) (auto simp: sub_def)
  moreover have "sub R g \<Longrightarrow> g \<noteq> []" using assms(3) by (auto simp: sub_def)
  ultimately show ?thesis by (auto simp: link_def)
qed

lemma build_edge_inv:
  assumes P: "paths_ok P" and R: "\<And>q. q \<notin> set P \<Longrightarrow> R q Substr = []" "R [] Substr = []"
    and k: "k < length P" "k \<noteq> 0" and m: "m < acValidCharCount"
    and inv: "edge_inv P R (ac, fail, rest) k m (ac', fail', queue')"
    and f: "f < length P" "f \<noteq> k" "P ! f = lsuf (set P) (tl (P ! k))" "built_node P (P ! f) (ac_nodes ac ! f)"
    and low: "\<And>j. j < length P \<Longrightarrow> length (P ! j) \<le> length (P ! k) \<Longrightarrow> ac_fail (ac_nodes ac ! j) = idx P (link R (P ! j))"
  shows "edge_inv P R (ac, fail, rest) k (Suc m) (build_edge k f m (ac', fail', queue'))"
proof -
  let ?p = "P ! k" and ?nodes = "ac_nodes ac'" and ?C = "children P (P ! k) m"
  have regs: "regs_ok P R ac'" and n: "length ?nodes = length P" "length fail' = length P" and q: "queue' = rest @ ?C"
    using inv by (auto simp: edge_inv_def regs_ok_def Let_def)
  have S: "prefix_closed (set P)" and d: "distinct P" using P by (auto simp: paths_ok_def)
  have p: "?p \<noteq> []" using k P path_cases [OF P k] by force
  let ?g = "lsuf (set P) (tl (?p @ [m]))"
  have g: "?g \<in> set P" using S by (simp add: lsuf_in)
  have fm: "ac_next (?nodes ! f) ! m = idx P (lsuf (set P) (P ! f @ [m]))"
    using inv f m by (auto simp: edge_inv_def built_node_def Let_def)
  have gl: "length ?g \<le> length ?p" using length_lsuf_le [of "set P" "tl (?p @ [m])"] p by (cases ?p) auto
  have notC: "j \<notin> set ?C" if "length (P ! j) \<le> length ?p" for j using children_depth [of j P ?p m] that by auto
  show ?thesis
  proof (cases "?p @ [m] \<in> set P")
    case True
    let ?c = "idx P (?p @ [m])"
    note c = idx_in [OF True]
    have cm: "ac_next (?nodes ! k) ! m = ?c" "?c \<noteq> 0"
      using inv m True lsuf_self [OF True] idx_eq_0 [OF P True] by (auto simp: edge_inv_def Let_def)
    have fg: "lsuf (set P) (P ! f @ [m]) = ?g" using lsuf_via_fail(1) [OF S p] f(3) by simp
    have gi: "idx P ?g < length P" "P ! idx P ?g = ?g" using idx_in [OF g] by auto
    have "ac_fail (?nodes ! idx P ?g) = ac_fail (ac_nodes ac ! idx P ?g)"
      using inv gi notC [of "idx P ?g"] gl by (auto simp: edge_inv_def Let_def)
    then have gf: "ac_fail (?nodes ! idx P ?g) = idx P (link R ?g)" using low [OF gi(1)] gi(2) gl by simp
    let ?m = "ac_match (?nodes ! idx P ?g)"
    have "?m \<noteq> 0 \<and> vals ac' ?m Substr \<noteq> [] \<longleftrightarrow> sub R ?g"
      using regs_match(1) [OF regs gi(1), of Substr] gi(2) by (simp add: sub_def)
    then have lk: "(if ?m \<noteq> 0 \<and> vals ac' ?m Substr \<noteq> [] then idx P ?g else ac_fail (?nodes ! idx P ?g)) = idx P (link R (?p @ [m]))"
      using link_step [of P R "?p @ [m]", OF S R(1) R(2)] gf by simp
    let ?ac = "ac'\<lparr>ac_nodes := ?nodes[?c := (?nodes ! ?c)\<lparr>ac_fail := idx P (link R (?p @ [m]))\<rparr>]\<rparr>"
    have b: "build_edge k f m (ac', fail', queue') = (?ac, fail'[?c := idx P ?g], queue' @ [?c])"
      unfolding build_edge_def prod.case Let_def cm(1) fm fg lk using cm(2) by simp
    have ck: "?c \<noteq> k" using c by auto
    have "regs_ok P R ?ac" by (rule regs_cong [OF regs]) (auto simp: nth_list_update n c)
    moreover have lc: "linked P R ?ac (fail'[?c := idx P ?g]) ?c" using c n by (simp add: linked_def)
    moreover have "linked P R ?ac (fail'[?c := idx P ?g]) j" if "linked P R ac' fail' j" for j
      using that lc by (cases "j = ?c") (simp_all add: linked_def)
    ultimately show ?thesis unfolding b using inv q n ck c True children_Suc [of P ?p m] lsuf_self [OF True]
      unfolding edge_inv_def Let_def by (auto simp: nth_list_update less_Suc_eq)
  next
    case False
    have cm: "ac_next (?nodes ! k) ! m = 0" using inv m False by (auto simp: edge_inv_def Let_def)
    have fg: "lsuf (set P) (P ! f @ [m]) = lsuf (set P) (?p @ [m])" using lsuf_via_fail(2) [OF S p False] f(3) by simp
    let ?nd = "(?nodes ! k)\<lparr>ac_next := (ac_next (?nodes ! k))[m := idx P (lsuf (set P) (?p @ [m]))],
      ac_edge := (ac_edge (?nodes ! k))[m := acFailEdge]\<rparr>"
    let ?ac = "ac'\<lparr>ac_nodes := ?nodes[k := ?nd]\<rparr>"
    have b: "build_edge k f m (ac', fail', queue') = (?ac, fail', queue')"
      using cm fm fg by (simp add: build_edge_def Let_def)
    have "regs_ok P R ?ac" by (rule regs_cong [OF regs]) (auto simp: nth_list_update n k)
    moreover have "linked P R ?ac fail' j = linked P R ac' fail' j" if "j < length P" for j
      using that n k by (simp add: linked_def nth_list_update)
    ultimately show ?thesis unfolding b using inv q n k False children_Suc [of P ?p m]
      unfolding edge_inv_def Let_def by (auto simp: nth_list_update less_Suc_eq)
  qed
qed

section \<open>The walk\<close>

text \<open>The invariant gives what the node at the front of the queue needs.\<close>

lemma front_facts:
  assumes P: "paths_ok P" and inv: "build_inv P R D (ac, fail, k # rest)"
  defines "f \<equiv> fail ! k"
  shows "k < length P" "k \<noteq> 0" "k \<notin> D" "f < length P" "f \<in> D" "P ! f = lsuf (set P) (tl (P ! k))" "built_node P (P ! f) (ac_nodes ac ! f)"
    and "\<And>j. j < length P \<Longrightarrow> length (P ! j) \<le> length (P ! k) \<Longrightarrow> ac_fail (ac_nodes ac ! j) = idx P (link R (P ! j))"
    and "edge_inv P R (ac, fail, rest) k 0 (ac, fail, rest)"
proof -
  have S: "prefix_closed (set P)" using P by (simp add: paths_ok_def)
  show k: "k < length P" "k \<notin> D" "k \<noteq> 0" using inv by (auto simp: build_inv_def)
  have f: "f = idx P (lsuf (set P) (tl (P ! k)))" using inv by (simp add: build_inv_def linked_def f_def)
  have g: "lsuf (set P) (tl (P ! k)) \<in> set P" using S by (simp add: lsuf_in)
  show fl: "f < length P" "P ! f = lsuf (set P) (tl (P ! k))" using idx_in [OF g] f by auto
  have "P ! k \<noteq> []" using path_cases [OF P k(1,3)] by (metis append_is_Nil_conv list.distinct(1))
  then have "length (P ! f) < length (P ! k)" using fl(2) length_lsuf_le [of "set P" "tl (P ! k)"] by (cases "P ! k") auto
  then show "f \<in> D" using waiting_depth [OF P inv fl(1)] by fastforce
  then show "built_node P (P ! f) (ac_nodes ac ! f)" using inv fl(1) by (auto simp: build_inv_def)
  show "ac_fail (ac_nodes ac ! j) = idx P (link R (P ! j))" if j: "j < length P" "length (P ! j) \<le> length (P ! k)" for j
  proof -
    have "j \<in> D \<union> set (k # rest)"
    proof (cases "j = 0")
      case False
      obtain q e where q: "P ! j = q @ [e]" "q \<in> set P" "idx P (butlast (P ! j)) = idx P q" using path_cases [OF P j(1) False] by metis
      have "length (P ! idx P q) < length (P ! k)" using idx_in [OF q(2)] q(1) j(2) by simp
      then have "idx P q \<in> D" using waiting_depth [OF P inv, of "idx P q"] idx_in [OF q(2)] by fastforce
      then show ?thesis using inv j(1) False q(3) by (auto simp: build_inv_def)
    qed (use inv in \<open>auto simp: build_inv_def\<close>)
    then show ?thesis using inv unfolding build_inv_def linked_def by blast
  qed
  have "raw_node P (P ! k) (ac_nodes ac ! k)" "regs_ok P R ac" "length fail = length P" using inv k by (auto simp: build_inv_def)
  then show "edge_inv P R (ac, fail, rest) k 0 (ac, fail, rest)"
    by (auto simp: edge_inv_def children_def raw_node_def Let_def lsuf_self)
qed

lemma build_node_edges:
  assumes P: "paths_ok P" and R: "\<And>q. q \<notin> set P \<Longrightarrow> R q Substr = []" "R [] Substr = []"
    and inv: "build_inv P R D (ac, fail, k # rest)"
  shows "edge_inv P R (ac, fail, rest) k acValidCharCount (build_node k (ac, fail, rest))"
proof -
  note f = front_facts [OF P inv]
  have "f \<le> acValidCharCount \<Longrightarrow> edge_inv P R (ac, fail, rest) k f (fold (build_edge k (fail ! k)) [0..<f] (ac, fail, rest))" for f
  proof (induction f)
    case (Suc m)
    obtain ac' fail' queue' where st: "fold (build_edge k (fail ! k)) [0..<m] (ac, fail, rest) = (ac', fail', queue')"
      by (metis prod_cases3)
    have "edge_inv P R (ac, fail, rest) k (Suc m) (build_edge k (fail ! k) m (ac', fail', queue'))"
    proof (rule build_edge_inv [where P = P and R = R, OF P _ R(2) f(1,2) _ _ f(4) _ f(6,7)])
      show "edge_inv P R (ac, fail, rest) k m (ac', fail', queue')" using Suc st by simp
    qed (use R(1) Suc.prems f(3,5,8) in auto)
    then show ?case using st by simp
  qed (use f(9) in simp)
  then show ?thesis by (simp add: build_node_def)
qed

lemma children_all:
  assumes "paths_ok P" and "j < length P"
  shows "j \<in> set (children P p acValidCharCount) \<longleftrightarrow> (\<exists>e. P ! j = p @ [e])"
proof
  assume "\<exists>e. P ! j = p @ [e]"
  then obtain e where e: "P ! j = p @ [e]" by blast
  have "P ! j \<in> set P" using assms(2) by simp
  then have "e < acValidCharCount" using assms(1) e unfolding paths_ok_def by (metis in_set_conv_decomp)
  moreover have "idx P (p @ [e]) = j" using idx_nth [of P j] assms e by (simp add: paths_ok_def)
  ultimately show "j \<in> set (children P p acValidCharCount)"
    using \<open>P ! j \<in> set P\<close> e by (auto simp: children_def image_iff intro!: bexI [of _ e])
qed (use children_depth in blast)

lemma distinct_children: "distinct (children P p m)"
proof -
  have "inj_on (\<lambda>e. idx P (p @ [e])) (set (filter (\<lambda>e. p @ [e] \<in> set P) [0..<m]))"
    by (rule inj_onI) (metis (mono_tags, lifting) append1_eq_conv idx_in mem_Collect_eq set_filter)
  then show ?thesis by (simp add: children_def distinct_map)
qed

lemma build_node_inv:
  assumes P: "paths_ok P" and R: "\<And>q. q \<notin> set P \<Longrightarrow> R q Substr = []" "R [] Substr = []"
    and inv: "build_inv P R D (ac, fail, k # rest)"
  shows "build_inv P R (insert k D) (build_node k (ac, fail, rest))"
proof -
  note f = front_facts [OF P inv]
  obtain ac' fail' queue' where st: "build_node k (ac, fail, rest) = (ac', fail', queue')" by (metis prod_cases3)
  let ?C = "children P (P ! k) acValidCharCount"
  have e: "edge_inv P R (ac, fail, rest) k acValidCharCount (ac', fail', queue')"
    using build_node_edges [OF P _ R(2) inv] R(1) st by metis
  have q: "queue' = rest @ ?C" using e by (simp add: edge_inv_def Let_def)
  have C: "j \<in> set ?C \<longleftrightarrow> (\<exists>x. P ! j = P ! k @ [x])" if "j < length P" for j by (rule children_all [OF P that])
  have Cl: "set ?C \<subseteq> {..<length P}" using children_depth by blast
  have par: "j \<in> D \<union> set (k # rest) \<longleftrightarrow> idx P (butlast (P ! j)) \<in> D" if "j < length P" "j \<noteq> 0" for j
    using inv that by (auto simp: build_inv_def)
  have d: "distinct P" "P ! 0 = []" using P by (auto simp: paths_ok_def)
  have fresh: "j \<notin> D \<union> set (k # rest)" "j \<noteq> 0" if c: "j \<in> set ?C" for j
  proof -
    obtain x where j: "j < length P" "P ! j = P ! k @ [x]" using children_depth [OF c] by blast
    show "j \<noteq> 0" using j d(2) by (metis append_is_Nil_conv list.distinct(1))
    then show "j \<notin> D \<union> set (k # rest)" using par [OF j(1)] j(2) idx_nth [OF d(1) f(1)] f(3) by simp
  qed
  have parent: "j \<in> insert k D \<union> set queue' \<longleftrightarrow> idx P (butlast (P ! j)) \<in> insert k D" if j: "j < length P" "j \<noteq> 0" for j
  proof -
    obtain p x where p: "P ! j = p @ [x]" "p \<in> set P" "idx P (butlast (P ! j)) = idx P p" using path_cases [OF P j] by metis
    have "j \<in> set ?C \<longleftrightarrow> idx P p = k"
      using C [OF j(1)] p(1) idx_in [OF p(2)] idx_nth [OF d(1) f(1)] by auto
    then show ?thesis using par [OF j] p(3) q by auto
  qed
  have nodes: "if j \<in> insert k D then built_node P (P ! j) (ac_nodes ac' ! j) else raw_node P (P ! j) (ac_nodes ac' ! j)" if "j < length P" for j
  proof (cases "j = k")
    case True
    then show ?thesis using e unfolding edge_inv_def built_node_def Let_def by auto
  next
    case False
    then show ?thesis using e inv that unfolding edge_inv_def built_node_def raw_node_def build_inv_def Let_def by auto
  qed
  have lk: "linked P R ac' fail' j" if "j \<in> insert k D \<union> set queue'" for j
  proof (cases "j \<in> set ?C")
    case True
    then have "j < length P" using Cl by auto
    then show ?thesis using e True unfolding edge_inv_def Let_def by auto
  next
    case False
    then have j: "j \<in> D \<union> set (k # rest)" using that q by auto
    then have "j < length P" "linked P R ac fail j" using inv unfolding build_inv_def by auto
    then show ?thesis using e False unfolding edge_inv_def Let_def linked_def by auto
  qed
  have deep: "length (P ! j) = length (P ! k) + 1" if "j \<in> set ?C" for j using children_depth [OF that] by auto
  have near: "length (P ! k) \<le> length (P ! j) \<and> length (P ! j) \<le> length (P ! k) + 1" if "j \<in> set rest" for j
    using inv that by (auto simp: build_inv_def)
  have sorted: "sorted (map (\<lambda>k. length (P ! k)) queue')"
  proof -
    have "sorted (map (\<lambda>k. length (P ! k)) rest)" using inv by (auto simp: build_inv_def)
    moreover have "map (\<lambda>k. length (P ! k)) ?C = replicate (length ?C) (length (P ! k) + 1)" using deep by (auto intro: replicate_eqI)
    ultimately show ?thesis using near by (auto simp: q sorted_append)
  qed
  have hd: "\<forall>j \<in> set queue'. length (P ! j) \<le> length (P ! hd queue') + 1"
  proof (cases queue')
    case (Cons a as)
    then have "a \<in> set rest \<union> set ?C" using q by (metis list.set_intros(1) set_append)
    then have "length (P ! k) \<le> length (P ! a)" using near deep by fastforce
    moreover have "\<forall>j \<in> set queue'. length (P ! j) \<le> length (P ! k) + 1" using near deep q by auto
    ultimately show ?thesis using Cons by fastforce
  qed simp
  have "distinct queue'" "set queue' \<inter> insert k D = {}" "set queue' \<subseteq> {..<length P}"
    using inv fresh distinct_children [of P "P ! k" acValidCharCount] Cl f(3) unfolding q build_inv_def by auto
  moreover have "regs_ok P R ac'" "length fail' = length P" using e by (auto simp: edge_inv_def Let_def)
  moreover have "insert k D \<subseteq> {..<length P}" "0 \<in> insert k D" using inv f(1) by (auto simp: build_inv_def)
  ultimately show ?thesis unfolding st build_inv_def prod.case using nodes lk parent sorted hd by blast
qed

section \<open>The built automaton\<close>

definition built_ok :: "nat list list \<Rightarrow> (nat list \<Rightarrow> byte \<Rightarrow> u32 list) \<Rightarrow> ACAutomatonMatcherGroup \<Rightarrow> bool" where
  "built_ok P R ac \<longleftrightarrow> paths_ok P \<and> regs_ok P R ac \<and>
     (\<forall>k < length P. built_node P (P ! k) (ac_nodes ac ! k) \<and> ac_fail (ac_nodes ac ! k) = idx P (link R (P ! k)))"

lemma Build_loop_ok:
  assumes P: "paths_ok P" and R: "\<And>q. q \<notin> set P \<Longrightarrow> R q Substr = []" "R [] Substr = []"
    and inv: "build_inv P R D (ac, fail, queue)"
  shows "\<exists>ac'. Build_loop (ac, fail, queue) = Some ac' \<and> built_ok P R ac'"
  using inv
proof (induction "length P - card D" arbitrary: D ac fail queue rule: less_induct)
  case less
  show ?case
  proof (cases queue)
    case Nil
    have all: "j \<in> D" if "j < length P" for j using waiting_depth [OF P less.prems that] Nil by blast
    then have "built_ok P R ac" using less.prems P unfolding built_ok_def build_inv_def linked_def by auto
    then show ?thesis using Nil by (simp add: Build_loop.simps)
  next
    case (Cons k rest)
    obtain ac' fail' queue' where st: "build_node k (ac, fail, rest) = (ac', fail', queue')" by (metis prod_cases3)
    have k: "k < length P" "k \<notin> D" using front_facts [OF P less.prems [unfolded Cons]] by auto
    have D: "D \<subseteq> {..<length P}" using less.prems by (auto simp: build_inv_def)
    then have "insert k D \<subseteq> {..<length P}" using k by auto
    then have "card (insert k D) \<le> length P" using card_mono [of "{..<length P}" "insert k D"] by simp
    then have "length P - card (insert k D) < length P - card D"
      using k D finite_subset [OF D] by (simp add: card_insert_if)
    moreover have "build_inv P R (insert k D) (ac', fail', queue')"
      using build_node_inv [OF P _ R(2) less.prems [unfolded Cons]] R(1) st by metis
    ultimately show ?thesis using less.hyps [of "insert k D" ac' fail' queue'] Cons st by (subst Build_loop.simps) simp
  qed
qed

lemma ac_Build_ok:
  assumes ok: "trie_ok P R ac" and R: "R [] Substr = []"
  shows "\<exists>ac'. ac_Build ac = Some ac' \<and> built_ok P R ac'"
proof -
  have P: "paths_ok P" and regs: "regs_ok P R ac" and n: "length (ac_nodes ac) = length P"
    and raw: "\<And>k. k < length P \<Longrightarrow> raw_node P (P ! k) (ac_nodes ac ! k) \<and> ac_fail (ac_nodes ac ! k) = 0"
    using ok by (auto simp: trie_ok_def regs_ok_def)
  have P0: "P ! 0 = []" "0 < length P" "distinct P" "prefix_closed (set P)" using P by (auto simp: paths_ok_def)
  have Rn: "q \<notin> set P \<Longrightarrow> R q Substr = []" for q using regs by (simp add: regs_ok_def)
  have nx: "ac_next (ac_nodes ac ! 0) ! e = (if [e] \<in> set P then idx P [e] else 0)" if "e < acValidCharCount" for e
    using raw [OF P0(2)] that P0(1) by (auto simp: raw_node_def)
  have nz: "[e] \<in> set P \<Longrightarrow> idx P [e] \<noteq> 0" for e using idx_eq_0 [OF P] by auto
  have "filter (\<lambda>k. k \<noteq> 0) (map (\<lambda>e. ac_next (ac_nodes ac ! 0) ! e) es) = map (\<lambda>e. idx P ([] @ [e])) (filter (\<lambda>e. [] @ [e] \<in> set P) es)"
    if "set es \<subseteq> {..<acValidCharCount}" for es
    using that by (induction es) (auto simp: nx nz)
  moreover have "set [0..<acValidCharCount] \<subseteq> {..<acValidCharCount}" by auto
  ultimately have q: "filter (\<lambda>k. k \<noteq> 0) (map (\<lambda>e. ac_next (ac_nodes ac ! 0) ! e) [0..<acValidCharCount]) = children P [] acValidCharCount"
    unfolding children_def by blast
  let ?C = "children P [] acValidCharCount" and ?fail = "replicate (length P) (0 :: nat)"
  have C: "j < length P \<and> j \<noteq> 0 \<and> (\<exists>e. P ! j = [e])" if "j \<in> set ?C" for j
    using children_depth [OF that] P0(1) by (cases "j = 0") auto
  have z: "idx P [] = 0" by (rule paths_ok_idx0 [OF P])
  have one: "lsuf (set P) (tl [e]) = []" "link R [e] = []" "link R [] = []" for e by (simp_all add: link_def)
  have "build_inv P R {0} (ac, ?fail, ?C)"
  proof -
    have "built_node P (P ! 0) (ac_nodes ac ! 0)"
      using raw [OF P0(2)] P0(1) z lsuf_self [of _ "set P"] by (auto simp: built_node_def raw_node_def)
    moreover have "linked P R ac ?fail j" if "j \<in> {0} \<union> set ?C" for j
      using that C [of j] raw [of j] P0 z one by (auto simp: linked_def)
    moreover have "(j \<in> {0} \<union> set ?C) = (idx P (butlast (P ! j)) \<in> {0})" if j: "j < length P" "j \<noteq> 0" for j
    proof -
      obtain p x where p: "P ! j = p @ [x]" "p \<in> set P" "idx P (butlast (P ! j)) = idx P p" using path_cases [OF P j] by metis
      show ?thesis using p children_all [OF P j(1), of "[]"] idx_eq_0 [OF P p(2)] j by auto
    qed
    moreover have "map (\<lambda>k. length (P ! k)) ?C = replicate (length ?C) 1" using C by (fastforce intro: replicate_eqI)
    moreover have "length (P ! j) \<le> length (P ! hd ?C) + 1" if "j \<in> set ?C" for j using C [OF that] by auto
    moreover have "0 \<notin> set ?C" using C by blast
    ultimately show ?thesis unfolding build_inv_def prod.case using regs raw C P0(2) distinct_children [of P "[]" acValidCharCount] by auto
  qed
  from Build_loop_ok [OF P _ R this] Rn show ?thesis unfolding ac_Build_def Let_def q n by blast
qed

end
