(* ===== verification/Ac_Match.thy ===== *)
theory Ac_Match
  imports Ac_Build
begin

text \<open>
  Matching with the built keyword automaton returns exactly the values of the matchers that match the
  input, for patterns and inputs of lower-case letters, digits, hyphens and dots. A keyword on a fail
  path of several keywords is reported twice.
\<close>

section \<open>Registered values\<close>

text \<open>What a matcher registers: paths with a type.\<close>

fun ac_paths :: "Matcher \<Rightarrow> (nat list \<times> byte) set" where
  "ac_paths (FullMatcher s) = {(enc s, Full)}"
| "ac_paths (DomainMatcher s) = {(enc s, Domain), (enc s @ [acCharset dot], Domain)}"
| "ac_paths (SubstrMatcher s) = {(enc s, Substr)}"
| "ac_paths (RegexMatcher _ _) = {}"

text \<open>Adding a matcher of any kind; a regular expression is not accepted and left out.\<close>

fun ac_add :: "Matcher \<Rightarrow> u32 \<Rightarrow> ACAutomatonMatcherGroup \<Rightarrow> ACAutomatonMatcherGroup" where
  "ac_add (FullMatcher s) v ac = ac_AddFullMatcher s v ac"
| "ac_add (DomainMatcher s) v ac = ac_AddDomainMatcher s v ac"
| "ac_add (SubstrMatcher s) v ac = ac_AddSubstrMatcher s v ac"
| "ac_add (RegexMatcher _ _) v ac = ac"

definition registered :: "(nat list \<Rightarrow> byte \<Rightarrow> u32 list) \<Rightarrow> (Matcher \<times> u32) list \<Rightarrow> bool" where
  "registered R ms \<longleftrightarrow> (\<forall>p t. set (R p t) = {v. \<exists>m. (m, v) \<in> set ms \<and> (p, t) \<in> ac_paths m})"

lemma registered_snoc:
  assumes "registered R ms" and "\<And>q u. set (R' q u) = set (R q u) \<union> (if (q, u) \<in> ac_paths m then {v} else {})"
  shows "registered R' (ms @ [(m, v)])"
  using assms unfolding registered_def by auto

lemma ac_add_ok:
  assumes ok: "trie_ok P R ac" and reg: "registered R ms"
  shows "\<exists>P' R'. trie_ok P' R' (ac_add m v ac) \<and> registered R' (ms @ [(m, v)])"
proof -
  have P: "0 < length P" "P ! 0 = []" using ok by (auto simp: trie_ok_def paths_ok_def)
  have one: "\<exists>ac' k' Q. addPattern 0 s t v ac = (ac', k') \<and> trie_ok (P @ Q) (register (enc s) t v R) ac' \<and> k' < length (P @ Q) \<and> (P @ Q) ! k' = enc s"
    if "t \<in> {Full, Domain, Substr}" for s t
    using addPattern_ok [OF ok P(1) that, of s v] P(2) by simp
  note ins = set_register
  show ?thesis
  proof (cases m)
    case (FullMatcher s)
    have "registered (register (enc s) Full v R) (ms @ [(m, v)])" by (rule registered_snoc [OF reg]) (simp add: ins FullMatcher)
    then show ?thesis using one [of Full s] FullMatcher by (force simp: ac_AddFullMatcher_def)
  next
    case (SubstrMatcher s)
    have "registered (register (enc s) Substr v R) (ms @ [(m, v)])" by (rule registered_snoc [OF reg]) (simp add: ins SubstrMatcher)
    then show ?thesis using one [of Substr s] SubstrMatcher by (force simp: ac_AddSubstrMatcher_def)
  next
    case (DomainMatcher s)
    let ?R = "register (enc s @ enc [dot]) Domain v (register (enc s) Domain v R)"
    obtain ac1 k1 Q where a: "addPattern 0 s Domain v ac = (ac1, k1)" "trie_ok (P @ Q) (register (enc s) Domain v R) ac1"
      "k1 < length (P @ Q)" "(P @ Q) ! k1 = enc s" using one [of Domain s] by auto
    obtain ac2 k2 Q' where b: "addPattern k1 [dot] Domain v ac1 = (ac2, k2)" "trie_ok ((P @ Q) @ Q') ?R ac2"
      using addPattern_ok [OF a(2,3), of Domain "[dot]" v] a(4) by auto
    have "enc [dot] = [acCharset dot]" by (simp add: enc_def)
    then have "registered ?R (ms @ [(m, v)])" by (intro registered_snoc [OF reg]) (simp add: ins DomainMatcher)
    then show ?thesis using a(1) b DomainMatcher by (force simp: ac_AddDomainMatcher_def)
  next
    case (RegexMatcher s f)
    then have "registered R (ms @ [(m, v)])" by (intro registered_snoc [OF reg]) simp
    then show ?thesis using ok RegexMatcher by auto
  qed
qed

lemma ac_adds_ok:
  "\<exists>P R. trie_ok P R (fold (\<lambda>(m, v). ac_add m v) ms NewACAutomatonMatcherGroup) \<and> registered R ms"
proof (induction ms rule: rev_induct)
  case Nil
  have "registered (\<lambda>_ _. []) []" by (simp add: registered_def)
  then show ?case using trie_ok_new by force
next
  case (snoc mv ms)
  then show ?case using ac_add_ok [of _ _ "fold (\<lambda>(m, v). ac_add m v) ms NewACAutomatonMatcherGroup" ms "fst mv" "snd mv"]
    by (cases mv) auto
qed

section \<open>The fail path\<close>

fun doubled :: "'a list \<Rightarrow> 'a list" where
  "doubled (x # y # zs) = x # x # doubled (y # zs)"
| "doubled xs = xs"

lemma set_doubled [simp]: "set (doubled xs) = set xs"
  by (induction xs rule: doubled.induct) auto

lemma link_links: "filter (sub R) (tsuf p) = q # qs \<Longrightarrow> filter (sub R) (tsuf q) = qs"
proof (induction p rule: tsuf.induct)
  case (2 x t)
  then show ?case by (cases "t = []") (auto split: if_splits)
qed simp

lemma links_in: "regs_ok P R ac \<Longrightarrow> q \<in> set (filter (sub R) (tsuf p)) \<Longrightarrow> q \<in> set P \<and> q \<noteq> []"
  by (auto simp: regs_ok_def sub_def set_tsuf)

lemma fail_path_ok:
  assumes ok: "built_ok P R ac"
  shows "filter (sub R) (tsuf p) = q # qs \<Longrightarrow>
    fail_path ac (idx P q) (idx P q) acc = Some (acc @ map (\<lambda>q. R q Substr) (doubled (q # qs)))"
proof (induction qs arbitrary: p q acc)
  case (Cons r qs)
  have P: "paths_ok P" and regs: "regs_ok P R ac" using ok by (auto simp: built_ok_def)
  note l = link_links [OF Cons.prems]
  have q: "q \<in> set P" "q \<noteq> []" "R q Substr \<noteq> []" "r \<in> set P" "r \<noteq> []"
    using links_in [OF regs, of q p] links_in [OF regs, of r p] Cons.prems by (auto simp: filter_eq_Cons_iff sub_def)
  have i: "idx P q < length P" "P ! idx P q = q" "idx P q \<noteq> 0" "idx P r \<noteq> 0"
    using idx_in [OF q(1)] q idx_eq_0 [OF P] by auto
  have f: "ac_fail (ac_nodes ac ! idx P q) = idx P r" using ok i l by (auto simp: built_ok_def link_def)
  have v: "vals ac (ac_match (ac_nodes ac ! idx P q)) Substr = R q Substr"
    using regs_match(1,2) [OF regs i(1), of Substr] q(3) i(2) by auto
  show ?case using i f v Cons.IH [OF l, of "acc @ [R q Substr, R q Substr]"]
    by (subst fail_path.simps, subst fail_path.simps) simp
next
  case Nil
  have P: "paths_ok P" and regs: "regs_ok P R ac" using ok by (auto simp: built_ok_def)
  note l = link_links [OF Nil]
  have q: "q \<in> set P" "q \<noteq> []" "R q Substr \<noteq> []"
    using links_in [OF regs, of q p] Nil by (auto simp: filter_eq_Cons_iff sub_def)
  have i: "idx P q < length P" "P ! idx P q = q" "idx P q \<noteq> 0"
    using idx_in [OF q(1)] q idx_eq_0 [OF P] by auto
  have f: "ac_fail (ac_nodes ac ! idx P q) = 0" using ok i l paths_ok_idx0 [OF P] by (auto simp: built_ok_def link_def)
  have v: "vals ac (ac_match (ac_nodes ac ! idx P q)) Substr = R q Substr"
    using regs_match(1,2) [OF regs i(1), of Substr] q(3) i(2) by auto
  show ?case using i f v by (subst fail_path.simps, subst fail_path.simps) simp
qed

section \<open>Reading the input\<close>

lemma acCharset_nat:
  "acCharset c =
     (if 65 \<le> unat c \<and> unat c \<le> 90 then unat c - 64 else if 97 \<le> unat c \<and> unat c \<le> 122 then unat c - 96
      else if unat c = 45 then 27 else if unat c = 46 then 28 else if 48 \<le> unat c \<and> unat c \<le> 57 then unat c - 19 else 0)"
  unfolding acCharset_def dot_def word_le_nat_alt word_unat_eq_iff by simp

text \<open>The characters the automaton is meant for.\<close>

definition ldh_lower :: "byte \<Rightarrow> bool" where
  "ldh_lower c \<longleftrightarrow> is_ldh c \<and> \<not> is_upper c"

lemma ldh_lower_nat: "ldh_lower c \<longleftrightarrow> 97 \<le> unat c \<and> unat c \<le> 122 \<or> 48 \<le> unat c \<and> unat c \<le> 57 \<or> unat c = 45 \<or> unat c = 46"
proof -
  have "is_upper c \<longleftrightarrow> 65 \<le> unat c \<and> unat c \<le> 90" unfolding is_upper_def word_le_nat_alt by simp
  moreover have "is_ldh c \<longleftrightarrow> is_upper c \<or> 97 \<le> unat c \<and> unat c \<le> 122 \<or> 48 \<le> unat c \<and> unat c \<le> 57 \<or> unat c = 45 \<or> unat c = 46"
    unfolding is_ldh_def dot_def word_le_nat_alt word_unat_eq_iff by simp
  ultimately show ?thesis unfolding ldh_lower_def by auto
qed

lemma acCharset_inj: "inj_on acCharset {c. ldh_lower c}"
proof (rule inj_onI)
  fix c d assume "c \<in> {c. ldh_lower c}" "d \<in> {c. ldh_lower c}" "acCharset c = acCharset d"
  then have "unat c = unat d" unfolding acCharset_nat mem_Collect_eq ldh_lower_nat by (simp split: if_splits) linarith+
  then show "c = d" by (simp add: word_unat_eq_iff)
qed

lemma acCharset_dot: "acCharset c = acCharset dot \<longleftrightarrow> c = dot"
proof
  assume a: "acCharset c = acCharset dot"
  have "acCharset dot = 28" by (simp add: acCharset_nat dot_def)
  then have "unat c = 46" using a unfolding acCharset_nat by (simp split: if_splits)
  then show "c = dot" by (simp add: word_unat_eq_iff dot_def)
qed simp

text \<open>The state after reading a word \<open>w\<close> of edges.\<close>

definition at_word ::
  "nat list list \<Rightarrow> (nat list \<Rightarrow> byte \<Rightarrow> u32 list) \<Rightarrow> nat list \<Rightarrow> nat \<times> bool \<times> u32 list list \<times> u32 list list \<Rightarrow> bool" where
  "at_word P R w = (\<lambda>(k, fullMatch, suffixMatches, substrMatches).
     k = idx P (lsuf (set P) w) \<and> (fullMatch \<longleftrightarrow> w \<in> set P) \<and>
     set (concat suffixMatches) = {v. \<exists>u. prefix (u @ [acCharset dot]) w \<and> v \<in> set (R (u @ [acCharset dot]) Domain)} \<and>
     set (concat substrMatches) = {v. \<exists>u q. prefix u w \<and> suffix q u \<and> v \<in> set (R q Substr)})"

lemma next_state:
  fixes w :: "nat list"
  assumes ok: "built_ok P R ac" and e: "e < acValidCharCount"
  defines "k \<equiv> idx P (lsuf (set P) w)"
  shows "ac_next (ac_nodes ac ! k) ! e = idx P (lsuf (set P) (w @ [e]))"
    and "w \<in> set P \<and> ac_edge (ac_nodes ac ! k) ! e = acTrieEdge \<longleftrightarrow> w @ [e] \<in> set P"
proof -
  have S: "prefix_closed (set P)" using ok by (simp add: built_ok_def paths_ok_def)
  have "lsuf (set P) w \<in> set P" using S by (simp add: lsuf_in)
  then have k: "k < length P" "P ! k = lsuf (set P) w" using idx_in [of "lsuf (set P) w" P] unfolding k_def by simp_all
  then have n: "built_node P (lsuf (set P) w) (ac_nodes ac ! k)" using ok by (auto simp: built_ok_def)
  then show "ac_next (ac_nodes ac ! k) ! e = idx P (lsuf (set P) (w @ [e]))"
    using e lsuf_snoc [OF S, of w e] by (simp add: built_node_def)
  have "w @ [e] \<in> set P \<Longrightarrow> w \<in> set P" using S by (auto simp: prefix_closed_def)
  then show "w \<in> set P \<and> ac_edge (ac_nodes ac ! k) ! e = acTrieEdge \<longleftrightarrow> w @ [e] \<in> set P"
    using n e lsuf_self [of w "set P"] by (auto simp: built_node_def acTrieEdge_def acFailEdge_def)
qed

lemma own_values:
  fixes w :: "nat list"
  assumes ok: "built_ok P R ac" and t: "t \<in> {Full, Domain, Substr}"
  defines "k \<equiv> idx P (lsuf (set P) w)"
  defines "m \<equiv> ac_match (ac_nodes ac ! k)"
  shows "(if w \<in> set P \<and> m \<noteq> 0 \<and> vals ac m t \<noteq> [] then xs @ [vals ac m t] else xs) = xs @ (if R w t \<noteq> [] then [R w t] else [])"
    and "(if m \<noteq> 0 \<and> vals ac m t \<noteq> [] then xs @ [vals ac m t] else xs) = xs @ (if R (lsuf (set P) w) t \<noteq> [] then [R (lsuf (set P) w) t] else [])"
    and "k < length P" and "P ! k = lsuf (set P) w"
proof -
  have regs: "regs_ok P R ac" and P: "prefix_closed (set P)" using ok by (auto simp: built_ok_def paths_ok_def)
  have "lsuf (set P) w \<in> set P" using P by (simp add: lsuf_in)
  then show k: "k < length P" "P ! k = lsuf (set P) w" using idx_in [of "lsuf (set P) w" P] unfolding k_def by simp_all
  have v: "m \<noteq> 0 \<and> vals ac m t \<noteq> [] \<longleftrightarrow> R (lsuf (set P) w) t \<noteq> []" "m \<noteq> 0 \<Longrightarrow> vals ac m t = R (lsuf (set P) w) t"
    using regs_match(1,2) [OF regs k(1) ] t k(2) unfolding m_def by auto
  then show "(if m \<noteq> 0 \<and> vals ac m t \<noteq> [] then xs @ [vals ac m t] else xs) = xs @ (if R (lsuf (set P) w) t \<noteq> [] then [R (lsuf (set P) w) t] else [])"
    by auto
  have "R w t \<noteq> [] \<Longrightarrow> w \<in> set P" using regs by (auto simp: regs_ok_def)
  then show "(if w \<in> set P \<and> m \<noteq> 0 \<and> vals ac m t \<noteq> [] then xs @ [vals ac m t] else xs) = xs @ (if R w t \<noteq> [] then [R w t] else [])"
    using v lsuf_self [of w "set P"] by (cases "w \<in> set P") auto
qed

text \<open>The keywords that end in a state: those on its fail path and its own.\<close>

lemma keywords_ending:
  assumes "regs_ok P R ac" and "R [] Substr = []"
  shows "(\<Union>q \<in> set (filter (sub R) (tsuf (lsuf (set P) w))). set (R q Substr)) \<union> set (R (lsuf (set P) w) Substr) =
     {v. \<exists>q. suffix q w \<and> v \<in> set (R q Substr)}"
proof -
  have "q \<in> set P" if "v \<in> set (R q Substr)" for v q using assms(1) that by (auto simp: regs_ok_def)
  then have "v \<in> set (R q Substr) \<Longrightarrow> suffix q w \<longleftrightarrow> suffix q (lsuf (set P) w)" for v q
    using lsuf_longest lsuf_suffix suffix_order.order_trans by metis
  moreover have "v \<in> set (R q Substr) \<Longrightarrow> q \<noteq> [] \<and> sub R q" for v q using assms(2) by (auto simp: sub_def)
  ultimately show ?thesis by (auto simp: set_tsuf; metis)
qed

lemma Match_step_ok:
  assumes ok: "built_ok P R ac" and R: "R [] Substr = []" and w: "at_word P R w st"
  shows "\<exists>st'. Match_step ac c st = Some st' \<and> at_word P R (w @ [acCharset c]) st'"
proof -
  obtain k fm sm sb where st: "st = (k, fm, sm, sb)" by (metis prod_cases4)
  let ?e = "acCharset c" let ?w = "w @ [acCharset c]" let ?s = "lsuf (set P) ?w"
  have P: "paths_ok P" and regs: "regs_ok P R ac" using ok by (auto simp: built_ok_def)
  have "?s \<in> set P" using P by (simp add: lsuf_in paths_ok_def)
  then have i: "idx P ?s < length P" "P ! idx P ?s = ?s" using idx_in [of ?s P] by simp_all
  let ?node = "ac_nodes ac ! idx P ?s" let ?m = "ac_match ?node"
  let ?fs = "filter (sub R) (tsuf ?s)"
  have f: "ac_fail ?node = idx P (link R ?s)" using ok i by (auto simp: built_ok_def)
  have path: "\<exists>xs. (if ac_fail ?node \<noteq> 0 then fail_path ac (ac_fail ?node) (ac_fail ?node) sb else Some sb) = Some (sb @ xs) \<and>
      set (concat xs) = (\<Union>q \<in> set ?fs. set (R q Substr))"
  proof (cases ?fs)
    case Nil
    then show ?thesis using f paths_ok_idx0 [OF P] by (auto simp: link_def)
  next
    case (Cons q qs)
    then have "q \<in> set P" "q \<noteq> []" using links_in [OF regs, of q ?s] by auto
    then have "ac_fail ?node \<noteq> 0" "ac_fail ?node = idx P q" using f idx_eq_0 [OF P] Cons by (auto simp: link_def)
    then show ?thesis using fail_path_ok [OF ok Cons, of sb] Cons by auto
  qed
  then obtain xs where xs: "(if ac_fail ?node \<noteq> 0 then fail_path ac (ac_fail ?node) (ac_fail ?node) sb else Some sb) = Some (sb @ xs)"
    "set (concat xs) = (\<Union>q \<in> set ?fs. set (R q Substr))" by blast
  let ?sb = "if ?m \<noteq> 0 \<and> vals ac ?m Substr \<noteq> [] then (sb @ xs) @ [vals ac ?m Substr] else sb @ xs"
  let ?fm = "?w \<in> set P"
  let ?sm = "if ?m \<noteq> 0 \<and> ?fm \<and> c = dot \<and> vals ac ?m Domain \<noteq> [] then sm @ [vals ac ?m Domain] else sm"
  have k: "k = idx P (lsuf (set P) w)" "fm \<longleftrightarrow> w \<in> set P"
    and sets: "set (concat sm) = {v. \<exists>u. prefix (u @ [acCharset dot]) w \<and> v \<in> set (R (u @ [acCharset dot]) Domain)}"
      "set (concat sb) = {v. \<exists>u q. prefix u w \<and> suffix q u \<and> v \<in> set (R q Substr)}"
    using w unfolding st at_word_def by auto
  note nx = next_state [OF ok acCharset_less [of c], of w, folded k(1)]
  have step: "Match_step ac c st = Some (idx P ?s, ?fm, ?sm, ?sb)"
    unfolding st Match_step_def prod.case Let_def nx(1) k(2) nx(2) xs(1) by simp
  have "?sb = (sb @ xs) @ (if R ?s Substr \<noteq> [] then [R ?s Substr] else [])" by (rule own_values(2) [OF ok]) simp
  then have "set (concat ?sb) = set (concat sb) \<union> (set (concat xs) \<union> set (R ?s Substr))" by auto
  then have "set (concat ?sb) = set (concat sb) \<union> {v. \<exists>q. suffix q ?w \<and> v \<in> set (R q Substr)}"
    unfolding xs(2) keywords_ending [OF regs R] .
  then have sb: "set (concat ?sb) = {v. \<exists>u q. prefix u ?w \<and> suffix q u \<and> v \<in> set (R q Substr)}"
    unfolding sets prefix_snoc by blast
  have "?sm = (if c = dot then sm @ (if R ?w Domain \<noteq> [] then [R ?w Domain] else []) else sm)"
    using own_values(1) [OF ok, of Domain ?w sm] by auto
  then have "set (concat ?sm) = set (concat sm) \<union> (if c = dot then set (R ?w Domain) else {})" by auto
  then have sm: "set (concat ?sm) = {v. \<exists>u. prefix (u @ [acCharset dot]) ?w \<and> v \<in> set (R (u @ [acCharset dot]) Domain)}"
    unfolding sets prefix_snoc using acCharset_dot [of c] by auto
  show ?thesis using step sb sm by (auto simp: at_word_def)
qed

lemma Match_loop_ok:
  assumes ok: "built_ok P R ac" and R: "R [] Substr = []" and w: "at_word P R w st"
  shows "\<exists>st'. Match_loop ac cs st = Some st' \<and> at_word P R (w @ map acCharset cs) st'"
  using w
proof (induction cs arbitrary: w st)
  case (Cons c cs)
  obtain st' where st': "Match_step ac c st = Some st'" "at_word P R (w @ [acCharset c]) st'"
    using Match_step_ok [OF ok R Cons.prems] by blast
  show ?case using Cons.IH [OF st'(2)] st'(1) by auto
qed simp

lemma at_word_start:
  assumes "built_ok P R ac" and "R [] Substr = []"
  shows "at_word P R [] (0, True, [], [])"
proof -
  have "paths_ok P" using assms(1) by (simp add: built_ok_def)
  then have "[] \<in> set P" "idx P [] = 0" using paths_ok_idx0 by (auto simp: paths_ok_def)
  then show ?thesis using assms(2) by (auto simp: at_word_def)
qed

text \<open>What a registered value needs to be reported for an input with the word \<open>w\<close>.\<close>

definition ac_hit :: "(nat list \<Rightarrow> byte \<Rightarrow> u32 list) \<Rightarrow> nat list \<Rightarrow> u32 \<Rightarrow> bool" where
  "ac_hit R w v \<longleftrightarrow> (\<exists>u. prefix (u @ [acCharset dot]) w \<and> v \<in> set (R (u @ [acCharset dot]) Domain)) \<or>
     (\<exists>u q. prefix u w \<and> suffix q u \<and> v \<in> set (R q Substr)) \<or> v \<in> set (R w Domain) \<or> v \<in> set (R w Full)"

lemma ac_Match_hits:
  assumes ok: "built_ok P R ac" and R: "R [] Substr = []"
  shows "\<exists>r. ac_Match ac s = Some r \<and> set r = {v. ac_hit R (enc s) v}"
proof -
  have regs: "regs_ok P R ac" and P: "paths_ok P" using ok by (auto simp: built_ok_def)
  let ?w = "enc s"
  obtain k fm sm sb where st: "Match_loop ac (rev s) (0, True, [], []) = Some (k, fm, sm, sb)" and w: "at_word P R ?w (k, fm, sm, sb)"
    using Match_loop_ok [OF ok R at_word_start [OF ok R], of "rev s"] by (auto simp: enc_def)
  let ?m = "ac_match (ac_nodes ac ! k)" let ?d = "if R ?w Domain \<noteq> [] then [R ?w Domain] else []"
    let ?f = "if R ?w Full \<noteq> [] then [R ?w Full] else []"
  have k: "k = idx P (lsuf (set P) ?w)" "fm \<longleftrightarrow> ?w \<in> set P" using w by (auto simp: at_word_def)
  have dm: "(if fm \<and> ?m \<noteq> 0 \<and> vals ac ?m Domain \<noteq> [] then xs @ [vals ac ?m Domain] else xs) = xs @ ?d"
    and fl: "(if fm \<and> ?m \<noteq> 0 \<and> vals ac ?m Full \<noteq> [] then xs @ [vals ac ?m Full] else xs) = xs @ ?f" for xs
    unfolding k by (rule own_values(1) [OF ok], simp)+
  have "ac_Match ac s = Some (concat (rev (sb @ (sm @ ?d) @ ?f)))"
    unfolding ac_Match_def st bind.bind_lunit prod.case Let_def dm fl by simp
  moreover have "set (concat (rev (sb @ (sm @ ?d) @ ?f))) = set (concat sb) \<union> set (concat sm) \<union> set (R ?w Domain) \<union> set (R ?w Full)" by auto
  ultimately show ?thesis using w unfolding at_word_def prod.case ac_hit_def by auto
qed

text \<open>The same for \<^verbatim>\<open>MatchAny\<close>, which stops at the first hit.\<close>

definition arrives :: "(nat list \<Rightarrow> byte \<Rightarrow> u32 list) \<Rightarrow> nat list \<Rightarrow> bool" where
  "arrives R w \<longleftrightarrow> (\<exists>q. suffix q w \<and> R q Substr \<noteq> []) \<or> (\<exists>u. w = u @ [acCharset dot] \<and> R w Domain \<noteq> [])"

lemma MatchAny_loop_hits:
  assumes ok: "built_ok P R ac" and R: "R [] Substr = []"
  shows "MatchAny_loop ac cs (idx P (lsuf (set P) w)) (w \<in> set P) \<longleftrightarrow>
     (\<exists>u. u \<noteq> [] \<and> prefix u (map acCharset cs) \<and> arrives R (w @ u)) \<or> (\<exists>t \<in> {Full, Domain, Substr}. R (w @ map acCharset cs) t \<noteq> [])"
proof (induction cs arbitrary: w)
  case Nil
  have regs: "regs_ok P R ac" using ok by (simp add: built_ok_def)
  note k = own_values(3,4) [OF ok, of Full w]
  have "w \<in> set P \<Longrightarrow> lsuf (set P) w = w" by (rule lsuf_self)
  moreover have "R w t \<noteq> [] \<Longrightarrow> w \<in> set P" for t using regs by (auto simp: regs_ok_def)
  ultimately show ?case using regs_match(3) [OF regs k(1)] k(2) by auto
next
  case (Cons c cs)
  let ?w = "w @ [acCharset c]" let ?s = "lsuf (set P) ?w" let ?node = "ac_nodes ac ! idx P ?s" let ?m = "ac_match ?node"
  have P: "paths_ok P" and regs: "regs_ok P R ac" using ok by (auto simp: built_ok_def)
  note k = own_values(3,4) [OF ok, of Full ?w]
  have f: "ac_fail ?node = idx P (link R ?s)" using ok k by (auto simp: built_ok_def)
  have fl: "ac_fail ?node \<noteq> 0 \<longleftrightarrow> filter (sub R) (tsuf ?s) \<noteq> []"
  proof (cases "filter (sub R) (tsuf ?s)")
    case (Cons q qs)
    then have "q \<in> set P" "q \<noteq> []" using links_in [OF regs, of q ?s] by auto
    then show ?thesis using f Cons idx_eq_0 [OF P] by (simp add: link_def)
  qed (use f paths_ok_idx0 [OF P] in \<open>simp add: link_def\<close>)
  have sb: "?m \<noteq> 0 \<and> vals ac ?m Substr \<noteq> [] \<longleftrightarrow> R ?s Substr \<noteq> []" and dm: "?m \<noteq> 0 \<and> vals ac ?m Domain \<noteq> [] \<longleftrightarrow> R ?s Domain \<noteq> []"
    using regs_match(1) [OF regs k(1)] k(2) by auto
  have "?w \<in> set P \<Longrightarrow> ?s = ?w" by (rule lsuf_self)
  moreover have "R ?w t \<noteq> [] \<Longrightarrow> ?w \<in> set P" for t using regs by (auto simp: regs_ok_def)
  ultimately have dm': "?w \<in> set P \<and> R ?s Domain \<noteq> [] \<longleftrightarrow> R ?w Domain \<noteq> []" by auto
  have "(\<exists>q. suffix q ?w \<and> R q Substr \<noteq> []) \<longleftrightarrow> (\<Union>q \<in> {q. suffix q ?w}. set (R q Substr)) \<noteq> {}"
    unfolding UNION_empty_conv by blast
  also have "(\<Union>q \<in> {q. suffix q ?w}. set (R q Substr)) = {v. \<exists>q. suffix q ?w \<and> v \<in> set (R q Substr)}" by blast
  also have "\<dots> \<noteq> {} \<longleftrightarrow> filter (sub R) (tsuf ?s) \<noteq> [] \<or> R ?s Substr \<noteq> []"
    unfolding keywords_ending [OF regs R, symmetric] by (auto simp: filter_empty_conv sub_def)
  finally have "(\<exists>q. suffix q ?w \<and> R q Substr \<noteq> []) \<longleftrightarrow> filter (sub R) (tsuf ?s) \<noteq> [] \<or> R ?s Substr \<noteq> []" .
  then have arr: "arrives R ?w \<longleftrightarrow> ac_fail ?node \<noteq> 0 \<or> ?m \<noteq> 0 \<and> vals ac ?m Substr \<noteq> [] \<or> ?m \<noteq> 0 \<and> ?w \<in> set P \<and> c = dot \<and> vals ac ?m Domain \<noteq> []"
    unfolding arrives_def using fl sb dm dm' acCharset_dot [of c] by auto
  have "MatchAny_loop ac (c # cs) (idx P (lsuf (set P) w)) (w \<in> set P) \<longleftrightarrow>
      (if arrives R ?w then True else MatchAny_loop ac cs (idx P ?s) (?w \<in> set P))"
    unfolding MatchAny_loop.simps Let_def next_state [OF ok acCharset_less] arr by argo
  also have "\<dots> \<longleftrightarrow> (\<exists>u. u \<noteq> [] \<and> prefix u (map acCharset (c # cs)) \<and> arrives R (w @ u)) \<or>
      (\<exists>t \<in> {Full, Domain, Substr}. R (w @ map acCharset (c # cs)) t \<noteq> [])"
  proof -
    have "(\<exists>u. u \<noteq> [] \<and> prefix u (map acCharset (c # cs)) \<and> arrives R (w @ u)) \<longleftrightarrow>
        arrives R ?w \<or> (\<exists>u. u \<noteq> [] \<and> prefix u (map acCharset cs) \<and> arrives R (?w @ u))" (is "?l \<longleftrightarrow> ?r")
    proof
      assume ?l
      then obtain u where u: "u \<noteq> []" "prefix u (acCharset c # map acCharset cs)" "arrives R (w @ u)" by auto
      then obtain u' where "u = acCharset c # u'" "prefix u' (map acCharset cs)" by (cases u) auto
      then have "prefix u' (map acCharset cs)" "arrives R (?w @ u')" using u(3) by simp_all
      then show ?r by (cases "u' = []") auto
    next
      assume ?r
      then obtain u where "prefix u (map acCharset cs)" "arrives R (w @ acCharset c # u)"
        by (metis append.assoc append_Cons append_Nil append_Nil2 Nil_prefix)
      then show ?l by (intro exI [of _ "acCharset c # u"]) simp
    qed
    then show ?thesis unfolding Cons.IH by auto
  qed
  finally show ?case .
qed

section \<open>What the values of a matcher need\<close>

lemma enc_append: "enc (x @ y) = enc y @ enc x"
  by (simp add: enc_def)

lemma enc_inj:
  assumes "list_all ldh_lower s" and "list_all ldh_lower t" and "enc s = enc t"
  shows "s = t"
proof -
  have "inj_on acCharset (set (rev s) \<union> set (rev t))"
    using assms(1,2) by (intro inj_on_subset [OF acCharset_inj]) (auto simp: list_all_iff)
  then have "rev s = rev t" using assms(3) unfolding enc_def by (metis map_inj_on)
  then show ?thesis by simp
qed

lemma enc_split:
  assumes "enc s = a @ b"
  obtains x y where "s = y @ x" "enc x = a" "enc y = b"
proof -
  obtain u v where "rev s = u @ v" "map acCharset u = a" "map acCharset v = b"
    using assms unfolding enc_def by (metis map_eq_append_conv)
  then show ?thesis using that [of "rev v" "rev u"] by (metis enc_def rev_append rev_rev_ident)
qed

lemma enc_sub:
  assumes "list_all ldh_lower s" and "list_all ldh_lower p"
  shows "(\<exists>u. prefix u (enc s) \<and> suffix (enc p) u) \<longleftrightarrow> SubstrMatcher_Match p s"
proof
  assume "\<exists>u. prefix u (enc s) \<and> suffix (enc p) u"
  then obtain a b where "enc s = a @ enc p @ b" by (auto simp: prefix_def suffix_def)
  then obtain x y z where "s = z @ y @ x" "enc y = enc p" by (metis enc_split append.assoc)
  then have "s = z @ p @ x" using enc_inj [of y p] assms by simp
  then show "SubstrMatcher_Match p s" unfolding SubstrMatcher_Match_def Contains_iff by blast
next
  assume "SubstrMatcher_Match p s"
  then obtain x y where "s = x @ p @ y" unfolding SubstrMatcher_Match_def Contains_iff by blast
  then show "\<exists>u. prefix u (enc s) \<and> suffix (enc p) u"
    by (intro exI [of _ "enc y @ enc p"]) (simp add: enc_append suffix_def)
qed

text \<open>The patterns and inputs the automaton is meant for.\<close>

definition ac_pattern :: "Matcher \<Rightarrow> bool" where
  "ac_pattern m \<longleftrightarrow> list_all ldh_lower (Matcher_Pattern m) \<and> Matcher_Pattern m \<noteq> [] \<and>
     (case m of DomainMatcher p \<Rightarrow> hd p \<noteq> dot | RegexMatcher _ _ \<Rightarrow> False | _ \<Rightarrow> True)"

lemma matcher_hit:
  assumes m: "ac_pattern m" and s: "list_all ldh_lower s"
  shows "Matcher_Match m s \<longleftrightarrow>
     (\<exists>u. prefix (u @ [acCharset dot]) (enc s) \<and> (u @ [acCharset dot], Domain) \<in> ac_paths m) \<or>
     (\<exists>u q. prefix u (enc s) \<and> suffix q u \<and> (q, Substr) \<in> ac_paths m) \<or> (enc s, Domain) \<in> ac_paths m \<or> (enc s, Full) \<in> ac_paths m"
proof (cases m)
  case (FullMatcher p)
  then have "enc s = enc p \<longleftrightarrow> s = p" using enc_inj [OF s, of p] m by (auto simp: ac_pattern_def)
  then show ?thesis using FullMatcher type_cases(2,3,4) by (auto simp: FullMatcher_Match_def)
next
  case (SubstrMatcher p)
  then show ?thesis using enc_sub [OF s, of p] m type_cases(2,3,4) by (auto simp: ac_pattern_def)
next
  case (RegexMatcher p f)
  then show ?thesis using m by (simp add: ac_pattern_def)
next
  case (DomainMatcher p)
  then have p: "list_all ldh_lower p" "p \<noteq> []" "hd p \<noteq> dot" using m by (auto simp: ac_pattern_def)
  have dl: "ldh_lower dot" by (simp add: ldh_lower_nat dot_def)
  have eq: "enc s = enc p \<longleftrightarrow> s = p" using enc_inj [OF s p(1)] by auto
  have not: "u @ [acCharset dot] \<noteq> enc p" for u
  proof
    assume "u @ [acCharset dot] = enc p"
    then have "last (enc p) = acCharset dot" by (metis last_snoc)
    moreover have "last (enc p) = acCharset (hd p)" using p(2) by (simp add: enc_def last_map last_rev)
    ultimately show False using p(3) acCharset_dot by simp
  qed
  have dotted: "prefix (enc p @ [acCharset dot]) (enc s) \<longleftrightarrow> (\<exists>x. s = x @ dot # p)"
  proof
    assume "prefix (enc p @ [acCharset dot]) (enc s)"
    then obtain b where "enc s = (enc p @ [acCharset dot]) @ b" by (auto simp: prefix_def)
    then obtain x y where xy: "s = y @ x" "enc x = enc p @ [acCharset dot]" by (metis enc_split)
    then have "enc x = enc (dot # p)" by (simp add: enc_def)
    then have "x = dot # p" using enc_inj [of x "dot # p"] s p(1) dl xy(1) by simp
    then show "\<exists>x. s = x @ dot # p" using xy(1) by blast
  next
    assume "\<exists>x. s = x @ dot # p"
    then show "prefix (enc p @ [acCharset dot]) (enc s)" by (auto simp: enc_def)
  qed
  have "enc s = enc p @ [acCharset dot] \<Longrightarrow> prefix (enc p @ [acCharset dot]) (enc s)" by simp
  then show ?thesis using DomainMatcher eq not dotted type_cases(2,3,4) by (auto simp: DomainMatcher_Match_iff)
qed

section \<open>The group\<close>

text \<open>A built automaton exists, and what it was built from.\<close>

lemma ac_built:
  assumes "list_all ac_pattern (map fst ms)"
  obtains P R ac where "ac_Build (fold (\<lambda>(m, v). ac_add m v) ms NewACAutomatonMatcherGroup) = Some ac"
    "built_ok P R ac" "registered R ms" "R [] Substr = []"
proof -
  obtain P R where ok: "trie_ok P R (fold (\<lambda>(m, v). ac_add m v) ms NewACAutomatonMatcherGroup)" and reg: "registered R ms"
    using ac_adds_ok by blast
  have "([], Substr) \<notin> ac_paths m" if "(m, v) \<in> set ms" for m v
    using assms that type_cases(2,3,4) by (cases m) (auto simp: list_all_iff ac_pattern_def enc_def)
  then have "set (R [] Substr) = {}" using reg by (auto simp: registered_def)
  then show ?thesis using ac_Build_ok [OF ok] reg that by auto
qed

lemma registered_ex: "registered R ms \<Longrightarrow> R p t \<noteq> [] \<longleftrightarrow> (\<exists>m v. (m, v) \<in> set ms \<and> (p, t) \<in> ac_paths m)"
proof -
  assume "registered R ms"
  then have "set (R p t) = {v. \<exists>m. (m, v) \<in> set ms \<and> (p, t) \<in> ac_paths m}" by (simp add: registered_def)
  moreover have "R p t \<noteq> [] \<longleftrightarrow> set (R p t) \<noteq> {}" by simp
  ultimately show ?thesis by auto
qed

lemma ac_group_match:
  assumes ms: "list_all ac_pattern (map fst ms)" and s: "list_all ldh_lower s"
  shows "\<exists>ac r. ac_Build (fold (\<lambda>(m, v). ac_add m v) ms NewACAutomatonMatcherGroup) = Some ac \<and> ac_Match ac s = Some r \<and>
     set r = {v. \<exists>m. (m, v) \<in> set ms \<and> Matcher_Match m s} \<and> (ac_MatchAny ac s \<longleftrightarrow> (\<exists>m v. (m, v) \<in> set ms \<and> Matcher_Match m s))"
proof -
  obtain P R ac where ac: "ac_Build (fold (\<lambda>(m, v). ac_add m v) ms NewACAutomatonMatcherGroup) = Some ac"
    and ok: "built_ok P R ac" and reg: "registered R ms" and R: "R [] Substr = []" using ac_built [OF ms] by metis
  obtain r where r: "ac_Match ac s = Some r" "set r = {v. ac_hit R (enc s) v}" using ac_Match_hits [OF ok R] by blast
  have hit: "ac_hit R (enc s) v \<longleftrightarrow> (\<exists>m. (m, v) \<in> set ms \<and> Matcher_Match m s)" for v
  proof -
    have "ac_hit R (enc s) v \<longleftrightarrow> (\<exists>m. (m, v) \<in> set ms \<and>
       ((\<exists>u. prefix (u @ [acCharset dot]) (enc s) \<and> (u @ [acCharset dot], Domain) \<in> ac_paths m) \<or>
        (\<exists>u q. prefix u (enc s) \<and> suffix q u \<and> (q, Substr) \<in> ac_paths m) \<or> (enc s, Domain) \<in> ac_paths m \<or> (enc s, Full) \<in> ac_paths m))"
      using reg unfolding ac_hit_def registered_def by auto
    then show ?thesis using matcher_hit [OF _ s] ms by (fastforce simp: list_all_iff)
  qed
  have P: "paths_ok P" using ok by (simp add: built_ok_def)
  then have "[] \<in> set P" "idx P [] = 0" using paths_ok_idx0 by (auto simp: paths_ok_def)
  then have "ac_MatchAny ac s \<longleftrightarrow> (\<exists>u. u \<noteq> [] \<and> prefix u (enc s) \<and> arrives R u) \<or> (\<exists>t \<in> {Full, Domain, Substr}. R (enc s) t \<noteq> [])"
    using MatchAny_loop_hits [OF ok R, of "rev s" "[]"] by (simp add: ac_MatchAny_def enc_def)
  also have "\<dots> \<longleftrightarrow> (\<exists>v. ac_hit R (enc s) v)"
  proof
    assume "(\<exists>u. u \<noteq> [] \<and> prefix u (enc s) \<and> arrives R u) \<or> (\<exists>t \<in> {Full, Domain, Substr}. R (enc s) t \<noteq> [])"
    then consider u q where "prefix u (enc s)" "suffix q u" "R q Substr \<noteq> []"
      | u where "prefix (u @ [acCharset dot]) (enc s)" "R (u @ [acCharset dot]) Domain \<noteq> []"
      | t where "t \<in> {Full, Domain, Substr}" "R (enc s) t \<noteq> []"
      unfolding arrives_def by blast
    then show "\<exists>v. ac_hit R (enc s) v"
    proof cases
      case 1
      then show ?thesis unfolding ac_hit_def by (metis list.set_sel(1))
    next
      case 2
      then show ?thesis unfolding ac_hit_def by (metis list.set_sel(1))
    next
      case 3
      then have "hd (R (enc s) t) \<in> set (R (enc s) t)" by simp
      then show ?thesis using 3(1) unfolding ac_hit_def by blast
    qed
  next
    assume "\<exists>v. ac_hit R (enc s) v"
    then consider u v where "prefix (u @ [acCharset dot]) (enc s)" "v \<in> set (R (u @ [acCharset dot]) Domain)"
      | u q v where "prefix u (enc s)" "suffix q u" "v \<in> set (R q Substr)"
      | t v where "t \<in> {Full, Domain, Substr}" "v \<in> set (R (enc s) t)" unfolding ac_hit_def by blast
    then show "(\<exists>u. u \<noteq> [] \<and> prefix u (enc s) \<and> arrives R u) \<or> (\<exists>t \<in> {Full, Domain, Substr}. R (enc s) t \<noteq> [])"
    proof cases
      case 1
      then have "arrives R (u @ [acCharset dot])" by (auto simp: arrives_def)
      then show ?thesis using 1(1) by blast
    next
      case 2
      then have "arrives R u" "u \<noteq> []" using R by (auto simp: arrives_def)
      then show ?thesis using 2(1) by blast
    next
      case 3
      then show ?thesis by (metis empty_iff empty_set)
    qed
  qed
  finally show ?thesis using ac r hit by auto
qed

definition built_match :: "ACAutomatonMatcherGroup \<Rightarrow> bytes \<Rightarrow> u32 list option" where
  "built_match g s = Option.bind (ac_Build g) (\<lambda>ac. ac_Match ac s)"

definition built_any :: "ACAutomatonMatcherGroup \<Rightarrow> bytes \<Rightarrow> bool" where
  "built_any g s = (case ac_Build g of None \<Rightarrow> False | Some ac \<Rightarrow> ac_MatchAny ac s)"

interpretation ac_g: matcher_group NewACAutomatonMatcherGroup ac_add built_match built_any Matcher_Match
    "\<lambda>ms s. list_all ac_pattern ms \<and> list_all ldh_lower s"
  by unfold_locales (use ac_group_match in \<open>fastforce simp: built_match_def built_any_def\<close>)+

section \<open>Properties\<close>

text \<open>C24. The keyword automaton is correct: for non-empty patterns of lower-case letters, digits, hyphens
  and dots (a domain pattern does not start with a dot), building ends, and on an input of these
  characters matching ends and returns the values of exactly the full, domain and keyword matchers
  that match the input; \<^verbatim>\<open>MatchAny\<close> tells whether there is one.\<close>

theorem ac_automaton_correct:
  assumes "list_all ac_pattern (map fst ms)" and "list_all ldh_lower s"
  shows "\<exists>ac r. ac_Build (fold (\<lambda>(m, v). ac_add m v) ms NewACAutomatonMatcherGroup) = Some ac \<and> ac_Match ac s = Some r \<and>
     set r = {v. \<exists>m. (m, v) \<in> set ms \<and> Matcher_Match m s} \<and> (ac_MatchAny ac s \<longleftrightarrow> r \<noteq> [])"
proof -
  obtain ac r where r: "ac_Build (fold (\<lambda>(m, v). ac_add m v) ms NewACAutomatonMatcherGroup) = Some ac" "ac_Match ac s = Some r"
    "set r = {v. \<exists>m. (m, v) \<in> set ms \<and> Matcher_Match m s}" "ac_MatchAny ac s \<longleftrightarrow> (\<exists>m v. (m, v) \<in> set ms \<and> Matcher_Match m s)"
    using ac_group_match [OF assms] by blast
  moreover have "r \<noteq> [] \<longleftrightarrow> set r \<noteq> {}" by simp
  ultimately show ?thesis by auto
qed

definition example_matchers :: "(Matcher \<times> u32) list" where
  "example_matchers = [(SubstrMatcher (str ''abb''), 1), (SubstrMatcher (str ''bb''), 2), (SubstrMatcher (str ''b''), 3), (DomainMatcher (str ''b.c''), 4)]"

theorem ac_automaton_correct_witness:
  "\<exists>ac r. ac_Build (fold (\<lambda>(m, v). ac_add m v) example_matchers NewACAutomatonMatcherGroup) = Some ac \<and>
     ac_Match ac (str ''bb.c'') = Some r \<and> set r = {v. \<exists>m. (m, v) \<in> set example_matchers \<and> Matcher_Match m (str ''bb.c'')} \<and>
     (ac_MatchAny ac (str ''bb.c'') \<longleftrightarrow> r \<noteq> [])"
  by (rule ac_automaton_correct)
    (simp_all add: example_matchers_def ac_pattern_def ldh_lower_nat str_def dot_def)

text \<open>The loop over the fail path updates its two variables in one assignment, so the node it reads
  lags one step behind: every keyword on the path but the last is collected twice.\<close>

lemma fail_path_duplicates:
  assumes "built_ok P R ac" and "filter (sub R) (tsuf p) = q # qs"
  shows "fail_path ac (idx P q) (idx P q) [] = Some (map (\<lambda>q. R q Substr) (doubled (q # qs)))"
  using fail_path_ok [OF assms, of "[]"] by simp

end
