(* ===== verification/Mph.thy ===== *)
theory Mph
  imports Strmatcher "HOL-Library.AList"
begin

text \<open>
  String matching, fifth part: the minimal perfect hash table of
  \<^verbatim>\<open>common/strmatcher/matchergroup_mph.go\<close>. The hash function of the Go runtime (\<open>memHash\<close>, seeded) is a parameter, and so
  is the order \<^verbatim>\<open>sort.Slice\<close> gives to buckets of one size (\<open>srt\<close>, of which only that it permutes is used).
  Whether a seed without collisions exists depends on the hash function, so the search for one is
  a partial function; it is shown to end when there is such a seed. Indices of rules are natural
  numbers.
\<close>

section \<open>Hashing\<close>

definition PrimeRK :: u32 where "PrimeRK = 16777619"

definition roll :: "u32 \<Rightarrow> byte \<Rightarrow> u32" where
  "roll hash c = hash * PrimeRK + ucast c"

definition RollingHash :: "u32 \<Rightarrow> bytes \<Rightarrow> u32" where
  "RollingHash hash input = fold (\<lambda>c h. roll h c) (rev input) hash"

definition LeadingZeros :: "64 word \<Rightarrow> nat" where
  "LeadingZeros w = length (takeWhile (\<lambda>i. \<not> bit w i) (rev [0..<64]))"

definition nextPow2 :: "nat \<Rightarrow> nat" where
  "nextPow2 v = (if v \<le> 1 then 1 else unat (drop_bit (LeadingZeros (word_of_nat v)) (- 1 :: 64 word) + 1))"

section \<open>The group\<close>

record mphRuleInfo =
  ri_rollingHash :: u32
  ri_matchers :: "u32 list list"

record MphMatcherGroup =
  mph_rules :: "bytes list"
  mph_values :: "u32 list list"
  mph_level0 :: "u32 list"
  mph_level0Mask :: u32
  mph_level1 :: "nat list"
  mph_level1Mask :: u32
  mph_ruleInfos :: "(bytes \<times> mphRuleInfo) list"

definition NewMphMatcherGroup :: MphMatcherGroup where
  "NewMphMatcherGroup = \<lparr>mph_rules = [[]], mph_values = [[]], mph_level0 = [], mph_level0Mask = 0, mph_level1 = [], mph_level1Mask = 0, mph_ruleInfos = []\<rparr>"

definition mph_addPattern :: "u32 \<Rightarrow> bytes \<Rightarrow> bytes \<Rightarrow> byte \<Rightarrow> u32 \<Rightarrow> MphMatcherGroup \<Rightarrow> MphMatcherGroup \<times> u32" where
  "mph_addPattern suffixHash suffixPattern pattern matcherType v g =
     (let fullPattern = pattern @ suffixPattern;
          (g, info) = (case map_of (mph_ruleInfos g) fullPattern of
             Some info \<Rightarrow> (g, info)
           | None \<Rightarrow> (g\<lparr>mph_rules := mph_rules g @ [fullPattern], mph_values := mph_values g @ [[]]\<rparr>,
                      \<lparr>ri_rollingHash = RollingHash suffixHash pattern, ri_matchers = [[], []]\<rparr>));
          t = unat matcherType;
          info = info\<lparr>ri_matchers := (ri_matchers info)[t := ri_matchers info ! t @ [v]]\<rparr>
      in (g\<lparr>mph_ruleInfos := AList.update fullPattern info (mph_ruleInfos g)\<rparr>, ri_rollingHash info))"

definition mph_AddFullMatcher :: "bytes \<Rightarrow> u32 \<Rightarrow> MphMatcherGroup \<Rightarrow> MphMatcherGroup" where
  "mph_AddFullMatcher m v g = fst (mph_addPattern 0 [] (ToLower m) Full v g)"

definition mph_AddDomainMatcher :: "bytes \<Rightarrow> u32 \<Rightarrow> MphMatcherGroup \<Rightarrow> MphMatcherGroup" where
  "mph_AddDomainMatcher m v g =
     (let pattern = ToLower m; (g, hash) = mph_addPattern 0 [] pattern Domain v g
      in fst (mph_addPattern hash pattern [dot] Domain v g))"

section \<open>Building\<close>

text \<open>Placing the rules of a bucket with one seed; \<open>h\<close> is the masked hash of a rule. On a collision the
  slots taken so far are given back.\<close>

fun place :: "(bytes \<Rightarrow> nat) \<Rightarrow> bytes list \<Rightarrow> nat list \<Rightarrow> bool list \<times> nat list \<times> nat list \<Rightarrow> bool \<times> bool list \<times> nat list" where
  "place h rules [] (occupied, level1, hashedBucket) = (True, occupied, level1)"
| "place h rules (ruleIdx # rest) (occupied, level1, hashedBucket) =
     (let m = h (rules ! ruleIdx) in
      if occupied ! m
      then (False, fold (\<lambda>x o'. o'[x := False]) hashedBucket occupied, fold (\<lambda>x l. l[x := 0]) hashedBucket level1)
      else place h rules rest (occupied[m := True], level1[m := ruleIdx], hashedBucket @ [m]))"

text \<open>The search for a seed for one bucket; the seed wraps.\<close>

definition slot :: "(u32 \<Rightarrow> bytes \<Rightarrow> u32) \<Rightarrow> u32 \<Rightarrow> u32 \<Rightarrow> bytes \<Rightarrow> nat" where
  "slot memHash msk seed x = unat (memHash seed x AND msk)"

partial_function (option) displace ::
  "(u32 \<Rightarrow> bytes \<Rightarrow> u32) \<Rightarrow> u32 \<Rightarrow> bytes list \<Rightarrow> nat list \<Rightarrow> u32 \<Rightarrow> bool list \<times> nat list \<Rightarrow> (u32 \<times> bool list \<times> nat list) option" where
  "displace memHash msk rules bucket seed st =
     (if bucket = [] then Some (seed, st)
      else case place (slot memHash msk seed) rules bucket (fst st, snd st, []) of
        (done, st) \<Rightarrow> if done then Some (seed, st) else displace memHash msk rules bucket (seed + 1) st)"

fun displace_all ::
  "(u32 \<Rightarrow> bytes \<Rightarrow> u32) \<Rightarrow> u32 \<Rightarrow> bytes list \<Rightarrow> nat list list \<Rightarrow> nat list \<Rightarrow> u32 list \<times> bool list \<times> nat list \<Rightarrow> (u32 list \<times> bool list \<times> nat list) option" where
  "displace_all memHash msk rules buckets [] st = Some st"
| "displace_all memHash msk rules buckets (b # bs) (level0, st) =
     Option.bind (displace memHash msk rules (buckets ! b) 0 st)
       (\<lambda>(seed, st). displace_all memHash msk rules buckets bs (level0[b := seed], st))"

definition rule_info :: "MphMatcherGroup \<Rightarrow> nat \<Rightarrow> mphRuleInfo" where
  "rule_info g r = (case map_of (mph_ruleInfos g) (mph_rules g ! r) of None \<Rightarrow> \<lparr>ri_rollingHash = 0, ri_matchers = [[], []]\<rparr> | Some i \<Rightarrow> i)"

definition mph_Build ::
  "(u32 \<Rightarrow> bytes \<Rightarrow> u32) \<Rightarrow> ((nat \<Rightarrow> nat) \<Rightarrow> nat list \<Rightarrow> nat list) \<Rightarrow> MphMatcherGroup \<Rightarrow> MphMatcherGroup option" where
  "mph_Build memHash srt g =
     (let ruleCount = length (mph_ruleInfos g);
          size0 = nextPow2 (ruleCount div 4); mask0 = word_of_nat (size0 - 1);
          size1 = nextPow2 ruleCount; mask1 = word_of_nat (size1 - 1);
          (buckets, values) = fold (\<lambda>r (buckets, values).
             let info = rule_info g r; b = unat (ri_rollingHash info AND mask0)
             in (buckets[b := buckets ! b @ [r]], values[r := ri_matchers info ! 0 @ ri_matchers info ! 1]))
             [1..<length (mph_rules g)] (replicate size0 [], mph_values g);
          order = srt (\<lambda>b. length (buckets ! b)) [0..<length buckets]
      in map_option (\<lambda>(level0, occupied, level1).
           g\<lparr>mph_values := values, mph_level0 := level0, mph_level0Mask := mask0, mph_level1 := level1, mph_level1Mask := mask1, mph_ruleInfos := []\<rparr>)
         (displace_all memHash mask1 (mph_rules g) buckets order (replicate size0 0, replicate size1 False, replicate size1 0)))"

section \<open>Matching\<close>

definition mph_Lookup :: "(u32 \<Rightarrow> bytes \<Rightarrow> u32) \<Rightarrow> MphMatcherGroup \<Rightarrow> u32 \<Rightarrow> bytes \<Rightarrow> nat" where
  "mph_Lookup memHash g rollingHash input =
     (let seed = mph_level0 g ! unat (rollingHash AND mph_level0Mask g);
          n = mph_level1 g ! unat (memHash seed input AND mph_level1Mask g)
      in if mph_rules g ! n = input then n else 0)"

text \<open>The loop over the input from its end: \<open>i\<close> characters are left.\<close>

fun mph_loop :: "(u32 \<Rightarrow> bytes \<Rightarrow> u32) \<Rightarrow> MphMatcherGroup \<Rightarrow> bytes \<Rightarrow> nat \<Rightarrow> u32 \<Rightarrow> u32 list list \<Rightarrow> u32 \<times> u32 list list" where
  "mph_loop memHash g input 0 hash matches = (hash, matches)"
| "mph_loop memHash g input (Suc i) hash matches =
     (let hash = roll hash (input ! i);
          matches = (if input ! i = dot
             then let n = mph_Lookup memHash g hash (drop i input) in if n \<noteq> 0 then matches @ [mph_values g ! n] else matches
             else matches)
      in mph_loop memHash g input i hash matches)"

definition mph_Match :: "(u32 \<Rightarrow> bytes \<Rightarrow> u32) \<Rightarrow> MphMatcherGroup \<Rightarrow> bytes \<Rightarrow> u32 list" where
  "mph_Match memHash g input =
     (let (hash, matches) = mph_loop memHash g input (length input) 0 [];
          n = mph_Lookup memHash g hash input
      in CompositeMatchesReverse (if n \<noteq> 0 then matches @ [mph_values g ! n] else matches))"

fun mph_any_loop :: "(u32 \<Rightarrow> bytes \<Rightarrow> u32) \<Rightarrow> MphMatcherGroup \<Rightarrow> bytes \<Rightarrow> nat \<Rightarrow> u32 \<Rightarrow> bool" where
  "mph_any_loop memHash g input 0 hash = (mph_Lookup memHash g hash input \<noteq> 0)"
| "mph_any_loop memHash g input (Suc i) hash =
     (let hash = roll hash (input ! i) in
      if input ! i = dot \<and> mph_Lookup memHash g hash (drop i input) \<noteq> 0 then True
      else mph_any_loop memHash g input i hash)"

definition mph_MatchAny :: "(u32 \<Rightarrow> bytes \<Rightarrow> u32) \<Rightarrow> MphMatcherGroup \<Rightarrow> bytes \<Rightarrow> bool" where
  "mph_MatchAny memHash g input = mph_any_loop memHash g input (length input) 0"

end
