(* ===== verification/Mph_Correct.thy ===== *)
theory Mph_Correct
  imports Mph "HOL-Library.Multiset"
begin

text \<open>
  Correctness of the minimal perfect hash table: when the hash function separates the rules, building
  ends; every rule is then found under its own hash and nothing else is; and matching returns
  exactly the values of the full and domain matchers that match the input.
\<close>

section \<open>Powers of two and masks\<close>

lemma LeadingZeros_bits:
  assumes "2 ^ j \<le> v" and "v < 2 ^ Suc j" and "j < 64"
  shows "LeadingZeros (word_of_nat v) = 63 - j"
proof -
  have b: "bit (word_of_nat v :: 64 word) i \<longleftrightarrow> i < 64 \<and> bit v i" for i 
    using bit_unsigned_iff [of "word_of_nat v :: 64 word" i, where ?'a = nat] by (auto simp: unsigned_of_nat bit_take_bit_iff)
  have v: "v div 2 ^ j = 1" using assms(1,2) by (simp add: div_nat_eqI)
  have high: "\<not> bit v i" if "j < i" for i
  proof -
    have "v < 2 ^ i" using assms(2) that by (meson Suc_leI less_le_trans one_le_numeral power_increasing)
    then show ?thesis by (simp add: bit_iff_odd)
  qed
  have low: "bit v j" using v by (simp add: bit_iff_odd)
  have "[0..<64] = [0..<j] @ j # [Suc j..<64]"
    using upt_add_eq_append [of 0 j "64 - j"] assms(3) by (simp add: upt_conv_Cons)
  then have "rev [0..<64] = rev [Suc j..<64] @ j # rev [0..<j]" by simp
  moreover have "takeWhile (\<lambda>i. \<not> bit (word_of_nat v :: 64 word) i) (rev [Suc j..<64] @ j # rev [0..<j]) = rev [Suc j..<64]"
    using high low assms(3) by (subst takeWhile_append2) (auto simp: b)
  ultimately show ?thesis by (simp add: LeadingZeros_def)
qed

lemma unat_of_nat_64: "n < 2 ^ 64 \<Longrightarrow> unat (word_of_nat n :: 64 word) = n"
  by (simp add: unsigned_of_nat take_bit_eq_mod)

lemma nextPow2_power:
  assumes "v < 2 ^ 31"
  obtains k where "nextPow2 v = 2 ^ k" "v \<le> 2 ^ k" "k \<le> 32"
proof (cases "v \<le> 1")
  case True
  then show ?thesis using that [of 0] by (simp add: nextPow2_def)
next
  case False
  then obtain j where j: "2 ^ j \<le> v" "v < 2 ^ Suc j" using ex_power_ivl1 [of 2 v] by auto
  then have "(2 :: nat) ^ j < 2 ^ 31" using assms by linarith
  then have j31: "j < 31" using power_less_imp_less_exp [of 2 j 31] by simp
  have "drop_bit (63 - j) (- 1 :: 64 word) = mask (Suc j)"
    using j31 by (intro bit_word_eqI) (auto simp: bit_drop_bit_eq bit_mask_iff)
  then have "drop_bit (63 - j) (- 1 :: 64 word) + 1 = 2 ^ Suc j" by (simp add: mask_eq_exp_minus_1)
  moreover have "(2 :: nat) ^ Suc j < 2 ^ 64" using j31 by (intro power_strict_increasing) auto
  then have "unat (word_of_nat (2 ^ Suc j) :: 64 word) = 2 ^ Suc j" by (rule unat_of_nat_64)
  then have "unat (2 ^ Suc j :: 64 word) = 2 ^ Suc j" by (simp only: of_nat_power of_nat_numeral)
  ultimately have "nextPow2 v = 2 ^ Suc j"
    using False LeadingZeros_bits [OF j] j31 by (simp add: nextPow2_def)
  then show ?thesis using that [of "Suc j"] j j31 by simp
qed

lemma masked_less:
  assumes "k \<le> 32"
  shows "unat (w AND word_of_nat (2 ^ k - 1) :: u32) < 2 ^ k"
proof -
  have "word_of_nat (2 ^ k - 1) = (mask k :: u32)" by (simp add: mask_eq_exp_minus_1)
  then have "w AND word_of_nat (2 ^ k - 1) = take_bit k w" by (simp add: take_bit_eq_mask)
  then have "unat (w AND word_of_nat (2 ^ k - 1)) = take_bit k (unat w)" by (simp only: unsigned_take_bit_eq)
  then show ?thesis by (simp add: take_bit_eq_mod)
qed

section \<open>Rolling hashes\<close>

lemma RollingHash_append: "RollingHash h (x @ y) = RollingHash (RollingHash h y) x"
  by (simp add: RollingHash_def)

lemma RollingHash_Cons: "RollingHash h (c # y) = roll (RollingHash h y) c"
  by (simp add: RollingHash_def)

lemma RollingHash_drop: "i < length s \<Longrightarrow> roll (RollingHash 0 (drop (Suc i) s)) (s ! i) = RollingHash 0 (drop i s)"
  by (metis Cons_nth_drop_Suc RollingHash_Cons)

section \<open>Adding\<close>

definition mph_ok :: "(bytes \<Rightarrow> byte \<Rightarrow> u32 list) \<Rightarrow> MphMatcherGroup \<Rightarrow> bool" where
  "mph_ok R g \<longleftrightarrow> mph_rules g = [] # map fst (mph_ruleInfos g) \<and> length (mph_values g) = length (mph_rules g) \<and>
     distinct (map fst (mph_ruleInfos g)) \<and>
     (\<forall>(x, i) \<in> set (mph_ruleInfos g). ri_rollingHash i = RollingHash 0 x \<and> ri_matchers i = [R x Full, R x Domain] \<and> (R x Full \<noteq> [] \<or> R x Domain \<noteq> [])) \<and>
     (\<forall>x. x \<notin> fst ` set (mph_ruleInfos g) \<longrightarrow> R x Full = [] \<and> R x Domain = [])"

lemma mph_ok_new: "mph_ok (\<lambda>_ _. []) NewMphMatcherGroup"
  by (simp add: mph_ok_def NewMphMatcherGroup_def)

lemma update_absent: "k \<notin> fst ` set al \<Longrightarrow> AList.update k v al = al @ [(k, v)]"
  by (induction al) auto

lemma mph_addPattern_ok:
  assumes ok: "mph_ok R g" and t: "t \<in> {Full, Domain}" and h: "h = RollingHash 0 sfx"
  shows "\<exists>g'. mph_addPattern h sfx p t v g = (g', RollingHash 0 (p @ sfx)) \<and> mph_ok (register (p @ sfx) t v R) g'"
proof -
  let ?x = "p @ sfx" let ?R = "register (p @ sfx) t v R"
  have upd: "[R ?x Full, R ?x Domain][unat t := [R ?x Full, R ?x Domain] ! unat t @ [v]] = [?R ?x Full, ?R ?x Domain]"
    and ne: "?R ?x Full \<noteq> [] \<or> ?R ?x Domain \<noteq> []"
    using t by (auto simp: register_def Full_def Domain_def)
  have other: "x \<noteq> ?x \<Longrightarrow> ?R x u = R x u" for x u by (simp add: register_def)
  show ?thesis
  proof (cases "map_of (mph_ruleInfos g) ?x")
    case None
    then have x: "?x \<notin> fst ` set (mph_ruleInfos g)" by (simp add: map_of_eq_None_iff)
    then have r: "[[], []] = [R ?x Full, R ?x Domain]" using ok by (simp add: mph_ok_def)
    let ?i = "\<lparr>ri_rollingHash = RollingHash 0 ?x, ri_matchers = [?R ?x Full, ?R ?x Domain]\<rparr>"
    let ?g = "g\<lparr>mph_rules := mph_rules g @ [?x], mph_values := mph_values g @ [[]], mph_ruleInfos := mph_ruleInfos g @ [(?x, ?i)]\<rparr>"
    have "mph_addPattern h sfx p t v g = (?g, RollingHash 0 ?x)"
      using None x h upd unfolding mph_addPattern_def r by (simp add: update_absent RollingHash_append Let_def del: list_update.simps)
    moreover have "y \<noteq> ?x" if "(y, j) \<in> set (mph_ruleInfos g)" for y j using that x by force
    then have "\<forall>(y, j) \<in> set (mph_ruleInfos ?g). ri_rollingHash j = RollingHash 0 y \<and> ri_matchers j = [?R y Full, ?R y Domain] \<and> (?R y Full \<noteq> [] \<or> ?R y Domain \<noteq> [])"
      using ok ne other by (fastforce simp: mph_ok_def)
    then have "mph_ok ?R ?g" using ok x other unfolding mph_ok_def by auto
    ultimately show ?thesis by blast
  next
    case (Some i)
    then have i: "(?x, i) \<in> set (mph_ruleInfos g)" by (rule map_of_SomeD)
    have d: "distinct (map fst (mph_ruleInfos g))" using ok by (simp add: mph_ok_def)
    let ?i = "i\<lparr>ri_matchers := (ri_matchers i)[unat t := ri_matchers i ! unat t @ [v]]\<rparr>"
    have m: "ri_matchers ?i = [?R ?x Full, ?R ?x Domain]" "ri_rollingHash ?i = RollingHash 0 ?x"
      using ok i upd by (auto simp: mph_ok_def)
    have keys: "map fst (AList.update ?x ?i (mph_ruleInfos g)) = map fst (mph_ruleInfos g)"
      using i by (simp add: update_keys rev_image_eqI)
    have set: "set (AList.update ?x ?i (mph_ruleInfos g)) \<subseteq> insert (?x, ?i) {(y, j). y \<noteq> ?x \<and> (y, j) \<in> set (mph_ruleInfos g)}"
    proof
      fix yj assume a: "yj \<in> set (AList.update ?x ?i (mph_ruleInfos g))"
      obtain y j where yj: "yj = (y, j)" by fastforce
      have "distinct (map fst (AList.update ?x ?i (mph_ruleInfos g)))" using keys d by simp
      then have "map_of (AList.update ?x ?i (mph_ruleInfos g)) y = Some j" using a yj by simp
      then show "yj \<in> insert (?x, ?i) {(y, j). y \<noteq> ?x \<and> (y, j) \<in> set (mph_ruleInfos g)}"
        using yj by (auto simp: update_conv' map_of_SomeD split: if_splits)
    qed
    have "mph_addPattern h sfx p t v g = (g\<lparr>mph_ruleInfos := AList.update ?x ?i (mph_ruleInfos g)\<rparr>, RollingHash 0 ?x)"
      using Some m(2) unfolding mph_addPattern_def by (simp add: Let_def)
    moreover have "mph_ok ?R (g\<lparr>mph_ruleInfos := AList.update ?x ?i (mph_ruleInfos g)\<rparr>)"
    proof -
      have new: "\<forall>(y, j) \<in> set (AList.update ?x ?i (mph_ruleInfos g)). ri_rollingHash j = RollingHash 0 y \<and> ri_matchers j = [?R y Full, ?R y Domain] \<and> (?R y Full \<noteq> [] \<or> ?R y Domain \<noteq> [])"
      proof (intro ballI, clarify)
        fix y j assume "(y, j) \<in> set (AList.update ?x ?i (mph_ruleInfos g))"
        then consider "y = ?x" "j = ?i" | "y \<noteq> ?x" "(y, j) \<in> set (mph_ruleInfos g)" using set by blast
        then show "ri_rollingHash j = RollingHash 0 y \<and> ri_matchers j = [?R y Full, ?R y Domain] \<and> (?R y Full \<noteq> [] \<or> ?R y Domain \<noteq> [])"
        proof cases
          case 1
          then show ?thesis using m ne by simp
        next
          case 2
          then show ?thesis using ok other [OF 2(1)] by (auto simp: mph_ok_def)
        qed
      qed
      moreover have "fst ` set (AList.update ?x ?i (mph_ruleInfos g)) = fst ` set (mph_ruleInfos g)"
        using arg_cong [OF keys, of set] by simp
      moreover have "?x \<in> fst ` set (mph_ruleInfos g)" using i by force
      ultimately have "\<forall>y. y \<notin> fst ` set (AList.update ?x ?i (mph_ruleInfos g)) \<longrightarrow> ?R y Full = [] \<and> ?R y Domain = []"
        using ok other unfolding mph_ok_def by metis
      then show ?thesis using new ok keys d unfolding mph_ok_def by simp
    qed
    ultimately show ?thesis by blast
  qed
qed

section \<open>Placing a bucket\<close>

lemma fold_update_nth: "m < length l \<Longrightarrow> fold (\<lambda>x l. l[x := c]) xs l ! m = (if m \<in> set xs then c else l ! m)"
  by (induction xs arbitrary: l) (auto simp: nth_list_update)

lemma fold_update_length [simp]: "length (fold (\<lambda>x l. l[x := c]) xs l) = length l"
  by (induction xs arbitrary: l) auto

text \<open>A table of \<open>n\<close> slots: a free slot holds no rule.\<close>

definition table_ok :: "nat \<Rightarrow> bool list \<times> nat list \<Rightarrow> bool" where
  "table_ok n = (\<lambda>(occ, l1). length occ = n \<and> length l1 = n \<and> (\<forall>m < n. \<not> occ ! m \<longrightarrow> l1 ! m = 0))"

text \<open>The new table keeps what the old one had and holds the rules of the bucket at their slots.\<close>

definition placed :: "(bytes \<Rightarrow> nat) \<Rightarrow> bytes list \<Rightarrow> nat list \<Rightarrow> bool list \<times> nat list \<Rightarrow> bool list \<times> nat list \<Rightarrow> bool" where
  "placed h rules bucket = (\<lambda>(occ, l1) (occ', l1'). (\<forall>m < length occ. occ ! m \<longrightarrow> occ' ! m \<and> l1' ! m = l1 ! m) \<and>
     (\<forall>r \<in> set bucket. occ' ! h (rules ! r) \<and> l1' ! h (rules ! r) = r) \<and>
     {m. m < length occ' \<and> occ' ! m} = {m. m < length occ \<and> occ ! m} \<union> (\<lambda>r. h (rules ! r)) ` set bucket)"

lemma give_back:
  assumes "m < length l" and "m \<notin> set xs" and "l ! m = c"
  shows "fold (\<lambda>x l. l[x := c]) (xs @ [m]) (l[m := d]) = fold (\<lambda>x l. l[x := c]) xs l"
  using assms by (intro nth_equalityI) (auto simp: fold_update_nth nth_list_update)

lemma place_spec:
  assumes "table_ok n (occ, l1)" and h: "\<And>x. h x < n" and "\<forall>m \<in> set hb. m < n \<and> occ ! m" and "place h rules bucket (occ, l1, hb) = (ok, occ', l1')"
  shows "if ok then table_ok n (occ', l1') \<and> placed h rules bucket (occ, l1) (occ', l1')
     else occ' = fold (\<lambda>x o'. o'[x := False]) hb occ \<and> l1' = fold (\<lambda>x l. l[x := 0]) hb l1"
  using assms(1,3,4)
proof (induction bucket arbitrary: occ l1 hb)
  case Nil
  then show ?case by (auto simp: placed_def)
next
  case (Cons r rest)
  let ?m = "h (rules ! r)"
  have t: "length occ = n" "length l1 = n" "?m < n" using Cons.prems(1) h by (auto simp: table_ok_def)
  show ?case
  proof (cases "occ ! ?m")
    case True
    then show ?thesis using Cons.prems(3) by (auto simp: Let_def)
  next
    case False
    then have l: "l1 ! ?m = 0" and hb: "?m \<notin> set hb" using Cons.prems(1,2) t by (auto simp: table_ok_def)
    have p: "place h rules rest (occ[?m := True], l1[?m := r], hb @ [?m]) = (ok, occ', l1')" using Cons.prems(3) False by (simp add: Let_def)
    have "table_ok n (occ[?m := True], l1[?m := r])" using Cons.prems(1) t by (auto simp: table_ok_def nth_list_update)
    moreover have "\<forall>m \<in> set (hb @ [?m]). m < n \<and> occ[?m := True] ! m" using Cons.prems(2) t by (auto simp: nth_list_update)
    ultimately have ih: "if ok then table_ok n (occ', l1') \<and> placed h rules rest (occ[?m := True], l1[?m := r]) (occ', l1')
        else occ' = fold (\<lambda>x o'. o'[x := False]) (hb @ [?m]) (occ[?m := True]) \<and> l1' = fold (\<lambda>x l. l[x := 0]) (hb @ [?m]) (l1[?m := r])"
      using Cons.IH p by blast
    show ?thesis
    proof (cases ok)
      case True
      then have ih: "table_ok n (occ', l1')" "placed h rules rest (occ[?m := True], l1[?m := r]) (occ', l1')" using ih by auto
      have "occ' ! ?m \<and> l1' ! ?m = r" using ih(2) t by (auto simp: placed_def)
      moreover have "occ' ! m \<and> l1' ! m = l1 ! m" if "m < n" "occ ! m" for m
        using ih(2) t that False by (cases "m = ?m") (auto simp: placed_def nth_list_update)
      moreover have "{m. m < n \<and> occ[?m := True] ! m} = insert ?m {m. m < n \<and> occ ! m}" using t by (auto simp: nth_list_update)
      ultimately show ?thesis using True ih t by (auto simp: placed_def)
    next
      case False
      then show ?thesis using ih give_back [of ?m occ hb False True] give_back [of ?m l1 hb 0 r] l hb t \<open>\<not> occ ! ?m\<close> by auto
    qed
  qed
qed

lemma place_succeeds:
  assumes "length occ = n" and h: "\<And>x. h x < n" and "distinct (map (\<lambda>r. h (rules ! r)) bucket)" and "\<forall>r \<in> set bucket. \<not> occ ! h (rules ! r)"
  shows "fst (place h rules bucket (occ, l1, hb))"
  using assms(1,3,4)
proof (induction bucket arbitrary: occ l1 hb)
  case (Cons r rest)
  let ?m = "h (rules ! r)"
  have "\<forall>x \<in> set rest. \<not> occ[?m := True] ! h (rules ! x)" using Cons.prems h by (auto simp: nth_list_update)
  then show ?case using Cons.IH [of "occ[?m := True]"] Cons.prems by (simp add: Let_def)
qed simp

section \<open>Finding seeds\<close>

lemma displace_ok:
  assumes t: "table_ok n (occ, l1)" and h: "\<And>seed x. slot memHash msk seed x < n"
    and good: "distinct (map (\<lambda>r. slot memHash msk good (rules ! r)) bucket)" "\<forall>r \<in> set bucket. \<not> occ ! slot memHash msk good (rules ! r)"
  shows "\<exists>seed' occ' l1'. displace memHash msk rules bucket seed (occ, l1) = Some (seed', occ', l1') \<and>
     table_ok n (occ', l1') \<and> placed (slot memHash msk seed') rules bucket (occ, l1) (occ', l1')"
proof (induction "unat (good - seed)" arbitrary: seed rule: less_induct)
  case less
  show ?case
  proof (cases "bucket = []")
    case True
    then show ?thesis using t by (subst displace.simps) (auto simp: placed_def)
  next
    case False
    obtain ok occ' l1' where p: "place (slot memHash msk seed) rules bucket (occ, l1, []) = (ok, occ', l1')" by (metis prod_cases3)
    note spec = place_spec [OF t h _ p, simplified]
    show ?thesis
    proof (cases ok)
      case True
      then show ?thesis using spec p False by (subst displace.simps) simp
    next
      case bad: False
      then have st: "(occ', l1') = (occ, l1)" using spec by simp
      have "seed \<noteq> good" using place_succeeds [of occ n "slot memHash msk seed" rules bucket l1 "[]"] h good t bad p
        by (auto simp: table_ok_def)
      then have "unat (good - seed - 1) < unat (good - seed)" using measure_unat [of "good - seed"] by simp
      then have "unat (good - (seed + 1)) < unat (good - seed)" by (simp add: diff_diff_eq)
      then show ?thesis using less.hyps [of "seed + 1"] p False bad st by (subst displace.simps) simp
    qed
  qed
qed

lemma placed_entries:
  assumes "table_ok n (occ', l1')" and "placed h rules bucket (occ, l1) (occ', l1')" and "m < n" and "length occ = n"
  shows "l1' ! m = 0 \<or> l1' ! m = l1 ! m \<or> l1' ! m \<in> set bucket"
proof (cases "occ' ! m")
  case True
  then have "m \<in> {m. m < length occ \<and> occ ! m} \<union> (\<lambda>r. h (rules ! r)) ` set bucket"
    using assms by (auto simp: placed_def table_ok_def)
  then show ?thesis using assms(2) by (auto simp: placed_def)
qed (use assms in \<open>auto simp: table_ok_def\<close>)

lemma placed_card:
  assumes "placed h rules bucket (occ, l1) (occ', l1')"
  shows "card {m. m < length occ' \<and> occ' ! m} \<le> card {m. m < length occ \<and> occ ! m} + length bucket"
proof -
  have "card ((\<lambda>r. h (rules ! r)) ` set bucket) \<le> length bucket" by (meson card_image_le card_length finite_set le_trans)
  then show ?thesis using assms card_Un_le [of "{m. m < length occ \<and> occ ! m}" "(\<lambda>r. h (rules ! r)) ` set bucket"]
    by (auto simp: placed_def)
qed

text \<open>The hash functions of the different seeds are different enough: a bucket that fits into the free
  slots of the table is spread over free slots by one of them.\<close>

definition separates :: "(u32 \<Rightarrow> bytes \<Rightarrow> u32) \<Rightarrow> u32 \<Rightarrow> nat \<Rightarrow> bytes set \<Rightarrow> bool" where
  "separates memHash msk n A \<longleftrightarrow> (\<forall>B T. distinct B \<longrightarrow> set B \<subseteq> A \<longrightarrow> T \<subseteq> {..<n} \<longrightarrow> length B + card T \<le> n \<longrightarrow>
     (\<exists>seed. distinct (map (slot memHash msk seed) B) \<and> (\<forall>x \<in> set B. slot memHash msk seed x \<notin> T)))"

lemma displace_all_ok:
  assumes "table_ok n (occ, l1)" and h: "\<And>seed x. slot memHash msk seed x < n" and sep: "separates memHash msk n A"
    and rd: "\<And>b. b < K \<Longrightarrow> distinct (map ((!) rules) (buckets ! b))" and rl: "\<And>b. b < K \<Longrightarrow> \<forall>r \<in> set (buckets ! b). rules ! r \<in> A"
    and "distinct bs" and "(\<forall>b \<in> set bs. b < K) \<and> length level0 = K"
    and "card {m. m < length occ \<and> occ ! m} + sum_list (map (\<lambda>b. length (buckets ! b)) bs) \<le> n"
  shows "\<exists>level0' occ' l1'. displace_all memHash msk rules buckets bs (level0, occ, l1) = Some (level0', occ', l1') \<and>
     length level0' = length level0 \<and> length l1' = n \<and> (\<forall>b. b \<notin> set bs \<longrightarrow> level0' ! b = level0 ! b) \<and>
     (\<forall>m < n. occ ! m \<longrightarrow> l1' ! m = l1 ! m) \<and>
     (\<forall>b \<in> set bs. \<forall>r \<in> set (buckets ! b). l1' ! slot memHash msk (level0' ! b) (rules ! r) = r) \<and>
     (\<forall>m < n. l1' ! m = 0 \<or> l1' ! m = l1 ! m \<or> (\<exists>b \<in> set bs. l1' ! m \<in> set (buckets ! b)))"
  using assms(1,6-)
proof (induction bs arbitrary: level0 occ l1)
  case Nil
  then show ?case by (auto simp: table_ok_def)
next
  case (Cons b bs)
  let ?T = "{m. m < length occ \<and> occ ! m}"
  have len: "length occ = n" and b: "b < K" using Cons.prems(1,3) by (simp_all add: table_ok_def)
  have "length (map ((!) rules) (buckets ! b)) + card ?T \<le> n" using Cons.prems(4) by simp
  moreover have "set (map ((!) rules) (buckets ! b)) \<subseteq> A" using rl [OF b] by auto
  ultimately obtain good where good: "distinct (map (slot memHash msk good) (map ((!) rules) (buckets ! b)))"
      "\<forall>x \<in> set (map ((!) rules) (buckets ! b)). slot memHash msk good x \<notin> ?T"
    using sep rd [OF b] len unfolding separates_def by (metis (mono_tags, lifting) lessThan_iff mem_Collect_eq subsetI)
  have "\<forall>r \<in> set (buckets ! b). \<not> occ ! slot memHash msk good (rules ! r)" using good(2) h len by auto
  then obtain seed occ1 l11 where d: "displace memHash msk rules (buckets ! b) 0 (occ, l1) = Some (seed, occ1, l11)"
      "table_ok n (occ1, l11)" and pl: "placed (slot memHash msk seed) rules (buckets ! b) (occ, l1) (occ1, l11)"
    using displace_ok [OF Cons.prems(1) h, where good = good and rules = rules and bucket = "buckets ! b" and seed = 0] good(1)
    by (auto simp: comp_def)
  have "card {m. m < length occ1 \<and> occ1 ! m} + sum_list (map (\<lambda>b. length (buckets ! b)) bs) \<le> n"
    using placed_card [OF pl] Cons.prems(4) by simp
  then obtain level0' occ' l1' where r: "displace_all memHash msk rules buckets bs (level0[b := seed], occ1, l11) = Some (level0', occ', l1')"
      "length level0' = length level0" "length l1' = n" "\<forall>b'. b' \<notin> set bs \<longrightarrow> level0' ! b' = level0[b := seed] ! b'"
      and keep: "\<forall>m < n. occ1 ! m \<longrightarrow> l1' ! m = l11 ! m" and
      new: "\<forall>b \<in> set bs. \<forall>r \<in> set (buckets ! b). l1' ! slot memHash msk (level0' ! b) (rules ! r) = r" and
      ent: "\<forall>m < n. l1' ! m = 0 \<or> l1' ! m = l11 ! m \<or> (\<exists>b \<in> set bs. l1' ! m \<in> set (buckets ! b))"
    using Cons.IH [of occ1 l11 "level0[b := seed]"] d(2) Cons.prems(2,3) by auto
  have "level0' ! b = seed" using r(4) Cons.prems(2,3) by simp
  moreover have "l1' ! slot memHash msk seed (rules ! r) = r" if "r \<in> set (buckets ! b)" for r
    using pl keep h that by (auto simp: placed_def)
  moreover have "l1' ! m = l1 ! m" if "m < n" "occ ! m" for m using pl keep len that by (auto simp: placed_def)
  moreover have "l1' ! m = 0 \<or> l1' ! m = l1 ! m \<or> (\<exists>b \<in> set (b # bs). l1' ! m \<in> set (buckets ! b))" if "m < n" for m
    using ent placed_entries [OF d(2) pl that len] that by (metis list.set_intros)
  moreover have "level0' ! c = level0 ! c" if "c \<notin> set (b # bs)" for c using r(4) that by auto
  ultimately show ?case using d(1) r(1,2,3) new by auto
qed

section \<open>Building\<close>

lemma fold_buckets:
  assumes "\<forall>r \<in> set rs. f r < length B"
  shows "fold (\<lambda>r (B, V). (B[f r := B ! f r @ [r]], V[r := w r])) rs (B, V) =
     (map (\<lambda>b. B ! b @ filter (\<lambda>r. f r = b) rs) [0..<length B], fold (\<lambda>r V. V[r := w r]) rs V)"
  using assms
proof (induction rs arbitrary: B V)
  case (Cons r rs)
  then show ?case by (auto intro!: nth_equalityI simp: nth_list_update)
qed (simp add: map_nth)

lemma fold_values: "distinct rs \<Longrightarrow> r < length V \<Longrightarrow> fold (\<lambda>r V. V[r := w r]) rs V ! r = (if r \<in> set rs then w r else V ! r)"
  by (induction rs arbitrary: V) (auto simp: nth_list_update)

lemma sum_bucket_sizes:
  assumes "\<forall>r \<in> set rs. f r < k" and "mset bs = mset [0..<k]"
  shows "sum_list (map (\<lambda>b. length (filter (\<lambda>r. f r = b) rs)) bs) = length rs"
proof -
  have "sum_list (map (\<lambda>b. length (filter (\<lambda>r. f r = b) rs)) bs) = sum_mset (mset (map (\<lambda>b. length (filter (\<lambda>r. f r = b) rs)) bs))"
    by (simp only: sum_mset_sum_list)
  also have "\<dots> = sum_list (map (\<lambda>b. length (filter (\<lambda>r. f r = b) rs)) [0..<k])"
    using assms(2) by (simp only: mset_map sum_mset_sum_list [symmetric])
  also have "\<dots> = (\<Sum>b < k. length (filter (\<lambda>r. f r = b) rs))" by (simp add: interv_sum_list_conv_sum_set_nat atLeast0LessThan)
  also have "\<dots> = length rs" using assms(1)
  proof (induction rs)
    case (Cons r rs)
    have "(\<Sum>b < k. length (filter (\<lambda>x. f x = b) (r # rs))) = (\<Sum>b < k. (if b = f r then 1 else 0) + length (filter (\<lambda>x. f x = b) rs))"
      by (intro sum.cong) auto
    then show ?case using Cons by (simp add: sum.distrib)
  qed simp
  finally show ?thesis .
qed

text \<open>A built table: looking up a string under its own hash finds the values registered for it, and nothing
  when there are none.\<close>

definition mph_built :: "(u32 \<Rightarrow> bytes \<Rightarrow> u32) \<Rightarrow> (bytes \<Rightarrow> byte \<Rightarrow> u32 list) \<Rightarrow> MphMatcherGroup \<Rightarrow> bool" where
  "mph_built memHash R g \<longleftrightarrow> (\<forall>x. let n = mph_Lookup memHash g (RollingHash 0 x) x; vs = R x Full @ R x Domain
     in (n \<noteq> 0 \<longleftrightarrow> vs \<noteq> []) \<and> (n \<noteq> 0 \<longrightarrow> mph_values g ! n = vs))"

definition mph_msk :: "nat \<Rightarrow> u32" where
  "mph_msk n = word_of_nat (nextPow2 n - 1)"

definition mph_separable :: "(u32 \<Rightarrow> bytes \<Rightarrow> u32) \<Rightarrow> MphMatcherGroup \<Rightarrow> bool" where
  "mph_separable memHash g \<longleftrightarrow>
     separates memHash (mph_msk (length (mph_ruleInfos g))) (nextPow2 (length (mph_ruleInfos g))) (fst ` set (mph_ruleInfos g))"

lemma rule_info_ok:
  assumes "mph_ok R g" and "0 < r" and "r < length (mph_rules g)"
  shows "ri_rollingHash (rule_info g r) = RollingHash 0 (mph_rules g ! r)"
    and "ri_matchers (rule_info g r) = [R (mph_rules g ! r) Full, R (mph_rules g ! r) Domain]"
    and "R (mph_rules g ! r) Full @ R (mph_rules g ! r) Domain \<noteq> []"
proof -
  obtain k where k: "r = Suc k" "k < length (mph_ruleInfos g)" using assms by (cases r) (auto simp: mph_ok_def)
  have x: "mph_rules g ! r = fst (mph_ruleInfos g ! k)" using assms(1) k by (simp add: mph_ok_def)
  have "map_of (mph_ruleInfos g) (mph_rules g ! r) = Some (snd (mph_ruleInfos g ! k))"
    using assms(1) k x by (simp add: mph_ok_def)
  moreover have "(mph_rules g ! r, snd (mph_ruleInfos g ! k)) \<in> set (mph_ruleInfos g)" using x k by simp
  ultimately show "ri_rollingHash (rule_info g r) = RollingHash 0 (mph_rules g ! r)"
    and "ri_matchers (rule_info g r) = [R (mph_rules g ! r) Full, R (mph_rules g ! r) Domain]"
    and "R (mph_rules g ! r) Full @ R (mph_rules g ! r) Domain \<noteq> []"
    using assms(1) by (fastforce simp: mph_ok_def rule_info_def)+
qed

text \<open>The buckets and the values of a build.\<close>

definition level0_size :: "MphMatcherGroup \<Rightarrow> nat" where
  "level0_size g = nextPow2 (length (mph_ruleInfos g) div 4)"

definition level1_size :: "MphMatcherGroup \<Rightarrow> nat" where
  "level1_size g = nextPow2 (length (mph_ruleInfos g))"

definition bucket_idx :: "MphMatcherGroup \<Rightarrow> nat \<Rightarrow> nat" where
  "bucket_idx g r = unat (ri_rollingHash (rule_info g r) AND mph_msk (length (mph_ruleInfos g) div 4))"

definition mph_buckets :: "MphMatcherGroup \<Rightarrow> nat list list" where
  "mph_buckets g = map (\<lambda>b. filter (\<lambda>r. bucket_idx g r = b) [1..<length (mph_rules g)]) [0..<level0_size g]"

definition built_values :: "MphMatcherGroup \<Rightarrow> u32 list list" where
  "built_values g = fold (\<lambda>r V. V[r := ri_matchers (rule_info g r) ! 0 @ ri_matchers (rule_info g r) ! 1]) [1..<length (mph_rules g)] (mph_values g)"

lemma bucket_idx_less:
  assumes "length (mph_ruleInfos g) < 2 ^ 31"
  shows "unat (w AND mph_msk (length (mph_ruleInfos g) div 4)) < level0_size g"
proof -
  have "length (mph_ruleInfos g) div 4 < 2 ^ 31" using assms div_le_dividend by (rule order.strict_trans1 [rotated])
  from nextPow2_power [OF this] show ?thesis using masked_less unfolding mph_msk_def level0_size_def by metis
qed

lemma slot_less:
  assumes "length (mph_ruleInfos g) < 2 ^ 31"
  shows "slot memHash (mph_msk (length (mph_ruleInfos g))) seed x < level1_size g"
  using nextPow2_power [OF assms] masked_less unfolding mph_msk_def level1_size_def slot_def by metis

lemma mph_Build_eq:
  assumes "length (mph_ruleInfos g) < 2 ^ 31"
  shows "mph_Build memHash srt g = map_option (\<lambda>(level0, occupied, level1).
      g\<lparr>mph_values := built_values g, mph_level0 := level0, mph_level0Mask := mph_msk (length (mph_ruleInfos g) div 4),
        mph_level1 := level1, mph_level1Mask := mph_msk (length (mph_ruleInfos g)), mph_ruleInfos := []\<rparr>)
    (displace_all memHash (mph_msk (length (mph_ruleInfos g))) (mph_rules g) (mph_buckets g)
      (srt (\<lambda>b. length (mph_buckets g ! b)) [0..<level0_size g])
      (replicate (level0_size g) 0, replicate (level1_size g) False, replicate (level1_size g) 0))"
proof -
  have "fold (\<lambda>r (B, V). (B[bucket_idx g r := B ! bucket_idx g r @ [r]], V[r := ri_matchers (rule_info g r) ! 0 @ ri_matchers (rule_info g r) ! 1]))
      [1..<length (mph_rules g)] (replicate (level0_size g) [], mph_values g) = (mph_buckets g, built_values g)"
    by (subst fold_buckets) (use bucket_idx_less [OF assms] in \<open>auto simp: bucket_idx_def mph_buckets_def built_values_def\<close>)
  moreover have "length (mph_buckets g) = level0_size g" by (simp add: mph_buckets_def)
  ultimately show ?thesis by (simp add: mph_Build_def Let_def bucket_idx_def mph_msk_def level0_size_def level1_size_def)
qed

lemma rules_registered:
  assumes "mph_ok R g" and "r \<in> set [1..<length (mph_rules g)]"
  shows "mph_rules g ! r \<in> fst ` set (mph_ruleInfos g)"
  using assms by (cases r) (auto simp: mph_ok_def simp del: upt_Suc)

lemma rules_distinct:
  assumes "mph_ok R g" and "r \<in> set [1..<length (mph_rules g)]" and "r' \<in> set [1..<length (mph_rules g)]" and "mph_rules g ! r = mph_rules g ! r'"
  shows "r = r'"
proof -
  have rules: "mph_rules g = [] # map fst (mph_ruleInfos g)" "distinct (map fst (mph_ruleInfos g))" using assms(1) by (simp_all add: mph_ok_def)
  then obtain j j' where "r = Suc j" "r' = Suc j'" "j < length (mph_ruleInfos g)" "j' < length (mph_ruleInfos g)"
    using assms(2,3) by (cases r; cases r') (auto simp del: upt_Suc)
  then show ?thesis using nth_eq_iff_index_eq [of "map fst (mph_ruleInfos g)" j j'] rules assms(4) by simp
qed

lemma mph_displaced:
  assumes ok: "mph_ok R g" and size: "length (mph_ruleInfos g) < 2 ^ 31" and ord: "mset ord = mset [0..<level0_size g]" and sep: "mph_separable memHash g"
  shows "\<exists>level0 occ l1. displace_all memHash (mph_msk (length (mph_ruleInfos g))) (mph_rules g) (mph_buckets g) ord
       (replicate (level0_size g) 0, replicate (level1_size g) False, replicate (level1_size g) 0) = Some (level0, occ, l1) \<and>
     (\<forall>b < level0_size g. \<forall>r \<in> set (mph_buckets g ! b). l1 ! slot memHash (mph_msk (length (mph_ruleInfos g))) (level0 ! b) (mph_rules g ! r) = r) \<and>
     (\<forall>m < level1_size g. l1 ! m \<noteq> 0 \<longrightarrow> l1 ! m \<in> set [1..<length (mph_rules g)])"
proof -
  let ?rs = "[1..<length (mph_rules g)]" let ?K = "level0_size g" let ?n = "level1_size g"
  have o: "distinct ord" "set ord = {..<?K}"
    using mset_eq_imp_distinct_iff [OF ord] mset_eq_setD [OF ord] by (simp_all add: atLeast0LessThan)
  have bk: "mph_buckets g ! b = filter (\<lambda>r. bucket_idx g r = b) ?rs" if "b < ?K" for b using that by (simp add: mph_buckets_def)
  have "map (\<lambda>b. length (mph_buckets g ! b)) ord = map (\<lambda>b. length (filter (\<lambda>r. bucket_idx g r = b) ?rs)) ord" using o bk by simp
  moreover have "sum_list (map (\<lambda>b. length (filter (\<lambda>r. bucket_idx g r = b) ?rs)) ord) = length ?rs"
    using bucket_idx_less [OF size] ord by (intro sum_bucket_sizes) (auto simp: bucket_idx_def)
  moreover have "length ?rs = length (mph_ruleInfos g)" using ok by (simp only: length_upt mph_ok_def) simp
  ultimately have tot: "sum_list (map (\<lambda>b. length (mph_buckets g ! b)) ord) \<le> ?n"
    using nextPow2_power [OF size] unfolding level1_size_def by metis
  have free: "{m. m < ?n \<and> replicate ?n False ! m} = {}" by auto
  have t: "table_ok ?n (replicate ?n False, replicate ?n 0)" by (simp add: table_ok_def)
  have d: "distinct (map ((!) (mph_rules g)) (mph_buckets g ! b))" if "b < ?K" for b
    unfolding bk [OF that] distinct_map using rules_distinct [OF ok] by (auto intro!: inj_onI)
  have rl: "\<forall>r \<in> set (mph_buckets g ! b). mph_rules g ! r \<in> fst ` set (mph_ruleInfos g)" if "b < ?K" for b
    unfolding bk [OF that] using rules_registered [OF ok] by (metis filter_is_subset subsetD)
  have rs: "r \<in> set ?rs" if "b < ?K" "r \<in> set (mph_buckets g ! b)" for b r
    using that(2) unfolding bk [OF that(1)] by (metis filter_is_subset subsetD)
  obtain level0 occ l1 where r: "displace_all memHash (mph_msk (length (mph_ruleInfos g))) (mph_rules g) (mph_buckets g) ord
       (replicate ?K 0, replicate ?n False, replicate ?n 0) = Some (level0, occ, l1)"
     "\<forall>b \<in> set ord. \<forall>r \<in> set (mph_buckets g ! b). l1 ! slot memHash (mph_msk (length (mph_ruleInfos g))) (level0 ! b) (mph_rules g ! r) = r"
     "\<forall>m < ?n. l1 ! m = 0 \<or> (\<exists>b \<in> set ord. l1 ! m \<in> set (mph_buckets g ! b))"
    using displace_all_ok [OF t slot_less [OF size] sep [unfolded mph_separable_def, folded level1_size_def] d rl o(1), of ?K "replicate ?K 0"] o tot free
    by auto
  have "l1 ! m \<in> set ?rs" if "m < ?n" "l1 ! m \<noteq> 0" for m using r(3) that rs unfolding o(2) by (metis lessThan_iff)
  then show ?thesis using r(1,2) o(2) by blast
qed

lemma mph_Build_ok:
  assumes ok: "mph_ok R g" and size: "length (mph_ruleInfos g) < 2 ^ 31" and srt: "\<And>key xs. mset (srt key xs) = mset xs"
    and sep: "mph_separable memHash g"
  shows "\<exists>g'. mph_Build memHash srt g = Some g' \<and> mph_built memHash R g'"
proof -
  let ?m0 = "mph_msk (length (mph_ruleInfos g) div 4)" and ?m1 = "mph_msk (length (mph_ruleInfos g))" let ?rs = "[1..<length (mph_rules g)]"
  obtain level0 occ l1 where d: "displace_all memHash ?m1 (mph_rules g) (mph_buckets g) (srt (\<lambda>b. length (mph_buckets g ! b)) [0..<level0_size g])
       (replicate (level0_size g) 0, replicate (level1_size g) False, replicate (level1_size g) 0) = Some (level0, occ, l1)"
     and at: "\<forall>b < level0_size g. \<forall>r \<in> set (mph_buckets g ! b). l1 ! slot memHash ?m1 (level0 ! b) (mph_rules g ! r) = r"
     and ent: "\<forall>m < level1_size g. l1 ! m \<noteq> 0 \<longrightarrow> l1 ! m \<in> set ?rs"
    using mph_displaced [OF ok size srt sep] by blast
  let ?g = "g\<lparr>mph_values := built_values g, mph_level0 := level0, mph_level0Mask := ?m0, mph_level1 := l1, mph_level1Mask := ?m1, mph_ruleInfos := []\<rparr>"
  have look: "let n = mph_Lookup memHash ?g (RollingHash 0 x) x; vs = R x Full @ R x Domain in (n \<noteq> 0 \<longleftrightarrow> vs \<noteq> []) \<and> (n \<noteq> 0 \<longrightarrow> built_values g ! n = vs)" for x
  proof -
    let ?b = "unat (RollingHash 0 x AND ?m0)"
    let ?r = "l1 ! slot memHash ?m1 (level0 ! ?b) x"
    have L: "mph_Lookup memHash ?g (RollingHash 0 x) x = (if mph_rules g ! ?r = x then ?r else 0)"
      by (simp add: mph_Lookup_def Let_def slot_def)
    show ?thesis
    proof (cases "x \<in> fst ` set (mph_ruleInfos g)")
      case True
      then have "x \<in> set (map fst (mph_ruleInfos g))" by simp
      then obtain j where "j < length (mph_ruleInfos g)" "x = map fst (mph_ruleInfos g) ! j" unfolding in_set_conv_nth by auto
      then have r: "mph_rules g ! Suc j = x" "Suc j \<in> set ?rs" "Suc j < length (mph_rules g)" "Suc j < length (mph_values g)"
        using ok by (auto simp: mph_ok_def simp del: upt_Suc)
      note info = rule_info_ok [OF ok zero_less_Suc r(3), unfolded r(1)]
      have "Suc j \<in> set (mph_buckets g ! ?b)"
        using info(1) r(2) bucket_idx_less [OF size] by (simp add: mph_buckets_def bucket_idx_def del: upt_Suc)
      then have "?r = Suc j" using at bucket_idx_less [OF size] r(1) by metis
      moreover have "built_values g ! Suc j = R x Full @ R x Domain"
        using r(2,4) info(2) unfolding built_values_def by (subst fold_values) (simp_all del: upt_Suc)
      ultimately show ?thesis using L r(1) info(3) by simp
    next
      case False
      then have no: "R x Full @ R x Domain = []" using ok by (simp add: mph_ok_def)
      have "?r \<noteq> 0 \<Longrightarrow> mph_rules g ! ?r \<in> fst ` set (mph_ruleInfos g)"
        using ent [rule_format, OF slot_less [OF size]] rules_registered [OF ok] by (simp del: upt_Suc set_upt)
      then have "mph_Lookup memHash ?g (RollingHash 0 x) x = 0" using L False by metis
      then show ?thesis using no by (simp add: Let_def)
    qed
  qed
  then show ?thesis using d by (auto simp: mph_built_def mph_Build_eq [OF size])
qed

section \<open>Matching\<close>

lemma mph_loop_set:
  assumes b: "mph_built memHash R g" and "i \<le> length s"
  shows "\<exists>ms'. mph_loop memHash g s i (RollingHash 0 (drop i s)) ms = (RollingHash 0 s, ms') \<and>
     set (concat ms') = set (concat ms) \<union> \<Union> {set (R (drop j s) Full @ R (drop j s) Domain) |j. j < i \<and> s ! j = dot}"
  using assms(2)
proof (induction i arbitrary: ms)
  case (Suc i)
  let ?x = "drop i s" let ?vs = "R ?x Full @ R ?x Domain" let ?n = "mph_Lookup memHash g (RollingHash 0 ?x) ?x"
  let ?ms = "if s ! i = dot then if ?n \<noteq> 0 then ms @ [mph_values g ! ?n] else ms else ms"
  have hash: "roll (RollingHash 0 (drop (Suc i) s)) (s ! i) = RollingHash 0 ?x" using RollingHash_drop Suc.prems by simp
  obtain ms' where m: "mph_loop memHash g s i (RollingHash 0 ?x) ?ms = (RollingHash 0 s, ms')"
      "set (concat ms') = set (concat ?ms) \<union> \<Union> {set (R (drop j s) Full @ R (drop j s) Domain) |j. j < i \<and> s ! j = dot}"
    using Suc.IH [of ?ms] Suc.prems by auto
  have "(?n \<noteq> 0 \<longleftrightarrow> ?vs \<noteq> []) \<and> (?n \<noteq> 0 \<longrightarrow> mph_values g ! ?n = ?vs)" using b by (simp add: mph_built_def Let_def)
  then have "set (concat ?ms) = set (concat ms) \<union> (if s ! i = dot then set ?vs else {})" by auto
  moreover have "\<Union> {set (R (drop j s) Full @ R (drop j s) Domain) |j. j < Suc i \<and> s ! j = dot} =
      \<Union> {set (R (drop j s) Full @ R (drop j s) Domain) |j. j < i \<and> s ! j = dot} \<union> (if s ! i = dot then set ?vs else {})"
    by (auto simp: less_Suc_eq)
  moreover have "mph_loop memHash g s (Suc i) (RollingHash 0 (drop (Suc i) s)) ms = (RollingHash 0 s, ms')"
    using m(1) unfolding mph_loop.simps hash Let_def .
  ultimately show ?case using m(2) by auto
qed auto

definition dot_suffixes :: "bytes \<Rightarrow> bytes set" where
  "dot_suffixes s = insert s {x. hd x = dot \<and> x \<noteq> [] \<and> suffix x s}"

lemma dot_suffixes_drop: "dot_suffixes s = insert s {drop j s |j. j < length s \<and> s ! j = dot}"
proof -
  have "(hd x = dot \<and> x \<noteq> [] \<and> suffix x s) \<longleftrightarrow> (\<exists>j < length s. s ! j = dot \<and> x = drop j s)" for x
  proof
    assume x: "hd x = dot \<and> x \<noteq> [] \<and> suffix x s"
    then obtain y where "s = y @ x" by (auto simp: suffix_def)
    then show "\<exists>j < length s. s ! j = dot \<and> x = drop j s" using x by (intro exI [of _ "length y"]) (auto simp: nth_append hd_conv_nth)
  qed (auto simp: hd_drop_conv_nth suffix_drop)
  then show ?thesis by (auto simp: dot_suffixes_def)
qed

lemma mph_Match_set:
  assumes b: "mph_built memHash R g"
  shows "set (mph_Match memHash g s) = (\<Union>x \<in> dot_suffixes s. set (R x Full) \<union> set (R x Domain))"
proof -
  obtain ms where m: "mph_loop memHash g s (length s) 0 [] = (RollingHash 0 s, ms)"
      "set (concat ms) = \<Union> {set (R (drop j s) Full @ R (drop j s) Domain) |j. j < length s \<and> s ! j = dot}"
    using mph_loop_set [OF b, of "length s" s "[]"] by (auto simp: RollingHash_def)
  let ?n = "mph_Lookup memHash g (RollingHash 0 s) s" let ?vs = "R s Full @ R s Domain"
  have n: "(?n \<noteq> 0 \<longleftrightarrow> ?vs \<noteq> []) \<and> (?n \<noteq> 0 \<longrightarrow> mph_values g ! ?n = ?vs)" using b by (simp add: mph_built_def Let_def)
  have "set (mph_Match memHash g s) = set (concat ms) \<union> (if ?n \<noteq> 0 then set (mph_values g ! ?n) else {})"
    by (simp add: mph_Match_def m(1) Let_def) blast
  also have "\<dots> = set (concat ms) \<union> set ?vs" using n by auto
  also have "\<dots> = (\<Union>x \<in> dot_suffixes s. set (R x Full) \<union> set (R x Domain))" unfolding m(2) dot_suffixes_drop by auto
  finally show ?thesis .
qed

lemma mph_any_loop_ok:
  assumes b: "mph_built memHash R g" and "i \<le> length s"
  shows "mph_any_loop memHash g s i (RollingHash 0 (drop i s)) \<longleftrightarrow>
     (\<exists>x \<in> insert s {drop j s |j. j < i \<and> s ! j = dot}. R x Full @ R x Domain \<noteq> [])"
  using assms(2)
proof (induction i)
  case 0
  then show ?case using b by (simp add: mph_built_def Let_def)
next
  case (Suc i)
  have "roll (RollingHash 0 (drop (Suc i) s)) (s ! i) = RollingHash 0 (drop i s)" using RollingHash_drop Suc.prems by simp
  moreover have "mph_Lookup memHash g (RollingHash 0 (drop i s)) (drop i s) \<noteq> 0 \<longleftrightarrow> R (drop i s) Full @ R (drop i s) Domain \<noteq> []"
    using b by (simp add: mph_built_def Let_def)
  ultimately show ?case using Suc.IH Suc.prems by (auto simp: Let_def less_Suc_eq)
qed

lemma mph_MatchAny_ok:
  "mph_built memHash R g \<Longrightarrow> mph_MatchAny memHash g s \<longleftrightarrow> (\<exists>x \<in> dot_suffixes s. set (R x Full) \<union> set (R x Domain) \<noteq> {})"
  using mph_any_loop_ok [of memHash R g "length s" s] by (simp add: mph_MatchAny_def dot_suffixes_drop RollingHash_def)

end
