(* ===== verification/Mph_Match.thy ===== *)
theory Mph_Match
  imports Mph_Correct
begin

text \<open>
  The hash table as a matcher group: after any sequence of additions of full and domain matchers it
  returns the values of exactly the matchers that match.
\<close>

fun mph_add :: "Matcher \<Rightarrow> u32 \<Rightarrow> MphMatcherGroup \<Rightarrow> MphMatcherGroup" where
  "mph_add (FullMatcher m) v g = mph_AddFullMatcher m v g"
| "mph_add (DomainMatcher m) v g = mph_AddDomainMatcher m v g"
| "mph_add (SubstrMatcher _) v g = g"
| "mph_add (RegexMatcher _ _) v g = g"

text \<open>The patterns the table serves: lower-case, without a dot at the front.\<close>

definition mph_string :: "bytes \<Rightarrow> bool" where
  "mph_string p \<longleftrightarrow> ToLower p = p \<and> take 1 p \<noteq> [dot]"

fun mph_pattern :: "Matcher \<Rightarrow> bool" where
  "mph_pattern (FullMatcher p) = mph_string p"
| "mph_pattern (DomainMatcher p) = mph_string p"
| "mph_pattern (SubstrMatcher _) = False"
| "mph_pattern (RegexMatcher _ _) = False"

section \<open>Additions\<close>

definition mph_registered :: "(bytes \<Rightarrow> byte \<Rightarrow> u32 list) \<Rightarrow> (Matcher \<times> u32) list \<Rightarrow> bool" where
  "mph_registered R ms \<longleftrightarrow> (\<forall>x. set (R x Full) = {v. (FullMatcher x, v) \<in> set ms} \<and>
     set (R x Domain) = {v. \<exists>p. (DomainMatcher p, v) \<in> set ms \<and> (x = p \<or> x = dot # p)})"

lemma mph_addPattern_size: "length (mph_ruleInfos (fst (mph_addPattern h sfx p t v g))) \<le> Suc (length (mph_ruleInfos g))"
proof -
  have "length (AList.update k i al) \<le> Suc (length al)" for k i and al :: "(bytes \<times> mphRuleInfo) list" by (induction al) auto
  then show ?thesis by (auto simp: mph_addPattern_def Let_def split: option.split)
qed

lemma mph_add_size: "length (mph_ruleInfos (mph_add m v g)) \<le> length (mph_ruleInfos g) + 2"
proof (cases m)
  case (DomainMatcher p)
  obtain g' h where a: "mph_addPattern 0 [] (ToLower p) Domain v g = (g', h)" by fastforce
  then show ?thesis using DomainMatcher mph_addPattern_size [of 0 "[]" "ToLower p" Domain v g] mph_addPattern_size [of h "ToLower p" "[dot]" Domain v g']
    by (simp add: mph_AddDomainMatcher_def Let_def)
qed (use mph_addPattern_size [of 0 "[]" _ Full v g] in \<open>auto simp: mph_AddFullMatcher_def le_SucI\<close>)

lemma mph_adds_size: "length (mph_ruleInfos (fold (\<lambda>(m, v). mph_add m v) ms g)) \<le> length (mph_ruleInfos g) + 2 * length ms"
proof (induction ms arbitrary: g)
  case (Cons mv ms)
  obtain m v where mv: "mv = (m, v)" by fastforce
  then show ?case using mph_add_size [of m v g] Cons.IH [of "mph_add m v g"] by simp
qed simp

lemma mph_add_ok:
  assumes "mph_ok R g" and "mph_registered R ms" and "mph_pattern m"
  shows "\<exists>R'. mph_ok R' (mph_add m v g) \<and> mph_registered R' (ms @ [(m, v)])"
proof (cases m)
  case (FullMatcher p)
  obtain g' where g: "mph_addPattern 0 [] p Full v g = (g', RollingHash 0 p)" "mph_ok (register p Full v R) g'"
    using mph_addPattern_ok [OF assms(1), of Full 0 "[]" p v] by (auto simp: RollingHash_def)
  have "mph_registered (register p Full v R) (ms @ [(m, v)])"
    using assms(2) FullMatcher by (auto simp: mph_registered_def set_register Full_def Domain_def)
  then show ?thesis using g assms(3) FullMatcher by (auto simp: mph_AddFullMatcher_def mph_string_def)
next
  case (DomainMatcher p)
  let ?R = "register p Domain v R"
  obtain g1 where g1: "mph_addPattern 0 [] p Domain v g = (g1, RollingHash 0 p)" "mph_ok ?R g1"
    using mph_addPattern_ok [OF assms(1), of Domain 0 "[]" p v] by (auto simp: RollingHash_def)
  obtain g2 where g2: "mph_addPattern (RollingHash 0 p) p [dot] Domain v g1 = (g2, RollingHash 0 (dot # p))"
      "mph_ok (register (dot # p) Domain v ?R) g2"
    using mph_addPattern_ok [OF g1(2), of Domain "RollingHash 0 p" p "[dot]" v] by auto
  have "mph_registered (register (dot # p) Domain v ?R) (ms @ [(m, v)])"
    using assms(2) DomainMatcher by (auto simp: mph_registered_def set_register Full_def Domain_def)
  then show ?thesis using g1 g2 assms(3) DomainMatcher by (auto simp: mph_AddDomainMatcher_def mph_string_def)
qed (use assms(3) in auto)

lemma mph_adds_ok:
  "list_all mph_pattern (map fst ms) \<Longrightarrow>
     \<exists>R. mph_ok R (fold (\<lambda>(m, v). mph_add m v) ms NewMphMatcherGroup) \<and> mph_registered R ms"
proof (induction ms rule: rev_induct)
  case Nil
  then show ?case using mph_ok_new by (intro exI [of _ "\<lambda>_ _. []"]) (simp add: mph_registered_def)
next
  case (snoc mv ms)
  obtain m v where mv: "mv = (m, v)" by fastforce
  then show ?case using snoc mph_add_ok [of _ "fold (\<lambda>(m, v). mph_add m v) ms NewMphMatcherGroup" ms m v] by auto
qed

section \<open>Matching\<close>

lemma mph_string_suffix: "mph_string p \<Longrightarrow> p \<in> dot_suffixes s \<longleftrightarrow> p = s"
  by (cases p) (auto simp: mph_string_def dot_suffixes_def)

lemma dot_suffix_iff: "dot # p \<in> dot_suffixes s \<longleftrightarrow> (\<exists>x. s = x @ dot # p)"
  by (auto simp: dot_suffixes_def suffix_def)

lemma mph_hits:
  assumes "list_all mph_pattern (map fst ms)" and "mph_registered R ms"
  shows "(\<Union>x \<in> dot_suffixes s. set (R x Full) \<union> set (R x Domain)) = {v. \<exists>m. (m, v) \<in> set ms \<and> Matcher_Match m s}"
proof -
  have p: "mph_pattern m" if "(m, v) \<in> set ms" for m v using assms(1) that by (auto simp: list_all_iff)
  have "v \<in> (\<Union>x \<in> dot_suffixes s. set (R x Full)) \<longleftrightarrow> (\<exists>q. (FullMatcher q, v) \<in> set ms \<and> q = s)" for v
    using assms(2) p mph_string_suffix by (force simp: mph_registered_def)
  moreover have "v \<in> (\<Union>x \<in> dot_suffixes s. set (R x Domain)) \<longleftrightarrow> (\<exists>q. (DomainMatcher q, v) \<in> set ms \<and> DomainMatcher_Match q s)" for v
  proof -
    have "v \<in> (\<Union>x \<in> dot_suffixes s. set (R x Domain)) \<longleftrightarrow> (\<exists>q. (DomainMatcher q, v) \<in> set ms \<and> (q \<in> dot_suffixes s \<or> dot # q \<in> dot_suffixes s))"
      using assms(2) by (auto simp: mph_registered_def)
    then show ?thesis using p mph_string_suffix unfolding dot_suffix_iff DomainMatcher_Match_iff by (metis mph_pattern.simps(2))
  qed
  moreover have "(\<exists>m. (m, v) \<in> set ms \<and> Matcher_Match m s) \<longleftrightarrow>
      (\<exists>q. (FullMatcher q, v) \<in> set ms \<and> q = s) \<or> (\<exists>q. (DomainMatcher q, v) \<in> set ms \<and> DomainMatcher_Match q s)" for v
  proof -
    have "(m, v) \<in> set ms \<and> Matcher_Match m s \<longleftrightarrow> (m, v) \<in> set ms \<and>
        (\<exists>q. m = FullMatcher q \<and> q = s \<or> m = DomainMatcher q \<and> DomainMatcher_Match q s)" for m
      using p [of m v] by (cases m) (auto simp: FullMatcher_Match_def)
    then show ?thesis by metis
  qed
  ultimately show ?thesis by (intro set_eqI) (simp only: UN_Un_distrib Un_iff mem_Collect_eq)
qed

text \<open>The strings the patterns put into the table, and the hash functions that can spread them.\<close>

definition mph_keys :: "Matcher list \<Rightarrow> bytes set" where
  "mph_keys ps = {x. FullMatcher x \<in> set ps \<or> (\<exists>p. DomainMatcher p \<in> set ps \<and> (x = p \<or> x = dot # p))}"

definition spreads :: "(u32 \<Rightarrow> bytes \<Rightarrow> u32) \<Rightarrow> Matcher list \<Rightarrow> bool" where
  "spreads memHash ps \<longleftrightarrow> (let A = mph_keys ps in separates memHash (mph_msk (card A)) (nextPow2 (card A)) A)"

lemma spreads_separable:
  assumes "mph_ok R g" and "mph_registered R ms" and "spreads memHash (map fst ms)"
  shows "mph_separable memHash g"
proof -
  have "x \<in> fst ` set (mph_ruleInfos g) \<longleftrightarrow> set (R x Full) \<noteq> {} \<or> set (R x Domain) \<noteq> {}" for x
    using assms(1) by (force simp: mph_ok_def)
  moreover have "set (R x Full) \<noteq> {} \<or> set (R x Domain) \<noteq> {} \<longleftrightarrow> x \<in> mph_keys (map fst ms)" for x
  proof -
    have "set (R x Full) \<noteq> {} \<longleftrightarrow> (\<exists>v. (FullMatcher x, v) \<in> set ms)"
      and "set (R x Domain) \<noteq> {} \<longleftrightarrow> (\<exists>p v. (DomainMatcher p, v) \<in> set ms \<and> (x = p \<or> x = dot # p))"
      using assms(2) unfolding mph_registered_def by auto
    moreover have "m \<in> set (map fst ms) \<longleftrightarrow> (\<exists>v. (m, v) \<in> set ms)" for m by force
    ultimately show ?thesis unfolding mph_keys_def by blast
  qed
  ultimately have keys: "fst ` set (mph_ruleInfos g) = mph_keys (map fst ms)" by blast
  then have "length (mph_ruleInfos g) = card (mph_keys (map fst ms))"
    using assms(1) distinct_card [of "map fst (mph_ruleInfos g)"] by (simp add: mph_ok_def)
  then show ?thesis using assms(3) keys by (simp add: mph_separable_def spreads_def Let_def)
qed

definition permutes_lists :: "((nat \<Rightarrow> nat) \<Rightarrow> nat list \<Rightarrow> nat list) \<Rightarrow> bool" where
  "permutes_lists srt \<longleftrightarrow> (\<forall>key xs. mset (srt key xs) = mset xs)"

lemma mph_group_match:
  assumes "list_all mph_pattern (map fst ms)" and "length ms < 2 ^ 30" and "permutes_lists srt" and "spreads memHash (map fst ms)"
  shows "\<exists>g. mph_Build memHash srt (fold (\<lambda>(m, v). mph_add m v) ms NewMphMatcherGroup) = Some g \<and>
     set (mph_Match memHash g s) = {v. \<exists>m. (m, v) \<in> set ms \<and> Matcher_Match m s} \<and>
     (mph_MatchAny memHash g s \<longleftrightarrow> (\<exists>m v. (m, v) \<in> set ms \<and> Matcher_Match m s))"
proof -
  let ?g = "fold (\<lambda>(m, v). mph_add m v) ms NewMphMatcherGroup"
  obtain R where R: "mph_ok R ?g" "mph_registered R ms" using mph_adds_ok [OF assms(1)] by blast
  have "length (mph_ruleInfos ?g) < 2 ^ 31" using mph_adds_size [of ms NewMphMatcherGroup] assms(2) by (simp add: NewMphMatcherGroup_def)
  then obtain g where "mph_Build memHash srt ?g = Some g" "mph_built memHash R g"
    using mph_Build_ok [OF R(1), of srt memHash] spreads_separable [OF R assms(4)] assms(3) unfolding permutes_lists_def by blast
  moreover have "(\<exists>x \<in> dot_suffixes s. set (R x Full) \<union> set (R x Domain) \<noteq> {}) \<longleftrightarrow>
      (\<Union>x \<in> dot_suffixes s. set (R x Full) \<union> set (R x Domain)) \<noteq> {}" by auto
  ultimately show ?thesis using mph_hits [OF assms(1) R(2), of s] mph_Match_set mph_MatchAny_ok by auto
qed

definition table_match :: "(u32 \<Rightarrow> bytes \<Rightarrow> u32) \<Rightarrow> ((nat \<Rightarrow> nat) \<Rightarrow> nat list \<Rightarrow> nat list) \<Rightarrow> MphMatcherGroup \<Rightarrow> bytes \<Rightarrow> u32 list option" where
  "table_match memHash srt g s = map_option (\<lambda>g. mph_Match memHash g s) (mph_Build memHash srt g)"

definition table_any :: "(u32 \<Rightarrow> bytes \<Rightarrow> u32) \<Rightarrow> ((nat \<Rightarrow> nat) \<Rightarrow> nat list \<Rightarrow> nat list) \<Rightarrow> MphMatcherGroup \<Rightarrow> bytes \<Rightarrow> bool" where
  "table_any memHash srt g s \<longleftrightarrow> (case mph_Build memHash srt g of None \<Rightarrow> False | Some g \<Rightarrow> mph_MatchAny memHash g s)"

interpretation mph_g: matcher_group NewMphMatcherGroup mph_add "table_match memHash srt" "table_any memHash srt" Matcher_Match
    "\<lambda>ps s. list_all mph_pattern ps \<and> length ps < 2 ^ 30 \<and> permutes_lists srt \<and> spreads memHash ps"
  for memHash srt
proof
  fix ms :: "(Matcher \<times> u32) list" and s
  assume "list_all mph_pattern (map fst ms) \<and> length (map fst ms) < 2 ^ 30 \<and> permutes_lists srt \<and> spreads memHash (map fst ms)"
  then obtain g where g: "mph_Build memHash srt (fold (\<lambda>(m, v). mph_add m v) ms NewMphMatcherGroup) = Some g"
     "set (mph_Match memHash g s) = {v. \<exists>m. (m, v) \<in> set ms \<and> Matcher_Match m s}"
     "mph_MatchAny memHash g s \<longleftrightarrow> (\<exists>m v. (m, v) \<in> set ms \<and> Matcher_Match m s)"
    using mph_group_match [of ms srt memHash s] by auto
  show "\<exists>r. table_match memHash srt (fold (\<lambda>(p, v). mph_add p v) ms NewMphMatcherGroup) s = Some r \<and> set r = {v. \<exists>p. (p, v) \<in> set ms \<and> Matcher_Match p s}"
    using g by (simp add: table_match_def)
  show "table_any memHash srt (fold (\<lambda>(p, v). mph_add p v) ms NewMphMatcherGroup) s \<longleftrightarrow> (\<exists>p v. (p, v) \<in> set ms \<and> Matcher_Match p s)"
    using g by (simp add: table_any_def)
qed

section \<open>Properties\<close>


text \<open>A family for one domain: the slots of the two strings are the two lowest pairs of bits of the
  seed.\<close>

definition bits_hash :: "u32 \<Rightarrow> bytes \<Rightarrow> u32" where
  "bits_hash seed x = (if take 1 x = [dot] then drop_bit 2 seed else seed)"

lemma bits_hash_spreads: "spreads bits_hash [DomainMatcher (str ''b.c'')]"
proof -
  let ?b = "str ''b.c''" let ?A = "{?b, dot # ?b}"
  have keys: "mph_keys [DomainMatcher ?b] = ?A" by (auto simp: mph_keys_def)
  have "\<exists>seed. distinct (map (slot bits_hash 3 seed) B) \<and> (\<forall>x \<in> set B. slot bits_hash 3 seed x \<notin> T)"
    if B: "distinct B" "set B \<subseteq> ?A" "T \<subseteq> {..<4}" "length B + card T \<le> 4" for B T
  proof -
    have "card (set B) \<le> card ({..<4} - T)" using B by (simp add: card_Diff_subset finite_subset distinct_card)
    then obtain f where f: "f ` set B \<subseteq> {..<4} - T" "inj_on f (set B)" using card_le_inj [of "set B" "{..<4} - T"] by auto
    define h where "h x = (if x \<in> set B then f x else 0)" for x
    have h4: "h x < 4" for x using f(1) by (auto simp: h_def)
    define seed :: u32 where "seed = word_of_nat (h ?b + 4 * h (dot # ?b))"
    have u: "unat seed = h ?b + 4 * h (dot # ?b)" using h4 [of ?b] h4 [of "dot # ?b"]
      unfolding seed_def by (subst unsigned_of_nat) (simp add: take_bit_eq_mod)
    have m3: "unat (w AND 3 :: u32) = unat w mod 4" for w
    proof -
      have "w AND 3 = take_bit 2 w" by (simp add: take_bit_eq_mask mask_eq_exp_minus_1)
      then show ?thesis by (simp only: unsigned_take_bit_eq) (simp add: take_bit_eq_mod)
    qed
    have "slot bits_hash 3 seed ?b = h ?b" using h4 u by (simp add: slot_def bits_hash_def m3 str_def dot_def)
    moreover have "slot bits_hash 3 seed (dot # ?b) = h (dot # ?b)"
    proof -
      have "unat (drop_bit 2 seed) = unat seed div 4" by (simp only: unat_drop_bit_eq) (simp add: drop_bit_eq_div)
      then show ?thesis using h4 [of "dot # ?b"] h4 [of ?b] u unfolding slot_def bits_hash_def m3 by simp
    qed
    ultimately have sl: "slot bits_hash 3 seed x = f x" if "x \<in> set B" for x using B(2) that by (auto simp: h_def)
    then have "inj_on (slot bits_hash 3 seed) (set B)" using f(2) inj_on_cong [of "set B"] by blast
    then show ?thesis using sl f(1) B(1) by (intro exI [of _ seed]) (auto simp: distinct_map)
  qed
  moreover have c: "card ?A = 2" by (simp add: str_def)
  moreover have p: "nextPow2 2 = 4" by code_simp
  moreover have "mph_msk 2 = 3" unfolding mph_msk_def p by simp
  ultimately show ?thesis unfolding spreads_def separates_def keys Let_def c p by metis
qed


end
