(* ===== verification/Index_Matcher.thy ===== *)
theory Index_Matcher
  imports Domain_Trie Substr_Group Ac_Match Mph_Match
begin

text \<open>
  String matching, sixth part: the two index matchers of \<^verbatim>\<open>common/strmatcher/indexmatcher_linear.go\<close> and
  \<^verbatim>\<open>indexmatcher_mph.go\<close>, which number the matchers they are given and distribute them to groups. A group
  that was not needed yet is \<open>None\<close> (Go's nil). The locale \<open>index_matcher\<close> is the Go interface \<^verbatim>\<open>IndexMatcher\<close>
  with its documented contract; both matchers are shown to keep it, so that they agree.
\<close>

section \<open>The linear index matcher\<close>

record LinearIndexMatcher =
  li_count :: u32
  li_full :: "FullMatcherGroup option"
  li_domain :: "trieNode option"
  li_substr :: "SubstrMatcherGroup option"
  li_regex :: "SimpleMatcherGroup option"

definition NewLinearIndexMatcher :: LinearIndexMatcher where
  "NewLinearIndexMatcher = \<lparr>li_count = 0, li_full = None, li_domain = None, li_substr = None, li_regex = None\<rparr>"

definition or_new :: "'g \<Rightarrow> 'g option \<Rightarrow> 'g" where
  "or_new new g = (case g of None \<Rightarrow> new | Some g \<Rightarrow> g)"

definition Linear_Add :: "Matcher \<Rightarrow> LinearIndexMatcher \<Rightarrow> LinearIndexMatcher \<times> u32" where
  "Linear_Add matcher g =
     (let index = li_count g + 1; g = g\<lparr>li_count := index\<rparr> in
      ((case matcher of
          FullMatcher m \<Rightarrow> g\<lparr>li_full := Some (AddFullMatcher m index (or_new NewFullMatcherGroup (li_full g)))\<rparr>
        | DomainMatcher m \<Rightarrow> g\<lparr>li_domain := Some (AddDomainMatcher m index (or_new NewDomainMatcherGroup (li_domain g)))\<rparr>
        | SubstrMatcher m \<Rightarrow> g\<lparr>li_substr := Some (AddSubstrMatcher m index (or_new NewSubstrMatcherGroup (li_substr g)))\<rparr>
        | _ \<Rightarrow> g\<lparr>li_regex := Some (SimpleMatcherGroup_AddMatcher matcher index (or_new [] (li_regex g)))\<rparr>), index))"

definition Linear_Build :: "LinearIndexMatcher \<Rightarrow> LinearIndexMatcher option" where
  "Linear_Build g = Some g"

text \<open>The matches of a group that may be nil; the groups of matches that are not empty are kept. The
  keyword group may not end.\<close>

definition group_matches :: "('g \<Rightarrow> bytes \<Rightarrow> u32 list option) \<Rightarrow> 'g option \<Rightarrow> bytes \<Rightarrow> u32 list option" where
  "group_matches mtch g input = (case g of None \<Rightarrow> Some [] | Some g \<Rightarrow> mtch g input)"

definition keep_matches :: "u32 list \<Rightarrow> u32 list list \<Rightarrow> u32 list list" where
  "keep_matches matches result = (if 0 < length matches then result @ [matches] else result)"

definition Linear_Match :: "LinearIndexMatcher \<Rightarrow> bytes \<Rightarrow> u32 list option" where
  "Linear_Match g input =
     Option.bind (group_matches (\<lambda>g s. Some (FullMatcherGroup_Match g s)) (li_full g) input) (\<lambda>full.
     Option.bind (group_matches (\<lambda>g s. Some (DomainMatcherGroup_Match g s)) (li_domain g) input) (\<lambda>domain.
     Option.bind (group_matches SubstrMatcherGroup_Match (li_substr g) input) (\<lambda>substr.
     Option.bind (group_matches (\<lambda>g s. Some (SimpleMatcherGroup_Match g s)) (li_regex g) input) (\<lambda>regex.
       Some (CompositeMatches (keep_matches regex (keep_matches substr (keep_matches domain (keep_matches full [])))))))))"

definition group_any :: "('g \<Rightarrow> bytes \<Rightarrow> bool) \<Rightarrow> 'g option \<Rightarrow> bytes \<Rightarrow> bool" where
  "group_any any g input = (case g of None \<Rightarrow> False | Some g \<Rightarrow> any g input)"

definition Linear_MatchAny :: "LinearIndexMatcher \<Rightarrow> bytes \<Rightarrow> bool" where
  "Linear_MatchAny g input =
     (if group_any FullMatcherGroup_MatchAny (li_full g) input then True
      else if group_any DomainMatcherGroup_MatchAny (li_domain g) input then True
      else if group_any SubstrMatcherGroup_MatchAny (li_substr g) input then True
      else group_any SimpleMatcherGroup_MatchAny (li_regex g) input)"

definition Linear_Size :: "LinearIndexMatcher \<Rightarrow> u32" where
  "Linear_Size g = li_count g"

section \<open>The hashing index matcher\<close>

record MphIndexMatcher =
  mi_count :: u32
  mi_mph :: "MphMatcherGroup option"
  mi_ac :: "ACAutomatonMatcherGroup option"
  mi_regex :: "SimpleMatcherGroup option"

definition NewMphIndexMatcher :: MphIndexMatcher where
  "NewMphIndexMatcher = \<lparr>mi_count = 0, mi_mph = None, mi_ac = None, mi_regex = None\<rparr>"

definition MphIndex_Add :: "Matcher \<Rightarrow> MphIndexMatcher \<Rightarrow> MphIndexMatcher \<times> u32" where
  "MphIndex_Add matcher g =
     (let index = mi_count g + 1; g = g\<lparr>mi_count := index\<rparr> in
      ((case matcher of
          FullMatcher m \<Rightarrow> g\<lparr>mi_mph := Some (mph_AddFullMatcher m index (or_new NewMphMatcherGroup (mi_mph g)))\<rparr>
        | DomainMatcher m \<Rightarrow> g\<lparr>mi_mph := Some (mph_AddDomainMatcher m index (or_new NewMphMatcherGroup (mi_mph g)))\<rparr>
        | SubstrMatcher m \<Rightarrow> g\<lparr>mi_ac := Some (ac_AddSubstrMatcher m index (or_new NewACAutomatonMatcherGroup (mi_ac g)))\<rparr>
        | RegexMatcher m f \<Rightarrow> g\<lparr>mi_regex := Some (SimpleMatcherGroup_AddMatcher matcher index (or_new [] (mi_regex g)))\<rparr>), index))"

definition group_build :: "('g \<Rightarrow> 'g option) \<Rightarrow> 'g option \<Rightarrow> 'g option option" where
  "group_build build g = (case g of None \<Rightarrow> Some None | Some g \<Rightarrow> map_option Some (build g))"

definition MphIndex_Build ::
  "(u32 \<Rightarrow> bytes \<Rightarrow> u32) \<Rightarrow> ((nat \<Rightarrow> nat) \<Rightarrow> nat list \<Rightarrow> nat list) \<Rightarrow> MphIndexMatcher \<Rightarrow> MphIndexMatcher option" where
  "MphIndex_Build memHash srt g =
     Option.bind (group_build (mph_Build memHash srt) (mi_mph g)) (\<lambda>mph.
     Option.bind (group_build ac_Build (mi_ac g)) (\<lambda>ac.
       Some (g\<lparr>mi_mph := mph, mi_ac := ac\<rparr>)))"

definition MphIndex_Match :: "(u32 \<Rightarrow> bytes \<Rightarrow> u32) \<Rightarrow> MphIndexMatcher \<Rightarrow> bytes \<Rightarrow> u32 list option" where
  "MphIndex_Match memHash g input =
     Option.bind (group_matches (\<lambda>g s. Some (mph_Match memHash g s)) (mi_mph g) input) (\<lambda>mph.
     Option.bind (group_matches ac_Match (mi_ac g) input) (\<lambda>ac.
     Option.bind (group_matches (\<lambda>g s. Some (SimpleMatcherGroup_Match g s)) (mi_regex g) input) (\<lambda>regex.
       Some (CompositeMatches (keep_matches regex (keep_matches ac (keep_matches mph [])))))))"

definition MphIndex_MatchAny :: "(u32 \<Rightarrow> bytes \<Rightarrow> u32) \<Rightarrow> MphIndexMatcher \<Rightarrow> bytes \<Rightarrow> bool" where
  "MphIndex_MatchAny memHash g input =
     (if group_any (mph_MatchAny memHash) (mi_mph g) input then True
      else if group_any ac_MatchAny (mi_ac g) input then True
      else group_any SimpleMatcherGroup_MatchAny (mi_regex g) input)"

definition MphIndex_Size :: "MphIndexMatcher \<Rightarrow> u32" where
  "MphIndex_Size g = mi_count g"

section \<open>The interface\<close>

text \<open>Matchers with the indices they get: the numbers from 1.\<close>

definition numbered :: "Matcher list \<Rightarrow> (Matcher \<times> u32) list" where
  "numbered ms = zip ms (map word_of_nat [1..<Suc (length ms)])"

lemma numbered_Nil [simp]: "numbered [] = []"
  by (simp add: numbered_def)

lemma numbered_snoc: "numbered (ms @ [m]) = numbered ms @ [(m, word_of_nat (Suc (length ms)))]"
proof -
  have "[1..<Suc (length (ms @ [m]))] = [1..<Suc (length ms)] @ [Suc (length ms)]" by simp
  then show ?thesis unfolding numbered_def by (simp del: upt_Suc)
qed

lemma numbered_fst [simp]: "map fst (numbered ms) = ms"
  by (simp add: numbered_def del: upt_Suc)

lemma numbered_length [simp]: "length (numbered ms) = length ms"
  by (simp add: numbered_def del: upt_Suc)

lemma in_numbered: "(m, v) \<in> set (numbered ms) \<longleftrightarrow> (\<exists>i < length ms. m = ms ! i \<and> v = word_of_nat (Suc i))"
  by (auto simp: numbered_def in_set_zip simp del: upt_Suc)

lemma numbered_ex: "(\<exists>m v. (m, v) \<in> set (numbered ms) \<and> P m) \<longleftrightarrow> list_ex P ms"
proof -
  have "(\<exists>v. (m, v) \<in> set (numbered ms)) \<longleftrightarrow> m \<in> fst ` set (numbered ms)" for m by force
  moreover have "fst ` set (numbered ms) = set ms" by (metis numbered_fst set_map)
  ultimately have "(\<exists>v. (m, v) \<in> set (numbered ms)) \<longleftrightarrow> m \<in> set ms" for m by simp
  then show ?thesis unfolding list_ex_iff by blast
qed

locale index_matcher =
  fixes fresh :: 'g
    and add :: "Matcher \<Rightarrow> 'g \<Rightarrow> 'g \<times> u32"
    and build :: "'g \<Rightarrow> 'g option"
    and matches :: "'g \<Rightarrow> bytes \<Rightarrow> u32 list option"
    and any :: "'g \<Rightarrow> bytes \<Rightarrow> bool"
    and size :: "'g \<Rightarrow> u32"
    and fits :: "Matcher list \<Rightarrow> bytes \<Rightarrow> bool"
  assumes size_adds: "size (fold (\<lambda>m g. fst (add m g)) ms fresh) = word_of_nat (length ms)"
    and add_index: "snd (add m g) = size g + 1"
    and matches_adds: "fits ms s \<Longrightarrow> \<exists>g r. build (fold (\<lambda>m g. fst (add m g)) ms fresh) = Some g \<and> matches g s = Some r \<and>
      set r = {v. \<exists>m. (m, v) \<in> set (numbered ms) \<and> Matcher_Match m s} \<and> (any g s \<longleftrightarrow> r \<noteq> [])"
begin

text \<open>The index of a matcher is never 0, and different matchers get different indices.\<close>

lemma index_not_zero:
  assumes "length ms < 2 ^ 32 - 1"
  shows "snd (add m (fold (\<lambda>m g. fst (add m g)) ms fresh)) = word_of_nat (Suc (length ms))"
    and "snd (add m (fold (\<lambda>m g. fst (add m g)) ms fresh)) \<noteq> 0"
proof -
  show i: "snd (add m (fold (\<lambda>m g. fst (add m g)) ms fresh)) = word_of_nat (Suc (length ms))"
    by (simp add: add_index size_adds)
  have "unat (word_of_nat (Suc (length ms)) :: u32) = Suc (length ms)"
    using assms by (subst unsigned_of_nat) (simp add: take_bit_eq_mod)
  then show "snd (add m (fold (\<lambda>m g. fst (add m g)) ms fresh)) \<noteq> 0" using i by auto
qed

end

section \<open>Groups that are created when needed\<close>

definition group_of :: "'g \<Rightarrow> ('p \<Rightarrow> u32 \<Rightarrow> 'g \<Rightarrow> 'g) \<Rightarrow> ('p \<times> u32) list \<Rightarrow> 'g option" where
  "group_of new add xs = (if xs = [] then None else Some (fold (\<lambda>(p, v). add p v) xs new))"

lemma group_of_snoc [simp]: "group_of new add (xs @ [(p, v)]) = Some (add p v (or_new new (group_of new add xs)))"
  by (simp add: group_of_def or_new_def)

lemma group_of_Nil [simp]: "group_of new add [] = None"
  by (simp add: group_of_def)

context matcher_group
begin

lemma group_of_matches:
  assumes "fits (map fst xs) s"
  shows "\<exists>r. group_matches matches (group_of fresh add xs) s = Some r \<and> set r = {v. \<exists>p. (p, v) \<in> set xs \<and> hits p s} \<and>
     (group_any any (group_of fresh add xs) s \<longleftrightarrow> r \<noteq> [])"
proof (cases "xs = []")
  case True
  then show ?thesis by (simp add: group_matches_def group_any_def)
next
  case False
  obtain r where r: "matches (fold (\<lambda>(p, v). add p v) xs fresh) s = Some r" "set r = {v. \<exists>p. (p, v) \<in> set xs \<and> hits p s}"
    using matches_adds [OF assms] by blast
  moreover have "r \<noteq> [] \<longleftrightarrow> set r \<noteq> {}" by simp
  ultimately show ?thesis using False any_adds [OF assms] by (auto simp: group_of_def group_matches_def group_any_def)
qed

end

text \<open>The matchers of one kind.\<close>

definition pick :: "('m \<Rightarrow> 'p option) \<Rightarrow> ('m \<times> u32) list \<Rightarrow> ('p \<times> u32) list" where
  "pick f = List.map_filter (\<lambda>(m, v). map_option (\<lambda>p. (p, v)) (f m))"

lemma pick_simps [simp]: "pick f [] = []"
  "pick f (xs @ [(m, v)]) = pick f xs @ (case f m of None \<Rightarrow> [] | Some p \<Rightarrow> [(p, v)])"
  by (simp_all add: pick_def List.map_filter_def split: option.split)

lemma in_pick: "(p, v) \<in> set (pick f xs) \<longleftrightarrow> (\<exists>m. (m, v) \<in> set xs \<and> f m = Some p)"
  by (force simp: pick_def List.map_filter_def)

lemma pick_ex: "(\<exists>p v. (p, v) \<in> set (pick f (numbered ms)) \<and> H p) \<longleftrightarrow> list_ex (\<lambda>m. \<exists>p. f m = Some p \<and> H p) ms"
  unfolding in_pick numbered_ex [symmetric] by blast

lemma map_fst_pick: "map fst (pick f xs) = List.map_filter f (map fst xs)"
  by (induction xs) (auto simp: pick_def List.map_filter_def)

lemma pick_length: "length (pick f xs) \<le> length xs"
  by (simp add: pick_def List.map_filter_def)

fun full_of :: "Matcher \<Rightarrow> bytes option" where
  "full_of (FullMatcher p) = Some p"
| "full_of _ = None"

fun domain_of :: "Matcher \<Rightarrow> bytes option" where
  "domain_of (DomainMatcher p) = Some p"
| "domain_of _ = None"

fun substr_of :: "Matcher \<Rightarrow> bytes option" where
  "substr_of (SubstrMatcher p) = Some p"
| "substr_of _ = None"

fun regex_of :: "Matcher \<Rightarrow> Matcher option" where
  "regex_of (RegexMatcher p f) = Some (RegexMatcher p f)"
| "regex_of _ = None"

fun table_of :: "Matcher \<Rightarrow> Matcher option" where
  "table_of (FullMatcher p) = Some (FullMatcher p)"
| "table_of (DomainMatcher p) = Some (DomainMatcher p)"
| "table_of _ = None"

fun keyword_of :: "Matcher \<Rightarrow> Matcher option" where
  "keyword_of (SubstrMatcher p) = Some (SubstrMatcher p)"
| "keyword_of _ = None"

lemma Linear_adds:
  "fold (\<lambda>m g. fst (Linear_Add m g)) ms NewLinearIndexMatcher =
     \<lparr>li_count = word_of_nat (length ms), li_full = group_of NewFullMatcherGroup AddFullMatcher (pick full_of (numbered ms)),
      li_domain = group_of NewDomainMatcherGroup AddDomainMatcher (pick domain_of (numbered ms)),
      li_substr = group_of NewSubstrMatcherGroup AddSubstrMatcher (pick substr_of (numbered ms)),
      li_regex = group_of [] SimpleMatcherGroup_AddMatcher (pick regex_of (numbered ms))\<rparr>"
proof (induction ms rule: rev_induct)
  case Nil
  then show ?case by (simp add: NewLinearIndexMatcher_def)
next
  case (snoc m ms)
  then show ?case by (cases m) (simp_all add: Linear_Add_def Let_def numbered_snoc add.commute)
qed

lemma MphIndex_adds:
  "fold (\<lambda>m g. fst (MphIndex_Add m g)) ms NewMphIndexMatcher =
     \<lparr>mi_count = word_of_nat (length ms), mi_mph = group_of NewMphMatcherGroup mph_add (pick table_of (numbered ms)),
      mi_ac = group_of NewACAutomatonMatcherGroup ac_add (pick keyword_of (numbered ms)),
      mi_regex = group_of [] SimpleMatcherGroup_AddMatcher (pick regex_of (numbered ms))\<rparr>"
proof (induction ms rule: rev_induct)
  case Nil
  then show ?case by (simp add: NewMphIndexMatcher_def)
next
  case (snoc m ms)
  then show ?case by (cases m) (simp_all add: MphIndex_Add_def Let_def numbered_snoc add.commute)
qed

lemma concat_keep_matches [simp]: "concat (keep_matches r rs) = concat rs @ r"
  by (simp add: keep_matches_def)

section \<open>Both matchers keep the contract\<close>

definition linear_fits :: "Matcher list \<Rightarrow> bytes \<Rightarrow> bool" where
  "linear_fits ms s \<longleftrightarrow> list_all plain_domain (List.map_filter domain_of ms) \<and> list_all (\<lambda>p. p \<noteq> []) (List.map_filter substr_of ms) \<and>
     length ms \<le> 65536 \<and> length s \<le> 65536"

definition mph_fits :: "(u32 \<Rightarrow> bytes \<Rightarrow> u32) \<Rightarrow> ((nat \<Rightarrow> nat) \<Rightarrow> nat list \<Rightarrow> nat list) \<Rightarrow> Matcher list \<Rightarrow> bytes \<Rightarrow> bool" where
  "mph_fits memHash srt ms s \<longleftrightarrow> list_all mph_pattern (List.map_filter table_of ms) \<and> length ms < 2 ^ 30 \<and> permutes_lists srt \<and>
     spreads memHash (List.map_filter table_of ms) \<and> list_all ac_pattern (List.map_filter keyword_of ms) \<and> list_all ldh_lower s"

lemma linear_matches:
  assumes "linear_fits ms s"
  shows "\<exists>r. Linear_Match (fold (\<lambda>m g. fst (Linear_Add m g)) ms NewLinearIndexMatcher) s = Some r \<and>
     set r = {v. \<exists>m. (m, v) \<in> set (numbered ms) \<and> Matcher_Match m s} \<and>
     (Linear_MatchAny (fold (\<lambda>m g. fst (Linear_Add m g)) ms NewLinearIndexMatcher) s \<longleftrightarrow> r \<noteq> [])"
proof -
  let ?ms = "numbered ms"
  have fits: "list_all plain_domain (map fst (pick domain_of ?ms))" "list_all (\<lambda>p. p \<noteq> []) (map fst (pick substr_of ?ms))"
    "length (pick substr_of ?ms) \<le> 65536" "length s \<le> 65536"
    using assms pick_length [of substr_of ?ms] by (simp_all add: linear_fits_def map_fst_pick)
  obtain a where a: "group_matches (\<lambda>g s. Some (FullMatcherGroup_Match g s)) (group_of NewFullMatcherGroup AddFullMatcher (pick full_of ?ms)) s = Some a"
      "set a = {v. \<exists>p. (p, v) \<in> set (pick full_of ?ms) \<and> FullMatcher_Match p s}"
      "group_any FullMatcherGroup_MatchAny (group_of NewFullMatcherGroup AddFullMatcher (pick full_of ?ms)) s \<longleftrightarrow> a \<noteq> []"
    using full_g.group_of_matches [of "pick full_of ?ms" s] by auto
  obtain b where b: "group_matches (\<lambda>g s. Some (DomainMatcherGroup_Match g s)) (group_of NewDomainMatcherGroup AddDomainMatcher (pick domain_of ?ms)) s = Some b"
      "set b = {v. \<exists>p. (p, v) \<in> set (pick domain_of ?ms) \<and> DomainMatcher_Match p s}"
      "group_any DomainMatcherGroup_MatchAny (group_of NewDomainMatcherGroup AddDomainMatcher (pick domain_of ?ms)) s \<longleftrightarrow> b \<noteq> []"
    using domain_g.group_of_matches [of "pick domain_of ?ms" s] fits by auto
  obtain c where c: "group_matches SubstrMatcherGroup_Match (group_of NewSubstrMatcherGroup AddSubstrMatcher (pick substr_of ?ms)) s = Some c"
      "set c = {v. \<exists>p. (p, v) \<in> set (pick substr_of ?ms) \<and> SubstrMatcher_Match p s}"
      "group_any SubstrMatcherGroup_MatchAny (group_of NewSubstrMatcherGroup AddSubstrMatcher (pick substr_of ?ms)) s \<longleftrightarrow> c \<noteq> []"
    using substr_g.group_of_matches [of "pick substr_of ?ms" s] fits by auto
  obtain d where d: "group_matches (\<lambda>g s. Some (SimpleMatcherGroup_Match g s)) (group_of [] SimpleMatcherGroup_AddMatcher (pick regex_of ?ms)) s = Some d"
      "set d = {v. \<exists>p. (p, v) \<in> set (pick regex_of ?ms) \<and> Matcher_Match p s}"
      "group_any SimpleMatcherGroup_MatchAny (group_of [] SimpleMatcherGroup_AddMatcher (pick regex_of ?ms)) s \<longleftrightarrow> d \<noteq> []"
    using simple_g.group_of_matches [of "pick regex_of ?ms" s] by auto
  have "Matcher_Match m s \<longleftrightarrow> (\<exists>p. full_of m = Some p \<and> FullMatcher_Match p s) \<or> (\<exists>p. domain_of m = Some p \<and> DomainMatcher_Match p s) \<or>
      (\<exists>p. substr_of m = Some p \<and> SubstrMatcher_Match p s) \<or> (\<exists>p. regex_of m = Some p \<and> Matcher_Match p s)" for m
    by (cases m) auto
  then have "set a \<union> set b \<union> set c \<union> set d = {v. \<exists>m. (m, v) \<in> set ?ms \<and> Matcher_Match m s}"
    unfolding a(2) b(2) c(2) d(2) in_pick by blast
  then show ?thesis using a b c d by (auto simp: Linear_Match_def Linear_MatchAny_def Linear_adds Un_assoc)
qed

interpretation linear_index: index_matcher NewLinearIndexMatcher Linear_Add Linear_Build Linear_Match Linear_MatchAny Linear_Size linear_fits
proof
  show "Linear_Size (fold (\<lambda>m g. fst (Linear_Add m g)) ms NewLinearIndexMatcher) = word_of_nat (length ms)" for ms
    by (simp add: Linear_Size_def Linear_adds)
  show "snd (Linear_Add m g) = Linear_Size g + 1" for m g by (simp add: Linear_Add_def Linear_Size_def Let_def)
qed (use linear_matches in \<open>auto simp: Linear_Build_def\<close>)

lemma build_then_match:
  assumes "group_matches (\<lambda>g s. Option.bind (build g) (\<lambda>b. mtch b s)) g s = Some r"
  obtains b where "group_build build g = Some b" "group_matches mtch b s = Some r"
    "\<And>any. group_any any b s \<longleftrightarrow> group_any (\<lambda>g s. case build g of None \<Rightarrow> False | Some b \<Rightarrow> any b s) g s"
proof (cases g)
  case None
  then show ?thesis using assms that [of None] by (simp add: group_matches_def group_build_def group_any_def)
next
  case (Some h)
  then obtain b where "build h = Some b" "mtch b s = Some r" using assms by (auto simp: group_matches_def bind_eq_Some_conv)
  then show ?thesis using Some that [of "Some b"] by (simp add: group_matches_def group_build_def group_any_def)
qed

lemma table_match_alt: "table_match memHash srt = (\<lambda>g s. Option.bind (mph_Build memHash srt g) (\<lambda>b. Some (mph_Match memHash b s)))"
  by (auto simp: fun_eq_iff table_match_def split: bind_splits)

lemma table_any_alt: "table_any memHash srt = (\<lambda>g s. case mph_Build memHash srt g of None \<Rightarrow> False | Some b \<Rightarrow> mph_MatchAny memHash b s)"
  by (simp add: fun_eq_iff table_any_def)

lemma built_alt: "built_match = (\<lambda>g s. Option.bind (ac_Build g) (\<lambda>b. ac_Match b s))"
  "built_any = (\<lambda>g s. case ac_Build g of None \<Rightarrow> False | Some b \<Rightarrow> ac_MatchAny b s)"
  by (simp_all add: fun_eq_iff built_match_def built_any_def)

lemma mph_matches:
  assumes "mph_fits memHash srt ms s"
  shows "\<exists>g r. MphIndex_Build memHash srt (fold (\<lambda>m g. fst (MphIndex_Add m g)) ms NewMphIndexMatcher) = Some g \<and>
     MphIndex_Match memHash g s = Some r \<and> set r = {v. \<exists>m. (m, v) \<in> set (numbered ms) \<and> Matcher_Match m s} \<and>
     (MphIndex_MatchAny memHash g s \<longleftrightarrow> r \<noteq> [])"
proof -
  let ?ms = "numbered ms"
  let ?t = "group_of NewMphMatcherGroup mph_add (pick table_of ?ms)" and ?k = "group_of NewACAutomatonMatcherGroup ac_add (pick keyword_of ?ms)"
  have fits: "list_all mph_pattern (map fst (pick table_of ?ms)) \<and> length (map fst (pick table_of ?ms)) < 2 ^ 30 \<and> permutes_lists srt \<and> spreads memHash (map fst (pick table_of ?ms))"
    "list_all ac_pattern (map fst (pick keyword_of ?ms)) \<and> list_all ldh_lower s"
    using assms pick_length [of table_of ?ms] by (simp_all add: mph_fits_def map_fst_pick flip: length_map [of fst "pick table_of ?ms"])
  obtain a where a: "group_matches (table_match memHash srt) ?t s = Some a"
      "set a = {v. \<exists>p. (p, v) \<in> set (pick table_of ?ms) \<and> Matcher_Match p s}" "group_any (table_any memHash srt) ?t s \<longleftrightarrow> a \<noteq> []"
    using mph_g.group_of_matches [OF fits(1), of s] by blast
  obtain c where c: "group_matches built_match ?k s = Some c"
      "set c = {v. \<exists>p. (p, v) \<in> set (pick keyword_of ?ms) \<and> Matcher_Match p s}" "group_any built_any ?k s \<longleftrightarrow> c \<noteq> []"
    using ac_g.group_of_matches [OF fits(2)] by blast
  obtain d where d: "group_matches (\<lambda>g s. Some (SimpleMatcherGroup_Match g s)) (group_of [] SimpleMatcherGroup_AddMatcher (pick regex_of ?ms)) s = Some d"
      "set d = {v. \<exists>p. (p, v) \<in> set (pick regex_of ?ms) \<and> Matcher_Match p s}"
      "group_any SimpleMatcherGroup_MatchAny (group_of [] SimpleMatcherGroup_AddMatcher (pick regex_of ?ms)) s \<longleftrightarrow> d \<noteq> []"
    using simple_g.group_of_matches [of "pick regex_of ?ms" s] by auto
  obtain t where t: "group_build (mph_Build memHash srt) ?t = Some t" "group_matches (\<lambda>g s. Some (mph_Match memHash g s)) t s = Some a"
      "group_any (mph_MatchAny memHash) t s \<longleftrightarrow> a \<noteq> []"
    using build_then_match [OF a(1) [unfolded table_match_alt]] a(3) [unfolded table_any_alt] by metis
  obtain k where k: "group_build ac_Build ?k = Some k" "group_matches ac_Match k s = Some c" "group_any ac_MatchAny k s \<longleftrightarrow> c \<noteq> []"
    using build_then_match [OF c(1) [unfolded built_alt]] c(3) [unfolded built_alt] by metis
  have "Matcher_Match m s \<longleftrightarrow> (\<exists>p. table_of m = Some p \<and> Matcher_Match p s) \<or> (\<exists>p. keyword_of m = Some p \<and> Matcher_Match p s) \<or>
      (\<exists>p. regex_of m = Some p \<and> Matcher_Match p s)" for m
    by (cases m) auto
  then have "set a \<union> set c \<union> set d = {v. \<exists>m. (m, v) \<in> set ?ms \<and> Matcher_Match m s}"
    unfolding a(2) c(2) d(2) in_pick by blast
  then show ?thesis using t k d by (auto simp: MphIndex_Build_def MphIndex_Match_def MphIndex_MatchAny_def MphIndex_adds Un_assoc)
qed

interpretation mph_index: index_matcher NewMphIndexMatcher MphIndex_Add "MphIndex_Build memHash srt" "MphIndex_Match memHash"
    "MphIndex_MatchAny memHash" MphIndex_Size "mph_fits memHash srt" for memHash srt
proof
  show "MphIndex_Size (fold (\<lambda>m g. fst (MphIndex_Add m g)) ms NewMphIndexMatcher) = word_of_nat (length ms)" for ms
    by (simp add: MphIndex_Size_def MphIndex_adds)
  show "snd (MphIndex_Add m g) = MphIndex_Size g + 1" for m g by (simp add: MphIndex_Add_def MphIndex_Size_def Let_def)
qed (use mph_matches in auto)

section \<open>Properties\<close>



text \<open>The linear index matcher follows the priority specification of \<^verbatim>\<open>IndexMatcher\<close>: it returns the
  full matchers, then the domain matchers with the longest pattern first, then every occurrence of
  a keyword with the leftmost first, then the regular expressions, each in the order of addition
  where the specification leaves a choice.\<close>

theorem linear_index_priority:
  assumes "linear_fits ms s"
  defines "xs \<equiv> numbered ms"
  shows "Linear_Match (fold (\<lambda>m g. fst (Linear_Add m g)) ms NewLinearIndexMatcher) s = Some (
     map snd (filter (\<lambda>(p, v). FullMatcher_Match p s) (pick full_of xs)) @
     map snd (sort_key (\<lambda>(p, v). length s - length p) (filter (\<lambda>(p, v). DomainMatcher_Match p s) (pick domain_of xs))) @
     map snd (sort_key fst (occurring s (pick substr_of xs))) @
     map snd (filter (\<lambda>(p, v). Matcher_Match p s) (pick regex_of xs)))"
proof -
  have fits: "\<forall>(p, v) \<in> set (pick domain_of xs). plain_domain p" "list_all (\<lambda>p. p \<noteq> []) (map fst (pick substr_of xs))"
    "length (pick substr_of xs) \<le> 65536" "length s \<le> 65536"
    using assms pick_length [of substr_of xs] by (simp_all add: linear_fits_def map_fst_pick flip: list_all_fst)
  have "group_matches (\<lambda>g s. Some (FullMatcherGroup_Match g s)) (group_of NewFullMatcherGroup AddFullMatcher (pick full_of xs)) s =
      Some (map snd (filter (\<lambda>(p, v). FullMatcher_Match p s) (pick full_of xs)))"
    by (simp add: group_matches_def group_of_def full_group)
  moreover have "group_matches (\<lambda>g s. Some (DomainMatcherGroup_Match g s)) (group_of NewDomainMatcherGroup AddDomainMatcher (pick domain_of xs)) s =
      Some (map snd (sort_key (\<lambda>(p, v). length s - length p) (filter (\<lambda>(p, v). DomainMatcher_Match p s) (pick domain_of xs))))"
    by (simp add: group_matches_def group_of_def domain_group_sorted [OF fits(1)])
  moreover have "group_matches SubstrMatcherGroup_Match (group_of NewSubstrMatcherGroup AddSubstrMatcher (pick substr_of xs)) s =
      Some (map snd (sort_key fst (occurring s (pick substr_of xs))))"
    by (simp add: group_matches_def group_of_def substr_group_sorted [OF fits(2-)] occurring_def)
  moreover have "group_matches (\<lambda>g s. Some (SimpleMatcherGroup_Match g s)) (group_of [] SimpleMatcherGroup_AddMatcher (pick regex_of xs)) s =
      Some (map snd (filter (\<lambda>(p, v). Matcher_Match p s) (pick regex_of xs)))"
    by (simp add: group_matches_def group_of_def simple_group)
  ultimately show ?thesis by (simp add: Linear_Match_def Linear_adds xs_def)
qed

theorem linear_index_priority_witness:
  "Linear_Match (fold (\<lambda>m g. fst (Linear_Add m g))
     [RegexMatcher [] (\<lambda>x. length x = 5), DomainMatcher (str ''c''), DomainMatcher (str ''b.c''), FullMatcher (str ''a.b.c''), FullMatcher (str ''c'')]
     NewLinearIndexMatcher) (str ''a.b.c'') = Some [4, 3, 2, 1]"
proof -
  have "linear_fits [RegexMatcher [] (\<lambda>x. length x = 5), DomainMatcher (str ''c''), DomainMatcher (str ''b.c''), FullMatcher (str ''a.b.c''), FullMatcher (str ''c'')] (str ''a.b.c'')"
    by (simp add: linear_fits_def List.map_filter_def plain_domain_def str_def dot_def)
  from linear_index_priority [OF this] show ?thesis
    by (simp add: numbered_def pick_def List.map_filter_def FullMatcher_Match_def DomainMatcher_Match_def HasSuffix_def occurring_def str_def dot_def upt_rec)
qed

end
