(* ===== verification/Outbound_Manager.thy ===== *)
theory Outbound_Manager
  imports Strmatcher "HOL-Library.AList"
begin

text \<open>
  The manager of outbound handlers, \<^verbatim>\<open>app/proxyman/outbound/outbound.go\<close>. A handler is an identity with a tag; what its
  \<^verbatim>\<open>Start\<close> and \<^verbatim>\<open>Close\<close> return is a parameter, and the calls are recorded. The order of a Go map is the
  order of the association list, of which nothing is assumed. Every method holds the lock, so
  it is one step.
\<close>

section \<open>Operations\<close>

definition HasPrefix :: "bytes \<Rightarrow> bytes \<Rightarrow> bool" where
  "HasPrefix s p \<longleftrightarrow> length p \<le> length s \<and> take (length p) s = p"

lemma HasPrefix_prefix: "HasPrefix s p \<longleftrightarrow> prefix p s"
  by (auto simp: HasPrefix_def prefix_def) (metis append_take_drop_id)

record Handler =
  h_id :: nat
  h_Tag :: bytes

datatype handler_call = Started Handler | Closed Handler

record Manager =
  om_default :: "Handler option"
  om_tagged :: "(bytes \<times> Handler) list"
  om_untagged :: "Handler list"
  om_running :: bool

definition NewManager :: Manager where
  "NewManager = \<lparr>om_default = None, om_tagged = [], om_untagged = [], om_running = False\<rparr>"

text \<open>Handlers are started until one fails; the result tells whether all were started.\<close>

fun start_all :: "(Handler \<Rightarrow> bool) \<Rightarrow> Handler list \<Rightarrow> handler_call list \<times> bool" where
  "start_all fails [] = ([], True)"
| "start_all fails (h # hs) =
     (if fails h then ([Started h], False)
      else case start_all fails hs of (calls, ok) \<Rightarrow> (Started h # calls, ok))"

definition Manager_Start :: "(Handler \<Rightarrow> bool) \<Rightarrow> Manager \<Rightarrow> Manager \<times> handler_call list \<times> bool" where
  "Manager_Start fails m = (m\<lparr>om_running := True\<rparr>, start_all fails (map snd (om_tagged m) @ om_untagged m))"

definition Manager_Close :: "(Handler \<Rightarrow> bool) \<Rightarrow> Manager \<Rightarrow> Manager \<times> handler_call list \<times> bool" where
  "Manager_Close fails m =
     (let hs = map snd (om_tagged m) @ om_untagged m in (m\<lparr>om_running := False\<rparr>, map Closed hs, \<not> list_ex fails hs))"

definition GetDefaultHandler :: "Manager \<Rightarrow> Handler option" where
  "GetDefaultHandler m = om_default m"

definition GetHandler :: "bytes \<Rightarrow> Manager \<Rightarrow> Handler option" where
  "GetHandler tag m = map_of (om_tagged m) tag"

definition AddHandler :: "(Handler \<Rightarrow> bool) \<Rightarrow> Handler \<Rightarrow> Manager \<Rightarrow> Manager \<times> handler_call list \<times> bool" where
  "AddHandler fails handler m =
     (let tag = h_Tag handler;
          m = (case om_default m of
                 None \<Rightarrow> m\<lparr>om_default := Some handler\<rparr>
               | Some d \<Rightarrow> if length tag > 0 \<and> tag = h_Tag d then m\<lparr>om_default := Some handler\<rparr> else m);
          (m, calls) = (if length tag > 0
             then (m\<lparr>om_tagged := AList.update tag handler (om_tagged m)\<rparr>,
                   case map_of (om_tagged m) tag of None \<Rightarrow> [] | Some old \<Rightarrow> [Closed old])
             else (m\<lparr>om_untagged := om_untagged m @ [handler]\<rparr>, []))
      in if om_running m then (m, calls @ [Started handler], \<not> fails handler) else (m, calls, True))"

definition RemoveHandler :: "bytes \<Rightarrow> Manager \<Rightarrow> Manager \<times> handler_call list \<times> bool" where
  "RemoveHandler tag m =
     (if tag = [] then (m, [], False)
      else case map_of (om_tagged m) tag of
        None \<Rightarrow> (m, [], False)
      | Some handler \<Rightarrow>
          let m = m\<lparr>om_tagged := AList.delete tag (om_tagged m)\<rparr>
          in (case om_default m of
                None \<Rightarrow> m
              | Some d \<Rightarrow> if h_Tag d = tag then m\<lparr>om_default := None\<rparr> else m, [Closed handler], True))"

fun matches_any :: "bytes \<Rightarrow> bytes list \<Rightarrow> bool" where
  "matches_any tag [] = False"
| "matches_any tag (selector # selectors) = (if HasPrefix tag selector then True else matches_any tag selectors)"

definition Manager_Select :: "bytes list \<Rightarrow> Manager \<Rightarrow> bytes list" where
  "Manager_Select selectors m = filter (\<lambda>tag. matches_any tag selectors) (map fst (om_tagged m))"

section \<open>The manager keeps its handlers\<close>

text \<open>Every tag leads to a handler of that tag, and the default handler is one of the registered ones.\<close>

definition manager_ok :: "Manager \<Rightarrow> bool" where
  "manager_ok m \<longleftrightarrow> distinct (map fst (om_tagged m)) \<and> (\<forall>(t, h) \<in> set (om_tagged m). t \<noteq> [] \<and> h_Tag h = t) \<and>
     (\<forall>h \<in> set (om_untagged m). h_Tag h = []) \<and>
     (case om_default m of None \<Rightarrow> True
      | Some d \<Rightarrow> if h_Tag d = [] then d \<in> set (om_untagged m) else map_of (om_tagged m) (h_Tag d) = Some d)"

lemma manager_ok_new: "manager_ok NewManager"
  by (simp add: manager_ok_def NewManager_def)

lemma manager_ok_running [simp]: "manager_ok (m\<lparr>om_running := b\<rparr>) = manager_ok m"
  by (cases "om_default m") (simp_all add: manager_ok_def)

lemma in_update_distinct:
  assumes "distinct (map fst al)" and "(k, v) \<in> set (AList.update t h al)"
  shows "k = t \<and> v = h \<or> (k, v) \<in> set al"
proof -
  have "distinct (map fst (AList.update t h al))" using assms(1) by (rule distinct_update)
  then have "map_of (AList.update t h al) k = Some v" using assms(2) by simp
  then show ?thesis by (auto simp: update_conv' map_of_SomeD split: if_splits)
qed

lemma AddHandler_fields:
  assumes "AddHandler fails h m = (m', calls, ok)"
  shows "om_default m' = (case om_default m of None \<Rightarrow> Some h | Some d \<Rightarrow> if h_Tag h \<noteq> [] \<and> h_Tag h = h_Tag d then Some h else Some d)"
    and "om_tagged m' = (if h_Tag h \<noteq> [] then AList.update (h_Tag h) h (om_tagged m) else om_tagged m)"
    and "om_untagged m' = (if h_Tag h \<noteq> [] then om_untagged m else om_untagged m @ [h])"
  using assms by (auto simp: AddHandler_def Let_def split: option.splits if_splits)

lemma AddHandler_ok:
  assumes "manager_ok m" and "AddHandler fails h m = (m', calls, ok)"
  shows "manager_ok m'"
proof -
  note f = AddHandler_fields [OF assms(2)]
  have d: "distinct (map fst (om_tagged m))" using assms(1) by (simp add: manager_ok_def)
  have "distinct (map fst (om_tagged m'))" using d by (simp add: f distinct_update)
  moreover have "t \<noteq> [] \<and> h_Tag k = t" if "(t, k) \<in> set (om_tagged m')" for t k
    using that assms(1) in_update_distinct [OF d, of t k "h_Tag h" h] by (auto simp: f manager_ok_def split: if_splits)
  then have "\<forall>(t, k) \<in> set (om_tagged m'). t \<noteq> [] \<and> h_Tag k = t" by blast
  moreover have "\<forall>k \<in> set (om_untagged m'). h_Tag k = []" using assms(1) by (auto simp: f manager_ok_def)
  moreover have "case om_default m' of None \<Rightarrow> True
      | Some d \<Rightarrow> if h_Tag d = [] then d \<in> set (om_untagged m') else map_of (om_tagged m') (h_Tag d) = Some d"
    using assms(1) by (auto simp: f manager_ok_def update_conv' split: option.splits if_splits)
  ultimately show ?thesis unfolding manager_ok_def by blast
qed

lemma RemoveHandler_ok:
  assumes "manager_ok m" and "RemoveHandler tag m = (m', calls, ok)"
  shows "manager_ok m'"
proof (cases "tag = [] \<or> map_of (om_tagged m) tag = None")
  case True
  then show ?thesis using assms by (auto simp: RemoveHandler_def split: if_splits)
next
  case False
  then have m': "om_tagged m' = AList.delete tag (om_tagged m)" "om_untagged m' = om_untagged m"
      "om_default m' = (case om_default m of None \<Rightarrow> None | Some d \<Rightarrow> if h_Tag d = tag then None else Some d)"
    using assms(2) by (auto simp: RemoveHandler_def Let_def split: option.splits if_splits)
  have "set (AList.delete tag (om_tagged m)) \<subseteq> set (om_tagged m)" by (auto simp: AList.delete_eq)
  moreover have "distinct (map fst (AList.delete tag (om_tagged m)))" using assms(1) by (simp add: manager_ok_def distinct_delete)
  ultimately show ?thesis using assms(1) unfolding manager_ok_def m'
    by (auto simp: delete_conv' split: option.splits if_splits)
qed

lemma matches_any_iff: "matches_any tag ss \<longleftrightarrow> (\<exists>s \<in> set ss. prefix s tag)"
  by (induction ss) (auto simp: HasPrefix_prefix)

lemma Manager_Select_iff:
  assumes "manager_ok m"
  shows "t \<in> set (Manager_Select ss m) \<longleftrightarrow> (\<exists>h. GetHandler t m = Some h \<and> (\<exists>s \<in> set ss. prefix s t))"
  using assms by (auto simp: Manager_Select_def matches_any_iff GetHandler_def manager_ok_def dest: map_of_SomeD)
    (metis map_of_eq_Some_iff fst_conv imageI)+

inductive manager_step :: "Manager \<Rightarrow> Manager \<Rightarrow> bool" where
  start: "Manager_Start fails m = (m', r) \<Longrightarrow> manager_step m m'"
| close: "Manager_Close fails m = (m', r) \<Longrightarrow> manager_step m m'"
| add: "AddHandler fails h m = (m', r) \<Longrightarrow> manager_step m m'"
| remove: "RemoveHandler tag m = (m', r) \<Longrightarrow> manager_step m m'"

lemma manager_step_ok: "manager_step m m' \<Longrightarrow> manager_ok m \<Longrightarrow> manager_ok m'"
proof (induction rule: manager_step.induct)
  case (add fails h m m' r)
  then show ?case using AddHandler_ok by (cases r) blast
next
  case (remove tag m m' r)
  then show ?case using RemoveHandler_ok by (cases r) blast
qed (auto simp: Manager_Start_def Manager_Close_def Let_def)

lemma manager_reachable_ok: "manager_step\<^sup>*\<^sup>* NewManager m \<Longrightarrow> manager_ok m"
  by (induction rule: rtranclp_induct) (auto simp: manager_ok_new manager_step_ok)

end
