(* ===== verification/Route_Condition.thy ===== *)
theory Route_Condition
  imports Route_Context Index_Matcher Outbound_Manager
begin

text \<open>
  Routing, second part: the conditions of a rule, \<^verbatim>\<open>app/router/condition.go\<close> and \<^verbatim>\<open>app/router/condition_geoip.go\<close>. Code
  outside the repository is collected in the record \<open>route_env\<close>: the punycode conversion, the regular
  expressions, the hash function and the sorting of the Go runtime, the sets of addresses of \<^verbatim>\<open>go4.org/netipx\<close>
  and the Starlark interpreter. A condition that asks for the target addresses may send a DNS query, so
  applying one passes the context along.
\<close>

section \<open>Libraries\<close>

text \<open>An address of \<^verbatim>\<open>net/netip\<close> is its 4 or 16 bytes, a prefix an address with a number of bits.\<close>

type_synonym ip_prefix = "bytes \<times> nat"

definition AddrFromSlice :: "bytes \<Rightarrow> bytes option" where
  "AddrFromSlice ip = (if length ip = 4 \<or> length ip = 16 then Some ip else None)"

definition Unmap :: "bytes \<Rightarrow> bytes" where
  "Unmap ip = (if length ip = 16 \<and> take 10 ip = replicate 10 0 \<and> take 2 (drop 10 ip) = [0xff, 0xff] then drop 12 ip else ip)"

record route_env =
  re_toASCII :: "bytes \<Rightarrow> bytes option"
  re_regexp :: "bytes \<Rightarrow> (bytes \<Rightarrow> bool) option"
  re_memHash :: "u32 \<Rightarrow> bytes \<Rightarrow> u32"
  re_sort :: "(nat \<Rightarrow> nat) \<Rightarrow> nat list \<Rightarrow> nat list"
  re_IPSet :: "ip_prefix list \<Rightarrow> (bytes \<Rightarrow> bool) option"
  re_FromStdIP :: "bytes \<Rightarrow> bytes option"
  re_starlark :: "bytes \<Rightarrow> (attributes \<Rightarrow> bool) option"

section \<open>Domains\<close>

datatype Domain_Type = Domain_Plain | Domain_Regex | Domain_RootDomain | Domain_Full | Domain_Unrecognized int

record RouteDomain =
  dm_Type :: Domain_Type
  dm_Value :: bytes

datatype route_error = UnsupportedDomainType | BadDomain pattern_error | InvalidIP | BadPrefix | BadAttributes | NoEffectiveFields
  | BalancerNotFound | BadSettings | WrongSettings | UnrecognizedBalancer

fun matcherTypeMap :: "Domain_Type \<Rightarrow> byte option" where
  "matcherTypeMap Domain_Plain = Some Substr"
| "matcherTypeMap Domain_Regex = Some Regex"
| "matcherTypeMap Domain_RootDomain = Some Strmatcher.Domain"
| "matcherTypeMap Domain_Full = Some Full"
| "matcherTypeMap (Domain_Unrecognized _) = None"

text \<open>\<open>None\<close> is a punycode conversion that never ends.\<close>

definition domainToMatcher :: "route_env \<Rightarrow> RouteDomain \<Rightarrow> (route_error + Matcher) option" where
  "domainToMatcher env domain =
     (case matcherTypeMap (dm_Type domain) of
        None \<Rightarrow> Some (Inl UnsupportedDomainType)
      | Some matcherType \<Rightarrow> map_option (map_sum BadDomain (\<lambda>m. m)) (Type_New (re_toASCII env) (re_regexp env) matcherType (dm_Value domain)))"

datatype IndexMatcher = LinearIndex LinearIndexMatcher | MphIndex MphIndexMatcher

fun IndexMatcher_Add :: "Matcher \<Rightarrow> IndexMatcher \<Rightarrow> IndexMatcher" where
  "IndexMatcher_Add m (LinearIndex g) = LinearIndex (fst (Linear_Add m g))"
| "IndexMatcher_Add m (MphIndex g) = MphIndex (fst (MphIndex_Add m g))"

fun IndexMatcher_Build :: "route_env \<Rightarrow> IndexMatcher \<Rightarrow> IndexMatcher option" where
  "IndexMatcher_Build env (LinearIndex g) = map_option LinearIndex (Linear_Build g)"
| "IndexMatcher_Build env (MphIndex g) = map_option MphIndex (MphIndex_Build (re_memHash env) (re_sort env) g)"

fun IndexMatcher_MatchAny :: "route_env \<Rightarrow> IndexMatcher \<Rightarrow> bytes \<Rightarrow> bool" where
  "IndexMatcher_MatchAny env (LinearIndex g) s = Linear_MatchAny g s"
| "IndexMatcher_MatchAny env (MphIndex g) s = MphIndex_MatchAny (re_memHash env) g s"

definition new_index :: "bytes \<Rightarrow> IndexMatcher" where
  "new_index matcherType =
     (if matcherType = str ''mph'' \<or> matcherType = str ''hybrid'' then MphIndex NewMphIndexMatcher
      else if matcherType = str ''linear'' then LinearIndex NewLinearIndexMatcher
      else LinearIndex NewLinearIndexMatcher)"

fun add_domains :: "route_env \<Rightarrow> RouteDomain list \<Rightarrow> IndexMatcher \<Rightarrow> (route_error + IndexMatcher) option" where
  "add_domains env [] g = Some (Inr g)"
| "add_domains env (domain # domains) g =
     (case domainToMatcher env domain of
        None \<Rightarrow> None
      | Some (Inl err) \<Rightarrow> Some (Inl err)
      | Some (Inr matcher) \<Rightarrow> add_domains env domains (IndexMatcher_Add matcher g))"

definition NewDomainMatcher :: "route_env \<Rightarrow> bytes \<Rightarrow> RouteDomain list \<Rightarrow> (route_error + IndexMatcher) option" where
  "NewDomainMatcher env matcherType domains =
     (case add_domains env domains (new_index matcherType) of
        None \<Rightarrow> None
      | Some (Inl err) \<Rightarrow> Some (Inl err)
      | Some (Inr g) \<Rightarrow> map_option Inr (IndexMatcher_Build env g))"

definition DomainMatcher_Apply :: "route_env \<Rightarrow> IndexMatcher \<Rightarrow> RoutingContext \<Rightarrow> bool" where
  "DomainMatcher_Apply env m ctx =
     (let domain = rc_TargetDomain ctx in if length domain = 0 then False else IndexMatcher_MatchAny env m domain)"

section \<open>Address sets\<close>

record CIDR =
  cidr_Ip :: bytes
  cidr_Prefix :: u32

record GeoIP =
  geo_CountryCode :: bytes
  geo_Cidr :: "CIDR list"
  geo_InverseMatch :: bool

record GeoIPMatcher =
  gm_countryCode :: bytes
  gm_reverseMatch :: bool
  gm_ip4 :: "bytes \<Rightarrow> bool"
  gm_ip6 :: "bytes \<Rightarrow> bool"

fun Init_loop :: "CIDR list \<Rightarrow> ip_prefix list \<Rightarrow> ip_prefix list \<Rightarrow> route_error + (ip_prefix list \<times> ip_prefix list)" where
  "Init_loop [] builder4 builder6 = Inr (builder4, builder6)"
| "Init_loop (cidr # cidrs) builder4 builder6 =
     (case AddrFromSlice (cidr_Ip cidr) of
        None \<Rightarrow> Inl InvalidIP
      | Some netaddrIP \<Rightarrow>
          let netaddrIP = Unmap netaddrIP; ipPrefix = (netaddrIP, unat (cidr_Prefix cidr))
          in if length netaddrIP = 4 then Init_loop cidrs (builder4 @ [ipPrefix]) builder6
             else if length netaddrIP = 16 then Init_loop cidrs builder4 (builder6 @ [ipPrefix])
             else Init_loop cidrs builder4 builder6)"

definition GeoIPMatcher_Init :: "route_env \<Rightarrow> CIDR list \<Rightarrow> GeoIPMatcher \<Rightarrow> route_error + GeoIPMatcher" where
  "GeoIPMatcher_Init env cidrs m =
     (case Init_loop cidrs [] [] of
        Inl err \<Rightarrow> Inl err
      | Inr (builder4, builder6) \<Rightarrow>
          (case re_IPSet env builder4 of
             None \<Rightarrow> Inl BadPrefix
           | Some ip4 \<Rightarrow>
               (case re_IPSet env builder6 of
                  None \<Rightarrow> Inl BadPrefix
                | Some ip6 \<Rightarrow> Inr (m\<lparr>gm_ip4 := ip4, gm_ip6 := ip6\<rparr>))))"

definition SetReverseMatch :: "bool \<Rightarrow> GeoIPMatcher \<Rightarrow> GeoIPMatcher" where
  "SetReverseMatch isReverseMatch m = m\<lparr>gm_reverseMatch := isReverseMatch\<rparr>"

definition match4 :: "route_env \<Rightarrow> GeoIPMatcher \<Rightarrow> bytes \<Rightarrow> bool" where
  "match4 env m ip = (case re_FromStdIP env ip of None \<Rightarrow> False | Some nip \<Rightarrow> gm_ip4 m nip)"

definition match6 :: "route_env \<Rightarrow> GeoIPMatcher \<Rightarrow> bytes \<Rightarrow> bool" where
  "match6 env m ip = (case re_FromStdIP env ip of None \<Rightarrow> False | Some nip \<Rightarrow> gm_ip6 m nip)"

definition GeoIPMatcher_Match :: "route_env \<Rightarrow> GeoIPMatcher \<Rightarrow> bytes \<Rightarrow> bool" where
  "GeoIPMatcher_Match env m ip =
     (let isMatched = (if length ip = 4 then match4 env m ip else if length ip = 16 then match6 env m ip else False)
      in if gm_reverseMatch m then \<not> isMatched else isMatched)"

text \<open>The container keeps the matchers with a country code.\<close>

definition Container_Add :: "route_env \<Rightarrow> GeoIP \<Rightarrow> GeoIPMatcher list \<Rightarrow> GeoIPMatcher list \<times> (route_error + GeoIPMatcher)" where
  "Container_Add env geoip c =
     (case (if geo_CountryCode geoip \<noteq> [] then find (\<lambda>m. gm_countryCode m = geo_CountryCode geoip \<and> gm_reverseMatch m = geo_InverseMatch geoip) c else None) of
        Some m \<Rightarrow> (c, Inr m)
      | None \<Rightarrow>
          (case GeoIPMatcher_Init env (geo_Cidr geoip)
               \<lparr>gm_countryCode = geo_CountryCode geoip, gm_reverseMatch = geo_InverseMatch geoip, gm_ip4 = (\<lambda>_. False), gm_ip6 = (\<lambda>_. False)\<rparr> of
             Inl err \<Rightarrow> (c, Inl err)
           | Inr m \<Rightarrow> (if geo_CountryCode geoip \<noteq> [] then c @ [m] else c, Inr m)))"

fun NewMultiGeoIPMatcher :: "route_env \<Rightarrow> GeoIP list \<Rightarrow> GeoIPMatcher list \<Rightarrow> GeoIPMatcher list \<times> (route_error + GeoIPMatcher list)" where
  "NewMultiGeoIPMatcher env [] c = (c, Inr [])"
| "NewMultiGeoIPMatcher env (geoip # geoips) c =
     (case Container_Add env geoip c of
        (c, Inl err) \<Rightarrow> (c, Inl err)
      | (c, Inr matcher) \<Rightarrow>
          (case NewMultiGeoIPMatcher env geoips c of
             (c, Inl err) \<Rightarrow> (c, Inl err)
           | (c, Inr matchers) \<Rightarrow> (c, Inr (matcher # matchers))))"

fun any_matcher :: "route_env \<Rightarrow> GeoIPMatcher list \<Rightarrow> bytes \<Rightarrow> bool" where
  "any_matcher env [] ip = False"
| "any_matcher env (matcher # matchers) ip = (if GeoIPMatcher_Match env matcher ip then True else any_matcher env matchers ip)"

fun any_ip :: "route_env \<Rightarrow> GeoIPMatcher list \<Rightarrow> bytes list \<Rightarrow> bool" where
  "any_ip env matchers [] = False"
| "any_ip env matchers (ip # ips) = (if any_matcher env matchers ip then True else any_ip env matchers ips)"

section \<open>The other fields\<close>

definition Network_number :: "Network \<Rightarrow> nat" where
  "Network_number n = (case n of Network_Unknown \<Rightarrow> 0 | Network_TCP \<Rightarrow> 2 | Network_UDP \<Rightarrow> 3 | Network_UNIX \<Rightarrow> 4)"

definition NewNetworkMatcher :: "Network list \<Rightarrow> bool list" where
  "NewNetworkMatcher network = fold (\<lambda>n l. l[Network_number n := True]) network (replicate 8 False)"

definition non_empty :: "bytes list \<Rightarrow> bytes list" where
  "non_empty xs = fold (\<lambda>x copy. if length x > 0 then copy @ [x] else copy) xs []"

definition NewUserMatcher :: "bytes list \<Rightarrow> bytes list" where "NewUserMatcher users = non_empty users"

definition NewInboundTagMatcher :: "bytes list \<Rightarrow> bytes list" where "NewInboundTagMatcher tags = non_empty tags"

definition NewProtocolMatcher :: "bytes list \<Rightarrow> bytes list" where "NewProtocolMatcher protocols = non_empty protocols"

fun UserMatcher_loop :: "bytes list \<Rightarrow> bytes \<Rightarrow> bool" where
  "UserMatcher_loop [] user = False"
| "UserMatcher_loop (u # us) user = (if u = user then True else UserMatcher_loop us user)"

definition UserMatcher_Apply :: "bytes list \<Rightarrow> RoutingContext \<Rightarrow> bool" where
  "UserMatcher_Apply v ctx = (let user = rc_User ctx in if length user = 0 then False else UserMatcher_loop v user)"

definition InboundTagMatcher_Apply :: "bytes list \<Rightarrow> RoutingContext \<Rightarrow> bool" where
  "InboundTagMatcher_Apply v ctx = (let tag = rc_InboundTag ctx in if length tag = 0 then False else UserMatcher_loop v tag)"

fun ProtocolMatcher_loop :: "bytes list \<Rightarrow> bytes \<Rightarrow> bool" where
  "ProtocolMatcher_loop [] protocol = False"
| "ProtocolMatcher_loop (p # ps) protocol = (if HasPrefix protocol p then True else ProtocolMatcher_loop ps protocol)"

definition ProtocolMatcher_Apply :: "bytes list \<Rightarrow> RoutingContext \<Rightarrow> bool" where
  "ProtocolMatcher_Apply m ctx = (let protocol = rc_Protocol ctx in if length protocol = 0 then False else ProtocolMatcher_loop m protocol)"

definition NewAttributeMatcher :: "route_env \<Rightarrow> bytes \<Rightarrow> route_error + (attributes \<Rightarrow> bool)" where
  "NewAttributeMatcher env code =
     (case re_starlark env (str ''satisfied=('' @ code @ str '')'') of None \<Rightarrow> Inl BadAttributes | Some p \<Rightarrow> Inr p)"

definition AttributeMatcher_Apply :: "(attributes \<Rightarrow> bool) \<Rightarrow> RoutingContext \<Rightarrow> bool" where
  "AttributeMatcher_Apply m ctx = (case rc_Attributes ctx of None \<Rightarrow> False | Some attributes \<Rightarrow> m attributes)"

section \<open>Conditions\<close>

datatype Condition =
    DomainCondition IndexMatcher
  | MultiGeoIPMatcher "GeoIPMatcher list" bool
  | PortMatcher "MemoryPortRange list" bool
  | NetworkMatcher "bool list"
  | UserMatcher "bytes list"
  | InboundTagMatcher "bytes list"
  | ProtocolMatcher "bytes list"
  | AttributeMatcher "attributes \<Rightarrow> bool"

definition NewPortMatcher :: "PortRange list \<Rightarrow> bool \<Rightarrow> Condition" where
  "NewPortMatcher list onSource = PortMatcher (PortListFromProto list) onSource"

fun Condition_Apply :: "route_env \<Rightarrow> dns_client \<Rightarrow> Condition \<Rightarrow> nat \<times> route_ctx \<Rightarrow> bool \<times> nat \<times> route_ctx" where
  "Condition_Apply env lookup (DomainCondition m) st = (DomainMatcher_Apply env m (base_ctx (snd st)), st)"
| "Condition_Apply env lookup (MultiGeoIPMatcher matchers onSource) st =
     (let (ips, st) = (if onSource then (rc_SourceIPs (base_ctx (snd st)), st) else target_IPs lookup st)
      in (any_ip env matchers ips, st))"
| "Condition_Apply env lookup (PortMatcher port onSource) st =
     (MemoryPortList_Contains port (if onSource then rc_SourcePort (base_ctx (snd st)) else rc_TargetPort (base_ctx (snd st))), st)"
| "Condition_Apply env lookup (NetworkMatcher list) st = (list ! Network_number (rc_Network (base_ctx (snd st))), st)"
| "Condition_Apply env lookup (UserMatcher v) st = (UserMatcher_Apply v (base_ctx (snd st)), st)"
| "Condition_Apply env lookup (InboundTagMatcher v) st = (InboundTagMatcher_Apply v (base_ctx (snd st)), st)"
| "Condition_Apply env lookup (ProtocolMatcher v) st = (ProtocolMatcher_Apply v (base_ctx (snd st)), st)"
| "Condition_Apply env lookup (AttributeMatcher m) st = (AttributeMatcher_Apply m (base_ctx (snd st)), st)"

fun ConditionChan_Apply :: "route_env \<Rightarrow> dns_client \<Rightarrow> Condition list \<Rightarrow> nat \<times> route_ctx \<Rightarrow> bool \<times> nat \<times> route_ctx" where
  "ConditionChan_Apply env lookup [] st = (True, st)"
| "ConditionChan_Apply env lookup (cond # conds) st =
     (case Condition_Apply env lookup cond st of
        (holds, st) \<Rightarrow> if \<not> holds then (False, st) else ConditionChan_Apply env lookup conds st)"

section \<open>What the conditions mean\<close>

text \<open>A client that answers every query for a domain alike, and the target addresses a context stands for.\<close>

definition steady :: "dns_client \<Rightarrow> bool" where
  "steady lookup \<longleftrightarrow> (\<forall>n d. lookup n d = lookup 0 d)"

definition resolved :: "dns_client \<Rightarrow> RoutingContext \<Rightarrow> bytes list" where
  "resolved lookup c = (if rc_TargetIPs c \<noteq> [] then rc_TargetIPs c
     else if rc_TargetDomain c \<noteq> [] then (case lookup 0 (rc_TargetDomain c) of None \<Rightarrow> [] | Some ips \<Rightarrow> ips) else [])"

fun stands_for :: "dns_client \<Rightarrow> route_ctx \<Rightarrow> bytes list \<Rightarrow> bool" where
  "stands_for lookup (Session c) ips \<longleftrightarrow> ips = rc_TargetIPs c"
| "stands_for lookup (Resolvable c res) ips \<longleftrightarrow> ips = resolved lookup c \<and>
     (res \<noteq> [] \<longrightarrow> rc_TargetDomain c \<noteq> [] \<and> lookup 0 (rc_TargetDomain c) = Some res)"

lemma target_IPs_steady:
  assumes "steady lookup" and "stands_for lookup ctx ips"
  shows "\<exists>n' ctx'. target_IPs lookup (n, ctx) = (ips, n', ctx') \<and> stands_for lookup ctx' ips \<and> base_ctx ctx' = base_ctx ctx"
proof (cases ctx)
  case (Session c)
  then show ?thesis using assms(2) by simp
next
  case (Resolvable c res)
  have l: "lookup n d = lookup 0 d" for d using assms(1) by (simp add: steady_def)
  consider "rc_TargetIPs c \<noteq> []" | "rc_TargetIPs c = []" "res \<noteq> []" | "rc_TargetIPs c = []" "res = []" by blast
  then show ?thesis
  proof cases
    case 3
    then show ?thesis using assms(2) Resolvable by (cases "lookup 0 (rc_TargetDomain c)") (auto simp: l resolved_def)
  qed (use assms(2) Resolvable in \<open>auto simp: resolved_def\<close>)
qed

text \<open>A condition on fixed target addresses.\<close>

fun cond_holds :: "route_env \<Rightarrow> bytes list \<Rightarrow> RoutingContext \<Rightarrow> Condition \<Rightarrow> bool" where
  "cond_holds env ips c (DomainCondition m) = DomainMatcher_Apply env m c"
| "cond_holds env ips c (MultiGeoIPMatcher matchers onSource) = any_ip env matchers (if onSource then rc_SourceIPs c else ips)"
| "cond_holds env ips c (PortMatcher port onSource) = MemoryPortList_Contains port (if onSource then rc_SourcePort c else rc_TargetPort c)"
| "cond_holds env ips c (NetworkMatcher list) = (list ! Network_number (rc_Network c))"
| "cond_holds env ips c (UserMatcher v) = UserMatcher_Apply v c"
| "cond_holds env ips c (InboundTagMatcher v) = InboundTagMatcher_Apply v c"
| "cond_holds env ips c (ProtocolMatcher v) = ProtocolMatcher_Apply v c"
| "cond_holds env ips c (AttributeMatcher m) = AttributeMatcher_Apply m c"

lemma Condition_Apply_holds:
  assumes "steady lookup" and "stands_for lookup ctx ips"
  shows "\<exists>n' ctx'. Condition_Apply env lookup cond (n, ctx) = (cond_holds env ips (base_ctx ctx) cond, n', ctx') \<and>
     stands_for lookup ctx' ips \<and> base_ctx ctx' = base_ctx ctx"
proof (cases cond)
  case (MultiGeoIPMatcher matchers onSource)
  obtain n' ctx' where "target_IPs lookup (n, ctx) = (ips, n', ctx')" "stands_for lookup ctx' ips" "base_ctx ctx' = base_ctx ctx"
    using target_IPs_steady [OF assms] by blast
  then show ?thesis using MultiGeoIPMatcher assms(2) by (cases onSource) auto
qed (use assms(2) in auto)

lemma ConditionChan_Apply_holds:
  assumes "steady lookup" and "stands_for lookup ctx ips"
  shows "\<exists>n' ctx'. ConditionChan_Apply env lookup conds (n, ctx) = (list_all (cond_holds env ips (base_ctx ctx)) conds, n', ctx') \<and>
     stands_for lookup ctx' ips \<and> base_ctx ctx' = base_ctx ctx"
  using assms(2)
proof (induction conds arbitrary: n ctx)
  case (Cons cond conds)
  obtain n1 ctx1 where c: "Condition_Apply env lookup cond (n, ctx) = (cond_holds env ips (base_ctx ctx) cond, n1, ctx1)"
      "stands_for lookup ctx1 ips" "base_ctx ctx1 = base_ctx ctx"
    using Condition_Apply_holds [OF assms(1) Cons.prems] by blast
  then show ?case using Cons.IH [OF c(2), of n1] by auto
qed simp

section \<open>Fields\<close>

lemma any_ip_iff: "any_ip env ms ips \<longleftrightarrow> (\<exists>ip \<in> set ips. \<exists>m \<in> set ms. GeoIPMatcher_Match env m ip)"
proof -
  have "any_matcher env ms ip \<longleftrightarrow> (\<exists>m \<in> set ms. GeoIPMatcher_Match env m ip)" for ip by (induction ms) auto
  then show ?thesis by (induction ips) auto
qed

lemma non_empty_filter: "non_empty xs = filter (\<lambda>x. x \<noteq> []) xs"
proof -
  have "fold (\<lambda>x copy. if length x > 0 then copy @ [x] else copy) xs acc = acc @ filter (\<lambda>x. x \<noteq> []) xs" for acc
    by (induction xs arbitrary: acc) auto
  then show ?thesis by (simp add: non_empty_def)
qed

lemma UserMatcher_loop_iff: "UserMatcher_loop us u \<longleftrightarrow> u \<in> set us"
  by (induction us) auto

lemma user_matcher: "UserMatcher_Apply (NewUserMatcher us) c \<longleftrightarrow> rc_User c \<noteq> [] \<and> rc_User c \<in> set us"
  by (auto simp: UserMatcher_Apply_def NewUserMatcher_def non_empty_filter UserMatcher_loop_iff Let_def)

lemma tag_matcher: "InboundTagMatcher_Apply (NewInboundTagMatcher ts) c \<longleftrightarrow> rc_InboundTag c \<noteq> [] \<and> rc_InboundTag c \<in> set ts"
  by (auto simp: InboundTagMatcher_Apply_def NewInboundTagMatcher_def non_empty_filter UserMatcher_loop_iff Let_def)

lemma protocol_matcher:
  "ProtocolMatcher_Apply (NewProtocolMatcher ps) c \<longleftrightarrow> (\<exists>p \<in> set ps. p \<noteq> [] \<and> prefix p (rc_Protocol c))"
proof -
  have "ProtocolMatcher_loop qs s \<longleftrightarrow> (\<exists>p \<in> set qs. prefix p s)" for qs s by (induction qs) (auto simp: HasPrefix_prefix)
  then show ?thesis by (auto simp: ProtocolMatcher_Apply_def NewProtocolMatcher_def non_empty_filter Let_def)
qed

lemma network_matcher: "NewNetworkMatcher ns ! Network_number n \<longleftrightarrow> n \<in> set ns"
proof -
  have inj: "Network_number a = Network_number b \<longleftrightarrow> a = b" for a b by (cases a; cases b) (simp_all add: Network_number_def)
  have less: "Network_number a < 8" for a by (cases a) (simp_all add: Network_number_def)
  have "fold (\<lambda>n l. l[Network_number n := True]) ns l ! Network_number n \<longleftrightarrow> l ! Network_number n \<or> n \<in> set ns" if "length l = 8" for l
    using that by (induction ns arbitrary: l) (auto simp: nth_list_update less inj)
  then show ?thesis by (simp add: NewNetworkMatcher_def less)
qed

lemma port_matcher: "MemoryPortList_Contains (PortListFromProto l) p \<longleftrightarrow> (\<exists>r \<in> set l. PortRange_Contains r p)"
  by (induction l) (auto simp: PortListFromProto_def MemoryPortRange_Contains_def PortRange_Contains_def FromPort_def ToPort_def)

subsection \<open>Domains\<close>

definition matchers_of :: "route_env \<Rightarrow> RouteDomain list \<Rightarrow> Matcher list" where
  "matchers_of env = List.map_filter (\<lambda>d. case domainToMatcher env d of Some (Inr m) \<Rightarrow> Some m | _ \<Rightarrow> None)"

definition domains_convert :: "route_env \<Rightarrow> RouteDomain list \<Rightarrow> bool" where
  "domains_convert env = list_all (\<lambda>d. case domainToMatcher env d of Some (Inr m) \<Rightarrow> True | _ \<Rightarrow> False)"

definition uses_mph :: "bytes \<Rightarrow> bool" where
  "uses_mph ty \<longleftrightarrow> ty = str ''mph'' \<or> ty = str ''hybrid''"

definition index_fits :: "route_env \<Rightarrow> bytes \<Rightarrow> Matcher list \<Rightarrow> bytes \<Rightarrow> bool" where
  "index_fits env ty ms s \<longleftrightarrow> (if uses_mph ty then mph_fits (re_memHash env) (re_sort env) ms s
     else list_all plain_domain (List.map_filter domain_of ms))"

lemma add_domains_ok:
  "domains_convert env ds \<Longrightarrow> add_domains env ds g = Some (Inr (fold IndexMatcher_Add (matchers_of env ds) g))"
  by (induction ds arbitrary: g) (auto simp: domains_convert_def matchers_of_def List.map_filter_def split: option.splits sum.splits)

lemma fold_LinearIndex: "fold IndexMatcher_Add ms (LinearIndex g) = LinearIndex (fold (\<lambda>m g. fst (Linear_Add m g)) ms g)"
  by (induction ms arbitrary: g) auto

lemma fold_MphIndex: "fold IndexMatcher_Add ms (MphIndex g) = MphIndex (fold (\<lambda>m g. fst (MphIndex_Add m g)) ms g)"
  by (induction ms arbitrary: g) auto

text \<open>Testing for any match needs less of the patterns than listing the matches.\<close>

context matcher_group
begin

lemma group_of_any:
  "fits (map fst xs) s \<Longrightarrow> group_any any (group_of fresh add xs) s \<longleftrightarrow> (\<exists>p v. (p, v) \<in> set xs \<and> hits p s)"
  using any_adds by (auto simp: group_any_def group_of_def)

end

lemma linear_any:
  assumes "list_all plain_domain (List.map_filter domain_of ms)"
  shows "Linear_MatchAny (fold (\<lambda>m g. fst (Linear_Add m g)) ms NewLinearIndexMatcher) s \<longleftrightarrow> list_ex (\<lambda>m. Matcher_Match m s) ms"
proof -
  let ?ms = "numbered ms"
  have f: "group_any FullMatcherGroup_MatchAny (group_of NewFullMatcherGroup AddFullMatcher (pick full_of ?ms)) s \<longleftrightarrow> (\<exists>p v. (p, v) \<in> set (pick full_of ?ms) \<and> FullMatcher_Match p s)"
    by (rule full_g.group_of_any) simp
  have d: "group_any DomainMatcherGroup_MatchAny (group_of NewDomainMatcherGroup AddDomainMatcher (pick domain_of ?ms)) s \<longleftrightarrow> (\<exists>p v. (p, v) \<in> set (pick domain_of ?ms) \<and> DomainMatcher_Match p s)"
    by (rule domain_g.group_of_any) (use assms in \<open>simp add: map_fst_pick\<close>)
  have k: "group_any SubstrMatcherGroup_MatchAny (group_of NewSubstrMatcherGroup AddSubstrMatcher (pick substr_of ?ms)) s \<longleftrightarrow> (\<exists>p v. (p, v) \<in> set (pick substr_of ?ms) \<and> SubstrMatcher_Match p s)"
    by (force simp: group_any_def group_of_def SubstrMatcherGroup_MatchAny_def built_substr NewSubstrMatcherGroup_def substr_any_iff SubstrMatcher_Match_def)
  have r: "group_any SimpleMatcherGroup_MatchAny (group_of [] SimpleMatcherGroup_AddMatcher (pick regex_of ?ms)) s \<longleftrightarrow> (\<exists>p v. (p, v) \<in> set (pick regex_of ?ms) \<and> Matcher_Match p s)"
    by (rule simple_g.group_of_any) simp
  have "Linear_MatchAny (fold (\<lambda>m g. fst (Linear_Add m g)) ms NewLinearIndexMatcher) s \<longleftrightarrow>
      list_ex (\<lambda>m. \<exists>p. full_of m = Some p \<and> FullMatcher_Match p s) ms \<or> list_ex (\<lambda>m. \<exists>p. domain_of m = Some p \<and> DomainMatcher_Match p s) ms \<or>
      list_ex (\<lambda>m. \<exists>p. substr_of m = Some p \<and> SubstrMatcher_Match p s) ms \<or> list_ex (\<lambda>m. \<exists>p. regex_of m = Some p \<and> Matcher_Match p s) ms"
    unfolding Linear_MatchAny_def Linear_adds LinearIndexMatcher.simps f d k r pick_ex by simp
  also have "\<dots> \<longleftrightarrow> list_ex (\<lambda>m. (\<exists>p. full_of m = Some p \<and> FullMatcher_Match p s) \<or> (\<exists>p. domain_of m = Some p \<and> DomainMatcher_Match p s) \<or>
      (\<exists>p. substr_of m = Some p \<and> SubstrMatcher_Match p s) \<or> (\<exists>p. regex_of m = Some p \<and> Matcher_Match p s)) ms"
    unfolding list_ex_iff by blast
  also have "\<dots> \<longleftrightarrow> list_ex (\<lambda>m. Matcher_Match m s) ms"
  proof (intro list_ex_cong refl)
    fix m
    show "((\<exists>p. full_of m = Some p \<and> FullMatcher_Match p s) \<or> (\<exists>p. domain_of m = Some p \<and> DomainMatcher_Match p s) \<or>
      (\<exists>p. substr_of m = Some p \<and> SubstrMatcher_Match p s) \<or> (\<exists>p. regex_of m = Some p \<and> Matcher_Match p s)) \<longleftrightarrow> Matcher_Match m s"
      by (cases m) auto
  qed
  finally show ?thesis .
qed

lemma NewDomainMatcher_ok:
  assumes "domains_convert env ds" and "index_fits env ty (matchers_of env ds) s"
  shows "\<exists>m. NewDomainMatcher env ty ds = Some (Inr m) \<and> (IndexMatcher_MatchAny env m s \<longleftrightarrow> list_ex (\<lambda>m. Matcher_Match m s) (matchers_of env ds))"
proof (cases "uses_mph ty")
  case True
  let ?ms = "matchers_of env ds"
  obtain g r where g: "MphIndex_Build (re_memHash env) (re_sort env) (fold (\<lambda>m g. fst (MphIndex_Add m g)) ?ms NewMphIndexMatcher) = Some g"
    "set r = {v. \<exists>m. (m, v) \<in> set (numbered ?ms) \<and> Matcher_Match m s}" "MphIndex_MatchAny (re_memHash env) g s \<longleftrightarrow> r \<noteq> []"
    using mph_matches [of "re_memHash env" "re_sort env" ?ms s] assms(2) True by (auto simp: index_fits_def)
  have "r \<noteq> [] \<longleftrightarrow> set r \<noteq> {}" by simp
  also have "\<dots> \<longleftrightarrow> list_ex (\<lambda>m. Matcher_Match m s) ?ms" unfolding g(2) numbered_ex [symmetric] by blast
  finally show ?thesis using g True add_domains_ok [OF assms(1)]
    by (simp add: NewDomainMatcher_def new_index_def uses_mph_def fold_MphIndex)
next
  case False
  then have "new_index ty = LinearIndex NewLinearIndexMatcher" by (simp add: new_index_def uses_mph_def)
  then show ?thesis using linear_any [of "matchers_of env ds" s] assms False add_domains_ok [OF assms(1)]
    by (simp add: NewDomainMatcher_def fold_LinearIndex Linear_Build_def index_fits_def)
qed

end
