(* ===== verification/Balancer.thy ===== *)
theory Balancer
  imports Outbound_Manager "HOL-Library.List_Lexorder" "HOL-Library.Product_Lexorder"
begin

text \<open>
  Balancers: \<^verbatim>\<open>app/router/balancing.go\<close>, \<^verbatim>\<open>balancing_override.go\<close>, the strategies \<^verbatim>\<open>strategy_random.go\<close>, \<^verbatim>\<open>strategy_leastping.go\<close>,
  \<^verbatim>\<open>strategy_leastload.go\<close> and the weights of \<^verbatim>\<open>weight.go\<close>. The random number, the report of the observatory, floating point
  numbers and regular expressions are parameters: \<open>roll n\<close> is the result of \<^verbatim>\<open>dice.Roll(n)\<close>, and the weights are of a
  type \<open>'f\<close> with the operations of the record \<open>float_env\<close>. \<open>None\<close> is a panic.
\<close>

section \<open>Observations\<close>

record HealthPing =
  hp_All :: int
  hp_Fail :: int
  hp_Deviation :: int
  hp_Average :: int

record OutboundStatus =
  os_Alive :: bool
  os_Delay :: int
  os_OutboundTag :: bytes
  os_HealthPing :: "HealthPing option"

text \<open>What \<^verbatim>\<open>GetObservation\<close> may return: an error, a message of another type, or a report. No observatory
  at all is \<open>None\<close> where an option is expected.\<close>

datatype observation = ObservationError | OtherMessage | ObservationResult "OutboundStatus list"

fun outboundList_contains :: "bytes list \<Rightarrow> bytes \<Rightarrow> bool" where
  "outboundList_contains [] name = False"
| "outboundList_contains (v # o') name = (if v = name then True else outboundList_contains o' name)"

section \<open>Weights\<close>

record 'f float_env =
  fe_positive :: "'f \<Rightarrow> bool"
  fe_ParseFloat :: "bytes \<Rightarrow> 'f option"
  fe_regexp :: "bytes \<Rightarrow> (bytes \<Rightarrow> bytes) option"
  fe_scale :: "int \<Rightarrow> 'f \<Rightarrow> int"

record 'f StrategyWeight =
  sw_Regexp :: bool
  sw_Match :: bytes
  sw_Value :: 'f

record 'f WeightManager =
  wm_settings :: "'f StrategyWeight list"
  wm_cache :: "(bytes \<times> 'f) list"
  wm_defaultWeight :: 'f

definition NewWeightManager :: "'f StrategyWeight list \<Rightarrow> 'f \<Rightarrow> 'f WeightManager" where
  "NewWeightManager s defaultWeight = \<lparr>wm_settings = s, wm_cache = [], wm_defaultWeight = defaultWeight\<rparr>"

definition is_digit :: "byte \<Rightarrow> bool" where
  "is_digit c \<longleftrightarrow> 48 \<le> c \<and> c \<le> 57"

text \<open>The leftmost match of \<^verbatim>\<open>\d+(\.\d+)?\<close>, as long as possible.\<close>

definition numberFinder :: "bytes \<Rightarrow> bytes" where
  "numberFinder s =
     (let t = dropWhile (\<lambda>c. \<not> is_digit c) s; whole = takeWhile is_digit t
      in case dropWhile is_digit t of
           [] \<Rightarrow> whole
         | c # r \<Rightarrow> let frac = takeWhile is_digit r in if c = dot \<and> frac \<noteq> [] then whole @ c # frac else whole)"

definition getMatch :: "'f float_env \<Rightarrow> bytes \<Rightarrow> bytes \<Rightarrow> bool \<Rightarrow> bytes" where
  "getMatch fe tag pat isRegexp =
     (if \<not> isRegexp then (if \<not> Contains tag pat then [] else pat)
      else case fe_regexp fe pat of None \<Rightarrow> [] | Some r \<Rightarrow> r tag)"

fun findValue :: "'f float_env \<Rightarrow> 'f \<Rightarrow> bytes \<Rightarrow> 'f StrategyWeight list \<Rightarrow> 'f" where
  "findValue fe defaultWeight tag [] = defaultWeight"
| "findValue fe defaultWeight tag (w # ws) =
     (let matched = getMatch fe tag (sw_Match w) (sw_Regexp w) in
      if matched = [] then findValue fe defaultWeight tag ws
      else if fe_positive fe (sw_Value w) then sw_Value w
      else let numStr = numberFinder matched in
        if numStr = [] then defaultWeight
        else case fe_ParseFloat fe numStr of None \<Rightarrow> defaultWeight | Some weight \<Rightarrow> weight)"

definition WeightManager_Get :: "'f float_env \<Rightarrow> bytes \<Rightarrow> 'f WeightManager \<Rightarrow> 'f WeightManager \<times> 'f" where
  "WeightManager_Get fe tag s =
     (case map_of (wm_cache s) tag of
        Some weight \<Rightarrow> (s, weight)
      | None \<Rightarrow>
          let weight = findValue fe (wm_defaultWeight s) tag (wm_settings s)
          in (s\<lparr>wm_cache := AList.update tag weight (wm_cache s)\<rparr>, weight))"

definition WeightManager_Apply :: "'f float_env \<Rightarrow> bytes \<Rightarrow> int \<Rightarrow> 'f WeightManager \<Rightarrow> 'f WeightManager \<times> int" where
  "WeightManager_Apply fe tag v s = (case WeightManager_Get fe tag s of (s, weight) \<Rightarrow> (s, fe_scale fe v weight))"

section \<open>Random\<close>

record StrategyRandomConfig =
  sr_AliveOnly :: bool

definition status_map :: "OutboundStatus list \<Rightarrow> (bytes \<times> OutboundStatus) list" where
  "status_map status = fold (\<lambda>s m. AList.update (os_OutboundTag s) s m) status []"

definition alive_tags :: "OutboundStatus list \<Rightarrow> bytes list \<Rightarrow> bytes list" where
  "alive_tags status candidates =
     (let statusMap = status_map status in
      fold (\<lambda>candidate aliveTags.
        case map_of statusMap candidate of
          Some s \<Rightarrow> if os_Alive s then aliveTags @ [candidate] else aliveTags
        | None \<Rightarrow> aliveTags @ [candidate]) candidates [])"

text \<open>The strategy may be a nil pointer.\<close>

definition RandomStrategy_PickOutbound ::
  "(nat \<Rightarrow> nat) \<Rightarrow> observation option \<Rightarrow> StrategyRandomConfig option \<Rightarrow> bytes list \<Rightarrow> bytes" where
  "RandomStrategy_PickOutbound roll obs s candidates =
     (let candidates = (case s of
            None \<Rightarrow> candidates
          | Some settings \<Rightarrow>
              if sr_AliveOnly settings
              then (case obs of Some (ObservationResult status) \<Rightarrow> alive_tags status candidates | _ \<Rightarrow> candidates)
              else candidates);
          count = length candidates
      in if count = 0 then [] else candidates ! roll count)"

definition RandomStrategy_GetPrincipleTarget :: "bytes list \<Rightarrow> bytes list" where
  "RandomStrategy_GetPrincipleTarget strings = strings"

section \<open>Least ping\<close>

record LeastPingStrategy =
  lp_StickyChoice :: bool
  lp_lastChoice :: bytes

definition least_ping :: "bytes list \<Rightarrow> OutboundStatus list \<Rightarrow> bytes \<times> int" where
  "least_ping outbounds status =
     fold (\<lambda>v (selected, leastPing).
       if outboundList_contains outbounds (os_OutboundTag v) \<and> os_Alive v \<and> os_Delay v < leastPing
       then (os_OutboundTag v, os_Delay v) else (selected, leastPing)) status ([], 99999999)"

definition LeastPingStrategy_PickOutbound ::
  "observation option \<Rightarrow> bytes list \<Rightarrow> LeastPingStrategy \<Rightarrow> LeastPingStrategy \<times> bytes" where
  "LeastPingStrategy_PickOutbound obs strings l =
     (case obs of
        Some (ObservationResult status) \<Rightarrow>
          let selected = fst (least_ping strings status);
              selected = (if selected = [] \<and> lp_StickyChoice l then lp_lastChoice l else selected)
          in (l\<lparr>lp_lastChoice := selected\<rparr>, selected)
      | _ \<Rightarrow> (l, []))"

definition LeastPingStrategy_GetPrincipleTarget :: "observation option \<Rightarrow> bytes list \<Rightarrow> LeastPingStrategy \<Rightarrow> LeastPingStrategy \<times> bytes list" where
  "LeastPingStrategy_GetPrincipleTarget obs strings l =
     (case LeastPingStrategy_PickOutbound obs strings l of (l, tag) \<Rightarrow> (l, [tag]))"

section \<open>Least load\<close>

record node =
  nd_Tag :: bytes
  nd_CountAll :: int
  nd_CountFail :: int
  nd_RTTAverage :: int
  nd_RTTDeviation :: int
  nd_RTTDeviationCost :: int

record StrategyLeastLoadConfig =
  sl_Baselines :: "int list"
  sl_Expected :: int
  sl_MaxRTT :: int

record 'f LeastLoadStrategy =
  ll_settings :: StrategyLeastLoadConfig
  ll_costs :: "'f WeightManager"

definition i64 :: "int \<Rightarrow> int" where
  "i64 x = (x + 2 ^ 63) mod 2 ^ 64 - 2 ^ 63"

text \<open>The order of \<^verbatim>\<open>leastloadSort\<close>: cost, average, failures, more checks first, tag.\<close>

definition node_key :: "node \<Rightarrow> int \<times> int \<times> int \<times> int \<times> bytes" where
  "node_key n = (nd_RTTDeviationCost n, nd_RTTAverage n, nd_CountFail n, - nd_CountAll n, nd_Tag n)"

definition leastloadSort :: "node list \<Rightarrow> node list" where
  "leastloadSort nodes = sort_key node_key nodes"

text \<open>Milliseconds of a duration: division by a million, towards zero.\<close>

definition Milliseconds :: "int \<Rightarrow> int" where
  "Milliseconds d = (if d < 0 then - ((- d) div 1000000) else d div 1000000)"

definition make_node :: "'f float_env \<Rightarrow> OutboundStatus \<Rightarrow> 'f WeightManager \<Rightarrow> 'f WeightManager \<times> node" where
  "make_node fe v costs =
     (let delay = i64 (os_Delay v * 1000000);
          (costs, cost) = WeightManager_Apply fe (os_OutboundTag v) delay costs;
          n = \<lparr>nd_Tag = os_OutboundTag v, nd_CountAll = 1, nd_CountFail = 1, nd_RTTAverage = delay, nd_RTTDeviation = delay, nd_RTTDeviationCost = cost\<rparr>
      in case os_HealthPing v of
           None \<Rightarrow> (costs, n)
         | Some h \<Rightarrow>
             let (costs, cost) = WeightManager_Apply fe (os_OutboundTag v) (hp_Deviation h) costs
             in (costs, n\<lparr>nd_RTTAverage := hp_Average h, nd_RTTDeviation := hp_Deviation h, nd_RTTDeviationCost := cost,
                   nd_CountAll := hp_All h, nd_CountFail := hp_Fail h\<rparr>))"

definition qualifies :: "int \<Rightarrow> bytes list \<Rightarrow> OutboundStatus \<Rightarrow> bool" where
  "qualifies maxRTT candidates v \<longleftrightarrow>
     os_Alive v \<and> (os_Delay v < Milliseconds maxRTT \<or> maxRTT = 0) \<and> outboundList_contains candidates (os_OutboundTag v)"

fun get_nodes :: "'f float_env \<Rightarrow> int \<Rightarrow> bytes list \<Rightarrow> OutboundStatus list \<Rightarrow> 'f WeightManager \<Rightarrow> 'f WeightManager \<times> node list" where
  "get_nodes fe maxRTT candidates [] costs = (costs, [])"
| "get_nodes fe maxRTT candidates (v # status) costs =
     (if qualifies maxRTT candidates v
      then case make_node fe v costs of (costs, n) \<Rightarrow>
             (case get_nodes fe maxRTT candidates status costs of (costs, ns) \<Rightarrow> (costs, n # ns))
      else get_nodes fe maxRTT candidates status costs)"

text \<open>A missing observatory and a message of another type are dereferenced.\<close>

definition LeastLoad_getNodes ::
  "'f float_env \<Rightarrow> observation option \<Rightarrow> bytes list \<Rightarrow> int \<Rightarrow> 'f LeastLoadStrategy \<Rightarrow> ('f LeastLoadStrategy \<times> node list) option" where
  "LeastLoad_getNodes fe obs candidates maxRTT l =
     (case obs of
        None \<Rightarrow> None
      | Some ObservationError \<Rightarrow> Some (l, [])
      | Some OtherMessage \<Rightarrow> None
      | Some (ObservationResult status) \<Rightarrow>
          (case get_nodes fe maxRTT candidates status (ll_costs l) of (costs, ns) \<Rightarrow> Some (l\<lparr>ll_costs := costs\<rparr>, leastloadSort ns)))"

text \<open>The loop over the nodes for one baseline, and the loop over the baselines.\<close>

fun baseline_count :: "node list \<Rightarrow> int \<Rightarrow> nat \<Rightarrow> nat" where
  "baseline_count [] baseline count = count"
| "baseline_count (n # ns) baseline count =
     (if nd_RTTDeviationCost n \<ge> baseline then count else baseline_count ns baseline (Suc count))"

fun baselines_loop :: "node list \<Rightarrow> nat \<Rightarrow> int list \<Rightarrow> nat \<Rightarrow> nat" where
  "baselines_loop nodes expected [] count = count"
| "baselines_loop nodes expected (b # bs) count =
     (let count = baseline_count (drop count nodes) b count
      in if count \<ge> expected then count else baselines_loop nodes expected bs count)"

definition selectLeastLoad :: "StrategyLeastLoadConfig \<Rightarrow> node list \<Rightarrow> node list" where
  "selectLeastLoad settings nodes =
     (if length nodes = 0 then []
      else let expected = sl_Expected settings; availableCount = length nodes in
        if expected > int availableCount then nodes
        else let expected = (if expected \<le> 0 then 1 else nat expected) in
          if length (sl_Baselines settings) = 0 then take expected nodes
          else let count = baselines_loop nodes expected (sl_Baselines settings) 0;
                   count = (if sl_Expected settings > 0 \<and> count < expected then expected else count)
               in take count nodes)"

definition LeastLoad_pickOutbounds :: "'f float_env \<Rightarrow> observation option \<Rightarrow> bytes list \<Rightarrow> 'f LeastLoadStrategy \<Rightarrow> ('f LeastLoadStrategy \<times> node list) option" where
  "LeastLoad_pickOutbounds fe obs candidates l =
     map_option (\<lambda>(l, qualified). (l, selectLeastLoad (ll_settings l) qualified))
       (LeastLoad_getNodes fe obs candidates (sl_MaxRTT (ll_settings l)) l)"

definition LeastLoadStrategy_PickOutbound ::
  "'f float_env \<Rightarrow> (nat \<Rightarrow> nat) \<Rightarrow> observation option \<Rightarrow> bytes list \<Rightarrow> 'f LeastLoadStrategy \<Rightarrow> ('f LeastLoadStrategy \<times> bytes) option" where
  "LeastLoadStrategy_PickOutbound fe roll obs candidates l =
     map_option (\<lambda>(l, selects). (l, if length selects = 0 then [] else nd_Tag (selects ! roll (length selects))))
       (LeastLoad_pickOutbounds fe obs candidates l)"

definition LeastLoadStrategy_GetPrincipleTarget ::
  "'f float_env \<Rightarrow> observation option \<Rightarrow> bytes list \<Rightarrow> 'f LeastLoadStrategy \<Rightarrow> ('f LeastLoadStrategy \<times> bytes list) option" where
  "LeastLoadStrategy_GetPrincipleTarget fe obs strings l =
     map_option (\<lambda>(l, nodes). (l, map nd_Tag nodes)) (LeastLoad_pickOutbounds fe obs strings l)"

section \<open>Balancers\<close>

datatype 'f strategy = RandomStrategy "StrategyRandomConfig option" | LeastPing LeastPingStrategy | LeastLoad "'f LeastLoadStrategy"

definition strategy_Pick ::
  "'f float_env \<Rightarrow> (nat \<Rightarrow> nat) \<Rightarrow> observation option \<Rightarrow> bytes list \<Rightarrow> 'f strategy \<Rightarrow> ('f strategy \<times> bytes) option" where
  "strategy_Pick fe roll obs candidates s =
     (case s of
        RandomStrategy cfg \<Rightarrow> Some (s, RandomStrategy_PickOutbound roll obs cfg candidates)
      | LeastPing l \<Rightarrow> (case LeastPingStrategy_PickOutbound obs candidates l of (l, tag) \<Rightarrow> Some (LeastPing l, tag))
      | LeastLoad l \<Rightarrow> map_option (\<lambda>(l, tag). (LeastLoad l, tag)) (LeastLoadStrategy_PickOutbound fe roll obs candidates l))"

record 'f Balancer =
  ba_selectors :: "bytes list"
  ba_strategy :: "'f strategy"
  ba_fallbackTag :: bytes
  ba_override :: bytes

definition override_Get :: "'f Balancer \<Rightarrow> bytes" where "override_Get b = ba_override b"

definition override_Put :: "bytes \<Rightarrow> 'f Balancer \<Rightarrow> 'f Balancer" where "override_Put target b = b\<lparr>ba_override := target\<rparr>"

definition override_Clear :: "'f Balancer \<Rightarrow> 'f Balancer" where "override_Clear b = b\<lparr>ba_override := []\<rparr>"

datatype balancer_error = NotHandlerSelector | EmptyTagReturned | BalancerTagNotFound

text \<open>A manager that cannot select is \<open>None\<close>.\<close>

definition SelectOutbounds :: "Manager option \<Rightarrow> 'f Balancer \<Rightarrow> balancer_error + bytes list" where
  "SelectOutbounds ohm b = (case ohm of None \<Rightarrow> Inl NotHandlerSelector | Some m \<Rightarrow> Inr (Manager_Select (ba_selectors b) m))"

definition Balancer_PickOutbound ::
  "'f float_env \<Rightarrow> (nat \<Rightarrow> nat) \<Rightarrow> observation option \<Rightarrow> Manager option \<Rightarrow> 'f Balancer \<Rightarrow> ('f Balancer \<times> (balancer_error + bytes)) option" where
  "Balancer_PickOutbound fe roll obs ohm b =
     (case SelectOutbounds ohm b of
        Inl err \<Rightarrow> Some (b, if ba_fallbackTag b \<noteq> [] then Inr (ba_fallbackTag b) else Inl err)
      | Inr candidates \<Rightarrow>
          map_option (\<lambda>(b, tag).
            (b, if tag = [] then (if ba_fallbackTag b \<noteq> [] then Inr (ba_fallbackTag b) else Inl EmptyTagReturned) else Inr tag))
          (let ov = override_Get b in
           if ov \<noteq> [] then Some (b, ov)
           else map_option (\<lambda>(s, tag). (b\<lparr>ba_strategy := s\<rparr>, tag)) (strategy_Pick fe roll obs candidates (ba_strategy b))))"

section \<open>Weights do not depend on what was asked before\<close>

definition cache_ok :: "'f float_env \<Rightarrow> 'f WeightManager \<Rightarrow> bool" where
  "cache_ok fe s \<longleftrightarrow> (\<forall>tag w. map_of (wm_cache s) tag = Some w \<longrightarrow> w = findValue fe (wm_defaultWeight s) tag (wm_settings s))"

lemma cache_ok_new: "cache_ok fe (NewWeightManager s w)"
  by (simp add: cache_ok_def NewWeightManager_def)

lemma WeightManager_Get_ok:
  assumes "cache_ok fe s"
  shows "\<exists>s'. WeightManager_Get fe tag s = (s', findValue fe (wm_defaultWeight s) tag (wm_settings s)) \<and> cache_ok fe s' \<and>
     wm_settings s' = wm_settings s \<and> wm_defaultWeight s' = wm_defaultWeight s"
  using assms by (auto simp: WeightManager_Get_def cache_ok_def update_conv' Let_def split: option.split)

section \<open>What the strategies choose\<close>

lemma outboundList_contains_iff: "outboundList_contains xs x \<longleftrightarrow> x \<in> set xs"
  by (induction xs) auto

lemma alive_tags_filter:
  "alive_tags status candidates = filter (\<lambda>c. case map_of (status_map status) c of Some s \<Rightarrow> os_Alive s | None \<Rightarrow> True) candidates"
proof -
  have "fold (\<lambda>c ts. case map_of m c of Some s \<Rightarrow> if os_Alive s then ts @ [c] else ts | None \<Rightarrow> ts @ [c]) cs acc =
      acc @ filter (\<lambda>c. case map_of m c of Some s \<Rightarrow> os_Alive s | None \<Rightarrow> True) cs" for m :: "(bytes \<times> OutboundStatus) list" and cs acc
  proof (induction cs arbitrary: acc)
    case (Cons c cs)
    then show ?case by (cases "map_of m c") auto
  qed simp
  then show ?thesis unfolding alive_tags_def Let_def by simp
qed

lemma alive_tags_subset: "set (alive_tags status candidates) \<subseteq> set candidates"
  by (auto simp: alive_tags_filter)

lemma random_pick:
  assumes "\<And>n. 0 < n \<Longrightarrow> roll n < n" and "RandomStrategy_PickOutbound roll obs s candidates = t" and "t \<noteq> []"
  shows "t \<in> set candidates"
proof -
  let ?cs = "case s of None \<Rightarrow> candidates | Some settings \<Rightarrow> if sr_AliveOnly settings
     then (case obs of Some (ObservationResult status) \<Rightarrow> alive_tags status candidates | _ \<Rightarrow> candidates) else candidates"
  have "set ?cs \<subseteq> set candidates"
    by (simp add: alive_tags_subset split: option.split observation.split)
  moreover have "t = (if length ?cs = 0 then [] else ?cs ! roll (length ?cs))"
    using assms(2) unfolding RandomStrategy_PickOutbound_def Let_def by (rule sym)
  ultimately obtain cs where cs: "set cs \<subseteq> set candidates" "t = (if length cs = 0 then [] else cs ! roll (length cs))" by blast
  then have "cs \<noteq> []" using assms(3) by auto
  then show ?thesis using cs assms(1) [of "length cs"] by auto
qed

text \<open>The fastest of the living candidates, among those below the limit.\<close>

definition reachable_status :: "bytes list \<Rightarrow> OutboundStatus \<Rightarrow> bool" where
  "reachable_status candidates v \<longleftrightarrow> os_OutboundTag v \<in> set candidates \<and> os_Alive v \<and> os_Delay v < 99999999"

lemma least_ping_min:
  assumes "least_ping candidates status = (t, d)"
  shows "(t = [] \<and> d = 99999999 \<or> (\<exists>v \<in> set status. reachable_status candidates v \<and> os_OutboundTag v = t \<and> os_Delay v = d)) \<and>
     (\<forall>v \<in> set status. reachable_status candidates v \<longrightarrow> d \<le> os_Delay v)"
  using assms
proof (induction status arbitrary: t d rule: rev_induct)
  case Nil
  then show ?case by (simp add: least_ping_def)
next
  case (snoc v status)
  obtain t' d' where p: "least_ping candidates status = (t', d')" by fastforce
  have "d' \<le> 99999999" using snoc.IH [OF p] by (auto simp: reachable_status_def)
  then show ?case using snoc.IH [OF p] snoc.prems p
    by (fastforce simp: least_ping_def reachable_status_def outboundList_contains_iff split: if_splits)
qed

lemma get_nodes_tags:
  "get_nodes fe maxRTT candidates status costs = (costs', ns) \<Longrightarrow>
     map nd_Tag ns = map os_OutboundTag (filter (qualifies maxRTT candidates) status)"
proof (induction status arbitrary: costs costs' ns)
  case (Cons v status)
  show ?case
  proof (cases "qualifies maxRTT candidates v")
    case True
    obtain c1 n where n: "make_node fe v costs = (c1, n)" by fastforce
    obtain c2 ms where g: "get_nodes fe maxRTT candidates status c1 = (c2, ms)" by fastforce
    have "nd_Tag n = os_OutboundTag v" using n by (auto simp: make_node_def Let_def split: option.splits prod.splits)
    then show ?thesis using Cons True n g by auto
  qed (use Cons in auto)
qed simp

lemma selectLeastLoad_prefix: "\<exists>k. selectLeastLoad settings nodes = take k nodes"
proof (cases "nodes = []")
  case False
  then show ?thesis unfolding selectLeastLoad_def Let_def by (auto intro: exI [of _ "length nodes"])
qed (simp add: selectLeastLoad_def)

lemma load_pick:
  assumes roll: "\<And>n. 0 < n \<Longrightarrow> roll n < n" and "LeastLoadStrategy_PickOutbound fe roll obs candidates l = Some (l', t)" and "t \<noteq> []"
  shows "t \<in> set candidates"
proof -
  obtain ns where p: "LeastLoad_pickOutbounds fe obs candidates l = Some (l', ns)" "ns \<noteq> []" "t = nd_Tag (ns ! roll (length ns))"
    using assms(2,3) by (auto simp: LeastLoadStrategy_PickOutbound_def split: if_splits)
  obtain qs where q: "LeastLoad_getNodes fe obs candidates (sl_MaxRTT (ll_settings l)) l = Some (l', qs)" "ns = selectLeastLoad (ll_settings l') qs"
    using p(1) by (auto simp: LeastLoad_pickOutbounds_def)
  have "set ns \<subseteq> set qs" using selectLeastLoad_prefix [of "ll_settings l'" qs] q(2) by (metis set_take_subset)
  moreover have "nd_Tag n \<in> set candidates" if n: "n \<in> set qs" for n
  proof -
    obtain status costs ms where s: "get_nodes fe (sl_MaxRTT (ll_settings l)) candidates status (ll_costs l) = (costs, ms)" "qs = leastloadSort ms"
      using q(1) n by (fastforce simp: LeastLoad_getNodes_def split: option.splits observation.splits prod.splits)
    then have "nd_Tag n \<in> set (map nd_Tag ms)" using n by (simp add: leastloadSort_def)
    then show ?thesis unfolding get_nodes_tags [OF s(1)] by (auto simp: qualifies_def outboundList_contains_iff)
  qed
  moreover have "ns ! roll (length ns) \<in> set ns" using roll p(2) by simp
  ultimately show ?thesis using p(3) by blast
qed

section \<open>Baselines\<close>

lemma node_key_cost: "node_key a \<le> node_key b \<Longrightarrow> nd_RTTDeviationCost a \<le> nd_RTTDeviationCost b"
  by (auto simp: node_key_def less_eq_prod_def)

abbreviation below :: "int \<Rightarrow> node list \<Rightarrow> node list" where
  "below b \<equiv> takeWhile (\<lambda>n. nd_RTTDeviationCost n < b)"

lemma baseline_count_below: "baseline_count ns b k = k + length (below b ns)"
  by (induction ns arbitrary: k) auto

lemma below_mono:
  assumes "sorted (map nd_RTTDeviationCost nodes)" and "k \<le> length nodes"
  shows "k + length (below b (drop k nodes)) = max k (length (below b nodes))"
proof (cases "k \<le> length (below b nodes)")
  case True
  then have eq: "take k nodes = take k (below b nodes)" by (metis min.absorb1 take_take takeWhile_eq_take)
  have "nd_RTTDeviationCost n < b" if n: "n \<in> set (take k nodes)" for n
  proof -
    have "n \<in> set (take k (below b nodes))" using n by (simp only: eq [symmetric])
    then show ?thesis by (auto dest!: in_set_takeD set_takeWhileD)
  qed
  then have "below b (take k nodes @ drop k nodes) = take k nodes @ below b (drop k nodes)" by (intro takeWhile_append2) auto
  then have "length (below b nodes) = k + length (below b (drop k nodes))" using assms(2) by simp
  then show ?thesis by simp
next
  case False
  then have less: "length (below b nodes) < length nodes" using assms(2) by simp
  then have first: "b \<le> nd_RTTDeviationCost (nodes ! length (below b nodes))" using nth_length_takeWhile [OF less] by (simp add: not_less)
  have "b \<le> nd_RTTDeviationCost n" if n: "n \<in> set (drop k nodes)" for n
  proof -
    obtain i where "i < length (drop k nodes)" "n = drop k nodes ! i" using n unfolding in_set_conv_nth by blast
    then have i: "k + i < length nodes" "n = nodes ! (k + i)" using assms(2) by auto
    then have "nd_RTTDeviationCost (nodes ! length (below b nodes)) \<le> nd_RTTDeviationCost n"
      using False sorted_nth_mono [OF assms(1), of "length (below b nodes)" "k + i"] less by simp
    then show ?thesis using first by simp
  qed
  then have "below b (drop k nodes) = []" by (cases "drop k nodes") (auto simp: not_less)
  then show ?thesis using False by simp
qed

lemma baselines_loop_find:
  assumes "sorted (map nd_RTTDeviationCost nodes)" and "count < expected" and "expected \<le> length nodes"
  shows "baselines_loop nodes expected bs count =
     (case find (\<lambda>b. expected \<le> length (below b nodes)) bs of
        Some b \<Rightarrow> length (below b nodes)
      | None \<Rightarrow> foldl (\<lambda>k b. max k (length (below b nodes))) count bs)"
  using assms(2)
proof (induction bs arbitrary: count)
  case (Cons b bs)
  have c: "baseline_count (drop count nodes) b count = max count (length (below b nodes))"
    using below_mono [OF assms(1), of count b] Cons.prems assms(3) by (simp add: baseline_count_below)
  show ?case
  proof (cases "expected \<le> length (below b nodes)")
    case True
    then show ?thesis using c Cons.prems by (simp add: Let_def)
  next
    case False
    then have "max count (length (below b nodes)) < expected" using Cons.prems by simp
    then show ?thesis using c False Cons.IH [of "max count (length (below b nodes))"] by (simp add: Let_def not_le le_max_iff_disj split: option.split)
  qed
qed simp

section \<open>Properties\<close>

text \<open>The least-load strategy selects as documented. Of the qualified nodes in the order of their load it
  takes the first ones: all when fewer are available than expected; the expected number (at least
  one) when there are no baselines; otherwise those below the first baseline that has enough, and
  when no baseline has, the expected number or, when none is expected, nothing.\<close>

theorem least_load_selection:
  fixes settings :: StrategyLeastLoadConfig
  assumes "sorted (map node_key nodes)"
  defines "expected \<equiv> nat (max 1 (sl_Expected settings))"
  shows "selectLeastLoad settings nodes =
     (if nodes = [] \<or> sl_Expected settings > int (length nodes) then nodes
      else if sl_Baselines settings = [] then take expected nodes
      else case find (\<lambda>b. expected \<le> length (below b nodes)) (sl_Baselines settings) of
        Some b \<Rightarrow> below b nodes
      | None \<Rightarrow> if sl_Expected settings > 0 then take expected nodes else [])"
proof (cases "nodes = [] \<or> sl_Expected settings > int (length nodes) \<or> sl_Baselines settings = []")
  case True
  then show ?thesis by (auto simp: selectLeastLoad_def expected_def Let_def max_def)
next
  case False
  have "sorted (map nd_RTTDeviationCost nodes)"
    using assms(1) node_key_cost by (auto simp: sorted_iff_nth_mono)
  moreover have e: "0 < expected" "expected \<le> length nodes" "(if sl_Expected settings \<le> 0 then 1 else nat (sl_Expected settings)) = expected"
    using False by (auto simp: expected_def max_def nat_le_iff Suc_le_eq)
  ultimately have loop: "baselines_loop nodes expected (sl_Baselines settings) 0 =
     (case find (\<lambda>b. expected \<le> length (below b nodes)) (sl_Baselines settings) of
        Some b \<Rightarrow> length (below b nodes) | None \<Rightarrow> foldl (\<lambda>k b. max k (length (below b nodes))) 0 (sl_Baselines settings))"
    using baselines_loop_find [of nodes 0 expected] by simp
  let ?k = "baselines_loop nodes expected (sl_Baselines settings) 0"
  have sel: "selectLeastLoad settings nodes = take (if sl_Expected settings > 0 \<and> ?k < expected then expected else ?k) nodes"
    using False e(3) by (simp add: selectLeastLoad_def Let_def del: baselines_loop.simps)
  show ?thesis
  proof (cases "find (\<lambda>b. expected \<le> length (below b nodes)) (sl_Baselines settings)")
    case (Some b)
    then have "expected \<le> length (below b nodes)" by (auto simp: find_Some_iff)
    then show ?thesis using False sel loop Some by (simp add: takeWhile_eq_take [symmetric])
  next
    case None
    then have "\<forall>b \<in> set (sl_Baselines settings). length (below b nodes) < expected" by (auto simp: find_None_iff not_le)
    moreover have "foldl (\<lambda>k b. max k (length (below b nodes))) k bs < expected" if "k < expected" "\<forall>b \<in> set bs. length (below b nodes) < expected" for k bs
      using that by (induction bs arbitrary: k) auto
    ultimately have "?k < expected" using loop None e(1) by simp
    then show ?thesis using False sel None by (auto simp: expected_def max_def split: if_splits)
  qed
qed

definition example_nodes :: "node list" where
  "example_nodes = map (\<lambda>(t, c). \<lparr>nd_Tag = str t, nd_CountAll = 1, nd_CountFail = 0, nd_RTTAverage = c, nd_RTTDeviation = c, nd_RTTDeviationCost = c\<rparr>)
     [(''a'', 10), (''b'', 20), (''c'', 30)]"

theorem least_load_selection_witness:
  "map nd_Tag (selectLeastLoad \<lparr>sl_Baselines = [15, 25, 40], sl_Expected = 2, sl_MaxRTT = 0\<rparr> example_nodes) = [str ''a'', str ''b''] \<and>
   selectLeastLoad \<lparr>sl_Baselines = [5], sl_Expected = 0, sl_MaxRTT = 0\<rparr> example_nodes = []"
proof -
  have "sorted (map node_key example_nodes)" by (simp add: example_nodes_def node_key_def less_eq_prod_def)
  from least_load_selection [OF this, of "\<lparr>sl_Baselines = [15, 25, 40], sl_Expected = 2, sl_MaxRTT = 0\<rparr>"]
    least_load_selection [OF this, of "\<lparr>sl_Baselines = [5], sl_Expected = 0, sl_MaxRTT = 0\<rparr>"]
  show ?thesis by (simp add: example_nodes_def)
qed

lemma leastping_pick:
  assumes "LeastPingStrategy_PickOutbound obs candidates l = (l', t)" and "t \<noteq> []"
  shows "t \<in> set candidates \<or> lp_StickyChoice l \<and> t = lp_lastChoice l"
proof -
  obtain status where s: "obs = Some (ObservationResult status)"
    using assms by (auto simp: LeastPingStrategy_PickOutbound_def split: option.splits observation.splits)
  obtain u d where u: "least_ping candidates status = (u, d)" by fastforce
  have "u = [] \<or> u \<in> set candidates" using least_ping_min [OF u] by (auto simp: reachable_status_def)
  then show ?thesis using assms s u by (auto simp: LeastPingStrategy_PickOutbound_def Let_def split: if_splits)
qed

lemma strategy_Pick_cases:
  assumes roll: "\<And>n. 0 < n \<Longrightarrow> roll n < n"
  shows "case strategy_Pick fe roll obs candidates s of
      None \<Rightarrow> (\<exists>l. s = LeastLoad l) \<and> (obs = None \<or> obs = Some OtherMessage)
    | Some (s', t) \<Rightarrow> t = [] \<or> t \<in> set candidates \<or> (\<exists>l. s = LeastPing l \<and> lp_StickyChoice l \<and> t = lp_lastChoice l)"
proof (cases s)
  case (RandomStrategy cfg)
  then show ?thesis using random_pick [OF roll] by (auto simp: strategy_Pick_def)
next
  case (LeastPing l)
  then show ?thesis using leastping_pick [of obs candidates l] by (auto simp: strategy_Pick_def split: prod.split)
next
  case (LeastLoad l)
  show ?thesis
  proof (cases "LeastLoadStrategy_PickOutbound fe roll obs candidates l")
    case None
    then show ?thesis using LeastLoad
      by (auto simp: strategy_Pick_def LeastLoadStrategy_PickOutbound_def LeastLoad_pickOutbounds_def LeastLoad_getNodes_def split: option.splits observation.splits prod.splits)
  next
    case (Some r)
    then show ?thesis using LeastLoad load_pick [OF roll, of fe obs candidates l] by (cases r) (auto simp: strategy_Pick_def)
  qed
qed


definition whole_numbers :: "int float_env" where
  "whole_numbers = \<lparr>fe_positive = (\<lambda>x. 0 < x), fe_ParseFloat = (\<lambda>_. None), fe_regexp = (\<lambda>_. None), fe_scale = (\<lambda>v w. v * w)\<rparr>"


end
