(* ===== verification/Router.thy ===== *)
theory Router
  imports Route_Condition Balancer
begin

text \<open>
  Routing, third part: the rules of \<^verbatim>\<open>app/router/config.go\<close> and the choice of a rule in \<^verbatim>\<open>app/router/router.go\<close>. The
  meaning of a rule is stated field by field (\<open>rule_meaning\<close>), and the router is shown to take the first rule whose
  meaning holds. The container of address sets that is global in the code is passed along.
\<close>

section \<open>Rules\<close>

datatype target_tag = RoutingRule_Tag bytes | RoutingRule_BalancingTag bytes

record SetAttribute =
  sa_Key :: bytes
  sa_Value :: bytes

record RoutingRule =
  rr_TargetTag :: "target_tag option"
  rr_Domain :: "RouteDomain list"
  rr_Cidr :: "CIDR list"
  rr_Geoip :: "GeoIP list"
  rr_PortRange :: "PortRange option"
  rr_PortList :: "PortRange list option"
  rr_NetworkList :: "Network list option"
  rr_Networks :: "Network list"
  rr_SourceCidr :: "CIDR list"
  rr_SourceGeoip :: "GeoIP list"
  rr_SourcePortList :: "PortRange list option"
  rr_UserEmail :: "bytes list"
  rr_InboundTag :: "bytes list"
  rr_Protocol :: "bytes list"
  rr_Attributes :: bytes
  rr_DomainMatcher :: bytes
  rr_SetAttribute :: "SetAttribute option list"
  rr_GeoDomain :: "RouteDomain list list"

text \<open>A step of \<^verbatim>\<open>BuildCondition\<close> uses the container and adds conditions, or stops with an error; \<open>None\<close> is a
  step that does not end.\<close>

type_synonym build_step = "GeoIPMatcher list \<Rightarrow> (GeoIPMatcher list \<times> (route_error + Condition list)) option"

definition and_then :: "build_step \<Rightarrow> build_step \<Rightarrow> build_step" where
  "and_then a b c =
     (case a c of
        None \<Rightarrow> None
      | Some (c, Inl err) \<Rightarrow> Some (c, Inl err)
      | Some (c, Inr xs) \<Rightarrow>
          (case b c of
             None \<Rightarrow> None
           | Some (c, Inl err) \<Rightarrow> Some (c, Inl err)
           | Some (c, Inr ys) \<Rightarrow> Some (c, Inr (xs @ ys))))"

definition add_conditions :: "Condition list \<Rightarrow> build_step" where
  "add_conditions conds c = Some (c, Inr conds)"

definition build_domains :: "route_env \<Rightarrow> bytes \<Rightarrow> RouteDomain list \<Rightarrow> build_step" where
  "build_domains env matcherType domains c =
     (if length domains > 0 then
        (case NewDomainMatcher env matcherType domains of
           None \<Rightarrow> None
         | Some (Inl err) \<Rightarrow> Some (c, Inl err)
         | Some (Inr m) \<Rightarrow> Some (c, Inr [DomainCondition m]))
      else Some (c, Inr []))"

definition build_geoip :: "route_env \<Rightarrow> GeoIP list \<Rightarrow> CIDR list \<Rightarrow> bool \<Rightarrow> build_step" where
  "build_geoip env geoip cidr onSource c =
     (let build = (\<lambda>geoips. case NewMultiGeoIPMatcher env geoips c of
            (c, Inl err) \<Rightarrow> Some (c, Inl err)
          | (c, Inr ms) \<Rightarrow> Some (c, Inr [MultiGeoIPMatcher ms onSource]))
      in if length geoip > 0 then build geoip
         else if length cidr > 0 then build [\<lparr>geo_CountryCode = [], geo_Cidr = cidr, geo_InverseMatch = False\<rparr>]
         else Some (c, Inr []))"

definition build_attributes :: "route_env \<Rightarrow> bytes \<Rightarrow> build_step" where
  "build_attributes env code c =
     (if length code > 0 then
        (case NewAttributeMatcher env code of Inl err \<Rightarrow> Some (c, Inl err) | Inr m \<Rightarrow> Some (c, Inr [AttributeMatcher m]))
      else Some (c, Inr []))"

definition port_conditions :: "RoutingRule \<Rightarrow> Condition list" where
  "port_conditions rr =
     (case rr_PortList rr of
        Some l \<Rightarrow> [NewPortMatcher l False]
      | None \<Rightarrow> (case rr_PortRange rr of Some r \<Rightarrow> [NewPortMatcher [r] False] | None \<Rightarrow> [])) @
     (case rr_SourcePortList rr of Some l \<Rightarrow> [NewPortMatcher l True] | None \<Rightarrow> [])"

definition network_conditions :: "RoutingRule \<Rightarrow> Condition list" where
  "network_conditions rr =
     (if length (rr_Networks rr) > 0 then [NetworkMatcher (NewNetworkMatcher (rr_Networks rr))]
      else case rr_NetworkList rr of Some l \<Rightarrow> [NetworkMatcher (NewNetworkMatcher l)] | None \<Rightarrow> [])"

definition BuildCondition :: "route_env \<Rightarrow> RoutingRule \<Rightarrow> build_step" where
  "BuildCondition env rr c =
     (case (and_then (build_domains env (rr_DomainMatcher rr) (rr_Domain rr))
           (and_then (build_domains env (rr_DomainMatcher rr) (concat (rr_GeoDomain rr)))
           (and_then (add_conditions
              ((if length (rr_UserEmail rr) > 0 then [UserMatcher (NewUserMatcher (rr_UserEmail rr))] else []) @
               (if length (rr_InboundTag rr) > 0 then [InboundTagMatcher (NewInboundTagMatcher (rr_InboundTag rr))] else []) @
               port_conditions rr @ network_conditions rr))
           (and_then (build_geoip env (rr_Geoip rr) (rr_Cidr rr) False)
           (and_then (build_geoip env (rr_SourceGeoip rr) (rr_SourceCidr rr) True)
           (and_then (add_conditions (if length (rr_Protocol rr) > 0 then [ProtocolMatcher (NewProtocolMatcher (rr_Protocol rr))] else []))
              (build_attributes env (rr_Attributes rr)))))))) c of
        None \<Rightarrow> None
      | Some (c, Inl err) \<Rightarrow> Some (c, Inl err)
      | Some (c, Inr conds) \<Rightarrow> if length conds = 0 then Some (c, Inl NoEffectiveFields) else Some (c, Inr conds))"

section \<open>The meaning of a rule\<close>

text \<open>The bits of an address, and the addresses of a prefix.\<close>

definition ip_bits :: "bytes \<Rightarrow> bool list" where
  "ip_bits ip = concat (map (\<lambda>b. map (bit b) (rev [0..<8])) ip)"

definition valid_prefix :: "ip_prefix \<Rightarrow> bool" where
  "valid_prefix = (\<lambda>(a, n). n \<le> 8 * length a)"

definition in_prefix :: "ip_prefix \<Rightarrow> bytes \<Rightarrow> bool" where
  "in_prefix = (\<lambda>(a, n) ip. length a = length ip \<and> take n (ip_bits a) = take n (ip_bits ip))"

text \<open>What is used of the address sets: a set of valid prefixes contains the addresses of the prefixes, and
  an address of the standard library is converted to its shortest form.\<close>

definition netipx_ok :: "route_env \<Rightarrow> bool" where
  "netipx_ok env \<longleftrightarrow>
     (\<forall>ps. re_IPSet env ps = (if list_all valid_prefix ps then Some (\<lambda>ip. list_ex (\<lambda>p. in_prefix p ip) ps) else None)) \<and>
     (\<forall>ip. re_FromStdIP env ip = (if length ip = 4 \<or> length ip = 16 then Some (Unmap ip) else None))"

definition cidr_prefix :: "CIDR \<Rightarrow> ip_prefix" where
  "cidr_prefix c = (Unmap (cidr_Ip c), unat (cidr_Prefix c))"

definition cidr_ok :: "CIDR \<Rightarrow> bool" where
  "cidr_ok c \<longleftrightarrow> (length (cidr_Ip c) = 4 \<or> length (cidr_Ip c) = 16) \<and> valid_prefix (cidr_prefix c)"

text \<open>An address that is written in 16 bytes although it is an IPv4 address is in no set.\<close>

definition in_cidrs :: "CIDR list \<Rightarrow> bytes \<Rightarrow> bool" where
  "in_cidrs cs ip \<longleftrightarrow> (length ip = 4 \<or> length ip = 16 \<and> Unmap ip = ip) \<and> list_ex (\<lambda>c. in_prefix (cidr_prefix c) ip) cs"

definition geo_hit :: "GeoIP \<Rightarrow> bytes \<Rightarrow> bool" where
  "geo_hit g ip \<longleftrightarrow> in_cidrs (geo_Cidr g) ip \<noteq> geo_InverseMatch g"

definition domain_hit :: "route_env \<Rightarrow> RouteDomain list \<Rightarrow> bytes \<Rightarrow> bool" where
  "domain_hit env ds s \<longleftrightarrow> s \<noteq> [] \<and> list_ex (\<lambda>m. Matcher_Match m s) (matchers_of env ds)"

definition rule_meaning :: "route_env \<Rightarrow> RoutingRule \<Rightarrow> bytes list \<Rightarrow> RoutingContext \<Rightarrow> bool" where
  "rule_meaning env rr ips c \<longleftrightarrow>
     (rr_Domain rr \<noteq> [] \<longrightarrow> domain_hit env (rr_Domain rr) (rc_TargetDomain c)) \<and>
     (concat (rr_GeoDomain rr) \<noteq> [] \<longrightarrow> domain_hit env (concat (rr_GeoDomain rr)) (rc_TargetDomain c)) \<and>
     (rr_UserEmail rr \<noteq> [] \<longrightarrow> rc_User c \<noteq> [] \<and> rc_User c \<in> set (rr_UserEmail rr)) \<and>
     (rr_InboundTag rr \<noteq> [] \<longrightarrow> rc_InboundTag c \<noteq> [] \<and> rc_InboundTag c \<in> set (rr_InboundTag rr)) \<and>
     (case rr_PortList rr of
        Some l \<Rightarrow> \<exists>r \<in> set l. PortRange_Contains r (rc_TargetPort c)
      | None \<Rightarrow> (case rr_PortRange rr of Some r \<Rightarrow> PortRange_Contains r (rc_TargetPort c) | None \<Rightarrow> True)) \<and>
     (case rr_SourcePortList rr of Some l \<Rightarrow> \<exists>r \<in> set l. PortRange_Contains r (rc_SourcePort c) | None \<Rightarrow> True) \<and>
     (if rr_Networks rr \<noteq> [] then rc_Network c \<in> set (rr_Networks rr)
      else case rr_NetworkList rr of Some l \<Rightarrow> rc_Network c \<in> set l | None \<Rightarrow> True) \<and>
     (if rr_Geoip rr \<noteq> [] then \<exists>ip \<in> set ips. \<exists>g \<in> set (rr_Geoip rr). geo_hit g ip
      else rr_Cidr rr \<noteq> [] \<longrightarrow> (\<exists>ip \<in> set ips. in_cidrs (rr_Cidr rr) ip)) \<and>
     (if rr_SourceGeoip rr \<noteq> [] then \<exists>ip \<in> set (rc_SourceIPs c). \<exists>g \<in> set (rr_SourceGeoip rr). geo_hit g ip
      else rr_SourceCidr rr \<noteq> [] \<longrightarrow> (\<exists>ip \<in> set (rc_SourceIPs c). in_cidrs (rr_SourceCidr rr) ip)) \<and>
     (rr_Protocol rr \<noteq> [] \<longrightarrow> (\<exists>p \<in> set (rr_Protocol rr). p \<noteq> [] \<and> prefix p (rc_Protocol c))) \<and>
     (rr_Attributes rr \<noteq> [] \<longrightarrow> (\<exists>a sat. rc_Attributes c = Some a \<and>
        re_starlark env (str ''satisfied=('' @ rr_Attributes rr @ str '')'') = Some sat \<and> sat a))"

section \<open>Address sets\<close>

lemma Unmap_length: "length ip = 4 \<or> length ip = 16 \<Longrightarrow> length (Unmap ip) = 4 \<or> length (Unmap ip) = 16"
  by (auto simp: Unmap_def)

lemma Unmap_short: "length ip = 16 \<Longrightarrow> length (Unmap ip) = 4 \<longleftrightarrow> Unmap ip \<noteq> ip"
  by (auto simp: Unmap_def split: if_splits dest: arg_cong [of _ _ length])

lemma Init_loop_ok:
  assumes "list_all cidr_ok cs"
  shows "Init_loop cs b4 b6 = Inr (b4 @ filter (\<lambda>p. length (fst p) = 4) (map cidr_prefix cs), b6 @ filter (\<lambda>p. length (fst p) = 16) (map cidr_prefix cs))"
  using assms
proof (induction cs arbitrary: b4 b6)
  case (Cons c cs)
  then have "length (Unmap (cidr_Ip c)) = 4 \<or> length (Unmap (cidr_Ip c)) = 16" using Unmap_length by (simp add: cidr_ok_def)
  then show ?case using Cons by (auto simp: AddrFromSlice_def cidr_ok_def cidr_prefix_def Let_def)
qed simp

lemma GeoIPMatcher_Init_ok:
  assumes env: "netipx_ok env" and cs: "list_all cidr_ok cs"
  obtains m' where "GeoIPMatcher_Init env cs m = Inr m'" "gm_countryCode m' = gm_countryCode m" "gm_reverseMatch m' = gm_reverseMatch m"
    "\<And>ip. GeoIPMatcher_Match env m' ip \<longleftrightarrow> in_cidrs cs ip \<noteq> gm_reverseMatch m"
proof -
  let ?p4 = "filter (\<lambda>p. length (fst p) = 4) (map cidr_prefix cs)" and ?p6 = "filter (\<lambda>p. length (fst p) = 16) (map cidr_prefix cs)"
  let ?m = "m\<lparr>gm_ip4 := \<lambda>ip. list_ex (\<lambda>p. in_prefix p ip) ?p4, gm_ip6 := \<lambda>ip. list_ex (\<lambda>p. in_prefix p ip) ?p6\<rparr>"
  have "list_all valid_prefix ?p4" "list_all valid_prefix ?p6" using cs by (auto simp: list_all_iff cidr_ok_def)
  then have "GeoIPMatcher_Init env cs m = Inr ?m" using env Init_loop_ok [OF cs, of "[]" "[]"]
    by (simp add: GeoIPMatcher_Init_def netipx_ok_def)
  moreover have "GeoIPMatcher_Match env ?m ip \<longleftrightarrow> in_cidrs cs ip \<noteq> gm_reverseMatch m" for ip
  proof -
    have same: "list_ex (\<lambda>p. in_prefix p ip) (filter (\<lambda>p. length (fst p) = n) (map cidr_prefix cs)) \<longleftrightarrow>
        length ip = n \<and> list_ex (\<lambda>c. in_prefix (cidr_prefix c) ip) cs" for n ip
      by (auto simp: list_ex_iff in_prefix_def case_prod_beta)
    have "Unmap ip = ip" if "length ip = 4" using that by (simp add: Unmap_def)
    moreover have "length (Unmap ip) = 4 \<longleftrightarrow> Unmap ip \<noteq> ip" if "length ip = 16" using Unmap_short that by blast
    ultimately show ?thesis using env Unmap_length [of ip]
      by (auto simp: GeoIPMatcher_Match_def match4_def match6_def netipx_ok_def in_cidrs_def same Let_def)
  qed
  ultimately show ?thesis using that [of ?m] by simp
qed

text \<open>The sets of one country code are the same everywhere, as the configuration is documented to keep it;
  then the container holds for a code what the code means.\<close>

definition coherent :: "(bytes \<Rightarrow> CIDR list) \<Rightarrow> GeoIP list \<Rightarrow> bool" where
  "coherent country gs \<longleftrightarrow> list_all (\<lambda>g. geo_CountryCode g \<noteq> [] \<longrightarrow> geo_Cidr g = country (geo_CountryCode g)) gs"

definition container_ok :: "route_env \<Rightarrow> (bytes \<Rightarrow> CIDR list) \<Rightarrow> GeoIPMatcher list \<Rightarrow> bool" where
  "container_ok env country c \<longleftrightarrow>
     (\<forall>m \<in> set c. \<forall>ip. GeoIPMatcher_Match env m ip \<longleftrightarrow> in_cidrs (country (gm_countryCode m)) ip \<noteq> gm_reverseMatch m)"

definition geo_ok :: "(bytes \<Rightarrow> CIDR list) \<Rightarrow> GeoIP list \<Rightarrow> bool" where
  "geo_ok country gs \<longleftrightarrow> coherent country gs \<and> list_all (\<lambda>g. list_all cidr_ok (geo_Cidr g)) gs"

lemma Container_Add_ok:
  assumes env: "netipx_ok env" and c: "container_ok env country c" and g: "geo_ok country [g]"
  shows "\<exists>c' m. Container_Add env g c = (c', Inr m) \<and> container_ok env country c' \<and> (\<forall>ip. GeoIPMatcher_Match env m ip \<longleftrightarrow> geo_hit g ip)"
proof (cases "if geo_CountryCode g \<noteq> [] then find (\<lambda>m. gm_countryCode m = geo_CountryCode g \<and> gm_reverseMatch m = geo_InverseMatch g) c else None")
  case (Some m)
  then have "geo_CountryCode g \<noteq> []" "m \<in> set c" "gm_countryCode m = geo_CountryCode g" "gm_reverseMatch m = geo_InverseMatch g"
    by (auto simp: find_Some_iff split: if_splits)
  moreover from this have "geo_Cidr g = country (geo_CountryCode g)" using g by (simp add: geo_ok_def coherent_def)
  ultimately show ?thesis using Some c by (simp add: Container_Add_def container_ok_def geo_hit_def)
next
  case None
  let ?m = "\<lparr>gm_countryCode = geo_CountryCode g, gm_reverseMatch = geo_InverseMatch g, gm_ip4 = (\<lambda>_. False), gm_ip6 = (\<lambda>_. False)\<rparr>"
  have "list_all cidr_ok (geo_Cidr g)" using g by (simp add: geo_ok_def)
  then obtain m where m: "GeoIPMatcher_Init env (geo_Cidr g) ?m = Inr m" "gm_countryCode m = geo_CountryCode g" "gm_reverseMatch m = geo_InverseMatch g"
      "\<And>ip. GeoIPMatcher_Match env m ip \<longleftrightarrow> in_cidrs (geo_Cidr g) ip \<noteq> geo_InverseMatch g"
    using GeoIPMatcher_Init_ok [OF env, of "geo_Cidr g" ?m] by auto
  then show ?thesis using None c g unfolding Container_Add_def None
    by (auto simp: container_ok_def geo_hit_def geo_ok_def coherent_def)
qed

lemma NewMultiGeoIPMatcher_ok:
  assumes env: "netipx_ok env" and "container_ok env country c" and "geo_ok country gs"
  shows "\<exists>c' ms. NewMultiGeoIPMatcher env gs c = (c', Inr ms) \<and> container_ok env country c' \<and>
     (\<forall>ips. any_ip env ms ips \<longleftrightarrow> (\<exists>ip \<in> set ips. \<exists>g \<in> set gs. geo_hit g ip))"
  using assms(2,3)
proof (induction gs arbitrary: c)
  case (Cons g gs)
  have g: "geo_ok country [g]" "geo_ok country gs" using Cons.prems(2) by (auto simp: geo_ok_def coherent_def)
  obtain c1 m where m: "Container_Add env g c = (c1, Inr m)" "container_ok env country c1" "\<forall>ip. GeoIPMatcher_Match env m ip \<longleftrightarrow> geo_hit g ip"
    using Container_Add_ok [OF env Cons.prems(1) g(1)] by blast
  obtain c2 ms where ms: "NewMultiGeoIPMatcher env gs c1 = (c2, Inr ms)" "container_ok env country c2"
      "\<forall>ips. any_ip env ms ips \<longleftrightarrow> (\<exists>ip \<in> set ips. \<exists>g \<in> set gs. geo_hit g ip)"
    using Cons.IH [OF m(2) g(2)] by blast
  have "any_ip env (m # ms) ips \<longleftrightarrow> (\<exists>ip \<in> set ips. geo_hit g ip) \<or> any_ip env ms ips" for ips
    using m(3) by (auto simp: any_ip_iff)
  then show ?case using m(1) ms by auto
qed (simp add: any_ip_iff)

section \<open>Building a rule\<close>

text \<open>The contexts a rule is meant for: the hashing matcher expects a domain of lower-case letters, digits,
  hyphens and dots.\<close>

definition admissible :: "bytes \<Rightarrow> RoutingContext \<Rightarrow> bool" where
  "admissible ty c \<longleftrightarrow> (uses_mph ty \<longrightarrow> list_all ldh_lower (rc_TargetDomain c))"

text \<open>A step that cannot fail adds conditions which together mean \<open>P\<close>; \<open>E\<close> tells whether it adds any.\<close>

definition builds :: "route_env \<Rightarrow> (bytes \<Rightarrow> CIDR list) \<Rightarrow> bytes \<Rightarrow> build_step \<Rightarrow> bool \<Rightarrow> (bytes list \<Rightarrow> RoutingContext \<Rightarrow> bool) \<Rightarrow> bool" where
  "builds env country ty b E P \<longleftrightarrow> (\<forall>k. container_ok env country k \<longrightarrow>
     (\<exists>k' conds. b k = Some (k', Inr conds) \<and> container_ok env country k' \<and> (conds \<noteq> [] \<longleftrightarrow> E) \<and>
       (\<forall>ips c. admissible ty c \<longrightarrow> (list_all (cond_holds env ips c) conds \<longleftrightarrow> P ips c))))"

lemma builds_and_then:
  assumes "builds env country ty a E P" and "builds env country ty b F Q"
  shows "builds env country ty (and_then a b) (E \<or> F) (\<lambda>ips c. P ips c \<and> Q ips c)"
  unfolding builds_def
proof (intro allI impI)
  fix k assume "container_ok env country k"
  then obtain k1 xs where a: "a k = Some (k1, Inr xs)" "container_ok env country k1" "xs \<noteq> [] \<longleftrightarrow> E"
      "\<forall>ips c. admissible ty c \<longrightarrow> (list_all (cond_holds env ips c) xs \<longleftrightarrow> P ips c)"
    using assms(1) unfolding builds_def by metis
  obtain k2 ys where b: "b k1 = Some (k2, Inr ys)" "container_ok env country k2" "ys \<noteq> [] \<longleftrightarrow> F"
      "\<forall>ips c. admissible ty c \<longrightarrow> (list_all (cond_holds env ips c) ys \<longleftrightarrow> Q ips c)"
    using assms(2) a(2) unfolding builds_def by metis
  have "and_then a b k = Some (k2, Inr (xs @ ys))" using a(1) b(1) by (simp add: and_then_def)
  then show "\<exists>k' conds. and_then a b k = Some (k', Inr conds) \<and> container_ok env country k' \<and> (conds \<noteq> [] \<longleftrightarrow> E \<or> F) \<and>
       (\<forall>ips c. admissible ty c \<longrightarrow> (list_all (cond_holds env ips c) conds \<longleftrightarrow> P ips c \<and> Q ips c))"
    using a(3,4) b(2,3,4) by auto
qed

lemma builds_cong:
  assumes "builds env country ty b E P" and "E \<longleftrightarrow> F" and "\<And>ips c. P ips c \<longleftrightarrow> Q ips c"
  shows "builds env country ty b F Q"
  using assms unfolding builds_def by simp

lemma builds_add_conditions:
  "builds env country ty (add_conditions conds) (conds \<noteq> []) (\<lambda>ips c. list_all (cond_holds env ips c) conds)"
  by (auto simp: builds_def add_conditions_def)

lemma index_fits_admissible:
  "index_fits env ty ms [] \<Longrightarrow> admissible ty c \<Longrightarrow> index_fits env ty ms (rc_TargetDomain c)"
  by (auto simp: index_fits_def mph_fits_def admissible_def)

lemma builds_domains:
  assumes "domains_convert env ds" and "index_fits env ty (matchers_of env ds) []"
  shows "builds env country ty (build_domains env ty ds) (ds \<noteq> []) (\<lambda>ips c. ds \<noteq> [] \<longrightarrow> domain_hit env ds (rc_TargetDomain c))"
proof (cases "ds = []")
  case True
  then show ?thesis by (auto simp: builds_def build_domains_def)
next
  case False
  obtain m where m: "NewDomainMatcher env ty ds = Some (Inr m)" using NewDomainMatcher_ok [OF assms] by blast
  have "IndexMatcher_MatchAny env m (rc_TargetDomain c) \<longleftrightarrow> list_ex (\<lambda>m. Matcher_Match m (rc_TargetDomain c)) (matchers_of env ds)"
    if "admissible ty c" for c
    using NewDomainMatcher_ok [OF assms(1) index_fits_admissible [OF assms(2) that]] m by auto
  then show ?thesis using False m by (auto simp: builds_def build_domains_def DomainMatcher_Apply_def domain_hit_def Let_def)
qed

lemma builds_geoip:
  assumes "netipx_ok env" and "geo_ok country gs" and "list_all cidr_ok cs"
  shows "builds env country ty (build_geoip env gs cs onSource) (gs \<noteq> [] \<or> cs \<noteq> [])
    (\<lambda>ips c. let ips = (if onSource then rc_SourceIPs c else ips) in
       if gs \<noteq> [] then \<exists>ip \<in> set ips. \<exists>g \<in> set gs. geo_hit g ip else cs \<noteq> [] \<longrightarrow> (\<exists>ip \<in> set ips. in_cidrs cs ip))"
  unfolding builds_def
proof (intro allI impI)
  fix k assume k: "container_ok env country k"
  let ?g = "\<lparr>geo_CountryCode = [], geo_Cidr = cs, geo_InverseMatch = False\<rparr>"
  obtain k1 ms where a: "NewMultiGeoIPMatcher env gs k = (k1, Inr ms)" "container_ok env country k1"
      "\<And>ips. any_ip env ms ips \<longleftrightarrow> (\<exists>ip \<in> set ips. \<exists>g \<in> set gs. geo_hit g ip)"
    using NewMultiGeoIPMatcher_ok [OF assms(1) k assms(2)] by blast
  have g: "geo_ok country [?g]" using assms(3) by (simp add: geo_ok_def coherent_def)
  obtain k2 ns where b: "NewMultiGeoIPMatcher env [?g] k = (k2, Inr ns)" "container_ok env country k2"
      "\<And>ips. any_ip env ns ips \<longleftrightarrow> (\<exists>ip \<in> set ips. \<exists>g \<in> set [?g]. geo_hit g ip)"
    using NewMultiGeoIPMatcher_ok [OF assms(1) k g] by blast
  have hit: "geo_hit ?g ip \<longleftrightarrow> in_cidrs cs ip" for ip by (simp add: geo_hit_def)
  show "\<exists>k' conds. build_geoip env gs cs onSource k = Some (k', Inr conds) \<and> container_ok env country k' \<and> (conds \<noteq> [] \<longleftrightarrow> gs \<noteq> [] \<or> cs \<noteq> []) \<and>
     (\<forall>ips c. admissible ty c \<longrightarrow> (list_all (cond_holds env ips c) conds \<longleftrightarrow> (let ips = (if onSource then rc_SourceIPs c else ips) in
       if gs \<noteq> [] then \<exists>ip \<in> set ips. \<exists>g \<in> set gs. geo_hit g ip else cs \<noteq> [] \<longrightarrow> (\<exists>ip \<in> set ips. in_cidrs cs ip))))"
  proof (cases "gs = []")
    case True
    then show ?thesis using b k hit by (cases "cs = []") (auto simp: build_geoip_def Let_def)
  next
    case False
    then show ?thesis using a by (auto simp: build_geoip_def Let_def)
  qed
qed

lemma builds_attributes:
  assumes "code \<noteq> [] \<longrightarrow> re_starlark env (str ''satisfied=('' @ code @ str '')'') \<noteq> None"
  shows "builds env country ty (build_attributes env code) (code \<noteq> []) (\<lambda>ips c. code \<noteq> [] \<longrightarrow> (\<exists>a sat. rc_Attributes c = Some a \<and>
        re_starlark env (str ''satisfied=('' @ code @ str '')'') = Some sat \<and> sat a))"
  using assms by (auto simp: builds_def build_attributes_def NewAttributeMatcher_def AttributeMatcher_Apply_def split: option.splits)

definition rule_effective :: "RoutingRule \<Rightarrow> bool" where
  "rule_effective rr \<longleftrightarrow> rr_Domain rr \<noteq> [] \<or> concat (rr_GeoDomain rr) \<noteq> [] \<or> rr_UserEmail rr \<noteq> [] \<or> rr_InboundTag rr \<noteq> [] \<or>
     rr_PortList rr \<noteq> None \<or> rr_PortRange rr \<noteq> None \<or> rr_SourcePortList rr \<noteq> None \<or> rr_Networks rr \<noteq> [] \<or> rr_NetworkList rr \<noteq> None \<or>
     rr_Geoip rr \<noteq> [] \<or> rr_Cidr rr \<noteq> [] \<or> rr_SourceGeoip rr \<noteq> [] \<or> rr_SourceCidr rr \<noteq> [] \<or> rr_Protocol rr \<noteq> [] \<or> rr_Attributes rr \<noteq> []"

definition rule_ok :: "route_env \<Rightarrow> (bytes \<Rightarrow> CIDR list) \<Rightarrow> RoutingRule \<Rightarrow> bool" where
  "rule_ok env country rr \<longleftrightarrow>
     domains_convert env (rr_Domain rr) \<and> index_fits env (rr_DomainMatcher rr) (matchers_of env (rr_Domain rr)) [] \<and>
     domains_convert env (concat (rr_GeoDomain rr)) \<and> index_fits env (rr_DomainMatcher rr) (matchers_of env (concat (rr_GeoDomain rr))) [] \<and>
     geo_ok country (rr_Geoip rr) \<and> list_all cidr_ok (rr_Cidr rr) \<and> geo_ok country (rr_SourceGeoip rr) \<and> list_all cidr_ok (rr_SourceCidr rr) \<and>
     (rr_Attributes rr \<noteq> [] \<longrightarrow> re_starlark env (str ''satisfied=('' @ rr_Attributes rr @ str '')'') \<noteq> None)"

lemma port_conditions_mean:
  "list_all (cond_holds env ips c) (port_conditions rr) \<longleftrightarrow>
     (case rr_PortList rr of
        Some l \<Rightarrow> \<exists>r \<in> set l. PortRange_Contains r (rc_TargetPort c)
      | None \<Rightarrow> (case rr_PortRange rr of Some r \<Rightarrow> PortRange_Contains r (rc_TargetPort c) | None \<Rightarrow> True)) \<and>
     (case rr_SourcePortList rr of Some l \<Rightarrow> \<exists>r \<in> set l. PortRange_Contains r (rc_SourcePort c) | None \<Rightarrow> True)"
  by (auto simp: port_conditions_def NewPortMatcher_def port_matcher split: option.split)

lemma network_conditions_mean:
  "list_all (cond_holds env ips c) (network_conditions rr) \<longleftrightarrow>
     (if rr_Networks rr \<noteq> [] then rc_Network c \<in> set (rr_Networks rr)
      else case rr_NetworkList rr of Some l \<Rightarrow> rc_Network c \<in> set l | None \<Rightarrow> True)"
  by (auto simp: network_conditions_def network_matcher split: option.split)

lemma port_network_empty:
  "port_conditions rr @ network_conditions rr = [] \<longleftrightarrow>
     rr_PortList rr = None \<and> rr_PortRange rr = None \<and> rr_SourcePortList rr = None \<and> rr_Networks rr = [] \<and> rr_NetworkList rr = None"
  by (auto simp: port_conditions_def network_conditions_def split: option.splits)

lemma BuildCondition_ok:
  assumes env: "netipx_ok env" and rr: "rule_ok env country rr" and k: "container_ok env country k"
  shows "\<exists>k' r. BuildCondition env rr k = Some (k', r) \<and> container_ok env country k' \<and>
     (if rule_effective rr then \<exists>conds. r = Inr conds \<and> (\<forall>ips c. admissible (rr_DomainMatcher rr) c \<longrightarrow>
          (list_all (cond_holds env ips c) conds \<longleftrightarrow> rule_meaning env rr ips c))
      else r = Inl NoEffectiveFields)"
proof -
  let ?ty = "rr_DomainMatcher rr"
  let ?ul = "(if length (rr_UserEmail rr) > 0 then [UserMatcher (NewUserMatcher (rr_UserEmail rr))] else []) @
       (if length (rr_InboundTag rr) > 0 then [InboundTagMatcher (NewInboundTagMatcher (rr_InboundTag rr))] else []) @
       port_conditions rr @ network_conditions rr"
  let ?pl = "if length (rr_Protocol rr) > 0 then [ProtocolMatcher (NewProtocolMatcher (rr_Protocol rr))] else []"
  let ?b = "and_then (build_domains env ?ty (rr_Domain rr)) (and_then (build_domains env ?ty (concat (rr_GeoDomain rr)))
       (and_then (add_conditions ?ul) (and_then (build_geoip env (rr_Geoip rr) (rr_Cidr rr) False)
       (and_then (build_geoip env (rr_SourceGeoip rr) (rr_SourceCidr rr) True)
       (and_then (add_conditions ?pl) (build_attributes env (rr_Attributes rr)))))))"
  note rr' = rr [unfolded rule_ok_def]
  have d: "builds env country ?ty (build_domains env ?ty (rr_Domain rr)) (rr_Domain rr \<noteq> []) (\<lambda>ips c. rr_Domain rr \<noteq> [] \<longrightarrow> domain_hit env (rr_Domain rr) (rc_TargetDomain c))"
    "builds env country ?ty (build_domains env ?ty (concat (rr_GeoDomain rr))) (concat (rr_GeoDomain rr) \<noteq> []) (\<lambda>ips c. concat (rr_GeoDomain rr) \<noteq> [] \<longrightarrow> domain_hit env (concat (rr_GeoDomain rr)) (rc_TargetDomain c))"
    by (rule builds_domains; use rr' in simp)+
  have gs: "geo_ok country (rr_Geoip rr)" "list_all cidr_ok (rr_Cidr rr)" "geo_ok country (rr_SourceGeoip rr)" "list_all cidr_ok (rr_SourceCidr rr)"
    and at: "rr_Attributes rr \<noteq> [] \<longrightarrow> re_starlark env (str ''satisfied=('' @ rr_Attributes rr @ str '')'') \<noteq> None" using rr' by simp_all
  note all = builds_and_then [OF d(1) builds_and_then [OF d(2) builds_and_then [OF builds_add_conditions [where conds = ?ul]
    builds_and_then [OF builds_geoip [OF env gs(1,2), where onSource = False] builds_and_then [OF builds_geoip [OF env gs(3,4), where onSource = True]
    builds_and_then [OF builds_add_conditions [where conds = ?pl] builds_attributes [OF at]]]]]]]
  have b: "builds env country ?ty ?b (rule_effective rr) (rule_meaning env rr)"
  proof (rule builds_cong [OF all])
    show "(rr_Domain rr \<noteq> [] \<or> concat (rr_GeoDomain rr) \<noteq> [] \<or> ?ul \<noteq> [] \<or> (rr_Geoip rr \<noteq> [] \<or> rr_Cidr rr \<noteq> []) \<or>
       (rr_SourceGeoip rr \<noteq> [] \<or> rr_SourceCidr rr \<noteq> []) \<or> ?pl \<noteq> [] \<or> rr_Attributes rr \<noteq> []) \<longleftrightarrow> rule_effective rr"
      unfolding rule_effective_def using port_network_empty [of rr] by auto
  qed (simp add: rule_meaning_def port_conditions_mean network_conditions_mean user_matcher tag_matcher protocol_matcher Let_def)
  obtain k' conds where "?b k = Some (k', Inr conds)" "container_ok env country k'" "conds \<noteq> [] \<longleftrightarrow> rule_effective rr"
      "\<forall>ips c. admissible ?ty c \<longrightarrow> (list_all (cond_holds env ips c) conds \<longleftrightarrow> rule_meaning env rr ips c)"
    using b k unfolding builds_def by metis
  then show ?thesis by (auto simp: BuildCondition_def)
qed

section \<open>The router\<close>

datatype DomainStrategy = AsIs | UseIp | IpIfNonMatch | IpOnDemand

text \<open>A rule refers to its balancer by its tag.\<close>

record Rule =
  ru_Tag :: bytes
  ru_Balancer :: "bytes option"
  ru_Condition :: "Condition list"
  ru_SetAttributes :: "SetAttribute option list"

record 'f Router =
  rt_domainStrategy :: DomainStrategy
  rt_rules :: "Rule list"
  rt_balancers :: "(bytes \<times> 'f Balancer) list"

fun GetTag :: "target_tag option \<Rightarrow> bytes" where
  "GetTag (Some (RoutingRule_Tag t)) = t"
| "GetTag _ = []"

fun GetBalancingTag :: "target_tag option \<Rightarrow> bytes" where
  "GetBalancingTag (Some (RoutingRule_BalancingTag t)) = t"
| "GetBalancingTag _ = []"

text \<open>The settings of a balancing rule are a typed message: missing, not decodable, or of one of the types. Decoding
  a missing message panics (\<open>None\<close>). \<open>one\<close> is the default weight 1.\<close>

datatype 'f settings = LeastPingConfig bool | LeastLoadConfig StrategyLeastLoadConfig "'f StrategyWeight list" | RandomConfig StrategyRandomConfig
  | OtherConfig

record 'f BalancingRule =
  br_Tag :: bytes
  br_OutboundSelector :: "bytes list"
  br_Strategy :: bytes
  br_StrategySettings :: "'f settings option option"
  br_FallbackTag :: bytes

definition NewLeastLoadStrategy :: "'f \<Rightarrow> StrategyLeastLoadConfig \<Rightarrow> 'f StrategyWeight list \<Rightarrow> 'f LeastLoadStrategy" where
  "NewLeastLoadStrategy one settings costs = \<lparr>ll_settings = settings, ll_costs = NewWeightManager costs one\<rparr>"

definition BalancingRule_Build :: "'f \<Rightarrow> 'f BalancingRule \<Rightarrow> (route_error + 'f Balancer) option" where
  "BalancingRule_Build one br =
     (let balancer = (\<lambda>s. \<lparr>ba_selectors = br_OutboundSelector br, ba_strategy = s, ba_fallbackTag = br_FallbackTag br, ba_override = []\<rparr>) in
      if br_Strategy br = str ''leastping'' then
        (case br_StrategySettings br of
           None \<Rightarrow> None
         | Some None \<Rightarrow> Some (Inl BadSettings)
         | Some (Some (LeastPingConfig sticky)) \<Rightarrow> Some (Inr (balancer (LeastPing \<lparr>lp_StickyChoice = sticky, lp_lastChoice = []\<rparr>)))
         | Some (Some _) \<Rightarrow> Some (Inl WrongSettings))
      else if br_Strategy br = str ''leastload'' then
        (case br_StrategySettings br of
           None \<Rightarrow> None
         | Some None \<Rightarrow> Some (Inl BadSettings)
         | Some (Some (LeastLoadConfig s costs)) \<Rightarrow> Some (Inr (balancer (LeastLoad (NewLeastLoadStrategy one s costs))))
         | Some (Some _) \<Rightarrow> Some (Inl WrongSettings))
      else if br_Strategy br = str ''random'' \<or> br_Strategy br = [] then
        (case br_StrategySettings br of
           None \<Rightarrow> Some (Inr (balancer (RandomStrategy None)))
         | Some None \<Rightarrow> Some (Inl BadSettings)
         | Some (Some (RandomConfig s)) \<Rightarrow> Some (Inr (balancer (RandomStrategy (Some s))))
         | Some (Some _) \<Rightarrow> Some (Inl WrongSettings))
      else Some (Inl UnrecognizedBalancer))"

fun init_balancers :: "'f \<Rightarrow> 'f BalancingRule list \<Rightarrow> (bytes \<times> 'f Balancer) list \<Rightarrow> (route_error + (bytes \<times> 'f Balancer) list) option" where
  "init_balancers one [] balancers = Some (Inr balancers)"
| "init_balancers one (rule # rules) balancers =
     (case BalancingRule_Build one rule of
        None \<Rightarrow> None
      | Some (Inl err) \<Rightarrow> Some (Inl err)
      | Some (Inr balancer) \<Rightarrow> init_balancers one rules (AList.update (br_Tag rule) balancer balancers))"

text \<open>\<^verbatim>\<open>Init\<close>: the balancers are built first, then the rules.\<close>

fun init_rules ::
  "route_env \<Rightarrow> (bytes \<times> 'f Balancer) list \<Rightarrow> RoutingRule list \<Rightarrow> GeoIPMatcher list \<Rightarrow> (GeoIPMatcher list \<times> (route_error + Rule list)) option" where
  "init_rules env balancers [] c = Some (c, Inr [])"
| "init_rules env balancers (rule # rules) c =
     (case BuildCondition env rule c of
        None \<Rightarrow> None
      | Some (c, Inl err) \<Rightarrow> Some (c, Inl err)
      | Some (c, Inr cond) \<Rightarrow>
          let rr = \<lparr>ru_Tag = GetTag (rr_TargetTag rule), ru_Balancer = None, ru_Condition = cond, ru_SetAttributes = rr_SetAttribute rule\<rparr>;
              btag = GetBalancingTag (rr_TargetTag rule)
          in if length btag > 0 \<and> map_of balancers btag = None then Some (c, Inl BalancerNotFound)
             else let rr = (if length btag > 0 then rr\<lparr>ru_Balancer := Some btag\<rparr> else rr) in
               case init_rules env balancers rules c of
                 None \<Rightarrow> None
               | Some (c, Inl err) \<Rightarrow> Some (c, Inl err)
               | Some (c, Inr rs) \<Rightarrow> Some (c, Inr (rr # rs)))"

definition Router_Init ::
  "route_env \<Rightarrow> 'f \<Rightarrow> DomainStrategy \<Rightarrow> 'f BalancingRule list \<Rightarrow> RoutingRule list \<Rightarrow> GeoIPMatcher list \<Rightarrow>
     (GeoIPMatcher list \<times> (route_error + 'f Router)) option" where
  "Router_Init env one strategy balancing rules c =
     (case init_balancers one balancing [] of
        None \<Rightarrow> None
      | Some (Inl err) \<Rightarrow> Some (c, Inl err)
      | Some (Inr balancers) \<Rightarrow>
          (case init_rules env balancers rules c of
             None \<Rightarrow> None
           | Some (c, Inl err) \<Rightarrow> Some (c, Inl err)
           | Some (c, Inr rs) \<Rightarrow> Some (c, Inr \<lparr>rt_domainStrategy = strategy, rt_rules = rs, rt_balancers = balancers\<rparr>)))"

text \<open>The first rule that applies; the context and the number of queries are passed along.\<close>

fun first_rule :: "route_env \<Rightarrow> dns_client \<Rightarrow> Rule list \<Rightarrow> nat \<times> route_ctx \<Rightarrow> Rule option \<times> nat \<times> route_ctx" where
  "first_rule env lookup [] st = (None, st)"
| "first_rule env lookup (rule # rules) st =
     (case ConditionChan_Apply env lookup (ru_Condition rule) st of
        (holds, st) \<Rightarrow> if holds then (Some rule, st) else first_rule env lookup rules st)"

definition pickRouteInternal :: "route_env \<Rightarrow> dns_client \<Rightarrow> 'f Router \<Rightarrow> nat \<times> route_ctx \<Rightarrow> Rule option \<times> nat \<times> route_ctx" where
  "pickRouteInternal env lookup r = (\<lambda>(n, ctx).
     let skipDNSResolve = rc_SkipDNSResolve (base_ctx ctx);
         ctx = (if rt_domainStrategy r = IpOnDemand \<and> \<not> skipDNSResolve then ContextWithDNSClient ctx else ctx)
     in case first_rule env lookup (rt_rules r) (n, ctx) of
          (Some rule, st) \<Rightarrow> (Some rule, st)
        | (None, n, ctx) \<Rightarrow>
            if rt_domainStrategy r \<noteq> IpIfNonMatch \<or> length (rc_TargetDomain (base_ctx ctx)) = 0 \<or> skipDNSResolve
            then (None, n, ctx)
            else first_rule env lookup (rt_rules r) (n, ContextWithDNSClient ctx))"

section \<open>Choosing a rule\<close>

lemma first_rule_find:
  assumes "steady lookup" and "stands_for lookup ctx ips"
  shows "\<exists>n' ctx'. first_rule env lookup rules (n, ctx) =
      (find (\<lambda>r. list_all (cond_holds env ips (base_ctx ctx)) (ru_Condition r)) rules, n', ctx') \<and> base_ctx ctx' = base_ctx ctx"
  using assms(2)
proof (induction rules arbitrary: n ctx)
  case (Cons rule rules)
  obtain n1 ctx1 where c: "ConditionChan_Apply env lookup (ru_Condition rule) (n, ctx) = (list_all (cond_holds env ips (base_ctx ctx)) (ru_Condition rule), n1, ctx1)"
      "stands_for lookup ctx1 ips" "base_ctx ctx1 = base_ctx ctx"
    using ConditionChan_Apply_holds [OF assms(1) Cons.prems] by blast
  then show ?case using Cons.IH [OF c(2), of n1] by auto
qed simp

text \<open>The choice as the configuration describes it, on the addresses the domain resolves to.\<close>

definition route_spec :: "(bytes list \<Rightarrow> 'r \<Rightarrow> bool) \<Rightarrow> DomainStrategy \<Rightarrow> dns_client \<Rightarrow> 'r list \<Rightarrow> RoutingContext \<Rightarrow> 'r option" where
  "route_spec holds strategy lookup rules c =
     (let asis = find (holds (rc_TargetIPs c)) rules; withip = find (holds (resolved lookup c)) rules in
      if rc_SkipDNSResolve c then asis
      else case strategy of
        IpOnDemand \<Rightarrow> withip
      | IpIfNonMatch \<Rightarrow> if asis = None \<and> rc_TargetDomain c \<noteq> [] then withip else asis
      | _ \<Rightarrow> asis)"

lemma pickRouteInternal_spec:
  assumes "steady lookup"
  shows "fst (pickRouteInternal env lookup r (n, Session c)) =
     route_spec (\<lambda>ips rule. list_all (cond_holds env ips c) (ru_Condition rule)) (rt_domainStrategy r) lookup (rt_rules r) c"
proof -
  have s: "stands_for lookup (Session c) (rc_TargetIPs c)" by simp
  have d: "stands_for lookup (Resolvable c []) (resolved lookup c)" by simp
  obtain n1 ctx1 where a: "first_rule env lookup (rt_rules r) (n, Session c) =
      (find (\<lambda>rule. list_all (cond_holds env (rc_TargetIPs c) c) (ru_Condition rule)) (rt_rules r), n1, ctx1)" "base_ctx ctx1 = c"
    using first_rule_find [OF assms s, of env "rt_rules r" n] by auto
  have b: "\<exists>n' ctx'. first_rule env lookup (rt_rules r) (m, Resolvable c []) =
      (find (\<lambda>rule. list_all (cond_holds env (resolved lookup c) c) (ru_Condition rule)) (rt_rules r), n', ctx') \<and> base_ctx ctx' = c" for m
    using first_rule_find [OF assms d, of env "rt_rules r" m] by auto
  show ?thesis using a b [of n] b [of n1]
    by (cases "rt_domainStrategy r") (auto simp: pickRouteInternal_def route_spec_def ContextWithDNSClient_def Let_def split: option.splits)
qed

section \<open>Routes\<close>

record Route =
  ro_Context :: route_ctx
  ro_outboundTag :: bytes
  ro_sessionAttributes :: "attributes option"

text \<open>The rule's tag, or what its balancer picks; \<open>None\<close> is a panic of the strategy.\<close>

definition Rule_GetTag ::
  "'f float_env \<Rightarrow> (nat \<Rightarrow> nat) \<Rightarrow> observation option \<Rightarrow> Manager option \<Rightarrow> Rule \<Rightarrow> 'f Router \<Rightarrow> ('f Router \<times> (balancer_error + bytes)) option" where
  "Rule_GetTag fe dice obs ohm rule r =
     (case ru_Balancer rule of
        None \<Rightarrow> Some (r, Inr (ru_Tag rule))
      | Some btag \<Rightarrow>
          (case map_of (rt_balancers r) btag of
             None \<Rightarrow> None
           | Some b \<Rightarrow> map_option (\<lambda>(b, t). (r\<lparr>rt_balancers := AList.update btag b (rt_balancers r)\<rparr>, t)) (Balancer_PickOutbound fe dice obs ohm b)))"

definition session_attributes :: "SetAttribute option list \<Rightarrow> attributes option" where
  "session_attributes sas =
     (if length sas > 0 then
        let attrs = fold (\<lambda>a m. case a of None \<Rightarrow> m | Some sa \<Rightarrow> if sa_Key sa = [] then m else AList.update (sa_Key sa) (sa_Value sa) m) sas []
        in if length attrs = 0 then None else Some attrs
      else None)"

definition PickRoute ::
  "route_env \<Rightarrow> dns_client \<Rightarrow> 'f float_env \<Rightarrow> (nat \<Rightarrow> nat) \<Rightarrow> observation option \<Rightarrow> Manager option \<Rightarrow> nat \<times> route_ctx \<Rightarrow> 'f Router \<Rightarrow>
     ('f Router \<times> ((balancer_error option) + Route)) option" where
  "PickRoute env lookup fe dice obs ohm st r =
     (case pickRouteInternal env lookup r st of
        (None, _) \<Rightarrow> Some (r, Inl None)
      | (Some rule, n, ctx) \<Rightarrow>
          map_option (\<lambda>(r, t). (r, case t of
              Inl err \<Rightarrow> Inl (Some err)
            | Inr tag \<Rightarrow> Inr \<lparr>ro_Context = ctx, ro_outboundTag = tag, ro_sessionAttributes = session_attributes (ru_SetAttributes rule)\<rparr>))
          (Rule_GetTag fe dice obs ohm rule r))"

definition GetSessionAttributes :: "Route option \<Rightarrow> attributes option" where
  "GetSessionAttributes r =
     (case r of None \<Rightarrow> None
      | Some r \<Rightarrow> (case ro_sessionAttributes r of None \<Rightarrow> None | Some a \<Rightarrow> if length a = 0 then None else Some a))"

text \<open>The operations of the API on balancers.\<close>

definition GetPrincipleTarget ::
  "'f float_env \<Rightarrow> observation option \<Rightarrow> Manager option \<Rightarrow> bytes \<Rightarrow> 'f Router \<Rightarrow> ('f Router \<times> (balancer_error + bytes list)) option" where
  "GetPrincipleTarget fe obs ohm tag r =
     (case map_of (rt_balancers r) tag of
        None \<Rightarrow> Some (r, Inl BalancerTagNotFound)
      | Some b \<Rightarrow>
          (case SelectOutbounds ohm b of
             Inl err \<Rightarrow> Some (r, Inl err)
           | Inr candidates \<Rightarrow>
               map_option (\<lambda>(s, tags). (r\<lparr>rt_balancers := AList.update tag (b\<lparr>ba_strategy := s\<rparr>) (rt_balancers r)\<rparr>, Inr tags))
               (case ba_strategy b of
                  RandomStrategy cfg \<Rightarrow> Some (RandomStrategy cfg, RandomStrategy_GetPrincipleTarget candidates)
                | LeastPing l \<Rightarrow> (case LeastPingStrategy_GetPrincipleTarget obs candidates l of (l, tags) \<Rightarrow> Some (LeastPing l, tags))
                | LeastLoad l \<Rightarrow> map_option (\<lambda>(l, tags). (LeastLoad l, tags)) (LeastLoadStrategy_GetPrincipleTarget fe obs candidates l))))"

definition SetOverrideTarget :: "bytes \<Rightarrow> bytes \<Rightarrow> 'f Router \<Rightarrow> 'f Router option" where
  "SetOverrideTarget tag target r =
     (case map_of (rt_balancers r) tag of
        None \<Rightarrow> None
      | Some b \<Rightarrow> Some (r\<lparr>rt_balancers := AList.update tag (override_Put target b) (rt_balancers r)\<rparr>))"

definition GetOverrideTarget :: "bytes \<Rightarrow> 'f Router \<Rightarrow> bytes option" where
  "GetOverrideTarget tag r = map_option override_Get (map_of (rt_balancers r) tag)"

definition OverrideBalancer :: "bytes \<Rightarrow> bytes \<Rightarrow> 'f Router \<Rightarrow> 'f Router option" where
  "OverrideBalancer balancer target r =
     (case find (\<lambda>(tag, bl). tag = balancer) (rt_balancers r) of
        None \<Rightarrow> None
      | Some (_, b) \<Rightarrow> Some (r\<lparr>rt_balancers := AList.update balancer (override_Put target b) (rt_balancers r)\<rparr>))"

lemma find_map_of: "find (\<lambda>(t, b). t = tag) al = map_option (\<lambda>b. (tag, b)) (map_of al tag)"
  by (induction al) auto

lemma OverrideBalancer_eq: "OverrideBalancer tag target r = SetOverrideTarget tag target r"
  unfolding OverrideBalancer_def SetOverrideTarget_def find_map_of by (cases "map_of (rt_balancers r) tag") simp_all

lemma override_roundtrip:
  "SetOverrideTarget tag target r = Some r' \<Longrightarrow> GetOverrideTarget tag r' = Some target \<and> (t \<noteq> tag \<longrightarrow> GetOverrideTarget t r' = GetOverrideTarget t r)"
  by (auto simp: SetOverrideTarget_def GetOverrideTarget_def update_conv' override_Put_def override_Get_def split: option.splits)

section \<open>From the configuration to the choice\<close>

definition balancing_ok :: "'f \<Rightarrow> 'f BalancingRule list \<Rightarrow> bool" where
  "balancing_ok one balancing \<longleftrightarrow> list_all (\<lambda>br. case BalancingRule_Build one br of Some (Inr b) \<Rightarrow> True | _ \<Rightarrow> False) balancing"

definition rules_ok :: "route_env \<Rightarrow> (bytes \<Rightarrow> CIDR list) \<Rightarrow> 'f BalancingRule list \<Rightarrow> RoutingRule list \<Rightarrow> bool" where
  "rules_ok env country balancing rules \<longleftrightarrow> list_all (\<lambda>rr. rule_ok env country rr \<and> rule_effective rr \<and>
     (GetBalancingTag (rr_TargetTag rr) \<noteq> [] \<longrightarrow> GetBalancingTag (rr_TargetTag rr) \<in> br_Tag ` set balancing)) rules"

definition target_of :: "RoutingRule \<Rightarrow> bytes \<times> bytes option" where
  "target_of rr = (GetTag (rr_TargetTag rr), if GetBalancingTag (rr_TargetTag rr) = [] then None else Some (GetBalancingTag (rr_TargetTag rr)))"

definition implements :: "route_env \<Rightarrow> RoutingRule \<Rightarrow> Rule \<Rightarrow> bool" where
  "implements env rr ru \<longleftrightarrow> (ru_Tag ru, ru_Balancer ru) = target_of rr \<and> ru_SetAttributes ru = rr_SetAttribute rr \<and>
     (\<forall>ips c. admissible (rr_DomainMatcher rr) c \<longrightarrow> (list_all (cond_holds env ips c) (ru_Condition ru) \<longleftrightarrow> rule_meaning env rr ips c))"

lemma init_rules_ok:
  assumes "netipx_ok env" and "container_ok env country k" and "rules_ok env country balancing rules" and "br_Tag ` set balancing \<subseteq> dom (map_of bal)"
  shows "\<exists>k' rs. init_rules env bal rules k = Some (k', Inr rs) \<and> container_ok env country k' \<and> list_all2 (implements env) rules rs"
  using assms(2,3)
proof (induction rules arbitrary: k)
  case (Cons rr rules)
  have rr: "rule_ok env country rr" "rule_effective rr" "rules_ok env country balancing rules"
    and bt: "GetBalancingTag (rr_TargetTag rr) \<noteq> [] \<Longrightarrow> map_of bal (GetBalancingTag (rr_TargetTag rr)) \<noteq> None"
    using Cons.prems(2) assms(4) by (auto simp: rules_ok_def)
  obtain k1 conds where c: "BuildCondition env rr k = Some (k1, Inr conds)" "container_ok env country k1"
      "\<forall>ips c. admissible (rr_DomainMatcher rr) c \<longrightarrow> (list_all (cond_holds env ips c) conds \<longleftrightarrow> rule_meaning env rr ips c)"
    using BuildCondition_ok [OF assms(1) rr(1) Cons.prems(1)] rr(2) by auto
  obtain k2 rs where r: "init_rules env bal rules k1 = Some (k2, Inr rs)" "container_ok env country k2" "list_all2 (implements env) rules rs"
    using Cons.IH [OF c(2) rr(3)] by blast
  let ?b = "GetBalancingTag (rr_TargetTag rr)"
  let ?ru = "\<lparr>ru_Tag = GetTag (rr_TargetTag rr), ru_Balancer = if ?b = [] then None else Some ?b, ru_Condition = conds, ru_SetAttributes = rr_SetAttribute rr\<rparr>"
  have "init_rules env bal (rr # rules) k = Some (k2, Inr (?ru # rs))" using c(1) r(1) bt by (cases "?b = []") auto
  moreover have "implements env rr ?ru" using c(3) by (simp add: implements_def target_of_def)
  ultimately show ?case using r(2,3) by auto
qed simp

lemma find_list_all2:
  assumes "list_all2 R xs ys" and "\<And>x y. x \<in> set xs \<Longrightarrow> R x y \<Longrightarrow> P x = Q y \<and> f x = g y"
  shows "map_option f (find P xs) = map_option g (find Q ys)"
  using assms by (induction rule: list_all2_induct) auto

lemma init_balancers_ok:
  "balancing_ok one xs \<Longrightarrow> \<exists>m'. init_balancers one xs m = Some (Inr m') \<and> dom (map_of m') = dom (map_of m) \<union> br_Tag ` set xs"
proof (induction xs arbitrary: m)
  case (Cons br xs)
  then obtain b where b: "BalancingRule_Build one br = Some (Inr b)" "balancing_ok one xs"
    by (auto simp: balancing_ok_def split: option.splits sum.splits)
  then show ?case using Cons.IH [OF b(2), of "AList.update (br_Tag br) b m"] by (auto simp: update_conv')
qed simp

lemma route_spec_implements:
  assumes "list_all2 (implements env) rules rs" and "\<forall>rr \<in> set rules. admissible (rr_DomainMatcher rr) c"
  shows "map_option (\<lambda>ru. (ru_Tag ru, ru_Balancer ru)) (route_spec (\<lambda>ips ru. list_all (cond_holds env ips c) (ru_Condition ru)) s lookup rs c) =
     map_option target_of (route_spec (\<lambda>ips rr. rule_meaning env rr ips c) s lookup rules c)"
proof -
  have eq: "map_option target_of (find (\<lambda>rr. rule_meaning env rr ips c) rules) =
      map_option (\<lambda>ru. (ru_Tag ru, ru_Balancer ru)) (find (\<lambda>ru. list_all (cond_holds env ips c) (ru_Condition ru)) rs)" for ips
    using assms by (intro find_list_all2 [OF assms(1)]) (auto simp: implements_def)
  have none: "find (\<lambda>ru. list_all (cond_holds env ips c) (ru_Condition ru)) rs = None \<longleftrightarrow> find (\<lambda>rr. rule_meaning env rr ips c) rules = None" for ips
    using arg_cong [OF eq, of "\<lambda>x. x = None" ips] by simp
  show ?thesis by (cases s) (simp_all add: route_spec_def Let_def eq none)
qed


text \<open>A router with a rule for the addresses 10.0.0.0/8 and one for the port 80, and a connection to port 80 of a
  domain that resolves to 10.1.2.3.\<close>

definition sample_env :: route_env where
  "sample_env = \<lparr>re_toASCII = Some, re_regexp = (\<lambda>_. None), re_memHash = (\<lambda>_ _. 0), re_sort = (\<lambda>_ l. l),
     re_IPSet = (\<lambda>ps. if list_all valid_prefix ps then Some (\<lambda>ip. list_ex (\<lambda>p. in_prefix p ip) ps) else None),
     re_FromStdIP = (\<lambda>ip. if length ip = 4 \<or> length ip = 16 then Some (Unmap ip) else None), re_starlark = (\<lambda>_. None)\<rparr>"

definition sample_rule :: "bytes \<Rightarrow> CIDR list \<Rightarrow> PortRange option \<Rightarrow> RoutingRule" where
  "sample_rule tag cidr port = \<lparr>rr_TargetTag = Some (RoutingRule_Tag tag), rr_Domain = [], rr_Cidr = cidr, rr_Geoip = [], rr_PortRange = port,
     rr_PortList = None, rr_NetworkList = None, rr_Networks = [], rr_SourceCidr = [], rr_SourceGeoip = [], rr_SourcePortList = None,
     rr_UserEmail = [], rr_InboundTag = [], rr_Protocol = [], rr_Attributes = [], rr_DomainMatcher = [], rr_SetAttribute = [], rr_GeoDomain = []\<rparr>"

definition sample_rules :: "RoutingRule list" where
  "sample_rules = [sample_rule (str ''direct'') [\<lparr>cidr_Ip = [10, 0, 0, 0], cidr_Prefix = 8\<rparr>] None,
     (sample_rule [] [] (Some \<lparr>pr_From = 80, pr_To = 80\<rparr>))\<lparr>rr_TargetTag := Some (RoutingRule_BalancingTag (str ''web''))\<rparr>]"

definition sample_balancing :: "nat BalancingRule" where
  "sample_balancing = \<lparr>br_Tag = str ''web'', br_OutboundSelector = [str ''proxy''], br_Strategy = str ''leastping'',
     br_StrategySettings = Some (Some (LeastPingConfig True)), br_FallbackTag = str ''direct''\<rparr>"

definition sample_ctx :: RoutingContext where
  "sample_ctx = \<lparr>rc_InboundTag = [], rc_SourceIPs = [], rc_SourcePort = 0, rc_TargetIPs = [], rc_TargetPort = 80, rc_TargetDomain = str ''intranet'',
     rc_Network = Network_TCP, rc_Protocol = [], rc_User = [], rc_Attributes = None, rc_SkipDNSResolve = False\<rparr>"

definition sample_lookup :: dns_client where
  "sample_lookup n d = (if d = str ''intranet'' then Some [[10, 1, 2, 3]] else None)"

lemma sample_ok:
  "netipx_ok sample_env" "balancing_ok (1 :: nat) [sample_balancing]" "rules_ok sample_env (\<lambda>_. []) ([sample_balancing] :: nat BalancingRule list) sample_rules" "steady sample_lookup"
  "\<forall>rr \<in> set sample_rules. admissible (rr_DomainMatcher rr) sample_ctx"
proof -
  show "netipx_ok sample_env" by (simp add: netipx_ok_def sample_env_def)
  show "balancing_ok (1 :: nat) [sample_balancing]" by (simp add: balancing_ok_def BalancingRule_Build_def sample_balancing_def)
  show "steady sample_lookup" by (simp add: steady_def sample_lookup_def)
  show "\<forall>rr \<in> set sample_rules. admissible (rr_DomainMatcher rr) sample_ctx"
    by (simp add: sample_rules_def sample_rule_def admissible_def uses_mph_def str_def)
  have "index_fits sample_env [] [] []" by (simp add: index_fits_def uses_mph_def str_def)
  then show "rules_ok sample_env (\<lambda>_. []) ([sample_balancing] :: nat BalancingRule list) sample_rules"
    by (simp add: rules_ok_def sample_rules_def sample_rule_def rule_ok_def rule_effective_def geo_ok_def coherent_def
        domains_convert_def matchers_of_def sample_balancing_def cidr_ok_def cidr_prefix_def valid_prefix_def Unmap_def)
qed


text \<open>The strategy \<^verbatim>\<open>UseIp\<close> is documented to resolve every domain; the router treats it like \<^verbatim>\<open>AsIs\<close>.\<close>

lemma ConditionChan_Session:
  "ConditionChan_Apply env lookup conds (n, Session c) = (list_all (cond_holds env (rc_TargetIPs c) c) conds, n, Session c)"
proof (induction conds)
  case (Cons cond conds)
  have "Condition_Apply env lookup cond (n, Session c) = (cond_holds env (rc_TargetIPs c) c cond, n, Session c)" by (cases cond) auto
  then show ?case using Cons by simp
qed simp

lemma first_rule_Session:
  "first_rule env lookup rules (n, Session c) = (find (\<lambda>r. list_all (cond_holds env (rc_TargetIPs c) c) (ru_Condition r)) rules, n, Session c)"
  by (induction rules) (simp_all add: ConditionChan_Session)

lemma UseIp_never_resolves:
  "\<exists>x. pickRouteInternal env lookup (r\<lparr>rt_domainStrategy := UseIp\<rparr>) (n, Session c) = (x, n, Session c) \<and>
     pickRouteInternal env lookup' (r\<lparr>rt_domainStrategy := AsIs\<rparr>) (n, Session c) = (x, n, Session c)"
  by (simp add: pickRouteInternal_def first_rule_Session Let_def split: option.split)

end
