(* ===== verification/Packet_Stream.thy ===== *)
theory Packet_Stream
  imports Address_Parser
begin

text \<open>
  What the proxy protocols share: the byte writer they send to, and the contract of a packet format. A
  writer with states \<open>'w\<close> takes the bytes of one \<^verbatim>\<open>Write\<close> call and returns an error or nil (\<open>None\<close> is a panic). The locale \<open>framing\<close> says that a packet
  is read back with the bytes behind it untouched; then a sequence of packets is.
\<close>

type_synonym ('w, 'e) io_writer = "'w \<Rightarrow> bytes \<Rightarrow> ('w \<times> 'e option) option"

text \<open>The writer that keeps everything.\<close>

definition append_writer :: "(bytes, buf_error) io_writer" where
  "append_writer out bs = Some (out @ bs, None)"

lemma append_writer_eq: "append_writer out bs = Some (out @ bs, None)"
  by (simp add: append_writer_def)

primrec read_many :: "(bytes \<Rightarrow> ('e, 'q \<times> bytes) outcome) \<Rightarrow> nat \<Rightarrow> bytes \<Rightarrow> ('e, 'q list \<times> bytes) outcome" where
  "read_many dec 0 src = Ok ([], src)"
| "read_many dec (Suc n) src =
     outcome_bind (dec src) (\<lambda>(q, src). outcome_bind (read_many dec n src) (\<lambda>(qs, src). Ok (q # qs, src)))"

locale framing =
  fixes ok :: "'p \<Rightarrow> bool"
    and enc :: "'p \<Rightarrow> bytes"
    and dec :: "bytes \<Rightarrow> ('e, 'q \<times> bytes) outcome"
    and same :: "'p \<Rightarrow> 'q \<Rightarrow> bool"
  assumes dec_enc: "ok p \<Longrightarrow> \<exists>q. dec (enc p @ rest) = Ok (q, rest) \<and> same p q"
begin

lemma dec_many:
  "list_all ok ps \<Longrightarrow> \<exists>qs. read_many dec (length ps) (concat (map enc ps) @ rest) = Ok (qs, rest) \<and> list_all2 same ps qs"
proof (induction ps)
  case (Cons p ps)
  obtain q where "dec (enc p @ concat (map enc ps) @ rest) = Ok (q, concat (map enc ps) @ rest)" "same p q"
    using dec_enc Cons.prems by fastforce
  moreover obtain qs where "read_many dec (length ps) (concat (map enc ps) @ rest) = Ok (qs, rest)" "list_all2 same ps qs"
    using Cons by auto
  ultimately show ?case by auto
qed simp

end

section \<open>Filling a buffer\<close>

text \<open>A buffer that holds \<open>xs\<close> and has room for \<open>n\<close> more bytes.\<close>

definition holding :: "Buffer \<Rightarrow> bytes \<Rightarrow> nat \<Rightarrow> bool" where
  "holding b xs n \<longleftrightarrow> wf_Buffer b \<and> content b = xs \<and> n \<le> room b"

lemma holding_Write:
  assumes "holding b xs (length ys + n)"
  obtains b' where "Buffer_Write b ys = Some (b', int (length ys))" "holding b' (xs @ ys) n"
  by (rule Write_ok [of b ys]) (use assms that in \<open>auto simp: holding_def\<close>)

lemma holding_WriteByte:
  assumes "holding b xs (Suc n)"
  obtains b' where "Buffer_WriteByte b x = Ok b'" "holding b' (xs @ [x]) n"
  by (rule WriteByte_ok [of b x]) (use assms that in \<open>auto simp: holding_def\<close>)

lemma holding_Bytes: "holding b xs n \<Longrightarrow> Buffer_Bytes b = Some xs"
  by (simp add: holding_def Buffer_Bytes_content)

lemma holding_StackNew: "length p = 2048 \<Longrightarrow> n \<le> 2048 \<Longrightarrow> holding (Buffer_StackNew p) [] n"
  by (simp add: holding_def Buffer_StackNew_def wf_Buffer_def content_def room_def)

lemma holding_NewWithSize: "pools_ok get \<Longrightarrow> 0 \<le> sz \<Longrightarrow> sz < 2 ^ 30 \<Longrightarrow> n \<le> nat sz \<Longrightarrow> holding (Buffer_NewWithSize get sz) [] n"
  using NewWithSize_ok [of get sz] by (auto simp: holding_def)

text \<open>Looking into a buffer by index.\<close>

lemma content_window:
  assumes "wf_Buffer b" and "i \<le> j" "j \<le> length (content b)"
  shows "slice_of (buf_v b) (buf_start b + int i) (buf_start b + int j) = Some (take (j - i) (drop i (content b)))"
    and "i32 (buf_start b + int i) = buf_start b + int i" and "i32 (buf_start b + int j) = buf_start b + int j"
proof -
  have len: "int (length (content b)) = buf_end b - buf_start b" using length_content [OF assms(1)] assms(1) by (auto simp: wf_Buffer_def)
  then have bnd: "0 \<le> buf_start b" "buf_start b + int j \<le> buf_end b" "buf_end b \<le> int (length (buf_v b))" "int (length (buf_v b)) < 2 ^ 31"
    using assms by (auto simp: wf_Buffer_def)
  show "i32 (buf_start b + int i) = buf_start b + int i" "i32 (buf_start b + int j) = buf_start b + int j" using bnd assms(2) by (auto intro!: i32_id)
  have "nat (buf_start b + int j) - nat (buf_start b + int i) = j - i" "nat (buf_start b + int i) = nat (buf_start b) + i" using bnd assms(2) by auto
  moreover have "take (j - i) (drop i (content b)) = take (j - i) (drop (nat (buf_start b) + i) (buf_v b))"
  proof -
    have "j \<le> nat (buf_end b - buf_start b)" using len assms(3) by linarith
    then have "min (j - i) (nat (buf_end b - buf_start b) - i) = j - i" by simp
    then show ?thesis by (simp add: content_def drop_take add.commute)
  qed
  ultimately show "slice_of (buf_v b) (buf_start b + int i) (buf_start b + int j) = Some (take (j - i) (drop i (content b)))"
    using bnd assms(2) by (simp add: slice_of_def drop_take nat_diff_distrib)
qed

lemma BytesRange_content:
  "wf_Buffer b \<Longrightarrow> i \<le> j \<Longrightarrow> j \<le> length (content b) \<Longrightarrow> Buffer_BytesRange b (int i) (int j) = Some (take (j - i) (drop i (content b)))"
  by (simp add: Buffer_BytesRange_def Let_def content_window)

lemma BytesTo_prefix:
  assumes "wf_Buffer b" and "content b = xs @ ys" and "0 < length ys"
  shows "Buffer_BytesTo b (- int (length ys)) = Some xs"
proof -
  have "Buffer_Len (Some b) = int (length xs) + int (length ys)" using Buffer_Len_content [OF assms(1)] assms(2) by simp
  moreover have "i32 (int (length xs)) = int (length xs)" using content_window(1) [OF assms(1), of 0 "length xs"] assms(1,2) length_content [OF assms(1)]
    by (intro i32_id) (auto simp: wf_Buffer_def)
  ultimately show ?thesis using content_window [OF assms(1), of 0 "length xs"] assms(2,3) by (simp add: Buffer_BytesTo_def Let_def)
qed

lemma Byte_content:
  assumes "wf_Buffer b" and "i < length (content b)"
  shows "Buffer_Byte b (int i) = Some (content b ! i)"
proof -
  have w: "i32 (buf_start b + int i) = buf_start b + int i" using content_window(2) [OF assms(1), of i i] assms(2) by simp
  have len: "int (length (content b)) = buf_end b - buf_start b" using length_content [OF assms(1)] assms(1) by (auto simp: wf_Buffer_def)
  then have "0 \<le> buf_start b" "nat (buf_start b + int i) < length (buf_v b)" "nat (buf_start b + int i) = nat (buf_start b) + i"
    using assms by (auto simp: wf_Buffer_def)
  moreover have "content b ! i = buf_v b ! (nat (buf_start b) + i)" using assms(2) calculation by (simp add: content_def)
  ultimately show ?thesis using w by (simp add: Buffer_Byte_def index_def)
qed

section \<open>Address headers\<close>

lemma WriteAddressPort_bytes:
  assumes "knows p a" and "carried a"
  shows "snd (WriteAddressPort p a port) = None" "length (fst (WriteAddressPort p a port)) \<le> 259"
proof -
  have tb: "ap_addrByteMap p ! unat (Address_Family a) \<noteq> afInvalid" using assms(1) by (auto simp: knows_def afInvalid_def Let_def)
  show "snd (WriteAddressPort p a port) = None" "length (fst (WriteAddressPort p a port)) \<le> 259"
    using assms(2) tb by (cases a; auto simp: WriteAddressPort_def writeAddress_def IsDomainTooLong_def writePort_def serial_WriteUint16_def Let_def)+
qed

lemma ReadAddressPort_WriteAddressPort:
  assumes "wf_Buffer b" and "259 \<le> room b" and "knows p a" and "carried a"
  shows "\<exists>b'. ReadAddressPort p b (fst (WriteAddressPort p a port) @ rest) = Ok ((Some a, port), b', rest)"
  using address_write_read [OF assms, of port rest] by fastforce

text \<open>A read that succeeds moves bytes from the source to the end of the buffer.\<close>

definition moved :: "Buffer \<Rightarrow> bytes \<Rightarrow> Buffer \<Rightarrow> bytes \<Rightarrow> bool" where
  "moved b src b' src' \<longleftrightarrow> small_buf b' \<and> (\<exists>xs. src = xs @ src' \<and> content b' = content b @ xs \<and> room b = room b' + length xs)"

lemma moved_trans: "moved b src b' src' \<Longrightarrow> moved b' src' b'' src'' \<Longrightarrow> moved b src b'' src''"
  by (auto simp: moved_def)

lemma moved_small: "moved b src b' src' \<Longrightarrow> small_buf b'"
  by (simp add: moved_def)

lemma ReadFullFrom_moved:
  assumes "small_buf b" and "0 \<le> n" "n < 2 ^ 30" and "Buffer_ReadFullFrom b src n = Some (b', rest, cnt, None)"
  shows "moved b src b' rest"
proof -
  have wf: "wf_Buffer b" using assms(1) by (simp add: small_buf_def)
  have "n \<le> int (room b)"
  proof (rule ccontr)
    assume "\<not> n \<le> int (room b)"
    then have "i32 (buf_end b + n) = buf_end b + n" "i32 (int (length (buf_v b))) = int (length (buf_v b))" "buf_end b + n > int (length (buf_v b))"
      using assms(1-3) by (auto intro!: i32_id simp: small_buf_def wf_Buffer_def room_def)
    then show False using assms(4) by (simp add: Buffer_ReadFullFrom_def Let_def)
  qed
  then obtain b1 where b1: "Buffer_ReadFullFrom b src n =
      Some (b1, drop (nat n) src, int (min (nat n) (length src)), if nat n \<le> length src then None else Some (if src = [] then EOF else UnexpectedEOF))"
    "wf_Buffer b1" "content b1 = content b @ take (nat n) src" "buf_start b1 = buf_start b" "room b1 = room b - min (nat n) (length src)"
    using Buffer_ReadFullFrom_spec [OF wf assms(2), of src] by metis
  have n: "nat n \<le> length src" "b' = b1" "rest = drop (nat n) src" using b1(1) assms(4) by (auto split: if_splits)
  have "int (length (buf_v b1)) = buf_start b1 + int (length (content b1)) + int (room b1)"
    "int (length (buf_v b)) = buf_start b + int (length (content b)) + int (room b)"
    using length_content [OF b1(2)] b1(2) length_content [OF wf] wf by (auto simp: room_def wf_Buffer_def)
  then have "length (buf_v b1) = length (buf_v b)" using b1(3,4,5) n(1) \<open>n \<le> int (room b)\<close> by auto
  then have "small_buf b1" using b1(2) assms(1) by (simp add: small_buf_def)
  then show ?thesis using b1(3,5) n \<open>n \<le> int (room b)\<close> unfolding moved_def by (auto intro!: exI [of _ "take (nat n) src"])
qed

lemma read_full_moved: "small_buf b \<Longrightarrow> 0 \<le> n \<Longrightarrow> n < 2 ^ 30 \<Longrightarrow> read_full b src n = Ok (b', rest) \<Longrightarrow> moved b src b' rest"
  by (auto simp: read_full_def split: option.splits prod.splits intro: ReadFullFrom_moved)

lemma readPort_moved: "small_buf b \<Longrightarrow> readPort b src = Ok (port, b', rest) \<Longrightarrow> moved b src b' rest"
  by (auto simp: readPort_def outcome_bind_Ok_iff intro: read_full_moved [of b 2])

lemma readAddress_moved:
  assumes "small_buf b" and "readAddress p b src = Ok (a, b', rest)"
  shows "moved b src b' rest"
proof -
  obtain b1 src1 where b1: "read_full b src 1 = Ok (b1, src1)" using assms(2) by (auto simp: readAddress_def outcome_bind_Ok_iff)
  have one: "moved b src b1 src1" using read_full_moved [OF assms(1) _ _ b1] by simp
  have step: "moved b src b2 src2" if "read_full b1 src1 n = Ok (b2, src2)" "moved b src b1 src1" "0 \<le> n" "n < 2 ^ 30" for b1 src1 b2 src2 n
    using moved_trans [OF that(2) read_full_moved [OF moved_small [OF that(2)] that(3,4,1)]] .
  have u: "uint (x :: byte) < 1073741824" for x using uint_lt2p [of x] by simp
  show ?thesis using assms(2) b1 one
    by (auto simp: readAddress_def outcome_bind_Ok_iff Let_def split: if_splits intro: step) (rule step, assumption, rule step [OF _ one], assumption, simp_all add: u)
qed

lemma ReadAddressPort_moved:
  assumes "small_buf b" and "ReadAddressPort p b src = Ok (ap, b', rest)"
  shows "moved b src b' rest"
  using assms by (auto simp: ReadAddressPort_def outcome_bind_Ok_iff split: if_splits) (metis moved_trans moved_small readPort_moved readAddress_moved)+

lemma io_ReadFull_append [simp]: "length xs = n \<Longrightarrow> io_ReadFull (xs @ rest) n = (xs, rest, None)"
  by (simp add: io_ReadFull_def)

text \<open>\<^verbatim>\<open>io.ReadFull\<close> followed by the check of the error, which is wrapped by \<open>f\<close>.\<close>

definition full :: "(buf_error \<Rightarrow> 'e) \<Rightarrow> bytes \<Rightarrow> nat \<Rightarrow> ('e, bytes \<times> bytes) outcome" where
  "full f src n = (case io_ReadFull src n of (data, rest, Some e) \<Rightarrow> Fail (f e) | (data, rest, None) \<Rightarrow> Ok (data, rest))"

lemma full_append [simp]: "length xs = n \<Longrightarrow> full f (xs @ rest) n = Ok (xs, rest)"
  by (simp add: full_def)

lemma full_cases:
  obtains (failed) e where "full f src n = Fail e" | (read) xs rest where "full f src n = Ok (xs, rest)" "length xs = n" "src = xs @ rest"
proof (cases "n \<le> length src")
  case True
  then show thesis by (intro read [of "take n src" "drop n src"]) (auto simp: full_def io_ReadFull_def)
next
  case False
  then show thesis by (intro failed) (auto simp: full_def io_ReadFull_def)
qed

text \<open>A result that is not a panic.\<close>

definition safe :: "('e, 'a) outcome \<Rightarrow> bool" where
  "safe r \<longleftrightarrow> r \<noteq> Panic"

lemma safe_simps [simp]: "safe (Ok a)" "safe (Fail e)" "\<not> safe Panic"
  by (simp_all add: safe_def)

lemma safe_bind: "safe r \<Longrightarrow> (\<And>a. r = Ok a \<Longrightarrow> safe (f a)) \<Longrightarrow> safe (outcome_bind r f)"
  by (cases r) (simp_all add: safe_def)

lemma full_safe [simp]: "safe (full f src n)"
  by (cases rule: full_cases [of f src n]) simp_all

lemma full_length: "full f src n = Ok (xs, rest) \<Longrightarrow> length xs = n"
  by (cases rule: full_cases [of f src n]) simp_all

lemma Uint16_safe: "2 \<le> length bs \<Longrightarrow> safe (or_panic (be_Uint16 bs))"
  by (drule be_Uint16_defined) auto

end
