(* ===== verification/Trojan.thy ===== *)
theory Trojan
  imports Packet_Stream
begin

text \<open>
  \<^verbatim>\<open>proxy/trojan/protocol.go\<close>: the header of a connection and the packets of a UDP association. A source is the bytes it will deliver before it ends. \<open>p\<close> and \<open>q\<close> are the
  arrays of buffers from the pool, \<open>get\<close> the arrays of the sized pools.
\<close>

section \<open>Protocol constants\<close>

definition crlf :: bytes where "crlf = [13, 10]"

definition trojan_options :: "AddressOption list option" where
  "trojan_options =
     do {
       v4 \<leftarrow> AddressFamilyByte 1 AddressFamilyIPv4;
       v6 \<leftarrow> AddressFamilyByte 4 AddressFamilyIPv6;
       dom \<leftarrow> AddressFamilyByte 3 AddressFamilyDomain;
       Some [v4, v6, dom]
     }"

definition trojan_addrParser :: addressParser where
  "trojan_addrParser = NewAddressParser (case trojan_options of None \<Rightarrow> [] | Some opts \<Rightarrow> opts)"

definition commandTCP :: byte where "commandTCP = 1"
definition commandUDP :: byte where "commandUDP = 3"

datatype 'e trojan_error = TrojanIO 'e | TrojanAddress addr_error | SuperLongDomain | HeaderTooLong

section \<open>Writing a connection\<close>

record ConnWriter =
  cw_Target :: Destination
  cw_Key :: bytes
  cw_headerSent :: bool

definition ConnWriter_writeHeader :: "bytes \<Rightarrow> ('w, 'e) io_writer \<Rightarrow> 'w \<Rightarrow> ConnWriter \<Rightarrow> ('w \<times> ConnWriter \<times> 'e trojan_error option) option" where
  "ConnWriter_writeHeader p wr w c =
     do {
       let command = (if dest_Network (cw_Target c) = Network_UDP then commandUDP else commandTCP);
       (b, _) \<leftarrow> Buffer_Write (Buffer_StackNew p) (cw_Key c);
       (b, _) \<leftarrow> Buffer_Write b crlf;
       case Buffer_WriteByte b command of
         Panic \<Rightarrow> None
       | Fail e \<Rightarrow> Some (w, c, Some HeaderTooLong)
       | Ok b \<Rightarrow> do {
           address \<leftarrow> dest_Address (cw_Target c);
           let (bs, err) = WriteAddressPort trojan_addrParser address (dest_Port (cw_Target c));
           (b, _) \<leftarrow> Buffer_Write b bs;
           case err of
             Some e \<Rightarrow> Some (w, c, Some (TrojanAddress e))
           | None \<Rightarrow> do {
               (b, _) \<leftarrow> Buffer_Write b crlf;
               header \<leftarrow> Buffer_Bytes b;
               (w, err) \<leftarrow> wr w header;
               Some (case err of
                       None \<Rightarrow> (w, c\<lparr>cw_headerSent := True\<rparr>, None)
                     | Some e \<Rightarrow> (w, c, Some (TrojanIO e)))
             }
         }
     }"

definition ConnWriter_WriteHeader :: "bytes \<Rightarrow> ('w, 'e) io_writer \<Rightarrow> 'w \<Rightarrow> ConnWriter \<Rightarrow> ('w \<times> ConnWriter \<times> 'e trojan_error option) option" where
  "ConnWriter_WriteHeader p wr w c = (if \<not> cw_headerSent c then ConnWriter_writeHeader p wr w c else Some (w, c, None))"

definition ConnWriter_Write :: "bytes \<Rightarrow> ('w, 'e) io_writer \<Rightarrow> 'w \<Rightarrow> ConnWriter \<Rightarrow> bytes \<Rightarrow> ('w \<times> ConnWriter \<times> 'e trojan_error option) option" where
  "ConnWriter_Write p wr w c data =
     do {
       (w, c, err) \<leftarrow> ConnWriter_WriteHeader p wr w c;
       if err \<noteq> None then Some (w, c, err)
       else do { (w, e) \<leftarrow> wr w data; Some (w, c, map_option TrojanIO e) }
     }"

fun ConnWriter_WriteMultiBuffer :: "bytes \<Rightarrow> ('w, 'e) io_writer \<Rightarrow> 'w \<Rightarrow> ConnWriter \<Rightarrow> MultiBuffer \<Rightarrow> ('w \<times> ConnWriter \<times> 'e trojan_error option) option" where
  "ConnWriter_WriteMultiBuffer p wr w c [] = Some (w, c, None)"
| "ConnWriter_WriteMultiBuffer p wr w c (b # mb) =
     (if \<not> Buffer_IsEmpty (Some b) then
        do {
          bs \<leftarrow> Buffer_Bytes b;
          (w, c, err) \<leftarrow> ConnWriter_Write p wr w c bs;
          if err \<noteq> None then Some (w, c, err) else ConnWriter_WriteMultiBuffer p wr w c mb
        }
      else ConnWriter_WriteMultiBuffer p wr w c mb)"

section \<open>Writing packets\<close>

text \<open>\<open>Fail\<close> leaves the writer alone; the address is never of another kind.\<close>

definition addrPortLen :: "Address \<Rightarrow> int option" where
  "addrPortLen a =
     (case a of
        domainAddress d \<Rightarrow> if IsDomainTooLong d then None else Some (i32 (1 + 1 + int (length d) + 2))
      | ipv4Address _ \<Rightarrow> Some (1 + 4 + 2)
      | ipv6Address _ \<Rightarrow> Some (1 + 16 + 2))"

definition PacketWriter_writePacket :: "(nat \<Rightarrow> bytes) \<Rightarrow> ('w, 'e) io_writer \<Rightarrow> 'w \<Rightarrow> bytes \<Rightarrow> Destination \<Rightarrow> ('w \<times> 'e trojan_error option) option" where
  "PacketWriter_writePacket get wr w payload dest =
     do {
       address \<leftarrow> dest_Address dest;
       case addrPortLen address of
         None \<Rightarrow> Some (w, Some SuperLongDomain)
       | Some apl \<Rightarrow> do {
           let lengthBuf = be_PutUint16 (word_of_nat (length payload));
           let b = Buffer_NewWithSize get (i32 (apl + 2 + 2 + i32 (int (length payload))));
           let (bs, err) = WriteAddressPort trojan_addrParser address (dest_Port dest);
           (b, _) \<leftarrow> Buffer_Write b bs;
           case err of
             Some e \<Rightarrow> Some (w, Some (TrojanAddress e))
           | None \<Rightarrow> do {
               (b, _) \<leftarrow> Buffer_Write b lengthBuf;
               (b, _) \<leftarrow> Buffer_Write b crlf;
               (b, _) \<leftarrow> Buffer_Write b payload;
               packet \<leftarrow> Buffer_Bytes b;
               (w, e) \<leftarrow> wr w packet;
               Some (w, map_option TrojanIO e)
             }
         }
     }"

fun PacketWriter_WriteMultiBufferWithMetadata ::
  "(nat \<Rightarrow> bytes) \<Rightarrow> ('w, 'e) io_writer \<Rightarrow> 'w \<Rightarrow> MultiBuffer \<Rightarrow> Destination \<Rightarrow> ('w \<times> 'e trojan_error option) option" where
  "PacketWriter_WriteMultiBufferWithMetadata get wr w [] dest = Some (w, None)"
| "PacketWriter_WriteMultiBufferWithMetadata get wr w (b # mb) dest =
     (if Buffer_IsEmpty (Some b) then PacketWriter_WriteMultiBufferWithMetadata get wr w mb dest
      else do {
        bs \<leftarrow> Buffer_Bytes b;
        (w, err) \<leftarrow> PacketWriter_writePacket get wr w bs dest;
        if err \<noteq> None then Some (w, err) else PacketWriter_WriteMultiBufferWithMetadata get wr w mb dest
      })"

text \<open>\<^verbatim>\<open>WriteMultiBuffer\<close> sends to the writer's own target.\<close>

definition PacketWriter_WriteMultiBuffer ::
  "(nat \<Rightarrow> bytes) \<Rightarrow> ('w, 'e) io_writer \<Rightarrow> 'w \<Rightarrow> Destination \<Rightarrow> MultiBuffer \<Rightarrow> ('w \<times> 'e trojan_error option) option" where
  "PacketWriter_WriteMultiBuffer get wr w target mb = PacketWriter_WriteMultiBufferWithMetadata get wr w mb target"

definition PacketWriter_WriteTo :: "(nat \<Rightarrow> bytes) \<Rightarrow> ('w, 'e) io_writer \<Rightarrow> 'w \<Rightarrow> bytes \<Rightarrow> net_Addr \<Rightarrow> ('w \<times> 'e trojan_error option) option" where
  "PacketWriter_WriteTo get wr w payload addr = PacketWriter_writePacket get wr w payload (DestinationFromAddr addr)"

section \<open>Reading a connection\<close>

definition trojan_address :: "bytes \<Rightarrow> bytes \<Rightarrow> (buf_error trojan_error, (Address option \<times> Port) \<times> bytes) outcome" where
  "trojan_address q src =
     (case ReadAddressPort trojan_addrParser (Buffer_New q) src of
        Panic \<Rightarrow> Panic
      | Fail e \<Rightarrow> Fail (TrojanAddress e)
      | Ok (ap, b, src) \<Rightarrow> Ok (ap, src))"

definition ConnReader_ParseHeader :: "bytes \<Rightarrow> bytes \<Rightarrow> (buf_error trojan_error, Destination \<times> bytes) outcome" where
  "ConnReader_ParseHeader q src =
     outcome_bind (full TrojanIO src 56) (\<lambda>(hash, src).
     outcome_bind (full TrojanIO src 2) (\<lambda>(_, src).
     outcome_bind (full TrojanIO src 1) (\<lambda>(command, src).
     let network = (if command ! 0 = commandUDP then Network_UDP else Network_TCP) in
     outcome_bind (trojan_address q src) (\<lambda>((addr, port), src).
     outcome_bind (full TrojanIO src 2) (\<lambda>(_, src).
     Ok (\<lparr>dest_Address = addr, dest_Port = port, dest_Network = network\<rparr>, src))))))"

text \<open>\<^verbatim>\<open>Read\<close>: the header is parsed once, before the first data; \<open>rd\<close> is the reader behind.\<close>

record ConnReader =
  cr_Target :: Destination
  cr_headerParsed :: bool

definition ConnReader_Read ::
  "bytes \<Rightarrow> (bytes \<Rightarrow> nat \<Rightarrow> bytes \<times> bytes \<times> buf_error option) \<Rightarrow> ConnReader \<Rightarrow> bytes \<Rightarrow> nat \<Rightarrow>
     (buf_error trojan_error, ConnReader \<times> bytes \<times> bytes \<times> buf_error option) outcome" where
  "ConnReader_Read q rd c src n =
     outcome_bind (if \<not> cr_headerParsed c
                   then outcome_bind (ConnReader_ParseHeader q src) (\<lambda>(target, src). Ok (c\<lparr>cr_Target := target, cr_headerParsed := True\<rparr>, src))
                   else Ok (c, src)) (\<lambda>(c, src). case rd src n of (data, src, err) \<Rightarrow> Ok (c, data, src, err))"

definition ConnReader_ReadMultiBuffer ::
  "bytes \<Rightarrow> bytes \<Rightarrow> (bytes \<Rightarrow> nat \<Rightarrow> bytes \<times> bytes \<times> buf_error option) \<Rightarrow> ConnReader \<Rightarrow> bytes \<Rightarrow>
     (buf_error trojan_error, ConnReader \<times> MultiBuffer \<times> bytes \<times> buf_error option) outcome" where
  "ConnReader_ReadMultiBuffer p q rd c src =
     (let b = Buffer_New p in
      outcome_bind (ConnReader_Read q rd c src (nat (Buffer_Cap (Some b)))) (\<lambda>(c, data, src, err).
      outcome_bind (or_panic (Buffer_ReadFrom b (\<lambda>_. (data, err)))) (\<lambda>(b, _, err). Ok (c, [b], src, err))))"

section \<open>Reading packets\<close>

record PacketPayload =
  pp_Target :: Destination
  pp_Buffer :: MultiBuffer

definition PacketReader_ReadMultiBufferWithMetadata :: "bytes \<Rightarrow> (nat \<Rightarrow> bytes) \<Rightarrow> bytes \<Rightarrow> (buf_error trojan_error, PacketPayload \<times> bytes) outcome" where
  "PacketReader_ReadMultiBufferWithMetadata q get src =
     outcome_bind (trojan_address q src) (\<lambda>((addr, port), src).
     outcome_bind (full TrojanIO src 2) (\<lambda>(lengthBuf, src).
     outcome_bind (or_panic (be_Uint16 lengthBuf)) (\<lambda>len.
     outcome_bind (full TrojanIO src 2) (\<lambda>(_, src).
     case Buffer_ReadFullFrom (Buffer_NewWithSize get (uint len)) src (uint len) of
       None \<Rightarrow> Panic
     | Some (b, src, n, Some e) \<Rightarrow> Fail (TrojanIO e)
     | Some (b, src, n, None) \<Rightarrow> Ok (\<lparr>pp_Target = UDPDestination addr port, pp_Buffer = [b]\<rparr>, src)))))"

definition trojan_PacketReader_ReadMultiBuffer :: "bytes \<Rightarrow> (nat \<Rightarrow> bytes) \<Rightarrow> bytes \<Rightarrow> (buf_error trojan_error, MultiBuffer \<times> bytes) outcome" where
  "trojan_PacketReader_ReadMultiBuffer q get src = outcome_bind (PacketReader_ReadMultiBufferWithMetadata q get src) (\<lambda>(p, src). Ok (pp_Buffer p, src))"

text \<open>\<^verbatim>\<open>ReadFrom(p)\<close> for a destination of \<open>n\<close> bytes: the packet not yet handed out, the bytes copied and the
  address they came from. The address must be an IP address: \<^verbatim>\<open>IP()\<close> of a domain panics.\<close>

definition PacketConnectionReader_ReadFrom ::
  "bytes \<Rightarrow> (nat \<Rightarrow> bytes) \<Rightarrow> PacketPayload option \<Rightarrow> bytes \<Rightarrow> nat \<Rightarrow>
     (buf_error trojan_error, PacketPayload \<times> bytes \<times> bytes \<times> net_Addr) outcome" where
  "PacketConnectionReader_ReadFrom q get payload src n =
     outcome_bind (case payload of
         Some pl \<Rightarrow> if MultiBuffer_IsEmpty (pp_Buffer pl) then PacketReader_ReadMultiBufferWithMetadata q get src else Ok (pl, src)
       | None \<Rightarrow> PacketReader_ReadMultiBufferWithMetadata q get src) (\<lambda>(pl, src).
     outcome_bind (or_panic (Option.bind (dest_Address (pp_Target pl)) Address_IP)) (\<lambda>ip.
     outcome_bind (or_panic (SplitFirstBytes (pp_Buffer pl) n)) (\<lambda>(mb, data).
     Ok (pl\<lparr>pp_Buffer := mb\<rparr>, src, data, UDPAddr ip (uint (dest_Port (pp_Target pl)))))))"

section \<open>Parsers\<close>

lemma trojan_addrParser_fields:
  "ap_addrTypeMap trojan_addrParser = [afInvalid, AddressFamilyIPv4, afInvalid, AddressFamilyDomain, AddressFamilyIPv6] @ replicate 11 afInvalid"
  "ap_addrByteMap trojan_addrParser = [1, 4, 3] @ replicate 13 afInvalid"
  "ap_typeParser trojan_addrParser = None" "\<not> ap_portFirst trojan_addrParser"
  by code_simp+

lemma trojan_knows: "knows trojan_addrParser a"
  by (cases a) (simp_all add: knows_def trojan_addrParser_fields family_defs)

lemma trojan_parser_ok: "parser_ok trojan_addrParser"
  by (simp add: parser_ok_def trojan_addrParser_fields)

lemma trojan_address_ok:
  assumes "length q = 2048" and "carried a"
  shows "trojan_address q (fst (WriteAddressPort trojan_addrParser a port) @ rest) = Ok ((Some a, port), rest)"
  using ReadAddressPort_WriteAddressPort [OF _ _ trojan_knows assms(2), of "Buffer_New q" port rest] assms(1)
  by (auto simp: trojan_address_def)

lemma trojan_address_safe:
  assumes "length q = 2048"
  shows "safe (trojan_address q src)"
  using ReadAddressPort_safe [OF _ trojan_parser_ok, of "Buffer_New q" src] assms
  by (auto simp: trojan_address_def small_buf_def Buffer_New_def wf_Buffer_def)

lemma trojan_written: "carried a \<Longrightarrow> WriteAddressPort trojan_addrParser a port = (fst (WriteAddressPort trojan_addrParser a port), None)"
  using WriteAddressPort_bytes(1) [OF trojan_knows] by (metis prod.collapse)

section \<open>The header of a connection\<close>

definition header_bytes :: "ConnWriter \<Rightarrow> bytes" where
  "header_bytes c = cw_Key c @ crlf @ [if dest_Network (cw_Target c) = Network_UDP then commandUDP else commandTCP] @
     fst (WriteAddressPort trojan_addrParser (the (dest_Address (cw_Target c))) (dest_Port (cw_Target c))) @ crlf"

definition conn_ok :: "ConnWriter \<Rightarrow> bool" where
  "conn_ok c \<longleftrightarrow> length (cw_Key c) = 56 \<and> (\<exists>a. dest_Address (cw_Target c) = Some a \<and> carried a)"

lemma writeHeader_ok:
  assumes "length p = 2048" and "conn_ok c"
  shows "ConnWriter_writeHeader p append_writer out c = Some (out @ header_bytes c, c\<lparr>cw_headerSent := True\<rparr>, None)"
proof -
  obtain a where a: "dest_Address (cw_Target c) = Some a" "carried a" and k: "length (cw_Key c) = 56" using assms(2) by (auto simp: conn_ok_def)
  let ?command = "if dest_Network (cw_Target c) = Network_UDP then commandUDP else commandTCP"
  obtain bs where bs: "WriteAddressPort trojan_addrParser a (dest_Port (cw_Target c)) = (bs, None)" "length bs \<le> 259"
    using trojan_written [OF a(2)] WriteAddressPort_bytes(2) [OF trojan_knows a(2)] by blast
  have b0: "holding (Buffer_StackNew p) [] (length (cw_Key c) + (length crlf + Suc (length bs + (length crlf + 0))))"
    by (rule holding_StackNew) (use assms(1) k bs(2) in \<open>simp_all add: crlf_def\<close>)
  obtain b1 where b1: "Buffer_Write (Buffer_StackNew p) (cw_Key c) = Some (b1, int (length (cw_Key c)))" and f1: "holding b1 ([] @ cw_Key c) (length crlf + Suc (length bs + (length crlf + 0)))"
    by (rule holding_Write [OF b0])
  obtain b2 where b2: "Buffer_Write b1 crlf = Some (b2, int (length crlf))" and f2: "holding b2 (([] @ cw_Key c) @ crlf) (Suc (length bs + (length crlf + 0)))"
    by (rule holding_Write [OF f1])
  obtain b3 where b3: "Buffer_WriteByte b2 ?command = Ok b3" and f3: "holding b3 ((([] @ cw_Key c) @ crlf) @ [?command]) (length bs + (length crlf + 0))"
    by (rule holding_WriteByte [OF f2])
  obtain b4 where b4: "Buffer_Write b3 bs = Some (b4, int (length bs))" and f4: "holding b4 (((([] @ cw_Key c) @ crlf) @ [?command]) @ bs) (length crlf + 0)"
    by (rule holding_Write [OF f3])
  obtain b5 where b5: "Buffer_Write b4 crlf = Some (b5, int (length crlf))" and f5: "holding b5 ((((([] @ cw_Key c) @ crlf) @ [?command]) @ bs) @ crlf) 0"
    by (rule holding_Write [OF f4])
  have h: "Buffer_Bytes b5 = Some (header_bytes c)" using holding_Bytes [OF f5] a(1) bs(1) by (simp add: header_bytes_def)
  show ?thesis unfolding ConnWriter_writeHeader_def
    by (simp only: Let_def b1 b2 b3 b4 b5 h bs(1) a(1) append_writer_eq [of out "header_bytes c"] bind.bind_lunit prod.case outcome.case option.case)
qed

lemma WriteMultiBuffer_sent:
  "wf_mb mb \<Longrightarrow> cw_headerSent c \<Longrightarrow> ConnWriter_WriteMultiBuffer p append_writer out c mb = Some (out @ mb_content mb, c, None)"
proof (induction mb arbitrary: out)
  case (Cons b mb)
  then show ?case using append_writer_eq [of out "content b"]
    by (simp add: Buffer_IsEmpty_content Buffer_Bytes_content ConnWriter_Write_def ConnWriter_WriteHeader_def)
qed simp

lemma WriteMultiBuffer_first:
  assumes "length p = 2048" and "conn_ok c" and "\<not> cw_headerSent c" and "wf_mb mb" and "mb_content mb \<noteq> []"
  shows "ConnWriter_WriteMultiBuffer p append_writer out c mb = Some (out @ header_bytes c @ mb_content mb, c\<lparr>cw_headerSent := True\<rparr>, None)"
  using assms(4,5)
proof (induction mb)
  case (Cons b mb)
  show ?case
  proof (cases "content b = []")
    case True
    then show ?thesis using Cons by (simp add: Buffer_IsEmpty_content)
  next
    case False
    then show ?thesis using Cons.prems assms(3) writeHeader_ok [OF assms(1,2)] append_writer_eq [of "out @ header_bytes c" "content b"] WriteMultiBuffer_sent [of mb "c\<lparr>cw_headerSent := True\<rparr>"]
      by (simp add: Buffer_IsEmpty_content Buffer_Bytes_content ConnWriter_Write_def ConnWriter_WriteHeader_def)
  qed
qed simp

lemma ParseHeader_ok:
  assumes "length q = 2048" and "conn_ok c" and "dest_Network (cw_Target c) = Network_TCP \<or> dest_Network (cw_Target c) = Network_UDP"
  shows "ConnReader_ParseHeader q (header_bytes c @ rest) = Ok (cw_Target c, rest)"
proof -
  obtain a where a: "dest_Address (cw_Target c) = Some a" "carried a" and k: "length (cw_Key c) = 56" using assms(2) by (auto simp: conn_ok_def)
  have "trojan_address q (fst (WriteAddressPort trojan_addrParser a (dest_Port (cw_Target c))) @ crlf @ rest) = Ok ((Some a, dest_Port (cw_Target c)), crlf @ rest)"
    by (rule trojan_address_ok [OF assms(1) a(2)])
  moreover have "full TrojanIO ([x] @ src) 1 = Ok ([x], src)" for x src by (rule full_append) simp
  ultimately show ?thesis using k a(1) assms(3)
    by (auto simp: ConnReader_ParseHeader_def header_bytes_def crlf_def full_append [of "[13, 10]"] commandTCP_def commandUDP_def simp del: append_Cons)
qed

section \<open>Packets\<close>

definition packet_bytes :: "Destination \<Rightarrow> bytes \<Rightarrow> bytes" where
  "packet_bytes dest payload = fst (WriteAddressPort trojan_addrParser (the (dest_Address dest)) (dest_Port dest)) @
     be_PutUint16 (word_of_nat (length payload)) @ crlf @ payload"

definition dest_carried :: "Destination \<Rightarrow> bool" where
  "dest_carried dest \<longleftrightarrow> (\<exists>a. dest_Address dest = Some a \<and> carried a)"

lemma addrPortLen_ok:
  assumes "carried a"
  shows "addrPortLen a = Some (int (length (fst (WriteAddressPort trojan_addrParser a port))))"
proof (cases a)
  case (domainAddress d)
  then have "i32 (1 + 1 + int (length d) + 2) = int (length d) + 4" using assms by (subst i32_id) auto
  then show ?thesis using assms domainAddress
    by (simp add: addrPortLen_def WriteAddressPort_def writeAddress_def trojan_addrParser_fields family_defs afInvalid_def IsDomainTooLong_def writePort_def serial_WriteUint16_def)
qed (use assms in \<open>simp_all add: addrPortLen_def WriteAddressPort_def writeAddress_def trojan_addrParser_fields family_defs afInvalid_def writePort_def serial_WriteUint16_def\<close>)

lemma writePacket_ok:
  assumes "pools_ok get" and "dest_carried dest" and "length payload \<le> 65535"
  shows "PacketWriter_writePacket get wr w payload dest =
    Option.bind (wr w (packet_bytes dest payload)) (\<lambda>(w, e). Some (w, map_option TrojanIO e))"
proof -
  obtain a where a: "dest_Address dest = Some a" "carried a" using assms(2) by (auto simp: dest_carried_def)
  obtain bs where bs: "WriteAddressPort trojan_addrParser a (dest_Port dest) = (bs, None)" "length bs \<le> 259"
    using trojan_written [OF a(2)] WriteAddressPort_bytes(2) [OF trojan_knows a(2)] by blast
  let ?l = "be_PutUint16 (word_of_nat (length payload))"
  let ?sz = "i32 (int (length bs) + 2 + 2 + i32 (int (length payload)))"
  have "i32 (int (length payload)) = int (length payload)" using assms(3) by (intro i32_id) auto
  then have sz: "?sz = int (length bs + (length ?l + (length crlf + (length payload + 0))))"
    using assms(3) bs(2) by (subst i32_id) (auto simp: crlf_def)
  have "0 \<le> ?sz" "?sz < 2 ^ 30" "length bs + (length ?l + (length crlf + (length payload + 0))) \<le> nat ?sz"
    unfolding sz using assms(3) bs(2) by (simp_all add: crlf_def)
  then have b0: "holding (Buffer_NewWithSize get ?sz) [] (length bs + (length ?l + (length crlf + (length payload + 0))))"
    by (rule holding_NewWithSize [OF assms(1)])
  obtain b1 where b1: "Buffer_Write (Buffer_NewWithSize get ?sz) bs = Some (b1, int (length bs))" and f1: "holding b1 ([] @ bs) (length ?l + (length crlf + (length payload + 0)))"
    by (rule holding_Write [OF b0])
  obtain b2 where b2: "Buffer_Write b1 ?l = Some (b2, int (length ?l))" and f2: "holding b2 (([] @ bs) @ ?l) (length crlf + (length payload + 0))"
    by (rule holding_Write [OF f1])
  obtain b3 where b3: "Buffer_Write b2 crlf = Some (b3, int (length crlf))" and f3: "holding b3 ((([] @ bs) @ ?l) @ crlf) (length payload + 0)"
    by (rule holding_Write [OF f2])
  obtain b4 where b4: "Buffer_Write b3 payload = Some (b4, int (length payload))" and f4: "holding b4 (((([] @ bs) @ ?l) @ crlf) @ payload) 0"
    by (rule holding_Write [OF f3])
  have h: "Buffer_Bytes b4 = Some (packet_bytes dest payload)" using holding_Bytes [OF f4] a(1) bs(1) by (simp add: packet_bytes_def)
  have apl: "addrPortLen a = Some (int (length bs))" using addrPortLen_ok [OF a(2), of "dest_Port dest"] bs(1) by simp
  show ?thesis unfolding PacketWriter_writePacket_def
    by (simp only: Let_def a(1) apl b1 b2 b3 b4 h bs(1) bind.bind_lunit prod.case option.case)
qed

text \<open>On a client the packets go through the connection writer, which sends the header in front of the first.\<close>

definition conn_io :: "bytes \<Rightarrow> ('w, 'e) io_writer \<Rightarrow> ('w \<times> ConnWriter, 'e trojan_error) io_writer" where
  "conn_io p wr = (\<lambda>(w, c) data. map_option (\<lambda>(w, c, e). ((w, c), e)) (ConnWriter_Write p wr w c data))"

lemma conn_io_ok:
  assumes "length p = 2048" and "conn_ok c"
  shows "conn_io p append_writer (out, c) data =
    Some ((out @ (if cw_headerSent c then [] else header_bytes c) @ data, c\<lparr>cw_headerSent := True\<rparr>), None)"
  using writeHeader_ok [OF assms, of out] append_writer_eq [of "out @ (if cw_headerSent c then [] else header_bytes c)" data]
  by (cases "cw_headerSent c") (simp_all add: conn_io_def ConnWriter_Write_def ConnWriter_WriteHeader_def)

lemma WriteMultiBufferWithMetadata_ok:
  assumes "length p = 2048" and "pools_ok get" and "dest_carried dest"
  shows "wf_mb mb \<Longrightarrow> \<forall>b \<in> set mb. length (content b) \<le> 65535 \<Longrightarrow> conn_ok c \<Longrightarrow> mb_content mb \<noteq> [] \<or> cw_headerSent c \<Longrightarrow>
    PacketWriter_WriteMultiBufferWithMetadata get (conn_io p append_writer) (out, c) mb dest =
      Some ((out @ (if cw_headerSent c then [] else header_bytes c) @ concat (map (packet_bytes dest) (filter (\<lambda>x. x \<noteq> []) (map content mb))),
        c\<lparr>cw_headerSent := True\<rparr>), None)"
proof (induction mb arbitrary: out c)
  case (Cons b mb)
  show ?case
  proof (cases "content b = []")
    case False
    let ?c = "c\<lparr>cw_headerSent := True\<rparr>"
    have "conn_ok ?c" "header_bytes ?c = header_bytes c" using Cons.prems(3) by (simp_all add: conn_ok_def header_bytes_def)
    then show ?thesis using False Cons.prems Cons.IH [of ?c] writePacket_ok [OF assms(2,3), of "content b" "conn_io p append_writer" "(out, c)"] conn_io_ok [OF assms(1) Cons.prems(3)]
      by (simp add: Buffer_IsEmpty_content Buffer_Bytes_content)
  qed (use Cons in \<open>simp add: Buffer_IsEmpty_content\<close>)
qed simp

text \<open>What the reader makes of a packet: the network is UDP, whatever the destination said.\<close>

definition packet_same :: "Destination \<Rightarrow> bytes \<Rightarrow> PacketPayload \<Rightarrow> bool" where
  "packet_same dest payload q \<longleftrightarrow> pp_Target q = UDPDestination (dest_Address dest) (dest_Port dest) \<and> mb_content (pp_Buffer q) = payload"

lemma ReadMultiBufferWithMetadata_ok:
  assumes q: "length q = 2048" and get: "pools_ok get" and d: "dest_carried dest" and n: "length payload \<le> 65535"
  shows "\<exists>x. PacketReader_ReadMultiBufferWithMetadata q get (packet_bytes dest payload @ rest) = Ok (x, rest) \<and> packet_same dest payload x"
proof -
  obtain a where a: "dest_Address dest = Some a" "carried a" using d by (auto simp: dest_carried_def)
  let ?l = "word_of_nat (length payload) :: u16"
  have l: "uint ?l = int (length payload)" using n by (simp add: uint_nat)
  note nb = NewWithSize_ok [OF get, of "int (length payload)"]
  obtain b where "Buffer_ReadFullFrom (Buffer_NewWithSize get (int (length payload))) (payload @ rest) (int (length payload)) = Some (b, rest, int (length payload), None)"
      "content b = payload"
    by (rule Buffer_ReadFullFrom_spec [of "Buffer_NewWithSize get (int (length payload))" "int (length payload)" "payload @ rest"])
      (use nb n in simp_all)
  moreover have "trojan_address q (packet_bytes dest payload @ rest) = Ok ((Some a, dest_Port dest), be_PutUint16 ?l @ crlf @ payload @ rest)"
    using trojan_address_ok [OF q a(2)] a(1) by (simp add: packet_bytes_def)
  moreover have "full TrojanIO (crlf @ payload @ rest) 2 = Ok (crlf, payload @ rest)" by (rule full_append) (simp add: crlf_def)
  ultimately show ?thesis using a(1) l
    by (simp add: PacketReader_ReadMultiBufferWithMetadata_def packet_same_def)
qed

interpretation trojan_packets: framing "\<lambda>payload. length payload \<le> 65535 \<and> length q = 2048 \<and> pools_ok get \<and> dest_carried dest" "packet_bytes dest"
    "PacketReader_ReadMultiBufferWithMetadata q get" "packet_same dest"
  for q get dest
  by unfold_locales (use ReadMultiBufferWithMetadata_ok in blast)

section \<open>Round trips\<close>

text \<open>A Trojan connection arrives: whatever non-empty data a client writes first, in buffers of any
  sizes, the server reads from it the header with the client's target and is left with exactly the data.\<close>

theorem trojan_connection_roundtrip:
  assumes "length p = 2048" and "length q = 2048" and "conn_ok c" and "\<not> cw_headerSent c"
    and "dest_Network (cw_Target c) = Network_TCP \<or> dest_Network (cw_Target c) = Network_UDP" and "wf_mb mb" and "mb_content mb \<noteq> []"
  shows "\<exists>out c'. ConnWriter_WriteMultiBuffer p append_writer [] c mb = Some (out, c', None) \<and>
     ConnReader_ParseHeader q (out @ rest) = Ok (cw_Target c, mb_content mb @ rest)"
  using WriteMultiBuffer_first [OF assms(1,3,4,6,7), of "[]"] ParseHeader_ok [OF assms(2,3,5), of "mb_content mb @ rest"] by simp

definition sample_conn :: "Network \<Rightarrow> ConnWriter" where
  "sample_conn n = \<lparr>cw_Target = \<lparr>dest_Address = Some (ipv4Address [10, 0, 0, 1]), dest_Port = 443, dest_Network = n\<rparr>,
     cw_Key = replicate 56 97, cw_headerSent = False\<rparr>"

lemma sample_conn_ok: "conn_ok (sample_conn n)" "\<not> cw_headerSent (sample_conn n)" "dest_Network (cw_Target (sample_conn n)) = n"
  by (simp_all add: conn_ok_def sample_conn_def)

lemma sample_data: "wf_mb [Buffer_FromBytes [1, 2, 3]]" "mb_content [Buffer_FromBytes [1, 2, 3]] = [1, 2, 3]"
  by (simp_all add: Buffer_FromBytes_def wf_Buffer_def content_def i32_id)

theorem trojan_connection_roundtrip_witness:
  "\<exists>out c'. ConnWriter_WriteMultiBuffer (replicate 2048 0) append_writer [] (sample_conn Network_TCP) [Buffer_FromBytes [1, 2, 3]] = Some (out, c', None) \<and>
     ConnReader_ParseHeader (replicate 2048 0) (out @ [7]) = Ok (cw_Target (sample_conn Network_TCP), [1, 2, 3, 7])"
  using trojan_connection_roundtrip [of "replicate 2048 0" "replicate 2048 0" "sample_conn Network_TCP" "[Buffer_FromBytes [1, 2, 3]]" "[7]"]
  by (simp add: sample_conn_ok sample_data del: mb_content_simps wf_mb_simps)

text \<open>C34. A UDP association over Trojan arrives: the header in front of the first packet names the association's
  target, and every non-empty packet is read back by itself with its destination, in order and with
  nothing left over.\<close>

theorem trojan_packets_roundtrip:
  assumes "length p = 2048" and "length q = 2048" and "pools_ok get" and "pools_ok get'" and "conn_ok c" and "\<not> cw_headerSent c"
    and "dest_Network (cw_Target c) = Network_UDP" and "dest_carried dest" and "wf_mb mb" and "\<forall>b \<in> set mb. length (content b) \<le> 65535"
    and "mb_content mb \<noteq> []"
  shows "\<exists>out c' src qs. PacketWriter_WriteMultiBufferWithMetadata get (conn_io p append_writer) ([], c) mb dest = Some ((out, c'), None) \<and>
     ConnReader_ParseHeader q out = Ok (cw_Target c, src) \<and>
     read_many (PacketReader_ReadMultiBufferWithMetadata q get') (length (filter (\<lambda>x. x \<noteq> []) (map content mb))) src = Ok (qs, []) \<and>
     list_all2 (packet_same dest) (filter (\<lambda>x. x \<noteq> []) (map content mb)) qs"
proof -
  let ?pkts = "filter (\<lambda>x. x \<noteq> []) (map content mb)"
  have "list_all (\<lambda>payload. length payload \<le> 65535 \<and> length q = 2048 \<and> pools_ok get' \<and> dest_carried dest) ?pkts"
    using assms(2,4,8,10) by (auto simp: list_all_iff)
  then obtain qs where "read_many (PacketReader_ReadMultiBufferWithMetadata q get') (length ?pkts) (concat (map (packet_bytes dest) ?pkts) @ []) = Ok (qs, [])"
      "list_all2 (packet_same dest) ?pkts qs"
    using trojan_packets.dec_many [where rest = "[]"] by blast
  then show ?thesis
    using WriteMultiBufferWithMetadata_ok [OF assms(1,3,8,9,10,5), of "[]"] ParseHeader_ok [OF assms(2,5), of "concat (map (packet_bytes dest) ?pkts)"] assms(6,7,11)
    by auto
qed

definition sample_pools :: "nat \<Rightarrow> bytes" where
  "sample_pools i = replicate (nat (poolSize ! i)) 0"

lemma sample_pools_ok: "pools_ok sample_pools"
  by (auto simp: pools_ok_def sample_pools_def numPools_def poolSize_list less_Suc_eq numeral_eq_Suc)

theorem trojan_packets_roundtrip_witness:
  "\<exists>out c' src qs. PacketWriter_WriteMultiBufferWithMetadata sample_pools (conn_io (replicate 2048 0) append_writer) ([], sample_conn Network_UDP)
       [Buffer_FromBytes [1, 2, 3]] (cw_Target (sample_conn Network_UDP)) = Some ((out, c'), None) \<and>
     ConnReader_ParseHeader (replicate 2048 0) out = Ok (cw_Target (sample_conn Network_UDP), src) \<and>
     read_many (PacketReader_ReadMultiBufferWithMetadata (replicate 2048 0) sample_pools) 1 src = Ok (qs, []) \<and>
     list_all2 (packet_same (cw_Target (sample_conn Network_UDP))) [[1, 2, 3]] qs"
proof -
  have c: "content (Buffer_FromBytes [1, 2, 3]) = [1, 2, 3]" using sample_data(2) by simp
  have d: "dest_carried (cw_Target (sample_conn Network_UDP))" by (simp add: dest_carried_def sample_conn_def)
  show ?thesis
    using trojan_packets_roundtrip [OF _ _ sample_pools_ok sample_pools_ok sample_conn_ok d sample_data(1), of "replicate 2048 0" "replicate 2048 0"]
    by (simp add: c)
qed

section \<open>Hostile input\<close>

text \<open>Whatever bytes a peer sends, reading a header or a packet returns: it never panics.\<close>

theorem trojan_readers_safe:
  assumes "length q = 2048" and "pools_ok get"
  shows "safe (ConnReader_ParseHeader q src) \<and> safe (PacketReader_ReadMultiBufferWithMetadata q get src)"
proof
  show "safe (ConnReader_ParseHeader q src)" unfolding ConnReader_ParseHeader_def Let_def
    by (intro safe_bind full_safe trojan_address_safe [OF assms(1)]) (auto intro!: safe_bind trojan_address_safe [OF assms(1)])
  have u: "safe (case Buffer_ReadFullFrom (Buffer_NewWithSize get (uint len)) src (uint len) of
       None \<Rightarrow> Panic | Some (b, src, n, Some e) \<Rightarrow> Fail (TrojanIO e) | Some (b, src, n, None) \<Rightarrow> Ok (f b, src))" for len :: u16 and src f
  proof -
    have l: "0 \<le> uint len" "uint len < 2 ^ 30" using uint_lt2p [of len] by simp_all
    note nb = NewWithSize_ok [OF assms(2) l]
    show ?thesis
      by (rule Buffer_ReadFullFrom_spec [OF nb(1) l(1), of src]) (use nb in \<open>auto split: option.split\<close>)
  qed
  show "safe (PacketReader_ReadMultiBufferWithMetadata q get src)" unfolding PacketReader_ReadMultiBufferWithMetadata_def
    by (intro safe_bind trojan_address_safe [OF assms(1)])
      (auto intro!: safe_bind u Uint16_safe dest!: full_length)
qed

theorem trojan_readers_safe_witness:
  "safe (ConnReader_ParseHeader (replicate 2048 0) [1, 2, 3]) \<and> safe (PacketReader_ReadMultiBufferWithMetadata (replicate 2048 0) sample_pools [1, 2, 3])"
  using trojan_readers_safe [OF _ sample_pools_ok, of "replicate 2048 0" "[1, 2, 3]"] by simp

text \<open>A server that answers a packet with a domain as its source makes the client panic.\<close>

lemma trojan_domain_reply_panics:
  assumes "length q = 2048" and "pools_ok get" and "dest_Address dest = Some (domainAddress d)" and "carried (domainAddress d)" and "length payload \<le> 65535"
  shows "PacketConnectionReader_ReadFrom q get None (packet_bytes dest payload @ rest) n = Panic"
proof -
  have "dest_carried dest" using assms(3,4) by (auto simp: dest_carried_def)
  then obtain x where "PacketReader_ReadMultiBufferWithMetadata q get (packet_bytes dest payload @ rest) = Ok (x, rest)" "packet_same dest payload x"
    using ReadMultiBufferWithMetadata_ok [OF assms(1,2) _ assms(5)] by blast
  then show ?thesis using assms(3) by (simp add: PacketConnectionReader_ReadFrom_def packet_same_def UDPDestination_def)
qed

end
