(* ===== verification/User_Table.thy ===== *)
theory User_Table
  imports Packet_Stream Transition "HOL-Library.AList"
begin

text \<open>
  Users: \<^verbatim>\<open>common/uuid/uuid.go\<close>, the identifiers, and the tables of users of two protocols,
  \<^verbatim>\<open>proxy/trojan/validator.go\<close> and \<^verbatim>\<open>proxy/vless/validator.go\<close>, which differ in the key of a user. \<open>lower\<close> is
  \<^verbatim>\<open>strings.ToLower\<close>.
\<close>

section \<open>Hexadecimal\<close>

definition hex_digit :: "nat \<Rightarrow> byte" where
  "hex_digit n = (if n < 10 then word_of_nat (48 + n) else word_of_nat (87 + n))"

definition hexString :: "bytes \<Rightarrow> bytes" where
  "hexString data = concat (map (\<lambda>v. [hex_digit (unat v div 16), hex_digit (unat v mod 16)]) data)"

text \<open>\<^verbatim>\<open>hex.Decode\<close> of a text of even length.\<close>

fun hex_Decode :: "bytes \<Rightarrow> bytes option" where
  "hex_Decode (a # b # s) =
     (case (hexval a, hexval b) of
        (Some m, Some n) \<Rightarrow> map_option (\<lambda>r. word_of_nat (16 * m + n) # r) (hex_Decode s)
      | _ \<Rightarrow> None)"
| "hex_Decode [] = Some []"
| "hex_Decode [_] = None"

lemma unat_hex_digit: "n < 16 \<Longrightarrow> unat (hex_digit n) = (if n < 10 then 48 + n else 87 + n)"
proof (cases "n < 10")
  case True
  then have "unat (word_of_nat (48 + n) :: byte) = 48 + n" by (intro word_of_nat_u16_u32(3)) simp
  with True show ?thesis unfolding hex_digit_def by (simp only: if_True)
next
  case False
  assume "n < 16"
  then have "unat (word_of_nat (87 + n) :: byte) = 87 + n" by (intro word_of_nat_u16_u32(3)) simp
  with False show ?thesis unfolding hex_digit_def by (simp only: if_False)
qed

lemma hexval_digit: "n < 16 \<Longrightarrow> hexval (hex_digit n) = Some n"
  by (auto simp: hexval_def word_le_nat_alt unat_hex_digit)

lemma nibbles: "unat (x :: byte) div 16 < 16" "word_of_nat (16 * (unat x div 16) + unat x mod 16) = x"
proof -
  show "unat x div 16 < 16" using word_unat_less_le_255 [of x] by auto
  have eq: "16 * (unat x div 16) + unat x mod 16 = unat x" by simp
  show "word_of_nat (16 * (unat x div 16) + unat x mod 16) = x" unfolding eq by simp
qed

lemma hex_Decode_hexString: "hex_Decode (hexString data @ rest) = map_option (\<lambda>r. data @ r) (hex_Decode rest)"
proof (induction data)
  case (Cons x data)
  have h: "hexval (hex_digit (unat x div 16)) = Some (unat x div 16)" "hexval (hex_digit (unat x mod 16)) = Some (unat x mod 16)"
    using nibbles(1) [of x] by (simp_all add: hexval_digit)
  have "hex_Decode (hexString (x # data) @ rest) = hex_Decode (hex_digit (unat x div 16) # hex_digit (unat x mod 16) # hexString data @ rest)"
    by (simp add: hexString_def)
  also have "\<dots> = map_option (\<lambda>r. x # r) (hex_Decode (hexString data @ rest))"
    unfolding hex_Decode.simps h by (simp only: prod.case option.case nibbles(2))
  finally show ?case using Cons by (simp add: option.map_comp comp_def)
qed (simp add: hexString_def option.map_ident)

lemma hexString_inject: "hexString a = hexString b \<longleftrightarrow> a = b"
proof
  assume "hexString a = hexString b"
  then have "hex_Decode (hexString a @ []) = hex_Decode (hexString b @ [])" by simp
  then show "a = b" unfolding hex_Decode_hexString by simp
qed simp

lemma length_hexString [simp]: "length (hexString data) = 2 * length data"
  by (induction data) (simp_all add: hexString_def)

section \<open>UUID\<close>

definition byteGroups :: "nat list" where "byteGroups = [8, 4, 4, 4, 12]"

fun UUID_groups :: "nat list \<Rightarrow> bytes \<Rightarrow> bytes" where
  "UUID_groups [] u = []"
| "UUID_groups (g # gs) u = [45] @ hexString (take (g div 2) u) @ UUID_groups gs (drop (g div 2) u)"

definition UUID_String :: "bytes \<Rightarrow> bytes" where
  "UUID_String u =
     (let n = byteGroups ! 0 div 2 in hexString (take n u) @ UUID_groups (tl byteGroups) (drop n u))"

definition UUID_ParseBytes :: "bytes \<Rightarrow> bytes option" where
  "UUID_ParseBytes b = (if length b \<noteq> 16 then None else Some b)"

text \<open>\<^verbatim>\<open>ParseString\<close>. The slice \<^verbatim>\<open>[]byte(str)\<close> may have more capacity than its length; slicing reaches into the
  \<open>spare\<close> zero bytes behind and panics beyond them.\<close>

fun parse_groups :: "nat list \<Rightarrow> nat \<Rightarrow> bytes \<Rightarrow> (unit, bytes) outcome" where
  "parse_groups [] spare text = Ok []"
| "parse_groups (g # gs) spare text =
     (case text of
        [] \<Rightarrow> Panic
      | c # text' \<Rightarrow>
          let text = (if c = 45 then text' else text); whole = text @ replicate spare 0 in
          if g > length whole then Panic
          else case hex_Decode (take g whole) of
            None \<Rightarrow> Fail ()
          | Some b \<Rightarrow>
              if g > length text then Panic
              else outcome_bind (parse_groups gs spare (drop g text)) (\<lambda>r. Ok (b @ r)))"

definition UUID_ParseString :: "nat \<Rightarrow> bytes \<Rightarrow> (unit, bytes) outcome" where
  "UUID_ParseString spare text = (if length text < 32 then Fail () else parse_groups byteGroups spare text)"

definition UUID_Equals :: "bytes option \<Rightarrow> bytes option \<Rightarrow> bool" where
  "UUID_Equals u another =
     (case (u, another) of (None, None) \<Rightarrow> True | (Some a, Some b) \<Rightarrow> a = b | _ \<Rightarrow> False)"

lemma hex_first: "hexString (x # u) \<noteq> [] \<and> hd (hexString (x # u)) \<noteq> 45"
proof -
  have "unat (hex_digit (unat x div 16)) \<noteq> unat (45 :: byte)" using nibbles(1) [of x] by (auto simp: unat_hex_digit)
  then show ?thesis by (auto simp: hexString_def)
qed

lemma parse_group:
  assumes "g = 2 * length x" and "x \<noteq> []" and "dash = [] \<or> dash = [45]"
  shows "parse_groups (g # gs) spare (dash @ hexString x @ rest) = outcome_bind (parse_groups gs spare rest) (\<lambda>r. Ok (x @ r))"
proof -
  obtain c t where c: "hexString x @ rest = c # t" "c \<noteq> 45"
    using hex_first [of "hd x" "tl x"] assms(2) by (cases "hexString x") auto
  have t: "take g ((hexString x @ rest) @ replicate spare 0) = hexString x" "drop g (hexString x @ rest) = rest"
    "\<not> g > length ((hexString x @ rest) @ replicate spare 0)" "\<not> g > length (hexString x @ rest)" using assms(1) by simp_all
  have d: "hex_Decode (hexString x) = Some x" using hex_Decode_hexString [of x "[]"] by simp
  have body: "(let text = hexString x @ rest; whole = text @ replicate spare 0 in
      if g > length whole then Panic
      else case hex_Decode (take g whole) of None \<Rightarrow> Fail ()
        | Some b \<Rightarrow> if g > length text then Panic else outcome_bind (parse_groups gs spare (drop g text)) (\<lambda>r. Ok (b @ r))) =
      outcome_bind (parse_groups gs spare rest) (\<lambda>r. Ok (x @ r))"
    unfolding Let_def t d using t(3,4) by simp
  show ?thesis using assms(3)
  proof
    assume "dash = []"
    then show ?thesis using body c(2) unfolding c(1) by simp
  next
    assume "dash = [45]"
    then show ?thesis using body unfolding c(1) by (simp add: Let_def)
  qed
qed

lemma UUID_roundtrip:
  assumes "length u = 16"
  shows "UUID_ParseString spare (UUID_String u) = Ok u"
proof -
  obtain a b c d e where u: "u = a @ b @ c @ d @ e" and l: "length a = 4" "length b = 2" "length c = 2" "length d = 2" "length e = 6"
  proof
    show "u = take 4 u @ take 2 (drop 4 u) @ take 2 (drop 6 u) @ take 2 (drop 8 u) @ drop 10 u"
      using append_take_drop_id [of 4 u] append_take_drop_id [of 2 "drop 4 u"] append_take_drop_id [of 2 "drop 6 u"] append_take_drop_id [of 2 "drop 8 u"] by simp
  qed (use assms in simp_all)
  have s: "UUID_String u = [] @ hexString a @ [45] @ hexString b @ [45] @ hexString c @ [45] @ hexString d @ [45] @ hexString e @ []"
    unfolding u UUID_String_def byteGroups_def Let_def using l by simp
  have ne: "a \<noteq> []" "b \<noteq> []" "c \<noteq> []" "d \<noteq> []" "e \<noteq> []" using l by auto
  have g: "byteGroups = [2 * length a, 2 * length b, 2 * length c, 2 * length d, 2 * length e]" using l by (simp add: byteGroups_def)
  have "parse_groups byteGroups spare (UUID_String u) = Ok u"
    unfolding s g
    by (simp only: parse_group [OF refl ne(1) disjI1 [OF refl]] parse_group [OF refl ne(2) disjI2 [OF refl]] parse_group [OF refl ne(3) disjI2 [OF refl]]
        parse_group [OF refl ne(4) disjI2 [OF refl]] parse_group [OF refl ne(5) disjI2 [OF refl]] parse_groups.simps(1) outcome_bind.simps) (simp add: u)
  then show ?thesis using l by (simp add: UUID_ParseString_def s)
qed

text \<open>A text of exactly 32 bytes that has a dash makes the parser run over its end: a configuration can crash
  the program.\<close>

lemma UUID_dash_panics: "UUID_ParseString 0 (45 # replicate 31 48) = Panic"
  by code_simp

section \<open>Tables of users\<close>

record ('k, 'u) Validator =
  va_email :: "(bytes \<times> 'u) list"
  va_users :: "('k \<times> 'u) list"

definition NewValidator :: "('k, 'u) Validator" where
  "NewValidator = \<lparr>va_email = [], va_users = []\<rparr>"

datatype validator_error = UserExists | EmptyEmail | UserNotFound

definition Validator_Add :: "('u \<Rightarrow> bytes) \<Rightarrow> ('u \<Rightarrow> 'k) \<Rightarrow> (bytes \<Rightarrow> bytes) \<Rightarrow> 'u \<Rightarrow> ('k, 'u) Validator \<Rightarrow> ('k, 'u) Validator \<times> validator_error option" where
  "Validator_Add email key lower u v =
     (if email u \<noteq> [] \<and> map_of (va_email v) (lower (email u)) \<noteq> None then (v, Some UserExists)
      else let v = (if email u \<noteq> [] then v\<lparr>va_email := AList.update (lower (email u)) u (va_email v)\<rparr> else v)
           in (v\<lparr>va_users := AList.update (key u) u (va_users v)\<rparr>, None))"

definition Validator_Del :: "('u \<Rightarrow> 'k) \<Rightarrow> (bytes \<Rightarrow> bytes) \<Rightarrow> bytes \<Rightarrow> ('k, 'u) Validator \<Rightarrow> ('k, 'u) Validator \<times> validator_error option" where
  "Validator_Del key lower e v =
     (if e = [] then (v, Some EmptyEmail)
      else case map_of (va_email v) (lower e) of
        None \<Rightarrow> (v, Some UserNotFound)
      | Some u \<Rightarrow> (v\<lparr>va_email := AList.delete (lower e) (va_email v), va_users := AList.delete (key u) (va_users v)\<rparr>, None))"

definition Validator_Get :: "'k \<Rightarrow> ('k, 'u) Validator \<Rightarrow> 'u option" where
  "Validator_Get k v = map_of (va_users v) k"

text \<open>The two tables: a Trojan user has its hashed password as its key, in hexadecimal; a VLESS user its UUID.\<close>

record proxy_user =
  pu_Email :: bytes
  pu_Key :: bytes

definition trojan_Add :: "(bytes \<Rightarrow> bytes) \<Rightarrow> proxy_user \<Rightarrow> (bytes, proxy_user) Validator \<Rightarrow> (bytes, proxy_user) Validator \<times> validator_error option" where
  "trojan_Add = Validator_Add pu_Email (\<lambda>u. hexString (pu_Key u))"

definition trojan_Del :: "(bytes \<Rightarrow> bytes) \<Rightarrow> bytes \<Rightarrow> (bytes, proxy_user) Validator \<Rightarrow> (bytes, proxy_user) Validator \<times> validator_error option" where
  "trojan_Del = Validator_Del (\<lambda>u. hexString (pu_Key u))"

definition vless_Add :: "(bytes \<Rightarrow> bytes) \<Rightarrow> proxy_user \<Rightarrow> (bytes, proxy_user) Validator \<Rightarrow> (bytes, proxy_user) Validator \<times> validator_error option" where
  "vless_Add = Validator_Add pu_Email pu_Key"

definition vless_Del :: "(bytes \<Rightarrow> bytes) \<Rightarrow> bytes \<Rightarrow> (bytes, proxy_user) Validator \<Rightarrow> (bytes, proxy_user) Validator \<times> validator_error option" where
  "vless_Del = Validator_Del pu_Key"

section \<open>Who is let in\<close>

inductive validator_step :: "('u \<Rightarrow> bytes) \<Rightarrow> ('u \<Rightarrow> 'k) \<Rightarrow> (bytes \<Rightarrow> bytes) \<Rightarrow> ('k, 'u) Validator \<Rightarrow> ('k, 'u) Validator \<Rightarrow> bool" for email key lower where
  add: "Validator_Add email key lower u v = (v', err) \<Longrightarrow> validator_step email key lower v v'"
| del: "Validator_Del key lower e v = (v', err) \<Longrightarrow> validator_step email key lower v v'"

definition table_ok :: "('u \<Rightarrow> bytes) \<Rightarrow> ('u \<Rightarrow> 'k) \<Rightarrow> (bytes \<Rightarrow> bytes) \<Rightarrow> ('k, 'u) Validator \<Rightarrow> bool" where
  "table_ok email key lower v \<longleftrightarrow>
     (\<forall>k u. Validator_Get k v = Some u \<longrightarrow> k = key u \<and> (email u \<noteq> [] \<longrightarrow> map_of (va_email v) (lower (email u)) = Some u)) \<and>
     (\<forall>e u. map_of (va_email v) e = Some u \<longrightarrow> email u \<noteq> [] \<and> e = lower (email u))"

lemma table_ok_step:
  assumes "validator_step email key lower v v'" and "table_ok email key lower v"
  shows "table_ok email key lower v'"
  using assms(1)
proof cases
  case (add u err)
  show ?thesis
  proof (cases "email u \<noteq> [] \<and> map_of (va_email v) (lower (email u)) \<noteq> None")
    case True
    then show ?thesis using add assms(2) by (simp add: Validator_Add_def)
  next
    case False
    then have "va_users v' = AList.update (key u) u (va_users v)"
        "va_email v' = (if email u \<noteq> [] then AList.update (lower (email u)) u (va_email v) else va_email v)"
      using add by (auto simp: Validator_Add_def Let_def)
    moreover have "email u \<noteq> [] \<Longrightarrow> map_of (va_email v) (lower (email u)) = None" using False by simp
    moreover have "map_of (va_users v) k = Some w \<Longrightarrow> email w \<noteq> [] \<Longrightarrow> map_of (va_email v) (lower (email w)) = Some w" for k w
      using assms(2) unfolding table_ok_def Validator_Get_def by blast
    ultimately show ?thesis using assms(2) unfolding table_ok_def Validator_Get_def by (fastforce simp: update_conv' split: if_splits)
  qed
next
  case (del e err)
  show ?thesis
  proof (cases "e = [] \<or> map_of (va_email v) (lower e) = None")
    case True
    then show ?thesis using del assms(2) by (auto simp: Validator_Del_def split: if_splits)
  next
    case False
    then obtain u where u: "map_of (va_email v) (lower e) = Some u" by blast
    then have "va_users v' = AList.delete (key u) (va_users v)" "va_email v' = AList.delete (lower e) (va_email v)"
      using False del by (auto simp: Validator_Del_def)
    moreover have "map_of (va_users v) k = Some w \<Longrightarrow> email w \<noteq> [] \<Longrightarrow> lower (email w) = lower e \<Longrightarrow> w = u" for k w
      using assms(2) u unfolding table_ok_def Validator_Get_def by (metis option.inject)
    ultimately show ?thesis using assms(2) u unfolding table_ok_def Validator_Get_def by (fastforce simp: delete_conv' split: if_splits)
  qed
qed

lemma table_ok_New: "table_ok email key lower NewValidator"
  by (simp add: table_ok_def Validator_Get_def NewValidator_def)

interpretation user_table: invariant_system "\<lambda>v. v = NewValidator" "validator_step email key lower" "table_ok email key lower" for email key lower
  by unfold_locales (auto intro: table_ok_New table_ok_step)

text \<open>The trace of the additions and deletions that succeeded.\<close>

datatype 'u account_op = AddUser 'u | DelUser bytes

definition account_run :: "('u \<Rightarrow> bytes) \<Rightarrow> ('u \<Rightarrow> 'k) \<Rightarrow> (bytes \<Rightarrow> bytes) \<Rightarrow> 'u account_op \<Rightarrow> ('k, 'u) Validator \<Rightarrow> ('k, 'u) Validator \<times> validator_error option" where
  "account_run email key lower op v = (case op of AddUser u \<Rightarrow> Validator_Add email key lower u v | DelUser e \<Rightarrow> Validator_Del key lower e v)"

lemma account_run_step: "validator_step email key lower v (fst (account_run email key lower op v))"
  by (cases op) (auto simp: account_run_def intro: validator_step.intros [OF prod.collapse [symmetric]])

lemma account_runs: "(validator_step email key lower)\<^sup>*\<^sup>* v (fold (\<lambda>op v. fst (account_run email key lower op v)) ops v)"
  by (induction ops arbitrary: v) (auto intro: account_run_step converse_rtranclp_into_rtranclp)



text \<open>Two users may have the same password under different e-mails; deleting one locks the other out as well.\<close>

lemma shared_key_locked_out:
  assumes "pu_Key a = pu_Key b" and "lower (pu_Email a) \<noteq> lower (pu_Email b)" and "pu_Email a \<noteq> []" and "pu_Email b \<noteq> []"
  shows "let v = fst (trojan_Add lower b (fst (trojan_Add lower a NewValidator))); v' = fst (trojan_Del lower (pu_Email a) v) in
     map_of (va_email v') (lower (pu_Email b)) = Some b \<and> Validator_Get (hexString (pu_Key b)) v' = None"
  using assms by (auto simp: trojan_Add_def trojan_Del_def Validator_Add_def Validator_Del_def Validator_Get_def NewValidator_def update_conv' delete_conv' Let_def)

end
