(* ===== verification/Vmess_User.thy ===== *)
theory Vmess_User
  imports User_Table
begin

text \<open>
  Who may use a VMess inbound: \<^verbatim>\<open>common/antireplay/replayfilter.go\<close>, \<^verbatim>\<open>proxy/vmess/aead/authid.go\<close> and
  \<^verbatim>\<open>proxy/vmess/validator.go\<close>. Parameters are the probabilistic sets of the replay filter (a cuckoo filter from
  another package), AES, the key derivation, CRC-32 and the hash of the legacy protocol. The clock is given to each call;
  where a call reads it several times it is a function of the number of the reading.
\<close>

section \<open>Replay filter\<close>

record 'p pool_impl =
  pi_NewFilter :: 'p
  pi_Reset :: "'p \<Rightarrow> 'p"
  pi_InsertUnique :: "'p \<Rightarrow> bytes \<Rightarrow> 'p \<times> bool"

record 'p ReplayFilter =
  rf_poolA :: 'p
  rf_poolB :: 'p
  rf_poolSwap :: bool
  rf_lastSwap :: int
  rf_interval :: int

definition NewReplayFilter :: "'p \<Rightarrow> int \<Rightarrow> 'p ReplayFilter" where
  "NewReplayFilter p interval = \<lparr>rf_poolA = p, rf_poolB = p, rf_poolSwap = False, rf_lastSwap = 0, rf_interval = interval\<rparr>"

definition ReplayFilter_Check :: "'p pool_impl \<Rightarrow> int \<Rightarrow> bytes \<Rightarrow> 'p ReplayFilter \<Rightarrow> 'p ReplayFilter \<times> bool" where
  "ReplayFilter_Check P now s f =
     (let f = (if rf_lastSwap f = 0 then f\<lparr>rf_lastSwap := now, rf_poolA := pi_NewFilter P, rf_poolB := pi_NewFilter P\<rparr> else f);
          elapsed = now - rf_lastSwap f;
          f = (if elapsed \<ge> rf_interval f
               then (if rf_poolSwap f then f\<lparr>rf_poolA := pi_Reset P (rf_poolA f)\<rparr> else f\<lparr>rf_poolB := pi_Reset P (rf_poolB f)\<rparr>)
                      \<lparr>rf_poolSwap := \<not> rf_poolSwap f, rf_lastSwap := now\<rparr>
               else f);
          (a, okA) = pi_InsertUnique P (rf_poolA f) s;
          f = f\<lparr>rf_poolA := a\<rparr>
      in if \<not> okA then (f, False)
         else let (b, okB) = pi_InsertUnique P (rf_poolB f) s in (f\<lparr>rf_poolB := b\<rparr>, okB))"

text \<open>What is used of the sets: an element is inserted once, and is not lost before the set is reset.\<close>

definition pool_ok :: "'p pool_impl \<Rightarrow> ('p \<Rightarrow> bytes \<Rightarrow> bool) \<Rightarrow> bool" where
  "pool_ok P mem \<longleftrightarrow> (\<forall>p x p' r. pi_InsertUnique P p x = (p', r) \<longrightarrow>
     (\<forall>y. mem p y \<longrightarrow> mem p' y) \<and> (r \<longrightarrow> mem p' x) \<and> (mem p x \<longrightarrow> \<not> r))"

text \<open>The filter remembers \<open>x\<close>, seen at the time \<open>s\<close>: both sets hold it, or one was reset since and the
  next to be reset holds it.\<close>

definition remembers :: "('p \<Rightarrow> bytes \<Rightarrow> bool) \<Rightarrow> bytes \<Rightarrow> int \<Rightarrow> 'p ReplayFilter \<Rightarrow> bool" where
  "remembers mem x s f \<longleftrightarrow> rf_lastSwap f \<noteq> 0 \<and>
     (mem (rf_poolA f) x \<and> mem (rf_poolB f) x \<and> s < rf_lastSwap f + rf_interval f \<or>
      s < rf_lastSwap f \<and> mem (if rf_poolSwap f then rf_poolA f else rf_poolB f) x)"

lemma remembers_Check:
  assumes P: "pool_ok P mem" and r: "remembers mem x s f" and t: "now \<le> s + rf_interval f" and i: "0 < rf_interval f" and s: "0 \<le> s"
    and c: "ReplayFilter_Check P now y f = (f', ok)"
  shows "remembers mem x s f' \<and> rf_interval f' = rf_interval f \<and> (y = x \<longrightarrow> \<not> ok)"
proof -
  define g where "g = (if now - rf_lastSwap f \<ge> rf_interval f
               then (if rf_poolSwap f then f\<lparr>rf_poolA := pi_Reset P (rf_poolA f)\<rparr> else f\<lparr>rf_poolB := pi_Reset P (rf_poolB f)\<rparr>)
                      \<lparr>rf_poolSwap := \<not> rf_poolSwap f, rf_lastSwap := now\<rparr>
               else f)"
  have g: "remembers mem x s g" "rf_interval g = rf_interval f" using r t i s by (auto simp: g_def remembers_def)
  have Q: "mem p y \<Longrightarrow> mem (fst (pi_InsertUnique P p z)) y" "snd (pi_InsertUnique P p z) \<Longrightarrow> mem (fst (pi_InsertUnique P p z)) z"
      "mem p z \<Longrightarrow> \<not> snd (pi_InsertUnique P p z)" for p y z
    using P unfolding pool_ok_def by (metis prod.collapse)+
  have C: "ReplayFilter_Check P now y f =
     (let h = g\<lparr>rf_poolA := fst (pi_InsertUnique P (rf_poolA g) y)\<rparr> in
      if \<not> snd (pi_InsertUnique P (rf_poolA g) y) then (h, False)
      else (h\<lparr>rf_poolB := fst (pi_InsertUnique P (rf_poolB g) y)\<rparr>, snd (pi_InsertUnique P (rf_poolB g) y)))"
    using r unfolding ReplayFilter_Check_def g_def [symmetric] Let_def by (simp add: case_prod_beta remembers_def g_def)
  show ?thesis
  proof (cases "snd (pi_InsertUnique P (rf_poolA g) y)")
    case True
    then have "f' = g\<lparr>rf_poolA := fst (pi_InsertUnique P (rf_poolA g) y), rf_poolB := fst (pi_InsertUnique P (rf_poolB g) y)\<rparr>"
        "ok = snd (pi_InsertUnique P (rf_poolB g) y)"
      using c C by (auto simp: Let_def)
    then show ?thesis using g Q True by (auto simp: remembers_def split: if_splits)
  next
    case False
    then have "f' = g\<lparr>rf_poolA := fst (pi_InsertUnique P (rf_poolA g) y)\<rparr>" "\<not> ok" using c C by (auto simp: Let_def)
    then show ?thesis using g Q by (auto simp: remembers_def split: if_splits)
  qed
qed

lemma Check_remembers:
  assumes P: "pool_ok P mem" and c: "ReplayFilter_Check P s x f = (f', True)" and s: "0 < s" and i: "0 < rf_interval f"
  shows "remembers mem x s f' \<and> rf_interval f' = rf_interval f"
proof -
  have Q: "snd (pi_InsertUnique P p z) \<Longrightarrow> mem (fst (pi_InsertUnique P p z)) z" for p z
    using P unfolding pool_ok_def by (metis prod.collapse)
  show ?thesis using c s i Q unfolding ReplayFilter_Check_def Let_def
    by (auto simp: remembers_def case_prod_beta split: if_splits)
qed

fun checks :: "'p pool_impl \<Rightarrow> (int \<times> bytes) list \<Rightarrow> 'p ReplayFilter \<Rightarrow> 'p ReplayFilter" where
  "checks P [] f = f"
| "checks P ((now, y) # cs) f = checks P cs (fst (ReplayFilter_Check P now y f))"

lemma checks_remember:
  assumes "pool_ok P mem" and "0 < i" and "0 \<le> s"
  shows "remembers mem x s f \<Longrightarrow> rf_interval f = i \<Longrightarrow> \<forall>(now, y) \<in> set cs. now \<le> s + i \<Longrightarrow> remembers mem x s (checks P cs f) \<and> rf_interval (checks P cs f) = i"
proof (induction cs arbitrary: f)
  case (Cons c cs)
  obtain now y where c: "c = (now, y)" by fastforce
  have "remembers mem x s (fst (ReplayFilter_Check P now y f)) \<and> rf_interval (fst (ReplayFilter_Check P now y f)) = i"
    using remembers_Check [OF assms(1) Cons.prems(1) _ _ assms(3) prod.collapse [symmetric], of now y] Cons.prems c assms(2) by auto
  then show ?case using Cons c by simp
qed simp

section \<open>Authentication identifiers\<close>

type_synonym u64 = "64 word"

definition be_PutUint64 :: "u64 \<Rightarrow> bytes" where
  "be_PutUint64 x = be_PutUint32 (ucast (drop_bit 32 x)) @ be_PutUint32 (ucast x)"

definition be_Uint64 :: "bytes \<Rightarrow> u64 option" where
  "be_Uint64 bs = do { hi \<leftarrow> be_Uint32 bs; lo \<leftarrow> be_Uint32 (drop 4 bs); Some (push_bit 32 (ucast hi) OR ucast lo) }"

lemma be_Uint64_Put [simp]: "be_Uint64 (be_PutUint64 x @ r) = Some x"
proof -
  have "push_bit 32 (ucast (ucast (drop_bit 32 x) :: u32)) OR ucast (ucast x :: u32) = x"
    by (rule bit_word_eqI) (auto simp: bit_simps)
  then show ?thesis by (simp add: be_Uint64_def be_PutUint64_def)
qed

lemma length_be_PutUint64 [simp]: "length (be_PutUint64 x) = 8"
  by (simp add: be_PutUint64_def)

record authid_env =
  ae_Encrypt :: "bytes \<Rightarrow> bytes \<Rightarrow> bytes"
  ae_Decrypt :: "bytes \<Rightarrow> bytes \<Rightarrow> bytes"
  ae_KDF16 :: "bytes \<Rightarrow> bytes"
  ae_crc32 :: "bytes \<Rightarrow> u32"

text \<open>\<open>rnd\<close> are the four random bytes.\<close>

definition CreateAuthID :: "authid_env \<Rightarrow> bytes \<Rightarrow> bytes \<Rightarrow> int \<Rightarrow> bytes" where
  "CreateAuthID E rnd cmdKey time =
     (let buf = be_PutUint64 (word_of_int time) @ rnd; zero = ae_crc32 E buf
      in ae_Encrypt E (ae_KDF16 E cmdKey) (buf @ be_PutUint32 zero))"

definition AuthIDDecoder_Decode :: "authid_env \<Rightarrow> bytes \<Rightarrow> bytes \<Rightarrow> (int \<times> u32 \<times> u32 \<times> bytes) option" where
  "AuthIDDecoder_Decode E cmdKey data =
     do {
       let data = ae_Decrypt E (ae_KDF16 E cmdKey) data;
       t \<leftarrow> be_Uint64 data;
       rnd \<leftarrow> be_Uint32 (drop 8 data);
       zero \<leftarrow> be_Uint32 (drop 12 data);
       Some (sint t, zero, rnd, data)
     }"

record ('p, 'u) AuthIDDecoderHolder =
  ah_decoders :: "(bytes \<times> 'u) list"
  ah_filter :: "'p ReplayFilter"

definition NewAuthIDDecoderHolder :: "'p \<Rightarrow> ('p, 'u) AuthIDDecoderHolder" where
  "NewAuthIDDecoderHolder p = \<lparr>ah_decoders = [], ah_filter = NewReplayFilter p 120\<rparr>"

definition Holder_AddUser :: "bytes \<Rightarrow> 'u \<Rightarrow> ('p, 'u) AuthIDDecoderHolder \<Rightarrow> ('p, 'u) AuthIDDecoderHolder" where
  "Holder_AddUser key ticket a = a\<lparr>ah_decoders := AList.update key ticket (ah_decoders a)\<rparr>"

definition Holder_RemoveUser :: "bytes \<Rightarrow> ('p, 'u) AuthIDDecoderHolder \<Rightarrow> ('p, 'u) AuthIDDecoderHolder" where
  "Holder_RemoveUser key a = a\<lparr>ah_decoders := AList.delete key (ah_decoders a)\<rparr>"

datatype authid_error = AuthNotFound | ErrReplay

text \<open>The loop over the decoders. The floating point comparison of the times is exact for numbers of
  seconds below \<open>2 ^ 53\<close>.\<close>

fun Match_users ::
  "authid_env \<Rightarrow> 'p pool_impl \<Rightarrow> (nat \<Rightarrow> int) \<Rightarrow> nat \<Rightarrow> bytes \<Rightarrow> (bytes \<times> 'u) list \<Rightarrow> 'p ReplayFilter \<Rightarrow> ('p ReplayFilter \<times> (authid_error + 'u)) option" where
  "Match_users E P clock n authID [] f = Some (f, Inl AuthNotFound)"
| "Match_users E P clock n authID ((key, ticket) # ds) f =
     (case AuthIDDecoder_Decode E key authID of
        None \<Rightarrow> None
      | Some (t, z, _, d) \<Rightarrow>
          if z \<noteq> ae_crc32 E (take 12 d) then Match_users E P clock n authID ds f
          else if t < 0 then Match_users E P clock n authID ds f
          else if \<bar>\<bar>t\<bar> - clock n\<bar> > 120 then Match_users E P clock (n + 1) authID ds f
          else case ReplayFilter_Check P (clock (n + 1)) authID f of
                 (f, ok) \<Rightarrow> Some (f, if \<not> ok then Inl ErrReplay else Inr ticket))"

definition Holder_Match ::
  "authid_env \<Rightarrow> 'p pool_impl \<Rightarrow> (nat \<Rightarrow> int) \<Rightarrow> bytes \<Rightarrow> ('p, 'u) AuthIDDecoderHolder \<Rightarrow> (('p, 'u) AuthIDDecoderHolder \<times> (authid_error + 'u)) option" where
  "Holder_Match E P clock authID a =
     map_option (\<lambda>(f, r). (a\<lparr>ah_filter := f\<rparr>, r)) (Match_users E P clock 0 authID (ah_decoders a) (ah_filter a))"

datatype 'u holder_op = HolderAdd bytes 'u | HolderRemove bytes | HolderMatch "nat \<Rightarrow> int" bytes

definition holder_run :: "authid_env \<Rightarrow> 'p pool_impl \<Rightarrow> 'u holder_op \<Rightarrow> ('p, 'u) AuthIDDecoderHolder \<Rightarrow> ('p, 'u) AuthIDDecoderHolder option" where
  "holder_run E P op a =
     (case op of
        HolderAdd key u \<Rightarrow> Some (Holder_AddUser key u a)
      | HolderRemove key \<Rightarrow> Some (Holder_RemoveUser key a)
      | HolderMatch clock authID \<Rightarrow> map_option fst (Holder_Match E P clock authID a))"

fun holder_runs :: "authid_env \<Rightarrow> 'p pool_impl \<Rightarrow> 'u holder_op list \<Rightarrow> ('p, 'u) AuthIDDecoderHolder \<Rightarrow> ('p, 'u) AuthIDDecoderHolder option" where
  "holder_runs E P [] a = Some a"
| "holder_runs E P (op # ops) a = Option.bind (holder_run E P op a) (holder_runs E P ops)"

section \<open>Replays are refused\<close>

lemma Match_users_remember:
  assumes "pool_ok P mem" and "0 \<le> s" and "\<And>n. clock n \<le> s + 120"
  shows "Match_users E P clock n authID ds f = Some (f', r) \<Longrightarrow> remembers mem x s f \<Longrightarrow> rf_interval f = 120 \<Longrightarrow>
    remembers mem x s f' \<and> rf_interval f' = 120 \<and> (authID = x \<longrightarrow> (\<exists>e. r = Inl e))"
proof (induction ds arbitrary: n)
  case (Cons d ds)
  obtain key ticket where d: "d = (key, ticket)" by fastforce
  obtain t z w data where dec: "AuthIDDecoder_Decode E key authID = Some (t, z, w, data)"
    using Cons.prems(1) d by (cases "AuthIDDecoder_Decode E key authID") auto
  obtain g ok where c: "ReplayFilter_Check P (clock (n + 1)) authID f = (g, ok)" by fastforce
  have "remembers mem x s g \<and> rf_interval g = rf_interval f \<and> (authID = x \<longrightarrow> \<not> ok)"
    by (rule remembers_Check [OF assms(1) Cons.prems(2) _ _ assms(2) c]) (use Cons.prems(3) assms(3) in simp_all)
  then show ?case using Cons dec c d by (auto split: if_splits)
qed auto

lemma Match_users_accept:
  assumes "pool_ok P mem" and "0 < s" and "\<And>n. s \<le> clock n" and "rf_interval f = 120"
  shows "Match_users E P clock n authID ds f = Some (f', Inr u) \<Longrightarrow> remembers mem authID s f' \<and> rf_interval f' = 120"
proof (induction ds arbitrary: n)
  case (Cons d ds)
  obtain key ticket where d: "d = (key, ticket)" by fastforce
  obtain t z w data where dec: "AuthIDDecoder_Decode E key authID = Some (t, z, w, data)"
    using Cons.prems(1) d by (cases "AuthIDDecoder_Decode E key authID") auto
  obtain g ok where c: "ReplayFilter_Check P (clock (n + 1)) authID f = (g, ok)" by fastforce
  have "remembers mem authID s g \<and> rf_interval g = 120" if ok
  proof -
    have "0 < clock (n + 1)" using assms(2) assms(3) [of "n + 1"] by linarith
    then have "remembers mem authID (clock (n + 1)) g \<and> rf_interval g = 120"
      using Check_remembers [OF assms(1), of "clock (n + 1)" authID f g] c that assms(4) by simp
    then show ?thesis using assms(3) [of "n + 1"] by (auto simp: remembers_def)
  qed
  then show ?case using Cons dec c d by (auto split: if_splits)
qed simp

definition readings_below :: "int \<Rightarrow> 'u holder_op \<Rightarrow> bool" where
  "readings_below t op = (case op of HolderMatch clock authID \<Rightarrow> (\<forall>n. clock n \<le> t) | _ \<Rightarrow> True)"

lemma holder_runs_remember:
  assumes "pool_ok P mem" and "0 \<le> s"
  shows "holder_runs E P ops a = Some a' \<Longrightarrow> list_all (readings_below (s + 120)) ops \<Longrightarrow> remembers mem x s (ah_filter a) \<Longrightarrow> rf_interval (ah_filter a) = 120 \<Longrightarrow>
    remembers mem x s (ah_filter a') \<and> rf_interval (ah_filter a') = 120"
proof (induction ops arbitrary: a)
  case (Cons op ops)
  then obtain b where b: "holder_run E P op a = Some b" "holder_runs E P ops b = Some a'" by (auto split: bind_splits)
  have "remembers mem x s (ah_filter b) \<and> rf_interval (ah_filter b) = 120"
  proof (cases op)
    case (HolderMatch clock authID)
    then have "\<And>n. clock n \<le> s + 120" using Cons.prems(2) by (simp add: readings_below_def)
    then show ?thesis using b(1) HolderMatch Cons.prems(3,4) Match_users_remember [OF assms, of clock E 0 authID "ah_decoders a" "ah_filter a"]
      by (auto simp: holder_run_def Holder_Match_def)
  qed (use b(1) Cons.prems(3,4) in \<open>auto simp: holder_run_def Holder_AddUser_def Holder_RemoveUser_def\<close>)
  then show ?case using Cons b(2) by simp
qed simp

text \<open>C38. A VMess authentication identifier is good for one connection: once it was accepted, whatever users
  are added or removed and whatever other connections arrive, no connection that shows it again
  in the next 120 seconds is let in.\<close>

theorem authid_replay_refused:
  assumes "pool_ok P mem" and "rf_interval (ah_filter a) = 120" and "0 < s"
    and "\<And>n. s \<le> clock n" and "Holder_Match E P clock authID a = Some (a1, Inr u)"
    and "holder_runs E P ops a1 = Some a2" and "list_all (readings_below (s + 120)) ops"
    and "\<And>n. clock' n \<le> s + 120" and "Holder_Match E P clock' authID a2 = Some (a3, r)"
  shows "\<exists>e. r = Inl e"
proof -
  obtain f where f: "Match_users E P clock 0 authID (ah_decoders a) (ah_filter a) = Some (f, Inr u)" "a1 = a\<lparr>ah_filter := f\<rparr>"
    using assms(5) by (auto simp: Holder_Match_def)
  have "remembers mem authID s (ah_filter a1)" "rf_interval (ah_filter a1) = 120"
    using Match_users_accept [where clock = clock and s = s, OF assms(1,3,4,2) f(1)] f(2) by auto
  then have "remembers mem authID s (ah_filter a2)" "rf_interval (ah_filter a2) = 120"
    using holder_runs_remember [OF assms(1) _ assms(6,7)] assms(3) by auto
  moreover obtain g where "Match_users E P clock' 0 authID (ah_decoders a2) (ah_filter a2) = Some (g, r)" using assms(9) by (auto simp: Holder_Match_def)
  ultimately show ?thesis using Match_users_remember [where clock = clock' and s = s and E = E and n = 0 and ds = "ah_decoders a2", OF assms(1) _ assms(8)] assms(3) by fastforce
qed

text \<open>Sets that forget nothing, an empty cipher and a checksum that is always 0, for a concrete run.\<close>

definition list_pool :: "bytes list pool_impl" where
  "list_pool = \<lparr>pi_NewFilter = [], pi_Reset = (\<lambda>_. []), pi_InsertUnique = (\<lambda>p x. if x \<in> set p then (p, False) else (x # p, True))\<rparr>"

definition plain_env :: authid_env where
  "plain_env = \<lparr>ae_Encrypt = (\<lambda>_ d. d), ae_Decrypt = (\<lambda>_ d. d), ae_KDF16 = (\<lambda>k. k), ae_crc32 = (\<lambda>_. 0)\<rparr>"

definition sample_holder :: "(bytes list, nat) AuthIDDecoderHolder" where
  "sample_holder = Holder_AddUser [1] 7 (NewAuthIDDecoderHolder [])"

lemma list_pool_ok: "pool_ok list_pool (\<lambda>p x. x \<in> set p)"
  by (auto simp: pool_ok_def list_pool_def split: if_splits)

theorem authid_replay_refused_witness:
  "let authID = CreateAuthID plain_env [0, 0, 0, 0] [1] 1000;
       a = fst (the (Holder_Match plain_env list_pool (\<lambda>_. 1000) authID sample_holder)) in
   (\<exists>e. snd (the (Holder_Match plain_env list_pool (\<lambda>_. 1100) authID a)) = Inl e)"
proof -
  let ?id = "CreateAuthID plain_env [0, 0, 0, 0] [1] 1000"
  let ?a = "fst (the (Holder_Match plain_env list_pool (\<lambda>_. 1000) ?id sample_holder))"
  have one: "Holder_Match plain_env list_pool (\<lambda>_. 1000) ?id sample_holder = Some (?a, Inr 7)" by code_simp
  let ?r = "the (Holder_Match plain_env list_pool (\<lambda>_. 1100) ?id ?a)"
  have two: "Holder_Match plain_env list_pool (\<lambda>_. 1100) ?id ?a = Some (fst ?r, snd ?r)" by code_simp
  have i: "rf_interval (ah_filter sample_holder) = 120" by code_simp
  show ?thesis
    using authid_replay_refused [OF list_pool_ok i _ _ one _ _ _ two, of 1000 "[]"] by (simp add: Let_def)
qed

text \<open>The identifier itself is accepted for up to 240 seconds, 120 on either side of its time: shown early by a
  client whose clock is ahead, it can be shown again after the filter has forgotten it.\<close>

lemma authid_replay_accepted:
  "let authID = CreateAuthID plain_env [0, 0, 0, 0] [1] 1000; other = (\<lambda>t. CreateAuthID plain_env [0, 0, 0, 1] [1] t);
       run = (\<lambda>t x a. the (Holder_Match plain_env list_pool (\<lambda>_. t) x a));
       a1 = fst (run 800 (other 800) sample_holder); a2 = run 919 authID a1;
       a3 = fst (run 920 (other 920) (fst a2)); a4 = run 1040 authID a3 in
   snd a2 = Inr 7 \<and> snd a4 = Inr 7"
  by code_simp

section \<open>The timed validator\<close>

record vmess_user =
  vu_Email :: bytes
  vu_ID :: bytes
  vu_CmdKey :: bytes
  vu_AlterIDs :: "bytes list"

record user =
  us_user :: vmess_user
  us_lastSec :: int

record indexTimePair =
  it_user :: vmess_user
  it_timeInc :: u32
  it_tainted :: bool

record 'p TimedUserValidator =
  tv_users :: "user list"
  tv_userHash :: "(bytes \<times> indexTimePair) list"
  tv_baseTime :: int
  tv_behaviorSeed :: u64
  tv_behaviorFused :: bool
  tv_holder :: "('p, vmess_user) AuthIDDecoderHolder"
  tv_legacyWarnShown :: bool

text \<open>\<open>hasher id ts\<close> is the hash of a second under an identifier, \<open>seed\<close> the checksum that is added to the behaviour seed,
  \<open>fold_eq\<close> is \<^verbatim>\<open>strings.EqualFold\<close>.\<close>

record vmess_env =
  ve_hasher :: "bytes \<Rightarrow> int \<Rightarrow> bytes"
  ve_seed :: "u64 \<Rightarrow> bytes \<Rightarrow> u64"
  ve_lower :: "bytes \<Rightarrow> bytes"
  ve_EqualFold :: "bytes \<Rightarrow> bytes \<Rightarrow> bool"

definition cacheDurationSec :: int where "cacheDurationSec = 120"

definition NewTimedUserValidator :: "'p \<Rightarrow> int \<Rightarrow> 'p TimedUserValidator" where
  "NewTimedUserValidator p now =
     \<lparr>tv_users = [], tv_userHash = [], tv_baseTime = now - cacheDurationSec * 2, tv_behaviorSeed = 0, tv_behaviorFused = False,
      tv_holder = NewAuthIDDecoderHolder p, tv_legacyWarnShown = False\<rparr>"

definition genHashForID :: "vmess_env \<Rightarrow> int \<Rightarrow> int \<Rightarrow> user \<Rightarrow> bytes \<Rightarrow> (bytes \<times> indexTimePair) list \<Rightarrow> (bytes \<times> indexTimePair) list" where
  "genHashForID V base nowSec u uid m =
     (let genEndSec = nowSec + cacheDurationSec;
          genBeginSec = us_lastSec u;
          genBeginSec = (if genBeginSec < nowSec - cacheDurationSec then nowSec - cacheDurationSec else genBeginSec)
      in fold (\<lambda>ts. AList.update (ve_hasher V uid ts) \<lparr>it_user = us_user u, it_timeInc = word_of_int (ts - base), it_tainted = False\<rparr>) [genBeginSec..genEndSec] m)"

definition generateNewHashes :: "vmess_env \<Rightarrow> int \<Rightarrow> int \<Rightarrow> user \<Rightarrow> (bytes \<times> indexTimePair) list \<Rightarrow> user \<times> (bytes \<times> indexTimePair) list" where
  "generateNewHashes V base nowSec u m =
     (u\<lparr>us_lastSec := nowSec + cacheDurationSec\<rparr>, fold (genHashForID V base nowSec u) (vu_ID (us_user u) # vu_AlterIDs (us_user u)) m)"

definition removeExpiredHashes :: "u32 \<Rightarrow> (bytes \<times> indexTimePair) list \<Rightarrow> (bytes \<times> indexTimePair) list" where
  "removeExpiredHashes expire m = filter (\<lambda>(key, pair). \<not> it_timeInc pair < expire) m"

fun update_users :: "vmess_env \<Rightarrow> int \<Rightarrow> int \<Rightarrow> user list \<Rightarrow> (bytes \<times> indexTimePair) list \<Rightarrow> user list \<times> (bytes \<times> indexTimePair) list" where
  "update_users V base nowSec [] m = ([], m)"
| "update_users V base nowSec (u # us) m =
     (let (u, m) = generateNewHashes V base nowSec u m; (us, m) = update_users V base nowSec us m in (u # us, m))"

definition updateUserHash :: "vmess_env \<Rightarrow> int \<Rightarrow> 'p TimedUserValidator \<Rightarrow> 'p TimedUserValidator" where
  "updateUserHash V now v =
     (let (users, m) = update_users V (tv_baseTime v) now (tv_users v) (tv_userHash v);
          expire = now - cacheDurationSec;
          m = (if expire > tv_baseTime v then removeExpiredHashes (word_of_int (expire - tv_baseTime v)) m else m)
      in v\<lparr>tv_users := users, tv_userHash := m\<rparr>)"

definition Timed_Add :: "vmess_env \<Rightarrow> int \<Rightarrow> vmess_user \<Rightarrow> 'p TimedUserValidator \<Rightarrow> 'p TimedUserValidator" where
  "Timed_Add V nowSec u v =
     (let uu = \<lparr>us_user = u, us_lastSec = nowSec - cacheDurationSec\<rparr>;
          (uu, m) = generateNewHashes V (tv_baseTime v) nowSec uu (tv_userHash v);
          v = v\<lparr>tv_users := tv_users v @ [uu], tv_userHash := m\<rparr>;
          v = (if \<not> tv_behaviorFused v then v\<lparr>tv_behaviorSeed := ve_seed V (tv_behaviorSeed v) (vu_ID u)\<rparr> else v)
      in v\<lparr>tv_holder := Holder_AddUser (vu_CmdKey u) u (tv_holder v)\<rparr>)"

datatype timed_error = ErrNotFound | ErrTainted

definition Timed_Get :: "bytes \<Rightarrow> 'p TimedUserValidator \<Rightarrow> 'p TimedUserValidator \<times> (timed_error + vmess_user \<times> int)" where
  "Timed_Get userHash v =
     (let v = v\<lparr>tv_behaviorFused := True\<rparr> in
      (v, case map_of (tv_userHash v) userHash of
            Some pair \<Rightarrow> if \<not> it_tainted pair then Inr (it_user pair, uint (it_timeInc pair) + tv_baseTime v) else Inl ErrTainted
          | None \<Rightarrow> Inl ErrNotFound))"

definition Timed_GetAEAD ::
  "authid_env \<Rightarrow> 'p pool_impl \<Rightarrow> (nat \<Rightarrow> int) \<Rightarrow> bytes \<Rightarrow> 'p TimedUserValidator \<Rightarrow> ('p TimedUserValidator \<times> (authid_error + vmess_user)) option" where
  "Timed_GetAEAD E P clock userHash v =
     map_option (\<lambda>(h, r). (v\<lparr>tv_holder := h\<rparr>, r)) (Holder_Match E P clock userHash (tv_holder v))"

text \<open>The first user with the e-mail gives its place to the last one. The hashes stay until they expire.\<close>

fun remove_index :: "(user \<Rightarrow> bool) \<Rightarrow> user list \<Rightarrow> nat option" where
  "remove_index p [] = None"
| "remove_index p (u # us) = (if p u then Some 0 else map_option Suc (remove_index p us))"

definition Timed_Remove :: "vmess_env \<Rightarrow> bytes \<Rightarrow> 'p TimedUserValidator \<Rightarrow> 'p TimedUserValidator \<times> bool" where
  "Timed_Remove V email v =
     (let email = ve_lower V email in
      case remove_index (\<lambda>u. ve_EqualFold V (vu_Email (us_user u)) email) (tv_users v) of
        None \<Rightarrow> (v, False)
      | Some idx \<Rightarrow>
          let v = v\<lparr>tv_holder := Holder_RemoveUser (vu_CmdKey (us_user (tv_users v ! idx))) (tv_holder v)\<rparr>; ulen = length (tv_users v)
          in (v\<lparr>tv_users := take (ulen - 1) ((tv_users v)[idx := tv_users v ! (ulen - 1)])\<rparr>, True))"

definition GetBehaviorSeed :: "u64 \<Rightarrow> 'p TimedUserValidator \<Rightarrow> 'p TimedUserValidator \<times> u64" where
  "GetBehaviorSeed dice v =
     (let v = v\<lparr>tv_behaviorFused := True\<rparr>; v = (if tv_behaviorSeed v = 0 then v\<lparr>tv_behaviorSeed := dice\<rparr> else v) in (v, tv_behaviorSeed v))"

definition BurnTaintFuse :: "bytes \<Rightarrow> 'p TimedUserValidator \<Rightarrow> 'p TimedUserValidator \<times> timed_error option" where
  "BurnTaintFuse userHash v =
     (case map_of (tv_userHash v) userHash of
        Some pair \<Rightarrow>
          if \<not> it_tainted pair then (v\<lparr>tv_userHash := AList.update userHash (pair\<lparr>it_tainted := True\<rparr>) (tv_userHash v)\<rparr>, None)
          else (v, Some ErrTainted)
      | None \<Rightarrow> (v, Some ErrNotFound))"

definition ShouldShowLegacyWarn :: "'p TimedUserValidator \<Rightarrow> 'p TimedUserValidator \<times> bool" where
  "ShouldShowLegacyWarn v = (if tv_legacyWarnShown v then (v, False) else (v\<lparr>tv_legacyWarnShown := True\<rparr>, True))"

section \<open>A removed user\<close>

text \<open>The users the table of hashes lets in, with the seconds they are let in for.\<close>

definition pairs_of :: "(bytes \<times> indexTimePair) list \<Rightarrow> (vmess_user \<times> int) set" where
  "pairs_of m = (\<lambda>(h, e). (it_user e, uint (it_timeInc e))) ` set m"

lemma set_AList_update: "set (AList.update k v xs) \<subseteq> insert (k, v) (set xs)"
  by (induction xs) auto

lemma pairs_of_update: "pairs_of (AList.update k e m) \<subseteq> insert (it_user e, uint (it_timeInc e)) (pairs_of m)"
  using set_AList_update [of k e m] by (force simp: pairs_of_def)

definition new_pairs :: "int \<Rightarrow> int \<Rightarrow> user list \<Rightarrow> (vmess_user \<times> int) set" where
  "new_pairs base now us = {(us_user u, uint (word_of_int (ts - base) :: u32)) | u ts. u \<in> set us \<and> now - 120 \<le> ts \<and> ts \<le> now + 120}"

lemma pairs_of_gen: "pairs_of (genHashForID V base now u uid m) \<subseteq> pairs_of m \<union> new_pairs base now [u]"
proof -
  have "pairs_of (fold (\<lambda>ts. AList.update (ve_hasher V uid ts) \<lparr>it_user = us_user u, it_timeInc = word_of_int (ts - base), it_tainted = False\<rparr>) tss m)
      \<subseteq> pairs_of m \<union> new_pairs base now [u]" if "\<forall>ts \<in> set tss. now - 120 \<le> ts \<and> ts \<le> now + 120" for tss
    using that
  proof (induction tss arbitrary: m)
    case (Cons ts tss)
    let ?e = "\<lparr>it_user = us_user u, it_timeInc = word_of_int (ts - base), it_tainted = False\<rparr>"
    have "(us_user u, uint (word_of_int (ts - base) :: u32)) \<in> new_pairs base now [u]" using Cons.prems by (auto simp: new_pairs_def)
    then have "pairs_of (AList.update (ve_hasher V uid ts) ?e m) \<subseteq> pairs_of m \<union> new_pairs base now [u]"
      using pairs_of_update [of "ve_hasher V uid ts" ?e m] by auto
    then show ?case using Cons.IH [of "AList.update (ve_hasher V uid ts) ?e m"] Cons.prems by auto
  qed simp
  then show ?thesis unfolding genHashForID_def Let_def by (auto simp: cacheDurationSec_def)
qed

lemma pairs_of_generate: "pairs_of (snd (generateNewHashes V base now u m)) \<subseteq> pairs_of m \<union> new_pairs base now [u]"
proof -
  have "pairs_of (fold (genHashForID V base now u) uids m) \<subseteq> pairs_of m \<union> new_pairs base now [u]" for uids
  proof (induction uids arbitrary: m)
    case (Cons uid uids)
    then show ?case using pairs_of_gen [of V base now u uid m] Cons.IH [of "genHashForID V base now u uid m"] by auto
  qed simp
  from this [of "vu_ID (us_user u) # vu_AlterIDs (us_user u)"] show ?thesis unfolding generateNewHashes_def snd_conv .
qed

lemma update_users_ok:
  "map us_user (fst (update_users V base now us m)) = map us_user us \<and> pairs_of (snd (update_users V base now us m)) \<subseteq> pairs_of m \<union> new_pairs base now us"
proof (induction us arbitrary: m)
  case (Cons u us)
  have "new_pairs base now [u] \<subseteq> new_pairs base now (u # us)" "new_pairs base now us \<subseteq> new_pairs base now (u # us)" by (auto simp: new_pairs_def)
  then show ?case using pairs_of_generate [of V base now u m] Cons [of "snd (generateNewHashes V base now u m)"]
    by (auto simp: case_prod_beta generateNewHashes_def)
qed simp

lemma pairs_of_expired: "pairs_of (removeExpiredHashes e m) \<subseteq> {p \<in> pairs_of m. uint e \<le> snd p}"
  by (force simp: pairs_of_def removeExpiredHashes_def word_less_def)

lemma pairs_of_updateUserHash:
  "pairs_of (tv_userHash (updateUserHash V now v)) \<subseteq> {p \<in> pairs_of (tv_userHash v) \<union> new_pairs (tv_baseTime v) now (tv_users v).
     tv_baseTime v < now - 120 \<longrightarrow> uint (word_of_int (now - 120 - tv_baseTime v) :: u32) \<le> snd p}"
  using update_users_ok [of V "tv_baseTime v" now "tv_users v" "tv_userHash v"]
    pairs_of_expired [of "word_of_int (now - 120 - tv_baseTime v)" "snd (update_users V (tv_baseTime v) now (tv_users v) (tv_userHash v))"]
  by (auto simp: updateUserHash_def Let_def case_prod_beta cacheDurationSec_def)

datatype timed_op = TimedAdd int vmess_user | TimedRemove bytes | TimedUpdate int | TimedGet bytes | TimedBurn bytes | TimedGetAEAD "nat \<Rightarrow> int" bytes

definition timed_run :: "vmess_env \<Rightarrow> authid_env \<Rightarrow> 'p pool_impl \<Rightarrow> timed_op \<Rightarrow> 'p TimedUserValidator \<Rightarrow> 'p TimedUserValidator option" where
  "timed_run V E P op v =
     (case op of
        TimedAdd now u \<Rightarrow> Some (Timed_Add V now u v)
      | TimedRemove email \<Rightarrow> Some (fst (Timed_Remove V email v))
      | TimedUpdate now \<Rightarrow> Some (updateUserHash V now v)
      | TimedGet h \<Rightarrow> Some (fst (Timed_Get h v))
      | TimedBurn h \<Rightarrow> Some (fst (BurnTaintFuse h v))
      | TimedGetAEAD clock h \<Rightarrow> map_option fst (Timed_GetAEAD E P clock h v))"

fun timed_runs :: "vmess_env \<Rightarrow> authid_env \<Rightarrow> 'p pool_impl \<Rightarrow> timed_op list \<Rightarrow> 'p TimedUserValidator \<Rightarrow> 'p TimedUserValidator option" where
  "timed_runs V E P [] v = Some v"
| "timed_runs V E P (op # ops) v = Option.bind (timed_run V E P op v) (timed_runs V E P ops)"

text \<open>What one operation adds to the users, to the table of hashes and to the decoders.\<close>

definition accounts :: "'p TimedUserValidator \<Rightarrow> vmess_user set" where
  "accounts v = us_user ` set (tv_users v)"

definition added :: "timed_op \<Rightarrow> vmess_user set" where
  "added op = (case op of TimedAdd now u \<Rightarrow> {u} | _ \<Rightarrow> {})"

definition op_window :: "timed_op \<Rightarrow> int set" where
  "op_window op = (case op of TimedAdd now u \<Rightarrow> {now - 120..now + 120} | TimedUpdate now \<Rightarrow> {now - 120..now + 120} | _ \<Rightarrow> {})"

lemma take_update_subset: "idx < length xs \<Longrightarrow> set (take (length xs - 1) (xs[idx := xs ! (length xs - 1)])) \<subseteq> set xs"
  using set_take_subset [of "length xs - 1" "xs[idx := xs ! (length xs - 1)]"] set_update_subset_insert [of xs idx "xs ! (length xs - 1)"]
  by (auto dest: subsetD)

lemma remove_index_bound: "remove_index p us = Some idx \<Longrightarrow> idx < length us \<and> p (us ! idx)"
  by (induction us arbitrary: idx) (auto split: if_splits)

lemma generateNewHashes_user: "us_user (fst (generateNewHashes V base now u m)) = us_user u"
  by (simp add: generateNewHashes_def)

lemma Timed_Add_fields:
  "accounts (Timed_Add V now u v) = insert u (accounts v) \<and>
   tv_userHash (Timed_Add V now u v) = snd (generateNewHashes V (tv_baseTime v) now \<lparr>us_user = u, us_lastSec = now - cacheDurationSec\<rparr> (tv_userHash v)) \<and>
   tv_baseTime (Timed_Add V now u v) = tv_baseTime v \<and>
   ah_decoders (tv_holder (Timed_Add V now u v)) = AList.update (vu_CmdKey u) u (ah_decoders (tv_holder v))"
  by (simp add: Timed_Add_def accounts_def Let_def case_prod_beta generateNewHashes_user Holder_AddUser_def)

lemma timed_run_effect:
  assumes "timed_run V E P op v = Some v'"
  shows "tv_baseTime v' = tv_baseTime v \<and> accounts v' \<subseteq> accounts v \<union> added op \<and>
     pairs_of (tv_userHash v') \<subseteq> pairs_of (tv_userHash v) \<union>
       {(u, uint (word_of_int (ts - tv_baseTime v) :: u32)) | u ts. u \<in> accounts v \<union> added op \<and> ts \<in> op_window op} \<and>
     set (ah_decoders (tv_holder v')) \<subseteq> set (ah_decoders (tv_holder v)) \<union> {(vu_CmdKey u, u) | u. u \<in> added op}"
proof (cases op)
  case (TimedAdd now u)
  let ?u = "\<lparr>us_user = u, us_lastSec = now - cacheDurationSec\<rparr>"
  have v': "v' = Timed_Add V now u v" using assms TimedAdd by (simp add: timed_run_def)
  have "accounts v' = insert u (accounts v)" "tv_userHash v' = snd (generateNewHashes V (tv_baseTime v) now ?u (tv_userHash v))"
      "tv_baseTime v' = tv_baseTime v" "ah_decoders (tv_holder v') = AList.update (vu_CmdKey u) u (ah_decoders (tv_holder v))"
    unfolding v' using Timed_Add_fields [of V now u v] by simp_all
  then show ?thesis using pairs_of_generate [of V "tv_baseTime v" now ?u "tv_userHash v"] set_AList_update [of "vu_CmdKey u" u] TimedAdd
    by (fastforce simp: added_def op_window_def new_pairs_def)
next
  case (TimedRemove email)
  show ?thesis
  proof (cases "remove_index (\<lambda>u. ve_EqualFold V (vu_Email (us_user u)) (ve_lower V email)) (tv_users v)")
    case None
    then show ?thesis using assms TimedRemove by (auto simp: timed_run_def Timed_Remove_def)
  next
    case (Some idx)
    then have "accounts v' \<subseteq> accounts v" using assms TimedRemove take_update_subset [OF conjunct1 [OF remove_index_bound [OF Some]]]
      by (auto simp: timed_run_def Timed_Remove_def accounts_def Let_def)
    then show ?thesis using assms TimedRemove Some
      by (auto simp: timed_run_def Timed_Remove_def Let_def Holder_RemoveUser_def AList.delete_eq)
  qed
next
  case (TimedUpdate now)
  then have v': "v' = updateUserHash V now v" using assms by (simp add: timed_run_def)
  then have "accounts v' = accounts v" using update_users_ok [of V "tv_baseTime v" now "tv_users v" "tv_userHash v"]
    by (simp add: updateUserHash_def accounts_def Let_def case_prod_beta) (metis list.set_map)
  moreover have "tv_baseTime v' = tv_baseTime v" "tv_holder v' = tv_holder v" by (simp_all add: v' updateUserHash_def Let_def case_prod_beta)
  ultimately show ?thesis using pairs_of_updateUserHash [of V now v] TimedUpdate v'
    by (fastforce simp: op_window_def new_pairs_def accounts_def)
next
  case (TimedBurn h)
  show ?thesis
  proof (cases "map_of (tv_userHash v) h")
    case (Some e)
    then have "(it_user e, uint (it_timeInc e)) \<in> pairs_of (tv_userHash v)" by (force simp: pairs_of_def dest: map_of_SomeD)
    then show ?thesis using assms TimedBurn Some pairs_of_update [of h "e\<lparr>it_tainted := True\<rparr>" "tv_userHash v"]
      by (cases "it_tainted e") (auto simp: timed_run_def BurnTaintFuse_def accounts_def)
  qed (use assms TimedBurn in \<open>auto simp: timed_run_def BurnTaintFuse_def\<close>)
qed (use assms in \<open>auto simp: timed_run_def Timed_Get_def Timed_GetAEAD_def Holder_Match_def accounts_def Let_def\<close>)

text \<open>A user that is neither present nor added gets nothing new: no decoder and no hash beyond those it has.\<close>

definition hashes_of :: "vmess_user \<Rightarrow> 'p TimedUserValidator \<Rightarrow> int set" where
  "hashes_of u v = {t. (u, t) \<in> pairs_of (tv_userHash v)}"

definition decoders_of :: "vmess_user \<Rightarrow> 'p TimedUserValidator \<Rightarrow> bytes set" where
  "decoders_of u v = {k. (k, u) \<in> set (ah_decoders (tv_holder v))}"

lemma absent_user_gains_nothing:
  assumes "timed_runs V E P ops v = Some v'" "u \<notin> accounts v" "\<forall>op \<in> set ops. u \<notin> added op"
  shows "u \<notin> accounts v' \<and> hashes_of u v' \<subseteq> hashes_of u v \<and> decoders_of u v' \<subseteq> decoders_of u v \<and> tv_baseTime v' = tv_baseTime v"
  using assms
proof (induction ops arbitrary: v)
  case (Cons op ops)
  then obtain w where w: "timed_run V E P op v = Some w" "timed_runs V E P ops w = Some v'" by (auto simp: bind_eq_Some_conv)
  have one: "u \<notin> accounts w \<and> hashes_of u w \<subseteq> hashes_of u v \<and> decoders_of u w \<subseteq> decoders_of u v \<and> tv_baseTime w = tv_baseTime v"
    using timed_run_effect [OF w(1)] Cons.prems(2,3) by (fastforce simp: hashes_of_def decoders_of_def)
  then show ?case using Cons.IH [OF w(2)] Cons.prems(3) by fastforce
qed simp

text \<open>Every hash is for a second of some window, and every decoder is keyed by its user.\<close>

lemma timed_runs_hashes:
  assumes "timed_runs V E P ops v = Some v'" "\<forall>op \<in> set ops. op_window op \<subseteq> {tv_baseTime v..T}" "hashes_of u v \<subseteq> {..T - tv_baseTime v}"
    "decoders_of u v \<subseteq> {vu_CmdKey u}"
  shows "hashes_of u v' \<subseteq> {..T - tv_baseTime v} \<and> decoders_of u v' \<subseteq> {vu_CmdKey u} \<and> tv_baseTime v' = tv_baseTime v"
  using assms
proof (induction ops arbitrary: v)
  case (Cons op ops)
  then obtain w where w: "timed_run V E P op v = Some w" "timed_runs V E P ops w = Some v'" by (auto simp: bind_eq_Some_conv)
  note eff = timed_run_effect [OF w(1)]
  have base: "tv_baseTime w = tv_baseTime v" using eff by simp
  have win: "uint (word_of_int (ts - tv_baseTime v) :: u32) \<le> T - tv_baseTime v" if "ts \<in> op_window op" for ts
  proof -
    have "tv_baseTime v \<le> ts" "ts \<le> T" using that Cons.prems(2) by auto
    then have "(ts - tv_baseTime v) mod 2 ^ 32 \<le> ts - tv_baseTime v" by (intro zmod_le_nonneg_dividend) simp
    moreover have "uint (word_of_int (ts - tv_baseTime v) :: u32) = (ts - tv_baseTime v) mod 2 ^ 32" by (simp only: unsigned_of_int take_bit_eq_mod) simp
    ultimately show ?thesis using \<open>ts \<le> T\<close> by linarith
  qed
  have "hashes_of u w \<subseteq> {..T - tv_baseTime w}"
    using eff win Cons.prems(3) unfolding base by (auto simp: hashes_of_def dest!: subsetD)
  moreover have "decoders_of u w \<subseteq> {vu_CmdKey u}" using eff Cons.prems(4) by (auto simp: decoders_of_def)
  ultimately show ?case using Cons.IH [OF w(2)] Cons.prems(2) base by auto
qed simp

lemma removed_elements:
  assumes "idx < length xs" "x \<in> set xs" "x \<noteq> xs ! idx"
  shows "x \<in> set (take (length xs - 1) (xs[idx := xs ! (length xs - 1)]))"
proof -
  obtain j where j: "j < length xs" "x = xs ! j" using assms(2) by (metis in_set_conv_nth)
  let ?n = "length xs - 1" and ?ys = "xs[idx := xs ! (length xs - 1)]"
  have "x \<in> set (take ?n ?ys)" if "k < ?n" "x = ?ys ! k" for k using that by (auto simp: in_set_conv_nth intro!: exI [of _ k])
  note at = this
  show ?thesis
  proof (cases "j = ?n")
    case True
    then have "idx \<noteq> ?n" using j(2) assms(3) by auto
    then show ?thesis using at [of idx] j(2) True assms(1) by simp
  next
    case False
    moreover have "idx \<noteq> j" using j(2) assms(3) by auto
    ultimately show ?thesis using at [of j] j by simp
  qed
qed

lemma Timed_Remove_user:
  assumes "Timed_Remove V email v = (v', True)" "u \<in> accounts v" "u \<notin> accounts v'" "decoders_of u v \<subseteq> {vu_CmdKey u}"
  shows "decoders_of u v' = {} \<and> tv_userHash v' = tv_userHash v \<and> tv_baseTime v' = tv_baseTime v"
proof -
  let ?xs = "tv_users v"
  obtain idx where idx: "remove_index (\<lambda>u. ve_EqualFold V (vu_Email (us_user u)) (ve_lower V email)) ?xs = Some idx"
    using assms(1) by (auto simp: Timed_Remove_def Let_def split: option.splits)
  have v': "tv_users v' = take (length ?xs - 1) (?xs[idx := ?xs ! (length ?xs - 1)])" "tv_userHash v' = tv_userHash v" "tv_baseTime v' = tv_baseTime v"
      "ah_decoders (tv_holder v') = AList.delete (vu_CmdKey (us_user (?xs ! idx))) (ah_decoders (tv_holder v))"
    using assms(1) idx by (auto simp: Timed_Remove_def Let_def Holder_RemoveUser_def)
  have "us_user (?xs ! idx) = u"
  proof (rule ccontr)
    assume ne: "us_user (?xs ! idx) \<noteq> u"
    obtain x where "x \<in> set ?xs" "us_user x = u" using assms(2) by (auto simp: accounts_def)
    then have "x \<in> set (tv_users v')" using removed_elements [of idx ?xs x] remove_index_bound [OF idx] ne unfolding v'(1) by blast
    then show False using assms(3) \<open>us_user x = u\<close> by (auto simp: accounts_def)
  qed
  then show ?thesis using v' assms(4) by (auto simp: decoders_of_def AList.delete_eq)
qed

lemma Match_users_ticket: "Match_users E P clock n authID ds f = Some (f', Inr u) \<Longrightarrow> u \<in> snd ` set ds"
  by (induction E P clock n authID ds f rule: Match_users.induct) (auto split: option.splits prod.splits if_splits)

text \<open>C37. Removing a user. From the moment \<^verbatim>\<open>Remove\<close> has taken a user out, no authentication identifier is accepted for it, however the validator
  is used afterwards, unless the user is added again. The legacy hashes of the user outlive it, but the first update of the table later than 240 seconds
  after the time \<open>T\<close> of the last addition or update that could see the user takes the last of them out, and no hash is accepted for
  the user from then on. (Provided the clock did not run behind the validator's creation by more than 120 seconds and the seconds since then fit 32 bits.)\<close>

theorem vmess_removed_user:
  assumes "timed_runs V E P ops (NewTimedUserValidator p start) = Some v" "\<forall>op \<in> set ops. op_window op \<subseteq> {start - 240..T + 120}"
    and "Timed_Remove V email v = (v1, True)" "u \<in> accounts v" "u \<notin> accounts v1"
    and "timed_runs V E P ops1 v1 = Some v2" "\<forall>op \<in> set ops1. u \<notin> added op"
    and "T + 240 < now" "start - 240 < now - 120" "now - 120 - (start - 240) < 2 ^ 32"
    and "timed_runs V E P ops2 (updateUserHash V now v2) = Some v3" "\<forall>op \<in> set ops2. u \<notin> added op"
  shows "(\<forall>clock h v'. Timed_GetAEAD E P clock h v2 \<noteq> Some (v', Inr u)) \<and> (\<forall>h t. snd (Timed_Get h v3) \<noteq> Inr (u, t))"
proof -
  let ?b = "start - 240" and ?v = "updateUserHash V now v2"
  have "hashes_of u v \<subseteq> {..T + 120 - ?b} \<and> decoders_of u v \<subseteq> {vu_CmdKey u} \<and> tv_baseTime v = ?b"
    using timed_runs_hashes [OF assms(1), of "T + 120" u] assms(2)
    by (simp add: NewTimedUserValidator_def NewAuthIDDecoderHolder_def cacheDurationSec_def hashes_of_def decoders_of_def pairs_of_def)
  then have one: "hashes_of u v1 \<subseteq> {..T + 120 - ?b}" "decoders_of u v1 = {}" "tv_baseTime v1 = ?b"
    using Timed_Remove_user [OF assms(3-5)] by (auto simp: hashes_of_def)
  then have two: "u \<notin> accounts v2" "hashes_of u v2 \<subseteq> {..T + 120 - ?b}" "decoders_of u v2 = {}" "tv_baseTime v2 = ?b"
    using absent_user_gains_nothing [OF assms(6,5,7)] by auto
  have e: "uint (word_of_int (now - 120 - ?b) :: u32) = now - 120 - ?b"
    using assms(9,10) by (simp only: unsigned_of_int take_bit_eq_mod) simp
  have "hashes_of u ?v = {}"
    using pairs_of_updateUserHash [of V now v2] two(1,2) assms(8,9) unfolding two(4) e
    by (force simp: hashes_of_def new_pairs_def accounts_def)
  moreover have "u \<notin> accounts ?v" using timed_run_effect [of V E P "TimedUpdate now" v2 ?v] two(1) by (auto simp: timed_run_def added_def)
  ultimately have "hashes_of u v3 = {}" using absent_user_gains_nothing [OF assms(11) _ assms(12)] by blast
  then have "map_of (tv_userHash v3) h = Some e \<Longrightarrow> it_user e \<noteq> u" for h e by (force simp: hashes_of_def pairs_of_def dest: map_of_SomeD)
  then have "snd (Timed_Get h v3) \<noteq> Inr (u, t)" for h t by (auto simp: Timed_Get_def Let_def split: option.splits)
  moreover have "Timed_GetAEAD E P clock h v2 \<noteq> Some (v', Inr u)" for clock h v'
    using two(3) by (fastforce simp: Timed_GetAEAD_def Holder_Match_def decoders_of_def dest!: Match_users_ticket)
  ultimately show ?thesis by blast
qed

definition sample_user :: vmess_user where
  "sample_user = \<lparr>vu_Email = [97], vu_ID = [1], vu_CmdKey = [2], vu_AlterIDs = []\<rparr>"

definition sample_venv :: vmess_env where
  "sample_venv = \<lparr>ve_hasher = (\<lambda>uid ts. uid @ [word_of_int ts]), ve_seed = (\<lambda>_ _. 5), ve_lower = (\<lambda>e. e), ve_EqualFold = (=)\<rparr>"

text \<open>Until then the hashes are valid: removal does not touch them.\<close>

lemma removed_user_hash_stays: "snd (Timed_Get h (fst (Timed_Remove V email v))) = snd (Timed_Get h v)"
proof -
  have "tv_userHash (fst (Timed_Remove V email v)) = tv_userHash v" "tv_baseTime (fst (Timed_Remove V email v)) = tv_baseTime v"
    by (simp_all add: Timed_Remove_def Let_def split: option.split)
  then show ?thesis by (cases "map_of (tv_userHash v) h") (simp_all add: Timed_Get_def Let_def)
qed

theorem vmess_removed_user_witness:
  "let v = Timed_Add sample_venv 1000 sample_user (NewTimedUserValidator ([] :: bytes list) 1000);
       v1 = fst (Timed_Remove sample_venv [97] v);
       v2 = updateUserHash sample_venv 1241 v1 in
   (\<forall>clock h v'. Timed_GetAEAD plain_env list_pool clock h v1 \<noteq> Some (v', Inr sample_user)) \<and>
   (\<forall>h t. snd (Timed_Get h v2) \<noteq> Inr (sample_user, t))"
proof -
  let ?v = "Timed_Add sample_venv 1000 sample_user (NewTimedUserValidator ([] :: bytes list) 1000)"
  let ?v1 = "fst (Timed_Remove sample_venv [97] ?v)"
  have run: "timed_runs sample_venv plain_env list_pool [TimedAdd 1000 sample_user] (NewTimedUserValidator ([] :: bytes list) 1000) = Some ?v"
    by (simp add: timed_run_def)
  obtain x where x: "tv_users ?v = [x]" "us_user x = sample_user"
    by (simp add: Timed_Add_def Let_def case_prod_beta NewTimedUserValidator_def generateNewHashes_user)
  have "ve_EqualFold sample_venv (vu_Email sample_user) (ve_lower sample_venv [97])" by (simp add: sample_venv_def sample_user_def)
  then have "remove_index (\<lambda>u. ve_EqualFold sample_venv (vu_Email (us_user u)) (ve_lower sample_venv [97])) (tv_users ?v) = Some 0" using x by simp
  then have rem: "Timed_Remove sample_venv [97] ?v = (?v1, True)" "tv_users ?v1 = []" using x by (simp_all add: Timed_Remove_def Let_def)
  show ?thesis
    using vmess_removed_user [of sample_venv plain_env list_pool "[TimedAdd 1000 sample_user]" "[]" 1000 ?v 1000 "[97]" ?v1 sample_user "[]" ?v1 1241 "[]"
        "updateUserHash sample_venv 1241 ?v1"] run rem x
    by (simp add: op_window_def accounts_def Let_def)
qed

end
