(* ===== verification/Vmess_Header.thy ===== *)
theory Vmess_Header
  imports Vmess_User Vmess_Auth
begin

text \<open>
  The parts of a VMess handshake: key derivation and the sealed request header (\<^verbatim>\<open>proxy/vmess/aead/kdf.go\<close>, \<^verbatim>\<open>encrypt.go\<close>), the commands of a
  response (\<^verbatim>\<open>proxy/vmess/encoding/commands.go\<close>) and the history of sessions (\<^verbatim>\<open>proxy/vmess/encoding/server.go\<close>).

  The primitives of the standard library are fields of \<open>vmess_crypto\<close>: MD5, SHA-256, HMAC over a hash, AES-GCM and AES-CFB.
  \<open>crypto_ok\<close> is what is used of them: opening undoes sealing, a tag has 16 bytes, and decryption of a stream undoes
  encryption byte by byte.
\<close>

record vmess_crypto =
  vc_md5 :: "bytes \<Rightarrow> bytes"
  vc_sha256 :: "bytes \<Rightarrow> bytes"
  vc_hmac :: "(bytes \<Rightarrow> bytes) \<Rightarrow> bytes \<Rightarrow> bytes \<Rightarrow> bytes"
  vc_Seal :: "bytes \<Rightarrow> bytes \<Rightarrow> bytes \<Rightarrow> bytes \<Rightarrow> bytes"
  vc_Open :: "bytes \<Rightarrow> bytes \<Rightarrow> bytes \<Rightarrow> bytes \<Rightarrow> bytes option"
  vc_encrypt :: "bytes \<Rightarrow> bytes \<Rightarrow> bytes \<Rightarrow> bytes"
  vc_decrypt :: "bytes \<Rightarrow> bytes \<Rightarrow> bytes \<Rightarrow> bytes"

definition crypto_ok :: "vmess_crypto \<Rightarrow> bool" where
  "crypto_ok C \<longleftrightarrow>
     (\<forall>key nonce plain ad. vc_Open C key nonce (vc_Seal C key nonce plain ad) ad = Some plain \<and> length (vc_Seal C key nonce plain ad) = length plain + 16) \<and>
     (\<forall>key iv plain rest. \<exists>more. vc_decrypt C key iv (vc_encrypt C key iv plain @ rest) = plain @ more \<and> length more = length rest) \<and>
     (\<forall>key iv plain. length (vc_encrypt C key iv plain) = length plain)"

section \<open>Key derivation\<close>

text \<open>A chain of keyed hashes, each built on the one before.\<close>

definition KDF :: "vmess_crypto \<Rightarrow> bytes \<Rightarrow> bytes list \<Rightarrow> bytes" where
  "KDF C key path = fold (\<lambda>v parent. vc_hmac C parent v) path (vc_hmac C (vc_sha256 C) (str ''VMess AEAD KDF'')) key"

definition KDF16 :: "vmess_crypto \<Rightarrow> bytes \<Rightarrow> bytes list \<Rightarrow> bytes" where
  "KDF16 C key path = take 16 (KDF C key path)"

section \<open>The sealed header\<close>

text \<open>The random bytes of the identifier, the clock and the random connection nonce are arguments.\<close>

definition SealVMessAEADHeader :: "vmess_crypto \<Rightarrow> authid_env \<Rightarrow> bytes \<Rightarrow> int \<Rightarrow> bytes \<Rightarrow> bytes \<Rightarrow> bytes \<Rightarrow> bytes" where
  "SealVMessAEADHeader C E rnd now connectionNonce key data =
     (let generatedAuthID = CreateAuthID E rnd key now;
          headerPayloadDataLen = word_of_nat (length data) :: u16;
          payloadHeaderLengthAEADKey = KDF16 C key [str ''VMess Header AEAD Key_Length'', generatedAuthID, connectionNonce];
          payloadHeaderLengthAEADNonce = take 12 (KDF C key [str ''VMess Header AEAD Nonce_Length'', generatedAuthID, connectionNonce]);
          payloadHeaderLengthAEADEncrypted = vc_Seal C payloadHeaderLengthAEADKey payloadHeaderLengthAEADNonce (be_PutUint16 headerPayloadDataLen) generatedAuthID;
          payloadHeaderAEADKey = KDF16 C key [str ''VMess Header AEAD Key'', generatedAuthID, connectionNonce];
          payloadHeaderAEADNonce = take 12 (KDF C key [str ''VMess Header AEAD Nonce'', generatedAuthID, connectionNonce]);
          payloadHeaderAEADEncrypted = vc_Seal C payloadHeaderAEADKey payloadHeaderAEADNonce data generatedAuthID
      in generatedAuthID @ payloadHeaderLengthAEADEncrypted @ connectionNonce @ payloadHeaderAEADEncrypted)"

text \<open>A failure says whether the connection should be drained and how many bytes were read. The length of the
  sealed payload is computed in 16 bits.\<close>

datatype aead_error = AEADRead buf_error | AEADOpen

definition OpenVMessAEADHeader :: "vmess_crypto \<Rightarrow> bytes \<Rightarrow> bytes \<Rightarrow> bytes \<Rightarrow> (bool \<times> nat \<times> aead_error, bytes \<times> bytes) outcome" where
  "OpenVMessAEADHeader C key authid src =
     (case io_ReadFull src 18 of
        (payloadHeaderLengthAEADEncrypted, src, Some e) \<Rightarrow> Fail (False, length payloadHeaderLengthAEADEncrypted, AEADRead e)
      | (payloadHeaderLengthAEADEncrypted, src, None) \<Rightarrow>
     (case io_ReadFull src 8 of
        (nonce, src, Some e) \<Rightarrow> Fail (False, 18 + length nonce, AEADRead e)
      | (nonce, src, None) \<Rightarrow>
     (case vc_Open C (KDF16 C key [str ''VMess Header AEAD Key_Length'', authid, nonce])
             (take 12 (KDF C key [str ''VMess Header AEAD Nonce_Length'', authid, nonce])) payloadHeaderLengthAEADEncrypted authid of
        None \<Rightarrow> Fail (True, 26, AEADOpen)
      | Some decryptedAEADHeaderLengthPayload \<Rightarrow>
     outcome_bind (or_panic (be_Uint16 decryptedAEADHeaderLengthPayload)) (\<lambda>len.
     (case io_ReadFull src (unat (len + 16)) of
        (payloadHeaderAEADEncrypted, src, Some e) \<Rightarrow> Fail (False, 26 + length payloadHeaderAEADEncrypted, AEADRead e)
      | (payloadHeaderAEADEncrypted, src, None) \<Rightarrow>
     (case vc_Open C (KDF16 C key [str ''VMess Header AEAD Key'', authid, nonce])
             (take 12 (KDF C key [str ''VMess Header AEAD Nonce'', authid, nonce])) payloadHeaderAEADEncrypted authid of
        None \<Rightarrow> Fail (True, 26 + length payloadHeaderAEADEncrypted, AEADOpen)
      | Some decryptedAEADHeaderPayload \<Rightarrow> Ok (decryptedAEADHeaderPayload, src)))))))"

text \<open>A sealed header is opened to the same data, and the bytes behind it are left alone.\<close>

lemma OpenHeader_SealHeader:
  fixes E :: authid_env and rnd key :: bytes and now :: int
  assumes "crypto_ok C" and "length data < 65520" and "length connectionNonce = 8"
  defines "authid \<equiv> CreateAuthID E rnd key now"
  shows "\<exists>sealed. SealVMessAEADHeader C E rnd now connectionNonce key data = authid @ sealed \<and>
     OpenVMessAEADHeader C key authid (sealed @ rest) = Ok (data, rest)"
proof -
  let ?seal = "\<lambda>k n x. vc_Seal C (KDF16 C key [k, authid, connectionNonce]) (take 12 (KDF C key [n, authid, connectionNonce])) x authid"
  let ?len = "?seal (str ''VMess Header AEAD Key_Length'') (str ''VMess Header AEAD Nonce_Length'') (be_PutUint16 (word_of_nat (length data)))"
  let ?data = "?seal (str ''VMess Header AEAD Key'') (str ''VMess Header AEAD Nonce'') data"
  have lens: "length ?len = 18" "length ?data = length data + 16" using assms(1) by (simp_all add: crypto_ok_def)
  have "(word_of_nat (length data) :: u16) + 16 = word_of_nat (length data + 16)" by simp
  then have n: "unat ((word_of_nat (length data) :: u16) + 16) = length data + 16" using assms(2) by (simp only: unat_of_nat) simp
  have "OpenVMessAEADHeader C key authid ((?len @ connectionNonce @ ?data) @ rest) = Ok (data, rest)"
    using assms(1,3) lens n unfolding OpenVMessAEADHeader_def append_assoc by (simp add: crypto_ok_def)
  then show ?thesis unfolding SealVMessAEADHeader_def Let_def authid_def [symmetric] by blast
qed

section \<open>Commands\<close>

record CommandSwitchAccount =
  cs_Host :: "Address option"
  cs_Port :: Port
  cs_ID :: bytes
  cs_Level :: u32
  cs_AlterIds :: u16
  cs_ValidMin :: byte

text \<open>A command is a value of any type; only one type is known.\<close>

datatype ResponseCommand = SwitchAccount CommandSwitchAccount | OtherCommand

datatype cmd_error = ErrUnknownCommand | ErrCommandTooLarge | ErrInsufficientLength | ErrInvalidAuth

text \<open>\<open>ipstr\<close> is \<^verbatim>\<open>net.IP.String\<close>.\<close>

fun Address_String :: "(bytes \<Rightarrow> bytes) \<Rightarrow> Address \<Rightarrow> bytes" where
  "Address_String ipstr (ipv4Address ip) = ipstr ip"
| "Address_String ipstr (ipv6Address ip) = str ''['' @ ipstr ip @ str '']''"
| "Address_String ipstr (domainAddress d) = d"

definition SwitchAccount_Marshal :: "(bytes \<Rightarrow> bytes) \<Rightarrow> CommandSwitchAccount \<Rightarrow> bytes" where
  "SwitchAccount_Marshal ipstr cmd =
     (let hostStr = (case cs_Host cmd of None \<Rightarrow> [] | Some a \<Rightarrow> Address_String ipstr a)
      in [word_of_nat (length hostStr)] @ hostStr @ serial_WriteUint16 (Port_Value (cs_Port cmd)) @ cs_ID cmd @ serial_WriteUint16 (cs_AlterIds cmd) @
         [ucast (cs_Level cmd)] @ [cs_ValidMin cmd])"

definition SwitchAccount_Unmarshal :: "bytes \<Rightarrow> (cmd_error, CommandSwitchAccount) outcome" where
  "SwitchAccount_Unmarshal data =
     (if length data = 0 then Fail ErrInsufficientLength
      else
     let lenHost = unat (data ! 0) in
     if length data < lenHost + 1 then Fail ErrInsufficientLength
     else
     outcome_bind (if lenHost > 0 then outcome_bind (or_panic (ParseAddress (take lenHost (drop 1 data)))) (\<lambda>a. Ok (Some a)) else Ok None) (\<lambda>host.
     let portStart = 1 + lenHost in
     if length data < portStart + 2 then Fail ErrInsufficientLength
     else
     outcome_bind (or_panic (PortFromBytes (take 2 (drop portStart data)))) (\<lambda>port.
     let idStart = portStart + 2 in
     if length data < idStart + 16 then Fail ErrInsufficientLength
     else
     let uid = (case UUID_ParseBytes (take 16 (drop idStart data)) of Some u \<Rightarrow> u | None \<Rightarrow> replicate 16 0);
         alterIDStart = idStart + 16 in
     if length data < alterIDStart + 2 then Fail ErrInsufficientLength
     else
     outcome_bind (or_panic (be_Uint16 (take 2 (drop alterIDStart data)))) (\<lambda>alterIds.
     let levelStart = alterIDStart + 2 in
     if length data < levelStart + 1 then Fail ErrInsufficientLength
     else
     let timeStart = levelStart + 1 in
     if length data < timeStart + 1 then Fail ErrInsufficientLength
     else Ok \<lparr>cs_Host = host, cs_Port = port, cs_ID = uid, cs_Level = ucast (data ! levelStart), cs_AlterIds = alterIds, cs_ValidMin = data ! timeStart\<rparr>))))"

text \<open>\<^verbatim>\<open>MarshalCommand\<close> collects the command in one buffer of 2048 bytes, which takes what fits.\<close>

definition MarshalCommand :: "(bytes \<Rightarrow> bytes) \<Rightarrow> ResponseCommand option \<Rightarrow> cmd_error + bytes" where
  "MarshalCommand ipstr command =
     (case command of
        Some (SwitchAccount cmd) \<Rightarrow>
          let buffer = take 2048 (SwitchAccount_Marshal ipstr cmd); auth = Authenticate buffer; len = length buffer + 4 in
          if len > 255 then Inl ErrCommandTooLarge
          else Inr ([1, word_of_nat len, ucast (drop_bit 24 auth), ucast (drop_bit 16 auth), ucast (drop_bit 8 auth), ucast auth] @ buffer)
      | _ \<Rightarrow> Inl ErrUnknownCommand)"

definition UnmarshalCommand :: "byte \<Rightarrow> bytes \<Rightarrow> (cmd_error, ResponseCommand) outcome" where
  "UnmarshalCommand cmdID data =
     (if length data \<le> 4 then Fail ErrInsufficientLength
      else
        outcome_bind (or_panic (be_Uint32 (take 4 data))) (\<lambda>actualAuth.
        if Authenticate (drop 4 data) \<noteq> actualAuth then Fail ErrInvalidAuth
        else if cmdID = 1 then outcome_bind (SwitchAccount_Unmarshal (drop 4 data)) (\<lambda>c. Ok (SwitchAccount c))
        else Fail ErrUnknownCommand))"

text \<open>The host of a command that survives: nothing, or an address whose text is parsed to it.\<close>

definition host_ok :: "(bytes \<Rightarrow> bytes) \<Rightarrow> Address option \<Rightarrow> bool" where
  "host_ok ipstr h \<longleftrightarrow> (case h of None \<Rightarrow> True | Some a \<Rightarrow> Address_String ipstr a \<noteq> [] \<and> length (Address_String ipstr a) \<le> 225 \<and> ParseAddress (Address_String ipstr a) = Some a)"

definition command_ok :: "(bytes \<Rightarrow> bytes) \<Rightarrow> CommandSwitchAccount \<Rightarrow> bool" where
  "command_ok ipstr cmd \<longleftrightarrow> host_ok ipstr (cs_Host cmd) \<and> length (cs_ID cmd) = 16 \<and> cs_Level cmd < 256"

lemma length_serial_WriteUint16 [simp]: "length (serial_WriteUint16 x) = 2"
  by (simp add: serial_WriteUint16_def)

lemma byte_level: "x < 256 \<Longrightarrow> ucast (ucast (x :: u32) :: byte) = x"
  by (rule word_uint_eqI) (simp add: unsigned_ucast_eq take_bit_eq_mod uint_mod word_less_def)

lemma SwitchAccount_layout:
  assumes "length host \<le> 225" "length uid = 16"
    and "data = [word_of_nat (length host)] @ host @ serial_WriteUint16 port @ uid @ serial_WriteUint16 alt @ [level] @ [valid]"
    and "(host = [] \<and> a = None) \<or> (host \<noteq> [] \<and> a \<noteq> None \<and> ParseAddress host = a)"
  shows "SwitchAccount_Unmarshal data = Ok \<lparr>cs_Host = a, cs_Port = port, cs_ID = uid, cs_Level = ucast level, cs_AlterIds = alt, cs_ValidMin = valid\<rparr>"
proof -
  have l: "unat (word_of_nat (length host) :: byte) = length host" using assms(1) by (simp add: unat_of_nat)
  have d: "data ! 0 = word_of_nat (length host)" "length data = length host + 23" "take (length host) (drop 1 data) = host"
      "take 2 (drop (1 + length host) data) = serial_WriteUint16 port" "take 16 (drop (1 + length host + 2) data) = uid"
      "take 2 (drop (1 + length host + 2 + 16) data) = serial_WriteUint16 alt"
      "data ! (1 + length host + 2 + 16 + 2) = level" "data ! (1 + length host + 2 + 16 + 2 + 1) = valid"
    using assms(2) by (simp_all add: assms(3) nth_append nth_Cons' drop_Cons')
  have host: "(if length host > 0 then outcome_bind (or_panic (ParseAddress host)) (\<lambda>a. Ok (Some a)) else Ok None) = (Ok a :: (cmd_error, Address option) outcome)"
    using assms(4) by auto
  have p: "PortFromBytes (serial_WriteUint16 port) = Some port" "be_Uint16 (serial_WriteUint16 alt) = Some alt" "UUID_ParseBytes uid = Some uid"
    using assms(2) by (simp_all add: PortFromBytes_def serial_WriteUint16_def UUID_ParseBytes_def)
  show ?thesis unfolding SwitchAccount_Unmarshal_def Let_def d(1) l d(3) host outcome_bind.simps d(4-8) p by (simp add: d(2))
qed

lemma Unmarshal_Marshal:
  assumes "command_ok ipstr cmd"
  shows "\<exists>data. MarshalCommand ipstr (Some (SwitchAccount cmd)) = Inr ([1, word_of_nat (length data)] @ data) \<and> length data < 256 \<and>
     UnmarshalCommand 1 data = Ok (SwitchAccount cmd)"
proof -
  define host where "host = (case cs_Host cmd of None \<Rightarrow> [] | Some a \<Rightarrow> Address_String ipstr a)"
  let ?m = "SwitchAccount_Marshal ipstr cmd"
  have h: "length host \<le> 225" "(host = [] \<and> cs_Host cmd = None) \<or> (host \<noteq> [] \<and> cs_Host cmd \<noteq> None \<and> ParseAddress host = cs_Host cmd)"
    using assms by (auto simp: command_ok_def host_ok_def host_def split: option.splits)
  have m: "?m = [word_of_nat (length host)] @ host @ serial_WriteUint16 (cs_Port cmd) @ cs_ID cmd @ serial_WriteUint16 (cs_AlterIds cmd) @ [ucast (cs_Level cmd)] @ [cs_ValidMin cmd]"
    by (simp add: SwitchAccount_Marshal_def host_def Port_Value_def Let_def)
  have len: "length ?m = length host + 23" using assms by (simp add: m command_ok_def)
  have "ucast (ucast (cs_Level cmd) :: byte) = cs_Level cmd" using assms by (simp add: command_ok_def byte_level)
  then have un: "SwitchAccount_Unmarshal ?m = Ok cmd"
    using SwitchAccount_layout [OF h(1) _ m h(2)] assms by (simp add: command_ok_def)
  let ?data = "be_PutUint32 (Authenticate ?m) @ ?m"
  have "MarshalCommand ipstr (Some (SwitchAccount cmd)) = Inr ([1, word_of_nat (length ?data)] @ ?data)"
    using h(1) len by (simp add: MarshalCommand_def Let_def be_PutUint32_def)
  moreover have "UnmarshalCommand 1 ?data = Ok (SwitchAccount cmd)" using len un by (simp add: UnmarshalCommand_def)
  ultimately show ?thesis using h(1) len by (intro exI [of _ ?data]) simp
qed

section \<open>The history of sessions\<close>

record sessionID =
  si_user :: bytes
  si_key :: bytes
  si_nonce :: bytes

text \<open>The cache maps a session to the time it expires, in nanoseconds. \<open>clock\<close> gives the two readings of
  \<^verbatim>\<open>addIfNotExits\<close>.\<close>

type_synonym SessionHistory = "(sessionID \<times> int) list"

definition NewSessionHistory :: SessionHistory where
  "NewSessionHistory = []"

definition addIfNotExits :: "(nat \<Rightarrow> int) \<Rightarrow> sessionID \<Rightarrow> SessionHistory \<Rightarrow> SessionHistory \<times> bool" where
  "addIfNotExits clock session h =
     (if (case map_of h session of None \<Rightarrow> False | Some expire \<Rightarrow> expire > clock 0) then (h, False)
      else (AList.update session (clock 1 + 3 * 60 * 1000000000) h, True))"

text \<open>\<^verbatim>\<open>removeExpiredEntries\<close>; the error is the end of the periodic task.\<close>

definition removeExpiredEntries :: "int \<Rightarrow> SessionHistory \<Rightarrow> SessionHistory \<times> bool" where
  "removeExpiredEntries now h =
     (if length h = 0 then (h, False) else (filter (\<lambda>(session, expire). \<not> expire < now) h, True))"

datatype history_op = HistoryAdd "nat \<Rightarrow> int" sessionID | HistoryClean int

fun history_run :: "history_op \<Rightarrow> SessionHistory \<Rightarrow> SessionHistory" where
  "history_run (HistoryAdd clock session) h = fst (addIfNotExits clock session h)"
| "history_run (HistoryClean now) h = fst (removeExpiredEntries now h)"

text \<open>The readings of an operation lie between two times.\<close>

fun op_between :: "int \<Rightarrow> int \<Rightarrow> history_op \<Rightarrow> bool" where
  "op_between a b (HistoryAdd clock session) \<longleftrightarrow> a \<le> clock 0 \<and> clock 0 \<le> clock 1 \<and> clock 1 \<le> b"
| "op_between a b (HistoryClean now) \<longleftrightarrow> a \<le> now \<and> now \<le> b"

definition live :: "sessionID \<Rightarrow> int \<Rightarrow> SessionHistory \<Rightarrow> bool" where
  "live session t h \<longleftrightarrow> (\<exists>expire > t. map_of h session = Some expire) \<and> distinct (map fst h)"

lemma map_of_filter_Some:
  "map_of h k = Some v \<Longrightarrow> distinct (map fst h) \<Longrightarrow> P (k, v) \<Longrightarrow> map_of (filter P h) k = Some v"
  by (induction h) (auto split: if_splits simp: map_of_eq_None_iff)

lemma distinct_filter_fst: "distinct (map fst h) \<Longrightarrow> distinct (map fst (filter P h))"
  by (simp add: distinct_map_filter)

lemma live_run: "live session t h \<Longrightarrow> op_between a t op \<Longrightarrow> live session t (history_run op h)"
proof (cases op)
  case (HistoryAdd clock other)
  assume l: "live session t h" and b: "op_between a t op"
  show ?thesis
  proof (cases "snd (addIfNotExits clock other h)")
    case True
    then have ne: "other \<noteq> session" using l b HistoryAdd by (auto simp: addIfNotExits_def live_def split: if_splits)
    have "fst (addIfNotExits clock other h) = AList.update other (clock 1 + 3 * 60 * 1000000000) h" using True by (auto simp: addIfNotExits_def split: if_splits)
    then show ?thesis using l ne HistoryAdd by (auto simp: live_def update_conv' distinct_update)
  qed (use l HistoryAdd in \<open>auto simp: addIfNotExits_def split: if_splits\<close>)
next
  case (HistoryClean now)
  assume l: "live session t h" and b: "op_between a t op"
  then obtain expire where "map_of h session = Some expire" "t < expire" "distinct (map fst h)" by (auto simp: live_def)
  then show ?thesis using b HistoryClean
    by (auto simp: live_def removeExpiredEntries_def distinct_filter_fst intro!: exI [of _ expire] map_of_filter_Some)
qed

lemma live_runs: "live session t h \<Longrightarrow> \<forall>op \<in> set ops. op_between a t op \<Longrightarrow> live session t (fold history_run ops h)"
  by (induction ops arbitrary: h) (auto intro: live_run)

lemma distinct_runs: "distinct (map fst h) \<Longrightarrow> distinct (map fst (fold history_run ops h))"
proof (induction ops arbitrary: h)
  case (Cons op ops)
  have "distinct (map fst (history_run op h))" using Cons.prems
    by (cases op) (auto simp: addIfNotExits_def removeExpiredEntries_def distinct_update distinct_filter_fst)
  then show ?case using Cons.IH by simp
qed simp

text \<open>C36. A session identifier that was taken at some time is refused for the three minutes that follow, whatever other
  sessions are added and however often the history is cleaned in between.\<close>

theorem session_replay_refused:
  assumes "snd (addIfNotExits clock session (fold history_run ops NewSessionHistory))"
    and "h = fst (addIfNotExits clock session (fold history_run ops NewSessionHistory))"
    and "\<forall>op \<in> set ops'. op_between (clock 1) t op" "t < clock 1 + 3 * 60 * 1000000000"
    and "clock' 0 \<le> t"
  shows "addIfNotExits clock' session (fold history_run ops' h) = (fold history_run ops' h, False)"
proof -
  let ?g = "fold history_run ops NewSessionHistory"
  have "h = AList.update session (clock 1 + 3 * 60 * 1000000000) ?g" using assms(1,2) by (auto simp: addIfNotExits_def split: if_splits)
  then have "live session t h" using assms(4) distinct_runs [of NewSessionHistory ops]
    by (auto simp: live_def update_conv' distinct_update NewSessionHistory_def)
  then have "live session t (fold history_run ops' h)" using live_runs assms(3) by blast
  then show ?thesis using assms(5) by (auto simp: addIfNotExits_def live_def)
qed

theorem session_replay_refused_witness:
  "let h = fst (addIfNotExits (\<lambda>_. 5) \<lparr>si_user = [1], si_key = [2], si_nonce = [3]\<rparr> NewSessionHistory) in
   addIfNotExits (\<lambda>_. 7) \<lparr>si_user = [1], si_key = [2], si_nonce = [3]\<rparr> (fst (removeExpiredEntries 6 h)) = (fst (removeExpiredEntries 6 h), False)"
  using session_replay_refused [of "\<lambda>_. 5" "\<lparr>si_user = [1], si_key = [2], si_nonce = [3]\<rparr>" "[]" _ "[HistoryClean 6]" 7 "\<lambda>_. 7"]
  by (simp add: Let_def addIfNotExits_def NewSessionHistory_def)

end
