(* ===== verification/Vmess_Session.thy ===== *)
theory Vmess_Session
  imports Vmess_Header Mux_Frame
begin

text \<open>
  The two ends of a VMess connection: \<^verbatim>\<open>proxy/vmess/encoding/client.go\<close> and \<^verbatim>\<open>server.go\<close>, with the request and response
  headers of \<^verbatim>\<open>common/protocol/headers.go\<close>.

  What a reader will deliver is a list of bytes. \<open>decryptor\<close> is the deciphered header (AEAD), or the deciphered connection
  (legacy), which is then as long as the connection itself. A failed request says whether the connection is drained and
  up to how many bytes. The random numbers are arguments.
\<close>

section \<open>Headers\<close>

datatype SecurityType = SecurityType_UNKNOWN | SecurityType_LEGACY | SecurityType_AUTO | SecurityType_AES128_GCM
  | SecurityType_CHACHA20_POLY1305 | SecurityType_NONE | SecurityType_ZERO

fun security_byte :: "SecurityType \<Rightarrow> byte" where
  "security_byte SecurityType_UNKNOWN = 0"
| "security_byte SecurityType_LEGACY = 1"
| "security_byte SecurityType_AUTO = 2"
| "security_byte SecurityType_AES128_GCM = 3"
| "security_byte SecurityType_CHACHA20_POLY1305 = 4"
| "security_byte SecurityType_NONE = 5"
| "security_byte SecurityType_ZERO = 6"

definition SecurityType_name :: "byte \<Rightarrow> SecurityType option" where
  "SecurityType_name b =
     map_of (map (\<lambda>t. (security_byte t, t)) [SecurityType_UNKNOWN, SecurityType_LEGACY, SecurityType_AUTO, SecurityType_AES128_GCM,
        SecurityType_CHACHA20_POLY1305, SecurityType_NONE, SecurityType_ZERO]) b"

definition RequestCommandTCP :: byte where "RequestCommandTCP = 1"
definition RequestCommandUDP :: byte where "RequestCommandUDP = 2"
definition RequestCommandMux :: byte where "RequestCommandMux = 3"

lemmas command_defs = RequestCommandTCP_def RequestCommandUDP_def RequestCommandMux_def

definition RequestCommand_TransferType :: "byte \<Rightarrow> TransferType" where
  "RequestCommand_TransferType c = (if c = RequestCommandUDP then TransferTypePacket else TransferTypeStream)"

definition RequestOptionChunkStream :: byte where "RequestOptionChunkStream = 1"
definition RequestOptionConnectionReuse :: byte where "RequestOptionConnectionReuse = 2"
definition RequestOptionChunkMasking :: byte where "RequestOptionChunkMasking = 4"
definition RequestOptionGlobalPadding :: byte where "RequestOptionGlobalPadding = 8"
definition RequestOptionAuthenticatedLength :: byte where "RequestOptionAuthenticatedLength = 16"

record RequestHeader =
  rh_Version :: byte
  rh_Command :: byte
  rh_Option :: byte
  rh_Security :: SecurityType
  rh_Port :: Port
  rh_Address :: "Address option"
  rh_User :: vmess_user

definition RequestHeader_Destination :: "RequestHeader \<Rightarrow> Destination" where
  "RequestHeader_Destination h =
     (if rh_Command h = RequestCommandUDP then UDPDestination (rh_Address h) (rh_Port h) else TCPDestination (rh_Address h) (rh_Port h))"

record ResponseHeader =
  rs_Option :: byte
  rs_Command :: "ResponseCommand option"

section \<open>The client\<close>

record ClientSession =
  cl_isAEAD :: bool
  cl_requestBodyKey :: bytes
  cl_requestBodyIV :: bytes
  cl_responseBodyKey :: bytes
  cl_responseBodyIV :: bytes
  cl_responseHeader :: byte
  cl_drain :: int

definition NewClientSession :: "vmess_crypto \<Rightarrow> bool \<Rightarrow> bytes \<Rightarrow> int \<Rightarrow> ClientSession" where
  "NewClientSession C isAEAD randomBytes drain =
     (let key = take 16 randomBytes; iv = take 16 (drop 16 randomBytes) in
      \<lparr>cl_isAEAD = isAEAD, cl_requestBodyKey = key, cl_requestBodyIV = iv,
       cl_responseBodyKey = (if \<not> isAEAD then vc_md5 C key else take 16 (vc_sha256 C key)),
       cl_responseBodyIV = (if \<not> isAEAD then vc_md5 C iv else take 16 (vc_sha256 C iv)),
       cl_responseHeader = randomBytes ! 32, cl_drain = drain\<rparr>)"

definition hashTimestamp :: "(bytes \<Rightarrow> bytes) \<Rightarrow> int \<Rightarrow> bytes" where
  "hashTimestamp h t = h (be_PutUint64 (word_of_int t) @ be_PutUint64 (word_of_int t) @ be_PutUint64 (word_of_int t) @ be_PutUint64 (word_of_int t))"

text \<open>The clock and the random choices of one request.\<close>

record client_env =
  ce_timestamp :: int
  ce_AnyValidID :: bytes
  ce_padding :: bytes
  ce_rnd :: bytes
  ce_now :: int
  ce_nonce :: bytes

definition read_padding :: "Buffer \<Rightarrow> bytes \<Rightarrow> nat \<Rightarrow> Buffer option" where
  "read_padding b rand paddingLen =
     (case Buffer_ReadFullFrom b rand (int paddingLen) of Some (b, _, _, None) \<Rightarrow> Some b | _ \<Rightarrow> None)"

definition header_start :: "client_env \<Rightarrow> bytes \<Rightarrow> ClientSession \<Rightarrow> RequestHeader \<Rightarrow> Buffer option" where
  "header_start R p c header =
     do {
       b \<leftarrow> Must (Buffer_WriteByte (Buffer_New p) 1);
       (b, _) \<leftarrow> Buffer_Write b (cl_requestBodyIV c);
       (b, _) \<leftarrow> Buffer_Write b (cl_requestBodyKey c);
       b \<leftarrow> Must (Buffer_WriteByte b (cl_responseHeader c));
       b \<leftarrow> Must (Buffer_WriteByte b (rh_Option header));
       let security = push_bit 4 (word_of_nat (length (ce_padding R))) OR security_byte (rh_Security header);
       (b, _) \<leftarrow> Buffer_Write b [security, 0, rh_Command header];
       Some b
     }"

definition header_end :: "client_env \<Rightarrow> Buffer \<Rightarrow> bytes option" where
  "header_end R b =
     do {
       b \<leftarrow> if length (ce_padding R) > 0 then read_padding b (ce_padding R) (length (ce_padding R)) else Some b;
       plain \<leftarrow> Buffer_Bytes b;
       (b, w) \<leftarrow> Buffer_Extend b 4;
       Buffer_Bytes (Buffer_fill b w (be_PutUint32 (fnv32a plain)))
     }"

definition header_buffer :: "client_env \<Rightarrow> bytes \<Rightarrow> ClientSession \<Rightarrow> RequestHeader \<Rightarrow> (addr_error, bytes) outcome" where
  "header_buffer R p c header =
     outcome_bind (or_panic (header_start R p c header)) (\<lambda>b.
     if rh_Command header \<noteq> RequestCommandMux
     then
       outcome_bind (or_panic (rh_Address header)) (\<lambda>a.
       let (bs, err) = WriteAddressPort addrParser a (rh_Port header) in
       outcome_bind (or_panic (Buffer_Write b bs)) (\<lambda>(b, _).
       case err of Some e \<Rightarrow> Fail e | None \<Rightarrow> or_panic (header_end R b)))
     else or_panic (header_end R b))"

text \<open>The bytes written, and the error. A legacy header has the hash of the user in front.\<close>

definition Client_EncodeRequestHeader ::
  "vmess_crypto \<Rightarrow> authid_env \<Rightarrow> vmess_env \<Rightarrow> client_env \<Rightarrow> bytes \<Rightarrow> ClientSession \<Rightarrow> RequestHeader \<Rightarrow> (bytes \<times> addr_error option) option" where
  "Client_EncodeRequestHeader C E V R p c header =
     (let idHash = (if \<not> cl_isAEAD c then ve_hasher V (ce_AnyValidID R) (ce_timestamp R) else []) in
      case header_buffer R p c header of
        Panic \<Rightarrow> None
      | Fail e \<Rightarrow> Some (idHash, Some e)
      | Ok plain \<Rightarrow>
          Some (if \<not> cl_isAEAD c
                then (idHash @ vc_encrypt C (vu_CmdKey (rh_User header)) (hashTimestamp (vc_md5 C) (ce_timestamp R)) plain, None)
                else (SealVMessAEADHeader C E (ce_rnd R) (ce_now R) (ce_nonce R) (vu_CmdKey (rh_User header)) plain, None)))"

section \<open>The server\<close>

record ServerSession =
  ss_requestBodyKey :: bytes
  ss_requestBodyIV :: bytes
  ss_responseBodyKey :: bytes
  ss_responseBodyIV :: bytes
  ss_responseHeader :: byte
  ss_isAEADRequest :: bool
  ss_isAEADForced :: bool

definition NewServerSession :: "bool \<Rightarrow> ServerSession" where
  "NewServerSession isAEADForced =
     \<lparr>ss_requestBodyKey = replicate 16 0, ss_requestBodyIV = replicate 16 0, ss_responseBodyKey = replicate 16 0, ss_responseBodyIV = replicate 16 0,
      ss_responseHeader = 0, ss_isAEADRequest = False, ss_isAEADForced = isAEADForced\<rparr>"

definition parseSecurityType :: "byte \<Rightarrow> SecurityType" where
  "parseSecurityType b =
     (case SecurityType_name b of
        Some st \<Rightarrow> if st = SecurityType_UNKNOWN then SecurityType_LEGACY else st
      | None \<Rightarrow> SecurityType_UNKNOWN)"

datatype vmess_error =
    HeaderRead buf_error | AEADReadFailed aead_error | InvalidUser | AEADEnforced | DuplicatedSession | PaddingRead buf_error
  | ChecksumRead buf_error | InvalidAuth | InvalidRemoteAddress | UnknownSecurityType

text \<open>Where a failed \<^verbatim>\<open>ReadAddressPort\<close> leaves the buffer and the reader: every read up to the failure has been done, and a
  read that ran short has used up the reader.\<close>

definition stop_after :: "Buffer \<Rightarrow> bytes \<Rightarrow> int \<Rightarrow> Buffer \<times> bytes" where
  "stop_after b src n = (case Buffer_ReadFullFrom b src n of Some (b, src, _, _) \<Rightarrow> (b, src) | None \<Rightarrow> (b, src))"

definition address_stop :: "Buffer \<Rightarrow> bytes \<Rightarrow> Buffer \<times> bytes" where
  "address_stop b src =
     (let (b, src) = stop_after b src 2; (b1, src1) = stop_after b src 1 in
      if src = [] then (b, src)
      else if hd src = 1 then stop_after b1 src1 4
      else if hd src = 3 then stop_after b1 src1 16
      else if hd src = 2 then
        let (b2, src2) = stop_after b1 src1 1 in if src1 = [] then (b1, src1) else stop_after b2 src2 (uint (hd src1))
      else (b1, src1))"

text \<open>The target named by the request: the error of a failed read is dropped.\<close>

definition request_target :: "byte \<Rightarrow> Buffer \<Rightarrow> bytes \<Rightarrow> ('e, (Address option \<times> Port) \<times> Buffer \<times> bytes) outcome" where
  "request_target command b d =
     (if command = RequestCommandMux then Ok ((Some (DomainAddress (str ''v1.mux.cool'')), 0), b, d)
      else if command = RequestCommandTCP \<or> command = RequestCommandUDP then
        (case ReadAddressPort addrParser b d of
           Panic \<Rightarrow> Panic
         | Ok ((addr, port), b, d) \<Rightarrow> Ok ((addr, port), b, d)
         | Fail _ \<Rightarrow> (let (b, d) = address_stop b d in Ok ((None, 0), b, d)))
      else Ok ((None, 0), b, d))"

text \<open>\<^verbatim>\<open>buffer.ReadFullFrom(decryptor, n)\<close> with the check of the error; a failure keeps the length of the buffer.\<close>

definition read_part :: "(buf_error \<Rightarrow> vmess_error) \<Rightarrow> Buffer \<Rightarrow> bytes \<Rightarrow> int \<Rightarrow> (vmess_error \<times> int, Buffer \<times> bytes) outcome" where
  "read_part f b d n =
     (case Buffer_ReadFullFrom b d n of
        None \<Rightarrow> Panic
      | Some (b, d, _, Some e) \<Rightarrow> Fail (f e, Buffer_Len (Some b))
      | Some (b, d, _, None) \<Rightarrow> Ok (b, d))"

text \<open>The rest of the header behind its first 38 bytes.\<close>

definition request_rest :: "vmess_user \<Rightarrow> Buffer \<Rightarrow> bytes \<Rightarrow> (vmess_error \<times> int, RequestHeader \<times> bytes) outcome" where
  "request_rest user b d =
     outcome_bind (or_panic (Buffer_Byte b 0)) (\<lambda>version.
     outcome_bind (or_panic (Buffer_Byte b 34)) (\<lambda>opt.
     outcome_bind (or_panic (Buffer_Byte b 35)) (\<lambda>sec.
     outcome_bind (or_panic (Buffer_Byte b 37)) (\<lambda>command.
     let paddingLen = uint (drop_bit 4 sec); security = parseSecurityType (sec AND 15) in
     outcome_bind (request_target command b d) (\<lambda>((addr, port), b, d).
     outcome_bind (if paddingLen > 0 then read_part PaddingRead b d paddingLen else Ok (b, d)) (\<lambda>(b, d).
     outcome_bind (read_part ChecksumRead b d 4) (\<lambda>(b, d).
     outcome_bind (or_panic (Buffer_BytesTo b (- 4))) (\<lambda>hashed.
     outcome_bind (or_panic (Buffer_BytesFrom b (- 4))) (\<lambda>tag.
     outcome_bind (or_panic (be_Uint32 tag)) (\<lambda>expectedHash.
     if fnv32a hashed \<noteq> expectedHash then Fail (InvalidAuth, Buffer_Len (Some b))
     else if addr = None then Fail (InvalidRemoteAddress, Buffer_Len (Some b))
     else if security = SecurityType_UNKNOWN \<or> security = SecurityType_AUTO then Fail (UnknownSecurityType, Buffer_Len (Some b))
     else Ok (\<lparr>rh_Version = version, rh_Command = command, rh_Option = opt, rh_Security = security, rh_Port = port, rh_Address = addr, rh_User = user\<rparr>, d)))))))))))"

text \<open>What a failure behind the user's recognition does to a legacy connection: the hash is burnt and, for some errors, the
  connection is drained.\<close>

definition burns :: "vmess_error \<Rightarrow> bool" where
  "burns e \<longleftrightarrow> (case e of DuplicatedSession \<Rightarrow> True | PaddingRead _ \<Rightarrow> True | ChecksumRead _ \<Rightarrow> True | InvalidAuth \<Rightarrow> True | _ \<Rightarrow> False)"

definition drains :: "vmess_error \<Rightarrow> bool" where
  "drains e \<longleftrightarrow> e = DuplicatedSession \<or> e = InvalidAuth"

type_synonym 'p server_state = "'p TimedUserValidator \<times> SessionHistory \<times> ServerSession"
type_synonym 'p decoded = "'p server_state \<times> (vmess_error \<times> int option, RequestHeader \<times> bytes) outcome"

definition refuse :: "bytes \<Rightarrow> int \<Rightarrow> vmess_error \<Rightarrow> int \<Rightarrow> 'p server_state \<Rightarrow> 'p decoded" where
  "refuse authid drain e len st =
     (let (v, h, s) = st in
      if \<not> ss_isAEADRequest s \<and> burns e
      then ((fst (BurnTaintFuse authid v), h, s), Fail (e, if drains e then Some (drain - len) else None))
      else ((v, h, s), Fail (e, None)))"

text \<open>The user is known: the first 38 bytes, the session, then the rest. \<open>after\<close> gives what is left of the connection from
  what is left in the decryptor.\<close>

definition decode_known ::
  "(nat \<Rightarrow> int) \<Rightarrow> bytes \<Rightarrow> int \<Rightarrow> vmess_user \<Rightarrow> Buffer \<Rightarrow> bytes \<Rightarrow> (bytes \<Rightarrow> bytes) \<Rightarrow> 'p server_state \<Rightarrow> 'p decoded" where
  "decode_known clock authid drain user b d after st =
     (let (v, h, s) = st; drain = drain - Buffer_Len (Some b) in
      case read_part HeaderRead (Buffer_Clear b) d 38 of
        Panic \<Rightarrow> (st, Panic)
      | Fail (e, _) \<Rightarrow> (st, Fail (e, None))
      | Ok (b, d) \<Rightarrow>
          (case (Buffer_BytesRange b 1 17, Buffer_BytesRange b 17 33, Buffer_Byte b 33) of
             (Some iv, Some key, Some responseHeader) \<Rightarrow>
               let s = s\<lparr>ss_requestBodyIV := iv, ss_requestBodyKey := key\<rparr>;
                   (h, fresh) = addIfNotExits clock \<lparr>si_user = vu_ID user, si_key = key, si_nonce = iv\<rparr> h in
               if \<not> fresh then refuse authid drain DuplicatedSession (Buffer_Len (Some b)) (v, h, s)
               else
                 let st = (v, h, s\<lparr>ss_responseHeader := responseHeader\<rparr>) in
                 (case request_rest user b d of
                    Panic \<Rightarrow> (st, Panic)
                  | Fail (e, len) \<Rightarrow> refuse authid drain e len st
                  | Ok (request, d) \<Rightarrow> (st, Ok (request, after d)))
           | _ \<Rightarrow> (st, Panic)))"

definition Server_DecodeRequestHeader ::
  "vmess_crypto \<Rightarrow> authid_env \<Rightarrow> 'p pool_impl \<Rightarrow> (nat \<Rightarrow> int) \<Rightarrow> (nat \<Rightarrow> int) \<Rightarrow> u64 \<Rightarrow> (u64 \<Rightarrow> int) \<Rightarrow> bytes \<Rightarrow> 'p server_state \<Rightarrow> bytes \<Rightarrow> 'p decoded" where
  "Server_DecodeRequestHeader C E P clock hclock dice drain_size p st src =
     (let (v, h, s) = st; (v, seed) = GetBehaviorSeed dice v; drain = drain_size seed in
      case Buffer_ReadFullFrom (Buffer_New p) src 16 of
        None \<Rightarrow> ((v, h, s), Panic)
      | Some (b, src, _, Some e) \<Rightarrow> ((v, h, s), Fail (HeaderRead e, None))
      | Some (b, src, _, None) \<Rightarrow>
          (case Buffer_Bytes b of
             None \<Rightarrow> ((v, h, s), Panic)
           | Some authid \<Rightarrow>
               (case Timed_GetAEAD E P clock authid v of
                  None \<Rightarrow> ((v, h, s), Panic)
                | Some (v, Inr user) \<Rightarrow>
                    (case OpenVMessAEADHeader C (vu_CmdKey user) authid src of
                       Panic \<Rightarrow> ((v, h, s), Panic)
                     | Fail (shouldDrain, bytesRead, e) \<Rightarrow>
                         ((v, h, s), Fail (AEADReadFailed e, Some (drain - (if shouldDrain then int bytesRead else 0) - Buffer_Len (Some b))))
                     | Ok (aeadData, src) \<Rightarrow> decode_known hclock authid drain user b aeadData (\<lambda>_. src) (v, h, s\<lparr>ss_isAEADRequest := True\<rparr>))
                | Some (v, Inl AuthNotFound) \<Rightarrow>
                    (case Timed_Get authid v of
                       (v, Inl e) \<Rightarrow> ((v, h, s), Fail (InvalidUser, Some (drain - Buffer_Len (Some b))))
                     | (v, Inr (user, timestamp)) \<Rightarrow>
                         if ss_isAEADForced s then ((v, h, s), Fail (AEADEnforced, Some (drain - Buffer_Len (Some b))))
                         else
                           let (v, _) = ShouldShowLegacyWarn v;
                               d = vc_decrypt C (vu_CmdKey user) (hashTimestamp (vc_md5 C) timestamp) src
                           in decode_known hclock authid drain user b d (\<lambda>d'. drop (length d - length d') src) (v, h, s))
                | Some (v, Inl ErrReplay) \<Rightarrow> ((v, h, s), Fail (InvalidUser, Some (drain - Buffer_Len (Some b)))))))"

section \<open>The plain text of a request\<close>

definition target_bytes :: "RequestHeader \<Rightarrow> bytes" where
  "target_bytes header = (if rh_Command header \<noteq> RequestCommandMux then fst (WriteAddressPort addrParser (the (rh_Address header)) (rh_Port header)) else [])"

definition fixed_bytes :: "client_env \<Rightarrow> ClientSession \<Rightarrow> RequestHeader \<Rightarrow> bytes" where
  "fixed_bytes R c header = [1] @ cl_requestBodyIV c @ cl_requestBodyKey c @ [cl_responseHeader c, rh_Option header,
     push_bit 4 (word_of_nat (length (ce_padding R))) OR security_byte (rh_Security header), 0, rh_Command header]"

definition plain_bytes :: "client_env \<Rightarrow> ClientSession \<Rightarrow> RequestHeader \<Rightarrow> bytes" where
  "plain_bytes R c header =
     (let body = fixed_bytes R c header @ target_bytes header @ ce_padding R in body @ be_PutUint32 (fnv32a body))"

text \<open>What a client sends: a known command with a target the address format carries, and a chosen security type.\<close>

definition request_ok :: "RequestHeader \<Rightarrow> bool" where
  "request_ok header \<longleftrightarrow>
     (rh_Command header = RequestCommandMux \<or>
      (rh_Command header = RequestCommandTCP \<or> rh_Command header = RequestCommandUDP) \<and> (\<exists>a. rh_Address header = Some a \<and> carried a)) \<and>
     rh_Security header \<notin> {SecurityType_UNKNOWN, SecurityType_AUTO}"

definition client_ok :: "client_env \<Rightarrow> ClientSession \<Rightarrow> bool" where
  "client_ok R c \<longleftrightarrow> length (cl_requestBodyIV c) = 16 \<and> length (cl_requestBodyKey c) = 16 \<and> length (ce_padding R) < 16"

lemma length_fixed_bytes: "client_ok R c \<Longrightarrow> length (fixed_bytes R c header) = 38"
  by (simp add: client_ok_def fixed_bytes_def)

lemma length_target_bytes: "request_ok header \<Longrightarrow> length (target_bytes header) \<le> 259"
  using WriteAddressPort_length(1) by (auto simp: request_ok_def target_bytes_def)

lemma holding_New: "length p = 2048 \<Longrightarrow> n \<le> 2048 \<Longrightarrow> holding (Buffer_New p) [] n"
  by (simp add: holding_def Buffer_New_def wf_Buffer_def content_def room_def)

lemma header_start_ok:
  assumes "length p = 2048" and "client_ok R c"
  obtains b where "header_start R p c header = Some b" "holding b (fixed_bytes R c header) 500"
proof -
  let ?IV = "cl_requestBodyIV c" and ?K = "cl_requestBodyKey c"
  let ?s = "[push_bit 4 (word_of_nat (length (ce_padding R))) OR security_byte (rh_Security header), 0, rh_Command header]"
  have b0: "holding (Buffer_New p) [] (Suc (length ?IV + (length ?K + Suc (Suc (length ?s + 500)))))"
    by (rule holding_New) (use assms in \<open>simp_all add: client_ok_def\<close>)
  obtain b1 where b1: "Buffer_WriteByte (Buffer_New p) 1 = Ok b1" and f1: "holding b1 ([] @ [1]) (length ?IV + (length ?K + Suc (Suc (length ?s + 500))))"
    by (rule holding_WriteByte [OF b0])
  obtain b2 where b2: "Buffer_Write b1 ?IV = Some (b2, int (length ?IV))" and f2: "holding b2 (([] @ [1]) @ ?IV) (length ?K + Suc (Suc (length ?s + 500)))"
    by (rule holding_Write [OF f1])
  obtain b3 where b3: "Buffer_Write b2 ?K = Some (b3, int (length ?K))" and f3: "holding b3 ((([] @ [1]) @ ?IV) @ ?K) (Suc (Suc (length ?s + 500)))"
    by (rule holding_Write [OF f2])
  obtain b4 where b4: "Buffer_WriteByte b3 (cl_responseHeader c) = Ok b4"
    and f4: "holding b4 (((([] @ [1]) @ ?IV) @ ?K) @ [cl_responseHeader c]) (Suc (length ?s + 500))"
    by (rule holding_WriteByte [OF f3])
  obtain b5 where b5: "Buffer_WriteByte b4 (rh_Option header) = Ok b5"
    and f5: "holding b5 ((((([] @ [1]) @ ?IV) @ ?K) @ [cl_responseHeader c]) @ [rh_Option header]) (length ?s + 500)"
    by (rule holding_WriteByte [OF f4])
  obtain b6 where b6: "Buffer_Write b5 ?s = Some (b6, int (length ?s))"
    and f6: "holding b6 (((((([] @ [1]) @ ?IV) @ ?K) @ [cl_responseHeader c]) @ [rh_Option header]) @ ?s) 500"
    by (rule holding_Write [OF f5])
  have "header_start R p c header = Some b6" unfolding header_start_def
    by (simp only: Let_def b1 b2 b3 b4 b5 b6 Must_def outcome.case bind.bind_lunit prod.case)
  then show thesis using f6 that by (simp add: fixed_bytes_def)
qed

lemma header_end_ok:
  assumes "holding b xs 100" and "length (ce_padding R) < 16"
  shows "header_end R b = Some (xs @ ce_padding R @ be_PutUint32 (fnv32a (xs @ ce_padding R)))"
proof -
  let ?pad = "ce_padding R" and ?h = "be_PutUint32 (fnv32a (xs @ ce_padding R))"
  have b: "wf_Buffer b" "content b = xs" "100 \<le> room b" using assms(1) by (auto simp: holding_def)
  obtain b1 where b1: "(if length ?pad > 0 then read_padding b ?pad (length ?pad) else Some b) = Some b1" "wf_Buffer b1" "content b1 = xs @ ?pad" "84 \<le> room b1"
  proof (cases "length ?pad > 0")
    case True
    obtain b1 where "Buffer_ReadFullFrom b ?pad (int (length ?pad)) = Some (b1, drop (nat (int (length ?pad))) ?pad, int (min (nat (int (length ?pad))) (length ?pad)),
        if nat (int (length ?pad)) \<le> length ?pad then None else Some (if ?pad = [] then EOF else UnexpectedEOF))"
      "wf_Buffer b1" "content b1 = content b @ take (nat (int (length ?pad))) ?pad" "room b1 = room b - min (nat (int (length ?pad))) (length ?pad)"
      by (rule Buffer_ReadFullFrom_spec [OF b(1), of "int (length ?pad)" ?pad]) (use b(3) assms(2) in auto)
    then show thesis using that True b assms(2) by (simp add: read_padding_def)
  qed (use b that in auto)
  obtain b2 w where b2: "Buffer_Extend b1 (int (length ?h)) = Some (b2, w)" "wf_Buffer (Buffer_fill b2 w ?h)" "content (Buffer_fill b2 w ?h) = content b1 @ ?h"
    by (rule Extend_fill_start [OF b1(2), of ?h]) (use b1(4) in auto)
  then show ?thesis using b1 by (simp add: header_end_def Buffer_Bytes_content)
qed

lemma header_buffer_ok:
  assumes "length p = 2048" and "client_ok R c" and "request_ok header"
  shows "header_buffer R p c header = Ok (plain_bytes R c header)"
proof -
  obtain b where b: "header_start R p c header = Some b" "holding b (fixed_bytes R c header) 500" by (rule header_start_ok [OF assms(1,2)])
  have pad: "length (ce_padding R) < 16" using assms(2) by (simp add: client_ok_def)
  show ?thesis
  proof (cases "rh_Command header = RequestCommandMux")
    case True
    have "holding b (fixed_bytes R c header) 100" using b(2) by (simp add: holding_def)
    then show ?thesis using header_end_ok [OF _ pad] b(1) True by (simp add: header_buffer_def plain_bytes_def target_bytes_def Let_def)
  next
    case False
    then obtain a where a: "rh_Address header = Some a" "carried a" using assms(3) by (auto simp: request_ok_def)
    obtain bs where bs: "WriteAddressPort addrParser a (rh_Port header) = (bs, None)" "length bs \<le> 259" by (rule WriteAddressPort_ok [OF a(2)])
    then have "holding b (fixed_bytes R c header) (length bs + 100)" using b(2) by (simp add: holding_def)
    then obtain b1 where b1: "Buffer_Write b bs = Some (b1, int (length bs))" "holding b1 (fixed_bytes R c header @ bs) 100" by (rule holding_Write)
    show ?thesis using header_end_ok [OF b1(2) pad] b(1) b1(1) bs(1) a(1) False
      by (simp add: header_buffer_def plain_bytes_def target_bytes_def Let_def)
  qed
qed

section \<open>Reading a request\<close>

lemma security_bits:
  assumes "n < 16"
  shows "drop_bit 4 (push_bit 4 (word_of_nat n) OR security_byte t) = (word_of_nat n :: byte)"
    "(push_bit 4 (word_of_nat n) OR security_byte t) AND 15 = security_byte t"
proof -
  have "list_all (\<lambda>n. drop_bit 4 (push_bit 4 (word_of_nat n) OR security_byte t) = (word_of_nat n :: byte) \<and>
      (push_bit 4 (word_of_nat n) OR security_byte t) AND 15 = security_byte t) [0..<16]"
    by (cases t; simp only:; code_simp)
  then show "drop_bit 4 (push_bit 4 (word_of_nat n) OR security_byte t) = (word_of_nat n :: byte)"
    "(push_bit 4 (word_of_nat n) OR security_byte t) AND 15 = security_byte t"
    using assms by (simp_all add: list_all_iff)
qed

lemma parseSecurityType_byte: "t \<noteq> SecurityType_UNKNOWN \<Longrightarrow> parseSecurityType (security_byte t) = t"
  by (cases t) (simp_all add: parseSecurityType_def SecurityType_name_def)

lemma ReadFullFrom_ok:
  assumes "small_buf b" and "length xs \<le> room b"
  obtains b' where "Buffer_ReadFullFrom b (xs @ rest) (int (length xs)) = Some (b', rest, int (length xs), None)" "small_buf b'" "content b' = content b @ xs"
    "room b = room b' + length xs" "length (buf_v b') = length (buf_v b)"
proof -
  have wf: "wf_Buffer b" using assms(1) by (simp add: small_buf_def)
  obtain b' where b': "Buffer_ReadFullFrom b (xs @ rest) (int (length xs)) = Some (b', drop (nat (int (length xs))) (xs @ rest),
      int (min (nat (int (length xs))) (length (xs @ rest))),
      if nat (int (length xs)) \<le> length (xs @ rest) then None else Some (if xs @ rest = [] then EOF else UnexpectedEOF))"
    "wf_Buffer b'" "content b' = content b @ take (nat (int (length xs))) (xs @ rest)" "buf_start b' = buf_start b"
    "room b' = room b - min (nat (int (length xs))) (length (xs @ rest))"
    by (rule Buffer_ReadFullFrom_spec [OF wf, of "int (length xs)" "xs @ rest"]) (use assms(2) in auto)
  have "int (length (buf_v b')) = buf_start b' + int (length (content b')) + int (room b')" "int (length (buf_v b)) = buf_start b + int (length (content b)) + int (room b)"
    using length_content [OF b'(2)] b'(2) length_content [OF wf] wf by (auto simp: room_def wf_Buffer_def)
  then have "length (buf_v b') = length (buf_v b)" using b'(3,4,5) assms(2) by simp
  then show thesis using that [of b'] b' assms by (simp add: small_buf_def)
qed

lemma read_part_ok:
  assumes "small_buf b" and "length xs \<le> room b"
  obtains b' where "read_part f b (xs @ rest) (int (length xs)) = Ok (b', rest)" "small_buf b'" "content b' = content b @ xs" "room b = room b' + length xs"
  by (rule ReadFullFrom_ok [OF assms, of rest]) (use that in \<open>simp add: read_part_def\<close>)

definition decoded_request :: "RequestHeader \<Rightarrow> RequestHeader" where
  "decoded_request header = header\<lparr>rh_Version := 1,
     rh_Address := (if rh_Command header = RequestCommandMux then Some (DomainAddress (str ''v1.mux.cool'')) else rh_Address header),
     rh_Port := (if rh_Command header = RequestCommandMux then 0 else rh_Port header)\<rparr>"

lemma request_target_ok:
  assumes "small_buf b" and "259 \<le> room b" and "request_ok header"
  obtains b' where "request_target (rh_Command header) b (target_bytes header @ rest) = Ok ((rh_Address (decoded_request header), rh_Port (decoded_request header)), b', rest)"
    "small_buf b'" "content b' = content b @ target_bytes header" "room b \<le> room b' + 259"
proof (cases "rh_Command header = RequestCommandMux")
  case True
  then show thesis using that [of b] assms(1) by (simp add: request_target_def target_bytes_def decoded_request_def)
next
  case False
  then obtain a where a: "rh_Address header = Some a" "carried a" "rh_Command header = RequestCommandTCP \<or> rh_Command header = RequestCommandUDP"
    using assms(3) by (auto simp: request_ok_def)
  have wf: "wf_Buffer b" using assms(1) by (simp add: small_buf_def)
  obtain b' where b': "ReadAddressPort addrParser b (target_bytes header @ rest) = Ok ((Some a, rh_Port header), b', rest)"
    using ReadAddressPort_WriteAddressPort [OF wf assms(2) addrParser_knows a(2), of "rh_Port header" rest] a(1) False by (auto simp: target_bytes_def)
  have "moved b (target_bytes header @ rest) b' rest" using ReadAddressPort_moved [OF assms(1) b'] .
  then show thesis using that [of b'] b' a False length_target_bytes [OF assms(3)] by (auto simp: moved_def request_target_def decoded_request_def)
qed

lemma request_rest_ok:
  assumes "small_buf b" and "content b = fixed_bytes R c header" and "400 \<le> room b" and "client_ok R c" and "request_ok header"
    and "d = target_bytes header @ ce_padding R @ be_PutUint32 (fnv32a (fixed_bytes R c header @ target_bytes header @ ce_padding R)) @ rest"
  shows "request_rest (rh_User header) b d = Ok (decoded_request header, rest)"
proof -
  let ?pad = "ce_padding R" and ?F = "fixed_bytes R c header" and ?T = "target_bytes header"
  let ?sec = "push_bit 4 (word_of_nat (length ?pad)) OR security_byte (rh_Security header) :: byte" and ?h = "be_PutUint32 (fnv32a (?F @ ?T @ ?pad))"
  have wf: "wf_Buffer b" using assms(1) by (simp add: small_buf_def)
  have pl: "length ?pad < 16" using assms(4) by (simp add: client_ok_def)
  have fields: "?F ! 0 = 1" "?F ! 34 = rh_Option header" "?F ! 35 = ?sec" "?F ! 37 = rh_Command header"
    using assms(4) by (simp_all add: fixed_bytes_def client_ok_def nth_append nth_Cons')
  have at: "Buffer_Byte b (int i) = Some (?F ! i)" if "i < 38" for i
    using Byte_content [OF wf, of i] that length_fixed_bytes [OF assms(4)] assms(2) by simp
  have bytes: "Buffer_Byte b 0 = Some 1" "Buffer_Byte b 34 = Some (rh_Option header)" "Buffer_Byte b 35 = Some ?sec" "Buffer_Byte b 37 = Some (rh_Command header)"
    using at [of 0] at [of 34] at [of 35] at [of 37] unfolding fields by simp_all
  have plen: "uint (drop_bit 4 ?sec) = int (length ?pad)" unfolding security_bits(1) [OF pl] using pl by (simp add: unsigned_of_nat take_bit_nat_eq_self)
  have sec: "parseSecurityType (?sec AND 15) = rh_Security header"
    using assms(5) unfolding security_bits(2) [OF pl] by (intro parseSecurityType_byte) (auto simp: request_ok_def)
  obtain b1 where b1: "request_target (rh_Command header) b (?T @ ?pad @ ?h @ rest) =
        (Ok ((rh_Address (decoded_request header), rh_Port (decoded_request header)), b1, ?pad @ ?h @ rest) :: (vmess_error \<times> int, _) outcome)"
      "small_buf b1" "content b1 = content b @ ?T" "room b \<le> room b1 + 259"
    by (rule request_target_ok [OF assms(1) _ assms(5), of "?pad @ ?h @ rest"]) (use assms(3) in simp)
  have r1: "length ?pad \<le> room b1" using b1(4) assms(3) pl by linarith
  obtain b2 where b2: "read_part PaddingRead b1 (?pad @ ?h @ rest) (int (length ?pad)) = Ok (b2, ?h @ rest)"
      "small_buf b2" "content b2 = content b1 @ ?pad" "room b1 = room b2 + length ?pad"
    by (rule read_part_ok [OF b1(2) r1])
  define b2' where "b2' = (if ?pad = [] then b1 else b2)"
  have pad: "(if int (length ?pad) > 0 then read_part PaddingRead b1 (?pad @ ?h @ rest) (int (length ?pad)) else Ok (b1, ?pad @ ?h @ rest)) = Ok (b2', ?h @ rest)"
    "small_buf b2'" "content b2' = ?F @ ?T @ ?pad" "length ?h \<le> room b2'"
    using b1 b2 assms(2,3) pl by (auto simp: b2'_def)
  obtain b3 where b3: "read_part ChecksumRead b2' (?h @ rest) (int (length ?h)) = Ok (b3, rest)" "small_buf b3" "content b3 = content b2' @ ?h"
    by (rule read_part_ok [OF pad(2,4)])
  have c3: "content b3 = (?F @ ?T @ ?pad) @ ?h" using b3(3) pad(3) by simp
  have wf3: "wf_Buffer b3" using b3(2) by (simp add: small_buf_def)
  have tail: "Buffer_BytesTo b3 (- 4) = Some (?F @ ?T @ ?pad)" "Buffer_BytesFrom b3 (- 4) = Some ?h"
    using BytesTo_prefix [OF wf3 c3] BytesFrom_suffix [OF wf3 c3, of 4] by (auto simp: be_PutUint32_def)
  have last: "read_part ChecksumRead b2' (?h @ rest) 4 = Ok (b3, rest)" using b3(1) by simp
  have ok: "rh_Address (decoded_request header) \<noteq> None" "rh_Security header \<noteq> SecurityType_UNKNOWN" "rh_Security header \<noteq> SecurityType_AUTO"
    using assms(5) by (auto simp: decoded_request_def request_ok_def)
  have req: "\<lparr>rh_Version = 1, rh_Command = rh_Command header, rh_Option = rh_Option header, rh_Security = rh_Security header,
      rh_Port = rh_Port (decoded_request header), rh_Address = rh_Address (decoded_request header), rh_User = rh_User header\<rparr> = decoded_request header"
    by (cases header) (simp add: decoded_request_def)
  show ?thesis unfolding request_rest_def assms(6) bytes or_panic_simps outcome_bind.simps Let_def plen sec b1(1) prod.case pad(1) last tail be_Uint32_Put_self req
    using ok by simp
qed

definition session_of :: "ClientSession \<Rightarrow> vmess_user \<Rightarrow> sessionID" where
  "session_of c user = \<lparr>si_user = vu_ID user, si_key = cl_requestBodyKey c, si_nonce = cl_requestBodyIV c\<rparr>"

definition agreed :: "ClientSession \<Rightarrow> ServerSession \<Rightarrow> ServerSession" where
  "agreed c s = s\<lparr>ss_requestBodyIV := cl_requestBodyIV c, ss_requestBodyKey := cl_requestBodyKey c, ss_responseHeader := cl_responseHeader c\<rparr>"

lemma decode_known_ok:
  assumes "wf_Buffer b" and "length (buf_v b) = 2048" and "client_ok R c" and "request_ok header" and "d = plain_bytes R c header @ rest"
    and "addIfNotExits clock (session_of c (rh_User header)) h = (h', True)"
  shows "decode_known clock authid drain (rh_User header) b d after (v, h, s) = ((v, h', agreed c s), Ok (decoded_request header, after rest))"
proof -
  let ?F = "fixed_bytes R c header"
  let ?tail = "target_bytes header @ ce_padding R @ be_PutUint32 (fnv32a (?F @ target_bytes header @ ce_padding R)) @ rest"
  have len: "length ?F = 38" using length_fixed_bytes [OF assms(3)] .
  have d: "d = ?F @ ?tail" using assms(5) by (simp add: plain_bytes_def Let_def)
  have clear: "small_buf (Buffer_Clear b)" "length ?F \<le> room (Buffer_Clear b)" "room (Buffer_Clear b) = 2048"
    using assms(1,2) len by (auto simp: small_buf_def Buffer_Clear_def room_def wf_Buffer_def)
  obtain b1 where b1: "read_part HeaderRead (Buffer_Clear b) (?F @ ?tail) (int (length ?F)) = Ok (b1, ?tail)" "small_buf b1"
      "content b1 = content (Buffer_Clear b) @ ?F" "room (Buffer_Clear b) = room b1 + length ?F"
    by (rule read_part_ok [OF clear(1,2)])
  have c1: "content b1 = ?F" "wf_Buffer b1" "400 \<le> room b1" using b1(2,3,4) clear(3) len by (simp_all add: small_buf_def)
  have iv: "Buffer_BytesRange b1 1 17 = Some (cl_requestBodyIV c)"
    using BytesRange_content [OF c1(2), of 1 17] c1(1) len assms(3) by (simp add: fixed_bytes_def client_ok_def)
  have key: "Buffer_BytesRange b1 17 33 = Some (cl_requestBodyKey c)"
    using BytesRange_content [OF c1(2), of 17 33] c1(1) len assms(3) by (simp add: fixed_bytes_def client_ok_def)
  have "?F ! 33 = cl_responseHeader c" using assms(3) by (simp add: fixed_bytes_def client_ok_def nth_append)
  then have rh: "Buffer_Byte b1 33 = Some (cl_responseHeader c)" using Byte_content [OF c1(2), of 33] c1(1) len by simp
  have first: "read_part HeaderRead (Buffer_Clear b) d 38 = Ok (b1, ?tail)" using b1(1) len by (simp add: d)
  have rest: "request_rest (rh_User header) b1 ?tail = Ok (decoded_request header, rest)" by (rule request_rest_ok [OF b1(2) c1(1,3) assms(3,4)]) simp
  show ?thesis unfolding decode_known_def Let_def prod.case first outcome.case iv key rh option.case assms(6) [unfolded session_of_def] rest
    by (simp add: agreed_def)
qed

section \<open>The identifier of a request\<close>

text \<open>What is used of the block cipher: decryption undoes encryption on one block.\<close>

definition authid_ok :: "authid_env \<Rightarrow> bool" where
  "authid_ok E \<longleftrightarrow> (\<forall>key x. length x = 16 \<longrightarrow> ae_Decrypt E key (ae_Encrypt E key x) = x \<and> length (ae_Encrypt E key x) = 16)"

text \<open>A decoder that does not take an identifier for its own: the checksum does not fit.\<close>

definition rejects :: "authid_env \<Rightarrow> bytes \<Rightarrow> bytes \<Rightarrow> bool" where
  "rejects E authid key \<longleftrightarrow> (\<exists>t z r d. AuthIDDecoder_Decode E key authid = Some (t, z, r, d) \<and> z \<noteq> ae_crc32 E (take 12 d))"

lemma Decode_Create:
  assumes "authid_ok E" and "length rnd = 4" and "0 \<le> now" "now < 2 ^ 63"
  shows "length (CreateAuthID E rnd key now) = 16"
    and "\<exists>r d. AuthIDDecoder_Decode E key (CreateAuthID E rnd key now) = Some (now, ae_crc32 E (take 12 d), r, d)"
proof -
  let ?buf = "be_PutUint64 (word_of_int now) @ rnd" and ?z = "ae_crc32 E (be_PutUint64 (word_of_int now) @ rnd)"
  have len: "length (?buf @ be_PutUint32 ?z) = 16" using assms(2) by simp
  show "length (CreateAuthID E rnd key now) = 16" using assms(1) len by (simp add: CreateAuthID_def authid_ok_def Let_def)
  have dec: "ae_Decrypt E (ae_KDF16 E key) (CreateAuthID E rnd key now) = ?buf @ be_PutUint32 ?z" using assms(1) len by (simp add: CreateAuthID_def authid_ok_def Let_def)
  have s: "sint (word_of_int now :: u64) = now" using assms(3,4) by (simp add: signed_of_int signed_take_bit_int_eq_self)
  obtain r where "be_Uint32 (rnd @ be_PutUint32 ?z) = Some r" using be_Uint32_defined [of "rnd @ be_PutUint32 ?z"] by auto
  then have "AuthIDDecoder_Decode E key (CreateAuthID E rnd key now) = Some (now, ?z, r, ?buf @ be_PutUint32 ?z)"
    unfolding AuthIDDecoder_Decode_def dec using assms(2) s by (simp add: Let_def)
  then show "\<exists>r d. AuthIDDecoder_Decode E key (CreateAuthID E rnd key now) = Some (now, ae_crc32 E (take 12 d), r, d)"
    using assms(2) by (intro exI [of _ r] exI [of _ "?buf @ be_PutUint32 ?z"]) simp
qed

lemma Match_created:
  assumes "authid_ok E" "length rnd = 4" "0 \<le> now" "now < 2 ^ 63" "\<bar>now - clock 0\<bar> \<le> 120"
    and "authid = CreateAuthID E rnd key now" and "ReplayFilter_Check P (clock 1) authid f = (f', True)"
    and "(key, u) \<in> set ds" "distinct (map fst ds)" "\<forall>k \<in> fst ` set ds - {key}. rejects E authid k"
  shows "Match_users E P clock 0 authid ds f = Some (f', Inr u)"
  using assms(8-10)
proof (induction ds)
  case (Cons x ds)
  obtain k t where x: "x = (k, t)" by fastforce
  show ?case
  proof (cases "k = key")
    case True
    then have "t = u" using Cons.prems(1,2) x by (force simp: image_iff)
    moreover obtain r d where "AuthIDDecoder_Decode E key authid = Some (now, ae_crc32 E (take 12 d), r, d)"
      using Decode_Create(2) [OF assms(1-4), of key] assms(6) by blast
    ultimately show ?thesis using True assms(3,5,7) x by simp
  next
    case False
    then have "rejects E authid k" using Cons.prems(3) x by auto
    then obtain t' z r d where "AuthIDDecoder_Decode E k authid = Some (t', z, r, d)" "z \<noteq> ae_crc32 E (take 12 d)" by (auto simp: rejects_def)
    moreover have "Match_users E P clock 0 authid ds f = Some (f', Inr u)" using Cons False x by auto
    ultimately show ?thesis using x by simp
  qed
qed simp

section \<open>Requests arrive\<close>

lemma length_plain_bytes: "client_ok R c \<Longrightarrow> request_ok header \<Longrightarrow> length (plain_bytes R c header) < 65520"
  using length_target_bytes [of header] length_fixed_bytes [of R c header] by (simp add: plain_bytes_def client_ok_def Let_def)

lemma read_authid:
  assumes "length q = 2048" and "length authid = 16"
  obtains b where "Buffer_ReadFullFrom (Buffer_New q) (authid @ rest) 16 = Some (b, rest, 16, None)" "Buffer_Bytes b = Some authid" "wf_Buffer b"
    "length (buf_v b) = 2048"
proof -
  have n: "small_buf (Buffer_New q)" "length authid \<le> room (Buffer_New q)" "content (Buffer_New q) = []" "length (buf_v (Buffer_New q)) = 2048"
    using assms by (auto simp: small_buf_def Buffer_New_def wf_Buffer_def room_def content_def)
  show thesis by (rule ReadFullFrom_ok [OF n(1,2), of rest]) (use n(3,4) assms(2) that in \<open>auto simp: Buffer_Bytes_content small_buf_def\<close>)
qed

lemma GetBehaviorSeed_keeps:
  "tv_holder (fst (GetBehaviorSeed dice v)) = tv_holder v" "tv_userHash (fst (GetBehaviorSeed dice v)) = tv_userHash v" "tv_baseTime (fst (GetBehaviorSeed dice v)) = tv_baseTime v"
  by (simp_all add: GetBehaviorSeed_def Let_def)

text \<open>C29. A VMess request arrives. When the server knows the user, no other user's key fits the identifier by accident, the clocks differ by
  at most two minutes, the replay filter has not seen the identifier and the history not the session, then decoding what the client wrote gives the server the
  request the client encoded (command, options, security, target and user), leaves the bytes behind the header in the
  connection, and leaves both ends with the same body key, body IV and response byte.\<close>

theorem vmess_request_roundtrip:
  assumes "crypto_ok C" "authid_ok E" "length p = 2048" "length q = 2048" "client_ok R c" "request_ok header" "cl_isAEAD c"
    and "length (ce_rnd R) = 4" "length (ce_nonce R) = 8" "0 \<le> ce_now R" "ce_now R < 2 ^ 63" "\<bar>ce_now R - clock 0\<bar> \<le> 120"
    and "authid = CreateAuthID E (ce_rnd R) (vu_CmdKey (rh_User header)) (ce_now R)"
    and "(vu_CmdKey (rh_User header), rh_User header) \<in> set (ah_decoders (tv_holder v))" "distinct (map fst (ah_decoders (tv_holder v)))"
    and "\<forall>k \<in> fst ` set (ah_decoders (tv_holder v)) - {vu_CmdKey (rh_User header)}. rejects E authid k"
    and "ReplayFilter_Check P (clock 1) authid (ah_filter (tv_holder v)) = (f, True)"
    and "addIfNotExits hclock (session_of c (rh_User header)) h = (h', True)"
  shows "\<exists>out v'. Client_EncodeRequestHeader C E V R p c header = Some (out, None) \<and>
     Server_DecodeRequestHeader C E P clock hclock dice drain q (v, h, s) (out @ rest) =
       ((v', h', agreed c (s\<lparr>ss_isAEADRequest := True\<rparr>)), Ok (decoded_request header, rest))"
proof -
  let ?u = "rh_User header" and ?plain = "plain_bytes R c header" and ?v = "fst (GetBehaviorSeed dice v)"
  obtain sealed where sealed: "SealVMessAEADHeader C E (ce_rnd R) (ce_now R) (ce_nonce R) (vu_CmdKey ?u) ?plain = authid @ sealed"
      "OpenVMessAEADHeader C (vu_CmdKey ?u) authid (sealed @ rest) = Ok (?plain, rest)"
    using OpenHeader_SealHeader [OF assms(1) length_plain_bytes [OF assms(5,6)] assms(9)] unfolding assms(13) by blast
  have enc: "Client_EncodeRequestHeader C E V R p c header = Some (authid @ sealed, None)"
    using header_buffer_ok [OF assms(3,5,6)] sealed(1) assms(7) by (simp add: Client_EncodeRequestHeader_def Let_def)
  have "length authid = 16" unfolding assms(13) by (rule Decode_Create(1) [OF assms(2,8,10,11)])
  then obtain b where b: "Buffer_ReadFullFrom (Buffer_New q) (authid @ sealed @ rest) 16 = Some (b, sealed @ rest, 16, None)" "Buffer_Bytes b = Some authid" "wf_Buffer b"
      "length (buf_v b) = 2048" by (rule read_authid [OF assms(4)])
  have "Match_users E P clock 0 authid (ah_decoders (tv_holder ?v)) (ah_filter (tv_holder ?v)) = Some (f, Inr ?u)"
    unfolding GetBehaviorSeed_keeps by (rule Match_created [OF assms(2,8,10,11,12,13,17,14,15,16)])
  then obtain v' where aead: "Timed_GetAEAD E P clock authid ?v = Some (v', Inr ?u)" by (auto simp: Timed_GetAEAD_def Holder_Match_def)
  have "decode_known hclock authid D ?u b ?plain (\<lambda>_. rest) (v', h, s\<lparr>ss_isAEADRequest := True\<rparr>) =
      ((v', h', agreed c (s\<lparr>ss_isAEADRequest := True\<rparr>)), Ok (decoded_request header, rest))" for D
    using decode_known_ok [OF b(3,4) assms(5,6) _ assms(18), where d = ?plain and rest = "[]" and after = "\<lambda>_. rest" and authid = authid and drain = D and
      v = v' and s = "s\<lparr>ss_isAEADRequest := True\<rparr>"] by simp
  then have "Server_DecodeRequestHeader C E P clock hclock dice drain q (v, h, s) ((authid @ sealed) @ rest) =
      ((v', h', agreed c (s\<lparr>ss_isAEADRequest := True\<rparr>)), Ok (decoded_request header, rest))"
    unfolding Server_DecodeRequestHeader_def using b aead sealed(2) by (simp add: Let_def case_prod_beta)
  then show ?thesis using enc by blast
qed

text \<open>The same for a legacy request: the hash of the user and the second stands in front of a header that is enciphered with the
  connection.\<close>

lemma Match_none: "\<forall>k \<in> fst ` set ds. rejects E authid k \<Longrightarrow> Match_users E P clock 0 authid ds f = Some (f, Inl AuthNotFound)"
proof (induction ds)
  case (Cons x ds)
  obtain k t where x: "x = (k, t)" by fastforce
  then obtain t' z r d where "AuthIDDecoder_Decode E k authid = Some (t', z, r, d)" "z \<noteq> ae_crc32 E (take 12 d)" using Cons.prems by (auto simp: rejects_def)
  then show ?case using Cons x by simp
qed simp

lemma legacy_request_roundtrip:
  assumes "crypto_ok C" "length p = 2048" "length q = 2048" "client_ok R c" "request_ok header" "\<not> cl_isAEAD c" "\<not> ss_isAEADForced s"
    and "hash = ve_hasher V (ce_AnyValidID R) (ce_timestamp R)" "length hash = 16" "\<forall>k \<in> fst ` set (ah_decoders (tv_holder v)). rejects E hash k"
    and "map_of (tv_userHash v) hash = Some \<lparr>it_user = rh_User header, it_timeInc = inc, it_tainted = False\<rparr>" "uint inc + tv_baseTime v = ce_timestamp R"
    and "addIfNotExits hclock (session_of c (rh_User header)) h = (h', True)"
  shows "\<exists>out v'. Client_EncodeRequestHeader C E V R p c header = Some (out, None) \<and>
     Server_DecodeRequestHeader C E P clock hclock dice drain q (v, h, s) (out @ rest) = ((v', h', agreed c s), Ok (decoded_request header, rest))"
proof -
  let ?u = "rh_User header" and ?plain = "plain_bytes R c header" and ?v = "fst (GetBehaviorSeed dice v)"
  let ?iv = "hashTimestamp (vc_md5 C) (ce_timestamp R)"
  let ?enc = "vc_encrypt C (vu_CmdKey ?u) ?iv ?plain"
  have enc: "Client_EncodeRequestHeader C E V R p c header = Some (hash @ ?enc, None)"
    using header_buffer_ok [OF assms(2,4,5)] assms(6,8) by (simp add: Client_EncodeRequestHeader_def Let_def)
  obtain b where b: "Buffer_ReadFullFrom (Buffer_New q) (hash @ ?enc @ rest) 16 = Some (b, ?enc @ rest, 16, None)" "Buffer_Bytes b = Some hash" "wf_Buffer b"
      "length (buf_v b) = 2048" by (rule read_authid [OF assms(3,9)])
  have none: "Timed_GetAEAD E P clock hash ?v = Some (?v, Inl AuthNotFound)"
    using Match_none [OF assms(10), of P clock "ah_filter (tv_holder v)"] by (simp add: Timed_GetAEAD_def Holder_Match_def GetBehaviorSeed_keeps)
  have get: "snd (Timed_Get hash ?v) = Inr (?u, ce_timestamp R)"
    using assms(11,12) by (simp add: Timed_Get_def Let_def GetBehaviorSeed_keeps)
  obtain tail where dec: "vc_decrypt C (vu_CmdKey ?u) ?iv (?enc @ rest) = ?plain @ tail" "length tail = length rest"
    using assms(1) unfolding crypto_ok_def by blast
  have len: "length ?enc = length ?plain" using assms(1) by (simp add: crypto_ok_def)
  define v' where "v' = fst (ShouldShowLegacyWarn (fst (Timed_Get hash ?v)))"
  have "decode_known hclock hash D ?u b (?plain @ tail) (\<lambda>d'. drop (length (?plain @ tail) - length d') (?enc @ rest)) (v', h, s) =
      ((v', h', agreed c s), Ok (decoded_request header, rest))" for D
    using decode_known_ok [OF b(3,4) assms(4,5) refl assms(13), where after = "\<lambda>d'. drop (length (?plain @ tail) - length d') (?enc @ rest)" and authid = hash and
      drain = D and v = v' and s = s and rest = tail] len by simp
  then have "Server_DecodeRequestHeader C E P clock hclock dice drain q (v, h, s) ((hash @ ?enc) @ rest) =
      ((v', h', agreed c s), Ok (decoded_request header, rest))"
    unfolding Server_DecodeRequestHeader_def using b none get dec(1) assms(7)
    by (cases "Timed_Get hash ?v") (simp add: Let_def case_prod_beta v'_def)
  then show ?thesis using enc by blast
qed

text \<open>A concrete run: primitives that leave the text alone, one user, empty filter and history.\<close>

definition clear_crypto :: vmess_crypto where
  "clear_crypto = \<lparr>vc_md5 = (\<lambda>x. x), vc_sha256 = (\<lambda>x. x), vc_hmac = (\<lambda>h v x. x), vc_Seal = (\<lambda>key nonce plain ad. plain @ replicate 16 0),
     vc_Open = (\<lambda>key nonce x ad. if length x < 16 then None else Some (take (length x - 16) x)), vc_encrypt = (\<lambda>key iv x. x), vc_decrypt = (\<lambda>key iv x. x)\<rparr>"

lemma clear_crypto_ok: "crypto_ok clear_crypto"
  by (simp add: crypto_ok_def clear_crypto_def)

lemma plain_env_ok: "authid_ok plain_env"
  by (simp add: authid_ok_def plain_env_def)

definition sample_choices :: client_env where
  "sample_choices = \<lparr>ce_timestamp = 1000, ce_AnyValidID = [1], ce_padding = [9, 9, 9], ce_rnd = [0, 0, 0, 0], ce_now = 1000, ce_nonce = replicate 8 5\<rparr>"

definition sample_client :: "bool \<Rightarrow> ClientSession" where
  "sample_client isAEAD = NewClientSession clear_crypto isAEAD (replicate 16 1 @ replicate 16 2 @ [3]) 0"

definition sample_request :: RequestHeader where
  "sample_request = \<lparr>rh_Version = 1, rh_Command = RequestCommandTCP, rh_Option = 5, rh_Security = SecurityType_AES128_GCM, rh_Port = 443,
     rh_Address = Some (ipv4Address [10, 0, 0, 1]), rh_User = sample_user\<rparr>"

definition sample_validator :: "bytes list TimedUserValidator" where
  "sample_validator = (NewTimedUserValidator [] 1000)\<lparr>tv_holder := Holder_AddUser [2] sample_user (NewAuthIDDecoderHolder [])\<rparr>"

lemma sample_choices_ok: "client_ok sample_choices (sample_client isAEAD)" "request_ok sample_request"
  by (simp_all add: client_ok_def sample_choices_def sample_client_def NewClientSession_def request_ok_def sample_request_def Let_def)

theorem vmess_request_roundtrip_witness:
  "\<exists>out v' h'. Client_EncodeRequestHeader clear_crypto plain_env sample_venv sample_choices (replicate 2048 0) (sample_client True) sample_request = Some (out, None) \<and>
     Server_DecodeRequestHeader clear_crypto plain_env list_pool (\<lambda>_. 1010) (\<lambda>_. 1010) 0 (\<lambda>_. 0) (replicate 2048 0)
       (sample_validator, NewSessionHistory, NewServerSession True) (out @ [7]) =
       ((v', h', agreed (sample_client True) ((NewServerSession True)\<lparr>ss_isAEADRequest := True\<rparr>)), Ok (decoded_request sample_request, [7]))"
proof -
  let ?id = "CreateAuthID plain_env (ce_rnd sample_choices) (vu_CmdKey (rh_User sample_request)) (ce_now sample_choices)"
  let ?v = "sample_validator"
  have ds: "ah_decoders (tv_holder ?v) = [(vu_CmdKey (rh_User sample_request), rh_User sample_request)]"
    by (simp add: sample_validator_def Holder_AddUser_def NewAuthIDDecoderHolder_def sample_request_def sample_user_def)
  have "snd (ReplayFilter_Check list_pool 1010 ?id (ah_filter (tv_holder ?v)))" by code_simp
  then have f: "ReplayFilter_Check list_pool ((\<lambda>_. 1010) 1) ?id (ah_filter (tv_holder ?v)) = (fst (ReplayFilter_Check list_pool 1010 ?id (ah_filter (tv_holder ?v))), True)"
    by (metis prod.collapse)
  have h: "addIfNotExits (\<lambda>_. 1010) (session_of (sample_client True) (rh_User sample_request)) NewSessionHistory =
      (fst (addIfNotExits (\<lambda>_. 1010) (session_of (sample_client True) (rh_User sample_request)) NewSessionHistory), True)"
    by (simp add: addIfNotExits_def NewSessionHistory_def)
  have a: "cl_isAEAD (sample_client True)" "length (ce_rnd sample_choices) = 4" "length (ce_nonce sample_choices) = 8" "0 \<le> ce_now sample_choices"
      "ce_now sample_choices < 2 ^ 63" "\<bar>ce_now sample_choices - (\<lambda>_. 1010) (0 :: nat)\<bar> \<le> 120"
    by (simp_all add: sample_client_def NewClientSession_def sample_choices_def Let_def)
  show ?thesis
    using vmess_request_roundtrip [OF clear_crypto_ok plain_env_ok _ _ sample_choices_ok a refl _ _ _ f h, of "replicate 2048 0" "replicate 2048 0" sample_venv 0 "\<lambda>_. 0" "NewServerSession True" "[7]"]
    by (simp add: ds) blast
qed

end
