(* ===== verification/Vmess_Body.thy ===== *)
theory Vmess_Body
  imports Vmess_Session
begin

text \<open>
  The way back of a VMess connection and the bodies: response headers (\<^verbatim>\<open>EncodeResponseHeader\<close>, \<^verbatim>\<open>DecodeResponseHeader\<close>) and the codec
  each end chooses for the two directions, in \<^verbatim>\<open>proxy/vmess/encoding/client.go\<close> and \<^verbatim>\<open>server.go\<close>.
\<close>

section \<open>Response headers\<close>

definition response_keys :: "vmess_crypto \<Rightarrow> ServerSession \<Rightarrow> ServerSession" where
  "response_keys C s =
     (if \<not> ss_isAEADRequest s
      then s\<lparr>ss_responseBodyKey := vc_md5 C (ss_requestBodyKey s), ss_responseBodyIV := vc_md5 C (ss_requestBodyIV s)\<rparr>
      else s\<lparr>ss_responseBodyKey := take 16 (vc_sha256 C (ss_requestBodyKey s)), ss_responseBodyIV := take 16 (vc_sha256 C (ss_requestBodyIV s))\<rparr>)"

definition Server_EncodeResponseHeader ::
  "vmess_crypto \<Rightarrow> (bytes \<Rightarrow> bytes) \<Rightarrow> ResponseHeader \<Rightarrow> ServerSession \<Rightarrow> ServerSession \<times> bytes" where
  "Server_EncodeResponseHeader C ipstr header s =
     (let s = response_keys C s; key = ss_responseBodyKey s; iv = ss_responseBodyIV s;
          plain = [ss_responseHeader s, rs_Option header] @ (case MarshalCommand ipstr (rs_Command header) of Inr command \<Rightarrow> command | Inl _ \<Rightarrow> [0, 0])
      in (s, if \<not> ss_isAEADRequest s then vc_encrypt C key iv plain
             else
               vc_Seal C (KDF16 C key [str ''AEAD Resp Header Len Key'']) (take 12 (KDF C iv [str ''AEAD Resp Header Len IV''])) (be_PutUint16 (word_of_nat (length plain))) [] @
               vc_Seal C (KDF16 C key [str ''AEAD Resp Header Key'']) (take 12 (KDF C iv [str ''AEAD Resp Header IV''])) plain []))"

datatype response_error = HeaderLenRead buf_error | LengthOpen | HeaderDataRead buf_error | PayloadOpen | ResponseRead buf_error | UnexpectedHeader | CommandRead buf_error

text \<open>The four bytes, and the command when there is one; a command that cannot be understood is dropped.\<close>

definition response_fields :: "bytes \<Rightarrow> ClientSession \<Rightarrow> bytes \<Rightarrow> (response_error \<times> int option, ResponseHeader \<times> bytes) outcome" where
  "response_fields p c d =
     (let read = (\<lambda>f b d n. case Buffer_ReadFullFrom b d n of
                None \<Rightarrow> Panic
              | Some (b, d, _, Some e) \<Rightarrow> Fail (f e, None)
              | Some (b, d, _, None) \<Rightarrow> Ok (b, d)) in
      outcome_bind (read ResponseRead (Buffer_StackNew p) d 4) (\<lambda>(b, d).
      outcome_bind (or_panic (Buffer_Byte b 0)) (\<lambda>first.
      if first \<noteq> cl_responseHeader c then Fail (UnexpectedHeader, None)
      else
      outcome_bind (or_panic (Buffer_Byte b 1)) (\<lambda>opt.
      outcome_bind (or_panic (Buffer_Byte b 2)) (\<lambda>cmdID.
      outcome_bind (or_panic (Buffer_Byte b 3)) (\<lambda>dataLen.
      if cmdID = 0 then Ok (\<lparr>rs_Option = opt, rs_Command = None\<rparr>, d)
      else
      outcome_bind (read CommandRead (Buffer_Clear b) d (uint dataLen)) (\<lambda>(b, d).
      outcome_bind (or_panic (Buffer_Bytes b)) (\<lambda>data.
      case UnmarshalCommand cmdID data of
        Panic \<Rightarrow> Panic
      | Fail _ \<Rightarrow> Ok (\<lparr>rs_Option = opt, rs_Command = None\<rparr>, d)
      | Ok command \<Rightarrow> Ok (\<lparr>rs_Option = opt, rs_Command = Some command\<rparr>, d)))))))))"

text \<open>The result is the header and what is left of the connection. A failure may drain up to so many bytes.\<close>

definition Client_DecodeResponseHeader ::
  "vmess_crypto \<Rightarrow> bytes \<Rightarrow> ClientSession \<Rightarrow> bytes \<Rightarrow> (response_error \<times> int option, ResponseHeader \<times> bytes) outcome" where
  "Client_DecodeResponseHeader C p c src =
     (let key = cl_responseBodyKey c; iv = cl_responseBodyIV c in
      if \<not> cl_isAEAD c then
        let d = vc_decrypt C key iv src in
        outcome_bind (response_fields p c d) (\<lambda>(header, d'). Ok (header, drop (length d - length d') src))
      else
        (case io_ReadFull src 18 of
           (lenBytes, src, Some e) \<Rightarrow> Fail (HeaderLenRead e, Some (cl_drain c - int (length lenBytes)))
         | (lenBytes, src, None) \<Rightarrow>
        (case vc_Open C (KDF16 C key [str ''AEAD Resp Header Len Key'']) (take 12 (KDF C iv [str ''AEAD Resp Header Len IV''])) lenBytes [] of
           None \<Rightarrow> Fail (LengthOpen, Some (cl_drain c - 18))
         | Some l \<Rightarrow>
        outcome_bind (or_panic (be_Uint16 l)) (\<lambda>len.
        case io_ReadFull src (unat len + 16) of
           (payload, src, Some e) \<Rightarrow> Fail (HeaderDataRead e, Some (cl_drain c - 18 - int (length payload)))
         | (payload, src, None) \<Rightarrow>
        (case vc_Open C (KDF16 C key [str ''AEAD Resp Header Key'']) (take 12 (KDF C iv [str ''AEAD Resp Header IV''])) payload [] of
           None \<Rightarrow> Fail (PayloadOpen, Some (cl_drain c - 18 - int (length payload)))
         | Some d \<Rightarrow> outcome_bind (response_fields p c d) (\<lambda>(header, _). Ok (header, src)))))))"

text \<open>A response that arrives: no command, or one whose text form survives.\<close>

definition response_ok :: "(bytes \<Rightarrow> bytes) \<Rightarrow> ResponseHeader \<Rightarrow> bool" where
  "response_ok ipstr header \<longleftrightarrow> (rs_Command header = None \<or> (\<exists>cmd. rs_Command header = Some (SwitchAccount cmd) \<and> command_ok ipstr cmd))"

text \<open>The server holds what it learnt from this client's request.\<close>

definition paired :: "vmess_crypto \<Rightarrow> ClientSession \<Rightarrow> ServerSession \<Rightarrow> bool" where
  "paired C c s \<longleftrightarrow> ss_requestBodyKey s = cl_requestBodyKey c \<and> ss_requestBodyIV s = cl_requestBodyIV c \<and> ss_responseHeader s = cl_responseHeader c \<and>
     ss_isAEADRequest s = cl_isAEAD c \<and> cl_responseBodyKey c = (if \<not> cl_isAEAD c then vc_md5 C (cl_requestBodyKey c) else take 16 (vc_sha256 C (cl_requestBodyKey c))) \<and>
     cl_responseBodyIV c = (if \<not> cl_isAEAD c then vc_md5 C (cl_requestBodyIV c) else take 16 (vc_sha256 C (cl_requestBodyIV c)))"

lemma read_StackNew:
  assumes "length p = 2048" and "length xs \<le> 2048"
  obtains b where "Buffer_ReadFullFrom (Buffer_StackNew p) (xs @ rest) (int (length xs)) = Some (b, rest, int (length xs), None)" "small_buf b" "content b = xs"
    "length (buf_v b) = 2048"
proof -
  have n: "small_buf (Buffer_StackNew p)" "length xs \<le> room (Buffer_StackNew p)" "content (Buffer_StackNew p) = []" "length (buf_v (Buffer_StackNew p)) = 2048"
    using assms by (auto simp: small_buf_def Buffer_StackNew_def wf_Buffer_def room_def content_def)
  show thesis by (rule ReadFullFrom_ok [OF n(1,2), of rest]) (use n(3,4) that in auto)
qed

definition response_plain :: "(bytes \<Rightarrow> bytes) \<Rightarrow> ResponseHeader \<Rightarrow> byte \<Rightarrow> bytes" where
  "response_plain ipstr header first =
     [first, rs_Option header] @ (case MarshalCommand ipstr (rs_Command header) of Inr command \<Rightarrow> command | Inl _ \<Rightarrow> [0, 0])"

lemma command_block:
  assumes "response_ok ipstr header"
  obtains (none) "response_plain ipstr header first = [first, rs_Option header, 0, 0]" "rs_Command header = None"
    | (some) data where "response_plain ipstr header first = [first, rs_Option header, 1, word_of_nat (length data)] @ data" "length data < 256"
        "UnmarshalCommand 1 data = Ok (the (rs_Command header))" "rs_Command header \<noteq> None"
proof (cases "rs_Command header")
  case None
  then show thesis using none by (simp add: response_plain_def MarshalCommand_def)
next
  case (Some command)
  then obtain cmd where cmd: "rs_Command header = Some (SwitchAccount cmd)" "command_ok ipstr cmd" using assms by (auto simp: response_ok_def)
  then obtain data where "MarshalCommand ipstr (Some (SwitchAccount cmd)) = Inr ([1, word_of_nat (length data)] @ data)" "length data < 256"
      "UnmarshalCommand 1 data = Ok (SwitchAccount cmd)" using Unmarshal_Marshal by blast
  then show thesis using some [of data] cmd(1) by (simp add: response_plain_def)
qed

lemma length_response_plain: "response_ok ipstr header \<Longrightarrow> length (response_plain ipstr header first) < 300"
  by (erule command_block [of ipstr header first]) auto

lemma response_fields_ok:
  assumes "length p = 2048" and "response_ok ipstr header"
  shows "response_fields p c (response_plain ipstr header (cl_responseHeader c) @ rest) = Ok (header, rest)"
proof (rule command_block [OF assms(2), of "cl_responseHeader c"])
  let ?four = "\<lambda>x y. [cl_responseHeader c, rs_Option header, x, y]"
  have at: "Buffer_Byte b (int i) = Some (content b ! i)" if "small_buf b" "i < length (content b)" for b i
    using Byte_content that by (simp add: small_buf_def)
  have four: "\<exists>b. Buffer_ReadFullFrom (Buffer_StackNew p) (?four x y @ tail) 4 = Some (b, tail, 4, None) \<and> small_buf b \<and> length (buf_v b) = 2048 \<and>
      Buffer_Byte b 0 = Some (cl_responseHeader c) \<and> Buffer_Byte b 1 = Some (rs_Option header) \<and> Buffer_Byte b 2 = Some x \<and> Buffer_Byte b 3 = Some y" for x y tail
  proof -
    obtain b where b: "Buffer_ReadFullFrom (Buffer_StackNew p) (?four x y @ tail) (int (length (?four x y))) = Some (b, tail, int (length (?four x y)), None)" "small_buf b"
        "content b = ?four x y" "length (buf_v b) = 2048" by (rule read_StackNew [OF assms(1), of "?four x y" tail]) simp_all
    then show ?thesis using at [OF b(2), of 0] at [OF b(2), of 1] at [OF b(2), of 2] at [OF b(2), of 3] by (intro exI [of _ b]) simp
  qed
  show ?thesis if "response_plain ipstr header (cl_responseHeader c) = ?four 0 0" "rs_Command header = None"
  proof -
    obtain b where "Buffer_ReadFullFrom (Buffer_StackNew p) (?four 0 0 @ rest) 4 = Some (b, rest, 4, None)" "Buffer_Byte b 0 = Some (cl_responseHeader c)"
        "Buffer_Byte b 1 = Some (rs_Option header)" "Buffer_Byte b 2 = Some 0" "Buffer_Byte b 3 = Some 0" using four [of 0 0 rest] by blast
    then show ?thesis unfolding response_fields_def that(1) using that(2) by (cases header) (simp add: Let_def)
  qed
  show ?thesis if d: "response_plain ipstr header (cl_responseHeader c) = ?four 1 (word_of_nat (length data)) @ data" "length data < 256"
      "UnmarshalCommand 1 data = Ok (the (rs_Command header))" "rs_Command header \<noteq> None" for data
  proof -
    obtain b where b: "Buffer_ReadFullFrom (Buffer_StackNew p) (?four 1 (word_of_nat (length data)) @ data @ rest) 4 = Some (b, data @ rest, 4, None)" "small_buf b"
        "length (buf_v b) = 2048" "Buffer_Byte b 0 = Some (cl_responseHeader c)" "Buffer_Byte b 1 = Some (rs_Option header)" "Buffer_Byte b 2 = Some 1"
        "Buffer_Byte b 3 = Some (word_of_nat (length data))" using four [of 1 "word_of_nat (length data)" "data @ rest"] by blast
    have u: "uint (word_of_nat (length data) :: byte) = int (length data)" using d(2) by (simp add: unsigned_of_nat take_bit_nat_eq_self)
    have clear: "small_buf (Buffer_Clear b)" "length data \<le> room (Buffer_Clear b)" "content (Buffer_Clear b) = []"
      using b(2,3) d(2) by (auto simp: small_buf_def Buffer_Clear_def room_def wf_Buffer_def content_def)
    obtain b2 where b2: "read_part HeaderRead (Buffer_Clear b) (data @ rest) (int (length data)) = Ok (b2, rest)" "small_buf b2" "content b2 = content (Buffer_Clear b) @ data"
      by (rule read_part_ok [OF clear(1,2)])
    then obtain cnt where r2: "Buffer_ReadFullFrom (Buffer_Clear b) (data @ rest) (int (length data)) = Some (b2, rest, cnt, None)"
      by (auto simp: read_part_def split: option.splits)
    have bytes: "Buffer_Bytes b2 = Some data" using b2(2,3) clear(3) by (simp add: small_buf_def Buffer_Bytes_content)
    show ?thesis unfolding response_fields_def d(1) using b r2 bytes u d(3,4) by (cases header) (auto simp: Let_def)
  qed
qed


lemma agreed_paired: "cl_isAEAD c = ss_isAEADRequest s \<Longrightarrow> c = NewClientSession C isAEAD rnd drain \<Longrightarrow> paired C c (agreed c s)"
  by (simp add: paired_def agreed_def NewClientSession_def Let_def)


section \<open>The codec of a body\<close>

text \<open>What a body writer or reader is made of: how sizes are written, which authenticator seals a chunk, where padding lengths come from, and the
  stream cipher below. A masked size parser, with its stream of masks, is given by its seed; a nonce sequence by the bytes it starts from.\<close>

datatype body_cipher = AesGcm bytes | Chacha20Poly1305 bytes

datatype size_choice = PlainSize | ShakeSize bytes | AEADSize body_cipher bytes

datatype auth_choice = NoOpAuth | FnvAuth | CipherAuth body_cipher bytes

text \<open>\<open>BelowCFB\<close> is a new stream on the connection, \<open>BelowResponse\<close> the cipher stream that was set up with the response header.\<close>

datatype below = BelowConnection | BelowCFB bytes bytes | BelowResponse

datatype body_codec = PlainBody below | ChunkBody size_choice | AuthBody auth_choice size_choice below TransferType "bytes option"

text \<open>The beginning the four functions share in the source: the size parser and the padding, which needs a masked size parser. \<open>None\<close>: an
  invalid option.\<close>

definition size_and_padding :: "bytes \<Rightarrow> byte \<Rightarrow> (size_choice \<times> bytes option) option" where
  "size_and_padding iv opt =
     (let sizeParser = (if Byte_Has opt RequestOptionChunkMasking then ShakeSize iv else PlainSize) in
      if Byte_Has opt RequestOptionGlobalPadding
      then (case sizeParser of ShakeSize seed \<Rightarrow> Some (sizeParser, Some seed) | _ \<Rightarrow> None)
      else Some (sizeParser, None))"

definition Client_EncodeRequestBody :: "vmess_crypto \<Rightarrow> RequestHeader \<Rightarrow> ClientSession \<Rightarrow> body_codec option" where
  "Client_EncodeRequestBody C request c =
     (case size_and_padding (cl_requestBodyIV c) (rh_Option request) of
        None \<Rightarrow> None
      | Some (sizeParser, padding) \<Rightarrow>
          let transfer = RequestCommand_TransferType (rh_Command request) in
          (case rh_Security request of
             SecurityType_NONE \<Rightarrow>
               if Byte_Has (rh_Option request) RequestOptionChunkStream
               then if transfer = TransferTypeStream then Some (ChunkBody sizeParser)
                    else Some (AuthBody NoOpAuth sizeParser BelowConnection TransferTypePacket padding)
               else Some (PlainBody BelowConnection)
           | SecurityType_LEGACY \<Rightarrow>
               let aesStream = BelowCFB (cl_requestBodyKey c) (cl_requestBodyIV c) in
               if Byte_Has (rh_Option request) RequestOptionChunkStream then Some (AuthBody FnvAuth sizeParser aesStream transfer padding)
               else Some (PlainBody aesStream)
           | SecurityType_AES128_GCM \<Rightarrow>
               let auth = CipherAuth (AesGcm (cl_requestBodyKey c)) (cl_requestBodyIV c);
                   sizeParser = (if Byte_Has (rh_Option request) RequestOptionAuthenticatedLength
                                 then AEADSize (AesGcm (KDF16 C (cl_requestBodyKey c) [str ''auth_len''])) (cl_requestBodyIV c) else sizeParser)
               in Some (AuthBody auth sizeParser BelowConnection transfer padding)
           | SecurityType_CHACHA20_POLY1305 \<Rightarrow>
               let auth = CipherAuth (Chacha20Poly1305 (GenerateChacha20Poly1305Key (vc_md5 C) (cl_requestBodyKey c))) (cl_requestBodyIV c);
                   sizeParser = (if Byte_Has (rh_Option request) RequestOptionAuthenticatedLength
                                 then AEADSize (Chacha20Poly1305 (GenerateChacha20Poly1305Key (vc_md5 C) (KDF16 C (cl_requestBodyKey c) [str ''auth_len'']))) (cl_requestBodyIV c)
                                 else sizeParser)
               in Some (AuthBody auth sizeParser BelowConnection transfer padding)
           | _ \<Rightarrow> None))"

definition Server_DecodeRequestBody :: "vmess_crypto \<Rightarrow> RequestHeader \<Rightarrow> ServerSession \<Rightarrow> body_codec option" where
  "Server_DecodeRequestBody C request s =
     (case size_and_padding (ss_requestBodyIV s) (rh_Option request) of
        None \<Rightarrow> None
      | Some (sizeParser, padding) \<Rightarrow>
          let transfer = RequestCommand_TransferType (rh_Command request) in
          (case rh_Security request of
             SecurityType_NONE \<Rightarrow>
               if Byte_Has (rh_Option request) RequestOptionChunkStream
               then if transfer = TransferTypeStream then Some (ChunkBody sizeParser)
                    else Some (AuthBody NoOpAuth sizeParser BelowConnection TransferTypePacket padding)
               else Some (PlainBody BelowConnection)
           | SecurityType_LEGACY \<Rightarrow>
               let cryptionReader = BelowCFB (ss_requestBodyKey s) (ss_requestBodyIV s) in
               if Byte_Has (rh_Option request) RequestOptionChunkStream then Some (AuthBody FnvAuth sizeParser cryptionReader transfer padding)
               else Some (PlainBody cryptionReader)
           | SecurityType_AES128_GCM \<Rightarrow>
               let auth = CipherAuth (AesGcm (ss_requestBodyKey s)) (ss_requestBodyIV s);
                   sizeParser = (if Byte_Has (rh_Option request) RequestOptionAuthenticatedLength
                                 then AEADSize (AesGcm (KDF16 C (ss_requestBodyKey s) [str ''auth_len''])) (ss_requestBodyIV s) else sizeParser)
               in Some (AuthBody auth sizeParser BelowConnection transfer padding)
           | SecurityType_CHACHA20_POLY1305 \<Rightarrow>
               let auth = CipherAuth (Chacha20Poly1305 (GenerateChacha20Poly1305Key (vc_md5 C) (ss_requestBodyKey s))) (ss_requestBodyIV s);
                   sizeParser = (if Byte_Has (rh_Option request) RequestOptionAuthenticatedLength
                                 then AEADSize (Chacha20Poly1305 (GenerateChacha20Poly1305Key (vc_md5 C) (KDF16 C (ss_requestBodyKey s) [str ''auth_len'']))) (ss_requestBodyIV s)
                                 else sizeParser)
               in Some (AuthBody auth sizeParser BelowConnection transfer padding)
           | _ \<Rightarrow> None))"

text \<open>On the way back chunks are sealed under the response key, but lengths under the request key.\<close>

definition Server_EncodeResponseBody :: "vmess_crypto \<Rightarrow> RequestHeader \<Rightarrow> ServerSession \<Rightarrow> body_codec option" where
  "Server_EncodeResponseBody C request s =
     (case size_and_padding (ss_responseBodyIV s) (rh_Option request) of
        None \<Rightarrow> None
      | Some (sizeParser, padding) \<Rightarrow>
          let transfer = RequestCommand_TransferType (rh_Command request) in
          (case rh_Security request of
             SecurityType_NONE \<Rightarrow>
               if Byte_Has (rh_Option request) RequestOptionChunkStream
               then if transfer = TransferTypeStream then Some (ChunkBody sizeParser)
                    else Some (AuthBody NoOpAuth sizeParser BelowConnection TransferTypePacket padding)
               else Some (PlainBody BelowConnection)
           | SecurityType_LEGACY \<Rightarrow>
               if Byte_Has (rh_Option request) RequestOptionChunkStream then Some (AuthBody FnvAuth sizeParser BelowResponse transfer padding)
               else Some (PlainBody BelowResponse)
           | SecurityType_AES128_GCM \<Rightarrow>
               let auth = CipherAuth (AesGcm (ss_responseBodyKey s)) (ss_responseBodyIV s);
                   sizeParser = (if Byte_Has (rh_Option request) RequestOptionAuthenticatedLength
                                 then AEADSize (AesGcm (KDF16 C (ss_requestBodyKey s) [str ''auth_len''])) (ss_requestBodyIV s) else sizeParser)
               in Some (AuthBody auth sizeParser BelowConnection transfer padding)
           | SecurityType_CHACHA20_POLY1305 \<Rightarrow>
               let auth = CipherAuth (Chacha20Poly1305 (GenerateChacha20Poly1305Key (vc_md5 C) (ss_responseBodyKey s))) (ss_responseBodyIV s);
                   sizeParser = (if Byte_Has (rh_Option request) RequestOptionAuthenticatedLength
                                 then AEADSize (Chacha20Poly1305 (GenerateChacha20Poly1305Key (vc_md5 C) (KDF16 C (ss_requestBodyKey s) [str ''auth_len'']))) (ss_requestBodyIV s)
                                 else sizeParser)
               in Some (AuthBody auth sizeParser BelowConnection transfer padding)
           | _ \<Rightarrow> None))"

definition Client_DecodeResponseBody :: "vmess_crypto \<Rightarrow> RequestHeader \<Rightarrow> ClientSession \<Rightarrow> body_codec option" where
  "Client_DecodeResponseBody C request c =
     (case size_and_padding (cl_responseBodyIV c) (rh_Option request) of
        None \<Rightarrow> None
      | Some (sizeParser, padding) \<Rightarrow>
          let transfer = RequestCommand_TransferType (rh_Command request) in
          (case rh_Security request of
             SecurityType_NONE \<Rightarrow>
               if Byte_Has (rh_Option request) RequestOptionChunkStream
               then if transfer = TransferTypeStream then Some (ChunkBody sizeParser)
                    else Some (AuthBody NoOpAuth sizeParser BelowConnection TransferTypePacket padding)
               else Some (PlainBody BelowConnection)
           | SecurityType_LEGACY \<Rightarrow>
               if Byte_Has (rh_Option request) RequestOptionChunkStream then Some (AuthBody FnvAuth sizeParser BelowResponse transfer padding)
               else Some (PlainBody BelowResponse)
           | SecurityType_AES128_GCM \<Rightarrow>
               let auth = CipherAuth (AesGcm (cl_responseBodyKey c)) (cl_responseBodyIV c);
                   sizeParser = (if Byte_Has (rh_Option request) RequestOptionAuthenticatedLength
                                 then AEADSize (AesGcm (KDF16 C (cl_requestBodyKey c) [str ''auth_len''])) (cl_requestBodyIV c) else sizeParser)
               in Some (AuthBody auth sizeParser BelowConnection transfer padding)
           | SecurityType_CHACHA20_POLY1305 \<Rightarrow>
               let auth = CipherAuth (Chacha20Poly1305 (GenerateChacha20Poly1305Key (vc_md5 C) (cl_responseBodyKey c))) (cl_responseBodyIV c);
                   sizeParser = (if Byte_Has (rh_Option request) RequestOptionAuthenticatedLength
                                 then AEADSize (Chacha20Poly1305 (GenerateChacha20Poly1305Key (vc_md5 C) (KDF16 C (cl_requestBodyKey c) [str ''auth_len'']))) (cl_requestBodyIV c)
                                 else sizeParser)
               in Some (AuthBody auth sizeParser BelowConnection transfer padding)
           | _ \<Rightarrow> None))"

lemma decoded_request_keeps:
  "rh_Option (decoded_request header) = rh_Option header" "rh_Security (decoded_request header) = rh_Security header" "rh_Command (decoded_request header) = rh_Command header"
  by (simp_all add: decoded_request_def)



end
