(* ===== verification/Vless.thy ===== *)
theory Vless
  imports Vmess_Session
begin

text \<open>
  The VLESS protocol: \<^verbatim>\<open>proxy/vless/encoding/encoding.go\<close> and \<^verbatim>\<open>addons.go\<close>.

  With fallbacks configured (\<open>isfb\<close>) the server has read a first buffer already, and the reader delivers what is in that buffer, then the
  connection: the buffer is shared, so that advancing it consumes bytes. A failure says whether the connection may fall back. The protobuf
  decoder of the addons is the parameter \<open>unmarshal\<close>.
\<close>

section \<open>Headers\<close>

definition vless_Version :: byte where "vless_Version = 0"

record vless_request =
  vr_Version :: byte
  vr_Command :: byte
  vr_Address :: "Address option"
  vr_Port :: Port
  vr_User :: proxy_user

datatype 'e vless_error = VlessIO 'e | VlessAddress addr_error | VlessUser | VlessVersion | VlessAddons | VlessTarget | VlessFull

definition EncodeHeaderAddons :: "Buffer \<Rightarrow> (buf_error, Buffer) outcome" where
  "EncodeHeaderAddons b = Buffer_WriteByte b 0"

definition Vless_EncodeRequestHeader :: "bytes \<Rightarrow> ('w, 'e) io_writer \<Rightarrow> 'w \<Rightarrow> vless_request \<Rightarrow> ('w \<times> 'e vless_error option) option" where
  "Vless_EncodeRequestHeader p wr w request =
     (case Buffer_WriteByte (Buffer_StackNew p) (vr_Version request) of
        Panic \<Rightarrow> None
      | Fail e \<Rightarrow> Some (w, Some VlessFull)
      | Ok b \<Rightarrow> do {
     (b, _) \<leftarrow> Buffer_Write b (pu_Key (vr_User request));
     case EncodeHeaderAddons b of
        Panic \<Rightarrow> None
      | Fail e \<Rightarrow> Some (w, Some VlessFull)
      | Ok b \<Rightarrow>
     (case Buffer_WriteByte b (vr_Command request) of
        Panic \<Rightarrow> None
      | Fail e \<Rightarrow> Some (w, Some VlessFull)
      | Ok b \<Rightarrow> do {
     (b, err) \<leftarrow>
       (if vr_Command request \<noteq> RequestCommandMux then do {
          a \<leftarrow> vr_Address request;
          let (bs, err) = WriteAddressPort addrParser a (vr_Port request);
          (b, _) \<leftarrow> Buffer_Write b bs;
          Some (b, err)
        } else Some (b, None));
     if err \<noteq> None then Some (w, map_option VlessAddress err)
     else do {
       bs \<leftarrow> Buffer_Bytes b;
       (w, err) \<leftarrow> wr w bs;
       Some (w, map_option VlessIO err)
     }})})"

definition vless_read :: "Buffer \<Rightarrow> bytes \<Rightarrow> int \<Rightarrow> (buf_error vless_error \<times> bool, Buffer \<times> bytes) outcome" where
  "vless_read b src n =
     (case Buffer_ReadFullFrom b src n of
        None \<Rightarrow> Panic
      | Some (b, src, _, Some e) \<Rightarrow> Fail (VlessIO e, False)
      | Some (b, src, _, None) \<Rightarrow> Ok (b, src))"

definition DecodeHeaderAddons :: "'a \<Rightarrow> (bytes \<Rightarrow> 'a option) \<Rightarrow> Buffer \<Rightarrow> bytes \<Rightarrow> (buf_error vless_error \<times> bool, 'a \<times> Buffer \<times> bytes) outcome" where
  "DecodeHeaderAddons none unmarshal b src =
     outcome_bind (vless_read (Buffer_Clear b) src 1) (\<lambda>(b, src).
     outcome_bind (or_panic (Buffer_Byte b 0)) (\<lambda>len.
     if len \<noteq> 0 then
       outcome_bind (vless_read (Buffer_Clear b) src (uint len)) (\<lambda>(b, src).
       outcome_bind (or_panic (Buffer_Bytes b)) (\<lambda>bs.
       case unmarshal bs of None \<Rightarrow> Fail (VlessAddons, False) | Some a \<Rightarrow> Ok (a, b, src)))
     else Ok (none, b, src)))"

text \<open>The part behind the user: addons, command, target.\<close>

definition vless_rest ::
  "'a \<Rightarrow> (bytes \<Rightarrow> 'a option) \<Rightarrow> byte \<Rightarrow> proxy_user \<Rightarrow> Buffer \<Rightarrow> bytes \<Rightarrow> (buf_error vless_error \<times> bool, (vless_request \<times> 'a) \<times> bytes) outcome" where
  "vless_rest none unmarshal version user b src =
     outcome_bind (DecodeHeaderAddons none unmarshal b src) (\<lambda>(addons, b, src).
     outcome_bind (vless_read (Buffer_Clear b) src 1) (\<lambda>(b, src).
     outcome_bind (or_panic (Buffer_Byte b 0)) (\<lambda>command.
     outcome_bind (if command = RequestCommandMux then Ok ((Some (DomainAddress (str ''v1.mux.cool'')), 0), src)
                   else if command = RequestCommandTCP \<or> command = RequestCommandUDP then
                     (case ReadAddressPort addrParser b src of
                        Panic \<Rightarrow> Panic
                      | Ok (ap, b, src) \<Rightarrow> Ok (ap, src)
                      | Fail e \<Rightarrow> Ok ((None, 0), src))
                   else Ok ((None, 0), src)) (\<lambda>((addr, port), src).
     if addr = None then Fail (VlessTarget, False)
     else Ok ((\<lparr>vr_Version = version, vr_Command = command, vr_Address = addr, vr_Port = port, vr_User = user\<rparr>, addons), src)))))"

text \<open>The first buffer after the call, and the result. After a failed read of the target nothing more is read, so where it left the reader
  does not matter.\<close>

definition Vless_DecodeRequestHeader ::
  "'a \<Rightarrow> (bytes \<Rightarrow> 'a option) \<Rightarrow> bytes \<Rightarrow> bool \<Rightarrow> Buffer \<Rightarrow> bytes \<Rightarrow> (bytes, proxy_user) Validator \<Rightarrow>
     Buffer \<times> (buf_error vless_error \<times> bool, (vless_request \<times> 'a) \<times> bytes) outcome" where
  "Vless_DecodeRequestHeader none unmarshal p isfb first src validator =
     (if isfb then
        (case Buffer_Byte first 0 of
           None \<Rightarrow> (first, Panic)
         | Some version \<Rightarrow>
             if version \<noteq> 0 then (first, Fail (VlessVersion, True))
             else
               (case Buffer_BytesRange first 1 17 of
                  None \<Rightarrow> (first, Panic)
                | Some uid \<Rightarrow>
                    (case Validator_Get uid validator of
                       None \<Rightarrow> (first, Fail (VlessUser, True))
                     | Some user \<Rightarrow>
                         let first = Buffer_Advance first 17 in
                         (case Buffer_Bytes first of
                            None \<Rightarrow> (first, Panic)
                          | Some bs \<Rightarrow> (first, vless_rest none unmarshal version user (Buffer_StackNew p) (bs @ src))))))
      else
        (first,
         outcome_bind (vless_read (Buffer_StackNew p) src 1) (\<lambda>(b, src).
         outcome_bind (or_panic (Buffer_Byte b 0)) (\<lambda>version.
         if version \<noteq> 0 then Fail (VlessVersion, False)
         else
           outcome_bind (vless_read (Buffer_Clear b) src 16) (\<lambda>(b, src).
           outcome_bind (or_panic (Buffer_Bytes b)) (\<lambda>uid.
           case Validator_Get uid validator of
             None \<Rightarrow> Fail (VlessUser, False)
           | Some user \<Rightarrow> vless_rest none unmarshal version user b src))))))"

definition Vless_EncodeResponseHeader :: "bytes \<Rightarrow> ('w, 'e) io_writer \<Rightarrow> 'w \<Rightarrow> byte \<Rightarrow> ('w \<times> 'e vless_error option) option" where
  "Vless_EncodeResponseHeader p wr w version =
     (case outcome_bind (Buffer_WriteByte (Buffer_StackNew p) version) EncodeHeaderAddons of
        Panic \<Rightarrow> None
      | Fail e \<Rightarrow> Some (w, Some VlessFull)
      | Ok b \<Rightarrow> do { bs \<leftarrow> Buffer_Bytes b; (w, err) \<leftarrow> wr w bs; Some (w, map_option VlessIO err) })"

definition Vless_DecodeResponseHeader :: "'a \<Rightarrow> (bytes \<Rightarrow> 'a option) \<Rightarrow> bytes \<Rightarrow> byte \<Rightarrow> bytes \<Rightarrow> (buf_error vless_error \<times> bool, 'a \<times> bytes) outcome" where
  "Vless_DecodeResponseHeader none unmarshal p version src =
     outcome_bind (vless_read (Buffer_StackNew p) src 1) (\<lambda>(b, src).
     outcome_bind (or_panic (Buffer_Byte b 0)) (\<lambda>v.
     if v \<noteq> version then Fail (VlessVersion, False)
     else outcome_bind (DecodeHeaderAddons none unmarshal b src) (\<lambda>(addons, b, src). Ok (addons, src))))"

section \<open>Packets\<close>

text \<open>\<^verbatim>\<open>MultiLengthPacketWriter.WriteMultiBuffer\<close>: the buffers with a length in front. \<open>p\<close> is the array the pool hands out.\<close>

fun length_packets :: "bytes \<Rightarrow> MultiBuffer \<Rightarrow> MultiBuffer option" where
  "length_packets p [] = Some []"
| "length_packets p (b # mb) =
     (let len = Buffer_Len (Some b) in
      if len = 0 \<or> i32 (len + 2) > Size then length_packets p mb
      else do {
        bs \<leftarrow> Buffer_Bytes b;
        rest \<leftarrow> length_packets p mb;
        case Buffer_WriteByte (Buffer_New p) (word_of_int (len div 256)) of
          Panic \<Rightarrow> None
        | Fail e \<Rightarrow> Some rest
        | Ok eb \<Rightarrow>
            (case Buffer_WriteByte eb (word_of_int len) of
               Panic \<Rightarrow> None
             | Fail e \<Rightarrow> Some rest
             | Ok eb \<Rightarrow> do { (eb, _) \<leftarrow> Buffer_Write eb bs; Some (eb # rest) })
      })"

datatype packet_error = ValueTooLarge | PacketWrite buf_error

definition MultiLengthPacketWriter_WriteMultiBuffer :: "bytes \<Rightarrow> 'w mb_writer \<Rightarrow> 'w \<Rightarrow> MultiBuffer \<Rightarrow> ('w \<times> packet_error option) option" where
  "MultiLengthPacketWriter_WriteMultiBuffer p wr w mb =
     (if length mb + 1 > 64 * 1024 * 1024 then Some (w, Some ValueTooLarge)
      else do {
        mb2Write \<leftarrow> length_packets p mb;
        if MultiBuffer_IsEmpty mb2Write then Some (w, None)
        else let (w, err) = wr w mb2Write in Some (w, map_option PacketWrite err)
      })"

text \<open>\<^verbatim>\<open>LengthPacketReader.ReadMultiBuffer\<close>; the loop takes at most one buffer full at a time.\<close>

function length_chunks :: "bytes \<Rightarrow> bytes \<Rightarrow> nat \<Rightarrow> (buf_error vless_error \<times> bool, MultiBuffer \<times> bytes) outcome" where
  "length_chunks p src len =
     (if len > 0 then
        let size' = min len (nat Size) in
        outcome_bind (vless_read (Buffer_New p) src (int size')) (\<lambda>(b, src).
        outcome_bind (length_chunks p src (len - size')) (\<lambda>(mb, src). Ok (b # mb, src)))
      else Ok ([], src))"
  by pat_completeness auto
termination
  by (relation "measure (\<lambda>(p, src, len). len)") (auto simp: Size_def)

definition LengthPacketReader_ReadMultiBuffer :: "bytes \<Rightarrow> bytes \<Rightarrow> (buf_error vless_error \<times> bool, MultiBuffer \<times> bytes) outcome" where
  "LengthPacketReader_ReadMultiBuffer p src =
     outcome_bind (full (\<lambda>e. (VlessIO e, False)) src 2) (\<lambda>(cache, src).
     length_chunks p src (unat (cache ! 0) * 256 + unat (cache ! 1)))"

text \<open>\<^verbatim>\<open>LengthPacketWriter\<close> sends all buffers as one packet.\<close>

definition LengthPacketWriter_WriteMultiBuffer :: "('w, buf_error) io_writer \<Rightarrow> 'w \<Rightarrow> MultiBuffer \<Rightarrow> ('w \<times> packet_error option) option" where
  "LengthPacketWriter_WriteMultiBuffer wr w mb =
     (let len = MultiBuffer_Len mb in
      if len = 0 then Some (w, None)
      else do {
        parts \<leftarrow> those (map Buffer_Bytes mb);
        (w, err) \<leftarrow> wr w ([word_of_int (len div 256), word_of_int len] @ concat parts);
        Some (w, map_option PacketWrite err)
      })"

section \<open>Requests\<close>

definition vless_target :: "vless_request \<Rightarrow> bytes" where
  "vless_target request = (if vr_Command request \<noteq> RequestCommandMux then fst (WriteAddressPort addrParser (the (vr_Address request)) (vr_Port request)) else [])"

definition vless_bytes :: "vless_request \<Rightarrow> bytes" where
  "vless_bytes request = [vr_Version request] @ pu_Key (vr_User request) @ [0] @ [vr_Command request] @ vless_target request"

definition vless_ok :: "vless_request \<Rightarrow> bool" where
  "vless_ok request \<longleftrightarrow> vr_Version request = vless_Version \<and> length (pu_Key (vr_User request)) = 16 \<and>
     (vr_Command request = RequestCommandMux \<or>
      (vr_Command request = RequestCommandTCP \<or> vr_Command request = RequestCommandUDP) \<and> (\<exists>a. vr_Address request = Some a \<and> carried a))"

definition vless_decoded :: "vless_request \<Rightarrow> vless_request" where
  "vless_decoded request = (if vr_Command request = RequestCommandMux then request\<lparr>vr_Address := Some (DomainAddress (str ''v1.mux.cool'')), vr_Port := 0\<rparr> else request)"

lemma Vless_EncodeRequestHeader_ok:
  assumes "length p = 2048" and "vless_ok request"
  shows "Vless_EncodeRequestHeader p append_writer out request = Some (out @ vless_bytes request, None)"
proof -
  let ?K = "pu_Key (vr_User request)" and ?T = "vless_target request"
  have T: "length ?T \<le> 259" "length ?K = 16" using WriteAddressPort_length(1) assms(2) by (auto simp: vless_target_def vless_ok_def)
  have b0: "holding (Buffer_StackNew p) [] (Suc (length ?K + Suc (Suc (length ?T + 0))))" by (rule holding_StackNew) (use assms(1) T in simp_all)
  obtain b1 where b1: "Buffer_WriteByte (Buffer_StackNew p) (vr_Version request) = Ok b1" and f1: "holding b1 ([] @ [vr_Version request]) (length ?K + Suc (Suc (length ?T + 0)))"
    by (rule holding_WriteByte [OF b0])
  obtain b2 where b2: "Buffer_Write b1 ?K = Some (b2, int (length ?K))" and f2: "holding b2 (([] @ [vr_Version request]) @ ?K) (Suc (Suc (length ?T + 0)))"
    by (rule holding_Write [OF f1])
  obtain b3 where b3: "Buffer_WriteByte b2 0 = Ok b3" and f3: "holding b3 ((([] @ [vr_Version request]) @ ?K) @ [0]) (Suc (length ?T + 0))"
    by (rule holding_WriteByte [OF f2])
  obtain b4 where b4: "Buffer_WriteByte b3 (vr_Command request) = Ok b4" and f4: "holding b4 (((([] @ [vr_Version request]) @ ?K) @ [0]) @ [vr_Command request]) (length ?T + 0)"
    by (rule holding_WriteByte [OF f3])
  obtain b5 where b5: "Buffer_Write b4 ?T = Some (b5, int (length ?T))" and f5: "holding b5 ((((([] @ [vr_Version request]) @ ?K) @ [0]) @ [vr_Command request]) @ ?T) 0"
    by (rule holding_Write [OF f4])
  show ?thesis
  proof (cases "vr_Command request = RequestCommandMux")
    case True
    then have "Buffer_Bytes b4 = Some (vless_bytes request)" using holding_Bytes [OF f4] by (simp add: vless_bytes_def vless_target_def)
    then show ?thesis using b1 b2 b3 b4 True append_writer_eq [of out "vless_bytes request"] by (simp add: Vless_EncodeRequestHeader_def EncodeHeaderAddons_def)
  next
    case False
    then obtain a where a: "vr_Address request = Some a" "carried a" using assms(2) by (auto simp: vless_ok_def)
    then have bs: "WriteAddressPort addrParser a (vr_Port request) = (?T, None)" using WriteAddressPort_bytes(1) [OF addrParser_knows a(2), of "vr_Port request"] False
      by (simp add: vless_target_def) (metis prod.collapse)
    have "Buffer_Bytes b5 = Some (vless_bytes request)" using holding_Bytes [OF f5] by (simp add: vless_bytes_def)
    then show ?thesis using b1 b2 b3 b4 b5 a(1) bs False append_writer_eq [of out "vless_bytes request"]
      by (simp add: Vless_EncodeRequestHeader_def EncodeHeaderAddons_def Let_def)
  qed
qed

text \<open>A scratch buffer of the reader.\<close>

definition scratch :: "Buffer \<Rightarrow> bool" where
  "scratch b \<longleftrightarrow> small_buf b \<and> length (buf_v b) = 2048"

lemma scratch_StackNew: "length p = 2048 \<Longrightarrow> scratch (Buffer_StackNew p) \<and> content (Buffer_StackNew p) = [] \<and> room (Buffer_StackNew p) = 2048"
  by (auto simp: scratch_def small_buf_def Buffer_StackNew_def wf_Buffer_def room_def content_def)

lemma scratch_Clear: "scratch b \<Longrightarrow> scratch (Buffer_Clear b) \<and> content (Buffer_Clear b) = [] \<and> room (Buffer_Clear b) = 2048"
  by (auto simp: scratch_def small_buf_def Buffer_Clear_def wf_Buffer_def room_def content_def)

lemma vless_read_ok:
  assumes "scratch b" and "content b = []" and "room b = 2048" and "length xs \<le> 2048"
  obtains b' where "vless_read b (xs @ rest) (int (length xs)) = Ok (b', rest)" "scratch b'" "content b' = xs" "room b' = 2048 - length xs"
  by (rule ReadFullFrom_ok [of b xs rest]) (use assms that in \<open>auto simp: vless_read_def scratch_def\<close>)

lemma scratch_Byte: "scratch b \<Longrightarrow> content b = x # xs \<Longrightarrow> Buffer_Byte b 0 = Some x"
  using Byte_content [of b 0] by (simp add: scratch_def small_buf_def)

lemma scratch_Bytes: "scratch b \<Longrightarrow> Buffer_Bytes b = Some (content b)"
  by (simp add: scratch_def small_buf_def Buffer_Bytes_content)

lemma read_byte:
  assumes "scratch b"
  obtains b' where "vless_read (Buffer_Clear b) (x # rest) 1 = Ok (b', rest)" "scratch b'" "Buffer_Byte b' 0 = Some x" "room b' = 2047"
  by (rule vless_read_ok [of "Buffer_Clear b" "[x]" rest]) (use scratch_Clear [OF assms] that scratch_Byte in auto)

lemma vless_rest_ok:
  assumes "scratch b" and "vless_ok request"
  shows "vless_rest none unmarshal 0 (vr_User request) b ([0] @ [vr_Command request] @ vless_target request @ rest) = Ok ((vless_decoded request, none), rest)"
proof -
  obtain b1 where b1: "vless_read (Buffer_Clear b) (0 # vr_Command request # vless_target request @ rest) 1 = Ok (b1, vr_Command request # vless_target request @ rest)"
      "scratch b1" "Buffer_Byte b1 0 = Some 0" by (rule read_byte [OF assms(1)])
  obtain b2 where b2: "vless_read (Buffer_Clear b1) (vr_Command request # vless_target request @ rest) 1 = Ok (b2, vless_target request @ rest)" "scratch b2"
      "Buffer_Byte b2 0 = Some (vr_Command request)" "room b2 = 2047" by (rule read_byte [OF b1(2)])
  have addons: "DecodeHeaderAddons none unmarshal b ([0] @ [vr_Command request] @ vless_target request @ rest) = Ok (none, b1, vr_Command request # vless_target request @ rest)"
    using b1 by (simp add: DecodeHeaderAddons_def)
  show ?thesis
  proof (cases "vr_Command request = RequestCommandMux")
    case True
    then show ?thesis using b2 assms(2) unfolding vless_rest_def addons
      by (cases request) (simp add: vless_target_def vless_decoded_def vless_ok_def vless_Version_def)
  next
    case False
    then obtain a where a: "vr_Address request = Some a" "carried a" "vr_Command request = RequestCommandTCP \<or> vr_Command request = RequestCommandUDP"
      using assms(2) by (auto simp: vless_ok_def)
    have wf: "wf_Buffer b2" "259 \<le> room b2" using b2(2,4) by (simp_all add: scratch_def small_buf_def)
    obtain b3 where "ReadAddressPort addrParser b2 (vless_target request @ rest) = Ok ((Some a, vr_Port request), b3, rest)"
      using ReadAddressPort_WriteAddressPort [OF wf addrParser_knows a(2), of "vr_Port request" rest] a(1) False by (auto simp: vless_target_def)
    then show ?thesis using b2 assms(2) a False unfolding vless_rest_def addons
      by (cases request) (auto simp: vless_decoded_def vless_ok_def vless_Version_def)
  qed
qed

text \<open>C32. A VLESS request arrives. What the client writes is decoded by a server that knows the user to the same request, whether the server
  reads from the connection or, with fallbacks configured, has the beginning of the connection in a first buffer already, cut anywhere behind the user;
  the bytes behind the request are left in the reader.\<close>

theorem vless_request_roundtrip:
  assumes "length p = 2048" and "length q = 2048" and "vless_ok request" and "Validator_Get (pu_Key (vr_User request)) validator = Some (vr_User request)"
  shows "\<exists>out. Vless_EncodeRequestHeader p append_writer [] request = Some (out, None) \<and>
     (\<forall>isfb first src rest. wf_Buffer first \<and> (if isfb then 17 \<le> length (content first) \<and> content first @ src = out @ rest else src = out @ rest) \<longrightarrow>
        snd (Vless_DecodeRequestHeader none unmarshal q isfb first src validator) = Ok ((vless_decoded request, none), rest))"
proof (intro exI conjI allI impI)
  let ?K = "pu_Key (vr_User request)"
  let ?tail = "\<lambda>rest. [0] @ [vr_Command request] @ vless_target request @ rest"
  have K: "length ?K = 16" "vr_Version request = 0" using assms(3) by (auto simp: vless_ok_def vless_Version_def)
  show "Vless_EncodeRequestHeader p append_writer [] request = Some ([] @ vless_bytes request, None)" by (rule Vless_EncodeRequestHeader_ok [OF assms(1,3)])
  fix isfb first src rest
  assume h: "wf_Buffer first \<and> (if isfb then 17 \<le> length (content first) \<and> content first @ src = ([] @ vless_bytes request) @ rest else src = ([] @ vless_bytes request) @ rest)"
  have new: "scratch (Buffer_StackNew q)" using scratch_StackNew [OF assms(2)] by simp
  show "snd (Vless_DecodeRequestHeader none unmarshal q isfb first src validator) = Ok ((vless_decoded request, none), rest)"
  proof (cases isfb)
    case True
    then have c: "wf_Buffer first" "17 \<le> length (content first)" "content first @ src = [0] @ ?K @ ?tail rest" using h K(2) by (auto simp: vless_bytes_def)
    have "take 17 (content first) = take 17 (content first @ src)" "drop 17 (content first) @ src = drop 17 (content first @ src)" using c(2) by simp_all
    then have cut: "take 17 (content first) = 0 # ?K" "drop 17 (content first) @ src = ?tail rest" using K(1) unfolding c(3) by simp_all
    have "content first ! 0 = take 17 (content first) ! 0" "take 16 (drop 1 (content first)) = drop 1 (take 17 (content first))" using c(2) by (simp_all add: drop_take)
    then have "content first ! 0 = 0" "take 16 (drop 1 (content first)) = ?K" unfolding cut(1) by simp_all
    moreover have "0 < length (content first)" using c(2) by linarith
    ultimately have look: "Buffer_Byte first 0 = Some 0" "Buffer_BytesRange first 1 17 = Some ?K"
      using Byte_content [OF c(1), of 0] BytesRange_content [OF c(1), of 1 17] c(2) by auto
    have "Buffer_Bytes (Buffer_Advance first 17) = Some (drop 17 (content first))" using Buffer_Advance_content [OF c(1), of 17] c(2) by (simp add: Buffer_Bytes_content)
    then show ?thesis unfolding Vless_DecodeRequestHeader_def using True look assms(4) cut(2) vless_rest_ok [OF new assms(3), of none unmarshal rest] by (simp add: Let_def)
  next
    case False
    then have src: "src = 0 # ?K @ ?tail rest" using h K(2) by (auto simp: vless_bytes_def)
    obtain b1 where b1: "vless_read (Buffer_StackNew q) (0 # ?K @ ?tail rest) 1 = Ok (b1, ?K @ ?tail rest)" "scratch b1" "Buffer_Byte b1 0 = Some 0"
      by (rule vless_read_ok [of "Buffer_StackNew q" "[0]" "?K @ ?tail rest"]) (use scratch_StackNew [OF assms(2)] scratch_Byte that in auto)
    obtain b2 where b2: "vless_read (Buffer_Clear b1) (?K @ ?tail rest) (int (length ?K)) = Ok (b2, ?tail rest)" "scratch b2" "content b2 = ?K"
      by (rule vless_read_ok [of "Buffer_Clear b1" ?K "?tail rest"]) (use scratch_Clear [OF b1(2)] K(1) in auto)
    have "vless_read (Buffer_Clear b1) (?K @ ?tail rest) 16 = Ok (b2, ?tail rest)" using b2(1) K(1) by simp
    then show ?thesis unfolding Vless_DecodeRequestHeader_def src using False b1 scratch_Bytes [OF b2(2)] b2(3) assms(4) vless_rest_ok [OF b2(2) assms(3), of none unmarshal rest] by simp
  qed
qed

definition sample_vless :: vless_request where
  "sample_vless = \<lparr>vr_Version = 0, vr_Command = RequestCommandUDP, vr_Address = Some (ipv4Address [10, 0, 0, 1]), vr_Port = 53,
     vr_User = \<lparr>pu_Email = [97], pu_Key = replicate 16 1\<rparr>\<rparr>"

definition sample_users :: "(bytes, proxy_user) Validator" where
  "sample_users = fst (vless_Add (\<lambda>e. e) (vr_User sample_vless) NewValidator)"

theorem vless_request_roundtrip_witness:
  "\<exists>out. Vless_EncodeRequestHeader (replicate 2048 0) append_writer [] sample_vless = Some (out, None) \<and>
     (\<forall>isfb first src rest. wf_Buffer first \<and> (if isfb then 17 \<le> length (content first) \<and> content first @ src = out @ rest else src = out @ rest) \<longrightarrow>
        snd (Vless_DecodeRequestHeader () (\<lambda>_. None) (replicate 2048 0) isfb first src sample_users) = Ok ((vless_decoded sample_vless, ()), rest))"
  by (rule vless_request_roundtrip)
    (simp_all add: vless_ok_def sample_vless_def vless_Version_def sample_users_def vless_Add_def Validator_Add_def Validator_Get_def NewValidator_def Let_def)

section \<open>Falling back\<close>

text \<open>A result behind the recognition of the user: no panic and no fallback.\<close>

definition settled :: "('e \<times> bool, 'b) outcome \<Rightarrow> bool" where
  "settled r \<longleftrightarrow> r \<noteq> Panic \<and> (\<forall>e. r \<noteq> Fail (e, True))"

lemma settled_simps [simp]: "settled (Ok a)" "settled (Fail (e, fb)) \<longleftrightarrow> \<not> fb" "\<not> settled Panic"
  by (auto simp: settled_def)

lemma settled_bind: "settled r \<Longrightarrow> (\<And>a. r = Ok a \<Longrightarrow> settled (f a)) \<Longrightarrow> settled (outcome_bind r f)"
  by (cases r) (auto simp: settled_def)

lemma vless_read_cases:
  assumes "scratch b" and "n \<le> 2048"
  obtains (failed) e where "vless_read (Buffer_Clear b) src (int n) = Fail (e, False)"
    | (read) b' rest where "vless_read (Buffer_Clear b) src (int n) = Ok (b', rest)" "scratch b'" "length (content b') = n"
proof (cases "n \<le> length src")
  case True
  note c = scratch_Clear [OF assms(1)]
  obtain b' where "vless_read (Buffer_Clear b) (take n src @ drop n src) (int (length (take n src))) = Ok (b', drop n src)" "scratch b'" "content b' = take n src"
    by (rule vless_read_ok [of "Buffer_Clear b" "take n src" "drop n src"]) (use c assms(2) in auto)
  then show thesis using read True by auto
next
  case False
  note c = scratch_Clear [OF assms(1)]
  have wf: "wf_Buffer (Buffer_Clear b)" using c by (simp add: scratch_def small_buf_def)
  obtain b' where "Buffer_ReadFullFrom (Buffer_Clear b) src (int n) = Some (b', drop (nat (int n)) src, int (min (nat (int n)) (length src)),
      if nat (int n) \<le> length src then None else Some (if src = [] then EOF else UnexpectedEOF))"
    by (rule Buffer_ReadFullFrom_spec [OF wf, of "int n" src]) (use c assms(2) in auto)
  then show thesis using failed False by (auto simp: vless_read_def)
qed

lemma vless_read_settled: "scratch b \<Longrightarrow> n \<le> 2048 \<Longrightarrow> settled (vless_read (Buffer_Clear b) src (int n))"
  by (rule vless_read_cases [of b n src]) auto

lemma vless_read_scratch: "scratch b \<Longrightarrow> n \<le> 2048 \<Longrightarrow> vless_read (Buffer_Clear b) src (int n) = Ok (b', rest) \<Longrightarrow> scratch b' \<and> length (content b') = n"
  by (rule vless_read_cases [of b n src]) auto

lemma read_byte_settled:
  assumes "scratch b" and "\<And>b' x rest. scratch b' \<Longrightarrow> settled (f x b' rest)"
  shows "settled (outcome_bind (vless_read (Buffer_Clear b) src 1) (\<lambda>(b, src). outcome_bind (or_panic (Buffer_Byte b 0)) (\<lambda>x. f x b src)))"
proof (rule vless_read_cases [OF assms(1), of 1 src])
  fix b' rest assume r: "vless_read (Buffer_Clear b) src (int 1) = Ok (b', rest)" "scratch b'" "length (content b') = 1"
  then obtain x where "Buffer_Byte b' 0 = Some x" using scratch_Byte [OF r(2)] by (cases "content b'") auto
  then show ?thesis using r assms(2) by simp
qed (use assms in auto)

lemma read_len:
  assumes "scratch b"
  shows "settled (vless_read (Buffer_Clear b) src (uint (len :: byte)))" and "vless_read (Buffer_Clear b) src (uint len) = Ok (b', rest) \<Longrightarrow> scratch b'"
proof -
  have u: "uint len = int (unat len)" "unat len \<le> 2048" using word_unat_less_le_255 [of len] by simp_all
  show "settled (vless_read (Buffer_Clear b) src (uint len))" unfolding u(1) by (rule vless_read_settled [OF assms u(2)])
  show "vless_read (Buffer_Clear b) src (uint len) = Ok (b', rest) \<Longrightarrow> scratch b'" unfolding u(1) using vless_read_scratch [OF assms u(2)] by blast
qed

lemma DecodeHeaderAddons_settled:
  assumes "scratch b"
  shows "settled (DecodeHeaderAddons none unmarshal b src)" and "DecodeHeaderAddons none unmarshal b src = Ok (a, b', rest) \<Longrightarrow> scratch b'"
proof -
  have "settled (outcome_bind (vless_read (Buffer_Clear b1) src1 (uint len)) (\<lambda>(b, src).
       outcome_bind (or_panic (Buffer_Bytes b)) (\<lambda>bs. case unmarshal bs of None \<Rightarrow> Fail (VlessAddons, False) | Some a \<Rightarrow> Ok (a, b, src))))" if "scratch b1" for b1 src1 and len :: byte
  proof (rule settled_bind [OF read_len(1) [OF that]])
    fix x assume "vless_read (Buffer_Clear b1) src1 (uint len) = Ok x"
    then have "scratch (fst x)" using read_len(2) [OF that] by (metis prod.collapse)
    then show "settled (case x of (b, src) \<Rightarrow> outcome_bind (or_panic (Buffer_Bytes b)) (\<lambda>bs. case unmarshal bs of None \<Rightarrow> Fail (VlessAddons, False) | Some a \<Rightarrow> Ok (a, b, src)))"
      by (simp add: case_prod_beta scratch_Bytes split: option.split)
  qed
  then show "settled (DecodeHeaderAddons none unmarshal b src)" unfolding DecodeHeaderAddons_def by (intro read_byte_settled [OF assms]) simp
  show "scratch b'" if d: "DecodeHeaderAddons none unmarshal b src = Ok (a, b', rest)"
  proof -
    obtain b1 src1 where b1: "vless_read (Buffer_Clear b) src (int 1) = Ok (b1, src1)" and "b' = b1 \<or> (\<exists>len :: byte. vless_read (Buffer_Clear b1) src1 (uint len) = Ok (b', rest))"
      using d by (auto simp: DecodeHeaderAddons_def outcome_bind_Ok_iff split: if_splits option.splits)
    moreover have "scratch b1" using vless_read_scratch [OF assms _ b1] by simp
    ultimately show ?thesis using read_len(2) by blast
  qed
qed

lemma vless_rest_settled:
  assumes "scratch b"
  shows "settled (vless_rest none unmarshal version user b src)"
  unfolding vless_rest_def
proof (rule settled_bind [OF DecodeHeaderAddons_settled(1) [OF assms]])
  fix x assume "DecodeHeaderAddons none unmarshal b src = Ok x"
  then obtain a b1 src1 where x: "x = (a, b1, src1)" "scratch b1" using DecodeHeaderAddons_settled(2) [OF assms] by (metis prod.exhaust)
  have address: "ReadAddressPort addrParser b2 src2 \<noteq> Panic" if "scratch b2" for b2 src2
    using ReadAddressPort_safe [OF _ addrParser_ok, of b2 src2] that by (auto simp: scratch_def)
  have "settled (outcome_bind (vless_read (Buffer_Clear b1) src1 1) (\<lambda>(b, src). outcome_bind (or_panic (Buffer_Byte b 0)) (\<lambda>command.
     outcome_bind (if command = RequestCommandMux then Ok ((Some (DomainAddress (str ''v1.mux.cool'')), 0), src)
                   else if command = RequestCommandTCP \<or> command = RequestCommandUDP then
                     (case ReadAddressPort addrParser b src of Panic \<Rightarrow> Panic | Ok (ap, b, src) \<Rightarrow> Ok (ap, src) | Fail e \<Rightarrow> Ok ((None, 0), src))
                   else Ok ((None, 0), src)) (\<lambda>((addr, port), src).
     if addr = None then Fail (VlessTarget, False)
     else Ok ((\<lparr>vr_Version = version, vr_Command = command, vr_Address = addr, vr_Port = port, vr_User = user\<rparr>, a), src)))))"
    by (rule read_byte_settled [OF x(2)]) (auto intro!: settled_bind dest: address split: outcome.split)
  then show "settled (case x of (addons, b, src) \<Rightarrow> outcome_bind (vless_read (Buffer_Clear b) src 1) (\<lambda>(b, src). outcome_bind (or_panic (Buffer_Byte b 0)) (\<lambda>command.
     outcome_bind (if command = RequestCommandMux then Ok ((Some (DomainAddress (str ''v1.mux.cool'')), 0), src)
                   else if command = RequestCommandTCP \<or> command = RequestCommandUDP then
                     (case ReadAddressPort addrParser b src of Panic \<Rightarrow> Panic | Ok (ap, b, src) \<Rightarrow> Ok (ap, src) | Fail e \<Rightarrow> Ok ((None, 0), src))
                   else Ok ((None, 0), src)) (\<lambda>((addr, port), src).
     if addr = None then Fail (VlessTarget, False)
     else Ok ((\<lparr>vr_Version = version, vr_Command = command, vr_Address = addr, vr_Port = port, vr_User = user\<rparr>, addons), src)))))"
    unfolding x(1) by simp
qed

text \<open>C33. Falling back. With a first buffer of at least 17 bytes, decoding never panics, whatever the connection delivers; it asks for a
  fallback exactly when the first byte is not the version or the next sixteen are not a user's identifier; and then the first buffer is as it was, so that
  the fallback receives every byte of the connection.\<close>

theorem vless_fallback:
  assumes "length p = 2048" and "wf_Buffer first" and "17 \<le> length (content first)"
    and "Vless_DecodeRequestHeader none unmarshal p True first src validator = (first', r)"
  shows "r \<noteq> Panic \<and> ((\<exists>e. r = Fail (e, True)) \<longleftrightarrow> content first ! 0 \<noteq> 0 \<or> Validator_Get (take 16 (drop 1 (content first))) validator = None) \<and>
     ((\<exists>e. r = Fail (e, True)) \<longrightarrow> first' = first)"
proof -
  have "0 < length (content first)" using assms(3) by linarith
  then have look: "Buffer_Byte first 0 = Some (content first ! 0)" "Buffer_BytesRange first 1 17 = Some (take 16 (drop 1 (content first)))"
    using Byte_content [OF assms(2), of 0] BytesRange_content [OF assms(2), of 1 17] assms(3) by auto
  have adv: "Buffer_Bytes (Buffer_Advance first 17) = Some (drop 17 (content first))"
    using Buffer_Advance_content [OF assms(2), of 17] assms(3) by (simp add: Buffer_Bytes_content)
  have rest: "settled (vless_rest none unmarshal version user (Buffer_StackNew p) s)" for version user s
    using vless_rest_settled [where b = "Buffer_StackNew p" and none = none and unmarshal = unmarshal and version = version and user = user and src = s] scratch_StackNew [OF assms(1)] by simp
  consider (version) "content first ! 0 \<noteq> 0" | (unknown) "content first ! 0 = 0" "Validator_Get (take 16 (drop 1 (content first))) validator = None"
    | (known) user where "content first ! 0 = 0" "Validator_Get (take 16 (drop 1 (content first))) validator = Some user" by fastforce
  then show ?thesis
  proof cases
    case known
    then have "r = vless_rest none unmarshal 0 user (Buffer_StackNew p) (drop 17 (content first) @ src)"
      using assms(4) look adv by (simp add: Vless_DecodeRequestHeader_def Let_def)
    then show ?thesis using rest [of 0 user "drop 17 (content first) @ src"] known by (simp add: settled_def)
  qed (use assms(4) look in \<open>auto simp: Vless_DecodeRequestHeader_def\<close>)
qed

theorem vless_fallback_witness:
  "let first = Buffer_FromBytes (replicate 20 0); res = Vless_DecodeRequestHeader () (\<lambda>_. None) (replicate 2048 0) True first [] sample_users in
   snd res \<noteq> Panic \<and> ((\<exists>e. snd res = Fail (e, True)) \<longrightarrow> fst res = first)"
proof -
  let ?first = "Buffer_FromBytes (replicate 20 0)"
  have "wf_Buffer ?first" "content ?first = replicate 20 0" by (simp_all add: Buffer_FromBytes_def wf_Buffer_def content_def i32_id)
  then show ?thesis using vless_fallback [OF _ _ _ surjective_pairing, of "replicate 2048 0" ?first "()" "\<lambda>_. None" "[]" sample_users] by (simp add: Let_def)
qed

section \<open>Packets arrive\<close>

definition vless_packet :: "bytes \<Rightarrow> bytes" where
  "vless_packet payload = be_PutUint16 (word_of_nat (length payload)) @ payload"

lemma length_bytes:
  assumes "n < 65536"
  shows "be_PutUint16 (word_of_nat n) = [word_of_nat (n div 256), word_of_nat n]" and "unat (word_of_nat (n div 256) :: byte) * 256 + unat (word_of_nat n :: byte) = n"
proof -
  have "drop_bit 8 (word_of_nat n :: u16) = word_of_nat (n div 256)"
    by (rule word_unat_eq_iff [THEN iffD2]) (use assms in \<open>simp add: drop_bit_eq_div unat_div_distrib unat_of_nat\<close>)
  moreover have "ucast (word_of_nat m :: u16) = (word_of_nat m :: byte)" for m
    by (rule word_uint_eqI) (simp add: unsigned_ucast_eq unsigned_of_nat take_bit_eq_mod mod_mod_cancel)
  ultimately show "be_PutUint16 (word_of_nat n) = [word_of_nat (n div 256), word_of_nat n]" by (simp add: be_PutUint16_def)
  show "unat (word_of_nat (n div 256) :: byte) * 256 + unat (word_of_nat n :: byte) = n" using assms by (simp add: unat_of_nat)
qed

lemma length_chunks_ok:
  assumes "length p = 2048"
  shows "\<exists>mb. length_chunks p (xs @ rest) (length xs) = Ok (mb, rest) \<and> wf_mb mb \<and> mb_content mb = xs"
proof (induction "length xs" arbitrary: xs rule: less_induct)
  case less
  show ?case
  proof (cases "xs = []")
    case False
    let ?n = "min (length xs) 2048"
    have new: "small_buf (Buffer_New p)" "length (take ?n xs) \<le> room (Buffer_New p)" "content (Buffer_New p) = []"
      using assms by (auto simp: small_buf_def Buffer_New_def wf_Buffer_def room_def content_def)
    obtain b where b: "Buffer_ReadFullFrom (Buffer_New p) (take ?n xs @ drop ?n xs @ rest) (int (length (take ?n xs))) = Some (b, drop ?n xs @ rest, int (length (take ?n xs)), None)"
        "small_buf b" "content b = content (Buffer_New p) @ take ?n xs"
      by (rule ReadFullFrom_ok [OF new(1,2)])
    have cut: "take ?n xs @ drop ?n xs @ rest = xs @ rest" "length (take ?n xs) = ?n" by (simp_all add: append_assoc [symmetric] del: append_assoc)
    have r: "vless_read (Buffer_New p) (xs @ rest) (int ?n) = Ok (b, drop ?n xs @ rest)" using b(1) unfolding cut by (simp add: vless_read_def)
    obtain mb where "length_chunks p (drop ?n xs @ rest) (length xs - ?n) = Ok (mb, rest)" "wf_mb mb" "mb_content mb = drop ?n xs"
      using less [of "drop ?n xs"] False by (auto simp del: length_chunks.simps)
    then show ?thesis using r b(2,3) new(3) False by (intro exI [of _ "b # mb"]) (simp add: length_chunks.simps [of p "xs @ rest"] Size_def Let_def small_buf_def)
  qed simp
qed

interpretation vless_packets: framing "\<lambda>payload. length payload < 65536 \<and> length p = 2048" vless_packet "LengthPacketReader_ReadMultiBuffer p"
    "\<lambda>payload mb. wf_mb mb \<and> mb_content mb = payload"
  for p
proof unfold_locales
  fix payload rest assume "length (payload :: bytes) < 65536 \<and> length p = 2048"
  then show "\<exists>mb. LengthPacketReader_ReadMultiBuffer p (vless_packet payload @ rest) = Ok (mb, rest) \<and> wf_mb mb \<and> mb_content mb = payload"
    using length_chunks_ok [of p payload rest] full_append [of "be_PutUint16 (word_of_nat (length payload))" 2 "\<lambda>e. (VlessIO e, False)" "payload @ rest"] length_bytes [of "length payload"]
    by (simp add: LengthPacketReader_ReadMultiBuffer_def vless_packet_def del: length_chunks.simps)
qed

text \<open>The packets the writer sends: those that fit a buffer together with their length.\<close>

definition fits :: "Buffer \<Rightarrow> bool" where
  "fits b \<longleftrightarrow> content b \<noteq> [] \<and> length (content b) \<le> 2046"

lemma length_packets_ok:
  assumes "length p = 2048" and "wf_mb mb" and "\<forall>b \<in> set mb. length (content b) < 65536"
  shows "\<exists>out. length_packets p mb = Some out \<and> wf_mb out \<and> mb_content out = concat (map (\<lambda>b. vless_packet (content b)) (filter fits mb))"
  using assms(2,3)
proof (induction mb)
  case (Cons b mb)
  then obtain out where out: "length_packets p mb = Some out" "wf_mb out" "mb_content out = concat (map (\<lambda>b. vless_packet (content b)) (filter fits mb))" by auto
  have wf: "wf_Buffer b" using Cons.prems(1) by simp
  have len: "Buffer_Len (Some b) = int (length (content b))" "Buffer_Bytes b = Some (content b)" using wf by (simp_all add: Buffer_Len_content Buffer_Bytes_content)
  have "i32 (int (length (content b)) + 2) = int (length (content b)) + 2" using Cons.prems(2) by (intro i32_id) auto
  then have skip: "(int (length (content b)) = 0 \<or> i32 (int (length (content b)) + 2) > Size) \<longleftrightarrow> \<not> fits b" by (auto simp: fits_def Size_def)
  show ?case
  proof (cases "fits b")
    case True
    let ?n = "length (content b)"
    have b0: "holding (Buffer_New p) [] (Suc (Suc (?n + 0)))" by (rule holding_New) (use assms(1) True in \<open>auto simp: fits_def\<close>)
    obtain b1 where b1: "Buffer_WriteByte (Buffer_New p) (word_of_int (int ?n div 256)) = Ok b1" "holding b1 ([] @ [word_of_int (int ?n div 256)]) (Suc (?n + 0))"
      by (rule holding_WriteByte [OF b0])
    obtain b2 where b2: "Buffer_WriteByte b1 (word_of_int (int ?n)) = Ok b2" "holding b2 (([] @ [word_of_int (int ?n div 256)]) @ [word_of_int (int ?n)]) (?n + 0)"
      by (rule holding_WriteByte [OF b1(2)])
    obtain b3 where b3: "Buffer_Write b2 (content b) = Some (b3, int ?n)" "holding b3 ((([] @ [word_of_int (int ?n div 256)]) @ [word_of_int (int ?n)]) @ content b) 0"
      by (rule holding_Write [OF b2(2)])
    have "(word_of_int (int ?n div 256) :: byte) = word_of_nat (?n div 256)" by (metis of_int_of_nat_eq zdiv_int of_nat_numeral)
    then have "content b3 = vless_packet (content b)" "wf_Buffer b3" using b3(2) True length_bytes(1) [of ?n] by (simp_all add: holding_def vless_packet_def fits_def)
    then show ?thesis using out b1(1) b2(1) b3(1) len skip True by (intro exI [of _ "b3 # out"]) simp
  qed (use out len skip in simp)
qed simp

text \<open>C35. UDP over VLESS arrives. The packets of at most 2046 bytes that are written are read back one by one, in order, each with exactly its
  bytes; empty and larger packets are left out without an error, and do not disturb the others.\<close>

theorem vless_packets_roundtrip:
  assumes "length p = 2048" and "length q = 2048" and "wf_mb mb" and "\<forall>b \<in> set mb. length (content b) < 65536" and "length mb < 64 * 1024 * 1024"
  shows "\<exists>out qs. MultiLengthPacketWriter_WriteMultiBuffer p collect [] mb = Some (out, None) \<and>
     read_many (LengthPacketReader_ReadMultiBuffer q) (length (filter fits mb)) (out @ rest) = Ok (qs, rest) \<and>
     map mb_content qs = map content (filter fits mb)"
proof -
  obtain out where out: "length_packets p mb = Some out" "wf_mb out" "mb_content out = concat (map (\<lambda>b. vless_packet (content b)) (filter fits mb))"
    using length_packets_ok [OF assms(1,3,4)] by blast
  let ?ps = "map content (filter fits mb)"
  have w: "MultiLengthPacketWriter_WriteMultiBuffer p collect [] mb = Some (concat (map vless_packet ?ps), None)"
    using out assms(5) MultiBuffer_IsEmpty_content [OF out(2)] by (simp add: MultiLengthPacketWriter_WriteMultiBuffer_def collect_def comp_def)
  have "list_all (\<lambda>payload. length payload < 65536 \<and> length q = 2048) ?ps" using assms(2,4) by (simp add: list_all_iff)
  then obtain qs where qs: "read_many (LengthPacketReader_ReadMultiBuffer q) (length ?ps) (concat (map vless_packet ?ps) @ rest) = Ok (qs, rest)"
      "list_all2 (\<lambda>payload mb. wf_mb mb \<and> mb_content mb = payload) ?ps qs"
    using vless_packets.dec_many [of q ?ps rest] by blast
  have "map mb_content qs = ?ps" using qs(2) by (auto simp: list_all2_conv_all_nth intro!: nth_equalityI)
  then show ?thesis using w qs(1) by auto
qed

lemma sample_buffer: "n \<le> 2048 \<Longrightarrow> wf_Buffer (Buffer_FromBytes (replicate n x)) \<and> content (Buffer_FromBytes (replicate n x)) = replicate n x"
  by (simp add: Buffer_FromBytes_def wf_Buffer_def content_def i32_id)

theorem vless_packets_roundtrip_witness:
  "\<exists>out qs. MultiLengthPacketWriter_WriteMultiBuffer (replicate 2048 0) collect [] [Buffer_FromBytes (replicate 3 7), Buffer_FromBytes (replicate 2048 1)] = Some (out, None) \<and>
     read_many (LengthPacketReader_ReadMultiBuffer (replicate 2048 0)) 1 (out @ [5]) = Ok (qs, [5]) \<and> map mb_content qs = [replicate 3 7]"
proof -
  let ?a = "Buffer_FromBytes (replicate 3 7)" and ?b = "Buffer_FromBytes (replicate 2048 1)"
  have c: "wf_Buffer ?a" "content ?a = replicate 3 7" "wf_Buffer ?b" "content ?b = replicate 2048 1" using sample_buffer [of 3 7] sample_buffer [of 2048 1] by simp_all
  then have f: "fits ?a" "\<not> fits ?b" by (simp_all add: fits_def)
  have h: "length (replicate 2048 (0 :: byte)) = 2048" "wf_mb [?a, ?b]" "\<forall>b \<in> set [?a, ?b]. length (content b) < 65536" "length [?a, ?b] < 64 * 1024 * 1024" using c by simp_all
  show ?thesis using vless_packets_roundtrip [OF h(1,1-4), of "[5]"] f c(2) by simp
qed

text \<open>A packet that fills its buffer is lost without an error.\<close>

lemma vless_large_packet_dropped:
  "MultiLengthPacketWriter_WriteMultiBuffer p wr w [Buffer_FromBytes (replicate 2047 x)] = Some (w, None)"
  using sample_buffer [of 2047 x] by (simp add: MultiLengthPacketWriter_WriteMultiBuffer_def Buffer_Len_content Size_def i32_id)

end
